(* ===== verification/Prelude.thy ===== *)
theory Prelude
  imports Main "HOL-Library.Word"
begin

unbundle bit_operations_syntax

text \<open>
  Shared types, combinators and lemmas. A byte is an \<open>8 word\<close>. The codec's wider
  unsigned integers (\<open>u16\<close>, \<open>u32\<close>, \<open>u64\<close>, \<open>u128\<close>, \<open>usize\<close>)
  are natural numbers, with the truncation to the width written out (\<open>take_bit\<close>,
  \<open>checked_add\<close>) wherever the source can reach it. Everything on the wire is specified
  over lists of bits, least significant bit first: \<open>bits_of_nat n v\<close> is the field of
  \<open>n\<close> bits holding \<open>v\<close>, \<open>nat_of_bits\<close> its inverse, \<open>bytes_bits\<close> the bits
  of a byte string. A fallible resumable step of the decoder returns
  \<open>(error + 'a option) \<times> state\<close>, the code's \<open>Result<Option<T>, E>\<close> and the
  state it leaves behind; \<open>need\<close> and \<open>attempt\<close> are its two early-return idioms.
\<close>

type_synonym u8 = "8 word"

named_theorems bit_list_simps "conversions between numbers, bytes and bit lists"
named_theorems control_simps "early-return combinators on known results"

section \<open>Machine arithmetic\<close>

definition checked_add :: "nat \<Rightarrow> nat \<Rightarrow> nat \<Rightarrow> nat option" where
  "checked_add w a b = (if a + b < 2 ^ w then Some (a + b) else None)"

definition wrapping_add :: "nat \<Rightarrow> nat \<Rightarrow> nat \<Rightarrow> nat" where
  "wrapping_add w a b = (a + b) mod 2 ^ w"

definition wrapping_sub :: "nat \<Rightarrow> nat \<Rightarrow> nat \<Rightarrow> nat" where
  "wrapping_sub w a b = (a + (2 ^ w - b mod 2 ^ w)) mod 2 ^ w"

definition shl :: "nat \<Rightarrow> nat \<Rightarrow> nat \<Rightarrow> nat" where
  "shl w v n = take_bit w (push_bit n v)"

definition shr :: "nat \<Rightarrow> nat \<Rightarrow> nat" where
  "shr v n = drop_bit n v"

lemma shr_div: "shr v n = v div 2 ^ n"
  by (simp add: shr_def drop_bit_eq_div)

lemma shl_exact: "v * 2 ^ n < 2 ^ w \<Longrightarrow> shl w v n = v * 2 ^ n"
  by (simp add: shl_def push_bit_eq_mult take_bit_nat_eq_self)

section \<open>Early returns\<close>

text \<open>\<open>let Some(v) = e? else { return Ok(None) };\<close>\<close>

fun need :: "('e + 'a option) \<times> 's \<Rightarrow> ('a \<Rightarrow> 's \<Rightarrow> ('e + 'b option) \<times> 's)
    \<Rightarrow> ('e + 'b option) \<times> 's" where
  "need (Inl e, s) k = (Inl e, s)"
| "need (Inr None, s) k = (Inr None, s)"
| "need (Inr (Some v), s) k = k v s"

text \<open>\<open>let v = e?;\<close>\<close>

fun attempt :: "('e + 'a) \<times> 's \<Rightarrow> ('a \<Rightarrow> 's \<Rightarrow> ('e + 'b) \<times> 's) \<Rightarrow> ('e + 'b) \<times> 's" where
  "attempt (Inl e, s) k = (Inl e, s)"
| "attempt (Inr v, s) k = k v s"

lemma need_split: "P (need r k) \<longleftrightarrow>
    (\<forall>e s. r = (Inl e, s) \<longrightarrow> P (Inl e, s)) \<and> (\<forall>s. r = (Inr None, s) \<longrightarrow> P (Inr None, s)) \<and>
    (\<forall>v s. r = (Inr (Some v), s) \<longrightarrow> P (k v s))"
  by (cases "(r, k)" rule: need.cases) auto

text \<open>The result of a step that found too little input: wait for more, or the error of a limit.\<close>

fun stall :: "'e option \<Rightarrow> 'e + 'a option" where
  "stall None = Inr None"
| "stall (Some e) = Inl e"

lemma need_stall [simp]: "need (stall e, s) k = (stall e, s)"
  by (cases e) simp_all

lemma stall_neq [simp]: "stall e \<noteq> Inr (Some v)" "Inr (Some v) \<noteq> stall e"
  by (cases e; simp)+

section \<open>Bits of numbers and bytes\<close>

definition nat_of_bits :: "bool list \<Rightarrow> nat" where
  "nat_of_bits bs = horner_sum of_bool 2 bs"

definition bits_of_nat :: "nat \<Rightarrow> nat \<Rightarrow> bool list" where
  "bits_of_nat n v = map (bit v) [0..<n]"

definition byte_bits :: "u8 \<Rightarrow> bool list" where
  "byte_bits b = map (bit b) [0..<8]"

fun bytes_bits :: "u8 list \<Rightarrow> bool list" where
  "bytes_bits [] = []"
| "bytes_bits (b # bs) = byte_bits b @ bytes_bits bs"

fun from_le_bytes :: "u8 list \<Rightarrow> nat" where
  "from_le_bytes [] = 0"
| "from_le_bytes (b # bs) = unat b + 256 * from_le_bytes bs"

definition to_le_bytes :: "nat \<Rightarrow> nat \<Rightarrow> u8 list" where
  "to_le_bytes k v = map (\<lambda>i. word_of_nat (drop_bit (8 * i) v)) [0..<k]"

lemma unat_less_exp: "unat (w :: 'a::len word) < 2 ^ LENGTH('a)"
  by (rule unsigned_less)

lemma length_bits_of_nat [simp]: "length (bits_of_nat n v) = n"
  by (simp add: bits_of_nat_def)

lemma bits_of_nat_0 [simp]: "bits_of_nat 0 v = []"
  by (simp add: bits_of_nat_def)

lemma nth_bits_of_nat [simp]: "i < n \<Longrightarrow> bits_of_nat n v ! i = bit v i"
  by (simp add: bits_of_nat_def)

lemma length_byte_bits [simp]: "length (byte_bits b) = 8"
  by (simp add: byte_bits_def)

lemma nth_byte_bits [simp]: "i < 8 \<Longrightarrow> byte_bits b ! i = bit b i"
  by (simp add: byte_bits_def)

lemma length_bytes_bits [simp]: "length (bytes_bits bs) = 8 * length bs"
  by (induction bs) auto

lemma bytes_bits_append [simp]: "bytes_bits (xs @ ys) = bytes_bits xs @ bytes_bits ys"
  by (induction xs) auto

lemma nth_bytes_bits: "i < 8 * length bs \<Longrightarrow> bytes_bits bs ! i = bit (bs ! (i div 8)) (i mod 8)"
proof (induction bs arbitrary: i)
  case (Cons b bs)
  show ?case
  proof (cases "i < 8")
    case False
    then have "i div 8 = Suc ((i - 8) div 8)" "i mod 8 = (i - 8) mod 8"
      by (simp_all add: le_div_geq le_mod_geq)
    with False Cons show ?thesis by (simp add: nth_append)
  qed (simp add: nth_append)
qed simp

lemma drop_bytes_bits: "drop (8 * n) (bytes_bits bs) = bytes_bits (drop n bs)"
  by (rule nth_equalityI) (auto simp: nth_bytes_bits algebra_simps div_add1_eq)

lemma take_bytes_bits: "take (8 * n) (bytes_bits bs) = bytes_bits (take n bs)"
  by (rule nth_equalityI) (auto simp: nth_bytes_bits)

lemma nat_of_bits_Nil [simp]: "nat_of_bits [] = 0"
  by (simp add: nat_of_bits_def)

lemma nat_of_bits_Cons [simp]: "nat_of_bits (b # bs) = of_bool b + 2 * nat_of_bits bs"
  by (simp add: nat_of_bits_def)

lemma nat_of_bits_append [simp]:
  "nat_of_bits (xs @ ys) = nat_of_bits xs + 2 ^ length xs * nat_of_bits ys"
  by (induction xs) (auto simp: algebra_simps)

lemma bit_nat_of_bits [simp]: "bit (nat_of_bits bs) i \<longleftrightarrow> i < length bs \<and> bs ! i"
  by (simp add: nat_of_bits_def bit_horner_sum_bit_iff)

lemma nat_of_bits_less [simp]: "nat_of_bits bs < 2 ^ length bs"
  by (induction bs) (auto simp: of_bool_def)

lemma nat_of_bits_bound: "length bs \<le> n \<Longrightarrow> nat_of_bits bs < 2 ^ n"
  by (meson nat_of_bits_less one_le_numeral order_less_le_trans power_increasing)

lemma nat_of_bits_of_nat: "nat_of_bits (bits_of_nat n v) = take_bit n v"
  by (simp add: nat_of_bits_def bits_of_nat_def horner_sum_bit_eq_take_bit)

lemma nat_of_bits_of_nat_id [simp]: "v < 2 ^ n \<Longrightarrow> nat_of_bits (bits_of_nat n v) = v"
  by (simp add: nat_of_bits_of_nat take_bit_nat_eq_self)

lemma bits_of_nat_of_bits [simp]: "bits_of_nat (length bs) (nat_of_bits bs) = bs"
  by (rule nth_equalityI) auto

lemma bits_of_nat_add: "bits_of_nat (m + n) v = bits_of_nat m v @ bits_of_nat n (drop_bit m v)"
  by (rule nth_equalityI) (auto simp: nth_append bit_drop_bit_eq)

lemma take_bits_of_nat: "k \<le> n \<Longrightarrow> take k (bits_of_nat n v) = bits_of_nat k v"
  by (rule nth_equalityI) auto

lemma drop_bits_of_nat: "drop k (bits_of_nat n v) = bits_of_nat (n - k) (drop_bit k v)"
  by (rule nth_equalityI) (auto simp: bit_drop_bit_eq add.commute)

lemma bits_of_nat_take_bit [simp]: "n \<le> m \<Longrightarrow> bits_of_nat n (take_bit m v) = bits_of_nat n v"
  by (rule nth_equalityI) (auto simp: bit_take_bit_iff)

lemma bits_of_nat_cong: "(\<And>i. i < n \<Longrightarrow> bit v i = bit w i) \<Longrightarrow> bits_of_nat n v = bits_of_nat n w"
  by (rule nth_equalityI) auto

lemma bits_of_nat_inj: "bits_of_nat n v = bits_of_nat n w \<Longrightarrow> v < 2 ^ n \<Longrightarrow> w < 2 ^ n \<Longrightarrow> v = w"
  by (metis nat_of_bits_of_nat_id)

lemma nat_eqI_below:
  fixes v w :: nat
  assumes "v < 2 ^ n" "w < 2 ^ n" "\<And>i. i < n \<Longrightarrow> bit v i = bit w i"
  shows "v = w"
  using assms bits_of_nat_cong bits_of_nat_inj by metis

lemma not_bit_nat_of_less: "(v::nat) < 2 ^ n \<Longrightarrow> n \<le> i \<Longrightarrow> \<not> bit v i"
  by (metis bit_take_bit_iff not_le take_bit_nat_eq_self_iff)

lemma nat_less_of_bits: "(\<And>i. n \<le> i \<Longrightarrow> \<not> bit (v::nat) i) \<Longrightarrow> v < 2 ^ n"
  by (metis bit_eq_iff bit_take_bit_iff not_less take_bit_nat_less_exp)

lemma bit_unat [simp]: "bit (unat (b :: 'a::len word)) i = bit b i"
  by (auto simp: bit_simps dest: bit_imp_le_length)

lemma from_le_bytes_bits: "from_le_bytes bs = nat_of_bits (bytes_bits bs)"
proof (induction bs)
  case (Cons b bs)
  have "nat_of_bits (byte_bits b) = unat b"
  proof (rule nat_eqI_below [where n = 8])
    show "unat b < 2 ^ 8" using unat_less_exp [of b] by simp
    show "nat_of_bits (byte_bits b) < 2 ^ 8" by (rule nat_of_bits_bound) simp
  qed simp
  with Cons show ?case by simp
qed simp

lemma length_to_le_bytes [simp]: "length (to_le_bytes k v) = k"
  by (simp add: to_le_bytes_def)

lemma bytes_bits_to_le_bytes: "bytes_bits (to_le_bytes k v) = bits_of_nat (8 * k) v"
proof (rule nth_equalityI)
  fix i assume "i < length (bytes_bits (to_le_bytes k v))"
  then have "i < 8 * k" by simp
  moreover have "8 * (i div 8) + i mod 8 = i" by presburger
  ultimately show "bytes_bits (to_le_bytes k v) ! i = bits_of_nat (8 * k) v ! i"
    by (simp add: nth_bytes_bits to_le_bytes_def bit_simps less_mult_imp_div_less mult.commute)
qed simp

lemma unat_byte_less [simp]: "unat (b :: u8) < 256"
  using unat_less_exp [of b] by simp

lemma bit_low_mask [simp]: "bit ((2::nat) ^ m - 1) k \<longleftrightarrow> k < m" "bit ((2::nat) ^ m - Suc 0) k \<longleftrightarrow> k < m"
  using bit_mask_iff [of m k, where 'a = nat] by (simp_all add: mask_eq_exp_minus_1)

lemma byte_round_up: "(x + 7) div 8 * 8 = x + (8 - x mod 8) mod (8::nat)"
proof -
  define q r where "q = x div 8" and "r = x mod 8"
  have x: "x = 8 * q + r" and "r < 8" by (simp_all add: q_def r_def)
  have "(8 * q + r + 7) div 8 = q + (r + 7) div 8" "x mod 8 = r"
    using \<open>r < 8\<close> by (simp_all add: r_def)
  moreover have "(r + 7) div 8 * 8 = r + (8 - r) mod 8"
    using \<open>r < 8\<close> by (cases "r = 0") (simp_all add: le_div_geq)
  ultimately show ?thesis unfolding x by simp
qed

lemma drop_split: "m \<le> c \<Longrightarrow> c \<le> length xs \<Longrightarrow> drop m xs = drop m (take c xs) @ drop c xs"
  by (subst append_take_drop_id [of c xs, symmetric], subst drop_append) simp

lemma AND_mask_nat: "(v::nat) AND (2 ^ n - 1) = v mod 2 ^ n"
  unfolding mask_eq_exp_minus_1 [symmetric] take_bit_eq_mask [symmetric] take_bit_eq_mod ..

lemma nat_of_bits_take: "nat_of_bits (take m xs) = nat_of_bits xs mod 2 ^ m"
  unfolding take_bit_eq_mod [symmetric] by (rule bit_eqI) (auto simp: bit_take_bit_iff)

lemma nat_of_bits_drop: "nat_of_bits (drop m xs) = nat_of_bits xs div 2 ^ m"
  unfolding drop_bit_eq_div [symmetric] by (rule bit_eqI) (auto simp: bit_drop_bit_eq)

lemma take_eq_bits_of_nat:
  "n \<le> length xs \<Longrightarrow> take n xs = bits_of_nat n v \<longleftrightarrow> nat_of_bits xs mod 2 ^ n = v mod 2 ^ n"
proof
  assume "take n xs = bits_of_nat n v"
  then have "nat_of_bits (take n xs) = nat_of_bits (bits_of_nat n v)" by simp
  then show "nat_of_bits xs mod 2 ^ n = v mod 2 ^ n"
    by (simp add: nat_of_bits_take nat_of_bits_of_nat take_bit_eq_mod)
next
  assume n: "n \<le> length xs" and "nat_of_bits xs mod 2 ^ n = v mod 2 ^ n"
  then have "nat_of_bits (take n xs) = nat_of_bits (bits_of_nat n v)"
    by (simp add: nat_of_bits_take nat_of_bits_of_nat take_bit_eq_mod)
  then show "take n xs = bits_of_nat n v"
    using bits_of_nat_of_bits [of "take n xs"] bits_of_nat_of_bits [of "bits_of_nat n v"] n by simp
qed

lemma starts_with_field:
  "xs = bits_of_nat n v @ ys \<longleftrightarrow>
     n \<le> length xs \<and> nat_of_bits xs mod 2 ^ n = v mod 2 ^ n \<and> ys = drop n xs"
proof
  assume a: "xs = bits_of_nat n v @ ys"
  then have "n \<le> length xs" "take n xs = bits_of_nat n v" "ys = drop n xs" by simp_all
  then show "n \<le> length xs \<and> nat_of_bits xs mod 2 ^ n = v mod 2 ^ n \<and> ys = drop n xs"
    using take_eq_bits_of_nat by blast
next
  assume "n \<le> length xs \<and> nat_of_bits xs mod 2 ^ n = v mod 2 ^ n \<and> ys = drop n xs"
  then show "xs = bits_of_nat n v @ ys"
    by (metis append_take_drop_id take_eq_bits_of_nat)
qed

lemma push_or_low:
  assumes "l < 2 ^ n"
  shows "push_bit n h OR l = h * 2 ^ n + (l :: nat)"
proof -
  have "push_bit n h + l = push_bit n h OR l"
    by (rule disjunctive_add) (use not_bit_nat_of_less [OF assms] in \<open>auto simp: bit_push_bit_iff\<close>)
  then show ?thesis by (simp add: push_bit_eq_mult)
qed

lemma shl_or_low:
  assumes "l < 2 ^ n" "h * 2 ^ n < 2 ^ w"
  shows "shl w h n OR l = h * 2 ^ n + l"
  unfolding push_or_low [OF assms(1), symmetric]
  using shl_exact [OF assms(2)] by (simp add: push_bit_eq_mult)

lemma residue_residue: "m \<le> n \<Longrightarrow> v mod 2 ^ n mod 2 ^ m = v mod (2 :: nat) ^ m"
  by (simp add: mod_mod_cancel le_imp_power_dvd)

lemma low_part: "v mod (a * b) = h * a + l \<Longrightarrow> l < a \<Longrightarrow> v mod a = (l :: nat)"
  by (metis mod_less mod_mult_self3 mod_mod_cancel dvd_triv_left)

lemma join_parts: "v mod a = l \<Longrightarrow> v mod (a * b) = (v mod (a * b) div a) * a + (l :: nat)"
  by (metis div_mult_mod_eq mod_mod_cancel dvd_triv_left)

lemma shr_nat_of_bits [bit_list_simps]: "shr (nat_of_bits xs) n = nat_of_bits (drop n xs)"
  by (simp add: shr_div nat_of_bits_drop)

lemma mask_nat_of_bits [bit_list_simps]: "nat_of_bits xs AND (2 ^ n - 1) = nat_of_bits (take n xs)"
  unfolding AND_mask_nat nat_of_bits_take ..

lemma low_bit_nat_of_bits [bit_list_simps]: "nat_of_bits (b # xs) AND 1 = of_bool b"
  using mask_nat_of_bits [of "b # xs" 1] by simp

text \<open>Evaluation of bit lists on numerals.\<close>

named_theorems bit_eval "bits of concrete numbers and bytes"

lemma bits_of_nat_Suc: "bits_of_nat (Suc n) v = odd v # bits_of_nat n (v div 2)"
  by (rule nth_equalityI) (auto simp: nth_Cons bit_0 bit_Suc split: nat.split)

lemma bits_of_nat_numeral [bit_eval]:
  "bits_of_nat (numeral k) v = odd v # bits_of_nat (pred_numeral k) (v div 2)"
  "bits_of_nat 1 v = [odd v]" "bits_of_nat (Suc 0) v = [odd v]"
  by (simp_all add: numeral_eq_Suc bits_of_nat_Suc)

lemma byte_bits_nat [bit_eval]: "byte_bits b = bits_of_nat 8 (unat b)"
  by (rule nth_equalityI) auto

end
