(* ===== verification/Decode_Error.thy ===== *)
theory Decode_Error
  imports Prelude
begin

text \<open>
  The decoder's error values (\<open>decompressor/error.rs\<close>), as far as the raw decoder
  constructs them. \<open>From<InvalidDataKind>\<close> is the constructor \<open>InvalidData\<close>.
\<close>

datatype invalid_data_kind =
    Header
  | MetaBlock
  | Huffman
  | ContextMap
  | Distance
  | DictionaryReference
  | Padding

datatype decode_error =
    InvalidData invalid_data_kind
  | UnexpectedEndOfInput
  | TrailingData nat
  | OutputTooSmall nat
  | OutputSizeMismatch nat nat
  | InputLimitExceeded nat
  | OutputLimitExceeded nat
  | WindowLimitExceeded nat nat
  | LargeWindowDisabled
  | MemoryLimitExceeded nat
  | AllocationFailed
  | SizeOverflow
  | AbandonedSession
  | InvalidState
  | InternalInvariant

end
