(* ===== verification/Bit_Reader.thy ===== *)
theory Bit_Reader
  imports Decode_Error
begin

unbundle bit_operations_syntax

text \<open>
  The demand-driven bit reader (\<open>decompressor/core/bits.rs\<close>). The reservoir \<open>Bits\<close>
  is \<open>bits\<close>: a \<open>u64\<close> value and a \<open>u32\<close> bit count; one call's \<open>Input\<close> is
  \<open>input\<close>. A reader state pairs them, since every operation takes both by mutable
  reference. \<open>stream\<close> is what is still to be read: the buffered bits followed by the
  acceptable input bytes not yet consumed; \<open>reader_ok\<close> is the reservoir's invariant,
  which allows for the read-ahead bits a whole-word refill leaves above the count.
  \<open>stream_source\<close> is the interface the parsers rely on, interpreted at the end.
\<close>

section \<open>State and operations\<close>

record bits =
  bvalue :: nat
  bcount :: nat

record input =
  in_bytes :: "u8 list"
  consumed :: nat
  total_before :: nat
  in_limit :: "nat option"
  fast_end :: nat

type_synonym reader = "bits \<times> input"

definition MAX_PEEK :: nat where
  "MAX_PEEK = 56"

definition bits_default :: bits where
  "bits_default = \<lparr>bvalue = 0, bcount = 0\<rparr>"

text \<open>On every target \<open>usize::try_from(budget)\<close> either succeeds or exceeds the slice length.\<close>

definition input_new :: "u8 list \<Rightarrow> nat \<Rightarrow> nat option \<Rightarrow> input" where
  "input_new bytes before limit =
     (let budget = min (case limit of None \<Rightarrow> 2 ^ 64 - 1 | Some l \<Rightarrow> l - before)
                       (2 ^ 64 - 1 - before)
      in \<lparr>in_bytes = bytes, consumed = 0, total_before = before, in_limit = limit,
          fast_end = min budget (length bytes)\<rparr>)"

definition bit_mask :: "nat \<Rightarrow> nat" where
  "bit_mask n = 2 ^ n - 1"

definition load_byte :: "reader \<Rightarrow> (decode_error + bool) \<times> reader" where
  "load_byte s = (case s of (b, i) \<Rightarrow>
     if consumed i < length (in_bytes i) then
       (let byte = in_bytes i ! consumed i in
        case Option.bind (checked_add 64 (total_before i) (consumed i)) (\<lambda>v. checked_add 64 v 1) of
          None \<Rightarrow> (Inl SizeOverflow, s)
        | Some next \<Rightarrow>
            (case in_limit i of
               Some limit \<Rightarrow> if next > limit then (Inl (InputLimitExceeded limit), s)
                 else (Inr True, b\<lparr>bvalue := bvalue b OR shl 64 (unat byte) (bcount b),
                                   bcount := bcount b + 8\<rparr>, i\<lparr>consumed := consumed i + 1\<rparr>)
             | None \<Rightarrow> (Inr True, b\<lparr>bvalue := bvalue b OR shl 64 (unat byte) (bcount b),
                                   bcount := bcount b + 8\<rparr>, i\<lparr>consumed := consumed i + 1\<rparr>)))
     else (Inr False, s))"

lemma load_byte_consumes:
  "load_byte (b, i) = (Inr True, b', i') \<Longrightarrow>
     consumed i < length (in_bytes i) \<and> i' = i\<lparr>consumed := consumed i + 1\<rparr>"
  by (auto simp: load_byte_def Let_def split: if_splits option.splits)

text \<open>
  \<open>peek\<close>: the loop \<open>while self.count < count { if !self.load_byte(input)? { return
  Ok(None); } }\<close>, then the masked value.
\<close>

function peek :: "nat \<Rightarrow> reader \<Rightarrow> (decode_error + nat option) \<times> reader" where
  "peek n (b, i) =
     (if bcount b < n then
        (case load_byte (b, i) of
           (Inl e, s) \<Rightarrow> (Inl e, s)
         | (Inr False, s) \<Rightarrow> (Inr None, s)
         | (Inr True, s) \<Rightarrow> peek n s)
      else (Inr (Some (bvalue b AND bit_mask n)), b, i))"
  by pat_completeness auto
termination
  by (relation "measure (\<lambda>(n, b, i). length (in_bytes i) - consumed i)")
     (auto dest!: load_byte_consumes [OF sym])

declare peek.simps [simp del]

text \<open>The unread part of the prefix this call may accept without per-byte limit checks.\<close>

definition acceptable :: "input \<Rightarrow> u8 list" where
  "acceptable i = drop (consumed i) (take (fast_end i) (in_bytes i))"

text \<open>\<open>refill_from(&bytes[..fast_end], consumed)\<close>, the whole-word refill.\<close>

definition refill :: "reader \<Rightarrow> bool \<times> reader" where
  "refill s = (case s of (b, i) \<Rightarrow>
     let rest = acceptable i in
     if length rest < 8 then (bcount b > MAX_PEEK, s)
     else
       (let n = (63 - bcount b) div 8 in
        (True, b\<lparr>bvalue := bvalue b OR shl 64 (from_le_bytes (take 8 rest)) (bcount b),
                 bcount := bcount b + n * 8\<rparr>, i\<lparr>consumed := consumed i + n\<rparr>)))"

definition settle :: "bits \<Rightarrow> bits" where
  "settle b = b\<lparr>bvalue := bvalue b AND bit_mask (bcount b)\<rparr>"

definition unread :: "reader \<Rightarrow> reader" where
  "unread s = (case s of (b, i) \<Rightarrow>
     let whole = min (bcount b div 8) (min (consumed i) 8);
         b' = b\<lparr>bcount := bcount b - whole * 8\<rparr>
     in (if bcount b' < 64 then b'\<lparr>bvalue := bvalue b' AND bit_mask (bcount b')\<rparr> else b',
         i\<lparr>consumed := consumed i - whole\<rparr>))"

definition drop_bits :: "nat \<Rightarrow> bits \<Rightarrow> bits" where
  "drop_bits n b = b\<lparr>bvalue := shr (bvalue b) n, bcount := bcount b - n\<rparr>"

definition discard :: "nat \<Rightarrow> reader \<Rightarrow> reader" where
  "discard n s = (drop_bits n (fst s), snd s)"

definition take_bits :: "nat \<Rightarrow> bits \<Rightarrow> nat \<times> bits" where
  "take_bits n b = (bvalue b AND bit_mask n, drop_bits n b)"

definition read :: "nat \<Rightarrow> reader \<Rightarrow> (decode_error + nat option) \<times> reader" where
  "read n s = (case peek n s of
     (Inl e, s') \<Rightarrow> (Inl e, s')
   | (Inr v, s') \<Rightarrow> (Inr v, if v \<noteq> None then discard n s' else s'))"

definition align :: "bits \<Rightarrow> (decode_error + unit) \<times> bits" where
  "align b = (let padding = bcount b mod 8 in
     if bvalue b AND bit_mask padding \<noteq> 0 then (Inl (InvalidData Padding), b)
     else (Inr (), drop_bits padding b))"

definition align_reader :: "reader \<Rightarrow> (decode_error + unit) \<times> reader" where
  "align_reader s = (case align (fst s) of (r, b) \<Rightarrow> (r, b, snd s))"

definition uint8 :: "reader \<Rightarrow> (decode_error + nat option) \<times> reader" where
  "uint8 s0 =
     need (peek 1 s0) (\<lambda>first s1.
     if first = 0 then (Inr (Some 0), discard 1 s1)
     else need (peek 4 s1) (\<lambda>head s2.
     let n = shr head 1 in
     if n = 0 then (Inr (Some 1), discard 4 s2)
     else need (peek (4 + n) s2) (\<lambda>all s3.
     (Inr (Some (2 ^ n + shr all 4)), discard (4 + n) s3))))"

section \<open>The stream a reader state stands for\<close>

definition stream :: "reader \<Rightarrow> bool list" where
  "stream s = bits_of_nat (bcount (fst s)) (bvalue (fst s)) @ bytes_bits (acceptable (snd s))"

definition input_ok :: "input \<Rightarrow> bool" where
  "input_ok i \<longleftrightarrow> fast_end i = fast_end (input_new (in_bytes i) (total_before i) (in_limit i)) \<and>
     consumed i \<le> fast_end i \<and> total_before i < 2 ^ 64"

definition reader_ok :: "reader \<Rightarrow> bool" where
  "reader_ok s \<longleftrightarrow> input_ok (snd s) \<and> bcount (fst s) \<le> 64 \<and> bvalue (fst s) < 2 ^ 64 \<and>
     (\<forall>j. bit (bvalue (fst s)) j \<longrightarrow> j < length (stream s) \<and> stream s ! j)"

definition buffered :: "reader \<Rightarrow> nat" where
  "buffered s = bcount (fst s)"

text \<open>What a reader reports when the acceptable input runs out: a request for more, or the limit.\<close>

definition starved :: "reader \<Rightarrow> decode_error option" where
  "starved s = (let i = snd s in
     if fast_end i = length (in_bytes i) then None
     else if 2 ^ 64 \<le> total_before i + fast_end i + 1 then Some SizeOverflow
     else Some (InputLimitExceeded (the (in_limit i))))"

lemma reader_okD:
  assumes "reader_ok s"
  shows "input_ok (snd s)" "bcount (fst s) \<le> 64" "bvalue (fst s) < 2 ^ 64"
    "\<And>j. bit (bvalue (fst s)) j \<Longrightarrow> j < length (stream s)"
    "\<And>j. bit (bvalue (fst s)) j \<Longrightarrow> stream s ! j"
  using assms by (auto simp: reader_ok_def)

lemma input_ok_len: "input_ok i \<Longrightarrow> fast_end i \<le> length (in_bytes i)"
  by (auto simp: input_ok_def input_new_def Let_def)

lemma reader_ok_new:
  assumes "before < 2 ^ 64"
  shows "reader_ok (bits_default, input_new bytes before limit)"
  using assms by (auto simp: reader_ok_def bits_default_def input_ok_def input_new_def Let_def)

lemma stream_new:
  "stream (bits_default, input_new bytes before limit) =
     bytes_bits (take (fast_end (input_new bytes before limit)) bytes)"
  by (simp add: stream_def bits_default_def acceptable_def input_new_def Let_def)

lemma buffered_le_stream: "buffered s \<le> length (stream s)"
  by (simp add: buffered_def stream_def)

text \<open>
  Appending input bits above the count: shared by the byte load and the word refill, whose
  word also carries the bits that follow the bytes it accepts.
\<close>

lemma absorb_bits:
  assumes S: "S = bits_of_nat c v @ bs @ R"
    and ok: "\<And>j. bit v j \<Longrightarrow> j < length S \<and> S ! j"
    and w: "\<And>j. bit w j \<longleftrightarrow> bit v j \<or> c \<le> j \<and> j < m \<and> (bs @ R) ! (j - c)"
    and m: "c + length bs \<le> m" "m \<le> length S"
  shows "bits_of_nat (c + length bs) w @ R = S"
    and "\<And>j. bit w j \<Longrightarrow> j < length S \<and> S ! j"
proof -
  have S_high: "S ! j = (bs @ R) ! (j - c)" if "c \<le> j" for j
    using that by (simp add: S nth_append)
  show "\<And>j. bit w j \<Longrightarrow> j < length S \<and> S ! j"
    using w ok m S_high by (meson order_less_le_trans)
  have "bits_of_nat (c + length bs) w = bits_of_nat c v @ bs"
  proof (rule nth_equalityI)
    fix j assume "j < length (bits_of_nat (c + length bs) w)"
    then have j: "j < c + length bs" by simp
    show "bits_of_nat (c + length bs) w ! j = (bits_of_nat c v @ bs) ! j"
    proof (cases "j < c")
      case True
      with j show ?thesis using w [of j] by (auto simp: nth_append)
    next
      case False
      with j have d: "j - c < length bs" by simp
      with False have "S ! j = bs ! (j - c)" by (simp add: S nth_append)
      with False j m d show ?thesis
        using w [of j] ok [of j] by (auto simp: nth_append)
    qed
  qed simp
  then show "bits_of_nat (c + length bs) w @ R = S" by (simp add: S)
qed

lemma acceptable_step:
  assumes "input_ok i" "consumed i < fast_end i"
  shows "acceptable i = in_bytes i ! consumed i # acceptable (i\<lparr>consumed := consumed i + 1\<rparr>)"
  using assms input_ok_len [of i] Cons_nth_drop_Suc [of "consumed i" "take (fast_end i) (in_bytes i)"]
  by (simp add: acceptable_def)

lemma load_byte_succeeds:
  assumes "input_ok i" "consumed i < fast_end i"
  shows "load_byte (b, i) =
    (Inr True, b\<lparr>bvalue := bvalue b OR shl 64 (unat (in_bytes i ! consumed i)) (bcount b),
                bcount := bcount b + 8\<rparr>, i\<lparr>consumed := consumed i + 1\<rparr>)"
  using assms
  by (cases "in_limit i") (auto simp: load_byte_def Let_def checked_add_def input_ok_def input_new_def)

lemma load_byte_fails:
  assumes "input_ok i" "consumed i = fast_end i"
  shows "load_byte (b, i) =
    (case starved (b, i) of Some e \<Rightarrow> Inl e | None \<Rightarrow> Inr False, b, i)"
  using assms
  by (cases "in_limit i") (auto simp: load_byte_def starved_def Let_def checked_add_def input_ok_def
      input_new_def min_def not_le split: if_splits)

lemma bit_shl: "bit (shl w v n) j \<longleftrightarrow> j < w \<and> n \<le> j \<and> bit v (j - n)"
  by (auto simp: shl_def bit_take_bit_iff bit_push_bit_iff)

lemma reader_okI:
  assumes "input_ok (snd s)" "bcount (fst s) \<le> 64" "bvalue (fst s) < 2 ^ 64"
    "\<And>j. bit (bvalue (fst s)) j \<Longrightarrow> j < length (stream s) \<and> stream s ! j"
  shows "reader_ok s"
  using assms by (simp add: reader_ok_def)

lemma or_shl_less: "v < 2 ^ 64 \<Longrightarrow> v OR shl 64 u c < 2 ^ 64"
  by (rule nat_less_of_bits) (auto simp: bit_or_iff bit_shl dest: not_bit_nat_of_less [of v 64, simplified])

lemma load_byte_stream:
  assumes ok: "reader_ok (b, i)" and c: "bcount b \<le> 56" and more: "consumed i < fast_end i"
    and ld: "load_byte (b, i) = (Inr True, b', i')"
  shows "reader_ok (b', i')" "stream (b', i') = stream (b, i)" "bcount b' = bcount b + 8"
    "i' = i\<lparr>consumed := consumed i + 1\<rparr>"
proof -
  let ?byte = "in_bytes i ! consumed i"
  have iok: "input_ok i" using ok by (simp add: reader_ok_def)
  have b': "b' = b\<lparr>bvalue := bvalue b OR shl 64 (unat ?byte) (bcount b), bcount := bcount b + 8\<rparr>"
    and i': "i' = i\<lparr>consumed := consumed i + 1\<rparr>"
    using ld load_byte_succeeds [OF iok more] by simp_all
  have iok': "input_ok i'" using iok more by (simp add: input_ok_def i')
  have S: "stream (b, i) = bits_of_nat (bcount b) (bvalue b) @ byte_bits ?byte @ bytes_bits (acceptable i')"
    using acceptable_step [OF iok more] by (simp add: stream_def i')
  have w: "bit (bvalue b') j \<longleftrightarrow> bit (bvalue b) j \<or>
      bcount b \<le> j \<and> j < bcount b + 8 \<and> (byte_bits ?byte @ bytes_bits (acceptable i')) ! (j - bcount b)"
    for j
  proof (cases "j < bcount b + 8")
    case True
    with c have "j < 64" by simp
    with True show ?thesis
      by (cases "j < bcount b") (auto simp: b' bit_or_iff bit_shl nth_append)
  next
    case False
    then have "\<not> bit ?byte (j - bcount b)" by (auto dest: bit_imp_le_length)
    with False show ?thesis by (simp add: b' bit_or_iff bit_shl)
  qed
  have old: "bit (bvalue b) j \<Longrightarrow> j < length (stream (b, i)) \<and> stream (b, i) ! j" for j
    using reader_okD(4,5) [OF ok] by simp
  have m: "bcount b + length (byte_bits ?byte) \<le> bcount b + 8" "bcount b + 8 \<le> length (stream (b, i))"
    by (simp_all add: S)
  note ab = absorb_bits [OF S old w m]
  show st: "stream (b', i') = stream (b, i)"
    using ab(1) by (simp add: stream_def b')
  show "reader_ok (b', i')"
    using iok' ab(2) or_shl_less reader_okD(3) [OF ok] c
    by (intro reader_okI) (simp_all add: st, simp_all add: b')
  show "bcount b' = bcount b + 8" "i' = i\<lparr>consumed := consumed i + 1\<rparr>" by (simp_all add: b' i')
qed

lemma starved_cong:
  "in_bytes (snd s) = in_bytes (snd t) \<Longrightarrow> total_before (snd s) = total_before (snd t) \<Longrightarrow>
   in_limit (snd s) = in_limit (snd t) \<Longrightarrow> fast_end (snd s) = fast_end (snd t) \<Longrightarrow> starved s = starved t"
  by (simp add: starved_def Let_def)

text \<open>
  \<open>same_call\<close>: the two states belong to one call, so only the cursor may differ.
\<close>

definition same_call :: "reader \<Rightarrow> reader \<Rightarrow> bool" where
  "same_call s t \<longleftrightarrow> in_bytes (snd s) = in_bytes (snd t) \<and> total_before (snd s) = total_before (snd t) \<and>
     in_limit (snd s) = in_limit (snd t) \<and> fast_end (snd s) = fast_end (snd t)"

lemma same_call_refl [simp]: "same_call s s"
  by (simp add: same_call_def)

lemma same_call_trans: "same_call s t \<Longrightarrow> same_call t u \<Longrightarrow> same_call s u"
  by (simp add: same_call_def)

lemma same_call_starved: "same_call s t \<Longrightarrow> starved t = starved s"
  by (rule starved_cong) (auto simp: same_call_def)

lemma acceptable_end: "consumed i = fast_end i \<Longrightarrow> input_ok i \<Longrightarrow> acceptable i = []"
  by (simp add: acceptable_def)

lemma AND_bit_mask [simp]: "v AND bit_mask n = take_bit n v"
  unfolding bit_mask_def AND_mask_nat take_bit_eq_mod ..

lemma masked_value:
  assumes "n \<le> bcount b"
  shows "bvalue b AND bit_mask n = nat_of_bits (take n (stream (b, i)))"
  using assms
  by (simp add: stream_def take_bits_of_nat nat_of_bits_of_nat)

lemma bit_mask_0 [simp]: "bit_mask 0 = 0"
  by (simp add: bit_mask_def)

text \<open>
  The specification of \<open>peek\<close>: with \<open>n\<close> bits left in the stream it yields the first
  \<open>n\<close>, and otherwise \<open>starved\<close>; in both cases the stream is unchanged.
\<close>

lemma peek_spec:
  assumes "reader_ok (b, i)" "n \<le> MAX_PEEK"
  shows "\<exists>s'. peek n (b, i) =
      (if n \<le> length (stream (b, i)) then Inr (Some (nat_of_bits (take n (stream (b, i)))))
       else stall (starved (b, i)), s') \<and>
    reader_ok s' \<and> stream s' = stream (b, i) \<and> same_call (b, i) s' \<and>
    (n \<le> length (stream (b, i)) \<longrightarrow> n \<le> buffered s')"
  using assms
proof (induction n "(b, i)" arbitrary: b i rule: peek.induct)
  case (1 n b i)
  note ok = "1.prems"(1) and n = "1.prems"(2)
  have iok: "input_ok i" using ok by (simp add: reader_ok_def)
  show ?case
  proof (cases "bcount b < n")
    case False
    then have "peek n (b, i) = (Inr (Some (bvalue b AND bit_mask n)), b, i)"
      by (subst peek.simps) simp
    with False show ?thesis
      using ok masked_value [of n b i] buffered_le_stream [of "(b, i)"]
      by (auto simp: buffered_def)
  next
    case short: True
    show ?thesis
    proof (cases "consumed i < fast_end i")
      case True
      obtain b' i' where ld: "load_byte (b, i) = (Inr True, b', i')"
        using load_byte_succeeds [OF iok True] by blast
      have "bcount b \<le> 56" using short n by (simp add: MAX_PEEK_def)
      note st = load_byte_stream [OF ok this True ld]
      have sc: "same_call (b, i) (b', i')" using st(4) by (simp add: same_call_def)
      have "peek n (b, i) = peek n (b', i')"
        using short ld by (subst peek.simps) simp
      moreover note "1.hyps" [OF short ld [symmetric] refl refl] 
      ultimately show ?thesis
        using st sc n by (auto simp: same_call_starved dest: same_call_trans)
    next
      case False
      with iok have e: "consumed i = fast_end i" by (simp add: input_ok_def)
      have "stream (b, i) = bits_of_nat (bcount b) (bvalue b)"
        using acceptable_end [OF e iok] by (simp add: stream_def)
      with short have len: "\<not> n \<le> length (stream (b, i))" by simp
      have "peek n (b, i) = (stall (starved (b, i)), b, i)"
        using short load_byte_fails [OF iok e, of b]
        by (subst peek.simps) (auto simp: starved_def Let_def)
      with len ok show ?thesis by simp
    qed
  qed
qed

text \<open>The loaded state, so that the specification is an equation.\<close>

definition loaded :: "nat \<Rightarrow> reader \<Rightarrow> reader" where
  "loaded n s = snd (peek n s)"

lemma peek_eq:
  assumes "reader_ok s" "n \<le> MAX_PEEK"
  shows "peek n s = (if n \<le> length (stream s) then Inr (Some (nat_of_bits (take n (stream s))))
           else stall (starved s), loaded n s)"
    and "reader_ok (loaded n s)" and "stream (loaded n s) = stream s"
    and "same_call s (loaded n s)" and "n \<le> length (stream s) \<Longrightarrow> n \<le> buffered (loaded n s)"
proof -
  obtain b i where s: "s = (b, i)" by (cases s)
  from peek_spec [of b i n] assms
  show "peek n s = (if n \<le> length (stream s) then Inr (Some (nat_of_bits (take n (stream s))))
           else stall (starved s), loaded n s)"
    and "reader_ok (loaded n s)" and "stream (loaded n s) = stream s"
    and "same_call s (loaded n s)" and "n \<le> length (stream s) \<Longrightarrow> n \<le> buffered (loaded n s)"
    unfolding s loaded_def by (auto simp del: peek.simps)
qed

lemma discard_stream: "n \<le> buffered s \<Longrightarrow> stream (discard n s) = drop n (stream s)"
  by (simp add: stream_def discard_def drop_bits_def buffered_def drop_bits_of_nat shr_def)

lemma discard_ok:
  assumes ok: "reader_ok s" and n: "n \<le> buffered s"
  shows "reader_ok (discard n s)"
proof (rule reader_okI)
  show "input_ok (snd (discard n s))" using ok by (simp add: reader_ok_def discard_def)
  show "bcount (fst (discard n s)) \<le> 64" using reader_okD(2) [OF ok] by (simp add: discard_def drop_bits_def)
  have "bvalue (fst (discard n s)) \<le> bvalue (fst s)"
    by (simp add: discard_def drop_bits_def shr_div)
  then show "bvalue (fst (discard n s)) < 2 ^ 64" using reader_okD(3) [OF ok] by linarith
  fix j assume "bit (bvalue (fst (discard n s))) j"
  then have "bit (bvalue (fst s)) (n + j)"
    by (simp add: discard_def drop_bits_def shr_def bit_drop_bit_eq)
  then show "j < length (stream (discard n s)) \<and> stream (discard n s) ! j"
    using reader_okD(4,5) [OF ok, of "n + j"] n by (simp add: discard_stream)
qed

lemma discard_same_call [simp]: "same_call s (discard n s)"
  by (simp add: same_call_def discard_def)

lemma discard_buffered: "buffered (discard n s) = buffered s - n"
  by (simp add: buffered_def discard_def drop_bits_def)

lemma read_eq:
  assumes "reader_ok s" "n \<le> MAX_PEEK" "n \<le> length (stream s)"
  shows "read n s = (Inr (Some (nat_of_bits (take n (stream s)))), discard n (loaded n s))"
    and "stream (discard n (loaded n s)) = drop n (stream s)"
    and "reader_ok (discard n (loaded n s))"
  using peek_eq [OF assms(1,2)] assms(3) by (auto simp: read_def discard_stream discard_ok)

lemma drop_acceptable:
  "acceptable (i\<lparr>consumed := consumed i + n\<rparr>) = drop n (acceptable i)"
  by (simp add: acceptable_def add.commute)

lemma refill_stream:
  assumes ok: "reader_ok s" and c: "buffered s < 64" and rf: "refill s = (r, s')"
  shows "reader_ok s'" "stream s' = stream s" "same_call s s'"
    and "r \<Longrightarrow> MAX_PEEK \<le> buffered s'"
    and "\<not> r \<Longrightarrow> s' = s \<and> buffered s \<le> MAX_PEEK \<and> length (acceptable (snd s)) < 8"
proof -
  obtain b i where s: "s = (b, i)" by (cases s)
  have iok: "input_ok i" using ok by (simp add: reader_ok_def s)
  have *: "reader_ok s' \<and> stream s' = stream s \<and> same_call s s' \<and> r \<and> MAX_PEEK \<le> buffered s'"
    if avail: "8 \<le> length (acceptable i)"
  proof -
    define n where "n = (63 - bcount b) div 8"
    define b' where "b' = b\<lparr>bvalue := bvalue b OR shl 64 (from_le_bytes (take 8 (acceptable i))) (bcount b),
        bcount := bcount b + n * 8\<rparr>"
    define i' where "i' = i\<lparr>consumed := consumed i + n\<rparr>"
    have res: "r" "s' = (b', i')"
      using rf avail unfolding s refill_def
      by (auto simp: Let_def n_def b'_def i'_def simp del: drop_append)
    have cb: "bcount b < 64" using c by (simp add: s buffered_def)
    have n: "n \<le> 7" "bcount b + 8 * n \<le> 63" "56 \<le> bcount b + 8 * n" using cb by (auto simp: n_def)
    have "consumed i + n \<le> fast_end i"
      using avail n iok by (simp add: acceptable_def input_ok_def)
    then have iok': "input_ok i'" using iok by (simp add: input_ok_def i'_def)
    have acc: "bytes_bits (acceptable i) = bytes_bits (take n (acceptable i)) @ bytes_bits (acceptable i')"
      unfolding i'_def drop_acceptable by (simp flip: bytes_bits_append)
    have S: "stream s = bits_of_nat (bcount b) (bvalue b) @ bytes_bits (take n (acceptable i)) @
        bytes_bits (acceptable i')"
      by (simp add: s stream_def acc)
    have len: "length (take n (acceptable i)) = n" using avail n by simp
    have w: "bit (bvalue b') j \<longleftrightarrow> bit (bvalue b) j \<or> bcount b \<le> j \<and> j < 64 \<and>
        (bytes_bits (take n (acceptable i)) @ bytes_bits (acceptable i')) ! (j - bcount b)" for j
    proof -
      have chunk: "bit (from_le_bytes (take 8 (acceptable i))) k \<longleftrightarrow> k < 64 \<and> bytes_bits (acceptable i) ! k" for k
      proof -
        have "bytes_bits (take 8 (acceptable i)) = take (8 * 8) (bytes_bits (acceptable i))"
          by (rule take_bytes_bits [symmetric])
        moreover have "length (bytes_bits (take 8 (acceptable i))) = 64" using avail by simp
        ultimately show ?thesis
          unfolding from_le_bytes_bits bit_nat_of_bits by (auto simp del: length_bytes_bits)
      qed
      have "bit (bvalue b') j \<longleftrightarrow> bit (bvalue b) j \<or>
          j < 64 \<and> bcount b \<le> j \<and> j - bcount b < 64 \<and> bytes_bits (acceptable i) ! (j - bcount b)"
        by (simp add: b'_def bit_or_iff bit_shl chunk)
      then show ?thesis unfolding acc by auto
    qed
    have old: "bit (bvalue b) j \<Longrightarrow> j < length (stream s) \<and> stream s ! j" for j
      using reader_okD(4,5) [OF ok] by (simp add: s)
    have "64 \<le> length (stream s)" using avail by (simp add: s stream_def)
    with n len have m: "bcount b + length (bytes_bits (take n (acceptable i))) \<le> 64" "64 \<le> length (stream s)"
      by simp_all
    note ab = absorb_bits [OF S old w m]
    have st: "stream s' = stream s"
      using ab(1) len by (simp add: res stream_def b'_def mult.commute)
    moreover have "reader_ok s'"
      using iok' ab(2) or_shl_less reader_okD(3) [OF ok] n
      by (intro reader_okI) (simp_all add: st, simp_all add: res b'_def s)
    ultimately show ?thesis
      using res n by (simp add: same_call_def s i'_def buffered_def b'_def MAX_PEEK_def)
  qed
  have **: "s' = s \<and> (r \<longleftrightarrow> MAX_PEEK < buffered s)" if "length (acceptable i) < 8"
    using rf that unfolding s refill_def by (auto simp: Let_def buffered_def)
  show "reader_ok s'" "stream s' = stream s" "same_call s s'"
    "r \<Longrightarrow> MAX_PEEK \<le> buffered s'"
    "\<not> r \<Longrightarrow> s' = s \<and> buffered s \<le> MAX_PEEK \<and> length (acceptable (snd s)) < 8"
    using * ** ok by (cases "length (acceptable i) < 8"; auto simp: s)+
qed

lemma settle_stream:
  assumes "reader_ok (b, i)"
  shows "reader_ok (settle b, i)" "stream (settle b, i) = stream (b, i)"
    and "bvalue (settle b) < 2 ^ bcount b"
proof -
  show st: "stream (settle b, i) = stream (b, i)"
    by (simp add: stream_def settle_def)
  show "bvalue (settle b) < 2 ^ bcount b"
    by (simp add: settle_def)
  show "reader_ok (settle b, i)"
  proof (rule reader_okI)
    show "bvalue (fst (settle b, i)) < 2 ^ 64"
      using le_less_trans [OF take_bit_nat_less_eq_self reader_okD(3) [OF assms]]
      by (simp add: settle_def)
  qed (use assms in \<open>auto simp: st, auto simp: reader_ok_def settle_def bit_take_bit_iff\<close>)
qed

section \<open>Returning read-ahead bytes\<close>

text \<open>
  \<open>unread\<close> may hand back only bytes this call delivered. \<open>recent\<close> says that the whole
  bytes on top of the reservoir, as many as this call has consumed, are its last input bytes;
  every operation keeps it, and it holds when a call begins.
\<close>

definition whole_recent :: "reader \<Rightarrow> nat" where
  "whole_recent s = min (buffered s div 8) (consumed (snd s))"

definition buffer :: "reader \<Rightarrow> bool list" where
  "buffer s = bits_of_nat (bcount (fst s)) (bvalue (fst s))"

definition seen :: "reader \<Rightarrow> u8 list" where
  "seen s = take (consumed (snd s)) (in_bytes (snd s))"

definition recent :: "reader \<Rightarrow> bool" where
  "recent s \<longleftrightarrow> drop (buffered s - 8 * whole_recent s) (buffer s) =
     bytes_bits (drop (consumed (snd s) - whole_recent s) (seen s))"

lemma stream_buffer: "stream s = buffer s @ bytes_bits (acceptable (snd s))"
  by (simp add: stream_def buffer_def)

lemma length_buffer [simp]: "length (buffer s) = buffered s"
  by (simp add: buffer_def buffered_def)

lemma recent_start: "recent (b, input_new bytes before limit)"
  by (simp add: recent_def whole_recent_def seen_def input_new_def Let_def buffer_def buffered_def)

lemma length_seen: "reader_ok s \<Longrightarrow> length (seen s) = consumed (snd s)"
  using input_ok_len [of "snd s"] by (auto simp: seen_def reader_ok_def input_ok_def)

text \<open>Accepting \<open>n\<close> bytes, whichever way they are loaded.\<close>

lemma recent_accept:
  assumes rec: "recent s" and ok: "reader_ok s" and ok': "reader_ok t"
    and st: "stream t = stream s" and sc: "same_call s t"
    and c: "consumed (snd t) = consumed (snd s) + n"
  shows "recent t"
proof -
  have len: "consumed (snd s) + n \<le> length (in_bytes (snd s))" "consumed (snd s) + n \<le> fast_end (snd s)"
    using ok' input_ok_len [of "snd t"] c sc by (auto simp: reader_ok_def input_ok_def same_call_def)
  define new where "new = take n (acceptable (snd s))"
  have acc: "acceptable (snd s) = new @ acceptable (snd t)"
    using sc c by (simp add: new_def acceptable_def same_call_def add.commute flip: drop_drop)
  have lnew: "length new = n" using len by (simp add: new_def acceptable_def)
  have buf: "buffer t = buffer s @ bytes_bits new"
    using st unfolding stream_buffer acc by simp
  then have cnt: "buffered t = buffered s + 8 * n"
    using length_buffer [of t] lnew by simp
  have seen: "seen t = seen s @ new"
  proof -
    have "new = take n (drop (consumed (snd s)) (in_bytes (snd s)))"
      using len by (simp add: new_def acceptable_def drop_take min_def)
    then show ?thesis using sc c by (simp add: seen_def same_call_def take_add)
  qed
  have w: "whole_recent t = whole_recent s + n"
    by (simp add: whole_recent_def cnt c)
  have "buffered t - 8 * whole_recent t = buffered s - 8 * whole_recent s"
    "consumed (snd t) - whole_recent t = consumed (snd s) - whole_recent s"
    by (simp_all add: w cnt c)
  moreover have "buffered s - 8 * whole_recent s \<le> buffered s"
    "consumed (snd s) - whole_recent s \<le> length (seen s)"
    by (simp_all add: length_seen [OF ok])
  ultimately show ?thesis using rec by (simp add: recent_def buf seen)
qed

lemma recent_discard:
  assumes rec: "recent s" and ok: "reader_ok s" and n: "n \<le> buffered s"
  shows "recent (discard n s)"
proof -
  let ?w = "whole_recent s" and ?w' = "whole_recent (discard n s)"
  have snd: "snd (discard n s) = snd s" by (simp add: discard_def)
  have w': "?w' \<le> ?w" "8 * ?w' \<le> buffered s - n"
    unfolding whole_recent_def snd discard_buffered by (auto simp: min_def intro: div_le_mono)
  have w: "8 * ?w \<le> buffered s" by (simp add: whole_recent_def)
  have buf: "buffer (discard n s) = drop n (buffer s)"
    by (simp add: buffer_def discard_def drop_bits_def drop_bits_of_nat shr_def)
  have "buffered s - n - 8 * ?w' + n = 8 * (?w - ?w') + (buffered s - 8 * ?w)"
    using w w' n by linarith
  then have "drop (buffered s - n - 8 * ?w') (drop n (buffer s)) = drop (8 * (?w - ?w')) (drop (buffered s - 8 * ?w) (buffer s))"
    by (simp only: drop_drop)
  also have "\<dots> = bytes_bits (drop (?w - ?w') (drop (consumed (snd s) - ?w) (seen s)))"
    using rec by (simp add: recent_def drop_bytes_bits)
  also have "\<dots> = bytes_bits (drop (consumed (snd s) - ?w') (seen s))"
    using w' by (simp add: whole_recent_def)
  finally show ?thesis
    by (simp add: recent_def discard_buffered buf snd) (simp add: seen_def snd)
qed

lemma same_call_acceptable:
  assumes "same_call s t" "consumed (snd t) + n = consumed (snd s)" "reader_ok s"
  shows "acceptable (snd t) = drop (consumed (snd t)) (seen s) @ acceptable (snd s)"
proof -
  let ?X = "take (fast_end (snd s)) (in_bytes (snd s))"
  have c: "consumed (snd s) \<le> fast_end (snd s)" "fast_end (snd s) \<le> length (in_bytes (snd s))"
    using assms(3) input_ok_len [of "snd s"] by (auto simp: reader_ok_def input_ok_def)
  then have "seen s = take (consumed (snd s)) ?X" by (simp add: seen_def min_def)
  moreover have "drop (consumed (snd t)) ?X = drop (consumed (snd t)) (take (consumed (snd s)) ?X) @
      drop (consumed (snd s)) ?X"
    by (rule drop_split) (use c assms(2) in auto)
  ultimately show ?thesis using assms(1) by (simp add: acceptable_def same_call_def)
qed

text \<open>
  \<open>unread\<close> moves whole bytes back from the reservoir to the input: the stream is the same,
  and what stays buffered is a partial byte or was delivered by an earlier call.
\<close>

lemma unread_stream:
  assumes ok: "reader_ok s" and rec: "recent s"
  shows "stream (unread s) = stream s" "reader_ok (unread s)" "same_call s (unread s)"
    and "buffered (unread s) < 8 \<or> consumed (snd (unread s)) = 0"
    and "consumed (snd (unread s)) = consumed (snd s) - whole_recent s"
proof -
  let ?w = "whole_recent s"
  have cnt: "bcount (fst s) \<le> 64" using reader_okD(2) [OF ok] .
  have wh: "min (bcount (fst s) div 8) (min (consumed (snd s)) 8) = ?w"
    using cnt by (auto simp: whole_recent_def buffered_def min_def)
  have w8: "8 * ?w \<le> buffered s" "?w \<le> consumed (snd s)" by (simp_all add: whole_recent_def)
  define c where "c = buffered s - 8 * ?w"
  have cc: "c \<le> buffered s" by (simp add: c_def)
  have un: "bcount (fst (unread s)) = c" "snd (unread s) = (snd s)\<lparr>consumed := consumed (snd s) - ?w\<rparr>"
    "bvalue (fst (unread s)) = (if c < 64 then take_bit c (bvalue (fst s)) else bvalue (fst s))"
    unfolding unread_def case_prod_beta' wh Let_def by (simp_all add: c_def buffered_def mult.commute)
  show sc: "same_call s (unread s)" by (simp add: same_call_def un)
  show cons: "consumed (snd (unread s)) = consumed (snd s) - ?w" by (simp add: un)
  have buf: "buffer (unread s) = take c (buffer s)"
    using cc by (simp add: buffer_def un take_bits_of_nat buffered_def)
  have acc: "acceptable (snd (unread s)) = drop (consumed (snd s) - ?w) (seen s) @ acceptable (snd s)"
    using same_call_acceptable [OF sc _ ok, of ?w] w8 cons by simp
  have top: "buffer s = take c (buffer s) @ bytes_bits (drop (consumed (snd s) - ?w) (seen s))"
    using rec unfolding recent_def c_def [symmetric] by (metis append_take_drop_id)
  show st: "stream (unread s) = stream s"
    unfolding stream_buffer buf acc bytes_bits_append append_assoc [symmetric] top [symmetric] ..
  show "buffered (unread s) < 8 \<or> consumed (snd (unread s)) = 0"
  proof (cases "buffered s div 8 \<le> consumed (snd s)")
    case True
    then have "c = buffered s mod 8" by (simp add: c_def whole_recent_def minus_mult_div_eq_mod)
    then show ?thesis by (simp add: buffered_def un)
  qed (simp add: cons whole_recent_def)
  show "reader_ok (unread s)"
  proof (rule reader_okI)
    show "input_ok (snd (unread s))" using ok by (auto simp: reader_ok_def input_ok_def un)
    show "bcount (fst (unread s)) \<le> 64" using cnt cc by (simp add: un buffered_def)
    have le: "bvalue (fst (unread s)) \<le> bvalue (fst s)" by (simp add: un)
    then show "bvalue (fst (unread s)) < 2 ^ 64" using reader_okD(3) [OF ok] by linarith
    fix j assume "bit (bvalue (fst (unread s))) j"
    then have "bit (bvalue (fst s)) j" by (simp add: un bit_take_bit_iff split: if_splits)
    then show "j < length (stream (unread s)) \<and> stream (unread s) ! j"
      using reader_okD(4,5) [OF ok] st by simp
  qed
qed

section \<open>The interface of the parsers\<close>

text \<open>
  What a parser relies on: a peek of up to \<open>width\<close> bits is decided by the stream alone and
  leaves it unchanged, and bits that were peeked can be discarded.
\<close>

locale stream_source =
  fixes peek :: "nat \<Rightarrow> 's \<Rightarrow> ('e + nat option) \<times> 's"
    and discard :: "nat \<Rightarrow> 's \<Rightarrow> 's"
    and stream :: "'s \<Rightarrow> bool list"
    and ok :: "'s \<Rightarrow> bool"
    and same :: "'s \<Rightarrow> 's \<Rightarrow> bool"
    and starved :: "'s \<Rightarrow> 'e option"
    and width :: nat
  assumes peek_result: "ok s \<Longrightarrow> n \<le> width \<Longrightarrow> fst (peek n s) =
      (if n \<le> length (stream s) then Inr (Some (nat_of_bits (take n (stream s)))) else stall (starved s))"
    and peek_ok: "ok s \<Longrightarrow> n \<le> width \<Longrightarrow> ok (snd (peek n s))"
    and peek_stream: "ok s \<Longrightarrow> n \<le> width \<Longrightarrow> stream (snd (peek n s)) = stream s"
    and peek_same: "ok s \<Longrightarrow> n \<le> width \<Longrightarrow> same s (snd (peek n s))"
    and discard_peeked: "ok s \<Longrightarrow> n \<le> m \<Longrightarrow> m \<le> width \<Longrightarrow> m \<le> length (stream s) \<Longrightarrow>
      ok (discard n (snd (peek m s))) \<and> stream (discard n (snd (peek m s))) = drop n (stream s) \<and>
      same s (discard n (snd (peek m s)))"
    and same_trans: "same s t \<Longrightarrow> same t u \<Longrightarrow> same s u"
    and same_starved: "same s t \<Longrightarrow> starved t = starved s"
begin

lemma need_peek:
  assumes "ok s" "n \<le> width"
  shows "need (peek n s) k =
    (if n \<le> length (stream s) then k (nat_of_bits (take n (stream s))) (snd (peek n s))
     else (stall (starved s), snd (peek n s)))"
proof -
  have "fst (peek n s) = (if n \<le> length (stream s) then Inr (Some (nat_of_bits (take n (stream s))))
      else stall (starved s))"
    by (rule peek_result [OF assms])
  then show ?thesis by (cases "peek n s") auto
qed

lemma need_field:
  assumes "ok s" "length bs \<le> width" "stream s = bs @ rest"
  shows "need (peek (length bs) s) k = k (nat_of_bits bs) (snd (peek (length bs) s))"
  using assms by (simp add: need_peek)

lemma peeked_starved: "ok s \<Longrightarrow> n \<le> width \<Longrightarrow> starved (snd (peek n s)) = starved s"
  by (rule same_starved) (rule peek_same)

text \<open>A parser that only peeks never loses input when it stalls.\<close>

lemma peek_twice:
  assumes "ok s" "n \<le> width" "m \<le> width"
  shows "ok (snd (peek m (snd (peek n s))))" "stream (snd (peek m (snd (peek n s)))) = stream s"
    and "same s (snd (peek m (snd (peek n s))))"
  using assms same_trans [OF peek_same peek_same] by (auto simp: peek_ok peek_stream)

end

interpretation rd: stream_source peek discard stream reader_ok same_call starved MAX_PEEK
proof unfold_locales
  fix s :: reader and n m :: nat
  assume ok: "reader_ok s"
  { assume n: "n \<le> MAX_PEEK"
    note p = peek_eq [OF ok n]
    show "fst (peek n s) = (if n \<le> length (stream s) then Inr (Some (nat_of_bits (take n (stream s))))
        else stall (starved s))"
      by (subst p(1)) simp
    show "reader_ok (snd (peek n s))" "stream (snd (peek n s)) = stream s" "same_call s (snd (peek n s))"
      using p(2-4) by (simp_all add: loaded_def) }
  assume "n \<le> m" "m \<le> MAX_PEEK" "m \<le> length (stream s)"
  then show "reader_ok (discard n (snd (peek m s))) \<and> stream (discard n (snd (peek m s))) = drop n (stream s) \<and>
      same_call s (discard n (snd (peek m s)))"
    using peek_eq(2-5) [OF ok, of m]
    by (auto simp: discard_ok discard_stream simp flip: loaded_def intro: same_call_trans)
qed (auto intro: same_call_trans same_call_starved)

lemma MAX_PEEK_numeral: "n \<le> 56 \<Longrightarrow> n \<le> MAX_PEEK"
  by (simp add: MAX_PEEK_def)

text \<open>
  The same facts in the form the parsers' proofs rewrite with: every peek is a residue of
  the number the whole stream stands for.
\<close>

definition pending :: "reader \<Rightarrow> nat" where
  "pending s = nat_of_bits (stream s)"

lemma need_peek_pending:
  assumes "reader_ok s" "n \<le> 56"
  shows "need (peek n s) k = (if n \<le> length (stream s) then k (pending s mod 2 ^ n) (loaded n s)
    else (stall (starved s), loaded n s))"
  unfolding rd.need_peek [OF assms(1) MAX_PEEK_numeral [OF assms(2)]] loaded_def pending_def nat_of_bits_take ..

lemma loaded_simps:
  assumes "reader_ok s" "n \<le> 56"
  shows "reader_ok (loaded n s)" "stream (loaded n s) = stream s" "starved (loaded n s) = starved s"
    "pending (loaded n s) = pending s"
  using assms peek_eq [of s n] same_call_starved [of s "loaded n s"]
  by (auto simp: pending_def MAX_PEEK_def)

lemma loaded_same: "reader_ok s \<Longrightarrow> n \<le> 56 \<Longrightarrow> same_call t s \<Longrightarrow> same_call t (loaded n s)"
  using peek_eq(4) [of s n] by (auto simp: MAX_PEEK_def intro: same_call_trans)

lemma discard_loaded:
  assumes "reader_ok s" "m \<le> n" "n \<le> 56" "n \<le> length (stream s)"
  shows "reader_ok (discard m (loaded n s))" "stream (discard m (loaded n s)) = drop m (stream s)"
  using rd.discard_peeked [of s m n] assms by (auto simp: MAX_PEEK_def loaded_def)

lemmas parser_simps = need_peek_pending loaded_simps discard_loaded

lemma need_peek_list:
  assumes "reader_ok s" "stream s = bs @ rest" "length bs = n" "n \<le> 56"
  shows "need (peek n s) k = k (nat_of_bits bs) (loaded n s)"
  using assms by (simp add: need_peek_pending pending_def nat_of_bits_take [symmetric])

lemma need_peek_enough:
  assumes "reader_ok s" "n \<le> 56" "need (peek n s) k = (Inr (Some v), s')"
  shows "n \<le> length (stream s)"
  using assms by (simp add: need_peek_pending split: if_splits)

section \<open>Alignment\<close>

definition padding :: "reader \<Rightarrow> nat" where
  "padding s = length (stream s) mod 8"

lemma padding_buffered: "padding s = bcount (fst s) mod 8" "padding s \<le> buffered s"
  by (simp_all add: padding_def stream_def buffered_def)

lemma zero_bits: "nat_of_bits xs = 0 \<longleftrightarrow> xs = replicate (length xs) False"
  by (induction xs) auto

lemma align_reader_eq:
  "align_reader s = (if take (padding s) (stream s) = replicate (padding s) False
     then (Inr (), discard (padding s) s) else (Inl (InvalidData Padding), s))"
proof -
  obtain b i where s: "s = (b, i)" by (cases s)
  let ?p = "padding s"
  have "bvalue b AND bit_mask ?p = nat_of_bits (take ?p (stream s))"
    using masked_value [of ?p b i] padding_buffered(2) [of s] by (simp only: s buffered_def fst_conv)
  moreover have "length (take ?p (stream s)) = ?p" by (simp add: padding_def)
  ultimately have z: "bvalue b AND bit_mask ?p = 0 \<longleftrightarrow> take ?p (stream s) = replicate ?p False"
    using zero_bits [of "take ?p (stream s)"] by simp
  have "bcount b mod 8 = ?p" using padding_buffered(1) [of s] by (simp add: s)
  then have "align_reader s = (if bvalue b AND bit_mask ?p \<noteq> 0 then (Inl (InvalidData Padding), s)
      else (Inr (), discard ?p s))"
    by (simp add: align_reader_def align_def Let_def discard_def s del: AND_bit_mask)
  then show ?thesis unfolding z by simp
qed

lemma attempt_align:
  assumes "reader_ok s"
  shows "attempt (align_reader s) k =
     (if take (padding s) (stream s) = replicate (padding s) False then k () (discard (padding s) s)
      else (Inl (InvalidData Padding), s))"
    and "reader_ok (discard (padding s) s)" and "stream (discard (padding s) s) = drop (padding s) (stream s)"
  using discard_ok [OF assms padding_buffered(2)] discard_stream [OF padding_buffered(2)]
  by (simp_all add: align_reader_eq)

section \<open>Properties\<close>

text \<open>
  C17 (functional). Reading a field of at most \<open>MAX_PEEK\<close> bits depends only on what is still to
  be read: with enough of it, \<open>read\<close> returns its first \<open>n\<close> bits as a number and leaves the rest;
  otherwise it asks for more input or reports the input limit, and loses nothing.
\<close>

theorem read_field:
  assumes "reader_ok s" "n \<le> MAX_PEEK"
  shows "\<exists>s'. read n s = (if n \<le> length (stream s) then Inr (Some (nat_of_bits (take n (stream s))))
      else stall (starved s), s') \<and> reader_ok s' \<and>
    stream s' = (if n \<le> length (stream s) then drop n (stream s) else stream s)"
proof (cases "n \<le> length (stream s)")
  case True
  then show ?thesis using read_eq [OF assms True] by auto
next
  case False
  note p = peek_eq(1) [OF assms] peek_eq(2,3) [OF assms]
  have "read n s = (stall (starved s), loaded n s)"
    using False p(1) by (cases "starved s") (simp_all add: read_def)
  then show ?thesis using False p(2,3) by simp
qed

lemma read_field_witness:
  "\<exists>s'. read 4 (bits_default, input_new [0x65] 0 None) = (Inr (Some 5), s') \<and>
     reader_ok s' \<and> stream s' = [False, True, True, False]"
proof -
  have ok: "reader_ok (bits_default, input_new [0x65] 0 None)" by (rule reader_ok_new) simp
  have "stream (bits_default, input_new [0x65] 0 None) = [True, False, True, False, False, True, True, False]"
    unfolding stream_new by (simp add: input_new_def Let_def bit_eval)
  with read_field [OF ok, of 4] show ?thesis by (simp add: MAX_PEEK_def)
qed

text \<open>
  C18 (refinement). The whole-word refill is invisible to the parser: it keeps the invariant and
  the bits still to be read, and when it reports success at least \<open>MAX_PEEK\<close> of them are in the
  reservoir; \<open>settle\<close> then clears the read-ahead bits above the count.
\<close>

theorem refill_refines:
  assumes "reader_ok s" "buffered s < 64"
  shows "reader_ok (snd (refill s)) \<and> stream (snd (refill s)) = stream s \<and>
    (fst (refill s) \<longrightarrow> MAX_PEEK \<le> buffered (snd (refill s))) \<and>
    stream (settle (fst (snd (refill s))), snd (snd (refill s))) = stream s \<and>
    bvalue (settle (fst (snd (refill s)))) < 2 ^ buffered (snd (refill s))"
proof -
  obtain r b i where rf: "refill s = (r, b, i)" by (cases "refill s") auto
  note st = refill_stream [OF assms rf]
  show ?thesis
    using st(1,2,4) settle_stream [OF st(1)] by (auto simp: rf buffered_def)
qed

lemma refill_refines_witness:
  "stream (snd (refill (bits_default, input_new [1, 2, 3, 4, 5, 6, 7, 8, 9] 0 None))) =
     bytes_bits [1, 2, 3, 4, 5, 6, 7, 8, 9] \<and>
   fst (refill (bits_default, input_new [1, 2, 3, 4, 5, 6, 7, 8, 9] 0 None))"
proof -
  let ?s = "(bits_default, input_new [1, 2, 3, 4, 5, 6, 7, 8, 9] 0 None)"
  have ok: "reader_ok ?s" by (rule reader_ok_new) simp
  have st: "stream ?s = bytes_bits [1, 2, 3, 4, 5, 6, 7, 8, 9]"
    unfolding stream_new by (simp add: input_new_def Let_def)
  have "fst (refill ?s)" by (simp add: refill_def acceptable_def input_new_def Let_def)
  with refill_refines [OF ok] st show ?thesis by (simp add: buffered_def bits_default_def)
qed

text \<open>
  Giving back read-ahead bytes loses and duplicates nothing: \<open>unread\<close> keeps the
  bits still to be read, uncounts exactly the whole buffered bytes this call consumed, and leaves
  less than a byte buffered unless the rest was delivered by an earlier call.
\<close>

theorem unread_returns_read_ahead:
  assumes "reader_ok s" "recent s"
  shows "stream (unread s) = stream s \<and> reader_ok (unread s) \<and>
    consumed (snd (unread s)) + min (buffered s div 8) (consumed (snd s)) = consumed (snd s) \<and>
    (buffered (unread s) < 8 \<or> consumed (snd (unread s)) = 0)"
  using unread_stream [OF assms] by (simp add: whole_recent_def)

lemma unread_returns_read_ahead_witness:
  "stream (unread (bits_default, input_new [7, 9] 0 None)) = bytes_bits [7, 9]"
proof -
  let ?s = "(bits_default, input_new [7, 9] 0 None)"
  have ok: "reader_ok ?s" by (rule reader_ok_new) simp
  have "stream ?s = bytes_bits [7, 9]" unfolding stream_new by (simp add: input_new_def Let_def)
  with unread_returns_read_ahead [OF ok recent_start] show ?thesis by simp
qed

end
