(* ===== verification/Window.thy ===== *)
theory Window
  imports Bit_Reader
begin

unbundle bit_operations_syntax

text \<open>
  The sliding window and its two stream headers: the public \<open>Window\<close> (\<open>window.rs\<close>),
  the encoder's private \<open>WindowBits\<close> (\<open>compressor/internal.rs\<close>), the resolution to
  header bits (\<open>compressor/core/rfc9841/window.rs\<close>), the decoder's \<open>WindowLimit\<close>
  (\<open>decompressor/config.rs\<close>) and the header parser \<open>window\<close>
  (\<open>decompressor/core/header.rs\<close>), here \<open>header_window\<close>. Rust's \<open>u8\<close> bit counts are
  natural numbers; every arithmetic result below stays under 128.
\<close>

section \<open>Windows\<close>

datatype window_encoding = Standard | Large

record window =
  wbits :: nat
  wencoding :: window_encoding

datatype config_error =
    Quality nat
  | StandardWindow nat
  | LargeWindow nat
  | BlockBits nat
  | DistancePostfixBits nat
  | DirectDistanceCodes nat
  | MisalignedDistanceCodes nat nat
  | LargeWindowUnsupportedForQuality nat

definition MIN_BITS :: nat where "MIN_BITS = 10"
definition MAX_STANDARD_BITS :: nat where "MAX_STANDARD_BITS = 24"
definition MAX_LARGE_BITS :: nat where "MAX_LARGE_BITS = 62"

definition window_standard :: "nat \<Rightarrow> config_error + window" where
  "window_standard b = (if b < MIN_BITS \<or> b > MAX_STANDARD_BITS then Inl (StandardWindow b)
     else Inr \<lparr>wbits = b, wencoding = Standard\<rparr>)"

definition window_large :: "nat \<Rightarrow> config_error + window" where
  "window_large b = (if b < MIN_BITS \<or> b > MAX_LARGE_BITS then Inl (LargeWindow b)
     else Inr \<lparr>wbits = b, wencoding = Large\<rparr>)"

datatype window_kind = Standard_Kind nat | Large_Kind nat

definition window_bits_standard :: "nat \<Rightarrow> unit + window_kind" where
  "window_bits_standard b = (if b < MIN_BITS \<or> b > MAX_STANDARD_BITS then Inl () else Inr (Standard_Kind b))"

definition window_bits_large :: "nat \<Rightarrow> unit + window_kind" where
  "window_bits_large b = (if b < MIN_BITS \<or> b > MAX_LARGE_BITS then Inl () else Inr (Large_Kind b))"

fun kind_bits :: "window_kind \<Rightarrow> nat" where
  "kind_bits (Standard_Kind b) = b"
| "kind_bits (Large_Kind b) = b"

fun kind_is_large :: "window_kind \<Rightarrow> bool" where
  "kind_is_large (Standard_Kind b) = False"
| "kind_is_large (Large_Kind b) = True"

definition window_resolve :: "window \<Rightarrow> window_kind" where
  "window_resolve w =
     (case (case wencoding w of Standard \<Rightarrow> window_bits_standard (wbits w)
                              | Large \<Rightarrow> window_bits_large (wbits w)) of
        Inr bits \<Rightarrow> bits
      | Inl _ \<Rightarrow> Standard_Kind 22)"

section \<open>The encoder's side\<close>

record resolved_window =
  declared_bits :: nat
  is_large :: bool

definition MAX_ENCODER_WINDOW_BITS :: nat where
  "MAX_ENCODER_WINDOW_BITS = 30"

definition resolved_new :: "window_kind \<Rightarrow> resolved_window" where
  "resolved_new k = \<lparr>declared_bits = kind_bits k, is_large = kind_is_large k\<rparr>"

definition at_least :: "resolved_window \<Rightarrow> nat \<Rightarrow> resolved_window" where
  "at_least w b = (if declared_bits w \<ge> b then w else \<lparr>declared_bits = b, is_large = is_large w\<rparr>)"

definition encoder_bits :: "resolved_window \<Rightarrow> nat" where
  "encoder_bits w = (if declared_bits w > MAX_ENCODER_WINDOW_BITS then MAX_ENCODER_WINDOW_BITS else declared_bits w)"

definition window_header :: "resolved_window \<Rightarrow> nat \<times> nat" where
  "window_header w = (let bits = declared_bits w in
     if is_large w then (shl 16 (bits AND 0x3F) 8 OR 0x11, 14)
     else if bits = 16 then (0, 1)
     else if bits = 17 then (1, 7)
     else if bits > 17 then (shl 64 (bits - 17) 1 OR 1, 4)
     else (shl 64 (bits - 8) 4 OR 1, 7))"

section \<open>The decoder's side\<close>

datatype decode_config_error = Standard_Limit nat | Large_Limit nat

record window_limit =
  max_bits :: nat
  allows_large :: bool

definition limit_standard :: "nat \<Rightarrow> decode_config_error + window_limit" where
  "limit_standard b = (if b < 10 \<or> b > 24 then Inl (Standard_Limit b)
     else Inr \<lparr>max_bits = b, allows_large = False\<rparr>)"

definition limit_large :: "nat \<Rightarrow> decode_config_error + window_limit" where
  "limit_large b = (if b < 10 \<or> b > 62 then Inl (Large_Limit b)
     else Inr \<lparr>max_bits = b, allows_large = True\<rparr>)"

text \<open>The tail of \<open>window\<close>: the limits, the constructors and the final drop.\<close>

definition accept_window :: "window_limit \<Rightarrow> nat \<Rightarrow> nat \<Rightarrow> bool \<Rightarrow> reader \<Rightarrow>
    (decode_error + window option) \<times> reader" where
  "accept_window limit declared width large s =
     (if large \<and> \<not> allows_large limit then (Inl LargeWindowDisabled, s)
      else if declared > max_bits limit then (Inl (WindowLimitExceeded declared (max_bits limit)), s)
      else (case (if large then window_large declared else window_standard declared) of
              Inl _ \<Rightarrow> (Inl (InvalidData Header), s)
            | Inr w \<Rightarrow> (Inr (Some w), discard width s)))"

definition header_window :: "window_limit \<Rightarrow> reader \<Rightarrow> (decode_error + window option) \<times> reader" where
  "header_window limit s0 =
     need (peek 1 s0) (\<lambda>first s1.
     if first = 0 then accept_window limit 16 1 False s1
     else need (peek 4 s1) (\<lambda>short s2.
     if shr short 1 \<noteq> 0 then accept_window limit (17 + shr short 1) 4 False s2
     else need (peek 7 s2) (\<lambda>long s3.
     if shr long 4 = 0 then accept_window limit 17 7 False s3
     else if shr long 4 = 1 then
       need (peek 8 s3) (\<lambda>marker s4.
       if marker \<noteq> 0x11 then (Inl (InvalidData Header), s4)
       else need (peek 14 s4) (\<lambda>header s5.
       let declared = shr header 8 in
       if \<not> (10 \<le> declared \<and> declared \<le> 62) then (Inl (InvalidData Header), s5)
       else accept_window limit declared 14 True s5))
     else accept_window limit (8 + shr long 4) 7 False s3)))"

section \<open>Constructors\<close>

definition window_ok :: "window \<Rightarrow> bool" where
  "window_ok w \<longleftrightarrow> 10 \<le> wbits w \<and>
     wbits w \<le> (case wencoding w of Standard \<Rightarrow> MAX_STANDARD_BITS | Large \<Rightarrow> MAX_LARGE_BITS)"

lemma window_constructors:
  "window_standard b = Inr w \<longleftrightarrow> window_ok w \<and> wencoding w = Standard \<and> wbits w = b"
  "window_large b = Inr w \<longleftrightarrow> window_ok w \<and> wencoding w = Large \<and> wbits w = b"
  by (cases w, auto simp: window_standard_def window_large_def window_ok_def MIN_BITS_def)+

lemma window_resolve_ok:
  assumes "window_ok w"
  shows "resolved_new (window_resolve w) = \<lparr>declared_bits = wbits w, is_large = (wencoding w = Large)\<rparr>"
  using assms
  by (auto simp: window_resolve_def window_bits_standard_def window_bits_large_def window_ok_def MIN_BITS_def
      resolved_new_def split: window_encoding.splits)

section \<open>The header syntax\<close>

definition header_bits :: "window \<Rightarrow> bool list" where
  "header_bits w = (case window_header (resolved_new (window_resolve w)) of (v, n) \<Rightarrow> bits_of_nat n v)"

text \<open>The bit arithmetic of \<open>header\<close> on the sizes it is applied to.\<close>

lemma large_header_value: "b \<le> 62 \<Longrightarrow> shl 16 (b AND 0x3F) 8 OR 0x11 = b * 256 + 17"
  using AND_mask_nat [of b 6] shl_or_low [of 17 8 b 16] by simp

lemma short_header_value: "b \<le> 24 \<Longrightarrow> shl 64 (b - 17) 1 OR 1 = (b - 17) * 2 + (1 :: nat)"
  and long_header_value: "b \<le> 24 \<Longrightarrow> shl 64 (b - 8) 4 OR 1 = (b - 8) * 16 + (1 :: nat)"
  using shl_or_low [of 1 1 "b - 17" 64] shl_or_low [of 1 4 "b - 8" 64] by simp_all

lemma header_cases:
  assumes "window_ok w"
  shows "window_header (resolved_new (window_resolve w)) =
    (if wencoding w = Large then (wbits w * 256 + 17, 14)
     else if wbits w = 16 then (0, 1) else if wbits w = 17 then (1, 7)
     else if wbits w > 17 then ((wbits w - 17) * 2 + 1, 4) else ((wbits w - 8) * 16 + 1, 7))"
proof (cases "wencoding w")
  case Standard
  with assms have "wbits w \<le> 24" by (simp add: window_ok_def MAX_STANDARD_BITS_def)
  with Standard show ?thesis
    unfolding window_resolve_ok [OF assms]
    using short_header_value long_header_value by (simp add: window_header_def Let_def)
next
  case Large
  with assms have "10 \<le> wbits w" "wbits w \<le> 62" by (simp_all add: window_ok_def MAX_LARGE_BITS_def)
  with Large show ?thesis
    unfolding window_resolve_ok [OF assms]
    using large_header_value by (simp add: window_header_def Let_def)
qed

definition permitted :: "window_limit \<Rightarrow> window \<Rightarrow> bool" where
  "permitted limit w \<longleftrightarrow> (wencoding w = Large \<longrightarrow> allows_large limit) \<and> wbits w \<le> max_bits limit"

lemma accept_window_iff:
  "accept_window limit declared n large s = (Inr (Some w), s') \<longleftrightarrow>
     wbits w = declared \<and> wencoding w = (if large then Large else Standard) \<and> window_ok w \<and>
     permitted limit w \<and> s' = discard n s"
  unfolding accept_window_def permitted_def
  by (cases w) (auto simp: window_standard_def window_large_def window_ok_def MIN_BITS_def)

lemma accept_window_None: "fst (accept_window limit declared n large s) \<noteq> Inr None"
  by (simp add: accept_window_def split: sum.split)

text \<open>The size a header declares, read off the number the stream stands for.\<close>

lemma header_starts:
  assumes "window_ok w"
  shows "xs = header_bits w @ ys \<longleftrightarrow>
    (case window_header (resolved_new (window_resolve w)) of (v, n) \<Rightarrow>
       n \<le> length xs \<and> nat_of_bits xs mod 2 ^ n = v \<and> ys = drop n xs)"
proof -
  obtain v n where vn: "window_header (resolved_new (window_resolve w)) = (v, n)" by fastforce
  have "v < 2 ^ n"
    using assms vn unfolding header_cases [OF assms]
    by (auto simp: window_ok_def MAX_LARGE_BITS_def MAX_STANDARD_BITS_def split: if_splits window_encoding.splits)
  then show ?thesis by (simp add: header_bits_def vn starts_with_field)
qed

lemma header_window_decodes:
  assumes ok: "reader_ok s" and w: "window_ok w" "permitted limit w"
    and str: "stream s = header_bits w @ rest"
  shows "\<exists>s'. header_window limit s = (Inr (Some w), s') \<and> reader_ok s' \<and> stream s' = rest"
proof -
  define V where "V = pending s"
  obtain v n where vn: "window_header (resolved_new (window_resolve w)) = (v, n)" by fastforce
  have st: "n \<le> length (stream s)" "V mod 2 ^ n = v" "rest = drop n (stream s)"
    using str vn unfolding header_starts [OF w(1)] by (simp_all add: V_def pending_def)
  have n14: "n \<le> 14" using vn unfolding header_cases [OF w(1)] by (auto split: if_splits)
  have acc: "\<exists>s'. accept_window limit (wbits w) n (wencoding w = Large) (loaded m t) = (Inr (Some w), s') \<and>
      reader_ok s' \<and> stream s' = rest"
    if "reader_ok t" "stream t = stream s" "n \<le> m" "m \<le> 14" "m \<le> length (stream s)" for m t
    using that w st(3) discard_loaded [of t n m]
    by (cases "wencoding w") (auto simp: accept_window_iff)
  show ?thesis
  proof (cases "wencoding w")
    case Standard
    consider "wbits w = 16" | "wbits w = 17" | "17 < wbits w" "wbits w \<le> 24" | "10 \<le> wbits w" "wbits w < 16"
      using w(1) Standard by (simp add: window_ok_def MAX_STANDARD_BITS_def) linarith
    then show ?thesis
    proof cases
      case 1
      with vn Standard have "v = 0" "n = 1" by (simp_all add: header_cases [OF w(1)])
      with st ok acc [of s 1] 1 Standard show ?thesis
        by (simp add: header_window_def parser_simps flip: V_def)
    next
      case 2
      with vn Standard have vn': "v = 1" "n = 7" by (simp_all add: header_cases [OF w(1)])
      then have "V mod 128 = 1" "V mod 16 = 1" "V mod 2 = 1"
        using st low_part [of V 16 8 0 1] low_part [of V 2 64 0 1] by simp_all
      with st ok acc [of "loaded 4 (loaded 1 s)" 7] 2 Standard vn' show ?thesis
        by (simp add: header_window_def parser_simps shr_div flip: V_def)
    next
      case 3
      with vn Standard have vn': "v = (wbits w - 17) * 2 + 1" "n = 4" by (simp_all add: header_cases [OF w(1)])
      then have "V mod 16 = (wbits w - 17) * 2 + 1" using st by simp
      moreover from this have "V mod 2 = 1" using low_part [of V 2 8 _ 1] by simp
      ultimately show ?thesis
        using st ok acc [of "loaded 1 s" 4] 3 Standard vn'
        by (simp add: header_window_def parser_simps shr_div flip: V_def)
    next
      case 4
      with vn Standard have vn': "v = (wbits w - 8) * 16 + 1" "n = 7" by (simp_all add: header_cases [OF w(1)])
      then have v128: "V mod 128 = (wbits w - 8) * 16 + 1" using st by simp
      then have "V mod 16 = 1" "V mod 2 = 1"
        using low_part [of V 16 8 _ 1] low_part [of V 2 8 0 1] by simp_all
      moreover have "V mod 128 div 16 = wbits w - 8" unfolding v128 by simp
      ultimately show ?thesis
        using st ok acc [of "loaded 4 (loaded 1 s)" 7] 4 Standard vn'
        by (simp add: header_window_def parser_simps shr_div flip: V_def)
    qed
  next
    case Large
    then have b: "10 \<le> wbits w" "wbits w \<le> 62" using w(1) by (simp_all add: window_ok_def MAX_LARGE_BITS_def)
    from vn Large have vn': "v = wbits w * 256 + 17" "n = 14" by (simp_all add: header_cases [OF w(1)])
    then have "V mod 16384 = wbits w * 256 + 17" using st by simp
    moreover from this have "V mod 256 = 17" using low_part [of V 256 64 _ 17] by simp
    moreover from this have "V mod 128 = 17" "V mod 16 = 1" "V mod 2 = 1"
      using low_part [of V 128 2 0 17] low_part [of V 16 16 1 1] low_part [of V 2 128 8 1] by simp_all
    ultimately show ?thesis
      using st ok acc [of "loaded 8 (loaded 7 (loaded 4 (loaded 1 s)))" 14] b Large vn'
      by (simp add: header_window_def parser_simps shr_div flip: V_def)
  qed
qed

lemma accepted_header:
  assumes ok: "reader_ok t" and t: "stream t = stream s" "n \<le> m" "m \<le> 14" "m \<le> length (stream s)"
    and acc: "accept_window limit declared n large (loaded m t) = (Inr (Some w), s')"
    and v: "window_header (resolved_new (window_resolve w)) = (pending s mod 2 ^ n, n)"
  shows "window_ok w \<and> permitted limit w \<and> stream s = header_bits w @ stream s' \<and> reader_ok s'"
proof -
  have w: "window_ok w" "permitted limit w" "s' = discard n (loaded m t)"
    using acc by (simp_all add: accept_window_iff)
  with v t discard_loaded [OF ok, of n m] show ?thesis
    by (simp add: header_starts pending_def)
qed

lemma header_window_sound:
  assumes ok: "reader_ok s" and res: "header_window limit s = (Inr (Some w), s')"
  shows "window_ok w \<and> permitted limit w \<and> stream s = header_bits w @ stream s' \<and> reader_ok s'"
proof -
  define V L where "V = pending s" and "L = length (stream s)"
  note ps = header_window_def parser_simps shr_div ok Let_def
  have 1: "1 \<le> L" using res by (auto simp: ps L_def split: if_splits)
  note ps = ps 1 [unfolded L_def]
  show ?thesis
  proof (cases "V mod 2 = 0")
    case True
    then have acc: "accept_window limit 16 1 False (loaded 1 s) = (Inr (Some w), s')"
      using res by (simp add: ps V_def split: if_splits)
    with True show ?thesis
      by (intro accepted_header [OF ok refl _ _ _ acc])
        (use 1 in \<open>auto simp add: header_cases accept_window_iff L_def simp flip: V_def\<close>)
  next
    case odd: False
    then have 4: "4 \<le> L" using res by (auto simp: ps L_def V_def split: if_splits)
    note ps = ps 4 [unfolded L_def]
    show ?thesis
    proof (cases "V mod 16 div 2 = 0")
      case False
      then have acc: "accept_window limit (17 + V mod 16 div 2) 4 False (loaded 4 (loaded 1 s)) = (Inr (Some w), s')"
        using res odd by (simp add: ps V_def split: if_splits)
      have "V mod 16 = (V mod 16 div 2) * 2 + 1" using odd join_parts [of V 2 1 8] by simp
      with acc False show ?thesis
        by (intro accepted_header [OF _ _ _ _ _ acc])
          (use ok 4 in \<open>auto simp add: header_cases accept_window_iff L_def parser_simps simp flip: V_def\<close>)
    next
      case short: True
      then have 7: "7 \<le> L" using res odd by (auto simp: ps L_def V_def split: if_splits)
      note ps = ps 7 [unfolded L_def]
      have "V mod 16 = 1" using odd short join_parts [of V 2 1 8] by simp
      then have low: "V mod 128 = (V mod 128 div 16) * 16 + 1" using join_parts [of V 16 1 8] by simp
      let ?t = "loaded 4 (loaded 1 s)"
      have t: "reader_ok ?t" "stream ?t = stream s" using ok by (simp_all add: parser_simps)
      show ?thesis
      proof (cases "V mod 128 div 16 = 1")
        case False
        then have acc: "accept_window limit (if V mod 128 div 16 = 0 then 17 else 8 + V mod 128 div 16) 7 False
            (loaded 7 ?t) = (Inr (Some w), s')"
          using res odd short by (simp add: ps V_def split: if_splits)
        with False low show ?thesis
          by (intro accepted_header [OF t _ _ _ acc])
            (use ok 7 in \<open>auto simp add: header_cases accept_window_iff L_def simp flip: V_def\<close>)
      next
        case True
        then have 14: "14 \<le> L" "V mod 256 = 17" "10 \<le> V mod 16384 div 256" "V mod 16384 div 256 \<le> 62"
          using res odd short by (auto simp: ps L_def V_def split: if_splits)
        note ps = ps 14 [unfolded L_def V_def]
        let ?u = "loaded 8 (loaded 7 ?t)"
        have u: "reader_ok ?u" "stream ?u = stream s" using ok by (simp_all add: parser_simps)
        have acc: "accept_window limit (V mod 16384 div 256) 14 True (loaded 14 ?u) = (Inr (Some w), s')"
          using res odd short True by (simp add: ps V_def split: if_splits)
        have "V mod 16384 = (V mod 16384 div 256) * 256 + 17" using 14(2) join_parts [of V 256 17 64] by simp
        with acc show ?thesis
          by (intro accepted_header [OF u _ _ _ acc])
            (use 14 in \<open>auto simp add: header_cases accept_window_iff L_def simp flip: V_def\<close>)
      qed
    qed
  qed
qed

section \<open>Properties\<close>

text \<open>
  C13 (roundtrip). The stream header: the parser returns the window \<open>w\<close> and leaves \<open>rest\<close> if and
  only if \<open>w\<close> is a window the API can build, the configured limit permits it, and the stream is the
  header the encoder writes for \<open>w\<close> followed by \<open>rest\<close>. So every header the encoder can emit is
  read back as the same window, standard and large alike, and no other bit pattern is accepted.
\<close>

theorem window_header_exact:
  assumes "reader_ok s"
  shows "(\<exists>s'. header_window limit s = (Inr (Some w), s') \<and> reader_ok s' \<and> stream s' = rest) \<longleftrightarrow>
    window_ok w \<and> permitted limit w \<and> stream s = header_bits w @ rest"
  using header_window_sound [OF assms] header_window_decodes [OF assms] by blast

lemma window_header_exact_witness:
  "\<exists>s'. header_window \<lparr>max_bits = 62, allows_large = True\<rparr> (bits_default, input_new [0x11, 0x1E] 0 None) =
      (Inr (Some \<lparr>wbits = 30, wencoding = Large\<rparr>), s') \<and> reader_ok s' \<and> stream s' = [False, False]"
proof -
  let ?s = "(bits_default, input_new [0x11, 0x1E] 0 None)"
  let ?w = "\<lparr>wbits = 30, wencoding = Large\<rparr>"
  have ok: "reader_ok ?s" by (rule reader_ok_new) simp
  have w: "window_ok ?w" "permitted \<lparr>max_bits = 62, allows_large = True\<rparr> ?w"
    by (simp_all add: window_ok_def permitted_def MAX_LARGE_BITS_def)
  have "stream ?s = header_bits ?w @ [False, False]"
    unfolding stream_new header_bits_def header_cases [OF w(1)]
    by (simp add: input_new_def Let_def bit_eval)
  with window_header_exact [OF ok] w show ?thesis by blast
qed

end
