(* ===== verification/Fast_Log.thy ===== *)
theory Fast_Log
  imports Prelude
begin

text \<open>
  The integer logarithm of \<open>shared/fast_log.rs\<close>, \<open>(usize::BITS - 1) -
  value.leading_zeros()\<close>: the position of the highest set bit. The source's callers pass
  non-zero values only (zero underflows); the recursion counts the bits above the lowest.
\<close>

fun log2_floor_non_zero :: "nat \<Rightarrow> nat" where
  "log2_floor_non_zero v = (if v < 2 then 0 else Suc (log2_floor_non_zero (v div 2)))"

declare log2_floor_non_zero.simps [simp del]

lemma log2_floor_1 [simp]: "log2_floor_non_zero 1 = 0" "log2_floor_non_zero (Suc 0) = 0"
  by (simp_all add: log2_floor_non_zero.simps)

lemma log2_floor_le: "0 < v \<Longrightarrow> 2 ^ log2_floor_non_zero v \<le> v"
  by (induction v rule: log2_floor_non_zero.induct) (subst log2_floor_non_zero.simps, auto)

lemma log2_floor_less: "v < 2 * 2 ^ log2_floor_non_zero v"
  by (induction v rule: log2_floor_non_zero.induct) (subst log2_floor_non_zero.simps, auto)

lemma log2_floor_unique: "2 ^ k \<le> v \<Longrightarrow> v < 2 * 2 ^ k \<Longrightarrow> log2_floor_non_zero v = k"
proof (rule antisym)
  assume v: "2 ^ k \<le> v" "v < 2 * 2 ^ k"
  then have "0 < v" by (metis gr0I le_zero_eq power_not_zero zero_neq_numeral)
  from log2_floor_le [OF this] v have "2 ^ log2_floor_non_zero v < (2::nat) ^ Suc k" by simp
  then show "log2_floor_non_zero v \<le> k" by (metis less_Suc_eq_le one_less_numeral_iff power_strict_increasing_iff semiring_norm(76))
  from v log2_floor_less [of v] have "(2::nat) ^ k < 2 ^ Suc (log2_floor_non_zero v)" by simp
  then show "k \<le> log2_floor_non_zero v" by (metis less_Suc_eq_le one_less_numeral_iff power_strict_increasing_iff semiring_norm(76))
qed

lemma log2_floor_bound: "v < 2 ^ n \<Longrightarrow> 0 < v \<Longrightarrow> log2_floor_non_zero v < n"
  by (metis log2_floor_le le_less_trans one_less_numeral_iff power_strict_increasing_iff semiring_norm(76))

end
