(* ===== verification/Bit_Writer.thy ===== *)
theory Bit_Writer
  imports Fast_Log
begin

unbundle bit_operations_syntax

text \<open>
  The least-significant-bit-first writer of \<open>shared/bits.rs\<close> over a caller-owned slice
  (\<open>BitWriter<'a, [u8]>\<close>): \<open>bit_writer\<close> holds the slice, the bit position and the
  overflow flag, \<open>storage_window\<close> is the slice's \<open>get_mut\<close>. The \<open>Vec\<close> storage, which
  grows instead of overflowing, is not modelled. \<open>written\<close> is the bit string in front of
  the position; \<open>writer_ok\<close> says that the bits of the partial byte above it are clear, which
  \<open>write\<close> (\<open>write_bits\<close> here) relies on. \<open>bit_sink\<close> is the interface the serialisers rely on.
\<close>

section \<open>State and operations\<close>

record bit_writer =
  storage :: "u8 list"
  position :: nat
  overflowed :: bool

definition MAX_BITS_PER_WRITE :: nat where
  "MAX_BITS_PER_WRITE = 56"

definition WRITE_SLACK :: nat where
  "WRITE_SLACK = 8"

definition writer_new :: "u8 list \<Rightarrow> nat \<Rightarrow> bit_writer" where
  "writer_new st pos = \<lparr>storage = st, position = pos, overflowed = False\<rparr>"

definition storage_window :: "u8 list \<Rightarrow> nat \<Rightarrow> nat \<Rightarrow> u8 list option" where
  "storage_window st a b = (if a \<le> b \<and> b \<le> length st then Some (take (b - a) (drop a st)) else None)"

definition store_at :: "u8 list \<Rightarrow> nat \<Rightarrow> u8 list \<Rightarrow> u8 list" where
  "store_at st a xs = take a st @ xs @ drop (a + length xs) st"

definition get_byte :: "nat \<Rightarrow> bit_writer \<Rightarrow> u8" where
  "get_byte i w = (if i < length (storage w) then storage w ! i else 0)"

definition set_byte :: "nat \<Rightarrow> u8 \<Rightarrow> bit_writer \<Rightarrow> bit_writer" where
  "set_byte i v w = (case storage_window (storage w) i (i + 1) of
     None \<Rightarrow> w\<lparr>overflowed := True\<rparr>
   | Some _ \<Rightarrow> w\<lparr>storage := (storage w)[i := v]\<rparr>)"

definition write_bits :: "nat \<Rightarrow> nat \<Rightarrow> bit_writer \<Rightarrow> bit_writer" where
  "write_bits n bits w = (let start = position w div 8 in
     case storage_window (storage w) start (start + WRITE_SLACK) of
       None \<Rightarrow> w\<lparr>overflowed := True, position := position w + n\<rparr>
     | Some win \<Rightarrow>
         (let v = unat (win ! 0) OR shl 64 bits (position w mod 8) in
          w\<lparr>storage := store_at (storage w) start (to_le_bytes 8 v), position := position w + n\<rparr>))"

lemma update_bits_less: "n \<noteq> 0 \<Longrightarrow> n - min n (8 - pos mod 8) < (n :: nat)"
  by simp

function update_bits :: "nat \<Rightarrow> nat \<Rightarrow> nat \<Rightarrow> bit_writer \<Rightarrow> bit_writer" where
  "update_bits n bits pos w =
     (if n = 0 then w
      else
        (let byte_position = pos div 8; unchanged = pos mod 8; changed = min n (8 - unchanged);
             total = unchanged + changed in
         case storage_window (storage w) byte_position (byte_position + 1) of
           None \<Rightarrow> w\<lparr>overflowed := True\<rparr>
         | Some win \<Rightarrow>
             (let keep_mask = ((2 ^ 32 - 1) - (2 ^ total - 1)) OR (2 ^ unchanged - 1);
                  kept = unat (win ! 0) AND keep_mask;
                  fresh = bits AND (2 ^ changed - 1) in
              update_bits (n - changed) (shr bits changed) (pos + changed)
                (w\<lparr>storage := (storage w)[byte_position := word_of_nat (shl 32 fresh unchanged OR kept)]\<rparr>))))"
  by pat_completeness auto
termination
  by (relation "measure (\<lambda>(n, bits, pos, w). n)", simp)
     (simp only: in_measure prod.case, rule update_bits_less, assumption)

declare update_bits.simps [simp del]

definition rewind :: "nat \<Rightarrow> bit_writer \<Rightarrow> bit_writer" where
  "rewind pos w =
     (case storage_window (storage w) (pos div 8) (pos div 8 + 1) of
        Some win \<Rightarrow> w\<lparr>storage := (storage w)[pos div 8 :=
            win ! 0 AND word_of_nat (2 ^ (pos mod 8) - 1)], position := pos\<rparr>
      | None \<Rightarrow> w\<lparr>overflowed := True, position := pos\<rparr>)"

definition align_writer :: "bit_writer \<Rightarrow> bit_writer" where
  "align_writer w = w\<lparr>position := (position w + 7) div 8 * 8\<rparr>"

definition prepare_storage :: "bit_writer \<Rightarrow> bit_writer" where
  "prepare_storage w =
     (case storage_window (storage w) (position w div 8) (position w div 8 + 1) of
        Some _ \<Rightarrow> w\<lparr>storage := (storage w)[position w div 8 := 0]\<rparr>
      | None \<Rightarrow> w\<lparr>overflowed := True\<rparr>)"

definition jump_to_byte_boundary :: "bit_writer \<Rightarrow> bit_writer" where
  "jump_to_byte_boundary w = prepare_storage (align_writer w)"

definition write_bytes :: "u8 list \<Rightarrow> bit_writer \<Rightarrow> bit_writer" where
  "write_bytes data w =
     (let start = position w div 8 in
      case storage_window (storage w) start (start + length data) of
        None \<Rightarrow> w\<lparr>overflowed := True, position := position w + length data * 8\<rparr>
      | Some _ \<Rightarrow> prepare_storage
          (w\<lparr>storage := store_at (storage w) start data, position := position w + length data * 8\<rparr>))"

text \<open>\<open>inject_byte_padding\<close> returns the bytes written and the carried byte and bit count.\<close>

definition BYTE_PADDING_SLACK :: nat where
  "BYTE_PADDING_SLACK = 3"

definition inject_byte_padding :: "nat \<Rightarrow> nat \<Rightarrow> u8 list \<Rightarrow> nat \<times> nat \<times> nat \<times> u8 list" where
  "inject_byte_padding last_bytes last_bytes_bits dst =
     (if last_bytes_bits = 0 then (0, last_bytes, last_bytes_bits, dst)
      else if length dst < BYTE_PADDING_SLACK then (0, last_bytes, last_bytes_bits, dst)
      else
        (let seal = last_bytes OR shl 32 6 last_bytes_bits in
         ((last_bytes_bits + 6 + 7) div 8, 0, 0,
          store_at dst 0 [word_of_nat seal, word_of_nat (shr seal 8), word_of_nat (shr seal 16)])))"

section \<open>The bits written\<close>

definition written :: "bit_writer \<Rightarrow> bool list" where
  "written w = take (position w) (bytes_bits (storage w))"

definition writer_ok :: "bit_writer \<Rightarrow> bool" where
  "writer_ok w \<longleftrightarrow> position w \<le> 8 * length (storage w) \<and>
     (\<forall>j. position w \<le> j \<and> j < 8 * (position w div 8 + 1) \<and> j < 8 * length (storage w) \<longrightarrow>
        \<not> bytes_bits (storage w) ! j)"

lemma length_store_at [simp]: "a + length xs \<le> length st \<Longrightarrow> length (store_at st a xs) = length st"
  by (simp add: store_at_def)

lemma bytes_bits_store_at:
  assumes "a + length xs \<le> length st"
  shows "bytes_bits (store_at st a xs) =
    take (8 * a) (bytes_bits st) @ bytes_bits xs @ drop (8 * (a + length xs)) (bytes_bits st)"
  unfolding store_at_def take_bytes_bits drop_bytes_bits by simp

lemma length_written: "writer_ok w \<Longrightarrow> length (written w) = position w"
  by (simp add: written_def writer_ok_def)

lemma write_overflowed: "overflowed w \<Longrightarrow> overflowed (write_bits n v w)"
  by (simp add: write_bits_def Let_def split: option.split)

lemma position_write [simp]: "position (write_bits n v w) = position w + n"
  by (simp add: write_bits_def Let_def split: option.split)

lemma length_storage_write [simp]: "length (storage (write_bits n v w)) = length (storage w)"
  by (auto simp: write_bits_def Let_def storage_window_def WRITE_SLACK_def split: option.split)

lemma overflowed_write:
  "overflowed (write_bits n v w) \<longleftrightarrow> overflowed w \<or> length (storage w) < position w div 8 + 8"
  by (auto simp: write_bits_def Let_def storage_window_def WRITE_SLACK_def)

lemma write_written:
  assumes ok: "writer_ok w" and n: "n \<le> MAX_BITS_PER_WRITE" and v: "v < 2 ^ n"
    and fits: "\<not> overflowed (write_bits n v w)"
  shows "writer_ok (write_bits n v w)" and "written (write_bits n v w) = written w @ bits_of_nat n v"
    and "length (storage (write_bits n v w)) = length (storage w)"
proof -
  define start where "start = position w div 8"
  define off where "off = position w mod 8"
  define st where "st = storage w"
  have pos: "position w = 8 * start + off" and off: "off \<le> 7"
    by (simp_all add: start_def off_def)
  have room: "start + 8 \<le> length st"
    using fits by (auto simp: write_bits_def storage_window_def Let_def start_def st_def WRITE_SLACK_def split: if_splits)
  define val where "val = unat (st ! start) OR shl 64 v off"
  have w': "write_bits n v w = w\<lparr>storage := store_at st start (to_le_bytes 8 val), position := position w + n\<rparr>"
    using room by (simp add: write_bits_def Let_def storage_window_def WRITE_SLACK_def start_def [symmetric]
        off_def [symmetric] st_def [symmetric] val_def)
  have bits: "bytes_bits (store_at st start (to_le_bytes 8 val)) =
      take (8 * start) (bytes_bits st) @ bits_of_nat 64 val @ drop (8 * (start + 8)) (bytes_bits st)"
    using room by (subst bytes_bits_store_at) (simp_all add: bytes_bits_to_le_bytes)
  have clear: "\<not> bit (st ! start) k" if "off \<le> k" for k
  proof (cases "k < 8")
    case True
    have "\<not> bytes_bits st ! (8 * start + k)"
    proof -
      have "position w \<le> 8 * start + k" "8 * start + k < 8 * (position w div 8 + 1)"
        "8 * start + k < 8 * length (storage w)"
        using that True room by (simp_all add: pos start_def [symmetric] st_def [symmetric])
      then show ?thesis using ok unfolding writer_ok_def st_def by blast
    qed
    then show ?thesis using True room by (simp add: nth_bytes_bits)
  qed (auto dest: bit_imp_le_length)
  have n64: "off + n \<le> 63" using n off by (simp add: MAX_BITS_PER_WRITE_def)
  have val_bit: "bit val k \<longleftrightarrow> (if k < off then bit (st ! start) k else k < 64 \<and> bit v (k - off))" for k
    using clear by (auto simp: val_def bit_or_iff shl_def bit_take_bit_iff bit_push_bit_iff)
  have v_high: "\<not> bit v k" if "n \<le> k" for k using not_bit_nat_of_less [OF v that] .
  have head: "take (off + n) (bits_of_nat 64 val) = take off (byte_bits (st ! start)) @ bits_of_nat n v"
    using n64 off by (intro nth_equalityI) (auto simp: nth_append val_bit)
  have old: "take (position w) (bytes_bits st) = take (8 * start) (bytes_bits st) @ take off (byte_bits (st ! start))"
  proof -
    have "take off (drop (8 * start) (bytes_bits st)) = take off (byte_bits (st ! start))"
      using room off by (subst drop_bytes_bits) (simp add: Cons_nth_drop_Suc [symmetric])
    then show ?thesis using room by (simp add: pos take_add)
  qed
  have l: "length (take (8 * start) (bytes_bits st)) = 8 * start" using room by simp
  show "written (write_bits n v w) = written w @ bits_of_nat n v"
    using n64 by (simp add: written_def w' bits pos old [unfolded pos] head st_def [symmetric] l add.assoc
        del: length_take)
  show len': "length (storage (write_bits n v w)) = length (storage w)"
    using room by (simp add: w' st_def)
  have np: "(position w + n) div 8 \<le> start + 7" using n64 by (simp add: pos)
  show "writer_ok (write_bits n v w)"
    unfolding writer_ok_def position_write len' st_def [symmetric]
  proof (intro conjI allI impI)
    show "position w + n \<le> 8 * length st" using n64 room pos by linarith
    fix j assume j: "position w + n \<le> j \<and> j < 8 * ((position w + n) div 8 + 1) \<and> j < 8 * length st"
    have "8 * start \<le> j" using j pos by linarith
    moreover have "j < 8 * start + 64" by (rule less_le_trans [OF conjunct1 [OF conjunct2 [OF j]]]) (use np in simp)
    moreover have "n \<le> j - (8 * start + off)" using j pos by linarith
    moreover have "bytes_bits (storage (write_bits n v w)) =
        take (8 * start) (bytes_bits st) @ bits_of_nat 64 val @ drop (8 * (start + 8)) (bytes_bits st)"
      by (simp add: w' bits del: mult_Suc_right)
    ultimately show "\<not> bytes_bits (storage (write_bits n v w)) ! j"
      using j l v_high pos by (simp add: nth_append val_bit less_diff_conv2 del: length_take)
  qed
qed

section \<open>Overwriting, rewinding and aligning\<close>

lemma nth_bytes_bits_update:
  assumes "i < length st" "j < 8 * length st"
  shows "bytes_bits (st[i := b]) ! j = (if j div 8 = i then bit b (j mod 8) else bytes_bits st ! j)"
  using assms by (auto simp: nth_bytes_bits less_mult_imp_div_less mult.commute)

lemma bit_word_of_nat_byte: "k < 8 \<Longrightarrow> bit (word_of_nat v :: u8) k = bit v k"
  by (simp add: bit_simps)

lemma keep_mask_bit:
  assumes "t \<le> 8" "unchanged \<le> t" "k < 8"
  shows "bit (((2 ^ 32 - 1) - (2 ^ t - 1)) OR (2 ^ unchanged - 1) :: nat) k \<longleftrightarrow> k < unchanged \<or> t \<le> k"
proof -
  have "(2 ^ 32 - 1) - (2 ^ t - 1) = (push_bit t (mask (32 - t)) :: nat)"
  proof -
    have "(2::nat) ^ (32 - t) * 2 ^ t = 2 ^ 32"
      using assms by (simp only: flip: power_add) simp
    moreover have "(1::nat) \<le> 2 ^ t" by simp
    ultimately show ?thesis
      unfolding push_bit_eq_mult mask_eq_exp_minus_1 diff_mult_distrib by linarith
  qed
  then have "bit ((2 ^ 32 - 1) - (2 ^ t - 1) :: nat) k \<longleftrightarrow> t \<le> k"
    using assms by (auto simp: bit_push_bit_iff bit_mask_iff)
  moreover have "bit (2 ^ unchanged - 1 :: nat) k \<longleftrightarrow> k < unchanged"
    using bit_mask_iff [of unchanged k, where 'a = nat] by (simp add: mask_eq_exp_minus_1)
  ultimately show ?thesis by (auto simp: bit_or_iff)
qed

lemma update_bits_spec:
  assumes "pos + n \<le> 8 * length (storage w)"
  shows "length (storage (update_bits n v pos w)) = length (storage w) \<and>
    position (update_bits n v pos w) = position w \<and> overflowed (update_bits n v pos w) = overflowed w \<and>
    (\<forall>j < 8 * length (storage w). bytes_bits (storage (update_bits n v pos w)) ! j =
       (if pos \<le> j \<and> j < pos + n then bit v (j - pos) else bytes_bits (storage w) ! j))"
  using assms
proof (induction n v pos w rule: update_bits.induct)
  case (1 n v pos w)
  show ?case
  proof (cases "n = 0")
    case False
    define i u c where "i = pos div 8" and "u = pos mod 8" and "c = min n (8 - u)"
    have pos: "pos = 8 * i + u" and u: "u < 8" by (simp_all add: i_def u_def)
    have c: "0 < c" "c \<le> n" "u + c \<le> 8" using False u by (auto simp: c_def)
    have i: "i < length (storage w)" using "1.prems" c pos by linarith
    have win: "storage_window (storage w) i (i + 1) = Some [storage w ! i]"
      using i by (simp add: storage_window_def Cons_nth_drop_Suc [symmetric])
    define b :: u8 where "b = word_of_nat (shl 32 (v AND (2 ^ c - 1)) u OR
        (unat (storage w ! i) AND (((2 ^ 32 - 1) - (2 ^ (u + c) - 1)) OR (2 ^ u - 1))))"
    define w1 where "w1 = w\<lparr>storage := (storage w)[i := b]\<rparr>"
    have step: "update_bits n v pos w = update_bits (n - c) (shr v c) (pos + c) w1"
      using False win
      by (subst update_bits.simps) (simp add: Let_def w1_def b_def flip: i_def u_def c_def)
    have b: "bit b k \<longleftrightarrow> (if u \<le> k \<and> k < u + c then bit v (k - u) else bit (storage w ! i) k)" if "k < 8" for k
    proof -
      define keep :: nat where "keep = ((2 ^ 32 - 1) - (2 ^ (u + c) - 1)) OR (2 ^ u - 1)"
      have "bit keep k \<longleftrightarrow> k < u \<or> u + c \<le> k"
        unfolding keep_def by (rule keep_mask_bit) (use that c in auto)
      moreover have "b = word_of_nat (shl 32 (take_bit c v) u OR (unat (storage w ! i) AND keep))"
        unfolding b_def keep_def AND_mask_nat take_bit_eq_mod ..
      ultimately show ?thesis
        using that c by (auto simp: bit_word_of_nat_byte bit_or_iff bit_and_iff shl_def bit_take_bit_iff
            bit_push_bit_iff)
    qed
    have w1: "bytes_bits (storage w1) ! j = (if pos \<le> j \<and> j < pos + c then bit v (j - pos)
        else bytes_bits (storage w) ! j)" if j: "j < 8 * length (storage w)" for j
    proof (cases "j div 8 = i")
      case True
      then have ji: "j = 8 * i + j mod 8" by (metis mult_div_mod_eq)
      then have "j - pos = j mod 8 - u" "pos \<le> j \<longleftrightarrow> u \<le> j mod 8" "j < pos + c \<longleftrightarrow> j mod 8 < u + c"
        unfolding pos by linarith+
      with True show ?thesis
        using i j b [of "j mod 8"] by (simp add: w1_def nth_bytes_bits_update nth_bytes_bits)
    next
      case False
      then have "\<not> (pos \<le> j \<and> j < pos + c)" using c u pos by auto
      with False show ?thesis using i j by (auto simp: w1_def nth_bytes_bits_update)
    qed
    have fit: "pos + c + (n - c) \<le> 8 * length (storage w1)" using "1.prems" c by (simp add: w1_def)
    have IH: "length (storage (update_bits (n - c) (shr v c) (pos + c) w1)) = length (storage w1) \<and>
        position (update_bits (n - c) (shr v c) (pos + c) w1) = position w1 \<and>
        overflowed (update_bits (n - c) (shr v c) (pos + c) w1) = overflowed w1 \<and>
        (\<forall>j < 8 * length (storage w1). bytes_bits (storage (update_bits (n - c) (shr v c) (pos + c) w1)) ! j =
          (if pos + c \<le> j \<and> j < pos + c + (n - c) then bit (shr v c) (j - (pos + c)) else bytes_bits (storage w1) ! j))"
      using "1.IH" [OF False i_def u_def c_def refl win refl refl refl] fit
      unfolding w1_def b_def by simp
    have "length (storage w1) = length (storage w)" "position w1 = position w" "overflowed w1 = overflowed w"
      by (simp_all add: w1_def)
    then show ?thesis unfolding step using IH c w1
      by (auto simp: shr_def bit_drop_bit_eq)
  qed (auto simp: update_bits.simps)
qed

text \<open>The bits in front of the position, when a storage update leaves them alone.\<close>

lemma written_eqI:
  assumes "length (storage w') = length (storage w)" "p \<le> 8 * length (storage w)"
    "\<And>j. j < p \<Longrightarrow> bytes_bits (storage w') ! j = bytes_bits (storage w) ! j"
  shows "take p (bytes_bits (storage w')) = take p (bytes_bits (storage w))"
  using assms by (intro nth_take_lemma) auto

lemma writer_ok_aligned: "position w = 8 * k \<Longrightarrow> k < length (storage w) \<Longrightarrow> storage w ! k = 0 \<Longrightarrow> writer_ok w"
proof -
  assume p: "position w = 8 * k" and k: "k < length (storage w)" and z: "storage w ! k = 0"
  have "\<not> bytes_bits (storage w) ! j" if "8 * k \<le> j" "j < 8 * (k + 1)" for j
  proof -
    have "j div 8 = k" using that by (simp add: div_nat_eqI)
    with z k that show ?thesis by (simp add: nth_bytes_bits)
  qed
  with p k show ?thesis by (simp add: writer_ok_def)
qed

lemma rewind_written:
  assumes "pos \<le> position w" "position w \<le> 8 * length (storage w)" "\<not> overflowed (rewind pos w)"
  shows "writer_ok (rewind pos w)" "written (rewind pos w) = take pos (written w)"
    "position (rewind pos w) = pos" "\<not> overflowed w"
proof -
  define i where "i = pos div 8"
  have i: "i < length (storage w)"
    using assms(3) by (auto simp: rewind_def storage_window_def i_def split: if_splits)
  then have win: "storage_window (storage w) i (i + 1) = Some [storage w ! i]"
    by (simp add: storage_window_def Cons_nth_drop_Suc [symmetric])
  have w': "rewind pos w = w\<lparr>storage := (storage w)[i := storage w ! i AND word_of_nat (2 ^ (pos mod 8) - 1)],
      position := pos\<rparr>"
    using win by (simp add: rewind_def flip: i_def)
  then show "position (rewind pos w) = pos" by simp
  show "\<not> overflowed w" using assms(3) by (simp add: w')
  have m: "bit (storage w ! i AND word_of_nat (2 ^ (pos mod 8) - 1)) k \<longleftrightarrow> k < pos mod 8 \<and> bit (storage w ! i) k"
    if "k < 8" for k
    using that by (auto simp: bit_and_iff bit_word_of_nat_byte simp del: of_nat_diff)
  have nth: "bytes_bits (storage (rewind pos w)) ! j =
      (if j div 8 = i then j mod 8 < pos mod 8 \<and> bytes_bits (storage w) ! j else bytes_bits (storage w) ! j)"
    if "j < 8 * length (storage w)" for j
    using that i m by (simp add: w' nth_bytes_bits_update nth_bytes_bits)
  have ji: "j div 8 = i \<Longrightarrow> j mod 8 < pos mod 8 \<longleftrightarrow> j < pos" for j
    unfolding i_def by (metis mult_div_mod_eq nat_add_left_cancel_less)
  have "take pos (bytes_bits (storage (rewind pos w))) = take pos (bytes_bits (storage w))"
  proof (rule written_eqI)
    show "bytes_bits (storage (rewind pos w)) ! j = bytes_bits (storage w) ! j" if "j < pos" for j
      using that assms(1,2) nth [of j] ji [of j] by auto
  qed (use assms(1,2) in \<open>simp_all add: w'\<close>)
  then show "written (rewind pos w) = take pos (written w)"
    using assms(1) by (simp add: written_def w' min_def)
  show "writer_ok (rewind pos w)"
    using assms(1,2) unfolding writer_ok_def
  proof (intro conjI allI impI)
    fix j assume j: "position (rewind pos w) \<le> j \<and> j < 8 * (position (rewind pos w) div 8 + 1) \<and>
      j < 8 * length (storage (rewind pos w))"
    then have "j div 8 = i"
      using div_le_mono [of pos j 8] less_mult_imp_div_less [of j "pos div 8 + 1" 8] by (simp add: w' i_def)
    with j nth [of j] ji [of j] show "\<not> bytes_bits (storage (rewind pos w)) ! j" by (simp add: w')
  qed (simp add: w')
qed

lemma jump_written:
  assumes ok: "writer_ok w" and fits: "\<not> overflowed (jump_to_byte_boundary w)"
  shows "writer_ok (jump_to_byte_boundary w)"
    and "written (jump_to_byte_boundary w) = written w @ replicate ((8 - position w mod 8) mod 8) False"
    and "8 dvd position (jump_to_byte_boundary w)" and "\<not> overflowed w"
proof -
  define p where "p = (position w + 7) div 8"
  have p: "p < length (storage w)"
    using fits by (auto simp: jump_to_byte_boundary_def prepare_storage_def align_writer_def storage_window_def p_def
        split: if_splits)
  have w': "jump_to_byte_boundary w = w\<lparr>storage := (storage w)[p := 0], position := p * 8\<rparr>"
    using p by (simp add: jump_to_byte_boundary_def prepare_storage_def align_writer_def storage_window_def
        flip: p_def)
  show "\<not> overflowed w" using fits by (simp add: w')
  show "8 dvd position (jump_to_byte_boundary w)" by (simp add: w')
  show "writer_ok (jump_to_byte_boundary w)"
    by (rule writer_ok_aligned [of _ p]) (use p in \<open>simp_all add: w'\<close>)
  define pad where "pad = (8 - position w mod 8) mod 8"
  have pad: "p * 8 = position w + pad" unfolding p_def pad_def by (rule byte_round_up)
  have "take (p * 8) (bytes_bits (storage w)) = written w @ replicate pad False"
  proof (rule nth_equalityI)
    show "length (take (p * 8) (bytes_bits (storage w))) = length (written w @ replicate pad False)"
      using p pad by (simp add: length_written [OF ok])
    fix j assume "j < length (take (p * 8) (bytes_bits (storage w)))"
    then have j: "j < p * 8" "j < 8 * length (storage w)" by simp_all
    have "\<not> bytes_bits (storage w) ! j" if "position w \<le> j"
    proof -
      have "p \<le> position w div 8 + 1" unfolding p_def by (simp add: div_le_mono le_div_geq)
      then have "j < 8 * (position w div 8 + 1)" using j by simp
      with ok that j show ?thesis unfolding writer_ok_def by blast
    qed
    then show "take (p * 8) (bytes_bits (storage w)) ! j = (written w @ replicate pad False) ! j"
      using j pad length_written [OF ok] by (auto simp: nth_append written_def)
  qed
  moreover have "take (p * 8) (bytes_bits (storage (jump_to_byte_boundary w))) = take (p * 8) (bytes_bits (storage w))"
    using p by (intro written_eqI) (auto simp: w' nth_bytes_bits_update less_mult_imp_div_less)
  ultimately show "written (jump_to_byte_boundary w) = written w @ replicate ((8 - position w mod 8) mod 8) False"
    by (simp add: written_def w' pad_def)
qed

lemma write_bytes_written:
  assumes al: "8 dvd position w" and ok: "writer_ok w" and fits: "\<not> overflowed (write_bytes data w)"
  shows "writer_ok (write_bytes data w)" "written (write_bytes data w) = written w @ bytes_bits data"
    and "\<not> overflowed w" "position (write_bytes data w) = position w + 8 * length data"
proof -
  from al obtain k where k: "position w = 8 * k" by blast
  have room: "k + length data < length (storage w)"
    using fits by (auto simp: write_bytes_def prepare_storage_def storage_window_def Let_def k add.commute split: if_splits)
  define st where "st = store_at (storage w) k data"
  have st: "length st = length (storage w)" using room by (simp add: st_def)
  have w': "write_bytes data w = w\<lparr>storage := st[k + length data := 0], position := 8 * (k + length data)\<rparr>"
    using room st by (simp add: write_bytes_def prepare_storage_def storage_window_def Let_def k algebra_simps flip: st_def)
  show "\<not> overflowed w" using fits by (simp add: w')
  show "position (write_bytes data w) = position w + 8 * length data" by (simp add: w' k)
  show "writer_ok (write_bytes data w)"
    by (rule writer_ok_aligned [of _ "k + length data"]) (use room st in \<open>simp_all add: w'\<close>)
  have "take (8 * (k + length data)) (bytes_bits (st[k + length data := 0])) =
      bytes_bits (take k (storage w) @ data)"
    using room by (simp only: take_bytes_bits) (simp add: st_def store_at_def)
  then show "written (write_bytes data w) = written w @ bytes_bits data"
    by (simp add: written_def w' k take_bytes_bits)
qed

section \<open>The interface of the serialisers\<close>

text \<open>
  What a serialiser relies on: a write that does not fail appends its field, and a failure
  persists. \<open>emits f bs\<close> says that the writer program \<open>f\<close> appends exactly \<open>bs\<close>.
\<close>

locale bit_sink =
  fixes put :: "nat \<Rightarrow> nat \<Rightarrow> 'w \<Rightarrow> 'w"
    and emitted :: "'w \<Rightarrow> bool list"
    and ready :: "'w \<Rightarrow> bool"
    and failed :: "'w \<Rightarrow> bool"
    and width :: nat
  assumes put_emitted: "ready w \<Longrightarrow> n \<le> width \<Longrightarrow> v < 2 ^ n \<Longrightarrow> \<not> failed (put n v w) \<Longrightarrow>
      ready (put n v w) \<and> emitted (put n v w) = emitted w @ bits_of_nat n v"
    and put_failed: "failed w \<Longrightarrow> failed (put n v w)"
begin

definition emits :: "('w \<Rightarrow> 'w) \<Rightarrow> bool list \<Rightarrow> bool" where
  "emits f bs \<longleftrightarrow> (\<forall>w. (failed w \<longrightarrow> failed (f w)) \<and>
     (ready w \<longrightarrow> \<not> failed (f w) \<longrightarrow> ready (f w) \<and> emitted (f w) = emitted w @ bs))"

lemma emitsD:
  assumes "emits f bs" "ready w" "\<not> failed (f w)"
  shows "\<not> failed w" "ready (f w)" "emitted (f w) = emitted w @ bs"
  using assms unfolding emits_def by blast+

lemma emits_failed: "emits f bs \<Longrightarrow> failed w \<Longrightarrow> failed (f w)"
  unfolding emits_def by blast

lemma emitsI:
  assumes "\<And>w. failed w \<Longrightarrow> failed (f w)"
    and "\<And>w. ready w \<Longrightarrow> \<not> failed (f w) \<Longrightarrow> ready (f w) \<and> emitted (f w) = emitted w @ bs"
  shows "emits f bs"
  unfolding emits_def using assms by blast

lemma emits_id: "emits (\<lambda>w. w) []"
  by (simp add: emits_def)

lemma emits_put: "n \<le> width \<Longrightarrow> v < 2 ^ n \<Longrightarrow> emits (put n v) (bits_of_nat n v)"
  by (rule emitsI) (simp_all add: put_failed put_emitted)

lemma emits_comp:
  assumes f: "emits f xs" and g: "emits g ys"
  shows "emits (\<lambda>w. g (f w)) (xs @ ys)"
proof (rule emitsI)
  show "failed (g (f w))" if "failed w" for w
    by (rule emits_failed [OF g emits_failed [OF f that]])
  fix w assume w: "ready w" "\<not> failed (g (f w))"
  have nf: "\<not> failed (f w)" using emits_failed [OF g] w(2) by blast
  note F = emitsD(2,3) [OF f w(1) nf]
  note G = emitsD(2,3) [OF g F(1) w(2)]
  show "ready (g (f w)) \<and> emitted (g (f w)) = emitted w @ xs @ ys"
    by (rule conjI [OF G(1)]) (simp only: G(2) F(2) append_assoc)
qed

lemma emits_then_put:
  "emits f xs \<Longrightarrow> n \<le> width \<Longrightarrow> v < 2 ^ n \<Longrightarrow> emits (\<lambda>w. put n v (f w)) (xs @ bits_of_nat n v)"
  by (rule emits_comp [OF _ emits_put])

lemma emits_fold:
  assumes "\<And>x. x \<in> set xs \<Longrightarrow> emits (g x) (code x)"
  shows "emits (fold g xs) (concat (map code xs))"
  using assms
proof (induction xs)
  case (Cons x xs)
  have "emits (\<lambda>w. fold g xs (g x w)) (code x @ concat (map code xs))"
    by (rule emits_comp) (use Cons in auto)
  then show ?case by (simp add: comp_def)
qed (simp add: emits_id id_def)

end

interpretation wr: bit_sink write_bits written writer_ok overflowed MAX_BITS_PER_WRITE
  by unfold_locales (auto simp: write_written write_overflowed)

lemma writer_new_zero:
  "0 < n \<Longrightarrow> writer_ok (writer_new (replicate n 0) 0)" "written (writer_new st 0) = []"
  "storage (writer_new st p) = st" "position (writer_new st p) = p" "\<not> overflowed (writer_new st p)"
  by (auto simp: writer_new_def written_def intro: writer_ok_aligned [of _ 0])

section \<open>Properties\<close>

text \<open>
  C19 (functional). A write that does not overflow appends exactly its field: the bits already
  written stay, the \<open>n\<close> bits of the value follow, and the bits above the position stay clear for
  the next write; an overflow is never forgotten.
\<close>

theorem write_appends:
  assumes "writer_ok w" "n \<le> MAX_BITS_PER_WRITE" "v < 2 ^ n" "\<not> overflowed (write_bits n v w)"
  shows "writer_ok (write_bits n v w) \<and> written (write_bits n v w) = written w @ bits_of_nat n v \<and>
    \<not> overflowed w"
  using write_written [OF assms] write_overflowed assms(4) by blast

lemma write_appends_witness:
  "written (write_bits 3 5 (writer_new (replicate 9 0) 0)) = [True, False, True]"
proof -
  have "\<not> overflowed (write_bits 3 5 (writer_new (replicate 9 0) 0))"
    by (simp add: overflowed_write writer_new_zero)
  with write_appends [of "writer_new (replicate 9 0) 0" 3 5] show ?thesis
    by (simp add: writer_new_zero MAX_BITS_PER_WRITE_def bit_eval)
qed

text \<open>
  Patching a field in place, which the encoder does for a length it learns later:
  \<open>update\<close> of a field inside the buffer changes exactly the field's bits, to the value's, across
  any number of byte boundaries, and neither the position nor any other bit.
\<close>

theorem update_patches_field:
  assumes "pos + n \<le> 8 * length (storage w)"
  shows "position (update_bits n v pos w) = position w \<and> overflowed (update_bits n v pos w) = overflowed w \<and>
    bytes_bits (storage (update_bits n v pos w)) =
      take pos (bytes_bits (storage w)) @ bits_of_nat n v @ drop (pos + n) (bytes_bits (storage w))"
proof -
  note sp = update_bits_spec [OF assms, of v]
  have "bytes_bits (storage (update_bits n v pos w)) =
      take pos (bytes_bits (storage w)) @ bits_of_nat n v @ drop (pos + n) (bytes_bits (storage w))"
    using sp assms by (intro nth_equalityI) (auto simp: nth_append)
  with sp show ?thesis by simp
qed

lemma update_patches_field_witness:
  "bytes_bits (storage (update_bits 4 9 6 (writer_new [0xFF, 0xFF] 0))) =
     [True, True, True, True, True, True] @ [True, False, False, True] @ [True, True, True, True, True, True]"
  using update_patches_field [of 6 4 "writer_new [0xFF, 0xFF] 0" 9]
  by (simp add: writer_new_zero bit_eval bits_of_nat_Suc)

text \<open>
  Undoing speculative output: rewinding a writer to an earlier position keeps exactly
  the bits before it and restores the invariant later writes rely on, whatever was written after
  that position.
\<close>

theorem rewind_keeps_prefix:
  assumes "pos \<le> position w" "position w \<le> 8 * length (storage w)" "\<not> overflowed (rewind pos w)"
  shows "writer_ok (rewind pos w) \<and> written (rewind pos w) = take pos (written w) \<and> position (rewind pos w) = pos"
  using rewind_written [OF assms] by blast

lemma rewind_keeps_prefix_witness:
  "written (rewind 2 (write_bits 3 5 (writer_new (replicate 9 0) 0))) = [True, False] \<and>
   writer_ok (rewind 2 (write_bits 3 5 (writer_new (replicate 9 0) 0)))"
proof -
  let ?w = "write_bits 3 5 (writer_new (replicate 9 0) 0)"
  have "\<not> overflowed ?w" by (simp add: overflowed_write writer_new_zero)
  moreover from this have "written ?w = [True, False, True]"
    using write_written(2) [of "writer_new (replicate 9 0) 0" 3 5]
    by (simp add: writer_new_zero MAX_BITS_PER_WRITE_def bit_eval)
  ultimately show ?thesis
    using rewind_keeps_prefix [of 2 ?w] by (simp add: writer_new_zero rewind_def storage_window_def)
qed

end
