(* ===== verification/Header.thy ===== *)
theory Header
  imports Window Bit_Writer
begin

unbundle bit_operations_syntax

text \<open>
  Meta-block headers: the decoder's \<open>metablock\<close> and \<open>metadata\<close>
  (\<open>decompressor/core/header.rs\<close>), the encoder's \<open>encode_mlen\<close>,
  \<open>store_var_len_uint8\<close> and header writers (\<open>shared/bitstream.rs\<close>), and the grammar
  \<open>meta_block_bits\<close> both are proved against. \<open>metablock_body\<close> is the part of
  \<open>metablock\<close> after \<open>prefix\<close> is known. A \<open>meta_block\<close> is the wire's value; its
  lengths stay under \<open>2 ^ 24 + 1\<close>.
\<close>

section \<open>The decoder's side\<close>

datatype meta_block =
    End
  | Compressed nat bool
  | Uncompressed nat
  | Metadata nat bool

definition header_metadata :: "nat \<Rightarrow> bool \<Rightarrow> reader \<Rightarrow> (decode_error + meta_block option) \<times> reader" where
  "header_metadata prefix final s0 =
     need (peek (prefix + 3) s0) (\<lambda>header s1.
     if shr header prefix AND 1 \<noteq> 0 then (Inl (InvalidData MetaBlock), s1)
     else let bytes = shr header (prefix + 1); width = prefix + 3 + bytes * 8 in
     need (peek width s1) (\<lambda>header s2.
     let encoded_length = shr header (prefix + 3) in
     if bytes > 1 \<and> shr encoded_length ((bytes - 1) * 8) = 0 then (Inl (InvalidData MetaBlock), s2)
     else let len = (if bytes = 0 then 0 else encoded_length + 1) in
       attempt (align_reader (discard width s2)) (\<lambda>_ s3. (Inr (Some (Metadata len final)), s3))))"

definition metablock_body :: "bool \<Rightarrow> nat \<Rightarrow> reader \<Rightarrow> (decode_error + meta_block option) \<times> reader" where
  "metablock_body final prefix s0 =
     need (peek (prefix + 2) s0) (\<lambda>header s1.
     let nibbles = shr header prefix + 4 in
     if nibbles = 7 then header_metadata (prefix + 2) final s1
     else let width = prefix + 2 + nibbles * 4 in
     need (peek (width + (if final then 0 else 1)) s1) (\<lambda>header s2.
     let encoded_length = shr header (prefix + 2) AND (2 ^ (nibbles * 4) - 1) in
     if nibbles > 4 \<and> shr encoded_length ((nibbles - 1) * 4) = 0 then (Inl (InvalidData MetaBlock), s2)
     else let len = encoded_length + 1; raw = (\<not> final \<and> shr header width \<noteq> 0);
              s3 = discard (width + (if final then 0 else 1)) s2 in
       if raw then attempt (align_reader s3) (\<lambda>_ s4. (Inr (Some (Uncompressed len)), s4))
       else (Inr (Some (Compressed len final)), s3)))"

definition header_metablock :: "reader \<Rightarrow> (decode_error + meta_block option) \<times> reader" where
  "header_metablock s0 =
     need (peek 1 s0) (\<lambda>first s1.
     if first \<noteq> 0 then
       need (peek 2 s1) (\<lambda>flags s2.
       if flags AND 2 \<noteq> 0 then (Inr (Some End), discard 2 s2) else metablock_body True 2 s2)
     else metablock_body False 1 s1)"

section \<open>The encoder's side\<close>

definition store_var_len_uint8 :: "nat \<Rightarrow> bit_writer \<Rightarrow> bit_writer" where
  "store_var_len_uint8 n w =
     (if n = 0 then write_bits 1 0 w
      else let nbits = log2_floor_non_zero n in
        write_bits nbits (n - shl 64 1 nbits) (write_bits 3 nbits (write_bits 1 1 w)))"

definition encode_mlen :: "nat \<Rightarrow> nat \<times> nat \<times> nat" where
  "encode_mlen len =
     (let lg = (if len = 1 then 1 else log2_floor_non_zero (len - 1) + 1);
          mnibbles = (if lg < 16 then 16 else lg + 3) div 4
      in (mnibbles - 4, mnibbles * 4, len - 1))"

definition store_compressed_meta_block_header :: "bool \<Rightarrow> nat \<Rightarrow> bit_writer \<Rightarrow> bit_writer" where
  "store_compressed_meta_block_header is_final_block len w =
     (let w1 = write_bits 1 (of_bool is_final_block) w;
          w2 = (if is_final_block then write_bits 1 0 w1 else w1) in
      case encode_mlen len of (nibblesbits, nlenbits, lenbits) \<Rightarrow>
        let w3 = write_bits nlenbits lenbits (write_bits 2 nibblesbits w2)
        in if \<not> is_final_block then write_bits 1 0 w3 else w3)"

definition store_uncompressed_meta_block_header :: "nat \<Rightarrow> bit_writer \<Rightarrow> bit_writer" where
  "store_uncompressed_meta_block_header len w =
     (case encode_mlen len of (nibblesbits, nlenbits, lenbits) \<Rightarrow>
        write_bits 1 1 (write_bits nlenbits lenbits (write_bits 2 nibblesbits (write_bits 1 0 w))))"

section \<open>The grammar\<close>

definition mlen_nibbles :: "nat \<Rightarrow> nat" where
  "mlen_nibbles len = (if len - 1 < 2 ^ 16 then 4 else if len - 1 < 2 ^ 20 then 5 else 6)"

definition mskip_bytes :: "nat \<Rightarrow> nat" where
  "mskip_bytes len = (if len = 0 then 0 else if len - 1 < 2 ^ 8 then 1 else if len - 1 < 2 ^ 16 then 2 else 3)"

definition flag_bits :: "bool \<Rightarrow> bool list" where
  "flag_bits final = (if final then [True, False] else [False])"

definition mlen_bits :: "nat \<Rightarrow> bool list" where
  "mlen_bits len = bits_of_nat 2 (mlen_nibbles len - 4) @ bits_of_nat (4 * mlen_nibbles len) (len - 1)"

fun meta_block_bits :: "meta_block \<Rightarrow> bool list" where
  "meta_block_bits End = [True, True]"
| "meta_block_bits (Compressed len final) = flag_bits final @ mlen_bits len @ (if final then [] else [False])"
| "meta_block_bits (Uncompressed len) = flag_bits False @ mlen_bits len @ [True]"
| "meta_block_bits (Metadata len final) = flag_bits final @ [True, True] @ [False] @
     bits_of_nat 2 (mskip_bytes len) @ bits_of_nat (8 * mskip_bytes len) (len - 1)"

fun meta_block_ok :: "meta_block \<Rightarrow> bool" where
  "meta_block_ok End = True"
| "meta_block_ok (Compressed len final) = (1 \<le> len \<and> len \<le> 2 ^ 24)"
| "meta_block_ok (Uncompressed len) = (1 \<le> len \<and> len \<le> 2 ^ 24)"
| "meta_block_ok (Metadata len final) = (len \<le> 2 ^ 24)"

fun byte_aligned :: "meta_block \<Rightarrow> bool" where
  "byte_aligned (Uncompressed len) = True"
| "byte_aligned (Metadata len final) = True"
| "byte_aligned _ = False"

section \<open>Parsing the grammar\<close>

lemma metadata_eval:
  assumes ok: "reader_ok s" and str: "stream s = P @ r # N @ F @ rest" "length P = p" "p \<le> 4" "length N = 2"
    "length F = 8 * nat_of_bits N"
  shows "header_metadata p final s =
    (if r then (Inl (InvalidData MetaBlock), loaded (p + 3) s)
     else let w = p + 3 + length F in
       if nat_of_bits N > 1 \<and> nat_of_bits F div 2 ^ ((nat_of_bits N - 1) * 8) = 0
       then (Inl (InvalidData MetaBlock), loaded w (loaded (p + 3) s))
       else attempt (align_reader (discard w (loaded w (loaded (p + 3) s))))
         (\<lambda>_ t. (Inr (Some (Metadata (if F = [] then 0 else nat_of_bits F + 1) final)), t)))"
proof -
  have n: "nat_of_bits N < 4" using nat_of_bits_bound [of N 2] str(4) by simp
  define H where "H = nat_of_bits (P @ r # N)"
  define H' where "H' = nat_of_bits (P @ r # N @ F)"
  let ?s = "loaded (p + 3) s"
  let ?w = "p + 3 + nat_of_bits N * 8"
  have 1: "need (peek (p + 3) s) k = k H ?s"
    for k :: "nat \<Rightarrow> reader \<Rightarrow> (decode_error + meta_block option) \<times> reader"
    unfolding H_def by (rule need_peek_list [OF ok, of _ "F @ rest"]) (use str in simp_all)
  have 2: "need (peek ?w ?s) k = k H' (loaded ?w ?s)"
    for k :: "nat \<Rightarrow> reader \<Rightarrow> (decode_error + meta_block option) \<times> reader"
    unfolding H'_def
    by (rule need_peek_list [of _ _ rest]) (use ok str n in \<open>simp_all add: loaded_simps\<close>)
  have H: "shr H p AND 1 = of_bool r" "shr H (p + 1) = nat_of_bits N" "shr H' (p + 3) = nat_of_bits F"
    unfolding H_def H'_def shr_nat_of_bits using str low_bit_nat_of_bits by simp_all
  have F: "length F = nat_of_bits N * 8" "nat_of_bits N = 0 \<longleftrightarrow> F = []" using str(5) by auto
  show ?thesis
    unfolding header_metadata_def 1 Let_def H 2 shr_div [of "nat_of_bits F"] F by simp
qed

lemma body_eval:
  assumes ok: "reader_ok s" and str: "stream s = P @ A @ F @ R @ rest" "length P = p" "p \<le> 2" "length A = 2"
    and A: "nat_of_bits A \<noteq> 3" "length F = 4 * (nat_of_bits A + 4)" "length R = (if final then 0 else 1)"
  shows "metablock_body final p s =
    (let w = p + 2 + length F + length R; t = loaded w (loaded (p + 2) s) in
     if nat_of_bits A > 0 \<and> nat_of_bits F div 2 ^ ((nat_of_bits A + 3) * 4) = 0 then (Inl (InvalidData MetaBlock), t)
     else if R = [True] then attempt (align_reader (discard w t)) (\<lambda>_ u. (Inr (Some (Uncompressed (nat_of_bits F + 1))), u))
     else (Inr (Some (Compressed (nat_of_bits F + 1) final)), discard w t))"
proof -
  have n: "nat_of_bits A < 3" using nat_of_bits_bound [of A 2] str(4) A(1) by simp
  define H where "H = nat_of_bits (P @ A)"
  define H' where "H' = nat_of_bits (P @ A @ F @ R)"
  let ?s = "loaded (p + 2) s"
  let ?w = "p + 2 + (nat_of_bits A + 4) * 4"
  let ?v = "?w + (if final then 0 else 1)"
  have 1: "need (peek (p + 2) s) k = k H ?s"
    for k :: "nat \<Rightarrow> reader \<Rightarrow> (decode_error + meta_block option) \<times> reader"
    unfolding H_def by (rule need_peek_list [OF ok, of _ "F @ R @ rest"]) (use str in simp_all)
  have 2: "need (peek ?v ?s) k = k H' (loaded ?v ?s)"
    for k :: "nat \<Rightarrow> reader \<Rightarrow> (decode_error + meta_block option) \<times> reader"
    unfolding H'_def
    by (rule need_peek_list [of _ _ rest]) (use ok str A n in \<open>auto simp: loaded_simps\<close>)
  have H: "shr H p = nat_of_bits A" unfolding H_def shr_nat_of_bits using str by simp
  have l: "length F = (nat_of_bits A + 4) * 4" using A(2) by simp
  have "shr H' (p + 2) = nat_of_bits (F @ R)" "shr H' ?w = nat_of_bits R"
    unfolding H'_def shr_nat_of_bits using str l by simp_all
  moreover have "nat_of_bits (F @ R) AND (2 ^ ((nat_of_bits A + 4) * 4) - 1) = nat_of_bits F"
    unfolding mask_nat_of_bits using l by simp
  ultimately have H': "shr H' (p + 2) AND (2 ^ ((nat_of_bits A + 4) * 4) - 1) = nat_of_bits F"
    "shr H' ?w = nat_of_bits R" by simp_all
  have R: "\<not> final \<and> nat_of_bits R \<noteq> 0 \<longleftrightarrow> R = [True]"
    using A(3) by (cases R) (auto split: if_splits)
  have c: "nat_of_bits A + 4 = 7 \<longleftrightarrow> False" "nat_of_bits A + 4 > 4 \<longleftrightarrow> nat_of_bits A > 0"
    "nat_of_bits A + 4 - 1 = nat_of_bits A + 3" using n by auto
  show ?thesis
    unfolding metablock_body_def 1 Let_def H c(1) if_False 2 H' R shr_div [of "nat_of_bits F"] l A(3) c(2,3) ..
qed

lemma body_metadata:
  assumes ok: "reader_ok s" and str: "stream s = P @ [True, True] @ rest" "length P = p" "p \<le> 2"
  shows "metablock_body final p s = header_metadata (p + 2) final (loaded (p + 2) s)"
proof -
  define H where "H = nat_of_bits (P @ [True, True])"
  have 1: "need (peek (p + 2) s) k = k H (loaded (p + 2) s)"
    for k :: "nat \<Rightarrow> reader \<Rightarrow> (decode_error + meta_block option) \<times> reader"
    unfolding H_def by (rule need_peek_list [OF ok, of _ rest]) (use str in simp_all)
  have "shr H p = 3" unfolding H_def shr_nat_of_bits using str by simp
  then show ?thesis unfolding metablock_body_def 1 Let_def by simp
qed

text \<open>The canonical length fields.\<close>

lemma mlen_bits_iff:
  assumes "length A = 2" "nat_of_bits A \<noteq> 3" "length F = 4 * (nat_of_bits A + 4)"
  shows "\<not> (nat_of_bits A > 0 \<and> nat_of_bits F div 2 ^ ((nat_of_bits A + 3) * 4) = 0) \<longleftrightarrow>
     A @ F = mlen_bits (nat_of_bits F + 1)"
    and "nat_of_bits F + 1 \<le> 2 ^ 24"
proof -
  have n: "nat_of_bits A < 3" using nat_of_bits_bound [of A 2] assms by simp
  have F: "nat_of_bits F < 2 ^ (4 * (nat_of_bits A + 4))" using nat_of_bits_less [of F] assms(3) by simp
  also have "\<dots> \<le> 2 ^ 24" by (rule power_increasing) (use n in auto)
  finally show "nat_of_bits F + 1 \<le> 2 ^ 24" by simp
  have *: "A @ F = mlen_bits (nat_of_bits F + 1) \<longleftrightarrow> mlen_nibbles (nat_of_bits F + 1) = nat_of_bits A + 4"
  proof
    assume eq: "A @ F = mlen_bits (nat_of_bits F + 1)"
    have "length F = 4 * mlen_nibbles (nat_of_bits F + 1)"
      using assms(1) arg_cong [OF eq, of length] by (simp add: mlen_bits_def)
    then show "mlen_nibbles (nat_of_bits F + 1) = nat_of_bits A + 4" using assms(3) by simp
  next
    assume "mlen_nibbles (nat_of_bits F + 1) = nat_of_bits A + 4"
    then show "A @ F = mlen_bits (nat_of_bits F + 1)"
      using bits_of_nat_of_bits [of A] bits_of_nat_of_bits [of F] assms by (simp add: mlen_bits_def)
  qed
  consider "nat_of_bits A = 0" | "nat_of_bits A = 1" | "nat_of_bits A = 2" using n by linarith
  then show "\<not> (nat_of_bits A > 0 \<and> nat_of_bits F div 2 ^ ((nat_of_bits A + 3) * 4) = 0) \<longleftrightarrow>
     A @ F = mlen_bits (nat_of_bits F + 1)"
    unfolding * using F by cases (auto simp: mlen_nibbles_def div_eq_0_iff)
qed

lemma mskip_bits_iff:
  assumes "length N = 2" "length F = 8 * nat_of_bits N"
  defines "len \<equiv> if F = [] then 0 else nat_of_bits F + 1"
  shows "\<not> (nat_of_bits N > 1 \<and> nat_of_bits F div 2 ^ ((nat_of_bits N - 1) * 8) = 0) \<longleftrightarrow>
     N @ F = bits_of_nat 2 (mskip_bytes len) @ bits_of_nat (8 * mskip_bytes len) (len - 1)"
    and "len \<le> 2 ^ 24"
proof -
  have n: "nat_of_bits N < 4" using nat_of_bits_bound [of N 2] assms by simp
  have F: "nat_of_bits F < 2 ^ (8 * nat_of_bits N)" using nat_of_bits_less [of F] assms(2) by simp
  also have "\<dots> \<le> 2 ^ 24" by (rule power_increasing) (use n in auto)
  finally show "len \<le> 2 ^ 24" by (simp add: len_def)
  have *: "N @ F = bits_of_nat 2 (mskip_bytes len) @ bits_of_nat (8 * mskip_bytes len) (len - 1) \<longleftrightarrow>
      mskip_bytes len = nat_of_bits N"
  proof
    assume eq: "N @ F = bits_of_nat 2 (mskip_bytes len) @ bits_of_nat (8 * mskip_bytes len) (len - 1)"
    have "length F = 8 * mskip_bytes len"
      using assms(1) arg_cong [OF eq, of length] by simp
    then show "mskip_bytes len = nat_of_bits N" using assms(2) by simp
  next
    assume eq: "mskip_bytes len = nat_of_bits N"
    have "len - 1 = nat_of_bits F" by (simp add: len_def)
    with eq show "N @ F = bits_of_nat 2 (mskip_bytes len) @ bits_of_nat (8 * mskip_bytes len) (len - 1)"
      using bits_of_nat_of_bits [of N] bits_of_nat_of_bits [of F] assms by simp
  qed
  have e: "F = [] \<longleftrightarrow> nat_of_bits N = 0" using assms(2) by auto
  consider "nat_of_bits N = 0" | "nat_of_bits N = 1" | "nat_of_bits N = 2" | "nat_of_bits N = 3" using n by linarith
  then show "\<not> (nat_of_bits N > 1 \<and> nat_of_bits F div 2 ^ ((nat_of_bits N - 1) * 8) = 0) \<longleftrightarrow>
     N @ F = bits_of_nat 2 (mskip_bytes len) @ bits_of_nat (8 * mskip_bytes len) (len - 1)"
    unfolding * unfolding len_def e using F by cases (auto simp: mskip_bytes_def div_eq_0_iff)
qed

section \<open>The parser accepts exactly the grammar\<close>

text \<open>
  \<open>after m s\<close> is the stream behind the header \<open>m\<close> and its padding; \<open>headed m s\<close>
  says that \<open>s\<close> starts with \<open>m\<close>, canonically encoded and zero padded.
\<close>

definition gap :: "meta_block \<Rightarrow> bool list \<Rightarrow> nat" where
  "gap m xs = (if byte_aligned m then (length xs - length (meta_block_bits m)) mod 8 else 0)"

definition headed :: "meta_block \<Rightarrow> bool list \<Rightarrow> bool list \<Rightarrow> bool" where
  "headed m xs rest \<longleftrightarrow> meta_block_ok m \<and> xs = meta_block_bits m @ replicate (gap m xs) False @ rest"

lemma headed_aligned:
  assumes "byte_aligned m" "meta_block_ok m" "xs = meta_block_bits m @ ys" "p = length ys mod 8"
  shows "headed m xs rest \<longleftrightarrow> take p ys = replicate p False \<and> rest = drop p ys"
proof -
  have g: "gap m xs = p" using assms by (simp add: gap_def)
  have "p \<le> length ys" using assms(4) by simp
  then have "ys = replicate p False @ rest \<longleftrightarrow> take p ys = replicate p False \<and> rest = drop p ys"
    by (metis append_take_drop_id length_replicate append_eq_conv_conj length_take min.absorb2)
  moreover have "headed m xs rest \<longleftrightarrow> ys = replicate p False @ rest"
    unfolding headed_def g using assms(2) by (simp add: assms(3))
  ultimately show ?thesis by blast
qed

lemma attempt_align_Some:
  assumes "reader_ok s" "stream s = ys"
  shows "attempt (align_reader s) (\<lambda>_ u. (Inr (Some (m :: meta_block)), u)) = (Inr (Some m'), s') \<longleftrightarrow>
     m' = m \<and> take (length ys mod 8) ys = replicate (length ys mod 8) False \<and> s' = discard (length ys mod 8) s"
    and "stream (discard (length ys mod 8) s) = drop (length ys mod 8) ys" "reader_ok (discard (length ys mod 8) s)"
  using attempt_align(1) [OF assms(1), where k = "\<lambda>_ u. (Inr (Some m), u) :: (decode_error + meta_block option) \<times> reader"]
    attempt_align(2,3) [OF assms(1)] assms(2)
  by (auto simp: padding_def)

lemma align_headed:
  assumes s: "reader_ok s" "stream s = ys" and m: "byte_aligned m" "meta_block_ok m" "xs = meta_block_bits m @ ys"
  shows "attempt (align_reader s) (\<lambda>_ u. (Inr (Some m), u)) = (Inr (Some m'), s') \<longleftrightarrow>
     m' = m \<and> headed m xs (stream s') \<and> s' = discard (length ys mod 8) s"
  unfolding attempt_align_Some(1) [OF s] headed_aligned [OF m refl]
  using attempt_align_Some(2) [OF s] by auto

lemma metadata_accepts:
  assumes t: "reader_ok t" "stream t = flag_bits final @ [True, True] @ r # N @ F @ ys"
    and N: "length N = 2" "length F = 8 * nat_of_bits N" and p: "p = length (flag_bits final) + 2"
  defines "len \<equiv> if F = [] then 0 else nat_of_bits F + 1"
  shows "header_metadata p final t = (Inr (Some m), s') \<longleftrightarrow>
     m = Metadata len final \<and> headed m (stream t) (stream s') \<and> reader_ok s' \<and>
     s' = discard (length ys mod 8) (discard (p + 3 + length F) (loaded (p + 3 + length F) (loaded (p + 3) t)))"
proof -
  let ?P = "flag_bits final @ [True, True]"
  let ?w = "p + 3 + length F"
  let ?v = "discard ?w (loaded ?w (loaded (p + 3) t))"
  have P: "length ?P = p" "p \<le> 4" by (simp_all add: p flag_bits_def)
  have str: "stream t = ?P @ r # N @ F @ ys" by (simp add: t)
  note ev = metadata_eval [OF t(1) str P N, of final, folded len_def, unfolded Let_def]
  have n: "nat_of_bits N < 4" using nat_of_bits_bound [of N 2] N(1) by simp
  have w: "length (?P @ r # N @ F) = ?w" "stream t = (?P @ r # N @ F) @ ys"
    using P N(1) str by simp_all
  have "reader_ok ?v \<and> stream ?v = drop ?w (stream t)"
    using discard_loaded [of "loaded (p + 3) t" ?w ?w] t(1) w P N n by (simp add: loaded_simps)
  then have v: "reader_ok ?v" "stream ?v = ys"
    by (metis append_eq_conv_conj w)+
  note canon = mskip_bits_iff [OF N, folded len_def]
  show ?thesis
  proof (cases "r \<or> N @ F \<noteq> bits_of_nat 2 (mskip_bytes len) @ bits_of_nat (8 * mskip_bytes len) (len - 1)")
    case True
    then have "fst (header_metadata p final t) = Inl (InvalidData MetaBlock)"
      unfolding ev canon(1) [symmetric] by auto
    moreover have "\<not> headed (Metadata len final) (stream t) rest" for rest
    proof
      assume "headed (Metadata len final) (stream t) rest"
      then obtain zs where "stream t = meta_block_bits (Metadata len final) @ zs"
        unfolding headed_def by blast
      then have "\<not> r" and eq: "(N @ F) @ ys = (bits_of_nat 2 (mskip_bytes len) @ bits_of_nat (8 * mskip_bytes len) (len - 1)) @ zs"
        unfolding str by simp_all
      from eq have "N = bits_of_nat 2 (mskip_bytes len)" using N(1) by (simp add: append_eq_append_conv)
      then have "nat_of_bits N = mskip_bytes len" using n by (simp add: mskip_bytes_def)
      with eq have "N @ F = bits_of_nat 2 (mskip_bytes len) @ bits_of_nat (8 * mskip_bytes len) (len - 1)"
        using N by (simp add: append_eq_append_conv)
      with \<open>\<not> r\<close> True show False by blast
    qed
    ultimately show ?thesis by auto
  next
    case False
    then have ok: "header_metadata p final t =
        attempt (align_reader ?v) (\<lambda>_ u. (Inr (Some (Metadata len final)), u))"
      unfolding ev canon(1) [symmetric] by auto
    have "stream t = meta_block_bits (Metadata len final) @ ys" using False str by simp
    then show ?thesis
      unfolding ok using align_headed [OF v, of "Metadata len final"] attempt_align_Some(3) [OF v] canon(2) by auto
  qed
qed

lemma body_accepts:
  assumes t: "reader_ok t" "stream t = flag_bits final @ A @ F @ R @ ys"
    and A: "length A = 2" "nat_of_bits A \<noteq> 3" "length F = 4 * (nat_of_bits A + 4)" "length R = (if final then 0 else 1)"
    and p: "p = length (flag_bits final)"
  defines "m \<equiv> if R = [True] then Uncompressed (nat_of_bits F + 1) else Compressed (nat_of_bits F + 1) final"
    and "w \<equiv> p + 2 + length F + length R"
  shows "metablock_body final p t = (Inr (Some m'), s') \<longleftrightarrow>
     m' = m \<and> headed m' (stream t) (stream s') \<and> reader_ok s' \<and>
     s' = discard (if R = [True] then length ys mod 8 else 0) (discard w (loaded w (loaded (p + 2) t)))"
proof -
  let ?P = "flag_bits final"
  let ?v = "discard w (loaded w (loaded (p + 2) t))"
  have P: "length ?P = p" "p \<le> 2" by (simp_all add: p flag_bits_def)
  note ev = body_eval [OF t P A, folded w_def, unfolded Let_def]
  have n: "nat_of_bits A < 3" using nat_of_bits_bound [of A 2] A(1,2) by simp
  have w: "length (?P @ A @ F @ R) = w" "stream t = (?P @ A @ F @ R) @ ys"
    using P A(1) t by (simp_all add: w_def)
  have "reader_ok ?v \<and> stream ?v = drop w (stream t)"
    using discard_loaded [of "loaded (p + 2) t" w w] t(1) w P A n by (simp add: loaded_simps w_def)
  then have v: "reader_ok ?v" "stream ?v = ys"
    by (metis append_eq_conv_conj w)+
  note canon = mlen_bits_iff [OF A(1-3)]
  have R: "R = (if final then [] else [R = [True]])" using A(4) by (cases R) (auto split: if_splits)
  have mb: "stream t = meta_block_bits m @ ys" if "A @ F = mlen_bits (nat_of_bits F + 1)"
    using that A(4) unfolding m_def t(2) by (cases R) (auto simp flip: that split: if_splits)
  show ?thesis
  proof (cases "A @ F = mlen_bits (nat_of_bits F + 1)")
    case False
    then have "fst (metablock_body final p t) = Inl (InvalidData MetaBlock)"
      unfolding ev canon(1) [symmetric] by auto
    moreover have "\<not> headed m (stream t) rest" for rest
    proof
      assume "headed m (stream t) rest"
      then have "stream t = meta_block_bits m @ replicate (gap m (stream t)) False @ rest"
        by (simp add: headed_def)
      then obtain zs where "?P @ (A @ F) @ R @ ys = ?P @ mlen_bits (nat_of_bits F + 1) @ zs"
        using A(4) unfolding t(2) m_def by (auto split: if_splits simp: flag_bits_def)
      then have eq: "(A @ F) @ R @ ys = mlen_bits (nat_of_bits F + 1) @ zs" by simp
      then have "A = bits_of_nat 2 (mlen_nibbles (nat_of_bits F + 1) - 4)"
        using A(1) by (simp add: mlen_bits_def append_eq_append_conv)
      then have "nat_of_bits A = mlen_nibbles (nat_of_bits F + 1) - 4" by (simp add: mlen_nibbles_def)
      then have "length (mlen_bits (nat_of_bits F + 1)) = length (A @ F)"
        using A by (simp add: mlen_bits_def mlen_nibbles_def split: if_splits)
      with eq False show False by (metis append_eq_append_conv)
    qed
    ultimately show ?thesis by auto
  next
    case True
    then have canonical: "\<not> (nat_of_bits A > 0 \<and> nat_of_bits F div 2 ^ ((nat_of_bits A + 3) * 4) = 0)"
      using canon(1) by simp
    show ?thesis
    proof (cases "R = [True]")
      case raw: True
      then have m: "m = Uncompressed (nat_of_bits F + 1)" by (simp add: m_def)
      have "metablock_body final p t = attempt (align_reader ?v) (\<lambda>_ u. (Inr (Some m), u))"
        unfolding ev m using canonical raw by auto
      then show ?thesis
        using align_headed [OF v _ _ mb [OF True]] attempt_align_Some(3) [OF v] canon(2) raw m by auto
    next
      case False
      then have m: "m = Compressed (nat_of_bits F + 1) final" by (simp add: m_def)
      have "metablock_body final p t = (Inr (Some m), ?v)"
        unfolding ev m using canonical False by auto
      moreover have "headed m (stream t) ys"
        unfolding headed_def using mb [OF True] m canon(2) by (simp add: gap_def)
      moreover have "discard 0 ?v = ?v" by (simp add: discard_def drop_bits_def shr_def)
      ultimately show ?thesis using v False by auto
    qed
  qed
qed

text \<open>Every parse that succeeds has read enough to split the stream this way.\<close>

lemma split_at: "n \<le> length xs \<Longrightarrow> \<exists>ys zs. xs = ys @ zs \<and> length ys = n"
  by (metis append_take_drop_id length_take min.absorb2)

lemma metadata_split:
  assumes t: "reader_ok t" "stream t = P @ xs" "length P = p" "p \<le> 4"
    and res: "header_metadata p final t = (Inr (Some m), s')"
  shows "\<exists>r N F ys. xs = r # N @ F @ ys \<and> length N = 2 \<and> length F = 8 * nat_of_bits N"
proof -
  have "p + 3 \<le> length (stream t)"
    using res t(4) unfolding header_metadata_def by (intro need_peek_enough [OF t(1)]) auto
  then obtain A zs where A: "xs = A @ zs" "length A = 3" using t split_at [of 3 xs] by auto
  then obtain r N where rN: "A = r # N" "length N = 2" by (auto simp: numeral_3_eq_3 length_Suc_conv)
  have n: "nat_of_bits N < 4" using nat_of_bits_bound [of N 2] rN by simp
  have 1: "need (peek (p + 3) t) k = k (nat_of_bits (P @ r # N)) (loaded (p + 3) t)"
    for k :: "nat \<Rightarrow> reader \<Rightarrow> (decode_error + meta_block option) \<times> reader"
    by (rule need_peek_list [OF t(1), of _ zs]) (use t A rN in simp_all)
  have sh: "shr (nat_of_bits (P @ r # N)) (p + 1) = nat_of_bits N"
    unfolding shr_nat_of_bits using t by simp
  have "p + 3 + nat_of_bits N * 8 \<le> length (stream (loaded (p + 3) t))"
    using res t(1,4) n unfolding header_metadata_def 1 Let_def sh
    by (intro need_peek_enough) (auto simp: loaded_simps split: if_splits)
  then have "nat_of_bits N * 8 \<le> length zs"
    using t A rN by (simp add: loaded_simps)
  then show ?thesis using split_at [of "8 * nat_of_bits N" zs] A rN by auto
qed

lemma body_split:
  assumes t: "reader_ok t" "stream t = P @ xs" "length P = p" "p \<le> 2"
    and res: "metablock_body final p t = (Inr (Some m), s')"
  shows "(\<exists>ys. xs = [True, True] @ ys) \<or> (\<exists>A F R ys. xs = A @ F @ R @ ys \<and> length A = 2 \<and> nat_of_bits A \<noteq> 3 \<and>
     length F = 4 * (nat_of_bits A + 4) \<and> length R = (if final then 0 else 1))"
proof -
  let ?r = "if final then 0 else 1 :: nat"
  have "p + 2 \<le> length (stream t)"
    using res t(4) unfolding metablock_body_def by (intro need_peek_enough [OF t(1)]) auto
  then obtain A zs where A: "xs = A @ zs" "length A = 2" using t split_at [of 2 xs] by auto
  have n: "nat_of_bits A < 4" using nat_of_bits_bound [of A 2] A by simp
  have 1: "need (peek (p + 2) t) k = k (nat_of_bits (P @ A)) (loaded (p + 2) t)"
    for k :: "nat \<Rightarrow> reader \<Rightarrow> (decode_error + meta_block option) \<times> reader"
    by (rule need_peek_list [OF t(1), of _ zs]) (use t A in simp_all)
  have sh: "shr (nat_of_bits (P @ A)) p = nat_of_bits A"
    unfolding shr_nat_of_bits using t by simp
  show ?thesis
  proof (cases "nat_of_bits A = 3")
    case True
    then have "A = bits_of_nat 2 3" using bits_of_nat_of_bits [of A] A by simp
    then have "A = [True, True]" by (simp add: bits_of_nat_def numeral_2_eq_2 bit_simps)
    with A show ?thesis by simp
  next
    case False
    then have "p + 2 + (nat_of_bits A + 4) * 4 + ?r \<le> length (stream (loaded (p + 2) t))"
      using res t(1,4) n unfolding metablock_body_def 1 Let_def sh
      by (intro need_peek_enough) (auto simp: loaded_simps)
    then have "4 * (nat_of_bits A + 4) + ?r \<le> length zs"
      using t A by (simp add: loaded_simps split: if_splits)
    then obtain FR ys where "zs = FR @ ys" "length FR = 4 * (nat_of_bits A + 4) + ?r"
      using split_at by blast
    moreover obtain F R where "FR = F @ R" "length F = 4 * (nat_of_bits A + 4)"
      using split_at [of "4 * (nat_of_bits A + 4)" FR] calculation(2) by auto
    ultimately show ?thesis using False A by force
  qed
qed

lemma loaded_shorter: "reader_ok s \<Longrightarrow> n \<le> 56 \<Longrightarrow> stream (loaded n s) = xs \<longleftrightarrow> stream s = xs"
  by (simp add: loaded_simps)

text \<open>The flags in front of the body.\<close>

lemma metablock_flags:
  assumes ok: "reader_ok s"
  shows "stream s = True # True # xs \<Longrightarrow> header_metablock s = (Inr (Some End), discard 2 (loaded 2 (loaded 1 s)))"
    and "stream s = True # False # xs \<Longrightarrow> header_metablock s = metablock_body True 2 (loaded 2 (loaded 1 s))"
    and "stream s = False # xs \<Longrightarrow> header_metablock s = metablock_body False 1 (loaded 1 s)"
proof -
  have 1: "need (peek 1 s) k = k (of_bool b) (loaded 1 s)" if "stream s = b # ys"
    for k :: "nat \<Rightarrow> reader \<Rightarrow> (decode_error + meta_block option) \<times> reader" and b ys
    using need_peek_list [OF ok, of "[b]" ys 1 k] that by simp
  have 2: "need (peek 2 (loaded 1 s)) k = k (1 + 2 * of_bool b) (loaded 2 (loaded 1 s))" if "stream s = True # b # ys"
    for k :: "nat \<Rightarrow> reader \<Rightarrow> (decode_error + meta_block option) \<times> reader" and b ys
    using need_peek_list [of "loaded 1 s" "[True, b]" ys 2 k] that ok by (simp add: loaded_simps)
  have "(1 + 2 * of_bool False :: nat) AND 2 = 0" "(1 + 2 * of_bool True :: nat) AND 2 \<noteq> 0" by code_simp+
  then have f: "(1 + 2 * of_bool b :: nat) AND 2 \<noteq> 0 \<longleftrightarrow> b" for b by (cases b) simp_all
  show "header_metablock s = (Inr (Some End), discard 2 (loaded 2 (loaded 1 s)))" if "stream s = True # True # xs"
    unfolding header_metablock_def 1 [OF that] 2 [OF that] f by simp
  show "header_metablock s = metablock_body True 2 (loaded 2 (loaded 1 s))" if "stream s = True # False # xs"
    unfolding header_metablock_def 1 [OF that] 2 [OF that] f by simp
  show "header_metablock s = metablock_body False 1 (loaded 1 s)" if "stream s = False # xs"
    unfolding header_metablock_def 1 [OF that] by simp
qed

lemma body_sound:
  assumes t: "reader_ok t" "stream t = flag_bits final @ xs" and pl: "p = length (flag_bits final)"
    and res0: "metablock_body final p t = (Inr (Some m), s')"
  shows "headed m (stream t) (stream s') \<and> reader_ok s'"
proof -
  note res = res0 [unfolded pl]
  let ?p = "length (flag_bits final)"
  have p: "?p \<le> 2" by (simp add: flag_bits_def)
  from body_split [OF t refl p res] show ?thesis
  proof (elim disjE exE conjE)
    fix ys assume xs: "xs = [True, True] @ ys"
    let ?u = "loaded (?p + 2) t"
    have u: "reader_ok ?u" "stream ?u = (flag_bits final @ [True, True]) @ ys" "length (flag_bits final @ [True, True]) = ?p + 2"
      "?p + 2 \<le> 4" using t xs p by (simp_all add: loaded_simps)
    have res': "header_metadata (?p + 2) final ?u = (Inr (Some m), s')"
      using body_metadata [OF t(1), of "flag_bits final" ys] t(2) xs p res by simp
    obtain r N F zs where ys: "ys = r # N @ F @ zs" and N: "length N = 2" "length F = 8 * nat_of_bits N"
      using metadata_split [OF u res'] by blast
    have "stream ?u = flag_bits final @ [True, True] @ r # N @ F @ zs" using u(2) ys by simp
    moreover have "?p + 2 = length (flag_bits final) + 2" ..
    ultimately have "headed m (stream ?u) (stream s') \<and> reader_ok s'"
      using metadata_accepts [OF u(1) _ N] res' by blast
    then show ?thesis using t p by (simp add: loaded_simps)
  next
    fix A F R ys assume xs: "xs = A @ F @ R @ ys" and A: "length A = 2" "nat_of_bits A \<noteq> 3"
      "length F = 4 * (nat_of_bits A + 4)" "length R = (if final then 0 else 1)"
    have "stream t = flag_bits final @ A @ F @ R @ ys" by (simp add: t(2) xs)
    then show ?thesis using body_accepts [OF t(1) _ A refl] res by blast
  qed
qed

lemma header_metablock_sound:
  assumes ok: "reader_ok s" and res: "header_metablock s = (Inr (Some m), s')"
  shows "headed m (stream s) (stream s') \<and> reader_ok s'"
proof -
  have "1 \<le> length (stream s)"
    using res unfolding header_metablock_def by (intro need_peek_enough [OF ok]) auto
  then obtain b xs where xs: "stream s = b # xs" by (cases "stream s") auto
  note flags = metablock_flags [OF ok]
  have lo: "reader_ok (loaded 1 s)" "stream (loaded 1 s) = stream s"
    "reader_ok (loaded 2 (loaded 1 s))" "stream (loaded 2 (loaded 1 s)) = stream s"
    using ok by (simp_all add: loaded_simps)
  show ?thesis
  proof (cases b)
    case False
    then show ?thesis
      using body_sound [of "loaded 1 s" False xs 1 m s'] flags(3) [of xs] lo xs res by (simp add: flag_bits_def)
  next
    case True
    have "2 \<le> length (stream (loaded 1 s))"
      using res xs True ok unfolding header_metablock_def
      by (intro need_peek_enough [OF lo(1)]) (auto simp: need_peek_list [OF ok, of "[True]" xs] split: if_splits)
    then obtain c ys where ys: "xs = c # ys" using xs lo by (cases xs) auto
    show ?thesis
    proof (cases c)
      case True
      have "reader_ok s' \<and> stream s' = ys"
        using flags(1) [of ys] res discard_loaded [OF lo(1), of 2 2] xs ys True \<open>b\<close> lo by auto
      moreover have "m = End" using flags(1) [of ys] res xs ys True \<open>b\<close> by simp
      ultimately show ?thesis using xs ys True \<open>b\<close> by (simp add: headed_def gap_def)
    next
      case False
      have "headed m (stream (loaded 2 (loaded 1 s))) (stream s') \<and> reader_ok s'"
        by (rule body_sound [of _ True ys 2])
          (use flags(2) [of ys] lo xs ys res \<open>b\<close> False in \<open>simp_all add: flag_bits_def\<close>)
      then show ?thesis unfolding lo .
    qed
  qed
qed

lemma field_consumed:
  assumes "reader_ok t" "stream t = B @ ys" "length B = w" "n \<le> 56" "w \<le> 56"
  shows "reader_ok (discard w (loaded w (loaded n t))) \<and> stream (discard w (loaded w (loaded n t))) = ys"
  using discard_loaded [of "loaded n t" w w] assms by (simp add: loaded_simps)

lemma body_decodes:
  assumes t: "reader_ok t" and m: "headed m (stream t) rest" "m = (if raw then Uncompressed len else Compressed len final)"
    and raw: "raw \<longrightarrow> \<not> final" and p: "p = length (flag_bits final)"
  shows "\<exists>s'. metablock_body final p t = (Inr (Some m), s') \<and> reader_ok s' \<and> stream s' = rest"
proof -
  let ?k = "mlen_nibbles len"
  define A F R where "A = bits_of_nat 2 (?k - 4)" and "F = bits_of_nat (4 * ?k) (len - 1)"
    and "R = (if final then [] else [raw])"
  define ys where "ys = replicate (gap m (stream t)) False @ rest"
  have len: "1 \<le> len" "len \<le> 2 ^ 24" using m by (auto simp: headed_def split: if_splits)
  have str: "stream t = flag_bits final @ A @ F @ R @ ys"
    using m raw unfolding headed_def
    by (auto simp: A_def F_def R_def ys_def mlen_bits_def split: if_splits)
  have nA: "nat_of_bits A = ?k - 4" and nF: "nat_of_bits F = len - 1"
    using len by (auto simp: A_def F_def mlen_nibbles_def)
  have A: "length A = 2" "nat_of_bits A \<noteq> 3" "length F = 4 * (nat_of_bits A + 4)" "length R = (if final then 0 else 1)"
    unfolding nA by (auto simp: A_def F_def R_def mlen_nibbles_def)
  define w where "w = p + 2 + length F + length R"
  let ?v = "discard w (loaded w (loaded (p + 2) t))"
  have "w \<le> 56" "p + 2 \<le> 56" using nA by (auto simp: w_def A p flag_bits_def mlen_nibbles_def)
  then have v: "reader_ok ?v" "stream ?v = ys"
    using field_consumed [OF t, of "flag_bits final @ A @ F @ R" ys w "p + 2"] str A by (simp_all add: w_def p)
  have m': "m = (if R = [True] then Uncompressed (nat_of_bits F + 1) else Compressed (nat_of_bits F + 1) final)"
    using m(2) raw len by (simp add: R_def nF)
  define q where "q = (if R = [True] then length ys mod 8 else 0)"
  have g: "gap m (stream t) = q"
    using raw unfolding gap_def q_def m(2) str
    by (auto simp: R_def mlen_bits_def A_def F_def split: if_splits)
  have "reader_ok (discard q ?v)" "stream (discard q ?v) = drop q ys"
    using attempt_align_Some(2,3) [OF v] v by (simp_all add: q_def discard_def drop_bits_def shr_def)
  moreover from this have "stream (discard q ?v) = rest" by (simp add: ys_def g)
  moreover have "metablock_body final p t = (Inr (Some m), discard q ?v)"
    unfolding body_accepts [OF t str A p, folded w_def q_def, of m "discard q ?v"]
    using calculation m(1) m' by simp
  ultimately show ?thesis by blast
qed

lemma metadata_decodes:
  assumes t: "reader_ok t" and m: "headed m (stream t) rest" "m = Metadata len final"
    and p: "p = length (flag_bits final) + 2"
  shows "\<exists>s'. header_metadata p final t = (Inr (Some m), s') \<and> reader_ok s' \<and> stream s' = rest"
proof -
  let ?k = "mskip_bytes len"
  define N F where "N = bits_of_nat 2 ?k" and "F = bits_of_nat (8 * ?k) (len - 1)"
  define ys where "ys = replicate (gap m (stream t)) False @ rest"
  have len: "len \<le> 2 ^ 24" using m by (simp add: headed_def)
  have str: "stream t = flag_bits final @ [True, True] @ False # N @ F @ ys"
    using m unfolding headed_def by (simp add: N_def F_def ys_def)
  have nN: "nat_of_bits N = ?k" by (simp add: N_def mskip_bytes_def)
  have nF: "nat_of_bits F = len - 1" using len by (auto simp: F_def mskip_bytes_def)
  have N: "length N = 2" "length F = 8 * nat_of_bits N" unfolding nN by (simp_all add: N_def F_def)
  define w where "w = p + 3 + length F"
  let ?v = "discard w (loaded w (loaded (p + 3) t))"
  have "w \<le> 56" "p + 3 \<le> 56" using nN by (auto simp: w_def N p flag_bits_def mskip_bytes_def)
  then have v: "reader_ok ?v" "stream ?v = ys"
    using field_consumed [OF t, of "flag_bits final @ [True, True] @ False # N @ F" ys w "p + 3"] str N
    by (simp_all add: w_def p)
  have e: "F = [] \<longleftrightarrow> len = 0"
    unfolding length_0_conv [symmetric] by (simp add: F_def mskip_bytes_def)
  have m': "m = Metadata (if F = [] then 0 else nat_of_bits F + 1) final"
    using m(2) unfolding e nF by simp
  define q where "q = length ys mod 8"
  have g: "gap m (stream t) = q"
    unfolding gap_def q_def m(2) str by (simp add: N_def F_def)
  have "reader_ok (discard q ?v)" "stream (discard q ?v) = drop q ys"
    using attempt_align_Some(2,3) [OF v] by (simp_all add: q_def)
  moreover from this have "stream (discard q ?v) = rest" by (simp add: ys_def g)
  moreover have "header_metadata p final t = (Inr (Some m), discard q ?v)"
    unfolding metadata_accepts [OF t str N p, folded w_def q_def, of m "discard q ?v"]
    using calculation m(1) m' by simp
  ultimately show ?thesis by blast
qed

lemma header_metablock_decodes:
  assumes ok: "reader_ok s" and m: "headed m (stream s) rest"
  shows "\<exists>s'. header_metablock s = (Inr (Some m), s') \<and> reader_ok s' \<and> stream s' = rest"
proof -
  let ?t1 = "loaded 1 s" and ?t2 = "loaded 2 (loaded 1 s)"
  have lo: "reader_ok ?t1" "stream ?t1 = stream s" "reader_ok ?t2" "stream ?t2 = stream s"
    using ok by (simp_all add: loaded_simps)
  note flags = metablock_flags [OF ok]
  have body: ?thesis if mr: "m = (if raw then Uncompressed len else Compressed len final)" "raw \<longrightarrow> \<not> final" for raw len final
  proof (cases final)
    case True
    then obtain xs where "stream s = True # False # xs"
      using m mr unfolding headed_def by (auto simp: flag_bits_def)
    then have "header_metablock s = metablock_body final 2 ?t2" using flags(2) True by simp
    moreover have "headed m (stream ?t2) rest" unfolding lo by (rule m)
    moreover have "2 = length (flag_bits final)" using True by (simp add: flag_bits_def)
    ultimately show ?thesis using body_decodes [OF lo(3) _ mr] by simp
  next
    case False
    then obtain xs where "stream s = False # xs"
      using m mr unfolding headed_def by (auto simp: flag_bits_def split: if_splits)
    then have "header_metablock s = metablock_body final 1 ?t1" using flags(3) False by simp
    moreover have "headed m (stream ?t1) rest" unfolding lo by (rule m)
    moreover have "1 = length (flag_bits final)" using False by (simp add: flag_bits_def)
    ultimately show ?thesis using body_decodes [OF lo(1) _ mr] by simp
  qed
  show ?thesis
  proof (cases m)
    case End
    then have str: "stream s = True # True # rest" using m by (simp add: headed_def gap_def)
    show ?thesis
      using flags(1) [OF str] discard_loaded [OF lo(1), of 2 2] lo str End by auto
  next
    case (Compressed len final)
    then show ?thesis using body [of False len final] by simp
  next
    case (Uncompressed len)
    then show ?thesis using body [of True len False] by simp
  next
    case (Metadata len final)
    have md: ?thesis if t: "reader_ok t" "stream t = stream s" and p: "p = length (flag_bits final)"
      and eq: "header_metablock s = metablock_body final p t" for t p
    proof -
      obtain ys where "stream t = flag_bits final @ [True, True] @ ys"
        using m unfolding headed_def Metadata by (auto simp: t)
      then have "header_metablock s = header_metadata (p + 2) final (loaded (p + 2) t)"
        using body_metadata [OF t(1)] p by (simp add: eq flag_bits_def)
      then show ?thesis
        using metadata_decodes [of "loaded (p + 2) t" m rest len final "p + 2"] m Metadata t p
        by (simp add: loaded_simps flag_bits_def)
    qed
    show ?thesis
    proof (cases final)
      case True
      then obtain xs where "stream s = True # False # xs"
        using m unfolding headed_def Metadata by (auto simp: flag_bits_def)
      with md [OF lo(3,4), of 2] flags(2) True show ?thesis by (simp add: flag_bits_def)
    next
      case False
      then obtain xs where "stream s = False # xs"
        using m unfolding headed_def Metadata by (auto simp: flag_bits_def)
      with md [OF lo(1,2), of 1] flags(3) False show ?thesis by (simp add: flag_bits_def)
    qed
  qed
qed

section \<open>The writers emit the grammar\<close>

lemma encode_mlen_eq:
  assumes "1 \<le> len" "len \<le> 2 ^ 24"
  shows "encode_mlen len = (mlen_nibbles len - 4, 4 * mlen_nibbles len, len - 1)"
proof -
  define lg where "lg = (if len = 1 then 1 else log2_floor_non_zero (len - 1) + 1)"
  have pos: "0 < len - 1" if "len \<noteq> 1" using assms that by simp
  have le: "lg \<le> k" if "len - 1 < 2 ^ k" "0 < k" for k
    using that pos log2_floor_bound [of "len - 1" k] by (auto simp: lg_def)
  have gt: "k < lg" if "\<not> len - 1 < 2 ^ k" for k
  proof (rule ccontr)
    assume "\<not> k < lg"
    then have "len \<noteq> 1" "log2_floor_non_zero (len - 1) + 1 \<le> k" using that by (auto simp: lg_def split: if_splits)
    then have "2 ^ (log2_floor_non_zero (len - 1) + 1) \<le> (2 :: nat) ^ k" by (intro power_increasing) auto
    with log2_floor_less [of "len - 1"] that show False by simp
  qed
  have "(if lg < 16 then 16 else lg + 3) div 4 = mlen_nibbles len"
  proof (cases "len - 1 < 2 ^ 16")
    case True
    then show ?thesis using le [of 16] by (auto simp: mlen_nibbles_def)
  next
    case F16: False
    have l16: "16 < lg" by (rule gt) (rule F16)
    show ?thesis
    proof (cases "len - 1 < 2 ^ 20")
      case True
      then have "lg + 3 < 24" "20 \<le> lg + 3" using le [of 20] l16 by simp_all
      then have "(lg + 3) div 4 = 5" by presburger
      then show ?thesis using True F16 l16 by (simp add: mlen_nibbles_def)
    next
      case False
      have "20 < lg" by (rule gt) (rule False)
      moreover have "lg \<le> 24" using assms by (intro le) auto
      ultimately have "(lg + 3) div 4 = 6" by presburger
      then show ?thesis using False F16 l16 by (simp add: mlen_nibbles_def)
    qed
  qed
  then show ?thesis unfolding encode_mlen_def Let_def lg_def by (simp only: mult.commute)
qed

lemma mlen_fits: "1 \<le> len \<Longrightarrow> len \<le> 2 ^ 24 \<Longrightarrow> len - 1 < 2 ^ (4 * mlen_nibbles len)"
  and mlen_nibbles_bounds: "4 \<le> mlen_nibbles len" "mlen_nibbles len \<le> 6"
  by (auto simp: mlen_nibbles_def)

lemma bit_field_1: "bits_of_nat 1 (of_bool b) = [b]" "bits_of_nat (Suc 0) (of_bool b) = [b]"
  "bits_of_nat 1 0 = [False]" "bits_of_nat (Suc 0) 0 = [False]" "bits_of_nat 1 1 = [True]" "bits_of_nat (Suc 0) (Suc 0) = [True]"
  by (simp_all add: bits_of_nat_def bit_Suc_0_iff)

lemma emits_mlen:
  assumes f: "wr.emits f xs" and len: "1 \<le> len" "len \<le> 2 ^ 24"
  shows "wr.emits (\<lambda>w. write_bits (4 * mlen_nibbles len) (len - 1) (write_bits 2 (mlen_nibbles len - 4) (f w)))
    (xs @ mlen_bits len)"
proof -
  have "wr.emits (\<lambda>w. write_bits 2 (mlen_nibbles len - 4) (f w)) (xs @ bits_of_nat 2 (mlen_nibbles len - 4))"
    using mlen_nibbles_bounds [of len] by (intro wr.emits_then_put [OF f]) (simp_all add: MAX_BITS_PER_WRITE_def)
  from wr.emits_then_put [OF this, of "4 * mlen_nibbles len" "len - 1"] show ?thesis
    using mlen_nibbles_bounds [of len] mlen_fits [OF len] by (simp add: MAX_BITS_PER_WRITE_def mlen_bits_def)
qed

lemma emits_flag: "wr.emits f xs \<Longrightarrow> wr.emits (\<lambda>w. write_bits 1 (of_bool b) (f w)) (xs @ [b])"
  using wr.emits_then_put [of f xs 1 "of_bool b"] by (simp add: MAX_BITS_PER_WRITE_def bit_field_1)

lemma emits_compressed:
  assumes len: "1 \<le> len" "len \<le> 2 ^ 24"
  shows "wr.emits (store_compressed_meta_block_header final len) (meta_block_bits (Compressed len final))"
proof -
  have hd: "wr.emits (\<lambda>w. if final then write_bits 1 0 (write_bits 1 (of_bool final) w) else write_bits 1 (of_bool final) w)
      (flag_bits final)"
    using emits_flag [OF emits_flag [OF wr.emits_id, of True], of False] emits_flag [OF wr.emits_id, of False]
    by (cases final) (simp_all add: flag_bits_def)
  note body = emits_mlen [OF hd len]
  show ?thesis
    using body emits_flag [OF body, of False]
    unfolding store_compressed_meta_block_header_def Let_def encode_mlen_eq [OF len]
    by (cases final) (simp_all add: flag_bits_def)
qed

lemma emits_uncompressed:
  assumes len: "1 \<le> len" "len \<le> 2 ^ 24"
  shows "wr.emits (store_uncompressed_meta_block_header len) (meta_block_bits (Uncompressed len))"
  using emits_flag [OF emits_mlen [OF emits_flag [OF wr.emits_id, of False] len], of True]
  unfolding store_uncompressed_meta_block_header_def encode_mlen_eq [OF len]
  by (simp add: flag_bits_def)

section \<open>Numbers under 256\<close>

definition var_len_bits :: "nat \<Rightarrow> bool list" where
  "var_len_bits n = (if n = 0 then [False]
     else let k = log2_floor_non_zero n in True # bits_of_nat 3 k @ bits_of_nat k (n - 2 ^ k))"

lemma emits_var_len:
  assumes "n < 256"
  shows "wr.emits (store_var_len_uint8 n) (var_len_bits n)"
proof (cases "n = 0")
  case True
  have "wr.emits (\<lambda>w. write_bits 1 (of_bool False) w) ([] @ [False])" by (rule emits_flag [OF wr.emits_id])
  moreover have "store_var_len_uint8 n = (\<lambda>w. write_bits 1 (of_bool False) w)"
    by (rule ext) (simp add: True store_var_len_uint8_def)
  ultimately show ?thesis by (simp add: True var_len_bits_def)
next
  case False
  define k where "k = log2_floor_non_zero n"
  have k: "k < 8" using False assms log2_floor_bound [of n 8] by (simp add: k_def)
  have n: "n - 2 ^ k < 2 ^ k" using log2_floor_less [of n] False by (simp add: k_def)
  have one: "shl 64 1 k = 2 ^ k"
    using shl_exact [of 1 k 64] power_strict_increasing [of k 64 "2::nat"] k by simp
  have "wr.emits (\<lambda>w. write_bits 3 k (write_bits 1 (of_bool True) w)) (([] @ [True]) @ bits_of_nat 3 k)"
    using k by (intro wr.emits_then_put [OF emits_flag [OF wr.emits_id]]) (simp_all add: MAX_BITS_PER_WRITE_def)
  from wr.emits_then_put [OF this, of k "n - 2 ^ k"]
  have "wr.emits (\<lambda>w. write_bits k (n - 2 ^ k) (write_bits 3 k (write_bits 1 (of_bool True) w)))
      (True # bits_of_nat 3 k @ bits_of_nat k (n - 2 ^ k))"
    using k n by (simp add: MAX_BITS_PER_WRITE_def)
  moreover have "store_var_len_uint8 n = (\<lambda>w. write_bits k (n - 2 ^ k) (write_bits 3 k (write_bits 1 (of_bool True) w)))"
    by (rule ext) (simp add: False store_var_len_uint8_def Let_def one [simplified] flip: k_def)
  ultimately show ?thesis by (simp add: False var_len_bits_def Let_def flip: k_def)
qed

lemma uint8_eval:
  assumes ok: "reader_ok s"
  shows "stream s = False # rest \<Longrightarrow> uint8 s = (Inr (Some 0), discard 1 (loaded 1 s))"
    and "stream s = True # K @ F @ rest \<Longrightarrow> length K = 3 \<Longrightarrow> length F = nat_of_bits K \<Longrightarrow>
      uint8 s = (let n = nat_of_bits K; t = loaded 4 (loaded 1 s) in
        if n = 0 then (Inr (Some 1), discard 4 t)
        else (Inr (Some (2 ^ n + nat_of_bits F)), discard (4 + n) (loaded (4 + n) t)))"
proof -
  have 1: "need (peek 1 s) k = k (of_bool b) (loaded 1 s)" if "stream s = b # ys"
    for k :: "nat \<Rightarrow> reader \<Rightarrow> (decode_error + nat option) \<times> reader" and b ys
    using need_peek_list [OF ok, of "[b]" ys 1 k] that by simp
  show "uint8 s = (Inr (Some 0), discard 1 (loaded 1 s))" if "stream s = False # rest"
    unfolding uint8_def 1 [OF that] by simp
  assume str: "stream s = True # K @ F @ rest" and K: "length K = 3" and F: "length F = nat_of_bits K"
  let ?n = "nat_of_bits K" and ?t = "loaded 4 (loaded 1 s)"
  have n: "?n < 8" using nat_of_bits_bound [of K 3] K by simp
  define H where "H = nat_of_bits (True # K)"
  have H: "shr H 1 = ?n" unfolding H_def shr_nat_of_bits by simp
  have 2: "need (peek 4 (loaded 1 s)) k = k H ?t"
    for k :: "nat \<Rightarrow> reader \<Rightarrow> (decode_error + nat option) \<times> reader"
    unfolding H_def using ok str K by (intro need_peek_list [of _ _ "F @ rest"]) (simp_all add: loaded_simps)
  define H' where "H' = nat_of_bits (True # K @ F)"
  have H': "shr H' 4 = nat_of_bits F" unfolding H'_def shr_nat_of_bits using K by simp
  have 3: "need (peek (4 + ?n) ?t) k = k H' (loaded (4 + ?n) ?t)"
    for k :: "nat \<Rightarrow> reader \<Rightarrow> (decode_error + nat option) \<times> reader"
    unfolding H'_def using ok str K F n by (intro need_peek_list [of _ _ rest]) (simp_all add: loaded_simps)
  show "uint8 s = (let n = ?n; t = ?t in
      if n = 0 then (Inr (Some 1), discard 4 t)
      else (Inr (Some (2 ^ n + nat_of_bits F)), discard (4 + n) (loaded (4 + n) t)))"
    unfolding uint8_def 1 [OF str] Let_def 2 H 3 H' by simp
qed

lemma uint8_decodes:
  assumes ok: "reader_ok s" and n: "n < 256" and str: "stream s = var_len_bits n @ rest"
  shows "\<exists>s'. uint8 s = (Inr (Some n), s') \<and> reader_ok s' \<and> stream s' = rest"
proof (cases "n = 0")
  case True
  then have "stream s = False # rest" using str by (simp add: var_len_bits_def)
  with uint8_eval(1) [OF ok this] discard_loaded [OF ok, of 1 1] True show ?thesis by simp
next
  case False
  define k where "k = log2_floor_non_zero n"
  define K F where "K = bits_of_nat 3 k" and "F = bits_of_nat k (n - 2 ^ k)"
  have k: "k < 8" using False n log2_floor_bound [of n 8] by (simp add: k_def)
  have ge: "2 ^ k \<le> n" using log2_floor_le [of n] False by (simp add: k_def)
  have F: "nat_of_bits F = n - 2 ^ k" using log2_floor_less [of n] False by (simp add: F_def k_def)
  have K: "nat_of_bits K = k" "length K = 3" "length F = nat_of_bits K" using k by (simp_all add: K_def F_def)
  have str': "stream s = True # K @ F @ rest"
    using str False by (simp add: var_len_bits_def Let_def K_def F_def flip: k_def)
  note ev = uint8_eval(2) [OF ok str' K(2,3), unfolded K(1) F Let_def]
  have l: "reader_ok (loaded 1 s)" "stream (loaded 1 s) = stream s" using ok by (simp_all add: loaded_simps)
  show ?thesis
  proof (cases "k = 0")
    case True
    then have "n = 1" using False log2_floor_less [of n] by (simp add: k_def)
    then show ?thesis
      using ev True discard_loaded [OF l(1), of 4 4] l str' K by (simp add: F_def)
  next
    case False
    let ?u = "loaded (4 + k) (loaded 4 (loaded 1 s))"
    have "reader_ok (discard (4 + k) ?u) \<and> stream (discard (4 + k) ?u) = rest"
      using field_consumed [OF l(1), of "True # K @ F" rest "4 + k" 4] l str' K k by simp
    then show ?thesis using ev False ge by auto
  qed
qed

lemma uint8_sound:
  assumes ok: "reader_ok s" and res: "uint8 s = (Inr (Some n), s')"
  shows "n < 256 \<and> stream s = var_len_bits n @ stream s' \<and> reader_ok s'"
proof -
  have "1 \<le> length (stream s)"
    using res unfolding uint8_def by (intro need_peek_enough [OF ok]) auto
  then obtain b xs where xs: "stream s = b # xs" by (cases "stream s") auto
  have l: "reader_ok (loaded 1 s)" "stream (loaded 1 s) = stream s" using ok by (simp_all add: loaded_simps)
  show ?thesis
  proof (cases b)
    case False
    then have "n = 0" "s' = discard 1 (loaded 1 s)" using uint8_eval(1) [OF ok, of xs] xs res by simp_all
    moreover have "reader_ok (discard 1 (loaded 1 s))" "stream (discard 1 (loaded 1 s)) = drop 1 (stream s)"
      using discard_loaded [OF ok, of 1 1] xs by simp_all
    ultimately show ?thesis using xs False by (simp add: var_len_bits_def)
  next
    case True
    have 1: "need (peek 1 s) k = k 1 (loaded 1 s)" for k :: "nat \<Rightarrow> reader \<Rightarrow> (decode_error + nat option) \<times> reader"
      using need_peek_list [OF ok, of "[True]" xs 1 k] xs True by simp
    have "4 \<le> length (stream (loaded 1 s))"
      using res unfolding uint8_def 1 by (intro need_peek_enough [OF l(1)]) auto
    then obtain K ys where K: "xs = K @ ys" "length K = 3" using split_at [of 3 xs] l xs by auto
    let ?n = "nat_of_bits K" and ?t = "loaded 4 (loaded 1 s)"
    have n: "?n < 8" using nat_of_bits_bound [of K 3] K by simp
    have t: "reader_ok ?t" "stream ?t = stream s" using l by (simp_all add: loaded_simps)
    have 2: "need (peek 4 (loaded 1 s)) k = k (nat_of_bits (True # K)) ?t"
      for k :: "nat \<Rightarrow> reader \<Rightarrow> (decode_error + nat option) \<times> reader"
      using l xs K True by (intro need_peek_list [of _ _ ys]) simp_all
    have H: "shr (nat_of_bits (True # K)) 1 = ?n" unfolding shr_nat_of_bits by simp
    have "?n \<le> length ys"
    proof (cases "?n = 0")
      case False
      then have "4 + ?n \<le> length (stream ?t)"
        using res n unfolding uint8_def 1 2 Let_def H by (intro need_peek_enough [OF t(1)]) auto
      then show ?thesis using t xs K by simp
    qed simp
    then obtain F zs where F: "ys = F @ zs" "length F = ?n" using split_at by blast
    have str: "stream s = True # K @ F @ zs" using xs True K F by simp
    note ev = uint8_eval(2) [OF ok str K(2) F(2), unfolded Let_def]
    have Fn: "nat_of_bits F < 2 ^ ?n" using nat_of_bits_less [of F] F by simp
    have nn: "n = 2 ^ ?n + nat_of_bits F"
      using ev res F by (cases "?n = 0") auto
    have s': "s' = discard (4 + ?n) (loaded (4 + ?n) (if ?n = 0 then loaded 1 s else ?t))"
      using ev res by (cases "?n = 0") auto
    have "reader_ok s' \<and> stream s' = zs"
      using field_consumed [OF ok, of "True # K @ F" zs "4 + ?n" 1] field_consumed [OF l(1), of "True # K @ F" zs "4 + ?n" 4]
        l str K F n unfolding s' by (cases "?n = 0") auto
    moreover have "log2_floor_non_zero n = ?n"
      by (rule log2_floor_unique) (use nn Fn in auto)
    then have "var_len_bits n = True # K @ F"
      using nn bits_of_nat_of_bits [of K] bits_of_nat_of_bits [of F] K F by (simp add: var_len_bits_def Let_def)
    moreover have "n < 2 ^ ?n * 2" using nn Fn by simp
    then have "n < 256" using n power_increasing [of ?n 7 "2::nat"] by simp
    ultimately show ?thesis using str by simp
  qed
qed

section \<open>Properties\<close>

text \<open>
  C8 (equivalence). The meta-block header parser accepts exactly the canonical encodings: on
  any reader state it returns \<open>m\<close> and leaves \<open>rest\<close> if and only if what is still to be read
  is the grammar's encoding of \<open>m\<close> (shortest length field, zero padding to a byte where the
  format aligns) followed by \<open>rest\<close>.
\<close>

theorem header_metablock_exact:
  assumes "reader_ok s"
  shows "(\<exists>s'. header_metablock s = (Inr (Some m), s') \<and> reader_ok s' \<and> stream s' = rest) \<longleftrightarrow>
    headed m (stream s) rest"
  using header_metablock_sound [OF assms] header_metablock_decodes [OF assms] by blast

lemma header_metablock_exact_witness:
  "reader_ok (bits_default, input_new [3] 0 None) \<and>
   (\<exists>s'. header_metablock (bits_default, input_new [3] 0 None) = (Inr (Some End), s') \<and> reader_ok s' \<and>
      stream s' = [False, False, False, False, False, False])"
proof -
  have ok: "reader_ok (bits_default, input_new [3] 0 None)" by (rule reader_ok_new) simp
  have "headed End (stream (bits_default, input_new [3] 0 None)) ([False, False, False, False, False, False])"
    unfolding stream_new by (simp add: headed_def gap_def input_new_def Let_def bit_eval)
  with ok header_metablock_exact [OF ok, of End "[False, False, False, False, False, False]"] show ?thesis by blast
qed

text \<open>
  C12 (roundtrip). The meta-block header writers and the parser agree: writing a compressed or
  an uncompressed header to a writer with room appends exactly the encoding of that header, and
  a reader in front of those bits (behind a compressed header anything may follow) returns the
  same header and stands right behind it.
\<close>

theorem meta_block_header_roundtrip:
  assumes len: "1 \<le> len" "len \<le> 2 ^ 24" and w: "writer_ok w" "\<not> overflowed (store_compressed_meta_block_header final len w)"
    and s: "reader_ok s" "stream s = drop (length (written w)) (written (store_compressed_meta_block_header final len w)) @ rest"
  shows "\<exists>s'. header_metablock s = (Inr (Some (Compressed len final)), s') \<and> reader_ok s' \<and> stream s' = rest"
proof (rule header_metablock_decodes [OF s(1)])
  have "stream s = meta_block_bits (Compressed len final) @ rest"
    using s(2) wr.emitsD(3) [OF emits_compressed [OF len] w] by simp
  then show "headed (Compressed len final) (stream s) rest" using len by (simp add: headed_def gap_def)
qed

lemma meta_block_header_roundtrip_witness:
  fixes w w' s
  defines "w \<equiv> writer_new (replicate 64 0) 0"
  defines "w' \<equiv> store_compressed_meta_block_header True 5 w"
  defines "s \<equiv> (bits_default, input_new (storage w') 0 None)"
  shows "reader_ok s \<and> (\<exists>s'. header_metablock s = (Inr (Some (Compressed 5 True)), s') \<and> reader_ok s' \<and>
    stream s' = drop (position w') (bytes_bits (storage w')))"
proof -
  have w: "writer_ok w" "written w = []" "length (storage w) = 64" by (simp_all add: w_def writer_new_zero)
  have ov: "\<not> overflowed w'"
    by (simp add: w'_def w_def store_compressed_meta_block_header_def encode_mlen_def log2_floor_non_zero.simps
        overflowed_write writer_new_zero Let_def)
  have l: "length (storage w') = 64"
    by (simp add: w'_def w_def store_compressed_meta_block_header_def encode_mlen_def log2_floor_non_zero.simps
        writer_new_zero Let_def)
  have ok: "reader_ok s" unfolding s_def by (rule reader_ok_new) simp
  have "stream s = written w' @ drop (position w') (bytes_bits (storage w'))"
    unfolding s_def stream_new written_def by (simp add: input_new_def Let_def l)
  then show ?thesis
    using meta_block_header_roundtrip [OF _ _ w(1), of 5 True s] ov ok w(2) by (simp add: w'_def)
qed

text \<open>
  C14 (roundtrip). The numbers under 256 of the entropy headers: \<open>uint8\<close> returns \<open>n\<close> and leaves
  \<open>rest\<close> if and only if the stream is what \<open>store_var_len_uint8\<close> appends for \<open>n\<close> to a writer
  with room, followed by \<open>rest\<close>; so distinct numbers have distinct, self-delimiting codes.
\<close>

theorem var_len_uint8_exact:
  assumes "n < 256" and w: "writer_ok w" "\<not> overflowed (store_var_len_uint8 n w)" and s: "reader_ok s"
  shows "(\<exists>s'. uint8 s = (Inr (Some n), s') \<and> reader_ok s' \<and> stream s' = rest) \<longleftrightarrow>
    stream s = drop (length (written w)) (written (store_var_len_uint8 n w)) @ rest"
  using uint8_sound [OF s] uint8_decodes [OF s assms(1)] wr.emitsD(3) [OF emits_var_len [OF assms(1)] w]
  by auto

lemma var_len_uint8_exact_witness:
  "\<exists>s'. uint8 (bits_default, input_new [0x65] 0 None) = (Inr (Some 6), s') \<and> reader_ok s' \<and>
    stream s' = [True, False]"
proof -
  define w where "w = writer_new (replicate 64 0) 0"
  have w: "writer_ok w" "written w = []" by (simp_all add: w_def writer_new_zero)
  have ov: "\<not> overflowed (store_var_len_uint8 6 w)"
    by (simp add: w_def store_var_len_uint8_def log2_floor_non_zero.simps overflowed_write writer_new_zero Let_def)
  have s: "reader_ok (bits_default, input_new [0x65] 0 None)" by (rule reader_ok_new) simp
  have "written (store_var_len_uint8 6 w) = [True, False, True, False, False, True]"
    using wr.emitsD(3) [OF emits_var_len w(1) ov]
    by (simp add: w var_len_bits_def log2_floor_non_zero.simps Let_def bit_eval bits_of_nat_Suc)
  then have "stream (bits_default, input_new [0x65] 0 None) =
      drop (length (written w)) (written (store_var_len_uint8 6 w)) @ [True, False]"
    unfolding stream_new by (simp add: w input_new_def Let_def bit_eval)
  with var_len_uint8_exact [OF _ w(1) ov s, of "[True, False]"] show ?thesis by simp
qed

end
