(* ===== verification/Distance.thy ===== *)
theory Distance
  imports Decode_Error Fast_Log
begin

unbundle bit_operations_syntax

text \<open>
  Distances on both sides of the wire. The decoder (\<open>decompressor/core/distance.rs\<close>): the
  ring \<open>cache\<close> of recent distances, the layout of the distance alphabet, the resolution of a
  symbol and its extra field by wide arithmetic, by the narrow standard-window arithmetic and by
  the precomputed split. The encoder (\<open>shared/distance.rs\<close>, \<open>shared/command.rs\<close>): the
  alphabet parameters, the largest alphabet under a distance limit and the splitting of a
  distance code into symbol and extra bits, with its inverse. A \<open>layout_ok\<close> layout is one a
  six-bit header can declare.
\<close>

section \<open>The decoder's layout\<close>

definition SHORT_CODES :: nat where "SHORT_CODES = 16"
definition MAX_DISTANCE :: nat where "MAX_DISTANCE = 2 ^ 63 - 4"

record distance_layout =
  postfix :: nat
  direct :: nat
  large :: bool

record partial_distance =
  pwidth :: nat
  pbase :: nat

definition layout_from_header :: "nat \<Rightarrow> bool \<Rightarrow> distance_layout" where
  "layout_from_header header lg = (let pf = header AND 3 in
     \<lparr>postfix = pf, direct = shl 64 (shr header 2) pf, large = lg\<rparr>)"

definition alphabet :: "distance_layout \<Rightarrow> nat" where
  "alphabet l = SHORT_CODES + direct l + shl 64 (if large l then 124 else 48) (postfix l)"

definition extra_bits :: "distance_layout \<Rightarrow> nat \<Rightarrow> nat" where
  "extra_bits l symbol = (if symbol < SHORT_CODES + direct l then 0
     else 1 + shr (symbol - SHORT_CODES - direct l) (postfix l + 1))"

text \<open>In \<open>u128\<close>, whose overflow no symbol of an alphabet reaches.\<close>

definition long_distance :: "distance_layout \<Rightarrow> nat \<Rightarrow> nat \<Rightarrow> nat" where
  "long_distance l symbol extra =
     (if symbol < SHORT_CODES + direct l then symbol - SHORT_CODES + 1
      else let code = symbol - SHORT_CODES - direct l;
               high = shr code (postfix l);
               low = code AND (2 ^ postfix l - 1);
               offset = shl 128 (2 + (high AND 1)) (extra_bits l symbol) - 4
           in shl 128 (offset + extra) (postfix l) + low + direct l + 1)"

definition validate_symbol :: "distance_layout \<Rightarrow> nat \<Rightarrow> decode_error + unit" where
  "validate_symbol l symbol =
     (if symbol \<ge> alphabet l then Inl (InvalidData Distance)
      else if symbol \<ge> SHORT_CODES \<and> long_distance l symbol (shl 64 1 (extra_bits l symbol) - 1) > MAX_DISTANCE
      then Inl (InvalidData Distance)
      else Inr ())"

text \<open>The same arithmetic in wrapping \<open>u64\<close>.\<close>

definition short_window_distance :: "distance_layout \<Rightarrow> nat \<Rightarrow> nat \<Rightarrow> nat" where
  "short_window_distance l symbol extra =
     (if symbol < SHORT_CODES + direct l then symbol - SHORT_CODES + 1
      else let code = symbol - SHORT_CODES - direct l;
               high = shr code (postfix l);
               low = code AND (2 ^ postfix l - 1);
               offset = wrapping_sub 64 (shl 64 (2 + (high AND 1)) (extra_bits l symbol)) 4
           in wrapping_add 64 (shl 64 (wrapping_add 64 offset extra) (postfix l)) (low + direct l + 1))"

definition resolve_large :: "distance_layout \<Rightarrow> nat \<Rightarrow> nat \<Rightarrow> decode_error + nat" where
  "resolve_large l symbol extra = (let d = long_distance l symbol extra in
     if d < 2 ^ 64 then Inr d else Inl (InvalidData Distance))"

definition distance_entry :: "distance_layout \<Rightarrow> nat \<Rightarrow> partial_distance" where
  "distance_entry l symbol =
     (if symbol < SHORT_CODES then \<lparr>pwidth = 0, pbase = 0\<rparr>
      else if symbol < SHORT_CODES + direct l then \<lparr>pwidth = 0, pbase = symbol - SHORT_CODES + 1\<rparr>
      else let code = symbol - SHORT_CODES - direct l;
               width = 1 + shr code (postfix l + 1);
               high = shr code (postfix l);
               low = code AND (2 ^ postfix l - 1);
               offset = wrapping_sub 64 (shl 64 (2 + (high AND 1)) width) 4
           in \<lparr>pwidth = width, pbase = wrapping_add 64 (shl 64 offset (postfix l)) (low + direct l + 1)\<rparr>)"

definition is_standard :: "distance_layout \<Rightarrow> bool" where
  "is_standard l \<longleftrightarrow> postfix l = 0 \<and> direct l = 0 \<and> \<not> large l"

definition STANDARD_ALPHABET :: nat where "STANDARD_ALPHABET = SHORT_CODES + 48"

definition standard_table :: "partial_distance list" where
  "standard_table = map (distance_entry \<lparr>postfix = 0, direct = 0, large = False\<rparr>) [0..<STANDARD_ALPHABET]"

text \<open>The contents \<open>fill_table\<close> leaves; its allocation can only fail, not change them.\<close>

definition fill_table :: "distance_layout \<Rightarrow> partial_distance list" where
  "fill_table l = map (distance_entry l) [0..<alphabet l]"

definition distance_table :: "distance_layout \<Rightarrow> partial_distance list \<Rightarrow> partial_distance list" where
  "distance_table l filled = (if is_standard l then standard_table else filled)"

section \<open>The cache of recent distances\<close>

record cache =
  slots :: "nat list"
  index :: nat

definition cache_default :: cache where
  "cache_default = \<lparr>slots = [16, 15, 11, 4], index = 4\<rparr>"

definition recent_distance :: "cache \<Rightarrow> nat \<Rightarrow> nat" where
  "recent_distance c back = slots c ! (wrapping_sub 64 (index c) (1 + back) AND 3)"

definition cache_pop :: "cache \<Rightarrow> nat \<times> cache" where
  "cache_pop c = (let c' = c\<lparr>index := wrapping_sub 64 (index c) 1\<rparr> in (slots c' ! (index c' AND 3), c'))"

definition cache_push :: "nat \<Rightarrow> cache \<Rightarrow> cache" where
  "cache_push d c = c\<lparr>slots := (slots c)[index c AND 3 := d], index := wrapping_add 64 (index c) 1\<rparr>"

definition SHORT_INDEX :: "nat list" where
  "SHORT_INDEX = [0, 1, 2, 3, 0, 0, 0, 0, 0, 0, 1, 1, 1, 1, 1, 1]"

definition SHORT_OFFSET :: "int list" where
  "SHORT_OFFSET = [0, 0, 0, 0, -1, 1, -2, 2, -3, 3, -1, 1, -2, 2, -3, 3]"

definition checked_add_signed :: "nat \<Rightarrow> int \<Rightarrow> nat option" where
  "checked_add_signed v d = (if 0 \<le> int v + d \<and> int v + d < 2 ^ 64 then Some (nat (int v + d)) else None)"

definition short_distance :: "nat \<Rightarrow> cache \<Rightarrow> decode_error + nat" where
  "short_distance symbol c =
     (case checked_add_signed (recent_distance c (SHORT_INDEX ! (symbol AND 15))) (SHORT_OFFSET ! (symbol AND 15)) of
        Some v \<Rightarrow> if v \<noteq> 0 \<and> v \<le> MAX_DISTANCE then Inr v else Inl (InvalidData Distance)
      | None \<Rightarrow> Inl (InvalidData Distance))"

definition resolve_distance :: "distance_layout \<Rightarrow> nat \<Rightarrow> nat \<Rightarrow> cache \<Rightarrow> decode_error + nat" where
  "resolve_distance l symbol extra c =
     (if symbol \<ge> SHORT_CODES then
        (if large l then resolve_large l symbol extra else Inr (short_window_distance l symbol extra))
      else short_distance symbol c)"

section \<open>The encoder's alphabet\<close>

definition NUM_DISTANCE_SHORT_CODES :: nat where "NUM_DISTANCE_SHORT_CODES = 16"
definition MAX_DISTANCE_BITS :: nat where "MAX_DISTANCE_BITS = 24"
definition LARGE_MAX_DISTANCE_BITS :: nat where "LARGE_MAX_DISTANCE_BITS = 62"
definition MAX_ALLOWED_DISTANCE :: nat where "MAX_ALLOWED_DISTANCE = 0x7FFFFFFC"

record distance_params =
  postfix_bits :: nat
  num_direct :: nat
  alphabet_size_max :: nat
  alphabet_size_limit :: nat
  max_distance :: nat

record code_limit =
  limit_alphabet_size :: nat
  limit_distance :: nat

text \<open>The loop that counts how often \<open>rest\<close> can be halved.\<close>

fun count_halvings :: "nat \<Rightarrow> nat" where
  "count_halvings rest = (if rest = 0 then 0 else Suc (count_halvings (rest div 2)))"

declare count_halvings.simps [simp del]

definition distance_code_limit :: "nat \<Rightarrow> nat \<Rightarrow> nat \<Rightarrow> code_limit" where
  "distance_code_limit max_dist pf nd =
     (if max_dist \<le> nd then \<lparr>limit_alphabet_size = max_dist + NUM_DISTANCE_SHORT_CODES, limit_distance = max_dist\<rparr>
      else
        (let forbidden = max_dist + 1;
             postfix = 2 ^ pf - 1;
             offset = shr (forbidden - nd - 1) pf + 4;
             distance_bits = count_halvings (offset div 2) - 1;
             half = shr offset distance_bits AND 1;
             group = (shl 32 (distance_bits - 1) 1) OR half in
         if group = 0 then \<lparr>limit_alphabet_size = nd + NUM_DISTANCE_SHORT_CODES, limit_distance = nd\<rparr>
         else
           (let group' = group - 1;
                distance_bits' = shr group' 1 + 1;
                extra = 2 ^ distance_bits' - 1;
                start = 2 ^ (distance_bits' + 1) - 4 + shl 32 (group' AND 1) distance_bits' in
            \<lparr>limit_alphabet_size = (shl 32 group' pf OR postfix) + nd + NUM_DISTANCE_SHORT_CODES + 1,
             limit_distance = shl 32 (start + extra) pf + postfix + nd + 1\<rparr>)))"

definition params_new :: "nat \<Rightarrow> nat \<Rightarrow> distance_params" where
  "params_new pf nd =
     (let size = NUM_DISTANCE_SHORT_CODES + nd + shl 32 MAX_DISTANCE_BITS (pf + 1) in
      \<lparr>postfix_bits = pf, num_direct = nd, alphabet_size_max = size, alphabet_size_limit = size,
       max_distance = nd + shl 32 1 (MAX_DISTANCE_BITS + pf + 2) - shl 32 1 (pf + 2)\<rparr>)"

definition params_new_large :: "nat \<Rightarrow> nat \<Rightarrow> distance_params" where
  "params_new_large pf nd =
     (let size = NUM_DISTANCE_SHORT_CODES + nd + shl 32 LARGE_MAX_DISTANCE_BITS (pf + 1);
          limit = distance_code_limit MAX_ALLOWED_DISTANCE pf nd in
      \<lparr>postfix_bits = pf, num_direct = nd, alphabet_size_max = size,
       alphabet_size_limit = limit_alphabet_size limit, max_distance = limit_distance limit\<rparr>)"

definition params_for_window :: "bool \<Rightarrow> nat \<Rightarrow> nat \<Rightarrow> distance_params" where
  "params_for_window lw pf nd = (if lw then params_new_large pf nd else params_new pf nd)"

text \<open>The packed code as \<open>u16\<close>, the extra bits as \<open>u32\<close>.\<close>

definition prefix_encode_copy_distance :: "nat \<Rightarrow> nat \<Rightarrow> nat \<Rightarrow> nat \<times> nat" where
  "prefix_encode_copy_distance distance_code num_direct_codes pf =
     (if distance_code < NUM_DISTANCE_SHORT_CODES + num_direct_codes then (take_bit 16 distance_code, 0)
      else
        (let dist = shl 64 1 (pf + 2) + (distance_code - NUM_DISTANCE_SHORT_CODES - num_direct_codes);
             bucket = log2_floor_non_zero dist - 1;
             postfix_mask = 2 ^ pf - 1;
             postfix = dist AND postfix_mask;
             prefix = shr dist bucket AND 1;
             offset = shl 64 (2 + prefix) bucket;
             nbits = bucket - pf;
             code = shl 64 nbits 10 OR
               (NUM_DISTANCE_SHORT_CODES + num_direct_codes + shl 64 (2 * (nbits - 1) + prefix) pf + postfix) in
         (take_bit 16 code, take_bit 32 (shr (dist - offset) pf))))"

definition restore_distance_code :: "nat \<Rightarrow> nat \<Rightarrow> nat \<Rightarrow> nat \<Rightarrow> nat" where
  "restore_distance_code dist_prefix dist_extra nd pf =
     (let dcode = dist_prefix AND 0x3FF in
      if dcode < NUM_DISTANCE_SHORT_CODES + nd then dcode
      else
        (let nbits = shr dist_prefix 10;
             postfix_mask = 2 ^ pf - 1;
             base = dcode - nd - NUM_DISTANCE_SHORT_CODES;
             hcode = shr base pf;
             lcode = base AND postfix_mask;
             offset = shl 32 (2 + (hcode AND 1)) nbits - 4 in
         shl 32 (offset + dist_extra) pf + lcode + nd + NUM_DISTANCE_SHORT_CODES))"

definition layout_ok :: "nat \<Rightarrow> nat \<Rightarrow> bool" where
  "layout_ok pf nd \<longleftrightarrow> pf \<le> 3 \<and> (\<exists>k \<le> 15. nd = k * 2 ^ pf)"

section \<open>Buckets\<close>

text \<open>
  The arithmetic both sides share: a distance beyond the direct codes is a bucket of width
  \<open>w\<close>, one of its two halves \<open>h\<close>, a postfix \<open>lo\<close> and an extra field \<open>x\<close>.
\<close>

definition bucket_distance :: "nat \<Rightarrow> nat \<Rightarrow> nat \<Rightarrow> nat \<Rightarrow> nat \<Rightarrow> nat \<Rightarrow> nat" where
  "bucket_distance pf nd w h lo x = ((2 + h) * 2 ^ w - 4 + x) * 2 ^ pf + lo + nd + 1"

definition bucket_symbol :: "nat \<Rightarrow> nat \<Rightarrow> nat \<Rightarrow> nat \<Rightarrow> nat \<Rightarrow> nat" where
  "bucket_symbol pf nd w h lo = 16 + nd + (2 * (w - 1) + h) * 2 ^ pf + lo"

definition bucket :: "nat \<Rightarrow> nat \<Rightarrow> nat \<Rightarrow> nat \<Rightarrow> nat \<Rightarrow> bool" where
  "bucket pf w h lo x \<longleftrightarrow> 1 \<le> w \<and> h < 2 \<and> lo < 2 ^ pf \<and> x < 2 ^ w"

lemma and_1_nat: "(n :: nat) AND 1 = n mod 2"
  using AND_mask_nat [of n 1] by simp

lemma bucket_code:
  fixes w :: nat
  assumes "lo < 2 ^ pf" "h < 2"
    and code_def: "code = (2 * (w - 1) + h) * 2 ^ pf + lo"
  shows "shr code pf = 2 * (w - 1) + h" "shr code pf AND 1 = h" "shr code (pf + 1) = w - 1"
    "code AND (2 ^ pf - 1) = lo"
proof -
  show 1: "shr code pf = 2 * (w - 1) + h" using assms by (simp add: shr_div code_def)
  then show "shr code pf AND 1 = h" unfolding and_1_nat using assms(2) by simp
  have "shr code (pf + 1) = shr code pf div 2" by (simp only: shr_div power_add power_one_right div_mult2_eq)
  then show "shr code (pf + 1) = w - 1" using 1 assms(2) by simp
  show "code AND (2 ^ pf - 1) = lo" unfolding AND_mask_nat using assms(1) by (simp add: code_def)
qed

lemma symbol_bucket:
  assumes "16 + nd \<le> symbol"
  obtains w h lo where "symbol = bucket_symbol pf nd w h lo" "bucket pf w h lo 0"
proof
  define code where "code = symbol - 16 - nd"
  define q where "q = code div 2 ^ pf"
  show "symbol = bucket_symbol pf nd (q div 2 + 1) (q mod 2) (code mod 2 ^ pf)"
  proof -
    have "2 * (q div 2) + q mod 2 = q" by simp
    then have "bucket_symbol pf nd (q div 2 + 1) (q mod 2) (code mod 2 ^ pf) = 16 + nd + (q * 2 ^ pf + code mod 2 ^ pf)"
      by (simp add: bucket_symbol_def)
    also have "q * 2 ^ pf + code mod 2 ^ pf = code" unfolding q_def by (rule div_mult_mod_eq)
    finally show ?thesis using assms by (simp add: code_def)
  qed
  show "bucket pf (q div 2 + 1) (q mod 2) (code mod 2 ^ pf) 0" by (simp add: bucket_def)
qed

lemma symbol_code:
  "bucket_symbol pf nd w h lo - 16 - nd = (2 * (w - 1) + h) * 2 ^ pf + lo" "16 + nd \<le> bucket_symbol pf nd w h lo"
  by (simp_all add: bucket_symbol_def)

lemma extra_bits_bucket:
  assumes "bucket (postfix l) w h lo x"
  shows "extra_bits l (bucket_symbol (postfix l) (direct l) w h lo) = w"
proof -
  have "1 \<le> w" "lo < 2 ^ postfix l" "h < 2" using assms by (simp_all add: bucket_def)
  moreover have "shr ((2 * (w - 1) + h) * 2 ^ postfix l + lo) (postfix l + 1) = w - 1"
    by (rule bucket_code(3) [OF calculation(2,3) refl])
  moreover have "\<not> bucket_symbol (postfix l) (direct l) w h lo < 16 + direct l"
    using symbol_code(2) by (simp add: not_less)
  ultimately show ?thesis unfolding extra_bits_def SHORT_CODES_def symbol_code(1) by simp
qed

lemma bucket_low_le:
  assumes "bucket pf w h lo x"
  shows "4 \<le> (2 + h) * 2 ^ w" "(2 + h) * 2 ^ w < 2 ^ (w + 2)" "(2 + h) * 2 ^ w + x < 2 ^ (w + 2)"
    "2 ^ (w + 1) \<le> (2 + h) * 2 ^ w"
proof -
  have h: "h = 0 \<or> h = 1" using assms by (auto simp: bucket_def)
  have "(2::nat) ^ 1 \<le> 2 ^ w" by (rule power_increasing) (use assms in \<open>simp_all add: bucket_def\<close>)
  with h show "4 \<le> (2 + h) * 2 ^ w" by auto
  show "(2 + h) * 2 ^ w < 2 ^ (w + 2)" "(2 + h) * 2 ^ w + x < 2 ^ (w + 2)" "2 ^ (w + 1) \<le> (2 + h) * 2 ^ w"
    using h assms by (auto simp: bucket_def)
qed

lemma long_distance_bucket:
  assumes b: "bucket (postfix l) w h lo x" and w: "w + postfix l + 2 \<le> 128"
  shows "long_distance l (bucket_symbol (postfix l) (direct l) w h lo) x =
    bucket_distance (postfix l) (direct l) w h lo x"
proof -
  note low = bucket_low_le [OF b]
  have "(2 + h) * 2 ^ w < (2::nat) ^ 128"
    by (rule less_le_trans [OF low(2)], rule power_increasing) (use w in simp_all)
  then have s1: "shl 128 (2 + h) w = (2 + h) * 2 ^ w" by (rule shl_exact)
  have "((2 + h) * 2 ^ w - 4 + x) < 2 ^ (w + 2)" using low by linarith
  then have "((2 + h) * 2 ^ w - 4 + x) * 2 ^ postfix l < 2 ^ (w + 2) * 2 ^ postfix l" by simp
  also have "\<dots> = 2 ^ (w + 2 + postfix l)" by (simp add: power_add)
  also have "\<dots> \<le> 2 ^ 128" by (rule power_increasing) (use w in simp_all)
  finally have s2: "shl 128 ((2 + h) * 2 ^ w - 4 + x) (postfix l) = ((2 + h) * 2 ^ w - 4 + x) * 2 ^ postfix l"
    by (rule shl_exact)
  have bc: "shr ((2 * (w - 1) + h) * 2 ^ postfix l + lo) (postfix l) AND 1 = h"
    "((2 * (w - 1) + h) * 2 ^ postfix l + lo) AND (2 ^ postfix l - 1) = lo"
    using b bucket_code(2,4) [of lo "postfix l" h _ w] by (auto simp: bucket_def)
  have nl: "\<not> bucket_symbol (postfix l) (direct l) w h lo < 16 + direct l"
    using symbol_code(2) by (simp add: not_less)
  show ?thesis
    unfolding long_distance_def SHORT_CODES_def if_not_P [OF nl] Let_def symbol_code(1) bc extra_bits_bucket [OF b]
      s1 s2 bucket_distance_def ..
qed

section \<open>The narrow arithmetic and the precomputed split\<close>

lemma wrapping_sub_exact: "b \<le> a \<Longrightarrow> a < 2 ^ w \<Longrightarrow> wrapping_sub w a b = a - b"
proof -
  assume ba: "b \<le> a" and a: "a < 2 ^ w"
  then have "b mod 2 ^ w = b" by simp
  then have "a + (2 ^ w - b mod 2 ^ w) = (a - b) + 2 ^ w" using ba a by simp
  then show ?thesis using a by (simp add: wrapping_sub_def)
qed

lemma wrapping_add_exact: "a + b < 2 ^ w \<Longrightarrow> wrapping_add w a b = a + b"
  by (simp add: wrapping_add_def)

lemma narrow_bucket:
  assumes b: "bucket (postfix l) w h lo x" and fits: "bucket_distance (postfix l) (direct l) w h lo x < 2 ^ 64"
    and w: "w \<le> 62"
  defines "sm \<equiv> bucket_symbol (postfix l) (direct l) w h lo"
  shows "short_window_distance l sm x = bucket_distance (postfix l) (direct l) w h lo x"
    and "pwidth (distance_entry l sm) = w"
    and "pbase (distance_entry l sm) + x * 2 ^ postfix l = bucket_distance (postfix l) (direct l) w h lo x"
proof -
  define q where "q = (2 + h) * 2 ^ w"
  note low = bucket_low_le [OF b, folded q_def]
  let ?p = "postfix l"
  let ?bd = "bucket_distance ?p (direct l) w h lo x"
  have q64: "q < 2 ^ 64" by (rule less_le_trans [OF low(2)], rule power_increasing) (use w in simp_all)
  then have s1: "shl 64 (2 + h) w = q" unfolding q_def by (rule shl_exact)
  have s2: "wrapping_sub 64 q 4 = q - 4" by (rule wrapping_sub_exact [OF low(1) q64])
  have "q - 4 + x < 2 ^ (w + 2)" using low by linarith
  moreover have "(2 :: nat) ^ (w + 2) \<le> 2 ^ 64" by (rule power_increasing) (use w in simp_all)
  ultimately have s3: "wrapping_add 64 (q - 4) x = q - 4 + x" by (intro wrapping_add_exact) linarith
  have e: "(q - 4 + x) * 2 ^ ?p + (lo + direct l + 1) = ?bd"
    by (simp add: bucket_distance_def q_def)
  have "(q - 4 + x) * 2 ^ ?p \<le> ?bd" using e by linarith
  then have s4: "shl 64 (q - 4 + x) ?p = (q - 4 + x) * 2 ^ ?p" using fits by (intro shl_exact) linarith
  have s5: "wrapping_add 64 ((q - 4 + x) * 2 ^ ?p) (lo + direct l + 1) = ?bd"
    unfolding wrapping_add_def e by (rule mod_less [OF fits])
  have e0: "(q - 4) * 2 ^ ?p + (lo + direct l + 1) + x * 2 ^ ?p = ?bd"
    using e by (simp add: algebra_simps)
  then have le0: "(q - 4) * 2 ^ ?p + (lo + direct l + 1) \<le> ?bd" by linarith
  then have s6: "shl 64 (q - 4) ?p = (q - 4) * 2 ^ ?p" using fits by (intro shl_exact) linarith
  have s7: "wrapping_add 64 ((q - 4) * 2 ^ ?p) (lo + direct l + 1) = (q - 4) * 2 ^ ?p + (lo + direct l + 1)"
    using le0 fits by (intro wrapping_add_exact) linarith
  have w1: "1 \<le> w" using b by (simp add: bucket_def)
  have bc: "shr ((2 * (w - 1) + h) * 2 ^ ?p + lo) ?p AND 1 = h"
    "shr ((2 * (w - 1) + h) * 2 ^ ?p + lo) (?p + 1) = w - 1"
    "((2 * (w - 1) + h) * 2 ^ ?p + lo) AND (2 ^ ?p - 1) = lo"
    using b bucket_code(2-4) [of lo ?p h _ w] by (auto simp: bucket_def)
  have nl: "\<not> sm < 16 + direct l" "\<not> sm < 16"
    using symbol_code(2) [of "direct l" "postfix l" w h lo] unfolding sm_def by linarith+
  show "short_window_distance l sm x = bucket_distance ?p (direct l) w h lo x"
    unfolding short_window_distance_def SHORT_CODES_def if_not_P [OF nl(1)] Let_def
    unfolding sm_def symbol_code(1) bc extra_bits_bucket [OF b] s1 s2 s3 s4 s5 ..
  have entry: "distance_entry l sm = \<lparr>pwidth = w, pbase = (q - 4) * 2 ^ ?p + (lo + direct l + 1)\<rparr>"
    unfolding distance_entry_def SHORT_CODES_def if_not_P [OF nl(1)] if_not_P [OF nl(2)] Let_def
    unfolding sm_def symbol_code(1) bc le_add_diff_inverse [OF w1] s1 s2 s6 s7 ..
  show "pwidth (distance_entry l sm) = w" by (simp add: entry)
  show "pbase (distance_entry l sm) + x * 2 ^ ?p = bucket_distance ?p (direct l) w h lo x"
    unfolding entry using e0 by simp
qed

section \<open>Splitting a distance\<close>

lemma distance_bucket:
  assumes "nd < d"
  obtains w h lo x where "d = bucket_distance pf nd w h lo x" "bucket pf w h lo x"
proof -
  define n lo where "n = (d - 1 - nd) div 2 ^ pf + 4" and "lo = (d - 1 - nd) mod 2 ^ pf"
  define k where "k = log2_floor_non_zero n"
  have k: "2 ^ k \<le> n" "n < 2 * 2 ^ k" using log2_floor_le [of n] log2_floor_less [of n] by (simp_all add: k_def n_def)
  have "4 \<le> n" by (simp add: n_def)
  then have "(2::nat) ^ 2 < 2 ^ (k + 1)" using k(2) by simp
  then have k2: "2 \<le> k" by (metis Suc_1 Suc_eq_plus1 less_Suc_eq_le one_less_numeral_iff power_strict_increasing_iff semiring_norm(76))
  define w where "w = k - 1"
  have kw: "k = w + 1" "1 \<le> w" using k2 by (simp_all add: w_def)
  define g where "g = n div 2 ^ w"
  have g: "2 \<le> g" "g < 4"
  proof -
    have "2 * 2 ^ w \<le> n" "n < 4 * 2 ^ w" using k kw by simp_all
    then show "2 \<le> g" "g < 4" unfolding g_def
      by (simp_all add: less_eq_div_iff_mult_less_eq div_less_iff_less_mult)
  qed
  have "n = g * 2 ^ w + n mod 2 ^ w" unfolding g_def by (rule div_mult_mod_eq [symmetric])
  moreover have "2 + (g - 2) = g" using g by simp
  ultimately have n: "n = (2 + (g - 2)) * 2 ^ w + n mod 2 ^ w" by (simp only:)
  have b: "bucket pf w (g - 2) lo (n mod 2 ^ w)" using g kw by (simp add: bucket_def lo_def)
  have "d - 1 - nd = (n - 4) * 2 ^ pf + lo" unfolding n_def lo_def by (simp add: div_mult_mod_eq)
  moreover have "(2 + (g - 2)) * 2 ^ w - 4 + n mod 2 ^ w = n - 4" using bucket_low_le(1) [OF b] n by linarith
  ultimately have "bucket_distance pf nd w (g - 2) lo (n mod 2 ^ w) = d - 1 - nd + nd + 1"
    by (simp add: bucket_distance_def)
  with assms have "d = bucket_distance pf nd w (g - 2) lo (n mod 2 ^ w)" by simp
  then show ?thesis using b that by blast
qed

lemma encode_bucket:
  assumes b: "bucket pf w h lo x" and sm: "bucket_symbol pf nd w h lo < 1024" and w: "w \<le> 32" "pf \<le> 3"
  shows "prefix_encode_copy_distance (bucket_distance pf nd w h lo x + 15) nd pf =
    (w * 1024 + bucket_symbol pf nd w h lo, x)"
proof -
  define q where "q = (2 + h) * 2 ^ w"
  note low = bucket_low_le [OF b, folded q_def]
  have hb: "h < 2" "lo < 2 ^ pf" "x < 2 ^ w" "1 \<le> w" using b by (simp_all add: bucket_def)
  define dc where "dc = bucket_distance pf nd w h lo x + 15"
  define dist where "dist = (q + x) * 2 ^ pf + lo"
  have dc: "dc - 16 - nd = (q - 4 + x) * 2 ^ pf + lo" "\<not> dc < 16 + nd"
    by (simp_all add: dc_def bucket_distance_def q_def)
  have one: "shl 64 1 (pf + 2) = 2 ^ (pf + 2)"
    using shl_exact [of 1 "pf + 2" 64] power_strict_increasing [of "pf + 2" 64 "2::nat"] w by simp
  have "4 * 2 ^ pf + (q - 4 + x) * 2 ^ pf = (q + x) * 2 ^ pf"
    using low(1) by (simp flip: add_mult_distrib)
  then have dist: "shl 64 1 (pf + 2) + (dc - 16 - nd) = dist"
    unfolding one dc(1) dist_def by (simp add: power_add)
  have bounds: "2 ^ (w + 1 + pf) \<le> dist" "dist < 2 * 2 ^ (w + 1 + pf)"
  proof -
    have "2 ^ (w + 1) * 2 ^ pf \<le> q * 2 ^ pf" using low(4) by (rule mult_le_mono1)
    then show "2 ^ (w + 1 + pf) \<le> dist" unfolding dist_def power_add by (simp add: algebra_simps)
    have "q + x + 1 \<le> 2 ^ (w + 2)" using low(3) by simp
    then have "(q + x + 1) * 2 ^ pf \<le> 2 ^ (w + 2) * 2 ^ pf" by (rule mult_le_mono1)
    moreover have "dist < (q + x + 1) * 2 ^ pf" unfolding dist_def using hb(2) by (simp add: algebra_simps)
    ultimately show "dist < 2 * 2 ^ (w + 1 + pf)" by (simp add: power_add)
  qed
  have lg: "log2_floor_non_zero dist - 1 = w + pf"
    unfolding log2_floor_unique [OF bounds] by simp
  have post: "dist AND (2 ^ pf - 1) = lo" unfolding AND_mask_nat dist_def using hb(2) by simp
  have "dist div 2 ^ pf = q + x" unfolding dist_def using hb(2) by simp
  then have "shr dist (w + pf) = (q + x) div 2 ^ w"
    unfolding shr_div by (metis add.commute div_mult2_eq power_add)
  also have "\<dots> = 2 + h" unfolding q_def using hb(3) by (intro div_nat_eqI) (simp_all add: algebra_simps)
  finally have pre: "shr dist (w + pf) AND 1 = h" unfolding and_1_nat using hb(1) by simp
  have q64: "(2 + h) * 2 ^ (w + pf) < 2 ^ 64"
  proof -
    have "(2 + h) * 2 ^ (w + pf) \<le> 4 * 2 ^ (w + pf)" using hb(1) by simp
    also have "\<dots> = 2 ^ (w + pf + 2)" by (simp add: power_add)
    also have "\<dots> < 2 ^ 64" by (rule power_strict_increasing) (use w in simp_all)
    finally show ?thesis .
  qed
  have off: "shl 64 (2 + h) (w + pf) = q * 2 ^ pf"
    unfolding shl_exact [OF q64] q_def by (simp add: power_add algebra_simps)
  have "shr (dist - q * 2 ^ pf) pf = x"
    unfolding dist_def shr_div using hb(2) by (simp add: add_mult_distrib)
  then have ex: "take_bit 32 (shr (dist - q * 2 ^ pf) pf) = x"
    using hb(3) w(1) power_increasing [of w 32 "2::nat"] by (simp add: take_bit_nat_eq_self)
  have sy: "16 + nd + shl 64 (2 * (w - 1) + h) pf + lo = bucket_symbol pf nd w h lo"
    using sm by (subst shl_exact) (simp_all add: bucket_symbol_def)
  have pack: "take_bit 16 (shl 64 w 10 OR bucket_symbol pf nd w h lo) = w * 1024 + bucket_symbol pf nd w h lo"
    using w(1) sm shl_or_low [of "bucket_symbol pf nd w h lo" 10 w 64] by (simp add: take_bit_nat_eq_self)
  show ?thesis
    unfolding dc_def [symmetric] prefix_encode_copy_distance_def NUM_DISTANCE_SHORT_CODES_def if_not_P [OF dc(2)] Let_def
      dist lg pre post off ex
    using sy pack by simp
qed

lemma restore_bucket:
  assumes b: "bucket pf w h lo x" and sm: "bucket_symbol pf nd w h lo < 1024" and w: "w \<le> 32"
    and fits: "bucket_distance pf nd w h lo x + 15 < 2 ^ 32"
  shows "restore_distance_code (w * 1024 + bucket_symbol pf nd w h lo) x nd pf = bucket_distance pf nd w h lo x + 15"
proof -
  define q where "q = (2 + h) * 2 ^ w"
  note low = bucket_low_le [OF b, folded q_def]
  have hb: "h < 2" "lo < 2 ^ pf" "x < 2 ^ w" "1 \<le> w" using b by (simp_all add: bucket_def)
  let ?s = "bucket_symbol pf nd w h lo"
  have m: "(w * 1024 + ?s) AND 0x3FF = ?s" using AND_mask_nat [of "w * 1024 + ?s" 10] sm by simp
  have n: "shr (w * 1024 + ?s) 10 = w" using sm by (simp add: shr_div)
  have nl: "\<not> ?s < 16 + nd" using symbol_code(2) [of nd pf w h lo] by simp
  have c: "?s - nd - 16 = (2 * (w - 1) + h) * 2 ^ pf + lo" by (simp add: bucket_symbol_def)
  note bc = bucket_code(2,4) [OF hb(2,1) refl, of w]
  have bd: "(q - 4 + x) * 2 ^ pf + lo + nd + 1 = bucket_distance pf nd w h lo x"
    by (simp add: bucket_distance_def q_def)
  then have "(q - 4 + x) * 2 ^ pf < 2 ^ 32" using fits by linarith
  then have s2: "shl 32 (q - 4 + x) pf = (q - 4 + x) * 2 ^ pf" by (rule shl_exact)
  define r where "r = q - 4 + x"
  have "r \<le> r * 2 ^ pf" "q \<le> r + 4" using low(1) by (simp_all add: r_def)
  then have "q < 2 ^ 32" using fits bd [folded r_def] by linarith
  then have s1: "shl 32 (2 + h) w = q" unfolding q_def by (rule shl_exact)
  show ?thesis
    unfolding restore_distance_code_def NUM_DISTANCE_SHORT_CODES_def Let_def m if_not_P [OF nl] n c bc s1 s2
    using bd by simp
qed

section \<open>Groups of symbols in the order of their distances\<close>

definition group_start :: "nat \<Rightarrow> nat" where
  "group_start g = (2 + g mod 2) * 2 ^ (g div 2 + 1) - 4"

lemma group_start_Suc: "group_start (Suc g) = group_start g + 2 ^ (g div 2 + 1)"
proof -
  define t :: nat where "t = 2 ^ (g div 2)"
  have t: "1 \<le> t" "group_start g = (2 + g mod 2) * (2 * t) - 4" "2 ^ (g div 2 + 1) = 2 * t"
    by (simp_all add: t_def group_start_def)
  consider "g mod 2 = 0" "Suc g mod 2 = 1" "Suc g div 2 = g div 2"
    | "g mod 2 = 1" "Suc g mod 2 = 0" "Suc g div 2 = g div 2 + 1"
    by (cases "g mod 2 = 0") (auto simp: mod_Suc div_Suc)
  then show ?thesis
  proof cases
    case 1
    then have "group_start (Suc g) = 3 * (2 * t) - 4" by (simp add: group_start_def t_def)
    with 1 t show ?thesis by simp
  next
    case 2
    then have "group_start (Suc g) = 2 * (2 * (2 * t)) - 4" by (simp add: group_start_def t_def)
    with 2 t show ?thesis by simp
  qed
qed

lemma group_start_mono: "g \<le> g' \<Longrightarrow> group_start g \<le> group_start g'"
  by (rule lift_Suc_mono_le [of group_start]) (simp_all add: group_start_Suc)

lemma group_of_bucket:
  assumes "bucket pf w h lo x"
  shows "(2 * (w - 1) + h) mod 2 = h" "(2 * (w - 1) + h) div 2 + 1 = w"
  using assms by (auto simp: bucket_def)

lemma group_order:
  assumes b: "bucket pf w h lo x"
  shows "bucket_distance pf nd w h lo x \<le> group_start n * 2 ^ pf + nd \<longleftrightarrow> 2 * (w - 1) + h < n"
    and "bucket_symbol pf nd w h lo < 16 + nd + n * 2 ^ pf \<longleftrightarrow> 2 * (w - 1) + h < n"
proof -
  define g where "g = 2 * (w - 1) + h"
  have hb: "h < 2" "lo < 2 ^ pf" "x < 2 ^ w" "1 \<le> w" using b by (simp_all add: bucket_def)
  have gs: "group_start g = (2 + h) * 2 ^ w - 4" "group_start (Suc g) = group_start g + 2 ^ w"
    unfolding group_start_Suc g_def group_of_bucket(2) [OF b]
    by (simp_all only: group_start_def group_of_bucket [OF b])
  have d: "bucket_distance pf nd w h lo x = (group_start g + x) * 2 ^ pf + lo + nd + 1"
    by (simp add: bucket_distance_def gs(1))
  show "bucket_distance pf nd w h lo x \<le> group_start n * 2 ^ pf + nd \<longleftrightarrow> 2 * (w - 1) + h < n"
  proof (cases "g < n")
    case True
    have "group_start g + x + 1 \<le> group_start (Suc g)" using gs(2) hb(3) by simp
    also have "\<dots> \<le> group_start n" using True by (intro group_start_mono) simp
    finally have "(group_start g + x + 1) * 2 ^ pf \<le> group_start n * 2 ^ pf" by (rule mult_le_mono1)
    then show ?thesis using True hb(2) unfolding d g_def [symmetric] by (simp add: algebra_simps)
  next
    case False
    then have "group_start n * 2 ^ pf \<le> group_start g * 2 ^ pf" by (intro mult_le_mono1 group_start_mono) simp
    also have "\<dots> \<le> (group_start g + x) * 2 ^ pf" by simp
    finally have "\<not> bucket_distance pf nd w h lo x \<le> group_start n * 2 ^ pf + nd" unfolding d by linarith
    then show ?thesis using False unfolding g_def by simp
  qed
  show "bucket_symbol pf nd w h lo < 16 + nd + n * 2 ^ pf \<longleftrightarrow> 2 * (w - 1) + h < n"
  proof (cases "g < n")
    case True
    then have "(g + 1) * 2 ^ pf \<le> n * 2 ^ pf" by (intro mult_le_mono1) simp
    then show ?thesis using True hb(2) unfolding bucket_symbol_def g_def [symmetric] by (simp add: algebra_simps)
  next
    case False
    then have "n * 2 ^ pf \<le> g * 2 ^ pf" by (intro mult_le_mono1) simp
    then have "\<not> bucket_symbol pf nd w h lo < 16 + nd + n * 2 ^ pf"
      unfolding bucket_symbol_def g_def [symmetric] by linarith
    then show ?thesis using False unfolding g_def by simp
  qed
qed

lemma count_halvings_log: "0 < v \<Longrightarrow> count_halvings v = log2_floor_non_zero v + 1"
proof (induction v rule: count_halvings.induct)
  case (1 v)
  show ?case
  proof (cases "v < 2")
    case True
    then have "v = 1" using 1 by simp
    then show ?thesis by (simp add: count_halvings.simps)
  next
    case False
    then show ?thesis
      using 1 by (subst count_halvings.simps, subst log2_floor_non_zero.simps) simp
  qed
qed

text \<open>
  A limit admits a whole number \<open>n\<close> of groups: \<open>code_limit_ok\<close> says that the limit's alphabet
  ends where the \<open>n\<close>-th group starts.
\<close>

definition code_limit_ok :: "nat \<Rightarrow> nat \<Rightarrow> nat \<Rightarrow> nat \<Rightarrow> nat \<Rightarrow> bool" where
  "code_limit_ok pf nd sz dist n \<longleftrightarrow> sz = 16 + nd + n * 2 ^ pf \<and> dist = group_start n * 2 ^ pf + nd"

lemma distance_code_limit_groups:
  assumes md: "nd < max_dist" "max_dist < 2 ^ 32 - 1" and pf: "pf \<le> 3"
  defines "r \<equiv> distance_code_limit max_dist pf nd"
  shows "\<exists>n. code_limit_ok pf nd (limit_alphabet_size r) (limit_distance r) n \<and> n \<le> 61 \<and>
    limit_distance r \<le> max_dist \<and> max_dist < group_start (Suc n) * 2 ^ pf + nd"
proof -
  obtain w h lo x where f: "max_dist + 1 = bucket_distance pf nd w h lo x" and b: "bucket pf w h lo x"
    using distance_bucket [of nd "max_dist + 1"] md by (metis less_SucI Suc_eq_plus1)
  have hb: "h < 2" "lo < 2 ^ pf" "x < 2 ^ w" "1 \<le> w" using b by (simp_all add: bucket_def)
  define q where "q = (2 + h) * 2 ^ w"
  define g where "g = 2 * (w - 1) + h"
  note low = bucket_low_le [OF b, folded q_def]
  have "max_dist + 1 - nd - 1 = (q - 4 + x) * 2 ^ pf + lo" unfolding f by (simp add: bucket_distance_def q_def)
  then have off: "shr (max_dist + 1 - nd - 1) pf + 4 = q + x" unfolding shr_div using hb(2) low(1) by simp
  have bd: "2 ^ w \<le> (q + x) div 2" "(q + x) div 2 < 2 * 2 ^ w" using low(3,4) by simp_all
  have "0 < (q + x) div 2" using low(1) by simp
  then have db: "count_halvings ((q + x) div 2) - 1 = w"
    using count_halvings_log log2_floor_unique [OF bd] by simp
  have "shr (q + x) w = 2 + h"
    unfolding shr_div q_def using hb(3) by (intro div_nat_eqI) (simp_all add: algebra_simps)
  then have half: "shr (q + x) w AND 1 = h" unfolding and_1_nat using hb(1) by simp
  have w31: "w \<le> 31"
  proof (rule ccontr)
    assume "\<not> w \<le> 31"
    then have "(2::nat) ^ 33 \<le> 2 ^ (w + 1)" by (intro power_increasing) simp_all
    then have "2 ^ 33 \<le> q" using low(4) by linarith
    moreover have "(q - 4 + x) \<le> (q - 4 + x) * 2 ^ pf" by simp
    moreover have "max_dist = (q - 4 + x) * 2 ^ pf + lo + nd"
      using f unfolding bucket_distance_def q_def [symmetric] by simp
    ultimately have "q - 4 + x \<le> max_dist" "2 ^ 33 \<le> q" by linarith+
    then show False using md(2) by simp
  qed
  have "shl 32 (w - 1) 1 OR h = (w - 1) * 2 ^ 1 + h" using hb(1) w31 by (intro shl_or_low) simp_all
  then have grp: "shl 32 (w - 1) 1 OR h = g" by (simp add: g_def)
  note go = group_order(1) [OF b, of nd, folded f g_def]
  have r: "r = (if g = 0 then \<lparr>limit_alphabet_size = nd + 16, limit_distance = nd\<rparr>
     else let g' = g - 1; w' = shr g' 1 + 1; start = 2 ^ (w' + 1) - 4 + shl 32 (g' AND 1) w' in
       \<lparr>limit_alphabet_size = (shl 32 g' pf OR (2 ^ pf - 1)) + nd + 16 + 1,
        limit_distance = shl 32 (start + (2 ^ w' - 1)) pf + (2 ^ pf - 1) + nd + 1\<rparr>)"
    using md unfolding r_def distance_code_limit_def NUM_DISTANCE_SHORT_CODES_def Let_def off db half grp by simp
  show ?thesis
  proof (cases "g = 0")
    case True
    then have "code_limit_ok pf nd (limit_alphabet_size r) (limit_distance r) 0"
      by (simp add: r code_limit_ok_def group_start_def)
    moreover have "max_dist < group_start (Suc 0) * 2 ^ pf + nd" using go [of 1] True by simp
    moreover have "limit_distance r \<le> max_dist" using True md by (simp add: r)
    ultimately show ?thesis by (intro exI [of _ 0]) simp
  next
    case False
    define g' w' where "g' = g - 1" and "w' = g' div 2 + 1"
    have gg: "g = Suc g'" using False by (simp add: g'_def)
    have g61: "g \<le> 61" using w31 hb(1) by (simp add: g_def)
    have p8: "(2::nat) ^ pf \<le> 2 ^ 3" by (rule power_increasing) (use pf in simp_all)
    have w': "shr g' 1 + 1 = w'" "w' \<le> 31" using g61 gg by (simp_all add: shr_div w'_def)
    have "g' * 2 ^ pf \<le> 60 * 8" by (rule mult_le_mono) (use g61 gg p8 in simp_all)
    then have "shl 32 g' pf OR (2 ^ pf - 1) = g' * 2 ^ pf + (2 ^ pf - 1)" by (intro shl_or_low) simp_all
    then have size: "(shl 32 g' pf OR (2 ^ pf - 1)) + nd + 16 + 1 = 16 + nd + g * 2 ^ pf" by (simp add: gg)
    have "(g' mod 2) * 2 ^ w' \<le> 1 * 2 ^ 31" by (intro mult_le_mono power_increasing) (use w'(2) in simp_all)
    then have sh: "shl 32 (g' AND 1) w' = (g' mod 2) * 2 ^ w'" unfolding and_1_nat by (intro shl_exact) simp
    have "(4::nat) \<le> 2 ^ (w' + 1)" by (simp add: w'_def)
    then have start: "2 ^ (w' + 1) - 4 + shl 32 (g' AND 1) w' = group_start g'"
      unfolding sh group_start_def w'_def [symmetric] by (simp add: algebra_simps)
    have dist0: "group_start g' + (2 ^ w' - 1) = group_start g - 1" "1 \<le> group_start g"
      unfolding gg group_start_Suc w'_def [symmetric] by (simp_all add: le_SucI trans_le_add2)
    have gle: "group_start g * 2 ^ pf + nd \<le> max_dist" using go [of g] by simp
    have "(group_start g - 1) * 2 ^ pf \<le> group_start g * 2 ^ pf" by simp
    then have sh: "shl 32 (group_start g - 1) pf = (group_start g - 1) * 2 ^ pf"
      using gle md(2) by (intro shl_exact) linarith
    have "(group_start g - 1) * 2 ^ pf + (2 ^ pf - 1) + nd + 1 = group_start g * 2 ^ pf + nd"
      using dist0(2) by (simp add: diff_mult_distrib)
    then have ld: "shl 32 (group_start g - 1) pf + (2 ^ pf - 1) + nd + 1 = group_start g * 2 ^ pf + nd"
      unfolding sh .
    have "r = \<lparr>limit_alphabet_size = (shl 32 g' pf OR (2 ^ pf - 1)) + nd + 16 + 1,
        limit_distance = shl 32 (group_start g - 1) pf + (2 ^ pf - 1) + nd + 1\<rparr>"
      unfolding r if_not_P [OF False] Let_def g'_def [symmetric] w'(1) start dist0(1) ..
    then have r': "limit_alphabet_size r = 16 + nd + g * 2 ^ pf" "limit_distance r = group_start g * 2 ^ pf + nd"
      unfolding size ld by simp_all
    then show ?thesis using go [of "Suc g"] gle g61
      by (intro exI [of _ g]) (auto simp: code_limit_ok_def not_le)
  qed
qed

section \<open>The parameters of a stream\<close>

definition layout_of :: "bool \<Rightarrow> nat \<Rightarrow> nat \<Rightarrow> distance_layout" where
  "layout_of lw pf nd = \<lparr>postfix = pf, direct = nd, large = lw\<rparr>"

lemma layout_of_simps [simp]:
  "postfix (layout_of lw pf nd) = pf" "direct (layout_of lw pf nd) = nd" "large (layout_of lw pf nd) = lw"
  by (simp_all add: layout_of_def)

lemma layout_bounds:
  assumes "layout_ok pf nd"
  shows "pf \<le> 3" "nd \<le> 120" "(2::nat) ^ pf \<le> 8"
proof -
  have pf: "pf \<le> 3" using assms by (simp add: layout_ok_def)
  then have p8: "(2::nat) ^ pf \<le> 2 ^ 3" by (rule power_increasing) simp
  then show "pf \<le> 3" "(2::nat) ^ pf \<le> 8" using pf by simp_all
  obtain k where "k \<le> 15" "nd = k * 2 ^ pf" using assms by (auto simp: layout_ok_def)
  then show "nd \<le> 120" using mult_le_mono [of k 15 "2 ^ pf" 8] p8 by simp
qed

lemma alphabet_eq:
  assumes "layout_ok pf nd"
  shows "alphabet (layout_of lw pf nd) = 16 + nd + (if lw then 124 else 48) * 2 ^ pf"
proof -
  have "(if lw then 124 else 48) * 2 ^ pf \<le> (124 * 8 :: nat)"
    using layout_bounds(3) [OF assms] by (intro mult_le_mono) auto
  then have "shl 64 (if lw then 124 else 48) pf = (if lw then 124 else 48) * 2 ^ pf"
    by (intro shl_exact) simp
  then show ?thesis by (simp add: alphabet_def SHORT_CODES_def)
qed

lemma params_groups:
  fixes lw :: bool
  assumes ok: "layout_ok pf nd"
  defines "p \<equiv> params_for_window lw pf nd"
  shows "alphabet_size_max p = alphabet (layout_of lw pf nd)"
    and "\<exists>n \<le> if lw then 61 else 48. code_limit_ok pf nd (alphabet_size_limit p) (max_distance p) n \<and> max_distance p \<le> MAX_ALLOWED_DISTANCE \<and>
      (if lw then MAX_ALLOWED_DISTANCE < group_start (Suc n) * 2 ^ pf + nd else n = 48)"
proof -
  note lb = layout_bounds [OF ok]
  have "(2::nat) ^ (pf + 1) \<le> 2 ^ 4" "(2::nat) ^ (26 + pf) \<le> 2 ^ 29" using lb(1) by (intro power_increasing; simp)+
  then have sh: "shl 32 LARGE_MAX_DISTANCE_BITS (pf + 1) = 124 * 2 ^ pf" "shl 32 MAX_DISTANCE_BITS (pf + 1) = 48 * 2 ^ pf"
    "shl 32 1 (MAX_DISTANCE_BITS + pf + 2) = 2 ^ (26 + pf)" "shl 32 1 (pf + 2) = 2 ^ (pf + 2)"
    by (subst shl_exact; simp add: LARGE_MAX_DISTANCE_BITS_def MAX_DISTANCE_BITS_def power_add)+
  show "alphabet_size_max p = alphabet (layout_of lw pf nd)"
    by (simp add: p_def params_for_window_def params_new_def params_new_large_def Let_def alphabet_eq [OF ok]
        NUM_DISTANCE_SHORT_CODES_def sh [simplified])
  show "\<exists>n \<le> if lw then 61 else 48. code_limit_ok pf nd (alphabet_size_limit p) (max_distance p) n \<and> max_distance p \<le> MAX_ALLOWED_DISTANCE \<and>
      (if lw then MAX_ALLOWED_DISTANCE < group_start (Suc n) * 2 ^ pf + nd else n = 48)"
  proof (cases lw)
    case True
    have "\<exists>n. code_limit_ok pf nd (alphabet_size_limit p) (max_distance p) n \<and> n \<le> 61 \<and>
        max_distance p \<le> MAX_ALLOWED_DISTANCE \<and> MAX_ALLOWED_DISTANCE < group_start (Suc n) * 2 ^ pf + nd"
      using distance_code_limit_groups [of nd MAX_ALLOWED_DISTANCE pf] lb True
      by (simp add: p_def params_for_window_def params_new_large_def MAX_ALLOWED_DISTANCE_def Let_def)
    then show ?thesis using True by auto
  next
    case False
    have "(2::nat) ^ (26 + pf) = 2 ^ 26 * 2 ^ pf" "(2::nat) ^ (pf + 2) = 4 * 2 ^ pf" by (simp_all add: power_add)
    then have "nd + 2 ^ (26 + pf) - 2 ^ (pf + 2) = (2 ^ 26 - 4) * 2 ^ pf + nd" by (simp add: diff_mult_distrib)
    moreover have "group_start 48 = 2 ^ 26 - 4" by (simp add: group_start_def)
    ultimately have "code_limit_ok pf nd (alphabet_size_limit p) (max_distance p) 48"
      using False by (simp add: p_def params_for_window_def params_new_def Let_def code_limit_ok_def
          NUM_DISTANCE_SHORT_CODES_def sh [simplified])
    moreover have "max_distance p \<le> MAX_ALLOWED_DISTANCE"
    proof -
      have "(2 ^ 26 - 4) * 2 ^ pf + nd \<le> (2 ^ 26 - 4) * 8 + 120" using lb by (intro add_mono mult_le_mono) simp_all
      then show ?thesis using calculation \<open>group_start 48 = _\<close> by (simp add: code_limit_ok_def MAX_ALLOWED_DISTANCE_def)
    qed
    ultimately show ?thesis using False by (intro exI [of _ 48]) simp
  qed
qed

section \<open>Validation\<close>

lemma long_direct: "16 \<le> s \<Longrightarrow> s < 16 + direct l \<Longrightarrow> long_distance l s x = s - 15 \<and> extra_bits l s = 0"
  by (simp add: long_distance_def extra_bits_def SHORT_CODES_def)

lemma alphabet_width:
  assumes ok: "layout_ok pf nd" and b: "bucket pf w h lo x" and s: "bucket_symbol pf nd w h lo < alphabet (layout_of lw pf nd)"
  shows "w \<le> 62"
proof -
  have "(if lw then 124 else 48) * 2 ^ pf \<le> (124 :: nat) * 2 ^ pf" by (intro mult_le_mono1) simp
  then have "bucket_symbol pf nd w h lo < 16 + nd + 124 * 2 ^ pf" using s unfolding alphabet_eq [OF ok] by linarith
  then have "2 * (w - 1) + h < 124" using group_order(2) [OF b] by blast
  then show ?thesis by linarith
qed

lemma validate_symbol_iff:
  fixes lw :: bool
  assumes ok: "layout_ok pf nd"
  defines "l \<equiv> layout_of lw pf nd"
  shows "validate_symbol l s = Inr () \<longleftrightarrow> s < alphabet l \<and>
    (16 \<le> s \<longrightarrow> (\<forall>x < 2 ^ extra_bits l s. long_distance l s x \<le> MAX_DISTANCE))"
proof (cases "16 + nd \<le> s \<and> s < alphabet l")
  case False
  then show ?thesis
    using layout_bounds(2) [OF ok] long_direct [of s l]
    by (auto simp: validate_symbol_def SHORT_CODES_def l_def MAX_DISTANCE_def not_le)
next
  case True
  obtain w h lo where s: "s = bucket_symbol pf nd w h lo" and b0: "bucket pf w h lo 0"
    using True symbol_bucket [of nd s pf] by blast
  have w: "w \<le> 62" by (rule alphabet_width [OF ok b0, of lw]) (use True in \<open>simp add: s l_def\<close>)
  have eb: "extra_bits l s = w"
    using extra_bits_bucket [of l w h lo 0] b0 by (simp add: s l_def)
  have bx: "bucket pf w h lo x" if "x < 2 ^ w" for x using b0 that by (simp add: bucket_def)
  have ld: "long_distance l s x = bucket_distance pf nd w h lo x" if "x < 2 ^ w" for x
    using long_distance_bucket [of l w h lo x] bx [OF that] w layout_bounds(1) [OF ok] by (simp add: s l_def)
  have one: "shl 64 1 w = 2 ^ w"
    using shl_exact [of 1 w 64] power_strict_increasing [of w 64 "2::nat"] w by simp
  have top: "shl 64 1 (extra_bits l s) - 1 < 2 ^ w" unfolding eb one by simp
  have mono: "bucket_distance pf nd w h lo x \<le> bucket_distance pf nd w h lo (2 ^ w - 1)" if "x < 2 ^ w" for x
    using that by (simp add: bucket_distance_def)
  have "validate_symbol l s = Inr () \<longleftrightarrow> bucket_distance pf nd w h lo (2 ^ w - 1) \<le> MAX_DISTANCE"
    using True ld [OF top] unfolding eb one by (auto simp: validate_symbol_def SHORT_CODES_def eb one [simplified] not_le)
  also have "\<dots> \<longleftrightarrow> (\<forall>x < 2 ^ w. long_distance l s x \<le> MAX_DISTANCE)"
    using ld mono by (auto intro: order_trans)
  finally show ?thesis using True by (simp add: eb)
qed

lemma MAX_DISTANCE_less: "MAX_DISTANCE < 2 ^ 64"
  by (simp add: MAX_DISTANCE_def)

lemma decoder_paths:
  fixes lw :: bool
  assumes ok: "layout_ok pf nd"
  defines "l \<equiv> layout_of lw pf nd"
  assumes v: "validate_symbol l s = Inr ()" and s16: "16 \<le> s" and x: "x < 2 ^ extra_bits l s"
  shows "resolve_distance l s x c = Inr (long_distance l s x)"
    and "pwidth (distance_table l (fill_table l) ! s) = extra_bits l s"
    and "pbase (distance_table l (fill_table l) ! s) + x * 2 ^ postfix l = long_distance l s x"
proof -
  have vv: "s < alphabet l" "long_distance l s x \<le> MAX_DISTANCE"
    using v x s16 validate_symbol_iff [OF ok, of lw s] by (simp_all add: l_def)
  have tbl: "distance_table l (fill_table l) ! s = distance_entry l s"
  proof (cases "is_standard l")
    case True
    then have "l = \<lparr>postfix = 0, direct = 0, large = False\<rparr>" by (simp add: is_standard_def l_def layout_of_def)
    with vv(1) True show ?thesis
      by (simp add: distance_table_def standard_table_def alphabet_def STANDARD_ALPHABET_def shl_def)
  qed (use vv(1) in \<open>simp add: distance_table_def fill_table_def\<close>)
  have "short_window_distance l s x = long_distance l s x \<and> pwidth (distance_entry l s) = extra_bits l s \<and>
      pbase (distance_entry l s) + x * 2 ^ postfix l = long_distance l s x"
  proof (cases "16 + nd \<le> s")
    case False
    then have "s < 16 + direct l" by (simp add: l_def)
    with long_direct [OF s16 this] s16 x show ?thesis
      by (simp add: short_window_distance_def distance_entry_def SHORT_CODES_def)
  next
    case True
    then obtain w h lo where s: "s = bucket_symbol pf nd w h lo" and b0: "bucket pf w h lo 0"
      using symbol_bucket by blast
    have w: "w \<le> 62" by (rule alphabet_width [OF ok b0, of lw]) (use vv(1) in \<open>simp add: s l_def\<close>)
    have eb: "extra_bits l s = w" using extra_bits_bucket [of l w h lo 0] b0 by (simp add: s l_def)
    have b: "bucket pf w h lo x" using b0 x by (simp add: bucket_def eb)
    have ld: "long_distance l s x = bucket_distance pf nd w h lo x"
      using long_distance_bucket [of l w h lo x] b w layout_bounds(1) [OF ok] by (simp add: s l_def)
    have "bucket_distance pf nd w h lo x < 2 ^ 64" using vv(2) MAX_DISTANCE_less ld by linarith
    then show ?thesis using narrow_bucket [of l w h lo x] b w by (simp add: s l_def ld [unfolded s l_def] eb [unfolded s l_def])
  qed
  then show "resolve_distance l s x c = Inr (long_distance l s x)"
    "pwidth (distance_table l (fill_table l) ! s) = extra_bits l s"
    "pbase (distance_table l (fill_table l) ! s) + x * 2 ^ postfix l = long_distance l s x"
    using s16 vv(2) MAX_DISTANCE_less
    by (simp_all add: tbl resolve_distance_def SHORT_CODES_def resolve_large_def Let_def)
qed

section \<open>The cache as a list of recent distances\<close>

definition cache_ok :: "cache \<Rightarrow> bool" where
  "cache_ok c \<longleftrightarrow> length (slots c) = 4 \<and> index c < 2 ^ 64"

definition recents :: "cache \<Rightarrow> nat list" where
  "recents c = map (recent_distance c) [0..<4]"

lemma and_3_nat: "(n :: nat) AND 3 = n mod 4"
  using AND_mask_nat [of n 2] by simp

lemma wrapping_sub_mod4: "b < 2 ^ 64 \<Longrightarrow> wrapping_sub 64 a b mod 4 = (a + (4 - b mod 4)) mod 4"
proof -
  assume b: "b < 2 ^ 64"
  have "wrapping_sub 64 a b mod 4 = (a + (2 ^ 64 - b)) mod 4"
    unfolding wrapping_sub_def using b by (simp add: mod_mod_cancel)
  also have "\<dots> = (a + (4 - b mod 4)) mod 4"
  proof -
    obtain q r where qr: "b = 4 * q + r" "r < 4" "b mod 4 = r" by (metis mult.commute mod_less_divisor mult_div_mod_eq zero_less_numeral)
    obtain m where m: "2 ^ 64 = 4 * q + 4 * m" "1 \<le> m"
    proof
      show "2 ^ 64 = 4 * q + 4 * (2 ^ 62 - q)" "1 \<le> 2 ^ 62 - q" using b qr by simp_all
    qed
    have "a + (2 ^ 64 - b) = a + (4 - r) + 4 * (m - 1)" unfolding m(1) qr(1) using qr(2) m(2) by simp
    then show ?thesis by (simp only: qr(3) mod_mult_self2)
  qed
  finally show ?thesis .
qed

lemma recents_eq:
  assumes "cache_ok c"
  shows "recents c = [slots c ! ((index c + 3) mod 4), slots c ! ((index c + 2) mod 4),
    slots c ! ((index c + 1) mod 4), slots c ! (index c mod 4)]"
  by (simp add: recents_def recent_distance_def and_3_nat wrapping_sub_mod4 upt_rec)

lemma wrapping_add_mod4: "wrapping_add 64 a b mod 4 = (a + b) mod 4"
  by (simp add: wrapping_add_def mod_mod_cancel)

lemma mod4_step: "(a + k) mod 4 = (a mod 4 + k) mod (4 :: nat)"
  by (rule mod_add_left_eq [symmetric])

lemma recents_mod:
  assumes "cache_ok c" "index c mod 4 = i"
  shows "recents c = map (\<lambda>k. slots c ! ((i + k) mod 4)) [3, 2, 1, 0]"
  unfolding recents_eq [OF assms(1)]
  using assms(2) mod4_step [of "index c" 3] mod4_step [of "index c" 2] mod4_step [of "index c" 1]
  by (simp del: One_nat_def)

lemma mod4_cases: "(n :: nat) mod 4 = 0 \<or> n mod 4 = 1 \<or> n mod 4 = 2 \<or> n mod 4 = 3"
  by linarith

lemma cache_push_recents:
  assumes ok: "cache_ok c"
  shows "recents (cache_push d c) = d # take 3 (recents c)" and "cache_ok (cache_push d c)"
proof -
  show ok': "cache_ok (cache_push d c)" using assms by (simp add: cache_ok_def cache_push_def wrapping_add_def)
  define i where "i = index c mod 4"
  have "index (cache_push d c) = wrapping_add 64 (index c) 1" by (simp add: cache_push_def)
  then have i': "index (cache_push d c) mod 4 = (i + 1) mod 4"
    unfolding i_def by (simp only: wrapping_add_mod4 mod4_step [of "index c"])
  have s: "slots (cache_push d c) = (slots c)[i := d]" by (simp add: cache_push_def and_3_nat i_def)
  have l: "length (slots c) = 4" using ok by (simp add: cache_ok_def)
  have i4: "i < 4" by (simp add: i_def)
  then have m: "((i + 1) mod 4 + 3) mod 4 = i" "((i + 1) mod 4 + 2) mod 4 = (i + 3) mod 4"
    "((i + 1) mod 4 + 1) mod 4 = (i + 2) mod 4" "((i + 1) mod 4 + 0) mod 4 = (i + 1) mod 4"
    and ne: "i \<noteq> (i + 3) mod 4" "i \<noteq> (i + 2) mod 4" "i \<noteq> (i + 1) mod 4"
    by presburger+
  have "take 3 [a, b, c, e] = [a, b, c]" for a b c e :: nat by simp
  then show "recents (cache_push d c) = d # take 3 (recents c)"
    unfolding recents_mod [OF ok' i'] recents_mod [OF ok i_def [symmetric]] s list.map m
    using i4 l ne by (simp only: nth_list_update_eq nth_list_update_neq simp_thms)
qed

lemma cache_pop_push:
  assumes ok: "cache_ok c"
  shows "fst (cache_pop c) = hd (recents c)" and "cache_push (fst (cache_pop c)) (snd (cache_pop c)) = c"
    and "cache_ok (snd (cache_pop c))"
proof -
  define i where "i = index c mod 4"
  have l: "length (slots c) = 4" and ix: "index c < 2 ^ 64" using ok by (simp_all add: cache_ok_def)
  have p: "wrapping_sub 64 (index c) 1 mod 4 = (i + 3) mod 4"
    using wrapping_sub_mod4 [of 1 "index c"] mod4_step [of "index c" 3] by (simp add: i_def)
  then show "fst (cache_pop c) = hd (recents c)"
    unfolding recents_mod [OF ok i_def [symmetric]] by (simp add: cache_pop_def Let_def and_3_nat)
  have "wrapping_add 64 (wrapping_sub 64 (index c) 1) 1 = index c"
    using ix by (simp add: wrapping_add_def wrapping_sub_def mod_simps)
  then show "cache_push (fst (cache_pop c)) (snd (cache_pop c)) = c"
    by (simp add: cache_pop_def Let_def cache_push_def)
  show "cache_ok (snd (cache_pop c))"
    using l by (simp add: cache_ok_def cache_pop_def Let_def wrapping_sub_def)
qed

section \<open>Properties\<close>

text \<open>
  C15 (roundtrip). A distance survives the wire. For every window syntax and every legal pair of
  postfix and direct codes, the symbol and extra bits the encoder computes for a distance of its
  alphabet lie inside the alphabet limit the prefix code is built for, pass the decoder's
  validation, carry as many extra bits as the decoder will read, and resolve, with any cache
  contents, to the same distance; the encoder can also recover its own code from them.
\<close>

theorem distance_roundtrip:
  assumes ok: "layout_ok pf nd" and d: "1 \<le> d" "d \<le> max_distance (params_for_window lw pf nd)"
    and enc: "prefix_encode_copy_distance (d + 15) nd pf = (packed, x)" and sm: "s = packed AND 0x3FF"
  shows "s < alphabet_size_limit (params_for_window lw pf nd) \<and> validate_symbol (layout_of lw pf nd) s = Inr () \<and>
    shr packed 10 = extra_bits (layout_of lw pf nd) s \<and> x < 2 ^ extra_bits (layout_of lw pf nd) s \<and>
    resolve_distance (layout_of lw pf nd) s x c = Inr d \<and> restore_distance_code packed x nd pf = d + 15"
proof -
  let ?l = "layout_of lw pf nd" and ?p = "params_for_window lw pf nd"
  note lb = layout_bounds [OF ok]
  obtain n where n: "n \<le> (if lw then 61 else 48)" and lim: "code_limit_ok pf nd (alphabet_size_limit ?p) (max_distance ?p) n"
    and md: "max_distance ?p \<le> MAX_ALLOWED_DISTANCE"
    using params_groups(2) [OF ok] by blast
  have mask: "s = packed mod 1024" unfolding sm using AND_mask_nat [of packed 10] by simp
  have goal: ?thesis if s: "16 \<le> s" "s < alphabet_size_limit ?p" "s < alphabet ?l"
    and w: "shr packed 10 = extra_bits ?l s" "x < 2 ^ extra_bits ?l s"
    and ld: "long_distance ?l s x = d" "\<forall>y < 2 ^ extra_bits ?l s. long_distance ?l s y \<le> MAX_DISTANCE"
    and r: "restore_distance_code packed x nd pf = d + 15"
  proof -
    have v: "validate_symbol ?l s = Inr ()" using validate_symbol_iff [OF ok] s ld by blast
    show ?thesis using decoder_paths(1) [OF ok v s(1) w(2)] v s w r ld by simp
  qed
  have alph: "16 + nd < alphabet ?l" unfolding alphabet_eq [OF ok] by simp
  show ?thesis
  proof (cases "d \<le> nd")
    case True
    then have e: "packed = d + 15" "x = 0"
      using enc lb by (auto simp: prefix_encode_copy_distance_def NUM_DISTANCE_SHORT_CODES_def take_bit_nat_eq_self)
    then have s: "s = d + 15" using True lb mask by simp
    have ld: "long_distance ?l s y = d \<and> extra_bits ?l s = 0" for y
      using long_direct [of s ?l y] s d True by simp
    have "n * 2 ^ pf + (16 + nd) = alphabet_size_limit ?p" using lim by (simp add: code_limit_ok_def)
    then have "s < alphabet_size_limit ?p" using s True by linarith
    moreover have "d \<le> MAX_DISTANCE" using True lb by (simp add: MAX_DISTANCE_def)
    moreover have "restore_distance_code packed x nd pf = d + 15"
      using AND_mask_nat [of "d + 15" 10] True lb
      by (simp add: restore_distance_code_def NUM_DISTANCE_SHORT_CODES_def Let_def e)
    moreover have "shr packed 10 = extra_bits ?l s" using ld True lb by (simp add: e shr_div)
    ultimately show ?thesis using ld alph s d True e by (intro goal) auto
  next
    case False
    then obtain w h lo y where bd: "d = bucket_distance pf nd w h lo y" and b: "bucket pf w h lo y"
      using distance_bucket [of nd d] by (metis not_le)
    let ?s = "bucket_symbol pf nd w h lo"
    have g: "2 * (w - 1) + h < n"
      using group_order(1) [OF b] d(2) lim by (simp add: code_limit_ok_def bd)
    then have lt: "?s < alphabet_size_limit ?p" using group_order(2) [OF b] lim by (simp add: code_limit_ok_def)
    have w31: "w \<le> 31" using g n by (simp split: if_splits)
    have "alphabet_size_limit ?p \<le> 16 + nd + 61 * 8"
      using lim n lb(3) mult_le_mono [of n 61 "2 ^ pf" 8] by (simp add: code_limit_ok_def split: if_splits)
    then have s1024: "?s < 1024" using lt lb by linarith
    have "w \<le> 32" using w31 by simp
    then have e: "packed = w * 1024 + ?s" "x = y"
      using encode_bucket [OF b s1024 _ lb(1)] enc by (simp_all add: bd)
    then have s: "s = ?s" using s1024 mask by simp
    have eb: "extra_bits ?l s = w" using extra_bits_bucket [of ?l w h lo y] b by (simp add: s)
    have b': "bucket pf w h lo z" if "z < 2 ^ w" for z using b that by (simp add: bucket_def)
    have ld: "long_distance ?l s z = bucket_distance pf nd w h lo z" if "z < 2 ^ w" for z
      using long_distance_bucket [of ?l w h lo z] b' [OF that] w31 lb by (simp add: s)
    have "2 * (w - 1) + h < (if lw then 124 else 48)" using g n by (simp split: if_splits)
    then have inside: "?s < alphabet ?l" using group_order(2) [OF b] unfolding alphabet_eq [OF ok] by blast
    have y: "y < 2 ^ w" using b by (simp add: bucket_def)
    have "bucket_distance pf nd w h lo z \<le> MAX_DISTANCE" if "z < 2 ^ w" for z
    proof -
      have "bucket_distance pf nd w h lo z \<le> max_distance ?p"
        using group_order(1) [OF b' [OF that]] g lim by (simp add: code_limit_ok_def)
      then show ?thesis using md by (simp add: MAX_DISTANCE_def MAX_ALLOWED_DISTANCE_def)
    qed
    moreover have "restore_distance_code packed x nd pf = d + 15"
    proof -
      have "bucket_distance pf nd w h lo y + 15 < 2 ^ 32"
        using d(2) md bd by (simp add: MAX_ALLOWED_DISTANCE_def)
      then show ?thesis using restore_bucket [OF b s1024 \<open>w \<le> 32\<close>] e bd by simp
    qed
    moreover have "16 \<le> s" using symbol_code(2) [of nd pf w h lo] s by linarith
    moreover have "shr packed 10 = w" using s1024 by (simp add: e shr_div)
    ultimately show ?thesis using lt inside y ld e s bd by (intro goal) (auto simp: eb [unfolded s])
  qed
qed

lemma distance_roundtrip_witness:
  "validate_symbol (layout_of False 1 2) (fst (prefix_encode_copy_distance 1015 2 1) AND 0x3FF) = Inr () \<and>
   resolve_distance (layout_of False 1 2) (fst (prefix_encode_copy_distance 1015 2 1) AND 0x3FF)
     (snd (prefix_encode_copy_distance 1015 2 1)) cache_default = Inr 1000"
proof -
  have "layout_ok 1 2" unfolding layout_ok_def by (intro conjI exI [of _ 1]) simp_all
  moreover have "1000 \<le> max_distance (params_for_window False 1 2)"
    by (simp add: params_for_window_def params_new_def Let_def MAX_DISTANCE_BITS_def shl_exact)
  ultimately show ?thesis
    using distance_roundtrip [of 1 2 1000 False _ _ _ cache_default] by (cases "prefix_encode_copy_distance 1015 2 1") auto
qed

text \<open>
  C20 (equivalence). The decoder's three ways to resolve a symbol agree. For every legal layout
  and every symbol it validates, the general \<open>u128\<close> arithmetic, the wrapping \<open>u64\<close> arithmetic of
  standard windows (or the checked conversion of large ones) and the table entry read before the
  extra field all give the same distance, and validation accepts a symbol exactly when every
  value of its extra field stays within the maximum distance.
\<close>

theorem resolution_paths_agree:
  assumes ok: "layout_ok pf nd"
  shows "(validate_symbol (layout_of lw pf nd) s = Inr () \<longleftrightarrow> s < alphabet (layout_of lw pf nd) \<and>
      (16 \<le> s \<longrightarrow> (\<forall>x < 2 ^ extra_bits (layout_of lw pf nd) s. long_distance (layout_of lw pf nd) s x \<le> MAX_DISTANCE))) \<and>
    (validate_symbol (layout_of lw pf nd) s = Inr () \<and> 16 \<le> s \<and> x < 2 ^ extra_bits (layout_of lw pf nd) s \<longrightarrow>
      (let e = distance_table (layout_of lw pf nd) (fill_table (layout_of lw pf nd)) ! s in
        pwidth e = extra_bits (layout_of lw pf nd) s \<and>
        resolve_distance (layout_of lw pf nd) s x c = Inr (pbase e + x * 2 ^ pf) \<and>
        pbase e + x * 2 ^ pf = long_distance (layout_of lw pf nd) s x))"
  unfolding Let_def using decoder_paths(1) [OF ok, of lw s x c] decoder_paths(2,3) [OF ok, of lw s x]
  by (intro conjI impI validate_symbol_iff [OF ok]) simp_all

lemma resolution_paths_agree_witness:
  "resolve_distance (layout_of False 0 0) 20 1 cache_default = Inr (long_distance (layout_of False 0 0) 20 1) \<and>
   long_distance (layout_of False 0 0) 20 1 = 14"
proof -
  have ok: "layout_ok 0 0" by (simp add: layout_ok_def)
  have "validate_symbol (layout_of False 0 0) 20 = Inr ()"
    using resolution_paths_agree [OF ok, of False 20 0 cache_default]
    by (simp add: alphabet_eq [OF ok] extra_bits_def SHORT_CODES_def shr_div long_distance_def Let_def
        shl_exact MAX_DISTANCE_def and_1_nat [simplified])
  with resolution_paths_agree [OF ok, of False 20 1 cache_default] show ?thesis
    by (simp add: extra_bits_def SHORT_CODES_def shr_div long_distance_def Let_def shl_exact)
qed

text \<open>The decoder's view of a symbol of the buckets.\<close>

lemma symbol_distance:
  fixes lw :: bool
  assumes ok: "layout_ok pf nd" and b: "bucket pf w h lo x" and w: "bucket_symbol pf nd w h lo < alphabet (layout_of lw pf nd)"
  shows "extra_bits (layout_of lw pf nd) (bucket_symbol pf nd w h lo) = w" "x < 2 ^ w"
    "long_distance (layout_of lw pf nd) (bucket_symbol pf nd w h lo) x = bucket_distance pf nd w h lo x"
  using extra_bits_bucket [of "layout_of lw pf nd" w h lo x] long_distance_bucket [of "layout_of lw pf nd" w h lo x] b
    alphabet_width [OF ok b w] layout_bounds(1) [OF ok] by (simp_all add: bucket_def)

lemma group_start_1: "1 \<le> n \<Longrightarrow> 2 \<le> group_start n"
  using group_start_mono [of 1 n] by (simp add: group_start_def)

lemma limit_group:
  fixes lw :: bool
  assumes ok: "layout_ok pf nd"
  obtains n where "1 \<le> n" "n \<le> (if lw then 61 else 48)"
    "code_limit_ok pf nd (alphabet_size_limit (params_for_window lw pf nd)) (max_distance (params_for_window lw pf nd)) n"
    "max_distance (params_for_window lw pf nd) \<le> MAX_ALLOWED_DISTANCE"
    "if lw then MAX_ALLOWED_DISTANCE < group_start (Suc n) * 2 ^ pf + nd else n = 48"
proof -
  obtain n where n: "n \<le> (if lw then 61 else 48)"
    "code_limit_ok pf nd (alphabet_size_limit (params_for_window lw pf nd)) (max_distance (params_for_window lw pf nd)) n"
    "max_distance (params_for_window lw pf nd) \<le> MAX_ALLOWED_DISTANCE"
    "if lw then MAX_ALLOWED_DISTANCE < group_start (Suc n) * 2 ^ pf + nd else n = 48"
    using params_groups(2) [OF ok] by blast
  have "n \<noteq> 0"
  proof
    assume "n = 0"
    with n(4) have "MAX_ALLOWED_DISTANCE < 2 * 2 ^ pf + nd" by (simp add: group_start_def split: if_splits)
    then show False using layout_bounds(2,3) [OF ok] by (simp add: MAX_ALLOWED_DISTANCE_def)
  qed
  then show thesis using that [of n] n by simp
qed

lemma end_of_group:
  assumes "1 \<le> n"
  obtains w h lo x where "group_start n * 2 ^ pf + nd = bucket_distance pf nd w h lo x" "bucket pf w h lo x" "2 * (w - 1) + h < n"
proof -
  have "1 \<le> group_start n * 2 ^ pf" using group_start_1 [OF assms] by simp
  then have "nd < group_start n * 2 ^ pf + nd" by linarith
  from distance_bucket [OF this] obtain w h lo x where b: "group_start n * 2 ^ pf + nd = bucket_distance pf nd w h lo x" "bucket pf w h lo x"
    by blast
  then show thesis using that group_order(1) [OF b(2), of nd n] by simp
qed

text \<open>
  C21 (bounds). The encoder's alphabet for a window. Its written size is the decoder's alphabet, and
  its limit is a group boundary below which the decoder's distances are exactly those up to
  \<open>max_distance\<close>, at most the \<open>2 ^ 31 - 4\<close> the reference allows. Both are the largest possible:
  some symbol below the limit has the distance \<open>max_distance\<close>, and in a large window the next group
  of symbols already has a distance over the allowed one, while otherwise the limit is the whole alphabet.
\<close>

theorem alphabet_limit_exact:
  fixes lw :: bool
  assumes ok: "layout_ok pf nd"
  defines "p \<equiv> params_for_window lw pf nd" and "l \<equiv> layout_of lw pf nd"
  shows "alphabet_size_max p = alphabet l \<and> alphabet_size_limit p \<le> alphabet_size_max p \<and> max_distance p \<le> MAX_ALLOWED_DISTANCE \<and>
    16 + nd \<le> alphabet_size_limit p \<and> 2 ^ pf dvd alphabet_size_limit p - (16 + nd) \<and>
    (\<forall>s x. 16 \<le> s \<and> s < alphabet l \<and> x < 2 ^ extra_bits l s \<longrightarrow>
       (s < alphabet_size_limit p \<longleftrightarrow> long_distance l s x \<le> max_distance p)) \<and>
    (\<exists>s x. 16 \<le> s \<and> s < alphabet_size_limit p \<and> x < 2 ^ extra_bits l s \<and> long_distance l s x = max_distance p) \<and>
    (if lw then \<exists>s x. alphabet_size_limit p \<le> s \<and> s < alphabet_size_limit p + 2 ^ pf \<and> s < alphabet l \<and> x < 2 ^ extra_bits l s \<and>
         MAX_ALLOWED_DISTANCE < long_distance l s x
     else alphabet_size_limit p = alphabet_size_max p)"
proof -
  obtain n where n: "1 \<le> n" "n \<le> (if lw then 61 else 48)" "code_limit_ok pf nd (alphabet_size_limit p) (max_distance p) n"
    "max_distance p \<le> MAX_ALLOWED_DISTANCE" "if lw then MAX_ALLOWED_DISTANCE < group_start (Suc n) * 2 ^ pf + nd else n = 48"
    using limit_group [OF ok, of lw] unfolding p_def by blast
  have S: "alphabet_size_limit p = 16 + nd + n * 2 ^ pf" "max_distance p = group_start n * 2 ^ pf + nd" using n(3) by (simp_all add: code_limit_ok_def)
  have al: "alphabet l = 16 + nd + (if lw then 124 else 48) * 2 ^ pf" unfolding l_def by (rule alphabet_eq [OF ok])
  have mx: "alphabet_size_max p = alphabet l" unfolding p_def l_def by (rule params_groups(1) [OF ok])
  have in_alphabet: "16 + nd + k * 2 ^ pf \<le> alphabet l" if "k \<le> (if lw then 124 else 48)" for k
    unfolding al using mult_le_mono1 [OF that, of "2 ^ pf"] by linarith
  have limit: "alphabet_size_limit p \<le> alphabet l" unfolding S(1) by (rule in_alphabet) (use n(2) in \<open>auto split: if_splits\<close>)
  have below: "s < alphabet_size_limit p \<longleftrightarrow> long_distance l s x \<le> max_distance p"
    if s: "16 \<le> s" "s < alphabet l" "x < 2 ^ extra_bits l s" for s x
  proof (cases "s < 16 + nd")
    case True
    then show ?thesis using long_direct [of s l x] s(1) by (simp add: S l_def)
  next
    case False
    then obtain w h lo where b0: "s = bucket_symbol pf nd w h lo" "bucket pf w h lo 0" using symbol_bucket [of nd s pf] by (metis not_le)
    have "extra_bits l s = w" using symbol_distance(1) [OF ok b0(2), of lw] s(2) by (simp add: b0(1) l_def)
    then have b: "bucket pf w h lo x" using b0(2) s(3) by (simp add: bucket_def)
    have "long_distance l s x = bucket_distance pf nd w h lo x" using symbol_distance(3) [OF ok b] s(2) by (simp add: b0(1) l_def)
    then show ?thesis using group_order [OF b, of nd n] by (simp add: b0(1) S)
  qed
  have reached: "\<exists>s x. 16 \<le> s \<and> s < 16 + nd + k * 2 ^ pf \<and> x < 2 ^ extra_bits l s \<and> long_distance l s x = group_start k * 2 ^ pf + nd"
    if k: "1 \<le> k" "k \<le> (if lw then 124 else 48)" for k
  proof -
    obtain w h lo x where b: "group_start k * 2 ^ pf + nd = bucket_distance pf nd w h lo x" "bucket pf w h lo x" "2 * (w - 1) + h < k"
      by (rule end_of_group [OF k(1)])
    have s: "bucket_symbol pf nd w h lo < 16 + nd + k * 2 ^ pf" using group_order(2) [OF b(2)] b(3) by blast
    then have "bucket_symbol pf nd w h lo < alphabet l" using in_alphabet [OF k(2)] by linarith
    from symbol_distance [OF ok b(2) this [unfolded l_def]] s show ?thesis
      by (intro exI [of _ "bucket_symbol pf nd w h lo"] exI [of _ x]) (simp add: l_def b(1) bucket_symbol_def)
  qed
  have top: "\<exists>s x. 16 \<le> s \<and> s < alphabet_size_limit p \<and> x < 2 ^ extra_bits l s \<and> long_distance l s x = max_distance p"
    unfolding S by (rule reached) (use n in \<open>auto split: if_splits\<close>)
  have over: "\<exists>s x. alphabet_size_limit p \<le> s \<and> s < alphabet_size_limit p + 2 ^ pf \<and> s < alphabet l \<and> x < 2 ^ extra_bits l s \<and>
      MAX_ALLOWED_DISTANCE < long_distance l s x" if lw
  proof -
    have k: "Suc n \<le> (if lw then 124 else 48)" using n(2) that by simp
    from reached [OF _ k] obtain s x where s: "16 \<le> s" "s < 16 + nd + Suc n * 2 ^ pf" "x < 2 ^ extra_bits l s"
      "long_distance l s x = group_start (Suc n) * 2 ^ pf + nd" by auto
    have big: "MAX_ALLOWED_DISTANCE < long_distance l s x" using n(5) that s(4) by simp
    have "s < alphabet l" using s(2) in_alphabet [OF k] by linarith
    moreover from below [OF s(1) this s(3)] have "alphabet_size_limit p \<le> s" using big n(4) by linarith
    ultimately show ?thesis using s(2,3) big by (intro exI [of _ s] exI [of _ x]) (simp add: S(1))
  qed
  have whole: "alphabet_size_limit p = alphabet_size_max p" if "\<not> lw" using n(5) that by (simp add: S(1) mx al)
  have boundary: "16 + nd \<le> alphabet_size_limit p" "2 ^ pf dvd alphabet_size_limit p - (16 + nd)" by (simp_all add: S(1))
  show ?thesis using mx limit n(4) boundary below top over whole by (cases lw) simp_all
qed

lemma alphabet_limit_exact_witness:
  "\<exists>s x. alphabet_size_limit (params_for_window True 0 0) \<le> s \<and> s < alphabet_size_limit (params_for_window True 0 0) + 2 ^ 0 \<and>
     s < alphabet (layout_of True 0 0) \<and> x < 2 ^ extra_bits (layout_of True 0 0) s \<and>
     MAX_ALLOWED_DISTANCE < long_distance (layout_of True 0 0) s x"
proof -
  have "layout_ok 0 0" by (simp add: layout_ok_def)
  from alphabet_limit_exact [OF this, of True] show ?thesis by simp
qed

text \<open>
  C22 (refinement). The ring of recent distances is a list of the four most recent ones: pushing a
  distance puts it in front and drops the oldest, and popping the most recent one and pushing it
  back, which the decoder does for an implicit distance, restores the cache exactly.
\<close>

theorem cache_refines_list:
  assumes ok: "cache_ok c"
  shows "recents (cache_push d c) = d # take 3 (recents c) \<and> cache_ok (cache_push d c) \<and>
    fst (cache_pop c) = hd (recents c) \<and> cache_push (fst (cache_pop c)) (snd (cache_pop c)) = c"
  using cache_push_recents [OF ok] cache_pop_push [OF ok] by blast

lemma cache_refines_list_witness: "recents (cache_push 7 cache_default) = [7, 4, 11, 15]"
proof -
  have ok: "cache_ok cache_default" by (simp add: cache_ok_def cache_default_def)
  have "recents cache_default = [4, 11, 15, 16]"
    unfolding recents_eq [OF ok] by (simp add: cache_default_def)
  with cache_refines_list [OF ok, of 7] show ?thesis by simp
qed

end
