(* ===== verification/Format.thy ===== *)
theory Format
  imports Prelude
begin

unbundle bit_operations_syntax

text \<open>
  The constant tables both codecs share (\<open>shared/format.rs\<close>): the literal context lookup
  tables, the insert and copy length codes, the block length code ranges and the static context
  maps; with the decoder's two computed lookup tables and its choice by context mode
  (\<open>decompressor/core/stream.rs\<close>). Table entries are natural numbers, as the code widens
  them before use.
\<close>

section \<open>Literal contexts\<close>

definition CONTEXT_LUT_UTF8 :: "nat list" where
  "CONTEXT_LUT_UTF8 = [
   0, 0, 0, 0, 0, 0, 0, 0, 0, 4, 4, 0, 0, 4, 0, 0, 0, 0, 0, 0, 0, 0, 0, 0, 0, 0, 0, 0, 0, 0, 0, 0,
   8, 12, 16, 12, 12, 20, 12, 16, 24, 28, 12, 12, 32, 12, 36, 12, 44, 44, 44, 44, 44, 44, 44, 44,
   44, 44, 32, 32, 24, 40, 28, 12, 12, 48, 52, 52, 52, 48, 52, 52, 52, 48, 52, 52, 52, 52, 52, 48,
   52, 52, 52, 52, 52, 48, 52, 52, 52, 52, 52, 24, 12, 28, 12, 12, 12, 56, 60, 60, 60, 56, 60, 60,
   60, 56, 60, 60, 60, 60, 60, 56, 60, 60, 60, 60, 60, 56, 60, 60, 60, 60, 60, 24, 12, 28, 12, 0,
   0, 1, 0, 1, 0, 1, 0, 1, 0, 1, 0, 1, 0, 1, 0, 1, 0, 1, 0, 1, 0, 1, 0, 1, 0, 1, 0, 1, 0, 1, 0, 1,
   0, 1, 0, 1, 0, 1, 0, 1, 0, 1, 0, 1, 0, 1, 0, 1, 0, 1, 0, 1, 0, 1, 0, 1, 0, 1, 0, 1, 0, 1, 0, 1,
   2, 3, 2, 3, 2, 3, 2, 3, 2, 3, 2, 3, 2, 3, 2, 3, 2, 3, 2, 3, 2, 3, 2, 3, 2, 3, 2, 3, 2, 3, 2, 3,
   2, 3, 2, 3, 2, 3, 2, 3, 2, 3, 2, 3, 2, 3, 2, 3, 2, 3, 2, 3, 2, 3, 2, 3, 2, 3, 2, 3, 2, 3, 2, 3,
   0, 0, 0, 0, 0, 0, 0, 0, 0, 0, 0, 0, 0, 0, 0, 0, 0, 0, 0, 0, 0, 0, 0, 0, 0, 0, 0, 0, 0, 0, 0, 0,
   0, 1, 1, 1, 1, 1, 1, 1, 1, 1, 1, 1, 1, 1, 1, 1, 2, 2, 2, 2, 2, 2, 2, 2, 2, 2, 1, 1, 1, 1, 1, 1,
   1, 2, 2, 2, 2, 2, 2, 2, 2, 2, 2, 2, 2, 2, 2, 2, 2, 2, 2, 2, 2, 2, 2, 2, 2, 2, 2, 1, 1, 1, 1, 1,
   1, 3, 3, 3, 3, 3, 3, 3, 3, 3, 3, 3, 3, 3, 3, 3, 3, 3, 3, 3, 3, 3, 3, 3, 3, 3, 3, 1, 1, 1, 1, 0,
   0, 0, 0, 0, 0, 0, 0, 0, 0, 0, 0, 0, 0, 0, 0, 0, 0, 0, 0, 0, 0, 0, 0, 0, 0, 0, 0, 0, 0, 0, 0, 0,
   0, 0, 0, 0, 0, 0, 0, 0, 0, 0, 0, 0, 0, 0, 0, 0, 0, 0, 0, 0, 0, 0, 0, 0, 0, 0, 0, 0, 0, 0, 0, 0,
   0, 0, 0, 0, 0, 0, 0, 0, 0, 0, 0, 0, 0, 0, 0, 0, 0, 0, 0, 0, 0, 0, 0, 0, 0, 0, 0, 0, 0, 0, 0, 0,
   2, 2, 2, 2, 2, 2, 2, 2, 2, 2, 2, 2, 2, 2, 2, 2, 2, 2, 2, 2, 2, 2, 2, 2, 2, 2, 2, 2, 2, 2, 2, 2]"

definition CONTEXT_LUT_SIGNED :: "nat list" where
  "CONTEXT_LUT_SIGNED = [
   0, 8, 8, 8, 8, 8, 8, 8, 8, 8, 8, 8, 8, 8, 8, 8, 16, 16, 16, 16, 16, 16, 16, 16, 16, 16, 16, 16,
   16, 16, 16, 16, 16, 16, 16, 16, 16, 16, 16, 16, 16, 16, 16, 16, 16, 16, 16, 16, 16, 16, 16, 16,
   16, 16, 16, 16, 16, 16, 16, 16, 16, 16, 16, 16, 24, 24, 24, 24, 24, 24, 24, 24, 24, 24, 24, 24,
   24, 24, 24, 24, 24, 24, 24, 24, 24, 24, 24, 24, 24, 24, 24, 24, 24, 24, 24, 24, 24, 24, 24, 24,
   24, 24, 24, 24, 24, 24, 24, 24, 24, 24, 24, 24, 24, 24, 24, 24, 24, 24, 24, 24, 24, 24, 24, 24,
   24, 24, 24, 24, 32, 32, 32, 32, 32, 32, 32, 32, 32, 32, 32, 32, 32, 32, 32, 32, 32, 32, 32, 32,
   32, 32, 32, 32, 32, 32, 32, 32, 32, 32, 32, 32, 32, 32, 32, 32, 32, 32, 32, 32, 32, 32, 32, 32,
   32, 32, 32, 32, 32, 32, 32, 32, 32, 32, 32, 32, 32, 32, 32, 32, 32, 32, 32, 32, 40, 40, 40, 40,
   40, 40, 40, 40, 40, 40, 40, 40, 40, 40, 40, 40, 40, 40, 40, 40, 40, 40, 40, 40, 40, 40, 40, 40,
   40, 40, 40, 40, 40, 40, 40, 40, 40, 40, 40, 40, 40, 40, 40, 40, 40, 40, 40, 40, 48, 48, 48, 48,
   48, 48, 48, 48, 48, 48, 48, 48, 48, 48, 48, 56, 0, 1, 1, 1, 1, 1, 1, 1, 1, 1, 1, 1, 1, 1, 1, 1,
   2, 2, 2, 2, 2, 2, 2, 2, 2, 2, 2, 2, 2, 2, 2, 2, 2, 2, 2, 2, 2, 2, 2, 2, 2, 2, 2, 2, 2, 2, 2, 2,
   2, 2, 2, 2, 2, 2, 2, 2, 2, 2, 2, 2, 2, 2, 2, 2, 3, 3, 3, 3, 3, 3, 3, 3, 3, 3, 3, 3, 3, 3, 3, 3,
   3, 3, 3, 3, 3, 3, 3, 3, 3, 3, 3, 3, 3, 3, 3, 3, 3, 3, 3, 3, 3, 3, 3, 3, 3, 3, 3, 3, 3, 3, 3, 3,
   3, 3, 3, 3, 3, 3, 3, 3, 3, 3, 3, 3, 3, 3, 3, 3, 4, 4, 4, 4, 4, 4, 4, 4, 4, 4, 4, 4, 4, 4, 4, 4,
   4, 4, 4, 4, 4, 4, 4, 4, 4, 4, 4, 4, 4, 4, 4, 4, 4, 4, 4, 4, 4, 4, 4, 4, 4, 4, 4, 4, 4, 4, 4, 4,
   4, 4, 4, 4, 4, 4, 4, 4, 4, 4, 4, 4, 4, 4, 4, 4, 5, 5, 5, 5, 5, 5, 5, 5, 5, 5, 5, 5, 5, 5, 5, 5,
   5, 5, 5, 5, 5, 5, 5, 5, 5, 5, 5, 5, 5, 5, 5, 5, 5, 5, 5, 5, 5, 5, 5, 5, 5, 5, 5, 5, 5, 5, 5, 5,
   6, 6, 6, 6, 6, 6, 6, 6, 6, 6, 6, 6, 6, 6, 6, 7]"

datatype context_mode = Utf8 | Signed

fun mode_lut :: "context_mode \<Rightarrow> nat list" where
  "mode_lut Utf8 = CONTEXT_LUT_UTF8"
| "mode_lut Signed = CONTEXT_LUT_SIGNED"

fun mode_code :: "context_mode \<Rightarrow> nat" where
  "mode_code Utf8 = 2"
| "mode_code Signed = 3"

definition mode_context :: "context_mode \<Rightarrow> u8 \<Rightarrow> u8 \<Rightarrow> nat" where
  "mode_context m prev1 prev2 = mode_lut m ! unat prev1 OR mode_lut m ! (256 + unat prev2)"

definition CONTEXT_LUT_LSB6 :: "nat list" where
  "CONTEXT_LUT_LSB6 = map (\<lambda>i. if i < 256 then i AND 63 else 0) [0..<512]"

definition CONTEXT_LUT_MSB6 :: "nat list" where
  "CONTEXT_LUT_MSB6 = map (\<lambda>i. if i < 256 then shr i 2 else 0) [0..<512]"

definition context_lut :: "nat \<Rightarrow> nat list" where
  "context_lut mode = (if mode = 0 then CONTEXT_LUT_LSB6 else if mode = 1 then CONTEXT_LUT_MSB6
     else if mode = 2 then CONTEXT_LUT_UTF8 else CONTEXT_LUT_SIGNED)"

text \<open>The decoder's context of a literal: \<open>lut[p1] | lut[256 + p2]\<close>.\<close>

definition literal_context :: "nat \<Rightarrow> u8 \<Rightarrow> u8 \<Rightarrow> nat" where
  "literal_context mode p1 p2 = context_lut mode ! unat p1 OR context_lut mode ! (256 + unat p2)"

section \<open>Length codes\<close>

definition NUM_INS_COPY_CODES :: nat where "NUM_INS_COPY_CODES = 24"
definition NUM_BLOCK_LEN_SYMBOLS :: nat where "NUM_BLOCK_LEN_SYMBOLS = 26"

definition INS_BASE :: "nat list" where
  "INS_BASE = [
   0, 1, 2, 3, 4, 5, 6, 8, 10, 14, 18, 26, 34, 50, 66, 98, 130, 194, 322, 578, 1090, 2114, 6210,
   22594]"

definition INS_EXTRA :: "nat list" where
  "INS_EXTRA = [
   0, 0, 0, 0, 0, 0, 1, 1, 2, 2, 3, 3, 4, 4, 5, 5, 6, 7, 8, 9, 10, 12, 14, 24]"

definition COPY_BASE :: "nat list" where
  "COPY_BASE = [
   2, 3, 4, 5, 6, 7, 8, 9, 10, 12, 14, 18, 22, 30, 38, 54, 70, 102, 134, 198, 326, 582, 1094, 2118]"

definition COPY_EXTRA :: "nat list" where
  "COPY_EXTRA = [
   0, 0, 0, 0, 0, 0, 0, 0, 1, 1, 2, 2, 3, 3, 4, 4, 5, 5, 6, 7, 8, 9, 10, 24]"

definition PREFIX_CODE_RANGES :: "(nat \<times> nat) list" where
  "PREFIX_CODE_RANGES = [
   (1, 2), (5, 2), (9, 2), (13, 2), (17, 3), (25, 3), (33, 3), (41, 3), (49, 4), (65, 4), (81, 4),
   (97, 4), (113, 5), (145, 5), (177, 5), (209, 5), (241, 6), (305, 6), (369, 7), (497, 8),
   (753, 9), (1265, 10), (2289, 11), (4337, 12), (8433, 13), (16625, 24)]"

section \<open>Static context maps\<close>

definition STATIC_CONTEXT_MAP_SIMPLE_UTF8 :: "nat list" where
  "STATIC_CONTEXT_MAP_SIMPLE_UTF8 = [
   0, 0, 1, 1, 0, 0, 0, 0, 0, 0, 0, 0, 0, 0, 0, 0, 0, 0, 0, 0, 0, 0, 0, 0, 0, 0, 0, 0, 0, 0, 0, 0,
   0, 0, 0, 0, 0, 0, 0, 0, 0, 0, 0, 0, 0, 0, 0, 0, 0, 0, 0, 0, 0, 0, 0, 0, 0, 0, 0, 0, 0, 0, 0, 0]"

definition STATIC_CONTEXT_MAP_CONTINUATION :: "nat list" where
  "STATIC_CONTEXT_MAP_CONTINUATION = [
   1, 1, 2, 2, 0, 0, 0, 0, 0, 0, 0, 0, 0, 0, 0, 0, 0, 0, 0, 0, 0, 0, 0, 0, 0, 0, 0, 0, 0, 0, 0, 0,
   0, 0, 0, 0, 0, 0, 0, 0, 0, 0, 0, 0, 0, 0, 0, 0, 0, 0, 0, 0, 0, 0, 0, 0, 0, 0, 0, 0, 0, 0, 0, 0]"

definition STATIC_CONTEXT_MAP_COMPLEX_UTF8 :: "nat list" where
  "STATIC_CONTEXT_MAP_COMPLEX_UTF8 = [
   11, 11, 12, 12, 0, 0, 0, 0, 1, 1, 9, 9, 2, 2, 2, 2, 1, 1, 1, 1, 8, 3, 3, 3, 1, 1, 1, 1, 2, 2, 2,
   2, 8, 4, 4, 4, 8, 7, 4, 4, 8, 0, 0, 0, 3, 3, 3, 3, 5, 5, 10, 5, 5, 5, 10, 5, 6, 6, 6, 6, 6, 6,
   6, 6]"

definition MAX_STATIC_CONTEXTS :: nat where "MAX_STATIC_CONTEXTS = 13"

section \<open>The tables' shape\<close>

lemma lut_lengths [simp]:
  "length CONTEXT_LUT_UTF8 = 512" "length CONTEXT_LUT_SIGNED = 512"
  "length CONTEXT_LUT_LSB6 = 512" "length CONTEXT_LUT_MSB6 = 512"
  by (simp_all add: CONTEXT_LUT_UTF8_def CONTEXT_LUT_SIGNED_def CONTEXT_LUT_LSB6_def CONTEXT_LUT_MSB6_def)

lemma lut_bounds:
  "list_all (\<lambda>v. v < 64) CONTEXT_LUT_UTF8" "list_all (\<lambda>v. v < 64) CONTEXT_LUT_SIGNED"
  by (simp_all add: CONTEXT_LUT_UTF8_def CONTEXT_LUT_SIGNED_def)

lemma context_lut_less: "i < 512 \<Longrightarrow> context_lut mode ! i < 64"
proof -
  assume i: "i < 512"
  have "CONTEXT_LUT_LSB6 ! i < 64" using i AND_mask_nat [of i 6] by (simp add: CONTEXT_LUT_LSB6_def)
  moreover have "CONTEXT_LUT_MSB6 ! i < 64" using i by (simp add: CONTEXT_LUT_MSB6_def shr_div less_mult_imp_div_less)
  ultimately show ?thesis
    using i lut_bounds by (auto simp: context_lut_def list_all_length)
qed

lemma or_less_64: "(a :: nat) < 64 \<Longrightarrow> b < 64 \<Longrightarrow> a OR b < 64"
proof -
  assume a: "a < 64" and b: "b < 64"
  have "a OR b < 2 ^ 6"
    by (rule nat_less_of_bits)
      (use not_bit_nat_of_less [of a 6] not_bit_nat_of_less [of b 6] a b in \<open>auto simp: bit_or_iff\<close>)
  then show ?thesis by simp
qed

definition signed_bucket :: "nat \<Rightarrow> nat" where
  "signed_bucket v = (if v = 0 then 0 else if v < 16 then 1 else if v < 64 then 2 else if v < 128 then 3
     else if v < 192 then 4 else if v < 240 then 5 else if v < 255 then 6 else 7)"

lemma map_run:
  assumes "a \<le> b" "b \<le> c" "\<And>i. a \<le> i \<Longrightarrow> i < b \<Longrightarrow> f i = v"
  shows "map f [a..<c] = replicate (b - a) v @ map f [b..<c]"
proof -
  have "[a..<c] = [a..<b] @ [b..<c]" using assms(1,2) by (metis le_add_diff_inverse upt_add_eq_append)
  moreover have "map f [a..<b] = replicate (b - a) v" using assms(3) by (intro nth_equalityI) auto
  ultimately show ?thesis by simp
qed

lemma signed_bucket_runs: "map signed_bucket [0..<256] = replicate 1 0 @ replicate 15 1 @ replicate 48 2 @
    replicate 64 3 @ replicate 64 4 @ replicate 48 5 @ replicate 15 6 @ replicate 1 7"
proof -
  note runs = map_run [of 0 1 256 signed_bucket 0] map_run [of 1 16 256 signed_bucket 1]
    map_run [of 16 64 256 signed_bucket 2] map_run [of 64 128 256 signed_bucket 3]
    map_run [of 128 192 256 signed_bucket 4] map_run [of 192 240 256 signed_bucket 5]
    map_run [of 240 255 256 signed_bucket 6] map_run [of 255 256 256 signed_bucket 7]
  then show ?thesis by (simp add: signed_bucket_def)
qed

lemma replicate_numeral_Cons: "replicate (numeral k) x = x # replicate (pred_numeral k) x"
  by (simp add: numeral_eq_Suc)

lemma lut_signed_map: "CONTEXT_LUT_SIGNED = map (\<lambda>v. 8 * v) (map signed_bucket [0..<256]) @ map signed_bucket [0..<256]"
  unfolding signed_bucket_runs by (simp add: CONTEXT_LUT_SIGNED_def replicate_numeral_Cons)

lemma lut_signed:
  "i < 256 \<Longrightarrow> CONTEXT_LUT_SIGNED ! i = 8 * signed_bucket i"
  "i < 256 \<Longrightarrow> CONTEXT_LUT_SIGNED ! (256 + i) = signed_bucket i"
  by (simp_all add: lut_signed_map nth_append)

lemma length_code_tables [simp]:
  "length INS_BASE = 24" "length INS_EXTRA = 24" "length COPY_BASE = 24" "length COPY_EXTRA = 24"
  "length PREFIX_CODE_RANGES = 26"
  by (simp_all add: INS_BASE_def INS_EXTRA_def COPY_BASE_def COPY_EXTRA_def PREFIX_CODE_RANGES_def)

text \<open>Each code covers the values up to the next base.\<close>

lemma contiguous:
  assumes "tl bases = map2 (\<lambda>b e. b + 2 ^ e) (butlast bases) (butlast extras)" "length extras = length bases"
    "Suc c < length bases"
  shows "bases ! Suc c = bases ! c + 2 ^ (extras ! c)"
proof -
  have "tl bases ! c = bases ! Suc c" using assms(3) by (simp add: nth_tl)
  moreover have "map2 (\<lambda>b e. b + 2 ^ e) (butlast bases) (butlast extras) ! c = bases ! c + 2 ^ (extras ! c)"
    using assms(2,3) by (simp add: nth_butlast)
  ultimately show ?thesis using assms(1) by simp
qed

lemma code_ranges_contiguous:
  "c < 23 \<Longrightarrow> INS_BASE ! Suc c = INS_BASE ! c + 2 ^ (INS_EXTRA ! c)"
  "c < 23 \<Longrightarrow> COPY_BASE ! Suc c = COPY_BASE ! c + 2 ^ (COPY_EXTRA ! c)"
  "c < 25 \<Longrightarrow> map fst PREFIX_CODE_RANGES ! Suc c = map fst PREFIX_CODE_RANGES ! c + 2 ^ (map snd PREFIX_CODE_RANGES ! c)"
  by (rule contiguous;
      simp add: INS_BASE_def INS_EXTRA_def COPY_BASE_def COPY_EXTRA_def PREFIX_CODE_RANGES_def)+

section \<open>Properties\<close>

text \<open>
  C23 (equivalence). The literal context model is the same on both sides: for the two modes the
  encoder uses, its context of a literal is the one the decoder computes for the mode's header
  code; in every mode a context is below 64, so it indexes its 64-entry row of the context map;
  and the computed tables are the format's: six low bits, six high bits, and the two signed
  magnitude classes.
\<close>

theorem literal_contexts_agree:
  "mode_context m p1 p2 = literal_context (mode_code m) p1 p2 \<and> literal_context mode p1 p2 < 64 \<and>
   literal_context 0 p1 p2 = unat p1 mod 64 \<and> literal_context 1 p1 p2 = unat p1 div 4 \<and>
   literal_context 3 p1 p2 = 8 * signed_bucket (unat p1) + signed_bucket (unat p2)"
proof (intro conjI)
  have "unat p1 < 256" "unat p2 < 256" by simp_all
  then have b: "unat p1 < 512" "256 + unat p2 < 512" by linarith+
  show "mode_context m p1 p2 = literal_context (mode_code m) p1 p2"
    by (cases m) (simp_all add: mode_context_def literal_context_def context_lut_def)
  show "literal_context mode p1 p2 < 64"
    unfolding literal_context_def by (rule or_less_64; rule context_lut_less) (use b in linarith)+
  show "literal_context 0 p1 p2 = unat p1 mod 64"
    using b AND_mask_nat [of "unat p1" 6] by (simp add: literal_context_def context_lut_def CONTEXT_LUT_LSB6_def)
  show "literal_context 1 p1 p2 = unat p1 div 4"
    using b by (simp add: literal_context_def context_lut_def CONTEXT_LUT_MSB6_def shr_div)
  have "signed_bucket (unat p2) < 2 ^ 3" by (simp add: signed_bucket_def)
  from push_or_low [OF this, of "signed_bucket (unat p1)"]
  have "8 * signed_bucket (unat p1) OR signed_bucket (unat p2) = 8 * signed_bucket (unat p1) + signed_bucket (unat p2)"
    by (simp add: push_bit_eq_mult mult.commute)
  then show "literal_context 3 p1 p2 = 8 * signed_bucket (unat p1) + signed_bucket (unat p2)"
    using lut_signed [of "unat p1"] lut_signed [of "unat p2"] by (simp add: literal_context_def context_lut_def)
qed

end
