(* ===== verification/Command.thy ===== *)
theory Command
  imports Format Distance
begin

unbundle bit_operations_syntax

text \<open>
  Insert-and-copy commands. The encoder's side (\<open>shared/command.rs\<close>): the prefix codes of
  insert and copy lengths, their combination into one command symbol, and the \<open>Command\<close> record
  that packs them (\<open>command\<close> here). The decoder's side
  (\<open>decompressor/core/stream.rs\<close>): the cells of the command alphabet, the per-symbol table
  \<open>COMMANDS\<close> and the resumable stages' own computation. \<open>u16\<close>, \<open>u32\<close> and \<open>i8\<close> casts
  are written out. The \<open>experimental\<close> encoding of long transforms is off, as by default.
\<close>

section \<open>Length codes\<close>

definition insert_length_code :: "nat \<Rightarrow> nat" where
  "insert_length_code insertlen =
     (if insertlen < 6 then take_bit 16 insertlen
      else if insertlen < 130 then
        (let nbits = log2_floor_non_zero (insertlen - 2) - 1 in
         take_bit 16 (shl 32 nbits 1 + shr (insertlen - 2) nbits + 2))
      else if insertlen < 2114 then take_bit 16 (log2_floor_non_zero (insertlen - 66) + 10)
      else if insertlen < 6210 then 21
      else if insertlen < 22594 then 22
      else 23)"

function fill_copy_codes :: "nat \<Rightarrow> nat \<Rightarrow> nat list \<Rightarrow> nat list" where
  "fill_copy_codes len code codes =
     (if len < 2118 then
        (let code' = (if len \<ge> COPY_BASE ! (code + 1) then code + 1 else code) in
         fill_copy_codes (len + 1) code' (codes[len := code']))
      else codes)"
  by pat_completeness auto
termination by (relation "measure (\<lambda>(len, code, codes). 2118 - len)") auto

declare fill_copy_codes.simps [simp del]

definition COPY_LENGTH_CODES :: "nat list" where
  "COPY_LENGTH_CODES = fill_copy_codes 2 0 (replicate 2118 0)"

definition copy_length_code :: "nat \<Rightarrow> nat" where
  "copy_length_code copylen =
     (if copylen < 10 then take_bit 16 (copylen - 2)
      else if copylen < 2118 then COPY_LENGTH_CODES ! copylen
      else 23)"

definition combine_length_codes :: "nat \<Rightarrow> nat \<Rightarrow> bool \<Rightarrow> nat" where
  "combine_length_codes inscode copycode use_last_distance =
     (let bits64 = (copycode AND 7) OR shl 16 (inscode AND 7) 3 in
      if use_last_distance \<and> inscode < 8 \<and> copycode < 16 then
        (if copycode < 8 then bits64 else bits64 OR 64)
      else
        (let offset = 2 * (shr copycode 3 + 3 * shr inscode 3);
             offset' = shl 32 offset 5 + 0x40 + (shr 0x520D40 offset AND 0xC0) in
         take_bit 16 offset' OR bits64))"

definition length_code :: "nat \<Rightarrow> nat \<Rightarrow> bool \<Rightarrow> nat" where
  "length_code insertlen copylen use_last_distance =
     combine_length_codes (insert_length_code insertlen) (copy_length_code copylen) use_last_distance"

section \<open>Commands\<close>

definition COPY_LEN_MASK :: nat where "COPY_LEN_MASK = 0x1FFFFFF"
definition COPY_LEN_CODE_SHIFT :: nat where "COPY_LEN_CODE_SHIFT = 25"
definition DIST_CODE_MASK :: nat where "DIST_CODE_MASK = 0x3FF"

record command =
  insert_len :: nat
  packed_copy_len :: nat
  dist_extra :: nat
  cmd_prefix :: nat
  dist_prefix :: nat

text \<open>\<open>(delta as i8) as u8\<close> and back: the residue modulo 256, read as a signed byte.\<close>

definition i8_to_u8 :: "int \<Rightarrow> nat" where
  "i8_to_u8 d = nat (d mod 256)"

definition u8_to_i8 :: "nat \<Rightarrow> int" where
  "u8_to_i8 v = (if v < 128 then int v else int v - 256)"

definition command_new :: "distance_params \<Rightarrow> nat \<Rightarrow> nat \<Rightarrow> int \<Rightarrow> nat \<Rightarrow> command" where
  "command_new dist insertlen copylen copylen_code_delta distance_code =
     (let delta = i8_to_u8 copylen_code_delta in
      case prefix_encode_copy_distance distance_code (num_direct dist) (postfix_bits dist) of
        (dprefix, dextra) \<Rightarrow>
          \<lparr>insert_len = take_bit 32 insertlen,
           packed_copy_len = take_bit 32 copylen OR shl 32 delta COPY_LEN_CODE_SHIFT,
           dist_extra = dextra,
           cmd_prefix = length_code insertlen (nat (int copylen + copylen_code_delta)) (dprefix AND DIST_CODE_MASK = 0),
           dist_prefix = dprefix\<rparr>)"

definition command_insert_only :: "nat \<Rightarrow> command" where
  "command_insert_only insertlen =
     \<lparr>insert_len = take_bit 32 insertlen, packed_copy_len = shl 32 4 COPY_LEN_CODE_SHIFT, dist_extra = 0,
      cmd_prefix = length_code insertlen 4 False, dist_prefix = NUM_DISTANCE_SHORT_CODES\<rparr>"

definition command_copy_len :: "command \<Rightarrow> nat" where
  "command_copy_len c = packed_copy_len c AND COPY_LEN_MASK"

definition command_copy_len_code :: "command \<Rightarrow> nat" where
  "command_copy_len_code c =
     (let modifier = shr (packed_copy_len c) COPY_LEN_CODE_SHIFT;
          delta = u8_to_i8 (take_bit 8 (modifier OR shl 32 (modifier AND 0x40) 1))
      in nat ((int (packed_copy_len c AND COPY_LEN_MASK) + delta) mod 2 ^ 32))"

definition command_distance_code :: "command \<Rightarrow> nat" where
  "command_distance_code c = dist_prefix c AND DIST_CODE_MASK"

definition command_distance_extra_bits :: "command \<Rightarrow> nat" where
  "command_distance_extra_bits c = shr (dist_prefix c) 10"

definition command_has_distance :: "command \<Rightarrow> bool" where
  "command_has_distance c \<longleftrightarrow> command_copy_len c \<noteq> 0 \<and> cmd_prefix c \<ge> 128"

definition command_distance_context :: "command \<Rightarrow> nat" where
  "command_distance_context c =
     (let r = shr (cmd_prefix c) 6; b = cmd_prefix c AND 7 in
      if (r = 0 \<or> r = 2 \<or> r = 4 \<or> r = 7) \<and> b \<le> 2 then b else 3)"

definition command_extra_bits :: "command \<Rightarrow> nat \<times> nat" where
  "command_extra_bits c =
     (let copylen_code = command_copy_len_code c;
          inscode = insert_length_code (insert_len c);
          copycode = copy_length_code copylen_code;
          insnumextra = INS_EXTRA ! inscode;
          insextraval = insert_len c - INS_BASE ! inscode;
          copyextraval = copylen_code - COPY_BASE ! copycode
      in (insnumextra + COPY_EXTRA ! copycode, shl 64 copyextraval insnumextra OR insextraval))"

section \<open>The decoder's table\<close>

definition CELLS :: "nat list" where
  "CELLS = [0, 1, 0, 1, 8, 9, 2, 16, 10, 17, 18]"

definition COMMAND_SLOTS :: nat where "COMMAND_SLOTS = 1024"

record command_row =
  insert_extra :: nat
  copy_extra :: nat
  copy_code :: nat
  distance_context :: nat
  implicit :: bool
  insert_base :: nat
  copy_base :: nat

definition command_row_of :: "nat \<Rightarrow> command_row" where
  "command_row_of symbol =
     (if symbol < 704 then
        (let cell = CELLS ! shr symbol 6;
             insert = (cell AND 24) + (shr symbol 3 AND 7);
             copy = (shl 64 cell 3 AND 24) + (symbol AND 7);
             base = COPY_BASE ! copy
         in \<lparr>insert_extra = INS_EXTRA ! insert, copy_extra = COPY_EXTRA ! copy, copy_code = copy,
             distance_context = (if base > 4 then 3 else base - 2), implicit = (symbol < 128),
             insert_base = take_bit 16 (INS_BASE ! insert), copy_base = take_bit 16 base\<rparr>)
      else \<lparr>insert_extra = 0, copy_extra = 0, copy_code = 0, distance_context = 0, implicit = False,
            insert_base = 0, copy_base = 0\<rparr>)"

definition COMMANDS :: "command_row list" where
  "COMMANDS = map command_row_of [0..<COMMAND_SLOTS]"

text \<open>\<open>Stage::Command\<close> of the resumable path: the insert and copy codes of a symbol.\<close>

definition command_stage_codes :: "nat \<Rightarrow> nat \<times> nat \<times> bool" where
  "command_stage_codes symbol =
     (let cell = CELLS ! shr symbol 6 in
      ((cell AND 24) + (shr symbol 3 AND 7), (shl 64 cell 3 AND 24) + (symbol AND 7), symbol < 128))"

section \<open>The codes cover their ranges\<close>

definition in_insert_range :: "nat \<Rightarrow> nat \<Rightarrow> bool" where
  "in_insert_range n c \<longleftrightarrow> c < 24 \<and> INS_BASE ! c \<le> n \<and> n < INS_BASE ! c + 2 ^ (INS_EXTRA ! c)"

definition in_copy_range :: "nat \<Rightarrow> nat \<Rightarrow> bool" where
  "in_copy_range n c \<longleftrightarrow> c < 24 \<and> COPY_BASE ! c \<le> n \<and> n < COPY_BASE ! c + 2 ^ (COPY_EXTRA ! c)"

lemma insert_length_code_range:
  assumes "n < 22594 + 2 ^ 24"
  shows "in_insert_range n (insert_length_code n)"
proof -
  consider "n < 6" | "6 \<le> n" "n < 130" | "130 \<le> n" "n < 2114" | "2114 \<le> n" by linarith
  then show ?thesis
  proof cases
    case 1
    then have "n \<in> {0, 1, 2, 3, 4, 5}" by auto
    then show ?thesis
      by (auto simp: insert_length_code_def in_insert_range_def INS_BASE_def INS_EXTRA_def take_bit_nat_eq_self)
  next
    case 2
    define k where "k = log2_floor_non_zero (n - 2) - 1"
    have "2 ^ log2_floor_non_zero (n - 2) \<le> n - 2" "n - 2 < 2 * 2 ^ log2_floor_non_zero (n - 2)"
      using log2_floor_le [of "n - 2"] log2_floor_less [of "n - 2"] 2 by simp_all
    moreover have "log2_floor_non_zero (n - 2) \<noteq> 0"
      using calculation(2) 2 by (cases "log2_floor_non_zero (n - 2)") auto
    ultimately have k: "2 * 2 ^ k \<le> n - 2" "n - 2 < 4 * 2 ^ k" by (cases "log2_floor_non_zero (n - 2)"; simp add: k_def)+
    have "(2::nat) ^ (k + 1) < 2 ^ 7" using k(1) 2 by simp
    then have "k < 6" by (metis add_lessD1 less_numeral_extra(4) nat_power_less_imp_less numeral_2_eq_2 zero_less_Suc
          add.commute Suc_eq_plus1_left Suc_less_eq numeral_nat(3) plus_1_eq_Suc)
    moreover have "0 < k" using k(2) 2 by (cases k) auto
    ultimately have k5: "k \<in> {1, 2, 3, 4, 5}" by auto
    define h where "h = (n - 2) div 2 ^ k"
    have h: "h = 2 \<and> n - 2 < 3 * 2 ^ k \<or> h = 3 \<and> 3 * 2 ^ k \<le> n - 2"
    proof (cases "n - 2 < 3 * 2 ^ k")
      case True
      then show ?thesis unfolding h_def using k(1) by (intro disjI1 conjI div_nat_eqI) simp_all
    next
      case False
      then show ?thesis unfolding h_def using k(2) by (intro disjI2 conjI div_nat_eqI) simp_all
    qed
    have code: "insert_length_code n = 2 * k + h + 2"
    proof -
      have n6: "\<not> n < 6" using 2 by simp
      have "insert_length_code n = take_bit 16 (shl 32 k 1 + h + 2)"
        unfolding insert_length_code_def Let_def if_not_P [OF n6] if_P [OF 2(2)] shr_div
          k_def [symmetric] h_def [symmetric] ..
      moreover have "shl 32 k 1 = 2 * k" using k5 by (auto simp: shl_def push_bit_eq_mult take_bit_nat_eq_self)
      ultimately show ?thesis using k5 h by (auto simp: take_bit_nat_eq_self)
    qed
    show ?thesis unfolding code
      using k k5 h by (auto simp: in_insert_range_def INS_BASE_def INS_EXTRA_def)
  next
    case 3
    define k where "k = log2_floor_non_zero (n - 66)"
    have k: "2 ^ k \<le> n - 66" "n - 66 < 2 * 2 ^ k"
      using log2_floor_le [of "n - 66"] log2_floor_less [of "n - 66"] 3 by (simp_all add: k_def)
    have "k < 11" by (rule power_less_imp_less_exp [of "2::nat"]) (use k 3 in simp_all)
    moreover have "6 < Suc k" by (rule power_less_imp_less_exp [of "2::nat"]) (use k 3 in simp_all)
    ultimately have k6: "k \<in> {6, 7, 8, 9, 10}" by auto
    have code: "insert_length_code n = k + 10"
      using 3 k6 by (auto simp: insert_length_code_def take_bit_nat_eq_self simp flip: k_def)
    show ?thesis unfolding code
      using k k6 by (auto simp: in_insert_range_def INS_BASE_def INS_EXTRA_def)
  next
    case 4
    then show ?thesis using assms
      by (auto simp: insert_length_code_def in_insert_range_def INS_BASE_def INS_EXTRA_def)
  qed
qed

lemma length_fill_copy_codes: "length (fill_copy_codes len code codes) = length codes"
  by (induction len code codes rule: fill_copy_codes.induct) (subst fill_copy_codes.simps, simp add: Let_def)

lemma fill_copy_codes_below:
  "i < len \<Longrightarrow> fill_copy_codes len code codes ! i = codes ! i"
proof (induction len code codes rule: fill_copy_codes.induct)
  case (1 len code codes)
  then show ?case by (subst fill_copy_codes.simps) (simp add: Let_def)
qed

text \<open>Before \<open>len\<close> is stored, \<open>code\<close> is the code of the length before it.\<close>

lemma fill_copy_codes_range:
  assumes "code < 23" "COPY_BASE ! code < len \<or> (len = 2 \<and> code = 0)" "len \<le> COPY_BASE ! (code + 1)"
    "len \<le> i" "i < 2118" "length codes = 2118"
  shows "let c = fill_copy_codes len code codes ! i in c < 23 \<and> COPY_BASE ! c \<le> i \<and> i < COPY_BASE ! (c + 1)"
  using assms
proof (induction len code codes rule: fill_copy_codes.induct)
  case (1 len code codes)
  define code' where "code' = (if len \<ge> COPY_BASE ! (code + 1) then code + 1 else code)"
  have step: "fill_copy_codes len code codes = fill_copy_codes (len + 1) code' (codes[len := code'])"
    using "1.prems" by (subst fill_copy_codes.simps) (simp add: code'_def Let_def)
  have grow: "COPY_BASE ! c < COPY_BASE ! (c + 1)" if "c < 23" for c
    using code_ranges_contiguous(2) [OF that] by simp
  have top: "COPY_BASE ! 23 = 2118" by (simp add: COPY_BASE_def)
  have c': "code' < 23" "COPY_BASE ! code' \<le> len" "len < COPY_BASE ! (code' + 1)"
  proof -
    show c23: "code' < 23"
    proof (rule ccontr)
      assume "\<not> code' < 23"
      then have "code + 1 = 23" "COPY_BASE ! (code + 1) \<le> len" using "1.prems"(1) by (auto simp: code'_def split: if_splits)
      with top "1.prems" show False by simp
    qed
    have "COPY_BASE ! 0 = 2" by (simp add: COPY_BASE_def)
    then show "COPY_BASE ! code' \<le> len" using "1.prems" by (auto simp: code'_def)
    show "len < COPY_BASE ! (code' + 1)"
      using "1.prems"(3) grow [OF c23] by (auto simp: code'_def split: if_splits)
  qed
  show ?case
  proof (cases "i = len")
    case True
    then have "fill_copy_codes len code codes ! i = code'"
      unfolding step using fill_copy_codes_below [of i "len + 1" code' "codes[len := code']"] "1.prems" by simp
    with True c' show ?thesis by (simp add: Let_def)
  next
    case False
    then show ?thesis
      unfolding step using "1.prems" c'
      by (intro "1.IH" [OF _ code'_def]) auto
  qed
qed

lemma copy_length_code_range:
  assumes "2 \<le> n" "n < 2118 + 2 ^ 24"
  shows "in_copy_range n (copy_length_code n)"
proof -
  consider "n < 10" | "10 \<le> n" "n < 2118" | "2118 \<le> n" by linarith
  then show ?thesis
  proof cases
    case 1
    then have "n \<in> {2, 3, 4, 5, 6, 7, 8, 9}" using assms by auto
    then show ?thesis
      by (auto simp: copy_length_code_def in_copy_range_def COPY_BASE_def COPY_EXTRA_def take_bit_nat_eq_self)
  next
    case 2
    define c where "c = COPY_LENGTH_CODES ! n"
    have "c < 23 \<and> COPY_BASE ! c \<le> n \<and> n < COPY_BASE ! (c + 1)"
      using fill_copy_codes_range [of 0 2 n "replicate 2118 0"] 2
      unfolding c_def COPY_LENGTH_CODES_def Let_def by (simp add: COPY_BASE_def)
    then show ?thesis
      using code_ranges_contiguous(2) [of c] 2 by (simp add: copy_length_code_def in_copy_range_def flip: c_def)
  next
    case 3
    then show ?thesis using assms
      by (auto simp: copy_length_code_def in_copy_range_def COPY_BASE_def COPY_EXTRA_def)
  qed
qed

section \<open>Combining and splitting command symbols\<close>

lemma and_7_nat: "(n :: nat) AND 7 = n mod 8"
  using AND_mask_nat [of n 3] by simp

text \<open>The cell a pair of codes falls into, as the symbol's upper bits.\<close>

definition cell_of :: "nat \<Rightarrow> nat \<Rightarrow> bool \<Rightarrow> nat" where
  "cell_of i c u = (if u \<and> i < 8 \<and> c < 16 then c div 8
     else [2, 3, 6, 4, 5, 8, 7, 9, 10] ! (c div 8 + 3 * (i div 8)))"

lemma combine_eq:
  assumes "i < 24" "c < 24"
  shows "combine_length_codes i c u = 64 * cell_of i c u + (8 * (i mod 8) + c mod 8)"
proof -
  have "(i mod 8) * 2 ^ 3 < 2 ^ 16" by simp
  then have b: "(c AND 7) OR shl 16 (i AND 7) 3 = 8 * (i mod 8) + c mod 8"
    using shl_or_low [of "c mod 8" 3 "i mod 8" 16] by (simp add: and_7_nat or.commute mult.commute)
  have low: "8 * (i mod 8) + c mod 8 < 2 ^ 6"
  proof -
    have "i mod 8 < 8" "c mod 8 < 8" "(2::nat) ^ 6 = 64" by simp_all
    then show ?thesis by linarith
  qed
  have join: "x * 64 OR (8 * (i mod 8) + c mod 8) = 64 * x + (8 * (i mod 8) + c mod 8)" for x
    using push_or_low [OF low, of x] by (simp add: push_bit_eq_mult mult.commute)
  show ?thesis
  proof (cases "u \<and> i < 8 \<and> c < 16")
    case True
    moreover have "c div 8 = (if c < 8 then 0 else 1)"
      using True by (cases "c < 8") (auto intro!: div_nat_eqI)
    ultimately show ?thesis
      using join [of 1] unfolding combine_length_codes_def Let_def b by (simp add: cell_of_def or.commute)
  next
    case False
    define q where "q = c div 8 + 3 * (i div 8)"
    have q: "shr c 3 + 3 * shr i 3 = q" by (simp add: shr_div q_def)
    have "c div 8 < 3" "i div 8 < 3" using assms by (simp_all add: less_mult_imp_div_less)
    then have "q \<in> {0, 1, 2, 3, 4, 5, 6, 7, 8}" by (auto simp: q_def)
    then have "take_bit 16 (shl 32 (2 * q) 5 + 0x40 + (shr 0x520D40 (2 * q) AND 0xC0)) =
        [2, 3, 6, 4, 5, 8, 7, 9, 10] ! q * 64"
      by (auto simp: shl_exact shr_div)
    then show ?thesis
      unfolding combine_length_codes_def cell_of_def Let_def b q if_not_P [OF False] q_def [symmetric]
      by (simp only: join)
  qed
qed

lemma cell_codes:
  assumes "i < 24" "c < 24"
  shows "cell_of i c u < 11" "CELLS ! cell_of i c u AND 24 = 8 * (i div 8)"
    "shl 64 (CELLS ! cell_of i c u) 3 AND 24 = 8 * (c div 8)"
    "cell_of i c u < 2 \<longleftrightarrow> u \<and> i < 8 \<and> c < 16"
proof -
  have "c div 8 < 3" "i div 8 < 3" using assms by (simp_all add: less_mult_imp_div_less)
  then have "c div 8 \<in> {0, 1, 2}" "i div 8 \<in> {0, 1, 2}" by auto
  moreover have "c < 16 \<longleftrightarrow> c div 8 < 2" "i < 8 \<longleftrightarrow> i div 8 < 1" by auto
  ultimately show "cell_of i c u < 11" "CELLS ! cell_of i c u AND 24 = 8 * (i div 8)"
    "shl 64 (CELLS ! cell_of i c u) 3 AND 24 = 8 * (c div 8)"
    "cell_of i c u < 2 \<longleftrightarrow> u \<and> i < 8 \<and> c < 16"
    unfolding cell_of_def by (auto simp: CELLS_def shl_exact)
qed

lemma symbol_parts:
  fixes u :: bool
  assumes "i < 24" "c < 24"
  defines "s \<equiv> combine_length_codes i c u"
  shows "shr s 6 = cell_of i c u" "shr s 3 AND 7 = i mod 8" "s AND 7 = c mod 8" "s < 704"
    "s < 128 \<longleftrightarrow> u \<and> i < 8 \<and> c < 16"
proof -
  have s: "s = 64 * cell_of i c u + (8 * (i mod 8) + c mod 8)" unfolding s_def by (rule combine_eq [OF assms(1,2)])
  define q a b where "q = cell_of i c u" and "a = i mod 8" and "b = c mod 8"
  have ab: "a < 8" "b < 8" "s = 64 * q + 8 * a + b" by (simp_all add: a_def b_def q_def s)
  have s8: "s = 8 * (8 * q + a) + b" using ab(3) by simp
  have "s div 64 = q" "s div 8 = 8 * q + a" by (rule div_nat_eqI; use ab in simp)+
  moreover have "s mod 8 = b" unfolding s8 mod_mult_self4 using ab(2) by (rule mod_less)
  moreover have "(8 * q + a) mod 8 = a" unfolding mod_mult_self4 using ab(1) by (rule mod_less)
  ultimately show "shr s 6 = cell_of i c u" "shr s 3 AND 7 = i mod 8" "s AND 7 = c mod 8"
    unfolding shr_div and_7_nat q_def [symmetric] a_def [symmetric] b_def [symmetric] by simp_all
  show "s < 704" "s < 128 \<longleftrightarrow> u \<and> i < 8 \<and> c < 16"
    using cell_codes(1,4) [OF assms(1,2), of u] ab unfolding q_def by auto
qed

lemma stage_codes_combine:
  assumes "i < 24" "c < 24"
  shows "command_stage_codes (combine_length_codes i c u) = (i, c, u \<and> i < 8 \<and> c < 16)"
  using symbol_parts [OF assms, of u] cell_codes(2,3) [OF assms, of u]
  by (simp add: command_stage_codes_def Let_def)

lemma row_combine:
  assumes "i < 24" "c < 24"
  shows "COMMANDS ! combine_length_codes i c u =
    \<lparr>insert_extra = INS_EXTRA ! i, copy_extra = COPY_EXTRA ! c, copy_code = c,
     distance_context = min (COPY_BASE ! c - 2) 3, implicit = (u \<and> i < 8 \<and> c < 16),
     insert_base = INS_BASE ! i, copy_base = COPY_BASE ! c\<rparr>"
proof -
  note sp = symbol_parts [OF assms, of u]
  note cc = cell_codes(2,3) [OF assms, of u]
  have "list_all (\<lambda>v. v < 2 ^ 16) INS_BASE" "list_all (\<lambda>v. v < 2 ^ 16) COPY_BASE"
    by (simp_all add: INS_BASE_def COPY_BASE_def)
  then have t: "take_bit 16 (INS_BASE ! i) = INS_BASE ! i" "take_bit 16 (COPY_BASE ! c) = COPY_BASE ! c"
    using assms by (simp_all add: list_all_length take_bit_nat_eq_self)
  have p: "8 * (i div 8) + i mod 8 = i" "8 * (c div 8) + c mod 8 = c" by simp_all
  have "COMMANDS ! combine_length_codes i c u = command_row_of (combine_length_codes i c u)"
    using sp(4) by (simp add: COMMANDS_def COMMAND_SLOTS_def)
  then show ?thesis
    unfolding command_row_of_def if_P [OF sp(4)] Let_def sp(1-3,5) cc p t by auto
qed

lemma copy_base_context:
  assumes "c < 24"
  shows "min (COPY_BASE ! c - 2) 3 = (if c < 8 \<and> c \<le> 2 then c else 3)"
proof -
  have "list_all (\<lambda>c. min (COPY_BASE ! c - 2) 3 = (if c < 8 \<and> c \<le> 2 then c else 3)) [0..<24]"
    by (simp add: COPY_BASE_def upt_rec)
  then show ?thesis using assms by (simp add: list_all_iff)
qed

lemma context_combine:
  assumes "i < 24" "c < 24" "cmd_prefix k = combine_length_codes i c u"
  shows "command_distance_context k = min (COPY_BASE ! c - 2) 3"
proof -
  note sp = symbol_parts [OF assms(1,2), of u]
  have "c div 8 < 3" "i div 8 < 3" using assms by (simp_all add: less_mult_imp_div_less)
  then have "c div 8 \<in> {0, 1, 2}" "i div 8 \<in> {0, 1, 2}" by auto
  moreover have "c < 16 \<longleftrightarrow> c div 8 < 2" "i < 8 \<longleftrightarrow> i div 8 < 1" by auto
  ultimately have r: "cell_of i c u = 0 \<or> cell_of i c u = 2 \<or> cell_of i c u = 4 \<or> cell_of i c u = 7 \<longleftrightarrow> c div 8 = 0"
    unfolding cell_of_def by auto
  have "c div 8 = 0 \<longleftrightarrow> c < 8" by auto
  then show ?thesis
    unfolding command_distance_context_def Let_def assms(3) sp(1,3) r copy_base_context [OF assms(2)] by auto
qed

section \<open>Commands and their extra bits\<close>

lemma and_pow_nat: "(n :: nat) AND 2 ^ k = (if bit n k then 2 ^ k else 0)"
  by (rule bit_eqI) (auto simp: bit_and_iff bit_exp_iff)

lemma sign_extend_7:
  assumes "- 64 \<le> d" "d \<le> 63"
  defines "m \<equiv> nat (d mod 128)"
  shows "u8_to_i8 (take_bit 8 (m OR shl 32 (m AND 0x40) 1)) = d"
proof (cases "0 \<le> d")
  case True
  then have m: "m = nat d" "m < 64" using assms by (simp_all add: m_def)
  have "m AND 64 = 0" using and_pow_nat [of m 6] not_bit_nat_of_less [of m 6 6] m(2) by simp
  then show ?thesis using m True by (simp add: shl_def u8_to_i8_def take_bit_nat_eq_self)
next
  case False
  have "(d + 128) mod 128 = d + 128" using assms False by (intro mod_pos_pos_trivial) auto
  then have "d mod 128 = d + 128" by simp
  then have m: "int m = d + 128" "64 \<le> m" "m < 128" using assms False by (simp_all add: m_def)
  have "bit m 6" using m by (simp add: bit_iff_odd div_if)
  then have "m AND 64 = 64" using and_pow_nat [of m 6] by simp
  then have "shl 32 (m AND 0x40) 1 = 128" by (simp add: shl_exact)
  moreover have "m OR 128 = m + 128"
    using push_or_low [of m 7 1] m(3) by (simp add: or.commute push_bit_eq_mult)
  ultimately show ?thesis using m by (simp add: u8_to_i8_def take_bit_nat_eq_self)
qed

lemma packed_copy_len:
  assumes "copylen < 2 ^ 25" "- 64 \<le> d" "d \<le> 63"
  defines "packed \<equiv> take_bit 32 copylen OR shl 32 (i8_to_u8 d) COPY_LEN_CODE_SHIFT"
  shows "packed AND COPY_LEN_MASK = copylen" "shr packed COPY_LEN_CODE_SHIFT = nat (d mod 128)"
proof -
  have "take_bit 32 copylen = copylen" using assms(1) by (simp add: take_bit_nat_eq_self)
  moreover have "shl 32 (i8_to_u8 d) COPY_LEN_CODE_SHIFT = push_bit 25 (nat (d mod 128))"
  proof -
    have "i8_to_u8 d mod 128 = nat (d mod 128)"
      unfolding i8_to_u8_def using nat_mod_distrib [of "d mod 256" 128] mod_mod_cancel [of "128::int" 256 d] by simp
    then have "i8_to_u8 d * 2 ^ 25 mod 2 ^ 32 = nat (d mod 128) * 2 ^ 25"
      using mult_mod_left [of "i8_to_u8 d" 128 "2 ^ 25"] by simp
    then show ?thesis by (simp add: shl_def COPY_LEN_CODE_SHIFT_def push_bit_eq_mult take_bit_eq_mod)
  qed
  ultimately have p: "packed = nat (d mod 128) * 2 ^ 25 + copylen"
    unfolding packed_def using push_or_low [OF assms(1), of "nat (d mod 128)"] by (simp add: or.commute)
  show "packed AND COPY_LEN_MASK = copylen"
    using AND_mask_nat [of packed 25] assms(1) by (simp add: p COPY_LEN_MASK_def)
  show "shr packed COPY_LEN_CODE_SHIFT = nat (d mod 128)"
    using assms(1) by (simp add: p COPY_LEN_CODE_SHIFT_def shr_div)
qed

lemma command_new_fields:
  fixes dist :: distance_params and dc :: nat
  assumes n: "n < 2 ^ 32" and c: "copylen < 2 ^ 25" and d: "- 64 \<le> d" "d \<le> 63" "0 \<le> int copylen + d"
  defines "k \<equiv> command_new dist n copylen d dc"
  shows "insert_len k = n" "command_copy_len k = copylen" "command_copy_len_code k = nat (int copylen + d)"
    "cmd_prefix k = length_code n (nat (int copylen + d)) (command_distance_code k = 0)"
proof -
  obtain dp de where pd: "prefix_encode_copy_distance dc (num_direct dist) (postfix_bits dist) = (dp, de)" by fastforce
  have k: "k = \<lparr>insert_len = n, packed_copy_len = take_bit 32 copylen OR shl 32 (i8_to_u8 d) COPY_LEN_CODE_SHIFT,
      dist_extra = de, cmd_prefix = length_code n (nat (int copylen + d)) (dp AND DIST_CODE_MASK = 0), dist_prefix = dp\<rparr>"
    using n by (simp add: k_def command_new_def pd Let_def take_bit_nat_eq_self)
  note p = packed_copy_len [OF c d(1,2)]
  show "insert_len k = n" "cmd_prefix k = length_code n (nat (int copylen + d)) (command_distance_code k = 0)"
    by (simp_all add: k command_distance_code_def)
  show "command_copy_len k = copylen" by (simp add: k command_copy_len_def p)
  have "int copylen + d < 2 ^ 32" using c d(2) by simp
  then show "command_copy_len_code k = nat (int copylen + d)"
    using d(3) by (simp add: k command_copy_len_code_def Let_def p sign_extend_7 [OF d(1,2), simplified])
qed

lemma extra_bits_split:
  assumes i: "in_insert_range (insert_len k) (insert_length_code (insert_len k))"
    and c: "in_copy_range (command_copy_len_code k) (copy_length_code (command_copy_len_code k))"
  defines "ic \<equiv> insert_length_code (insert_len k)" and "cc \<equiv> copy_length_code (command_copy_len_code k)"
  shows "command_extra_bits k = (INS_EXTRA ! ic + COPY_EXTRA ! cc,
      (command_copy_len_code k - COPY_BASE ! cc) * 2 ^ (INS_EXTRA ! ic) + (insert_len k - INS_BASE ! ic))"
    and "INS_EXTRA ! ic \<le> 24" "COPY_EXTRA ! cc \<le> 24"
proof -
  have "list_all (\<lambda>v. v \<le> 24) INS_EXTRA" "list_all (\<lambda>v. v \<le> 24) COPY_EXTRA"
    by (simp_all add: INS_EXTRA_def COPY_EXTRA_def)
  then show le: "INS_EXTRA ! ic \<le> 24" "COPY_EXTRA ! cc \<le> 24"
    using i c by (simp_all add: list_all_length in_insert_range_def in_copy_range_def ic_def cc_def)
  have iv: "insert_len k - INS_BASE ! ic < 2 ^ (INS_EXTRA ! ic)"
    using i by (auto simp: in_insert_range_def ic_def)
  have cv: "command_copy_len_code k - COPY_BASE ! cc < 2 ^ (COPY_EXTRA ! cc)"
    using c by (auto simp: in_copy_range_def cc_def)
  have "(command_copy_len_code k - COPY_BASE ! cc) * 2 ^ (INS_EXTRA ! ic) < 2 ^ (COPY_EXTRA ! cc) * 2 ^ (INS_EXTRA ! ic)"
    using cv by simp
  also have "\<dots> = 2 ^ (COPY_EXTRA ! cc + INS_EXTRA ! ic)" by (simp add: power_add)
  also have "\<dots> \<le> 2 ^ 64" by (rule power_increasing) (use le in simp_all)
  finally show "command_extra_bits k = (INS_EXTRA ! ic + COPY_EXTRA ! cc,
      (command_copy_len_code k - COPY_BASE ! cc) * 2 ^ (INS_EXTRA ! ic) + (insert_len k - INS_BASE ! ic))"
    unfolding command_extra_bits_def Let_def ic_def [symmetric] cc_def [symmetric]
    using shl_or_low [OF iv] by simp
qed

section \<open>Properties\<close>

text \<open>
  C16 (roundtrip). A command whose symbol was formed from its insert length, its copy length code
  and whether it repeats the last distance is read back by the decoder: the table row of the symbol
  says how many extra bits to read, and splitting the command's extra bits the way the row says
  gives back both lengths; the row is implicit only for commands that repeat the last distance,
  its distance context is the encoder's, and the resumable path computes the same codes.
\<close>

theorem command_symbol_roundtrip:
  assumes k: "insert_len k < 22594 + 2 ^ 24" "2 \<le> command_copy_len_code k" "command_copy_len_code k < 2118 + 2 ^ 24"
    and sym: "cmd_prefix k = length_code (insert_len k) (command_copy_len_code k) u"
    and row: "row = COMMANDS ! cmd_prefix k" and ex: "command_extra_bits k = (w, v)"
  shows "cmd_prefix k < 704 \<and> w = insert_extra row + copy_extra row \<and> w \<le> 48 \<and> v < 2 ^ w
    \<and> insert_base row + v mod 2 ^ insert_extra row = insert_len k
    \<and> copy_base row + v div 2 ^ insert_extra row = command_copy_len_code k
    \<and> (implicit row \<longrightarrow> u)
    \<and> distance_context row = command_distance_context k
    \<and> command_stage_codes (cmd_prefix k) =
        (insert_length_code (insert_len k), copy_length_code (command_copy_len_code k), implicit row)
    \<and> copy_code row = copy_length_code (command_copy_len_code k)"
proof -
  define i c where "i = insert_length_code (insert_len k)" and "c = copy_length_code (command_copy_len_code k)"
  note ir = insert_length_code_range [OF k(1)] and cr = copy_length_code_range [OF k(2,3)]
  have i: "i < 24" and c: "c < 24" using ir cr by (simp_all add: in_insert_range_def in_copy_range_def i_def c_def)
  have s: "cmd_prefix k = combine_length_codes i c u" using sym by (simp add: length_code_def i_def c_def)
  note eb = extra_bits_split [OF ir cr, folded i_def c_def]
  define a b where "a = insert_len k - INS_BASE ! i" and "b = command_copy_len_code k - COPY_BASE ! c"
  have a: "a < 2 ^ (INS_EXTRA ! i)" "INS_BASE ! i + a = insert_len k"
    using ir by (auto simp: in_insert_range_def i_def a_def)
  have b: "b < 2 ^ (COPY_EXTRA ! c)" "COPY_BASE ! c + b = command_copy_len_code k"
    using cr by (auto simp: in_copy_range_def c_def b_def)
  have w: "w = INS_EXTRA ! i + COPY_EXTRA ! c" and v: "v = b * 2 ^ (INS_EXTRA ! i) + a"
    using ex eb(1) by (auto simp: a_def b_def)
  have "v < 2 ^ w"
  proof -
    have "v < (b + 1) * 2 ^ (INS_EXTRA ! i)" using a(1) by (simp add: v)
    also have "\<dots> \<le> 2 ^ (COPY_EXTRA ! c) * 2 ^ (INS_EXTRA ! i)" by (rule mult_right_mono) (use b(1) in simp_all)
    finally show ?thesis by (simp add: w power_add mult.commute)
  qed
  moreover have "v mod 2 ^ (INS_EXTRA ! i) = a" "v div 2 ^ (INS_EXTRA ! i) = b" using a(1) by (simp_all add: v)
  ultimately show ?thesis
    unfolding row s row_combine [OF i c] stage_codes_combine [OF i c] context_combine [OF i c s]
    using symbol_parts(4) [OF i c] a b eb(2,3) w by (simp add: i_def [symmetric] c_def [symmetric])
qed

text \<open>
  The constructor packs what the accessors read: the copied length, the length
  the code stands for (which differs from it by a signed seven-bit amount), the insert length, and
  the distance code, whose value 0 is the only one that makes the symbol repeat the last distance.
\<close>

theorem command_new_packs:
  assumes "n < 2 ^ 32" "copylen < 2 ^ 25" "- 64 \<le> d" "d \<le> 63" "0 \<le> int copylen + d"
    and "k = command_new dist n copylen d dc"
  shows "insert_len k = n \<and> command_copy_len k = copylen \<and> int (command_copy_len_code k) = int copylen + d
    \<and> cmd_prefix k = length_code n (command_copy_len_code k) (command_distance_code k = 0)
    \<and> (command_has_distance k \<longleftrightarrow> copylen \<noteq> 0 \<and> 128 \<le> cmd_prefix k)"
  using command_new_fields [OF assms(1-5), of dist dc] assms(5)
  by (simp add: assms(6) command_has_distance_def)

theorem command_symbol_roundtrip_witness:
  "\<exists>k row w v. k = command_new (params_new 0 0) 7 12 0 20 \<and> row = COMMANDS ! cmd_prefix k \<and> command_extra_bits k = (w, v)
    \<and> insert_base row + v mod 2 ^ insert_extra row = 7 \<and> copy_base row + v div 2 ^ insert_extra row = 12"
proof -
  define k where "k = command_new (params_new 0 0) 7 12 0 20"
  have f: "insert_len k = 7" "command_copy_len_code k = 12" "cmd_prefix k = length_code 7 12 (command_distance_code k = 0)"
    using command_new_fields [of 7 12 0 "params_new 0 0" 20] by (simp_all add: k_def)
  obtain w v where wv: "command_extra_bits k = (w, v)" by fastforce
  have b: "insert_len k < 22594 + 2 ^ 24" "2 \<le> command_copy_len_code k" "command_copy_len_code k < 2118 + 2 ^ 24"
    by (simp_all add: f(1,2))
  have c: "cmd_prefix k = length_code (insert_len k) (command_copy_len_code k) (command_distance_code k = 0)"
    unfolding f(1,2) by (rule f(3))
  have "insert_base (COMMANDS ! cmd_prefix k) + v mod 2 ^ insert_extra (COMMANDS ! cmd_prefix k) = 7
    \<and> copy_base (COMMANDS ! cmd_prefix k) + v div 2 ^ insert_extra (COMMANDS ! cmd_prefix k) = 12"
    using command_symbol_roundtrip [OF b c refl wv] unfolding f(1,2) by (elim conjE) (intro conjI)
  with wv show ?thesis unfolding k_def by blast
qed

theorem command_new_packs_witness:
  "\<exists>k. k = command_new (params_new 0 0) 7 12 (- 3) 20 \<and> command_copy_len k = 12 \<and> command_copy_len_code k = 9"
  using command_new_packs [of 7 12 "- 3" _ "params_new 0 0" 20, OF _ _ _ _ _ refl] by auto

end
