(* ===== verification/Prefix_Table.thy ===== *)
theory Prefix_Table
  imports Bit_Reader "HOL-Library.Sublist"
begin

unbundle bit_operations_syntax

text \<open>
  Looking symbols up in the two-level tables of \<open>decompressor/core/huffman.rs\<close>. An entry
  \<open>Code\<close> is its packed word. A prefix code is specified by its set of codewords, bit lists
  in the order of the stream with their symbols (\<open>prefix_code\<close>); \<open>carries\<close> says that a
  table holds that code. The lookups are then proved to read exactly one codeword, whether
  they decode from a full reservoir, byte by byte, or choose between the two.
\<close>

section \<open>Entries and lookups\<close>

definition MAX_ALPHABET :: nat where "MAX_ALPHABET = 1128"
definition MAX_LENGTH :: nat where "MAX_LENGTH = 15"
definition ROOT_BITS :: nat where "ROOT_BITS = 8"
definition ROOT_SIZE :: nat where "ROOT_SIZE = 2 ^ ROOT_BITS"

type_synonym code = nat

definition code_new :: "nat \<Rightarrow> nat \<Rightarrow> code" where
  "code_new n v = shl 32 (take_bit 32 v) 8 OR n"

definition code_bits :: "code \<Rightarrow> nat" where
  "code_bits c = c AND 0xff"

definition code_value :: "code \<Rightarrow> nat" where
  "code_value c = shr c 8"

record table =
  root :: "code list"
  second :: "code list"

definition decode_fast :: "table \<Rightarrow> bits \<Rightarrow> nat \<times> bits" where
  "decode_fast t b =
     (let peek = bvalue b;
          entry = root t ! (peek AND (ROOT_SIZE - 1))
      in if code_bits entry > ROOT_BITS then
           (let index = code_value entry + (shr peek ROOT_BITS AND bit_mask (code_bits entry - ROOT_BITS));
                b' = drop_bits ROOT_BITS b;
                entry' = second t ! index
            in (code_value entry', drop_bits (code_bits entry') b'))
         else (code_value entry, drop_bits (code_bits entry) b))"

definition try_decode :: "table \<Rightarrow> bits \<Rightarrow> nat option \<times> bits" where
  "try_decode t b =
     (let available = bcount b;
          peek = bvalue b;
          entry = root t ! (peek AND (ROOT_SIZE - 1));
          width = code_bits entry
      in if width > ROOT_BITS then
           (if available < ROOT_BITS then (None, b)
            else
              (let index = code_value entry + (shr peek ROOT_BITS AND bit_mask (width - ROOT_BITS));
                   entry' = second t ! index;
                   width' = ROOT_BITS + code_bits entry'
               in if width' > available then (None, b)
                  else (Some (code_value entry'), drop_bits width' b)))
         else if width > available then (None, b)
         else (Some (code_value entry), drop_bits width b))"

function decode :: "table \<Rightarrow> reader \<Rightarrow> (decode_error + nat option) \<times> reader" where
  "decode t (b, i) =
     (case try_decode t b of
        (Some symbol, b') \<Rightarrow> (Inr (Some symbol), b', i)
      | (None, b') \<Rightarrow>
          (case load_byte (b', i) of
             (Inl e, s) \<Rightarrow> (Inl e, s)
           | (Inr False, s) \<Rightarrow> (Inr None, s)
           | (Inr True, s) \<Rightarrow> decode t s))"
  by pat_completeness auto
termination
  by (relation "measure (\<lambda>(t, b, i). length (in_bytes i) - consumed i)")
     (auto dest!: load_byte_consumes [OF sym])

declare decode.simps [simp del]

definition decode_refilling :: "table \<Rightarrow> reader \<Rightarrow> (decode_error + nat option) \<times> reader" where
  "decode_refilling t s =
     (let (full, s') = (if bcount (fst s) \<ge> MAX_LENGTH then (True, s) else refill s)
      in if full then (case decode_fast t (fst s') of (v, b') \<Rightarrow> (Inr (Some v), b', snd s'))
         else decode t s')"

section \<open>Prefix codes\<close>

text \<open>
  A complete prefix code: no codeword is a prefix of another, and every fifteen bits begin with
  one. \<open>reads C xs\<close> is the codeword at the front of \<open>xs\<close>.
\<close>

definition prefix_code :: "(bool list \<times> nat) set \<Rightarrow> bool" where
  "prefix_code C \<longleftrightarrow>
     (\<forall>cw s cw' s'. (cw, s) \<in> C \<longrightarrow> (cw', s') \<in> C \<longrightarrow> prefix cw cw' \<longrightarrow> cw = cw' \<and> s = s') \<and>
     (\<forall>cw s. (cw, s) \<in> C \<longrightarrow> length cw \<le> MAX_LENGTH) \<and>
     (\<forall>xs. length xs = MAX_LENGTH \<longrightarrow> (\<exists>cw s. (cw, s) \<in> C \<and> prefix cw xs))"

text \<open>Every second-level entry a code uses lies between \<open>lo\<close> and \<open>hi\<close> in the group's storage.\<close>

definition carries_in :: "nat \<Rightarrow> nat \<Rightarrow> table \<Rightarrow> (bool list \<times> nat) set \<Rightarrow> bool" where
  "carries_in lo hi t C \<longleftrightarrow> (\<forall>cw s. (cw, s) \<in> C \<longrightarrow>
     (if length cw \<le> ROOT_BITS then
        (\<forall>i<ROOT_SIZE. prefix cw (bits_of_nat ROOT_BITS i) \<longrightarrow>
           i < length (root t) \<and> code_bits (root t ! i) = length cw \<and> code_value (root t ! i) = s)
      else
        (let low = nat_of_bits (take ROOT_BITS cw); entry = root t ! low; w = code_bits entry - ROOT_BITS
         in low < length (root t) \<and> ROOT_BITS < code_bits entry \<and> length cw \<le> code_bits entry \<and>
            (\<forall>i<2 ^ w. prefix (drop ROOT_BITS cw) (bits_of_nat w i) \<longrightarrow>
               lo \<le> code_value entry + i \<and> code_value entry + i < hi \<and>
               ROOT_BITS + code_bits (second t ! (code_value entry + i)) = length cw \<and>
               code_value (second t ! (code_value entry + i)) = s))))"

definition carries :: "table \<Rightarrow> (bool list \<times> nat) set \<Rightarrow> bool" where
  "carries t C \<longleftrightarrow> carries_in 0 (length (second t)) t C"

lemma carries_in_mono: "carries_in lo hi t C \<Longrightarrow> hi \<le> length (second t) \<Longrightarrow> carries t C"
  unfolding carries_def carries_in_def Let_def by (meson le0 order_less_le_trans)

lemma prefix_codeD:
  assumes "prefix_code C"
  shows "(cw, s) \<in> C \<Longrightarrow> (cw', s') \<in> C \<Longrightarrow> prefix cw cw' \<Longrightarrow> cw = cw' \<and> s = s'"
    and "(cw, s) \<in> C \<Longrightarrow> length cw \<le> MAX_LENGTH"
    and "length xs = MAX_LENGTH \<Longrightarrow> \<exists>cw s. (cw, s) \<in> C \<and> prefix cw xs"
  using assms unfolding prefix_code_def by blast+

lemma prefix_code_unique:
  assumes "prefix_code C" "(cw, s) \<in> C" "(cw', s') \<in> C" "prefix cw xs" "prefix cw' xs"
  shows "cw = cw'" "s = s'"
proof -
  have "prefix cw cw' \<or> prefix cw' cw" using assms(4,5) by (rule prefix_same_cases)
  then show "cw = cw'" "s = s'" using prefix_codeD(1) [OF assms(1)] assms(2,3) by blast+
qed

lemma prefix_bits_of_nat:
  "prefix cw (bits_of_nat n v) \<longleftrightarrow> length cw \<le> n \<and> cw = bits_of_nat (length cw) v"
  by (metis length_bits_of_nat prefix_length_le take_bits_of_nat prefix_order.order_refl take_is_prefix
      prefix_def append_eq_conv_conj)

lemma code_new_sel:
  assumes "n < 256" "v < 2 ^ 24"
  shows "code_bits (code_new n v) = n" "code_value (code_new n v) = v"
proof -
  have v: "take_bit 32 v = v" using assms(2) by (simp add: take_bit_nat_eq_self)
  have "v * 2 ^ 8 < 2 ^ 32" using assms(2) by simp
  then have c: "code_new n v = v * 2 ^ 8 + n"
    unfolding code_new_def v using shl_or_low [of n 8 v 32] assms(1) by simp
  show "code_bits (code_new n v) = n"
    using AND_mask_nat [of "v * 2 ^ 8 + n" 8] assms(1) by (simp add: c code_bits_def)
  show "code_value (code_new n v) = v"
    using assms(1) by (simp add: c code_value_def shr_div)
qed

text \<open>What both lookups see: the codeword at the front of the reservoir's value.\<close>

lemma lookup:
  fixes b :: bits
  assumes t: "carries t C" and C: "(cw, s) \<in> C" and v: "cw = bits_of_nat (length cw) (bvalue b)"
  shows "decode_fast t b = (s, drop_bits (length cw) b)"
    and "try_decode t b = (if length cw \<le> bcount b then (Some s, drop_bits (length cw) b) else (None, b))"
proof -
  let ?v = "bvalue b"
  define e where "e = root t ! (?v AND (ROOT_SIZE - 1))"
  have low: "?v AND (ROOT_SIZE - 1) = ?v mod 2 ^ ROOT_BITS" unfolding ROOT_SIZE_def by (rule AND_mask_nat)
  have lt: "?v mod 2 ^ ROOT_BITS < ROOT_SIZE" by (simp add: ROOT_SIZE_def)
  have "decode_fast t b = (s, drop_bits (length cw) b) \<and>
    try_decode t b = (if length cw \<le> bcount b then (Some s, drop_bits (length cw) b) else (None, b))"
  proof (cases "length cw \<le> ROOT_BITS")
    case True
    then have "prefix cw (bits_of_nat ROOT_BITS (?v mod 2 ^ ROOT_BITS))"
      unfolding prefix_bits_of_nat using v by (simp flip: take_bit_eq_mod)
    then have "code_bits e = length cw" "code_value e = s"
      using t [unfolded carries_def carries_in_def, rule_format, OF C] lt
      unfolding if_P [OF True] e_def low by blast+
    then show ?thesis using True
      unfolding decode_fast_def try_decode_def Let_def e_def [symmetric] by auto
  next
    case False
    define w where "w = code_bits e - ROOT_BITS"
    define i where "i = take_bit w (drop_bit ROOT_BITS ?v)"
    have "take ROOT_BITS cw = bits_of_nat ROOT_BITS ?v"
      using False v take_bits_of_nat [of ROOT_BITS "length cw" ?v] by simp
    then have lw: "nat_of_bits (take ROOT_BITS cw) = ?v AND (ROOT_SIZE - 1)"
      unfolding low by (simp add: nat_of_bits_of_nat take_bit_eq_mod)
    have e: "ROOT_BITS < code_bits e" "length cw \<le> code_bits e"
      and sub: "\<And>i. i < 2 ^ w \<Longrightarrow> prefix (drop ROOT_BITS cw) (bits_of_nat w i) \<Longrightarrow>
        ROOT_BITS + code_bits (second t ! (code_value e + i)) = length cw \<and>
        code_value (second t ! (code_value e + i)) = s"
      using t [unfolded carries_def carries_in_def, rule_format, OF C]
      unfolding if_not_P [OF False] Let_def lw w_def e_def by blast+
    have "drop ROOT_BITS cw = bits_of_nat (length cw - ROOT_BITS) (drop_bit ROOT_BITS ?v)"
      using v drop_bits_of_nat [of ROOT_BITS "length cw" ?v] by simp
    then have "prefix (drop ROOT_BITS cw) (bits_of_nat w i)"
      unfolding prefix_bits_of_nat using e False by (simp add: i_def w_def)
    moreover have "i < 2 ^ w" by (simp add: i_def)
    ultimately have s: "ROOT_BITS + code_bits (second t ! (code_value e + i)) = length cw"
      "code_value (second t ! (code_value e + i)) = s"
      using sub by blast+
    have i: "shr ?v ROOT_BITS AND bit_mask (code_bits e - ROOT_BITS) = i" by (simp add: i_def w_def shr_def)
    have d: "drop_bits (code_bits (second t ! (code_value e + i))) (drop_bits ROOT_BITS b) = drop_bits (length cw) b"
      using s(1) by (simp add: drop_bits_def shr_def drop_bit_drop_bit add.commute flip: s(1))
    show ?thesis
      using e s d False unfolding decode_fast_def try_decode_def Let_def i e_def [symmetric]
      by (auto simp: i simp del: AND_bit_mask)
  qed
  then show "decode_fast t b = (s, drop_bits (length cw) b)"
    and "try_decode t b = (if length cw \<le> bcount b then (Some s, drop_bits (length cw) b) else (None, b))"
    by blast+
qed

text \<open>
  What a symbol read does to a reader: it takes the codeword at the front of the stream, or there
  is none and it stalls with the stream unchanged.
\<close>

definition reads_symbol :: "(bool list \<times> nat) set \<Rightarrow> reader \<Rightarrow> (decode_error + nat option) \<times> reader \<Rightarrow> bool" where
  "reads_symbol C s r \<longleftrightarrow> reader_ok (snd r) \<and> same_call s (snd r) \<and>
     ((\<exists>cw v. (cw, v) \<in> C \<and> stream s = cw @ stream (snd r) \<and> fst r = Inr (Some v)) \<or>
      (\<forall>cw v. (cw, v) \<in> C \<longrightarrow> \<not> prefix cw (stream s)) \<and> fst r = stall (starved s) \<and> stream (snd r) = stream s)"

lemma reads_symbolD:
  assumes "reads_symbol C s r" "prefix_code C"
  shows "(cw, v) \<in> C \<Longrightarrow> stream s = cw @ rest \<Longrightarrow> fst r = Inr (Some v) \<and> stream (snd r) = rest"
    and "fst r = Inr (Some v) \<Longrightarrow> \<exists>cw. (cw, v) \<in> C \<and> stream s = cw @ stream (snd r)"
    and "reader_ok (snd r)" "same_call s (snd r)"
proof -
  show "reader_ok (snd r)" "same_call s (snd r)" using assms(1) by (simp_all add: reads_symbol_def)
  show "fst r = Inr (Some v) \<Longrightarrow> \<exists>cw. (cw, v) \<in> C \<and> stream s = cw @ stream (snd r)"
    using assms(1) by (auto simp: reads_symbol_def)
  assume C: "(cw, v) \<in> C" "stream s = cw @ rest"
  then have "prefix cw (stream s)" by simp
  then obtain cw' v' where c': "(cw', v') \<in> C" "stream s = cw' @ stream (snd r)" "fst r = Inr (Some v')"
    using assms(1) C(1) unfolding reads_symbol_def by blast
  have "cw' = cw" "v' = v"
    using prefix_code_unique [OF assms(2) c'(1) C(1), of "stream s"] \<open>prefix cw (stream s)\<close>
    unfolding prefix_def using c'(2) by blast+
  then show "fst r = Inr (Some v) \<and> stream (snd r) = rest" using c' C by simp
qed

lemma codeword_of_value:
  assumes "prefix_code C"
  obtains cw s where "(cw, s) \<in> C" "cw = bits_of_nat (length cw) v" "length cw \<le> MAX_LENGTH"
  using prefix_codeD(3) [OF assms, of "bits_of_nat MAX_LENGTH v"] prefix_codeD(2) [OF assms] that
  unfolding prefix_bits_of_nat by auto

lemma codeword_in_stream:
  assumes ok: "reader_ok s" and n: "length cw \<le> buffered s"
  shows "prefix cw (stream s) \<longleftrightarrow> cw = bits_of_nat (length cw) (bvalue (fst s))"
proof -
  have "take (length cw) (stream s) = bits_of_nat (length cw) (bvalue (fst s))"
    using n by (simp add: stream_def buffered_def take_bits_of_nat)
  moreover have "length cw \<le> length (stream s)" using n buffered_le_stream [of s] by linarith
  ultimately show ?thesis by (metis append_eq_conv_conj prefix_def take_is_prefix)
qed

lemma take_codeword:
  assumes ok: "reader_ok (b, i)" and C: "(cw, v) \<in> C" "cw = bits_of_nat (length cw) (bvalue b)" and n: "length cw \<le> bcount b"
  shows "reads_symbol C (b, i) (Inr (Some v), drop_bits (length cw) b, i)"
proof -
  have n': "length cw \<le> buffered (b, i)" using n by (simp add: buffered_def)
  have d: "(drop_bits (length cw) b, i) = discard (length cw) (b, i)" by (simp add: discard_def)
  have "prefix cw (stream (b, i))" using codeword_in_stream [OF ok n'] C(2) by simp
  then have "stream (b, i) = cw @ stream (discard (length cw) (b, i))"
    unfolding discard_stream [OF n'] by (auto simp: prefix_def)
  then show ?thesis
    unfolding reads_symbol_def d using discard_ok [OF ok n'] C(1) by auto
qed

lemma decode_reads:
  assumes "reader_ok s" "prefix_code C" "carries t C"
  shows "reads_symbol C s (decode t s)"
  using assms
proof (induction t s rule: decode.induct)
  case (1 t b i)
  note ok = "1.prems"(1) and pc = "1.prems"(2) and t = "1.prems"(3)
  obtain cw v where C: "(cw, v) \<in> C" "cw = bits_of_nat (length cw) (bvalue b)" "length cw \<le> MAX_LENGTH"
    by (rule codeword_of_value [OF pc])
  note look = lookup(2) [OF t C(1,2)]
  show ?case
  proof (cases "length cw \<le> bcount b")
    case True
    then have "decode t (b, i) = (Inr (Some v), drop_bits (length cw) b, i)"
      by (subst decode.simps) (simp add: look)
    with take_codeword [OF ok C(1,2) True] show ?thesis by simp
  next
    case False
    then have tr: "try_decode t b = (None, b)" by (simp add: look)
    have iok: "input_ok i" using ok by (simp add: reader_ok_def)
    show ?thesis
    proof (cases "consumed i < fast_end i")
      case True
      obtain b' i' where ld: "load_byte (b, i) = (Inr True, b', i')"
        using load_byte_succeeds [OF iok True] by blast
      have "bcount b \<le> 56" using False C(3) by (simp add: MAX_LENGTH_def)
      note st = load_byte_stream [OF ok this True ld]
      have sc: "same_call (b, i) (b', i')" using st(4) by (simp add: same_call_def)
      have "decode t (b, i) = decode t (b', i')" using tr ld by (subst decode.simps) simp
      moreover have "reads_symbol C (b', i') (decode t (b', i'))"
        by (rule "1.IH" [OF tr [symmetric] refl ld [symmetric] refl refl st(1) pc t])
      ultimately show ?thesis
        using sc unfolding reads_symbol_def st(2) same_call_starved [OF sc] by (auto dest: same_call_trans)
    next
      case dry: False
      with iok have e: "consumed i = fast_end i" by (simp add: input_ok_def)
      have st: "stream (b, i) = bits_of_nat (bcount b) (bvalue b)"
        using acceptable_end [OF e iok] by (simp add: stream_def)
      have "decode t (b, i) = (stall (starved (b, i)), b, i)"
        using tr load_byte_fails [OF iok e, of b] by (subst decode.simps) (auto split: option.splits)
      moreover have "\<not> prefix cw' (stream (b, i))" if "(cw', v') \<in> C" for cw' v'
      proof
        assume p: "prefix cw' (stream (b, i))"
        then have "cw' = bits_of_nat (length cw') (bvalue b)" "length cw' \<le> bcount b"
          unfolding st prefix_bits_of_nat by simp_all
        moreover have "prefix cw' (bits_of_nat MAX_LENGTH (bvalue b))" "prefix cw (bits_of_nat MAX_LENGTH (bvalue b))"
          using C(2,3) prefix_codeD(2) [OF pc that] calculation(1) unfolding prefix_bits_of_nat by blast+
        ultimately show False using prefix_code_unique(1) [OF pc that C(1)] False by blast
      qed
      ultimately show ?thesis using ok unfolding reads_symbol_def by auto
    qed
  qed
qed

lemma decode_fast_reads:
  assumes "reader_ok s" "prefix_code C" "carries t C" "MAX_LENGTH \<le> buffered s"
  shows "reads_symbol C s (case decode_fast t (fst s) of (v, b') \<Rightarrow> (Inr (Some v), b', snd s))"
proof -
  obtain b i where s: "s = (b, i)" by (cases s)
  obtain cw v where C: "(cw, v) \<in> C" "cw = bits_of_nat (length cw) (bvalue b)" "length cw \<le> MAX_LENGTH"
    by (rule codeword_of_value [OF assms(2)])
  have "length cw \<le> bcount b" using C(3) assms(4) by (simp add: s buffered_def)
  from take_codeword [OF assms(1) [unfolded s] C(1,2) this] show ?thesis
    by (simp add: s lookup(1) [OF assms(3) C(1,2)])
qed

lemma decode_refilling_reads:
  assumes "reader_ok s" "prefix_code C" "carries t C"
  shows "reads_symbol C s (decode_refilling t s)"
proof (cases "MAX_LENGTH \<le> buffered s")
  case True
  then have "decode_refilling t s = (case decode_fast t (fst s) of (v, b') \<Rightarrow> (Inr (Some v), b', snd s))"
    by (simp add: decode_refilling_def buffered_def)
  with decode_fast_reads [OF assms True] show ?thesis by simp
next
  case False
  obtain r s' where rf: "refill s = (r, s')" by (cases "refill s")
  have "buffered s < 64" using False by (simp add: MAX_LENGTH_def)
  note st = refill_stream [OF assms(1) this rf]
  have dr: "decode_refilling t s = (if r then (case decode_fast t (fst s') of (v, b') \<Rightarrow> (Inr (Some v), b', snd s')) else decode t s')"
    using False by (simp add: decode_refilling_def buffered_def rf)
  have "reads_symbol C s' (decode_refilling t s)"
  proof (cases r)
    case True
    then have "MAX_LENGTH \<le> buffered s'" using st(4) by (simp add: MAX_PEEK_def MAX_LENGTH_def)
    with decode_fast_reads [OF st(1) assms(2,3) this] show ?thesis by (simp add: dr True)
  next
    case False
    with decode_reads [OF st(1) assms(2,3)] show ?thesis by (simp add: dr)
  qed
  then show ?thesis
    using st(3) unfolding reads_symbol_def st(2) same_call_starved [OF st(3)] by (auto dest: same_call_trans)
qed

section \<open>The interface of symbol readers\<close>

text \<open>
  What the header parsers rely on: a decoder of table symbols reads one codeword of any code its
  table carries. The byte-exact and the refilling decoder provide it, and so does the reader of
  code-length symbols.
\<close>

locale symbol_decoder =
  fixes dec :: "'t \<Rightarrow> reader \<Rightarrow> (decode_error + nat option) \<times> reader"
    and holds :: "'t \<Rightarrow> (bool list \<times> nat) set \<Rightarrow> bool"
  assumes dec_reads: "reader_ok s \<Longrightarrow> prefix_code C \<Longrightarrow> holds t C \<Longrightarrow> reads_symbol C s (dec t s)"
begin

lemma need_symbol:
  assumes "reader_ok s" "prefix_code C" "holds t C" "(cw, v) \<in> C" "stream s = cw @ rest"
  obtains s' where "\<And>k. need (dec t s) k = k v s'" "dec t s = (Inr (Some v), s')" "reader_ok s'" "stream s' = rest" "same_call s s'"
proof -
  obtain r s' where d: "dec t s = (r, s')" by (cases "dec t s")
  note rd = reads_symbolD [OF dec_reads [OF assms(1-3)] assms(2), unfolded d fst_conv snd_conv]
  show thesis
    using rd(1) [OF assms(4,5)] rd(3,4) d by (intro that [of s']) simp_all
qed

lemma need_symbol_result:
  assumes "reader_ok s" "prefix_code C" "holds t C" "need (dec t s) k = (Inr (Some x), s'')"
  obtains cw v s' where "(cw, v) \<in> C" "stream s = cw @ stream s'" "reader_ok s'" "same_call s s'"
    "k v s' = (Inr (Some x), s'')" "dec t s = (Inr (Some v), s')"
proof -
  obtain r s' where d: "dec t s = (r, s')" by (cases "dec t s")
  note rd = reads_symbolD [OF dec_reads [OF assms(1-3)] assms(2), unfolded d fst_conv snd_conv]
  have nk: "need (r, s') k = (Inr (Some x), s'')" using assms(4) d by simp
  obtain v where r: "r = Inr (Some v)" "k v s' = (Inr (Some x), s'')"
  proof (cases r)
    case (Inr w)
    then show thesis using that nk by (cases w) simp_all
  qed (use nk in simp)
  then show thesis using rd(2) [of v] rd(3,4) d that by blast
qed

end

interpretation exact: symbol_decoder decode carries
  by unfold_locales (rule decode_reads)

interpretation refilling: symbol_decoder decode_refilling carries
  by unfold_locales (rule decode_refilling_reads)

end
