(* ===== verification/Canonical.thy ===== *)
theory Canonical
  imports Prefix_Table
begin

unbundle bit_operations_syntax

text \<open>
  Canonical prefix codes, the specification shared by the decoder's tables and the encoder's
  codes. A code is given by the symbols of each length, \<open>L l\<close> in increasing order; its
  codewords of length \<open>l\<close> count up from \<open>first_code L l\<close>, most significant bit first,
  and \<open>complete L\<close> is Kraft's equality. The main lemma is that a complete canonical code is a
  prefix code.
\<close>

fun first_code :: "(nat \<Rightarrow> nat list) \<Rightarrow> nat \<Rightarrow> nat" where
  "first_code L 0 = 0"
| "first_code L (Suc 0) = 0"
| "first_code L (Suc (Suc l)) = 2 * (first_code L (Suc l) + length (L (Suc l)))"

definition used_codes :: "(nat \<Rightarrow> nat list) \<Rightarrow> nat \<Rightarrow> nat" where
  "used_codes L l = (if l = 0 then 0 else first_code L l + length (L l))"

definition codeword :: "nat \<Rightarrow> nat \<Rightarrow> bool list" where
  "codeword l c = rev (bits_of_nat l c)"

definition canonical :: "(nat \<Rightarrow> nat list) \<Rightarrow> (bool list \<times> nat) set" where
  "canonical L = {(codeword l (first_code L l + j), L l ! j) | l j. 1 \<le> l \<and> l \<le> MAX_LENGTH \<and> j < length (L l)}"

definition fits :: "(nat \<Rightarrow> nat list) \<Rightarrow> bool" where
  "fits L \<longleftrightarrow> (\<forall>l\<le>MAX_LENGTH. used_codes L l \<le> 2 ^ l)"

definition complete :: "(nat \<Rightarrow> nat list) \<Rightarrow> bool" where
  "complete L \<longleftrightarrow> used_codes L MAX_LENGTH = 2 ^ MAX_LENGTH"

lemma first_code_Suc [simp]: "first_code L (Suc l) = 2 * used_codes L l"
  by (cases l) (simp_all add: used_codes_def)

declare first_code.simps(3) [simp del]

lemma used_codes_Suc [simp]: "used_codes L (Suc l) = 2 * used_codes L l + length (L (Suc l))"
  by (simp add: used_codes_def)

lemma used_codes_0 [simp]: "used_codes L 0 = 0"
  by (simp add: used_codes_def)

lemma used_codes_first: "1 \<le> l \<Longrightarrow> used_codes L l = first_code L l + length (L l)"
  by (simp add: used_codes_def)

lemma used_codes_grow: "used_codes L l * 2 ^ d \<le> used_codes L (l + d)"
  by (induction d) (auto simp: mult.assoc intro: le_trans [OF mult_le_mono2])

lemma used_below_first: "l < l' \<Longrightarrow> used_codes L l * 2 ^ (l' - l) \<le> first_code L l'"
proof -
  assume "l < l'"
  then obtain d where "l' = Suc (l + d)" using less_imp_Suc_add by blast
  then show ?thesis using used_codes_grow [of L l d] by (simp add: Suc_diff_le mult.assoc)
qed

lemma complete_fits: "complete L \<Longrightarrow> fits L"
  unfolding complete_def fits_def
proof (intro allI impI)
  fix l assume c: "used_codes L MAX_LENGTH = 2 ^ MAX_LENGTH" and l: "l \<le> MAX_LENGTH"
  then have "used_codes L l * 2 ^ (MAX_LENGTH - l) \<le> 2 ^ MAX_LENGTH"
    using used_codes_grow [of L l "MAX_LENGTH - l"] by simp
  also have "(2::nat) ^ MAX_LENGTH = 2 ^ l * 2 ^ (MAX_LENGTH - l)"
    using l by (simp flip: power_add)
  finally show "used_codes L l \<le> 2 ^ l" by simp
qed

lemma code_less:
  assumes "fits L" "1 \<le> l" "l \<le> MAX_LENGTH" "j < length (L l)"
  shows "first_code L l + j < 2 ^ l"
  using assms unfolding fits_def by (metis used_codes_first nat_add_left_cancel_less order_less_le_trans)

lemma length_codeword [simp]: "length (codeword l c) = l"
  by (simp add: codeword_def)

lemma codeword_split: "l \<le> m \<Longrightarrow> codeword m c = codeword l (c div 2 ^ (m - l)) @ rev (bits_of_nat (m - l) c)"
  using bits_of_nat_add [of "m - l" l c] by (simp add: codeword_def drop_bit_eq_div)

lemma take_codeword_eq: "l \<le> m \<Longrightarrow> take l (codeword m c) = codeword l (c div 2 ^ (m - l))"
  by (simp add: codeword_split)

lemma codeword_inj: "codeword l c = codeword l c' \<longleftrightarrow> c mod 2 ^ l = c' mod 2 ^ l"
  by (metis codeword_def nat_of_bits_of_nat rev_rev_ident take_bit_eq_mod bits_of_nat_take_bit order_refl)

lemma prefix_codeword:
  assumes "c < 2 ^ l" "c' < 2 ^ m"
  shows "prefix (codeword l c) (codeword m c') \<longleftrightarrow> l \<le> m \<and> c = c' div 2 ^ (m - l)"
proof (cases "l \<le> m")
  case True
  have "c' < 2 ^ (m - l) * 2 ^ l" using assms(2) True by (simp flip: power_add)
  then have lt: "c' div 2 ^ (m - l) < 2 ^ l" by (simp add: less_mult_imp_div_less mult.commute)
  have "prefix (codeword l c) (codeword m c') \<longleftrightarrow> codeword l c = codeword l (c' div 2 ^ (m - l))"
    using take_codeword_eq [OF True, of c'] True
    by (metis append_eq_conv_conj length_codeword prefix_def take_is_prefix)
  then show ?thesis using True assms(1) lt by (simp add: codeword_inj)
next
  case False
  then show ?thesis using prefix_length_le [of "codeword l c" "codeword m c'"] by auto
qed

lemma codeword_surj:
  assumes "length xs = n" obtains c where "c < 2 ^ n" "xs = codeword n c"
proof
  show "nat_of_bits (rev xs) < 2 ^ n" using assms nat_of_bits_less [of "rev xs"] by simp
  show "xs = codeword n (nat_of_bits (rev xs))"
    using bits_of_nat_of_bits [of "rev xs"] assms by (simp add: codeword_def)
qed

lemma bits_of_nat_codeword: "\<exists>c<2 ^ n. bits_of_nat n i = codeword n c"
  using codeword_surj [of "bits_of_nat n i" n] by (metis length_bits_of_nat)

text \<open>Codes of different lengths do not overlap.\<close>

lemma code_intervals:
  assumes "1 \<le> l" "j < length (L l)" "l < m"
  shows "first_code L l + j < first_code L m div 2 ^ (m - l)"
proof -
  have "first_code L l + j < used_codes L l" using assms by (simp add: used_codes_first)
  also have "\<dots> = used_codes L l * 2 ^ (m - l) div 2 ^ (m - l)" by simp
  also have "\<dots> \<le> first_code L m div 2 ^ (m - l)" by (rule div_le_mono) (rule used_below_first [OF assms(3)])
  finally show ?thesis .
qed

lemma canonical_prefix_free:
  assumes "fits L" "(cw, s) \<in> canonical L" "(cw', s') \<in> canonical L" "prefix cw cw'"
  shows "cw = cw' \<and> s = s'"
proof -
  obtain l j where cw: "cw = codeword l (first_code L l + j)" "s = L l ! j" and l: "1 \<le> l" "l \<le> MAX_LENGTH" "j < length (L l)"
    using assms(2) by (auto simp: canonical_def)
  obtain m k where cw': "cw' = codeword m (first_code L m + k)" "s' = L m ! k" and m: "1 \<le> m" "m \<le> MAX_LENGTH" "k < length (L m)"
    using assms(3) by (auto simp: canonical_def)
  have p: "l \<le> m" "first_code L l + j = (first_code L m + k) div 2 ^ (m - l)"
    using assms(4) prefix_codeword [OF code_less [OF assms(1) l] code_less [OF assms(1) m]] by (auto simp: cw cw')
  show ?thesis
  proof (cases "l = m")
    case True
    with p show ?thesis by (simp add: cw cw')
  next
    case False
    then have "first_code L l + j < first_code L m div 2 ^ (m - l)"
      using code_intervals [of l j L m] l(1,3) p(1) by simp
    also have "\<dots> \<le> (first_code L m + k) div 2 ^ (m - l)" by (rule div_le_mono) simp
    finally show ?thesis using p(2) by simp
  qed
qed

lemma canonicalI:
  "1 \<le> l \<Longrightarrow> l \<le> MAX_LENGTH \<Longrightarrow> j < length (L l) \<Longrightarrow> (codeword l (first_code L l + j), L l ! j) \<in> canonical L"
  unfolding canonical_def by blast

lemma canonical_covers:
  assumes "complete L" "length xs = MAX_LENGTH"
  shows "\<exists>cw s. (cw, s) \<in> canonical L \<and> prefix cw xs"
proof -
  obtain c where c: "c < 2 ^ MAX_LENGTH" "xs = codeword MAX_LENGTH c"
    by (rule codeword_surj [OF assms(2)])
  define l where "l = (LEAST l. c div 2 ^ (MAX_LENGTH - l) < used_codes L l)"
  have ex: "c div 2 ^ (MAX_LENGTH - MAX_LENGTH) < used_codes L MAX_LENGTH" using c(1) assms(1) by (simp add: complete_def)
  have l: "c div 2 ^ (MAX_LENGTH - l) < used_codes L l" unfolding l_def by (rule LeastI) (rule ex)
  have le: "l \<le> MAX_LENGTH" unfolding l_def by (rule Least_le) (rule ex)
  have "l \<noteq> 0" using l by (cases l) simp_all
  then obtain k where k: "l = Suc k" by (cases l) simp_all
  have "\<not> c div 2 ^ (MAX_LENGTH - k) < used_codes L k"
    unfolding l_def by (rule not_less_Least [of k "\<lambda>l. c div 2 ^ (MAX_LENGTH - l) < used_codes L l", folded l_def]) (simp add: k)
  moreover have "c div 2 ^ (MAX_LENGTH - k) = c div 2 ^ (MAX_LENGTH - l) div 2"
  proof -
    have "MAX_LENGTH - k = Suc (MAX_LENGTH - l)" using le k by simp
    then have "(2::nat) ^ (MAX_LENGTH - k) = 2 ^ (MAX_LENGTH - l) * 2" by simp
    then show ?thesis by (simp only: div_mult2_eq)
  qed
  ultimately have lo: "first_code L l \<le> c div 2 ^ (MAX_LENGTH - l)" by (simp add: k)
  define j where "j = c div 2 ^ (MAX_LENGTH - l) - first_code L l"
  have j: "j < length (L l)" "first_code L l + j = c div 2 ^ (MAX_LENGTH - l)"
    using l lo k used_codes_first [of l L] by (simp_all add: j_def)
  have "(codeword l (first_code L l + j), L l ! j) \<in> canonical L" using k j(1) le by (intro canonicalI) simp_all
  moreover have "prefix (codeword l (first_code L l + j)) xs"
    using codeword_split [OF le, of c] unfolding j(2) c(2) by (simp add: prefix_def)
  ultimately show ?thesis by blast
qed

lemma canonical_prefix_code: "complete L \<Longrightarrow> prefix_code (canonical L)"
  unfolding prefix_code_def
proof (intro conjI allI impI)
  fix cw s assume "(cw, s) \<in> canonical L"
  then show "length cw \<le> MAX_LENGTH" by (auto simp: canonical_def)
qed (use canonical_prefix_free [OF complete_fits] canonical_covers in blast)+

text \<open>A code of one symbol is read without any bits.\<close>

lemma single_prefix_code: "prefix_code {([], s)}"
  by (auto simp: prefix_code_def)

text \<open>The symbols of each length of a list of lengths, in increasing order.\<close>

definition symbols_of :: "nat list \<Rightarrow> nat \<Rightarrow> nat list" where
  "symbols_of ds l = filter (\<lambda>s. ds ! s = l) [0..<length ds]"

lemma set_symbols_of: "set (symbols_of ds l) = {s. s < length ds \<and> ds ! s = l}"
  by (auto simp: symbols_of_def)

lemma sorted_symbols_of: "sorted_wrt (<) (symbols_of ds l)"
  by (simp add: symbols_of_def sorted_wrt_filter)

end
