(* ===== verification/Symbol_Lists.thy ===== *)
theory Symbol_Lists
  imports Canonical
begin

text \<open>
  The \<open>Builder\<close> of \<open>decompressor/core/huffman.rs\<close>: its state and the intrusive lists
  it keeps of the symbols of each code length. \<open>push\<close> appends one symbol, \<open>push_run\<close> a
  run of consecutive ones. \<open>lists_ok b L\<close> says that the arrays represent the lists \<open>L\<close>;
  \<open>walk\<close> is the traversal \<open>while symbol != NONE\<close>, with fuel, and \<open>walk_list\<close> shows that
  a walk of as many steps as the alphabet has symbols reaches the end of the list.
\<close>

section \<open>State and operations\<close>

definition NONE :: nat where "NONE = 2 ^ 16 - 1"

datatype builder_stage = Start | SimpleCount | SimpleSymbols | SimpleShape | CodeLengths | Symbols | Repeat nat

record builder =
  b_stage :: builder_stage
  b_next :: "nat list"
  b_head :: "nat list"
  b_tail :: "nat list"
  b_counts :: "nat list"
  b_total :: nat
  b_last :: nat
  b_small :: "nat list"
  b_code :: "code list"
  b_symbols :: "nat list"
  b_count :: nat
  b_index :: nat
  b_space :: int
  b_previous :: nat
  b_repeat_length :: nat
  b_repeat :: nat

definition builder_default :: builder where
  "builder_default =
     \<lparr>b_stage = Start, b_next = replicate MAX_ALPHABET NONE, b_head = replicate (MAX_LENGTH + 1) NONE,
      b_tail = replicate (MAX_LENGTH + 1) NONE, b_counts = replicate (MAX_LENGTH + 1) 0, b_total = 0, b_last = 0,
      b_small = replicate 18 0, b_code = replicate 32 0, b_symbols = replicate 4 0, b_count = 0, b_index = 0,
      b_space = 0, b_previous = 8, b_repeat_length = 0, b_repeat = 0\<rparr>"

definition builder_reset :: "builder \<Rightarrow> builder" where
  "builder_reset b = b\<lparr>b_stage := Start\<rparr>"

definition clear :: "builder \<Rightarrow> builder" where
  "clear b = b\<lparr>b_head := replicate (MAX_LENGTH + 1) NONE, b_tail := replicate (MAX_LENGTH + 1) NONE,
     b_counts := replicate (MAX_LENGTH + 1) 0, b_total := 0, b_last := 0\<rparr>"

definition push :: "nat \<Rightarrow> nat \<Rightarrow> builder \<Rightarrow> builder" where
  "push symbol len b =
     (let previous = b_tail b ! len;
          b1 = (if previous = NONE then b\<lparr>b_head := (b_head b)[len := take_bit 16 symbol]\<rparr>
                else b\<lparr>b_next := (b_next b)[previous := take_bit 16 symbol]\<rparr>)
      in b1\<lparr>b_next := (b_next b1)[symbol := NONE],
            b_tail := (b_tail b1)[len := take_bit 16 symbol],
            b_counts := (b_counts b1)[len := b_counts b1 ! len + 1],
            b_total := b_total b1 + 1,
            b_last := symbol\<rparr>)"

definition link_run :: "nat \<Rightarrow> nat \<Rightarrow> nat list \<Rightarrow> nat list" where
  "link_run start end links =
     foldl (\<lambda>links i. links[start + i := take_bit 16 (start + i + 1)]) links [0..<end - 1 - start]"

definition push_run :: "nat \<Rightarrow> nat \<Rightarrow> nat \<Rightarrow> builder \<Rightarrow> builder" where
  "push_run start end len b =
     (let links = (link_run start end (b_next b))[end - 1 := NONE];
          previous = b_tail b ! len;
          b1 = (if previous = NONE then b\<lparr>b_next := links, b_head := (b_head b)[len := take_bit 16 start]\<rparr>
                else b\<lparr>b_next := links[previous := take_bit 16 start]\<rparr>)
      in b1\<lparr>b_tail := (b_tail b1)[len := take_bit 16 (end - 1)],
            b_counts := (b_counts b1)[len := b_counts b1 ! len + take_bit 16 (end - start)],
            b_total := b_total b1 + (end - start),
            b_last := end - 1\<rparr>)"

fun walk :: "nat \<Rightarrow> nat list \<Rightarrow> nat \<Rightarrow> nat list" where
  "walk 0 links symbol = []"
| "walk (Suc fuel) links symbol =
     (if symbol = NONE then [] else symbol # walk fuel links (links ! symbol))"

definition symbols_at :: "builder \<Rightarrow> nat \<Rightarrow> nat list" where
  "symbols_at b len = walk MAX_ALPHABET (b_next b) (b_head b ! len)"

section \<open>The lists the arrays represent\<close>

definition linked :: "nat list \<Rightarrow> nat list \<Rightarrow> bool" where
  "linked links xs \<longleftrightarrow>
     (\<forall>j<length xs. links ! (xs ! j) = (if Suc j < length xs then xs ! Suc j else NONE))"

definition first_or_none :: "nat list \<Rightarrow> nat" where
  "first_or_none xs = (if xs = [] then NONE else hd xs)"

definition last_or_none :: "nat list \<Rightarrow> nat" where
  "last_or_none xs = (if xs = [] then NONE else last xs)"

definition lists_ok :: "builder \<Rightarrow> (nat \<Rightarrow> nat list) \<Rightarrow> bool" where
  "lists_ok b L \<longleftrightarrow>
     length (b_next b) = MAX_ALPHABET \<and> length (b_head b) = MAX_LENGTH + 1 \<and>
     length (b_tail b) = MAX_LENGTH + 1 \<and> length (b_counts b) = MAX_LENGTH + 1 \<and>
     (\<forall>l\<le>MAX_LENGTH. linked (b_next b) (L l) \<and> b_head b ! l = first_or_none (L l) \<and>
        b_tail b ! l = last_or_none (L l) \<and> b_counts b ! l = length (L l) \<and> sorted_wrt (<) (L l) \<and>
        (\<forall>s\<in>set (L l). s < MAX_ALPHABET)) \<and>
     (\<forall>l\<le>MAX_LENGTH. \<forall>m\<le>MAX_LENGTH. l \<noteq> m \<longrightarrow> set (L l) \<inter> set (L m) = {}) \<and>
     b_total b = (\<Sum>l\<le>MAX_LENGTH. length (L l))"

lemma lists_okD:
  assumes "lists_ok b L"
  shows "length (b_next b) = MAX_ALPHABET" "length (b_head b) = MAX_LENGTH + 1"
    "length (b_tail b) = MAX_LENGTH + 1" "length (b_counts b) = MAX_LENGTH + 1"
    and "l \<le> MAX_LENGTH \<Longrightarrow> linked (b_next b) (L l)" "l \<le> MAX_LENGTH \<Longrightarrow> b_head b ! l = first_or_none (L l)"
    "l \<le> MAX_LENGTH \<Longrightarrow> b_tail b ! l = last_or_none (L l)" "l \<le> MAX_LENGTH \<Longrightarrow> b_counts b ! l = length (L l)"
    "l \<le> MAX_LENGTH \<Longrightarrow> sorted_wrt (<) (L l)" "l \<le> MAX_LENGTH \<Longrightarrow> s \<in> set (L l) \<Longrightarrow> s < MAX_ALPHABET"
    and "l \<le> MAX_LENGTH \<Longrightarrow> m \<le> MAX_LENGTH \<Longrightarrow> l \<noteq> m \<Longrightarrow> s \<in> set (L l) \<Longrightarrow> s \<notin> set (L m)"
    and "b_total b = (\<Sum>l\<le>MAX_LENGTH. length (L l))"
  using assms unfolding lists_ok_def by (blast+)

lemma MAX_ALPHABET_NONE: "MAX_ALPHABET < NONE" "NONE < 2 ^ 16"
  by (simp_all add: MAX_ALPHABET_def NONE_def)

lemma symbol_u16: "s < MAX_ALPHABET \<Longrightarrow> take_bit 16 s = s"
  using MAX_ALPHABET_NONE by (intro take_bit_nat_eq_self) linarith

lemma symbol_not_none: "s < MAX_ALPHABET \<Longrightarrow> s \<noteq> NONE"
  using MAX_ALPHABET_NONE by auto

lemma walk_linked:
  assumes "linked links xs" "j \<le> length xs" "\<forall>s\<in>set xs. s \<noteq> NONE" "length xs - j \<le> fuel"
  shows "walk fuel links (if j < length xs then xs ! j else NONE) = drop j xs"
  using assms
proof (induction fuel arbitrary: j)
  case (Suc fuel)
  show ?case
  proof (cases "j < length xs")
    case True
    then have "links ! (xs ! j) = (if Suc j < length xs then xs ! Suc j else NONE)"
      using Suc.prems(1) by (simp add: linked_def)
    moreover have "walk fuel links (if Suc j < length xs then xs ! Suc j else NONE) = drop (Suc j) xs"
      using Suc.prems True by (intro Suc.IH) auto
    ultimately show ?thesis using True Suc.prems(3) by (simp add: Cons_nth_drop_Suc)
  qed simp
qed auto

lemma length_sorted_bounded:
  assumes "sorted_wrt (<) xs" "\<forall>s\<in>set xs. s < n" shows "length xs \<le> (n :: nat)"
proof -
  have "distinct xs" using assms(1) strict_sorted_iff by blast
  then have "length xs = card (set xs)" by (simp add: distinct_card)
  also have "\<dots> \<le> card {..<n}" by (rule card_mono) (use assms(2) in auto)
  finally show ?thesis by simp
qed

lemma walk_list:
  assumes "lists_ok b L" "l \<le> MAX_LENGTH"
  shows "symbols_at b l = L l"
proof -
  note ok = lists_okD [OF assms(1)]
  have "length (L l) \<le> MAX_ALPHABET"
    using ok(9,10) assms(2) by (intro length_sorted_bounded) auto
  moreover have "\<forall>s\<in>set (L l). s \<noteq> NONE" using ok(10) assms(2) symbol_not_none by blast
  ultimately have "walk MAX_ALPHABET (b_next b) (if 0 < length (L l) then L l ! 0 else NONE) = drop 0 (L l)"
    using ok(5) assms(2) by (intro walk_linked) auto
  moreover have "b_head b ! l = (if 0 < length (L l) then L l ! 0 else NONE)"
    using ok(6) assms(2) by (simp add: first_or_none_def hd_conv_nth)
  ultimately show ?thesis by (simp add: symbols_at_def)
qed

lemma lists_ok_clear:
  assumes "length (b_next b) = MAX_ALPHABET" shows "lists_ok (clear b) (\<lambda>_. [])"
  using assms by (simp add: lists_ok_def clear_def linked_def first_or_none_def last_or_none_def nth_Cons split: nat.split)

lemma linked_append:
  assumes "linked links xs" "distinct (xs @ [s])" "\<forall>x\<in>set (xs @ [s]). x < length links"
  shows "linked ((if xs = [] then links else links[last xs := s])[s := NONE]) (xs @ [s])"
proof (cases "xs = []")
  case True
  then show ?thesis using assms(3) by (simp add: linked_def)
next
  case False
  then have l: "last xs = xs ! (length xs - 1)" "length xs > 0" by (simp_all add: last_conv_nth)
  have d: "xs ! i \<noteq> s" "i < length xs \<Longrightarrow> k < length xs \<Longrightarrow> xs ! i = xs ! k \<longleftrightarrow> i = k" if "i < length xs" for i k
    using assms(2) that nth_eq_iff_index_eq by auto
  show ?thesis unfolding linked_def
  proof (intro allI impI)
    fix j assume j: "j < length (xs @ [s])"
    consider "j = length xs" | "Suc j = length xs" | "Suc j < length xs" using j by fastforce
    then show "(if xs = [] then links else links[last xs := s])[s := NONE] ! ((xs @ [s]) ! j) =
        (if Suc j < length (xs @ [s]) then (xs @ [s]) ! Suc j else NONE)"
    proof cases
      case 1
      then show ?thesis using assms(3) False by (auto simp: nth_append nth_list_update)
    next
      case 2
      then have "xs ! j = last xs" "j < length xs" using l by (auto intro: arg_cong [of _ _ "nth xs"])
      then show ?thesis using 2 d(1) [of j] assms(3) False l by (auto simp: nth_append nth_list_update)
    next
      case 3
      then have "xs ! j \<noteq> last xs" using d(2) [of j "length xs - 1"] l by auto
      then show ?thesis using 3 d(1) [of j] assms(1) False by (simp add: nth_append linked_def nth_list_update)
    qed
  qed
qed

lemma linked_other:
  assumes "linked links ys" "\<And>x. x \<in> set ys \<Longrightarrow> links' ! x = links ! x"
  shows "linked links' ys"
  using assms by (simp add: linked_def)

lemma push_lists:
  assumes ok: "lists_ok b L" and l: "l \<le> MAX_LENGTH" and s: "s < MAX_ALPHABET"
    and fresh: "\<And>m. m \<le> MAX_LENGTH \<Longrightarrow> s \<notin> set (L m)" and above: "\<forall>x\<in>set (L l). x < s"
  shows "lists_ok (push s l b) (L(l := L l @ [s]))" "b_last (push s l b) = s"
proof -
  note o = lists_okD [OF ok]
  let ?L = "L(l := L l @ [s])"
  define links where "links = (if L l = [] then b_next b else (b_next b)[last (L l) := s])[s := NONE]"
  have tail: "b_tail b ! l = NONE \<longleftrightarrow> L l = []" "L l \<noteq> [] \<Longrightarrow> b_tail b ! l = last (L l)"
  proof -
    have "last (L l) \<noteq> NONE" if "L l \<noteq> []"
      using o(10) [OF l, of "last (L l)"] that symbol_not_none by simp
    then show "b_tail b ! l = NONE \<longleftrightarrow> L l = []" "L l \<noteq> [] \<Longrightarrow> b_tail b ! l = last (L l)"
      using o(7) [OF l] by (auto simp: last_or_none_def)
  qed
  have p: "b_next (push s l b) = links" "b_tail (push s l b) = (b_tail b)[l := s]"
    "b_head (push s l b) = (if L l = [] then (b_head b)[l := s] else b_head b)"
    "b_counts (push s l b) = (b_counts b)[l := b_counts b ! l + 1]"
    "b_total (push s l b) = b_total b + 1" "b_last (push s l b) = s"
    using tail by (auto simp: push_def Let_def links_def symbol_u16 [OF s])
  have dist: "distinct (L l @ [s])" using o(9) [OF l] fresh [OF l] strict_sorted_iff by auto
  have link: "linked links (?L m)" if m: "m \<le> MAX_LENGTH" for m
  proof (cases "m = l")
    case True
    have "\<forall>x\<in>set (L l @ [s]). x < length (b_next b)" using o(1,10) l s by auto
    from linked_append [OF o(5) [OF l] dist this] show ?thesis using True by (simp add: links_def)
  next
    case False
    have "links ! x = b_next b ! x" if x: "x \<in> set (L m)" for x
    proof -
      have "x \<noteq> s" using fresh [OF m] x by auto
      moreover have "L l \<noteq> [] \<Longrightarrow> x \<noteq> last (L l)" using o(11) [OF m l False x] by auto
      ultimately show ?thesis by (auto simp: links_def)
    qed
    with False show ?thesis using linked_other [OF o(5) [OF m]] by simp
  qed
  have sorted: "sorted_wrt (<) (?L m)" if "m \<le> MAX_LENGTH" for m
    using o(9) that above by (simp add: sorted_wrt_append)
  have "(\<Sum>m\<le>MAX_LENGTH. length (?L m)) = (\<Sum>m\<le>MAX_LENGTH. length (L m) + (if m = l then 1 else 0))"
    by (rule sum.cong) auto
  then have total: "b_total (push s l b) = (\<Sum>m\<le>MAX_LENGTH. length (?L m))"
    using l by (simp add: p o(12) sum.distrib)
  have ends: "b_head (push s l b) ! m = first_or_none (?L m)" "b_tail (push s l b) ! m = last_or_none (?L m)"
    "b_counts (push s l b) ! m = length (?L m)" if m: "m \<le> MAX_LENGTH" for m
    using o(2-4,6-8) m unfolding p by (cases "m = l"; simp add: first_or_none_def last_or_none_def)+
  have bound: "x < MAX_ALPHABET" if "m \<le> MAX_LENGTH" "x \<in> set (?L m)" for m x
    using o(10) that s by (auto split: if_splits)
  have disj: "set (?L m) \<inter> set (?L k) = {}" if "m \<le> MAX_LENGTH" "k \<le> MAX_LENGTH" "m \<noteq> k" for m k
    using o(11) [OF that] fresh that by (auto split: if_splits)
  have lens: "length (b_next (push s l b)) = MAX_ALPHABET" "length (b_head (push s l b)) = MAX_LENGTH + 1"
    "length (b_tail (push s l b)) = MAX_LENGTH + 1" "length (b_counts (push s l b)) = MAX_LENGTH + 1"
    using o(1-4) by (simp_all add: p links_def)
  show "lists_ok (push s l b) ?L"
    unfolding lists_ok_def
    by (intro conjI allI impI ballI lens link [folded p(1)] ends sorted bound disj total)
  show "b_last (push s l b) = s" by (rule p(6))
qed

section \<open>Runs\<close>

lemma length_link_run [simp]: "length (link_run start end links) = length links"
proof -
  have "length (foldl (\<lambda>links i. links[start + i := take_bit 16 (start + i + 1)]) links is) = length links" for "is"
    by (induction "is" arbitrary: links) simp_all
  then show ?thesis by (simp add: link_run_def)
qed

lemma nth_link_run:
  assumes "end \<le> MAX_ALPHABET" "length links = MAX_ALPHABET" "i < MAX_ALPHABET"
  shows "link_run start end links ! i = (if start \<le> i \<and> i + 1 < end then i + 1 else links ! i)"
proof -
  have "foldl (\<lambda>links i. links[start + i := take_bit 16 (start + i + 1)]) links [0..<n] ! i =
      (if start \<le> i \<and> i < start + n then i + 1 else links ! i)
    \<and> length (foldl (\<lambda>links i. links[start + i := take_bit 16 (start + i + 1)]) links [0..<n]) = MAX_ALPHABET"
    if "n \<le> end - 1 - start" for n
    using that
  proof (induction n)
    case (Suc n)
    then show ?case using assms symbol_u16 [of "start + n + 1"] by (auto simp: nth_list_update)
  qed (use assms in simp)
  from this [of "end - 1 - start"] show ?thesis by (auto simp: link_run_def)
qed

lemma push_run_Suc:
  assumes se: "start < end" "Suc end \<le> MAX_ALPHABET" and len: "length (b_next b) = MAX_ALPHABET"
    "l < length (b_tail b)" "l < length (b_counts b)" and tail: "b_tail b ! l = NONE \<or> b_tail b ! l < start"
  shows "push_run start (Suc end) l b = push end l (push_run start end l b)"
proof -
  let ?b = "push_run start end l b"
  have u: "take_bit 16 (end - 1) = end - 1" "take_bit 16 end = end" "take_bit 16 start = start"
    "take_bit 16 (end - start) = end - start" "take_bit 16 (Suc end - start) = Suc end - start"
    by (rule take_bit_nat_eq_self; use se in \<open>simp add: MAX_ALPHABET_def\<close>)+
  have u6: "take_bit 16 (Suc (end - start)) = Suc (end - start)" using u(5) se(1) by (simp add: Suc_diff_le)
  have t: "b_tail ?b ! l = end - 1" using len(2) u(1) by (simp add: push_run_def Let_def)
  have nn: "end - 1 \<noteq> NONE" by (rule symbol_not_none) (use se in simp)
  have runs: "(link_run start end (b_next b))[end - 1 := end, end := NONE] = (link_run start (Suc end) (b_next b))[end := NONE]"
  proof (rule nth_equalityI)
    fix i assume "i < length ((link_run start end (b_next b))[end - 1 := end, end := NONE])"
    then have i: "i < MAX_ALPHABET" using len by simp
    have e: "end \<le> MAX_ALPHABET" using se by simp
    show "(link_run start end (b_next b))[end - 1 := end, end := NONE] ! i = (link_run start (Suc end) (b_next b))[end := NONE] ! i"
      using i se len(1) nth_link_run [OF e len(1) i, of start] nth_link_run [OF se(2) len(1) i, of start]
      by (auto simp: nth_list_update)
  qed simp
  show ?thesis
  proof (cases "b_tail b ! l = NONE")
    case True
    then show ?thesis
      unfolding push_def Let_def t u if_not_P [OF nn]
      using runs se len by (cases b) (simp add: push_run_def Let_def u u6 Suc_diff_le)
  next
    case False
    then have prev: "b_tail b ! l < start" using tail by simp
    then have ne: "b_tail b ! l \<noteq> end - 1" "b_tail b ! l \<noteq> end" using se by auto
    have "(link_run start end (b_next b))[end - 1 := NONE, b_tail b ! l := start, end - 1 := end, end := NONE] =
        (link_run start end (b_next b))[end - 1 := end, end := NONE, b_tail b ! l := start]"
      using ne by (metis list_update_overwrite list_update_swap)
    then have run2: "(link_run start end (b_next b))[end - 1 := NONE, b_tail b ! l := start, end - 1 := end, end := NONE] =
        (link_run start (Suc end) (b_next b))[end := NONE, b_tail b ! l := start]"
      unfolding runs .
    show ?thesis
      unfolding push_def Let_def t u if_not_P [OF nn]
      using False run2 se len by (cases b) (simp add: push_run_def Let_def u u6 Suc_diff_le)
  qed
qed

lemma push_run_one:
  assumes "Suc start \<le> MAX_ALPHABET" "b_tail b ! l = NONE \<or> b_tail b ! l < start"
  shows "push_run start (Suc start) l b = push start l b"
proof -
  have u: "take_bit 16 start = start" "take_bit 16 (Suc 0) = Suc 0"
    using symbol_u16 [of start] assms(1) by simp_all
  have "link_run start (Suc start) (b_next b) = b_next b" by (simp add: link_run_def)
  moreover have "links[start := NONE, b_tail b ! l := start] = links[b_tail b ! l := start, start := NONE]"
    if "b_tail b ! l \<noteq> start" for links :: "nat list"
    using that by (metis list_update_swap)
  moreover have "b_tail b ! l \<noteq> NONE \<Longrightarrow> b_tail b ! l \<noteq> start" using assms(2) by auto
  ultimately show ?thesis by (simp add: push_run_def push_def Let_def u)
qed

lemma push_run_pushes:
  assumes "start < end" "end \<le> MAX_ALPHABET" "length (b_next b) = MAX_ALPHABET"
    "l < length (b_tail b)" "l < length (b_counts b)" "b_tail b ! l = NONE \<or> b_tail b ! l < start"
  shows "push_run start end l b = foldl (\<lambda>b s. push s l b) b [start..<end]"
proof -
  obtain d where e: "end = Suc (start + d)" using assms(1) less_imp_Suc_add by blast
  show ?thesis
    using assms unfolding e
  proof (induction d)
    case 0
    then show ?case by (simp add: push_run_one upt_rec)
  next
    case (Suc d)
    have "push_run start (Suc (Suc (start + d))) l b = push (Suc (start + d)) l (push_run start (Suc (start + d)) l b)"
      by (rule push_run_Suc) (use Suc.prems in simp_all)
    also have "push_run start (Suc (start + d)) l b = foldl (\<lambda>b s. push s l b) b [start..<Suc (start + d)]"
      by (rule Suc.IH) (use Suc.prems in simp_all)
    finally show ?case by simp
  qed
qed

lemma push_all_lists:
  assumes "lists_ok b L" "l \<le> MAX_LENGTH" "start \<le> end" "end \<le> MAX_ALPHABET"
    and "\<And>m x. m \<le> MAX_LENGTH \<Longrightarrow> x \<in> set (L m) \<Longrightarrow> x < start"
  shows "lists_ok (foldl (\<lambda>b s. push s l b) b [start..<end]) (L(l := L l @ [start..<end]))
    \<and> (start < end \<longrightarrow> b_last (foldl (\<lambda>b s. push s l b) b [start..<end]) = end - 1)"
  using assms(3,4)
proof (induction "end")
  case 0
  then show ?case using assms(1) by simp
next
  case (Suc e)
  show ?case
  proof (cases "start \<le> e")
    case True
    let ?b = "foldl (\<lambda>b s. push s l b) b [start..<e]"
    have IH: "lists_ok ?b (L(l := L l @ [start..<e]))"
      by (rule conjunct1 [OF Suc.IH]) (use True Suc.prems in simp_all)
    have below: "x < e" if "m \<le> MAX_LENGTH" "x \<in> set ((L(l := L l @ [start..<e])) m)" for m x
      using assms(5) [of m x] that True by (auto split: if_splits)
    have p: "lists_ok (push e l ?b) ((L(l := L l @ [start..<e]))(l := (L(l := L l @ [start..<e])) l @ [e]))" "b_last (push e l ?b) = e"
      by (rule push_lists [OF IH assms(2)]; use Suc.prems below assms(2) in \<open>force\<close>)+
    have u: "[start..<Suc e] = [start..<e] @ [e]" using True by simp
    have q: "lists_ok (push e l ?b) (L(l := L l @ [start..<e] @ [e]))"
      using p(1) by (simp only: fun_upd_upd fun_upd_same append_assoc)
    show ?thesis
      unfolding u foldl_append foldl.simps by (intro conjI impI q) (simp add: p(2))
  next
    case False
    then have "start = Suc e" using Suc.prems by simp
    then show ?thesis using assms(1) by simp
  qed
qed

text \<open>
  The one-pass run append is the symbol-by-symbol one: on lists in order,
  \<open>push_run\<close> leaves exactly the state that pushing each symbol of the run would, and the lists
  then represent the old ones with the run appended, its last symbol remembered.
\<close>

theorem push_run_appends:
  assumes "lists_ok b L" "1 \<le> l" "l \<le> MAX_LENGTH" "start < end" "end \<le> MAX_ALPHABET"
    and "\<And>m x. m \<le> MAX_LENGTH \<Longrightarrow> x \<in> set (L m) \<Longrightarrow> x < start"
  shows "push_run start end l b = foldl (\<lambda>b s. push s l b) b [start..<end]
    \<and> lists_ok (push_run start end l b) (L(l := L l @ [start..<end]))
    \<and> symbols_at (push_run start end l b) l = L l @ [start..<end]
    \<and> b_last (push_run start end l b) = end - 1"
proof -
  note o = lists_okD [OF assms(1)]
  have "b_tail b ! l = NONE \<or> b_tail b ! l < start"
    using o(7) [OF assms(3)] assms(6) [OF assms(3), of "last (L l)"] by (auto simp: last_or_none_def)
  then have eq: "push_run start end l b = foldl (\<lambda>b s. push s l b) b [start..<end]"
    using assms(3,4,5) o(1,3,4) by (intro push_run_pushes) simp_all
  have all: "lists_ok (push_run start end l b) (L(l := L l @ [start..<end]))" "b_last (push_run start end l b) = end - 1"
    using push_all_lists [OF assms(1,3) _ assms(5,6)] assms(4) by (simp_all add: eq)
  show ?thesis using eq all walk_list [OF all(1) assms(3)] by simp
qed

theorem push_run_appends_witness:
  "symbols_at (push_run 3 6 2 (clear builder_default)) 2 = [3, 4, 5]"
proof -
  have "lists_ok (clear builder_default) (\<lambda>_. [])"
    by (rule lists_ok_clear) (simp add: builder_default_def)
  note all = push_run_appends [OF this, of 2 3 6, THEN conjunct2, THEN conjunct2, THEN conjunct1]
  have "symbols_at (push_run 3 6 2 (clear builder_default)) 2 = [] @ [3..<6]"
    by (rule all) (simp_all add: MAX_LENGTH_def MAX_ALPHABET_def)
  then show ?thesis by (simp add: upt_rec)
qed

end
