(* ===== verification/Memory.thy ===== *)
theory Memory
  imports Decode_Error
begin

text \<open>
  The workspace accounting of the decoder (\<open>decompressor/core/memory.rs\<close>). A \<open>Vec\<close> is
  \<open>vec\<close>: its items and its capacity. The allocator is the argument \<open>alloc\<close>: for a
  requested number of elements it fails or grants a capacity; what the code relies on, the
  documented behaviour of \<open>try_reserve_exact\<close>, is \<open>alloc_ok\<close>.
\<close>

record 'a vec =
  items :: "'a list"
  capacity :: nat

record memory =
  live :: nat
  mlimit :: "nat option"

definition memory_default :: memory where
  "memory_default = \<lparr>live = 0, mlimit = None\<rparr>"

definition vec_new :: "'a vec" where
  "vec_new = \<lparr>items = [], capacity = 0\<rparr>"

text \<open>\<open>length.max(buffer.capacity().saturating_mul(2))\<close>\<close>

definition grow_target :: "nat \<Rightarrow> nat \<Rightarrow> nat" where
  "grow_target n cap = max n (min (cap * 2) (2 ^ 64 - 1))"

definition reserve :: "(nat \<Rightarrow> nat option) \<Rightarrow> nat \<Rightarrow> 'a vec \<Rightarrow> nat \<Rightarrow> memory \<Rightarrow>
    (decode_error + unit) \<times> 'a vec \<times> memory" where
  "reserve alloc elem v n m =
     (if n > capacity v then
        (let target = grow_target n (capacity v) in
         if \<not> target * elem < 2 ^ 64 then (Inl SizeOverflow, v, m)
         else
           (case checked_add 64 (live m) (target * elem) of
              None \<Rightarrow> (Inl SizeOverflow, v, m)
            | Some nxt \<Rightarrow>
                (let grow = (case alloc target of
                     None \<Rightarrow> (Inl AllocationFailed, v, m)
                   | Some cap \<Rightarrow> (Inr (), v\<lparr>capacity := cap\<rparr>, m\<lparr>live := live m + (cap - capacity v) * elem\<rparr>))
                 in case mlimit m of
                      Some l \<Rightarrow> if nxt > l then (Inl (MemoryLimitExceeded l), v, m) else grow
                    | None \<Rightarrow> grow)))
      else (Inr (), v, m))"

text \<open>\<open>Vec::resize(length, T::default())\<close> shortens or pads; \<open>z\<close> is the default value.\<close>

definition pad_to :: "nat \<Rightarrow> 'a \<Rightarrow> 'a list \<Rightarrow> 'a list" where
  "pad_to n z xs = take n xs @ replicate (n - length xs) z"

definition resize :: "(nat \<Rightarrow> nat option) \<Rightarrow> nat \<Rightarrow> 'a \<Rightarrow> 'a vec \<Rightarrow> nat \<Rightarrow> memory \<Rightarrow>
    (decode_error + unit) \<times> 'a vec \<times> memory" where
  "resize alloc elem z v n m =
     (case reserve alloc elem v n m of
        (Inl e, v', m') \<Rightarrow> (Inl e, v', m')
      | (Inr _, v', m') \<Rightarrow> (Inr (), v'\<lparr>items := pad_to n z (items v')\<rparr>, m'))"

definition alloc_ok :: "(nat \<Rightarrow> nat option) \<Rightarrow> bool" where
  "alloc_ok alloc \<longleftrightarrow> (\<forall>n c. alloc n = Some c \<longrightarrow> n \<le> c)"

lemma length_pad_to [simp]: "length (pad_to n z xs) = n"
  by (simp add: pad_to_def)

lemma nth_pad_to: "i < n \<Longrightarrow> i < length xs \<Longrightarrow> pad_to n z xs ! i = xs ! i"
  by (simp add: pad_to_def nth_append)

lemma pad_to_longer: "length xs \<le> n \<Longrightarrow> pad_to n z xs = xs @ replicate (n - length xs) z"
  by (simp add: pad_to_def)

lemma reserve_cases:
  obtains (fits) "n \<le> capacity v" "reserve alloc elem v n m = (Inr (), v, m)"
  | (grown) cap where "capacity v < n" "alloc (grow_target n (capacity v)) = Some cap"
      "live m + grow_target n (capacity v) * elem < 2 ^ 64"
      "\<And>l. mlimit m = Some l \<Longrightarrow> live m + grow_target n (capacity v) * elem \<le> l"
      "reserve alloc elem v n m = (Inr (), v\<lparr>capacity := cap\<rparr>, m\<lparr>live := live m + (cap - capacity v) * elem\<rparr>)"
  | (failed) e where "capacity v < n" "reserve alloc elem v n m = (Inl e, v, m)"
      "e \<in> {SizeOverflow, AllocationFailed} \<union> MemoryLimitExceeded ` set_option (mlimit m)"
proof -
  define t where "t = grow_target n (capacity v)"
  show thesis
  proof (cases "n \<le> capacity v")
    case True
    then show thesis by (intro fits) (simp_all add: reserve_def)
  next
    case False
    then have f: "capacity v < n" by simp
    consider (over) "\<not> live m + t * elem < 2 ^ 64" | (limit) l where "live m + t * elem < 2 ^ 64" "mlimit m = Some l" "l < live m + t * elem"
      | (grow) "live m + t * elem < 2 ^ 64" "\<And>l. mlimit m = Some l \<Longrightarrow> live m + t * elem \<le> l"
      by (metis not_le)
    then show thesis
    proof cases
      case over
      then have "reserve alloc elem v n m = (Inl SizeOverflow, v, m)"
        using f by (cases "t * elem < 2 ^ 64") (simp_all add: reserve_def Let_def checked_add_def flip: t_def)
      with f show thesis by (rule failed) simp
    next
      case limit
      then have "reserve alloc elem v n m = (Inl (MemoryLimitExceeded l), v, m)"
        using f by (simp add: reserve_def Let_def checked_add_def flip: t_def)
      with f show thesis by (rule failed) (simp add: limit)
    next
      case grow
      have lim: "live m + t * elem \<le> l" if "mlimit m = Some l" for l using grow(2) that .
      show thesis
      proof (cases "alloc t")
        case None
        then have "reserve alloc elem v n m = (Inl AllocationFailed, v, m)"
          using f grow(1) lim by (cases "mlimit m") (simp_all add: reserve_def Let_def checked_add_def not_less flip: t_def)
        with f show thesis by (rule failed) simp
      next
        case (Some cap)
        then have "reserve alloc elem v n m = (Inr (), v\<lparr>capacity := cap\<rparr>, m\<lparr>live := live m + (cap - capacity v) * elem\<rparr>)"
          using f grow(1) lim by (cases "mlimit m") (simp_all add: reserve_def Let_def checked_add_def not_less flip: t_def)
        then show thesis using grown [of cap] f Some grow(1) lim unfolding t_def by blast
      qed
    qed
  qed
qed

lemma resize_ok:
  assumes "resize alloc elem z v n m = (Inr u, v', m')"
  shows "items v' = pad_to n z (items v)"
  using assms by (cases rule: reserve_cases [of n v alloc elem m]) (auto simp: resize_def)

lemma resize_items:
  assumes "resize alloc elem z v n m = (Inl e, v', m')"
  shows "items v' = items v" "e \<noteq> InternalInvariant" "e \<noteq> InvalidData k"
  using assms by (cases rule: reserve_cases [of n v alloc elem m]; auto simp: resize_def)+

section \<open>Properties\<close>

lemma reserve_errors:
  assumes "reserve alloc elem v n m = (Inl e, v', m')"
  defines "t \<equiv> grow_target n (capacity v)"
  shows "capacity v < n \<and> v' = v \<and> m' = m \<and>
    (e = SizeOverflow \<and> 2 ^ 64 \<le> live m + t * elem \<or>
     (\<exists>l. e = MemoryLimitExceeded l \<and> mlimit m = Some l \<and> l < live m + t * elem) \<or>
     e = AllocationFailed \<and> alloc t = None)"
  using assms unfolding reserve_def Let_def t_def [symmetric] checked_add_def
  by (cases "mlimit m"; cases "alloc t") (auto split: if_splits)

text \<open>The errors that mean memory ran out.\<close>

definition memory_failure :: "decode_error \<Rightarrow> bool" where
  "memory_failure e \<longleftrightarrow> (case e of SizeOverflow \<Rightarrow> True | AllocationFailed \<Rightarrow> True | MemoryLimitExceeded _ \<Rightarrow> True | _ \<Rightarrow> False)"

lemma reserve_failure: "reserve alloc elem v n m = (Inl e, v', m') \<Longrightarrow> memory_failure e"
  by (auto simp: reserve_def Let_def memory_failure_def split: if_splits option.splits)

lemma resize_failure: "resize alloc elem z v n m = (Inl e, v', m') \<Longrightarrow> memory_failure e"
  by (auto simp: resize_def split: prod.splits sum.splits dest: reserve_failure)

text \<open>
  C28 (safety). The workspace limit, for any allocator that grants at least what it is asked for,
  which is all that \<open>try_reserve_exact\<close> promises. A reservation that succeeds has room for the
  elements, changes none, and accounts for exactly the capacity it gained. It asks the allocator
  only for a replacement whose bytes, beside all that is live, are within the configured limit; so
  the live bytes exceed the limit by no more than what the allocator granted beyond the request. A
  reservation that fails changes nothing, and its error says why: the sum overflows, it is over the
  limit, or the allocator failed.
\<close>

theorem reserve_within_limit:
  assumes alloc: "alloc_ok alloc" and r: "reserve alloc elem v n m = (r, v', m')"
  defines "t \<equiv> grow_target n (capacity v)"
  shows "items v' = items v \<and> mlimit m' = mlimit m \<and>
    (case r of
       Inr _ \<Rightarrow> n \<le> capacity v' \<and> capacity v \<le> capacity v' \<and> live m' = live m + (capacity v' - capacity v) * elem \<and>
         (if n \<le> capacity v then v' = v \<and> m' = m
          else n \<le> t \<and> alloc t = Some (capacity v') \<and>
            (\<forall>l. mlimit m = Some l \<longrightarrow> live m + t * elem \<le> l \<and> live m' \<le> l + (capacity v' - t) * elem))
     | Inl e \<Rightarrow> v' = v \<and> m' = m \<and> capacity v < n \<and>
         (e = SizeOverflow \<and> 2 ^ 64 \<le> live m + t * elem \<or>
          (\<exists>l. e = MemoryLimitExceeded l \<and> mlimit m = Some l \<and> l < live m + t * elem) \<or>
          e = AllocationFailed \<and> alloc t = None))"
proof (cases rule: reserve_cases [of n v alloc elem m])
  case fits
  then show ?thesis using r by auto
next
  case (grown cap)
  have "t \<le> cap" using alloc grown(2) by (auto simp: alloc_ok_def t_def)
  moreover have nt: "n \<le> t" by (simp add: t_def grow_target_def)
  ultimately have cap: "n \<le> cap" "capacity v \<le> cap" "t \<le> cap" using grown(1) by simp_all
  have "live m + (cap - capacity v) * elem \<le> l + (cap - t) * elem" if "mlimit m = Some l" for l
  proof -
    have "(cap - capacity v) * elem \<le> (t + (cap - t)) * elem" using cap by (intro mult_le_mono1) simp
    moreover have "live m + t * elem \<le> l" using grown(4) [OF that] by (simp only: t_def)
    ultimately show ?thesis by (simp add: add_mult_distrib)
  qed
  moreover have "live m + t * elem \<le> l" if "mlimit m = Some l" for l using grown(4) [OF that] by (simp only: t_def)
  ultimately show ?thesis using r grown(1,2,5) cap nt by (auto simp: t_def [symmetric])
next
  case (failed e)
  then show ?thesis using r reserve_errors [of alloc elem v n m e v' m'] unfolding t_def by auto
qed

theorem reserve_within_limit_witness:
  "\<exists>v' m'. reserve Some 4 vec_new 8 \<lparr>live = 0, mlimit = Some 64\<rparr> = (Inr (), (v' :: nat vec), m') \<and> capacity v' = 8 \<and> live m' \<le> 64"
proof -
  have "reserve Some 4 vec_new 8 \<lparr>live = 0, mlimit = Some 64\<rparr> =
      (Inr (), vec_new\<lparr>capacity := 8\<rparr>, \<lparr>live = 32, mlimit = Some 64\<rparr>)"
    by (simp add: reserve_def vec_new_def checked_add_def grow_target_def)
  then obtain v' :: "nat vec" and m' where r: "reserve Some 4 vec_new 8 \<lparr>live = 0, mlimit = Some 64\<rparr> = (Inr (), v', m')"
    and c: "capacity v' = 8" by force
  have "alloc_ok Some" by (simp add: alloc_ok_def)
  from reserve_within_limit [OF this r] r c show ?thesis by auto
qed

end
