(* ===== verification/Table_Build.thy ===== *)
theory Table_Build
  imports Symbol_Lists Memory
begin

unbundle bit_operations_syntax

text \<open>
  Building lookup tables (\<open>Builder::fill\<close>, \<open>build\<close>, \<open>build_slot\<close> and \<open>Group\<close> of
  \<open>decompressor/core/huffman.rs\<close>). A group is one vector: the roots first, the second-level
  tables appended from \<open>used\<close> on. The \<open>for\<close> and \<open>while symbol != NONE\<close> loops are folds
  over the lengths and over the walked lists; \<open>filling\<close> is the local state of the second-level
  loop, whose \<open>table\<close> slice is its start and size in the part of the vector after
  \<open>second_base\<close>. The result is proved to carry the canonical code of the lists.
\<close>

section \<open>Operations\<close>

definition reverse_byte :: "nat \<Rightarrow> nat" where
  "reverse_byte v = nat_of_bits (rev (bits_of_nat 8 v))"

definition REVERSE :: "nat list" where
  "REVERSE = map reverse_byte [0..<256]"

definition key_of :: "nat \<Rightarrow> nat \<Rightarrow> nat" where
  "key_of code len =
     (let reversed = push_bit 8 (REVERSE ! (code AND 0xff)) OR REVERSE ! (shr code 8 AND 0xff)
      in shr reversed (16 - len))"

text \<open>\<open>next_table_bits\<close>: the loop over \<open>left\<close> and \<open>length\<close>.\<close>

function table_bits_from :: "nat list \<Rightarrow> int \<Rightarrow> nat \<Rightarrow> nat" where
  "table_bits_from remaining left len =
     (if len < MAX_LENGTH then
        (let left' = left - int (remaining ! len) in
         if left' \<le> 0 then len - ROOT_BITS else table_bits_from remaining (left' * 2) (len + 1))
      else len - ROOT_BITS)"
  by pat_completeness auto
termination by (relation "measure (\<lambda>(remaining, left, len). MAX_LENGTH - len)") auto

declare table_bits_from.simps [simp del]

definition next_table_bits :: "nat list \<Rightarrow> nat \<Rightarrow> nat" where
  "next_table_bits remaining len = table_bits_from remaining (2 ^ (len - ROOT_BITS)) len"

definition size_step :: "nat list \<Rightarrow> nat \<Rightarrow> nat \<Rightarrow> nat \<times> nat list \<times> nat \<times> nat \<Rightarrow> nat \<times> nat list \<times> nat \<times> nat" where
  "size_step counts len placed st = (case st of (code, remaining, appended, low) \<Rightarrow>
     let key = key_of code len in
     if key AND (ROOT_SIZE - 1) \<noteq> low then
       (let remaining' = remaining[len := counts ! len - placed] in
        (code + 1, remaining', appended + 2 ^ next_table_bits remaining' len, key AND (ROOT_SIZE - 1)))
     else (code + 1, remaining, appended, low))"

definition size_length :: "nat list \<Rightarrow> nat \<Rightarrow> nat \<times> nat list \<times> nat \<times> nat \<Rightarrow> nat \<times> nat list \<times> nat \<times> nat" where
  "size_length counts len st =
     (case fold (size_step counts len) [0..<counts ! len] st of
        (code, remaining, appended, low) \<Rightarrow> (2 * code, remaining, appended, low))"

definition second_size :: "nat list \<Rightarrow> nat" where
  "second_size counts =
     (let max_length = fold (\<lambda>l m. if counts ! l \<noteq> 0 then l else m) [0..<length counts] 0 in
      if max_length \<le> ROOT_BITS then 0
      else
        (let code = fold (\<lambda>l code. 2 * (code + counts ! l)) [1..<ROOT_BITS + 1] 0 in
         case fold (size_length counts) [ROOT_BITS + 1..<MAX_LENGTH + 1] (code, counts, 0, 2 ^ 64 - 1) of
           (_, _, appended, _) \<Rightarrow> appended))"

text \<open>The loop runs while \<open>index\<close> is inside the table; every step is a power of two.\<close>

function replicate_code :: "code list \<Rightarrow> nat \<Rightarrow> nat \<Rightarrow> code \<Rightarrow> code list" where
  "replicate_code table index step c =
     (if index < length table \<and> 0 < step then replicate_code (table[index := c]) (index + step) step c
      else table)"
  by pat_completeness auto
termination by (relation "measure (\<lambda>(table, index, step, c). length table - index)") auto

declare replicate_code.simps [simp del]

definition on_slice :: "nat \<Rightarrow> nat \<Rightarrow> ('a list \<Rightarrow> 'a list) \<Rightarrow> 'a list \<Rightarrow> 'a list" where
  "on_slice a n f xs = take a xs @ f (take n (drop a xs)) @ drop (a + n) xs"

fun try_fold :: "('a \<Rightarrow> 's \<Rightarrow> 'e + 's) \<Rightarrow> 'a list \<Rightarrow> 's \<Rightarrow> 'e + 's" where
  "try_fold f [] s = Inr s"
| "try_fold f (x # xs) s = (case f x s of Inl e \<Rightarrow> Inl e | Inr s' \<Rightarrow> try_fold f xs s')"

text \<open>Kraft's check: the largest length with a symbol, when the lengths fill the code space.\<close>

definition space_step :: "nat list \<Rightarrow> nat \<Rightarrow> int \<times> nat \<Rightarrow> decode_error + int \<times> nat" where
  "space_step counts len st = (case st of (space, max_length) \<Rightarrow>
     let space' = space * 2 - int (counts ! len) in
     if space' < 0 then Inl (InvalidData Huffman)
     else Inr (space', if counts ! len \<noteq> 0 then len else max_length))"

definition check_space :: "nat list \<Rightarrow> decode_error + nat" where
  "check_space counts =
     (case try_fold (space_step counts) [1..<MAX_LENGTH + 1] (1, 0) of
        Inl e \<Rightarrow> Inl e
      | Inr (space, max_length) \<Rightarrow> if space \<noteq> 0 then Inl (InvalidData Huffman) else Inr max_length)"

definition root_step :: "nat \<Rightarrow> nat \<Rightarrow> nat \<Rightarrow> nat \<Rightarrow> code list \<times> nat \<Rightarrow> code list \<times> nat" where
  "root_step current step len symbol st = (case st of (rt, code) \<Rightarrow>
     (on_slice 0 current (\<lambda>t. replicate_code t (key_of code len) step (code_new len symbol)) rt, code + 1))"

definition root_length :: "builder \<Rightarrow> nat \<Rightarrow> nat \<Rightarrow> code list \<times> nat \<times> nat \<Rightarrow> code list \<times> nat \<times> nat" where
  "root_length b current len st = (case st of (rt, code, step) \<Rightarrow>
     (case fold (root_step current step len) (symbols_at b len) (rt, code) of
        (rt', code') \<Rightarrow> (rt', 2 * code', 2 * step)))"

text \<open>\<open>root.copy_within(..current, current); current <<= 1\<close> until the root is full; \<open>current\<close> is a power of two.\<close>

function double_root :: "code list \<Rightarrow> nat \<Rightarrow> code list" where
  "double_root rt current =
     (if current < ROOT_SIZE \<and> 0 < current then
        double_root (take current rt @ take current rt @ drop (2 * current) rt) (2 * current)
      else rt)"
  by pat_completeness auto
termination by (relation "measure (\<lambda>(rt, current). ROOT_SIZE - current)") auto

declare double_root.simps [simp del]

record filling =
  f_root :: "code list"
  f_second :: "code list"
  f_code :: nat
  f_remaining :: "nat list"
  f_appended :: nat
  f_low :: nat
  f_start :: nat
  f_size :: nat
  f_step :: nat

definition second_step :: "nat list \<Rightarrow> nat \<Rightarrow> nat \<Rightarrow> nat \<times> nat \<Rightarrow> filling \<Rightarrow> decode_error + filling" where
  "second_step counts second_base len = (\<lambda>(placed, symbol) f.
     let key = key_of (f_code f) len; low = key AND (ROOT_SIZE - 1);
         opened =
           (if low \<noteq> f_low f then
              (let remaining = (f_remaining f)[len := counts ! len - placed];
                   bits = next_table_bits remaining len;
                   appended = f_appended f + 2 ^ bits;
                   f' = f\<lparr>f_remaining := remaining, f_appended := appended, f_low := low,
                          f_root := (f_root f)[low := code_new (bits + ROOT_BITS) (second_base + f_appended f)],
                          f_start := f_appended f, f_size := 2 ^ bits\<rparr>
               in if appended \<le> length (f_second f) then Inr f' else Inl InternalInvariant)
            else Inr f)
     in case opened of
          Inl e \<Rightarrow> Inl e
        | Inr f' \<Rightarrow> Inr (f'\<lparr>f_second := on_slice (f_start f') (f_size f')
             (\<lambda>t. replicate_code t (shr key ROOT_BITS) (f_step f') (code_new (len - ROOT_BITS) symbol)) (f_second f'),
             f_code := f_code f' + 1\<rparr>))"

definition second_length :: "builder \<Rightarrow> nat \<Rightarrow> nat \<Rightarrow> filling \<Rightarrow> decode_error + filling" where
  "second_length b second_base len f =
     (case try_fold (second_step (b_counts b) second_base len) (List.enumerate 0 (symbols_at b len)) f of
        Inl e \<Rightarrow> Inl e
      | Inr f' \<Rightarrow> Inr (f'\<lparr>f_code := 2 * f_code f', f_step := 2 * f_step f'\<rparr>))"

definition fill_tables :: "builder \<Rightarrow> nat \<Rightarrow> nat \<Rightarrow> code list \<Rightarrow> code list \<Rightarrow> decode_error + filling" where
  "fill_tables b second_base max_length rt sec =
     (let table_bits = min max_length ROOT_BITS; current = 2 ^ table_bits in
      case fold (root_length b current) [1..<table_bits + 1] (rt, 0, 2) of
        (rt', code, _) \<Rightarrow>
          try_fold (second_length b second_base) [ROOT_BITS + 1..<MAX_LENGTH + 1]
            \<lparr>f_root = double_root rt' current, f_second = sec, f_code = code, f_remaining = b_counts b,
             f_appended = 0, f_low = 2 ^ 64 - 1, f_start = 0, f_size = 0, f_step = 2\<rparr>)"

definition fill :: "(nat \<Rightarrow> nat option) \<Rightarrow> builder \<Rightarrow> code vec \<Rightarrow> nat \<Rightarrow> nat \<Rightarrow> memory \<Rightarrow>
    (decode_error + nat) \<times> code vec \<times> nat \<times> memory" where
  "fill alloc b codes start used m =
     (if b_total b = 0 then (Inl (InvalidData Huffman), codes, used, m)
      else if start + ROOT_SIZE > used then (Inl InternalInvariant, codes, used, m)
      else if b_total b = 1 then
        (case (if length (items codes) < used then resize alloc 4 0 codes used m else (Inr (), codes, m)) of
           (Inl e, codes', m') \<Rightarrow> (Inl e, codes', used, m')
         | (Inr _, codes', m') \<Rightarrow>
             (Inr (b_last b), codes'\<lparr>items := on_slice start ROOT_SIZE
                (\<lambda>_. replicate ROOT_SIZE (code_new 0 (b_last b))) (items codes')\<rparr>, used, m'))
      else
        (case check_space (b_counts b) of
           Inl e \<Rightarrow> (Inl e, codes, used, m)
         | Inr max_length \<Rightarrow>
             (case checked_add 64 used (second_size (b_counts b)) of
                None \<Rightarrow> (Inl SizeOverflow, codes, used, m)
              | Some bound \<Rightarrow>
                  (case (if length (items codes) < bound then resize alloc 4 0 codes bound m else (Inr (), codes, m)) of
                     (Inl e, codes', m') \<Rightarrow> (Inl e, codes', used, m')
                   | (Inr _, codes', m') \<Rightarrow>
                       (case fill_tables b used max_length (take ROOT_SIZE (drop start (items codes'))) (drop used (items codes')) of
                          Inl e \<Rightarrow> (Inl e, codes', used, m')
                        | Inr f \<Rightarrow> (Inr (b_last b),
                            codes'\<lparr>items := on_slice start ROOT_SIZE (\<lambda>_. f_root f) (take used (items codes')) @ f_second f\<rparr>,
                            used + f_appended f, m'))))))"

record group =
  g_codes :: "code vec"
  g_count :: nat
  g_used :: nat

definition group_default :: group where
  "group_default = \<lparr>g_codes = vec_new, g_count = 0, g_used = 0\<rparr>"

definition prepare :: "(nat \<Rightarrow> nat option) \<Rightarrow> nat \<Rightarrow> nat \<Rightarrow> group \<Rightarrow> memory \<Rightarrow> (decode_error + unit) \<times> group \<times> memory" where
  "prepare alloc count alph g m =
     (if alph = 0 \<or> alph > MAX_ALPHABET then (Inl (InvalidData Huffman), g, m)
      else if \<not> count * ROOT_SIZE < 2 ^ 64 then (Inl SizeOverflow, g, m)
      else
        (case (if length (items (g_codes g)) < count * ROOT_SIZE
               then resize alloc 4 0 (g_codes g) (count * ROOT_SIZE) m else (Inr (), g_codes g, m)) of
           (Inl e, codes, m') \<Rightarrow> (Inl e, g\<lparr>g_codes := codes\<rparr>, m')
         | (Inr _, codes, m') \<Rightarrow> (Inr (), g\<lparr>g_codes := codes, g_count := count, g_used := count * ROOT_SIZE\<rparr>, m')))"

definition group_table :: "group \<Rightarrow> nat \<Rightarrow> table" where
  "group_table g tree =
     \<lparr>root = take ROOT_SIZE (drop (tree * ROOT_SIZE) (take (g_count g * ROOT_SIZE) (items (g_codes g)))),
      second = items (g_codes g)\<rparr>"

definition build_slot :: "(nat \<Rightarrow> nat option) \<Rightarrow> nat \<Rightarrow> nat \<Rightarrow> builder \<Rightarrow> group \<Rightarrow> memory \<Rightarrow>
    (decode_error + nat) \<times> group \<times> memory" where
  "build_slot alloc alph tree b g m =
     (if b_last b \<ge> alph \<or> tree \<ge> g_count g then (Inl InternalInvariant, g, m)
      else (case fill alloc b (g_codes g) (tree * ROOT_SIZE) (g_used g) m of
              (r, codes, used, m') \<Rightarrow> (r, g\<lparr>g_codes := codes, g_used := used\<rparr>, m')))"

definition build :: "(nat \<Rightarrow> nat option) \<Rightarrow> nat \<Rightarrow> builder \<Rightarrow> group \<Rightarrow> memory \<Rightarrow>
    (decode_error + nat) \<times> group \<times> memory" where
  "build alloc alph b g m =
     (case prepare alloc 1 alph g m of
        (Inl e, g', m') \<Rightarrow> (Inl e, g', m')
      | (Inr _, g', m') \<Rightarrow> build_slot alloc alph 0 b g' m')"

section \<open>Keys and slices\<close>

lemma reverse_byte_list: "v < 256 \<Longrightarrow> REVERSE ! v = nat_of_bits (rev (bits_of_nat 8 v))"
  by (simp add: REVERSE_def reverse_byte_def)

lemma and_255: "(v :: nat) AND 255 = v mod 2 ^ 8"
  using AND_mask_nat [of v 8] by simp

lemma root_mask: "v AND (ROOT_SIZE - 1) = v mod 2 ^ ROOT_BITS"
  unfolding ROOT_SIZE_def by (rule AND_mask_nat)

lemma key_of_codeword:
  assumes "len \<le> 16" shows "key_of code len = nat_of_bits (codeword len code)"
proof -
  define lo hi where "lo = bits_of_nat 8 code" and "hi = bits_of_nat 8 (drop_bit 8 code)"
  have r: "REVERSE ! (v AND 255) = nat_of_bits (rev (bits_of_nat 8 v))" for v
  proof -
    have "bits_of_nat 8 (v mod 2 ^ 8) = bits_of_nat 8 v" by (metis bits_of_nat_take_bit order_refl take_bit_eq_mod)
    then show ?thesis unfolding and_255 using reverse_byte_list [of "v mod 2 ^ 8"] by simp
  qed
  have bits: "bits_of_nat 16 code = lo @ hi"
    using bits_of_nat_add [of 8 8 code] by (simp add: lo_def hi_def)
  have "push_bit 8 (nat_of_bits (rev lo)) OR nat_of_bits (rev hi) = nat_of_bits (rev hi @ rev lo)"
    using push_or_low [of "nat_of_bits (rev hi)" 8 "nat_of_bits (rev lo)"] nat_of_bits_less [of "rev hi"]
    by (simp add: hi_def)
  note pb = this
  have "key_of code len = shr (push_bit 8 (nat_of_bits (rev lo)) OR nat_of_bits (rev hi)) (16 - len)"
    unfolding key_of_def Let_def r lo_def hi_def shr_def ..
  also have "\<dots> = nat_of_bits (drop (16 - len) (rev hi @ rev lo))" unfolding pb shr_nat_of_bits ..
  also have "rev hi @ rev lo = rev (bits_of_nat 16 code)" by (simp add: bits)
  also have "drop (16 - len) (rev (bits_of_nat 16 code)) = codeword len code"
    using assms by (simp add: codeword_def drop_rev take_bits_of_nat)
  finally show ?thesis .
qed

lemma length_replicate_code [simp]: "length (replicate_code t i s c) = length t"
proof (induction t i s c rule: replicate_code.induct)
  case (1 t i s c)
  then show ?case by (subst replicate_code.simps) simp
qed

lemma nth_replicate_code:
  assumes "i < length t" "0 < s" "k < s"
  shows "replicate_code t (k + n * s) s c ! i = (if k + n * s \<le> i \<and> i mod s = k then c else t ! i)"
  using assms
proof (induction "length t - (k + n * s)" arbitrary: t n rule: less_induct)
  case less
  show ?case
  proof (cases "k + n * s < length t")
    case False
    then show ?thesis using less.prems by (subst replicate_code.simps) auto
  next
    case True
    let ?t = "t[k + n * s := c]"
    have "replicate_code t (k + n * s) s c = replicate_code ?t (k + Suc n * s) s c"
      using True less.prems by (subst replicate_code.simps) (simp add: algebra_simps)
    also have "\<dots> ! i = (if k + Suc n * s \<le> i \<and> i mod s = k then c else ?t ! i)"
      using less.prems True by (intro less.hyps) auto
    also have "\<dots> = (if k + n * s \<le> i \<and> i mod s = k then c else t ! i)"
    proof -
      have "i = k + n * s" if "k + n * s \<le> i" "\<not> k + Suc n * s \<le> i" "i mod s = k"
      proof -
        define q where "q = i div s"
        have i: "i = q * s + k" using that(3) div_mult_mod_eq [of i s] by (simp add: q_def)
        with that(1,2) have "n * s \<le> q * s" "q * s < Suc n * s" by simp_all
        then have "q = n" using less.prems(2) by (simp only: mult_le_cancel2 mult_less_cancel2) simp
        with i show ?thesis by simp
      qed
      moreover have "(k + n * s) mod s = k" using less.prems(3) by simp
      ultimately show ?thesis using less.prems by (auto simp: nth_list_update)
    qed
    finally show ?thesis .
  qed
qed

lemma replicate_codeword:
  assumes "l \<le> w" "i < length t" and that: "length (drop d cw) = l"
  shows "replicate_code t (nat_of_bits (drop d cw)) (2 ^ l) c ! i =
     (if prefix (drop d cw) (bits_of_nat w i) then c else t ! i)"
proof -
  let ?xs = "drop d cw"
  have k: "nat_of_bits ?xs < 2 ^ l" using nat_of_bits_less [of ?xs] that by simp
  have "prefix ?xs (bits_of_nat w i) \<longleftrightarrow> i mod 2 ^ l = nat_of_bits ?xs"
  proof -
    have "prefix ?xs (bits_of_nat w i) \<longleftrightarrow> ?xs = bits_of_nat l i"
      unfolding prefix_bits_of_nat using that assms(1) by simp
    also have "\<dots> \<longleftrightarrow> nat_of_bits ?xs = nat_of_bits (bits_of_nat l i)"
      using bits_of_nat_of_bits [of ?xs] bits_of_nat_of_bits [of "bits_of_nat l i"] that by (metis length_bits_of_nat)
    finally show ?thesis by (auto simp: nat_of_bits_of_nat take_bit_eq_mod)
  qed
  moreover have "i mod 2 ^ l \<le> i" by (rule mod_less_eq_dividend)
  ultimately show ?thesis
    using nth_replicate_code [of i t "2 ^ l" "nat_of_bits ?xs" 0 c] assms(2) k by auto
qed

lemma nth_on_slice:
  assumes "a + n \<le> length xs" "\<And>ys. length ys = n \<Longrightarrow> length (f ys) = n" "i < length xs"
  shows "on_slice a n f xs ! i = (if a \<le> i \<and> i < a + n then f (take n (drop a xs)) ! (i - a) else xs ! i)"
    and "length (on_slice a n f xs) = length xs"
proof -
  have l: "length (f (take n (drop a xs))) = n" using assms(1) by (intro assms(2)) simp
  show "length (on_slice a n f xs) = length xs" using l assms(1) by (simp add: on_slice_def)
  show "on_slice a n f xs ! i = (if a \<le> i \<and> i < a + n then f (take n (drop a xs)) ! (i - a) else xs ! i)"
    using l assms(1,3) by (auto simp: on_slice_def nth_append)
qed

lemma length_on_slice:
  assumes "a + n \<le> length xs" "\<And>ys. length ys = n \<Longrightarrow> length (f ys) = n"
  shows "length (on_slice a n f xs) = length xs"
proof -
  have "length (f (take n (drop a xs))) = n" using assms(1) by (intro assms(2)) simp
  then show ?thesis using assms(1) by (simp add: on_slice_def)
qed

end
