(* ===== verification/Table_Correct.thy ===== *)
theory Table_Correct
  imports Table_Build
begin

unbundle bit_operations_syntax

text \<open>
  The tables \<open>fill\<close> builds carry the canonical code of the lists. The root loop writes each
  short code at the indices it is a prefix of (\<open>written\<close>); the second-level loop keeps
  \<open>filling_ok\<close>, whose ghost map gives the start and width of the table of every block of
  codes that share their first eight bits; \<open>second_size\<close> counts the same tables.
\<close>

section \<open>Codes of the lists\<close>

definition valid_code :: "(nat \<Rightarrow> nat list) \<Rightarrow> nat \<Rightarrow> nat \<Rightarrow> bool" where
  "valid_code L l j \<longleftrightarrow> 1 \<le> l \<and> l \<le> MAX_LENGTH \<and> j < length (L l)"

definition word_of :: "(nat \<Rightarrow> nat list) \<Rightarrow> nat \<Rightarrow> nat \<Rightarrow> bool list" where
  "word_of L l j = codeword l (first_code L l + j)"

lemma length_word_of [simp]: "length (word_of L l j) = l"
  by (simp add: word_of_def)

lemma valid_code_less: "fits L \<Longrightarrow> valid_code L l j \<Longrightarrow> first_code L l + j < 2 ^ l"
  unfolding valid_code_def using code_less by blast

lemma word_of_canonical: "valid_code L l j \<Longrightarrow> (word_of L l j, L l ! j) \<in> canonical L"
  unfolding valid_code_def word_of_def by (rule canonicalI) simp_all

lemma word_of_unique:
  assumes "fits L" "valid_code L l j" "valid_code L m k" "prefix (word_of L l j) xs" "prefix (word_of L m k) xs"
  shows "l = m \<and> j = k"
proof -
  have "word_of L l j = word_of L m k"
  proof (cases "prefix (word_of L l j) (word_of L m k)")
    case True
    then show ?thesis using canonical_prefix_free [OF assms(1)] word_of_canonical assms(2,3) by blast
  next
    case False
    then have "prefix (word_of L m k) (word_of L l j)" using prefix_same_cases [OF assms(4,5)] by blast
    then show ?thesis using canonical_prefix_free [OF assms(1)] word_of_canonical assms(2,3) by metis
  qed
  then have l: "l = m" by (metis length_word_of)
  then have "codeword l (first_code L l + j) = codeword l (first_code L l + k)"
    using \<open>word_of L l j = word_of L m k\<close> by (simp add: word_of_def)
  then show ?thesis
    using l valid_code_less [OF assms(1)] assms(2,3) by (simp add: codeword_inj)
qed

section \<open>The root\<close>

definition written :: "(nat \<Rightarrow> nat list) \<Rightarrow> nat \<Rightarrow> code list \<Rightarrow> (nat \<times> nat) set \<Rightarrow> bool" where
  "written L tb rt P \<longleftrightarrow> (\<forall>(l, j)\<in>P. \<forall>i<2 ^ tb. prefix (word_of L l j) (bits_of_nat tb i) \<longrightarrow> rt ! i = code_new l (L l ! j))"

lemma root_step_written:
  assumes f: "fits L" and v: "valid_code L l j" and l: "l \<le> tb" and tb: "2 ^ tb \<le> length rt"
    and P: "\<forall>(m, k)\<in>P. valid_code L m k \<and> (m, k) \<noteq> (l, j)" and w: "written L tb rt P"
    and st: "root_step (2 ^ tb) (2 ^ l) l (L l ! j) (rt, first_code L l + j) = (rt', code')"
  shows "written L tb rt' (insert (l, j) P)" "code' = first_code L l + Suc j" "length rt' = length rt"
proof -
  let ?f = "\<lambda>t. replicate_code t (key_of (first_code L l + j) l) (2 ^ l) (code_new l (L l ! j))"
  have l16: "l \<le> 16" using v by (simp add: valid_code_def MAX_LENGTH_def)
  have rt': "rt' = on_slice 0 (2 ^ tb) ?f rt" and "code' = first_code L l + Suc j"
    using st by (simp_all add: root_step_def)
  then show "code' = first_code L l + Suc j" by simp
  have n: "rt' ! i = (if prefix (word_of L l j) (bits_of_nat tb i) then code_new l (L l ! j) else rt ! i)"
    if i: "i < 2 ^ tb" for i
  proof -
    have "rt' ! i = ?f (take (2 ^ tb) rt) ! i"
      using nth_on_slice(1) [of 0 "2 ^ tb" rt ?f i] tb i by (simp add: rt')
    also have "\<dots> = (if prefix (word_of L l j) (bits_of_nat tb i) then code_new l (L l ! j) else take (2 ^ tb) rt ! i)"
      using replicate_codeword [of l tb i "take (2 ^ tb) rt" 0 "word_of L l j"] l i tb
      by (simp add: key_of_codeword [OF l16] word_of_def)
    finally show ?thesis using i by simp
  qed
  show "length rt' = length rt"
  proof (cases "rt = []")
    case False
    then show ?thesis using nth_on_slice(2) [of 0 "2 ^ tb" rt ?f 0] tb by (simp add: rt')
  qed (use tb in simp)
  show "written L tb rt' (insert (l, j) P)"
    unfolding written_def
  proof (safe)
    fix i assume "i < (2::nat) ^ tb" "prefix (word_of L l j) (bits_of_nat tb i)"
    then show "rt' ! i = code_new l (L l ! j)" by (simp add: n)
  next
    fix m k i assume mk: "(m, k) \<in> P" and i: "i < (2::nat) ^ tb" and p: "prefix (word_of L m k) (bits_of_nat tb i)"
    have "\<not> prefix (word_of L l j) (bits_of_nat tb i)"
      using word_of_unique [OF f v _ _ p] P mk by blast
    then show "rt' ! i = code_new m (L m ! k)" using w mk i p by (auto simp: n written_def)
  qed
qed

lemma root_symbols_written:
  assumes f: "fits L" and l: "1 \<le> l" "l \<le> MAX_LENGTH" "l \<le> tb" and j: "j \<le> length (L l)"
    and tb: "2 ^ tb \<le> length rt"
    and P: "\<forall>(m, k)\<in>P. valid_code L m k \<and> m \<noteq> l" and w: "written L tb rt (P \<union> {(l, k) | k. k < j})"
  shows "\<exists>rt'. fold (root_step (2 ^ tb) (2 ^ l) l) (drop j (L l)) (rt, first_code L l + j) = (rt', first_code L l + length (L l))
    \<and> written L tb rt' (P \<union> {(l, k) | k. k < length (L l)}) \<and> length rt' = length rt"
  using j tb w
proof (induction "length (L l) - j" arbitrary: j rt)
  case 0
  then show ?case by simp
next
  case (Suc d)
  then have j: "j < length (L l)" by simp
  then have v: "valid_code L l j" using l by (simp add: valid_code_def)
  obtain rt1 c1 where st: "root_step (2 ^ tb) (2 ^ l) l (L l ! j) (rt, first_code L l + j) = (rt1, c1)" by fastforce
  have P': "\<forall>(m, k)\<in>P \<union> {(l, k) | k. k < j}. valid_code L m k \<and> (m, k) \<noteq> (l, j)"
    using P l j by (auto simp: valid_code_def)
  note s = root_step_written [OF f v l(3) Suc.prems(2) P' Suc.prems(3) st]
  have ins: "insert (l, j) (P \<union> {(l, k) | k. k < j}) = P \<union> {(l, k) | k. k < Suc j}" by auto
  have "drop j (L l) = L l ! j # drop (Suc j) (L l)" using j by (simp add: Cons_nth_drop_Suc)
  then have "fold (root_step (2 ^ tb) (2 ^ l) l) (drop j (L l)) (rt, first_code L l + j) =
      fold (root_step (2 ^ tb) (2 ^ l) l) (drop (Suc j) (L l)) (rt1, first_code L l + Suc j)"
    using st s(2) by simp
  moreover have "2 ^ tb \<le> length rt1" using s(3) Suc.prems(2) by simp
  ultimately show ?case
    using Suc.hyps(1) [of "Suc j" rt1] Suc.hyps(2) j s(1,3) unfolding ins by simp
qed

definition short_codes :: "(nat \<Rightarrow> nat list) \<Rightarrow> nat \<Rightarrow> (nat \<times> nat) set" where
  "short_codes L n = {(l, j). 1 \<le> l \<and> l \<le> n \<and> j < length (L l)}"

lemma root_lengths_written:
  assumes ok: "lists_ok b L" and f: "fits L" and n: "n \<le> tb" "n \<le> MAX_LENGTH" and tb: "2 ^ tb \<le> length rt"
  shows "\<exists>rt'. fold (root_length b (2 ^ tb)) [1..<n + 1] (rt, 0, 2) = (rt', first_code L (Suc n), 2 ^ Suc n)
    \<and> written L tb rt' (short_codes L n) \<and> length rt' = length rt"
  using n
proof (induction n)
  case 0
  then show ?case by (auto simp: written_def short_codes_def)
next
  case (Suc n)
  then obtain rt1 where IH: "fold (root_length b (2 ^ tb)) [1..<n + 1] (rt, 0, 2) = (rt1, first_code L (Suc n), 2 ^ Suc n)"
    "written L tb rt1 (short_codes L n)" "length rt1 = length rt" by auto
  have P: "\<forall>(m, k)\<in>short_codes L n. valid_code L m k \<and> m \<noteq> Suc n"
    using Suc.prems by (auto simp: short_codes_def valid_code_def)
  have w: "written L tb rt1 (short_codes L n \<union> {(Suc n, k) | k. k < 0})" using IH(2) by simp
  have tb1: "2 ^ tb \<le> length rt1" using tb IH(3) by simp
  obtain rt2 where r: "fold (root_step (2 ^ tb) (2 ^ Suc n) (Suc n)) (drop 0 (L (Suc n))) (rt1, first_code L (Suc n) + 0) =
      (rt2, first_code L (Suc n) + length (L (Suc n)))"
    "written L tb rt2 (short_codes L n \<union> {(Suc n, k) | k. k < length (L (Suc n))})" "length rt2 = length rt1"
    using root_symbols_written [OF f _ _ _ _ tb1 P w] Suc.prems by auto
  have "short_codes L n \<union> {(Suc n, k) | k. k < length (L (Suc n))} = short_codes L (Suc n)"
    by (auto simp: short_codes_def le_Suc_eq)
  moreover have "symbols_at b (Suc n) = L (Suc n)" using walk_list [OF ok] Suc.prems by simp
  moreover have "[1..<Suc n + 1] = [1..<n + 1] @ [Suc n]" by simp
  moreover have "2 * (first_code L (Suc n) + length (L (Suc n))) = first_code L (Suc (Suc n))" by simp
  moreover have "root_length b (2 ^ tb) (Suc n) (rt1, first_code L (Suc n), 2 ^ Suc n) =
      (rt2, 2 * (first_code L (Suc n) + length (L (Suc n))), 2 * 2 ^ Suc n)"
    unfolding root_length_def prod.case calculation(2) using r(1)
    by (simp only: drop_0 add_0_right prod.case)
  ultimately show ?case
    using IH(1,3) r(2,3) by (simp only: fold_append fold_simps comp_apply power_Suc) simp
qed

lemma double_root_nth:
  assumes "d + tb = ROOT_BITS" "length rt = ROOT_SIZE" "i < ROOT_SIZE"
  shows "length (double_root rt (2 ^ tb)) = ROOT_SIZE \<and> double_root rt (2 ^ tb) ! i = rt ! (i mod 2 ^ tb)"
  using assms
proof (induction d arbitrary: tb rt)
  case 0
  have "double_root rt ROOT_SIZE = rt" by (subst double_root.simps) simp
  with 0 show ?case by (simp add: ROOT_SIZE_def)
next
  case (Suc d)
  let ?c = "2 ^ tb :: nat"
  have size: "ROOT_SIZE = 2 * ?c * 2 ^ d"
    unfolding ROOT_SIZE_def Suc.prems(1) [symmetric] by (simp add: power_add)
  have c: "2 * ?c \<le> ROOT_SIZE" unfolding size by simp
  let ?rt = "take ?c rt @ take ?c rt @ drop (2 * ?c) rt"
  have len: "length ?rt = ROOT_SIZE" using Suc.prems(2) c by simp
  have "double_root rt ?c = double_root ?rt (2 ^ Suc tb)"
    using c by (subst double_root.simps) (simp add: order_less_le_trans [of ?c "2 * ?c"])
  moreover have "?rt ! (i mod 2 ^ Suc tb) = rt ! (i mod ?c)"
  proof -
    define m where "m = i mod 2 ^ Suc tb"
    have lt: "m < 2 * ?c" by (simp add: m_def)
    have mm: "m mod ?c = i mod ?c" unfolding m_def by (rule residue_residue) simp
    show ?thesis
    proof (cases "m < ?c")
      case True
      then have "m = i mod ?c" using mm by simp
      then show ?thesis unfolding m_def [symmetric] using True Suc.prems(2) c by (simp add: nth_append)
    next
      case False
      then have "m - ?c = m mod ?c" using lt by (simp add: le_mod_geq)
      then show ?thesis unfolding m_def [symmetric] using False lt mm Suc.prems(2) c by (simp add: nth_append)
    qed
  qed
  ultimately show ?case using Suc.IH [of "Suc tb" ?rt] Suc.prems len by simp
qed

lemma root_carries:
  assumes ok: "lists_ok b L" and f: "fits L" and tb: "tb \<le> ROOT_BITS" and len: "length rt = ROOT_SIZE"
  obtains rt' where "fold (root_length b (2 ^ tb)) [1..<tb + 1] (rt, 0, 2) = (rt', first_code L (Suc tb), 2 ^ Suc tb)"
    "length (double_root rt' (2 ^ tb)) = ROOT_SIZE"
    "\<And>l j i. valid_code L l j \<Longrightarrow> l \<le> tb \<Longrightarrow> i < ROOT_SIZE \<Longrightarrow> prefix (word_of L l j) (bits_of_nat ROOT_BITS i) \<Longrightarrow>
       double_root rt' (2 ^ tb) ! i = code_new l (L l ! j)"
proof -
  have "(2::nat) ^ tb \<le> 2 ^ ROOT_BITS" using tb by (rule power_increasing) simp
  then have "2 ^ tb \<le> length rt" by (simp add: len ROOT_SIZE_def)
  moreover have "tb \<le> MAX_LENGTH" using tb by (simp add: MAX_LENGTH_def ROOT_BITS_def)
  ultimately obtain rt' where r: "fold (root_length b (2 ^ tb)) [1..<tb + 1] (rt, 0, 2) = (rt', first_code L (Suc tb), 2 ^ Suc tb)"
    "written L tb rt' (short_codes L tb)" "length rt' = length rt"
    using root_lengths_written [OF ok f order_refl, of tb rt] by blast
  have d: "(ROOT_BITS - tb) + tb = ROOT_BITS" using tb by simp
  note dr = double_root_nth [OF d r(3) [unfolded len]]
  show thesis
  proof (rule that [OF r(1)])
    show "length (double_root rt' (2 ^ tb)) = ROOT_SIZE" using dr [of 0] by (simp add: ROOT_SIZE_def)
    fix l j i assume v: "valid_code L l j" "l \<le> tb" and i: "i < ROOT_SIZE" and p: "prefix (word_of L l j) (bits_of_nat ROOT_BITS i)"
    have "bits_of_nat tb (i mod 2 ^ tb) = bits_of_nat tb i" by (metis bits_of_nat_take_bit order_refl take_bit_eq_mod)
    then have "prefix (word_of L l j) (bits_of_nat tb (i mod 2 ^ tb))" using p v(2) by (simp add: prefix_bits_of_nat)
    moreover have "(l, j) \<in> short_codes L tb" using v by (simp add: short_codes_def valid_code_def)
    ultimately have "rt' ! (i mod 2 ^ tb) = code_new l (L l ! j)" using r(2) unfolding written_def by auto
    then show "double_root rt' (2 ^ tb) ! i = code_new l (L l ! j)" using dr [OF i] by simp
  qed
qed

section \<open>Blocks and their widths\<close>

definition block_of :: "nat \<Rightarrow> nat \<Rightarrow> nat" where
  "block_of l c = c div 2 ^ (l - ROOT_BITS)"

definition block_key :: "nat \<Rightarrow> nat" where
  "block_key p = nat_of_bits (codeword ROOT_BITS p)"

definition covers :: "(nat \<Rightarrow> nat list) \<Rightarrow> nat \<Rightarrow> nat \<Rightarrow> bool" where
  "covers L p w \<longleftrightarrow> (\<forall>l j. valid_code L l j \<and> ROOT_BITS < l \<and> block_of l (first_code L l + j) = p \<longrightarrow> l \<le> ROOT_BITS + w)"

lemma block_key_less: "block_key p < ROOT_SIZE"
  using nat_of_bits_less [of "codeword ROOT_BITS p"] by (simp add: block_key_def ROOT_SIZE_def)

lemma block_key_inj:
  assumes "block_key p = block_key q" "p < ROOT_SIZE" "q < ROOT_SIZE" shows "p = q"
proof -
  have "codeword ROOT_BITS p = codeword ROOT_BITS q"
    using assms(1) bits_of_nat_of_bits [of "codeword ROOT_BITS p"] bits_of_nat_of_bits [of "codeword ROOT_BITS q"]
    unfolding block_key_def by simp
  then show ?thesis using assms(2,3) by (simp add: codeword_inj ROOT_SIZE_def)
qed

lemma take_word_of: "ROOT_BITS \<le> l \<Longrightarrow> take ROOT_BITS (word_of L l j) = codeword ROOT_BITS (block_of l (first_code L l + j))"
  by (simp add: word_of_def take_codeword_eq block_of_def)

lemma key_parts:
  assumes "ROOT_BITS \<le> l" "l \<le> MAX_LENGTH"
  shows "key_of (first_code L l + j) l AND (ROOT_SIZE - 1) = block_key (block_of l (first_code L l + j))"
    and "shr (key_of (first_code L l + j) l) ROOT_BITS = nat_of_bits (drop ROOT_BITS (word_of L l j))"
proof -
  have k: "key_of (first_code L l + j) l = nat_of_bits (word_of L l j)"
    unfolding word_of_def by (rule key_of_codeword) (use assms in \<open>simp add: MAX_LENGTH_def\<close>)
  show "key_of (first_code L l + j) l AND (ROOT_SIZE - 1) = block_key (block_of l (first_code L l + j))"
    unfolding k root_mask nat_of_bits_take [symmetric] take_word_of [OF assms(1)] block_key_def ..
  show "shr (key_of (first_code L l + j) l) ROOT_BITS = nat_of_bits (drop ROOT_BITS (word_of L l j))"
    unfolding k shr_nat_of_bits ..
qed

lemma table_bits_loop:
  assumes "ROOT_BITS < m" "m \<le> MAX_LENGTH" "left = int ((p + 1) * 2 ^ (m - ROOT_BITS)) - int start"
    "start + remaining ! m = used_codes L m" "\<And>k. m < k \<Longrightarrow> k \<le> MAX_LENGTH \<Longrightarrow> remaining ! k = length (L k)"
  shows "m - ROOT_BITS \<le> table_bits_from remaining left m \<and> table_bits_from remaining left m \<le> MAX_LENGTH - ROOT_BITS \<and>
    (table_bits_from remaining left m = MAX_LENGTH - ROOT_BITS \<or>
     (p + 1) * 2 ^ table_bits_from remaining left m \<le> used_codes L (ROOT_BITS + table_bits_from remaining left m))"
  using assms
proof (induction "MAX_LENGTH - m" arbitrary: m left start)
  case 0
  then have "table_bits_from remaining left m = MAX_LENGTH - ROOT_BITS" by (subst table_bits_from.simps) simp
  then show ?case using 0 by simp
next
  case (Suc d)
  then have m: "m < MAX_LENGTH" by simp
  define left' where "left' = left - int (remaining ! m)"
  have l': "left' = int ((p + 1) * 2 ^ (m - ROOT_BITS)) - int (used_codes L m)"
    using Suc.prems(3,4) by (simp add: left'_def)
  show ?case
  proof (cases "left' \<le> 0")
    case True
    then have t: "table_bits_from remaining left m = m - ROOT_BITS"
      using m by (subst table_bits_from.simps) (simp add: left'_def)
    have "(p + 1) * 2 ^ (m - ROOT_BITS) \<le> used_codes L m" using True unfolding l' by linarith
    then show ?thesis unfolding t using Suc.prems(1,2) by simp
  next
    case False
    then have t: "table_bits_from remaining left m = table_bits_from remaining (left' * 2) (Suc m)"
      using m by (subst table_bits_from.simps) (simp add: left'_def)
    have sd: "Suc m - ROOT_BITS = Suc (m - ROOT_BITS)" using Suc.prems(1) by simp
    have "left' * 2 = int ((p + 1) * 2 ^ (Suc m - ROOT_BITS)) - int (first_code L (Suc m))"
      unfolding l' sd by (simp add: algebra_simps)
    moreover have "first_code L (Suc m) + remaining ! Suc m = used_codes L (Suc m)"
      using Suc.prems(5) [of "Suc m"] m by simp
    ultimately have "Suc m - ROOT_BITS \<le> table_bits_from remaining (left' * 2) (Suc m) \<and>
        table_bits_from remaining (left' * 2) (Suc m) \<le> MAX_LENGTH - ROOT_BITS \<and>
        (table_bits_from remaining (left' * 2) (Suc m) = MAX_LENGTH - ROOT_BITS \<or>
         (p + 1) * 2 ^ table_bits_from remaining (left' * 2) (Suc m)
           \<le> used_codes L (ROOT_BITS + table_bits_from remaining (left' * 2) (Suc m)))"
      using Suc.hyps(2) Suc.prems(1,5) m by (intro Suc.hyps(1)) simp_all
    then show ?thesis unfolding t by auto
  qed
qed

lemma next_table_bits_covers:
  assumes l: "ROOT_BITS < l" "l \<le> MAX_LENGTH" and j: "j < length (L l)"
    and p: "first_code L l + j = p * 2 ^ (l - ROOT_BITS)"
    and r: "remaining ! l = length (L l) - j" "\<And>m. l < m \<Longrightarrow> m \<le> MAX_LENGTH \<Longrightarrow> remaining ! m = length (L m)"
  shows "0 < next_table_bits remaining l" "next_table_bits remaining l \<le> 7" "covers L p (next_table_bits remaining l)"
proof -
  let ?w = "next_table_bits remaining l"
  have "used_codes L l = first_code L l + length (L l)" using l by (simp add: used_codes_first)
  then have st: "(first_code L l + j) + remaining ! l = used_codes L l" using j r(1) by simp
  have "(2::int) ^ (l - ROOT_BITS) = int ((p + 1) * 2 ^ (l - ROOT_BITS)) - int (first_code L l + j)"
    unfolding p by (simp add: algebra_simps)
  note t = table_bits_loop [OF l this st r(2), folded next_table_bits_def]
  have "l - ROOT_BITS \<le> ?w" using t by blast
  then show "0 < ?w" using l by linarith
  show "?w \<le> 7" using t by (simp add: MAX_LENGTH_def ROOT_BITS_def)
  show "covers L p ?w"
    unfolding covers_def
  proof (intro allI impI)
    fix m k assume a: "valid_code L m k \<and> ROOT_BITS < m \<and> block_of m (first_code L m + k) = p"
    show "m \<le> ROOT_BITS + ?w"
    proof (rule ccontr)
      assume lt: "\<not> m \<le> ROOT_BITS + ?w"
      with a have "?w \<noteq> MAX_LENGTH - ROOT_BITS" by (auto simp: valid_code_def)
      then have u: "(p + 1) * 2 ^ ?w \<le> used_codes L (ROOT_BITS + ?w)" using t by simp
      have "(p + 1) * 2 ^ (m - ROOT_BITS) = (p + 1) * 2 ^ ?w * 2 ^ (m - (ROOT_BITS + ?w))"
      proof -
        have "(2::nat) ^ (m - ROOT_BITS) = 2 ^ ?w * 2 ^ (m - (ROOT_BITS + ?w))"
          unfolding power_add [symmetric] using lt by (intro arg_cong [where f = "(^) 2"]) simp
        then show ?thesis by (simp only: mult.assoc)
      qed
      also have "\<dots> \<le> used_codes L (ROOT_BITS + ?w) * 2 ^ (m - (ROOT_BITS + ?w))" using u by (rule mult_right_mono) simp
      also have "\<dots> \<le> first_code L m" by (rule used_below_first) (use lt in simp)
      finally have "p + 1 \<le> (first_code L m + k) div 2 ^ (m - ROOT_BITS)"
        by (simp add: less_eq_div_iff_mult_less_eq)
      with a show False by (simp add: block_of_def)
    qed
  qed
qed

section \<open>The second level\<close>

definition long_codes :: "(nat \<Rightarrow> nat list) \<Rightarrow> nat \<Rightarrow> nat \<Rightarrow> (nat \<times> nat) set" where
  "long_codes L l j = {(m, k). valid_code L m k \<and> ROOT_BITS < m \<and> (m < l \<or> m = l \<and> k < j)}"

definition tables_ok :: "(nat \<Rightarrow> nat list) \<Rightarrow> nat \<Rightarrow> nat \<Rightarrow> code list \<Rightarrow> nat \<Rightarrow> nat \<Rightarrow> (nat \<times> nat) set \<Rightarrow>
    filling \<Rightarrow> (nat \<Rightarrow> (nat \<times> nat) option) \<Rightarrow> bool" where
  "tables_ok L base N rt0 l hi P f st \<longleftrightarrow>
     f_step f = 2 ^ (l - ROOT_BITS) \<and> length (f_root f) = ROOT_SIZE \<and> length (f_second f) = N \<and> f_appended f \<le> N \<and>
     length (f_remaining f) = MAX_LENGTH + 1 \<and> (\<forall>m. l < m \<and> m \<le> MAX_LENGTH \<longrightarrow> f_remaining f ! m = length (L m)) \<and>
     (f_low f = 2 ^ 64 - 1 \<or> (\<exists>p. st p \<noteq> None \<and> f_low f = block_key p)) \<and>
     (\<forall>p s w. st p = Some (s, w) \<longrightarrow> p < ROOT_SIZE \<and> p * 2 ^ (l - ROOT_BITS) < hi \<and> 0 < w \<and> w \<le> 7 \<and>
        s + 2 ^ w \<le> f_appended f \<and> f_root f ! block_key p = code_new (w + ROOT_BITS) (base + s) \<and> covers L p w \<and> used_codes L ROOT_BITS \<le> p) \<and>
     (\<forall>p s w q t v. st p = Some (s, w) \<and> st q = Some (t, v) \<and> p \<noteq> q \<longrightarrow> s + 2 ^ w \<le> t \<or> t + 2 ^ v \<le> s) \<and>
     (\<forall>i<ROOT_SIZE. (\<forall>p. st p \<noteq> None \<longrightarrow> i \<noteq> block_key p) \<longrightarrow> f_root f ! i = rt0 ! i) \<and>
     (\<forall>(m, k)\<in>P. \<exists>s w. st (block_of m (first_code L m + k)) = Some (s, w) \<and>
        (\<forall>i<2 ^ w. prefix (drop ROOT_BITS (word_of L m k)) (bits_of_nat w i) \<longrightarrow>
           f_second f ! (s + i) = code_new (m - ROOT_BITS) (L m ! k)))"

lemma tables_okD:
  assumes "tables_ok L base N rt0 l hi P f st"
  shows "f_step f = 2 ^ (l - ROOT_BITS)" "length (f_root f) = ROOT_SIZE" "length (f_second f) = N" "f_appended f \<le> N"
    "length (f_remaining f) = MAX_LENGTH + 1" "l < m \<Longrightarrow> m \<le> MAX_LENGTH \<Longrightarrow> f_remaining f ! m = length (L m)"
    and "f_low f = 2 ^ 64 - 1 \<or> (\<exists>p. st p \<noteq> None \<and> f_low f = block_key p)"
    and "st p = Some (s, w) \<Longrightarrow> p < ROOT_SIZE" "st p = Some (s, w) \<Longrightarrow> p * 2 ^ (l - ROOT_BITS) < hi"
    "st p = Some (s, w) \<Longrightarrow> 0 < w" "st p = Some (s, w) \<Longrightarrow> w \<le> 7" "st p = Some (s, w) \<Longrightarrow> s + 2 ^ w \<le> f_appended f"
    "st p = Some (s, w) \<Longrightarrow> f_root f ! block_key p = code_new (w + ROOT_BITS) (base + s)" "st p = Some (s, w) \<Longrightarrow> covers L p w"
    and "st p = Some (s, w) \<Longrightarrow> st q = Some (t, v) \<Longrightarrow> p \<noteq> q \<Longrightarrow> s + 2 ^ w \<le> t \<or> t + 2 ^ v \<le> s"
    and "i < ROOT_SIZE \<Longrightarrow> (\<And>p. st p \<noteq> None \<Longrightarrow> i \<noteq> block_key p) \<Longrightarrow> f_root f ! i = rt0 ! i"
    and "(m, k) \<in> P \<Longrightarrow> \<exists>s w. st (block_of m (first_code L m + k)) = Some (s, w) \<and>
        (\<forall>i<2 ^ w. prefix (drop ROOT_BITS (word_of L m k)) (bits_of_nat w i) \<longrightarrow>
           f_second f ! (s + i) = code_new (m - ROOT_BITS) (L m ! k))"
    and "st p = Some (s, w) \<Longrightarrow> used_codes L ROOT_BITS \<le> p"
  using assms unfolding tables_ok_def by blast+

text \<open>\<open>current_ok\<close>: the table of the block of \<open>c\<close> is the one being filled.\<close>

definition current_ok :: "nat \<Rightarrow> nat \<Rightarrow> filling \<Rightarrow> (nat \<Rightarrow> (nat \<times> nat) option) \<Rightarrow> bool" where
  "current_ok l c f st \<longleftrightarrow> f_low f = block_key (block_of l c) \<and>
     (\<exists>w. st (block_of l c) = Some (f_start f, w) \<and> f_size f = 2 ^ w)"

definition filling_ok :: "(nat \<Rightarrow> nat list) \<Rightarrow> nat \<Rightarrow> nat \<Rightarrow> code list \<Rightarrow> nat \<Rightarrow> nat \<Rightarrow> filling \<Rightarrow>
    (nat \<Rightarrow> (nat \<times> nat) option) \<Rightarrow> bool" where
  "filling_ok L base N rt0 l j f st \<longleftrightarrow> f_code f = first_code L l + j \<and>
     tables_ok L base N rt0 l (first_code L l + j) (long_codes L l j) f st \<and>
     ((first_code L l + j) mod 2 ^ (l - ROOT_BITS) \<noteq> 0 \<longrightarrow> current_ok l (first_code L l + j) f st)"

text \<open>The part of \<open>second_step\<close> that opens a table.\<close>

definition open_table :: "nat list \<Rightarrow> nat \<Rightarrow> nat \<Rightarrow> nat \<Rightarrow> filling \<Rightarrow> filling" where
  "open_table counts base l placed f =
     (let low = key_of (f_code f) l AND (ROOT_SIZE - 1);
          remaining = (f_remaining f)[l := counts ! l - placed];
          bits = next_table_bits remaining l
      in if low \<noteq> f_low f then
           f\<lparr>f_remaining := remaining, f_appended := f_appended f + 2 ^ bits, f_low := low,
             f_root := (f_root f)[low := code_new (bits + ROOT_BITS) (base + f_appended f)],
             f_start := f_appended f, f_size := 2 ^ bits\<rparr>
         else f)"

definition write_code :: "nat \<Rightarrow> nat \<Rightarrow> filling \<Rightarrow> filling" where
  "write_code l symbol f =
     f\<lparr>f_second := on_slice (f_start f) (f_size f)
         (\<lambda>t. replicate_code t (shr (key_of (f_code f) l) ROOT_BITS) (f_step f) (code_new (l - ROOT_BITS) symbol)) (f_second f),
       f_code := f_code f + 1\<rparr>"

lemma second_step_eq:
  assumes "f_appended (open_table counts base l placed f) \<le> length (f_second f)"
  shows "second_step counts base l (placed, symbol) f = Inr (write_code l symbol (open_table counts base l placed f))"
  using assms by (auto simp: second_step_def open_table_def write_code_def Let_def split: if_splits)

lemma size_step_open:
  "size_step counts l placed (f_code f, f_remaining f, f_appended f, f_low f) =
     (let f' = write_code l symbol (open_table counts base l placed f) in (f_code f', f_remaining f', f_appended f', f_low f'))"
  by (simp add: size_step_def open_table_def write_code_def Let_def)

lemma block_less:
  assumes "fits L" "valid_code L l j" "ROOT_BITS \<le> l"
  shows "block_of l (first_code L l + j) < ROOT_SIZE"
proof -
  have "first_code L l + j < 2 ^ ROOT_BITS * 2 ^ (l - ROOT_BITS)"
    using valid_code_less [OF assms(1,2)] assms(3) by (simp flip: power_add)
  then show ?thesis unfolding block_of_def ROOT_SIZE_def by (simp add: less_mult_imp_div_less)
qed

lemma usize_max_key: "block_key p \<noteq> 2 ^ 64 - 1"
  using block_key_less [of p] by (simp add: ROOT_SIZE_def ROOT_BITS_def)

lemma open_table_ok:
  assumes f: "fits L" and l: "ROOT_BITS < l" and v: "valid_code L l j" and counts: "counts ! l = length (L l)"
    and inv: "filling_ok L base N rt0 l j f st" and room: "f_appended (open_table counts base l j f) \<le> N"
  defines "c \<equiv> first_code L l + j"
  shows "\<exists>st'. tables_ok L base N rt0 l (Suc c) (long_codes L l j) (open_table counts base l j f) st' \<and>
    current_ok l c (open_table counts base l j f) st' \<and> f_code (open_table counts base l j f) = c"
proof -
  have code: "f_code f = c" and tabs: "tables_ok L base N rt0 l c (long_codes L l j) f st"
    and cur: "c mod 2 ^ (l - ROOT_BITS) \<noteq> 0 \<longrightarrow> current_ok l c f st"
    using inv by (simp_all add: filling_ok_def c_def)
  note t = tables_okD [OF tabs]
  have lm: "l \<le> MAX_LENGTH" using v by (simp add: valid_code_def)
  define p where "p = block_of l c"
  have key: "key_of c l AND (ROOT_SIZE - 1) = block_key p"
    unfolding p_def c_def using key_parts(1) l lm by simp
  have p: "p < ROOT_SIZE" unfolding p_def c_def by (rule block_less [OF f v]) (use l in simp)
  have weaken: "tables_ok L base N rt0 l (Suc c) (long_codes L l j) f st"
    using tabs unfolding tables_ok_def by (blast intro: less_SucI)
  show ?thesis
  proof (cases "c mod 2 ^ (l - ROOT_BITS) = 0")
    case False
    then have "current_ok l c f st" using cur by simp
    moreover from this have "open_table counts base l j f = f"
      unfolding open_table_def Let_def code key by (simp add: current_ok_def p_def)
    ultimately show ?thesis using weaken code by auto
  next
    case True
    then have cp: "c = p * 2 ^ (l - ROOT_BITS)" unfolding p_def block_of_def by (metis add.right_neutral div_mult_mod_eq)
    have above: "used_codes L ROOT_BITS \<le> p"
    proof -
      have "used_codes L ROOT_BITS * 2 ^ (l - ROOT_BITS) \<le> p * 2 ^ (l - ROOT_BITS)"
        using used_below_first [OF l, of L] unfolding cp [symmetric] c_def by linarith
      then show ?thesis by simp
    qed
    have fresh: "st p = None"
    proof (rule ccontr)
      assume "st p \<noteq> None"
      then show False using t(9) cp by (metis less_irrefl not_Some_eq prod.exhaust)
    qed
    have other: "block_key q \<noteq> block_key p" if "st q \<noteq> None" for q
      using block_key_inj [OF _ _ p, of q] t(8) that fresh by (metis not_Some_eq prod.exhaust)
    have low: "block_key p \<noteq> f_low f" using t(7) other usize_max_key by metis
    define rem where "rem = (f_remaining f)[l := counts ! l - j]"
    define w where "w = next_table_bits rem l"
    define f' where "f' = open_table counts base l j f"
    have f': "f' = f\<lparr>f_remaining := rem, f_appended := f_appended f + 2 ^ w, f_low := block_key p,
        f_root := (f_root f)[block_key p := code_new (w + ROOT_BITS) (base + f_appended f)],
        f_start := f_appended f, f_size := 2 ^ w\<rparr>"
      unfolding f'_def open_table_def Let_def code key rem_def w_def using low by simp
    have jl: "j < length (L l)" using v by (simp add: valid_code_def)
    have r: "rem ! l = length (L l) - j" "\<And>m. l < m \<Longrightarrow> m \<le> MAX_LENGTH \<Longrightarrow> rem ! m = length (L m)"
      using t(5,6) lm counts by (simp_all add: rem_def)
    note w = next_table_bits_covers [OF l lm jl cp [unfolded c_def] r, folded w_def]
    define st' where "st' = st(p \<mapsto> (f_appended f, w))"
    have apart: "s + 2 ^ u \<le> f_appended f" if "st' q = Some (s, u)" "q \<noteq> p" for q s u
      using t(12) that by (simp add: st'_def)
    have room': "f_appended f + 2 ^ w \<le> N" using room by (simp add: f'_def [symmetric] f')
    have "tables_ok L base N rt0 l (Suc c) (long_codes L l j) f' st'"
      unfolding tables_ok_def
    proof (intro conjI allI impI ballI)
      show "f_step f' = 2 ^ (l - ROOT_BITS)" "length (f_root f') = ROOT_SIZE" "length (f_second f') = N"
        "f_appended f' \<le> N" "length (f_remaining f') = MAX_LENGTH + 1"
        using t(1-3,5) room' by (simp_all add: f' rem_def)
      show "f_remaining f' ! m = length (L m)" if "l < m \<and> m \<le> MAX_LENGTH" for m using r(2) that by (simp add: f')
      show "f_low f' = 2 ^ 64 - 1 \<or> (\<exists>p. st' p \<noteq> None \<and> f_low f' = block_key p)"
        by (intro disjI2 exI [of _ p]) (simp add: f' st'_def)
    next
      fix q s u assume q: "st' q = Some (s, u)"
      have "q < ROOT_SIZE \<and> q * 2 ^ (l - ROOT_BITS) < Suc c \<and> 0 < u \<and> u \<le> 7 \<and> s + 2 ^ u \<le> f_appended f' \<and>
          f_root f' ! block_key q = code_new (u + ROOT_BITS) (base + s) \<and> covers L q u \<and> used_codes L ROOT_BITS \<le> q"
      proof (cases "q = p")
        case True
        then have "s = f_appended f" "u = w" using q by (simp_all add: st'_def)
        then show ?thesis using True p w cp t(2) block_key_less [of p] above by (simp add: f')
      next
        case False
        then have sq: "st q = Some (s, u)" using q by (simp add: st'_def)
        then have "block_key p \<noteq> block_key q" using other [of q] by auto
        then show ?thesis using t(8-14,18) [OF sq] by (simp add: f')
      qed
      then show "q < ROOT_SIZE" "q * 2 ^ (l - ROOT_BITS) < Suc c" "0 < u" "u \<le> 7" "s + 2 ^ u \<le> f_appended f'"
        "f_root f' ! block_key q = code_new (u + ROOT_BITS) (base + s)" "covers L q u" "used_codes L ROOT_BITS \<le> q" by blast+
    next
      fix q s u r t' v' assume a: "st' q = Some (s, u) \<and> st' r = Some (t', v') \<and> q \<noteq> r"
      show "s + 2 ^ u \<le> t' \<or> t' + 2 ^ v' \<le> s"
      proof (cases "q = p \<or> r = p")
        case True
        then show ?thesis using a apart [of q s u] apart [of r t' v'] by (auto simp: st'_def)
      next
        case False
        then show ?thesis using t(15) [of q s u r t' v'] a by (simp add: st'_def)
      qed
    next
      fix i assume i: "i < ROOT_SIZE" and n: "\<forall>q. st' q \<noteq> None \<longrightarrow> i \<noteq> block_key q"
      then have "i \<noteq> block_key p" by (auto simp: st'_def)
      moreover have "f_root f ! i = rt0 ! i" using n by (intro t(16) [OF i]) (simp add: st'_def)
      ultimately show "f_root f' ! i = rt0 ! i" by (simp add: f')
    next
      fix mk assume "mk \<in> long_codes L l j"
      then obtain m k s u where mk: "mk = (m, k)" and s: "st (block_of m (first_code L m + k)) = Some (s, u)"
        "\<forall>i<2 ^ u. prefix (drop ROOT_BITS (word_of L m k)) (bits_of_nat u i) \<longrightarrow> f_second f ! (s + i) = code_new (m - ROOT_BITS) (L m ! k)"
        using t(17) by (cases mk) blast
      have "st' (block_of m (first_code L m + k)) = Some (s, u)" using s(1) fresh by (auto simp: st'_def)
      with s(2) show "case mk of (m, k) \<Rightarrow> \<exists>s w. st' (block_of m (first_code L m + k)) = Some (s, w) \<and>
          (\<forall>i<2 ^ w. prefix (drop ROOT_BITS (word_of L m k)) (bits_of_nat w i) \<longrightarrow> f_second f' ! (s + i) = code_new (m - ROOT_BITS) (L m ! k))"
        by (auto simp: mk f')
    qed
    moreover have "current_ok l c f' st'" by (simp add: current_ok_def f' st'_def p_def)
    moreover have "f_code f' = c" by (simp add: f' code)
    ultimately show ?thesis unfolding f'_def by blast
  qed
qed

lemma write_code_ok:
  assumes f: "fits L" and l: "ROOT_BITS < l" and v: "valid_code L l j" and code: "f_code f = first_code L l + j"
    and tabs: "tables_ok L base N rt0 l (Suc (first_code L l + j)) (long_codes L l j) f st"
    and cur: "current_ok l (first_code L l + j) f st"
  shows "filling_ok L base N rt0 l (Suc j) (write_code l (L l ! j) f) st"
proof -
  note t = tables_okD [OF tabs]
  have lm: "l \<le> MAX_LENGTH" using v by (simp add: valid_code_def)
  define c where "c = first_code L l + j"
  define p where "p = block_of l c"
  obtain w where w: "st p = Some (f_start f, w)" "f_size f = 2 ^ w" and low: "f_low f = block_key p"
    using cur by (auto simp: current_ok_def p_def c_def)
  have lw: "l \<le> ROOT_BITS + w"
    using t(14) [OF w(1)] v l unfolding covers_def p_def c_def by blast
  define g where "g = write_code l (L l ! j) f"
  have bound: "f_start f + 2 ^ w \<le> N" using t(4) t(12) [OF w(1)] by linarith
  have sh: "shr (key_of (f_code f) l) ROOT_BITS = nat_of_bits (drop ROOT_BITS (word_of L l j))"
    unfolding code by (rule key_parts(2)) (use l lm in simp_all)
  let ?f = "\<lambda>t. replicate_code t (nat_of_bits (drop ROOT_BITS (word_of L l j))) (2 ^ (l - ROOT_BITS)) (code_new (l - ROOT_BITS) (L l ! j))"
  have sec: "f_second g = on_slice (f_start f) (2 ^ w) ?f (f_second f)"
    unfolding g_def write_code_def sh w(2) t(1) by simp
  have rest: "f_root g = f_root f" "f_appended g = f_appended f" "f_low g = f_low f" "f_start g = f_start f" "f_size g = f_size f"
    "f_remaining g = f_remaining f" "f_step g = f_step f" "f_code g = Suc c"
    by (simp_all add: g_def write_code_def code c_def)
  have len: "length (f_second g) = N"
    unfolding sec using t(3) bound by (subst length_on_slice) simp_all
  have new: "f_second g ! (f_start f + i) = (if prefix (drop ROOT_BITS (word_of L l j)) (bits_of_nat w i)
      then code_new (l - ROOT_BITS) (L l ! j) else f_second f ! (f_start f + i))" if i: "i < 2 ^ w" for i
  proof -
    have "f_second g ! (f_start f + i) = ?f (take (2 ^ w) (drop (f_start f) (f_second f))) ! i"
      using nth_on_slice(1) [of "f_start f" "2 ^ w" "f_second f" ?f "f_start f + i"] t(3) bound i by (simp add: sec)
    also have "\<dots> = (if prefix (drop ROOT_BITS (word_of L l j)) (bits_of_nat w i)
      then code_new (l - ROOT_BITS) (L l ! j) else take (2 ^ w) (drop (f_start f) (f_second f)) ! i)"
      using lw i t(3) bound by (intro replicate_codeword) simp_all
    finally show ?thesis using i t(3) bound by simp
  qed
  have old: "f_second g ! i = f_second f ! i" if "i < N" "i < f_start f \<or> f_start f + 2 ^ w \<le> i" for i
    using nth_on_slice(1) [of "f_start f" "2 ^ w" "f_second f" ?f i] t(3) bound that by (auto simp: sec)
  have codes: "\<exists>s u. st (block_of m (first_code L m + k)) = Some (s, u) \<and>
      (\<forall>i<2 ^ u. prefix (drop ROOT_BITS (word_of L m k)) (bits_of_nat u i) \<longrightarrow>
         f_second g ! (s + i) = code_new (m - ROOT_BITS) (L m ! k))"
    if mk: "(m, k) \<in> long_codes L l (Suc j)" for m k
  proof (cases "(m, k) = (l, j)")
    case True
    then show ?thesis using new w(1) by (intro exI [of _ "f_start f"] exI [of _ w]) (simp add: p_def c_def)
  next
    case False
    then have P: "(m, k) \<in> long_codes L l j" using mk by (auto simp: long_codes_def)
    then have vm: "valid_code L m k" "ROOT_BITS < m" by (simp_all add: long_codes_def)
    obtain s u where s: "st (block_of m (first_code L m + k)) = Some (s, u)"
      "\<And>i. i < 2 ^ u \<Longrightarrow> prefix (drop ROOT_BITS (word_of L m k)) (bits_of_nat u i) \<Longrightarrow>
         f_second f ! (s + i) = code_new (m - ROOT_BITS) (L m ! k)"
      using t(17) [OF P] by blast
    have "f_second g ! (s + i) = code_new (m - ROOT_BITS) (L m ! k)"
      if i: "i < 2 ^ u" and pre: "prefix (drop ROOT_BITS (word_of L m k)) (bits_of_nat u i)" for i
    proof (cases "block_of m (first_code L m + k) = p")
      case True
      then have su: "s = f_start f" "u = w" using s(1) w(1) by simp_all
      have "\<not> prefix (drop ROOT_BITS (word_of L l j)) (bits_of_nat w i)"
      proof
        assume q: "prefix (drop ROOT_BITS (word_of L l j)) (bits_of_nat w i)"
        have split: "word_of L l' j' = codeword ROOT_BITS (block_of l' (first_code L l' + j')) @ drop ROOT_BITS (word_of L l' j')"
          if "ROOT_BITS < l'" for l' j'
          using take_word_of [of l' L j'] that by (metis append_take_drop_id less_imp_le)
        have "prefix (word_of L l j) (codeword ROOT_BITS p @ bits_of_nat w i)"
          using q split [OF l, of j] by (metis p_def c_def same_prefix_prefix)
        moreover have "prefix (word_of L m k) (codeword ROOT_BITS p @ bits_of_nat w i)"
          using pre split [OF vm(2), of k] True su(2) by (metis same_prefix_prefix)
        ultimately have "l = m \<and> j = k" by (rule word_of_unique [OF f v vm(1)])
        then show False using False by simp
      qed
      then show ?thesis using new [of i] s(2) [OF i pre] i su by simp
    next
      case False
      then have d: "s + 2 ^ u \<le> f_start f \<or> f_start f + 2 ^ w \<le> s" using t(15) [OF s(1) w(1)] by simp
      have "s + i < N" using t(4) t(12) [OF s(1)] i by linarith
      then show ?thesis using old [of "s + i"] d i s(2) [OF i pre] by auto
    qed
    then show ?thesis using s(1) by blast
  qed
  have "tables_ok L base N rt0 l (Suc c) (long_codes L l (Suc j)) g st"
    using tabs len codes unfolding tables_ok_def rest c_def by blast
  moreover have "current_ok l (Suc c) g st" if "Suc c mod 2 ^ (l - ROOT_BITS) \<noteq> 0"
  proof -
    have "block_of l (Suc c) = block_of l c" using that unfolding block_of_def by (simp add: div_Suc)
    then show ?thesis using w low by (simp add: current_ok_def rest p_def)
  qed
  ultimately show ?thesis unfolding filling_ok_def g_def [symmetric] by (simp add: rest c_def)
qed

text \<open>Walking the counts as \<open>second_size\<close> does leads to the same state.\<close>

definition sizes_of :: "filling \<Rightarrow> nat \<times> nat list \<times> nat \<times> nat" where
  "sizes_of f = (f_code f, f_remaining f, f_appended f, f_low f)"

definition appended_of :: "nat \<times> nat list \<times> nat \<times> nat \<Rightarrow> nat" where
  "appended_of st = fst (snd (snd st))"

lemma size_step_mono: "appended_of st \<le> appended_of (size_step counts l k st)"
  by (cases st) (simp add: size_step_def appended_of_def Let_def)

lemma size_fold_mono: "appended_of st \<le> appended_of (fold (size_step counts l) ks st)"
proof (induction ks arbitrary: st)
  case (Cons k ks)
  then show ?case using le_trans [OF size_step_mono Cons] by simp
qed simp

lemma size_length_mono: "appended_of st \<le> appended_of (size_length counts l st)"
proof (cases "fold (size_step counts l) [0..<counts ! l] st")
  case (fields a b c d)
  with size_fold_mono [of st counts l "[0..<counts ! l]"] show ?thesis
    by (simp add: size_length_def appended_of_def)
qed

lemma size_lengths_mono: "appended_of st \<le> appended_of (fold (size_length counts) ls st)"
proof (induction ls arbitrary: st)
  case (Cons l ls)
  then show ?case using le_trans [OF size_length_mono Cons] by simp
qed simp

lemma second_step_ok:
  assumes f: "fits L" and l: "ROOT_BITS < l" and v: "valid_code L l j" and counts: "counts ! l = length (L l)"
    and inv: "filling_ok L base N rt0 l j f st" and room: "appended_of (size_step counts l j (sizes_of f)) \<le> N"
  shows "\<exists>f' st'. second_step counts base l (j, L l ! j) f = Inr f' \<and> filling_ok L base N rt0 l (Suc j) f' st' \<and>
    sizes_of f' = size_step counts l j (sizes_of f)"
proof -
  let ?o = "open_table counts base l j f" and ?f' = "write_code l (L l ! j) (open_table counts base l j f)"
  have sz: "sizes_of ?f' = size_step counts l j (sizes_of f)"
    unfolding sizes_of_def size_step_open [of counts l j f "L l ! j" base] by (simp add: Let_def)
  then have "f_appended ?o \<le> N" using room
    unfolding sz [symmetric] by (simp add: sizes_of_def appended_of_def write_code_def)
  moreover have "length (f_second f) = N" using inv by (simp add: filling_ok_def tables_ok_def)
  moreover obtain st' where o: "tables_ok L base N rt0 l (Suc (first_code L l + j)) (long_codes L l j) ?o st'"
    "current_ok l (first_code L l + j) ?o st'" "f_code ?o = first_code L l + j"
    using open_table_ok [OF f l v counts inv calculation(1)] by blast
  ultimately show ?thesis
    using second_step_eq [of counts base l j f "L l ! j"] write_code_ok [OF f l v o(3,1,2)] sz by metis
qed

lemma second_symbols_ok:
  assumes f: "fits L" and l: "ROOT_BITS < l" "l \<le> MAX_LENGTH" and counts: "counts ! l = length (L l)"
    and j: "j \<le> length (L l)" and inv: "filling_ok L base N rt0 l j f st"
    and room: "appended_of (fold (size_step counts l) [j..<length (L l)] (sizes_of f)) \<le> N"
  shows "\<exists>f' st'. try_fold (second_step counts base l) (List.enumerate j (drop j (L l))) f = Inr f' \<and>
    filling_ok L base N rt0 l (length (L l)) f' st' \<and> sizes_of f' = fold (size_step counts l) [j..<length (L l)] (sizes_of f)"
  using j inv room
proof (induction "length (L l) - j" arbitrary: j f st)
  case 0
  then show ?case by auto
next
  case (Suc d)
  then have j: "j < length (L l)" by simp
  then have v: "valid_code L l j" using l by (simp add: valid_code_def)
  have u: "[j..<length (L l)] = j # [Suc j..<length (L l)]" using j by (simp add: upt_rec)
  have "appended_of (size_step counts l j (sizes_of f)) \<le> N"
    using Suc.prems(3) unfolding u by (simp add: le_trans [OF size_fold_mono])
  then obtain f1 st1 where f1: "second_step counts base l (j, L l ! j) f = Inr f1" "filling_ok L base N rt0 l (Suc j) f1 st1"
    "sizes_of f1 = size_step counts l j (sizes_of f)"
    using second_step_ok [OF f l(1) v counts Suc.prems(2)] by blast
  have "drop j (L l) = L l ! j # drop (Suc j) (L l)" using j by (simp add: Cons_nth_drop_Suc)
  moreover have "appended_of (fold (size_step counts l) [Suc j..<length (L l)] (sizes_of f1)) \<le> N"
    using Suc.prems(3) unfolding u f1(3) by simp
  ultimately show ?case
    using Suc.hyps(1) [of "Suc j" f1 st1] Suc.hyps(2) j f1 unfolding u by simp
qed

lemma filling_next_length:
  assumes l: "ROOT_BITS < l" and inv: "filling_ok L base N rt0 l (length (L l)) f st"
  shows "filling_ok L base N rt0 (Suc l) 0 (f\<lparr>f_code := 2 * f_code f, f_step := 2 * f_step f\<rparr>) st"
proof -
  define c where "c = first_code L l + length (L l)"
  have c: "f_code f = c" and tabs: "tables_ok L base N rt0 l c (long_codes L l (length (L l))) f st"
    and cur: "c mod 2 ^ (l - ROOT_BITS) \<noteq> 0 \<longrightarrow> current_ok l c f st"
    using inv by (simp_all add: filling_ok_def c_def)
  have l0: "first_code L (Suc l) + 0 = 2 * c" using l by (simp add: c_def used_codes_first)
  have pw: "2 ^ (Suc l - ROOT_BITS) = 2 * (2 :: nat) ^ (l - ROOT_BITS)" using l by (simp add: Suc_diff_le)
  have P: "long_codes L (Suc l) 0 = long_codes L l (length (L l))"
    by (auto simp: long_codes_def valid_code_def less_Suc_eq)
  let ?f = "f\<lparr>f_code := 2 * f_code f, f_step := 2 * f_step f\<rparr>"
  have "tables_ok L base N rt0 (Suc l) (2 * c) (long_codes L l (length (L l))) ?f st"
    using tabs unfolding tables_ok_def pw by (auto simp: mult.left_commute)
  moreover have "current_ok (Suc l) (2 * c) ?f st" if "(2 * c) mod 2 ^ (Suc l - ROOT_BITS) \<noteq> 0"
  proof -
    have "c mod 2 ^ (l - ROOT_BITS) \<noteq> 0" using that unfolding pw by simp
    moreover have "block_of (Suc l) (2 * c) = block_of l c" unfolding block_of_def pw by simp
    ultimately show ?thesis using cur by (simp add: current_ok_def)
  qed
  ultimately show ?thesis unfolding filling_ok_def l0 P by (simp add: c)
qed

lemma second_lengths_ok:
  assumes ok: "lists_ok b L" and f: "fits L" and l: "ROOT_BITS < l" "l \<le> MAX_LENGTH + 1"
    and inv: "filling_ok L base N rt0 l 0 f st"
    and room: "appended_of (fold (size_length (b_counts b)) [l..<MAX_LENGTH + 1] (sizes_of f)) \<le> N"
  shows "\<exists>f' st'. try_fold (second_length b base) [l..<MAX_LENGTH + 1] f = Inr f' \<and>
    filling_ok L base N rt0 (MAX_LENGTH + 1) 0 f' st' \<and>
    sizes_of f' = fold (size_length (b_counts b)) [l..<MAX_LENGTH + 1] (sizes_of f)"
  using l inv room
proof (induction "MAX_LENGTH + 1 - l" arbitrary: l f st)
  case 0
  then have "l = MAX_LENGTH + 1" by simp
  then show ?case using 0 by auto
next
  case (Suc d)
  then have lm: "l \<le> MAX_LENGTH" by simp
  have u: "[l..<MAX_LENGTH + 1] = l # [Suc l..<MAX_LENGTH + 1]" using lm by (simp add: upt_conv_Cons)
  have cl: "b_counts b ! l = length (L l)" using lists_okD(8) [OF ok lm] .
  have syms: "symbols_at b l = L l" by (rule walk_list [OF ok lm])
  have sl: "size_length (b_counts b) l st = (case fold (size_step (b_counts b) l) [0..<length (L l)] st of
      (code, remaining, appended, low) \<Rightarrow> (2 * code, remaining, appended, low))" for st
    unfolding size_length_def cl ..
  have r0: "appended_of (size_length (b_counts b) l (sizes_of f)) \<le> N"
    using Suc.prems(4) unfolding u by (simp add: le_trans [OF size_lengths_mono])
  then have "appended_of (fold (size_step (b_counts b) l) [0..<length (L l)] (sizes_of f)) \<le> N"
    unfolding sl by (simp add: appended_of_def split: prod.splits)
  then obtain f1 st1 where f1: "try_fold (second_step (b_counts b) base l) (List.enumerate 0 (L l)) f = Inr f1"
    "filling_ok L base N rt0 l (length (L l)) f1 st1" "sizes_of f1 = fold (size_step (b_counts b) l) [0..<length (L l)] (sizes_of f)"
    using second_symbols_ok [OF f Suc.prems(1) lm cl _ Suc.prems(3)] by auto
  define f2 where "f2 = f1\<lparr>f_code := 2 * f_code f1, f_step := 2 * f_step f1\<rparr>"
  have f2: "second_length b base l f = Inr f2" by (simp add: second_length_def syms f1(1) f2_def)
  have sz: "sizes_of f2 = size_length (b_counts b) l (sizes_of f)"
    unfolding sl f1(3) [symmetric] by (simp add: f2_def sizes_of_def)
  have inv2: "filling_ok L base N rt0 (Suc l) 0 f2 st1"
    unfolding f2_def by (rule filling_next_length [OF Suc.prems(1) f1(2)])
  have "appended_of (fold (size_length (b_counts b)) [Suc l..<MAX_LENGTH + 1] (sizes_of f2)) \<le> N"
    using Suc.prems(4) unfolding u sz by simp
  then show ?case
    using Suc.hyps(1) [of "Suc l" f2 st1] Suc.hyps(2) Suc.prems(1) lm inv2 sz f2 unfolding u by simp
qed

end
