(* ===== verification/Table_Fill.thy ===== *)
theory Table_Fill
  imports Table_Correct
begin

unbundle bit_operations_syntax

text \<open>
  The top of table construction: \<open>fill\<close> accepts exactly the complete codes (and the codes of
  one symbol), allocates what \<open>second_size\<close> counted, and its table carries the canonical code.
\<close>

section \<open>Kraft's check\<close>

definition longest :: "(nat \<Rightarrow> nat list) \<Rightarrow> nat \<Rightarrow> nat" where
  "longest L n = fold (\<lambda>l m. if L l \<noteq> [] then l else m) [1..<n + 1] 0"

lemma longest_bound: "longest L n \<le> n \<and> (\<forall>l. longest L n < l \<and> l \<le> n \<longrightarrow> L l = [])"
proof (induction n)
  case (Suc n)
  show ?case
  proof (cases "L (Suc n) = []")
    case True
    then have "longest L (Suc n) = longest L n" by (simp add: longest_def)
    with Suc True show ?thesis by (auto elim: le_SucE)
  next
    case False
    then have "longest L (Suc n) = Suc n" by (simp add: longest_def)
    then show ?thesis by (simp only:) auto
  qed
qed (simp add: longest_def)

lemma space_fold:
  assumes ok: "lists_ok b L" and n: "n \<le> MAX_LENGTH"
  shows "try_fold (space_step (b_counts b)) [1..<n + 1] (1, 0) =
    (if \<forall>l\<le>n. used_codes L l \<le> 2 ^ l then Inr (int (2 ^ n) - int (used_codes L n), longest L n)
     else Inl (InvalidData Huffman))"
  using n
proof (induction n)
  case 0
  then show ?case by (simp add: longest_def)
next
  case (Suc n)
  have snoc: "try_fold f (xs @ [x]) s = (case try_fold f xs s of Inl e \<Rightarrow> Inl e | Inr s' \<Rightarrow> f x s')"
    for f :: "nat \<Rightarrow> int \<times> nat \<Rightarrow> decode_error + int \<times> nat" and xs x s
    by (induction xs arbitrary: s) (auto split: sum.split)
  have u: "[1..<Suc n + 1] = [1..<n + 1] @ [Suc n]" by simp
  have c: "b_counts b ! Suc n = length (L (Suc n))" using lists_okD(8) [OF ok] Suc.prems by simp
  have lg: "longest L (Suc n) = (if L (Suc n) \<noteq> [] then Suc n else longest L n)" by (simp add: longest_def)
  note IH = Suc.IH [OF Suc_leD [OF Suc.prems]]
  show ?case
  proof (cases "\<forall>l\<le>n. used_codes L l \<le> 2 ^ l")
    case False
    then have no: "\<not> (\<forall>l\<le>Suc n. used_codes L l \<le> 2 ^ l)" by (meson le_SucI)
    show ?thesis unfolding u snoc IH if_not_P [OF False] if_not_P [OF no] by simp
  next
    case True
    define sp where "sp = (int (2 ^ n) - int (used_codes L n)) * 2 - int (length (L (Suc n)))"
    have sp: "sp = int (2 ^ Suc n) - int (used_codes L (Suc n))" by (simp add: sp_def algebra_simps)
    have iff: "sp < 0 \<longleftrightarrow> \<not> used_codes L (Suc n) \<le> 2 ^ Suc n" unfolding sp by linarith
    have all: "(\<forall>l\<le>Suc n. used_codes L l \<le> 2 ^ l) \<longleftrightarrow> used_codes L (Suc n) \<le> 2 ^ Suc n"
      using True by (auto simp: le_Suc_eq)
    have "try_fold (space_step (b_counts b)) [1..<n + 1] (1, 0) = Inr (int (2 ^ n) - int (used_codes L n), longest L n)"
      unfolding IH if_P [OF True] ..
    then have "try_fold (space_step (b_counts b)) [1..<Suc n + 1] (1, 0) =
        (if sp < 0 then Inl (InvalidData Huffman) else Inr (sp, longest L (Suc n)))"
      unfolding u snoc by (simp only: sum.case space_step_def prod.case c Let_def sp_def [symmetric] lg) simp
    then show ?thesis unfolding all sp [symmetric] using iff by presburger
  qed
qed

lemma check_space_complete:
  assumes "lists_ok b L"
  shows "check_space (b_counts b) = (if complete L then Inr (longest L MAX_LENGTH) else Inl (InvalidData Huffman))"
proof (cases "fits L")
  case True
  then have "try_fold (space_step (b_counts b)) [1..<MAX_LENGTH + 1] (1, 0) =
      Inr (int (2 ^ MAX_LENGTH) - int (used_codes L MAX_LENGTH), longest L MAX_LENGTH)"
    using space_fold [OF assms order_refl] by (simp add: fits_def)
  moreover have "int (2 ^ MAX_LENGTH) - int (used_codes L MAX_LENGTH) = 0 \<longleftrightarrow> complete L"
    unfolding complete_def by linarith
  ultimately show ?thesis unfolding check_space_def by simp
next
  case False
  then have "try_fold (space_step (b_counts b)) [1..<MAX_LENGTH + 1] (1, 0) = Inl (InvalidData Huffman)"
    using space_fold [OF assms order_refl] unfolding fits_def by simp
  then show ?thesis using complete_fits False unfolding check_space_def by auto
qed

section \<open>Sizes\<close>

lemma first_code_fold:
  assumes "lists_ok b L" "n \<le> MAX_LENGTH"
  shows "fold (\<lambda>l code. 2 * (code + b_counts b ! l)) [1..<n + 1] 0 = first_code L (Suc n)"
  using assms(2)
proof (induction n)
  case (Suc n)
  moreover have "b_counts b ! Suc n = length (L (Suc n))" using lists_okD(8) [OF assms(1) Suc.prems] .
  ultimately show ?case by simp
qed simp

lemma longest_counts:
  assumes ok: "lists_ok b L"
  shows "fold (\<lambda>l m. if b_counts b ! l \<noteq> 0 then l else m) [0..<length (b_counts b)] 0 = longest L MAX_LENGTH"
proof -
  have "fold (\<lambda>l m. if b_counts b ! l \<noteq> 0 then l else m) [0..<n + 1] 0 = longest L n" if "n \<le> MAX_LENGTH" for n
    using that
  proof (induction n)
    case (Suc n)
    moreover have "b_counts b ! Suc n = length (L (Suc n))" using lists_okD(8) [OF ok Suc.prems] .
    ultimately show ?case by (simp add: longest_def)
  qed (simp add: longest_def)
  then show ?thesis using lists_okD(4) [OF ok] by simp
qed

lemma second_size_eq:
  assumes ok: "lists_ok b L"
  shows "second_size (b_counts b) = (if longest L MAX_LENGTH \<le> ROOT_BITS then 0
    else appended_of (fold (size_length (b_counts b)) [ROOT_BITS + 1..<MAX_LENGTH + 1]
      (first_code L (Suc ROOT_BITS), b_counts b, 0, 2 ^ 64 - 1)))"
proof -
  have "ROOT_BITS \<le> MAX_LENGTH" by (simp add: ROOT_BITS_def MAX_LENGTH_def)
  note fc = first_code_fold [OF ok this]
  show ?thesis
    unfolding second_size_def Let_def longest_counts [OF ok] fc
    by (simp add: appended_of_def split: prod.split)
qed

section \<open>The filled table\<close>

definition start_filling :: "builder \<Rightarrow> code list \<Rightarrow> code list \<Rightarrow> nat \<Rightarrow> filling" where
  "start_filling b rt sec code =
     \<lparr>f_root = rt, f_second = sec, f_code = code, f_remaining = b_counts b, f_appended = 0, f_low = 2 ^ 64 - 1,
      f_start = 0, f_size = 0, f_step = 2\<rparr>"

lemma no_long_codes:
  assumes ok: "lists_ok b L" and e: "\<And>l. ROOT_BITS < l \<Longrightarrow> l \<le> MAX_LENGTH \<Longrightarrow> L l = []"
    and ls: "\<forall>l\<in>set ls. ROOT_BITS < l \<and> l \<le> MAX_LENGTH"
  shows "\<exists>f'. try_fold (second_length b base) ls f = Inr f' \<and> f_root f' = f_root f \<and> f_second f' = f_second f \<and> f_appended f' = f_appended f"
  using ls
proof (induction ls arbitrary: f)
  case (Cons l ls)
  then have "symbols_at b l = []" using walk_list [OF ok, of l] e [of l] by simp
  then show ?case
    using Cons.IH [of "f\<lparr>f_code := 2 * f_code f, f_step := 2 * f_step f\<rparr>"] Cons.prems by (simp add: second_length_def)
qed simp

lemma start_filling_ok:
  assumes ok: "lists_ok b L" and len: "length rt = ROOT_SIZE"
  shows "filling_ok L base (length sec) rt (Suc ROOT_BITS) 0 (start_filling b rt sec (first_code L (Suc ROOT_BITS))) (\<lambda>_. None)"
proof -
  have "long_codes L (Suc ROOT_BITS) 0 = {}" by (auto simp: long_codes_def)
  then show ?thesis
    using lists_okD(4,8) [OF ok] len by (simp add: filling_ok_def tables_ok_def start_filling_def)
qed

text \<open>What the two phases leave: short codes in the root, long codes behind pointers.\<close>

definition tables_carry :: "(nat \<Rightarrow> nat list) \<Rightarrow> nat \<Rightarrow> code list \<Rightarrow> code list \<Rightarrow> nat \<Rightarrow> bool" where
  "tables_carry L base rt sec n \<longleftrightarrow>
     (\<forall>l j i. valid_code L l j \<and> l \<le> ROOT_BITS \<and> i < ROOT_SIZE \<and> prefix (word_of L l j) (bits_of_nat ROOT_BITS i) \<longrightarrow>
        rt ! i = code_new l (L l ! j)) \<and>
     (\<forall>l j. valid_code L l j \<and> ROOT_BITS < l \<longrightarrow>
        (\<exists>s w. rt ! nat_of_bits (take ROOT_BITS (word_of L l j)) = code_new (w + ROOT_BITS) (base + s) \<and> 0 < w \<and> w \<le> 7 \<and>
           s + 2 ^ w \<le> n \<and> l \<le> ROOT_BITS + w \<and>
           (\<forall>i<2 ^ w. prefix (drop ROOT_BITS (word_of L l j)) (bits_of_nat w i) \<longrightarrow>
              sec ! (s + i) = code_new (l - ROOT_BITS) (L l ! j))))"

lemma long_tables_carry:
  assumes f: "fits L" and inv: "filling_ok L base N rt0 (MAX_LENGTH + 1) 0 f st"
    and short: "\<And>l j i. valid_code L l j \<Longrightarrow> l \<le> ROOT_BITS \<Longrightarrow> i < ROOT_SIZE \<Longrightarrow> prefix (word_of L l j) (bits_of_nat ROOT_BITS i) \<Longrightarrow>
       rt0 ! i = code_new l (L l ! j)"
  shows "tables_carry L base (f_root f) (f_second f) (f_appended f)"
proof -
  have P: "long_codes L (MAX_LENGTH + 1) 0 = {(m, k). valid_code L m k \<and> ROOT_BITS < m}"
    by (auto simp: long_codes_def valid_code_def)
  have tabs: "tables_ok L base N rt0 (MAX_LENGTH + 1) (first_code L (MAX_LENGTH + 1) + 0) {(m, k). valid_code L m k \<and> ROOT_BITS < m} f st"
    using inv unfolding filling_ok_def P by simp
  note t = tables_okD [OF tabs]
  show ?thesis
    unfolding tables_carry_def
  proof (intro conjI allI impI; elim conjE)
    fix l j i assume v: "valid_code L l j" and l: "l \<le> ROOT_BITS" and i: "i < ROOT_SIZE"
      and p: "prefix (word_of L l j) (bits_of_nat ROOT_BITS i)"
    have "f_root f ! i = rt0 ! i"
    proof (rule t(16) [OF i], rule notI)
      fix q assume q: "st q \<noteq> None" and iq: "i = block_key q"
      obtain s w where sw: "st q = Some (s, w)" using q by auto
      have lt: "q < 2 ^ ROOT_BITS" using t(8) [OF sw] by (simp add: ROOT_SIZE_def)
      have "bits_of_nat ROOT_BITS i = codeword ROOT_BITS q"
        unfolding iq block_key_def using bits_of_nat_of_bits [of "codeword ROOT_BITS q"] by simp
      then have "prefix (codeword l (first_code L l + j)) (codeword ROOT_BITS q)" using p by (simp add: word_of_def)
      then have e: "first_code L l + j = q div 2 ^ (ROOT_BITS - l)"
        using prefix_codeword [OF valid_code_less [OF f v] lt] by simp
      have "first_code L l + j < used_codes L l" using v by (simp add: valid_code_def used_codes_first)
      then have "q < used_codes L l * 2 ^ (ROOT_BITS - l)"
        unfolding e by (simp add: div_less_iff_less_mult)
      also have "\<dots> \<le> used_codes L ROOT_BITS" using used_codes_grow [of L l "ROOT_BITS - l"] l by simp
      finally show False using t(18) [OF sw] by simp
    qed
    then show "f_root f ! i = code_new l (L l ! j)" using short [OF v l i p] by simp
  next
    fix l j assume v: "valid_code L l j" and l: "ROOT_BITS < l"
    obtain s w where s: "st (block_of l (first_code L l + j)) = Some (s, w)"
      "\<forall>i<2 ^ w. prefix (drop ROOT_BITS (word_of L l j)) (bits_of_nat w i) \<longrightarrow> f_second f ! (s + i) = code_new (l - ROOT_BITS) (L l ! j)"
      using t(17) [of l j] v l by blast
    have "nat_of_bits (take ROOT_BITS (word_of L l j)) = block_key (block_of l (first_code L l + j))"
      using take_word_of [of l L j] l by (simp add: block_key_def)
    moreover have "l \<le> ROOT_BITS + w" using t(14) [OF s(1)] v l unfolding covers_def by blast
    ultimately show "\<exists>s w. f_root f ! nat_of_bits (take ROOT_BITS (word_of L l j)) = code_new (w + ROOT_BITS) (base + s) \<and> 0 < w \<and> w \<le> 7 \<and>
        s + 2 ^ w \<le> f_appended f \<and> l \<le> ROOT_BITS + w \<and>
        (\<forall>i<2 ^ w. prefix (drop ROOT_BITS (word_of L l j)) (bits_of_nat w i) \<longrightarrow> f_second f ! (s + i) = code_new (l - ROOT_BITS) (L l ! j))"
      using t(10-13) [OF s(1)] s(2) by (intro exI [of _ s] exI [of _ w]) simp
  qed
qed

lemma fill_tables_ok:
  assumes ok: "lists_ok b L" and c: "complete L" and rt: "length rt = ROOT_SIZE" and room: "second_size (b_counts b) \<le> length sec"
  shows "\<exists>f. fill_tables b base (longest L MAX_LENGTH) rt sec = Inr f \<and> tables_carry L base (f_root f) (f_second f) (f_appended f) \<and>
    f_appended f = second_size (b_counts b) \<and> length (f_root f) = ROOT_SIZE \<and> length (f_second f) = length sec"
proof -
  have f: "fits L" by (rule complete_fits [OF c])
  define tb where "tb = min (longest L MAX_LENGTH) ROOT_BITS"
  have tb: "tb \<le> ROOT_BITS" by (simp add: tb_def)
  obtain rt' where r: "fold (root_length b (2 ^ tb)) [1..<tb + 1] (rt, 0, 2) = (rt', first_code L (Suc tb), 2 ^ Suc tb)"
    and len: "length (double_root rt' (2 ^ tb)) = ROOT_SIZE"
    and short: "\<And>l j i. valid_code L l j \<Longrightarrow> l \<le> tb \<Longrightarrow> i < ROOT_SIZE \<Longrightarrow> prefix (word_of L l j) (bits_of_nat ROOT_BITS i) \<Longrightarrow>
       double_root rt' (2 ^ tb) ! i = code_new l (L l ! j)"
    using root_carries [OF ok f tb rt] by metis
  let ?rt = "double_root rt' (2 ^ tb)"
  have ft: "fill_tables b base (longest L MAX_LENGTH) rt sec =
      try_fold (second_length b base) [ROOT_BITS + 1..<MAX_LENGTH + 1] (start_filling b ?rt sec (first_code L (Suc tb)))"
    unfolding fill_tables_def Let_def tb_def [symmetric] r by (simp add: start_filling_def)
  have empty: "L l = []" if "longest L MAX_LENGTH < l" "l \<le> MAX_LENGTH" for l using longest_bound that by blast
  show ?thesis
  proof (cases "longest L MAX_LENGTH \<le> ROOT_BITS")
    case True
    then have t: "tb = longest L MAX_LENGTH" by (simp add: tb_def)
    obtain g where g: "try_fold (second_length b base) [ROOT_BITS + 1..<MAX_LENGTH + 1] (start_filling b ?rt sec (first_code L (Suc tb))) = Inr g"
      "f_root g = ?rt" "f_second g = sec" "f_appended g = 0"
    proof -
      have "\<forall>l\<in>set [ROOT_BITS + 1..<MAX_LENGTH + 1]. ROOT_BITS < l \<and> l \<le> MAX_LENGTH" by auto
      moreover have "L l = []" if "ROOT_BITS < l" "l \<le> MAX_LENGTH" for l using empty [of l] True that by linarith
      ultimately obtain g where "try_fold (second_length b base) [ROOT_BITS + 1..<MAX_LENGTH + 1] (start_filling b ?rt sec (first_code L (Suc tb))) = Inr g"
        "f_root g = f_root (start_filling b ?rt sec (first_code L (Suc tb)))" "f_second g = f_second (start_filling b ?rt sec (first_code L (Suc tb)))"
        "f_appended g = f_appended (start_filling b ?rt sec (first_code L (Suc tb)))"
        using no_long_codes [OF ok] by blast
      then show thesis using that unfolding start_filling_def filling.simps by blast
    qed
    have "tables_carry L base ?rt sec 0"
      unfolding tables_carry_def
    proof (intro conjI allI impI; elim conjE)
      fix l j i assume v: "valid_code L l j" "l \<le> ROOT_BITS" "i < ROOT_SIZE" "prefix (word_of L l j) (bits_of_nat ROOT_BITS i)"
      then have "l \<le> tb" using empty [of l] unfolding t valid_code_def by (cases "longest L MAX_LENGTH < l") auto
      then show "?rt ! i = code_new l (L l ! j)" using short v by blast
    next
      fix l j assume "valid_code L l j" "ROOT_BITS < l"
      then show "\<exists>s w. ?rt ! nat_of_bits (take ROOT_BITS (word_of L l j)) = code_new (w + ROOT_BITS) (base + s) \<and> 0 < w \<and> w \<le> 7 \<and>
        s + 2 ^ w \<le> 0 \<and> l \<le> ROOT_BITS + w \<and>
        (\<forall>i<2 ^ w. prefix (drop ROOT_BITS (word_of L l j)) (bits_of_nat w i) \<longrightarrow> sec ! (s + i) = code_new (l - ROOT_BITS) (L l ! j))"
        using empty [of l] True by (simp add: valid_code_def)
    qed
    then show ?thesis using g len unfolding ft second_size_eq [OF ok] by (simp add: True)
  next
    case False
    then have t: "tb = ROOT_BITS" by (simp add: tb_def)
    define f0 where "f0 = start_filling b ?rt sec (first_code L (Suc ROOT_BITS))"
    have sz: "appended_of (fold (size_length (b_counts b)) [Suc ROOT_BITS..<MAX_LENGTH + 1] (sizes_of f0)) = second_size (b_counts b)"
      using False unfolding second_size_eq [OF ok] by (simp add: f0_def sizes_of_def start_filling_def)
    obtain g st where g: "try_fold (second_length b base) [Suc ROOT_BITS..<MAX_LENGTH + 1] f0 = Inr g"
      "filling_ok L base (length sec) ?rt (MAX_LENGTH + 1) 0 g st"
      "sizes_of g = fold (size_length (b_counts b)) [Suc ROOT_BITS..<MAX_LENGTH + 1] (sizes_of f0)"
    proof -
      have "ROOT_BITS < Suc ROOT_BITS" "Suc ROOT_BITS \<le> MAX_LENGTH + 1" by (simp_all add: MAX_LENGTH_def ROOT_BITS_def)
      note sl = second_lengths_ok [OF ok f this start_filling_ok [OF ok len, of base sec], folded f0_def, unfolded sz, OF room]
      then show thesis using that by blast
    qed
    have "f_appended g = second_size (b_counts b)" using g(3) sz by (metis appended_of_def fst_conv snd_conv sizes_of_def)
    moreover have "tables_carry L base (f_root g) (f_second g) (f_appended g)"
      by (rule long_tables_carry [OF f g(2)]) (use short in \<open>simp add: t\<close>)
    moreover have "length (f_root g) = ROOT_SIZE" "length (f_second g) = length sec"
      using g(2) by (simp_all add: filling_ok_def tables_ok_def)
    ultimately show ?thesis using g(1) unfolding ft t f0_def by simp
  qed
qed

definition code_of :: "builder \<Rightarrow> (nat \<Rightarrow> nat list) \<Rightarrow> (bool list \<times> nat) set" where
  "code_of b L = (if b_total b = 1 then {([], b_last b)} else canonical L)"

definition code_ok :: "builder \<Rightarrow> (nat \<Rightarrow> nat list) \<Rightarrow> bool" where
  "code_ok b L \<longleftrightarrow> lists_ok b L \<and> L 0 = [] \<and> b_last b < MAX_ALPHABET"

lemma code_of_prefix_code: "b_total b = 1 \<or> complete L \<Longrightarrow> prefix_code (code_of b L)"
  using canonical_prefix_code single_prefix_code by (auto simp: code_of_def)

lemma tables_carry_carries:
  assumes ok: "lists_ok b L" and c: "tables_carry L (length front) rt sec n" and rt: "length rt = ROOT_SIZE"
    and n: "length front + n \<le> 2 ^ 24"
  shows "carries_in (length front) (length front + n) \<lparr>root = rt, second = front @ sec\<rparr> (canonical L)"
  unfolding carries_in_def
proof (intro allI impI)
  fix cw s assume "(cw, s) \<in> canonical L"
  then obtain l j where cw: "cw = word_of L l j" "s = L l ! j" and v: "valid_code L l j"
    by (auto simp: canonical_def word_of_def valid_code_def)
  have l15: "l \<le> 15" using v by (simp add: valid_code_def MAX_LENGTH_def)
  have "L l ! j \<in> set (L l)" using v by (simp add: valid_code_def)
  then have "L l ! j < MAX_ALPHABET" using lists_okD(10) [OF ok, of l "L l ! j"] v by (simp add: valid_code_def)
  then have s24: "L l ! j < 2 ^ 24" by (simp add: MAX_ALPHABET_def)
  note sel = code_new_sel [OF _ s24]
  let ?t = "\<lparr>root = rt, second = front @ sec\<rparr>"
  show "if length cw \<le> ROOT_BITS then \<forall>i<ROOT_SIZE. prefix cw (bits_of_nat ROOT_BITS i) \<longrightarrow>
           i < length (root ?t) \<and> code_bits (root ?t ! i) = length cw \<and> code_value (root ?t ! i) = s
      else let low = nat_of_bits (take ROOT_BITS cw); entry = root ?t ! low; w = code_bits entry - ROOT_BITS
         in low < length (root ?t) \<and> ROOT_BITS < code_bits entry \<and> length cw \<le> code_bits entry \<and>
            (\<forall>i<2 ^ w. prefix (drop ROOT_BITS cw) (bits_of_nat w i) \<longrightarrow>
               length front \<le> code_value entry + i \<and> code_value entry + i < length front + n \<and>
               ROOT_BITS + code_bits (second ?t ! (code_value entry + i)) = length cw \<and>
               code_value (second ?t ! (code_value entry + i)) = s)"
  proof (cases "l \<le> ROOT_BITS")
    case True
    have "\<forall>i<ROOT_SIZE. prefix cw (bits_of_nat ROOT_BITS i) \<longrightarrow> rt ! i = code_new l (L l ! j)"
      using c v True unfolding tables_carry_def cw by blast
    moreover have "code_bits (code_new l (L l ! j)) = l" "code_value (code_new l (L l ! j)) = L l ! j"
      using sel l15 by simp_all
    ultimately show ?thesis using True rt cw by auto
  next
    case False
    define low where "low = nat_of_bits (take ROOT_BITS (word_of L l j))"
    obtain a w where a: "rt ! low = code_new (w + ROOT_BITS) (length front + a)" "0 < w" "w \<le> 7" "a + 2 ^ w \<le> n" "l \<le> ROOT_BITS + w"
      and sub: "\<forall>i<2 ^ w. prefix (drop ROOT_BITS (word_of L l j)) (bits_of_nat w i) \<longrightarrow> sec ! (a + i) = code_new (l - ROOT_BITS) (L l ! j)"
      using c v False unfolding tables_carry_def low_def by (meson not_le)
    have "(0::nat) < 2 ^ w" by simp
    then have "length front + a < 2 ^ 24" using a(4) n by linarith
    then have e: "code_bits (rt ! low) = w + ROOT_BITS" "code_value (rt ! low) = length front + a"
      using code_new_sel [of "w + ROOT_BITS" "length front + a"] a(1,3) by (simp_all add: ROOT_BITS_def)
    have low: "low < length rt" using nat_of_bits_less [of "take ROOT_BITS (word_of L l j)"] False rt by (simp add: low_def ROOT_SIZE_def)
    have leaf: "code_bits (code_new (l - ROOT_BITS) (L l ! j)) = l - ROOT_BITS" "code_value (code_new (l - ROOT_BITS) (L l ! j)) = L l ! j"
      using sel l15 by simp_all
    have "length front \<le> length front + a + i \<and> length front + a + i < length front + n \<and>
        ROOT_BITS + code_bits ((front @ sec) ! (length front + a + i)) = l \<and> code_value ((front @ sec) ! (length front + a + i)) = L l ! j"
      if i: "i < 2 ^ w" and p: "prefix (drop ROOT_BITS (word_of L l j)) (bits_of_nat w i)" for i
    proof -
      have "(front @ sec) ! (length front + a + i) = code_new (l - ROOT_BITS) (L l ! j)"
        using sub i p by (simp add: nth_append)
      then show ?thesis using leaf a(4) i False by simp
    qed
    then show ?thesis
      using False low e a(2,5) unfolding cw length_word_of Let_def low_def [symmetric] by simp
  qed
qed

lemma single_carries:
  assumes "s < MAX_ALPHABET"
  shows "carries_in lo hi \<lparr>root = replicate ROOT_SIZE (code_new 0 s), second = sec\<rparr> {([], s)}"
proof -
  have "s < 2 ^ 24" using assms by (simp add: MAX_ALPHABET_def)
  then show ?thesis using code_new_sel [of 0 s] by (simp add: carries_in_def)
qed

definition resized :: "(nat \<Rightarrow> nat option) \<Rightarrow> code vec \<Rightarrow> nat \<Rightarrow> memory \<Rightarrow> (decode_error + unit) \<times> code vec \<times> memory" where
  "resized alloc codes n m = (if length (items codes) < n then resize alloc 4 0 codes n m else (Inr (), codes, m))"

lemma resized_ok:
  assumes "resized alloc codes n m = (Inr u, codes', m')"
  shows "n \<le> length (items codes')" "length (items codes) \<le> length (items codes')"
    "i < length (items codes) \<Longrightarrow> items codes' ! i = items codes ! i"
  using assms resize_ok [of alloc 4 0 codes n m u codes' m']
  by (auto simp: resized_def nth_pad_to split: if_splits)

lemma resized_failed:
  assumes "resized alloc codes n m = (Inl e, codes', m')"
  shows "items codes' = items codes" "e \<noteq> InternalInvariant" "e \<noteq> InvalidData k"
  using assms resize_items [of alloc 4 0 codes n m e codes' m'] by (auto simp: resized_def split: if_splits)

text \<open>What \<open>fill\<close> does to the group's storage.\<close>

definition fill_result :: "builder \<Rightarrow> (nat \<Rightarrow> nat list) \<Rightarrow> nat \<Rightarrow> nat \<Rightarrow> code list \<Rightarrow> code list \<Rightarrow> nat \<Rightarrow> bool" where
  "fill_result b L start used xs xs' used' \<longleftrightarrow>
     used \<le> used' \<and> used' \<le> length xs' \<and>
     carries_in used used' \<lparr>root = take ROOT_SIZE (drop start xs'), second = xs'\<rparr> (code_of b L) \<and>
     (\<forall>i<used. i < length xs \<longrightarrow> i < start \<or> start + ROOT_SIZE \<le> i \<longrightarrow> xs' ! i = xs ! i)"

lemma fill_ok:
  assumes ok: "code_ok b L" and start: "start + ROOT_SIZE \<le> used" and room: "used + second_size (b_counts b) \<le> 2 ^ 24"
    and r: "fill alloc b codes start used m = (r, codes', used', m')"
  shows "case r of
      Inr v \<Rightarrow> v = b_last b \<and> (b_total b = 1 \<or> complete L) \<and> b_total b \<noteq> 0 \<and>
        fill_result b L start used (items codes) (items codes') used' \<and>
        used' = used + (if b_total b = 1 then 0 else second_size (b_counts b))
    | Inl e \<Rightarrow> items codes' = items codes \<and> used' = used \<and> e \<noteq> InternalInvariant \<and>
        (e = InvalidData Huffman \<longleftrightarrow> b_total b = 0 \<or> b_total b \<noteq> 1 \<and> \<not> complete L)"
proof -
  have lok: "lists_ok b L" and last: "b_last b < MAX_ALPHABET" using ok by (simp_all add: code_ok_def)
  consider "b_total b = 0" | "b_total b = 1" | "b_total b \<noteq> 0" "b_total b \<noteq> 1" "\<not> complete L" | "b_total b \<noteq> 0" "b_total b \<noteq> 1" "complete L" by blast
  then show ?thesis
  proof cases
    case 1
    then show ?thesis using r by (auto simp: fill_def)
  next
    case 2
    obtain q codes1 m1 where q: "resized alloc codes used m = (q, codes1, m1)" by (cases "resized alloc codes used m")
    have fl: "fill alloc b codes start used m = (case (q, codes1, m1) of
           (Inl e, codes', m') \<Rightarrow> (Inl e, codes', used, m')
         | (Inr _, codes', m') \<Rightarrow>
             (Inr (b_last b), codes'\<lparr>items := on_slice start ROOT_SIZE (\<lambda>_. replicate ROOT_SIZE (code_new 0 (b_last b))) (items codes')\<rparr>, used, m'))"
      using 2 start unfolding fill_def q [symmetric] resized_def by simp
    show ?thesis
    proof (cases q)
      case (Inl e)
      then show ?thesis using r fl resized_failed [of alloc codes used m e codes1 m1] q 2 by auto
    next
      case (Inr u)
      note z = resized_ok [OF q [unfolded Inr]]
      let ?f = "\<lambda>_ :: code list. replicate ROOT_SIZE (code_new 0 (b_last b))"
      have sl: "start + ROOT_SIZE \<le> length (items codes1)" using z(1) start by simp
      have len: "length (on_slice start ROOT_SIZE ?f (items codes1)) = length (items codes1)"
        by (rule length_on_slice [OF sl]) simp
      have root: "take ROOT_SIZE (drop start (on_slice start ROOT_SIZE ?f (items codes1))) = replicate ROOT_SIZE (code_new 0 (b_last b))"
        using sl by (simp add: on_slice_def)
      have "on_slice start ROOT_SIZE ?f (items codes1) ! i = items codes ! i"
        if "i < used" "i < length (items codes)" "i < start \<or> start + ROOT_SIZE \<le> i" for i
        using nth_on_slice(1) [OF sl, of ?f i] z that by auto
      then have "fill_result b L start used (items codes) (on_slice start ROOT_SIZE ?f (items codes1)) used"
        using single_carries [OF last] z(1) 2 by (simp add: fill_result_def root len code_of_def)
      then show ?thesis using r fl Inr 2 by auto
    qed
  next
    case 3
    then have "fill alloc b codes start used m = (Inl (InvalidData Huffman), codes, used, m)"
      using start check_space_complete [OF lok] by (simp add: fill_def)
    then show ?thesis using r 3 by auto
  next
    case 4
    define bound where "bound = used + second_size (b_counts b)"
    have b64: "checked_add 64 used (second_size (b_counts b)) = Some bound"
      using room by (simp add: checked_add_def bound_def)
    obtain q codes1 m1 where q: "resized alloc codes bound m = (q, codes1, m1)" by (cases "resized alloc codes bound m")
    have fl: "fill alloc b codes start used m = (case (q, codes1, m1) of
           (Inl e, codes', m') \<Rightarrow> (Inl e, codes', used, m')
         | (Inr _, codes', m') \<Rightarrow>
             (case fill_tables b used (longest L MAX_LENGTH) (take ROOT_SIZE (drop start (items codes'))) (drop used (items codes')) of
                Inl e \<Rightarrow> (Inl e, codes', used, m')
              | Inr f \<Rightarrow> (Inr (b_last b),
                  codes'\<lparr>items := on_slice start ROOT_SIZE (\<lambda>_. f_root f) (take used (items codes')) @ f_second f\<rparr>, used + f_appended f, m')))"
      using 4 start check_space_complete [OF lok] unfolding fill_def q [symmetric] resized_def b64 by simp
    show ?thesis
    proof (cases q)
      case (Inl e)
      then show ?thesis using r fl resized_failed [of alloc codes bound m e codes1 m1] q 4 by auto
    next
      case (Inr u)
      note z = resized_ok [OF q [unfolded Inr]]
      define rt sec where "rt = take ROOT_SIZE (drop start (items codes1))" and "sec = drop used (items codes1)"
      have u1: "used \<le> length (items codes1)" using z(1) by (simp add: bound_def)
      have "length rt = ROOT_SIZE" using u1 start by (simp add: rt_def)
      moreover have "second_size (b_counts b) \<le> length sec" using z(1) by (simp add: sec_def bound_def)
      ultimately obtain f where f: "fill_tables b used (longest L MAX_LENGTH) rt sec = Inr f"
        "tables_carry L used (f_root f) (f_second f) (f_appended f)" "f_appended f = second_size (b_counts b)"
        "length (f_root f) = ROOT_SIZE" "length (f_second f) = length sec"
        using fill_tables_ok [OF lok 4(3), of rt sec used] by blast
      define front where "front = on_slice start ROOT_SIZE (\<lambda>_. f_root f) (take used (items codes1))"
      have sl: "start + ROOT_SIZE \<le> length (take used (items codes1))" using u1 start by simp
      have lf: "length front = used"
        unfolding front_def using u1 f(4) by (subst length_on_slice [OF sl]) simp_all
      have res: "(r, codes', used', m') = (Inr (b_last b), codes1\<lparr>items := front @ f_second f\<rparr>, used + f_appended f, m1)"
        unfolding r [symmetric] fl Inr front_def using f(1) by (simp add: rt_def sec_def)
      have root: "take ROOT_SIZE (drop start (front @ f_second f)) = f_root f"
        using sl f(4) start u1 lf by (simp add: front_def on_slice_def)
      have keep: "(front @ f_second f) ! i = items codes ! i"
        if "i < used" "i < length (items codes)" "i < start \<or> start + ROOT_SIZE \<le> i" for i
      proof -
        have "front ! i = take used (items codes1) ! i"
          unfolding front_def using nth_on_slice(1) [OF sl, of "\<lambda>_. f_root f" i] f(4) that u1 by auto
        then show ?thesis using that lf z(3) by (simp add: nth_append)
      qed
      have "carries_in used (used + f_appended f) \<lparr>root = f_root f, second = front @ f_second f\<rparr> (canonical L)"
        using tables_carry_carries [OF lok, of front "f_root f" "f_second f" "f_appended f"] f(2-4) room lf by simp
      moreover have "used + f_appended f \<le> length (front @ f_second f)"
        using lf f(3,5) z(1) u1 by (simp add: sec_def bound_def)
      ultimately have "fill_result b L start used (items codes) (front @ f_second f) (used + f_appended f)"
        using keep 4 unfolding fill_result_def root code_of_def by simp
      then show ?thesis using res 4 f(3) by simp
    qed
  qed
qed

section \<open>Groups\<close>

text \<open>\<open>group_ok g Cs\<close>: the trees built so far carry the codes \<open>Cs\<close>.\<close>

definition group_ok :: "group \<Rightarrow> (nat \<Rightarrow> (bool list \<times> nat) set option) \<Rightarrow> bool" where
  "group_ok g Cs \<longleftrightarrow> g_count g * ROOT_SIZE \<le> g_used g \<and> g_used g \<le> length (items (g_codes g)) \<and>
     (\<forall>k C. Cs k = Some C \<longrightarrow> k < g_count g \<and> prefix_code C \<and>
        carries_in (g_count g * ROOT_SIZE) (g_used g) (group_table g k) C)"

lemma carries_in_transfer:
  assumes "carries_in lo hi t C" "length (root t) = ROOT_SIZE" "length (root t') = ROOT_SIZE" "lo' \<le> lo" "hi \<le> hi'"
    and "\<And>i. i < ROOT_SIZE \<Longrightarrow> root t' ! i = root t ! i" "\<And>i. lo \<le> i \<Longrightarrow> i < hi \<Longrightarrow> second t' ! i = second t ! i"
  shows "carries_in lo' hi' t' C"
  unfolding carries_in_def
proof (intro allI impI)
  fix cw s assume C: "(cw, s) \<in> C"
  note a = assms(1) [unfolded carries_in_def, rule_format, OF C]
  show "if length cw \<le> ROOT_BITS then \<forall>i<ROOT_SIZE. prefix cw (bits_of_nat ROOT_BITS i) \<longrightarrow>
           i < length (root t') \<and> code_bits (root t' ! i) = length cw \<and> code_value (root t' ! i) = s
      else let low = nat_of_bits (take ROOT_BITS cw); entry = root t' ! low; w = code_bits entry - ROOT_BITS
         in low < length (root t') \<and> ROOT_BITS < code_bits entry \<and> length cw \<le> code_bits entry \<and>
            (\<forall>i<2 ^ w. prefix (drop ROOT_BITS cw) (bits_of_nat w i) \<longrightarrow>
               lo' \<le> code_value entry + i \<and> code_value entry + i < hi' \<and>
               ROOT_BITS + code_bits (second t' ! (code_value entry + i)) = length cw \<and>
               code_value (second t' ! (code_value entry + i)) = s)"
  proof (cases "length cw \<le> ROOT_BITS")
    case True
    then show ?thesis using a assms(2,3,6) by simp
  next
    case False
    define low where "low = nat_of_bits (take ROOT_BITS cw)"
    have l: "low < ROOT_SIZE" using a False assms(2) by (simp add: Let_def low_def)
    then have e: "root t' ! low = root t ! low" by (rule assms(6))
    show ?thesis
      using a False l assms(2-5,7) unfolding Let_def low_def [symmetric] e
      by (auto intro: le_trans order_less_le_trans)
  qed
qed

lemma length_group_root:
  assumes "k < g_count g" "g_count g * ROOT_SIZE \<le> length (items (g_codes g))"
  shows "length (root (group_table g k)) = ROOT_SIZE"
    and "i < ROOT_SIZE \<Longrightarrow> root (group_table g k) ! i = items (g_codes g) ! (k * ROOT_SIZE + i)"
    and "root (group_table g k) = take ROOT_SIZE (drop (k * ROOT_SIZE) (items (g_codes g)))"
proof -
  have le: "k * ROOT_SIZE + ROOT_SIZE \<le> g_count g * ROOT_SIZE"
    using mult_le_mono1 [of "Suc k" "g_count g" ROOT_SIZE] assms(1) by simp
  then show "length (root (group_table g k)) = ROOT_SIZE"
    using assms(2) by (simp add: group_table_def)
  show e: "root (group_table g k) = take ROOT_SIZE (drop (k * ROOT_SIZE) (items (g_codes g)))"
    using le by (simp add: group_table_def drop_take min_def)
  show "i < ROOT_SIZE \<Longrightarrow> root (group_table g k) ! i = items (g_codes g) ! (k * ROOT_SIZE + i)"
    unfolding e using le assms(2) by simp
qed

lemma prepare_ok:
  assumes "prepare alloc count alph g m = (r, g', m')"
  shows "case r of Inr _ \<Rightarrow> group_ok g' (\<lambda>_. None) \<and> g_count g' = count \<and> g_used g' = count * ROOT_SIZE \<and> 0 < alph \<and> alph \<le> MAX_ALPHABET
    | Inl e \<Rightarrow> items (g_codes g') = items (g_codes g) \<and> g_count g' = g_count g \<and> g_used g' = g_used g \<and>
        e \<noteq> InternalInvariant \<and> (e = InvalidData Huffman \<longleftrightarrow> alph = 0 \<or> MAX_ALPHABET < alph)"
proof -
  define n where "n = count * ROOT_SIZE"
  obtain q codes1 m1 where q: "resized alloc (g_codes g) n m = (q, codes1, m1)" by (cases "resized alloc (g_codes g) n m")
  have p: "prepare alloc count alph g m =
     (if alph = 0 \<or> alph > MAX_ALPHABET then (Inl (InvalidData Huffman), g, m)
      else if \<not> n < 2 ^ 64 then (Inl SizeOverflow, g, m)
      else (case (q, codes1, m1) of
           (Inl e, codes, m') \<Rightarrow> (Inl e, g\<lparr>g_codes := codes\<rparr>, m')
         | (Inr _, codes, m') \<Rightarrow> (Inr (), g\<lparr>g_codes := codes, g_count := count, g_used := n\<rparr>, m')))"
    unfolding prepare_def n_def [symmetric] q [symmetric] resized_def ..
  show ?thesis
  proof (cases q)
    case (Inl e)
    then show ?thesis using assms p resized_failed [OF q [unfolded Inl]] by (auto split: if_splits)
  next
    case (Inr u)
    then show ?thesis using assms p resized_ok(1) [OF q [unfolded Inr]]
      by (auto simp: group_ok_def n_def split: if_splits)
  qed
qed

lemma build_slot_ok:
  assumes g: "group_ok g Cs" and ok: "code_ok b L" and tree: "tree < g_count g" "b_last b < alph"
    and room: "g_used g + second_size (b_counts b) \<le> 2 ^ 24"
    and r: "build_slot alloc alph tree b g m = (r, g', m')"
  shows "g_count g' = g_count g \<and> (case r of
      Inr v \<Rightarrow> v = b_last b \<and> (b_total b = 1 \<or> complete L) \<and> group_ok g' (Cs(tree \<mapsto> code_of b L)) \<and>
        g_used g' = g_used g + (if b_total b = 1 then 0 else second_size (b_counts b))
    | Inl e \<Rightarrow> group_ok g' Cs \<and> g_used g' = g_used g \<and> e \<noteq> InternalInvariant \<and>
        (e = InvalidData Huffman \<longleftrightarrow> b_total b = 0 \<or> b_total b \<noteq> 1 \<and> \<not> complete L))"
proof -
  define xs n where "xs = items (g_codes g)" and "n = g_count g * ROOT_SIZE"
  have gd: "n \<le> g_used g" "g_used g \<le> length xs" using g by (simp_all add: group_ok_def xs_def n_def)
  have cs: "k < g_count g" "prefix_code C" "carries_in n (g_used g) (group_table g k) C" if "Cs k = Some C" for k C
    using g that by (simp_all add: group_ok_def n_def)
  have apart: "k * ROOT_SIZE + ROOT_SIZE \<le> n" "k \<noteq> tree \<Longrightarrow> i < ROOT_SIZE \<Longrightarrow> k * ROOT_SIZE + i < tree * ROOT_SIZE \<or> tree * ROOT_SIZE + ROOT_SIZE \<le> k * ROOT_SIZE + i"
    if "k < g_count g" for k i
  proof -
    show "k * ROOT_SIZE + ROOT_SIZE \<le> n" using mult_le_mono1 [of "Suc k" "g_count g" ROOT_SIZE] that by (simp add: n_def)
    assume "k \<noteq> tree" "i < ROOT_SIZE"
    then consider "Suc k \<le> tree" | "Suc tree \<le> k" by linarith
    then show "k * ROOT_SIZE + i < tree * ROOT_SIZE \<or> tree * ROOT_SIZE + ROOT_SIZE \<le> k * ROOT_SIZE + i"
    proof cases
      case 1
      from mult_le_mono1 [OF this, of ROOT_SIZE] show ?thesis using \<open>i < ROOT_SIZE\<close> by simp
    next
      case 2
      from mult_le_mono1 [OF this, of ROOT_SIZE] show ?thesis by simp
    qed
  qed
  have start: "tree * ROOT_SIZE + ROOT_SIZE \<le> g_used g" using apart(1) [OF tree(1)] gd by simp
  obtain codes' used' where fl: "fill alloc b (g_codes g) (tree * ROOT_SIZE) (g_used g) m = (r, codes', used', m')"
    and g': "g' = g\<lparr>g_codes := codes', g_used := used'\<rparr>"
    using r tree by (auto simp: build_slot_def split: prod.splits)
  note fo = fill_ok [OF ok start room fl]
  show ?thesis
  proof (cases r)
    case (Inl e)
    then have "items codes' = xs" "used' = g_used g" using fo by (simp_all add: xs_def)
    then show ?thesis using fo g Inl by (simp add: g' group_ok_def group_table_def xs_def)
  next
    case (Inr v)
    then have fr: "fill_result b L (tree * ROOT_SIZE) (g_used g) xs (items codes') used'" and c: "b_total b = 1 \<or> complete L"
      using fo unfolding Inr sum.case xs_def by blast+
    have u: "g_used g \<le> used'" "used' \<le> length (items codes')" using fr by (simp_all add: fill_result_def)
    have keep: "items codes' ! i = xs ! i" if "i < g_used g" "i < tree * ROOT_SIZE \<or> tree * ROOT_SIZE + ROOT_SIZE \<le> i" for i
      using fr gd that unfolding fill_result_def by (meson order_less_le_trans)
    have n': "g_count g' * ROOT_SIZE \<le> length (items (g_codes g'))" and ng: "g_count g * ROOT_SIZE \<le> length (items (g_codes g))"
      using u gd by (simp_all add: g' n_def xs_def)
    note len' = length_group_root [OF _ n'] and len = length_group_root [OF _ ng]
    have "carries_in n used' (group_table g' k) C" if kC: "(Cs(tree \<mapsto> code_of b L)) k = Some C" for k C
    proof (cases "k = tree")
      case True
      then have C: "C = code_of b L" using kC by simp
      have "carries_in (g_used g) used' \<lparr>root = take ROOT_SIZE (drop (tree * ROOT_SIZE) (items codes')), second = items codes'\<rparr> (code_of b L)"
        using fr by (simp add: fill_result_def)
      moreover have tg: "tree < g_count g'" using tree(1) by (simp add: g')
      moreover have rt: "root (group_table g' tree) = take ROOT_SIZE (drop (tree * ROOT_SIZE) (items codes'))"
        using len'(3) [OF tg] by (simp add: g')
      ultimately show ?thesis
        unfolding True C
      proof (elim carries_in_transfer)
        show "length (root (group_table g' tree)) = ROOT_SIZE" by (rule len'(1) [OF tg])
        then show "length (root \<lparr>root = take ROOT_SIZE (drop (tree * ROOT_SIZE) (items codes')), second = items codes'\<rparr>) = ROOT_SIZE"
          by (simp add: rt)
      qed (use gd(1) in \<open>simp_all add: rt, simp_all add: g' group_table_def\<close>)
    next
      case False
      then have kg: "k < g_count g" using cs(1) kC by simp
      show ?thesis
      proof (rule carries_in_transfer [OF cs(3) len(1) [OF kg]])
        show "Cs k = Some C" using kC False by simp
        show "length (root (group_table g' k)) = ROOT_SIZE" using len'(1) kg by (simp add: g')
        show "n \<le> n" "g_used g \<le> used'" using u by simp_all
        fix i assume i: "i < ROOT_SIZE"
        have "k * ROOT_SIZE + i < g_used g" using apart(1) [OF kg] gd i by linarith
        then show "root (group_table g' k) ! i = root (group_table g k) ! i"
          using len(2) [OF kg i] len'(2) [of k i] kg i keep apart(2) [OF kg False i] by (simp add: g' xs_def)
      next
        fix i assume "n \<le> i" "i < g_used g"
        then show "second (group_table g' k) ! i = second (group_table g k) ! i"
          using keep [of i] apart(1) [OF tree(1)] by (simp add: group_table_def g' xs_def)
      qed
    qed
    moreover have "prefix_code C \<and> k < g_count g" if "(Cs(tree \<mapsto> code_of b L)) k = Some C" for k C
      using that cs(1,2) code_of_prefix_code [OF c] tree(1) by (auto split: if_splits)
    ultimately have "group_ok g' (Cs(tree \<mapsto> code_of b L))"
      using u gd unfolding group_ok_def by (simp add: g' n_def)
    then show ?thesis using fo Inr by (simp add: g')
  qed
qed

lemma group_carries:
  assumes "group_ok g Cs" "Cs k = Some C"
  shows "prefix_code C" "carries (group_table g k) C"
  using assms carries_in_mono [of _ "g_used g" "group_table g k" C] by (auto simp: group_ok_def group_table_def)

end
