(* ===== verification/Prefix_Reader.thy ===== *)
theory Prefix_Reader
  imports Table_Fill
begin

unbundle bit_operations_syntax

text \<open>
  The resumable reader of prefix-code descriptions (\<open>LengthCode\<close> and \<open>Builder::read\<close> of
  \<open>decompressor/core/huffman.rs\<close>). The builder and the reader state are threaded through; a
  step that lacks input returns \<open>Inr False\<close> with the stage it stopped in. The two forms of a
  description are proved to leave lists a table can always be built from.
\<close>

section \<open>The code-length code\<close>

definition ORDER :: "nat list" where
  "ORDER = [1, 2, 3, 4, 0, 5, 17, 6, 16, 7, 8, 9, 10, 11, 12, 13, 14, 15]"

definition LENGTH_BITS :: nat where "LENGTH_BITS = 5"
definition LENGTH_SIZE :: nat where "LENGTH_SIZE = 2 ^ LENGTH_BITS"

definition length_step :: "nat \<Rightarrow> nat \<Rightarrow> code list \<times> nat \<Rightarrow> code list \<times> nat" where
  "length_step len symbol st = (case st of (t, code) \<Rightarrow>
     (replicate_code t (key_of code len) (2 ^ len) (code_new len symbol), code + 1))"

definition length_round :: "nat list \<Rightarrow> nat \<Rightarrow> code list \<times> nat \<Rightarrow> code list \<times> nat" where
  "length_round lengths len st =
     (case fold (length_step len) (symbols_of lengths len) st of (t, code) \<Rightarrow> (t, 2 * code))"

definition length_code_build :: "nat list \<Rightarrow> nat \<Rightarrow> code list" where
  "length_code_build lengths count =
     (if count = 1 then
        replicate LENGTH_SIZE (code_new 0 (case List.find (\<lambda>s. lengths ! s \<noteq> 0) [0..<length lengths] of Some s \<Rightarrow> s | None \<Rightarrow> 0))
      else fst (fold (length_round lengths) [1..<LENGTH_BITS + 1] (replicate LENGTH_SIZE 0, 0)))"

definition length_entry :: "code list \<Rightarrow> bits \<Rightarrow> code" where
  "length_entry t b = t ! (bvalue b AND (LENGTH_SIZE - 1))"

function length_wait :: "code list \<Rightarrow> reader \<Rightarrow> (decode_error + bool) \<times> reader" where
  "length_wait t (b, i) =
     (if code_bits (length_entry t b) \<le> bcount b then (Inr True, b, i)
      else (case load_byte (b, i) of
              (Inl e, s) \<Rightarrow> (Inl e, s)
            | (Inr False, s) \<Rightarrow> (Inr False, s)
            | (Inr True, s) \<Rightarrow> length_wait t s))"
  by pat_completeness auto
termination
  by (relation "measure (\<lambda>(t, b, i). length (in_bytes i) - consumed i)")
     (auto dest!: load_byte_consumes [OF sym])

declare length_wait.simps [simp del]

definition length_decode :: "code list \<Rightarrow> reader \<Rightarrow> (decode_error + nat option) \<times> reader" where
  "length_decode t s =
     (let (r, s1) = (if bcount (fst s) < LENGTH_BITS then
                       (let (full, s') = refill s in if full then (Inr True, s') else length_wait t s')
                     else (Inr True, s))
      in case r of
           Inl e \<Rightarrow> (Inl e, s1)
         | Inr False \<Rightarrow> (Inr None, s1)
         | Inr True \<Rightarrow> (Inr (Some (code_value (length_entry t (fst s1)))), discard (code_bits (length_entry t (fst s1))) s1))"

section \<open>The stages\<close>

fun bit_length :: "nat \<Rightarrow> nat" where
  "bit_length n = (if n = 0 then 0 else Suc (bit_length (n div 2)))"

declare bit_length.simps [simp del]

type_synonym read_result = "(decode_error + bool) \<times> builder \<times> reader"

definition huffman_error :: decode_error where
  "huffman_error = InvalidData Huffman"

function simple_symbols :: "nat \<Rightarrow> builder \<times> reader \<Rightarrow> read_result" where
  "simple_symbols alph (b, s) =
     (if b_index b < b_count b then
        (case read (bit_length (alph - 1)) s of
           (Inl e, s') \<Rightarrow> (Inl e, b, s')
         | (Inr None, s') \<Rightarrow> (Inr False, b, s')
         | (Inr (Some symbol), s') \<Rightarrow>
             if symbol \<ge> alph \<or> symbol \<in> set (take (b_index b) (b_symbols b)) then (Inl huffman_error, b, s')
             else simple_symbols alph (b\<lparr>b_symbols := (b_symbols b)[b_index b := symbol], b_index := b_index b + 1\<rparr>, s'))
      else (Inr True, b\<lparr>b_stage := SimpleShape\<rparr>, s))"
  by pat_completeness auto
termination by (relation "measure (\<lambda>(alph, b, s). b_count b - b_index b)") auto

declare simple_symbols.simps [simp del]

definition pair_less :: "nat \<times> nat \<Rightarrow> nat \<times> nat \<Rightarrow> bool" where
  "pair_less p q \<longleftrightarrow> fst p < fst q \<or> fst p = fst q \<and> snd p < snd q"

fun sift :: "nat \<Rightarrow> (nat \<times> nat) list \<Rightarrow> (nat \<times> nat) list" where
  "sift 0 ps = ps"
| "sift (Suc j) ps =
     (if pair_less (ps ! Suc j) (ps ! j) then sift j (ps[Suc j := ps ! j, j := ps ! Suc j]) else ps)"

definition sort_pairs :: "(nat \<times> nat) list \<Rightarrow> (nat \<times> nat) list" where
  "sort_pairs ps = fold sift [1..<length ps] ps"

definition shape_lengths :: "nat \<Rightarrow> nat \<Rightarrow> nat list" where
  "shape_lengths count shape =
     (if count = 1 then [1, 0, 0, 0] else if count = 2 then [1, 1, 0, 0] else if count = 3 then [1, 2, 2, 0]
      else if shape = 0 then [2, 2, 2, 2] else [1, 2, 3, 3])"

definition simple_finish :: "nat \<Rightarrow> builder \<Rightarrow> builder" where
  "simple_finish shape b =
     (let pairs = sort_pairs (take (b_count b) (zip (shape_lengths (b_count b) shape) (b_symbols b)));
          b' = fold (\<lambda>(len, symbol). push symbol len) pairs (clear b)
      in b'\<lparr>b_last := (if pairs = [] then 0 else Max (snd ` set pairs)), b_stage := Start\<rparr>)"

definition simple_shape :: "builder \<times> reader \<Rightarrow> read_result" where
  "simple_shape bs = (case bs of (b, s) \<Rightarrow>
     if b_count b = 4 then
       (case read 1 s of
          (Inl e, s') \<Rightarrow> (Inl e, b, s')
        | (Inr None, s') \<Rightarrow> (Inr False, b, s')
        | (Inr (Some shape), s') \<Rightarrow> (Inr True, simple_finish shape b, s'))
     else (Inr True, simple_finish 0 b, s))"

text \<open>One code length of the code-length code: its width and value.\<close>

definition peek_length :: "reader \<Rightarrow> (decode_error + (nat \<times> nat) option) \<times> reader" where
  "peek_length s0 =
     need (peek 2 s0) (\<lambda>v s1.
       if v = 0 then (Inr (Some (2, 0)), s1)
       else if v = 1 then (Inr (Some (2, 4)), s1)
       else if v = 2 then (Inr (Some (2, 3)), s1)
       else need (peek 3 s1) (\<lambda>n s2.
         if n = 3 then (Inr (Some (3, 2)), s2)
         else need (peek 4 s2) (\<lambda>l s3. (Inr (Some (4, if l = 7 then 1 else 5)), s3))))"

function code_lengths :: "builder \<times> reader \<Rightarrow> read_result" where
  "code_lengths (b, s) =
     (if b_index b < 18 \<and> b_space b > 0 then
        (case peek_length s of
           (Inl e, s') \<Rightarrow> (Inl e, b, s')
         | (Inr None, s') \<Rightarrow> (Inr False, b, s')
         | (Inr (Some (width, v)), s') \<Rightarrow>
             code_lengths
               (b\<lparr>b_small := (b_small b)[ORDER ! b_index b := v], b_index := b_index b + 1,
                  b_count := b_count b + (if v \<noteq> 0 then 1 else 0),
                  b_space := b_space b - (if v \<noteq> 0 then int (shr 32 v) else 0)\<rparr>, discard width s'))
      else if b_space b < 0 \<or> b_count b \<noteq> 1 \<and> b_space b \<noteq> 0 then (Inl huffman_error, b, s)
      else
        (Inr True,
         (clear (b\<lparr>b_code := length_code_build (b_small b) (b_count b)\<rparr>))
           \<lparr>b_index := 0, b_space := 32768, b_previous := 8, b_repeat := 0, b_repeat_length := 0, b_stage := Symbols\<rparr>, s))"
  by pat_completeness auto
termination by (relation "measure (\<lambda>(b, s). 18 - b_index b)") auto

declare code_lengths.simps [simp del]

text \<open>A symbol below sixteen is the length of the next symbol of the alphabet.\<close>

definition plain_length :: "nat \<Rightarrow> builder \<Rightarrow> builder" where
  "plain_length symbol b =
     (let b1 = (if symbol \<noteq> 0 then (push (b_index b) symbol b)\<lparr>b_previous := symbol, b_space := b_space b - int (shr 32768 symbol)\<rparr> else b)
      in b1\<lparr>b_index := b_index b1 + 1, b_repeat := 0\<rparr>)"

text \<open>The length a repeat symbol repeats and the number of symbols a run of repeats has covered.\<close>

definition repeat_before :: "nat \<Rightarrow> builder \<Rightarrow> nat \<times> builder" where
  "repeat_before symbol b =
     (let len = (if symbol = 16 then b_previous b else 0)
      in (len, if b_repeat_length b \<noteq> len then b\<lparr>b_repeat := 0, b_repeat_length := len\<rparr> else b))"

definition repeat_field :: "nat \<Rightarrow> nat \<Rightarrow> nat \<Rightarrow> builder \<Rightarrow> (decode_error + unit) \<times> builder" where
  "repeat_field alph symbol extra b0 =
     (case repeat_before symbol b0 of (len, b) \<Rightarrow>
        let before = b_repeat b;
            total = (if before = 0 then 0 else push_bit (symbol - 14) (before - 2)) + extra + 3;
            delta = total - before;
            end = b_index b + delta;
            b1 = b\<lparr>b_repeat := total\<rparr>
        in if end > alph then (Inl huffman_error, b1)
           else
             (Inr (), (if len \<noteq> 0 then (push_run (b_index b) end len b1)\<lparr>b_space := b_space b - push_bit (15 - len) (int delta)\<rparr> else b1)
                        \<lparr>b_index := end\<rparr>))"

text \<open>
  \<open>Stage::Symbols\<close>. The index never passes the alphabet, so the code's test
  \<open>index == alphabet\<close> is written as an order test, which makes the loop's termination evident.
\<close>

function code_symbols :: "nat \<Rightarrow> builder \<times> reader \<Rightarrow> read_result" where
  "code_symbols alph (b, s) =
     (if b_space b = 0 then (Inr True, b\<lparr>b_stage := Start\<rparr>, s)
      else if b_space b < 0 \<or> b_index b \<ge> alph then (Inl huffman_error, b, s)
      else
        (case length_decode (b_code b) s of
           (Inl e, s') \<Rightarrow> (Inl e, b, s')
         | (Inr None, s') \<Rightarrow> (Inr False, b, s')
         | (Inr (Some symbol), s') \<Rightarrow>
             if symbol < 16 then code_symbols alph (plain_length symbol b, s')
             else
               (case read (symbol - 14) s' of
                  (Inl e, s2) \<Rightarrow> (Inl e, b\<lparr>b_stage := Repeat symbol\<rparr>, s2)
                | (Inr None, s2) \<Rightarrow> (Inr False, b\<lparr>b_stage := Repeat symbol\<rparr>, s2)
                | (Inr (Some extra), s2) \<Rightarrow>
                    (case repeat_field alph symbol extra (b\<lparr>b_stage := Symbols\<rparr>) of
                       (Inl e, b') \<Rightarrow> (Inl e, b', s2)
                     | (Inr _, b') \<Rightarrow> code_symbols alph (b', s2)))))"
  by pat_completeness auto
termination
proof (relation "measure (\<lambda>(alph, b, s). alph - b_index b)", goal_cases)
  case (2 alph b s r s' o1 symbol)
  then show ?case by (auto simp: plain_length_def Let_def push_def)
next
  case (3 alph b s r s' o1 symbol r2 s2 o2 extra r3 b' u)
  define b0 where "b0 = b\<lparr>b_stage := Symbols\<rparr>"
  have grow: "t < (if t = 0 then 0 else push_bit (symbol - 14) (t - 2)) + extra + 3" for t
  proof -
    have "(t - 2) * 4 \<le> (t - 2) * 2 ^ (symbol - 14)"
      using 3 power_increasing [of 2 "symbol - 14" "2::nat"] by (intro mult_left_mono) auto
    moreover have "t < (t - 2) * 4 + 3" by arith
    ultimately have "t < (t - 2) * 2 ^ (symbol - 14) + extra + 3" by linarith
    then show ?thesis unfolding push_bit_eq_mult by (cases "t = 0") (simp, simp only: if_False)
  qed
  have "b_index b0 < b_index b' \<and> b_index b' \<le> alph"
    using 3 grow [of "b_repeat (snd (repeat_before symbol b0))"]
    by (auto simp: repeat_field_def repeat_before_def Let_def b0_def split: if_splits)
  then have "b_index b < b_index b'" "b_index b < alph" by (simp_all add: b0_def)
  then show ?case by (simp add: diff_less_mono2)
qed auto

declare code_symbols.simps [simp del]

text \<open>Entering the stage: a pending repeat symbol is finished first.\<close>

definition resume_symbols :: "nat \<Rightarrow> builder \<times> reader \<Rightarrow> read_result" where
  "resume_symbols alph bs = (case bs of (b, s) \<Rightarrow>
     case b_stage b of
       Repeat symbol \<Rightarrow>
         (case read (symbol - 14) s of
            (Inl e, s2) \<Rightarrow> (Inl e, b, s2)
          | (Inr None, s2) \<Rightarrow> (Inr False, b, s2)
          | (Inr (Some extra), s2) \<Rightarrow>
              (case repeat_field alph symbol extra (b\<lparr>b_stage := Symbols\<rparr>) of
                 (Inl e, b') \<Rightarrow> (Inl e, b', s2)
               | (Inr _, b') \<Rightarrow> code_symbols alph (b', s2)))
     | _ \<Rightarrow> code_symbols alph (b, s))"

text \<open>
  \<open>Builder::read\<close>: the loop over the stages only moves forward, so it is the composition of the
  stages from the current one on. \<open>and_then\<close> goes on with the next stage.
\<close>

definition and_then :: "read_result \<Rightarrow> (builder \<times> reader \<Rightarrow> read_result) \<Rightarrow> read_result" where
  "and_then r k = (case r of (Inr True, bs) \<Rightarrow> k bs | _ \<Rightarrow> r)"

definition simple_count :: "builder \<times> reader \<Rightarrow> read_result" where
  "simple_count bs = (case bs of (b, s) \<Rightarrow>
     case read 2 s of
       (Inl e, s') \<Rightarrow> (Inl e, b, s')
     | (Inr None, s') \<Rightarrow> (Inr False, b, s')
     | (Inr (Some count), s') \<Rightarrow> (Inr True, b\<lparr>b_count := count + 1, b_index := 0, b_stage := SimpleSymbols\<rparr>, s'))"

definition read_start :: "builder \<times> reader \<Rightarrow> read_result" where
  "read_start bs = (case bs of (b, s) \<Rightarrow>
     case read 2 s of
       (Inl e, s') \<Rightarrow> (Inl e, b, s')
     | (Inr None, s') \<Rightarrow> (Inr False, b, s')
     | (Inr (Some skip), s') \<Rightarrow>
         (Inr True, (let b1 = b\<lparr>b_index := skip, b_space := 32, b_count := 0\<rparr> in
            if skip = 1 then b1\<lparr>b_stage := SimpleCount\<rparr>
            else b1\<lparr>b_small := replicate 18 0, b_stage := CodeLengths\<rparr>), s'))"

definition read_simple_symbols :: "nat \<Rightarrow> builder \<times> reader \<Rightarrow> read_result" where
  "read_simple_symbols alph bs = and_then (simple_symbols alph bs) simple_shape"

definition read_simple :: "nat \<Rightarrow> builder \<times> reader \<Rightarrow> read_result" where
  "read_simple alph bs = and_then (simple_count bs) (read_simple_symbols alph)"

definition read_complex :: "nat \<Rightarrow> builder \<times> reader \<Rightarrow> read_result" where
  "read_complex alph bs = and_then (code_lengths bs) (resume_symbols alph)"

definition builder_read :: "nat \<Rightarrow> builder \<times> reader \<Rightarrow> read_result" where
  "builder_read alph bs =
     (if alph = 0 \<or> alph > MAX_ALPHABET then (Inl huffman_error, bs)
      else case b_stage (fst bs) of
        Start \<Rightarrow> and_then (read_start bs) (\<lambda>bs. if b_stage (fst bs) = SimpleCount then read_simple alph bs else read_complex alph bs)
      | SimpleCount \<Rightarrow> read_simple alph bs
      | SimpleSymbols \<Rightarrow> read_simple_symbols alph bs
      | SimpleShape \<Rightarrow> simple_shape bs
      | CodeLengths \<Rightarrow> read_complex alph bs
      | Symbols \<Rightarrow> resume_symbols alph bs
      | Repeat symbol \<Rightarrow> resume_symbols alph bs)"

end
