(* ===== verification/Description.thy ===== *)
theory Description
  imports Prefix_Reader
begin

unbundle bit_operations_syntax

text \<open>
  Correctness of the description reader. \<open>kraft n ds\<close> is the code space a list of lengths
  uses; \<open>reading\<close> is the invariant of the symbol loop: the lists hold the symbols of the lengths
  read so far and \<open>space\<close> is what they leave. From it, a description that is accepted always
  describes a complete code, or a single symbol, whose table can be built.
\<close>

section \<open>Code space\<close>

definition kraft :: "nat \<Rightarrow> nat list \<Rightarrow> nat" where
  "kraft n ds = sum_list (map (\<lambda>d. if d = 0 then 0 else 2 ^ (n - d)) ds)"

lemma used_codes_sum: "used_codes L n = (\<Sum>l\<in>{1..n}. length (L l) * 2 ^ (n - l))"
proof (induction n)
  case (Suc n)
  have "(\<Sum>l\<in>{1..n}. length (L l) * 2 ^ (Suc n - l)) = 2 * (\<Sum>l\<in>{1..n}. length (L l) * 2 ^ (n - l))"
    unfolding sum_distrib_left by (rule sum.cong) (auto simp: Suc_diff_le)
  then show ?case using Suc by simp
qed simp

lemma symbols_of_snoc: "symbols_of (ds @ [d]) l = symbols_of ds l @ (if d = l then [length ds] else [])"
proof -
  have "filter (\<lambda>s. (ds @ [d]) ! s = l) [0..<length ds] = filter (\<lambda>s. ds ! s = l) [0..<length ds]"
    by (rule filter_cong) (auto simp: nth_append)
  then show ?thesis by (simp add: symbols_of_def nth_append)
qed

lemma symbols_of_Nil [simp]: "symbols_of [] l = []"
  by (simp add: symbols_of_def)

lemma used_codes_kraft:
  assumes "\<forall>d\<in>set ds. d \<le> n"
  shows "used_codes (symbols_of ds) n = kraft n ds"
  using assms
proof (induction ds rule: rev_induct)
  case Nil
  then show ?case by (simp add: used_codes_sum kraft_def)
next
  case (snoc d ds)
  have "used_codes (symbols_of (ds @ [d])) n = (\<Sum>l\<in>{1..n}. length (symbols_of ds l) * 2 ^ (n - l) + (if l = d then 2 ^ (n - l) else 0))"
    unfolding used_codes_sum by (rule sum.cong) (auto simp: symbols_of_snoc)
  also have "\<dots> = used_codes (symbols_of ds) n + (if d = 0 then 0 else 2 ^ (n - d))"
    unfolding used_codes_sum using snoc.prems by (auto simp: sum.distrib)
  finally show ?case using snoc by (simp add: kraft_def)
qed

text \<open>The lists of a list of lengths; a length of zero means no code.\<close>

definition coded :: "nat list \<Rightarrow> nat \<Rightarrow> nat list" where
  "coded ds l = (if l = 0 then [] else symbols_of ds l)"

lemma used_codes_coded: "used_codes (coded ds) n = used_codes (symbols_of ds) n"
  unfolding used_codes_sum by (rule sum.cong) (auto simp: coded_def)

lemma first_code_coded: "first_code (coded ds) l = first_code (symbols_of ds) l"
proof (cases l)
  case (Suc k)
  then show ?thesis by (simp add: used_codes_coded)
qed simp

lemma canonical_coded: "canonical (coded ds) = canonical (symbols_of ds)"
proof -
  have same: "1 \<le> l \<Longrightarrow> coded ds l = symbols_of ds l" for l by (simp add: coded_def)
  have sub: "(p \<in> canonical (coded ds)) = (p \<in> canonical (symbols_of ds))" for p
    unfolding canonical_def mem_Collect_eq first_code_coded
    by (intro ex_cong1) (metis same)
  show ?thesis by (rule set_eqI) (rule sub)
qed

lemma complete_coded: "complete (coded ds) \<longleftrightarrow> complete (symbols_of ds)"
  by (simp add: complete_def used_codes_coded)

lemma complete_kraft:
  assumes "\<forall>d\<in>set ds. d \<le> n" "n \<le> MAX_LENGTH"
  shows "complete (coded ds) \<longleftrightarrow> kraft n ds = 2 ^ n"
proof -
  have "used_codes (symbols_of ds) (n + d) = used_codes (symbols_of ds) n * 2 ^ d" for d
  proof (induction d)
    case (Suc d)
    have "symbols_of ds (Suc (n + d)) = []" using assms(1) by (force simp: symbols_of_def filter_empty_conv dest: nth_mem)
    with Suc show ?case by simp
  qed simp
  from this [of "MAX_LENGTH - n"] have u: "used_codes (symbols_of ds) MAX_LENGTH = kraft n ds * 2 ^ (MAX_LENGTH - n)"
    using assms used_codes_kraft [OF assms(1)] by simp
  have "(2::nat) ^ MAX_LENGTH = 2 ^ n * 2 ^ (MAX_LENGTH - n)" using assms(2) by (simp flip: power_add)
  then show ?thesis unfolding complete_def used_codes_coded u by simp
qed

section \<open>The code-length code\<close>

definition length_carries :: "code list \<Rightarrow> (bool list \<times> nat) set \<Rightarrow> bool" where
  "length_carries t C \<longleftrightarrow> (\<forall>cw s. (cw, s) \<in> C \<longrightarrow> length cw \<le> LENGTH_BITS \<and>
     (\<forall>i<LENGTH_SIZE. prefix cw (bits_of_nat LENGTH_BITS i) \<longrightarrow> code_bits (t ! i) = length cw \<and> code_value (t ! i) = s))"

definition length_code :: "nat list \<Rightarrow> nat \<Rightarrow> (bool list \<times> nat) set" where
  "length_code lengths count =
     (if count = 1 then {([], case List.find (\<lambda>s. lengths ! s \<noteq> 0) [0..<length lengths] of Some s \<Rightarrow> s | None \<Rightarrow> 0)}
      else canonical (symbols_of lengths))"

lemma length_rounds:
  assumes f: "fits (symbols_of ds)" and n: "n \<le> LENGTH_BITS" and t: "length t = LENGTH_SIZE"
  shows "\<exists>t'. fold (length_round ds) [1..<n + 1] (t, 0) = (t', first_code (symbols_of ds) (Suc n)) \<and>
    written (symbols_of ds) LENGTH_BITS t' (short_codes (symbols_of ds) n) \<and> length t' = LENGTH_SIZE"
  using n
proof (induction n)
  case 0
  then show ?case using t by (auto simp: written_def short_codes_def)
next
  case (Suc n)
  let ?L = "symbols_of ds"
  obtain t1 where IH: "fold (length_round ds) [1..<n + 1] (t, 0) = (t1, first_code ?L (Suc n))"
    "written ?L LENGTH_BITS t1 (short_codes ?L n)" "length t1 = LENGTH_SIZE" using Suc by auto
  have lm: "Suc n \<le> MAX_LENGTH" using Suc.prems by (simp add: LENGTH_BITS_def MAX_LENGTH_def)
  have P: "\<forall>(m, k)\<in>short_codes ?L n. valid_code ?L m k \<and> m \<noteq> Suc n"
    using lm by (auto simp: short_codes_def valid_code_def)
  have w: "written ?L LENGTH_BITS t1 (short_codes ?L n \<union> {(Suc n, k) | k. k < 0})" using IH(2) by simp
  have tb: "2 ^ LENGTH_BITS \<le> length t1" using IH(3) by (simp add: LENGTH_SIZE_def)
  have step: "fold (root_step (2 ^ LENGTH_BITS) (2 ^ Suc n) (Suc n)) xs (t, c) = fold (length_step (Suc n)) xs (t, c)"
    if "length t = LENGTH_SIZE" for xs t c
    using that
  proof (induction xs arbitrary: t c)
    case (Cons x xs)
    then show ?case by (simp add: root_step_def length_step_def on_slice_def LENGTH_SIZE_def del: power_Suc)
  qed simp
  obtain t2 where r: "fold (root_step (2 ^ LENGTH_BITS) (2 ^ Suc n) (Suc n)) (drop 0 (?L (Suc n))) (t1, first_code ?L (Suc n) + 0) =
      (t2, first_code ?L (Suc n) + length (?L (Suc n)))"
    "written ?L LENGTH_BITS t2 (short_codes ?L n \<union> {(Suc n, k) | k. k < length (?L (Suc n))})" "length t2 = length t1"
    using root_symbols_written [OF f _ lm _ _ tb P w] Suc.prems by auto
  have "short_codes ?L n \<union> {(Suc n, k) | k. k < length (?L (Suc n))} = short_codes ?L (Suc n)"
    by (auto simp: short_codes_def le_Suc_eq)
  moreover have "length_round ds (Suc n) (t1, first_code ?L (Suc n)) = (t2, 2 * (first_code ?L (Suc n) + length (?L (Suc n))))"
    using r(1) unfolding length_round_def step [OF IH(3)] by simp
  moreover have "2 * (first_code ?L (Suc n) + length (?L (Suc n))) = first_code ?L (Suc (Suc n))" by simp
  moreover have "[1..<Suc n + 1] = [1..<n + 1] @ [Suc n]" by simp
  ultimately show ?case using IH(1,3) r(2,3) by (simp only: fold_append fold_simps comp_apply) simp
qed

lemma length_code_build_carries:
  assumes "\<forall>d\<in>set ds. d \<le> LENGTH_BITS" "length ds = 18" "count = 1 \<or> kraft LENGTH_BITS ds = 2 ^ LENGTH_BITS"
  shows "prefix_code (length_code ds count)" "length_carries (length_code_build ds count) (length_code ds count)"
    "(cw, s) \<in> length_code ds count \<Longrightarrow> s < 18"
proof -
  define only where "only = (case List.find (\<lambda>s. ds ! s \<noteq> 0) [0..<length ds] of Some s \<Rightarrow> s | None \<Rightarrow> 0)"
  have only: "only < 18" unfolding only_def using assms(2) by (auto simp: find_Some_iff split: option.split)
  have "prefix_code (length_code ds count) \<and> length_carries (length_code_build ds count) (length_code ds count) \<and>
    (\<forall>cw s. (cw, s) \<in> length_code ds count \<longrightarrow> s < 18)"
  proof (cases "count = 1")
    case True
    have "code_bits (code_new 0 only) = 0" "code_value (code_new 0 only) = only" using code_new_sel [of 0 only] only by simp_all
    moreover have "length_code ds count = {([], only)}" unfolding length_code_def if_P [OF True] only_def ..
    moreover have "length_code_build ds count = replicate LENGTH_SIZE (code_new 0 only)"
      unfolding length_code_build_def if_P [OF True] only_def ..
    ultimately show ?thesis using only single_prefix_code by (simp add: length_carries_def)
  next
    case False
    have "LENGTH_BITS \<le> MAX_LENGTH" by (simp add: LENGTH_BITS_def MAX_LENGTH_def)
    then have c: "complete (symbols_of ds)" using complete_kraft [OF assms(1)] assms(3) False complete_coded by blast
    obtain t' where t': "fold (length_round ds) [1..<LENGTH_BITS + 1] (replicate LENGTH_SIZE 0, 0) = (t', first_code (symbols_of ds) (Suc LENGTH_BITS))"
      "written (symbols_of ds) LENGTH_BITS t' (short_codes (symbols_of ds) LENGTH_BITS)" "length t' = LENGTH_SIZE"
      using length_rounds [OF complete_fits [OF c] order_refl, of "replicate LENGTH_SIZE 0"] by auto
    have b: "length_code_build ds count = t'" using False t'(1) by (simp add: length_code_build_def)
    have each: "s < 18 \<and> length cw \<le> LENGTH_BITS \<and>
        (\<forall>i<LENGTH_SIZE. prefix cw (bits_of_nat LENGTH_BITS i) \<longrightarrow> code_bits (t' ! i) = length cw \<and> code_value (t' ! i) = s)"
      if mem: "(cw, s) \<in> canonical (symbols_of ds)" for cw s
    proof -
      obtain l j where cw: "cw = word_of (symbols_of ds) l j" "s = symbols_of ds l ! j" and v: "valid_code (symbols_of ds) l j"
        using mem unfolding canonical_def word_of_def valid_code_def by blast
      have "s \<in> set (symbols_of ds l)" using v cw(2) by (simp add: valid_code_def)
      then have s: "s < 18" "ds ! s = l" "s < length ds" using assms(2) by (simp_all add: set_symbols_of)
      then have l: "l \<le> LENGTH_BITS" using assms(1) nth_mem by blast
      then have "(l, j) \<in> short_codes (symbols_of ds) LENGTH_BITS" using v by (simp add: short_codes_def valid_code_def)
      then have "\<forall>i<2 ^ LENGTH_BITS. prefix cw (bits_of_nat LENGTH_BITS i) \<longrightarrow> t' ! i = code_new l s"
        using t'(2) unfolding written_def cw by blast
      moreover have "code_bits (code_new l s) = l" "code_value (code_new l s) = s"
        using code_new_sel [of l s] l s(1) by (simp_all add: LENGTH_BITS_def)
      ultimately show ?thesis using s(1) l cw(1) by (simp add: LENGTH_SIZE_def)
    qed
    then show ?thesis
      using canonical_prefix_code [OF c] False unfolding length_code_def b length_carries_def by auto
  qed
  then show "prefix_code (length_code ds count)" "length_carries (length_code_build ds count) (length_code ds count)"
    "(cw, s) \<in> length_code ds count \<Longrightarrow> s < 18" by blast+
qed

lemma length_entry_code:
  assumes "length_carries t C" "(cw, s) \<in> C" "cw = bits_of_nat (length cw) (bvalue b)"
  shows "code_bits (length_entry t b) = length cw" "code_value (length_entry t b) = s" "length cw \<le> LENGTH_BITS"
proof -
  show l: "length cw \<le> LENGTH_BITS" using assms(1,2) by (auto simp: length_carries_def)
  define i where "i = bvalue b mod 2 ^ LENGTH_BITS"
  have e: "length_entry t b = t ! i" unfolding length_entry_def LENGTH_SIZE_def AND_mask_nat i_def ..
  have "bits_of_nat LENGTH_BITS i = bits_of_nat LENGTH_BITS (bvalue b)"
    unfolding i_def by (metis bits_of_nat_take_bit order_refl take_bit_eq_mod)
  then have "prefix cw (bits_of_nat LENGTH_BITS i)" using l assms(3) by (metis prefix_bits_of_nat)
  moreover have "i < LENGTH_SIZE" by (simp add: i_def LENGTH_SIZE_def)
  ultimately show "code_bits (length_entry t b) = length cw" "code_value (length_entry t b) = s"
    using assms(1,2) unfolding length_carries_def e by blast+
qed

lemma length_wait_reads:
  assumes "reader_ok s" "prefix_code C" "length_carries t C"
  shows "case length_wait t s of (r, s') \<Rightarrow> reader_ok s' \<and> same_call s s' \<and> stream s' = stream s \<and>
    (r = Inr True \<and> code_bits (length_entry t (fst s')) \<le> buffered s' \<or>
     r \<noteq> Inr True \<and> (case r of Inl e \<Rightarrow> Inl e | Inr _ \<Rightarrow> Inr None) = (stall (starved s) :: decode_error + nat option) \<and>
       (\<forall>cw v. (cw, v) \<in> C \<longrightarrow> \<not> prefix cw (stream s)))"
  using assms
proof (induction t s rule: length_wait.induct)
  case (1 t b i)
  note ok = "1.prems"(1) and pc = "1.prems"(2) and t = "1.prems"(3)
  obtain cw v where C: "(cw, v) \<in> C" "cw = bits_of_nat (length cw) (bvalue b)" "length cw \<le> MAX_LENGTH"
    by (rule codeword_of_value [OF pc])
  note e = length_entry_code [OF t C(1,2)]
  show ?case
  proof (cases "length cw \<le> bcount b")
    case True
    then have "length_wait t (b, i) = (Inr True, b, i)" by (subst length_wait.simps) (simp add: e)
    then show ?thesis using ok True e(1) by (simp add: buffered_def)
  next
    case False
    have nb: "\<not> code_bits (length_entry t b) \<le> bcount b" using False e(1) by simp
    have iok: "input_ok i" using ok by (simp add: reader_ok_def)
    show ?thesis
    proof (cases "consumed i < fast_end i")
      case True
      obtain b' i' where ld: "load_byte (b, i) = (Inr True, b', i')"
        using load_byte_succeeds [OF iok True] by blast
      have "bcount b \<le> 56" using False C(3) by (simp add: MAX_LENGTH_def)
      note st = load_byte_stream [OF ok this True ld]
      have sc: "same_call (b, i) (b', i')" using st(4) by (simp add: same_call_def)
      have "length_wait t (b, i) = length_wait t (b', i')" using nb ld by (subst length_wait.simps) simp
      moreover note "1.IH" [OF nb ld [symmetric] refl refl st(1) pc t]
      ultimately show ?thesis
        using sc same_call_starved [OF sc] st(2) by (auto split: prod.splits dest: same_call_trans)
    next
      case dry: False
      with iok have en: "consumed i = fast_end i" by (simp add: input_ok_def)
      have st: "stream (b, i) = bits_of_nat (bcount b) (bvalue b)"
        using acceptable_end [OF en iok] by (simp add: stream_def)
      have "\<not> prefix cw' (stream (b, i))" if "(cw', v') \<in> C" for cw' v'
      proof
        assume p: "prefix cw' (stream (b, i))"
        then have "cw' = bits_of_nat (length cw') (bvalue b)" "length cw' \<le> bcount b"
          unfolding st prefix_bits_of_nat by simp_all
        moreover have "prefix cw' (bits_of_nat MAX_LENGTH (bvalue b))" "prefix cw (bits_of_nat MAX_LENGTH (bvalue b))"
          using C(2,3) prefix_codeD(2) [OF pc that] calculation(1) unfolding prefix_bits_of_nat by blast+
        ultimately show False using prefix_code_unique(1) [OF pc that C(1)] False by blast
      qed
      moreover have "length_wait t (b, i) = (case starved (b, i) of Some e \<Rightarrow> Inl e | None \<Rightarrow> Inr False, b, i)"
        using nb load_byte_fails [OF iok en, of b] by (subst length_wait.simps) (auto split: option.splits)
      ultimately show ?thesis using ok by (auto split: option.splits)
    qed
  qed
qed

lemma length_decode_reads:
  assumes "reader_ok s" "prefix_code C" "length_carries t C"
  shows "reads_symbol C s (length_decode t s)"
proof -
  have finish: "reads_symbol C s' (Inr (Some (code_value (length_entry t (fst s')))), discard (code_bits (length_entry t (fst s'))) s')"
    if ok: "reader_ok s'" and n: "code_bits (length_entry t (fst s')) \<le> buffered s'" for s'
  proof -
    obtain b i where s': "s' = (b, i)" by (cases s')
    obtain cw v where C: "(cw, v) \<in> C" "cw = bits_of_nat (length cw) (bvalue b)" "length cw \<le> MAX_LENGTH"
      by (rule codeword_of_value [OF assms(2)])
    note e = length_entry_code [OF assms(3) C(1,2)]
    have "length cw \<le> bcount b" using n e(1) by (simp add: s' buffered_def)
    from take_codeword [OF ok [unfolded s'] C(1,2) this] show ?thesis
      by (simp add: s' e discard_def)
  qed
  have move: "reads_symbol C s r" if "reads_symbol C s' r" "stream s' = stream s" "same_call s s'" for s' r
    using that same_call_starved [OF that(3)] unfolding reads_symbol_def by (auto dest: same_call_trans)
  have small: "code_bits (length_entry t b) \<le> LENGTH_BITS" for b
  proof -
    obtain cw v where C: "(cw, v) \<in> C" "cw = bits_of_nat (length cw) (bvalue b)" "length cw \<le> MAX_LENGTH"
      by (rule codeword_of_value [OF assms(2)])
    then show ?thesis using length_entry_code [OF assms(3) C(1,2)] by simp
  qed
  show ?thesis
  proof (cases "bcount (fst s) < LENGTH_BITS")
    case False
    then have "code_bits (length_entry t (fst s)) \<le> buffered s" using small [of "fst s"] by (simp add: buffered_def)
    then show ?thesis using finish [OF assms(1)] False by (simp add: length_decode_def)
  next
    case True
    obtain full s1 where rf: "refill s = (full, s1)" by (cases "refill s")
    have "buffered s < 64" using True by (simp add: LENGTH_BITS_def buffered_def)
    note st = refill_stream [OF assms(1) this rf]
    show ?thesis
    proof (cases full)
      case full: True
      then have "code_bits (length_entry t (fst s1)) \<le> buffered s1"
        using st(4) small [of "fst s1"] by (simp add: MAX_PEEK_def LENGTH_BITS_def)
      with finish [OF st(1)] show ?thesis
        using True full move [OF _ st(2,3)] by (simp add: length_decode_def rf)
    next
      case False
      obtain r s2 where w: "length_wait t s1 = (r, s2)" by (cases "length_wait t s1")
      note lw = length_wait_reads [OF st(1) assms(2,3), unfolded w prod.case]
      have ld: "length_decode t s = (case r of Inl e \<Rightarrow> (Inl e, s2) | Inr False \<Rightarrow> (Inr None, s2)
          | Inr True \<Rightarrow> (Inr (Some (code_value (length_entry t (fst s2)))), discard (code_bits (length_entry t (fst s2))) s2))"
        using True False by (simp add: length_decode_def rf w)
      have sc: "same_call s s2" "stream s2 = stream s" using lw st(2,3) by (auto dest: same_call_trans)
      consider "r = Inr True" "code_bits (length_entry t (fst s2)) \<le> buffered s2" |
        "r \<noteq> Inr True" "(case r of Inl e \<Rightarrow> Inl e | Inr _ \<Rightarrow> Inr None) = (stall (starved s1) :: decode_error + nat option)"
        "\<forall>cw v. (cw, v) \<in> C \<longrightarrow> \<not> prefix cw (stream s1)"
        using lw by blast
      then show ?thesis
      proof cases
        case 1
        then show ?thesis using finish [of s2] lw move [OF _ sc(2,1)] by (simp add: ld)
      next
        case 2
        then have "length_decode t s = (stall (starved s), s2)"
          unfolding ld using same_call_starved [OF st(3)] by (auto split: sum.splits bool.splits)
        then show ?thesis using 2(3) lw sc st(2) unfolding reads_symbol_def by auto
      qed
    qed
  qed
qed

interpretation lengths: symbol_decoder length_decode length_carries
  by unfold_locales (rule length_decode_reads)

end
