(* ===== verification/Accepted.thy ===== *)
theory Accepted
  imports Description
begin

unbundle bit_operations_syntax

text \<open>
  What an accepted description leaves. \<open>builder_ok\<close> is the invariant of the description reader,
  stage by stage; it holds of a fresh builder, every suspended read keeps it, and a read that
  ends well leaves the lists of a complete code or of a single symbol, all within the alphabet.
\<close>

section \<open>Appending lengths\<close>

lemma kraft_append [simp]: "kraft n (ds @ es) = kraft n ds + kraft n es"
  by (simp add: kraft_def)

lemma kraft_replicate [simp]: "kraft n (replicate k d) = k * (if d = 0 then 0 else 2 ^ (n - d))"
  by (induction k) (simp_all add: kraft_def)

lemma kraft_Cons: "kraft n (d # ds) = (if d = 0 then 0 else 2 ^ (n - d)) + kraft n ds"
  by (simp add: kraft_def)

lemma coded_snoc: "coded (ds @ [d]) = (if d = 0 then coded ds else (coded ds)(d := coded ds d @ [length ds]))"
  by (rule ext) (auto simp: coded_def symbols_of_snoc)

lemma coded_replicate:
  "coded (ds @ replicate k d) =
     (if d = 0 then coded ds else (coded ds)(d := coded ds d @ [length ds..<length ds + k]))"
proof (induction k)
  case (Suc k)
  have "ds @ replicate (Suc k) d = (ds @ replicate k d) @ [d]" by (simp flip: replicate_append_same)
  then show ?case using Suc by (simp only: coded_snoc) simp
qed auto

lemma coded_below: "s \<in> set (coded ds l) \<Longrightarrow> s < length ds"
  by (simp add: coded_def symbols_of_def split: if_splits)

lemma coded_0 [simp]: "coded ds 0 = []"
  by (simp add: coded_def)

section \<open>The symbol loop\<close>

definition length_code_ok :: "builder \<Rightarrow> bool" where
  "length_code_ok b \<longleftrightarrow> (\<exists>C. prefix_code C \<and> length_carries (b_code b) C \<and> (\<forall>cw s. (cw, s) \<in> C \<longrightarrow> s < 18))"

definition reading :: "nat \<Rightarrow> nat list \<Rightarrow> builder \<Rightarrow> bool" where
  "reading alph ds b \<longleftrightarrow> lists_ok b (coded ds) \<and> b_index b = length ds \<and> length ds \<le> alph \<and> 0 < alph \<and>
     alph \<le> MAX_ALPHABET \<and> (\<forall>d\<in>set ds. d \<le> MAX_LENGTH) \<and> b_space b = 32768 - int (kraft MAX_LENGTH ds) \<and>
     1 \<le> b_previous b \<and> b_previous b \<le> MAX_LENGTH \<and> b_last b < alph"

lemma readingD:
  assumes "reading alph ds b"
  shows "lists_ok b (coded ds)" "b_index b = length ds" "length ds \<le> alph" "0 < alph" "alph \<le> MAX_ALPHABET"
    "d \<in> set ds \<Longrightarrow> d \<le> MAX_LENGTH" "b_space b = 32768 - int (kraft MAX_LENGTH ds)" "1 \<le> b_previous b"
    "b_previous b \<le> MAX_LENGTH" "b_last b < alph"
  using assms unfolding reading_def by blast+

lemma lists_ok_cong:
  assumes "b_next b' = b_next b" "b_head b' = b_head b" "b_tail b' = b_tail b" "b_counts b' = b_counts b"
    "b_total b' = b_total b"
  shows "lists_ok b' L = lists_ok b L"
  unfolding lists_ok_def assms ..

lemma plain_length_reading:
  assumes r: "reading alph ds b" and sy: "symbol < 16" and room: "length ds < alph"
  shows "reading alph (ds @ [symbol]) (plain_length symbol b)"
proof -
  note rd = readingD [OF r]
  have sm: "symbol \<le> MAX_LENGTH" using sy by (simp add: MAX_LENGTH_def)
  show ?thesis
  proof (cases "symbol = 0")
    case True
    then have "lists_ok (plain_length symbol b) (coded (ds @ [symbol]))"
      using rd(1) by (simp add: plain_length_def coded_snoc lists_ok_def)
    then show ?thesis using True rd room sm by (simp add: reading_def plain_length_def kraft_Cons kraft_def)
  next
    case False
    have s: "length ds < MAX_ALPHABET" using room rd(5) by simp
    have below: "\<And>m. m \<le> MAX_LENGTH \<Longrightarrow> length ds \<notin> set (coded ds m)" "\<forall>x\<in>set (coded ds symbol). x < length ds"
      using coded_below by blast+
    note p = push_lists [OF rd(1) sm s below]
    have l: "lists_ok (plain_length symbol b) (coded (ds @ [symbol]))"
      using p(1) False by (simp add: plain_length_def coded_snoc lists_ok_def rd(2) del: fun_upd_apply)
    have "shr 32768 symbol = 2 ^ (MAX_LENGTH - symbol)"
    proof -
      have "(32768::nat) = 2 ^ (MAX_LENGTH - symbol) * 2 ^ symbol" using sm by (simp flip: power_add add: MAX_LENGTH_def)
      then show ?thesis unfolding shr_def drop_bit_eq_div by (metis nonzero_mult_div_cancel_right power_not_zero zero_neq_numeral)
    qed
    moreover have "b_index (push (b_index b) symbol b) = b_index b" "b_space (push (b_index b) symbol b) = b_space b"
      by (simp_all add: push_def Let_def)
    ultimately show ?thesis using False rd room l sm p(2)
      by (simp add: reading_def plain_length_def kraft_Cons kraft_def)
  qed
qed

lemma push_run_keeps [simp]:
  "b_index (push_run i j l b) = b_index b" "b_space (push_run i j l b) = b_space b"
  "b_previous (push_run i j l b) = b_previous b" "b_code (push_run i j l b) = b_code b"
  "b_stage (push_run i j l b) = b_stage b" "b_small (push_run i j l b) = b_small b"
  "b_symbols (push_run i j l b) = b_symbols b" "b_repeat (push_run i j l b) = b_repeat b"
  "b_repeat_length (push_run i j l b) = b_repeat_length b"
  by (simp_all add: push_run_def Let_def)

lemma push_keeps [simp]:
  "b_index (push i l b) = b_index b" "b_space (push i l b) = b_space b" "b_previous (push i l b) = b_previous b"
  "b_code (push i l b) = b_code b" "b_stage (push i l b) = b_stage b" "b_small (push i l b) = b_small b"
  "b_symbols (push i l b) = b_symbols b" "b_repeat (push i l b) = b_repeat b"
  "b_repeat_length (push i l b) = b_repeat_length b"
  by (simp_all add: push_def Let_def)

text \<open>The number of symbols one repeat symbol adds.\<close>

definition repeat_delta :: "nat \<Rightarrow> nat \<Rightarrow> nat \<Rightarrow> nat" where
  "repeat_delta symbol extra before =
     (if before = 0 then 0 else push_bit (symbol - 14) (before - 2)) + extra + 3 - before"

lemma repeat_delta_pos:
  assumes "symbol = 16 \<or> symbol = 17"
  shows "0 < repeat_delta symbol extra before"
proof -
  have "(before - 2) * 4 \<le> push_bit (symbol - 14) (before - 2)"
    using assms by (auto simp: push_bit_eq_mult)
  then have "before < push_bit (symbol - 14) (before - 2) + extra + 3" by arith
  then show ?thesis unfolding repeat_delta_def by (cases "before = 0") simp_all
qed

lemma repeat_field_reading:
  assumes r: "reading alph ds b" and sy: "symbol = 16 \<or> symbol = 17"
  shows "case repeat_field alph symbol extra b of
      (Inl e, b') \<Rightarrow> e = huffman_error
    | (Inr _, b') \<Rightarrow>
        (let len = fst (repeat_before symbol b); d = repeat_delta symbol extra (b_repeat (snd (repeat_before symbol b))) in
         reading alph (ds @ replicate d len) b' \<and> b_code b' = b_code b \<and> b_stage b' = b_stage b \<and>
         b_small b' = b_small b \<and> b_symbols b' = b_symbols b)"
proof -
  note rd = readingD [OF r]
  obtain len b1 where rb: "repeat_before symbol b = (len, b1)" by (cases "repeat_before symbol b")
  define d where "d = repeat_delta symbol extra (b_repeat b1)"
  define b2 where "b2 = b1\<lparr>b_repeat := b_repeat b1 + d\<rparr>"
  have d: "0 < d" unfolding d_def by (rule repeat_delta_pos [OF sy])
  then have tot: "(if b_repeat b1 = 0 then 0 else push_bit (symbol - 14) (b_repeat b1 - 2)) + extra + 3 = b_repeat b1 + d"
    unfolding d_def repeat_delta_def by simp
  have len: "len = 0 \<or> len = b_previous b" "len \<le> MAX_LENGTH" "len = (if symbol = 16 then b_previous b else 0)"
    using rb rd(9) by (auto simp: repeat_before_def Let_def split: if_splits)
  have same: "b_next b1 = b_next b" "b_head b1 = b_head b" "b_tail b1 = b_tail b" "b_counts b1 = b_counts b" "b_total b1 = b_total b"
    "b_index b1 = b_index b" "b_space b1 = b_space b" "b_previous b1 = b_previous b" "b_last b1 = b_last b" "b_code b1 = b_code b"
    "b_stage b1 = b_stage b" "b_small b1 = b_small b" "b_symbols b1 = b_symbols b"
    using rb by (auto simp: repeat_before_def Let_def split: if_splits)
  have rf: "repeat_field alph symbol extra b =
     (if length ds + d > alph then (Inl huffman_error, b2)
      else (Inr (), (if len \<noteq> 0 then (push_run (length ds) (length ds + d) len b2)\<lparr>b_space := b_space b - push_bit (15 - len) (int d)\<rparr> else b2)
                        \<lparr>b_index := length ds + d\<rparr>))"
    unfolding repeat_field_def rb prod.case Let_def tot b2_def using same rd(2) by simp
  show ?thesis
  proof (cases "length ds + d > alph")
    case True
    then show ?thesis by (simp add: rf)
  next
    case False
    define b3 where "b3 = (if len \<noteq> 0 then (push_run (length ds) (length ds + d) len b2)\<lparr>b_space := b_space b - push_bit (15 - len) (int d)\<rparr> else b2)
                        \<lparr>b_index := length ds + d\<rparr>"
    have l2: "lists_ok b2 (coded ds)" using rd(1) same by (simp add: b2_def lists_ok_def)
    have lens: "\<forall>d\<in>set (ds @ replicate d len). d \<le> MAX_LENGTH" using rd(6) len(2) by auto
    have "reading alph (ds @ replicate d len) b3"
    proof (cases "len = 0")
      case True
      have "lists_ok b3 (coded (ds @ replicate d len))"
        using True l2 by (simp add: b3_def coded_replicate lists_ok_def)
      then show ?thesis using True False rd same lens
        by (simp add: reading_def b3_def b2_def)
    next
      case l: False
      have e: "length ds + d \<le> MAX_ALPHABET" using False rd(5) by simp
      have below: "x < length ds" if "m \<le> MAX_LENGTH" "x \<in> set (coded ds m)" for m x using coded_below that by blast
      have tl: "b_tail b2 ! len = NONE \<or> b_tail b2 ! len < length ds"
        using lists_okD(7) [OF l2 len(2)] coded_below [of "last (coded ds len)" ds len] by (simp add: last_or_none_def)
      have eq: "push_run (length ds) (length ds + d) len b2 = foldl (\<lambda>b s. push s len b) b2 [length ds..<length ds + d]"
        using lists_okD(1-4) [OF l2] len(2) d e tl by (intro push_run_pushes) simp_all
      have run: "lists_ok (push_run (length ds) (length ds + d) len b2) ((coded ds)(len := coded ds len @ [length ds..<length ds + d]))"
        "b_last (push_run (length ds) (length ds + d) len b2) = length ds + d - 1"
        using push_all_lists [OF l2 len(2) _ e below] d by (simp_all add: eq)
      have "lists_ok b3 (coded (ds @ replicate d len))"
        using run(1) l unfolding coded_replicate if_not_P [OF l]
        by (simp add: b3_def lists_ok_def del: fun_upd_apply)
      moreover have "b_last b3 < alph" using l run(2) False d rd(4) by (simp add: b3_def)
      moreover have "b_space b3 = 32768 - int (kraft MAX_LENGTH (ds @ replicate d len))"
        using l rd(7) same by (simp add: b3_def push_bit_eq_mult MAX_LENGTH_def)
      moreover have "b_previous b3 = b_previous b" "b_index b3 = length ds + d" using same by (simp_all add: b3_def b2_def)
      ultimately show ?thesis using rd False lens unfolding reading_def by simp
    qed
    moreover have "b_code b3 = b_code b" "b_stage b3 = b_stage b" "b_small b3 = b_small b" "b_symbols b3 = b_symbols b"
      using same by (auto simp: b3_def b2_def)
    ultimately show ?thesis using False by (simp add: rf rb d_def [symmetric] b3_def Let_def)
  qed
qed

text \<open>A field read: the reader stays well formed; a value has the width of the field.\<close>

lemma read_keeps:
  assumes ok: "reader_ok s" and n: "n \<le> 56" and r: "read n s = (r, s')"
  shows "reader_ok s'" "same_call s s'" "r = Inr (Some v) \<Longrightarrow> v < 2 ^ n"
proof -
  have n': "n \<le> MAX_PEEK" using n by (simp add: MAX_PEEK_def)
  note p = peek_eq [OF ok n']
  have "reader_ok s' \<and> same_call s s' \<and> (r = Inr (Some v) \<longrightarrow> v < 2 ^ n)"
  proof (cases "n \<le> length (stream s)")
    case True
    then have "r = Inr (Some (nat_of_bits (take n (stream s))))" "s' = discard n (loaded n s)"
      using r read_eq(1) [OF ok n' True] by simp_all
    moreover have "nat_of_bits (take n (stream s)) < 2 ^ n"
      using nat_of_bits_less [of "take n (stream s)"] True by simp
    ultimately show ?thesis using read_eq(3) [OF ok n' True] p(4) by (auto intro: same_call_trans)
  next
    case False
    then have "read n s = (stall (starved s), loaded n s)"
      using p(1) by (cases "starved s") (simp_all add: read_def)
    then have "r = stall (starved s)" "s' = loaded n s" using r by simp_all
    then show ?thesis using p(2,4) by (cases "starved s") simp_all
  qed
  then show "reader_ok s'" "same_call s s'" "r = Inr (Some v) \<Longrightarrow> v < 2 ^ n" by blast+
qed

definition arrays_ok :: "builder \<Rightarrow> bool" where
  "arrays_ok b \<longleftrightarrow> length (b_next b) = MAX_ALPHABET \<and> length (b_small b) = 18 \<and> length (b_symbols b) = 4"

definition reading_symbols :: "nat \<Rightarrow> builder \<Rightarrow> bool" where
  "reading_symbols alph b \<longleftrightarrow> (\<exists>ds. reading alph ds b) \<and> length_code_ok b"

text \<open>What a read that ends well leaves.\<close>

definition accepted :: "nat \<Rightarrow> builder \<Rightarrow> bool" where
  "accepted alph b \<longleftrightarrow> b_stage b = Start \<and> b_last b < alph \<and>
     (\<exists>L. code_ok b L \<and> (b_total b = 1 \<or> complete L) \<and> (\<forall>l. \<forall>s\<in>set (L l). s < alph))"

definition symbols_outcome :: "nat \<Rightarrow> reader \<Rightarrow> read_result \<Rightarrow> bool" where
  "symbols_outcome alph s out \<longleftrightarrow> (case out of (r, b', s') \<Rightarrow> reader_ok s' \<and> same_call s s' \<and> (case r of
      Inl _ \<Rightarrow> True
    | Inr False \<Rightarrow> reading_symbols alph b' \<and> arrays_ok b' \<and> b_stage b' \<in> {Symbols, Repeat 16, Repeat 17}
    | Inr True \<Rightarrow> accepted alph b' \<and> arrays_ok b'))"

lemma symbols_outcome_trans:
  "symbols_outcome alph s' out \<Longrightarrow> same_call s s' \<Longrightarrow> symbols_outcome alph s out"
  by (auto simp: symbols_outcome_def split: prod.splits sum.splits bool.splits intro: same_call_trans)

lemma symbols_outcome_error [simp]:
  "symbols_outcome alph s (Inl e, b', s') \<longleftrightarrow> reader_ok s' \<and> same_call s s'"
  "symbols_outcome alph s (Inr False, b', s') \<longleftrightarrow> reader_ok s' \<and> same_call s s' \<and> reading_symbols alph b' \<and>
     arrays_ok b' \<and> b_stage b' \<in> {Symbols, Repeat 16, Repeat 17}"
  "symbols_outcome alph s (Inr True, b', s') \<longleftrightarrow> reader_ok s' \<and> same_call s s' \<and> accepted alph b' \<and> arrays_ok b'"
  by (simp_all add: symbols_outcome_def)

lemma reading_stage [simp]: "reading alph ds (b\<lparr>b_stage := t\<rparr>) = reading alph ds b"
  by (simp add: reading_def lists_ok_def)

lemma reading_symbols_stage [simp]: "reading_symbols alph (b\<lparr>b_stage := t\<rparr>) = reading_symbols alph b"
  by (simp add: reading_symbols_def length_code_ok_def)

lemma arrays_ok_stage [simp]: "arrays_ok (b\<lparr>b_stage := t\<rparr>) = arrays_ok b"
  by (simp add: arrays_ok_def)

lemma length_code_ok_cong: "b_code b' = b_code b \<Longrightarrow> length_code_ok b' = length_code_ok b"
  by (simp add: length_code_ok_def)

lemma reading_arrays: "reading alph ds b \<Longrightarrow> length (b_next b) = MAX_ALPHABET"
  using lists_okD(1) readingD(1) by blast

lemma reading_accepted:
  assumes "reading alph ds b" "b_space b = 0"
  shows "accepted alph (b\<lparr>b_stage := Start\<rparr>)"
proof -
  note rd = readingD [OF assms(1)]
  have "kraft MAX_LENGTH ds = 2 ^ MAX_LENGTH" using rd(7) assms(2) by (simp add: MAX_LENGTH_def)
  then have "complete (coded ds)" using complete_kraft [of ds MAX_LENGTH] rd(6) by simp
  moreover have "code_ok (b\<lparr>b_stage := Start\<rparr>) (coded ds)"
    using rd by (simp add: code_ok_def lists_ok_def)
  moreover have "\<forall>l. \<forall>s\<in>set (coded ds l). s < alph" using coded_below rd(3) by (meson order_less_le_trans)
  ultimately show ?thesis using rd(10) unfolding accepted_def by auto
qed

text \<open>One repeat symbol: its field is read, then the run is appended.\<close>

lemma repeat_outcome:
  assumes rs: "reading_symbols alph b" and ar: "arrays_ok b" and ok: "reader_ok s" and sy: "symbol = 16 \<or> symbol = 17"
    and go: "\<And>b' s'. reading_symbols alph b' \<Longrightarrow> arrays_ok b' \<Longrightarrow> b_stage b' = Symbols \<Longrightarrow> reader_ok s' \<Longrightarrow>
        (\<exists>extra. read (symbol - 14) s = (Inr (Some extra), s') \<and>
           repeat_field alph symbol extra (b\<lparr>b_stage := Symbols\<rparr>) = (Inr (), b')) \<Longrightarrow>
        symbols_outcome alph s' (cont (b', s'))"
  shows "symbols_outcome alph s (case read (symbol - 14) s of
            (Inl e, s2) \<Rightarrow> (Inl e, b\<lparr>b_stage := Repeat symbol\<rparr>, s2)
          | (Inr None, s2) \<Rightarrow> (Inr False, b\<lparr>b_stage := Repeat symbol\<rparr>, s2)
          | (Inr (Some extra), s2) \<Rightarrow>
              (case repeat_field alph symbol extra (b\<lparr>b_stage := Symbols\<rparr>) of
                 (Inl e, b') \<Rightarrow> (Inl e, b', s2)
               | (Inr _, b') \<Rightarrow> cont (b', s2)))"
proof -
  obtain r s2 where rd: "read (symbol - 14) s = (r, s2)" by (cases "read (symbol - 14) s")
  have w: "symbol - 14 \<le> 56" using sy by auto
  note rk = read_keeps [OF ok w rd]
  obtain ds where ds: "reading alph ds (b\<lparr>b_stage := Symbols\<rparr>)" and lc: "length_code_ok b"
    using rs by (auto simp: reading_symbols_def)
  show ?thesis
  proof (cases r)
    case (Inl e)
    then show ?thesis using rd rk by simp
  next
    case (Inr v)
    show ?thesis
    proof (cases v)
      case None
      then show ?thesis using Inr rd rk rs ar sy by auto
    next
      case (Some extra)
      note rf = repeat_field_reading [OF ds sy, of extra]
      obtain q b' where q: "repeat_field alph symbol extra (b\<lparr>b_stage := Symbols\<rparr>) = (q, b')"
        by (cases "repeat_field alph symbol extra (b\<lparr>b_stage := Symbols\<rparr>)")
      show ?thesis
      proof (cases q)
        case (Inl e)
        then show ?thesis using Inr Some rd rk q by simp
      next
        case qr: (Inr u)
        then have "\<exists>es. reading alph es b'" and k: "b_code b' = b_code b" "b_stage b' = Symbols" "b_small b' = b_small b" "b_symbols b' = b_symbols b"
          using rf unfolding q by (auto simp: Let_def)
        then have "reading_symbols alph b'" "arrays_ok b'"
          using lc ar reading_arrays length_code_ok_cong [OF k(1)] unfolding reading_symbols_def arrays_ok_def by auto
        then have "symbols_outcome alph s2 (cont (b', s2))"
          using go [of b' s2] k rk(1) rd Inr Some q qr by simp
        then show ?thesis using symbols_outcome_trans rk(2) Inr Some rd q qr by simp
      qed
    qed
  qed
qed

lemma code_symbols_outcome:
  assumes "reading_symbols alph b" "arrays_ok b" "b_stage b = Symbols" "reader_ok s"
  shows "symbols_outcome alph s (code_symbols alph (b, s))"
  using assms
proof (induction alph "(b, s)" arbitrary: b s rule: code_symbols.induct)
  case (1 alph b s)
  note rs = "1.prems"(1) and ar = "1.prems"(2) and st = "1.prems"(3) and ok = "1.prems"(4)
  obtain ds where ds: "reading alph ds b" and lc: "length_code_ok b"
    using rs by (auto simp: reading_symbols_def)
  note rd = readingD [OF ds]
  obtain C where C: "prefix_code C" "length_carries (b_code b) C" "\<And>cw s. (cw, s) \<in> C \<Longrightarrow> s < 18"
    using lc by (auto simp: length_code_ok_def)
  consider "b_space b = 0" | "b_space b \<noteq> 0" "b_space b < 0 \<or> b_index b \<ge> alph" | "b_space b \<noteq> 0" "\<not> (b_space b < 0 \<or> b_index b \<ge> alph)"
    by blast
  then show ?case
  proof cases
    case 1
    then have "code_symbols alph (b, s) = (Inr True, b\<lparr>b_stage := Start\<rparr>, s)" by (subst code_symbols.simps) simp
    then show ?thesis using ok ar reading_accepted [OF ds 1] by simp
  next
    case 2
    then have "code_symbols alph (b, s) = (Inl huffman_error, b, s)" by (subst code_symbols.simps) simp
    then show ?thesis using ok by simp
  next
    case 3
    obtain r s' where ld: "length_decode (b_code b) s = (r, s')" by (cases "length_decode (b_code b) s")
    note sr = reads_symbolD [OF lengths.dec_reads [OF ok C(1,2)] C(1), unfolded ld fst_conv snd_conv]
    show ?thesis
    proof (cases r)
      case (Inl e)
      then have "code_symbols alph (b, s) = (Inl e, b, s')" using 3 ld by (subst code_symbols.simps) simp
      then show ?thesis using sr(3,4) by simp
    next
      case r: (Inr v)
      show ?thesis
      proof (cases v)
        case None
        then have "code_symbols alph (b, s) = (Inr False, b, s')" using 3 ld r by (subst code_symbols.simps) simp
        then show ?thesis using sr(3,4) rs ar st by simp
      next
        case (Some symbol)
        then have s18: "symbol < 18" using sr(2) [of symbol] C(3) r by blast
        show ?thesis
        proof (cases "symbol < 16")
          case True
          have cs: "code_symbols alph (b, s) = code_symbols alph (plain_length symbol b, s')"
            using 3 ld r Some True by (subst code_symbols.simps) simp
          have k: "b_code (plain_length symbol b) = b_code b" "b_stage (plain_length symbol b) = b_stage b"
            "b_small (plain_length symbol b) = b_small b" "b_symbols (plain_length symbol b) = b_symbols b"
            by (simp_all add: plain_length_def Let_def)
          have room: "length ds < alph" using 3(2) rd(2) by simp
          note pl = plain_length_reading [OF ds True room]
          have "symbols_outcome alph s' (code_symbols alph (plain_length symbol b, s'))"
          proof (rule "1.hyps"(1) [OF 3 ld [symmetric] r Some True])
            show "reading_symbols alph (plain_length symbol b)"
              using pl lc length_code_ok_cong [OF k(1)] unfolding reading_symbols_def by blast
            show "arrays_ok (plain_length symbol b)" using ar k reading_arrays [OF pl] by (simp add: arrays_ok_def)
            show "b_stage (plain_length symbol b) = Symbols" "reader_ok s'" using k st sr(3) by simp_all
          qed
          then show ?thesis unfolding cs using symbols_outcome_trans sr(4) by blast
        next
          case False
          then have sy: "symbol = 16 \<or> symbol = 17" using s18 by auto
          have "symbols_outcome alph s' (case read (symbol - 14) s' of
              (Inl e, s2) \<Rightarrow> (Inl e, b\<lparr>b_stage := Repeat symbol\<rparr>, s2)
            | (Inr None, s2) \<Rightarrow> (Inr False, b\<lparr>b_stage := Repeat symbol\<rparr>, s2)
            | (Inr (Some extra), s2) \<Rightarrow>
                (case repeat_field alph symbol extra (b\<lparr>b_stage := Symbols\<rparr>) of
                   (Inl e, b') \<Rightarrow> (Inl e, b', s2)
                 | (Inr _, b') \<Rightarrow> code_symbols alph (b', s2)))"
          proof (rule repeat_outcome [OF rs ar sr(3) sy])
            fix b' s2
            assume a: "reading_symbols alph b'" "arrays_ok b'" "b_stage b' = Symbols" "reader_ok s2"
              and "\<exists>extra. read (symbol - 14) s' = (Inr (Some extra), s2) \<and>
                repeat_field alph symbol extra (b\<lparr>b_stage := Symbols\<rparr>) = (Inr (), b')"
            then obtain extra where e: "read (symbol - 14) s' = (Inr (Some extra), s2)"
              "repeat_field alph symbol extra (b\<lparr>b_stage := Symbols\<rparr>) = (Inr (), b')" by blast
            show "symbols_outcome alph s2 (code_symbols alph (b', s2))"
              by (rule "1.hyps"(2) [OF 3 ld [symmetric] r Some False e(1) [symmetric] refl refl e(2) [symmetric] refl a])
          qed
          moreover have "code_symbols alph (b, s) = (case read (symbol - 14) s' of
              (Inl e, s2) \<Rightarrow> (Inl e, b\<lparr>b_stage := Repeat symbol\<rparr>, s2)
            | (Inr None, s2) \<Rightarrow> (Inr False, b\<lparr>b_stage := Repeat symbol\<rparr>, s2)
            | (Inr (Some extra), s2) \<Rightarrow>
                (case repeat_field alph symbol extra (b\<lparr>b_stage := Symbols\<rparr>) of
                   (Inl e, b') \<Rightarrow> (Inl e, b', s2)
                 | (Inr _, b') \<Rightarrow> code_symbols alph (b', s2)))"
            using 3 ld r Some False by (subst code_symbols.simps) simp
          ultimately show ?thesis using symbols_outcome_trans sr(4) by simp
        qed
      qed
    qed
  qed
qed

lemma resume_symbols_outcome:
  assumes "reading_symbols alph b" "arrays_ok b" "b_stage b \<in> {Symbols, Repeat 16, Repeat 17}" "reader_ok s"
  shows "symbols_outcome alph s (resume_symbols alph (b, s))"
proof (cases "b_stage b = Symbols")
  case True
  then show ?thesis using code_symbols_outcome [OF assms(1,2) _ assms(4)] by (simp add: resume_symbols_def)
next
  case False
  then obtain symbol where sy: "b_stage b = Repeat symbol" "symbol = 16 \<or> symbol = 17" using assms(3) by auto
  then have b: "b\<lparr>b_stage := Repeat symbol\<rparr> = b" by simp
  have "symbols_outcome alph s (case read (symbol - 14) s of
      (Inl e, s2) \<Rightarrow> (Inl e, b\<lparr>b_stage := Repeat symbol\<rparr>, s2)
    | (Inr None, s2) \<Rightarrow> (Inr False, b\<lparr>b_stage := Repeat symbol\<rparr>, s2)
    | (Inr (Some extra), s2) \<Rightarrow>
        (case repeat_field alph symbol extra (b\<lparr>b_stage := Symbols\<rparr>) of
           (Inl e, b') \<Rightarrow> (Inl e, b', s2)
         | (Inr _, b') \<Rightarrow> code_symbols alph (b', s2)))"
    by (rule repeat_outcome [OF assms(1,2,4) sy(2)]) (rule code_symbols_outcome)
  then show ?thesis unfolding b by (simp add: resume_symbols_def sy(1))
qed

end
