(* ===== verification/Simple_Codes.thy ===== *)
theory Simple_Codes
  imports Accepted "HOL-Library.Product_Lexorder" "HOL-Library.Multiset"
begin

text \<open>
  The simple form of a description: one to four symbols, put in canonical order by an insertion
  sort on (length, symbol) pairs. The sort is shown to sort, the lists it fills to be those of a
  complete code (or of one symbol).
\<close>

section \<open>The insertion sort\<close>

lemma pair_less_iff: "pair_less p q \<longleftrightarrow> p < q"
  by (auto simp: pair_less_def less_prod_def')

lemma sift_sorts:
  assumes "n < length ps" "j \<le> n" "\<And>a b. a < b \<Longrightarrow> b \<le> n \<Longrightarrow> b \<noteq> j \<Longrightarrow> ps ! a \<le> ps ! b"
  shows "mset (sift j ps) = mset ps \<and> (\<forall>b\<le>n. \<forall>a<b. sift j ps ! a \<le> sift j ps ! b)"
  using assms
proof (induction j ps rule: sift.induct)
  case (1 ps)
  then show ?case by auto
next
  case (2 j ps)
  note le = "2.prems"(3)
  show ?case
  proof (cases "ps ! Suc j < ps ! j")
    case True
    let ?qs = "ps[Suc j := ps ! j, j := ps ! Suc j]"
    have q: "?qs ! k = (if k = j then ps ! Suc j else if k = Suc j then ps ! j else ps ! k)" if "k < length ps" for k
      using that by (simp add: nth_list_update)
    have "?qs ! a \<le> ?qs ! b" if ab: "a < b" "b \<le> n" "b \<noteq> j" for a b
    proof -
      have l: "a < length ps" "b < length ps" using ab 2 by simp_all
      consider "b = Suc j" "a = j" | "b = Suc j" "a < j" | "b \<noteq> Suc j" "a = j" | "b \<noteq> Suc j" "a = Suc j" | "b \<noteq> Suc j" "a \<noteq> j" "a \<noteq> Suc j"
        using ab by linarith
      then show ?thesis
      proof cases
        case 1
        then show ?thesis using q l True by simp
      next
        case 2
        then show ?thesis using q l le [of a j] "2.prems"(2) by simp
      next
        case 3
        then show ?thesis using q l le [of "Suc j" b] ab by simp
      next
        case 4
        then show ?thesis using q l le [of j b] ab by simp
      next
        case 5
        then show ?thesis using q l le [of a b] ab by simp
      qed
    qed
    moreover have "mset ?qs = mset ps" using "2.prems"(1,2) mset_swap [of j ps "Suc j"] by (simp add: list_update_swap)
    ultimately show ?thesis
      using "2.IH" [unfolded pair_less_iff, OF True] "2.prems"(1,2) True by (simp add: pair_less_iff)
  next
    case False
    have "ps ! a \<le> ps ! b" if ab: "a < b" "b \<le> n" for a b
    proof (cases "b = Suc j")
      case True
      then have "ps ! a \<le> ps ! j" using le [of a j] ab by (cases "a = j") simp_all
      then show ?thesis using False True by auto
    qed (use le ab in simp)
    then show ?thesis using False by (simp add: pair_less_iff)
  qed
qed

lemma sort_pairs_sorts: "sorted (sort_pairs ps)" "mset (sort_pairs ps) = mset ps"
proof -
  have "mset (fold sift [1..<n] ps) = mset ps \<and> (\<forall>b<n. \<forall>a<b. fold sift [1..<n] ps ! a \<le> fold sift [1..<n] ps ! b)"
    if "n \<le> length ps" for n
    using that
  proof (induction n)
    case (Suc n)
    let ?ps = "fold sift [1..<n] ps"
    have m: "mset ?ps = mset ps" "length ?ps = length ps" using Suc by (auto dest: mset_eq_length)
    show ?case
    proof (cases "1 \<le> n")
      case True
      then have e: "fold sift [1..<Suc n] ps = sift n ?ps" by simp
      have "mset (sift n ?ps) = mset ?ps \<and> (\<forall>b\<le>n. \<forall>a<b. sift n ?ps ! a \<le> sift n ?ps ! b)"
        by (rule sift_sorts) (use Suc m in simp_all)
      then show ?thesis unfolding e using m by (simp add: less_Suc_eq_le)
    qed (use Suc m in simp)
  qed simp
  from this [of "length ps"] have r: "mset (sort_pairs ps) = mset ps"
    "\<And>a b. b < length ps \<Longrightarrow> a < b \<Longrightarrow> sort_pairs ps ! a \<le> sort_pairs ps ! b" by (simp_all add: sort_pairs_def)
  then show "mset (sort_pairs ps) = mset ps" by simp
  show "sorted (sort_pairs ps)" unfolding sorted_iff_nth_mono_less using r(2) mset_eq_length [OF r(1)] by simp
qed

section \<open>The lists of a simple code\<close>

definition by_length :: "(nat \<times> nat) list \<Rightarrow> nat \<Rightarrow> nat list" where
  "by_length ps l = map snd (filter (\<lambda>p. fst p = l) ps)"

lemma by_length_snoc: "by_length (ps @ [(l, s)]) = (by_length ps)(l := by_length ps l @ [s])"
  by (rule ext) (simp add: by_length_def)

lemma push_pairs:
  assumes ok: "lists_ok b (by_length done)" and sorted: "sorted (done @ ps)" "distinct (map snd (done @ ps))"
    and small: "\<forall>p\<in>set ps. fst p \<le> MAX_LENGTH \<and> snd p < MAX_ALPHABET"
  shows "lists_ok (fold (\<lambda>(len, symbol). push symbol len) ps b) (by_length (done @ ps))"
  using assms
proof (induction ps arbitrary: b "done")
  case (Cons p ps)
  obtain l s where p: "p = (l, s)" by (cases p)
  have ls: "l \<le> MAX_LENGTH" "s < MAX_ALPHABET" using Cons.prems(4) p by simp_all
  have "s \<notin> set (by_length done m)" for m using Cons.prems(3) p by (auto simp: by_length_def image_iff)
  moreover have "x < s" if "x \<in> set (by_length done l)" for x
  proof -
    have x: "(l, x) \<in> set done" using that by (auto simp: by_length_def)
    then have "(l, x) \<le> (l, s)" using Cons.prems(2) p by (auto simp: sorted_append)
    moreover have "x \<noteq> s" using x Cons.prems(3) p by (auto simp: image_iff)
    ultimately show ?thesis by auto
  qed
  ultimately have "lists_ok (push s l b) ((by_length done)(l := by_length done l @ [s]))"
    by (intro push_lists(1) [OF Cons.prems(1) ls]) auto
  then have "lists_ok (push s l b) (by_length (done @ [(l, s)]))" by (simp only: by_length_snoc)
  from Cons.IH [OF this] show ?case using Cons.prems(2-4) by (simp add: p)
qed simp

lemma by_length_used:
  assumes "\<forall>p\<in>set ps. 1 \<le> fst p \<and> fst p \<le> n"
  shows "used_codes (by_length ps) n = (\<Sum>p\<leftarrow>ps. 2 ^ (n - fst p))"
  using assms
proof (induction ps rule: rev_induct)
  case Nil
  then show ?case by (simp add: used_codes_sum by_length_def)
next
  case (snoc p ps)
  obtain l s where p: "p = (l, s)" by (cases p)
  have "used_codes (by_length (ps @ [p])) n =
      (\<Sum>m\<in>{1..n}. length (by_length ps m) * 2 ^ (n - m) + (if m = l then 2 ^ (n - m) else 0))"
    unfolding used_codes_sum p by (rule sum.cong) (simp_all add: by_length_def)
  also have "\<dots> = used_codes (by_length ps) n + 2 ^ (n - l)"
    unfolding used_codes_sum using snoc.prems p by (simp add: sum.distrib)
  finally show ?case using snoc p by simp
qed

lemma fold_push_keeps:
  "b_next b = ns \<Longrightarrow> length (b_next (fold (\<lambda>(len, symbol). push symbol len) ps b)) = length ns \<and>
     b_small (fold (\<lambda>(len, symbol). push symbol len) ps b) = b_small b \<and>
     b_symbols (fold (\<lambda>(len, symbol). push symbol len) ps b) = b_symbols b"
  by (induction ps arbitrary: b ns) (auto simp: push_def Let_def split: prod.splits)

lemma shape_lengths_pos:
  assumes "1 \<le> k" "k \<le> 4"
  shows "\<forall>l\<in>set (take k (shape_lengths k shape)). 1 \<le> l \<and> l \<le> MAX_LENGTH"
    and "k \<noteq> 1 \<Longrightarrow> (\<Sum>l\<leftarrow>take k (shape_lengths k shape). 2 ^ (MAX_LENGTH - l)) = (2 :: nat) ^ MAX_LENGTH"
proof -
  consider "k = 1" | "k = 2" | "k = 3" | "k = 4" using assms by linarith
  then show "\<forall>l\<in>set (take k (shape_lengths k shape)). 1 \<le> l \<and> l \<le> MAX_LENGTH"
    and "k \<noteq> 1 \<Longrightarrow> (\<Sum>l\<leftarrow>take k (shape_lengths k shape). 2 ^ (MAX_LENGTH - l)) = (2 :: nat) ^ MAX_LENGTH"
    by (cases; simp add: shape_lengths_def MAX_LENGTH_def)+
qed

lemma length_shape_lengths [simp]: "length (shape_lengths k shape) = 4"
  by (simp add: shape_lengths_def)

definition simple_ready :: "nat \<Rightarrow> builder \<Rightarrow> bool" where
  "simple_ready alph b \<longleftrightarrow> 1 \<le> b_count b \<and> b_count b \<le> 4 \<and> distinct (take (b_count b) (b_symbols b)) \<and>
     (\<forall>s\<in>set (take (b_count b) (b_symbols b)). s < alph)"

lemma simple_finish_accepted:
  assumes ready: "simple_ready alph b" and ar: "arrays_ok b" and al: "0 < alph" "alph \<le> MAX_ALPHABET"
  shows "accepted alph (simple_finish shape b)" "arrays_ok (simple_finish shape b)"
    and "code_ok (simple_finish shape b) (by_length (sort_pairs (take (b_count b) (zip (shape_lengths (b_count b) shape) (b_symbols b)))))"
    and "b_total (simple_finish shape b) = b_count b"
proof -
  define n where "n = b_count b"
  define raw where "raw = take n (zip (shape_lengths n shape) (b_symbols b))"
  define ps where "ps = sort_pairs raw"
  define b1 where "b1 = fold (\<lambda>(len, symbol). push symbol len) ps (clear b)"
  have n: "1 \<le> n" "n \<le> 4" using ready by (simp_all add: simple_ready_def n_def)
  have four: "length (b_symbols b) = 4" using ar by (simp add: arrays_ok_def)
  have raw: "raw = zip (take n (shape_lengths n shape)) (take n (b_symbols b))" by (simp add: raw_def take_zip)
  have fst: "map fst raw = take n (shape_lengths n shape)" and snd: "map snd raw = take n (b_symbols b)"
    unfolding raw using four by simp_all
  note so = sort_pairs_sorts [of raw, folded ps_def]
  have set: "set ps = set raw" by (rule mset_eq_setD [OF so(2)])
  have len: "length ps = n" using mset_eq_length [OF so(2)] four n by (simp add: raw)
  have "mset (map snd ps) = mset (map snd raw)" by (simp add: so(2))
  from mset_eq_imp_distinct_iff [OF this] have dist: "distinct (map snd ps)"
    using ready unfolding snd by (simp add: simple_ready_def n_def)
  have lens: "1 \<le> fst p \<and> fst p \<le> MAX_LENGTH" "snd p < alph" if "p \<in> set ps" for p
  proof -
    have "fst p \<in> set (take n (shape_lengths n shape))" "snd p \<in> set (take n (b_symbols b))"
      using that unfolding set fst [symmetric] snd [symmetric] by auto
    then show "1 \<le> fst p \<and> fst p \<le> MAX_LENGTH" "snd p < alph"
      using shape_lengths_pos(1) [OF n] ready by (auto simp: simple_ready_def n_def)
  qed
  have "by_length [] = (\<lambda>_. [])" by (rule ext) (simp add: by_length_def)
  then have "lists_ok (clear b) (by_length [])" using lists_ok_clear ar by (simp add: arrays_ok_def)
  then have lists: "lists_ok b1 (by_length ps)"
    unfolding b1_def using push_pairs [of "clear b" "[]" ps] so(1) dist lens al(2) by fastforce
  have ne: "ps \<noteq> []" using len n by auto
  have sf: "simple_finish shape b = b1\<lparr>b_last := Max (snd ` set ps), b_stage := Start\<rparr>"
    using ne unfolding simple_finish_def Let_def ps_def raw_def b1_def n_def by simp
  have last: "Max (snd ` set ps) < alph" using ne lens(2) by simp
  have zero: "by_length ps 0 = []" using lens(1) by (force simp: by_length_def filter_empty_conv)
  have full: "complete (by_length ps)" if "n \<noteq> 1"
  proof -
    have "used_codes (by_length ps) MAX_LENGTH = (\<Sum>p\<leftarrow>ps. 2 ^ (MAX_LENGTH - fst p))"
      using lens(1) by (intro by_length_used) blast
    also have "\<dots> = (\<Sum>p\<leftarrow>raw. 2 ^ (MAX_LENGTH - fst p))"
      using arg_cong [OF so(2), of "\<lambda>M. \<Sum>p\<in>#M. 2 ^ (MAX_LENGTH - fst p)"] by (simp flip: sum_mset_sum_list add: mset_map)
    also have "\<dots> = (\<Sum>l\<leftarrow>map fst raw. 2 ^ (MAX_LENGTH - l))" by (simp add: comp_def)
    also have "\<dots> = 2 ^ MAX_LENGTH" unfolding fst using shape_lengths_pos(2) [OF n that] .
    finally show ?thesis by (simp add: complete_def)
  qed
  have "b_total b1 = n"
  proof -
    have "(\<Sum>l\<le>MAX_LENGTH. length (by_length qs l)) = length qs" if "\<forall>p\<in>set qs. fst p \<le> MAX_LENGTH" for qs
      using that
    proof (induction qs)
      case (Cons q qs)
      have "(\<Sum>l\<le>MAX_LENGTH. length (by_length (q # qs) l)) = (\<Sum>l\<le>MAX_LENGTH. length (by_length qs l) + (if l = fst q then 1 else 0))"
        by (rule sum.cong) (auto simp: by_length_def)
      then show ?case using Cons by (simp add: sum.distrib)
    qed (simp add: by_length_def)
    then show ?thesis using lists_okD(12) [OF lists] lens(1) len by simp
  qed
  then have tot: "b_total (simple_finish shape b) = n"
    and co: "code_ok (simple_finish shape b) (by_length ps) \<and> (b_total (simple_finish shape b) = 1 \<or> complete (by_length ps))"
    using lists zero last al full unfolding sf by (auto simp: code_ok_def lists_ok_def)
  show "b_total (simple_finish shape b) = b_count b" using tot by (simp only: n_def)
  show "code_ok (simple_finish shape b) (by_length (sort_pairs (take (b_count b) (zip (shape_lengths (b_count b) shape) (b_symbols b)))))"
    using co unfolding ps_def raw_def n_def by blast
  note co
  moreover have "\<forall>l. \<forall>s\<in>set (by_length ps l). s < alph" using lens(2) by (auto simp: by_length_def)
  ultimately have "\<exists>L. code_ok (simple_finish shape b) L \<and> (b_total (simple_finish shape b) = 1 \<or> complete L) \<and>
      (\<forall>l. \<forall>s\<in>set (L l). s < alph)" by blast
  then show "accepted alph (simple_finish shape b)" using last unfolding accepted_def by (auto simp: sf)
  show "arrays_ok (simple_finish shape b)"
    using ar fold_push_keeps [of "clear b" _ ps] unfolding sf arrays_ok_def b1_def by (simp add: clear_def)
qed

end
