(* ===== verification/Description_Safety.thy ===== *)
theory Description_Safety
  imports Simple_Codes
begin

unbundle bit_operations_syntax

text \<open>
  The invariant of the description reader over all its stages, and its safety: whatever bits
  arrive, however they are split over calls, an accepted description leaves the lists of a
  complete code (or a single symbol) from which the tables are built without an error.
\<close>

section \<open>The lengths of the code-length code\<close>

definition length_space_ok :: "builder \<Rightarrow> bool" where
  "length_space_ok b \<longleftrightarrow> (\<forall>d\<in>set (b_small b). d \<le> LENGTH_BITS) \<and> b_space b = 32 - int (kraft LENGTH_BITS (b_small b)) \<and>
     (\<forall>j. b_index b \<le> j \<longrightarrow> j < 18 \<longrightarrow> b_small b ! (ORDER ! j) = 0)"

lemma kraft_update:
  assumes "i < length ds" "ds ! i = 0"
  shows "kraft n (ds[i := d]) = kraft n ds + (if d = 0 then 0 else 2 ^ (n - d))"
  using assms
proof (induction ds arbitrary: i)
  case (Cons x ds)
  then show ?case by (cases i) (auto simp: kraft_Cons)
qed simp

lemma kraft_zeros [simp]: "kraft n (replicate k 0) = 0"
  by simp

lemma ORDER_nth:
  assumes "i < 18" shows "ORDER ! i < 18" "j < 18 \<Longrightarrow> ORDER ! i = ORDER ! j \<longleftrightarrow> i = j"
proof -
  have d: "distinct ORDER" "length ORDER = 18" "\<forall>x\<in>set ORDER. x < 18" by (simp_all add: ORDER_def)
  show "ORDER ! i < 18" using d assms nth_mem [of i ORDER] by auto
  show "j < 18 \<Longrightarrow> ORDER ! i = ORDER ! j \<longleftrightarrow> i = j" using d assms nth_eq_iff_index_eq by metis
qed

lemma peek_length_keeps:
  assumes ok: "reader_ok s" and p: "peek_length s = (r, s')"
  shows "reader_ok s'" "same_call s s'" "r = Inr (Some (w, v)) \<Longrightarrow> v \<le> LENGTH_BITS \<and> w \<le> buffered s'"
proof -
  have s: "reader_ok (loaded n t)" "same_call t (loaded n t)" "stream (loaded n t) = stream t" "n \<le> length (stream t) \<Longrightarrow> n \<le> buffered (loaded n t)"
    if "reader_ok t" "n \<le> 56" for t n
    using peek_eq [of t n] that by (simp_all add: MAX_PEEK_def)
  have st: "stall (starved t) \<noteq> Inr (Some x)" for t :: reader and x :: "nat \<times> nat" by (cases "starved t") simp_all
  note s2 = s [OF ok, of 2, simplified]
  note s3 = s [OF s2(1), of 3, simplified]
  note s4 = s [OF s3(1), of 4, simplified]
  have n: "need (peek 2 s) k = (if 2 \<le> length (stream s) then k (pending s mod 4) (loaded 2 s) else (stall (starved s), loaded 2 s))"
    for k :: "nat \<Rightarrow> reader \<Rightarrow> (decode_error + (nat \<times> nat) option) \<times> reader"
    using need_peek_pending [OF ok, of 2 k] by simp
  have n3: "need (peek 3 (loaded 2 s)) k = (if 3 \<le> length (stream (loaded 2 s)) then k (pending (loaded 2 s) mod 8) (loaded 3 (loaded 2 s)) else (stall (starved (loaded 2 s)), loaded 3 (loaded 2 s)))"
    for k :: "nat \<Rightarrow> reader \<Rightarrow> (decode_error + (nat \<times> nat) option) \<times> reader"
    using need_peek_pending [OF s2(1), of 3 k] by simp
  have n4: "need (peek 4 (loaded 3 (loaded 2 s))) k = (if 4 \<le> length (stream (loaded 3 (loaded 2 s))) then k (pending (loaded 3 (loaded 2 s)) mod 16) (loaded 4 (loaded 3 (loaded 2 s))) else (stall (starved (loaded 3 (loaded 2 s))), loaded 4 (loaded 3 (loaded 2 s))))"
    for k :: "nat \<Rightarrow> reader \<Rightarrow> (decode_error + (nat \<times> nat) option) \<times> reader"
    using need_peek_pending [OF s3(1), of 4 k] by simp
  have sc3: "same_call s (loaded 3 (loaded 2 s))" and sc4: "same_call s (loaded 4 (loaded 3 (loaded 2 s)))"
    using s2(2) s3(2) s4(2) same_call_trans by blast+
  have "reader_ok s' \<and> same_call s s' \<and> (r = Inr (Some (w, v)) \<longrightarrow> v \<le> LENGTH_BITS \<and> w \<le> buffered s')"
    using p st [of _ "(w, v)"] s2 s3 s4 sc3 sc4 unfolding peek_length_def n n3 n4
    by (auto split: if_splits simp: LENGTH_BITS_def)
  then show "reader_ok s'" "same_call s s'" "r = Inr (Some (w, v)) \<Longrightarrow> v \<le> LENGTH_BITS \<and> w \<le> buffered s'" by blast+
qed

lemma code_lengths_ok:
  assumes "code_lengths (b, s) = (r, b', s')" "length_space_ok b" "arrays_ok b" "b_stage b = CodeLengths" "reader_ok s"
    "0 < alph" "alph \<le> MAX_ALPHABET"
  shows "reader_ok s' \<and> same_call s s' \<and> (case r of
      Inl _ \<Rightarrow> True
    | Inr False \<Rightarrow> length_space_ok b' \<and> arrays_ok b' \<and> b_stage b' = CodeLengths
    | Inr True \<Rightarrow> reading_symbols alph b' \<and> arrays_ok b' \<and> b_stage b' = Symbols)"
  using assms
proof (induction "(b, s)" arbitrary: b s rule: code_lengths.induct)
  case (1 b s)
  note sp = "1.prems"(2) and ar = "1.prems"(3) and st = "1.prems"(4) and ok = "1.prems"(5)
  show ?case
  proof (cases "b_index b < 18 \<and> b_space b > 0")
    case True
    obtain q s1 where p: "peek_length s = (q, s1)" by (cases "peek_length s")
    note pl = peek_length_keeps [OF ok p]
    show ?thesis
    proof (cases q)
      case (Inl e)
      then show ?thesis using "1.prems"(1) True p pl(1,2) by (subst (asm) code_lengths.simps) auto
    next
      case q: (Inr o1)
      show ?thesis
      proof (cases o1)
        case None
        then show ?thesis using "1.prems"(1) True p pl(1,2) q sp ar st by (subst (asm) code_lengths.simps) auto
      next
        case (Some wv)
        obtain w v where wv: "wv = (w, v)" by (cases wv)
        have v: "v \<le> LENGTH_BITS" "w \<le> buffered s1" using pl(3) q Some wv by simp_all
        define b1 where "b1 = b\<lparr>b_small := (b_small b)[ORDER ! b_index b := v], b_index := b_index b + 1,
                  b_count := b_count b + (if v \<noteq> 0 then 1 else 0),
                  b_space := b_space b - (if v \<noteq> 0 then int (shr 32 v) else 0)\<rparr>"
        have cl: "code_lengths (b1, discard w s1) = (r, b', s')"
          using "1.prems"(1) True p q Some wv by (subst (asm) code_lengths.simps) (simp add: b1_def)
        have ix: "b_index b < 18" using True by simp
        have sm: "length (b_small b) = 18" using ar by (simp add: arrays_ok_def)
        have zero: "b_small b ! (ORDER ! b_index b) = 0" using sp ix by (simp add: length_space_ok_def)
        have "shr 32 v = 2 ^ (LENGTH_BITS - v)"
        proof -
          have "(32::nat) = 2 ^ (LENGTH_BITS - v) * 2 ^ v" using v(1) by (simp flip: power_add add: LENGTH_BITS_def)
          then show ?thesis unfolding shr_def drop_bit_eq_div by (metis nonzero_mult_div_cancel_right power_not_zero zero_neq_numeral)
        qed
        then have "length_space_ok b1"
          using sp ix sm v(1) ORDER_nth [OF ix] kraft_update [of "ORDER ! b_index b" "b_small b" LENGTH_BITS v] zero
          unfolding length_space_ok_def b1_def
          by (auto simp: nth_list_update dest!: set_update_subset_insert [THEN subsetD])
        moreover have "arrays_ok b1" "b_stage b1 = CodeLengths" using ar st by (simp_all add: b1_def arrays_ok_def)
        ultimately have "reader_ok s' \<and> same_call (discard w s1) s' \<and> (case r of
            Inl _ \<Rightarrow> True
          | Inr False \<Rightarrow> length_space_ok b' \<and> arrays_ok b' \<and> b_stage b' = CodeLengths
          | Inr True \<Rightarrow> reading_symbols alph b' \<and> arrays_ok b' \<and> b_stage b' = Symbols)"
          using "1.hyps" [OF True p [symmetric] q Some wv [symmetric], folded b1_def] cl discard_ok [OF pl(1) v(2)] "1.prems"(6,7) by simp
        then show ?thesis using pl(2) same_call_trans discard_same_call by blast
      qed
    qed
  next
    case False
    show ?thesis
    proof (cases "b_space b < 0 \<or> b_count b \<noteq> 1 \<and> b_space b \<noteq> 0")
      case True
      then show ?thesis using "1.prems"(1) False ok by (subst (asm) code_lengths.simps) auto
    next
      case good: False
      define b1 where "b1 = clear (b\<lparr>b_code := length_code_build (b_small b) (b_count b)\<rparr>)"
      have "code_lengths (b, s) = (Inr True, b1\<lparr>b_index := 0, b_space := 32768, b_previous := 8, b_repeat := 0, b_repeat_length := 0, b_stage := Symbols\<rparr>, s)"
        unfolding code_lengths.simps [of b s] if_not_P [OF False] if_not_P [OF good] b1_def ..
      then have e: "r = Inr True" "b' = b1\<lparr>b_index := 0, b_space := 32768, b_previous := 8, b_repeat := 0, b_repeat_length := 0, b_stage := Symbols\<rparr>" "s' = s"
        using "1.prems"(1) by simp_all
      have lens: "\<forall>d\<in>set (b_small b). d \<le> LENGTH_BITS" "length (b_small b) = 18"
        using sp ar by (simp_all add: length_space_ok_def arrays_ok_def)
      have "b_count b = 1 \<or> kraft LENGTH_BITS (b_small b) = 2 ^ LENGTH_BITS"
        using good sp by (auto simp: length_space_ok_def LENGTH_BITS_def)
      note lc = length_code_build_carries [OF lens this]
      have "length_code_ok b'" unfolding length_code_ok_def e b1_def clear_def using lc by auto
      moreover have "reading alph [] b'"
      proof -
        have "coded [] = (\<lambda>_. [])" by (rule ext) (simp add: coded_def)
        then have "lists_ok b1 (coded [])" unfolding b1_def using lists_ok_clear ar by (simp add: arrays_ok_def)
        then have "lists_ok b' (coded [])" unfolding e lists_ok_def by simp
        moreover have "b_index b' = 0" "b_space b' = 32768" "b_previous b' = 8" "b_last b' = 0"
          unfolding e b1_def clear_def by simp_all
        moreover have "(8::nat) \<le> MAX_LENGTH" by (simp add: MAX_LENGTH_def)
        ultimately show ?thesis using "1.prems"(6,7) by (simp add: reading_def kraft_def)
      qed
      moreover have "arrays_ok b'" using ar by (simp add: e b1_def clear_def arrays_ok_def)
      ultimately show ?thesis using ok by (auto simp: e reading_symbols_def)
    qed
  qed
qed

section \<open>The simple stages\<close>

definition symbols_so_far :: "nat \<Rightarrow> builder \<Rightarrow> bool" where
  "symbols_so_far alph b \<longleftrightarrow> 1 \<le> b_count b \<and> b_count b \<le> 4 \<and> b_index b \<le> b_count b \<and>
     distinct (take (b_index b) (b_symbols b)) \<and> (\<forall>s\<in>set (take (b_index b) (b_symbols b)). s < alph)"

lemma bit_length_bound: "n < 2 ^ k \<Longrightarrow> bit_length n \<le> k"
proof (induction n arbitrary: k rule: bit_length.induct)
  case (1 n)
  show ?case
  proof (cases "n = 0")
    case False
    then obtain j where k: "k = Suc j" using 1 by (cases k) auto
    then have "n div 2 < 2 ^ j" using 1 by auto
    then show ?thesis using 1 False k by (subst bit_length.simps) simp
  qed (simp add: bit_length.simps)
qed

lemma simple_symbols_ok:
  assumes "simple_symbols alph (b, s) = (r, b', s')" "symbols_so_far alph b" "arrays_ok b" "b_stage b = SimpleSymbols"
    "reader_ok s" "alph \<le> MAX_ALPHABET"
  shows "reader_ok s' \<and> same_call s s' \<and> (case r of
      Inl _ \<Rightarrow> True
    | Inr False \<Rightarrow> symbols_so_far alph b' \<and> arrays_ok b' \<and> b_stage b' = SimpleSymbols
    | Inr True \<Rightarrow> simple_ready alph b' \<and> arrays_ok b' \<and> b_stage b' = SimpleShape)"
  using assms
proof (induction alph "(b, s)" arbitrary: b s rule: simple_symbols.induct)
  case (1 alph b s)
  note sf = "1.prems"(2) and ar = "1.prems"(3) and st = "1.prems"(4) and ok = "1.prems"(5)
  show ?case
  proof (cases "b_index b < b_count b")
    case True
    obtain q s1 where rd: "read (bit_length (alph - 1)) s = (q, s1)" by (cases "read (bit_length (alph - 1)) s")
    have "alph - 1 < 2 ^ 16" using "1.prems"(6) by (simp add: MAX_ALPHABET_def)
    from bit_length_bound [OF this] have w: "bit_length (alph - 1) \<le> 56" by simp
    note rk = read_keeps [OF ok w rd]
    show ?thesis
    proof (cases q)
      case (Inl e)
      then show ?thesis using "1.prems"(1) True rd rk by (subst (asm) simple_symbols.simps) auto
    next
      case q: (Inr o1)
      show ?thesis
      proof (cases o1)
        case None
        then show ?thesis using "1.prems"(1) True rd rk q sf ar st by (subst (asm) simple_symbols.simps) auto
      next
        case (Some symbol)
        show ?thesis
        proof (cases "symbol \<ge> alph \<or> symbol \<in> set (take (b_index b) (b_symbols b))")
          case bad: True
          then show ?thesis using "1.prems"(1) True rd rk q Some by (subst (asm) simple_symbols.simps) auto
        next
          case False
          define b1 where "b1 = b\<lparr>b_symbols := (b_symbols b)[b_index b := symbol], b_index := b_index b + 1\<rparr>"
          have ss: "simple_symbols alph (b1, s1) = (r, b', s')"
            using "1.prems"(1) True rd q Some False by (subst (asm) simple_symbols.simps) (simp add: b1_def)
          have ix: "b_index b < length (b_symbols b)" using True sf ar by (simp add: symbols_so_far_def arrays_ok_def)
          then have "take (b_index b + 1) ((b_symbols b)[b_index b := symbol]) = take (b_index b) (b_symbols b) @ [symbol]"
            by (simp add: take_Suc_conv_app_nth)
          then have "symbols_so_far alph b1" using sf True False by (auto simp: symbols_so_far_def b1_def)
          moreover have "arrays_ok b1" "b_stage b1 = SimpleSymbols" using ar st by (simp_all add: b1_def arrays_ok_def)
          ultimately have "reader_ok s' \<and> same_call s1 s' \<and> (case r of
              Inl _ \<Rightarrow> True
            | Inr False \<Rightarrow> symbols_so_far alph b' \<and> arrays_ok b' \<and> b_stage b' = SimpleSymbols
            | Inr True \<Rightarrow> simple_ready alph b' \<and> arrays_ok b' \<and> b_stage b' = SimpleShape)"
            using "1.hyps" [OF True rd [symmetric] q Some False, folded b1_def] ss rk(1) "1.prems"(6) by simp
          then show ?thesis using rk(2) same_call_trans by blast
        qed
      qed
    qed
  next
    case False
    then have "r = Inr True" "b' = b\<lparr>b_stage := SimpleShape\<rparr>" "s' = s"
      using "1.prems"(1) by (subst (asm) simple_symbols.simps, simp)+
    moreover have "b_index b = b_count b" using False sf by (simp add: symbols_so_far_def)
    ultimately show ?thesis using sf ar ok by (simp add: symbols_so_far_def simple_ready_def arrays_ok_def)
  qed
qed

section \<open>The whole reader\<close>

definition builder_ok :: "nat \<Rightarrow> builder \<Rightarrow> bool" where
  "builder_ok alph b \<longleftrightarrow> arrays_ok b \<and> (case b_stage b of
      Start \<Rightarrow> True
    | SimpleCount \<Rightarrow> True
    | SimpleSymbols \<Rightarrow> symbols_so_far alph b
    | SimpleShape \<Rightarrow> simple_ready alph b
    | CodeLengths \<Rightarrow> length_space_ok b
    | Symbols \<Rightarrow> reading_symbols alph b
    | Repeat symbol \<Rightarrow> reading_symbols alph b \<and> (symbol = 16 \<or> symbol = 17))"

definition read_outcome :: "nat \<Rightarrow> reader \<Rightarrow> read_result \<Rightarrow> bool" where
  "read_outcome alph s out \<longleftrightarrow> (case out of (r, b', s') \<Rightarrow> reader_ok s' \<and> same_call s s' \<and> (case r of
      Inl _ \<Rightarrow> True
    | Inr False \<Rightarrow> builder_ok alph b'
    | Inr True \<Rightarrow> accepted alph b' \<and> builder_ok alph b'))"

lemma read_outcome_simps [simp]:
  "read_outcome alph s (Inl e, b', s') \<longleftrightarrow> reader_ok s' \<and> same_call s s'"
  "read_outcome alph s (Inr False, b', s') \<longleftrightarrow> reader_ok s' \<and> same_call s s' \<and> builder_ok alph b'"
  "read_outcome alph s (Inr True, b', s') \<longleftrightarrow> reader_ok s' \<and> same_call s s' \<and> accepted alph b' \<and> builder_ok alph b'"
  by (simp_all add: read_outcome_def)

lemma read_outcome_trans: "read_outcome alph s' out \<Longrightarrow> same_call s s' \<Longrightarrow> read_outcome alph s out"
  by (auto simp: read_outcome_def split: prod.splits sum.splits bool.splits intro: same_call_trans)

lemma accepted_ok: "accepted alph b \<Longrightarrow> arrays_ok b \<Longrightarrow> builder_ok alph b"
  by (simp add: builder_ok_def accepted_def)

text \<open>A stage that ends well hands a builder over to the next one.\<close>

lemma and_then_outcome:
  assumes "reader_ok s'" "same_call s s'" "r = Inr False \<Longrightarrow> builder_ok alph b'"
    and "r = Inr True \<Longrightarrow> read_outcome alph s' (k (b', s'))"
  shows "read_outcome alph s (and_then (r, b', s') k)"
proof (cases r)
  case (Inr t)
  then show ?thesis using assms read_outcome_trans by (cases t) (simp_all add: and_then_def)
qed (use assms in \<open>simp add: and_then_def\<close>)

lemma symbols_outcome_read: "symbols_outcome alph s out \<Longrightarrow> read_outcome alph s out"
  by (auto simp: symbols_outcome_def read_outcome_def builder_ok_def accepted_def split: prod.splits sum.splits bool.splits)

lemma simple_shape_outcome:
  assumes "simple_ready alph b" "arrays_ok b" "b_stage b = SimpleShape" "reader_ok s" "0 < alph" "alph \<le> MAX_ALPHABET"
  shows "read_outcome alph s (simple_shape (b, s))"
proof -
  have fin: "accepted alph (simple_finish shape b)" "builder_ok alph (simple_finish shape b)" for shape
    using simple_finish_accepted [OF assms(1,2,5,6)] accepted_ok by blast+
  obtain r s' where rd: "read 1 s = (r, s')" by (cases "read 1 s")
  note rk = read_keeps [OF assms(4) _ rd, simplified]
  have "builder_ok alph b" using assms by (simp add: builder_ok_def)
  then show ?thesis
    using fin assms(4) rk rd by (simp add: simple_shape_def split: sum.split option.split)
qed

lemma read_simple_symbols_outcome:
  assumes "symbols_so_far alph b" "arrays_ok b" "b_stage b = SimpleSymbols" "reader_ok s" "0 < alph" "alph \<le> MAX_ALPHABET"
  shows "read_outcome alph s (read_simple_symbols alph (b, s))"
proof -
  obtain r b' s' where ss: "simple_symbols alph (b, s) = (r, b', s')" by (cases "simple_symbols alph (b, s)")
  note so = simple_symbols_ok [OF ss assms(1-4,6)]
  show ?thesis
    unfolding read_simple_symbols_def ss
  proof (rule and_then_outcome)
    show "r = Inr True \<Longrightarrow> read_outcome alph s' (simple_shape (b', s'))"
      using so assms(5,6) by (intro simple_shape_outcome) simp_all
  qed (use so in \<open>simp_all add: builder_ok_def\<close>)
qed

lemma read_simple_outcome:
  assumes "arrays_ok b" "b_stage b = SimpleCount" "reader_ok s" "0 < alph" "alph \<le> MAX_ALPHABET"
  shows "read_outcome alph s (read_simple alph (b, s))"
proof -
  obtain r s' where rd: "read 2 s = (r, s')" by (cases "read 2 s")
  note rk = read_keeps [OF assms(3) _ rd, simplified]
  have ok: "builder_ok alph b" using assms by (simp add: builder_ok_def)
  show ?thesis
  proof (cases "\<exists>n. r = Inr (Some n)")
    case True
    then obtain n where n: "r = Inr (Some n)" by blast
    define b1 where "b1 = b\<lparr>b_count := n + 1, b_index := 0, b_stage := SimpleSymbols\<rparr>"
    have c: "simple_count (b, s) = (Inr True, b1, s')" by (simp add: simple_count_def rd n b1_def)
    show ?thesis
      unfolding read_simple_def c
    proof (rule and_then_outcome)
      show "read_outcome alph s' (read_simple_symbols alph (b1, s'))"
        using rk n assms by (intro read_simple_symbols_outcome) (simp_all add: b1_def symbols_so_far_def arrays_ok_def)
    qed (use rk in simp_all)
  next
    case False
    then show ?thesis
      using rk rd ok by (auto simp: read_simple_def simple_count_def and_then_def split: sum.split option.split)
  qed
qed

lemma read_complex_outcome:
  assumes "length_space_ok b" "arrays_ok b" "b_stage b = CodeLengths" "reader_ok s" "0 < alph" "alph \<le> MAX_ALPHABET"
  shows "read_outcome alph s (read_complex alph (b, s))"
proof -
  obtain r b' s' where cl: "code_lengths (b, s) = (r, b', s')" by (cases "code_lengths (b, s)")
  note co = code_lengths_ok [OF cl assms]
  show ?thesis
    unfolding read_complex_def cl
  proof (rule and_then_outcome)
    show "r = Inr True \<Longrightarrow> read_outcome alph s' (resume_symbols alph (b', s'))"
      using co by (intro symbols_outcome_read resume_symbols_outcome) simp_all
  qed (use co in \<open>simp_all add: builder_ok_def\<close>)
qed

lemma read_start_outcome:
  assumes "arrays_ok b" "b_stage b = Start" "reader_ok s" "0 < alph" "alph \<le> MAX_ALPHABET"
  shows "read_outcome alph s (and_then (read_start (b, s))
    (\<lambda>bs. if b_stage (fst bs) = SimpleCount then read_simple alph bs else read_complex alph bs))"
proof -
  obtain r s' where rd: "read 2 s = (r, s')" by (cases "read 2 s")
  note rk = read_keeps [OF assms(3) _ rd, simplified]
  have ok: "builder_ok alph b" using assms by (simp add: builder_ok_def)
  show ?thesis
  proof (cases "\<exists>n. r = Inr (Some n)")
    case True
    then obtain n where n: "r = Inr (Some n)" by blast
    define b1 where "b1 = (if n = 1 then b\<lparr>b_index := n, b_space := 32, b_count := 0, b_stage := SimpleCount\<rparr>
      else b\<lparr>b_index := n, b_space := 32, b_count := 0, b_small := replicate 18 0, b_stage := CodeLengths\<rparr>)"
    have c: "read_start (b, s) = (Inr True, b1, s')" by (simp add: read_start_def rd n b1_def Let_def)
    show ?thesis
      unfolding c
    proof (rule and_then_outcome)
      show "read_outcome alph s' (if b_stage (fst (b1, s')) = SimpleCount then read_simple alph (b1, s') else read_complex alph (b1, s'))"
      proof (cases "n = 1")
        case True
        then show ?thesis using rk n assms
          by (simp add: b1_def) (intro read_simple_outcome; simp add: arrays_ok_def)
      next
        case False
        have "ORDER ! j < 18" if "j < 18" for j using ORDER_nth(1) that by blast
        then have "length_space_ok b1" using False by (auto simp: length_space_ok_def b1_def)
        then have "read_outcome alph s' (read_complex alph (b1, s'))"
          using False rk n assms by (intro read_complex_outcome) (simp_all add: b1_def arrays_ok_def)
        then show ?thesis using False by (simp add: b1_def)
      qed
    qed (use rk in simp_all)
  next
    case False
    then show ?thesis
      using rk rd ok by (auto simp: read_start_def and_then_def split: sum.split option.split)
  qed
qed

lemma builder_read_outcome:
  assumes "builder_ok alph b" "reader_ok s"
  shows "read_outcome alph s (builder_read alph (b, s))"
proof (cases "alph = 0 \<or> alph > MAX_ALPHABET")
  case True
  then show ?thesis using assms(2) by (simp add: builder_read_def)
next
  case False
  then have al: "0 < alph" "alph \<le> MAX_ALPHABET" by simp_all
  have ar: "arrays_ok b" using assms(1) by (simp add: builder_ok_def)
  show ?thesis
  proof (cases "b_stage b")
    case Start
    show ?thesis using read_start_outcome [OF ar Start assms(2) al] False Start by (simp add: builder_read_def)
  next
    case SimpleCount
    then show ?thesis using read_simple_outcome [OF ar _ assms(2) al] False by (simp add: builder_read_def)
  next
    case SimpleSymbols
    then show ?thesis using read_simple_symbols_outcome [OF _ ar _ assms(2) al] assms(1) False by (simp add: builder_read_def builder_ok_def)
  next
    case SimpleShape
    then show ?thesis using simple_shape_outcome [OF _ ar _ assms(2) al] assms(1) False by (simp add: builder_read_def builder_ok_def)
  next
    case CodeLengths
    then show ?thesis using read_complex_outcome [OF _ ar _ assms(2) al] assms(1) False by (simp add: builder_read_def builder_ok_def)
  next
    case Symbols
    then have "symbols_outcome alph s (resume_symbols alph (b, s))"
      using assms(1) by (intro resume_symbols_outcome [OF _ ar _ assms(2)]) (simp_all add: builder_ok_def)
    then show ?thesis using symbols_outcome_read Symbols False by (simp add: builder_read_def)
  next
    case (Repeat symbol)
    then have "symbols_outcome alph s (resume_symbols alph (b, s))"
      using assms(1) by (intro resume_symbols_outcome [OF _ ar _ assms(2)]) (auto simp: builder_ok_def)
    then show ?thesis using symbols_outcome_read Repeat False by (simp add: builder_read_def)
  qed
qed

text \<open>
  C24 (safety). The description reader over any bits, in any number of calls: from a builder in
  its invariant a call leaves the reader well formed, a suspended call leaves a builder in its
  invariant, and an accepted description has symbols within the alphabet, in the lists of a
  complete code or of a single symbol, with the largest one remembered.
\<close>

theorem description_accepted:
  assumes "builder_ok alph b" "reader_ok s" "builder_read alph (b, s) = (r, b', s')"
  shows "reader_ok s' \<and> same_call s s' \<and> (case r of
      Inl _ \<Rightarrow> True
    | Inr False \<Rightarrow> builder_ok alph b'
    | Inr True \<Rightarrow> builder_ok alph b' \<and> b_stage b' = Start \<and> b_last b' < alph \<and>
        (\<exists>L. code_ok b' L \<and> (b_total b' = 1 \<or> complete L) \<and> (\<forall>l. \<forall>s\<in>set (L l). s < alph)))"
  using builder_read_outcome [OF assms(1,2)] unfolding assms(3) read_outcome_def accepted_def
  by (auto split: sum.splits bool.splits)

text \<open>The shortest description: one symbol.\<close>

lemma builder_read_single:
  assumes "0 < alph" "alph \<le> MAX_ALPHABET" "b_stage b = Start" "read 2 s = (Inr (Some 1), s1)" "read 2 s1 = (Inr (Some 0), s2)"
    "read (bit_length (alph - 1)) s2 = (Inr (Some symbol), s3)" "symbol < alph"
  shows "builder_read alph (b, s) =
    (Inr True, simple_finish 0 (b\<lparr>b_index := 1, b_space := 32, b_count := 1, b_symbols := (b_symbols b)[0 := symbol], b_stage := SimpleShape\<rparr>), s3)"
proof -
  define b1 where "b1 = b\<lparr>b_index := 1, b_space := 32, b_count := 0, b_stage := SimpleCount\<rparr>"
  define b2 where "b2 = b1\<lparr>b_count := 1, b_index := 0, b_stage := SimpleSymbols\<rparr>"
  define b3 where "b3 = b2\<lparr>b_symbols := (b_symbols b)[0 := symbol], b_index := 1, b_stage := SimpleShape\<rparr>"
  have st: "read_start (b, s) = (Inr True, b1, s1)" by (simp add: read_start_def assms(4) b1_def)
  have ct: "simple_count (b1, s1) = (Inr True, b2, s2)" by (simp add: simple_count_def assms(5) b2_def)
  have sy: "simple_symbols alph (b2, s2) = (Inr True, b3, s3)"
    using assms(6,7) by (simp add: simple_symbols.simps b1_def b2_def b3_def)
  have sh: "simple_shape (b3, s3) = (Inr True, simple_finish 0 b3, s3)" by (simp add: simple_shape_def b1_def b2_def b3_def)
  have b3: "b3 = b\<lparr>b_index := 1, b_space := 32, b_count := 1, b_symbols := (b_symbols b)[0 := symbol], b_stage := SimpleShape\<rparr>"
    by (simp add: b1_def b2_def b3_def)
  have "builder_read alph (b, s) = and_then (Inr True, b1, s1)
      (\<lambda>bs. if b_stage (fst bs) = SimpleCount then read_simple alph bs else read_complex alph bs)"
    using assms(1-3) by (simp add: builder_read_def st)
  also have "\<dots> = simple_shape (b3, s3)"
    by (simp add: and_then_def read_simple_def read_simple_symbols_def b1_def [THEN arg_cong [of _ _ b_stage]] ct sy)
  finally show ?thesis unfolding b3 [symmetric] sh .
qed

lemma read_bits:
  assumes "reader_ok s" "stream s = bs @ rest" "length bs = n" "n \<le> 56"
  obtains s' where "read n s = (Inr (Some (nat_of_bits bs)), s')" "reader_ok s'" "stream s' = rest" "same_call s s'"
  using read_eq [of s n] read_keeps(2) [of s n "Inr (Some (nat_of_bits bs))"] assms by (simp add: MAX_PEEK_def)

lemma short_description:
  obtains s' where "builder_read 5 (builder_default, bits_default, input_new [33] 0 None) =
    (Inr True, simple_finish 0 (builder_default\<lparr>b_index := 1, b_space := 32, b_count := 1,
       b_symbols := (b_symbols builder_default)[0 := 2], b_stage := SimpleShape\<rparr>), s')"
proof -
  define s :: reader where "s = (bits_default, input_new [33] 0 None)"
  have ok: "reader_ok s" unfolding s_def by (rule reader_ok_new) simp
  have st: "stream s = [True, False] @ [False, False] @ [False, True, False] @ [False]"
    unfolding s_def stream_new by (simp add: input_new_def Let_def bit_eval)
  obtain s1 where r1: "read 2 s = (Inr (Some 1), s1)" "reader_ok s1" "stream s1 = [False, False] @ [False, True, False] @ [False]"
    by (rule read_bits [OF ok st, of 2]) simp_all
  obtain s2 where r2: "read 2 s1 = (Inr (Some 0), s2)" "reader_ok s2" "stream s2 = [False, True, False] @ [False]"
    by (rule read_bits [OF r1(2,3), of 2]) simp_all
  obtain s3 where r3: "read 3 s2 = (Inr (Some 2), s3)"
    by (rule read_bits [OF r2(2,3), of 3]) simp_all
  have al: "0 < (5::nat)" "5 \<le> MAX_ALPHABET" by (simp_all add: MAX_ALPHABET_def)
  have w: "bit_length (5 - 1) = 3" by (simp add: bit_length.simps)
  have st: "b_stage builder_default = Start" by (simp add: builder_default_def)
  have lt: "2 < (5::nat)" by simp
  show thesis by (rule that, unfold s_def [symmetric], rule builder_read_single [OF al st r1(1) r2(1) r3 [folded w] lt])
qed

theorem description_accepted_witness:
  "b_last (fst (snd (builder_read 5 (builder_default, bits_default, input_new [33] 0 None)))) < 5"
proof -
  define s :: reader where "s = (bits_default, input_new [33] 0 None)"
  have ok: "reader_ok s" unfolding s_def by (rule reader_ok_new) simp
  obtain b' s' where read: "builder_read 5 (builder_default, s) = (Inr True, b', s')"
    unfolding s_def by (rule short_description)
  have "builder_ok 5 builder_default" by (simp add: builder_ok_def arrays_ok_def builder_default_def)
  then show ?thesis
    using description_accepted [OF _ ok read] unfolding s_def [symmetric] read by simp
qed

end
