(* ===== verification/Prefix_Groups.thy ===== *)
theory Prefix_Groups
  imports Description_Safety
begin

unbundle bit_operations_syntax

text \<open>
  The properties of the prefix-code tables: building a slot of a group from the builder's lists
  and decoding from it. \<open>sample_builder\<close> and \<open>sample_group\<close> are the small instances the
  witnesses use.
\<close>

definition sample_builder :: builder where
  "sample_builder = push 7 1 (push 3 1 (clear builder_default))"

definition sample_group :: group where
  "sample_group = \<lparr>g_codes = \<lparr>items = replicate ROOT_SIZE (code_new 0 5), capacity = ROOT_SIZE\<rparr>, g_count = 1, g_used = ROOT_SIZE\<rparr>"

lemma sample_builder_code: "code_ok sample_builder (by_length [(1, 3), (1, 7)])" "b_last sample_builder = 7"
proof -
  have "by_length [] = (\<lambda>_. [])" by (rule ext) (simp add: by_length_def)
  then have "lists_ok (clear builder_default) (by_length [])"
    using lists_ok_clear [of builder_default] by (simp add: builder_default_def)
  from push_pairs [OF this, of "[(1, 3), (1, 7)]"]
  have "lists_ok sample_builder (by_length [(1, 3), (1, 7)])"
    by (simp add: sample_builder_def MAX_LENGTH_def MAX_ALPHABET_def)
  moreover show last: "b_last sample_builder = 7" by (simp add: sample_builder_def push_def Let_def)
  ultimately show "code_ok sample_builder (by_length [(1, 3), (1, 7)])"
    by (simp add: code_ok_def by_length_def last MAX_ALPHABET_def)
qed

lemma sample_group_ok: "group_ok sample_group [0 \<mapsto> {([], 5)}]" "g_used sample_group = ROOT_SIZE" "g_count sample_group = 1"
proof -
  have "(5::nat) < MAX_ALPHABET" by (simp add: MAX_ALPHABET_def)
  from single_carries [OF this, of ROOT_SIZE ROOT_SIZE] show "group_ok sample_group [0 \<mapsto> {([], 5)}]"
    by (simp add: group_ok_def sample_group_def group_table_def single_prefix_code)
  show "g_used sample_group = ROOT_SIZE" "g_count sample_group = 1" by (simp_all add: sample_group_def)
qed

lemma short_second_size: "\<forall>l. ROOT_BITS < l \<longrightarrow> l < length cs \<longrightarrow> cs ! l = 0 \<Longrightarrow> second_size cs = 0"
proof -
  assume z: "\<forall>l. ROOT_BITS < l \<longrightarrow> l < length cs \<longrightarrow> cs ! l = 0"
  have "fold (\<lambda>l m. if cs ! l \<noteq> 0 then l else m) [0..<n] 0 \<le> ROOT_BITS" if "n \<le> length cs" for n
    using that
  proof (induction n)
    case (Suc n)
    then show ?case using z by (cases "n \<le> ROOT_BITS") auto
  qed simp
  from this [of "length cs"] show ?thesis by (simp add: second_size_def Let_def)
qed

lemma sample_second_size: "second_size (b_counts sample_builder) = 0"
proof (rule short_second_size, intro allI impI)
  fix l assume l: "ROOT_BITS < l" "l < length (b_counts sample_builder)"
  have lo: "lists_ok sample_builder (by_length [(1, 3), (1, 7)])" using sample_builder_code by (simp add: code_ok_def)
  have "l \<le> MAX_LENGTH" "l \<noteq> 1" using l lists_okD(4) [OF lo] by (simp_all add: ROOT_BITS_def)
  then show "b_counts sample_builder ! l = 0" using lists_okD(8) [OF lo, of l] by (simp add: by_length_def)
qed

lemma sample_room: "ROOT_SIZE \<le> 2 ^ 24"
  by (simp add: ROOT_SIZE_def ROOT_BITS_def)

text \<open>
  C26 (refinement). Building a slot implements the canonical code of the builder's lists: it
  accepts exactly the complete codes and the single symbols, the slot then carries that code and
  every other slot the code it carried before; a rejected build leaves all of them as they were,
  and the guards against a broken invariant never fire.
\<close>

theorem build_slot_refines:
  assumes "group_ok g Cs" "code_ok b L" "tree < g_count g" "b_last b < alph"
    and "g_used g + second_size (b_counts b) \<le> 2 ^ 24" "build_slot alloc alph tree b g m = (r, g', m')"
  shows "g_count g' = g_count g \<and> (case r of
      Inr v \<Rightarrow> v = b_last b \<and> (b_total b = 1 \<or> complete L) \<and> group_ok g' (Cs(tree \<mapsto> code_of b L)) \<and>
        g_used g' = g_used g + (if b_total b = 1 then 0 else second_size (b_counts b))
    | Inl e \<Rightarrow> group_ok g' Cs \<and> g_used g' = g_used g \<and> e \<noteq> InternalInvariant \<and>
        (e = InvalidData Huffman \<longleftrightarrow> b_total b = 0 \<or> b_total b \<noteq> 1 \<and> \<not> complete L))"
  by (rule build_slot_ok [OF assms])

theorem build_slot_refines_witness:
  "fst (build_slot Some 8 0 sample_builder sample_group memory_default) \<noteq> Inl InternalInvariant \<and>
   g_count (fst (snd (build_slot Some 8 0 sample_builder sample_group memory_default))) = 1"
proof -
  obtain r g' m' where r: "build_slot Some 8 0 sample_builder sample_group memory_default = (r, g', m')"
    by (cases "build_slot Some 8 0 sample_builder sample_group memory_default")
  note ok = build_slot_refines [OF sample_group_ok(1) sample_builder_code(1) _ _ _ r]
  have "0 < g_count sample_group" "b_last sample_builder < 8"
    "g_used sample_group + second_size (b_counts sample_builder) \<le> 2 ^ 24"
    using sample_room by (simp_all only: sample_group_ok sample_builder_code(2) sample_second_size)
  from ok [OF this] show ?thesis unfolding r using sample_group_ok(3) by (auto split: sum.splits)
qed

text \<open>
  C27 (refinement). Decoding from a slot is reading a codeword of its code: if the remaining
  stream starts with a codeword, both decoding routines return its symbol and leave exactly the
  bits behind it; if it does not, they ask for more input (or report the limit) and lose no bit.
\<close>

theorem group_decodes:
  assumes "group_ok g Cs" "Cs k = Some C" "reader_ok s"
  shows "(\<forall>cw v rest. (cw, v) \<in> C \<longrightarrow> stream s = cw @ rest \<longrightarrow>
      (\<exists>s1 s2. decode (group_table g k) s = (Inr (Some v), s1) \<and> decode_refilling (group_table g k) s = (Inr (Some v), s2) \<and>
         stream s1 = rest \<and> stream s2 = rest \<and> reader_ok s1 \<and> reader_ok s2))
    \<and> ((\<forall>cw v. (cw, v) \<in> C \<longrightarrow> \<not> prefix cw (stream s)) \<longrightarrow>
      (\<exists>s1 s2. decode (group_table g k) s = (stall (starved s), s1) \<and> decode_refilling (group_table g k) s = (stall (starved s), s2) \<and>
         stream s1 = stream s \<and> stream s2 = stream s \<and> reader_ok s1 \<and> reader_ok s2))"
proof -
  note gc = group_carries [OF assms(1,2)]
  have both: "reads_symbol C s (decode (group_table g k) s)" "reads_symbol C s (decode_refilling (group_table g k) s)"
    using exact.dec_reads [OF assms(3) gc] refilling.dec_reads [OF assms(3) gc] by blast+
  obtain r1 s1 r2 s2 where d: "decode (group_table g k) s = (r1, s1)" "decode_refilling (group_table g k) s = (r2, s2)"
    by (cases "decode (group_table g k) s", cases "decode_refilling (group_table g k) s")
  note a = reads_symbolD [OF both(1)[unfolded d] gc(1), unfolded fst_conv snd_conv]
    and b = reads_symbolD [OF both(2)[unfolded d] gc(1), unfolded fst_conv snd_conv]
  show ?thesis
  proof (intro conjI allI impI)
    fix cw v rest assume "(cw, v) \<in> C" "stream s = cw @ rest"
    then show "\<exists>s1 s2. decode (group_table g k) s = (Inr (Some v), s1) \<and> decode_refilling (group_table g k) s = (Inr (Some v), s2) \<and>
         stream s1 = rest \<and> stream s2 = rest \<and> reader_ok s1 \<and> reader_ok s2"
      using a(1,3) b(1,3) d by auto
  next
    assume none: "\<forall>cw v. (cw, v) \<in> C \<longrightarrow> \<not> prefix cw (stream s)"
    have "r = stall (starved s) \<and> stream s' = stream s \<and> reader_ok s'" if "reads_symbol C s (r, s')" for r s'
      using that none unfolding reads_symbol_def fst_conv snd_conv by (metis prefixI)
    then show "\<exists>s1 s2. decode (group_table g k) s = (stall (starved s), s1) \<and> decode_refilling (group_table g k) s = (stall (starved s), s2) \<and>
         stream s1 = stream s \<and> stream s2 = stream s \<and> reader_ok s1 \<and> reader_ok s2"
      using both d by (metis (no_types))
  qed
qed

theorem group_decodes_witness:
  "\<exists>s1. decode (group_table sample_group 0) (bits_default, input_new [33] 0 None) = (Inr (Some 5), s1) \<and>
     stream s1 = stream (bits_default, input_new [33] 0 None)"
proof -
  have ok: "reader_ok (bits_default, input_new [33] 0 None)" by (rule reader_ok_new) simp
  have k: "[0 \<mapsto> {([], 5)}] 0 = Some {([], 5 :: nat)}" by simp
  from group_decodes [OF sample_group_ok(1) k ok, THEN conjunct1]
  show ?thesis by auto
qed

text \<open>Building a slot fails for want of memory, for an invalid code or for a broken invariant.\<close>

lemma try_fold_failure:
  assumes "\<And>x st e. f x st = Inl e \<Longrightarrow> P e" "try_fold f xs st = Inl e"
  shows "P e"
  using assms(2) by (induction xs arbitrary: st) (auto split: sum.splits dest: assms(1))

lemma build_slot_failure:
  assumes "build_slot alloc alph tree b g m = (Inl e, g', m')"
  shows "memory_failure e \<or> e = InvalidData Huffman \<or> e = InternalInvariant"
proof -
  let ?ok = "\<lambda>e. memory_failure e \<or> e = InvalidData Huffman \<or> e = InternalInvariant"
  have step: "?ok e" if "second_step cs base l x f = Inl e" for cs base l x f e
    using that by (auto simp: second_step_def Let_def split: prod.splits if_splits)
  have len: "?ok e" if "second_length b base l f = Inl e" for base l f e
    using that try_fold_failure [of "second_step (b_counts b) base l" ?ok, OF step]
    by (auto simp: second_length_def split: sum.splits)
  have tables: "?ok e" if ft: "fill_tables b base k rt sec = Inl e" for base k rt sec e
  proof -
    obtain xs st where "try_fold (second_length b base) xs st = Inl e"
      using ft unfolding fill_tables_def Let_def by (auto simp only: split: prod.splits)
    then show ?thesis by (rule try_fold_failure [of "second_length b base" ?ok, rotated]) (rule len)
  qed
  have space: "?ok e" if "check_space cs = Inl e" for cs e
  proof -
    have "e' = InvalidData Huffman" if "try_fold (space_step cs) xs st = Inl e'" for xs st e'
      by (rule try_fold_failure [OF _ that]) (auto simp: space_step_def Let_def split: if_splits)
    then show ?thesis using that unfolding check_space_def by (auto split: if_splits sum.splits)
  qed
  have fil: "?ok e" if "fill alloc b codes start used m = (Inl e, r)" for codes start used m e r
    using that unfolding fill_def memory_failure_def
    by (auto simp: Let_def memory_failure_def split: if_splits option.splits sum.splits prod.splits dest: resize_failure space tables)
  show ?thesis
    using assms fil by (auto simp: build_slot_def split: if_splits prod.splits)
qed

text \<open>
  C25 (safety). A description that was accepted always yields a table: building it into a group
  whose tables stay below \<open>2 ^ 24\<close> entries fails only for want of memory (a size, the allocator or
  the limit), never as an invalid code or a broken invariant, and then leaves every tree alone; when
  it succeeds the slot carries a prefix code whose symbols all lie in the alphabet, the largest of
  them is returned, and the other trees are unchanged.
\<close>

theorem accepted_builds:
  assumes "builder_ok alph b" "reader_ok s" "builder_read alph (b, s) = (Inr True, b', s')"
    and "group_ok g Cs" "tree < g_count g" "g_used g + second_size (b_counts b') \<le> 2 ^ 24"
    and "build_slot alloc alph tree b' g m = (q, g', m')"
  shows "case q of
      Inl e \<Rightarrow> memory_failure e \<and> group_ok g' Cs
    | Inr v \<Rightarrow> v < alph \<and> (\<exists>C. prefix_code C \<and> (\<forall>cw s. (cw, s) \<in> C \<longrightarrow> s < alph) \<and> group_ok g' (Cs(tree \<mapsto> C)))"
proof -
  obtain L where L: "b_last b' < alph" "code_ok b' L" "b_total b' = 1 \<or> complete L" "\<forall>l. \<forall>s\<in>set (L l). s < alph"
  proof -
    have "accepted alph b'"
    proof -
      have "read_outcome alph s (builder_read alph (b, s))" by (rule builder_read_outcome [OF assms(1,2)])
      then show ?thesis unfolding assms(3) by simp
    qed
    then show thesis using that unfolding accepted_def by blast
  qed
  note bs = build_slot_ok [OF assms(4) L(2) assms(5) L(1) assms(6,7)]
  show ?thesis
  proof (cases q)
    case (Inl e)
    have "b_total b' \<noteq> 0"
    proof
      assume z: "b_total b' = 0"
      then have "\<forall>l\<le>MAX_LENGTH. L l = []" using lists_okD(12) [of b' L] L(2) by (simp add: code_ok_def)
      then have "used_codes L MAX_LENGTH = 0" unfolding used_codes_sum by simp
      then show False using L(3) z by (simp add: complete_def)
    qed
    moreover from assms(7) Inl have "memory_failure e \<or> e = InvalidData Huffman \<or> e = InternalInvariant"
      using build_slot_failure by blast
    ultimately show ?thesis using bs Inl L(3) by auto
  next
    case (Inr v)
    have "s < alph" if "(cw, s) \<in> code_of b' L" for cw s
      using that L(1,4) nth_mem by (fastforce simp: code_of_def canonical_def split: if_splits)
    then show ?thesis using bs Inr L(1) code_of_prefix_code [OF L(3)] by auto
  qed
qed

theorem accepted_builds_witness:
  "\<exists>b' s'. builder_read 5 (builder_default, bits_default, input_new [33] 0 None) = (Inr True, b', s') \<and>
     fst (build_slot Some 5 0 b' sample_group memory_default) \<notin> {Inl (InvalidData Huffman), Inl InternalInvariant}"
proof -
  define s :: reader where "s = (bits_default, input_new [33] 0 None)"
  have ok: "reader_ok s" unfolding s_def by (rule reader_ok_new) simp
  define b where "b = builder_default\<lparr>b_index := 1, b_space := 32, b_count := 1, b_symbols := (b_symbols builder_default)[0 := 2], b_stage := SimpleShape\<rparr>"
  obtain s3 where read: "builder_read 5 (builder_default, s) = (Inr True, simple_finish 0 b, s3)"
    unfolding s_def b_def by (rule short_description)
  have bo: "builder_ok 5 builder_default" by (simp add: builder_ok_def arrays_ok_def builder_default_def)
  have "b_symbols b = [2, 0, 0, 0]" "b_count b = 1" by (simp_all add: b_def builder_default_def numeral_eq_Suc)
  then have sf: "simple_finish 0 b = (push 2 1 (clear b))\<lparr>b_last := 2, b_stage := Start\<rparr>"
    by (simp add: simple_finish_def sort_pairs_def shape_lengths_def Let_def)
  have "b_counts (simple_finish 0 b) = (replicate (MAX_LENGTH + 1) 0)[1 := 1]"
    by (simp add: sf push_def clear_def Let_def MAX_LENGTH_def)
  then have "second_size (b_counts (simple_finish 0 b)) = 0"
    by (intro short_second_size) (auto simp: nth_list_update ROOT_BITS_def)
  then have room: "g_used sample_group + second_size (b_counts (simple_finish 0 b)) \<le> 2 ^ 24"
    using sample_room by (simp only: sample_group_ok)
  obtain q g' m' where q: "build_slot Some 5 0 (simple_finish 0 b) sample_group memory_default = (q, g', m')"
    by (cases "build_slot Some 5 0 (simple_finish 0 b) sample_group memory_default")
  have "0 < g_count sample_group" by (simp add: sample_group_ok)
  from accepted_builds [OF bo ok read sample_group_ok(1) this room q]
  show ?thesis unfolding s_def [symmetric] read using q by (auto simp: memory_failure_def split: sum.splits)
qed

end
