(* ===== verification/Code_Bits.thy ===== *)
theory Code_Bits
  imports Description
begin

unbundle bit_operations_syntax

text \<open>
  The encoder's assignment of bit patterns to code lengths (\<open>reverse_bits\<close> and
  \<open>convert_bit_depths_to_symbols\<close> of \<open>shared/huffman.rs\<close>), related to the canonical code the
  decoder builds its tables from.
\<close>

section \<open>Reversing bits\<close>

definition REVERSE_LUT :: "nat list" where
  "REVERSE_LUT = [0, 8, 4, 12, 2, 10, 6, 14, 1, 9, 5, 13, 3, 11, 7, 15]"

function reverse_loop :: "nat \<Rightarrow> nat \<Rightarrow> nat \<Rightarrow> nat \<Rightarrow> nat" where
  "reverse_loop num_bits i bits retval =
     (if i < num_bits then
        (let bits' = shr bits 4 in
         reverse_loop num_bits (i + 4) bits' (shl 64 retval 4 OR REVERSE_LUT ! (bits' AND 15)))
      else retval)"
  by pat_completeness auto
termination by (relation "measure (\<lambda>(n, i, b, r). n - i)") auto

declare reverse_loop.simps [simp del]

definition reverse_bits :: "nat \<Rightarrow> nat \<Rightarrow> nat" where
  "reverse_bits num_bits bits =
     take_bit 16 (shr (reverse_loop num_bits 4 bits (REVERSE_LUT ! (bits AND 15))) (wrapping_sub 64 0 num_bits AND 3))"

lemma reverse_nibble: "v < 16 \<Longrightarrow> REVERSE_LUT ! v = nat_of_bits (rev (bits_of_nat 4 v))"
proof -
  have "list_all (\<lambda>v. REVERSE_LUT ! v = nat_of_bits (rev (bits_of_nat 4 v))) [0..<16]" by code_simp
  then show "v < 16 \<Longrightarrow> ?thesis" by (simp add: list_all_iff)
qed

lemma reverse_low: "REVERSE_LUT ! (v AND 15) = nat_of_bits (rev (bits_of_nat 4 v))"
proof -
  have "v AND 15 = take_bit 4 v" using AND_mask_nat [of v 4] by (simp add: take_bit_eq_mod)
  moreover have "take_bit 4 v < 16" using take_bit_nat_less_exp [of 4 v] by simp
  ultimately show ?thesis using reverse_nibble [of "take_bit 4 v"] by simp
qed

lemma reverse_step:
  assumes "k \<le> 12"
  shows "shl 64 (nat_of_bits (rev (bits_of_nat k v))) 4 OR REVERSE_LUT ! (drop_bit k v AND 15) =
    nat_of_bits (rev (bits_of_nat (k + 4) v))"
proof -
  let ?hi = "nat_of_bits (rev (bits_of_nat k v))" and ?lo = "nat_of_bits (rev (bits_of_nat 4 (drop_bit k v)))"
  have hi: "?hi < 2 ^ k" and lo: "?lo < 2 ^ 4"
    using nat_of_bits_less [of "rev (bits_of_nat k v)"] nat_of_bits_less [of "rev (bits_of_nat 4 (drop_bit k v))"] by simp_all
  have "(2::nat) ^ k \<le> 2 ^ 12" using assms by (intro power_increasing) simp_all
  then have "?hi * 2 ^ 4 < 2 ^ 64" using hi by simp
  then have "shl 64 ?hi 4 OR ?lo = ?hi * 2 ^ 4 + ?lo"
    using shl_or_low [OF lo, of ?hi 64] by (simp add: or.commute)
  also have "\<dots> = nat_of_bits (rev (bits_of_nat 4 (drop_bit k v)) @ rev (bits_of_nat k v))" by simp
  also have "\<dots> = nat_of_bits (rev (bits_of_nat (k + 4) v))" by (simp only: bits_of_nat_add rev_append)
  finally show ?thesis by (simp only: reverse_low)
qed

lemma reverse_loop_step:
  assumes "i < n" "4 \<le> i" "i \<le> 12"
  shows "reverse_loop n i (drop_bit (i - 4) v) (nat_of_bits (rev (bits_of_nat i v))) =
    reverse_loop n (i + 4) (drop_bit i v) (nat_of_bits (rev (bits_of_nat (i + 4) v)))"
proof -
  have "shr (drop_bit (i - 4) v) 4 = drop_bit i v" using assms(2) by (simp add: shr_def)
  then show ?thesis
    by (subst reverse_loop.simps) (simp only: assms(1) if_True Let_def reverse_step [OF assms(3)])
qed

lemma reverse_loop_eq:
  assumes "1 \<le> n" "n \<le> 16"
  shows "reverse_loop n 4 v (nat_of_bits (rev (bits_of_nat 4 v))) = nat_of_bits (rev (bits_of_nat (4 * ((n + 3) div 4)) v))"
proof -
  have stop: "n \<le> i \<Longrightarrow> reverse_loop n i b r = r" for i b r by (subst reverse_loop.simps) simp
  note s = reverse_loop_step [of 4 n v, simplified] reverse_loop_step [of 8 n v, simplified] reverse_loop_step [of 12 n v, simplified]
  consider "n \<le> 4" | "4 < n" "n \<le> 8" | "8 < n" "n \<le> 12" | "12 < n" by linarith
  then show ?thesis
  proof cases
    case 1
    then have "(n + 3) div 4 = 1" using assms by simp
    then show ?thesis using 1 by (simp add: stop)
  next
    case 2
    then have "(n + 3) div 4 = 2" by simp
    then show ?thesis using 2 s(1) by (simp add: stop)
  next
    case 3
    then have "(n + 3) div 4 = 3" by simp
    then show ?thesis using 3 s(1,2) by (simp add: stop)
  next
    case 4
    then have "(n + 3) div 4 = 4" using assms by simp
    then show ?thesis using 4 assms s by (simp add: stop)
  qed
qed

lemma reverse_bits_codeword:
  assumes "1 \<le> n" "n \<le> 16"
  shows "reverse_bits n v = nat_of_bits (codeword n v)"
proof -
  define k where "k = 4 * ((n + 3) div 4)"
  have k: "n \<le> k" "k - n < 4" by (simp_all add: k_def)
  define j where "j = (n + 3) div 4"
  have j: "k = 4 * j" "n \<le> 4 * j" "4 * j - n < 4" "j \<le> 4" using k assms by (simp_all add: k_def j_def)
  have "wrapping_sub 64 0 n = 2 ^ 64 - n" using assms by (simp add: wrapping_sub_def)
  also have "(2::nat) ^ 64 - n = (2 ^ 62 - j) * 4 + (4 * j - n)" using j by simp
  finally have "wrapping_sub 64 0 n mod 4 = 4 * j - n" using j(3) by simp
  then have "wrapping_sub 64 0 n AND 3 = k - n" using AND_mask_nat [of _ 2] j(1) by simp
  then have "reverse_bits n v = take_bit 16 (nat_of_bits (drop (k - n) (rev (bits_of_nat k v))))"
    unfolding reverse_bits_def reverse_low reverse_loop_eq [OF assms] k_def [symmetric] by (simp add: shr_nat_of_bits)
  also have "drop (k - n) (rev (bits_of_nat k v)) = codeword n v"
    using k(1) by (simp add: codeword_def drop_rev take_bits_of_nat)
  also have "take_bit 16 (nat_of_bits (codeword n v)) = nat_of_bits (codeword n v)"
    using assms(2) by (intro take_bit_nat_eq_self nat_of_bits_bound) simp
  finally show ?thesis .
qed

section \<open>Assigning the codes\<close>

definition MAX_HUFFMAN_BITS :: nat where "MAX_HUFFMAN_BITS = 16"

definition count_depths :: "nat list \<Rightarrow> nat list" where
  "count_depths depth =
     (fold (\<lambda>d counts. counts[d := wrapping_add 16 (counts ! d) 1]) depth (replicate MAX_HUFFMAN_BITS 0))[0 := 0]"

definition next_codes :: "nat list \<Rightarrow> nat list" where
  "next_codes bl_count =
     snd (fold (\<lambda>i (code, next_code). let code' = shl 16 (wrapping_add 16 code (bl_count ! (i - 1))) 1 in
            (code', next_code[i := code'])) [1..<MAX_HUFFMAN_BITS] (0, replicate MAX_HUFFMAN_BITS 0))"

definition assign_code :: "nat list \<Rightarrow> nat \<Rightarrow> nat list \<times> nat list \<Rightarrow> nat list \<times> nat list" where
  "assign_code depth i st = (case st of (bits, next_code) \<Rightarrow>
     let d = depth ! i in
     if d \<noteq> 0 then (bits[i := reverse_bits d (next_code ! d)], next_code[d := wrapping_add 16 (next_code ! d) 1])
     else (bits, next_code))"

definition convert_bit_depths_to_symbols :: "nat list \<Rightarrow> nat \<Rightarrow> nat list \<Rightarrow> nat list" where
  "convert_bit_depths_to_symbols depth len bits =
     fst (fold (assign_code depth) [0..<len] (bits, next_codes (count_depths (take len depth))))"

lemma count_depths_nth:
  assumes "\<forall>d\<in>set ds. d < MAX_HUFFMAN_BITS" "length ds < 2 ^ 16" "l < MAX_HUFFMAN_BITS"
  shows "count_depths ds ! l = (if l = 0 then 0 else length (symbols_of ds l))"
proof -
  let ?step = "\<lambda>d counts. counts[d := wrapping_add 16 (counts ! d) 1]"
  have "length (fold ?step ds (replicate MAX_HUFFMAN_BITS 0)) = MAX_HUFFMAN_BITS \<and>
    (\<forall>l<MAX_HUFFMAN_BITS. fold ?step ds (replicate MAX_HUFFMAN_BITS 0) ! l = length (symbols_of ds l))"
    using assms(1,2)
  proof (induction ds rule: rev_induct)
    case Nil
    then show ?case by (simp add: symbols_of_def)
  next
    case (snoc d ds)
    have "length (symbols_of ds d) \<le> length ds"
      using length_filter_le [of "\<lambda>s. ds ! s = d" "[0..<length ds]"] by (simp add: symbols_of_def)
    then have w: "wrapping_add 16 (length (symbols_of ds d)) 1 = length (symbols_of ds d) + 1"
      using snoc.prems(2) by (simp add: wrapping_add_def)
    show ?case using snoc w by (simp add: symbols_of_snoc nth_list_update)
  qed
  then show ?thesis using assms(3) by (simp add: count_depths_def nth_list_update)
qed

lemma next_codes_nth:
  assumes counts: "\<And>l. l < MAX_HUFFMAN_BITS \<Longrightarrow> counts ! l = (if l = 0 then 0 else length (L l))"
    and fit: "fits L" and l: "1 \<le> l" "l \<le> MAX_LENGTH"
  shows "next_codes counts ! l = first_code L l"
proof -
  let ?step = "\<lambda>i (code, next_code). let code' = shl 16 (wrapping_add 16 code (counts ! (i - 1))) 1 in (code', next_code[i := code'])"
  have "fst (fold ?step [1..<n] (0, replicate MAX_HUFFMAN_BITS 0)) = first_code L (n - 1) \<and>
      length (snd (fold ?step [1..<n] (0, replicate MAX_HUFFMAN_BITS 0))) = MAX_HUFFMAN_BITS \<and>
      (\<forall>l. 1 \<le> l \<longrightarrow> l < n \<longrightarrow> snd (fold ?step [1..<n] (0, replicate MAX_HUFFMAN_BITS 0)) ! l = first_code L l)"
    if "1 \<le> n" "n \<le> MAX_HUFFMAN_BITS" for n
    using that
  proof (induction n)
    case (Suc n)
    show ?case
    proof (cases "n = 0")
      case False
      define st where "st = fold ?step [1..<n] (0, replicate MAX_HUFFMAN_BITS 0)"
      have IH: "fst st = first_code L (n - 1)" "length (snd st) = MAX_HUFFMAN_BITS" "\<And>l. 1 \<le> l \<Longrightarrow> l < n \<Longrightarrow> snd st ! l = first_code L l"
        using Suc.IH False Suc.prems by (simp_all add: st_def)
      have c: "counts ! (n - 1) = (if n = 1 then 0 else length (L (n - 1)))" using counts [of "n - 1"] False Suc.prems by simp
      have u: "first_code L (n - 1) + counts ! (n - 1) = used_codes L (n - 1)"
        using False c by (cases n) (auto simp: used_codes_def)
      have n15: "n - 1 \<le> MAX_LENGTH" "n - 1 < 15" using Suc.prems False by (simp_all add: MAX_HUFFMAN_BITS_def MAX_LENGTH_def)
      then have "used_codes L (n - 1) \<le> 2 ^ (n - 1)" using fit by (simp add: fits_def)
      also have "(2::nat) ^ (n - 1) \<le> 2 ^ 14" using n15(2) by (intro power_increasing) simp_all
      finally have lt: "used_codes L (n - 1) * 2 ^ 1 < 2 ^ 16" "used_codes L (n - 1) < 2 ^ 16" by simp_all
      have fc: "shl 16 (wrapping_add 16 (fst st) (counts ! (n - 1))) 1 = first_code L n"
        using lt u shl_exact [OF lt(1)] False by (cases n) (simp_all add: wrapping_add_def IH)
      have up: "[1..<Suc n] = [1..<n] @ [n]" using False by simp
      have st': "fold ?step [1..<Suc n] (0, replicate MAX_HUFFMAN_BITS 0) = (first_code L n, (snd st)[n := first_code L n])"
        unfolding up fold_append comp_apply st_def [symmetric] using fc by (simp add: case_prod_beta Let_def)
      show ?thesis unfolding st' using IH Suc.prems by (simp add: nth_list_update less_Suc_eq)
    qed simp
  qed simp
  from this [of MAX_HUFFMAN_BITS] show ?thesis
    unfolding next_codes_def using l by (simp add: MAX_HUFFMAN_BITS_def MAX_LENGTH_def)
qed

lemma symbols_of_take:
  assumes "k < length ds"
  shows "symbols_of (take (Suc k) ds) l = symbols_of (take k ds) l @ (if ds ! k = l then [k] else [])"
  using symbols_of_snoc [of "take k ds" "ds ! k" l] assms by (simp add: take_Suc_conv_app_nth min_def)

lemma symbols_of_prefix: "prefix (symbols_of (take k ds) l) (symbols_of ds l)"
proof -
  have "symbols_of ds l = symbols_of (take k ds) l @ filter (\<lambda>s. ds ! s = l) [min k (length ds)..<length ds]"
  proof -
    have "[0..<length ds] = [0..<min k (length ds)] @ [min k (length ds)..<length ds]"
      by (metis le_add_diff_inverse min.cobounded2 upt_add_eq_append zero_le)
    moreover have "filter (\<lambda>s. ds ! s = l) [0..<min k (length ds)] = symbols_of (take k ds) l"
      by (auto simp: symbols_of_def min.commute intro!: filter_cong)
    ultimately show ?thesis unfolding symbols_of_def [of ds] by simp
  qed
  then show ?thesis by simp
qed

lemma convert_codes:
  assumes depth: "\<forall>d\<in>set (take len depth). d \<le> MAX_LENGTH" and len: "len \<le> length depth" "len \<le> length bits" "len < 2 ^ 16"
    and fit: "fits (symbols_of (take len depth))"
  shows "length (convert_bit_depths_to_symbols depth len bits) = length bits \<and>
    (\<forall>s<length bits. convert_bit_depths_to_symbols depth len bits ! s =
      (if s < len \<and> depth ! s \<noteq> 0 then
         nat_of_bits (codeword (depth ! s) (first_code (symbols_of (take len depth)) (depth ! s) +
           length (symbols_of (take s depth) (depth ! s))))
       else bits ! s))"
proof -
  define ds where "ds = take len depth"
  define L where "L = symbols_of ds"
  define nc where "nc = next_codes (count_depths ds)"
  have ld: "length ds = len" using len by (simp add: ds_def)
  have d16: "\<forall>d\<in>set ds. d < MAX_HUFFMAN_BITS" using depth by (auto simp: ds_def MAX_LENGTH_def MAX_HUFFMAN_BITS_def)
  have nc: "nc ! l = first_code L l" if "1 \<le> l" "l \<le> MAX_LENGTH" for l
    unfolding nc_def
  proof (rule next_codes_nth [OF _ _ that])
    show "count_depths ds ! l = (if l = 0 then 0 else length (L l))" if "l < MAX_HUFFMAN_BITS" for l
      unfolding L_def using count_depths_nth [OF d16 _ that] len ld by simp
    show "fits L" using fit by (simp add: L_def ds_def)
  qed
  have lnc: "length nc = MAX_HUFFMAN_BITS"
  proof -
    have "length (snd (fold (\<lambda>i (code, next_code). let code' = shl 16 (wrapping_add 16 code (c ! (i - 1))) 1 in (code', next_code[i := code'])) xs (a, ys))) = length ys"
      for c xs and a :: nat and ys :: "nat list"
      by (induction xs arbitrary: a ys) (simp_all add: Let_def)
    then show ?thesis by (simp add: nc_def next_codes_def)
  qed
  have main: "case fold (assign_code depth) [0..<k] (bits, nc) of (bits', nc') \<Rightarrow>
      length bits' = length bits \<and> length nc' = MAX_HUFFMAN_BITS \<and>
      (\<forall>l. 1 \<le> l \<longrightarrow> l \<le> MAX_LENGTH \<longrightarrow> nc' ! l = first_code L l + length (symbols_of (take k ds) l)) \<and>
      (\<forall>s<length bits. bits' ! s = (if s < k \<and> depth ! s \<noteq> 0 then
         nat_of_bits (codeword (depth ! s) (first_code L (depth ! s) + length (symbols_of (take s ds) (depth ! s)))) else bits ! s))"
    if "k \<le> len" for k
    using that
  proof (induction k)
    case 0
    then show ?case using nc lnc by (simp add: symbols_of_def)
  next
    case (Suc k)
    obtain bits' nc' where st: "fold (assign_code depth) [0..<k] (bits, nc) = (bits', nc')"
      by (cases "fold (assign_code depth) [0..<k] (bits, nc)")
    have IH: "length bits' = length bits" "length nc' = MAX_HUFFMAN_BITS"
      "\<And>l. 1 \<le> l \<Longrightarrow> l \<le> MAX_LENGTH \<Longrightarrow> nc' ! l = first_code L l + length (symbols_of (take k ds) l)"
      "\<And>s. s < length bits \<Longrightarrow> bits' ! s = (if s < k \<and> depth ! s \<noteq> 0 then
         nat_of_bits (codeword (depth ! s) (first_code L (depth ! s) + length (symbols_of (take s ds) (depth ! s)))) else bits ! s)"
      using Suc st by simp_all
    have k: "k < length ds" "ds ! k = depth ! k" "k < length bits" using Suc.prems ld len by (simp_all add: ds_def)
    note sn = symbols_of_take [OF k(1)]
    show ?case
    proof (cases "depth ! k = 0")
      case True
      then have st': "fold (assign_code depth) [0..<Suc k] (bits, nc) = (bits', nc')" using st by (simp add: assign_code_def)
      show ?thesis unfolding st' prod.case
      proof (intro conjI allI impI)
        fix l assume l: "1 \<le> l" "l \<le> MAX_LENGTH"
        show "nc' ! l = first_code L l + length (symbols_of (take (Suc k) ds) l)"
          using IH(3) [OF l] sn [of l] True k(2) l by simp
      next
        fix s assume "s < length bits"
        then show "bits' ! s = (if s < Suc k \<and> depth ! s \<noteq> 0 then
         nat_of_bits (codeword (depth ! s) (first_code L (depth ! s) + length (symbols_of (take s ds) (depth ! s)))) else bits ! s)"
          using IH(4) True by (auto simp: less_Suc_eq)
      qed (use IH in simp_all)
    next
      case False
      define d where "d = depth ! k"
      have "d \<in> set ds" using nth_mem [OF k(1)] k(2) by (simp add: d_def)
      then have d: "1 \<le> d" "d \<le> MAX_LENGTH" "d \<le> 16" "d < MAX_HUFFMAN_BITS"
        using depth False by (auto simp: ds_def d_def MAX_LENGTH_def MAX_HUFFMAN_BITS_def)
      have "prefix (symbols_of (take (Suc k) ds) d) (L d)" unfolding L_def by (rule symbols_of_prefix)
      then have "length (symbols_of (take k ds) d) < length (L d)"
        using prefix_length_le [of "symbols_of (take (Suc k) ds) d" "L d"] sn [of d] k(2) by (simp add: d_def)
      then have "first_code L d + length (symbols_of (take k ds) d) < 2 ^ d"
        using code_less [of L d] fit d by (simp add: L_def ds_def)
      also have "(2::nat) ^ d \<le> 2 ^ 15" using d by (intro power_increasing) (simp_all add: MAX_LENGTH_def)
      finally have w: "wrapping_add 16 (nc' ! d) 1 = first_code L d + length (symbols_of (take k ds) d) + 1"
        using IH(3) [OF d(1,2)] by (simp add: wrapping_add_def)
      have st': "fold (assign_code depth) [0..<Suc k] (bits, nc) =
          (bits'[k := nat_of_bits (codeword d (nc' ! d))], nc'[d := wrapping_add 16 (nc' ! d) 1])"
        using st False reverse_bits_codeword [OF d(1,3)] by (simp add: assign_code_def d_def Let_def)
      show ?thesis
        unfolding st' prod.case
      proof (intro conjI allI impI)
        show "length (bits'[k := nat_of_bits (codeword d (nc' ! d))]) = length bits" using IH(1) by simp
        show "length (nc'[d := wrapping_add 16 (nc' ! d) 1]) = MAX_HUFFMAN_BITS" using IH(2) by simp
        fix l assume l: "1 \<le> l" "l \<le> MAX_LENGTH"
        show "nc'[d := wrapping_add 16 (nc' ! d) 1] ! l = first_code L l + length (symbols_of (take (Suc k) ds) l)"
          using IH(2) IH(3) [OF l] w d(4) sn [of l] k(2) by (auto simp: nth_list_update d_def)
      next
        fix s assume "s < length bits"
        then show "bits'[k := nat_of_bits (codeword d (nc' ! d))] ! s = (if s < Suc k \<and> depth ! s \<noteq> 0 then
         nat_of_bits (codeword (depth ! s) (first_code L (depth ! s) + length (symbols_of (take s ds) (depth ! s)))) else bits ! s)"
          using IH(1) IH(4) [of s] IH(3) [OF d(1,2)] False
          by (cases "s = k") (simp_all add: nth_list_update d_def less_Suc_eq)
      qed
    qed
  qed
  have t: "take s ds = take s depth" if "s < len" for s using that by (simp add: ds_def)
  from main [of len] show ?thesis
    unfolding convert_bit_depths_to_symbols_def ds_def [symmetric] nc_def [symmetric] L_def [symmetric]
    by (auto simp: t split: prod.splits)
qed

lemma converted_codes:
  assumes "\<forall>d\<in>set (take len depth). d \<le> MAX_LENGTH" "len \<le> length depth" "len \<le> length bits" "len < 2 ^ 16"
    and "fits (symbols_of (take len depth))" "s < length bits"
  shows "let code = convert_bit_depths_to_symbols depth len bits ! s in
    if s < len \<and> depth ! s \<noteq> 0
    then (bits_of_nat (depth ! s) code, s) \<in> canonical (symbols_of (take len depth)) \<and> code < 2 ^ (depth ! s)
    else code = bits ! s"
proof (cases "s < len \<and> depth ! s \<noteq> 0")
  case True
  define ds d where "ds = take len depth" and "d = depth ! s"
  have s: "s < length ds" "ds ! s = d" using True assms(2) by (simp_all add: ds_def d_def)
  then have "d \<in> set ds" using nth_mem by blast
  then have d: "1 \<le> d" "d \<le> MAX_LENGTH" using assms(1) True by (auto simp: ds_def d_def)
  have ts: "take s ds = take s depth" using True by (simp add: ds_def)
  have "prefix (symbols_of (take s ds) d @ [s]) (symbols_of ds d)"
    using symbols_of_prefix [of "Suc s" ds d] symbols_of_take [OF s(1), of d] s(2) by simp
  then have j: "length (symbols_of (take s ds) d) < length (symbols_of ds d)" "symbols_of ds d ! length (symbols_of (take s ds) d) = s"
    by (auto simp: prefix_def)
  have "convert_bit_depths_to_symbols depth len bits ! s =
      nat_of_bits (codeword d (first_code (symbols_of ds) d + length (symbols_of (take s ds) d)))"
    using convert_codes [OF assms(1-5)] assms(6) True by (simp add: ds_def d_def ts)
  moreover have "(codeword d (first_code (symbols_of ds) d + length (symbols_of (take s ds) d)), s) \<in> canonical (symbols_of ds)"
    using canonicalI [of d "length (symbols_of (take s ds) d)" "symbols_of ds"] d j by simp
  moreover have "bits_of_nat d (nat_of_bits (codeword d c)) = codeword d c" "nat_of_bits (codeword d c) < 2 ^ d" for c
    using bits_of_nat_of_bits [of "codeword d c"] nat_of_bits_less [of "codeword d c"] by simp_all
  ultimately show ?thesis using True by (simp add: Let_def ds_def d_def)
next
  case False
  then show ?thesis using convert_codes [OF assms(1-5)] assms(6) by (auto simp: Let_def)
qed

text \<open>
  C30 (equivalence). The encoder's bit patterns are the canonical code of the lengths: written in
  as many bits as its depth says, the pattern of every used symbol is the codeword the decoder's
  tables hold for it, and unused entries are left alone.
\<close>

theorem encoder_codes_canonical:
  assumes "\<forall>d\<in>set (take len depth). d \<le> MAX_LENGTH" "len \<le> length depth" "len \<le> length bits" "len < 2 ^ 16"
    and "fits (symbols_of (take len depth))" "s < length bits"
  shows "let code = convert_bit_depths_to_symbols depth len bits ! s in
    if s < len \<and> depth ! s \<noteq> 0
    then (bits_of_nat (depth ! s) code, s) \<in> canonical (symbols_of (take len depth)) \<and> code < 2 ^ (depth ! s)
    else code = bits ! s"
  using assms by (rule converted_codes)

theorem encoder_codes_canonical_witness:
  "(bits_of_nat 2 (convert_bit_depths_to_symbols [1, 2, 2] 3 [0, 0, 0] ! 1), 1) \<in> canonical (symbols_of [1, 2, 2])"
proof -
  have depths: "\<forall>d\<in>set (take 3 [1, 2, 2]). d \<le> MAX_LENGTH" by (simp add: MAX_LENGTH_def)
  have "used_codes (symbols_of [1, 2, 2]) MAX_LENGTH = 2 ^ MAX_LENGTH"
    using used_codes_kraft [of "[1, 2, 2]" MAX_LENGTH] depths by (simp add: kraft_def MAX_LENGTH_def)
  then have "fits (symbols_of (take 3 [1, 2, 2]))" by (intro complete_fits) (simp add: complete_def)
  from encoder_codes_canonical [OF depths _ _ _ this, of "[0, 0, 0]" 1] show ?thesis by (simp add: Let_def)
qed

end
