(* ===== verification/Length_Runs.thy ===== *)
theory Length_Runs
  imports Prelude
begin

unbundle bit_operations_syntax

text \<open>
  The run-length form of a sequence of code lengths (\<open>CodeLengthRuns\<close> and
  \<open>write_huffman_tree\<close> of \<open>shared/huffman.rs\<close>). The two arrays and their length are one list
  of (symbol, extra) pairs. \<open>expand\<close> is the meaning the format gives such a list, as a state
  machine over the lengths so far, the previous non-zero length and the current repeat.
\<close>

section \<open>Emitting runs\<close>

definition NUM_COMMAND_SYMBOLS :: nat where "NUM_COMMAND_SYMBOLS = 704"
definition CODE_LENGTH_CODES :: nat where "CODE_LENGTH_CODES = 18"
definition REPEAT_PREVIOUS_CODE_LENGTH :: nat where "REPEAT_PREVIOUS_CODE_LENGTH = 16"
definition REPEAT_ZERO_CODE_LENGTH :: nat where "REPEAT_ZERO_CODE_LENGTH = 17"
definition INITIAL_REPEATED_CODE_LENGTH :: nat where "INITIAL_REPEATED_CODE_LENGTH = 8"

type_synonym runs = "(nat \<times> nat) list"

definition runs_new :: runs where "runs_new = []"

definition runs_push :: "nat \<Rightarrow> nat \<Rightarrow> runs \<Rightarrow> runs" where
  "runs_push symbol extra runs = (if length runs < NUM_COMMAND_SYMBOLS then runs @ [(symbol, extra)] else runs)"

definition runs_reverse :: "nat \<Rightarrow> runs \<Rightarrow> runs" where
  "runs_reverse start runs = take start runs @ rev (drop start runs)"

function emit_digits :: "nat \<Rightarrow> nat \<Rightarrow> nat \<Rightarrow> runs \<Rightarrow> runs" where
  "emit_digits symbol w r runs =
     (let runs' = runs_push symbol (r AND (2 ^ w - 1)) runs; r' = shr r w in
      if r' = 0 then runs' else emit_digits symbol w (r' - 1) runs')"
  by pat_completeness auto
termination
  by (relation "measure (\<lambda>(s, w, r, runs). r)") (auto simp: shr_div intro: less_le_trans [OF diff_less div_le_dividend])

declare emit_digits.simps [simp del]

definition write_repetitions :: "nat \<Rightarrow> nat \<Rightarrow> nat \<Rightarrow> runs \<Rightarrow> runs" where
  "write_repetitions previous_value v repetitions runs0 =
     (let (runs1, r1) = (if previous_value \<noteq> v then (runs_push v 0 runs0, repetitions - 1) else (runs0, repetitions));
          (runs2, r2) = (if r1 = 7 then (runs_push v 0 runs1, r1 - 1) else (runs1, r1))
      in if r2 < 3 then (runs_push v 0 ^^ r2) runs2
         else runs_reverse (length runs2) (emit_digits REPEAT_PREVIOUS_CODE_LENGTH 2 (r2 - 3) runs2))"

definition write_zero_repetitions :: "nat \<Rightarrow> runs \<Rightarrow> runs" where
  "write_zero_repetitions repetitions runs0 =
     (let (runs1, r1) = (if repetitions = 11 then (runs_push 0 0 runs0, repetitions - 1) else (runs0, repetitions))
      in if r1 < 3 then (runs_push 0 0 ^^ r1) runs1
         else runs_reverse (length runs1) (emit_digits REPEAT_ZERO_CODE_LENGTH 3 (r1 - 3) runs1))"

text \<open>The end of the run of \<open>value\<close> that starts before \<open>k\<close>.\<close>

function run_end :: "nat list \<Rightarrow> nat \<Rightarrow> nat \<Rightarrow> nat \<Rightarrow> nat" where
  "run_end depth n v k = (if k < n \<and> depth ! k = v then run_end depth n v (k + 1) else k)"
  by pat_completeness auto
termination by (relation "measure (\<lambda>(d, n, v, k). n - k)") auto

declare run_end.simps [simp del]

lemma run_end_ge: "k \<le> run_end depth n v k"
  by (induction depth n v k rule: run_end.induct) (subst run_end.simps, auto)

function count_reps :: "nat list \<Rightarrow> nat \<Rightarrow> nat \<Rightarrow> nat \<Rightarrow> nat \<Rightarrow> nat \<Rightarrow> nat \<Rightarrow> nat \<times> nat \<times> nat \<times> nat" where
  "count_reps depth n i total_zero total_non_zero count_zero count_non_zero =
     (if i < n then
        (let v = depth ! i; reps = run_end depth n v (i + 1) - i in
         count_reps depth n (i + reps)
           (if reps \<ge> 3 \<and> v = 0 then total_zero + reps else total_zero)
           (if reps \<ge> 4 \<and> v \<noteq> 0 then total_non_zero + reps else total_non_zero)
           (if reps \<ge> 3 \<and> v = 0 then count_zero + 1 else count_zero)
           (if reps \<ge> 4 \<and> v \<noteq> 0 then count_non_zero + 1 else count_non_zero))
      else (total_zero, total_non_zero, count_zero, count_non_zero))"
  by pat_completeness auto
termination
proof (relation "measure (\<lambda>(d, n, i, _). n - i)", goal_cases)
  case (2 depth n i tz tn cz cn v reps)
  then have "0 < reps" using run_end_ge [of "i + 1" depth n v] by simp
  with 2 show ?case by auto
qed simp

definition decide_over_rle_use :: "nat list \<Rightarrow> nat \<Rightarrow> bool \<times> bool" where
  "decide_over_rle_use depth n =
     (case count_reps depth n 0 0 0 1 1 of (total_zero, total_non_zero, count_zero, count_non_zero) \<Rightarrow>
        (total_non_zero > count_non_zero * 2, total_zero > count_zero * 2))"

fun trim_length :: "nat list \<Rightarrow> nat \<Rightarrow> nat" where
  "trim_length depth 0 = 0"
| "trim_length depth (Suc n) = (if depth ! n = 0 then trim_length depth n else Suc n)"

function write_lengths :: "nat list \<Rightarrow> nat \<Rightarrow> bool \<Rightarrow> bool \<Rightarrow> nat \<Rightarrow> nat \<Rightarrow> runs \<Rightarrow> runs" where
  "write_lengths depth n rle_non_zero rle_zero i previous_value runs =
     (if i < n then
        (let v = depth ! i;
             reps = (if v \<noteq> 0 \<and> rle_non_zero \<or> v = 0 \<and> rle_zero then run_end depth n v (i + 1) - i else 1)
         in if v = 0 then write_lengths depth n rle_non_zero rle_zero (i + reps) previous_value (write_zero_repetitions reps runs)
            else write_lengths depth n rle_non_zero rle_zero (i + reps) v (write_repetitions previous_value v reps runs))
      else runs)"
  by pat_completeness auto
termination
proof (relation "measure (\<lambda>(d, n, a, b, i, _). n - i)", goal_cases)
  case (2 depth n a b i p runs v reps)
  then have "0 < reps" using run_end_ge [of "i + 1" depth n v] by (simp split: if_splits)
  with 2 show ?case by auto
next
  case (3 depth n a b i p runs v reps)
  then have "0 < reps" using run_end_ge [of "i + 1" depth n v] by (simp split: if_splits)
  with 3 show ?case by auto
qed simp

declare write_lengths.simps [simp del]

definition write_huffman_tree :: "nat list \<Rightarrow> nat \<Rightarrow> runs" where
  "write_huffman_tree depth n =
     (let new_length = trim_length depth n;
          (use_rle_for_non_zero, use_rle_for_zero) = (if n > 50 then decide_over_rle_use depth new_length else (False, False))
      in write_lengths depth new_length use_rle_for_non_zero use_rle_for_zero 0 INITIAL_REPEATED_CODE_LENGTH runs_new)"

section \<open>The meaning of a run-length form\<close>

record expansion =
  lengths :: "nat list"
  prev :: nat
  run_value :: nat
  run_count :: nat

definition expansion_start :: expansion where
  "expansion_start = \<lparr>lengths = [], prev = 8, run_value = 0, run_count = 0\<rparr>"

definition expand_symbol :: "expansion \<Rightarrow> nat \<times> nat \<Rightarrow> expansion" where
  "expand_symbol e p = (case p of (symbol, extra) \<Rightarrow>
     if symbol < 16 then e\<lparr>lengths := lengths e @ [symbol], prev := (if symbol \<noteq> 0 then symbol else prev e), run_count := 0\<rparr>
     else
       (let v = (if symbol = 16 then prev e else 0);
            before = (if run_value e \<noteq> v then 0 else run_count e);
            total = (if before = 0 then 0 else push_bit (symbol - 14) (before - 2)) + extra + 3
        in e\<lparr>lengths := lengths e @ replicate (total - before) v, run_value := v, run_count := total\<rparr>))"

definition expand :: "expansion \<Rightarrow> runs \<Rightarrow> expansion" where
  "expand e runs = foldl expand_symbol e runs"

lemma expand_Nil [simp]: "expand e [] = e"
  and expand_append [simp]: "expand e (xs @ ys) = expand (expand e xs) ys"
  and expand_Cons: "expand e (x # xs) = expand (expand_symbol e x) xs"
  by (simp_all add: expand_def)

text \<open>The digits of a long run, as a list.\<close>

function digits :: "nat \<Rightarrow> nat \<Rightarrow> nat \<Rightarrow> runs" where
  "digits symbol w r =
     (symbol, r mod 2 ^ w) # (if r div 2 ^ w = 0 then [] else digits symbol w (r div 2 ^ w - 1))"
  by pat_completeness auto
termination
  by (relation "measure (\<lambda>(s, w, r). r)") (auto intro: less_le_trans [OF diff_less div_le_dividend])

declare digits.simps [simp del]

lemma length_digits: "length (digits symbol w r) \<le> r + 1"
proof (induction symbol w r rule: digits.induct)
  case (1 symbol w r)
  show ?case
  proof (cases "r div 2 ^ w = 0")
    case True
    then show ?thesis by (subst digits.simps) simp
  next
    case False
    then have "length (digits symbol w (r div 2 ^ w - 1)) \<le> r div 2 ^ w" using 1 by simp
    also have "\<dots> \<le> r" by simp
    finally show ?thesis using False by (subst digits.simps) simp
  qed
qed

lemma emit_digits_eq:
  assumes "length runs + r + 1 \<le> NUM_COMMAND_SYMBOLS"
  shows "emit_digits symbol w r runs = runs @ digits symbol w r"
  using assms
proof (induction symbol w r runs rule: emit_digits.induct)
  case (1 symbol w r runs)
  have p: "runs_push symbol (r AND (2 ^ w - 1)) runs = runs @ [(symbol, r mod 2 ^ w)]"
    unfolding AND_mask_nat using 1 by (simp add: runs_push_def)
  show ?case
  proof (cases "shr r w = 0")
    case True
    then show ?thesis unfolding emit_digits.simps [of symbol w r runs] digits.simps [of symbol w r] Let_def p
      by (simp add: shr_div)
  next
    case False
    have "shr r w \<le> r" by (simp add: shr_div)
    then have "length (runs @ [(symbol, r mod 2 ^ w)]) + (shr r w - 1) + 1 \<le> NUM_COMMAND_SYMBOLS"
      using "1.prems" False by simp
    then have "emit_digits symbol w (shr r w - 1) (runs @ [(symbol, r mod 2 ^ w)]) =
        (runs @ [(symbol, r mod 2 ^ w)]) @ digits symbol w (shr r w - 1)"
      using "1.IH" [OF refl refl False] unfolding p by blast
    then show ?thesis using False unfolding emit_digits.simps [of symbol w r runs] digits.simps [of symbol w r] Let_def p
      by (simp add: shr_div)
  qed
qed

text \<open>Reversed, the digits of \<open>r\<close> expand to a run of \<open>r + 3\<close>.\<close>

lemma expand_digits:
  assumes sy: "symbol = 16 \<or> symbol = 17" and v: "v = (if symbol = 16 then prev e else 0)"
    and fresh: "run_value e \<noteq> v \<or> run_count e = 0"
  shows "expand e (rev (digits symbol (symbol - 14) r)) =
    e\<lparr>lengths := lengths e @ replicate (r + 3) v, run_value := v, run_count := r + 3\<rparr>"
proof (induction r rule: less_induct)
  case (less r)
  define w where "w = symbol - 14"
  have w: "0 < w" using sy by (auto simp: w_def)
  show ?case
  proof (cases "r div 2 ^ w = 0")
    case True
    then have "r mod 2 ^ w = r" by (simp add: div_eq_0_iff)
    then have d: "digits symbol w r = [(symbol, r)]" using True by (subst digits.simps) simp
    show ?thesis
      unfolding w_def [symmetric] d using sy v fresh
      by (auto simp: expand_def expand_symbol_def Let_def)
  next
    case False
    define q where "q = r div 2 ^ w - 1"
    have q: "q < r" "r div 2 ^ w = q + 1" using False by (auto simp: q_def intro: less_le_trans [OF diff_less div_le_dividend])
    have r: "r = (q + 1) * 2 ^ w + r mod 2 ^ w" using div_mult_mod_eq [of r "2 ^ w"] q(2) by simp
    define e1 where "e1 = e\<lparr>lengths := lengths e @ replicate (q + 3) v, run_value := v, run_count := q + 3\<rparr>"
    have IH: "expand e (rev (digits symbol w q)) = e1" using less.IH [OF q(1)] by (simp add: w_def e1_def)
    have tot: "push_bit w (q + 3 - 2) + r mod 2 ^ w + 3 = r + 3" using r by (simp add: push_bit_eq_mult)
    have "q + 3 \<le> r + 3" using q(1) by simp
    then have "replicate (q + 3) v @ replicate (r + 3 - (q + 3)) v = replicate (r + 3) v"
      by (simp flip: replicate_add)
    then have step: "expand_symbol e1 (symbol, r mod 2 ^ w) =
        e\<lparr>lengths := lengths e @ replicate (r + 3) v, run_value := v, run_count := r + 3\<rparr>"
      using sy v tot by (auto simp: expand_symbol_def Let_def e1_def w_def)
    have "digits symbol w r = (symbol, r mod 2 ^ w) # digits symbol w q"
      using False by (subst digits.simps) (simp add: q_def)
    then show ?thesis unfolding w_def [symmetric] using IH step by (simp add: expand_Cons)
  qed
qed

section \<open>Every run expands to itself\<close>

definition run_pair_ok :: "nat \<times> nat \<Rightarrow> bool" where
  "run_pair_ok p \<longleftrightarrow> (case p of (s, x) \<Rightarrow> s < 16 \<and> x = 0 \<or> s = 16 \<and> x < 4 \<or> s = 17 \<and> x < 8)"

lemma push_copies:
  "length runs + k \<le> NUM_COMMAND_SYMBOLS \<Longrightarrow> (runs_push v 0 ^^ k) runs = runs @ replicate k (v, 0)"
proof (induction k)
  case (Suc k)
  then show ?case by (simp add: runs_push_def replicate_append_same)
qed simp

lemma expand_copies:
  assumes "v < 16"
  shows "expand e (replicate k (v, 0)) =
    e\<lparr>lengths := lengths e @ replicate k v, prev := (if v \<noteq> 0 \<and> 0 < k then v else prev e),
      run_count := (if 0 < k then 0 else run_count e)\<rparr>"
proof (induction k arbitrary: e)
  case (Suc k)
  then show ?case using assms by (auto simp: expand_Cons expand_symbol_def)
qed (simp add: expand_def)

lemma digits_ok: "symbol = 16 \<or> symbol = 17 \<Longrightarrow> \<forall>p\<in>set (digits symbol (symbol - 14) r). run_pair_ok p"
proof (induction symbol "symbol - 14" r rule: digits.induct)
  case (1 symbol r)
  have "r mod 2 ^ (symbol - 14) < 2 ^ (symbol - 14)" by simp
  then have "run_pair_ok (symbol, r mod 2 ^ (symbol - 14))" using "1.prems" by (auto simp: run_pair_ok_def)
  with 1 show ?case by (subst digits.simps) simp
qed

text \<open>\<open>run_written runs runs' e v reps\<close>: a run of \<open>reps\<close> copies of \<open>v\<close> was appended.\<close>

definition run_written :: "runs \<Rightarrow> runs \<Rightarrow> expansion \<Rightarrow> nat \<Rightarrow> nat \<Rightarrow> bool" where
  "run_written runs runs' e v reps \<longleftrightarrow> (\<exists>es. runs' = runs @ es \<and> length es \<le> reps \<and> (\<forall>p\<in>set es. run_pair_ok p) \<and>
     lengths (expand e es) = lengths e @ replicate reps v \<and> prev (expand e es) = (if v \<noteq> 0 then v else prev e) \<and>
     (run_count (expand e es) = 0 \<or> run_value (expand e es) = v))"

lemma run_written_plain:
  assumes "v < 16" "length runs + k \<le> NUM_COMMAND_SYMBOLS" "0 < k \<or> (v = 0 \<or> prev e = v) \<and> (run_count e = 0 \<or> run_value e = v)"
  shows "run_written runs ((runs_push v 0 ^^ k) runs) e v k"
  unfolding run_written_def push_copies [OF assms(2)]
  using assms by (intro exI [of _ "replicate k (v, 0)"]) (auto simp: expand_copies run_pair_ok_def)

lemma run_written_digits:
  assumes sy: "symbol = 16 \<or> symbol = 17" and v: "v = (if symbol = 16 then prev e else 0)"
    and fresh: "run_value e \<noteq> v \<or> run_count e = 0" and k: "3 \<le> k" and room: "length runs + k \<le> NUM_COMMAND_SYMBOLS"
  shows "run_written runs (runs_reverse (length runs) (emit_digits symbol (symbol - 14) (k - 3) runs)) e v k"
proof -
  have "length runs + (k - 3) + 1 \<le> NUM_COMMAND_SYMBOLS" using room k by simp
  then have r: "runs_reverse (length runs) (emit_digits symbol (symbol - 14) (k - 3) runs) = runs @ rev (digits symbol (symbol - 14) (k - 3))"
    by (simp add: emit_digits_eq runs_reverse_def)
  have "length (digits symbol (symbol - 14) (k - 3)) \<le> k" using length_digits [of symbol "symbol - 14" "k - 3"] k by linarith
  then show ?thesis
    unfolding run_written_def r using expand_digits [OF sy v fresh, of "k - 3"] digits_ok [OF sy] k v
    by (intro exI [of _ "rev (digits symbol (symbol - 14) (k - 3))"]) auto
qed

lemma run_written_after:
  assumes "runs_push v 0 runs = runs @ [(v, 0)]" "v < 16" "run_written (runs @ [(v, 0)]) runs' (expand_symbol e (v, 0)) v k"
  shows "run_written runs runs' e v (k + 1)"
proof -
  obtain es where es: "runs' = (runs @ [(v, 0)]) @ es" "length es \<le> k" "\<forall>p\<in>set es. run_pair_ok p"
    "lengths (expand (expand_symbol e (v, 0)) es) = lengths (expand_symbol e (v, 0)) @ replicate k v"
    "prev (expand (expand_symbol e (v, 0)) es) = (if v \<noteq> 0 then v else prev (expand_symbol e (v, 0)))"
    "run_count (expand (expand_symbol e (v, 0)) es) = 0 \<or> run_value (expand (expand_symbol e (v, 0)) es) = v"
    using assms(3) by (auto simp: run_written_def)
  show ?thesis
    unfolding run_written_def using es assms(2)
    by (intro exI [of _ "(v, 0) # es"]) (simp add: expand_Cons expand_symbol_def run_pair_ok_def)
qed

lemma push_one: "length runs + 1 \<le> NUM_COMMAND_SYMBOLS \<Longrightarrow> runs_push v 0 runs = runs @ [(v, 0)]"
  by (simp add: runs_push_def)

lemma write_repetitions_written:
  assumes v: "0 < v" "v < 16" and reps: "0 < reps" and prev: "prev e = previous_value" and room: "length runs + reps \<le> NUM_COMMAND_SYMBOLS"
    and fresh: "reps < 3 \<or> run_value e \<noteq> v \<or> run_count e = 0"
  shows "run_written runs (write_repetitions previous_value v reps runs) e v reps"
proof -
  have second: "run_written runs (if r < 3 then (runs_push v 0 ^^ r) runs
         else runs_reverse (length runs) (emit_digits REPEAT_PREVIOUS_CODE_LENGTH 2 (r - 3) runs)) e v r"
    if "prev e = v" "length runs + r \<le> NUM_COMMAND_SYMBOLS" "r < 3 \<or> run_value e \<noteq> v \<or> run_count e = 0" "0 < r \<or> run_count e = 0" for r runs e
    using that run_written_plain [of v runs r e] run_written_digits [of 16 v e r runs] v
    by (auto simp: REPEAT_PREVIOUS_CODE_LENGTH_def)
  have first: "run_written runs (let (runs2, r2) = (if r = 7 then (runs_push v 0 runs, r - 1) else (runs, r))
      in if r2 < 3 then (runs_push v 0 ^^ r2) runs2
         else runs_reverse (length runs2) (emit_digits REPEAT_PREVIOUS_CODE_LENGTH 2 (r2 - 3) runs2)) e v r"
    if h: "prev e = v" "length runs + r \<le> NUM_COMMAND_SYMBOLS" "r < 3 \<or> run_value e \<noteq> v \<or> run_count e = 0" "0 < r \<or> run_count e = 0" for r runs e
  proof (cases "r = 7")
    case True
    have p: "runs_push v 0 runs = runs @ [(v, 0)]" using h(2) True by (intro push_one) simp
    have "run_written (runs @ [(v, 0)]) (if (6::nat) < 3 then (runs_push v 0 ^^ 6) (runs @ [(v, 0)])
         else runs_reverse (length (runs @ [(v, 0)])) (emit_digits REPEAT_PREVIOUS_CODE_LENGTH 2 (6 - 3) (runs @ [(v, 0)]))) (expand_symbol e (v, 0)) v 6"
      using h True v by (intro second) (simp_all add: expand_symbol_def)
    from run_written_after [OF p v(2) this] show ?thesis using True p by simp
  next
    case False
    then show ?thesis using second [OF h] by simp
  qed
  show ?thesis
  proof (cases "previous_value = v")
    case True
    then show ?thesis using first [of e runs reps] prev room fresh reps by (simp add: write_repetitions_def)
  next
    case False
    have p: "runs_push v 0 runs = runs @ [(v, 0)]" using room reps by (intro push_one) simp
    have "run_written (runs @ [(v, 0)]) (let (runs2, r2) = (if reps - 1 = 7 then (runs_push v 0 (runs @ [(v, 0)]), reps - 1 - 1) else (runs @ [(v, 0)], reps - 1))
      in if r2 < 3 then (runs_push v 0 ^^ r2) runs2
         else runs_reverse (length runs2) (emit_digits REPEAT_PREVIOUS_CODE_LENGTH 2 (r2 - 3) runs2)) (expand_symbol e (v, 0)) v (reps - 1)"
      using room reps v by (intro first) (simp_all add: expand_symbol_def)
    from run_written_after [OF p v(2) this] have w: "run_written runs (write_repetitions previous_value v reps runs) e v (reps - 1 + 1)"
      unfolding write_repetitions_def if_P [OF False] Let_def prod.case p .
    have "reps - 1 + 1 = reps" using reps by simp
    with w show ?thesis by (simp only:)
  qed
qed

lemma write_zero_repetitions_written:
  assumes reps: "0 < reps" and room: "length runs + reps \<le> NUM_COMMAND_SYMBOLS"
    and fresh: "reps < 3 \<or> run_value e \<noteq> 0 \<or> run_count e = 0"
  shows "run_written runs (write_zero_repetitions reps runs) e 0 reps"
proof -
  have second: "run_written runs (if r < 3 then (runs_push 0 0 ^^ r) runs
         else runs_reverse (length runs) (emit_digits REPEAT_ZERO_CODE_LENGTH 3 (r - 3) runs)) e 0 r"
    if "length runs + r \<le> NUM_COMMAND_SYMBOLS" "r < 3 \<or> run_value e \<noteq> 0 \<or> run_count e = 0" "0 < r" for r runs e
    using that run_written_plain [of 0 runs r e] run_written_digits [of 17 0 e r runs]
    by (auto simp: REPEAT_ZERO_CODE_LENGTH_def)
  show ?thesis
  proof (cases "reps = 11")
    case True
    have p: "runs_push 0 0 runs = runs @ [(0, 0)]" using room True by (intro push_one) simp
    have "run_written (runs @ [(0, 0)]) (if (10::nat) < 3 then (runs_push 0 0 ^^ 10) (runs @ [(0, 0)])
         else runs_reverse (length (runs @ [(0, 0)])) (emit_digits REPEAT_ZERO_CODE_LENGTH 3 (10 - 3) (runs @ [(0, 0)]))) (expand_symbol e (0, 0)) 0 10"
      using room True by (intro second) (simp_all add: expand_symbol_def)
    from run_written_after [OF p _ this] show ?thesis using True p by (simp add: write_zero_repetitions_def)
  next
    case False
    then show ?thesis using second [OF room fresh reps] by (simp add: write_zero_repetitions_def)
  qed
qed

lemma run_end_spec:
  "(\<forall>j. k \<le> j \<longrightarrow> j < run_end depth n v k \<longrightarrow> depth ! j = v) \<and> (run_end depth n v k < n \<longrightarrow> depth ! run_end depth n v k \<noteq> v) \<and>
   run_end depth n v k \<le> max n k"
proof (induction depth n v k rule: run_end.induct)
  case (1 depth n v k)
  show ?case
  proof (cases "k < n \<and> depth ! k = v")
    case True
    then have e: "run_end depth n v k = run_end depth n v (k + 1)" by (subst run_end.simps) simp
    note IH = "1.IH" [OF True]
    show ?thesis
      unfolding e
    proof (intro conjI allI impI)
      fix j assume "k \<le> j" "j < run_end depth n v (k + 1)"
      then show "depth ! j = v" using IH True by (cases "j = k") simp_all
    next
      show "run_end depth n v (k + 1) \<le> max n k" using IH True by simp
    next
      assume "run_end depth n v (k + 1) < n"
      then show "depth ! run_end depth n v (k + 1) \<noteq> v" using IH by blast
    qed
  next
    case False
    have e: "run_end depth n v k = k" unfolding run_end.simps [of depth n v k] if_not_P [OF False] ..
    show ?thesis unfolding e using False by auto
  qed
qed

lemma take_run:
  assumes "i \<le> j" "j \<le> length xs" "\<forall>k. i \<le> k \<longrightarrow> k < j \<longrightarrow> xs ! k = v"
  shows "take j xs = take i xs @ replicate (j - i) v"
proof (rule nth_equalityI)
  fix k assume "k < length (take j xs)"
  then show "take j xs ! k = (take i xs @ replicate (j - i) v) ! k" using assms by (cases "k < i") (simp_all add: nth_append)
qed (use assms in simp)

definition rle_state :: "nat list \<Rightarrow> nat \<Rightarrow> bool \<Rightarrow> bool \<Rightarrow> nat \<Rightarrow> nat \<Rightarrow> runs \<Rightarrow> bool" where
  "rle_state depth n rnz rz i previous runs \<longleftrightarrow> (let e = expand expansion_start runs in
     i \<le> n \<and> length runs \<le> i \<and> (\<forall>p\<in>set runs. run_pair_ok p) \<and> lengths e = take i depth \<and> prev e = previous \<and>
     (run_count e = 0 \<or> 0 < i \<and> run_value e = depth ! (i - 1)) \<and>
     (0 < i \<and> i < n \<and> depth ! (i - 1) = depth ! i \<longrightarrow> \<not> (depth ! i \<noteq> 0 \<and> rnz \<or> depth ! i = 0 \<and> rz)))"

lemma write_lengths_state:
  assumes "n \<le> length depth" "n \<le> NUM_COMMAND_SYMBOLS" "\<forall>d\<in>set (take n depth). d < 16" "rle_state depth n rnz rz i previous runs"
  shows "\<exists>previous'. rle_state depth n rnz rz n previous' (write_lengths depth n rnz rz i previous runs)"
  using assms
proof (induction depth n rnz rz i previous runs rule: write_lengths.induct)
  case (1 depth n rnz rz i previous runs)
  note st = "1.prems"(4) [unfolded rle_state_def Let_def]
  show ?case
  proof (cases "i < n")
    case False
    then have "i = n" using st by simp
    then show ?thesis using "1.prems"(4) by (subst write_lengths.simps) auto
  next
    case True
    define v where "v = depth ! i"
    define rle where "rle \<longleftrightarrow> v \<noteq> 0 \<and> rnz \<or> v = 0 \<and> rz"
    define reps where "reps = (if rle then run_end depth n v (i + 1) - i else 1)"
    define e where "e = expand expansion_start runs"
    have v: "v < 16" using "1.prems"(1,3) True nth_mem [of i "take n depth"] by (simp add: v_def)
    have reps: "0 < reps" "i + reps \<le> n" "\<forall>k. i \<le> k \<longrightarrow> k < i + reps \<longrightarrow> depth ! k = v" "rle \<Longrightarrow> i + reps < n \<Longrightarrow> depth ! (i + reps) \<noteq> v"
    proof -
      have s: "i + 1 \<le> run_end depth n v (i + 1)" "run_end depth n v (i + 1) \<le> n"
        "\<forall>j. i + 1 \<le> j \<longrightarrow> j < run_end depth n v (i + 1) \<longrightarrow> depth ! j = v"
        "run_end depth n v (i + 1) < n \<Longrightarrow> depth ! run_end depth n v (i + 1) \<noteq> v"
        using run_end_ge [of "i + 1" depth n v] run_end_spec [of "i + 1" depth n v] True by simp_all
      show "0 < reps" "i + reps \<le> n" "rle \<Longrightarrow> i + reps < n \<Longrightarrow> depth ! (i + reps) \<noteq> v" using s True by (auto simp: reps_def)
      show "\<forall>k. i \<le> k \<longrightarrow> k < i + reps \<longrightarrow> depth ! k = v"
      proof (intro allI impI)
        fix k assume k: "i \<le> k" "k < i + reps"
        show "depth ! k = v"
        proof (cases "k = i")
          case False
          then show ?thesis using k s(1,3) by (cases rle) (simp_all add: reps_def)
        qed (simp add: v_def)
      qed
    qed
    have fresh: "reps < 3 \<or> run_value e \<noteq> v \<or> run_count e = 0"
    proof (cases rle)
      case True
      have "0 < i \<Longrightarrow> depth ! (i - 1) \<noteq> v" using True st \<open>i < n\<close> unfolding rle_def v_def by metis
      then show ?thesis using st unfolding e_def by metis
    qed (simp add: reps_def)
    have room: "length runs + reps \<le> NUM_COMMAND_SYMBOLS" using st reps(2) "1.prems"(2) by simp
    define runs' where "runs' = (if v = 0 then write_zero_repetitions reps runs else write_repetitions previous v reps runs)"
    define previous' where "previous' = (if v = 0 then previous else v)"
    have "run_written runs runs' e v reps"
      using write_zero_repetitions_written [OF reps(1) room] write_repetitions_written [of v reps e previous runs] v reps(1) room fresh st
      by (auto simp: runs'_def e_def)
    then obtain es where es: "runs' = runs @ es" "length es \<le> reps" "\<forall>p\<in>set es. run_pair_ok p"
      "lengths (expand e es) = lengths e @ replicate reps v" "prev (expand e es) = (if v \<noteq> 0 then v else prev e)"
      "run_count (expand e es) = 0 \<or> run_value (expand e es) = v"
      by (auto simp: run_written_def)
    have ex: "expand expansion_start runs' = expand e es" by (simp add: es(1) e_def)
    have state: "rle_state depth n rnz rz (i + reps) previous' runs'"
      unfolding rle_state_def Let_def ex
    proof (intro conjI impI)
      show "i + reps \<le> n" "length runs' \<le> i + reps" using reps(2) es(1,2) st by simp_all
      show "\<forall>p\<in>set runs'. run_pair_ok p" using es(1,3) st by auto
      show "lengths (expand e es) = take (i + reps) depth"
        unfolding es(4) using take_run [of i "i + reps" depth v] reps "1.prems"(1) st by (simp add: e_def)
      show "prev (expand e es) = previous'" using es(5) st by (simp add: previous'_def e_def)
      have lastv: "depth ! (i + reps - 1) = v" using reps(1,3) by simp
      then show "run_count (expand e es) = 0 \<or> 0 < i + reps \<and> run_value (expand e es) = depth ! (i + reps - 1)"
        using es(6) reps(1) by simp
      assume "0 < i + reps \<and> i + reps < n \<and> depth ! (i + reps - 1) = depth ! (i + reps)"
      then have "i + reps < n" "depth ! (i + reps) = v" using lastv by simp_all
      then show "\<not> (depth ! (i + reps) \<noteq> 0 \<and> rnz \<or> depth ! (i + reps) = 0 \<and> rz)" using reps(4) by (auto simp: rle_def)
    qed
    have wl: "write_lengths depth n rnz rz i previous runs = write_lengths depth n rnz rz (i + reps) previous' runs'"
      unfolding write_lengths.simps [of depth n rnz rz i previous runs] Let_def if_P [OF True] v_def [symmetric]
        rle_def [symmetric] reps_def [symmetric] runs'_def previous'_def by simp
    show ?thesis
    proof (cases "v = 0")
      case z: True
      show ?thesis unfolding wl
        using "1.IH"(1) [OF True v_def reps_def [unfolded rle_def] z "1.prems"(1-3)] state z by (simp add: runs'_def previous'_def)
    next
      case nz: False
      show ?thesis unfolding wl
        using "1.IH"(2) [OF True v_def reps_def [unfolded rle_def] nz "1.prems"(1-3)] state nz by (simp add: runs'_def previous'_def)
    qed
  qed
qed

lemma trim_length_spec: "trim_length depth n \<le> n \<and> (\<forall>k. trim_length depth n \<le> k \<longrightarrow> k < n \<longrightarrow> depth ! k = 0)"
  by (induction n) (auto simp: less_Suc_eq le_Suc_eq)

lemma runs_expand_back:
  assumes "n \<le> length depth" "n \<le> NUM_COMMAND_SYMBOLS" "\<forall>d\<in>set (take n depth). d < 16"
  shows "let runs = write_huffman_tree depth n; m = trim_length depth n in
    lengths (expand expansion_start runs) = take m depth \<and> take n depth = take m depth @ replicate (n - m) 0 \<and>
    length runs \<le> m \<and> (\<forall>(symbol, extra)\<in>set runs. symbol < 16 \<and> extra = 0 \<or> symbol = 16 \<and> extra < 4 \<or> symbol = 17 \<and> extra < 8)"
proof -
  define m where "m = trim_length depth n"
  have m: "m \<le> n" "\<forall>k. m \<le> k \<longrightarrow> k < n \<longrightarrow> depth ! k = 0" using trim_length_spec [of depth n] by (simp_all add: m_def)
  obtain rnz rz where rle: "(if n > 50 then decide_over_rle_use depth m else (False, False)) = (rnz, rz)"
    by (cases "if n > 50 then decide_over_rle_use depth m else (False, False)")
  have w: "write_huffman_tree depth n = write_lengths depth m rnz rz 0 INITIAL_REPEATED_CODE_LENGTH runs_new"
    unfolding write_huffman_tree_def m_def [symmetric] Let_def rle by simp
  have start: "rle_state depth m rnz rz 0 INITIAL_REPEATED_CODE_LENGTH runs_new"
    by (simp add: rle_state_def runs_new_def expansion_start_def INITIAL_REPEATED_CODE_LENGTH_def)
  have "\<forall>d\<in>set (take m depth). d < 16" using assms(3) set_take_subset_set_take [OF m(1), of depth] by blast
  then obtain previous where st: "rle_state depth m rnz rz m previous (write_huffman_tree depth n)"
    using write_lengths_state [OF _ _ _ start] assms m unfolding w by auto
  have "take n depth = take m depth @ replicate (n - m) 0"
    by (rule take_run) (use m assms in simp_all)
  then show ?thesis
    using st unfolding Let_def m_def [symmetric] by (auto simp: rle_state_def Let_def run_pair_ok_def)
qed

text \<open>
  C31 (roundtrip). The run-length form of up to 704 code lengths expands back to them: expanding
  the symbols and extra bits that \<open>write_huffman_tree\<close> emits, as the format defines it, yields
  the lengths without their trailing zeros, the bound of the arrays is never hit, and every extra
  field fits its width.
\<close>

theorem code_lengths_roundtrip:
  assumes "n \<le> length depth" "n \<le> NUM_COMMAND_SYMBOLS" "\<forall>d\<in>set (take n depth). d < 16"
  shows "let runs = write_huffman_tree depth n; m = trim_length depth n in
    lengths (expand expansion_start runs) = take m depth \<and> take n depth = take m depth @ replicate (n - m) 0 \<and>
    length runs \<le> m \<and> (\<forall>(symbol, extra)\<in>set runs. symbol < 16 \<and> extra = 0 \<or> symbol = 16 \<and> extra < 4 \<or> symbol = 17 \<and> extra < 8)"
  using assms by (rule runs_expand_back)

theorem code_lengths_roundtrip_witness:
  "lengths (expand expansion_start (write_huffman_tree [3, 0, 0, 0, 0, 2, 2, 0] 8)) = [3, 0, 0, 0, 0, 2, 2]"
proof -
  have "trim_length [3, 0, 0, 0, 0, 2, 2, 0] 8 = 7" by (simp add: numeral_eq_Suc)
  then show ?thesis
    using code_lengths_roundtrip [of 8 "[3, 0, 0, 0, 0, 2, 2, 0]"] by (simp add: NUM_COMMAND_SYMBOLS_def Let_def)
qed

end
