(* ===== verification/Code_Tree.thy ===== *)
theory Code_Tree
  imports Length_Runs Accepted "HOL-Library.Multiset"
begin

unbundle bit_operations_syntax

text \<open>
  The depth-limited Huffman construction of \<open>shared/huffman.rs\<close>: the node pool, the sort of the
  leaves, the two-queue merge, the depth assignment with its explicit stack and the outer loop
  that raises the minimum count. The loops whose end depends on the pool are
  \<open>partial_function (option)\<close>, so that not returning is \<open>None\<close>. Pool indices are 16-bit signed
  integers, counts wrap at 32 bits.
\<close>

section \<open>Nodes\<close>

record node =
  total_count :: nat
  index_left :: int
  index_right_or_value :: int

definition SENTINEL :: node where
  "SENTINEL = \<lparr>total_count = 2 ^ 32 - 1, index_left = - 1, index_right_or_value = - 1\<rparr>"

definition as_i16 :: "nat \<Rightarrow> int" where
  "as_i16 v = signed_take_bit 15 (int v)"

definition leaf_node :: "nat \<Rightarrow> int \<Rightarrow> node" where
  "leaf_node n v = \<lparr>total_count = n, index_left = - 1, index_right_or_value = v\<rparr>"

definition tree_capacity :: "nat \<Rightarrow> nat" where
  "tree_capacity symbols = 2 * symbols + 1"

definition nodes_for :: "node list \<Rightarrow> nat \<Rightarrow> node list" where
  "nodes_for tree leaves =
     (let needed = tree_capacity leaves in
      if length tree < needed then tree @ replicate (needed - length tree) SENTINEL else tree)"

section \<open>Sorting the leaves\<close>

definition precedes :: "bool \<Rightarrow> node \<Rightarrow> node \<Rightarrow> bool" where
  "precedes tie_by_value v0 v1 =
     (if tie_by_value \<and> total_count v0 = total_count v1 then index_right_or_value v0 > index_right_or_value v1
      else total_count v0 < total_count v1)"

fun insert_loop :: "bool \<Rightarrow> node \<Rightarrow> node list \<Rightarrow> nat \<Rightarrow> nat \<Rightarrow> node list \<times> nat" where
  "insert_loop tie tmp xs k 0 = (xs, k)"
| "insert_loop tie tmp xs k (Suc j) =
     (if \<not> precedes tie tmp (xs ! j) then (xs, k) else insert_loop tie tmp (xs[k := xs ! j]) j j)"

definition insert_item :: "bool \<Rightarrow> nat \<Rightarrow> node list \<Rightarrow> node list" where
  "insert_item tie i xs = (case insert_loop tie (xs ! i) xs i i of (xs', k) \<Rightarrow> xs'[k := xs ! i])"

definition SHELL_GAPS :: "nat list" where
  "SHELL_GAPS = [132, 57, 23, 10, 4, 1]"

text \<open>Every gap is positive, which is written into the loop's test.\<close>

function gap_loop :: "bool \<Rightarrow> nat \<Rightarrow> node \<Rightarrow> node list \<Rightarrow> nat \<Rightarrow> node list \<times> nat" where
  "gap_loop tie gap tmp xs j =
     (if 0 < gap \<and> gap \<le> j \<and> precedes tie tmp (xs ! (j - gap)) then gap_loop tie gap tmp (xs[j := xs ! (j - gap)]) (j - gap)
      else (xs, j))"
  by pat_completeness auto
termination by (relation "measure (\<lambda>(_, _, _, _, j). j)") auto

declare gap_loop.simps [simp del]

definition gap_item :: "bool \<Rightarrow> nat \<Rightarrow> nat \<Rightarrow> node list \<Rightarrow> node list" where
  "gap_item tie gap i xs = (case gap_loop tie gap (xs ! i) xs i of (xs', j) \<Rightarrow> xs'[j := xs ! i])"

definition sort_items :: "bool \<Rightarrow> node list \<Rightarrow> nat \<Rightarrow> node list" where
  "sort_items tie xs n =
     (if n < 13 then fold (insert_item tie) [1..<n] xs
      else fold (\<lambda>gap xs. fold (gap_item tie gap) [gap..<n] xs) (drop (if n < 57 then 2 else 0) SHELL_GAPS) xs)"

section \<open>Merging\<close>

definition pick :: "node list \<Rightarrow> nat \<times> nat \<Rightarrow> nat \<times> nat \<times> nat" where
  "pick tree ij = (case ij of (i, j) \<Rightarrow>
     if total_count (tree ! i) \<le> total_count (tree ! j) then (i, i + 1, j) else (j, i, j + 1))"

definition merge_step :: "nat \<Rightarrow> nat \<Rightarrow> node list \<times> nat \<times> nat \<Rightarrow> node list \<times> nat \<times> nat" where
  "merge_step n k st = (case st of (tree, ij) \<Rightarrow>
     case pick tree ij of (left, ij1) \<Rightarrow>
     case pick tree ij1 of (right, ij2) \<Rightarrow>
       let parent = 2 * n - k in
       (tree[parent := \<lparr>total_count = wrapping_add 32 (total_count (tree ! left)) (total_count (tree ! right)),
                        index_left = as_i16 left, index_right_or_value = as_i16 right\<rparr>,
             parent + 1 := SENTINEL], ij2))"

definition merge_nodes :: "node list \<Rightarrow> nat \<Rightarrow> node list \<times> nat" where
  "merge_nodes tree n =
     (fst (fold (merge_step n) (rev [1..<n]) (tree[n := SENTINEL, n + 1 := SENTINEL], 0, n + 1)), 2 * n - 1)"

section \<open>Assigning depths\<close>

function drop_level :: "int list \<Rightarrow> int \<Rightarrow> int" where
  "drop_level stack level = (if level \<ge> 0 \<and> stack ! nat level = - 1 then drop_level stack (level - 1) else level)"
  by pat_completeness auto
termination by (relation "measure (\<lambda>(_, level). nat (level + 1))") auto

declare drop_level.simps [simp del]

partial_function (option) set_depth_loop ::
  "node list \<Rightarrow> int \<Rightarrow> nat \<Rightarrow> int \<Rightarrow> int list \<Rightarrow> nat list \<Rightarrow> (bool \<times> nat list) option" where
  "set_depth_loop pool max_depth p level stack depth =
     (if index_left (pool ! p) \<ge> 0 then
        (if level + 1 > max_depth then Some (False, depth)
         else set_depth_loop pool max_depth (nat (index_left (pool ! p))) (level + 1)
                (stack[nat (level + 1) := index_right_or_value (pool ! p)]) depth)
      else
        (let depth' = (if index_right_or_value (pool ! p) \<ge> 0 then depth[nat (index_right_or_value (pool ! p)) := take_bit 8 (nat level)] else depth);
             level' = drop_level stack level
         in if level' < 0 then Some (True, depth')
            else set_depth_loop pool max_depth (nat (stack ! nat level')) level' (stack[nat level' := - 1]) depth'))"

definition set_depth :: "nat \<Rightarrow> node list \<Rightarrow> nat list \<Rightarrow> int \<Rightarrow> (bool \<times> nat list) option" where
  "set_depth p pool depth max_depth = set_depth_loop pool max_depth p 0 (replicate 16 (- 1)) depth"

section \<open>The construction\<close>

definition put_leaf :: "nat list \<Rightarrow> nat \<Rightarrow> nat \<Rightarrow> node list \<times> nat \<Rightarrow> node list \<times> nat" where
  "put_leaf data count_limit i st = (case st of (tree, n) \<Rightarrow>
     if data ! i \<noteq> 0 then (tree[n := leaf_node (max (data ! i) count_limit) (as_i16 i)], n + 1) else (tree, n))"

definition put_leaves :: "nat list \<Rightarrow> nat \<Rightarrow> nat \<Rightarrow> node list \<Rightarrow> node list \<times> nat" where
  "put_leaves data len count_limit tree = fold (put_leaf data count_limit) (rev [0..<len]) (tree, 0)"

text \<open>A histogram without symbols indexes outside the pool: the code does not return.\<close>

partial_function (option) create_loop ::
  "nat list \<Rightarrow> nat \<Rightarrow> int \<Rightarrow> nat \<Rightarrow> node list \<Rightarrow> nat list \<Rightarrow> (node list \<times> nat list) option" where
  "create_loop data len tree_limit count_limit tree depth =
     (case put_leaves data len count_limit tree of (tree1, n) \<Rightarrow>
        if n = 0 then None
        else if n = 1 then Some (tree1, depth[nat (index_right_or_value (tree1 ! 0)) := 1])
        else
          (case merge_nodes (sort_items True tree1 n) n of (tree2, p) \<Rightarrow>
             case set_depth p tree2 depth tree_limit of
               None \<Rightarrow> None
             | Some (ok, depth') \<Rightarrow>
                 if ok then Some (tree2, depth') else create_loop data len tree_limit (shl 32 count_limit 1) tree2 depth'))"

definition create_huffman_tree :: "nat list \<Rightarrow> nat \<Rightarrow> int \<Rightarrow> node list \<Rightarrow> nat list \<Rightarrow> (node list \<times> nat list) option" where
  "create_huffman_tree data len tree_limit tree depth =
     create_loop data len tree_limit 1 (nodes_for tree (length (filter (\<lambda>n. n \<noteq> 0) (take len data)))) depth"

section \<open>Trees in the pool\<close>

datatype htree = HLeaf nat | HNode htree htree

primrec represents :: "node list \<Rightarrow> nat \<Rightarrow> htree \<Rightarrow> bool" where
  "represents pool p (HLeaf s) \<longleftrightarrow> index_left (pool ! p) < 0 \<and> index_right_or_value (pool ! p) = int s"
| "represents pool p (HNode l r) \<longleftrightarrow> index_left (pool ! p) \<ge> 0 \<and> index_right_or_value (pool ! p) \<ge> 0 \<and>
     nat (index_left (pool ! p)) < p \<and> nat (index_right_or_value (pool ! p)) < p \<and>
     represents pool (nat (index_left (pool ! p))) l \<and> represents pool (nat (index_right_or_value (pool ! p))) r"

primrec weight :: "(nat \<Rightarrow> nat) \<Rightarrow> htree \<Rightarrow> nat" where
  "weight w (HLeaf s) = w s"
| "weight w (HNode l r) = weight w l + weight w r"

primrec leaves_of :: "htree \<Rightarrow> nat multiset" where
  "leaves_of (HLeaf s) = {#s#}"
| "leaves_of (HNode l r) = leaves_of l + leaves_of r"

primrec height :: "htree \<Rightarrow> nat" where
  "height (HLeaf s) = 0"
| "height (HNode l r) = Suc (max (height l) (height r))"

primrec depths_of :: "nat \<Rightarrow> htree \<Rightarrow> (nat \<times> nat) list" where
  "depths_of d (HLeaf s) = [(s, d)]"
| "depths_of d (HNode l r) = depths_of (Suc d) l @ depths_of (Suc d) r"

lemma represents_cong:
  "(\<And>q. q \<le> p \<Longrightarrow> pool' ! q = pool ! q) \<Longrightarrow> represents pool' p t = represents pool p t"
proof (induction t arbitrary: p)
  case (HNode l r)
  have p: "pool' ! p = pool ! p" using HNode.prems by simp
  have "represents pool' q l = represents pool q l" "represents pool' q r = represents pool q r" if "q < p" for q
    using HNode that by (meson le_trans less_imp_le_nat)+
  then show ?case by (auto simp: p)
qed simp

lemma weight_leaves: "weight w t = (\<Sum>s\<in>#leaves_of t. w s)"
  by (induction t) simp_all

lemma size_leaves_pos: "0 < size (leaves_of t)"
  by (induction t) simp_all

section \<open>Depth assignment\<close>

definition put_depths :: "(nat \<times> nat) list \<Rightarrow> nat list \<Rightarrow> nat list" where
  "put_depths ds depth = fold (\<lambda>(s, d) depth. depth[s := d]) ds depth"

lemma put_depths_append [simp]: "put_depths (xs @ ys) depth = put_depths ys (put_depths xs depth)"
  by (simp add: put_depths_def)

lemma length_put_depths [simp]: "length (put_depths ds depth) = length depth"
  by (induction ds arbitrary: depth) (auto simp: put_depths_def)

definition resume_depth :: "node list \<Rightarrow> int \<Rightarrow> int \<Rightarrow> int list \<Rightarrow> nat list \<Rightarrow> (bool \<times> nat list) option" where
  "resume_depth pool max_depth level stack depth =
     (let level' = drop_level stack level in
      if level' < 0 then Some (True, depth)
      else set_depth_loop pool max_depth (nat (stack ! nat level')) level' (stack[nat level' := - 1]) depth)"

lemma drop_level_stop: "level \<ge> 0 \<Longrightarrow> stack ! nat level \<noteq> - 1 \<Longrightarrow> drop_level stack level = level"
  by (subst drop_level.simps) simp

lemma drop_level_down: "level \<ge> 0 \<Longrightarrow> stack ! nat level = - 1 \<Longrightarrow> drop_level stack level = drop_level stack (level - 1)"
  by (subst drop_level.simps) simp

lemma drop_level_cong:
  "(\<And>k. k \<le> level \<Longrightarrow> 0 \<le> k \<Longrightarrow> stack' ! nat k = stack ! nat k) \<Longrightarrow> drop_level stack' level = drop_level stack level"
proof (induction stack level rule: drop_level.induct)
  case (1 stack level)
  show ?case
  proof (cases "level \<ge> 0 \<and> stack ! nat level = - 1")
    case True
    then show ?thesis using 1 by (simp add: drop_level_down)
  next
    case False
    then show ?thesis using 1 by (subst (1 2) drop_level.simps) auto
  qed
qed

lemma drop_level_le: "drop_level stack level \<le> level"
  by (induction stack level rule: drop_level.induct) (subst drop_level.simps, auto)

lemma set_depth_tree:
  assumes "represents pool p t" "0 \<le> level" "level + int (height t) \<le> max_depth" "max_depth \<le> 15" "length stack = 16"
  shows "\<exists>stack'. set_depth_loop pool max_depth p level stack depth =
      resume_depth pool max_depth level stack' (put_depths (depths_of (nat level) t) depth) \<and>
    length stack' = 16 \<and> (\<forall>k\<le>nat level. stack' ! k = stack ! k)"
  using assms
proof (induction t arbitrary: p level stack depth)
  case (HLeaf s)
  have "nat level < 2 ^ 8" using HLeaf.prems by simp
  then have "take_bit 8 (nat level) = nat level" by (rule take_bit_nat_eq_self)
  then have "set_depth_loop pool max_depth p level stack depth = resume_depth pool max_depth level stack (depth[s := nat level])"
    using HLeaf.prems(1) by (subst set_depth_loop.simps) (simp add: resume_depth_def Let_def)
  then show ?case using HLeaf.prems by (intro exI [of _ stack]) (simp add: put_depths_def)
next
  case (HNode l r)
  define rt where "rt = index_right_or_value (pool ! p)"
  define stack1 where "stack1 = stack[nat (level + 1) := rt]"
  have h: "0 \<le> level + 1" "level + 1 + int (height l) \<le> max_depth" "level + 1 + int (height r) \<le> max_depth"
    using HNode.prems(2,3) by simp_all
  have n1: "nat (level + 1) = Suc (nat level)" using HNode.prems(2) by simp
  have lv: "level + 1 \<le> max_depth" using h by linarith
  then have n16: "nat (level + 1) < 16" using HNode.prems(4) by simp
  have rep: "index_left (pool ! p) \<ge> 0" "rt \<ge> 0" "represents pool (nat (index_left (pool ! p))) l" "represents pool (nat rt) r"
    using HNode.prems(1) by (simp_all add: rt_def)
  have go: "set_depth_loop pool max_depth p level stack depth = set_depth_loop pool max_depth (nat (index_left (pool ! p))) (level + 1) stack1 depth"
    using rep(1) lv by (subst set_depth_loop.simps) (simp add: stack1_def rt_def)
  have l1: "length stack1 = 16" using HNode.prems(5) by (simp add: stack1_def)
  obtain stack2 where s2: "set_depth_loop pool max_depth (nat (index_left (pool ! p))) (level + 1) stack1 depth =
      resume_depth pool max_depth (level + 1) stack2 (put_depths (depths_of (nat (level + 1)) l) depth)"
    "length stack2 = 16" "\<forall>k\<le>nat (level + 1). stack2 ! k = stack1 ! k"
    using HNode.IH(1) [OF rep(3) h(1,2) HNode.prems(4) l1, of depth] by blast
  define stack3 where "stack3 = stack2[nat (level + 1) := - 1]"
  have top: "stack2 ! nat (level + 1) = rt" using s2(3) n16 HNode.prems(5) by (simp add: stack1_def)
  have l3: "length stack3 = 16" using s2(2) by (simp add: stack3_def)
  have right: "resume_depth pool max_depth (level + 1) stack2 d = set_depth_loop pool max_depth (nat rt) (level + 1) stack3 d" for d
    using top rep(2) h(1) drop_level_stop [of "level + 1" stack2] by (simp add: resume_depth_def stack3_def Let_def)
  obtain stack4 where s4: "set_depth_loop pool max_depth (nat rt) (level + 1) stack3 (put_depths (depths_of (nat (level + 1)) l) depth) =
      resume_depth pool max_depth (level + 1) stack4 (put_depths (depths_of (nat (level + 1)) r) (put_depths (depths_of (nat (level + 1)) l) depth))"
    "length stack4 = 16" "\<forall>k\<le>nat (level + 1). stack4 ! k = stack3 ! k"
    using HNode.IH(2) [OF rep(4) h(1,3) HNode.prems(4) l3] by blast
  have "stack4 ! nat (level + 1) = - 1" using s4(3) n16 s2(2) by (simp add: stack3_def)
  then have up: "resume_depth pool max_depth (level + 1) stack4 d = resume_depth pool max_depth level stack4 d" for d
    using drop_level_down [OF h(1)] by (simp add: resume_depth_def)
  have "\<forall>k\<le>nat level. stack4 ! k = stack ! k" using s4(3) s2(3) by (simp add: stack3_def stack1_def n1)
  then show ?case
    using s4 by (intro exI [of _ stack4]) (simp add: go s2(1) right up n1)
qed

lemma set_depth_too_deep:
  assumes "represents pool p t" "0 \<le> level" "level + int (height t) > max_depth" "level \<le> max_depth" "max_depth \<le> 15" "length stack = 16"
  shows "\<exists>depth'. set_depth_loop pool max_depth p level stack depth = Some (False, depth') \<and> length depth' = length depth \<and>
    (\<forall>i<length depth. i \<notin># leaves_of t \<longrightarrow> depth' ! i = depth ! i)"
  using assms
proof (induction t arbitrary: p level stack depth)
  case (HNode l r)
  define rt where "rt = index_right_or_value (pool ! p)"
  define stack1 where "stack1 = stack[nat (level + 1) := rt]"
  have rep: "index_left (pool ! p) \<ge> 0" "rt \<ge> 0" "represents pool (nat (index_left (pool ! p))) l" "represents pool (nat rt) r"
    using HNode.prems(1) by (simp_all add: rt_def)
  have h1: "0 \<le> level + 1" using HNode.prems(2) by simp
  have l1: "length stack1 = 16" using HNode.prems(6) by (simp add: stack1_def)
  show ?case
  proof (cases "level + 1 > max_depth")
    case True
    then show ?thesis using rep(1) by (subst set_depth_loop.simps) simp
  next
    case False
    then have lv: "level + 1 \<le> max_depth" by simp
    have go: "set_depth_loop pool max_depth p level stack depth = set_depth_loop pool max_depth (nat (index_left (pool ! p))) (level + 1) stack1 depth"
      using rep(1) lv by (subst set_depth_loop.simps) (simp add: stack1_def rt_def)
    show ?thesis
    proof (cases "level + 1 + int (height l) > max_depth")
      case True
      from HNode.IH(1) [OF rep(3) h1 True lv HNode.prems(5) l1, of depth] show ?thesis unfolding go by auto
    next
      case False
      then have hl: "level + 1 + int (height l) \<le> max_depth" by simp
      have hr: "level + 1 + int (height r) > max_depth" using HNode.prems(3) hl by (simp add: max_def split: if_splits)
      define depth1 where "depth1 = put_depths (depths_of (nat (level + 1)) l) depth"
      obtain stack2 where s2: "set_depth_loop pool max_depth (nat (index_left (pool ! p))) (level + 1) stack1 depth =
          resume_depth pool max_depth (level + 1) stack2 depth1"
        "length stack2 = 16" "\<forall>k\<le>nat (level + 1). stack2 ! k = stack1 ! k"
        using set_depth_tree [OF rep(3) h1 hl HNode.prems(5) l1, of depth] by (auto simp: depth1_def)
      have n16: "nat (level + 1) < 16" using lv HNode.prems(5) by simp
      then have top: "stack2 ! nat (level + 1) = rt" using s2(3) HNode.prems(6) by (simp add: stack1_def)
      have right: "resume_depth pool max_depth (level + 1) stack2 depth1 =
          set_depth_loop pool max_depth (nat rt) (level + 1) (stack2[nat (level + 1) := - 1]) depth1"
        using top rep(2) h1 drop_level_stop [of "level + 1" stack2] by (simp add: resume_depth_def Let_def)
      have l3: "length (stack2[nat (level + 1) := - 1]) = 16" using s2(2) by simp
      obtain depth' where d: "set_depth_loop pool max_depth (nat rt) (level + 1) (stack2[nat (level + 1) := - 1]) depth1 = Some (False, depth')"
        "length depth' = length depth1" "\<forall>i<length depth1. i \<notin># leaves_of r \<longrightarrow> depth' ! i = depth1 ! i"
        using HNode.IH(2) [OF rep(4) h1 hr lv HNode.prems(5) l3, of depth1] by blast
      have keep: "put_depths (depths_of d t) depth ! i = depth ! i" if "i \<notin># leaves_of t" for d t depth i
        using that by (induction t arbitrary: d depth) (auto simp: put_depths_def [of "[_]"])
      show ?thesis
        using d keep unfolding go s2(1) right by (intro exI [of _ depth']) (simp add: depth1_def)
    qed
  qed
qed simp

end
