(* ===== verification/Code_Merge.thy ===== *)
theory Code_Merge
  imports Code_Tree
begin

unbundle bit_operations_syntax

text \<open>
  The merge refines an abstract one on two queues of trees: \<open>take_least\<close> takes the lighter of the
  two heads, the leaf on a tie, \<open>merge_trees\<close> appends the pair to the second queue.
  \<open>queues\<close> is the simulation relation between the pool with its two indices and the queues.
\<close>

section \<open>Two queues of trees\<close>

definition take_least :: "(nat \<Rightarrow> nat) \<Rightarrow> htree list \<times> htree list \<Rightarrow> htree \<times> htree list \<times> htree list" where
  "take_least w q = (case q of (ls, us) \<Rightarrow>
     if ls \<noteq> [] \<and> (us = [] \<or> weight w (hd ls) \<le> weight w (hd us)) then (hd ls, tl ls, us) else (hd us, ls, tl us))"

definition merge_trees :: "(nat \<Rightarrow> nat) \<Rightarrow> htree list \<times> htree list \<Rightarrow> htree list \<times> htree list" where
  "merge_trees w q = (case take_least w q of (a, q1) \<Rightarrow> case take_least w q1 of (b, ls, us) \<Rightarrow> (ls, us @ [HNode a b]))"

definition forest :: "htree list \<times> htree list \<Rightarrow> htree multiset" where
  "forest q = mset (fst q) + mset (snd q)"

lemma take_least_forest:
  assumes "0 < size (forest q)" "take_least w q = (t, q')"
  shows "forest q = add_mset t (forest q')" "size (forest q') = size (forest q) - 1"
proof -
  show f: "forest q = add_mset t (forest q')"
    using assms by (cases "fst q"; cases "snd q"; cases q) (auto simp: take_least_def forest_def split: if_splits)
  show "size (forest q') = size (forest q) - 1" by (simp add: f)
qed

lemma merge_trees_forest:
  assumes "2 \<le> size (forest q)"
  obtains a b F where "forest q = add_mset a (add_mset b F)" "forest (merge_trees w q) = add_mset (HNode a b) F"
proof -
  obtain a q1 where a: "take_least w q = (a, q1)" by (cases "take_least w q")
  obtain b ls us where b: "take_least w q1 = (b, ls, us)" by (cases "take_least w q1")
  have s: "0 < size (forest q)" using assms by simp
  note fa = take_least_forest [OF s a]
  have "0 < size (forest q1)" using fa(2) assms by simp
  note fb = take_least_forest [OF this b]
  show thesis
    by (rule that [of a b "forest (ls, us)"]) (use fa(1) fb(1) a b in \<open>simp_all add: merge_trees_def forest_def\<close>)
qed

lemma merge_trees_size: "2 \<le> size (forest q) \<Longrightarrow> size (forest (merge_trees w q)) = size (forest q) - 1"
  by (erule merge_trees_forest [of q w]) simp

lemma merge_trees_leaves:
  "2 \<le> size (forest q) \<Longrightarrow> (\<Sum>t\<in>#forest (merge_trees w q). leaves_of t) = (\<Sum>t\<in>#forest q. leaves_of t)"
  by (erule merge_trees_forest [of q w]) (simp add: ac_simps)

section \<open>The pool holds the queues\<close>

definition held :: "(nat \<Rightarrow> nat) \<Rightarrow> node list \<Rightarrow> nat \<Rightarrow> htree \<Rightarrow> bool" where
  "held w pool p t \<longleftrightarrow> represents pool p t \<and> total_count (pool ! p) = weight w t"

text \<open>\<open>queues w n m pool (i, j) (ls, us)\<close>: after \<open>m\<close> merges of \<open>n\<close> leaves.\<close>

definition queues :: "(nat \<Rightarrow> nat) \<Rightarrow> nat \<Rightarrow> nat \<Rightarrow> node list \<Rightarrow> nat \<times> nat \<Rightarrow> htree list \<times> htree list \<Rightarrow> bool" where
  "queues w n m pool ij q \<longleftrightarrow> (case (ij, q) of ((i, j), (ls, us)) \<Rightarrow>
     2 * n + 1 \<le> length pool \<and> i + length ls = n \<and> j + length us = n + 1 + m \<and> n + 1 \<le> j \<and>
     pool ! n = SENTINEL \<and> pool ! (n + 1 + m) = SENTINEL \<and>
     (\<forall>k<length ls. held w pool (i + k) (ls ! k)) \<and> (\<forall>k<length us. held w pool (j + k) (us ! k)))"

lemma as_i16_small: "k < 2 ^ 15 \<Longrightarrow> as_i16 k = int k"
  by (simp add: as_i16_def signed_take_bit_int_eq_self)

lemma held_tl:
  assumes "\<forall>k<length xs. held w pool (i + k) (xs ! k)"
  shows "\<forall>k<length (tl xs). held w pool (i + 1 + k) (tl xs ! k)"
proof (intro allI impI)
  fix k assume "k < length (tl xs)"
  then show "held w pool (i + 1 + k) (tl xs ! k)" using assms [rule_format, of "Suc k"] by (simp add: nth_tl)
qed

lemma pick_least:
  assumes q: "queues w n m pool ij q" and ne: "0 < size (forest q)" and small: "\<forall>t\<in>#forest q. weight w t < 2 ^ 32 - 1"
    and p: "pick pool ij = (k, ij')" and t: "take_least w q = (t, q')"
  shows "held w pool k t \<and> queues w n m pool ij' q' \<and> k < n + 1 + m"
proof -
  obtain i j ls us where ij: "ij = (i, j)" and qq: "q = (ls, us)" by (cases ij, cases q)
  note qs = q [unfolded queues_def ij qq prod.case]
  have l: "held w pool i (hd ls)" "weight w (hd ls) < 2 ^ 32 - 1" if "ls \<noteq> []"
  proof -
    have "held w pool (i + 0) (ls ! 0)" using qs that by blast
    then show "held w pool i (hd ls)" using that by (simp add: hd_conv_nth)
    show "weight w (hd ls) < 2 ^ 32 - 1" using small that qq by (simp add: forest_def)
  qed
  have u: "held w pool j (hd us)" "weight w (hd us) < 2 ^ 32 - 1" if "us \<noteq> []"
  proof -
    have "held w pool (j + 0) (us ! 0)" using qs that by blast
    then show "held w pool j (hd us)" using that by (simp add: hd_conv_nth)
    show "weight w (hd us) < 2 ^ 32 - 1" using small that qq by (simp add: forest_def)
  qed
  have i: "total_count (pool ! i) = (if ls = [] then 2 ^ 32 - 1 else weight w (hd ls))"
    using qs l(1) by (auto simp: held_def SENTINEL_def)
  have j: "total_count (pool ! j) = (if us = [] then 2 ^ 32 - 1 else weight w (hd us))"
    using qs u(1) by (auto simp: held_def SENTINEL_def)
  have some: "ls \<noteq> [] \<or> us \<noteq> []" using ne qq by (auto simp: forest_def)
  have choice: "total_count (pool ! i) \<le> total_count (pool ! j) \<longleftrightarrow> ls \<noteq> [] \<and> (us = [] \<or> weight w (hd ls) \<le> weight w (hd us))"
    unfolding i j using l(2) u(2) some by auto
  show ?thesis
  proof (cases "ls \<noteq> [] \<and> (us = [] \<or> weight w (hd ls) \<le> weight w (hd us))")
    case True
    then have e: "k = i" "ij' = (i + 1, j)" "t = hd ls" "q' = (tl ls, us)"
      using p t choice by (auto simp: pick_def take_least_def ij qq)
    have "\<forall>k<length (tl ls). held w pool (i + 1 + k) (tl ls ! k)"
      using held_tl [of ls w pool i] qs by blast
    then have "queues w n m pool ij' q'" using qs True unfolding queues_def e by (cases ls) auto
    then show ?thesis using True l(1) qs e by (cases ls) auto
  next
    case False
    then have ne': "us \<noteq> []" using some by blast
    have e: "k = j" "ij' = (i, j + 1)" "t = hd us" "q' = (ls, tl us)"
      using p t choice False by (auto simp: pick_def take_least_def ij qq)
    have "\<forall>k<length (tl us). held w pool (j + 1 + k) (tl us ! k)"
      using held_tl [of us w pool j] qs by blast
    then have "queues w n m pool ij' q'" using qs ne' unfolding queues_def e by (cases us) auto
    then show ?thesis using ne' u(1) qs e by (cases us) auto
  qed
qed

lemma held_cong: "(\<And>q. q \<le> p \<Longrightarrow> pool' ! q = pool ! q) \<Longrightarrow> held w pool' p t = held w pool p t"
  by (simp add: held_def represents_cong [of p pool' pool])

lemma merge_step_queues:
  assumes q: "queues w n m pool ij q" and sz: "size (forest q) = n - m" and m: "m + 2 \<le> n" and n: "2 * n < 2 ^ 15"
    and total: "(\<Sum>t\<in>#forest q. weight w t) < 2 ^ 32 - 1"
    and r: "merge_step n (n - 1 - m) (pool, ij) = (pool', ij')"
  shows "queues w n (m + 1) pool' ij' (merge_trees w q)"
proof -
  have small: "weight w t < 2 ^ 32 - 1" if "t \<in># forest q" for t
  proof -
    have "weight w t \<le> (\<Sum>t\<in>#forest q. weight w t)" using that by (metis insert_DiffM le_add1 image_mset_add_mset sum_mset.insert)
    then show ?thesis using total by linarith
  qed
  obtain a ij1 where p1: "pick pool ij = (a, ij1)" by (cases "pick pool ij")
  obtain b ij2 where p2: "pick pool ij1 = (b, ij2)" by (cases "pick pool ij1")
  obtain ta q1 where t1: "take_least w q = (ta, q1)" by (cases "take_least w q")
  obtain tb ls us where t2: "take_least w q1 = (tb, ls, us)" by (cases "take_least w q1")
  have ne: "0 < size (forest q)" using sz m by simp
  note f1 = take_least_forest [OF ne t1]
  have ne1: "0 < size (forest q1)" using f1(2) sz m by simp
  note f2 = take_least_forest [OF ne1 t2]
  have s1: "held w pool a ta \<and> queues w n m pool ij1 q1 \<and> a < n + 1 + m"
    by (rule pick_least [OF q ne _ p1 t1]) (use small in blast)
  have s2: "held w pool b tb \<and> queues w n m pool ij2 (ls, us) \<and> b < n + 1 + m"
    by (rule pick_least [OF s1 [THEN conjunct2, THEN conjunct1] ne1 _ p2 t2]) (use small f1(1) in simp)
  obtain i j where ij: "ij2 = (i, j)" by (cases ij2)
  note qs = s2 [THEN conjunct2, THEN conjunct1, unfolded queues_def ij prod.case]
  define parent where "parent = n + 1 + m"
  have par: "2 * n - (n - 1 - m) = parent" using m by (simp add: parent_def)
  have wsum: "weight w ta + weight w tb < 2 ^ 32"
  proof -
    have "(\<Sum>t\<in>#forest q. weight w t) = weight w ta + (weight w tb + (\<Sum>t\<in>#forest (ls, us). weight w t))"
      unfolding f1(1) f2(1) by simp
    then show ?thesis using total by linarith
  qed
  have pool': "pool' = pool[parent := \<lparr>total_count = weight w ta + weight w tb, index_left = int a, index_right_or_value = int b\<rparr>, parent + 1 := SENTINEL]"
    and ij': "ij' = (i, j)"
  proof -
    have "a < 2 ^ 15" "b < 2 ^ 15" using s1 s2 n m by auto
    then show "pool' = pool[parent := \<lparr>total_count = weight w ta + weight w tb, index_left = int a, index_right_or_value = int b\<rparr>, parent + 1 := SENTINEL]"
      and "ij' = (i, j)"
      using r wsum s1 s2 par unfolding merge_step_def prod.case p1 p2 Let_def
      by (simp_all add: as_i16_small wrapping_add_def held_def ij)
  qed
  have len: "parent + 1 < length pool" using qs m by (simp add: parent_def)
  have same: "pool' ! k = pool ! k" if "k < parent" for k using that by (simp add: pool')
  have old: "held w pool' k t = held w pool k t" if "k < parent" for k t
    by (rule held_cong) (use same that in simp)
  have new: "held w pool' parent (HNode ta tb)"
  proof -
    have "pool' ! parent = \<lparr>total_count = weight w ta + weight w tb, index_left = int a, index_right_or_value = int b\<rparr>"
      using len by (simp add: pool')
    moreover have "represents pool' a ta" "represents pool' b tb"
      using old s1 s2 by (auto simp: held_def parent_def)
    ultimately show ?thesis using s1 s2 by (simp add: held_def parent_def)
  qed
  have mt: "merge_trees w q = (ls, us @ [HNode ta tb])" by (simp add: merge_trees_def t1 t2)
  have jl: "j + length us = parent" "i + length ls = n" using qs by (simp_all add: parent_def)
  have "held w pool' (i + k) (ls ! k)" if "k < length ls" for k
    using qs that jl old [of "i + k"] by (simp add: parent_def)
  moreover have "held w pool' (j + k) ((us @ [HNode ta tb]) ! k)" if "k < length (us @ [HNode ta tb])" for k
    using qs that jl old [of "j + k"] new by (cases "k = length us") (auto simp: nth_append)
  moreover have "pool' ! n = SENTINEL" using same [of n] qs by (simp add: parent_def)
  moreover have "pool' ! (n + 1 + (m + 1)) = SENTINEL" using len by (simp add: pool' parent_def)
  moreover have "2 * n + 1 \<le> length pool'" using qs by (simp add: pool')
  ultimately show ?thesis using qs jl unfolding queues_def mt ij' by (simp add: parent_def)
qed

text \<open>The whole merge: the last parent holds one tree over all the leaves.\<close>

lemma merge_trees_iter:
  assumes "size (forest q) = n" "m < n"
  shows "size (forest ((merge_trees w ^^ m) q)) = n - m"
    and "(\<Sum>t\<in>#forest ((merge_trees w ^^ m) q). leaves_of t) = (\<Sum>t\<in>#forest q. leaves_of t)"
proof -
  have "size (forest ((merge_trees w ^^ m) q)) = n - m \<and>
    (\<Sum>t\<in>#forest ((merge_trees w ^^ m) q). leaves_of t) = (\<Sum>t\<in>#forest q. leaves_of t)"
    using assms(2)
  proof (induction m)
    case (Suc m)
    then have "2 \<le> size (forest ((merge_trees w ^^ m) q))" by simp
    with Suc show ?case by (simp add: merge_trees_size merge_trees_leaves)
  qed (use assms in simp)
  then show "size (forest ((merge_trees w ^^ m) q)) = n - m"
    and "(\<Sum>t\<in>#forest ((merge_trees w ^^ m) q). leaves_of t) = (\<Sum>t\<in>#forest q. leaves_of t)" by simp_all
qed

lemma weight_forest: "(\<Sum>t\<in>#F. weight w t) = (\<Sum>s\<in>#(\<Sum>t\<in>#F. leaves_of t). w s)"
  by (induction F) (simp_all add: weight_leaves)

lemma merge_nodes_tree:
  assumes leaves: "\<And>k. k < n \<Longrightarrow> held w tree k (ls ! k)" and ls: "length ls = n" and n: "2 \<le> n" "2 * n < 2 ^ 15"
    and len: "2 * n + 1 \<le> length tree" and total: "(\<Sum>t\<in>#mset ls. weight w t) < 2 ^ 32 - 1"
    and r: "merge_nodes tree n = (pool, p)"
  obtains t where "forest ((merge_trees w ^^ (n - 1)) (ls, [])) = {#t#}" "represents pool p t" "leaves_of t = (\<Sum>t\<in>#mset ls. leaves_of t)"
    "length pool = length tree"
proof -
  define tree0 where "tree0 = tree[n := SENTINEL, n + 1 := SENTINEL]"
  define st where "st m = fold (merge_step n) (take m (rev [1..<n])) (tree0, 0, n + 1)" for m
  have sz: "size (forest (ls, [])) = n" by (simp add: forest_def ls)
  have q0: "queues w n 0 tree0 (0, n + 1) (ls, [])"
  proof -
    have "held w tree0 k (ls ! k)" if "k < n" for k
      using leaves [OF that] held_cong [of k tree0 tree w] that by (simp add: tree0_def)
    then show ?thesis using len ls n by (simp add: queues_def tree0_def)
  qed
  have main: "queues w n m (fst (st m)) (snd (st m)) ((merge_trees w ^^ m) (ls, [])) \<and> length (fst (st m)) = length tree" if "m < n" for m
    using that
  proof (induction m)
    case 0
    then show ?case using q0 by (simp add: st_def tree0_def)
  next
    case (Suc m)
    let ?q = "(merge_trees w ^^ m) (ls, [])"
    have k: "rev [1..<n] ! m = n - 1 - m" "m < length (rev [1..<n])" using Suc.prems by (simp_all add: rev_nth)
    have step: "st (Suc m) = merge_step n (n - 1 - m) (fst (st m), snd (st m))"
      unfolding st_def take_Suc_conv_app_nth [OF k(2)] k(1) by simp
    obtain pool' ij' where r': "merge_step n (n - 1 - m) (fst (st m), snd (st m)) = (pool', ij')"
      by (cases "merge_step n (n - 1 - m) (fst (st m), snd (st m))")
    have mn: "m < n" using Suc.prems by simp
    note it = merge_trees_iter [OF sz mn, of w]
    have "(\<Sum>t\<in>#forest ?q. weight w t) < 2 ^ 32 - 1"
      unfolding weight_forest it(2) using total by (simp add: weight_forest forest_def)
    then have "queues w n (m + 1) pool' ij' (merge_trees w ?q)"
      using Suc it(1) n r' by (intro merge_step_queues [OF _ _ _ _ _ r']) simp_all
    moreover have "length pool' = length (fst (st m))"
      using r' by (auto simp: merge_step_def Let_def split: prod.splits)
    ultimately show ?case using Suc unfolding step r' by simp
  qed
  define q where "q = (merge_trees w ^^ (n - 1)) (ls, [])"
  have n1: "n - 1 < n" using n by simp
  note it = merge_trees_iter [OF sz n1, of w, folded q_def]
  obtain us where us: "q = ([], [us])"
  proof -
    define q' where "q' = (merge_trees w ^^ (n - 2)) (ls, [])"
    have "q = merge_trees w q'" using n unfolding q_def q'_def by (metis Suc_diff_Suc Suc_1 Suc_le_eq comp_apply diff_Suc_1 funpow.simps(2) numeral_2_eq_2)
    then obtain xs ys t where q: "q = (xs, ys @ [t])" by (auto simp: merge_trees_def split: prod.splits)
    have "size (forest q) = 1" using it(1) n by simp
    then have "xs = []" "ys = []" by (simp_all add: q forest_def)
    then show thesis using q that by simp
  qed
  have all: "take (n - 1) (rev [1..<n]) = rev [1..<n]" by simp
  have mn: "merge_nodes tree n = (fst (st (n - 1)), 2 * n - 1)"
    by (simp add: merge_nodes_def st_def all tree0_def)
  obtain i j where ij: "snd (st (n - 1)) = (i, j)" by (cases "snd (st (n - 1))")
  have "queues w n (n - 1) (fst (st (n - 1))) (i, j) ([], [us])"
    using main [OF n1, unfolded ij] us [unfolded q_def] by simp
  then have j: "j + 1 = n + 1 + (n - 1)" "held w (fst (st (n - 1))) j us"
    by (auto simp: queues_def)
  moreover have "pool = fst (st (n - 1))" "p = 2 * n - 1" using r by (simp_all add: mn)
  moreover have "j = 2 * n - 1" using j(1) n by simp
  ultimately have "represents pool p us" by (simp add: held_def)
  moreover have "length pool = length tree" using main [OF n1] r by (simp add: mn)
  moreover have "leaves_of us = (\<Sum>t\<in>#mset ls. leaves_of t)" using it(2) by (simp add: us forest_def)
  ultimately show thesis using that us by (simp add: q_def forest_def)
qed

end
