(* ===== verification/Code_Balance.thy ===== *)
theory Code_Balance
  imports Code_Merge
begin

text \<open>
  With equal leaf weights the merge is balanced: \<open>n\<close> leaves give a tree of height at most \<open>h\<close>
  whenever \<open>n \<le> 2 ^ h\<close>. This is why raising the minimum count ends. The invariant \<open>level h\<close>
  says that the trees have \<open>2 ^ h\<close> or \<open>2 ^ (h + 1)\<close> leaves, but for at most one in between.
\<close>

definition leaf_count :: "htree \<Rightarrow> nat" where
  "leaf_count t = size (leaves_of t)"

lemma leaf_count_simps [simp]: "leaf_count (HLeaf s) = 1" "leaf_count (HNode a b) = leaf_count a + leaf_count b"
  by (simp_all add: leaf_count_def)

lemma weight_uniform: "\<forall>s\<in>#leaves_of t. w s = c \<Longrightarrow> weight w t = c * leaf_count t"
  by (induction t) (auto simp: distrib_left)

lemma filter_none: "size (filter_mset P F) = 0 \<longleftrightarrow> (\<forall>t\<in>#F. \<not> P t)" "(\<forall>t\<in>#F. \<not> P t) \<Longrightarrow> filter_mset P F = {#}"
  by (induction F) auto

definition odd_one :: "nat \<Rightarrow> htree \<Rightarrow> bool" where
  "odd_one h t \<longleftrightarrow> 2 ^ h < leaf_count t \<and> leaf_count t < 2 ^ (h + 1)"

definition level_tree :: "nat \<Rightarrow> htree \<Rightarrow> bool" where
  "level_tree h t \<longleftrightarrow> leaf_count t = 2 ^ h \<and> height t \<le> h \<or> leaf_count t = 2 ^ (h + 1) \<and> height t \<le> h + 1 \<or>
     odd_one h t \<and> height t \<le> h + 1"

definition level :: "nat \<Rightarrow> htree multiset \<Rightarrow> bool" where
  "level h F \<longleftrightarrow> (\<forall>t\<in>#F. level_tree h t) \<and> size (filter_mset (odd_one h) F) \<le> 1"

lemma level_treeD:
  assumes "level_tree h t"
  shows "2 ^ h \<le> leaf_count t" "leaf_count t \<le> 2 ^ (h + 1)" "height t \<le> h + 1"
    "leaf_count t = 2 ^ h \<or> leaf_count t = 2 ^ (h + 1) \<or> odd_one h t"
  using assms by (auto simp: level_tree_def odd_one_def)

lemma two_odd:
  assumes "level h F" "F = add_mset a (add_mset b G)" "odd_one h a" shows "\<not> odd_one h b" "\<forall>t\<in>#G. \<not> odd_one h t"
proof -
  have "size (filter_mset (odd_one h) (add_mset b G)) = 0" using assms by (simp add: level_def)
  then have "\<forall>t\<in>#add_mset b G. \<not> odd_one h t" by (simp only: filter_none(1))
  then show "\<not> odd_one h b" "\<forall>t\<in>#G. \<not> odd_one h t" by auto
qed

lemma level_up:
  assumes "\<forall>t\<in>#G. leaf_count t = 2 ^ (h + 1) \<and> height t \<le> h + 1" "level_tree (h + 1) t"
  shows "level (h + 1) (add_mset t G)"
proof -
  have f: "filter_mset (odd_one (h + 1)) G = {#}" using assms(1) by (intro filter_none(2)) (auto simp: odd_one_def)
  have "size (filter_mset (odd_one (h + 1)) (add_mset t G)) \<le> 1" unfolding filter_mset_add_mset f by simp
  moreover have "\<forall>u\<in>#add_mset t G. level_tree (h + 1) u" using assms by (auto simp: level_tree_def)
  ultimately show ?thesis unfolding level_def by blast
qed

lemma merge_level:
  assumes lv: "level h (add_mset a (add_mset b G))" and least: "leaf_count a \<le> leaf_count b" "\<forall>t\<in>#G. leaf_count b \<le> leaf_count t"
  shows "level h (add_mset (HNode a b) G) \<or> level (h + 1) (add_mset (HNode a b) G)"
proof -
  have t: "level_tree h a" "level_tree h b" "\<forall>t\<in>#G. level_tree h t" using lv by (simp_all add: level_def)
  note a = level_treeD [OF t(1)] and b = level_treeD [OF t(2)]
  have nob: "\<not> odd_one h b \<Longrightarrow> 2 ^ h < leaf_count b \<Longrightarrow> leaf_count b = 2 ^ (h + 1)" using b by auto
  have full: "leaf_count t = 2 ^ (h + 1) \<and> height t \<le> h + 1" if "t \<in># G" "2 ^ h < leaf_count t" "\<not> odd_one h t" for t
    using t(3) that by (auto simp: level_tree_def)
  consider "leaf_count b = 2 ^ h" | "leaf_count a = 2 ^ h" "2 ^ h < leaf_count b" | "2 ^ h < leaf_count a"
    using a(1) b(1) by linarith
  then show ?thesis
  proof cases
    case 1
    then have sz: "leaf_count a = 2 ^ h" using a(1) least(1) by simp
    have "height a \<le> h" "height b \<le> h" using t(1,2) 1 sz by (auto simp: level_tree_def odd_one_def)
    then have "level_tree h (HNode a b)" using 1 sz by (simp add: level_tree_def)
    moreover have "\<not> odd_one h (HNode a b)" using 1 sz by (simp add: odd_one_def)
    moreover have "size (filter_mset (odd_one h) G) \<le> size (filter_mset (odd_one h) (add_mset a (add_mset b G)))" by simp
    ultimately have "level h (add_mset (HNode a b) G)" using lv t(3) unfolding level_def by simp
    then show ?thesis ..
  next
    case 2
    have "\<not> odd_one h t" if "t \<in># G" for t
    proof
      assume o: "odd_one h t"
      have "leaf_count b < 2 ^ (h + 1)" using o least(2) that by (auto simp: odd_one_def intro: order_le_less_trans)
      then have "odd_one h b" using 2 by (simp add: odd_one_def)
      have "add_mset a (add_mset b G) = add_mset b (add_mset a G)" by (rule add_mset_commute)
      from two_odd(2) [OF lv this \<open>odd_one h b\<close>] show False using o that by blast
    qed
    then have all: "\<forall>t\<in>#G. leaf_count t = 2 ^ (h + 1) \<and> height t \<le> h + 1"
      using full 2 least(2) by (meson order_less_le_trans)
    have "level_tree (h + 1) (HNode a b)"
      using 2 a(3) b(2,3) by (auto simp: level_tree_def odd_one_def)
    from level_up [OF all this] show ?thesis ..
  next
    case 3
    have bg: "2 ^ h < leaf_count b" "\<forall>t\<in>#G. 2 ^ h < leaf_count t" using 3 least by (auto intro: order_less_le_trans)
    show ?thesis
    proof (cases "odd_one h a")
      case True
      note no = two_odd [OF lv refl True]
      have all: "\<forall>t\<in>#G. leaf_count t = 2 ^ (h + 1) \<and> height t \<le> h + 1" using full no bg by blast
      have "level_tree (h + 1) (HNode a b)"
        using True nob [OF no(1) bg(1)] a(3) b(3) by (auto simp: level_tree_def odd_one_def)
      from level_up [OF all this] show ?thesis ..
    next
      case False
      then have sa: "leaf_count a = 2 ^ (h + 1)" using a(4) 3 by auto
      then have sb: "leaf_count b = 2 ^ (h + 1)" using b(2) least(1) by simp
      have "leaf_count t = 2 ^ (h + 1)" if "t \<in># G" for t
        using that least(2) sb t(3) level_treeD(2) [of h t] by (auto intro: antisym)
      then have all: "\<forall>t\<in>#G. leaf_count t = 2 ^ (h + 1) \<and> height t \<le> h + 1" using t(3) level_treeD(3) by blast
      have "level_tree (h + 1) (HNode a b)" using sa sb a(3) b(3) by (simp add: level_tree_def)
      from level_up [OF all this] show ?thesis ..
    qed
  qed
qed

section \<open>The queues are in order\<close>

definition in_order :: "htree list \<times> htree list \<Rightarrow> bool" where
  "in_order q \<longleftrightarrow> (\<forall>t\<in>set (fst q). leaf_count t = 1) \<and> sorted (map leaf_count (snd q))"

lemma leaf_count_pos: "1 \<le> leaf_count t"
  using size_leaves_pos [of t] by (simp add: leaf_count_def Suc_leI)

lemma take_least_order:
  assumes ord: "in_order q" and uniform: "\<forall>t\<in>#forest q. weight w t = c * leaf_count t" "0 < c"
    and ne: "0 < size (forest q)" and t: "take_least w q = (t, q')"
  shows "in_order q'" "\<forall>u\<in>#forest q'. leaf_count t \<le> leaf_count u"
proof -
  obtain ls us where q: "q = (ls, us)" by (cases q)
  have s: "sorted (map leaf_count us)" "\<forall>t\<in>set ls. leaf_count t = 1" using ord by (simp_all add: in_order_def q)
  have uni: "\<forall>t\<in>set ls \<union> set us. weight w t = c * leaf_count t" using uniform(1) by (auto simp: q forest_def)
  have "in_order q' \<and> (\<forall>u\<in>#forest q'. leaf_count t \<le> leaf_count u)"
  proof (cases "ls \<noteq> [] \<and> (us = [] \<or> weight w (hd ls) \<le> weight w (hd us))")
    case True
    then obtain l ls' where ls: "ls = l # ls'" by (cases ls) auto
    have "t = l" "q' = (ls', us)" using t True by (auto simp: take_least_def q ls)
    then show ?thesis using s leaf_count_pos by (auto simp: in_order_def forest_def ls)
  next
    case False
    then obtain u us' where us: "us = u # us'" using ne by (cases us) (auto simp: q forest_def)
    have e: "t = u" "q' = (ls, us')" using t False by (auto simp: take_least_def q us)
    have "leaf_count u \<le> leaf_count l" if "l \<in> set ls" for l
    proof -
      have "ls \<noteq> []" using that by auto
      then have "weight w u < weight w (hd ls)" "hd ls \<in> set ls" using False us by auto
      then have "c * leaf_count u < c * 1" using uni s(2) us by auto
      then show ?thesis using leaf_count_pos [of u] by simp
    qed
    then show ?thesis using s by (auto simp: e in_order_def forest_def us)
  qed
  then show "in_order q'" "\<forall>u\<in>#forest q'. leaf_count t \<le> leaf_count u" by blast+
qed

lemma merge_balanced:
  assumes "2 \<le> size (forest q)" "in_order q" "level h (forest q)" "\<forall>t\<in>#forest q. weight w t = c * leaf_count t" "0 < c"
  shows "in_order (merge_trees w q)" "\<exists>h. level h (forest (merge_trees w q))"
    "\<forall>t\<in>#forest (merge_trees w q). weight w t = c * leaf_count t"
proof -
  obtain a q1 where a: "take_least w q = (a, q1)" by (cases "take_least w q")
  obtain b ls us where b: "take_least w q1 = (b, ls, us)" by (cases "take_least w q1")
  have ne: "0 < size (forest q)" using assms(1) by simp
  note fa = take_least_forest [OF ne a] and oa = take_least_order [OF assms(2,4,5) ne a]
  have ne1: "0 < size (forest q1)" using fa(2) assms(1) by simp
  have u1: "\<forall>t\<in>#forest q1. weight w t = c * leaf_count t" using assms(4) fa(1) by simp
  note fb = take_least_forest [OF ne1 b] and ob = take_least_order [OF oa(1) u1 assms(5) ne1 b]
  have m: "merge_trees w q = (ls, us @ [HNode a b])" by (simp add: merge_trees_def a b)
  have f: "forest q = add_mset a (add_mset b (forest (ls, us)))" using fa(1) fb(1) by simp
  have fm: "forest (merge_trees w q) = add_mset (HNode a b) (forest (ls, us))" by (simp add: m forest_def)
  have ab: "leaf_count a \<le> leaf_count b" using oa(2) fb(1) by simp
  have lv: "level h (add_mset a (add_mset b (forest (ls, us))))" using assms(3) f by simp
  show "\<exists>h. level h (forest (merge_trees w q))" unfolding fm using merge_level [OF lv ab ob(2)] by blast
  have "leaf_count u \<le> leaf_count (HNode a b)" if "u \<in> set us" for u
  proof -
    have "level_tree h u" "level_tree h a" "level_tree h b" using lv that by (auto simp: level_def forest_def)
    then show ?thesis using level_treeD(2) [of h u] level_treeD(1) [of h a] level_treeD(1) [of h b] by simp
  qed
  then show "in_order (merge_trees w q)" using ob(1) by (auto simp: in_order_def m sorted_append)
  show "\<forall>t\<in>#forest (merge_trees w q). weight w t = c * leaf_count t"
    unfolding fm using assms(4) f by (auto simp: distrib_left)
qed

lemma merge_iter_balanced:
  assumes ls: "\<forall>t\<in>set ls. leaf_count t = 1 \<and> height t = 0 \<and> weight w t = c" and c: "0 < c" and n: "length ls = n" "1 \<le> n"
    and r: "forest ((merge_trees w ^^ (n - 1)) (ls, [])) = {#t#}" and small: "n \<le> 2 ^ k"
  shows "height t \<le> k"
proof -
  have sz: "size (forest (ls, [])) = n" by (simp add: forest_def n)
  have lv0: "level 0 (forest (ls, []))"
  proof -
    have f: "filter_mset (odd_one 0) (forest (ls, [])) = {#}" using ls by (intro filter_none(2)) (auto simp: odd_one_def forest_def)
    have "\<forall>t\<in>#forest (ls, []). level_tree 0 t" using ls by (auto simp: level_tree_def forest_def)
    then show ?thesis unfolding level_def f by simp
  qed
  have "in_order ((merge_trees w ^^ m) (ls, [])) \<and> (\<exists>h. level h (forest ((merge_trees w ^^ m) (ls, [])))) \<and>
      (\<forall>t\<in>#forest ((merge_trees w ^^ m) (ls, [])). weight w t = c * leaf_count t)" if "m < n" for m
    using that
  proof (induction m)
    case 0
    then show ?case using ls lv0 by (auto simp: in_order_def forest_def)
  next
    case (Suc m)
    let ?q = "(merge_trees w ^^ m) (ls, [])"
    have "size (forest ?q) = n - m" using merge_trees_iter(1) [OF sz, of m w] Suc.prems by simp
    then have s2: "2 \<le> size (forest ?q)" using Suc.prems by simp
    obtain h where "in_order ?q" "level h (forest ?q)" "\<forall>t\<in>#forest ?q. weight w t = c * leaf_count t"
      using Suc by auto
    from merge_balanced [OF s2 this c] show ?case by simp
  qed
  from this [of "n - 1"] obtain h where "level h {#t#}" using n r by auto
  then have lt: "level_tree h t" by (simp add: level_def)
  have n1: "n - 1 < n" using n by simp
  have "leaf_count t = n"
  proof -
    have "leaves_of t = (\<Sum>t\<in>#mset ls. leaves_of t)" using merge_trees_iter(2) [OF sz n1, of w] unfolding r by (simp add: forest_def)
    moreover have "size (\<Sum>t\<in>#mset ls. leaves_of t) = (\<Sum>t\<in>#mset ls. leaf_count t)" by (induction ls) (simp_all add: leaf_count_def)
    moreover have "(\<Sum>t\<in>#mset ls. leaf_count t) = (\<Sum>t\<in>#mset ls. 1)" using ls by (intro arg_cong [of _ _ sum_mset] image_mset_cong) auto
    ultimately show ?thesis using n(1) by (simp add: leaf_count_def)
  qed
  note lt = lt [unfolded level_tree_def odd_one_def this]
  have pow: "(2::nat) ^ i \<le> 2 ^ k \<Longrightarrow> i \<le> k" "(2::nat) ^ i < 2 ^ k \<Longrightarrow> i < k" for i by simp_all
  from lt show ?thesis
  proof (elim disjE conjE)
    assume "n = 2 ^ h" "height t \<le> h"
    then show ?thesis using pow(1) [of h] small by simp
  next
    assume "n = 2 ^ (h + 1)" "height t \<le> h + 1"
    then show ?thesis using pow(1) [of "h + 1"] small by simp
  next
    assume lo: "2 ^ h < n" and ht: "height t \<le> h + 1"
    have "(2::nat) ^ h < 2 ^ k" using lo small by (rule order_less_le_trans)
    then show ?thesis using pow(2) [of h] ht by simp
  qed
qed

end
