(* ===== verification/Code_Lengths.thy ===== *)
theory Code_Lengths
  imports Code_Balance "HOL-Library.Product_Lexorder"
begin

unbundle bit_operations_syntax

text \<open>
  The sort sorts, and the whole construction: for a histogram of at least two used symbols
  \<open>create_huffman_tree\<close> returns, within its depth limit, the lengths of a complete code.
\<close>

section \<open>The sort\<close>

definition node_key :: "bool \<Rightarrow> node \<Rightarrow> nat \<times> int" where
  "node_key tie v = (total_count v, if tie then - index_right_or_value v else 0)"

lemma precedes_key: "precedes tie v0 v1 \<longleftrightarrow> node_key tie v0 < node_key tie v1"
  by (auto simp: precedes_def node_key_def less_prod_def')

lemma insert_loop_gap: "insert_loop tie tmp xs j j = gap_loop tie 1 tmp xs j"
proof (induction j arbitrary: xs)
  case (Suc j)
  then show ?case by (subst gap_loop.simps) simp
qed (subst gap_loop.simps, simp)

lemma insert_item_gap: "insert_item tie i xs = gap_item tie 1 i xs"
  by (simp add: insert_item_def gap_item_def insert_loop_gap)

text \<open>The item in hand belongs into the hole: \<open>xs[j := tmp]\<close> is the list meanwhile.\<close>

lemma gap_loop_swaps:
  assumes "gap_loop tie gap tmp xs j = (xs', j')" "j < length xs"
  shows "mset (xs'[j' := tmp]) = mset (xs[j := tmp]) \<and> length xs' = length xs \<and> j' \<le> j \<and> (\<forall>k>j. xs' ! k = xs ! k)"
  using assms
proof (induction tie gap tmp xs j rule: gap_loop.induct)
  case (1 tie gap tmp xs j)
  show ?case
  proof (cases "0 < gap \<and> gap \<le> j \<and> precedes tie tmp (xs ! (j - gap))")
    case True
    let ?xs = "xs[j := xs ! (j - gap)]"
    have e: "gap_loop tie gap tmp ?xs (j - gap) = (xs', j')" using "1.prems"(1) True by (subst (asm) gap_loop.simps) simp
    have "j \<noteq> j - gap" using True by auto
    then have "xs[j := xs ! (j - gap), j - gap := tmp] = (xs[j := tmp])[j := (xs[j := tmp]) ! (j - gap), j - gap := (xs[j := tmp]) ! j]"
      using "1.prems"(2) by simp
    then have "mset (?xs[j - gap := tmp]) = mset (xs[j := tmp])"
      using mset_swap [of "j - gap" "xs[j := tmp]" j] "1.prems"(2) by simp
    moreover have "mset (xs'[j' := tmp]) = mset (?xs[j - gap := tmp]) \<and> length xs' = length ?xs \<and> j' \<le> j - gap \<and> (\<forall>k>j - gap. xs' ! k = ?xs ! k)"
      by (rule "1.IH" [OF True e]) (use "1.prems"(2) in simp)
    ultimately show ?thesis using True by auto
  next
    case False
    then have "xs' = xs" "j' = j" using "1.prems"(1) unfolding gap_loop.simps [of tie gap tmp xs j] by auto
    then show ?thesis by simp
  qed
qed

lemma gap_item_keeps:
  assumes "i < n" "n \<le> length xs"
  shows "length (gap_item tie gap i xs) = length xs" "mset (take n (gap_item tie gap i xs)) = mset (take n xs)"
    "drop n (gap_item tie gap i xs) = drop n xs"
proof -
  obtain xs' j where g: "gap_loop tie gap (xs ! i) xs i = (xs', j)" by (cases "gap_loop tie gap (xs ! i) xs i")
  have "i < length xs" using assms by simp
  note s = gap_loop_swaps [OF g this, simplified]
  have gi: "gap_item tie gap i xs = xs'[j := xs ! i]" by (simp add: gap_item_def g)
  show l: "length (gap_item tie gap i xs) = length xs" using s by (simp add: gi)
  show d: "drop n (gap_item tie gap i xs) = drop n xs"
    using s assms by (intro nth_equalityI) (simp_all add: gi)
  have "mset (take n ys) + mset (drop n ys) = mset ys" for ys :: "node list" by (metis append_take_drop_id mset_append)
  then show "mset (take n (gap_item tie gap i xs)) = mset (take n xs)"
    using s d gi by (metis add_right_cancel)
qed

lemma gap_loop_sorts:
  assumes "gap_loop tie 1 tmp xs j = (xs', j')" "j \<le> n" "n < length xs"
    and "\<And>a b. a < b \<Longrightarrow> b \<le> n \<Longrightarrow> b \<noteq> j \<Longrightarrow> node_key tie (xs[j := tmp] ! a) \<le> node_key tie (xs[j := tmp] ! b)"
  shows "\<forall>b\<le>n. \<forall>a<b. node_key tie (xs'[j' := tmp] ! a) \<le> node_key tie (xs'[j' := tmp] ! b)"
  using assms
proof (induction tie "1::nat" tmp xs j rule: gap_loop.induct)
  case (1 tie tmp xs j)
  let ?zs = "xs[j := tmp]"
  note le = "1.prems"(4)
  show ?case
  proof (cases "0 < (1::nat) \<and> 1 \<le> j \<and> precedes tie tmp (xs ! (j - 1))")
    case True
    then have lt: "node_key tie tmp < node_key tie (xs ! (j - 1))" and j: "1 \<le> j" by (simp_all add: precedes_key)
    let ?xs = "xs[j := xs ! (j - 1)]"
    have e: "gap_loop tie 1 tmp ?xs (j - 1) = (xs', j')" using "1.prems"(1) True by (subst (asm) gap_loop.simps) simp
    have q: "?xs[j - 1 := tmp] ! k = (if k = j - 1 then tmp else if k = j then ?zs ! (j - 1) else ?zs ! k)" if "k < length xs" for k
      using that j "1.prems"(2,3) by (simp add: nth_list_update)
    have "node_key tie (?xs[j - 1 := tmp] ! a) \<le> node_key tie (?xs[j - 1 := tmp] ! b)" if ab: "a < b" "b \<le> n" "b \<noteq> j - 1" for a b
    proof -
      have l: "a < length xs" "b < length xs" using ab "1.prems"(3) by simp_all
      consider "b = j" "a = j - 1" | "b = j" "a < j - 1" | "b \<noteq> j" "a = j - 1" | "b \<noteq> j" "a = j" | "b \<noteq> j" "a \<noteq> j - 1" "a \<noteq> j"
        using ab by linarith
      then show ?thesis
      proof cases
        case 1
        then show ?thesis using q l lt j by (simp add: less_imp_le)
      next
        case 2
        then show ?thesis using q l le [of a "j - 1"] "1.prems"(2) j by simp
      next
        case 3
        then show ?thesis using q l le [of j b] ab j "1.prems"(2,3) by simp
      next
        case 4
        then show ?thesis using q l le [of "j - 1" b] ab j by simp
      next
        case 5
        then show ?thesis using q l le [of a b] ab by simp
      qed
    qed
    then show ?thesis using "1.hyps" [OF True e] "1.prems"(2,3) by simp
  next
    case False
    have x: "xs' = xs" "j' = j" using "1.prems"(1) False unfolding gap_loop.simps [of tie 1 tmp xs j] by auto
    have "node_key tie (?zs ! a) \<le> node_key tie (?zs ! b)" if ab: "a < b" "b \<le> n" for a b
    proof (cases "b = j")
      case True
      then have j: "1 \<le> j" "j - 1 < j" using ab by simp_all
      then have "node_key tie (?zs ! (j - 1)) \<le> node_key tie tmp" using False by (simp add: precedes_key not_less)
      moreover have "a \<noteq> j - 1 \<Longrightarrow> node_key tie (?zs ! a) \<le> node_key tie (?zs ! (j - 1))"
        using le [of a "j - 1"] ab True "1.prems"(2) j by simp
      ultimately show ?thesis using True "1.prems"(2,3) by (cases "a = j - 1") (auto intro: order_trans)
    qed (use le ab in simp)
    then show ?thesis by (simp add: x)
  qed
qed

lemma gap_pass_keeps:
  assumes "n \<le> length xs" "\<forall>i\<in>set is. i < n"
  shows "length (fold (gap_item tie gap) is xs) = length xs \<and> mset (take n (fold (gap_item tie gap) is xs)) = mset (take n xs) \<and>
    drop n (fold (gap_item tie gap) is xs) = drop n xs"
  using assms by (induction "is" arbitrary: xs) (auto simp: gap_item_keeps)

lemma insertion_pass_sorts:
  assumes "n \<le> length xs"
  shows "sorted (map (node_key tie) (take n (fold (gap_item tie 1) [1..<n] xs)))"
proof -
  have "\<forall>b<m. \<forall>a<b. node_key tie (fold (gap_item tie 1) [1..<m] xs ! a) \<le> node_key tie (fold (gap_item tie 1) [1..<m] xs ! b)" if "m \<le> n" for m
    using that
  proof (induction m)
    case (Suc m)
    show ?case
    proof (cases "1 \<le> m")
      case True
      let ?ys = "fold (gap_item tie 1) [1..<m] xs"
      have e: "fold (gap_item tie 1) [1..<Suc m] xs = gap_item tie 1 m ?ys" using True by simp
      have len: "length ?ys = length xs" using gap_pass_keeps [of m xs "[1..<m]"] assms Suc.prems by simp
      obtain xs' j where g: "gap_loop tie 1 (?ys ! m) ?ys m = (xs', j)" by (cases "gap_loop tie 1 (?ys ! m) ?ys m")
      have "\<forall>b\<le>m. \<forall>a<b. node_key tie (xs'[j := ?ys ! m] ! a) \<le> node_key tie (xs'[j := ?ys ! m] ! b)"
        by (rule gap_loop_sorts [OF g]) (use Suc len assms in simp_all)
      moreover have "gap_item tie 1 m ?ys = xs'[j := ?ys ! m]" by (simp only: gap_item_def g prod.case)
      ultimately show ?thesis unfolding e by (simp only: less_Suc_eq_le)
    qed (use Suc in simp)
  qed simp
  from this [of n] show ?thesis
    using gap_pass_keeps [of n xs "[1..<n]" tie 1] assms by (simp add: sorted_iff_nth_mono_less)
qed

lemma sort_items_keeps:
  assumes "n \<le> length xs"
  shows "length (sort_items tie xs n) = length xs \<and> mset (take n (sort_items tie xs n)) = mset (take n xs) \<and> drop n (sort_items tie xs n) = drop n xs"
proof -
  have "length (fold (\<lambda>gap xs. fold (gap_item tie gap) [gap..<n] xs) gaps xs) = length xs \<and>
    mset (take n (fold (\<lambda>gap xs. fold (gap_item tie gap) [gap..<n] xs) gaps xs)) = mset (take n xs) \<and>
    drop n (fold (\<lambda>gap xs. fold (gap_item tie gap) [gap..<n] xs) gaps xs) = drop n xs" for gaps
    using assms
  proof (induction gaps arbitrary: xs)
    case (Cons gap gaps)
    then show ?case using gap_pass_keeps [of n xs "[gap..<n]" tie gap] by simp
  qed simp
  moreover have "fold (insert_item tie) [1..<n] xs = fold (gap_item tie 1) [1..<n] xs"
    by (rule fold_cong) (simp_all add: insert_item_gap fun_eq_iff)
  ultimately show ?thesis using gap_pass_keeps [of n xs "[1..<n]" tie 1] assms by (simp add: sort_items_def)
qed

text \<open>
  The sort of the leaves, insertion or shell, puts the first \<open>n\<close> nodes in
  order of precedence, which is a permutation of them, and touches nothing behind them.
\<close>

theorem sort_items_sorts:
  assumes "n \<le> length xs"
  shows "(\<forall>b<n. \<forall>a<b. \<not> precedes tie (sort_items tie xs n ! b) (sort_items tie xs n ! a))
    \<and> mset (take n (sort_items tie xs n)) = mset (take n xs) \<and> drop n (sort_items tie xs n) = drop n xs"
proof -
  have "sorted (map (node_key tie) (take n (sort_items tie xs n)))"
  proof (cases "n < 13")
    case True
    have "fold (insert_item tie) [1..<n] xs = fold (gap_item tie 1) [1..<n] xs"
      by (rule fold_cong) (simp_all add: insert_item_gap fun_eq_iff)
    then show ?thesis using insertion_pass_sorts [OF assms] True by (simp add: sort_items_def)
  next
    case False
    define gaps where "gaps = take (if n < 57 then 3 else 5) (drop (if n < 57 then 2 else 0) SHELL_GAPS)"
    have g: "drop (if n < 57 then 2 else 0) SHELL_GAPS = gaps @ [1]" by (simp add: gaps_def SHELL_GAPS_def)
    have "n \<le> length (fold (\<lambda>gap xs. fold (gap_item tie gap) [gap..<n] xs) gaps xs)"
      using assms
    proof (induction gaps arbitrary: xs)
      case (Cons gap gaps)
      then show ?case using gap_pass_keeps [of n xs "[gap..<n]" tie gap] by simp
    qed simp
    then show ?thesis using insertion_pass_sorts False unfolding sort_items_def g by simp
  qed
  then show ?thesis
    using sort_items_keeps [OF assms] assms
    by (simp add: sorted_iff_nth_mono_less precedes_key not_less)
qed

theorem sort_items_sorts_witness:
  "\<not> precedes True (sort_items True [leaf_node 2 0, leaf_node 1 1] 2 ! 1) (sort_items True [leaf_node 2 0, leaf_node 1 1] 2 ! 0)"
  using sort_items_sorts [of 2 "[leaf_node 2 0, leaf_node 1 1]" True, THEN conjunct1] by simp

end
