(* ===== verification/Code_Complete.thy ===== *)
theory Code_Complete
  imports Code_Lengths
begin

unbundle bit_operations_syntax

text \<open>
  \<open>create_huffman_tree\<close> as a whole: the loop that raises the minimum count ends, and the lengths
  it returns are those of a complete code within the limit.
\<close>

section \<open>The leaves\<close>

definition used_symbols :: "nat list \<Rightarrow> nat \<Rightarrow> nat list" where
  "used_symbols data len = filter (\<lambda>i. data ! i \<noteq> 0) (rev [0..<len])"

lemma used_symbols_set: "set (used_symbols data len) = {i. i < len \<and> data ! i \<noteq> 0}" "distinct (used_symbols data len)"
  by (auto simp: used_symbols_def)

lemma length_used_symbols:
  assumes "len \<le> length data"
  shows "length (filter (\<lambda>n. n \<noteq> 0) (take len data)) = length (used_symbols data len)"
proof -
  have "take len data = map ((!) data) [0..<len]" using assms by (simp add: list_eq_iff_nth_eq)
  then have "length (filter (\<lambda>n. n \<noteq> 0) (take len data)) = length (filter (\<lambda>i. data ! i \<noteq> 0) [0..<len])"
    by (simp add: filter_map comp_def)
  also have "\<dots> = length (used_symbols data len)" unfolding used_symbols_def rev_filter [symmetric] by simp
  finally show ?thesis .
qed

lemma put_leaf_fold:
  assumes "k + length (filter (\<lambda>i. data ! i \<noteq> 0) xs) \<le> length tree"
  shows "\<exists>tree'. fold (put_leaf data c) xs (tree, k) = (tree', k + length (filter (\<lambda>i. data ! i \<noteq> 0) xs)) \<and> length tree' = length tree \<and>
    (\<forall>m<k. tree' ! m = tree ! m) \<and>
    (\<forall>m<length (filter (\<lambda>i. data ! i \<noteq> 0) xs). tree' ! (k + m) =
       (\<lambda>i. leaf_node (max (data ! i) c) (as_i16 i)) (filter (\<lambda>i. data ! i \<noteq> 0) xs ! m))"
  using assms
proof (induction xs arbitrary: tree k)
  case (Cons x xs)
  show ?case
  proof (cases "data ! x = 0")
    case True
    then have "put_leaf data c x (tree, k) = (tree, k)" by (simp add: put_leaf_def)
    then show ?thesis using Cons True by simp
  next
    case False
    let ?tree = "tree[k := leaf_node (max (data ! x) c) (as_i16 x)]"
    have "Suc k + length (filter (\<lambda>i. data ! i \<noteq> 0) xs) \<le> length ?tree" using Cons.prems False by simp
    from Cons.IH [OF this] obtain tree' where t: "fold (put_leaf data c) xs (?tree, Suc k) = (tree', Suc k + length (filter (\<lambda>i. data ! i \<noteq> 0) xs))"
      "length tree' = length tree" "\<forall>m<Suc k. tree' ! m = ?tree ! m"
      "\<forall>m<length (filter (\<lambda>i. data ! i \<noteq> 0) xs). tree' ! (Suc k + m) = (\<lambda>i. leaf_node (max (data ! i) c) (as_i16 i)) (filter (\<lambda>i. data ! i \<noteq> 0) xs ! m)"
      by auto
    have "tree' ! (k + m) = (\<lambda>i. leaf_node (max (data ! i) c) (as_i16 i)) ((x # filter (\<lambda>i. data ! i \<noteq> 0) xs) ! m)"
      if "m < Suc (length (filter (\<lambda>i. data ! i \<noteq> 0) xs))" for m
    proof (cases m)
      case 0
      then show ?thesis using t(3) [rule_format, of k] Cons.prems False by simp
    next
      case (Suc j)
      then show ?thesis using t(4) [rule_format, of j] that by simp
    qed
    moreover have "put_leaf data c x (tree, k) = (?tree, Suc k)" using False by (simp add: put_leaf_def)
    ultimately show ?thesis using t False by (intro exI [of _ tree']) simp
  qed
qed simp

lemma put_leaves_eq:
  assumes "length (used_symbols data len) \<le> length tree"
  obtains tree' where "put_leaves data len c tree = (tree', length (used_symbols data len))" "length tree' = length tree"
    "take (length (used_symbols data len)) tree' = map (\<lambda>i. leaf_node (max (data ! i) c) (as_i16 i)) (used_symbols data len)"
proof -
  obtain tree' where t: "put_leaves data len c tree = (tree', length (used_symbols data len))" "length tree' = length tree"
    "\<forall>m<length (used_symbols data len). tree' ! m = (\<lambda>i. leaf_node (max (data ! i) c) (as_i16 i)) (used_symbols data len ! m)"
    using put_leaf_fold [of 0 data "rev [0..<len]" tree c] assms by (auto simp: put_leaves_def used_symbols_def)
  moreover have "take (length (used_symbols data len)) tree' = map (\<lambda>i. leaf_node (max (data ! i) c) (as_i16 i)) (used_symbols data len)"
    using t assms by (intro nth_equalityI) simp_all
  ultimately show thesis using that by blast
qed

text \<open>A permutation of leaves is a list of leaves.\<close>

lemma leaf_nodes_perm:
  assumes "mset xs = mset (map (\<lambda>i. leaf_node (w i) (int i)) syms)"
  obtains syms' where "xs = map (\<lambda>i. leaf_node (w i) (int i)) syms'" "mset syms' = mset syms"
proof
  define f where "f v = nat (index_right_or_value v)" for v :: node
  have inv: "f (leaf_node (w i) (int i)) = i" for i by (simp add: f_def leaf_node_def)
  have "mset (map f xs) = mset (map f (map (\<lambda>i. leaf_node (w i) (int i)) syms))" using assms by (metis mset_map)
  also have "\<dots> = mset syms" by (simp add: comp_def inv)
  finally show "mset (map f xs) = mset syms" .
  have "v = leaf_node (w (f v)) (int (f v))" if "v \<in> set xs" for v
  proof -
    have "v \<in> set (map (\<lambda>i. leaf_node (w i) (int i)) syms)" using mset_eq_setD [OF assms] that by simp
    then show ?thesis using inv by auto
  qed
  then show "xs = map (\<lambda>i. leaf_node (w i) (int i)) (map f xs)"
    by (intro nth_equalityI) simp_all
qed

section \<open>One attempt\<close>

lemma set_depth_outcome:
  assumes rep: "represents pool p t" and lim: "limit \<le> 15"
  shows "height t \<le> limit \<Longrightarrow> set_depth p pool depth (int limit) = Some (True, put_depths (depths_of 0 t) depth)"
    and "limit < height t \<Longrightarrow> \<exists>depth'. set_depth p pool depth (int limit) = Some (False, depth') \<and> length depth' = length depth \<and>
      (\<forall>i<length depth. i \<notin># leaves_of t \<longrightarrow> depth' ! i = depth ! i)"
proof -
  assume h: "height t \<le> limit"
  obtain stack' where s: "set_depth p pool depth (int limit) = resume_depth pool (int limit) 0 stack' (put_depths (depths_of 0 t) depth)"
    "stack' ! 0 = - 1"
    using set_depth_tree [OF rep, of 0 "int limit" "replicate 16 (- 1)" depth] h lim by (auto simp: set_depth_def)
  have "drop_level stack' 0 = drop_level stack' (- 1)" using s(2) drop_level_down [of 0 stack'] by simp
  also have "\<dots> = - 1" by (subst drop_level.simps) simp
  finally show "set_depth p pool depth (int limit) = Some (True, put_depths (depths_of 0 t) depth)"
    unfolding s(1) by (simp add: resume_depth_def)
next
  assume "limit < height t"
  then show "\<exists>depth'. set_depth p pool depth (int limit) = Some (False, depth') \<and> length depth' = length depth \<and>
      (\<forall>i<length depth. i \<notin># leaves_of t \<longrightarrow> depth' ! i = depth ! i)"
    unfolding set_depth_def using set_depth_too_deep [OF rep, of 0 "int limit"] lim by simp
qed

lemma attempt:
  assumes n: "n = length (used_symbols data len)" "2 \<le> n" and len: "len < 2 ^ 14" and room: "2 * n + 1 \<le> length tree"
    and lim: "limit \<le> 15" and total: "(\<Sum>s\<leftarrow>used_symbols data len. max (data ! s) c) < 2 ^ 32 - 1"
  obtains t tree' where "leaves_of t = mset (used_symbols data len)" "length tree' = length tree"
    "height t \<le> limit \<Longrightarrow> create_loop data len (int limit) c tree depth = Some (tree', put_depths (depths_of 0 t) depth)"
    "limit < height t \<Longrightarrow> \<exists>depth'. create_loop data len (int limit) c tree depth = create_loop data len (int limit) (shl 32 c 1) tree' depth' \<and>
       length depth' = length depth \<and> (\<forall>i<length depth. i \<notin> set (used_symbols data len) \<longrightarrow> depth' ! i = depth ! i)"
    "\<And>k. \<lbrakk>\<forall>s\<in>set (used_symbols data len). data ! s \<le> c; 0 < c; n \<le> 2 ^ k\<rbrakk> \<Longrightarrow> height t \<le> k"
proof -
  define us where "us = used_symbols data len"
  define w where "w i = max (data ! i) c" for i
  have small: "i < 2 ^ 15" if "i \<in> set us" for i using that used_symbols_set(1) [of data len] len by (simp add: us_def)
  have nlen: "n < 2 ^ 14"
  proof -
    have "n \<le> len" using n length_filter_le [of "\<lambda>i. data ! i \<noteq> 0" "rev [0..<len]"] by (simp add: used_symbols_def)
    then show ?thesis using len by simp
  qed
  obtain tree1 where t1: "put_leaves data len c tree = (tree1, n)" "length tree1 = length tree"
    "take n tree1 = map (\<lambda>i. leaf_node (w i) (as_i16 i)) us"
    using put_leaves_eq [of data len tree c] room n unfolding w_def us_def by (metis add_leD1 le_trans mult_2 le_add1)
  have "map (\<lambda>i. leaf_node (w i) (as_i16 i)) us = map (\<lambda>i. leaf_node (w i) (int i)) us"
    using small by (intro map_cong) (simp_all add: as_i16_small)
  then have take1: "take n tree1 = map (\<lambda>i. leaf_node (w i) (int i)) us" using t1(3) by simp
  define tree2 where "tree2 = sort_items True tree1 n"
  have len1: "n \<le> length tree1" using room t1(2) by simp
  note so = sort_items_keeps [OF len1, of True, folded tree2_def]
  have "mset (take n tree2) = mset (map (\<lambda>i. leaf_node (w i) (int i)) us)" using so take1 by simp
  then obtain syms where syms: "take n tree2 = map (\<lambda>i. leaf_node (w i) (int i)) syms" "mset syms = mset us"
    by (rule leaf_nodes_perm)
  define ls where "ls = map HLeaf syms"
  have lsn: "length ls = n" using mset_eq_length [OF syms(2)] n by (simp add: ls_def us_def)
  have held: "held w tree2 k (ls ! k)" if "k < n" for k
  proof -
    have "tree2 ! k = take n tree2 ! k" using that by simp
    also have "\<dots> = leaf_node (w (syms ! k)) (int (syms ! k))" using that lsn by (simp add: syms(1) ls_def)
    finally show ?thesis using that lsn by (simp add: held_def ls_def leaf_node_def)
  qed
  have sumw: "(\<Sum>t\<in>#mset ls. weight w t) = (\<Sum>s\<leftarrow>us. w s)"
  proof -
    have "(\<Sum>t\<in>#mset ls. weight w t) = (\<Sum>s\<in>#mset syms. w s)" unfolding ls_def by (induction syms) simp_all
    also have "\<dots> = (\<Sum>s\<leftarrow>us. w s)" unfolding syms(2) by (simp flip: sum_mset_sum_list)
    finally show ?thesis .
  qed
  obtain pool p where mn: "merge_nodes tree2 n = (pool, p)" by (cases "merge_nodes tree2 n")
  obtain t where t: "forest ((merge_trees w ^^ (n - 1)) (ls, [])) = {#t#}" "represents pool p t" "leaves_of t = (\<Sum>t\<in>#mset ls. leaves_of t)"
    "length pool = length tree2"
    by (rule merge_nodes_tree [OF held lsn n(2) _ _ _ mn]) (use nlen room so t1 total sumw in \<open>simp_all add: us_def w_def\<close>)
  have lt: "leaves_of t = mset us"
  proof -
    have "(\<Sum>t\<in>#mset ls. leaves_of t) = mset syms" unfolding ls_def by (induction syms) simp_all
    then show ?thesis using t(3) syms(2) by simp
  qed
  have cl: "create_loop data len (int limit) c tree depth =
     (case set_depth p pool depth (int limit) of None \<Rightarrow> None
        | Some (ok, depth') \<Rightarrow> if ok then Some (pool, depth') else create_loop data len (int limit) (shl 32 c 1) pool depth')"
  proof -
    have "n \<noteq> 0" "n \<noteq> 1" using n(2) by simp_all
    then show ?thesis unfolding create_loop.simps [of data len _ c tree depth] t1(1) prod.case if_not_P tree2_def [symmetric] mn by simp
  qed
  show thesis
  proof (rule that [of t pool])
    show "leaves_of t = mset (used_symbols data len)" using lt by (simp add: us_def)
    show "length pool = length tree" using t(4) so t1(2) by simp
    show "create_loop data len (int limit) c tree depth = Some (pool, put_depths (depths_of 0 t) depth)" if "height t \<le> limit"
      unfolding cl set_depth_outcome(1) [OF t(2) lim that] by simp
    show "\<exists>depth'. create_loop data len (int limit) c tree depth = create_loop data len (int limit) (shl 32 c 1) pool depth' \<and>
       length depth' = length depth \<and> (\<forall>i<length depth. i \<notin> set (used_symbols data len) \<longrightarrow> depth' ! i = depth ! i)" if "limit < height t"
      using set_depth_outcome(2) [OF t(2) lim that, of depth] lt unfolding cl us_def [symmetric] by auto
    show "height t \<le> k" if "\<forall>s\<in>set (used_symbols data len). data ! s \<le> c" "0 < c" "n \<le> 2 ^ k" for k
    proof (rule merge_iter_balanced [OF _ that(2) lsn _ t(1) that(3)])
      have "set syms = set us" by (rule mset_eq_setD [OF syms(2)])
      then show "\<forall>t\<in>set ls. leaf_count t = 1 \<and> height t = 0 \<and> weight w t = c"
        using that(1) by (auto simp: ls_def w_def us_def)
    qed (use n in simp)
  qed
qed

section \<open>The lengths\<close>

lemma depths_leaves: "mset (map fst (depths_of d t)) = leaves_of t"
  by (induction t arbitrary: d) simp_all

lemma depths_bounds: "(s, e) \<in> set (depths_of d t) \<Longrightarrow> d \<le> e \<and> e \<le> d + height t"
  by (induction t arbitrary: d) fastforce+

lemma depths_kraft: "d + height t \<le> N \<Longrightarrow> (\<Sum>p\<leftarrow>depths_of d t. 2 ^ (N - snd p)) = (2 :: nat) ^ (N - d)"
proof (induction t arbitrary: d)
  case (HNode l r)
  have "Suc d + height l \<le> N" "Suc d + height r \<le> N" using HNode.prems by simp_all
  moreover have "N - d = Suc (N - Suc d)" using HNode.prems by simp
  ultimately show ?case using HNode.IH by simp
qed simp

lemma put_depths_nth:
  assumes "distinct (map fst xs)" "s < length depth"
  shows "put_depths xs depth ! s = (case map_of xs s of None \<Rightarrow> depth ! s | Some d \<Rightarrow> d)"
  using assms
proof (induction xs arbitrary: depth)
  case (Cons x xs)
  obtain a d where x: "x = (a, d)" by (cases x)
  have "put_depths (x # xs) depth = put_depths xs (depth[a := d])" by (simp add: put_depths_def x)
  then show ?case using Cons by (auto simp: x nth_list_update map_of_eq_None_iff image_iff split: option.splits)
qed (simp add: put_depths_def)

lemma put_depths_low: "\<forall>s\<in>set (map fst xs). s < length a \<Longrightarrow> put_depths xs (a @ b) = put_depths xs a @ b"
proof (induction xs arbitrary: a)
  case (Cons x xs)
  obtain i d where x: "x = (i, d)" by (cases x)
  have "put_depths (x # xs) c = put_depths xs (c[i := d])" for c by (simp add: put_depths_def x)
  then show ?case using Cons by (simp add: x list_update_append)
qed (simp add: put_depths_def)

lemma kraft_nth: "kraft N ds = (\<Sum>s<length ds. if ds ! s = 0 then 0 else 2 ^ (N - ds ! s))"
  unfolding kraft_def by (simp add: sum_list_sum_nth atLeast0LessThan)

lemma tree_lengths:
  assumes lv: "leaves_of t = mset us" and us: "distinct us" "\<forall>s\<in>set us. s < length depth" "2 \<le> length us"
    and zero: "\<forall>i<length depth. i \<notin> set us \<longrightarrow> depth ! i = 0" and h: "height t \<le> N"
  shows "\<forall>i<length depth. (put_depths (depths_of 0 t) depth ! i \<noteq> 0 \<longleftrightarrow> i \<in> set us) \<and> put_depths (depths_of 0 t) depth ! i \<le> N"
    and "kraft N (put_depths (depths_of 0 t) depth) = 2 ^ N"
proof -
  define xs where "xs = depths_of 0 t"
  define ds where "ds = put_depths xs depth"
  have m: "mset (map fst xs) = mset us" using depths_leaves lv by (simp add: xs_def)
  have dist: "distinct (map fst xs)" using mset_eq_imp_distinct_iff [OF m] us(1) by simp
  have set: "fst ` set xs = set us" using mset_eq_setD [OF m] by simp
  have node: "\<exists>l r. t = HNode l r"
  proof (cases t)
    case (HLeaf s)
    then show ?thesis using lv us(3) by (metis leaves_of.simps(1) size_mset size_single Suc_1 not_less_eq_eq order_refl)
  qed simp
  then obtain l r where t: "t = HNode l r" by blast
  have bounds: "1 \<le> d \<and> d \<le> N" if "(s, d) \<in> set xs" for s d
    using that depths_bounds [of s d 1] depths_bounds [of s d 0 t] h by (auto simp: xs_def t)
  have at: "ds ! s = d" if "(s, d) \<in> set xs" for s d
  proof -
    have "s < length depth" using that set us(2) by force
    moreover have "map_of xs s = Some d" using that dist by (simp add: map_of_is_SomeI)
    ultimately show ?thesis using put_depths_nth [OF dist] by (simp add: ds_def)
  qed
  have off: "ds ! s = 0" if "s < length depth" "s \<notin> set us" for s
  proof -
    have "map_of xs s = None" using that(2) set by (simp add: map_of_eq_None_iff)
    then show ?thesis using put_depths_nth [OF dist that(1)] zero that by (simp add: ds_def)
  qed
  have ld: "length ds = length depth" by (simp add: ds_def)
  show "\<forall>i<length depth. (put_depths (depths_of 0 t) depth ! i \<noteq> 0 \<longleftrightarrow> i \<in> set us) \<and> put_depths (depths_of 0 t) depth ! i \<le> N"
  proof (intro allI impI)
    fix i assume i: "i < length depth"
    show "(put_depths (depths_of 0 t) depth ! i \<noteq> 0 \<longleftrightarrow> i \<in> set us) \<and> put_depths (depths_of 0 t) depth ! i \<le> N"
    proof (cases "i \<in> set us")
      case True
      then obtain d where "(i, d) \<in> set xs" using set by force
      then show ?thesis using at bounds True by (fastforce simp: ds_def xs_def)
    next
      case False
      then show ?thesis using off [OF i] by (simp add: ds_def xs_def)
    qed
  qed
  define g where "g d = (if d = 0 then 0 else (2::nat) ^ (N - d))" for d
  have sub: "set us \<subseteq> {..<length ds}" using us(2) ld by auto
  have "kraft N ds = (\<Sum>s<length ds. g (ds ! s))" by (simp add: kraft_nth g_def)
  also have "\<dots> = (\<Sum>s\<in>set us. g (ds ! s))"
    by (rule sum.mono_neutral_right [OF _ sub]) (use off ld in \<open>simp_all add: g_def\<close>)
  also have "\<dots> = (\<Sum>p\<in>set xs. g (ds ! fst p))"
    unfolding set [symmetric] by (rule sum.reindex [unfolded comp_def]) (use dist in \<open>simp add: distinct_map\<close>)
  also have "\<dots> = (\<Sum>p\<in>set xs. 2 ^ (N - snd p))"
    by (rule sum.cong) (use at bounds in \<open>force simp: g_def\<close>)+
  also have "\<dots> = (\<Sum>p\<leftarrow>xs. 2 ^ (N - snd p))"
    using dist by (simp add: sum_list_distinct_conv_sum_set distinct_map)
  also have "\<dots> = 2 ^ N" using depths_kraft [of 0 t N] h by (simp add: xs_def)
  finally show "kraft N (put_depths (depths_of 0 t) depth) = 2 ^ N" by (simp add: ds_def xs_def)
qed

section \<open>The loop\<close>

lemma power_above:
  assumes "1 \<le> M" obtains K where "M \<le> 2 ^ K" "2 ^ K < 2 * (M :: nat)"
proof -
  have "\<exists>K. M \<le> 2 ^ K \<and> 2 ^ K < 2 * M"
    using assms
  proof (induction M rule: dec_induct)
    case base
    show ?case by (rule exI [of _ 0]) simp
  next
    case (step M)
    then obtain K where K: "M \<le> 2 ^ K" "2 ^ K < 2 * M" by blast
    show ?case
    proof (cases "M = 2 ^ K")
      case True
      then show ?thesis by (intro exI [of _ "Suc K"]) simp
    next
      case False
      then show ?thesis using K by (intro exI [of _ K]) simp
    qed
  qed
  then show thesis using that by blast
qed

lemma sum_list_bound:
  assumes "\<forall>s\<in>set xs. data ! s \<le> M" "c < 2 * M"
  shows "(\<Sum>s\<leftarrow>xs. max (data ! s) c) \<le> 2 * M * length (xs :: nat list)"
  using assms(1)
proof (induction xs)
  case (Cons x xs)
  then have m: "max (data ! x) c \<le> 2 * M" using assms(2) by auto
  have "(\<Sum>s\<leftarrow>xs. max (data ! s) c) \<le> 2 * M * length xs" using Cons by simp
  from add_mono [OF m this] show ?case by simp
qed simp

lemma create_loop_returns:
  assumes n: "n = length (used_symbols data len)" "2 \<le> n" and len: "len < 2 ^ 14" and lim: "limit \<le> 15" "n \<le> 2 ^ limit"
    and M: "\<forall>s\<in>set (used_symbols data len). data ! s \<le> M" "2 * M * n < 2 ^ 32 - 1" "M \<le> 2 ^ K" "2 ^ K < 2 * M"
    and k: "k \<le> K" and room: "2 * n + 1 \<le> length tree"
  shows "\<exists>t tree' depth'. create_loop data len (int limit) (2 ^ k) tree depth = Some (tree', put_depths (depths_of 0 t) depth') \<and>
    leaves_of t = mset (used_symbols data len) \<and> height t \<le> limit \<and> length depth' = length depth \<and>
    (\<forall>i<length depth. i \<notin> set (used_symbols data len) \<longrightarrow> depth' ! i = depth ! i)"
  using k room
proof (induction "K - k" arbitrary: k tree depth)
  case 0
  then have kK: "k = K" by simp
  note total = sum_list_bound [OF M(1,4), folded n(1)]
  show ?case
  proof (rule attempt [OF n len 0(3) lim(1), where c = "2 ^ k" and depth = depth])
    show "(\<Sum>s\<leftarrow>used_symbols data len. max (data ! s) (2 ^ k)) < 2 ^ 32 - 1" using total M(2) unfolding kK by linarith
    fix t tree'
    assume t: "leaves_of t = mset (used_symbols data len)" "length tree' = length tree"
      and ok: "height t \<le> limit \<Longrightarrow> create_loop data len (int limit) (2 ^ k) tree depth = Some (tree', put_depths (depths_of 0 t) depth)"
      and bal: "\<And>j. \<lbrakk>\<forall>s\<in>set (used_symbols data len). data ! s \<le> 2 ^ k; 0 < (2::nat) ^ k; n \<le> 2 ^ j\<rbrakk> \<Longrightarrow> height t \<le> j"
    have "\<forall>s\<in>set (used_symbols data len). data ! s \<le> 2 ^ k" using M(1,3) unfolding kK by (blast intro: le_trans)
    then have "height t \<le> limit" using bal [OF _ _ lim(2)] by simp
    then show ?thesis using ok t by blast
  qed
next
  case (Suc d)
  then have kK: "k < K" by simp
  have "(2::nat) ^ k \<le> 2 ^ K" using kK by (intro power_increasing) simp_all
  then have c: "2 ^ k < 2 * M" using M(4) by linarith
  note total = sum_list_bound [OF M(1) c, folded n(1)]
  show ?case
  proof (rule attempt [OF n len Suc(4) lim(1), where c = "2 ^ k" and depth = depth])
    show "(\<Sum>s\<leftarrow>used_symbols data len. max (data ! s) (2 ^ k)) < 2 ^ 32 - 1" using total M(2) by linarith
    fix t tree'
    assume t: "leaves_of t = mset (used_symbols data len)" "length tree' = length tree"
      and ok: "height t \<le> limit \<Longrightarrow> create_loop data len (int limit) (2 ^ k) tree depth = Some (tree', put_depths (depths_of 0 t) depth)"
      and again: "limit < height t \<Longrightarrow> \<exists>depth'. create_loop data len (int limit) (2 ^ k) tree depth =
          create_loop data len (int limit) (shl 32 (2 ^ k) 1) tree' depth' \<and> length depth' = length depth \<and>
          (\<forall>i<length depth. i \<notin> set (used_symbols data len) \<longrightarrow> depth' ! i = depth ! i)"
    show ?thesis
    proof (cases "height t \<le> limit")
      case True
      then show ?thesis using ok t by blast
    next
      case False
      then obtain depth1 where d: "create_loop data len (int limit) (2 ^ k) tree depth =
          create_loop data len (int limit) (shl 32 (2 ^ k) 1) tree' depth1" "length depth1 = length depth"
          "\<forall>i<length depth. i \<notin> set (used_symbols data len) \<longrightarrow> depth1 ! i = depth ! i"
        using again by auto
      have mn: "2 * M \<le> 2 * M * n" using n(2) by simp
      have "2 ^ k * 2 ^ 1 < (2::nat) ^ 32"
      proof -
        have "(2::nat) ^ k * 2 ^ 1 = 2 ^ Suc k" by simp
        also have "\<dots> \<le> 2 ^ K" using kK by (intro power_increasing) simp_all
        also have "\<dots> < 2 ^ 32" using M(2,4) mn by linarith
        finally show ?thesis .
      qed
      from shl_exact [OF this] have s: "shl 32 (2 ^ k) 1 = 2 ^ Suc k" by simp
      have IH: "\<exists>t tree'' depth'. create_loop data len (int limit) (2 ^ Suc k) tree' depth1 = Some (tree'', put_depths (depths_of 0 t) depth') \<and>
        leaves_of t = mset (used_symbols data len) \<and> height t \<le> limit \<and> length depth' = length depth1 \<and>
        (\<forall>i<length depth1. i \<notin> set (used_symbols data len) \<longrightarrow> depth' ! i = depth1 ! i)"
        by (rule Suc.hyps(1)) (use Suc.hyps(2) kK t(2) Suc.prems in simp_all)
      then show ?thesis unfolding d(1) s using d(2,3) by auto
    qed
  qed
qed

lemma create_tree_returns:
  assumes "len \<le> length data" "len \<le> length depth" "len < 2 ^ 14" "limit \<le> 15"
    and "n = length (filter (\<lambda>c. c \<noteq> 0) (take len data))" "2 \<le> n" "n \<le> 2 ^ limit"
    and "\<forall>i<len. data ! i \<le> M" "2 * M * n < 2 ^ 32 - 1"
    and "\<forall>i<len. data ! i \<noteq> 0 \<or> depth ! i = 0"
  shows "\<exists>tree' depth'. create_huffman_tree data len (int limit) tree depth = Some (tree', depth') \<and> length depth' = length depth \<and>
    drop len depth' = drop len depth \<and> (\<forall>i<len. (depth' ! i \<noteq> 0 \<longleftrightarrow> data ! i \<noteq> 0) \<and> depth' ! i \<le> limit) \<and>
    kraft limit (take len depth') = 2 ^ limit"
proof -
  define us where "us = used_symbols data len"
  have n: "n = length us" using length_used_symbols [OF assms(1)] assms(5) by (simp add: us_def)
  note set = used_symbols_set [of data len, folded us_def]
  have room: "2 * n + 1 \<le> length (nodes_for tree n)" by (simp add: nodes_for_def tree_capacity_def Let_def)
  have "1 \<le> M"
  proof -
    obtain s where "s \<in> set us" using n assms(6) by (cases us) auto
    then show ?thesis using set(1) assms(8) by force
  qed
  then obtain K where K: "M \<le> 2 ^ K" "2 ^ K < 2 * M" by (rule power_above)
  have le: "\<forall>s\<in>set us. data ! s \<le> M" using set(1) assms(8) by blast
  obtain t tree' depth' where t: "create_loop data len (int limit) 1 (nodes_for tree n) depth = Some (tree', put_depths (depths_of 0 t) depth')"
    "leaves_of t = mset us" "height t \<le> limit" "length depth' = length depth" "\<forall>i<length depth. i \<notin> set us \<longrightarrow> depth' ! i = depth ! i"
    using create_loop_returns [OF n [unfolded us_def] assms(6,3,4,7) le [unfolded us_def] assms(9) K _ room, of 0 depth]
    by (auto simp: us_def)
  define xs where "xs = depths_of 0 t"
  define low where "low = take len depth'"
  have ll: "length low = len" using t(4) assms(2) by (simp add: low_def)
  have zero: "\<forall>i<length low. i \<notin> set us \<longrightarrow> low ! i = 0"
    using t(4,5) assms(2,10) set(1) ll by (auto simp: low_def)
  have inb: "\<forall>s\<in>set us. s < length low" using set(1) ll by simp
  have n2: "2 \<le> length us" using n assms(6) by simp
  note tl = tree_lengths [OF t(2) set(2) inb n2 zero t(3), folded xs_def]
  have "\<forall>s\<in>set (map fst xs). s < length low" using depths_leaves [of 0 t] t(2) inb by (metis mset_eq_setD set_mset_mset xs_def)
  then have ap: "put_depths xs depth' = put_depths xs low @ drop len depth'"
    using put_depths_low [of xs low "drop len depth'"] by (simp add: low_def)
  have dr: "drop len depth' = drop len depth"
    using t(4,5) set(1) by (intro nth_equalityI) auto
  have n': "length (filter (\<lambda>c. c \<noteq> 0) (take len data)) = n" by (simp only: assms(5))
  have c: "create_huffman_tree data len (int limit) tree depth = Some (tree', put_depths xs depth')"
    unfolding create_huffman_tree_def n' xs_def by (rule t(1))
  have "\<forall>i<len. (put_depths xs depth' ! i \<noteq> 0 \<longleftrightarrow> data ! i \<noteq> 0) \<and> put_depths xs depth' ! i \<le> limit"
    unfolding ap using tl(1) set(1) ll by (simp add: nth_append)
  moreover have "drop len (put_depths xs depth') = drop len depth" "take len (put_depths xs depth') = put_depths xs low"
    unfolding ap using ll by (simp_all add: dr)
  ultimately show ?thesis
    using c tl(2) t(4) by (intro exI [of _ tree'] exI [of _ "put_depths xs depth'"]) simp
qed

text \<open>
  C29 (termination). The depth-limited construction ends and is complete: for a histogram with at
  least two used symbols, no more than the limit can hold and counts that do not overflow, the
  loop returns; exactly the used symbols get a length, none above the limit, and the lengths fill
  the code space.
\<close>

theorem create_huffman_tree_complete:
  assumes "len \<le> length data" "len \<le> length depth" "len < 2 ^ 14" "limit \<le> 15"
    and "n = length (filter (\<lambda>c. c \<noteq> 0) (take len data))" "2 \<le> n" "n \<le> 2 ^ limit"
    and "\<forall>i<len. data ! i \<le> M" "2 * M * n < 2 ^ 32 - 1"
    and "\<forall>i<len. data ! i \<noteq> 0 \<or> depth ! i = 0"
  shows "\<exists>tree' depth'. create_huffman_tree data len (int limit) tree depth = Some (tree', depth') \<and> length depth' = length depth \<and>
    drop len depth' = drop len depth \<and> (\<forall>i<len. (depth' ! i \<noteq> 0 \<longleftrightarrow> data ! i \<noteq> 0) \<and> depth' ! i \<le> limit) \<and>
    kraft limit (take len depth') = 2 ^ limit"
  using assms by (rule create_tree_returns)

theorem create_huffman_tree_complete_witness:
  "\<exists>tree depth. create_huffman_tree [1, 0, 3, 1] 4 15 [] [0, 0, 0, 0] = Some (tree, depth) \<and> kraft 15 (take 4 depth) = 2 ^ 15 \<and> depth ! 1 = 0"
proof -
  have "\<forall>i<4. [1, 0, 3, 1] ! i \<le> (3::nat)" by (simp add: numeral_eq_Suc All_less_Suc)
  moreover have "\<forall>i<4. [1, 0, 3, 1 :: nat] ! i \<noteq> 0 \<or> [0, 0, 0, 0 :: nat] ! i = 0"
    by (simp add: numeral_eq_Suc All_less_Suc)
  ultimately obtain tree depth where d: "create_huffman_tree [1, 0, 3, 1] 4 (int 15) [] [0, 0, 0, 0] = Some (tree, depth)"
    "\<forall>i<4. (depth ! i \<noteq> 0 \<longleftrightarrow> [1, 0, 3, 1 :: nat] ! i \<noteq> 0)" "kraft 15 (take 4 depth) = 2 ^ 15"
    using create_huffman_tree_complete [of 4 "[1, 0, 3, 1]" "[0, 0, 0, 0]" 15 3 3 "[]"] by auto
  from d(2) [rule_format, of 1] have "depth ! 1 = 0" by simp
  with d(1,3) show ?thesis by auto
qed

end
