(* ===== verification/Description_Writer.thy ===== *)
theory Description_Writer
  imports Code_Bits Code_Complete Bit_Writer Simple_Codes
begin

unbundle bit_operations_syntax

text \<open>
  The writer of prefix-code descriptions (\<open>store_code_length_code\<close>, \<open>store_huffman_tree\<close>,
  \<open>store_simple_code\<close> and \<open>build_and_store_huffman_tree\<close> of \<open>shared/huffman.rs\<close>). The node pool,
  the depths, the bit patterns and the bit writer are threaded through; the tree builder's loop makes
  the two builders partial, so they return \<open>None\<close> when it would not end. What they write is given
  as a bit list, which the theories of the reader take up.
\<close>

section \<open>The code-length code\<close>

definition STORAGE_ORDER :: "nat list" where
  "STORAGE_ORDER = [1, 2, 3, 4, 0, 5, 17, 6, 16, 7, 8, 9, 10, 11, 12, 13, 14, 15]"

definition CODE_LENGTH_HUFFMAN_SYMBOLS :: "nat list" where
  "CODE_LENGTH_HUFFMAN_SYMBOLS = [0, 7, 3, 2, 1, 15]"

definition CODE_LENGTH_HUFFMAN_DEPTHS :: "nat list" where
  "CODE_LENGTH_HUFFMAN_DEPTHS = [2, 4, 3, 2, 2, 4]"

fun trim_codes :: "nat list \<Rightarrow> nat \<Rightarrow> nat" where
  "trim_codes bitdepth 0 = 0"
| "trim_codes bitdepth (Suc n) = (if bitdepth ! (STORAGE_ORDER ! n) \<noteq> 0 then Suc n else trim_codes bitdepth n)"

definition codes_to_store :: "nat \<Rightarrow> nat list \<Rightarrow> nat" where
  "codes_to_store num_codes bitdepth =
     (if num_codes > 1 then trim_codes bitdepth CODE_LENGTH_CODES else CODE_LENGTH_CODES)"

definition skip_some :: "nat list \<Rightarrow> nat" where
  "skip_some bitdepth =
     (if bitdepth ! (STORAGE_ORDER ! 0) = 0 \<and> bitdepth ! (STORAGE_ORDER ! 1) = 0 then
        (if bitdepth ! (STORAGE_ORDER ! 2) = 0 then 3 else 2)
      else 0)"

definition store_length :: "nat list \<Rightarrow> nat \<Rightarrow> bit_writer \<Rightarrow> bit_writer" where
  "store_length bitdepth order w =
     (let l = bitdepth ! order in write_bits (CODE_LENGTH_HUFFMAN_DEPTHS ! l) (CODE_LENGTH_HUFFMAN_SYMBOLS ! l) w)"

definition store_code_length_code :: "nat \<Rightarrow> nat list \<Rightarrow> bit_writer \<Rightarrow> bit_writer" where
  "store_code_length_code num_codes bitdepth w =
     (let skip = skip_some bitdepth in
      fold (store_length bitdepth) (drop skip (take (codes_to_store num_codes bitdepth) STORAGE_ORDER))
        (write_bits 2 skip w))"

section \<open>The run-length coded form\<close>

definition length_histogram :: "runs \<Rightarrow> nat list" where
  "length_histogram runs = fold (\<lambda>(symbol, extra) h. h[symbol := h ! symbol + 1]) runs (replicate CODE_LENGTH_CODES 0)"

text \<open>The scan for one or several used symbols; it stops at the second.\<close>

fun count_codes :: "nat list \<Rightarrow> nat \<Rightarrow> nat \<times> nat \<Rightarrow> nat \<times> nat" where
  "count_codes [] i st = st"
| "count_codes (occurs # counts) i (num_codes, code) =
     (if occurs \<noteq> 0 then (if num_codes = 0 then count_codes counts (i + 1) (1, i) else (2, code))
      else count_codes counts (i + 1) (num_codes, code))"

definition store_run :: "nat list \<Rightarrow> nat list \<Rightarrow> nat \<times> nat \<Rightarrow> bit_writer \<Rightarrow> bit_writer" where
  "store_run bitdepth symbols p w = (case p of (ix, extra) \<Rightarrow>
     let w1 = write_bits (bitdepth ! ix) (symbols ! ix) w
     in if ix = REPEAT_PREVIOUS_CODE_LENGTH then write_bits 2 extra w1
        else if ix = REPEAT_ZERO_CODE_LENGTH then write_bits 3 extra w1 else w1)"

definition store_huffman_tree :: "nat list \<Rightarrow> nat \<Rightarrow> node list \<Rightarrow> bit_writer \<Rightarrow> (node list \<times> bit_writer) option" where
  "store_huffman_tree depths num tree w =
     (let runs = write_huffman_tree depths num;
          histogram = length_histogram runs;
          (num_codes, code) = count_codes histogram 0 (0, 0)
      in case create_huffman_tree histogram CODE_LENGTH_CODES 5 tree (replicate CODE_LENGTH_CODES 0) of
           None \<Rightarrow> None
         | Some (tree', bitdepth) \<Rightarrow>
             let symbols = convert_bit_depths_to_symbols bitdepth CODE_LENGTH_CODES (replicate CODE_LENGTH_CODES 0);
                 w1 = store_code_length_code num_codes bitdepth w;
                 bitdepth' = (if num_codes = 1 then bitdepth[code := 0] else bitdepth)
             in Some (tree', fold (store_run bitdepth' symbols) runs w1))"

section \<open>The simple form\<close>

definition swap_symbols :: "nat list \<Rightarrow> nat \<Rightarrow> nat \<Rightarrow> nat list \<Rightarrow> nat list" where
  "swap_symbols depth i j symbols =
     (if depth ! (symbols ! j) < depth ! (symbols ! i) then symbols[i := symbols ! j, j := symbols ! i] else symbols)"

definition order_symbols :: "nat list \<Rightarrow> nat \<Rightarrow> nat list \<Rightarrow> nat list" where
  "order_symbols depth used symbols = fold (\<lambda>i. fold (swap_symbols depth i) [i + 1..<used]) [0..<used] symbols"

definition store_simple_code :: "nat list \<Rightarrow> nat list \<Rightarrow> nat \<Rightarrow> nat \<Rightarrow> bit_writer \<Rightarrow> bit_writer" where
  "store_simple_code depth symbols used max_bits w =
     (let w1 = write_bits 2 (used - 1) (write_bits 2 1 w);
          symbols' = order_symbols depth used symbols;
          w2 = fold (write_bits max_bits) (take used symbols') w1
      in if used = 4 then write_bits 1 (of_bool (depth ! (symbols' ! 0) = 1)) w2 else w2)"

section \<open>The whole description\<close>

fun collect_symbols :: "nat list \<Rightarrow> nat \<Rightarrow> nat \<times> nat list \<Rightarrow> nat \<times> nat list" where
  "collect_symbols [] symbol st = st"
| "collect_symbols (occurrences # histogram) symbol (used, symbols) =
     (if occurrences \<noteq> 0 then
        (if used < 4 then collect_symbols histogram (symbol + 1) (used + 1, symbols[used := symbol])
         else if used > 4 then (used, symbols)
         else collect_symbols histogram (symbol + 1) (used + 1, symbols))
      else collect_symbols histogram (symbol + 1) (used, symbols))"

function width_loop :: "nat \<Rightarrow> nat \<Rightarrow> nat" where
  "width_loop counter max_bits = (if counter \<noteq> 0 then width_loop (shr counter 1) (max_bits + 1) else max_bits)"
  by pat_completeness auto
termination by (relation "measure fst") (auto simp: shr_def drop_bit_eq_div)

declare width_loop.simps [simp del]

definition build_and_store_huffman_tree ::
    "nat list \<Rightarrow> nat \<Rightarrow> nat \<Rightarrow> node list \<Rightarrow> nat list \<Rightarrow> nat list \<Rightarrow> bit_writer \<Rightarrow>
     (node list \<times> nat list \<times> nat list \<times> bit_writer) option" where
  "build_and_store_huffman_tree histogram histogram_length alphabet_size tree depth bits w =
     (let (used, symbols) = collect_symbols (take histogram_length histogram) 0 (0, replicate 4 0);
          max_bits = width_loop (alphabet_size - 1) 0
      in if used \<le> 1 then
           Some (tree, depth[symbols ! 0 := 0], bits[symbols ! 0 := 0],
             write_bits max_bits (symbols ! 0) (write_bits 4 1 w))
         else
           (case create_huffman_tree histogram histogram_length 15 tree
                   (replicate histogram_length 0 @ drop histogram_length depth) of
              None \<Rightarrow> None
            | Some (tree', depth') \<Rightarrow>
                let bits' = convert_bit_depths_to_symbols depth' histogram_length bits
                in if used \<le> 4 then Some (tree', depth', bits', store_simple_code depth' symbols used max_bits w)
                   else (case store_huffman_tree depth' histogram_length tree' w of
                           None \<Rightarrow> None
                         | Some (tree2, w') \<Rightarrow> Some (tree2, depth', bits', w'))))"

end
