(* ===== verification/Description_Decoding.thy ===== *)
theory Description_Decoding
  imports Description_Safety Length_Runs
begin

unbundle bit_operations_syntax

text \<open>
  What the description reader makes of a well-formed description, stage by stage: the lengths of the
  code-length code in their fixed variable-length form, and a run-length form written with any
  prefix code for its symbols. These are the facts the writer's round trip rests on; they say
  nothing of how the bits were produced.
\<close>

section \<open>The code-length code\<close>

text \<open>The fixed code of the code-length code's lengths: the bits of a length of at most five.\<close>

definition length_bits :: "nat \<Rightarrow> bool list" where
  "length_bits l = bits_of_nat ([2, 4, 3, 2, 2, 4] ! l) ([0, 7, 3, 2, 1, 15] ! l)"

lemma length_bits_cases:
  assumes "l \<le> 5"
  obtains "l = 0" "length_bits l = [False, False]" | "l = 1" "length_bits l = [True, True, True, False]"
    | "l = 2" "length_bits l = [True, True, False]" | "l = 3" "length_bits l = [False, True]"
    | "l = 4" "length_bits l = [True, False]" | "l = 5" "length_bits l = [True, True, True, True]"
proof -
  have "l = 0 \<or> l = 1 \<or> l = 2 \<or> l = 3 \<or> l = 4 \<or> l = 5" using assms by linarith
  then show ?thesis using that by (auto simp: length_bits_def bit_eval)
qed

lemma peek_length_reads:
  assumes ok: "reader_ok s" and str: "stream s = length_bits l @ rest" and l: "l \<le> 5"
  obtains w s' where "peek_length s = (Inr (Some (w, l)), s')" "reader_ok (discard w s')" "stream (discard w s') = rest"
    "same_call s (discard w s')"
proof -
  have lo: "reader_ok (loaded n t)" "stream (loaded n t) = stream t" "same_call t (loaded n t)"
      "n \<le> length (stream t) \<Longrightarrow> n \<le> buffered (loaded n t)"
    if "reader_ok t" "n \<le> 56" for n t
    using peek_eq [of t n] that by (simp_all add: MAX_PEEK_def)
  let ?t2 = "loaded 2 s" and ?t3 = "loaded 3 (loaded 2 s)" and ?t4 = "loaded 4 (loaded 3 (loaded 2 s))"
  note l2 = lo [OF ok, of 2, simplified]
  note l3 = lo [OF l2(1), of 3, simplified]
  note l4 = lo [OF l3(1), of 4, simplified]
  have sc: "same_call s ?t3" "same_call s ?t4" using l2(3) l3(3) l4(3) same_call_trans by blast+
  have two: "need (peek 2 s) k = k (nat_of_bits [a, b]) ?t2" if "stream s = a # b # xs"
    for a b xs and k :: "nat \<Rightarrow> reader \<Rightarrow> (decode_error + (nat \<times> nat) option) \<times> reader"
    by (rule need_peek_list [OF ok, of "[a, b]" xs]) (simp_all add: that)
  have three: "need (peek 3 ?t2) k = k (nat_of_bits [a, b, c]) ?t3" if "stream s = a # b # c # xs"
    for a b c xs and k :: "nat \<Rightarrow> reader \<Rightarrow> (decode_error + (nat \<times> nat) option) \<times> reader"
    by (rule need_peek_list [OF l2(1), of "[a, b, c]" xs]) (simp_all add: that l2(2))
  have four: "need (peek 4 ?t3) k = k (nat_of_bits [a, b, c, d]) ?t4" if "stream s = a # b # c # d # xs"
    for a b c d xs and k :: "nat \<Rightarrow> reader \<Rightarrow> (decode_error + (nat \<times> nat) option) \<times> reader"
    by (rule need_peek_list [OF l3(1), of "[a, b, c, d]" xs]) (simp_all add: that l2(2) l3(2))
  have fin: "reader_ok (discard w t) \<and> stream (discard w t) = rest \<and> same_call s (discard w t)"
    if "reader_ok t" "stream t = stream s" "same_call s t" "w = length (length_bits l)" "w \<le> buffered t" for w t
    using discard_ok [OF that(1,5)] discard_stream [OF that(5)] that(2-4) str same_call_trans [OF that(3) discard_same_call] by simp
  show thesis
    using l
  proof (cases rule: length_bits_cases)
    case 1
    then show thesis
      using that [of 2 ?t2] fin [of ?t2 2] l2 two [of False False rest] str by (simp add: peek_length_def)
  next
    case 2
    then show thesis
      using that [of 4 ?t4] fin [of ?t4 4] l2(2) l3(2) l4 sc str two [of True True "True # False # rest"] three [of True True True "False # rest"]
        four [of True True True False rest] by (simp add: peek_length_def)
  next
    case 3
    then show thesis
      using that [of 3 ?t3] fin [of ?t3 3] l2(2) l3 sc str two [of True True "False # rest"] three [of True True False rest]
      by (simp add: peek_length_def)
  next
    case 4
    then show thesis
      using that [of 2 ?t2] fin [of ?t2 2] l2 two [of False True rest] str by (simp add: peek_length_def)
  next
    case 5
    then show thesis
      using that [of 2 ?t2] fin [of ?t2 2] l2 two [of True False rest] str by (simp add: peek_length_def)
  next
    case 6
    then show thesis
      using that [of 4 ?t4] fin [of ?t4 4] l2(2) l3(2) l4 sc str two [of True True "True # True # rest"] three [of True True True "True # rest"]
        four [of True True True True rest] by (simp add: peek_length_def)
  qed
qed

text \<open>The array of lengths after the first \<open>j\<close> of the storage order have been read.\<close>

definition read_so_far :: "nat list \<Rightarrow> nat \<Rightarrow> nat list" where
  "read_so_far ds j = map (\<lambda>i. if i \<in> set (take j ORDER) then ds ! i else 0) [0..<18]"

definition used_lengths :: "nat list \<Rightarrow> nat" where
  "used_lengths ds = length (filter (\<lambda>d. d \<noteq> 0) ds)"

lemma used_lengths_update:
  "i < length ds \<Longrightarrow> ds ! i = 0 \<Longrightarrow> used_lengths (ds[i := d]) = used_lengths ds + (if d \<noteq> 0 then 1 else 0)"
proof (induction ds arbitrary: i)
  case (Cons x ds)
  then show ?case by (cases i) (auto simp: used_lengths_def)
qed simp

lemma ORDER_set: "set ORDER = {..<18}" "length ORDER = 18" "distinct ORDER"
proof -
  show "length ORDER = 18" "distinct ORDER" by (simp_all add: ORDER_def)
  then have "card (set ORDER) = card {..<18::nat}" by (simp only: distinct_card card_lessThan)
  moreover have "set ORDER \<subseteq> {..<18}" by (simp add: ORDER_def)
  ultimately show "set ORDER = {..<18}" by (intro card_subset_eq) simp_all
qed

lemma read_so_far_length [simp]: "length (read_so_far ds j) = 18"
  by (simp add: read_so_far_def)

lemma read_so_far_0 [simp]: "read_so_far ds 0 = replicate 18 0"
  by (rule nth_equalityI) (simp_all add: read_so_far_def)

lemma read_so_far_all: "length ds = 18 \<Longrightarrow> read_so_far ds 18 = ds"
  using ORDER_set by (intro nth_equalityI) (auto simp: read_so_far_def)

lemma read_so_far_Suc:
  assumes "j < 18"
  shows "read_so_far ds (Suc j) = (read_so_far ds j)[ORDER ! j := ds ! (ORDER ! j)]" "read_so_far ds j ! (ORDER ! j) = 0"
proof -
  have t: "take (Suc j) ORDER = take j ORDER @ [ORDER ! j]" using assms ORDER_set(2) by (simp add: take_Suc_conv_app_nth)
  show "read_so_far ds (Suc j) = (read_so_far ds j)[ORDER ! j := ds ! (ORDER ! j)]"
    using ORDER_nth(1) [OF assms] by (intro nth_equalityI; (simp add: read_so_far_def t nth_list_update))
  have "ORDER ! j \<notin> set (take j ORDER)"
  proof
    assume "ORDER ! j \<in> set (take j ORDER)"
    then obtain i where "i < j" "ORDER ! i = ORDER ! j" using assms ORDER_set(2) by (auto simp: in_set_conv_nth)
    then show False using ORDER_nth(2) [of i j] assms by simp
  qed
  then show "read_so_far ds j ! (ORDER ! j) = 0" using ORDER_nth(1) [OF assms] by (simp add: read_so_far_def)
qed

text \<open>The builder the code-length stage leaves.\<close>

definition symbols_start :: "nat list \<Rightarrow> builder \<Rightarrow> builder" where
  "symbols_start ds b = (clear (b\<lparr>b_code := length_code_build ds (used_lengths ds)\<rparr>))
     \<lparr>b_index := 0, b_space := 32768, b_previous := 8, b_repeat := 0, b_repeat_length := 0, b_stage := Symbols\<rparr>"

definition length_fields :: "builder \<Rightarrow> nat list \<Rightarrow> nat \<Rightarrow> bool" where
  "length_fields b ds j \<longleftrightarrow> b_index b = j \<and> b_small b = read_so_far ds j \<and>
     b_space b = 32 - int (kraft LENGTH_BITS (read_so_far ds j)) \<and> b_count b = used_lengths (read_so_far ds j)"

lemma shr_32: "v \<le> LENGTH_BITS \<Longrightarrow> shr 32 v = 2 ^ (LENGTH_BITS - v)"
proof -
  assume v: "v \<le> LENGTH_BITS"
  have "(32::nat) = 2 ^ (LENGTH_BITS - v) * 2 ^ v" using v by (simp flip: power_add add: LENGTH_BITS_def)
  then show ?thesis unfolding shr_def drop_bit_eq_div by (metis nonzero_mult_div_cancel_right power_not_zero zero_neq_numeral)
qed

lemma code_lengths_read:
  assumes "length ds = 18" "\<forall>d\<in>set ds. d \<le> LENGTH_BITS" "n \<le> 18" "read_so_far ds n = ds"
    "\<forall>k<n. kraft LENGTH_BITS (read_so_far ds k) < 32" "kraft LENGTH_BITS ds = 32 \<or> used_lengths ds = 1 \<and> n = 18 \<and> kraft LENGTH_BITS ds < 32"
    and "j \<le> n" "length_fields b ds j" "reader_ok s" "stream s = concat (map (\<lambda>i. length_bits (ds ! i)) (drop j (take n ORDER))) @ rest"
  shows "\<exists>b1 s'. code_lengths (b, s) = (Inr True, symbols_start ds b1, s') \<and> reader_ok s' \<and> stream s' = rest \<and> same_call s s' \<and>
    b_next b1 = b_next b \<and> b_small b1 = ds \<and> b_symbols b1 = b_symbols b"
  using assms(7-)
proof (induction "n - j" arbitrary: j b s)
  case 0
  then have j: "j = n" by simp
  note f = "0.prems"(2) [unfolded length_fields_def j assms(4)]
  have "\<not> (b_index b < 18 \<and> b_space b > 0)" "\<not> (b_space b < 0 \<or> b_count b \<noteq> 1 \<and> b_space b \<noteq> 0)" using f assms(3,6) by auto
  from code_lengths.simps [of b s, unfolded if_not_P [OF this(1)] if_not_P [OF this(2)]]
  have "code_lengths (b, s) = (Inr True, symbols_start ds b, s)" using f by (simp add: symbols_start_def)
  moreover have "drop j (take n ORDER) = []" using j ORDER_set(2) by simp
  ultimately show ?case using "0.prems"(3,4) f by auto
next
  case (Suc d)
  have j: "j < n" "j < 18" using Suc.hyps(2) assms(3) by simp_all
  note f = Suc.prems(2) [unfolded length_fields_def]
  define v where "v = ds ! (ORDER ! j)"
  have o18: "ORDER ! j < 18" by (rule ORDER_nth(1) [OF j(2)])
  then have v: "v \<le> LENGTH_BITS" using assms(1,2) nth_mem [of "ORDER ! j" ds] by (simp add: v_def)
  have dr: "drop j (take n ORDER) = ORDER ! j # drop (Suc j) (take n ORDER)"
    using j assms(3) ORDER_set(2) by (subst Cons_nth_drop_Suc [symmetric]) simp_all
  have str: "stream s = length_bits v @ concat (map (\<lambda>i. length_bits (ds ! i)) (drop (Suc j) (take n ORDER))) @ rest"
    using Suc.prems(4) by (simp add: dr v_def)
  have "v \<le> 5" using v by (simp add: LENGTH_BITS_def)
  then obtain w s1 where pl: "peek_length s = (Inr (Some (w, v)), s1)" and s1: "reader_ok (discard w s1)"
    "stream (discard w s1) = concat (map (\<lambda>i. length_bits (ds ! i)) (drop (Suc j) (take n ORDER))) @ rest" "same_call s (discard w s1)"
    by (rule peek_length_reads [OF Suc.prems(3) str])
  define b1 where "b1 = b\<lparr>b_small := (b_small b)[ORDER ! b_index b := v], b_index := b_index b + 1,
                  b_count := b_count b + (if v \<noteq> 0 then 1 else 0),
                  b_space := b_space b - (if v \<noteq> 0 then int (shr 32 v) else 0)\<rparr>"
  have go: "b_index b < 18 \<and> b_space b > 0" using f j assms(5) by auto
  have "code_lengths (b, s) = code_lengths (b1, discard w s1)"
    using code_lengths.simps [of b s, unfolded if_P [OF go]] pl by (simp add: b1_def)
  moreover have "length_fields b1 ds (Suc j)"
    unfolding length_fields_def b1_def using f o18 read_so_far_Suc [OF j(2), of ds]
    by (simp add: kraft_update used_lengths_update shr_32 [OF v] v_def [symmetric])
  moreover have "b_next b1 = b_next b" "b_symbols b1 = b_symbols b" by (simp_all add: b1_def)
  moreover have "d = n - Suc j" "Suc j \<le> n" using Suc.hyps(2) j by simp_all
  note IH = Suc.hyps(1) [OF this]
  ultimately obtain b2 s' where "code_lengths (b1, discard w s1) = (Inr True, symbols_start ds b2, s')" "reader_ok s'" "stream s' = rest"
    "same_call (discard w s1) s'" "b_next b2 = b_next b" "b_small b2 = ds" "b_symbols b2 = b_symbols b"
    using IH [OF _ s1(1,2)] by metis
  then show ?case
    using \<open>code_lengths (b, s) = code_lengths (b1, discard w s1)\<close> same_call_trans [OF s1(3)] by auto
qed

section \<open>The run-length form\<close>

lemma field_read:
  assumes "reader_ok s" "stream s = bits_of_nat n v @ rest" "v < 2 ^ n" "n \<le> 56"
  obtains s' where "read n s = (Inr (Some v), s')" "reader_ok s'" "stream s' = rest" "same_call s s'"
  by (rule read_bits [OF assms(1,2) length_bits_of_nat assms(4)]) (use assms(3) that in simp)

definition run_bits :: "(nat \<Rightarrow> bool list) \<Rightarrow> nat \<times> nat \<Rightarrow> bool list" where
  "run_bits W p = W (fst p) @ (if fst p = 16 then bits_of_nat 2 (snd p) else if fst p = 17 then bits_of_nat 3 (snd p) else [])"

text \<open>The builder in the symbol stage holds the expansion of what was read.\<close>

definition mirrors :: "nat \<Rightarrow> expansion \<Rightarrow> builder \<Rightarrow> bool" where
  "mirrors alph e b \<longleftrightarrow> reading alph (lengths e) b \<and> b_previous b = prev e \<and> b_repeat b = run_count e \<and>
     b_repeat_length b = run_value e"

definition same_arrays :: "builder \<Rightarrow> builder \<Rightarrow> bool" where
  "same_arrays b b' \<longleftrightarrow> b_code b' = b_code b \<and> b_stage b' = b_stage b \<and> b_small b' = b_small b \<and> b_symbols b' = b_symbols b"

lemma expand_symbol_grows:
  assumes "run_pair_ok p"
  obtains ys where "lengths (expand_symbol e p) = lengths e @ ys" "ys \<noteq> []"
proof -
  obtain symbol extra where p: "p = (symbol, extra)" by (cases p)
  show thesis
  proof (cases "symbol < 16")
    case True
    then show thesis using that by (simp add: expand_symbol_def p)
  next
    case False
    then have "symbol = 16 \<or> symbol = 17" using assms by (auto simp: run_pair_ok_def p)
    note pos = repeat_delta_pos [OF this]
    define v where "v = (if symbol = 16 then prev e else 0)"
    define before where "before = (if run_value e \<noteq> v then 0 else run_count e)"
    have "lengths (expand_symbol e p) = lengths e @ replicate (repeat_delta symbol extra before) v"
      using False by (simp add: expand_symbol_def p Let_def repeat_delta_def v_def before_def)
    moreover have "replicate (repeat_delta symbol extra before) v \<noteq> []"
      unfolding replicate_empty using pos [of extra before] by (rule less_imp_neq [symmetric])
    ultimately show thesis by (rule that)
  qed
qed

lemma expand_grows:
  assumes "\<forall>p\<in>set rs. run_pair_ok p"
  obtains ys where "lengths (expand e rs) = lengths e @ ys" "ys = [] \<longleftrightarrow> rs = []"
  using assms
proof (induction rs arbitrary: e thesis)
  case (Cons p rs)
  obtain xs where xs: "lengths (expand_symbol e p) = lengths e @ xs" "xs \<noteq> []" using expand_symbol_grows Cons.prems(2) by (metis list.set_intros(1))
  obtain ys where "lengths (expand (expand_symbol e p) rs) = lengths (expand_symbol e p) @ ys" using Cons.IH [of "expand_symbol e p"] Cons.prems(2) by auto
  with xs show ?case by (intro Cons.prems(1) [of "xs @ ys"]) (simp_all add: expand_Cons)
qed simp

lemma plain_mirrors:
  assumes "mirrors alph e b" "symbol < 16" "length (lengths e) < alph"
  shows "mirrors alph (expand_symbol e (symbol, extra)) (plain_length symbol b)" "same_arrays b (plain_length symbol b)"
proof -
  have r: "reading alph (lengths e @ [symbol]) (plain_length symbol b)"
    using plain_length_reading assms unfolding mirrors_def by blast
  then show "mirrors alph (expand_symbol e (symbol, extra)) (plain_length symbol b)"
    using assms unfolding mirrors_def expand_symbol_def by (simp add: plain_length_def Let_def)
  show "same_arrays b (plain_length symbol b)" by (simp add: same_arrays_def plain_length_def Let_def)
qed

lemma repeat_mirrors:
  assumes m: "mirrors alph e b" and sy: "symbol = 16 \<or> symbol = 17"
    and room: "length (lengths (expand_symbol e (symbol, extra))) \<le> alph"
  obtains b' where "repeat_field alph symbol extra b = (Inr (), b')" "mirrors alph (expand_symbol e (symbol, extra)) b'" "same_arrays b b'"
proof -
  define len b1 where "len = fst (repeat_before symbol b)" and "b1 = snd (repeat_before symbol b)"
  have rb: "repeat_before symbol b = (len, b1)" by (simp add: len_def b1_def)
  define before where "before = b_repeat b1"
  define delta where "delta = repeat_delta symbol extra before"
  define all where "all = (if before = 0 then 0 else push_bit (symbol - 14) (before - 2)) + extra + 3"
  have l: "len = (if symbol = 16 then prev e else 0)" and bf: "before = (if run_value e \<noteq> len then 0 else run_count e)"
    and b1: "b_index b1 = b_index b" "b_repeat_length b1 = len" "b_previous b1 = b_previous b"
    using m by (auto simp: repeat_before_def Let_def len_def b1_def before_def mirrors_def)
  have ns: "\<not> symbol < 16" using sy by auto
  have ex: "expand_symbol e (symbol, extra) = e\<lparr>lengths := lengths e @ replicate delta len, run_value := len, run_count := all\<rparr>"
    using ns by (simp add: expand_symbol_def Let_def l bf delta_def repeat_delta_def all_def)
  have ix: "b_index b = length (lengths e)" using m readingD(2) by (auto simp: mirrors_def)
  have fit: "\<not> b_index b1 + delta > alph" using room by (simp add: ex b1(1) ix)
  define b' where "b' = (if len \<noteq> 0 then (push_run (b_index b1) (b_index b1 + delta) len (b1\<lparr>b_repeat := all\<rparr>))\<lparr>b_space := b_space b1 - push_bit (15 - len) (int delta)\<rparr>
      else b1\<lparr>b_repeat := all\<rparr>)\<lparr>b_index := b_index b1 + delta\<rparr>"
  have da: "delta = all - before" by (simp add: delta_def all_def repeat_delta_def)
  have rf: "repeat_field alph symbol extra b = (Inr (), b')"
    using fit unfolding repeat_field_def rb prod.case Let_def before_def [symmetric] all_def [symmetric] da [symmetric] b'_def by simp
  have rm: "reading alph (lengths e) b" using m by (simp add: mirrors_def)
  from repeat_field_reading [OF rm sy, of extra]
  have "reading alph (lengths e @ replicate delta len) b'" "same_arrays b b'"
    unfolding rf by (simp_all add: Let_def len_def [symmetric] b1_def [symmetric] before_def [symmetric] delta_def [symmetric] same_arrays_def)
  moreover have "b_previous b' = b_previous b" "b_repeat b' = all" "b_repeat_length b' = len"
    using b1 by (simp_all add: b'_def)
  ultimately show thesis using m by (intro that [OF rf]) (simp_all add: ex mirrors_def)
qed

lemma same_arrays_trans: "same_arrays a b \<Longrightarrow> same_arrays b c \<Longrightarrow> same_arrays a c"
  by (simp add: same_arrays_def)

lemma code_symbols_step:
  assumes m: "mirrors alph e b" and p: "run_pair_ok p" and room: "length (lengths (expand_symbol e p)) \<le> alph"
    and sp: "b_space b > 0" and st: "b_stage b = Symbols" and ok: "reader_ok s"
    and C: "prefix_code C" "length_carries (b_code b) C" "(W (fst p), fst p) \<in> C" and str: "stream s = run_bits W p @ rest"
  obtains b' s' where "code_symbols alph (b, s) = code_symbols alph (b', s')" "mirrors alph (expand_symbol e p) b'" "same_arrays b b'"
    "reader_ok s'" "stream s' = rest" "same_call s s'"
proof -
  obtain symbol extra where pe: "p = (symbol, extra)" by (cases p)
  obtain ys where "lengths (expand_symbol e p) = lengths e @ ys" "ys \<noteq> []" by (rule expand_symbol_grows [OF p])
  then have lt: "length (lengths e) < alph" using room by (cases ys) simp_all
  have ix: "b_index b = length (lengths e)" using m readingD(2) by (auto simp: mirrors_def)
  have go: "\<not> b_space b = 0" "\<not> (b_space b < 0 \<or> b_index b \<ge> alph)" using sp lt ix by simp_all
  note unf = code_symbols.simps [of alph b s, unfolded if_not_P [OF go(1)] if_not_P [OF go(2)]]
  have in_C: "(W symbol, symbol) \<in> C" using C(3) by (simp add: pe)
  define tail where "tail = (if symbol = 16 then bits_of_nat 2 extra else if symbol = 17 then bits_of_nat 3 extra else []) @ rest"
  have "stream s = W symbol @ tail" using str by (simp add: pe run_bits_def tail_def)
  then obtain s1 where dec: "length_decode (b_code b) s = (Inr (Some symbol), s1)" "reader_ok s1" "stream s1 = tail" "same_call s s1"
    by (rule lengths.need_symbol [OF ok C(1,2) in_C])
  show thesis
  proof (cases "symbol < 16")
    case True
    then have "stream s1 = rest" using dec(3) by (simp add: tail_def)
    moreover have "code_symbols alph (b, s) = code_symbols alph (plain_length symbol b, s1)"
      unfolding unf dec(1) using True by simp
    ultimately show thesis using that plain_mirrors [OF m True lt] dec by (metis pe)
  next
    case False
    then have sy: "symbol = 16 \<or> symbol = 17" using p by (auto simp: run_pair_ok_def pe)
    have ex: "extra < 2 ^ (symbol - 14)" using p sy by (auto simp: run_pair_ok_def pe)
    have "tail = bits_of_nat (symbol - 14) extra @ rest" using sy by (auto simp: tail_def)
    then have "stream s1 = bits_of_nat (symbol - 14) extra @ rest" using dec(3) by simp
    moreover have "symbol - 14 \<le> 56" using sy by auto
    ultimately obtain s2 where rd: "read (symbol - 14) s1 = (Inr (Some extra), s2)"
      "reader_ok s2" "stream s2 = rest" "same_call s1 s2" by (rule field_read [OF dec(2) _ ex])
    have b: "b\<lparr>b_stage := Symbols\<rparr> = b" using st by simp
    from room have room': "length (lengths (expand_symbol e (symbol, extra))) \<le> alph" by (simp only: pe)
    obtain b' where rf: "repeat_field alph symbol extra b = (Inr (), b')" "mirrors alph (expand_symbol e (symbol, extra)) b'" "same_arrays b b'"
      by (rule repeat_mirrors [OF m sy room'])
    have "code_symbols alph (b, s) = code_symbols alph (b', s2)"
      unfolding unf dec(1) using False by (simp add: rd(1) b rf(1))
    then show thesis using that rf rd same_call_trans dec(4) by (metis pe)
  qed
qed

lemma code_symbols_read:
  assumes "mirrors alph e b" "\<forall>p\<in>set rs. run_pair_ok p" "length (lengths (expand e rs)) \<le> alph"
    and "kraft MAX_LENGTH (lengths (expand e rs)) = 2 ^ MAX_LENGTH" "rs \<noteq> [] \<Longrightarrow> last (lengths (expand e rs)) \<noteq> 0"
    and "b_stage b = Symbols" "reader_ok s" "prefix_code C" "length_carries (b_code b) C" "\<forall>p\<in>set rs. (W (fst p), fst p) \<in> C"
    and "stream s = concat (map (run_bits W) rs) @ rest"
  shows "\<exists>b1 s'. code_symbols alph (b, s) = (Inr True, b1\<lparr>b_stage := Start\<rparr>, s') \<and> reading alph (lengths (expand e rs)) b1 \<and>
    same_arrays b b1 \<and> b_space b1 = 0 \<and> reader_ok s' \<and> stream s' = rest \<and> same_call s s'"
  using assms
proof (induction rs arbitrary: e b s)
  case Nil
  have "reading alph (lengths e) b" using Nil.prems(1) by (simp add: mirrors_def)
  moreover from readingD(7) [OF this] have "b_space b = 0" using Nil.prems(4) by (simp add: MAX_LENGTH_def)
  moreover from this have "code_symbols alph (b, s) = (Inr True, b\<lparr>b_stage := Start\<rparr>, s)" by (subst code_symbols.simps) simp
  ultimately show ?case using Nil.prems(7,11) by (auto simp: same_arrays_def)
next
  case (Cons p rs)
  let ?e = "expand_symbol e p"
  have ex: "expand e (p # rs) = expand ?e rs" by (rule expand_Cons)
  obtain ys where ys: "lengths (expand e (p # rs)) = lengths e @ ys" "ys \<noteq> []" by (rule expand_grows [OF Cons.prems(2)]) auto
  have "last ys \<noteq> 0" using Cons.prems(5) ys by simp
  then have "0 < kraft MAX_LENGTH ys" using ys(2) by (cases ys rule: rev_cases) (simp_all add: kraft_def)
  then have kr: "kraft MAX_LENGTH (lengths e) < 2 ^ MAX_LENGTH" using Cons.prems(4) unfolding ys(1) by simp
  have "reading alph (lengths e) b" using Cons.prems(1) by (simp add: mirrors_def)
  from readingD(7) [OF this] kr have sp: "b_space b > 0" by (simp add: MAX_LENGTH_def)
  obtain zs where "lengths (expand ?e rs) = lengths ?e @ zs" using expand_grows [of rs ?e] Cons.prems(2) by auto
  then have room: "length (lengths ?e) \<le> alph" using Cons.prems(3) unfolding ex by simp
  have p: "run_pair_ok p" "(W (fst p), fst p) \<in> C" using Cons.prems(2,10) by simp_all
  have "stream s = run_bits W p @ concat (map (run_bits W) rs) @ rest" using Cons.prems(11) by simp
  from code_symbols_step [OF Cons.prems(1) p(1) room sp Cons.prems(6,7,8,9) p(2) this]
  obtain b1 s1 where st: "code_symbols alph (b, s) = code_symbols alph (b1, s1)" "mirrors alph ?e b1" "same_arrays b b1"
    "reader_ok s1" "stream s1 = concat (map (run_bits W) rs) @ rest" "same_call s s1" by blast
  have sa: "b_stage b1 = Symbols" "length_carries (b_code b1) C" using st(3) Cons.prems(6,9) by (simp_all add: same_arrays_def)
  have "\<exists>b2 s'. code_symbols alph (b1, s1) = (Inr True, b2\<lparr>b_stage := Start\<rparr>, s') \<and> reading alph (lengths (expand ?e rs)) b2 \<and>
    same_arrays b1 b2 \<and> b_space b2 = 0 \<and> reader_ok s' \<and> stream s' = rest \<and> same_call s1 s'"
    by (rule Cons.IH [OF st(2) _ _ _ _ sa(1) st(4) Cons.prems(8) sa(2) _ st(5)]) (use Cons.prems(2-5,10) in \<open>simp_all add: ex\<close>)
  then show ?case unfolding ex st(1) using same_arrays_trans [OF st(3)] same_call_trans [OF st(6)] by blast
qed

end
