(* ===== verification/Description_Roundtrip.thy ===== *)
theory Description_Roundtrip
  imports Description_Writer Description_Decoding
begin

unbundle bit_operations_syntax

text \<open>
  The descriptions the encoder writes against the reader of the decoder: every prefix code the
  encoder builds is described by bits the reader accepts, as the same code.
\<close>

section \<open>The code-length code the writer builds\<close>

lemma length_histogram_nth:
  assumes "\<forall>p\<in>set rs. fst p < 18" "i < 18"
  shows "length_histogram rs ! i = length (filter (\<lambda>p. fst p = i) rs)"
proof -
  have "fold (\<lambda>(symbol, extra) h. h[symbol := h ! symbol + 1]) rs h ! i = h ! i + length (filter (\<lambda>p. fst p = i) rs)"
    if "length h = 18" for h :: "nat list"
    using that assms(1)
  proof (induction rs arbitrary: h)
    case (Cons p rs)
    obtain symbol extra where p: "p = (symbol, extra)" by (cases p)
    show ?case using Cons by (simp add: p nth_list_update)
  qed simp
  then show ?thesis using assms(2) by (simp add: length_histogram_def CODE_LENGTH_CODES_def)
qed

lemma length_length_histogram [simp]: "length (length_histogram rs) = 18"
proof -
  have "length (fold (\<lambda>(symbol, extra) h. h[symbol := h ! symbol + 1]) rs h) = length h" for h :: "nat list"
    by (induction rs arbitrary: h) (auto split: prod.splits)
  then show ?thesis by (simp add: length_histogram_def CODE_LENGTH_CODES_def)
qed

lemma length_histogram_used:
  assumes "\<forall>p\<in>set rs. fst p < 18" "i < 18"
  shows "length_histogram rs ! i \<noteq> 0 \<longleftrightarrow> i \<in> fst ` set rs" "length_histogram rs ! i \<le> length rs"
  unfolding length_histogram_nth [OF assms] by (auto simp: filter_empty_conv)

lemma count_codes_one: "count_codes hs i (1, c) = (if \<forall>x\<in>set hs. x = 0 then (1, c) else (2, c))"
  by (induction hs arbitrary: i) auto

lemma count_codes_first:
  "x \<noteq> 0 \<Longrightarrow> count_codes (replicate j 0 @ x # hs) i (0, 0) = (if \<forall>y\<in>set hs. y = 0 then (1, i + j) else (2, i + j))"
proof (induction j arbitrary: i)
  case 0
  then show ?case using count_codes_one [of hs "Suc i" i] by simp
qed simp

lemma create_single:
  assumes "used_symbols data len = [s]" "len \<le> length data" "len < 2 ^ 15"
  shows "\<exists>tree'. create_huffman_tree data len limit tree depth = Some (tree', depth[s := 1])"
proof -
  have n: "length (filter (\<lambda>n. n \<noteq> 0) (take len data)) = 1" using length_used_symbols [OF assms(2)] assms(1) by simp
  have room: "length (used_symbols data len) \<le> length (nodes_for tree 1)" by (simp add: assms(1) nodes_for_def tree_capacity_def Let_def)
  obtain t where t: "put_leaves data len 1 (nodes_for tree 1) = (t, 1)" "take 1 t = [leaf_node (max (data ! s) 1) (as_i16 s)]"
    using put_leaves_eq [OF room, of 1] by (auto simp: assms(1))
  have t0: "t ! 0 = leaf_node (max (data ! s) 1) (as_i16 s)" using t(2) by (cases t) simp_all
  have "s \<in> set (used_symbols data len)" by (simp add: assms(1))
  then have "s < len" unfolding used_symbols_set(1) by simp
  then have "s < 2 ^ 15" using assms(3) by (rule less_trans)
  from as_i16_small [OF this] have v: "nat (index_right_or_value (t ! 0)) = s" unfolding t0 leaf_node_def by simp
  have c: "\<not> (1::nat) = 0" "(1::nat) = 1" by simp_all
  have "create_loop data len limit 1 (nodes_for tree 1) depth = Some (t, depth[s := 1])"
    unfolding create_loop.simps [of data len limit 1 "nodes_for tree 1" depth] t(1) prod.case if_not_P [OF c(1)] if_P [OF c(2)] v ..
  then show ?thesis unfolding create_huffman_tree_def n by blast
qed

lemma kraft_used: "kraft LENGTH_BITS ds \<le> 16 * used_lengths ds"
proof (induction ds)
  case (Cons d ds)
  have "(2::nat) ^ (LENGTH_BITS - d) \<le> 2 ^ 4" if "d \<noteq> 0" using that by (intro power_increasing) (simp_all add: LENGTH_BITS_def)
  then show ?case using Cons by (auto simp: kraft_Cons used_lengths_def)
qed (simp add: kraft_def used_lengths_def)

lemma fits_kraft:
  assumes "\<forall>d\<in>set ds. d \<le> MAX_LENGTH" "kraft MAX_LENGTH ds \<le> 2 ^ MAX_LENGTH"
  shows "fits (symbols_of ds)"
  unfolding fits_def
proof (intro allI impI)
  fix l assume l: "l \<le> MAX_LENGTH"
  have "used_codes (symbols_of ds) l * 2 ^ (MAX_LENGTH - l) \<le> used_codes (symbols_of ds) (l + (MAX_LENGTH - l))"
    by (rule used_codes_grow)
  also have "\<dots> \<le> 2 ^ l * 2 ^ (MAX_LENGTH - l)"
    using l assms used_codes_kraft [OF assms(1)] by (simp flip: power_add)
  finally show "used_codes (symbols_of ds) l \<le> 2 ^ l" by simp
qed

text \<open>One used symbol: the tree gives it one bit, and the writer then spends none on it.\<close>

lemma single_length_code:
  assumes "c < 18"
  defines "ds \<equiv> (replicate 18 0)[c := 1 :: nat]"
  shows "used_lengths ds = 1" "kraft LENGTH_BITS ds = 16" "length_code ds (used_lengths ds) = {([], c)}"
    "convert_bit_depths_to_symbols ds 18 (replicate 18 0) ! c = 0"
proof -
  have z: "replicate 18 0 ! c = (0::nat)" "c < length (replicate 18 (0::nat))" using assms by simp_all
  show ul: "used_lengths ds = 1"
    unfolding ds_def used_lengths_update [OF z(2,1)] by (simp add: used_lengths_def)
  show "kraft LENGTH_BITS ds = 16" unfolding ds_def kraft_update [OF z(2,1)] by (simp add: LENGTH_BITS_def)
  have nth: "ds ! i = (if i = c then 1 else 0)" if "i < 18" for i using that by (simp add: ds_def nth_list_update)
  have len: "length ds = 18" by (simp add: ds_def)
  have "List.find (\<lambda>s. ds ! s \<noteq> 0) [0..<length ds] = Some c"
    unfolding find_Some_iff len using assms(1) nth by (intro exI [of _ c]) auto
  then show "length_code ds (used_lengths ds) = {([], c)}" unfolding length_code_def ul by simp
  have small: "\<forall>d\<in>set ds. d \<le> MAX_LENGTH" using nth len by (auto simp: in_set_conv_nth MAX_LENGTH_def)
  have "kraft MAX_LENGTH ds = 2 ^ 14" unfolding ds_def kraft_update [OF z(2,1)] by (simp add: MAX_LENGTH_def)
  then have f: "fits (symbols_of ds)" by (intro fits_kraft [OF small]) (simp add: MAX_LENGTH_def)
  have sy: "symbols_of ds 1 = [c]"
  proof -
    have "set (symbols_of ds 1) = {c}" unfolding set_symbols_of len using nth assms(1) by (auto split: if_splits)
    moreover have "distinct (symbols_of ds 1)" by (simp add: symbols_of_def)
    ultimately show ?thesis
    proof (cases "symbols_of ds 1")
      case (Cons x xs)
      then show ?thesis using \<open>set (symbols_of ds 1) = {c}\<close> \<open>distinct (symbols_of ds 1)\<close> by (cases xs) auto
    qed simp
  qed
  have c1: "(bits_of_nat 1 (convert_bit_depths_to_symbols ds 18 (replicate 18 0) ! c), c) \<in> canonical (symbols_of ds)"
    "convert_bit_depths_to_symbols ds 18 (replicate 18 0) ! c < 2"
    using converted_codes [of 18 ds "replicate 18 0" c] small f len nth [OF assms(1)] assms(1) by (simp_all add: Let_def)
  then obtain l j where lj: "bits_of_nat 1 (convert_bit_depths_to_symbols ds 18 (replicate 18 0) ! c) = codeword l (first_code (symbols_of ds) l + j)"
    "j < length (symbols_of ds l)" unfolding canonical_def by blast
  then have "length (codeword l (first_code (symbols_of ds) l + j)) = 1" by (metis length_bits_of_nat)
  then have l: "l = 1" by simp
  have fc: "first_code (symbols_of ds) (Suc 0) = 0" by simp
  have "bits_of_nat 1 (convert_bit_depths_to_symbols ds 18 (replicate 18 0) ! c) = codeword 1 0" using lj unfolding l sy by (simp add: fc)
  also have "\<dots> = bits_of_nat 1 0" by (simp add: codeword_def bit_eval)
  finally show "convert_bit_depths_to_symbols ds 18 (replicate 18 0) ! c = 0" using bits_of_nat_inj [of 1 _ 0] c1(2) by simp
qed

lemma several_length_code:
  assumes "length ds = 18" "\<forall>d\<in>set ds. d \<le> LENGTH_BITS" "kraft LENGTH_BITS ds = 32" "i < 18" "ds ! i \<noteq> 0"
  defines "c \<equiv> convert_bit_depths_to_symbols ds 18 (replicate 18 0) ! i"
  shows "(bits_of_nat (ds ! i) c, i) \<in> length_code ds (used_lengths ds)" "c < 2 ^ (ds ! i)"
proof -
  have small: "\<forall>d\<in>set ds. d \<le> MAX_LENGTH" using assms(2) by (auto simp: LENGTH_BITS_def MAX_LENGTH_def)
  have "complete (coded ds)" using complete_kraft [OF assms(2)] assms(3) by (simp add: LENGTH_BITS_def MAX_LENGTH_def)
  then have f: "fits (symbols_of ds)" using complete_coded complete_fits by blast
  have "used_lengths ds \<noteq> 1" using kraft_used [of ds] assms(3) by auto
  then have "length_code ds (used_lengths ds) = canonical (symbols_of ds)" by (simp add: length_code_def)
  then show "(bits_of_nat (ds ! i) c, i) \<in> length_code ds (used_lengths ds)" "c < 2 ^ (ds ! i)"
    using converted_codes [of 18 ds "replicate 18 0" i] small f assms(1,4,5) unfolding c_def by (simp_all add: Let_def)
qed

lemma used_symbols_one:
  assumes "j < 18" "\<forall>i<18. data ! i \<noteq> 0 \<longleftrightarrow> i = j"
  shows "used_symbols data 18 = [j]"
proof -
  have s: "set (used_symbols data 18) = {j}" "distinct (used_symbols data 18)"
    using used_symbols_set [of data 18] assms by auto
  show ?thesis
  proof (cases "used_symbols data 18")
    case (Cons x xs)
    then show ?thesis using s by (cases xs) auto
  qed (use s in simp)
qed

lemma length_code_built:
  assumes "rs \<noteq> []" "\<forall>p\<in>set rs. run_pair_ok p" "length rs \<le> 704"
  obtains tree' bd num code where
    "create_huffman_tree (length_histogram rs) CODE_LENGTH_CODES 5 tree (replicate CODE_LENGTH_CODES 0) = Some (tree', bd)"
    "count_codes (length_histogram rs) 0 (0, 0) = (num, code)" "length bd = 18" "\<forall>d\<in>set bd. d \<le> LENGTH_BITS"
    "num = 1 \<and> used_lengths bd = 1 \<and> kraft LENGTH_BITS bd < 32 \<or> 1 < num \<and> kraft LENGTH_BITS bd = 32"
    "\<And>ix extra. (ix, extra) \<in> set rs \<Longrightarrow> let W = (if num = 1 then bd[code := 0] else bd) ! ix;
       c = convert_bit_depths_to_symbols bd CODE_LENGTH_CODES (replicate CODE_LENGTH_CODES 0) ! ix in
       W \<le> 5 \<and> c < 2 ^ W \<and> (bits_of_nat W c, ix) \<in> length_code bd (used_lengths bd)"
proof -
  define h where "h = length_histogram rs"
  have c18: "CODE_LENGTH_CODES = 18" by (simp add: CODE_LENGTH_CODES_def)
  have fst: "\<forall>p\<in>set rs. fst p < 18" using assms(2) by (force simp: run_pair_ok_def)
  note used = length_histogram_used [OF fst, folded h_def]
  have len: "length h = 18" by (simp add: h_def)
  obtain p0 where "p0 \<in> set rs" using assms(1) by (cases rs) auto
  then have "h ! (fst p0) \<noteq> 0" "h ! (fst p0) \<in> set h" using used(1) [of "fst p0"] fst len by simp_all
  then have "\<exists>x\<in>set h. x \<noteq> 0" by blast
  then obtain ys x zs where sp: "h = ys @ x # zs" "x \<noteq> 0" "\<forall>y\<in>set ys. y = 0" by (auto elim!: split_list_first_propE)
  define j where "j = length ys"
  have j: "j < 18" using len sp(1) by (simp add: j_def)
  have "ys = replicate j 0" using sp(3) by (simp add: j_def replicate_length_same)
  then have cc: "count_codes h 0 (0, 0) = (if \<forall>y\<in>set zs. y = 0 then (1, j) else (2, j))"
    using count_codes_first [OF sp(2), of j zs 0] sp(1) by simp
  have hj: "h ! j \<noteq> 0" using sp(1,2) by (simp add: j_def)
  show thesis
  proof (cases "\<forall>y\<in>set zs. y = 0")
    case True
    have only: "h ! i \<noteq> 0 \<longleftrightarrow> i = j" if i: "i < 18" for i
    proof (cases i j rule: linorder_cases)
      case greater
      then have "i - j = Suc (i - Suc j)" by simp
      with greater have "h ! i = zs ! (i - Suc j)" by (simp add: sp(1) j_def nth_append)
      moreover have "i - Suc j < length zs" using greater i len sp(1) by (simp add: j_def)
      ultimately show ?thesis using True greater nth_mem by simp
    next
      case less
      then have "h ! i = ys ! i" "i < length ys" by (simp_all add: sp(1) j_def nth_append)
      then show ?thesis using sp(3) less by simp
    qed (use hj in simp)
    have "used_symbols h 18 = [j]" by (rule used_symbols_one [OF j]) (use only in blast)
    from create_single [OF this] obtain tree' where t: "create_huffman_tree h 18 5 tree (replicate 18 0) = Some (tree', (replicate 18 0)[j := 1])"
      using len by fastforce
    define bd where "bd = (replicate 18 0)[j := 1 :: nat]"
    note sl = single_length_code [OF j, folded bd_def]
    have jx: "ix = j" if "(ix, extra) \<in> set rs" for ix extra
    proof -
      have "ix < 18" using fst that by force
      moreover have "ix \<in> fst ` set rs" using that by force
      ultimately show ?thesis using only used(1) by blast
    qed
    show thesis
    proof (rule that [of tree' bd 1 j])
      show "\<forall>d\<in>set bd. d \<le> LENGTH_BITS" using j by (auto simp: bd_def LENGTH_BITS_def in_set_conv_nth nth_list_update)
      show "let W = (if (1::nat) = 1 then bd[j := 0] else bd) ! ix;
         c = convert_bit_depths_to_symbols bd CODE_LENGTH_CODES (replicate CODE_LENGTH_CODES 0) ! ix in
         W \<le> 5 \<and> c < 2 ^ W \<and> (bits_of_nat W c, ix) \<in> length_code bd (used_lengths bd)" if mem: "(ix, extra) \<in> set rs" for ix extra
        using jx [OF mem] sl j by (simp add: c18 bd_def [symmetric] Let_def) (simp add: bd_def)
    qed (use t cc True sl in \<open>simp_all add: c18 bd_def h_def\<close>)
  next
    case False
    define n where "n = length (filter (\<lambda>c. c \<noteq> 0) (take 18 h))"
    have n18: "n \<le> 18" unfolding n_def using length_filter_le [of _ "take 18 h"] len by (metis take_all order_refl)
    obtain y where y: "y \<in> set zs" "y \<noteq> 0" using False by blast
    have "filter (\<lambda>c. c \<noteq> 0) zs \<noteq> []" using y by (auto simp: filter_empty_conv)
    then have "1 \<le> length (filter (\<lambda>c. c \<noteq> 0) zs)" by (simp add: Suc_le_eq)
    moreover have "take 18 h = ys @ x # zs" using len sp(1) by simp
    ultimately have n2: "2 \<le> n" unfolding n_def using sp(2) by simp
    have "\<forall>i<18. h ! i \<le> 704" using used(2) assms(3) by (meson le_trans)
    moreover have "2 * 704 * n < 2 ^ 32 - 1" using n18 by simp
    moreover have "n \<le> 2 ^ 5" using n18 by simp
    ultimately obtain tree' bd where t: "create_huffman_tree h 18 5 tree (replicate 18 0) = Some (tree', bd)" "length bd = 18"
      "\<forall>i<18. (bd ! i \<noteq> 0 \<longleftrightarrow> h ! i \<noteq> 0) \<and> bd ! i \<le> 5" "kraft 5 bd = 32"
      using create_tree_returns [of 18 h "replicate 18 0" 5 n 704 tree] n_def n2 len by auto
    have small: "\<forall>d\<in>set bd. d \<le> LENGTH_BITS" using t(2,3) by (auto simp: in_set_conv_nth LENGTH_BITS_def)
    have kr: "kraft LENGTH_BITS bd = 32" using t(4) by (simp add: LENGTH_BITS_def)
    show thesis
    proof (rule that [of tree' bd 2 j])
      show "let W = (if (2::nat) = 1 then bd[j := 0] else bd) ! ix;
         c = convert_bit_depths_to_symbols bd CODE_LENGTH_CODES (replicate CODE_LENGTH_CODES 0) ! ix in
         W \<le> 5 \<and> c < 2 ^ W \<and> (bits_of_nat W c, ix) \<in> length_code bd (used_lengths bd)" if mem: "(ix, extra) \<in> set rs" for ix extra
      proof -
        have ix: "ix < 18" using fst mem by force
        moreover have "ix \<in> fst ` set rs" using mem by force
        ultimately have "h ! ix \<noteq> 0" using used(1) by blast
        then have "bd ! ix \<noteq> 0" "bd ! ix \<le> 5" using t(3) ix by simp_all
        then show ?thesis using several_length_code [OF t(2) small kr ix] by (simp add: c18 Let_def)
      qed
    qed (use t cc False small kr in \<open>simp_all add: c18 h_def\<close>)
  qed
qed

section \<open>The order in which the lengths are stored\<close>

lemma STORAGE_ORDER_eq: "STORAGE_ORDER = ORDER"
  by (simp add: STORAGE_ORDER_def ORDER_def)

lemma trim_codes_spec:
  "trim_codes bd m \<le> m \<and> (\<forall>k. trim_codes bd m \<le> k \<longrightarrow> k < m \<longrightarrow> bd ! (ORDER ! k) = 0) \<and>
     (0 < trim_codes bd m \<longrightarrow> bd ! (ORDER ! (trim_codes bd m - 1)) \<noteq> 0)"
  by (induction m) (auto simp: STORAGE_ORDER_eq less_Suc_eq le_Suc_eq)

lemma read_so_far_skip:
  assumes "i \<le> m" "m \<le> 18" "\<forall>k. i \<le> k \<longrightarrow> k < m \<longrightarrow> bd ! (ORDER ! k) = 0"
  shows "read_so_far bd m = read_so_far bd i"
  using assms
proof (induction m rule: dec_induct)
  case (step m)
  have "read_so_far bd (Suc m) = (read_so_far bd m)[ORDER ! m := 0]" using read_so_far_Suc(1) [of m bd] step by simp
  also have "\<dots> = read_so_far bd m" using read_so_far_Suc(2) [of m bd] step.prems by (metis Suc_le_lessD list_update_id)
  finally show ?case using step by simp
qed simp

lemma kraft_read_so_far_Suc:
  assumes "m < 18"
  shows "kraft LENGTH_BITS (read_so_far bd (Suc m)) = kraft LENGTH_BITS (read_so_far bd m) +
    (if bd ! (ORDER ! m) = 0 then 0 else 2 ^ (LENGTH_BITS - bd ! (ORDER ! m)))"
  unfolding read_so_far_Suc(1) [OF assms] using read_so_far_Suc(2) [OF assms] ORDER_nth(1) [OF assms] by (simp add: kraft_update)

lemma kraft_read_so_far_mono:
  assumes "i \<le> m" "m \<le> 18"
  shows "kraft LENGTH_BITS (read_so_far bd i) \<le> kraft LENGTH_BITS (read_so_far bd m)"
  using assms by (induction m rule: dec_induct) (simp_all add: kraft_read_so_far_Suc)

lemma skip_some_spec: "skip_some bd \<le> 3" "skip_some bd \<noteq> 1" "k < skip_some bd \<Longrightarrow> bd ! (ORDER ! k) = 0"
proof -
  show "skip_some bd \<le> 3" "skip_some bd \<noteq> 1" by (simp_all add: skip_some_def)
  assume k: "k < skip_some bd"
  then have "k = 0 \<or> k = 1 \<or> k = 2" by (auto simp: skip_some_def split: if_splits)
  then show "bd ! (ORDER ! k) = 0" using k by (auto simp: skip_some_def STORAGE_ORDER_eq split: if_splits)
qed

lemma stored_codes:
  assumes "length bd = 18" and sh: "num = 1 \<and> used_lengths bd = 1 \<and> kraft LENGTH_BITS bd < 32 \<or> 1 < num \<and> kraft LENGTH_BITS bd = 32"
  defines "n \<equiv> codes_to_store num bd" and "k \<equiv> skip_some bd"
  shows "k \<le> n" "n \<le> 18" "read_so_far bd k = replicate 18 0" "read_so_far bd n = bd"
    "\<forall>i<n. kraft LENGTH_BITS (read_so_far bd i) < 32"
    "kraft LENGTH_BITS bd = 32 \<or> used_lengths bd = 1 \<and> n = 18 \<and> kraft LENGTH_BITS bd < 32"
proof -
  have c18: "CODE_LENGTH_CODES = 18" by (simp add: CODE_LENGTH_CODES_def)
  have k: "k \<le> 18" using skip_some_spec(1) [of bd] by (simp add: k_def)
  have full: "read_so_far bd 18 = bd" by (rule read_so_far_all [OF assms(1)])
  show z: "read_so_far bd k = replicate 18 0"
    using read_so_far_skip [of 0 k bd] k skip_some_spec(3) by (simp add: k_def)
  have "k \<le> n \<and> n \<le> 18 \<and> read_so_far bd n = bd \<and> (\<forall>i<n. kraft LENGTH_BITS (read_so_far bd i) < 32) \<and>
    (kraft LENGTH_BITS bd = 32 \<or> used_lengths bd = 1 \<and> n = 18 \<and> kraft LENGTH_BITS bd < 32)"
  proof (cases "1 < num")
    case False
    then have n: "n = 18" by (simp add: n_def codes_to_store_def c18)
    have lt: "kraft LENGTH_BITS bd < 32" "used_lengths bd = 1" using sh False by auto
    have "kraft LENGTH_BITS (read_so_far bd i) < 32" if "i < 18" for i
      using kraft_read_so_far_mono [of i 18 bd] that lt full by simp
    then show ?thesis using n k full lt by simp
  next
    case True
    then have kr: "kraft LENGTH_BITS bd = 32" using sh by auto
    have n: "n = trim_codes bd 18" using True by (simp add: n_def codes_to_store_def c18)
    note tr = trim_codes_spec [of bd 18, folded n]
    have nb: "read_so_far bd n = bd" using read_so_far_skip [of n 18 bd] tr full by simp
    have "k \<le> n"
    proof (rule ccontr)
      assume "\<not> k \<le> n"
      then have "read_so_far bd k = read_so_far bd n" using tr k by (intro read_so_far_skip) simp_all
      then have "bd = replicate 18 0" using z nb by simp
      then have "kraft LENGTH_BITS bd = 0" by (simp only: kraft_zeros)
      then show False using kr by simp
    qed
    moreover have "kraft LENGTH_BITS (read_so_far bd i) < 32" if i: "i < n" for i
    proof -
      have n0: "n = Suc (n - 1)" "n - 1 < 18" using i conjunct1 [OF tr] by simp_all
      have "kraft LENGTH_BITS (read_so_far bd i) \<le> kraft LENGTH_BITS (read_so_far bd (n - 1))"
        using i conjunct1 [OF tr] by (intro kraft_read_so_far_mono) simp_all
      also have "\<dots> < kraft LENGTH_BITS (read_so_far bd n)"
        using kraft_read_so_far_Suc [OF n0(2), of bd] i tr by (subst (2) n0(1)) simp
      finally show ?thesis by (simp add: nb kr)
    qed
    ultimately show ?thesis using tr nb kr by simp
  qed
  then show "k \<le> n" "n \<le> 18" "read_so_far bd n = bd" "\<forall>i<n. kraft LENGTH_BITS (read_so_far bd i) < 32"
    "kraft LENGTH_BITS bd = 32 \<or> used_lengths bd = 1 \<and> n = 18 \<and> kraft LENGTH_BITS bd < 32" by blast+
qed

section \<open>The bits written\<close>

lemma emits_store_length: "bd ! i \<le> 5 \<Longrightarrow> wr.emits (store_length bd i) (length_bits (bd ! i))"
proof -
  assume l: "bd ! i \<le> 5"
  have "[0, 7, 3, 2, 1, 15] ! (bd ! i) < (2::nat) ^ ([2, 4, 3, 2, 2, 4] ! (bd ! i))" "[2, 4, 3, 2, 2, 4] ! (bd ! i) \<le> (4::nat)"
    using l by (cases rule: length_bits_cases; simp)+
  then show ?thesis
    unfolding store_length_def [abs_def] length_bits_def Let_def CODE_LENGTH_HUFFMAN_DEPTHS_def CODE_LENGTH_HUFFMAN_SYMBOLS_def
    by (intro wr.emits_put) (simp_all add: MAX_BITS_PER_WRITE_def)
qed

lemma emits_code_length_code:
  assumes "length bd = 18" "\<forall>d\<in>set bd. d \<le> LENGTH_BITS"
  shows "wr.emits (store_code_length_code num bd) (bits_of_nat 2 (skip_some bd) @
    concat (map (\<lambda>i. length_bits (bd ! i)) (drop (skip_some bd) (take (codes_to_store num bd) ORDER))))"
proof -
  let ?xs = "drop (skip_some bd) (take (codes_to_store num bd) ORDER)"
  have "wr.emits (write_bits 2 (skip_some bd)) (bits_of_nat 2 (skip_some bd))"
    using skip_some_spec(1) [of bd] by (intro wr.emits_put) (simp_all add: MAX_BITS_PER_WRITE_def)
  moreover have "wr.emits (fold (store_length bd) ?xs) (concat (map (\<lambda>i. length_bits (bd ! i)) ?xs))"
  proof (rule wr.emits_fold, rule emits_store_length)
    fix x assume "x \<in> set ?xs"
    then have "x < 18" using ORDER_set(1) by (auto dest!: in_set_dropD in_set_takeD)
    then show "bd ! x \<le> 5" using assms nth_mem [of x bd] by (simp add: LENGTH_BITS_def)
  qed
  ultimately show ?thesis
    unfolding store_code_length_code_def [abs_def] Let_def STORAGE_ORDER_eq by (rule wr.emits_comp)
qed

lemma emits_store_run:
  assumes "run_pair_ok (ix, extra)" "bd ! ix \<le> 5" "sy ! ix < 2 ^ (bd ! ix)"
  shows "wr.emits (store_run bd sy (ix, extra)) (run_bits (\<lambda>i. bits_of_nat (bd ! i) (sy ! i)) (ix, extra))"
proof -
  have f: "wr.emits (write_bits (bd ! ix) (sy ! ix)) (bits_of_nat (bd ! ix) (sy ! ix))"
    using assms by (intro wr.emits_put) (simp_all add: MAX_BITS_PER_WRITE_def)
  consider "ix = 16" "extra < 4" | "ix = 17" "extra < 8" | "ix < 16" using assms(1) by (auto simp: run_pair_ok_def)
  then show ?thesis
  proof cases
    case 1
    then show ?thesis using wr.emits_then_put [OF f, of 2 extra]
      by (simp add: store_run_def [abs_def] run_bits_def Let_def REPEAT_PREVIOUS_CODE_LENGTH_def MAX_BITS_PER_WRITE_def)
  next
    case 2
    then show ?thesis using wr.emits_then_put [OF f, of 3 extra]
      by (simp add: store_run_def [abs_def] run_bits_def Let_def REPEAT_PREVIOUS_CODE_LENGTH_def REPEAT_ZERO_CODE_LENGTH_def MAX_BITS_PER_WRITE_def)
  next
    case 3
    then show ?thesis using f
      by (simp add: store_run_def [abs_def] run_bits_def Let_def REPEAT_PREVIOUS_CODE_LENGTH_def REPEAT_ZERO_CODE_LENGTH_def)
  qed
qed

section \<open>The run-length coded form\<close>

lemma trim_length_last: "0 < trim_length depth n \<Longrightarrow> depth ! (trim_length depth n - 1) \<noteq> 0"
  by (induction n) auto

lemma symbols_start_mirrors:
  assumes "length (b_next b) = MAX_ALPHABET" "0 < alph" "alph \<le> MAX_ALPHABET"
  shows "mirrors alph expansion_start (symbols_start ds b)"
proof -
  have "coded [] = (\<lambda>_. [])" by (rule ext) (simp add: coded_def)
  moreover have "lists_ok (clear (b\<lparr>b_code := length_code_build ds (used_lengths ds)\<rparr>)) (\<lambda>_. [])"
    by (rule lists_ok_clear) (simp add: assms(1))
  ultimately have "lists_ok (symbols_start ds b) (coded [])" by (simp add: symbols_start_def lists_ok_def)
  moreover have "(8::nat) \<le> MAX_LENGTH" by (simp add: MAX_LENGTH_def)
  ultimately show ?thesis
    using assms by (simp add: mirrors_def expansion_start_def reading_def symbols_start_def kraft_def clear_def)
qed

lemma reading_code_ok:
  assumes "reading alph ds b"
  shows "code_ok (b\<lparr>b_stage := Start\<rparr>) (coded ds)" "b_last b < alph" "length (b_next b) = MAX_ALPHABET"
proof -
  note rd = readingD [OF assms]
  show "b_last b < alph" "length (b_next b) = MAX_ALPHABET" using rd reading_arrays [OF assms] by simp_all
  show "code_ok (b\<lparr>b_stage := Start\<rparr>) (coded ds)"
    using rd(1,5,10) unfolding code_ok_def lists_ok_def by simp
qed

definition described :: "nat \<Rightarrow> bool list \<Rightarrow> nat list \<Rightarrow> bool" where
  "described alph bs ds \<longleftrightarrow> (\<forall>b s rest. arrays_ok b \<longrightarrow> b_stage b = Start \<longrightarrow> reader_ok s \<longrightarrow> stream s = bs @ rest \<longrightarrow>
     (\<exists>b' s'. builder_read alph (b, s) = (Inr True, b', s') \<and> reader_ok s' \<and> stream s' = rest \<and> same_call s s' \<and>
       code_ok b' (coded ds) \<and> arrays_ok b' \<and> b_stage b' = Start \<and> b_last b' < alph))"

lemma store_huffman_tree_described:
  assumes n: "num \<le> length depths" "num \<le> NUM_COMMAND_SYMBOLS" and ds: "\<forall>d\<in>set (take num depths). d \<le> MAX_LENGTH"
    and full: "kraft MAX_LENGTH (take num depths) = 2 ^ MAX_LENGTH" and al: "num \<le> alph" "alph \<le> MAX_ALPHABET"
  obtains tree' f bs where "\<And>w. store_huffman_tree depths num tree w = Some (tree', f w)" "wr.emits f bs"
    "described alph bs (take num depths)"
proof -
  define rs where "rs = write_huffman_tree depths num"
  define m where "m = trim_length depths num"
  have "\<forall>d\<in>set (take num depths). d < 16" using ds by (auto simp: MAX_LENGTH_def)
  note re = runs_expand_back [OF n this, unfolded Let_def, folded rs_def m_def]
  have ok: "\<forall>p\<in>set rs. run_pair_ok p" using re by (auto simp: run_pair_ok_def)
  have ex: "lengths (expand expansion_start rs) = take m depths" "take num depths = take m depths @ replicate (num - m) 0"
    "length rs \<le> m" using re by blast+
  have mn: "m \<le> num" using trim_length_spec [of depths num] by (simp add: m_def)
  have km: "kraft MAX_LENGTH (take m depths) = 2 ^ MAX_LENGTH" using full ex(2) by simp
  then have m0: "0 < m" by (cases m) (simp_all add: kraft_def)
  have "take m depths \<noteq> []" using m0 mn n(1) by auto
  then have ne: "rs \<noteq> []" using ex(1) by (auto simp: expansion_start_def)
  have last: "last (take m depths) \<noteq> 0"
  proof -
    have "last (take m depths) = depths ! (m - 1)" using m0 mn n(1) by (subst last_conv_nth) auto
    then show ?thesis using trim_length_last [of depths num] m0 by (simp add: m_def)
  qed
  have "length rs \<le> 704" using ex(3) mn n(2) by (simp add: NUM_COMMAND_SYMBOLS_def)
  then obtain tree' bd and k :: nat and code where t:
    "create_huffman_tree (length_histogram rs) CODE_LENGTH_CODES 5 tree (replicate CODE_LENGTH_CODES 0) = Some (tree', bd)"
    "count_codes (length_histogram rs) 0 (0, 0) = (k, code)" "length bd = 18" "\<forall>d\<in>set bd. d \<le> LENGTH_BITS"
    "k = 1 \<and> used_lengths bd = 1 \<and> kraft LENGTH_BITS bd < 32 \<or> 1 < k \<and> kraft LENGTH_BITS bd = 32"
    "\<And>ix extra. (ix, extra) \<in> set rs \<Longrightarrow> let W = (if k = 1 then bd[code := 0] else bd) ! ix;
       c = convert_bit_depths_to_symbols bd CODE_LENGTH_CODES (replicate CODE_LENGTH_CODES 0) ! ix in
       W \<le> 5 \<and> c < 2 ^ W \<and> (bits_of_nat W c, ix) \<in> length_code bd (used_lengths bd)"
    by (rule length_code_built [OF ne ok, of tree]) (rule that)
  define sy bd' where "sy = convert_bit_depths_to_symbols bd CODE_LENGTH_CODES (replicate CODE_LENGTH_CODES 0)"
    and "bd' = (if k = 1 then bd[code := 0] else bd)"
  define W where "W i = bits_of_nat (bd' ! i) (sy ! i)" for i
  define stored where "stored = drop (skip_some bd) (take (codes_to_store k bd) ORDER)"
  define bs where "bs = (bits_of_nat 2 (skip_some bd) @ concat (map (\<lambda>i. length_bits (bd ! i)) stored)) @ concat (map (run_bits W) rs)"
  define f where "f w = fold (store_run bd' sy) rs (store_code_length_code k bd w)" for w
  have each: "bd' ! ix \<le> 5 \<and> sy ! ix < 2 ^ (bd' ! ix) \<and> (W ix, ix) \<in> length_code bd (used_lengths bd)" if "(ix, extra) \<in> set rs" for ix extra
    using t(6) [OF that] by (simp add: Let_def W_def sy_def bd'_def)
  show thesis
  proof (rule that [of tree' f bs])
    show "store_huffman_tree depths num tree w = Some (tree', f w)" for w
      by (simp add: store_huffman_tree_def Let_def rs_def [symmetric] t(1,2) f_def sy_def [symmetric] bd'_def)
    have "wr.emits (fold (store_run bd' sy) rs) (concat (map (run_bits W) rs))"
    proof (rule wr.emits_fold)
      fix p assume p: "p \<in> set rs"
      obtain ix extra where pe: "p = (ix, extra)" by (cases p)
      show "wr.emits (store_run bd' sy p) (run_bits W p)"
        using emits_store_run [of ix extra bd' sy] each [of ix extra] p ok unfolding pe W_def [abs_def] by blast
    qed
    then show "wr.emits f bs"
      unfolding f_def [abs_def] bs_def stored_def by (rule wr.emits_comp [OF emits_code_length_code [OF t(3,4)]])
    note so = stored_codes [OF t(3,5)]
    show "described alph bs (take num depths)"
      unfolding described_def
    proof (intro allI impI)
      fix b s rest
      assume ar: "arrays_ok b" and st: "b_stage b = Start" and rk: "reader_ok s" and str: "stream s = bs @ rest"
      have "stream s = bits_of_nat 2 (skip_some bd) @ concat (map (\<lambda>i. length_bits (bd ! i)) stored) @ concat (map (run_bits W) rs) @ rest"
        using str by (simp add: bs_def)
      moreover have "skip_some bd < 2 ^ 2" using skip_some_spec(1) [of bd] by simp
      ultimately obtain s1 where s1: "read 2 s = (Inr (Some (skip_some bd)), s1)" "reader_ok s1"
        "stream s1 = concat (map (\<lambda>i. length_bits (bd ! i)) stored) @ concat (map (run_bits W) rs) @ rest" "same_call s s1"
        by (rule field_read [OF rk]) simp_all
      define b1 where "b1 = b\<lparr>b_index := skip_some bd, b_space := 32, b_count := 0, b_small := replicate 18 0, b_stage := CodeLengths\<rparr>"
      have start: "read_start (b, s) = (Inr True, b1, s1)"
        using skip_some_spec(2) [of bd] by (simp add: read_start_def s1(1) b1_def Let_def)
      have "length_fields b1 bd (skip_some bd)"
        unfolding length_fields_def so(3) by (simp add: b1_def used_lengths_def)
      from code_lengths_read [OF t(3,4) so(2,4,5,6,1) this s1(2) s1(3) [unfolded stored_def]]
      obtain b2 s2 where cl: "code_lengths (b1, s1) = (Inr True, symbols_start bd b2, s2)" "reader_ok s2"
        "stream s2 = concat (map (run_bits W) rs) @ rest" "same_call s1 s2" "b_next b2 = b_next b1" "b_small b2 = bd" "b_symbols b2 = b_symbols b1"
        by blast
      have "kraft LENGTH_BITS bd = 2 ^ LENGTH_BITS \<or> used_lengths bd = 1" using t(5) by (auto simp: LENGTH_BITS_def)
      then have "used_lengths bd = 1 \<or> kraft LENGTH_BITS bd = 2 ^ LENGTH_BITS" by blast
      note lc = length_code_build_carries [OF t(4,3) this]
      have al0: "0 < alph" using al(1) mn m0 by simp
      have nx: "length (b_next b2) = MAX_ALPHABET" using ar cl(5) by (simp add: b1_def arrays_ok_def)
      have mir: "mirrors alph expansion_start (symbols_start bd b2)" by (rule symbols_start_mirrors [OF nx al0 al(2)])
      have carry: "length_carries (b_code (symbols_start bd b2)) (length_code bd (used_lengths bd))"
        using lc(2) by (simp add: symbols_start_def clear_def)
      have stg: "b_stage (symbols_start bd b2) = Symbols" by (simp add: symbols_start_def)
      have room: "length (lengths (expand expansion_start rs)) \<le> alph" using al(1) mn by (simp add: ex(1))
      have words: "\<forall>p\<in>set rs. (W (fst p), fst p) \<in> length_code bd (used_lengths bd)" using each by force
      have kex: "kraft MAX_LENGTH (lengths (expand expansion_start rs)) = 2 ^ MAX_LENGTH" unfolding ex(1) by (rule km)
      obtain b3 s3 where cs: "code_symbols alph (symbols_start bd b2, s2) = (Inr True, b3\<lparr>b_stage := Start\<rparr>, s3)"
        "reading alph (take m depths) b3" "same_arrays (symbols_start bd b2) b3" "reader_ok s3" "stream s3 = rest" "same_call s2 s3"
        using code_symbols_read [OF mir ok room kex _ stg cl(2) lc(1) carry words cl(3)] last unfolding ex(1) by blast
      have "builder_read alph (b, s) = (Inr True, b3\<lparr>b_stage := Start\<rparr>, s3)"
        using st al(2) al0 start cl(1) cs(1) stg
        by (simp add: builder_read_def and_then_def read_complex_def resume_symbols_def b1_def)
      moreover have "same_call s s3" using s1(4) cl(4) cs(6) same_call_trans by blast
      moreover have "coded (take num depths) = coded (take m depths)" unfolding ex(2) coded_replicate by simp
      moreover have "arrays_ok (b3\<lparr>b_stage := Start\<rparr>)"
        using cs(3) cl(5-7) ar reading_code_ok(3) [OF cs(2)] t(3)
        by (simp add: same_arrays_def arrays_ok_def symbols_start_def clear_def b1_def)
      ultimately show "\<exists>b' s'. builder_read alph (b, s) = (Inr True, b', s') \<and> reader_ok s' \<and> stream s' = rest \<and> same_call s s' \<and>
          code_ok b' (coded (take num depths)) \<and> arrays_ok b' \<and> b_stage b' = Start \<and> b_last b' < alph"
        using cs(4,5) reading_code_ok(1,2) [OF cs(2)] by (intro exI [of _ "b3\<lparr>b_stage := Start\<rparr>"] exI [of _ s3]) simp
    qed
  qed
qed

end
