(* ===== verification/Simple_Roundtrip.thy ===== *)
theory Simple_Roundtrip
  imports Description_Roundtrip
begin

text \<open>
  The simple form of a description: the exchange sort by depth, the shapes two to four symbols of a
  complete code can have, and the reader's acceptance of what \<open>store_simple_code\<close> writes.
\<close>

section \<open>The order the simple form stores\<close>

definition ordered_to :: "nat list \<Rightarrow> nat \<Rightarrow> nat list \<Rightarrow> nat \<Rightarrow> nat \<Rightarrow> nat list \<Rightarrow> bool" where
  "ordered_to depth k xs i j ys \<longleftrightarrow> mset ys = mset xs \<and> drop k ys = drop k xs \<and>
     (\<forall>a<i. \<forall>b<k. a < b \<longrightarrow> depth ! (ys ! a) \<le> depth ! (ys ! b)) \<and>
     (\<forall>b<j. i < b \<longrightarrow> depth ! (ys ! i) \<le> depth ! (ys ! b))"

lemma swap_symbols_ordered:
  assumes "ordered_to depth k xs i j ys" "i < j" "j < k" "k \<le> length xs"
  shows "ordered_to depth k xs i (Suc j) (swap_symbols depth i j ys)"
proof (cases "depth ! (ys ! j) < depth ! (ys ! i)")
  case False
  then show ?thesis using assms by (auto simp: swap_symbols_def ordered_to_def less_Suc_eq)
next
  case True
  note o = assms(1) [unfolded ordered_to_def]
  define zs where "zs = ys[i := ys ! j, j := ys ! i]"
  have len: "length ys = length xs" using o mset_eq_length by blast
  have ij: "i < length ys" "j < length ys" using assms(2-4) len by simp_all
  have z: "zs ! m = (if m = j then ys ! i else if m = i then ys ! j else ys ! m)" if "m < length ys" for m
    using that ij by (simp add: zs_def nth_list_update)
  have "mset zs = mset xs" using o mset_swap [OF ij] assms(2) by (simp add: zs_def list_update_swap)
  moreover have "drop k zs = drop k xs" using o assms(2,3) by (simp add: zs_def)
  moreover have "depth ! (zs ! a) \<le> depth ! (zs ! b)" if "a < i" "b < k" "a < b" for a b
    using that o z assms(2-4) len by (auto split: if_splits)
  moreover have "depth ! (zs ! i) \<le> depth ! (zs ! b)" if "b < Suc j" "i < b" for b
    using that o z assms(2-4) len True by (auto simp: less_Suc_eq split: if_splits intro: order.trans less_imp_le)
  ultimately show ?thesis using True by (simp add: swap_symbols_def ordered_to_def zs_def)
qed

lemma order_symbols_sorts:
  assumes "k \<le> length xs"
  shows "mset (order_symbols depth k xs) = mset xs" "drop k (order_symbols depth k xs) = drop k xs"
    "sorted (map ((!) depth) (take k (order_symbols depth k xs)))"
proof -
  have inner: "ordered_to depth k xs i (Suc i + d) (fold (swap_symbols depth i) [i + 1..<Suc i + d] ys)"
    if "ordered_to depth k xs i (Suc i) ys" "Suc i + d \<le> k" for i d ys
    using that
  proof (induction d)
    case (Suc d)
    then show ?case using swap_symbols_ordered [of depth k xs i "Suc i + d"] assms by simp
  qed simp
  have "ordered_to depth k xs i (Suc i) (fold (\<lambda>i. fold (swap_symbols depth i) [i + 1..<k]) [0..<i] xs)" if "i \<le> k" for i
    using that
  proof (induction i)
    case 0
    show ?case by (auto simp: ordered_to_def)
  next
    case (Suc i)
    let ?ys = "fold (\<lambda>i. fold (swap_symbols depth i) [i + 1..<k]) [0..<i] xs"
    have "ordered_to depth k xs i (Suc i + (k - Suc i)) (fold (swap_symbols depth i) [i + 1..<Suc i + (k - Suc i)] ?ys)"
      by (rule inner) (use Suc in simp_all)
    then have "ordered_to depth k xs i k (fold (swap_symbols depth i) [i + 1..<k] ?ys)" using Suc.prems by simp
    then show ?case by (auto simp: ordered_to_def less_Suc_eq)
  qed
  from this [of k] have o: "ordered_to depth k xs k (Suc k) (order_symbols depth k xs)" by (simp add: order_symbols_def)
  then show "mset (order_symbols depth k xs) = mset xs" "drop k (order_symbols depth k xs) = drop k xs" by (simp_all add: ordered_to_def)
  have "length (order_symbols depth k xs) = length xs" using o unfolding ordered_to_def by (blast dest: mset_eq_length)
  then show "sorted (map ((!) depth) (take k (order_symbols depth k xs)))"
    using o assms by (auto simp: ordered_to_def sorted_iff_nth_mono_less)
qed

section \<open>The shapes of a complete code of two to four symbols\<close>

definition space :: "nat \<Rightarrow> nat" where
  "space d = 2 ^ (15 - d)"

lemma space_mono: "e \<le> d \<Longrightarrow> space d \<le> space e"
  by (simp add: space_def)

lemma space_pos: "0 < space d"
  by (simp add: space_def)

lemma space_Suc: "d < 15 \<Longrightarrow> space d = 2 * space (Suc d)"
  by (simp add: space_def Suc_diff_Suc flip: power_Suc)

lemma space_inj: "space d = space e \<Longrightarrow> d \<le> 15 \<Longrightarrow> e \<le> 15 \<Longrightarrow> d = e"
  by (simp add: space_def)

lemma pair_depths:
  assumes "space b + space c = space e" "e < 15" "b \<le> 15" "c \<le> 15"
  shows "b = Suc e \<and> c = Suc e"
proof -
  have "e < b"
  proof (rule ccontr)
    assume "\<not> e < b"
    then show False using space_mono [of b e] space_pos [of c] assms(1) by simp
  qed
  moreover have "e < c"
  proof (rule ccontr)
    assume "\<not> e < c"
    then show False using space_mono [of c e] space_pos [of b] assms(1) by simp
  qed
  ultimately have "Suc e \<le> b" "Suc e \<le> c" by simp_all
  then have "space b \<le> space (Suc e)" "space c \<le> space (Suc e)" by (simp_all add: space_mono)
  moreover have "space b + space c = 2 * space (Suc e)" using assms(1) space_Suc [OF assms(2)] by simp
  ultimately have "space b = space (Suc e)" "space c = space (Suc e)" by linarith+
  then show ?thesis using space_inj assms by (meson Suc_leI)
qed

lemma simple_shapes:
  assumes "sorted ds" "\<forall>d\<in>set ds. 1 \<le> d \<and> d \<le> 15" "(\<Sum>d\<leftarrow>ds. space d) = space 0" "2 \<le> length ds" "length ds \<le> 4"
  shows "ds = take (length ds) (shape_lengths (length ds) (of_bool (length ds = 4 \<and> hd ds = 1)))"
proof -
  have s: "space 0 = 2 ^ 15" "space 1 = 2 ^ 14" "space 2 = 2 ^ 13" "space 3 = 2 ^ 12" by (simp_all add: space_def)
  have two: "space d \<le> 2 ^ 13" if "2 \<le> d" for d using space_mono [OF that] s by simp
  have three: "space d \<le> 2 ^ 12" if "3 \<le> d" for d using space_mono [OF that] s by simp
  consider a b where "ds = [a, b]" | a b c where "ds = [a, b, c]" | a b c d where "ds = [a, b, c, d]"
    using assms(4,5) by (auto simp: numeral_eq_Suc le_Suc_eq length_Suc_conv)
  then show ?thesis
  proof cases
    case 1
    then have "space a + space b = space 0" "a \<le> 15" "b \<le> 15" using assms(2,3) by simp_all
    from pair_depths [OF this(1) _ this(2,3)] show ?thesis using 1 by (simp add: shape_lengths_def)
  next
    case 2
    have ab: "1 \<le> a" "a \<le> b" "b \<le> c" "c \<le> 15" "space a + space b + space c = 2 ^ 15" using 2 assms(1-3) s by simp_all
    have "a = 1"
    proof (rule ccontr)
      assume "a \<noteq> 1"
      then have "2 \<le> a" "2 \<le> b" "2 \<le> c" using ab by simp_all
      from two [OF this(1)] two [OF this(2)] two [OF this(3)] show False using ab(5) by simp
    qed
    moreover from this have "space b + space c = space 1" using ab(5) s by simp
    from pair_depths [OF this] have "b = 2 \<and> c = 2" using ab by simp
    ultimately show ?thesis using 2 by (simp add: shape_lengths_def)
  next
    case 3
    have ab: "1 \<le> a" "a \<le> b" "b \<le> c" "c \<le> d" "d \<le> 15" "space a + space b + space c + space d = 2 ^ 15"
      using 3 assms(1-3) s by simp_all
    have a2: "a \<le> 2"
    proof (rule ccontr)
      assume "\<not> a \<le> 2"
      then have "3 \<le> a" "3 \<le> b" "3 \<le> c" "3 \<le> d" using ab by simp_all
      from three [OF this(1)] three [OF this(2)] three [OF this(3)] three [OF this(4)] show False using ab(6) by simp
    qed
    show ?thesis
    proof (cases "a = 2")
      case True
      then have "2 \<le> b" "2 \<le> c" "2 \<le> d" using ab by simp_all
      from two [OF this(1)] two [OF this(2)] two [OF this(3)]
      have "space b = space 2" "space c = space 2" "space d = space 2" using ab(6) True s by simp_all
      then have "b = 2" "c = 2" "d = 2" using space_inj ab by simp_all
      then show ?thesis using 3 True by (simp add: shape_lengths_def)
    next
      case False
      then have a: "a = 1" using a2 ab(1) by simp
      then have r: "space b + space c + space d = 2 ^ 14" using ab(6) s by simp
      have "b \<noteq> 1" using r s space_pos [of c] by auto
      moreover have "b \<le> 2"
      proof (rule ccontr)
        assume "\<not> b \<le> 2"
        then have "3 \<le> b" "3 \<le> c" "3 \<le> d" using ab by simp_all
        from three [OF this(1)] three [OF this(2)] three [OF this(3)] show False using r by simp
      qed
      ultimately have b: "b = 2" using ab(1,2) by simp
      then have "space c + space d = space 2" using r s by simp
      from pair_depths [OF this] have "c = 3 \<and> d = 3" using ab by simp
      then show ?thesis using 3 a b by (simp add: shape_lengths_def)
    qed
  qed
qed

section \<open>Reading the symbols back\<close>

lemma bit_length_less: "n < 2 ^ bit_length n"
proof (induction n rule: bit_length.induct)
  case (1 n)
  show ?case
  proof (cases "n = 0")
    case False
    then have "n div 2 < 2 ^ bit_length (n div 2)" using 1 by simp
    then have "n < 2 * 2 ^ bit_length (n div 2)" by linarith
    then show ?thesis using False by (subst bit_length.simps) simp
  qed simp
qed

lemma symbol_width: "symbol < alph \<Longrightarrow> symbol < 2 ^ bit_length (alph - 1)"
  using bit_length_less [of "alph - 1"] by linarith

lemma width_small: "alph \<le> MAX_ALPHABET \<Longrightarrow> bit_length (alph - 1) \<le> 16"
  by (rule bit_length_bound) (simp add: MAX_ALPHABET_def)

lemma simple_symbols_read:
  assumes "distinct xs" "\<forall>x\<in>set xs. x < alph" "alph \<le> MAX_ALPHABET" "length xs \<le> 4"
    and "i \<le> length xs" "b_index b = i" "b_count b = length xs" "take i (b_symbols b) = take i xs" "length (b_symbols b) = 4"
    and "reader_ok s" "stream s = concat (map (bits_of_nat (bit_length (alph - 1))) (drop i xs)) @ rest"
  shows "\<exists>b' s'. simple_symbols alph (b, s) = (Inr True, b', s') \<and> take (length xs) (b_symbols b') = xs \<and> length (b_symbols b') = 4 \<and>
    b_count b' = length xs \<and> b_stage b' = SimpleShape \<and> b_next b' = b_next b \<and> b_small b' = b_small b \<and>
    reader_ok s' \<and> stream s' = rest \<and> same_call s s'"
  using assms(5-)
proof (induction "length xs - i" arbitrary: i b s)
  case 0
  then have i: "i = length xs" by simp
  then have c: "\<not> b_index b < b_count b" using "0.prems" by simp
  have "simple_symbols alph (b, s) = (Inr True, b\<lparr>b_stage := SimpleShape\<rparr>, s)"
    unfolding simple_symbols.simps [of alph b s] if_not_P [OF c] ..
  then show ?case using "0.prems" i by simp
next
  case (Suc d)
  have i: "i < length xs" using Suc.hyps(2) by simp
  then have c: "b_index b < b_count b" using Suc.prems by simp
  define x where "x = xs ! i"
  have x: "x < alph" using i assms(2) by (simp add: x_def)
  have "stream s = bits_of_nat (bit_length (alph - 1)) x @ concat (map (bits_of_nat (bit_length (alph - 1))) (drop (Suc i) xs)) @ rest"
    using Suc.prems(7) i by (simp add: x_def flip: Cons_nth_drop_Suc)
  moreover have "bit_length (alph - 1) \<le> 56" using width_small [OF assms(3)] by simp
  ultimately obtain s1 where rd: "read (bit_length (alph - 1)) s = (Inr (Some x), s1)" "reader_ok s1"
    "stream s1 = concat (map (bits_of_nat (bit_length (alph - 1))) (drop (Suc i) xs)) @ rest" "same_call s s1"
    by (rule field_read [OF Suc.prems(6) _ symbol_width [OF x]])
  have fresh: "\<not> (x \<ge> alph \<or> x \<in> set (take (b_index b) (b_symbols b)))"
  proof -
    have "x \<notin> set (take i xs)" using assms(1) i by (auto simp: x_def in_set_conv_nth nth_eq_iff_index_eq)
    then show ?thesis using x Suc.prems(2,4) by simp
  qed
  define b1 where "b1 = b\<lparr>b_symbols := (b_symbols b)[b_index b := x], b_index := b_index b + 1\<rparr>"
  have st: "simple_symbols alph (b, s) = simple_symbols alph (b1, s1)"
    unfolding simple_symbols.simps [of alph b s] if_P [OF c] rd(1) using fresh by (simp add: b1_def)
  have "take (Suc i) (b_symbols b1) = take (Suc i) xs"
    using Suc.prems(2,4,5) i assms(4) by (simp add: b1_def take_Suc_conv_app_nth x_def)
  then have "\<exists>b' s'. simple_symbols alph (b1, s1) = (Inr True, b', s') \<and> take (length xs) (b_symbols b') = xs \<and> length (b_symbols b') = 4 \<and>
    b_count b' = length xs \<and> b_stage b' = SimpleShape \<and> b_next b' = b_next b1 \<and> b_small b' = b_small b1 \<and>
    reader_ok s' \<and> stream s' = rest \<and> same_call s1 s'"
    by (intro Suc.hyps(1)) (use Suc.hyps(2) Suc.prems i rd in \<open>simp_all add: b1_def\<close>)
  then show ?case unfolding st using same_call_trans [OF rd(4)] by (simp add: b1_def) blast
qed

lemma by_length_coded:
  assumes xs: "distinct xs" "set xs = {s. s < length ds \<and> ds ! s \<noteq> 0}" and ds: "\<forall>d\<in>set ds. d \<le> MAX_LENGTH"
    and ok: "code_ok b (by_length (sort_pairs (map (\<lambda>s. (ds ! s, s)) xs)))"
  shows "by_length (sort_pairs (map (\<lambda>s. (ds ! s, s)) xs)) = coded ds"
proof (rule ext)
  fix l
  define ps where "ps = sort_pairs (map (\<lambda>s. (ds ! s, s)) xs)"
  have sp: "set ps = (\<lambda>s. (ds ! s, s)) ` set xs" unfolding ps_def using mset_eq_setD [OF sort_pairs_sorts(2)] by simp
  have mem: "s \<in> set (by_length ps l) \<longleftrightarrow> s \<in> set xs \<and> ds ! s = l" for s
    unfolding by_length_def set_map set_filter sp by (auto simp: image_iff)
  have set: "set (by_length ps l) = (if l = 0 then {} else {s. s < length ds \<and> ds ! s = l})"
    unfolding set_eq_iff mem xs(2) by (cases "l = 0") auto
  show "by_length (sort_pairs (map (\<lambda>s. (ds ! s, s)) xs)) l = coded ds l"
  proof (cases "l = 0 \<or> MAX_LENGTH < l")
    case True
    moreover have "ds ! s \<le> MAX_LENGTH" if "s < length ds" for s using ds nth_mem [OF that] by blast
    ultimately have "{s. s < length ds \<and> ds ! s = l} = {} \<or> l = 0" by force
    then have "set (by_length ps l) = {}" "set (coded ds l) = {}"
      unfolding set coded_def if_distrib [of set] set_symbols_of by auto
    then show ?thesis by (simp add: ps_def)
  next
    case False
    have "lists_ok b (by_length ps)" using ok by (simp add: code_ok_def ps_def)
    from lists_okD(9) [OF this, of l] have "sorted_wrt (<) (by_length ps l)" using False by simp
    moreover have "sorted_wrt (<) (coded ds l)" using False sorted_symbols_of by (simp add: coded_def)
    moreover have "set (by_length ps l) = set (coded ds l)" using set False by (simp add: coded_def set_symbols_of)
    ultimately have "by_length ps l = coded ds l" by (intro strict_sorted_equal)
    then show ?thesis by (simp only: ps_def)
  qed
qed

text \<open>What the simple form writes for the used symbols \<open>xs\<close> of the lengths \<open>ds\<close>.\<close>

lemma store_simple_code_described:
  fixes depth :: "nat list" and n :: nat
  defines "ds \<equiv> take n depth"
  assumes n: "n \<le> length depth" and ds: "\<forall>d\<in>set ds. d \<le> MAX_LENGTH" "kraft MAX_LENGTH ds = 2 ^ MAX_LENGTH"
    and arr: "length arr = 4" "k \<le> 4" "2 \<le> k" "distinct (take k arr)" "set (take k arr) = {s. s < n \<and> depth ! s \<noteq> 0}"
    and al: "n \<le> alph" "alph \<le> MAX_ALPHABET"
  shows "\<exists>bs. wr.emits (store_simple_code depth arr k (bit_length (alph - 1))) bs \<and> described alph bs ds"
proof -
  define ys where "ys = take k (order_symbols depth k arr)"
  define mb where "mb = bit_length (alph - 1)"
  define shape where "shape = (of_bool (k = 4 \<and> depth ! (ys ! 0) = 1) :: nat)"
  have ka: "k \<le> length arr" using arr by simp
  note os = order_symbols_sorts [OF ka, of depth]
  have len: "length (order_symbols depth k arr) = 4" using mset_eq_length [OF os(1)] arr(1) by simp
  have lk: "length ys = k" using len arr(2) by (simp add: ys_def)
  have "mset ys + mset (drop k arr) = mset (take k arr) + mset (drop k arr)"
    unfolding ys_def mset_append [symmetric] by (subst os(2) [symmetric], unfold append_take_drop_id) (rule os(1))
  then have ms: "mset ys = mset (take k arr)" by simp
  have dist: "distinct ys" and sety: "set ys = {s. s < n \<and> depth ! s \<noteq> 0}"
    using mset_eq_imp_distinct_iff [OF ms] mset_eq_setD [OF ms] arr(4,5) by simp_all
  have small: "\<forall>x\<in>set ys. x < alph" using sety al(1) by auto
  have ld: "length ds = n" using n by (simp add: ds_def)
  have nth: "ds ! s = depth ! s" if "s < n" for s using that by (simp add: ds_def)
  have setd: "set ys = {s. s < length ds \<and> ds ! s \<noteq> 0}" using sety ld nth by auto
  have dmap: "map ((!) ds) ys = map ((!) depth) ys" using sety nth by simp
  have dle: "1 \<le> ds ! s \<and> ds ! s \<le> 15" if "s \<in> set ys" for s
    using that setd ds(1) nth_mem by (fastforce simp: MAX_LENGTH_def)
  have "(\<Sum>d\<leftarrow>map ((!) ds) ys. space d) = kraft MAX_LENGTH ds"
  proof -
    have "(\<Sum>d\<leftarrow>map ((!) ds) ys. space d) = (\<Sum>s\<in>set ys. space (ds ! s))"
      using dist by (simp add: sum_list_distinct_conv_sum_set comp_def)
    also have "\<dots> = (\<Sum>s\<in>set ys. if ds ! s = 0 then 0 else 2 ^ (MAX_LENGTH - ds ! s))"
      unfolding setd by (rule sum.cong) (simp_all add: space_def MAX_LENGTH_def)
    also have "\<dots> = (\<Sum>s<length ds. if ds ! s = 0 then 0 else 2 ^ (MAX_LENGTH - ds ! s))"
      unfolding setd by (rule sum.mono_neutral_left) auto
    finally show ?thesis by (simp only: kraft_nth)
  qed
  then have sp: "(\<Sum>d\<leftarrow>map ((!) ds) ys. space d) = space 0" using ds(2) by (simp add: space_def MAX_LENGTH_def)
  have hd: "hd (map ((!) ds) ys) = depth ! (ys ! 0)" using lk arr(3) unfolding dmap by (cases ys) simp_all
  have srt: "sorted (map ((!) ds) ys)" unfolding dmap by (rule os(3) [folded ys_def])
  have "map ((!) ds) ys = take k (shape_lengths k (of_bool (k = 4 \<and> hd (map ((!) ds) ys) = 1)))"
    using simple_shapes [OF srt _ sp] dle lk arr(2,3) by simp
  then have shp: "take k (shape_lengths k shape) = map ((!) ds) ys" unfolding hd shape_def by simp
  define bs where "bs = ((bits_of_nat 2 1 @ bits_of_nat 2 (k - 1)) @ concat (map (bits_of_nat mb) ys)) @
    (if k = 4 then bits_of_nat 1 (of_bool (depth ! (ys ! 0) = 1)) else [])"
  have mb: "mb \<le> 16" using width_small [OF al(2)] by (simp add: mb_def)
  have e1: "wr.emits (\<lambda>w. write_bits 2 (k - 1) (write_bits 2 1 w)) (bits_of_nat 2 1 @ bits_of_nat 2 (k - 1))"
    using arr(2) by (intro wr.emits_then_put wr.emits_put) (simp_all add: MAX_BITS_PER_WRITE_def)
  have e2: "wr.emits (fold (write_bits mb) ys) (concat (map (bits_of_nat mb) ys))"
    using mb small symbol_width by (intro wr.emits_fold wr.emits_put) (auto simp: MAX_BITS_PER_WRITE_def mb_def)
  have "wr.emits (\<lambda>w. (\<lambda>w2. if k = 4 then write_bits 1 (of_bool (depth ! (ys ! 0) = 1)) w2 else w2)
      (fold (write_bits mb) ys (write_bits 2 (k - 1) (write_bits 2 1 w)))) bs"
    unfolding bs_def
  proof (rule wr.emits_comp [OF wr.emits_comp [OF e1 e2]])
    show "wr.emits (\<lambda>w2. if k = 4 then write_bits 1 (of_bool (depth ! (ys ! 0) = 1)) w2 else w2)
      (if k = 4 then bits_of_nat 1 (of_bool (depth ! (ys ! 0) = 1)) else [])"
      using wr.emits_put [of 1 "of_bool (depth ! (ys ! 0) = 1)"] wr.emits_id by (simp add: MAX_BITS_PER_WRITE_def)
  qed
  moreover have "(\<lambda>w. (\<lambda>w2. if k = 4 then write_bits 1 (of_bool (depth ! (ys ! 0) = 1)) w2 else w2)
      (fold (write_bits mb) ys (write_bits 2 (k - 1) (write_bits 2 1 w)))) = store_simple_code depth arr k mb"
  proof (rule ext)
    fix w
    have "ys ! 0 = order_symbols depth k arr ! 0" using arr(3) by (simp add: ys_def)
    then show "(\<lambda>w2. if k = 4 then write_bits 1 (of_bool (depth ! (ys ! 0) = 1)) w2 else w2)
      (fold (write_bits mb) ys (write_bits 2 (k - 1) (write_bits 2 1 w))) = store_simple_code depth arr k mb w"
      unfolding store_simple_code_def Let_def ys_def [symmetric] by simp
  qed
  ultimately have emits: "wr.emits (store_simple_code depth arr k mb) bs" by simp
  have "described alph bs ds"
    unfolding described_def
  proof (intro allI impI)
    fix b s rest
    assume ar: "arrays_ok b" and st: "b_stage b = Start" and rk: "reader_ok s" and str: "stream s = bs @ rest"
    define tail where "tail = (if k = 4 then bits_of_nat 1 (of_bool (depth ! (ys ! 0) = 1)) else []) @ rest"
    have "stream s = bits_of_nat 2 1 @ bits_of_nat 2 (k - 1) @ concat (map (bits_of_nat mb) ys) @ tail"
      using str by (simp add: bs_def tail_def)
    then obtain s1 where s1: "read 2 s = (Inr (Some 1), s1)" "reader_ok s1"
      "stream s1 = bits_of_nat 2 (k - 1) @ concat (map (bits_of_nat mb) ys) @ tail" "same_call s s1"
      by (rule field_read [OF rk]) simp_all
    have "k - 1 < 2 ^ 2" using arr(2) by simp
    then obtain s2 where s2: "read 2 s1 = (Inr (Some (k - 1)), s2)" "reader_ok s2"
      "stream s2 = concat (map (bits_of_nat mb) ys) @ tail" "same_call s1 s2"
      by (rule field_read [OF s1(2,3)]) simp_all
    define b1 where "b1 = b\<lparr>b_index := 1, b_space := 32, b_count := 0, b_stage := SimpleCount\<rparr>"
    define b2 where "b2 = b1\<lparr>b_count := k, b_index := 0, b_stage := SimpleSymbols\<rparr>"
    have q1: "read_start (b, s) = (Inr True, b1, s1)" by (simp add: read_start_def s1(1) b1_def)
    have q2: "simple_count (b1, s1) = (Inr True, b2, s2)" using arr(3) by (simp add: simple_count_def s2(1) b2_def)
    have four: "length (b_symbols b2) = 4" using ar by (simp add: b2_def b1_def arrays_ok_def)
    have "stream s2 = concat (map (bits_of_nat (bit_length (alph - 1))) (drop 0 ys)) @ tail" using s2(3) by (simp add: mb_def)
    moreover have "length ys \<le> 4" "0 \<le> length ys" "b_index b2 = 0" "b_count b2 = length ys" "take 0 (b_symbols b2) = take 0 ys"
      using lk arr(2) by (simp_all add: b2_def)
    ultimately have "\<exists>b' s'. simple_symbols alph (b2, s2) = (Inr True, b', s') \<and> take (length ys) (b_symbols b') = ys \<and> length (b_symbols b') = 4 \<and>
      b_count b' = length ys \<and> b_stage b' = SimpleShape \<and> b_next b' = b_next b2 \<and> b_small b' = b_small b2 \<and>
      reader_ok s' \<and> stream s' = tail \<and> same_call s2 s'"
      by (intro simple_symbols_read [OF dist small al(2) _ _ _ _ _ four s2(2)])
    then obtain b3 s3 where q3: "simple_symbols alph (b2, s2) = (Inr True, b3, s3)" "take k (b_symbols b3) = ys" "length (b_symbols b3) = 4"
      "b_count b3 = k" "b_stage b3 = SimpleShape" "b_next b3 = b_next b2" "b_small b3 = b_small b2"
      "reader_ok s3" "stream s3 = tail" "same_call s2 s3"
      unfolding lk by blast
    have "\<exists>s4. simple_shape (b3, s3) = (Inr True, simple_finish shape b3, s4) \<and> reader_ok s4 \<and> stream s4 = rest \<and> same_call s3 s4"
    proof (cases "k = 4")
      case True
      then have "stream s3 = bits_of_nat 1 shape @ rest" using q3(9) by (simp add: tail_def shape_def)
      moreover have "shape < 2 ^ 1" by (simp add: shape_def)
      ultimately obtain s4 where "read 1 s3 = (Inr (Some shape), s4)" "reader_ok s4" "stream s4 = rest" "same_call s3 s4"
        by (rule field_read [OF q3(8)]) simp_all
      then show ?thesis using True q3(4) by (intro exI [of _ s4]) (simp add: simple_shape_def)
    next
      case False
      then show ?thesis using q3(4,8,9) by (simp add: simple_shape_def shape_def tail_def)
    qed
    then obtain s4 where q4: "simple_shape (b3, s3) = (Inr True, simple_finish shape b3, s4)" "reader_ok s4" "stream s4 = rest" "same_call s3 s4"
      by blast
    have ready: "simple_ready alph b3" using q3(2,4) arr(2,3) dist small by (simp add: simple_ready_def)
    have ar3: "arrays_ok b3" using ar q3(3,6,7) by (simp add: arrays_ok_def b2_def b1_def)
    have al0: "0 < alph" using small lk arr(3) by (cases ys) auto
    note sf = simple_finish_accepted [OF ready ar3 al0 al(2), of shape]
    have zip: "take k (zip (shape_lengths k shape) (b_symbols b3)) = map (\<lambda>s. (ds ! s, s)) ys"
      unfolding take_zip shp q3(2) by (simp add: zip_map1 zip_same_conv_map)
    have "code_ok (simple_finish shape b3) (coded ds)"
      using sf(3) by_length_coded [OF dist setd ds(1), of "simple_finish shape b3"] unfolding q3(4) zip by simp
    moreover have "builder_read alph (b, s) = (Inr True, simple_finish shape b3, s4)"
      using st al(2) al0 q1 q2 q3(1) q4(1)
      by (simp add: builder_read_def and_then_def read_simple_def read_simple_symbols_def b1_def)
    moreover have "same_call s s4" using s1(4) s2(4) q3(10) q4(4) same_call_trans by blast
    ultimately show "\<exists>b' s'. builder_read alph (b, s) = (Inr True, b', s') \<and> reader_ok s' \<and> stream s' = rest \<and> same_call s s' \<and>
        code_ok b' (coded ds) \<and> arrays_ok b' \<and> b_stage b' = Start \<and> b_last b' < alph"
      using q4(2,3) sf(1,2) by (auto simp: accepted_def)
  qed
  then show ?thesis using emits unfolding mb_def by blast
qed

end
