(* ===== verification/Code_Roundtrip.thy ===== *)
theory Code_Roundtrip
  imports Simple_Roundtrip
begin

unbundle bit_operations_syntax

text \<open>
  The round trip of prefix codes: whatever histogram the encoder builds a code for, the bits it
  writes are a description the decoder accepts, and the decoder's code gives every used symbol the
  bit pattern the encoder writes for it. \<open>describes_code\<close> is the contract the users of prefix
  codes (block switches, context maps, the data stream) rely on.
\<close>

section \<open>The contract of a description\<close>

definition describes_code :: "nat \<Rightarrow> bool list \<Rightarrow> (bool list \<times> nat) set \<Rightarrow> bool" where
  "describes_code alph bs C \<longleftrightarrow> (\<forall>b s rest. arrays_ok b \<longrightarrow> b_stage b = Start \<longrightarrow> reader_ok s \<longrightarrow> stream s = bs @ rest \<longrightarrow>
     (\<exists>b' s' L. builder_read alph (b, s) = (Inr True, b', s') \<and> reader_ok s' \<and> stream s' = rest \<and> same_call s s' \<and>
       arrays_ok b' \<and> b_stage b' = Start \<and> b_last b' < alph \<and> code_ok b' L \<and> (b_total b' = 1 \<or> complete L) \<and> code_of b' L = C))"

lemma describes_codeD:
  assumes "describes_code alph bs C" "arrays_ok b" "b_stage b = Start" "reader_ok s" "stream s = bs @ rest"
  obtains b' s' L where "builder_read alph (b, s) = (Inr True, b', s')" "reader_ok s'" "stream s' = rest" "same_call s s'"
    "arrays_ok b'" "b_stage b' = Start" "b_last b' < alph" "code_ok b' L" "b_total b' = 1 \<or> complete L" "code_of b' L = C"
  using assms unfolding describes_code_def by blast

lemma described_code:
  assumes "described alph bs ds" "\<forall>d\<in>set ds. d \<le> MAX_LENGTH" "kraft MAX_LENGTH ds = 2 ^ MAX_LENGTH"
  shows "describes_code alph bs (canonical (symbols_of ds))"
proof -
  have full: "complete (coded ds)" using complete_kraft [OF assms(2)] assms(3) by simp
  have many: "b_total b \<noteq> 1" if "code_ok b (coded ds)" for b
  proof
    assume one: "b_total b = 1"
    have "lists_ok b (coded ds)" using that by (simp add: code_ok_def)
    then have t: "b_total b = (\<Sum>l\<le>MAX_LENGTH. length (coded ds l))" by (rule lists_okD(12))
    have "used_codes (coded ds) MAX_LENGTH \<le> (\<Sum>l\<in>{1..MAX_LENGTH}. length (coded ds l) * 2 ^ 14)"
      unfolding used_codes_sum by (intro sum_mono mult_le_mono2 power_increasing) (auto simp: MAX_LENGTH_def)
    also have "\<dots> \<le> (\<Sum>l\<le>MAX_LENGTH. length (coded ds l) * 2 ^ 14)" by (rule sum_mono2) auto
    also have "\<dots> = 2 ^ 14" using one t by (simp flip: sum_distrib_right)
    finally show False using full by (simp add: complete_def MAX_LENGTH_def)
  qed
  have co: "code_of b (coded ds) = canonical (symbols_of ds)" if "code_ok b (coded ds)" for b
    using many [OF that] by (simp add: code_of_def canonical_coded)
  show ?thesis
    unfolding describes_code_def
  proof (intro allI impI)
    fix b s rest
    assume "arrays_ok b" "b_stage b = Start" "reader_ok s" "stream s = bs @ rest"
    then obtain b' s' where r: "builder_read alph (b, s) = (Inr True, b', s')" "reader_ok s'" "stream s' = rest" "same_call s s'"
      "code_ok b' (coded ds)" "arrays_ok b'" "b_stage b' = Start" "b_last b' < alph"
      using assms(1) unfolding described_def by blast
    with co [OF r(5)] full show "\<exists>b' s' L. builder_read alph (b, s) = (Inr True, b', s') \<and> reader_ok s' \<and> stream s' = rest \<and> same_call s s' \<and>
       arrays_ok b' \<and> b_stage b' = Start \<and> b_last b' < alph \<and> code_ok b' L \<and> (b_total b' = 1 \<or> complete L) \<and> code_of b' L = canonical (symbols_of ds)"
      by (intro exI [of _ b'] exI [of _ s'] exI [of _ "coded ds"]) simp
  qed
qed

section \<open>Codes of at most one symbol\<close>

lemma single_described:
  assumes "symbol < alph" "alph \<le> MAX_ALPHABET"
  shows "describes_code alph (bits_of_nat 4 1 @ bits_of_nat (bit_length (alph - 1)) symbol) {([], symbol)}"
  unfolding describes_code_def
proof (intro allI impI)
  fix b s rest
  assume ar: "arrays_ok b" and st: "b_stage b = Start" and rk: "reader_ok s"
    and str: "stream s = (bits_of_nat 4 1 @ bits_of_nat (bit_length (alph - 1)) symbol) @ rest"
  have four: "bits_of_nat 4 1 = bits_of_nat 2 1 @ bits_of_nat 2 0" by (simp add: bit_eval bits_of_nat_Suc)
  have al: "0 < alph" using assms(1) by simp
  have "stream s = bits_of_nat 2 1 @ bits_of_nat 2 0 @ bits_of_nat (bit_length (alph - 1)) symbol @ rest" using str four by simp
  then obtain s1 where s1: "read 2 s = (Inr (Some 1), s1)" "reader_ok s1"
    "stream s1 = bits_of_nat 2 0 @ bits_of_nat (bit_length (alph - 1)) symbol @ rest" "same_call s s1"
    by (rule field_read [OF rk]) simp_all
  obtain s2 where s2: "read 2 s1 = (Inr (Some 0), s2)" "reader_ok s2"
    "stream s2 = bits_of_nat (bit_length (alph - 1)) symbol @ rest" "same_call s1 s2"
    by (rule field_read [OF s1(2,3)]) simp_all
  have "bit_length (alph - 1) \<le> 56" using width_small [OF assms(2)] by simp
  then obtain s3 where s3: "read (bit_length (alph - 1)) s2 = (Inr (Some symbol), s3)" "reader_ok s3" "stream s3 = rest" "same_call s2 s3"
    by (rule field_read [OF s2(2,3) symbol_width [OF assms(1)]])
  define b1 where "b1 = b\<lparr>b_index := 1, b_space := 32, b_count := 1, b_symbols := (b_symbols b)[0 := symbol], b_stage := SimpleShape\<rparr>"
  have br: "builder_read alph (b, s) = (Inr True, simple_finish 0 b1, s3)"
    unfolding b1_def by (rule builder_read_single [OF al assms(2) st s1(1) s2(1) s3(1) assms(1)])
  obtain x xs where sy: "b_symbols b = x # xs" using ar by (cases "b_symbols b") (simp_all add: arrays_ok_def)
  have ready: "simple_ready alph b1" using assms(1) by (simp add: simple_ready_def b1_def sy)
  have ar1: "arrays_ok b1" using ar by (simp add: arrays_ok_def b1_def)
  note sf = simple_finish_accepted [OF ready ar1 al assms(2), of 0]
  have "sort_pairs (take (b_count b1) (zip (shape_lengths (b_count b1) 0) (b_symbols b1))) = [(1, symbol)]"
    by (simp add: b1_def sy shape_lengths_def sort_pairs_def)
  then have last: "b_last (simple_finish 0 b1) = symbol" by (simp add: simple_finish_def Let_def)
  have tot: "b_total (simple_finish 0 b1) = 1" using sf(4) by (simp add: b1_def)
  have sc: "same_call s s3" using s1(4) s2(4) s3(4) same_call_trans by blast
  show "\<exists>b' s' L. builder_read alph (b, s) = (Inr True, b', s') \<and> reader_ok s' \<and> stream s' = rest \<and> same_call s s' \<and>
       arrays_ok b' \<and> b_stage b' = Start \<and> b_last b' < alph \<and> code_ok b' L \<and> (b_total b' = 1 \<or> complete L) \<and> code_of b' L = {([], symbol)}"
    apply (rule exI [of _ "simple_finish 0 b1"], rule exI [of _ s3], rule exI)
    apply (intro conjI, rule br, rule s3(2), rule s3(3), rule sc, rule sf(2))
        apply (use sf(1) in \<open>simp add: accepted_def\<close>, use sf(1) in \<open>simp add: accepted_def\<close>, rule sf(3))
     apply (simp_all add: code_of_def tot last)
    done
qed

section \<open>The symbols of a histogram\<close>

fun used_from :: "nat list \<Rightarrow> nat \<Rightarrow> nat list" where
  "used_from [] i = []"
| "used_from (x # hs) i = (if x \<noteq> 0 then i # used_from hs (Suc i) else used_from hs (Suc i))"

lemma in_used_from: "j \<in> set (used_from hs i) \<longleftrightarrow> i \<le> j \<and> j < i + length hs \<and> hs ! (j - i) \<noteq> 0"
proof (induction hs arbitrary: i)
  case (Cons x hs)
  show ?case
  proof (cases "Suc i \<le> j")
    case True
    then have e: "j - i = Suc (j - Suc i)" by simp
    have "(x # hs) ! (j - i) = hs ! (j - Suc i)" unfolding e by simp
    then show ?thesis using True Cons by simp
  next
    case False
    then have "j \<notin> set (used_from hs (Suc i))" using Cons [of "Suc i"] by simp
    then show ?thesis using False by (cases "j = i") simp_all
  qed
qed simp

lemma set_used_from: "set (used_from hs 0) = {j. j < length hs \<and> hs ! j \<noteq> 0}"
  by (rule set_eqI) (simp add: in_used_from)

lemma distinct_used_from: "distinct (used_from hs i)"
proof (induction hs arbitrary: i)
  case (Cons x hs)
  have "i \<notin> set (used_from hs (Suc i))" unfolding in_used_from by simp
  with Cons show ?case by simp
qed simp

lemma length_used_from: "length (used_from hs i) = length (filter (\<lambda>x. x \<noteq> 0) hs)"
  by (induction hs arbitrary: i) auto

lemma collect_symbols_spec:
  assumes "length arr = 4" "take c arr = pre" "c \<le> 4" "collect_symbols hs i (c, arr) = (c', arr')"
  shows "length arr' = 4 \<and> (if c + length (used_from hs i) \<le> 4
    then c' = c + length (used_from hs i) \<and> take c' arr' = pre @ used_from hs i else 4 < c')"
  using assms
proof (induction hs arbitrary: i c arr pre)
  case (Cons x hs)
  have five: "length arr' = 4 \<and> 4 < c'" if "collect_symbols hs i (5, arr) = (c', arr')" for hs i
    using that Cons.prems(1) by (induction hs arbitrary: i) (auto split: if_splits)
  show ?case
  proof (cases "x = 0")
    case True
    then have "collect_symbols hs (Suc i) (c, arr) = (c', arr')" using Cons.prems(4) by simp
    from Cons.IH [OF Cons.prems(1-3) this] True show ?thesis by (auto split: if_splits)
  next
    case x: False
    show ?thesis
    proof (cases "c < 4")
      case True
      then have "take (Suc c) (arr[c := i]) = pre @ [i]" using Cons.prems by (simp add: take_Suc_conv_app_nth)
      moreover have "collect_symbols hs (Suc i) (Suc c, arr[c := i]) = (c', arr')" using Cons.prems(4) x True by simp
      ultimately show ?thesis using Cons.IH [of "arr[c := i]" "Suc c" "pre @ [i]" "Suc i"] x True Cons.prems(1) by (auto split: if_splits)
    next
      case False
      then have "c = 4" using Cons.prems(3) by simp
      moreover from this have "collect_symbols hs (Suc i) (5, arr) = (c', arr')" using Cons.prems(4) x by simp
      ultimately show ?thesis using x five by simp
    qed
  qed
qed simp

lemma width_loop_eq: "width_loop n m = bit_length n + m"
proof (induction n arbitrary: m rule: bit_length.induct)
  case (1 n)
  then show ?case by (subst width_loop.simps, subst bit_length.simps) (simp add: shr_div)
qed

lemma collect_symbols_none: "used_from hs i = [] \<Longrightarrow> collect_symbols hs i (c, arr) = (c, arr)"
  by (induction hs arbitrary: i) (auto split: if_splits)

lemma length_convert [simp]: "length (convert_bit_depths_to_symbols depth n bits) = length bits"
proof -
  have "length (fst (fold (assign_code depth) is (bits, nc))) = length bits" for "is" nc
    by (induction "is" arbitrary: nc bits) (auto simp: assign_code_def Let_def split: prod.splits)
  then show ?thesis by (simp add: convert_bit_depths_to_symbols_def split_beta)
qed

section \<open>Building and storing a code\<close>

definition code_stored ::
    "nat list \<Rightarrow> nat \<Rightarrow> nat \<Rightarrow> nat list \<Rightarrow> nat list \<Rightarrow> bool list \<Rightarrow> bool" where
  "code_stored histogram n alph depth bits bs \<longleftrightarrow> (\<exists>C. describes_code alph bs C \<and>
     (\<forall>i<n. histogram ! i \<noteq> 0 \<longrightarrow> depth ! i \<le> MAX_LENGTH \<and> bits ! i < 2 ^ (depth ! i) \<and>
        (bits_of_nat (depth ! i) (bits ! i), i) \<in> C))"

lemma few_symbols_stored:
  assumes us: "used_from (take n histogram) 0 = us" "length us \<le> 1"
    and n: "0 < n" "n \<le> length histogram" "n \<le> length depth" "n \<le> length bits" "n \<le> alph" "alph \<le> MAX_ALPHABET"
  shows "\<exists>depth' bits' f bs. (\<forall>w. build_and_store_huffman_tree histogram n alph tree depth bits w = Some (tree, depth', bits', f w)) \<and>
    wr.emits f bs \<and> length depth' = length depth \<and> length bits' = length bits \<and> code_stored histogram n alph depth' bits' bs"
proof -
  obtain c arr where cs: "collect_symbols (take n histogram) 0 (0, replicate 4 0) = (c, arr)" by fastforce
  have sp: "length arr = 4" "c = length us" "take c arr = us"
    using collect_symbols_spec [OF _ _ _ cs, where pre = "[]"] us by auto
  have only: "i = arr ! 0" if i: "i < n" "histogram ! i \<noteq> 0" for i
  proof -
    have "i \<in> set us" unfolding us(1) [symmetric] set_used_from using i n by simp
    then have "us = [i]" using us(2) by (cases us) auto
    then have "take 1 arr = [i]" using sp by simp
    then show ?thesis by (cases arr) simp_all
  qed
  have small: "arr ! 0 < n"
  proof (cases us)
    case Nil
    then show ?thesis using collect_symbols_none [of "take n histogram" 0] us cs n(1) by auto
  next
    case (Cons x xs)
    then have "x \<in> set us" "take 1 arr = [x]" using us(2) sp by simp_all
    have "x < n" using \<open>x \<in> set us\<close> unfolding us(1) [symmetric] in_used_from by simp
    moreover have "arr ! 0 = x" using \<open>take 1 arr = [x]\<close> by (cases arr) simp_all
    ultimately show ?thesis by simp
  qed
  define f where "f w = write_bits (bit_length (alph - 1)) (arr ! 0) (write_bits 4 1 w)" for w
  have c1: "c \<le> 1" using us sp(2) by simp
  have run: "build_and_store_huffman_tree histogram n alph tree depth bits w = Some (tree, depth[arr ! 0 := 0], bits[arr ! 0 := 0], f w)" for w
    unfolding build_and_store_huffman_tree_def cs Let_def prod.case if_P [OF c1] width_loop_eq f_def by simp
  have al: "arr ! 0 < alph" using small n by simp
  have "bit_length (alph - 1) \<le> MAX_BITS_PER_WRITE" using width_small [OF n(6)] by (simp add: MAX_BITS_PER_WRITE_def)
  then have em: "wr.emits f (bits_of_nat 4 1 @ bits_of_nat (bit_length (alph - 1)) (arr ! 0))"
    unfolding f_def [abs_def] using symbol_width [OF al] by (intro wr.emits_then_put wr.emits_put) (simp_all add: MAX_BITS_PER_WRITE_def)
  have "code_stored histogram n alph (depth[arr ! 0 := 0]) (bits[arr ! 0 := 0]) (bits_of_nat 4 1 @ bits_of_nat (bit_length (alph - 1)) (arr ! 0))"
    unfolding code_stored_def using single_described [OF al n(6)] only small n by (intro exI [of _ "{([], arr ! 0)}"]) auto
  with run em show ?thesis
    by (intro exI [of _ "depth[arr ! 0 := 0]"] exI [of _ "bits[arr ! 0 := 0]"] exI [of _ f] exI
          [of _ "bits_of_nat 4 1 @ bits_of_nat (bit_length (alph - 1)) (arr ! 0)"]) simp
qed

lemma many_symbols_stored:
  assumes us: "used_from (take n histogram) 0 = us" "2 \<le> length us"
    and n: "n \<le> length histogram" "n \<le> NUM_COMMAND_SYMBOLS" "n \<le> length depth" "n \<le> length bits" "n \<le> alph" "alph \<le> MAX_ALPHABET"
    and M: "\<forall>i<n. histogram ! i \<le> M" "2 * M * n < 2 ^ 32 - 1"
  shows "\<exists>tree' depth' bits' f bs. (\<forall>w. build_and_store_huffman_tree histogram n alph tree depth bits w = Some (tree', depth', bits', f w)) \<and>
    wr.emits f bs \<and> length depth' = length depth \<and> length bits' = length bits \<and> code_stored histogram n alph depth' bits' bs"
proof -
  obtain c arr where cs: "collect_symbols (take n histogram) 0 (0, replicate 4 0) = (c, arr)" by fastforce
  have sp: "length arr = 4" "if length us \<le> 4 then c = length us \<and> take c arr = us else 4 < c"
    using collect_symbols_spec [OF _ _ _ cs, where pre = "[]"] us by (auto split: if_splits)
  have c1: "\<not> c \<le> 1" using sp(2) us(2) by (auto split: if_splits)
  define k where "k = length (filter (\<lambda>c. c \<noteq> 0) (take n histogram))"
  have k: "k = length us" using us(1) length_used_from [of "take n histogram" 0] by (simp add: k_def)
  have n704: "n \<le> 704" using n(2) by (simp add: NUM_COMMAND_SYMBOLS_def)
  have kn: "k \<le> n" unfolding k_def by (rule le_trans [OF length_filter_le]) simp
  let ?d0 = "replicate n 0 @ drop n depth"
  have "2 * M * k \<le> 2 * M * n" using kn by simp
  then have M': "2 * M * k < 2 ^ 32 - 1" using M(2) by (rule le_less_trans)
  have "k \<le> 2 ^ 15" "n < 2 ^ 14" using kn n704 by simp_all
  then obtain tree' depth' where t: "create_huffman_tree histogram n (int 15) tree ?d0 = Some (tree', depth')" "length depth' = length ?d0"
    "\<forall>i<n. (depth' ! i \<noteq> 0 \<longleftrightarrow> histogram ! i \<noteq> 0) \<and> depth' ! i \<le> 15" "kraft 15 (take n depth') = 2 ^ 15"
    using create_tree_returns [OF n(1) _ _ _ k_def _ _ M(1) M', of ?d0 15 tree] us(2) n(3) k by (auto simp: nth_append)
  define ds where "ds = take n depth'"
  define bits' where "bits' = convert_bit_depths_to_symbols depth' n bits"
  have ld: "length depth' = length depth" "n \<le> length depth'" using t(2) n(3) by simp_all
  have t1: "create_huffman_tree histogram n 15 tree ?d0 = Some (tree', depth')" using t(1) by simp
  have small: "\<forall>d\<in>set ds. d \<le> MAX_LENGTH" using t(3) ld(2) by (auto simp: ds_def in_set_conv_nth MAX_LENGTH_def)
  have full: "kraft MAX_LENGTH ds = 2 ^ MAX_LENGTH" using t(4) by (simp add: ds_def MAX_LENGTH_def)
  have "complete (coded ds)" using complete_kraft [OF small] full by simp
  then have fits: "fits (symbols_of ds)" using complete_coded complete_fits by blast
  have each: "depth' ! i \<le> MAX_LENGTH \<and> bits' ! i < 2 ^ (depth' ! i) \<and> (bits_of_nat (depth' ! i) (bits' ! i), i) \<in> canonical (symbols_of ds)"
    if i: "i < n" "histogram ! i \<noteq> 0" for i
    using converted_codes [OF small [unfolded ds_def] ld(2) n(4) _ fits [unfolded ds_def], of i] i t(3) n(4) n704
    by (simp add: bits'_def ds_def Let_def MAX_LENGTH_def)
  have stored: "code_stored histogram n alph depth' bits' bs" if "described alph bs ds" for bs
    unfolding code_stored_def using described_code [OF that small full] each by blast
  show ?thesis
  proof (cases "c \<le> 4")
    case True
    then have cu: "c = length us" "take c arr = us" using sp(2) by (auto split: if_splits)
    have "set (take c arr) = {s. s < n \<and> depth' ! s \<noteq> 0}"
      unfolding cu(2) us(1) [symmetric] set_used_from using t(3) n(1) by auto
    moreover have "distinct (take c arr)" unfolding cu(2) us(1) [symmetric] by (rule distinct_used_from)
    ultimately obtain bs where bs: "wr.emits (store_simple_code depth' arr c (bit_length (alph - 1))) bs" "described alph bs ds"
      using store_simple_code_described [OF ld(2) small [unfolded ds_def] full [unfolded ds_def] sp(1) True _ _ _ n(5,6)] cu(1) us(2)
      unfolding ds_def by blast
    have "build_and_store_huffman_tree histogram n alph tree depth bits w =
        Some (tree', depth', bits', store_simple_code depth' arr c (bit_length (alph - 1)) w)" for w
      unfolding build_and_store_huffman_tree_def cs Let_def prod.case if_not_P [OF c1] width_loop_eq t1 option.case if_P [OF True] bits'_def by simp
    then show ?thesis using bs stored [OF bs(2)] ld(1) unfolding bits'_def by (metis length_convert)
  next
    case False
    obtain tree2 f bs where st: "\<And>w. store_huffman_tree depth' n tree' w = Some (tree2, f w)" "wr.emits f bs" "described alph bs (take n depth')"
      by (rule store_huffman_tree_described [OF ld(2) n(2) small [unfolded ds_def] full [unfolded ds_def] n(5,6), of tree']) (rule that)
    have "build_and_store_huffman_tree histogram n alph tree depth bits w = Some (tree2, depth', bits', f w)" for w
      unfolding build_and_store_huffman_tree_def cs Let_def prod.case if_not_P [OF c1] t1 option.case if_not_P [OF False] st(1) bits'_def ..
    then show ?thesis using st(2) stored [OF st(3) [folded ds_def]] ld(1) unfolding bits'_def by (metis length_convert)
  qed
qed

lemma build_and_store_code:
  assumes "0 < n" "n \<le> length histogram" "n \<le> NUM_COMMAND_SYMBOLS" "n \<le> length depth" "n \<le> length bits" "n \<le> alph"
    "alph \<le> MAX_ALPHABET" "\<forall>i<n. histogram ! i \<le> M" "2 * M * n < 2 ^ 32 - 1"
  obtains tree' depth' bits' f bs where
    "\<And>w. build_and_store_huffman_tree histogram n alph tree depth bits w = Some (tree', depth', bits', f w)" "wr.emits f bs"
    "length depth' = length depth" "length bits' = length bits" "code_stored histogram n alph depth' bits' bs"
proof (cases "length (used_from (take n histogram) 0) \<le> 1")
  case True
  from few_symbols_stored [OF refl True assms(1,2,4-7), of tree] show thesis using that by blast
next
  case False
  then have "2 \<le> length (used_from (take n histogram) 0)" by simp
  from many_symbols_stored [OF refl this assms(2-9), of tree] show thesis using that by blast
qed

section \<open>Properties\<close>

text \<open>
  C1 (roundtrip). Prefix codes survive the trip: for any histogram of at most 704 symbols whose
  doubled counts do not overflow 32 bits together, the encoder's builder returns, and unless the output buffer overflows the bits it appends are a description
  that a decoder at the start of a description accepts to the last bit, whatever follows; the code
  the decoder then holds is complete or a single symbol, and it maps the bit pattern the encoder
  keeps for each used symbol back to that symbol.
\<close>

theorem prefix_code_roundtrip:
  assumes "0 < n" "n \<le> length histogram" "n \<le> NUM_COMMAND_SYMBOLS" "n \<le> length depth" "n \<le> length bits" "n \<le> alph"
    "alph \<le> MAX_ALPHABET" "\<forall>i<n. histogram ! i \<le> M" "2 * M * n < 2 ^ 32 - 1" "writer_ok w"
  shows "\<exists>tree' depth' bits' w'. build_and_store_huffman_tree histogram n alph tree depth bits w = Some (tree', depth', bits', w') \<and>
    (\<not> overflowed w' \<longrightarrow> writer_ok w' \<and> (\<exists>bs. written w' = written w @ bs \<and>
      (\<forall>b s rest. arrays_ok b \<and> b_stage b = Start \<and> reader_ok s \<and> stream s = bs @ rest \<longrightarrow>
        (\<exists>b' s' L. builder_read alph (b, s) = (Inr True, b', s') \<and> reader_ok s' \<and> stream s' = rest \<and>
          code_ok b' L \<and> (b_total b' = 1 \<or> complete L) \<and>
          (\<forall>i<n. histogram ! i \<noteq> 0 \<longrightarrow> (bits_of_nat (depth' ! i) (bits' ! i), i) \<in> code_of b' L)))))"
proof -
  obtain tree' depth' bits' f bs where r: "\<And>w. build_and_store_huffman_tree histogram n alph tree depth bits w = Some (tree', depth', bits', f w)"
    "wr.emits f bs" "code_stored histogram n alph depth' bits' bs"
    by (rule build_and_store_code [OF assms(1-9), of tree]) (rule that)
  obtain C where C: "describes_code alph bs C"
    "\<forall>i<n. histogram ! i \<noteq> 0 \<longrightarrow> (bits_of_nat (depth' ! i) (bits' ! i), i) \<in> C" using r(3) unfolding code_stored_def by blast
  have "\<exists>b' s' L. builder_read alph (b, s) = (Inr True, b', s') \<and> reader_ok s' \<and> stream s' = rest \<and>
      code_ok b' L \<and> (b_total b' = 1 \<or> complete L) \<and>
      (\<forall>i<n. histogram ! i \<noteq> 0 \<longrightarrow> (bits_of_nat (depth' ! i) (bits' ! i), i) \<in> code_of b' L)"
    if h: "arrays_ok b \<and> b_stage b = Start \<and> reader_ok s \<and> stream s = bs @ rest" for b s rest
  proof -
    obtain b' s' L where "builder_read alph (b, s) = (Inr True, b', s')" "reader_ok s'" "stream s' = rest"
      "code_ok b' L" "b_total b' = 1 \<or> complete L" "code_of b' L = C"
      by (rule describes_codeD [OF C(1), of b s rest]) (use h in blast)+
    with C(2) show ?thesis by blast
  qed
  then show ?thesis using r(1) wr.emitsD(2,3) [OF r(2) assms(10)] by blast
qed

theorem prefix_code_roundtrip_witness:
  "\<exists>tree depth bits w. build_and_store_huffman_tree [3, 0, 1, 2] 4 4 [] [0, 0, 0, 0] [0, 0, 0, 0] (writer_new (replicate 32 0) 0) =
    Some (tree, depth, bits, w) \<and> (\<not> overflowed w \<longrightarrow> writer_ok w)"
proof -
  have "\<forall>i<4. [3, 0, 1, 2] ! i \<le> (3::nat)" by (simp add: numeral_eq_Suc All_less_Suc)
  moreover have "writer_ok (writer_new (replicate 32 0) 0)" by (rule writer_new_zero) simp
  ultimately show ?thesis
    using prefix_code_roundtrip [of 4 "[3, 0, 1, 2]" "[0, 0, 0, 0]" "[0, 0, 0, 0]" 4 3 "writer_new (replicate 32 0) 0" "[]"]
    by (auto simp: NUM_COMMAND_SYMBOLS_def MAX_ALPHABET_def)
qed

end
