(* ===== verification/Table_Space.thy ===== *)
theory Table_Space
  imports Prefix_Groups Code_Roundtrip
begin

unbundle bit_operations_syntax

text \<open>
  The space of the second-level tables, and what \<open>Builder::build\<close> makes of an accepted
  description: no list of lengths over the format's alphabets needs more than a fixed number of
  entries, so building never overflows, and the one-slot group then carries the described code.
\<close>

section \<open>The size of the second-level tables\<close>

lemma table_bits_bound: "len \<le> MAX_LENGTH \<Longrightarrow> ROOT_BITS \<le> len \<Longrightarrow> table_bits_from remaining left len \<le> MAX_LENGTH - ROOT_BITS"
proof (induction remaining left len rule: table_bits_from.induct)
  case (1 remaining left len)
  then show ?case by (subst table_bits_from.simps) (auto simp: Let_def MAX_LENGTH_def ROOT_BITS_def)
qed

lemma size_length_bound:
  assumes "l \<le> MAX_LENGTH" "ROOT_BITS \<le> l" "appended \<le> N"
  shows "appended_of (size_length counts l (code, remaining, appended, low)) \<le> N + counts ! l * 2 ^ 7"
proof -
  have step: "appended_of (fold (size_step counts l) xs (code, remaining, a, low)) \<le> a + length xs * 2 ^ 7"
    for xs code remaining a low
  proof (induction xs arbitrary: code remaining a low)
    case (Cons x xs)
    have "(2::nat) ^ next_table_bits r l \<le> 2 ^ 7" for r
      using table_bits_bound [OF assms(1,2)] unfolding next_table_bits_def
      by (intro power_increasing) (simp_all add: MAX_LENGTH_def ROOT_BITS_def)
    moreover obtain c' r' a' l' where e: "size_step counts l x (code, remaining, a, low) = (c', r', a', l')"
      by (cases "size_step counts l x (code, remaining, a, low)")
    ultimately have "a' \<le> a + 2 ^ 7" by (auto simp: size_step_def Let_def split: if_splits)
    then show ?case using Cons [of c' r' a' l'] e by simp
  qed (simp add: appended_of_def)
  have "appended_of (fold (size_step counts l) [0..<counts ! l] (code, remaining, appended, low)) \<le> appended + counts ! l * 2 ^ 7"
    using step [of "[0..<counts ! l]" code remaining appended low] by simp
  then show ?thesis using assms(3) by (auto simp: size_length_def appended_of_def split: prod.splits)
qed

lemma second_size_bound:
  assumes "lists_ok b L"
  shows "second_size (b_counts b) \<le> 7 * (MAX_ALPHABET * 2 ^ 7)"
proof -
  define N where "N = MAX_ALPHABET * 2 ^ 7"
  have cnt: "b_counts b ! l * 2 ^ 7 \<le> N" if "l \<le> MAX_LENGTH" for l
  proof -
    have "length (L l) \<le> MAX_ALPHABET"
      using lists_okD(9,10) [OF assms that] by (intro length_sorted_bounded) auto
    then show ?thesis using lists_okD(8) [OF assms that] by (simp add: N_def)
  qed
  have step: "appended_of (fold (size_length (b_counts b)) xs st) \<le> appended_of st + length xs * N"
    if "\<forall>l\<in>set xs. l \<le> MAX_LENGTH \<and> ROOT_BITS \<le> l" for xs st
    using that
  proof (induction xs arbitrary: st)
    case (Cons l xs)
    obtain code remaining appended low where st: "st = (code, remaining, appended, low)" by (cases st)
    have "appended_of (size_length (b_counts b) l st) \<le> appended + b_counts b ! l * 2 ^ 7"
      unfolding st using Cons.prems by (intro size_length_bound) simp_all
    also have "\<dots> \<le> appended + N" using cnt Cons.prems by simp
    finally have "appended_of (size_length (b_counts b) l st) \<le> appended_of st + N" by (simp add: st appended_of_def)
    moreover have "appended_of (fold (size_length (b_counts b)) xs (size_length (b_counts b) l st)) \<le>
        appended_of (size_length (b_counts b) l st) + length xs * N" by (rule Cons.IH) (use Cons.prems in simp)
    ultimately show ?case by simp
  qed simp
  define ls where "ls = [ROOT_BITS + 1..<MAX_LENGTH + 1]"
  define code where "code = fold (\<lambda>l code. 2 * (code + b_counts b ! l)) [1..<ROOT_BITS + 1] 0"
  have "second_size (b_counts b) \<le> appended_of (fold (size_length (b_counts b)) ls (code, b_counts b, 0, 2 ^ 64 - 1))"
    unfolding second_size_def Let_def ls_def [symmetric] code_def [symmetric] by (simp add: appended_of_def split_beta)
  also have "\<dots> \<le> appended_of (code, b_counts b, 0, 2 ^ 64 - 1) + length ls * N"
    by (rule step) (auto simp: ls_def ROOT_BITS_def MAX_LENGTH_def)
  finally have "second_size (b_counts b) \<le> length ls * N" by (simp add: appended_of_def)
  moreover have "length ls = 7" by (simp add: ls_def MAX_LENGTH_def ROOT_BITS_def)
  ultimately show ?thesis by (simp only: N_def)
qed

section \<open>Building an accepted description\<close>

lemma build_code:
  assumes ok: "code_ok b L" "b_total b = 1 \<or> complete L" and al: "b_last b < alph" "alph \<le> MAX_ALPHABET"
    and r: "build alloc alph b g m = (r, g', m')"
  shows "case r of Inl e \<Rightarrow> e \<noteq> InvalidData Huffman \<and> e \<noteq> InternalInvariant
    | Inr v \<Rightarrow> v = b_last b \<and> group_ok g' [0 \<mapsto> code_of b L]"
proof -
  have lo: "lists_ok b L" using ok(1) by (simp add: code_ok_def)
  obtain q g1 m1 where p: "prepare alloc 1 alph g m = (q, g1, m1)" by (cases "prepare alloc 1 alph g m")
  note pr = prepare_ok [OF p]
  show ?thesis
  proof (cases q)
    case (Inl e)
    then show ?thesis using r p pr al by (auto simp: build_def)
  next
    case (Inr u)
    then have g1: "group_ok g1 (\<lambda>_. None)" "g_count g1 = 1" "g_used g1 = ROOT_SIZE" using pr by simp_all
    have bs: "build_slot alloc alph 0 b g1 m1 = (r, g', m')" using r p Inr by (simp add: build_def)
    have "g_used g1 + second_size (b_counts b) \<le> 2 ^ 24"
      using second_size_bound [OF lo] g1(3) by (simp add: ROOT_SIZE_def ROOT_BITS_def MAX_ALPHABET_def)
    note bo = build_slot_ok [OF g1(1) ok(1) _ al(1) this bs, unfolded g1(2)]
    have "b_total b \<noteq> 0"
    proof
      assume z: "b_total b = 0"
      then have "\<forall>l\<le>MAX_LENGTH. L l = []" using lists_okD(12) [OF lo] by simp
      then have "used_codes L MAX_LENGTH = 0" unfolding used_codes_sum by simp
      then show False using ok(2) z by (simp add: complete_def)
    qed
    then show ?thesis using bo ok(2) by (auto split: sum.splits)
  qed
qed

section \<open>Reading a description and building its table\<close>

text \<open>The calls \<open>builder.read(..)?\<close> and \<open>builder.build(..)?\<close> the header parsers make for a code.\<close>

definition read_table :: "(nat \<Rightarrow> nat option) \<Rightarrow> nat \<Rightarrow> group \<Rightarrow> builder \<times> reader \<times> memory \<Rightarrow>
    (decode_error + bool) \<times> group \<times> builder \<times> reader \<times> memory" where
  "read_table alloc alph g = (\<lambda>(b, s, m).
     case builder_read alph (b, s) of
       (Inl e, b', s') \<Rightarrow> (Inl e, g, b', s', m)
     | (Inr ready, b', s') \<Rightarrow>
         if \<not> ready then (Inr False, g, b', s', m)
         else (case build alloc alph b' g m of
             (Inl e, g', m') \<Rightarrow> (Inl e, g', b', s', m')
           | (Inr _, g', m') \<Rightarrow> (Inr True, g', b', s', m')))"

text \<open>The slot of a group carries a code whose symbols are below \<open>alph\<close>.\<close>

definition holds_code :: "nat \<Rightarrow> group \<Rightarrow> bool" where
  "holds_code alph g \<longleftrightarrow> (\<exists>C. group_ok g [0 \<mapsto> C] \<and> (\<forall>cw v. (cw, v) \<in> C \<longrightarrow> v < alph))"

text \<open>Building an accepted description fails only for want of memory.\<close>

lemma build_failure:
  assumes "build alloc alph b g m = (Inl e, g', m')"
  shows "memory_failure e \<or> e = InvalidData Huffman \<or> e = InternalInvariant"
proof -
  let ?ok = "\<lambda>e. memory_failure e \<or> e = InvalidData Huffman \<or> e = InternalInvariant"
  have "?ok e" if "build_slot alloc alph 0 b g m = (Inl e, g', m')" for g m using that by (rule build_slot_failure)
  moreover have "?ok e" if "prepare alloc 1 alph g m = (Inl e, g1, m1)" for g1 m1
    using that by (auto simp: prepare_def memory_failure_def split: if_splits sum.splits prod.splits dest: resize_failure)
  ultimately show ?thesis using assms by (auto simp: build_def split: sum.splits prod.splits)
qed

lemma read_table_described:
  assumes "describes_code alph bs C" "alph \<le> MAX_ALPHABET" "arrays_ok b" "b_stage b = Start" "reader_ok s" "stream s = bs @ rest"
    and r: "read_table alloc alph g (b, s, m) = (r, g', b', s', m')"
  shows "arrays_ok b' \<and> b_stage b' = Start \<and> reader_ok s' \<and> stream s' = rest \<and> same_call s s' \<and>
    (case r of Inl e \<Rightarrow> memory_failure e | Inr v \<Rightarrow> v \<and> group_ok g' [0 \<mapsto> C])"
proof -
  obtain b1 s1 L where br: "builder_read alph (b, s) = (Inr True, b1, s1)" "reader_ok s1" "stream s1 = rest" "same_call s s1"
    "arrays_ok b1" "b_stage b1 = Start" "b_last b1 < alph" "code_ok b1 L" "b_total b1 = 1 \<or> complete L" "code_of b1 L = C"
    by (rule describes_codeD [OF assms(1,3-6)])
  obtain q g1 m1 where bd: "build alloc alph b1 g m = (q, g1, m1)" by (cases "build alloc alph b1 g m")
  note bc = build_code [OF br(8,9,7) assms(2) bd]
  show ?thesis
  proof (cases q)
    case (Inl e)
    then have "r = Inl e" "b' = b1" "s' = s1" using r br(1) bd by (auto simp: read_table_def)
    moreover have "memory_failure e" using build_failure [OF bd [unfolded Inl]] bc Inl by auto
    ultimately show ?thesis using br by simp
  next
    case (Inr v)
    then have "r = Inr True" "b' = b1" "s' = s1" "g' = g1" using r br(1) bd by (auto simp: read_table_def)
    then show ?thesis using br bc Inr by simp
  qed
qed

lemma read_table_safe:
  assumes "builder_ok alph b" "reader_ok s" and r: "read_table alloc alph g (b, s, m) = (r, g', b', s', m')"
  shows "reader_ok s' \<and> same_call s s' \<and>
    (r = Inr False \<longrightarrow> builder_ok alph b' \<and> g' = g) \<and> (r = Inr True \<longrightarrow> arrays_ok b' \<and> b_stage b' = Start \<and> holds_code alph g')"
proof -
  obtain q b1 s1 where br: "builder_read alph (b, s) = (q, b1, s1)" by (cases "builder_read alph (b, s)")
  have out: "read_outcome alph s (q, b1, s1)" using builder_read_outcome [OF assms(1,2)] by (simp add: br)
  show ?thesis
  proof (cases "q = Inr True")
    case False
    then have "q = r" "b1 = b'" "s1 = s'" "g = g'" "r \<noteq> Inr True"
      using r br by (auto simp: read_table_def split: sum.splits)
    with out show ?thesis by (cases r) auto
  next
    case True
    then have ac: "accepted alph b1" "builder_ok alph b1" "reader_ok s1" "same_call s s1" using out by simp_all
    obtain L where L: "b_stage b1 = Start" "b_last b1 < alph" "code_ok b1 L" "b_total b1 = 1 \<or> complete L" "\<forall>l. \<forall>s\<in>set (L l). s < alph"
      using ac(1) unfolding accepted_def by blast
    have alph: "alph \<le> MAX_ALPHABET"
      using br True by (auto simp: builder_read_def split: if_splits)
    obtain t g1 m1 where bd: "build alloc alph b1 g m = (t, g1, m1)" by (cases "build alloc alph b1 g m")
    note bc = build_code [OF L(3,4,2) alph bd]
    have C: "v < alph" if "(cw, v) \<in> code_of b1 L" for cw v
      using that L(2,5) nth_mem by (fastforce simp: code_of_def canonical_def split: if_splits)
    show ?thesis
    proof (cases t)
      case (Inl e)
      then show ?thesis using r br True bd ac by (auto simp: read_table_def)
    next
      case (Inr v)
      then have "r = Inr True" "b' = b1" "s' = s1" "g' = g1" using r br bd True by (auto simp: read_table_def)
      moreover have "holds_code alph g1" using bc Inr C unfolding holds_code_def by auto
      ultimately show ?thesis using ac L(1) by (simp add: builder_ok_def)
    qed
  qed
qed

end
