(* ===== verification/Block_Switches.thy ===== *)
theory Block_Switches
  imports Header Format Table_Space
begin

unbundle bit_operations_syntax

text \<open>
  Block switches: the decoder's state of one block category (\<open>decompressor/core/block.rs\<close>) and
  the encoder's block split codes (\<open>shared/block_split.rs\<close> and \<open>BlockSplitCode\<close> of
  \<open>shared/bitstream.rs\<close>). The resumable \<open>header\<close> is written as its stages, each of which ends
  in the next one. The \<open>u64\<close> counter of symbols left in a block wraps in \<open>advance\<close>, which the
  decoder only calls while it is not zero.
\<close>

section \<open>The decoder's side\<close>

datatype block_stage = TypeCount | TypeTree | LengthTree | LengthSymbol | LengthExtra nat | Ready

record block =
  bk_count :: nat
  bk_current :: nat
  bk_remaining :: nat
  bk_previous :: nat
  bk_stage :: block_stage
  bk_types :: group
  bk_lengths :: group

definition block_default :: block where
  "block_default = \<lparr>bk_count = 1, bk_current = 0, bk_remaining = 2 ^ 64 - 1, bk_previous = 1, bk_stage = TypeCount,
     bk_types = group_default, bk_lengths = group_default\<rparr>"

definition block_reset :: "block \<Rightarrow> block" where
  "block_reset k = k\<lparr>bk_count := 1, bk_current := 0, bk_previous := 1, bk_remaining := 2 ^ 64 - 1, bk_stage := TypeCount\<rparr>"

definition block_extra :: "nat \<Rightarrow> block \<times> reader \<Rightarrow> (decode_error + bool) \<times> block \<times> reader" where
  "block_extra symbol = (\<lambda>(k, s).
     let (base, width) = PREFIX_CODE_RANGES ! symbol in
     case read width s of
       (Inl e, s') \<Rightarrow> (Inl e, k, s')
     | (Inr None, s') \<Rightarrow> (Inr False, k, s')
     | (Inr (Some extra), s') \<Rightarrow> (Inr True, k\<lparr>bk_remaining := base + extra, bk_stage := Ready\<rparr>, s'))"

definition block_length :: "block \<times> reader \<Rightarrow> (decode_error + bool) \<times> block \<times> reader" where
  "block_length = (\<lambda>(k, s).
     case bk_stage k of
       LengthSymbol \<Rightarrow>
         (case decode_refilling (group_table (bk_lengths k) 0) s of
            (Inl e, s') \<Rightarrow> (Inl e, k, s')
          | (Inr None, s') \<Rightarrow> (Inr False, k, s')
          | (Inr (Some symbol), s') \<Rightarrow> block_extra symbol (k\<lparr>bk_stage := LengthExtra symbol\<rparr>, s'))
     | LengthExtra symbol \<Rightarrow> block_extra symbol (k, s)
     | _ \<Rightarrow> (Inr True, k, s))"

type_synonym block_state = "block \<times> builder \<times> reader \<times> memory"

definition header_length :: "block_state \<Rightarrow> (decode_error + bool) \<times> block_state" where
  "header_length = (\<lambda>(k, b, s, m). case block_length (k, s) of (r, k', s') \<Rightarrow> (r, k', b, s', m))"

definition header_length_tree :: "(nat \<Rightarrow> nat option) \<Rightarrow> block_state \<Rightarrow> (decode_error + bool) \<times> block_state" where
  "header_length_tree alloc = (\<lambda>(k, b, s, m).
     case read_table alloc 26 (bk_lengths k) (b, s, m) of
       (Inl e, g, b', s', m') \<Rightarrow> (Inl e, k\<lparr>bk_lengths := g\<rparr>, b', s', m')
     | (Inr ready, g, b', s', m') \<Rightarrow>
         if \<not> ready then (Inr False, k\<lparr>bk_lengths := g\<rparr>, b', s', m')
         else header_length (k\<lparr>bk_lengths := g, bk_stage := LengthSymbol\<rparr>, b', s', m'))"

definition header_type_tree :: "(nat \<Rightarrow> nat option) \<Rightarrow> block_state \<Rightarrow> (decode_error + bool) \<times> block_state" where
  "header_type_tree alloc = (\<lambda>(k, b, s, m).
     case read_table alloc (bk_count k + 2) (bk_types k) (b, s, m) of
       (Inl e, g, b', s', m') \<Rightarrow> (Inl e, k\<lparr>bk_types := g\<rparr>, b', s', m')
     | (Inr ready, g, b', s', m') \<Rightarrow>
         if \<not> ready then (Inr False, k\<lparr>bk_types := g\<rparr>, b', s', m')
         else header_length_tree alloc (k\<lparr>bk_types := g, bk_stage := LengthTree\<rparr>, b', s', m'))"

definition header_type_count :: "(nat \<Rightarrow> nat option) \<Rightarrow> block_state \<Rightarrow> (decode_error + bool) \<times> block_state" where
  "header_type_count alloc = (\<lambda>(k, b, s, m).
     case uint8 s of
       (Inl e, s') \<Rightarrow> (Inl e, k, b, s', m)
     | (Inr None, s') \<Rightarrow> (Inr False, k, b, s', m)
     | (Inr (Some n), s') \<Rightarrow>
         let k' = k\<lparr>bk_count := n + 1\<rparr> in
         if n = 0 then (Inr True, k'\<lparr>bk_stage := Ready\<rparr>, b, s', m)
         else header_type_tree alloc (k'\<lparr>bk_stage := TypeTree\<rparr>, b, s', m))"

definition block_header :: "(nat \<Rightarrow> nat option) \<Rightarrow> block_state \<Rightarrow> (decode_error + bool) \<times> block_state" where
  "block_header alloc st =
     (case bk_stage (fst st) of
        TypeCount \<Rightarrow> header_type_count alloc st
      | TypeTree \<Rightarrow> header_type_tree alloc st
      | LengthTree \<Rightarrow> header_length_tree alloc st
      | _ \<Rightarrow> header_length st)"

definition switch_to :: "nat \<Rightarrow> block \<Rightarrow> block" where
  "switch_to symbol k =
     (let nxt = (if symbol = 0 then bk_previous k else if symbol = 1 then bk_current k + 1 else symbol - 2) mod bk_count k
      in k\<lparr>bk_previous := bk_current k, bk_current := nxt\<rparr>)"

definition prepare_block :: "block \<times> reader \<Rightarrow> (decode_error + bool) \<times> block \<times> reader" where
  "prepare_block = (\<lambda>(k, s).
     if bk_remaining k \<noteq> 0 then (Inr True, k, s)
     else if bk_stage k = Ready then
       (case decode_refilling (group_table (bk_types k) 0) s of
          (Inl e, s') \<Rightarrow> (Inl e, k, s')
        | (Inr None, s') \<Rightarrow> (Inr False, k, s')
        | (Inr (Some symbol), s') \<Rightarrow> block_length ((switch_to symbol k)\<lparr>bk_stage := LengthSymbol\<rparr>, s'))
     else block_length (k, s))"

definition switch_fast :: "block \<times> bits \<Rightarrow> block \<times> bits" where
  "switch_fast = (\<lambda>(k, bs).
     let (symbol, bs1) = decode_fast (group_table (bk_types k) 0) bs;
         k1 = switch_to symbol k;
         (symbol', bs2) = decode_fast (group_table (bk_lengths k1) 0) bs1;
         (base, width) = PREFIX_CODE_RANGES ! symbol';
         (extra, bs3) = take_bits width bs2
     in (k1\<lparr>bk_remaining := base + extra\<rparr>, bs3))"

definition switch_ready :: "block \<Rightarrow> bool" where
  "switch_ready k \<longleftrightarrow> bk_stage k = Ready"

definition advance :: "block \<Rightarrow> block" where
  "advance k = k\<lparr>bk_remaining := wrapping_sub 64 (bk_remaining k) 1\<rparr>"

section \<open>The encoder's side\<close>

definition MAX_NUMBER_OF_BLOCK_TYPES :: nat where "MAX_NUMBER_OF_BLOCK_TYPES = 256"
definition MAX_BLOCK_TYPE_SYMBOLS :: nat where "MAX_BLOCK_TYPE_SYMBOLS = MAX_NUMBER_OF_BLOCK_TYPES + 2"

record block_split =
  num_types :: nat
  num_blocks :: nat
  split_types :: "nat list"
  split_lengths :: "nat list"

definition split_reserve :: "nat \<Rightarrow> block_split \<Rightarrow> block_split" where
  "split_reserve max_num_blocks split =
     split\<lparr>split_types := replicate max_num_blocks 0, split_lengths := replicate max_num_blocks 0, num_blocks := max_num_blocks\<rparr>"

function prefix_code_from :: "nat \<Rightarrow> nat \<Rightarrow> nat" where
  "prefix_code_from code len =
     (if code < NUM_BLOCK_LEN_SYMBOLS - 1 \<and> len \<ge> fst (PREFIX_CODE_RANGES ! (code + 1))
      then prefix_code_from (code + 1) len else code)"
  by pat_completeness auto
termination by (relation "measure (\<lambda>(code, len). NUM_BLOCK_LEN_SYMBOLS - code)") auto

declare prefix_code_from.simps [simp del]

definition block_length_prefix_code :: "nat \<Rightarrow> nat" where
  "block_length_prefix_code len =
     prefix_code_from (if len \<ge> 177 then (if len \<ge> 753 then 20 else 14) else if len \<ge> 41 then 7 else 0) len"

definition block_length_code :: "nat \<Rightarrow> nat \<times> nat \<times> nat" where
  "block_length_code len =
     (let code = block_length_prefix_code len; (offset, nbits) = PREFIX_CODE_RANGES ! code in (code, nbits, len - offset))"

record type_calculator =
  last_type :: nat
  second_last_type :: nat

definition calculator_new :: type_calculator where
  "calculator_new = \<lparr>last_type = 1, second_last_type = 0\<rparr>"

definition next_type_code :: "nat \<Rightarrow> type_calculator \<Rightarrow> nat \<times> type_calculator" where
  "next_type_code block_type c =
     ((if block_type = last_type c + 1 then 1 else if block_type = second_last_type c then 0 else block_type + 2),
      \<lparr>last_type = block_type, second_last_type = last_type c\<rparr>)"

record split_code =
  calculator :: type_calculator
  type_depths :: "nat list"
  type_bits :: "nat list"
  length_depths :: "nat list"
  length_bits_of :: "nat list"

definition split_code_new :: split_code where
  "split_code_new = \<lparr>calculator = calculator_new,
     type_depths = replicate MAX_BLOCK_TYPE_SYMBOLS 0, type_bits = replicate MAX_BLOCK_TYPE_SYMBOLS 0,
     length_depths = replicate NUM_BLOCK_LEN_SYMBOLS 0, length_bits_of = replicate NUM_BLOCK_LEN_SYMBOLS 0\<rparr>"

definition store_block_switch :: "nat \<Rightarrow> nat \<Rightarrow> bool \<Rightarrow> split_code \<times> bit_writer \<Rightarrow> split_code \<times> bit_writer" where
  "store_block_switch block_len block_type is_first_block = (\<lambda>(code, w).
     let (typecode, calc) = next_type_code block_type (calculator code);
         w1 = (if \<not> is_first_block then write_bits (type_depths code ! typecode) (type_bits code ! typecode) w else w);
         (lencode, nextra, extra) = block_length_code block_len
     in (code\<lparr>calculator := calc\<rparr>,
         write_bits nextra extra (write_bits (length_depths code ! lencode) (length_bits_of code ! lencode) w1)))"

definition split_symbols :: "block_split \<Rightarrow> nat \<Rightarrow> type_calculator \<times> nat list \<times> nat list \<Rightarrow> type_calculator \<times> nat list \<times> nat list" where
  "split_symbols split index = (\<lambda>(calc, th, lh).
     let (type_code, calc') = next_type_code (split_types split ! index) calc;
         lc = block_length_prefix_code (split_lengths split ! index)
     in (calc', (if index \<noteq> 0 then th[type_code := th ! type_code + 1] else th), lh[lc := lh ! lc + 1]))"

definition build_and_store_block_split_code ::
    "block_split \<Rightarrow> node list \<Rightarrow> split_code \<Rightarrow> bit_writer \<Rightarrow> (node list \<times> split_code \<times> bit_writer) option" where
  "build_and_store_block_split_code split tree code w =
     (let types = num_types split;
          (_, type_histo, length_histo) = fold (split_symbols split) [0..<num_blocks split]
            (calculator_new, replicate MAX_BLOCK_TYPE_SYMBOLS 0, replicate NUM_BLOCK_LEN_SYMBOLS 0);
          w1 = store_var_len_uint8 (types - 1) w
      in if types > 1 then
           (case build_and_store_huffman_tree type_histo (types + 2) (types + 2) tree (type_depths code) (type_bits code) w1 of
              None \<Rightarrow> None
            | Some (tree', td, tb, w2) \<Rightarrow>
                (case build_and_store_huffman_tree length_histo NUM_BLOCK_LEN_SYMBOLS NUM_BLOCK_LEN_SYMBOLS tree'
                        (length_depths code) (length_bits_of code) w2 of
                   None \<Rightarrow> None
                 | Some (tree'', ld, lb, w3) \<Rightarrow>
                     (case store_block_switch (split_lengths split ! 0) (split_types split ! 0) True
                        (code\<lparr>type_depths := td, type_bits := tb, length_depths := ld, length_bits_of := lb\<rparr>, w3) of
                      (code', w4) \<Rightarrow> Some (tree'', code', w4))))
         else Some (tree, code, w1))"

section \<open>Length codes\<close>

abbreviation range_base :: "nat \<Rightarrow> nat" where "range_base c \<equiv> fst (PREFIX_CODE_RANGES ! c)"
abbreviation range_width :: "nat \<Rightarrow> nat" where "range_width c \<equiv> snd (PREFIX_CODE_RANGES ! c)"

lemma length_ranges: "length PREFIX_CODE_RANGES = 26"
  by (simp add: PREFIX_CODE_RANGES_def)

lemma range_next: "c < 25 \<Longrightarrow> range_base (Suc c) = range_base c + 2 ^ range_width c"
  using code_ranges_contiguous(3) [of c] by (simp add: length_ranges)

lemma range_width_le: "c < 26 \<Longrightarrow> range_width c \<le> 24"
proof -
  assume "c < 26"
  then have "PREFIX_CODE_RANGES ! c \<in> set PREFIX_CODE_RANGES" using nth_mem length_ranges by simp
  moreover have "\<forall>p\<in>set PREFIX_CODE_RANGES. snd p \<le> 24" by (simp add: PREFIX_CODE_RANGES_def)
  ultimately show ?thesis by blast
qed

lemma prefix_code_from_range:
  assumes "code < 26" "range_base code \<le> len"
  shows "prefix_code_from code len < 26 \<and> range_base (prefix_code_from code len) \<le> len \<and>
    (prefix_code_from code len < 25 \<longrightarrow> len < range_base (Suc (prefix_code_from code len)))"
  using assms
proof (induction code len rule: prefix_code_from.induct)
  case (1 code len)
  show ?case
  proof (cases "code < NUM_BLOCK_LEN_SYMBOLS - 1 \<and> len \<ge> range_base (code + 1)")
    case True
    then have "prefix_code_from code len = prefix_code_from (code + 1) len" by (subst prefix_code_from.simps) (simp only: if_True simp_thms)
    moreover have "code + 1 < 26" using True by (simp add: NUM_BLOCK_LEN_SYMBOLS_def)
    ultimately show ?thesis using "1.IH" [OF True] True by simp
  next
    case False
    then have "prefix_code_from code len = code" by (subst prefix_code_from.simps) (simp only: if_False)
    then show ?thesis using False "1.prems" by (auto simp: NUM_BLOCK_LEN_SYMBOLS_def)
  qed
qed

lemma block_length_code_range:
  assumes "1 \<le> len" "len < 16625 + 2 ^ 24"
  obtains c base nbits extra where "block_length_code len = (c, nbits, extra)" "c < 26" "c = block_length_prefix_code len"
    "PREFIX_CODE_RANGES ! c = (base, nbits)" "nbits \<le> 24" "extra < 2 ^ nbits" "base + extra = len"
proof -
  define c where "c = block_length_prefix_code len"
  have start: "range_base (if len \<ge> 177 then (if len \<ge> 753 then 20 else 14) else if len \<ge> 41 then 7 else 0) \<le> len"
    using assms(1) by (simp add: PREFIX_CODE_RANGES_def)
  have c: "c < 26" "range_base c \<le> len" "c < 25 \<longrightarrow> len < range_base (Suc c)"
    using prefix_code_from_range [OF _ start] by (simp_all add: c_def block_length_prefix_code_def)
  have "len - range_base c < 2 ^ range_width c"
  proof (cases "c < 25")
    case True
    then show ?thesis using range_next [OF True] c by simp
  next
    case False
    then have "c = 25" using c by simp
    then show ?thesis using assms(2) by (simp add: PREFIX_CODE_RANGES_def)
  qed
  moreover have "block_length_code len = (c, range_width c, len - range_base c)"
    by (simp add: block_length_code_def c_def split_beta Let_def)
  ultimately show thesis
    using that [of c "range_width c" "len - range_base c" "range_base c"] c range_width_le [OF c(1)] c_def by simp
qed

section \<open>The invariant of a block category\<close>

text \<open>
  \<open>block_ok b k\<close>: what holds of a category between two calls. The builder \<open>b\<close> is shared with the
  rest of the header, so the invariant says what it holds at each stage.
\<close>

definition block_codes :: "block \<Rightarrow> bool" where
  "block_codes k \<longleftrightarrow> 2 \<le> bk_count k \<and> holds_code (bk_count k + 2) (bk_types k) \<and> holds_code 26 (bk_lengths k)"

definition idle :: "builder \<Rightarrow> bool" where
  "idle b \<longleftrightarrow> arrays_ok b \<and> b_stage b = Start"

definition block_ok :: "builder \<Rightarrow> block \<Rightarrow> bool" where
  "block_ok b k \<longleftrightarrow> bk_current k < bk_count k \<and> bk_count k \<le> 256 \<and> (case bk_stage k of
      TypeCount \<Rightarrow> idle b \<and> bk_remaining k = 2 ^ 64 - 1 \<and> bk_current k = 0
    | TypeTree \<Rightarrow> 2 \<le> bk_count k \<and> builder_ok (bk_count k + 2) b
    | LengthTree \<Rightarrow> 2 \<le> bk_count k \<and> holds_code (bk_count k + 2) (bk_types k) \<and> builder_ok 26 b
    | LengthSymbol \<Rightarrow> idle b \<and> block_codes k
    | LengthExtra symbol \<Rightarrow> idle b \<and> block_codes k \<and> symbol < 26
    | Ready \<Rightarrow> idle b \<and> (block_codes k \<or> bk_count k = 1))"

lemma holds_code_read:
  assumes "holds_code n g" "reader_ok s" "decode_refilling (group_table g 0) s = (r, s')"
  shows "reader_ok s' \<and> same_call s s' \<and> (case r of Inr (Some v) \<Rightarrow> v < n | Inr None \<Rightarrow> True | Inl e \<Rightarrow> Some e = starved s)"
proof -
  obtain C where C: "group_ok g [0 \<mapsto> C]" "\<forall>cw v. (cw, v) \<in> C \<longrightarrow> v < n" using assms(1) unfolding holds_code_def by blast
  have "reads_symbol C s (r, s')"
    using refilling.dec_reads [OF assms(2) group_carries(1,2) [OF C(1), of 0 C]] assms(3) by simp
  then show ?thesis unfolding reads_symbol_def using C(2) by (cases "starved s") auto
qed

lemma field_outcome:
  assumes "reader_ok s" "n \<le> 56" "read n s = (r, s')"
  shows "reader_ok s' \<and> same_call s s' \<and> (case r of Inr (Some v) \<Rightarrow> v < 2 ^ n | Inr None \<Rightarrow> True | Inl e \<Rightarrow> Some e = starved s)"
proof -
  have n: "n \<le> MAX_PEEK" using assms(2) by (simp add: MAX_PEEK_def)
  note rk = read_keeps [OF assms]
  note p = peek_eq [OF assms(1) n]
  have "Some e = starved s" if "r = Inl e" for e
    using assms(3) that p(1) by (cases "starved s") (auto simp: read_def split: if_splits)
  then show ?thesis using rk by (auto split: sum.splits option.splits)
qed

text \<open>What a step of a category leaves, whatever the input.\<close>

definition switch_outcome :: "reader \<Rightarrow> (decode_error + bool) \<times> block \<times> reader \<Rightarrow> bool" where
  "switch_outcome s out \<longleftrightarrow> (case out of (r, k', s') \<Rightarrow> reader_ok s' \<and> same_call s s' \<and> bk_current k' < bk_count k' \<and> bk_count k' \<le> 256 \<and>
     (case r of
        Inl e \<Rightarrow> Some e = starved s
      | Inr ready \<Rightarrow> (bk_stage k' \<in> {LengthSymbol, Ready} \<or> (\<exists>symbol<26. bk_stage k' = LengthExtra symbol)) \<and> block_codes k' \<and>
          (ready \<longrightarrow> bk_stage k' = Ready \<and> 0 < bk_remaining k')))"

lemma range_base_pos: "c < 26 \<Longrightarrow> 0 < range_base c"
proof -
  assume "c < 26"
  then have "PREFIX_CODE_RANGES ! c \<in> set PREFIX_CODE_RANGES" using nth_mem length_ranges by simp
  moreover have "\<forall>p\<in>set PREFIX_CODE_RANGES. 0 < fst p" by (simp add: PREFIX_CODE_RANGES_def)
  ultimately show ?thesis by blast
qed

lemma block_extra_outcome:
  assumes "reader_ok s" "block_codes k" "bk_current k < bk_count k" "bk_count k \<le> 256" "bk_stage k = LengthExtra symbol" "symbol < 26"
  shows "switch_outcome s (block_extra symbol (k, s))"
proof -
  obtain base width where bw: "PREFIX_CODE_RANGES ! symbol = (base, width)" by fastforce
  have w: "width \<le> 56" "0 < base" using range_width_le [OF assms(6)] range_base_pos [OF assms(6)] bw by simp_all
  obtain r s' where rd: "read width s = (r, s')" by (cases "read width s")
  note fo = field_outcome [OF assms(1) w(1) rd]
  show ?thesis
  proof (cases r)
    case (Inl e)
    then show ?thesis using fo rd assms by (simp add: switch_outcome_def block_extra_def bw)
  next
    case (Inr v)
    then show ?thesis using fo rd assms w
      by (cases v) (auto simp: switch_outcome_def block_extra_def bw block_codes_def)
  qed
qed

lemma block_length_outcome:
  assumes "reader_ok s" "block_codes k" "bk_current k < bk_count k" "bk_count k \<le> 256"
    and st: "bk_stage k = LengthSymbol \<or> (\<exists>symbol<26. bk_stage k = LengthExtra symbol)"
  shows "switch_outcome s (block_length (k, s))"
proof (cases "bk_stage k = LengthSymbol")
  case False
  then show ?thesis using block_extra_outcome [OF assms(1-4)] st by (auto simp: block_length_def)
next
  case True
  obtain r s' where d: "decode_refilling (group_table (bk_lengths k) 0) s = (r, s')"
    by (cases "decode_refilling (group_table (bk_lengths k) 0) s")
  have "holds_code 26 (bk_lengths k)" using assms(2) by (simp add: block_codes_def)
  note hc = holds_code_read [OF this assms(1) d]
  show ?thesis
  proof (cases r)
    case (Inl e)
    then show ?thesis using hc d assms True by (simp add: switch_outcome_def block_length_def)
  next
    case (Inr v)
    show ?thesis
    proof (cases v)
      case None
      then show ?thesis using hc d Inr assms True by (simp add: switch_outcome_def block_length_def)
    next
      case (Some symbol)
      let ?k = "k\<lparr>bk_stage := LengthExtra symbol\<rparr>"
      have "switch_outcome s' (block_extra symbol (?k, s'))"
        using hc Some Inr assms by (intro block_extra_outcome) (simp_all add: block_codes_def)
      moreover have "same_call s s'" using hc by simp
      ultimately have "switch_outcome s (block_extra symbol (?k, s'))"
        unfolding switch_outcome_def using same_call_starved [of s s'] by (auto dest: same_call_trans split: sum.splits)
      then show ?thesis using d Inr Some True by (simp add: block_length_def)
    qed
  qed
qed

lemma idle_ok: "idle b \<Longrightarrow> builder_ok alph b"
  by (simp add: idle_def builder_ok_def)

lemma switch_outcome_ok:
  assumes "switch_outcome s (r, k', s')" "idle b"
  shows "reader_ok s' \<and> same_call s s' \<and> (case r of Inl e \<Rightarrow> Some e = starved s
    | Inr ready \<Rightarrow> block_ok b k' \<and> (ready \<longrightarrow> bk_stage k' = Ready \<and> 0 < bk_remaining k'))"
  using assms unfolding switch_outcome_def block_ok_def by (auto split: sum.splits block_stage.splits)

lemma switch_to_keeps:
  assumes "0 < bk_count k"
  shows "bk_current (switch_to symbol k) < bk_count k" "bk_count (switch_to symbol k) = bk_count k"
    "bk_types (switch_to symbol k) = bk_types k" "bk_lengths (switch_to symbol k) = bk_lengths k"
    "bk_stage (switch_to symbol k) = bk_stage k" "bk_remaining (switch_to symbol k) = bk_remaining k"
  using assms by (simp_all add: switch_to_def Let_def)

lemma prepare_outcome:
  assumes ok: "block_ok b k" "reader_ok s" and st: "bk_stage k \<notin> {TypeCount, TypeTree, LengthTree}"
    and dry: "bk_remaining k = 0" "2 \<le> bk_count k"
  shows "switch_outcome s (prepare_block (k, s))"
proof -
  have bc: "block_codes k" "bk_current k < bk_count k" "bk_count k \<le> 256" "idle b"
    using ok(1) st dry(2) unfolding block_ok_def by (auto split: block_stage.splits)
  show ?thesis
  proof (cases "bk_stage k = Ready")
    case False
    then have "bk_stage k = LengthSymbol \<or> (\<exists>symbol<26. bk_stage k = LengthExtra symbol)"
      using ok(1) st unfolding block_ok_def by (cases "bk_stage k") auto
    then show ?thesis using block_length_outcome [OF ok(2) bc(1-3)] False dry by (simp add: prepare_block_def)
  next
    case True
    obtain r s' where d: "decode_refilling (group_table (bk_types k) 0) s = (r, s')"
      by (cases "decode_refilling (group_table (bk_types k) 0) s")
    have "holds_code (bk_count k + 2) (bk_types k)" using bc(1) by (simp add: block_codes_def)
    note hc = holds_code_read [OF this ok(2) d]
    show ?thesis
    proof (cases r)
      case (Inl e)
      then show ?thesis using hc d True dry bc by (simp add: switch_outcome_def prepare_block_def)
    next
      case (Inr v)
      show ?thesis
      proof (cases v)
        case None
        then show ?thesis using hc d Inr True dry bc by (simp add: switch_outcome_def prepare_block_def)
      next
        case (Some symbol)
        let ?k = "(switch_to symbol k)\<lparr>bk_stage := LengthSymbol\<rparr>"
        have "0 < bk_count k" using dry(2) by simp
        note sk = switch_to_keeps [OF this, of symbol]
        have "switch_outcome s' (block_length (?k, s'))"
          using hc Some Inr bc sk by (intro block_length_outcome) (simp_all add: block_codes_def)
        moreover have "same_call s s'" using hc by simp
        ultimately have "switch_outcome s (block_length (?k, s'))"
          unfolding switch_outcome_def using same_call_starved [of s s'] by (auto dest: same_call_trans split: sum.splits)
        then show ?thesis using d Inr Some True dry by (simp add: prepare_block_def)
      qed
    qed
  qed
qed

lemma prepare_keeps:
  assumes "block_ok b k" "reader_ok s" "bk_stage k \<notin> {TypeCount, TypeTree, LengthTree}"
    and "bk_remaining k = 0 \<longrightarrow> 2 \<le> bk_count k" "prepare_block (k, s) = (r, k', s')"
  shows "reader_ok s' \<and> same_call s s' \<and> (case r of Inl e \<Rightarrow> Some e = starved s
    | Inr ready \<Rightarrow> block_ok b k' \<and> (ready \<longrightarrow> 0 < bk_remaining k'))"
proof (cases "bk_remaining k = 0")
  case False
  then have "r = Inr True" "k' = k" "s' = s" using assms(5) by (auto simp: prepare_block_def)
  then show ?thesis using assms False by simp
next
  case True
  have "idle b" using assms(1,3) unfolding block_ok_def by (auto split: block_stage.splits)
  from switch_outcome_ok [OF prepare_outcome [OF assms(1-3) True, unfolded assms(5)] this] assms(4) True
  show ?thesis by (auto split: sum.splits)
qed

definition header_outcome :: "reader \<Rightarrow> (decode_error + bool) \<times> block_state \<Rightarrow> bool" where
  "header_outcome s out \<longleftrightarrow> (case out of (r, k', b', s', m') \<Rightarrow> reader_ok s' \<and> same_call s s' \<and>
     (case r of Inl e \<Rightarrow> True | Inr ready \<Rightarrow> block_ok b' k' \<and> (ready \<longrightarrow> bk_stage k' = Ready \<and> 0 < bk_remaining k')))"

lemma header_outcome_trans:
  "same_call s s' \<Longrightarrow> header_outcome s' out \<Longrightarrow> header_outcome s out"
  unfolding header_outcome_def by (auto dest: same_call_trans split: sum.splits prod.splits)

lemma header_length_outcome:
  assumes "block_ok b k" "reader_ok s" "bk_stage k = LengthSymbol \<or> (\<exists>symbol. bk_stage k = LengthExtra symbol)"
  shows "header_outcome s (header_length (k, b, s, m))"
proof -
  have bk: "block_codes k" "bk_current k < bk_count k" "bk_count k \<le> 256" "idle b"
    "bk_stage k = LengthSymbol \<or> (\<exists>symbol<26. bk_stage k = LengthExtra symbol)"
    using assms(1,3) unfolding block_ok_def by auto
  obtain r k' s' where bl: "block_length (k, s) = (r, k', s')" by (cases "block_length (k, s)")
  from switch_outcome_ok [OF block_length_outcome [OF assms(2) bk(1-3,5), unfolded bl] bk(4)]
  show ?thesis by (auto simp: header_length_def bl header_outcome_def split: sum.splits)
qed

lemma header_length_tree_outcome:
  assumes "block_ok b k" "reader_ok s" "bk_stage k = LengthTree"
  shows "header_outcome s (header_length_tree alloc (k, b, s, m))"
proof -
  obtain r g b' s' m' where rt: "read_table alloc 26 (bk_lengths k) (b, s, m) = (r, g, b', s', m')"
    by (cases "read_table alloc 26 (bk_lengths k) (b, s, m)")
  have bk: "builder_ok 26 b" "2 \<le> bk_count k" "holds_code (bk_count k + 2) (bk_types k)" "bk_current k < bk_count k" "bk_count k \<le> 256"
    using assms(1,3) unfolding block_ok_def by auto
  note rs = read_table_safe [OF bk(1) assms(2) rt]
  show ?thesis
  proof (cases r)
    case (Inl e)
    then show ?thesis using rs rt by (simp add: header_length_tree_def header_outcome_def)
  next
    case (Inr ready)
    show ?thesis
    proof (cases ready)
      case False
      then show ?thesis using rs rt Inr bk assms(3) by (simp add: header_length_tree_def header_outcome_def block_ok_def)
    next
      case True
      let ?k = "k\<lparr>bk_lengths := g, bk_stage := LengthSymbol\<rparr>"
      have "block_ok b' ?k" using rs True Inr bk by (simp add: block_ok_def block_codes_def idle_def)
      then have "header_outcome s' (header_length (?k, b', s', m'))" using rs by (intro header_length_outcome) simp_all
      then have "header_outcome s (header_length (?k, b', s', m'))" using rs header_outcome_trans by blast
      then show ?thesis using rt Inr True by (simp add: header_length_tree_def)
    qed
  qed
qed

lemma header_type_tree_outcome:
  assumes "block_ok b k" "reader_ok s" "bk_stage k = TypeTree"
  shows "header_outcome s (header_type_tree alloc (k, b, s, m))"
proof -
  obtain r g b' s' m' where rt: "read_table alloc (bk_count k + 2) (bk_types k) (b, s, m) = (r, g, b', s', m')"
    by (cases "read_table alloc (bk_count k + 2) (bk_types k) (b, s, m)")
  have bk: "builder_ok (bk_count k + 2) b" "2 \<le> bk_count k" "bk_current k < bk_count k" "bk_count k \<le> 256"
    using assms(1,3) unfolding block_ok_def by auto
  note rs = read_table_safe [OF bk(1) assms(2) rt]
  show ?thesis
  proof (cases r)
    case (Inl e)
    then show ?thesis using rs rt by (simp add: header_type_tree_def header_outcome_def)
  next
    case (Inr ready)
    show ?thesis
    proof (cases ready)
      case False
      then show ?thesis using rs rt Inr bk assms(3) by (simp add: header_type_tree_def header_outcome_def block_ok_def)
    next
      case True
      let ?k = "k\<lparr>bk_types := g, bk_stage := LengthTree\<rparr>"
      have "builder_ok 26 b'" using rs True Inr by (intro idle_ok) (simp add: idle_def)
      then have "block_ok b' ?k" using rs True Inr bk by (simp add: block_ok_def)
      then have "header_outcome s' (header_length_tree alloc (?k, b', s', m'))" using rs by (intro header_length_tree_outcome) simp_all
      then have "header_outcome s (header_length_tree alloc (?k, b', s', m'))" using rs header_outcome_trans by blast
      then show ?thesis using rt Inr True by (simp add: header_type_tree_def)
    qed
  qed
qed

lemma need_field_keeps:
  assumes "reader_ok s" "n \<le> 56" "same_call s0 s"
    and "\<And>v t. n \<le> length (stream s) \<Longrightarrow> reader_ok t \<Longrightarrow> stream t = stream s \<Longrightarrow> same_call s0 t \<Longrightarrow> n \<le> buffered t \<Longrightarrow> t = loaded n s \<Longrightarrow>
      v = nat_of_bits (take n (stream s)) \<Longrightarrow> reader_ok (snd (k v t)) \<and> same_call s0 (snd (k v t))"
  shows "reader_ok (snd (need (peek n s) k)) \<and> same_call s0 (snd (need (peek n s) k))"
proof -
  have n: "n \<le> MAX_PEEK" using assms(2) by (simp add: MAX_PEEK_def)
  note p = peek_eq [OF assms(1) n]
  have sc: "same_call s0 (loaded n s)" using assms(3) p(4) same_call_trans by blast
  show ?thesis
  proof (cases "n \<le> length (stream s)")
    case True
    then show ?thesis using assms(4) [OF True p(2,3) sc] p by simp
  next
    case False
    then show ?thesis using p sc by simp
  qed
qed

lemma uint8_keeps:
  assumes "reader_ok s"
  shows "reader_ok (snd (uint8 s)) \<and> same_call s (snd (uint8 s))"
  unfolding uint8_def
proof (rule need_field_keeps [OF assms _ same_call_refl])
  fix v t assume t: "reader_ok t" "same_call s t" "1 \<le> buffered t" "t = loaded 1 s"
  have done1: "reader_ok (discard n u) \<and> same_call s (discard n u)" if "reader_ok u" "same_call s u" "n \<le> buffered u" for n u
    using that discard_ok [of u n] same_call_trans by simp
  show "reader_ok (snd (if v = 0 then (Inr (Some 0), discard 1 t)
      else need (peek 4 t) (\<lambda>head s2. let n = shr head 1 in if n = 0 then (Inr (Some 1), discard 4 s2)
        else need (peek (4 + n) s2) (\<lambda>all s3. (Inr (Some (2 ^ n + shr all 4)), discard (4 + n) s3))))) \<and>
    same_call s (snd (if v = 0 then (Inr (Some 0), discard 1 t)
      else need (peek 4 t) (\<lambda>head s2. let n = shr head 1 in if n = 0 then (Inr (Some 1), discard 4 s2)
        else need (peek (4 + n) s2) (\<lambda>all s3. (Inr (Some (2 ^ n + shr all 4)), discard (4 + n) s3)))))"
  proof (cases "v = 0")
    case True
    then show ?thesis using done1 t by simp
  next
    case False
    have "reader_ok (snd (need (peek 4 t) k)) \<and> same_call s (snd (need (peek 4 t) k))"
      if k: "k = (\<lambda>head s2. let n = shr head 1 in if n = 0 then (Inr (Some 1), discard 4 s2)
        else need (peek (4 + n) s2) (\<lambda>all s3. (Inr (Some (2 ^ n + shr all 4)), discard (4 + n) s3)))" for k
    proof (rule need_field_keeps [OF t(1) _ t(2)])
      fix w u assume u: "reader_ok u" "same_call s u" "4 \<le> buffered u" "w = nat_of_bits (take 4 (stream t))"
      have "w < 2 ^ 4" unfolding u(4) by (rule nat_of_bits_bound) simp
      then have n: "shr w 1 < 8" by (simp add: shr_div)
      show "reader_ok (snd (k w u)) \<and> same_call s (snd (k w u))"
      proof (cases "shr w 1 = 0")
        case True
        then show ?thesis unfolding k Let_def if_P [OF True] snd_conv using u(1-3) by (intro done1)
      next
        case False
        have "4 + shr w 1 \<le> 56" using n by simp
        then show ?thesis unfolding k Let_def if_not_P [OF False]
          by (rule need_field_keeps [OF u(1) _ u(2)]) (unfold snd_conv, rule done1)
      qed
    qed simp
    from this [OF refl] show ?thesis using False by simp
  qed
qed simp

lemma header_type_count_outcome:
  assumes "block_ok b k" "reader_ok s" "bk_stage k = TypeCount"
  shows "header_outcome s (header_type_count alloc (k, b, s, m))"
proof -
  obtain r s' where u: "uint8 s = (r, s')" by (cases "uint8 s")
  have uk: "reader_ok s'" "same_call s s'" using uint8_keeps [OF assms(2)] u by simp_all
  have bk: "idle b" "bk_remaining k = 2 ^ 64 - 1" "bk_current k = 0" "bk_count k \<le> 256" "bk_current k < bk_count k"
    using assms(1,3) unfolding block_ok_def by auto
  show ?thesis
  proof (cases r)
    case (Inl e)
    then show ?thesis using u uk by (simp add: header_type_count_def header_outcome_def)
  next
    case (Inr v)
    show ?thesis
    proof (cases v)
      case None
      then show ?thesis using u uk Inr assms by (simp add: header_type_count_def header_outcome_def)
    next
      case (Some n)
      have n: "n < 256" using uint8_sound [OF assms(2)] u Inr Some by blast
      show ?thesis
      proof (cases "n = 0")
        case True
        then show ?thesis using u uk Inr Some bk by (simp add: header_type_count_def header_outcome_def block_ok_def)
      next
        case False
        let ?k = "k\<lparr>bk_count := n + 1, bk_stage := TypeTree\<rparr>"
        have "block_ok b ?k" using False n bk idle_ok [OF bk(1)] by (simp add: block_ok_def)
        from header_outcome_trans [OF uk(2) header_type_tree_outcome [OF this uk(1), of alloc m]]
        show ?thesis using u Inr Some False by (simp add: header_type_count_def)
      qed
    qed
  qed
qed

lemma block_header_outcome:
  assumes "block_ok b k" "reader_ok s" "bk_stage k \<noteq> Ready"
  shows "header_outcome s (block_header alloc (k, b, s, m))"
  using header_type_count_outcome [OF assms(1,2)] header_type_tree_outcome [OF assms(1,2)] header_length_tree_outcome [OF assms(1,2)]
    header_length_outcome [OF assms(1,2)] assms(3)
  by (cases "bk_stage k") (simp_all add: block_header_def)

end
