(* ===== verification/Block_Roundtrip.thy ===== *)
theory Block_Roundtrip
  imports Block_Switches
begin

unbundle bit_operations_syntax

text \<open>
  The properties of block switches: the fast switch of the decoder's inner loop is the resumable
  one, no input breaks the state of a category, and the types and lengths of a split survive the
  trip through the encoder's codes.
\<close>

section \<open>The fast switch\<close>

lemma peek_buffered:
  assumes "n \<le> bcount (fst s)"
  shows "peek n s = (Inr (Some (bvalue (fst s) AND bit_mask n)), s)"
proof -
  obtain b i where s: "s = (b, i)" by (cases s)
  show ?thesis using assms unfolding s by (subst peek.simps) simp
qed

lemma read_buffered:
  assumes "n \<le> bcount (fst s)"
  shows "read n s = (case take_bits n (fst s) of (v, b) \<Rightarrow> (Inr (Some v), b, snd s))"
  using peek_buffered [OF assms] by (simp add: read_def take_bits_def discard_def)

lemma decode_fast_takes:
  assumes "prefix_code C" "carries t C"
  obtains cw v where "decode_fast t b = (v, drop_bits (length cw) b)" "length cw \<le> MAX_LENGTH" "(cw, v) \<in> C"
proof -
  obtain cw v where C: "(cw, v) \<in> C" "cw = bits_of_nat (length cw) (bvalue b)" "length cw \<le> MAX_LENGTH"
    by (rule codeword_of_value [OF assms(1)])
  from lookup(1) [OF assms(2) C(1,2)] C(3,1) show thesis by (rule that)
qed

lemma decode_refilling_fast:
  assumes "MAX_LENGTH \<le> bcount b"
  shows "decode_refilling t (b, i) = (case decode_fast t b of (v, b') \<Rightarrow> (Inr (Some v), b', i))"
  using assms by (simp add: decode_refilling_def)

lemma switch_fast_prepare:
  assumes "54 \<le> bcount bs" "bk_remaining k = 0" "bk_stage k = Ready" "block_codes k"
  shows "prepare_block (k, bs, i) = (case switch_fast (k, bs) of (k', bs') \<Rightarrow> (Inr True, k', bs', i))"
proof -
  obtain Ct Cl where C: "group_ok (bk_types k) [0 \<mapsto> Ct]" "group_ok (bk_lengths k) [0 \<mapsto> Cl]" "\<forall>cw v. (cw, v) \<in> Cl \<longrightarrow> v < 26"
    using assms(4) unfolding block_codes_def holds_code_def by blast
  have k: "0 < bk_count k" using assms(4) by (simp add: block_codes_def)
  obtain cw v where t: "decode_fast (group_table (bk_types k) 0) bs = (v, drop_bits (length cw) bs)" "length cw \<le> MAX_LENGTH" "(cw, v) \<in> Ct"
    by (rule decode_fast_takes [OF group_carries [OF C(1), of 0 Ct], where b = bs]) (simp, simp, rule that)
  define bs1 where "bs1 = drop_bits (length cw) bs"
  obtain cw' v' where l: "decode_fast (group_table (bk_lengths k) 0) bs1 = (v', drop_bits (length cw') bs1)" "length cw' \<le> MAX_LENGTH" "(cw', v') \<in> Cl"
    by (rule decode_fast_takes [OF group_carries [OF C(2), of 0 Cl], where b = bs1]) (simp, simp, rule that)
  define bs2 where "bs2 = drop_bits (length cw') bs1"
  obtain base width where bw: "PREFIX_CODE_RANGES ! v' = (base, width)" by fastforce
  have "v' < 26" using l(3) C(3) by blast
  then have w: "width \<le> 24" using range_width_le [of v'] bw by simp
  have c: "MAX_LENGTH \<le> bcount bs" "MAX_LENGTH \<le> bcount bs1" "width \<le> bcount bs2"
    using assms(1) t(2) l(2) w by (simp_all add: bs1_def bs2_def drop_bits_def MAX_LENGTH_def)
  let ?k = "(switch_to v k)\<lparr>bk_stage := LengthSymbol\<rparr>"
  have d1: "decode_refilling (group_table (bk_types k) 0) (bs, i) = (Inr (Some v), bs1, i)"
    unfolding decode_refilling_fast [OF c(1)] t(1) by (simp add: bs1_def)
  have d2: "decode_refilling (group_table (bk_lengths k) 0) (bs1, i) = (Inr (Some v'), bs2, i)"
    unfolding decode_refilling_fast [OF c(2)] l(1) by (simp add: bs2_def)
  have rd: "read width (bs2, i) = (case take_bits width bs2 of (x, b) \<Rightarrow> (Inr (Some x), b, i))"
    using read_buffered [of width "(bs2, i)"] c(3) by simp
  have "prepare_block (k, bs, i) = block_extra v' (?k\<lparr>bk_stage := LengthExtra v'\<rparr>, bs2, i)"
    using assms(2,3) d1 d2 switch_to_keeps [OF k, of v] by (simp add: prepare_block_def block_length_def)
  moreover have "switch_fast (k, bs) = (case take_bits width bs2 of (x, b) \<Rightarrow> ((switch_to v k)\<lparr>bk_remaining := base + x\<rparr>, b))"
    using t(1) l(1) bw switch_to_keeps [OF k, of v] by (simp add: switch_fast_def bs1_def bs2_def split_beta)
  ultimately show ?thesis
    using rd bw assms(3) switch_to_keeps [OF k, of v] by (simp add: block_extra_def split_beta)
qed

section \<open>Type codes\<close>

text \<open>
  \<open>follows c k\<close>: the decoder's category is where the encoder's calculator is. With two types or
  more both remember the two most recent types.
\<close>

definition follows :: "type_calculator \<Rightarrow> block \<Rightarrow> bool" where
  "follows c k \<longleftrightarrow> last_type c = bk_current k \<and> second_last_type c = bk_previous k \<and> bk_current k < bk_count k \<and> bk_previous k < bk_count k"

lemma type_code_followed:
  assumes "follows c k" "t < bk_count k" "next_type_code t c = (code, c')"
  shows "follows c' (switch_to code k) \<and> bk_current (switch_to code k) = t \<and> code < bk_count k + 2"
proof -
  have "t + 2 \<noteq> 0" "t + 2 \<noteq> 1" by simp_all
  then show ?thesis
    using assms by (auto simp: follows_def next_type_code_def switch_to_def Let_def split: if_splits)
qed

lemma follows_cong:
  "bk_count k' = bk_count k \<Longrightarrow> bk_current k' = bk_current k \<Longrightarrow> bk_previous k' = bk_previous k \<Longrightarrow> follows c k' = follows c k"
  by (simp add: follows_def)

section \<open>Reading one switch\<close>

lemma decode_symbol:
  assumes "group_ok g [0 \<mapsto> C]" "reader_ok s" "(cw, v) \<in> C" "stream s = cw @ rest"
  obtains s' where "decode_refilling (group_table g 0) s = (Inr (Some v), s')" "reader_ok s'" "stream s' = rest" "same_call s s'"
  by (rule refilling.need_symbol [OF assms(2) group_carries [OF assms(1), of 0 C] assms(3,4)]) (simp, simp, rule that)

text \<open>The wire form of a switch: a codeword of the type code, then \<open>length_wire\<close>.\<close>

definition length_wire :: "(nat \<Rightarrow> bool list) \<Rightarrow> nat \<Rightarrow> bool list" where
  "length_wire W len = (case block_length_code len of (c, nbits, extra) \<Rightarrow> W c @ bits_of_nat nbits extra)"

lemma length_read:
  assumes "1 \<le> len" "len < 16625 + 2 ^ 24" "group_ok (bk_lengths k) [0 \<mapsto> C]" "(W (block_length_prefix_code len), block_length_prefix_code len) \<in> C"
    and "reader_ok s" "stream s = length_wire W len @ rest" "bk_stage k = LengthSymbol"
  obtains s' where "block_length (k, s) = (Inr True, k\<lparr>bk_remaining := len, bk_stage := Ready\<rparr>, s')"
    "reader_ok s'" "stream s' = rest" "same_call s s'"
proof -
  obtain c base nbits extra where c: "block_length_code len = (c, nbits, extra)" "c = block_length_prefix_code len"
    "PREFIX_CODE_RANGES ! c = (base, nbits)" "nbits \<le> 24" "extra < 2 ^ nbits" "base + extra = len"
    by (rule block_length_code_range [OF assms(1,2)])
  have str: "stream s = W c @ bits_of_nat nbits extra @ rest" using assms(6) by (simp add: length_wire_def c(1))
  obtain s1 where s1: "decode_refilling (group_table (bk_lengths k) 0) s = (Inr (Some c), s1)" "reader_ok s1"
    "stream s1 = bits_of_nat nbits extra @ rest" "same_call s s1"
    by (rule decode_symbol [OF assms(3,5) _ str, of c]) (use assms(4) c(2) in simp_all)
  have "nbits \<le> 56" using c(4) by simp
  then obtain s2 where s2: "read nbits s1 = (Inr (Some extra), s2)" "reader_ok s2" "stream s2 = rest" "same_call s1 s2"
    by (rule field_read [OF s1(2,3) c(5)])
  have "block_length (k, s) = (Inr True, k\<lparr>bk_remaining := len, bk_stage := Ready\<rparr>, s2)"
    using s1(1) s2(1) c(3,6) assms(7) by (simp add: block_length_def block_extra_def)
  then show thesis using that s2 s1(4) same_call_trans by blast
qed

lemma switch_read:
  assumes "follows c k" "bk_stage k = Ready" "bk_remaining k = 0" "t < bk_count k" "next_type_code t c = (code, c')"
    and "group_ok (bk_types k) [0 \<mapsto> Ct]" "(V code, code) \<in> Ct"
    and "group_ok (bk_lengths k) [0 \<mapsto> Cl]" "(W (block_length_prefix_code len), block_length_prefix_code len) \<in> Cl"
    and "1 \<le> len" "len < 16625 + 2 ^ 24" "reader_ok s" "stream s = V code @ length_wire W len @ rest"
  obtains k' s' where "prepare_block (k, s) = (Inr True, k', s')" "reader_ok s'" "stream s' = rest" "same_call s s'"
    "follows c' k'" "bk_current k' = t" "bk_remaining k' = len" "bk_stage k' = Ready" "bk_count k' = bk_count k"
    "bk_types k' = bk_types k" "bk_lengths k' = bk_lengths k"
proof -
  have k: "0 < bk_count k" using assms(4) by simp
  note sk = switch_to_keeps [OF k, of code]
  note tc = type_code_followed [OF assms(1,4,5)]
  obtain s1 where s1: "decode_refilling (group_table (bk_types k) 0) s = (Inr (Some code), s1)" "reader_ok s1"
    "stream s1 = length_wire W len @ rest" "same_call s s1"
    by (rule decode_symbol [OF assms(6,12,7,13)])
  let ?k = "(switch_to code k)\<lparr>bk_stage := LengthSymbol\<rparr>"
  obtain s2 where s2: "block_length (?k, s1) = (Inr True, ?k\<lparr>bk_remaining := len, bk_stage := Ready\<rparr>, s2)"
    "reader_ok s2" "stream s2 = rest" "same_call s1 s2"
    by (rule length_read [OF assms(10,11) _ assms(9) s1(2,3), of ?k]) (use assms(8) sk in simp_all)
  have "prepare_block (k, s) = (Inr True, ?k\<lparr>bk_remaining := len, bk_stage := Ready\<rparr>, s2)"
    using s1(1) s2(1) assms(2,3) by (simp add: prepare_block_def)
  moreover have "follows c' (?k\<lparr>bk_remaining := len, bk_stage := Ready\<rparr>)" using tc by (simp add: follows_def)
  moreover have "same_call s s2" using s1(4) s2(4) same_call_trans by blast
  ultimately show thesis using that [of "?k\<lparr>bk_remaining := len, bk_stage := Ready\<rparr>" s2] s2(2,3) tc sk by simp
qed

section \<open>Writing switches\<close>

definition code_word :: "nat list \<Rightarrow> nat list \<Rightarrow> nat \<Rightarrow> bool list" where
  "code_word depth bits c = bits_of_nat (depth ! c) (bits ! c)"

text \<open>The encoder's arrays hold codewords of \<open>C\<close> for the symbols \<open>cs\<close>.\<close>

definition words_in :: "nat list \<Rightarrow> nat list \<Rightarrow> (bool list \<times> nat) set \<Rightarrow> nat set \<Rightarrow> bool" where
  "words_in depth bits C cs \<longleftrightarrow> (\<forall>c\<in>cs. depth ! c \<le> MAX_LENGTH \<and> bits ! c < 2 ^ (depth ! c) \<and> (code_word depth bits c, c) \<in> C)"

lemma emits_word:
  assumes "words_in depth bits C cs" "c \<in> cs"
  shows "wr.emits (write_bits (depth ! c) (bits ! c)) (code_word depth bits c)"
proof -
  have "depth ! c \<le> MAX_BITS_PER_WRITE" "bits ! c < 2 ^ (depth ! c)"
    using assms unfolding words_in_def MAX_LENGTH_def MAX_BITS_PER_WRITE_def by force+
  then show ?thesis unfolding code_word_def by (rule wr.emits_put)
qed

fun type_codes :: "type_calculator \<Rightarrow> nat list \<Rightarrow> nat list" where
  "type_codes c [] = []"
| "type_codes c (t # ts) = (case next_type_code t c of (code, c') \<Rightarrow> code # type_codes c' ts)"

fun switches_wire :: "split_code \<Rightarrow> (nat \<times> nat) list \<Rightarrow> bool list" where
  "switches_wire x [] = []"
| "switches_wire x ((t, l) # bs) = (case next_type_code t (calculator x) of (code, c') \<Rightarrow>
     code_word (type_depths x) (type_bits x) code @ length_wire (code_word (length_depths x) (length_bits_of x)) l @
     switches_wire (x\<lparr>calculator := c'\<rparr>) bs)"

fun store_switches :: "(nat \<times> nat) list \<Rightarrow> split_code \<times> bit_writer \<Rightarrow> split_code \<times> bit_writer" where
  "store_switches [] xw = xw"
| "store_switches ((t, l) # bs) xw = store_switches bs (store_block_switch l t False xw)"

definition lengths_in_range :: "nat list \<Rightarrow> bool" where
  "lengths_in_range ls \<longleftrightarrow> (\<forall>l\<in>set ls. 1 \<le> l \<and> l < 16625 + 2 ^ 24)"

definition switch_words :: "split_code \<Rightarrow> (bool list \<times> nat) set \<Rightarrow> (bool list \<times> nat) set \<Rightarrow> nat list \<Rightarrow> nat list \<Rightarrow> bool" where
  "switch_words x Ct Cl ts ls \<longleftrightarrow> words_in (type_depths x) (type_bits x) Ct (set (type_codes (calculator x) ts)) \<and>
     words_in (length_depths x) (length_bits_of x) Cl (block_length_prefix_code ` set ls) \<and> lengths_in_range ls"

lemma emits_length:
  assumes "words_in depth bits C cs" "block_length_prefix_code len \<in> cs" "1 \<le> len" "len < 16625 + 2 ^ 24"
    and "block_length_code len = (c, nbits, extra)"
  shows "wr.emits (\<lambda>w. write_bits nbits extra (write_bits (depth ! c) (bits ! c) w)) (length_wire (code_word depth bits) len)"
proof -
  obtain base where c: "c = block_length_prefix_code len" "nbits \<le> 24" "extra < 2 ^ nbits"
    using block_length_code_range [OF assms(3,4)] assms(5) by (metis prod.inject)
  have "nbits \<le> MAX_BITS_PER_WRITE" using c(2) by (simp add: MAX_BITS_PER_WRITE_def)
  then show ?thesis
    using emits_word [OF assms(1,2)] c unfolding length_wire_def assms(5) by (auto intro: wr.emits_then_put)
qed

lemma store_block_switch_emits:
  assumes "switch_words x Ct Cl (t # ts) (l # ls)" "next_type_code t (calculator x) = (code, c')"
  shows "fst (store_block_switch l t False (x, w)) = x\<lparr>calculator := c'\<rparr>"
    and "wr.emits (\<lambda>w. snd (store_block_switch l t False (x, w)))
      (code_word (type_depths x) (type_bits x) code @ length_wire (code_word (length_depths x) (length_bits_of x)) l)"
proof -
  obtain c nbits extra where lc: "block_length_code l = (c, nbits, extra)" by (cases "block_length_code l")
  show "fst (store_block_switch l t False (x, w)) = x\<lparr>calculator := c'\<rparr>"
    by (simp add: store_block_switch_def assms(2) lc)
  have ty: "wr.emits (write_bits (type_depths x ! code) (type_bits x ! code)) (code_word (type_depths x) (type_bits x) code)"
    using assms by (intro emits_word [of _ _ Ct "set (type_codes (calculator x) (t # ts))"]) (simp_all add: switch_words_def)
  have le: "wr.emits (\<lambda>w. write_bits nbits extra (write_bits (length_depths x ! c) (length_bits_of x ! c) w))
      (length_wire (code_word (length_depths x) (length_bits_of x)) l)"
    using assms(1) lc by (intro emits_length [of _ _ Cl "block_length_prefix_code ` set (l # ls)"]) (simp_all add: switch_words_def lengths_in_range_def)
  show "wr.emits (\<lambda>w. snd (store_block_switch l t False (x, w)))
      (code_word (type_depths x) (type_bits x) code @ length_wire (code_word (length_depths x) (length_bits_of x)) l)"
    using wr.emits_comp [OF ty le] by (simp add: store_block_switch_def assms(2) lc)
qed

lemma switch_words_tl:
  assumes "switch_words x Ct Cl (t # ts) (l # ls)" "next_type_code t (calculator x) = (code, c')"
  shows "switch_words (x\<lparr>calculator := c'\<rparr>) Ct Cl ts ls"
  using assms by (auto simp: switch_words_def words_in_def lengths_in_range_def)

lemma store_switches_emits:
  assumes "switch_words x Ct Cl (map fst bs) (map snd bs)"
  shows "wr.emits (\<lambda>w. snd (store_switches bs (x, w))) (switches_wire x bs)"
  using assms
proof (induction bs arbitrary: x)
  case Nil
  show ?case by (simp add: wr.emits_id)
next
  case (Cons p bs)
  obtain t l where p: "p = (t, l)" by (cases p)
  obtain code c' where nt: "next_type_code t (calculator x) = (code, c')" by (cases "next_type_code t (calculator x)")
  have sw: "switch_words x Ct Cl (t # map fst bs) (l # map snd bs)" using Cons.prems p by simp
  note one = store_block_switch_emits [OF sw nt]
  have step: "store_block_switch l t False (x, w) = (x\<lparr>calculator := c'\<rparr>, snd (store_block_switch l t False (x, w)))" for w
    using one(1) [of w] by (metis prod.collapse)
  have "wr.emits (\<lambda>w. snd (store_switches bs (x\<lparr>calculator := c'\<rparr>, snd (store_block_switch l t False (x, w)))))
     ((code_word (type_depths x) (type_bits x) code @ length_wire (code_word (length_depths x) (length_bits_of x)) l) @
      switches_wire (x\<lparr>calculator := c'\<rparr>) bs)"
    by (rule wr.emits_comp [OF one(2) Cons.IH [OF switch_words_tl [OF sw nt]]])
  moreover have "(\<lambda>w. snd (store_switches (p # bs) (x, w))) =
      (\<lambda>w. snd (store_switches bs (x\<lparr>calculator := c'\<rparr>, snd (store_block_switch l t False (x, w)))))"
    by (rule ext) (simp only: p store_switches.simps step [symmetric])
  ultimately show ?case by (simp add: p nt)
qed

section \<open>Reading switches\<close>

text \<open>The decoder through the next \<open>n\<close> switches, each taken when its block has run out.\<close>

fun block_run :: "nat \<Rightarrow> block \<times> reader \<Rightarrow> (nat \<times> nat) list \<times> block \<times> reader" where
  "block_run 0 ks = ([], ks)"
| "block_run (Suc n) (k, s) =
     (case prepare_block ((advance ^^ bk_remaining k) k, s) of
        (Inr ready, k', s') \<Rightarrow>
          if ready then (case block_run n (k', s') of (bs, ks) \<Rightarrow> ((bk_current k', bk_remaining k') # bs, ks)) else ([], k', s')
      | (Inl e, k', s') \<Rightarrow> ([], k', s'))"

lemma advance_all:
  assumes "n \<le> bk_remaining k" "bk_remaining k < 2 ^ 64"
  shows "(advance ^^ n) k = k\<lparr>bk_remaining := bk_remaining k - n\<rparr>"
  using assms(1)
proof (induction n)
  case (Suc n)
  define d where "d = bk_remaining k - Suc n"
  have d: "bk_remaining k - n = Suc d" "Suc d < 2 ^ 64" using Suc.prems assms(2) by (simp_all add: d_def)
  have "wrapping_sub 64 (Suc d) 1 = d" using d(2) by (simp add: wrapping_sub_def)
  then show ?case using Suc d by (simp add: advance_def d_def)
qed simp

lemma block_run_reads:
  assumes "follows (calculator x) k" "bk_stage k = Ready" "bk_remaining k < 2 ^ 64"
    and "group_ok (bk_types k) [0 \<mapsto> Ct]" "group_ok (bk_lengths k) [0 \<mapsto> Cl]" "switch_words x Ct Cl (map fst bs) (map snd bs)"
    and "\<forall>t\<in>set (map fst bs). t < bk_count k" "reader_ok s" "stream s = switches_wire x bs @ rest"
  shows "fst (block_run (length bs) (k, s)) = bs \<and> stream (snd (snd (block_run (length bs) (k, s)))) = rest \<and>
    reader_ok (snd (snd (block_run (length bs) (k, s))))"
  using assms
proof (induction bs arbitrary: x k s)
  case (Cons p bs)
  obtain t l where p: "p = (t, l)" by (cases p)
  obtain code c' where nt: "next_type_code t (calculator x) = (code, c')" by (cases "next_type_code t (calculator x)")
  let ?V = "code_word (type_depths x) (type_bits x)" and ?W = "code_word (length_depths x) (length_bits_of x)"
  let ?k = "k\<lparr>bk_remaining := 0\<rparr>"
  have sw: "switch_words x Ct Cl (t # map fst bs) (l # map snd bs)" using Cons.prems(6) p by simp
  have adv: "(advance ^^ bk_remaining k) k = ?k" using advance_all [OF order_refl Cons.prems(3)] by simp
  have fo: "follows (calculator x) ?k" using Cons.prems(1) by (simp add: follows_def)
  have str: "stream s = ?V code @ length_wire ?W l @ switches_wire (x\<lparr>calculator := c'\<rparr>) bs @ rest"
    using Cons.prems(9) by (simp add: p nt)
  have w: "(?V code, code) \<in> Ct" "(?W (block_length_prefix_code l), block_length_prefix_code l) \<in> Cl" "1 \<le> l" "l < 16625 + 2 ^ 24"
    using sw nt by (simp_all add: switch_words_def words_in_def lengths_in_range_def)
  have l64: "l < 2 ^ 64" using w(4) by simp
  have "bk_types ?k = bk_types k" "bk_lengths ?k = bk_lengths k" by simp_all
  then have g: "group_ok (bk_types ?k) [0 \<mapsto> Ct]" "group_ok (bk_lengths ?k) [0 \<mapsto> Cl]" using Cons.prems(4,5) by argo+
  obtain k' s' where k': "prepare_block (?k, s) = (Inr True, k', s')" "reader_ok s'"
    "stream s' = switches_wire (x\<lparr>calculator := c'\<rparr>) bs @ rest"
    "follows c' k'" "bk_current k' = t" "bk_remaining k' = l" "bk_stage k' = Ready" "bk_count k' = bk_count k"
    "bk_types k' = bk_types k" "bk_lengths k' = bk_lengths k"
    by (rule switch_read [where V = ?V and W = ?W, OF fo _ _ _ nt g(1) w(1) g(2) w(2-4) Cons.prems(8) str]) (use Cons.prems p in simp_all)
  have "fst (block_run (length bs) (k', s')) = bs \<and> stream (snd (snd (block_run (length bs) (k', s')))) = rest \<and>
    reader_ok (snd (snd (block_run (length bs) (k', s'))))"
    using k' l64 Cons.prems(7)
    by (intro Cons.IH [OF _ _ _ Cons.prems(4,5) [folded k'(9,10)] switch_words_tl [OF sw nt] _ k'(2,3)]) simp_all
  then show ?case using k' adv p by (simp add: split_beta)
qed simp

lemma in_set_tl: "x \<in> set (tl xs) \<Longrightarrow> x \<in> set xs"
  by (cases xs) simp_all

section \<open>Histograms of a split\<close>

definition tally :: "nat \<Rightarrow> nat list \<Rightarrow> nat list" where
  "tally c h = h[c := h ! c + 1]"

lemma length_tallies [simp]: "length (fold tally cs h) = length h"
  by (induction cs arbitrary: h) (simp_all add: tally_def)

lemma nth_tallies:
  "x < length h \<Longrightarrow> fold tally cs h ! x = h ! x + count_list cs x"
  by (induction cs arbitrary: h) (auto simp: tally_def nth_list_update)

definition split_ok :: "block_split \<Rightarrow> bool" where
  "split_ok split \<longleftrightarrow> 1 \<le> num_types split \<and> num_types split \<le> 256 \<and> 1 \<le> num_blocks split \<and>
     length (split_types split) = num_blocks split \<and> length (split_lengths split) = num_blocks split \<and>
     split_types split ! 0 = 0 \<and> (\<forall>t\<in>set (split_types split). t < num_types split) \<and> lengths_in_range (split_lengths split) \<and>
     2 * num_blocks split * 258 < 2 ^ 32 - 1 \<and> (num_types split = 1 \<longrightarrow> num_blocks split = 1)"

lemma split_symbols_tail:
  assumes "1 \<le> i"
  shows "\<exists>c'. fold (split_symbols split) [i..<n] (c, th, lh) = (c',
     fold tally (type_codes c (map ((!) (split_types split)) [i..<n])) th,
     fold tally (map (\<lambda>j. block_length_prefix_code (split_lengths split ! j)) [i..<n]) lh)"
  using assms
proof (induction "n - i" arbitrary: i c th lh)
  case (Suc d)
  obtain code c' where nt: "next_type_code (split_types split ! i) c = (code, c')" by (cases "next_type_code (split_types split ! i) c")
  have split: "[i..<n] = i # [Suc i..<n]" using Suc by (simp add: upt_conv_Cons)
  have "d = n - Suc i" "1 \<le> Suc i" using Suc by simp_all
  note ih = Suc.hyps(1) [OF this, of c' "tally code th" "tally (block_length_prefix_code (split_lengths split ! i)) lh"]
  have "split_symbols split i (c, th, lh) = (c', tally code th, tally (block_length_prefix_code (split_lengths split ! i)) lh)"
    using Suc.prems by (simp add: split_symbols_def nt tally_def Let_def)
  then show ?case unfolding split using ih by (simp add: nt)
qed simp

lemma map_nth_tl: "length xs = n \<Longrightarrow> 1 \<le> n \<Longrightarrow> map ((!) xs) [1..<n] = tl xs"
  by (rule nth_equalityI) (auto simp: nth_tl)

definition start_calculator :: type_calculator where
  "start_calculator = \<lparr>last_type = 0, second_last_type = 1\<rparr>"

lemma split_histograms:
  assumes "split_ok split"
  shows "\<exists>c. fold (split_symbols split) [0..<num_blocks split]
            (calculator_new, replicate MAX_BLOCK_TYPE_SYMBOLS 0, replicate NUM_BLOCK_LEN_SYMBOLS 0) =
     (c, fold tally (type_codes start_calculator (tl (split_types split))) (replicate MAX_BLOCK_TYPE_SYMBOLS 0),
      fold tally (map block_length_prefix_code (split_lengths split)) (replicate NUM_BLOCK_LEN_SYMBOLS 0))"
proof -
  let ?n = "num_blocks split"
  have n: "1 \<le> ?n" "length (split_types split) = ?n" "length (split_lengths split) = ?n" "split_types split ! 0 = 0"
    using assms by (simp_all add: split_ok_def)
  have up: "[0..<?n] = 0 # [1..<?n]" using n(1) by (simp add: upt_conv_Cons)
  have first: "split_symbols split 0 (calculator_new, th, lh) =
      (start_calculator, th, tally (block_length_prefix_code (split_lengths split ! 0)) lh)" for th lh
    using n(4) by (simp add: split_symbols_def next_type_code_def calculator_new_def start_calculator_def tally_def Let_def)
  have ls: "map block_length_prefix_code (split_lengths split) =
      block_length_prefix_code (split_lengths split ! 0) # map (\<lambda>j. block_length_prefix_code (split_lengths split ! j)) [1..<?n]"
  proof -
    have "map block_length_prefix_code (split_lengths split) = map (\<lambda>j. block_length_prefix_code (split_lengths split ! j)) [0..<?n]"
      using n(3) by (intro nth_equalityI) simp_all
    then show ?thesis unfolding up by simp
  qed
  show ?thesis
    unfolding up ls using split_symbols_tail [of 1 split ?n start_calculator] map_nth_tl [OF n(2,1)] by (simp add: first)
qed

lemma type_codes_less:
  assumes "\<forall>t\<in>set ts. t < n" "2 \<le> n"
  shows "\<forall>c\<in>set (type_codes calc ts). c < n + 2"
  using assms(1)
proof (induction ts arbitrary: calc)
  case (Cons t ts)
  then show ?case using assms(2) by (auto simp: next_type_code_def)
qed simp

lemma length_type_codes [simp]: "length (type_codes c ts) = length ts"
  by (induction ts arbitrary: c) (simp_all add: next_type_code_def)

lemma count_list_le: "count_list xs x \<le> length xs"
  by (induction xs) auto

lemma block_length_prefix_code_less:
  assumes "1 \<le> l" "l < 16625 + 2 ^ 24"
  shows "block_length_prefix_code l < 26"
  using block_length_code_range [OF assms] by metis

text \<open>A code built for the histogram of some symbols holds the words of all of them.\<close>

lemma tally_code_stored:
  assumes "0 < n" "n \<le> N" "N \<le> NUM_COMMAND_SYMBOLS" "length depth = N" "length bits = N" "\<forall>c\<in>set cs. c < n"
    "2 * length cs * n < 2 ^ 32 - 1"
  obtains tree' depth' bits' f bs C where
    "\<And>w. build_and_store_huffman_tree (fold tally cs (replicate N 0)) n n tree depth bits w = Some (tree', depth', bits', f w)"
    "wr.emits f bs" "describes_code n bs C" "words_in depth' bits' C (set cs)" "length depth' = N" "length bits' = N"
proof -
  let ?h = "fold tally cs (replicate N 0)"
  have n704: "n \<le> 704" using assms(2,3) by (simp add: NUM_COMMAND_SYMBOLS_def)
  have h: "?h ! i = count_list cs i" if "i < n" for i using nth_tallies [of i "replicate N 0" cs] that assms(2) by simp
  have "n \<le> NUM_COMMAND_SYMBOLS" "n \<le> MAX_ALPHABET" "\<forall>i<n. ?h ! i \<le> length cs" "n \<le> length ?h" "n \<le> length depth" "n \<le> length bits"
    using assms n704 h count_list_le [of cs] by (simp_all add: MAX_ALPHABET_def)
  then obtain tree' depth' bits' f bs where r:
    "\<And>w. build_and_store_huffman_tree ?h n n tree depth bits w = Some (tree', depth', bits', f w)" "wr.emits f bs"
    "length depth' = length depth" "length bits' = length bits" "code_stored ?h n n depth' bits' bs"
    using build_and_store_code [of n ?h depth bits n "length cs" tree] assms(1,7) by blast
  obtain C where C: "describes_code n bs C"
    "\<forall>i<n. ?h ! i \<noteq> 0 \<longrightarrow> depth' ! i \<le> MAX_LENGTH \<and> bits' ! i < 2 ^ (depth' ! i) \<and> (bits_of_nat (depth' ! i) (bits' ! i), i) \<in> C"
    using r(5) unfolding code_stored_def by blast
  have "words_in depth' bits' C (set cs)"
    unfolding words_in_def code_word_def
  proof
    fix c assume "c \<in> set cs"
    then have "c < n" "?h ! c \<noteq> 0" using assms(6) h count_list_0_iff [of cs c] by auto
    then show "depth' ! c \<le> MAX_LENGTH \<and> bits' ! c < 2 ^ (depth' ! c) \<and> (bits_of_nat (depth' ! c) (bits' ! c), c) \<in> C" using C(2) by blast
  qed
  then show thesis by (rule that [OF r(1,2) C(1)]) (use r assms(4,5) in simp_all)
qed

section \<open>A split's codes\<close>

text \<open>
  \<open>header_reads bs k0\<close>: from a reset category and an idle builder, the header takes \<open>bs\<close> off the
  stream and leaves a category satisfying \<open>K\<close>, unless the workspace runs out of memory.
\<close>

definition header_reads :: "bool list \<Rightarrow> (block \<Rightarrow> bool) \<Rightarrow> bool" where
  "header_reads bs K \<longleftrightarrow> (\<forall>alloc k b s m rest r k' b' s' m'. idle b \<longrightarrow> reader_ok s \<longrightarrow> stream s = bs @ rest \<longrightarrow>
     block_header alloc (block_reset k, b, s, m) = (r, k', b', s', m') \<longrightarrow>
     reader_ok s' \<and> same_call s s' \<and> (case r of Inl e \<Rightarrow> memory_failure e | Inr ready \<Rightarrow> ready \<and> idle b' \<and> stream s' = rest \<and> K k'))"

lemma uint8_read:
  assumes "reader_ok s" "n < 256" "stream s = var_len_bits n @ rest"
  obtains s' where "uint8 s = (Inr (Some n), s')" "reader_ok s'" "stream s' = rest" "same_call s s'"
proof -
  obtain s' where s': "uint8 s = (Inr (Some n), s')" "reader_ok s'" "stream s' = rest"
    using uint8_decodes [OF assms] by blast
  then show thesis using that uint8_keeps [OF assms(1)] by simp
qed

lemma single_type_header:
  "header_reads (var_len_bits 0) (\<lambda>k. bk_count k = 1 \<and> bk_current k = 0 \<and> bk_remaining k = 2 ^ 64 - 1 \<and> bk_stage k = Ready)"
  unfolding header_reads_def
proof (intro allI impI)
  fix alloc k b s m rest r k' b' s' m'
  assume h: "idle b" "reader_ok s" "stream s = var_len_bits 0 @ rest" "block_header alloc (block_reset k, b, s, m) = (r, k', b', s', m')"
  obtain s1 where s1: "uint8 s = (Inr (Some 0), s1)" "reader_ok s1" "stream s1 = rest" "same_call s s1"
    by (rule uint8_read [OF h(2) _ h(3)]) simp_all
  have "r = Inr True" "k' = (block_reset k)\<lparr>bk_stage := Ready\<rparr>" "b' = b" "s' = s1"
    using h(4) s1(1) by (auto simp: block_header_def header_type_count_def block_reset_def)
  then show "reader_ok s' \<and> same_call s s' \<and> (case r of Inl e \<Rightarrow> memory_failure e | Inr ready \<Rightarrow> ready \<and> idle b' \<and> stream s' = rest \<and>
      bk_count k' = 1 \<and> bk_current k' = 0 \<and> bk_remaining k' = 2 ^ 64 - 1 \<and> bk_stage k' = Ready)"
    using s1 h(1) by (simp add: block_reset_def)
qed

lemma header_read:
  assumes T: "2 \<le> T" "T \<le> 256" and dt: "describes_code (T + 2) ts Ct" and dl: "describes_code 26 ls Cl"
    and len: "1 \<le> len" "len < 16625 + 2 ^ 24" "(W (block_length_prefix_code len), block_length_prefix_code len) \<in> Cl"
  shows "header_reads (var_len_bits (T - 1) @ ts @ ls @ length_wire W len)
    (\<lambda>k. bk_count k = T \<and> bk_current k = 0 \<and> bk_previous k = 1 \<and> bk_remaining k = len \<and> bk_stage k = Ready \<and>
      group_ok (bk_types k) [0 \<mapsto> Ct] \<and> group_ok (bk_lengths k) [0 \<mapsto> Cl])"
  unfolding header_reads_def
proof (intro allI impI)
  fix alloc k b s m rest r k' b' s' m'
  assume h: "idle b" "reader_ok s" "stream s = (var_len_bits (T - 1) @ ts @ ls @ length_wire W len) @ rest"
    "block_header alloc (block_reset k, b, s, m) = (r, k', b', s', m')"
  let ?goal = "reader_ok s' \<and> same_call s s' \<and> (case r of Inl e \<Rightarrow> memory_failure e | Inr ready \<Rightarrow> ready \<and> idle b' \<and> stream s' = rest \<and>
      bk_count k' = T \<and> bk_current k' = 0 \<and> bk_previous k' = 1 \<and> bk_remaining k' = len \<and> bk_stage k' = Ready \<and>
      group_ok (bk_types k') [0 \<mapsto> Ct] \<and> group_ok (bk_lengths k') [0 \<mapsto> Cl])"
  have str: "stream s = var_len_bits (T - 1) @ ts @ ls @ length_wire W len @ rest" using h(3) by simp
  obtain s1 where s1: "uint8 s = (Inr (Some (T - 1)), s1)" "reader_ok s1" "stream s1 = ts @ ls @ length_wire W len @ rest" "same_call s s1"
    by (rule uint8_read [OF h(2) _ str]) (use T in simp_all)
  define k1 where "k1 = (block_reset k)\<lparr>bk_count := T, bk_stage := TypeTree\<rparr>"
  have k1: "bk_count k1 = T" "bk_current k1 = 0" "bk_previous k1 = 1" by (simp_all add: k1_def block_reset_def)
  have hd: "header_type_tree alloc (k1, b, s1, m) = (r, k', b', s', m')"
    using h(4) s1(1) T by (simp add: block_header_def header_type_count_def block_reset_def k1_def)
  have ar: "arrays_ok b" "b_stage b = Start" using h(1) by (simp_all add: idle_def)
  obtain r1 g1 b1 s2 m1 where rt: "read_table alloc (T + 2) (bk_types k1) (b, s1, m) = (r1, g1, b1, s2, m1)"
    by (cases "read_table alloc (T + 2) (bk_types k1) (b, s1, m)")
  have "T + 2 \<le> MAX_ALPHABET" using T by (simp add: MAX_ALPHABET_def)
  note t = read_table_described [OF dt this ar s1(2,3) rt]
  show ?goal
  proof (cases r1)
    case (Inl e)
    then have "r = Inl e" "s' = s2" using hd rt k1 by (simp_all add: header_type_tree_def)
    then show ?thesis using t Inl s1(4) same_call_trans by auto
  next
    case (Inr ready)
    then have t1: "ready" "arrays_ok b1" "b_stage b1 = Start" "reader_ok s2" "stream s2 = ls @ length_wire W len @ rest" "group_ok g1 [0 \<mapsto> Ct]"
      and sc2: "same_call s s2" using t s1(4) same_call_trans by auto
    define k2 where "k2 = k1\<lparr>bk_types := g1, bk_stage := LengthTree\<rparr>"
    have k2: "bk_count k2 = T" "bk_current k2 = 0" "bk_previous k2 = 1" "bk_types k2 = g1" using k1 by (simp_all add: k2_def)
    have hd2: "header_length_tree alloc (k2, b1, s2, m1) = (r, k', b', s', m')"
      using hd rt k1 Inr t1(1) by (simp add: header_type_tree_def k2_def)
    obtain r2 g2 b2 s3 m2 where rt2: "read_table alloc 26 (bk_lengths k2) (b1, s2, m1) = (r2, g2, b2, s3, m2)"
      by (cases "read_table alloc 26 (bk_lengths k2) (b1, s2, m1)")
    have "26 \<le> MAX_ALPHABET" by (simp add: MAX_ALPHABET_def)
    note u = read_table_described [OF dl this t1(2-5) rt2]
    show ?thesis
    proof (cases r2)
      case (Inl e)
      then have "r = Inl e" "s' = s3" using hd2 rt2 by (simp_all add: header_length_tree_def)
      then show ?thesis using u Inl sc2 same_call_trans by auto
    next
      case (Inr ready')
      then have u1: "ready'" "arrays_ok b2" "b_stage b2 = Start" "reader_ok s3" "stream s3 = length_wire W len @ rest" "group_ok g2 [0 \<mapsto> Cl]"
        and sc3: "same_call s s3" using u sc2 same_call_trans by auto
      define k3 where "k3 = k2\<lparr>bk_lengths := g2, bk_stage := LengthSymbol\<rparr>"
      have k3: "bk_lengths k3 = g2" "bk_stage k3 = LengthSymbol" by (simp_all add: k3_def)
      obtain s4 where s4: "block_length (k3, s3) = (Inr True, k3\<lparr>bk_remaining := len, bk_stage := Ready\<rparr>, s4)"
        "reader_ok s4" "stream s4 = rest" "same_call s3 s4"
        by (rule length_read [where W = W, OF len(1,2) _ len(3) u1(4,5) k3(2)]) (use u1(6) k3(1) in argo, rule that)
      have "r = Inr True" "k' = k3\<lparr>bk_remaining := len, bk_stage := Ready\<rparr>" "b' = b2" "s' = s4"
        using hd2 rt2 Inr u1(1) s4(1) by (simp_all add: header_length_tree_def header_length_def flip: k3_def)
      then show ?thesis using s4 sc3 same_call_trans u1 t1(6) k2 by (auto simp: k3_def idle_def)
    qed
  qed
qed

lemma split_stored:
  assumes ok: "split_ok split" and T: "2 \<le> num_types split"
  obtains tree' x' f bs Ct Cl where
    "\<And>w. build_and_store_block_split_code split tree split_code_new w = Some (tree', x', f w)" "wr.emits f bs"
    "header_reads bs (\<lambda>k. bk_count k = num_types split \<and> bk_current k = 0 \<and> bk_previous k = 1 \<and> bk_remaining k = split_lengths split ! 0 \<and>
       bk_stage k = Ready \<and> group_ok (bk_types k) [0 \<mapsto> Ct] \<and> group_ok (bk_lengths k) [0 \<mapsto> Cl])"
    "calculator x' = start_calculator" "switch_words x' Ct Cl (tl (split_types split)) (tl (split_lengths split))"
proof -
  let ?T = "num_types split" and ?n = "num_blocks split"
  let ?tc = "type_codes start_calculator (tl (split_types split))" and ?lc = "map block_length_prefix_code (split_lengths split)"
  have s: "?T \<le> 256" "1 \<le> ?n" "length (split_types split) = ?n" "length (split_lengths split) = ?n" "split_types split ! 0 = 0"
    "\<forall>t\<in>set (split_types split). t < ?T" "lengths_in_range (split_lengths split)" "2 * ?n * 258 < 2 ^ 32 - 1"
    using ok by (simp_all add: split_ok_def)
  obtain calc where histo: "fold (split_symbols split) [0..<?n] (calculator_new, replicate MAX_BLOCK_TYPE_SYMBOLS 0, replicate NUM_BLOCK_LEN_SYMBOLS 0) =
     (calc, fold tally ?tc (replicate 258 0), fold tally ?lc (replicate 26 0))"
    using split_histograms [OF ok] unfolding MAX_BLOCK_TYPE_SYMBOLS_def MAX_NUMBER_OF_BLOCK_TYPES_def NUM_BLOCK_LEN_SYMBOLS_def by auto
  have tcs: "\<forall>c\<in>set ?tc. c < ?T + 2" using s(6) T by (intro type_codes_less) (auto dest: in_set_tl)
  have "2 * length ?tc * (?T + 2) \<le> 2 * ?n * 258" using s by (intro mult_le_mono) simp_all
  then have tb: "2 * length ?tc * (?T + 2) < 2 ^ 32 - 1" using s(8) by linarith
  have lcs: "\<forall>c\<in>set ?lc. c < 26" using s(7) block_length_prefix_code_less by (auto simp: lengths_in_range_def)
  have "2 * length ?lc * 26 \<le> 2 * ?n * 258" using s by (intro mult_le_mono) simp_all
  then have lb: "2 * length ?lc * 26 < 2 ^ 32 - 1" using s(8) by linarith
  have dt: "length (type_depths split_code_new) = 258" "length (type_bits split_code_new) = 258" "?T + 2 \<le> 258" "258 \<le> NUM_COMMAND_SYMBOLS"
    and dl: "length (length_depths split_code_new) = 26" "length (length_bits_of split_code_new) = 26" "26 \<le> NUM_COMMAND_SYMBOLS"
    using s(1) by (simp_all add: split_code_new_def MAX_BLOCK_TYPE_SYMBOLS_def MAX_NUMBER_OF_BLOCK_TYPES_def NUM_BLOCK_LEN_SYMBOLS_def NUM_COMMAND_SYMBOLS_def)
  obtain tree1 td ty f1 bs1 Ct where t: "\<And>w. build_and_store_huffman_tree (fold tally ?tc (replicate 258 0)) (?T + 2) (?T + 2) tree
      (type_depths split_code_new) (type_bits split_code_new) w = Some (tree1, td, ty, f1 w)"
    "wr.emits f1 bs1" "describes_code (?T + 2) bs1 Ct" "words_in td ty Ct (set ?tc)"
    by (rule tally_code_stored [OF _ dt(3,4,1,2) tcs tb, of tree]) (simp, rule that)
  obtain tree2 ld ly f2 bs2 Cl where l: "\<And>w. build_and_store_huffman_tree (fold tally ?lc (replicate 26 0)) 26 26 tree1
      (length_depths split_code_new) (length_bits_of split_code_new) w = Some (tree2, ld, ly, f2 w)"
    "wr.emits f2 bs2" "describes_code 26 bs2 Cl" "words_in ld ly Cl (set ?lc)"
    by (rule tally_code_stored [OF _ order_refl dl(3,1,2) lcs lb, of tree1]) (simp, rule that)
  define x where "x = split_code_new\<lparr>type_depths := td, type_bits := ty, length_depths := ld, length_bits_of := ly\<rparr>"
  define x' where "x' = x\<lparr>calculator := start_calculator\<rparr>"
  let ?l0 = "split_lengths split ! 0"
  obtain c nbits extra where lc: "block_length_code ?l0 = (c, nbits, extra)" by (cases "block_length_code ?l0")
  define g where "g w = write_bits nbits extra (write_bits (ld ! c) (ly ! c) w)" for w
  define f where "f w = g (f2 (f1 (store_var_len_uint8 (?T - 1) w)))" for w
  have first: "store_block_switch ?l0 (split_types split ! 0) True (x, w) = (x', g w)" for w
    using s(5) by (simp add: store_block_switch_def x'_def x_def split_code_new_def calculator_new_def next_type_code_def start_calculator_def lc g_def)
  have run: "build_and_store_block_split_code split tree split_code_new w = Some (tree2, x', f w)" for w
    using T histo t(1) l(1) first
    by (simp add: build_and_store_block_split_code_def Let_def NUM_BLOCK_LEN_SYMBOLS_def f_def x_def)
  have l0: "?l0 \<in> set (split_lengths split)" using s(2,4) by simp
  then have l0r: "1 \<le> ?l0" "?l0 < 16625 + 2 ^ 24" "block_length_prefix_code ?l0 \<in> set ?lc" using s(7) by (simp_all add: lengths_in_range_def)
  have ge: "wr.emits g (length_wire (code_word ld ly) ?l0)"
    unfolding g_def [abs_def] by (rule emits_length [OF l(4) l0r(3,1,2) lc])
  have "wr.emits (store_var_len_uint8 (?T - 1)) (var_len_bits (?T - 1))" using s(1) by (intro emits_var_len) simp
  from wr.emits_comp [OF wr.emits_comp [OF wr.emits_comp [OF this t(2)] l(2)] ge]
  have em: "wr.emits f (var_len_bits (?T - 1) @ bs1 @ bs2 @ length_wire (code_word ld ly) ?l0)" unfolding f_def [abs_def] by simp
  have "(code_word ld ly (block_length_prefix_code ?l0), block_length_prefix_code ?l0) \<in> Cl" using l(4) l0r(3) unfolding words_in_def by blast
  note hr = header_read [where W = "code_word ld ly", OF T s(1) t(3) l(3) l0r(1,2) this]
  have "switch_words x' Ct Cl (tl (split_types split)) (tl (split_lengths split))"
    unfolding switch_words_def words_in_def lengths_in_range_def
    using t(4) l(4) s(7) by (auto simp: words_in_def lengths_in_range_def x'_def x_def dest: in_set_tl)
  then show thesis using run em hr by (intro that [of tree2 x' f]) (simp_all add: x'_def)
qed

section \<open>Properties\<close>

text \<open>What the decoder makes of the bits of a split, header and switches.\<close>

definition split_decodes :: "block_split \<Rightarrow> bool list \<Rightarrow> bool" where
  "split_decodes split bs \<longleftrightarrow> (\<forall>alloc k b s m rest r k' b' s' m'. idle b \<and> reader_ok s \<and> stream s = bs @ rest \<and>
      block_header alloc (block_reset k, b, s, m) = (r, k', b', s', m') \<longrightarrow>
      (case r of Inl e \<Rightarrow> memory_failure e
       | Inr ready \<Rightarrow> ready \<and> idle b' \<and> bk_count k' = num_types split \<and> bk_current k' = 0 \<and>
           bk_remaining k' = (if num_types split = 1 then 2 ^ 64 - 1 else split_lengths split ! 0) \<and>
           (case block_run (num_blocks split - 1) (k', s') of (blocks, _, s'') \<Rightarrow>
              blocks = zip (tl (split_types split)) (tl (split_lengths split)) \<and> reader_ok s'' \<and> stream s'' = rest)))"

lemma single_split_decodes:
  assumes "split_ok split" "num_types split = 1"
  shows "split_decodes split (var_len_bits 0)" "tl (split_types split) = []"
proof -
  have nb: "num_blocks split = 1" using assms by (simp add: split_ok_def)
  then have "length (split_types split) = 1" using assms(1) by (simp add: split_ok_def)
  then show ty: "tl (split_types split) = []" by (cases "split_types split") simp_all
  show "split_decodes split (var_len_bits 0)"
    unfolding split_decodes_def
  proof (intro allI impI)
    fix alloc k b s m rest r k' b' s' m'
    assume h: "idle b \<and> reader_ok s \<and> stream s = var_len_bits 0 @ rest \<and> block_header alloc (block_reset k, b, s, m) = (r, k', b', s', m')"
    have "reader_ok s' \<and> same_call s s' \<and> (case r of Inl e \<Rightarrow> memory_failure e | Inr ready \<Rightarrow> ready \<and> idle b' \<and> stream s' = rest \<and>
        bk_count k' = 1 \<and> bk_current k' = 0 \<and> bk_remaining k' = 2 ^ 64 - 1 \<and> bk_stage k' = Ready)"
      using single_type_header h unfolding header_reads_def by blast
    then show "case r of Inl e \<Rightarrow> memory_failure e
       | Inr ready \<Rightarrow> ready \<and> idle b' \<and> bk_count k' = num_types split \<and> bk_current k' = 0 \<and>
           bk_remaining k' = (if num_types split = 1 then 2 ^ 64 - 1 else split_lengths split ! 0) \<and>
           (case block_run (num_blocks split - 1) (k', s') of (blocks, _, s'') \<Rightarrow>
              blocks = zip (tl (split_types split)) (tl (split_lengths split)) \<and> reader_ok s'' \<and> stream s'' = rest)"
      using nb ty assms(2) by (auto split: sum.splits)
  qed
qed

lemma several_split_decodes:
  assumes ok: "split_ok split" "2 \<le> num_types split"
    and hr: "header_reads bs (\<lambda>k. bk_count k = num_types split \<and> bk_current k = 0 \<and> bk_previous k = 1 \<and> bk_remaining k = split_lengths split ! 0 \<and>
       bk_stage k = Ready \<and> group_ok (bk_types k) [0 \<mapsto> Ct] \<and> group_ok (bk_lengths k) [0 \<mapsto> Cl])"
    and x: "calculator x = start_calculator" "switch_words x Ct Cl (tl (split_types split)) (tl (split_lengths split))"
  shows "split_decodes split (bs @ switches_wire x (zip (tl (split_types split)) (tl (split_lengths split))))"
  unfolding split_decodes_def
proof (intro allI impI)
  let ?bl = "zip (tl (split_types split)) (tl (split_lengths split))"
  have sl: "length (split_types split) = num_blocks split" "length (split_lengths split) = num_blocks split" "1 \<le> num_blocks split"
    "lengths_in_range (split_lengths split)" "\<forall>t\<in>set (split_types split). t < num_types split"
    using ok by (simp_all add: split_ok_def)
  then have bl: "length ?bl = num_blocks split - 1" "map fst ?bl = tl (split_types split)" "map snd ?bl = tl (split_lengths split)" by simp_all
  fix alloc k b s m rest r k' b' s' m'
  assume h: "idle b \<and> reader_ok s \<and> stream s = (bs @ switches_wire x ?bl) @ rest \<and> block_header alloc (block_reset k, b, s, m) = (r, k', b', s', m')"
  then have "stream s = bs @ switches_wire x ?bl @ rest" by simp
  with hr h have H: "reader_ok s' \<and> same_call s s' \<and> (case r of Inl e \<Rightarrow> memory_failure e | Inr ready \<Rightarrow> ready \<and> idle b' \<and> stream s' = switches_wire x ?bl @ rest \<and>
      (bk_count k' = num_types split \<and> bk_current k' = 0 \<and> bk_previous k' = 1 \<and> bk_remaining k' = split_lengths split ! 0 \<and>
       bk_stage k' = Ready \<and> group_ok (bk_types k') [0 \<mapsto> Ct] \<and> group_ok (bk_lengths k') [0 \<mapsto> Cl]))"
    unfolding header_reads_def by blast
  show "case r of Inl e \<Rightarrow> memory_failure e
       | Inr ready \<Rightarrow> ready \<and> idle b' \<and> bk_count k' = num_types split \<and> bk_current k' = 0 \<and>
           bk_remaining k' = (if num_types split = 1 then 2 ^ 64 - 1 else split_lengths split ! 0) \<and>
           (case block_run (num_blocks split - 1) (k', s') of (blocks, _, s'') \<Rightarrow> blocks = ?bl \<and> reader_ok s'' \<and> stream s'' = rest)"
  proof (cases r)
    case (Inl e)
    then show ?thesis using H by simp
  next
    case (Inr ready)
    then have g: "group_ok (bk_types k') [0 \<mapsto> Ct]" "group_ok (bk_lengths k') [0 \<mapsto> Cl]" "reader_ok s'" "stream s' = switches_wire x ?bl @ rest"
      and k: "bk_count k' = num_types split" "bk_current k' = 0" "bk_previous k' = 1" "bk_remaining k' = split_lengths split ! 0" "bk_stage k' = Ready"
      and i: "ready" "idle b'" using H by simp_all
    have fo: "follows (calculator x) k'" using k ok(2) x(1) by (simp add: follows_def start_calculator_def)
    have "split_lengths split ! 0 \<in> set (split_lengths split)" using sl by simp
    then have "bk_remaining k' < 2 ^ 64" using sl(4) k(4) by (auto simp: lengths_in_range_def)
    moreover have "\<forall>t\<in>set (map fst ?bl). t < bk_count k'" unfolding bl k using sl(5) by (auto dest: in_set_tl)
    moreover have "switch_words x Ct Cl (map fst ?bl) (map snd ?bl)" using x(2) by (simp only: bl)
    ultimately have "fst (block_run (length ?bl) (k', s')) = ?bl \<and> stream (snd (snd (block_run (length ?bl) (k', s')))) = rest \<and>
        reader_ok (snd (snd (block_run (length ?bl) (k', s'))))"
      by (intro block_run_reads [OF fo k(5) _ g(1,2) _ _ g(3,4)])
    then show ?thesis using Inr k i ok(2) unfolding bl(1) by (simp add: split_beta)
  qed
qed

text \<open>
  C32 (invariant). No input breaks a category: from an idle builder and the invariant, the
  resumable header either fails, or waits with the invariant kept, or ends ready with a block that
  is not empty; and a switch at the end of a block, resumed wherever it stopped, reports nothing
  but the input limit, keeps the invariant, and leaves a current type below the number of types.
\<close>

theorem block_invariant:
  assumes "block_ok b k" "reader_ok s"
  shows "(bk_stage k \<noteq> Ready \<and> block_header alloc (k, b, s, m) = (Inr ready, k', b', s', m') \<longrightarrow>
      reader_ok s' \<and> block_ok b' k' \<and> (ready \<longrightarrow> bk_stage k' = Ready \<and> 0 < bk_remaining k')) \<and>
    (bk_stage k \<notin> {TypeCount, TypeTree, LengthTree} \<and> (bk_remaining k = 0 \<longrightarrow> 2 \<le> bk_count k) \<and>
      prepare_block (k, s) = (r, k', s') \<longrightarrow> reader_ok s' \<and> (case r of Inl e \<Rightarrow> Some e = starved s
        | Inr go \<Rightarrow> block_ok b k' \<and> bk_current k' < bk_count k' \<and> (go \<longrightarrow> 0 < bk_remaining k')))"
proof (intro conjI impI; elim conjE)
  assume "bk_stage k \<noteq> Ready" "block_header alloc (k, b, s, m) = (Inr ready, k', b', s', m')"
  with block_header_outcome [OF assms, of alloc m]
  show "reader_ok s'" "block_ok b' k'" "ready \<Longrightarrow> bk_stage k' = Ready" "ready \<Longrightarrow> 0 < bk_remaining k'"
    by (simp_all add: header_outcome_def)
next
  assume "bk_stage k \<notin> {TypeCount, TypeTree, LengthTree}" "bk_remaining k = 0 \<longrightarrow> 2 \<le> bk_count k" "prepare_block (k, s) = (r, k', s')"
  note p = prepare_keeps [OF assms this]
  show "reader_ok s'" using p by simp
  show "case r of Inl e \<Rightarrow> Some e = starved s | Inr go \<Rightarrow> block_ok b k' \<and> bk_current k' < bk_count k' \<and> (go \<longrightarrow> 0 < bk_remaining k')"
    using p by (auto simp: block_ok_def split: sum.splits)
qed

lemma idle_default: "idle builder_default"
  by (simp add: idle_def arrays_ok_def builder_default_def)

theorem block_invariant_witness:
  "\<exists>k' b' s' m'. block_header Some (block_default, builder_default, (bits_default, input_new [0] 0 None), memory_default) = (Inr True, k', b', s', m') \<and>
     block_ok b' k'"
proof -
  define s :: reader where "s = (bits_default, input_new [0] 0 None)"
  have rk: "reader_ok s" unfolding s_def by (rule reader_ok_new) simp
  have ok: "block_ok builder_default block_default" using idle_default by (simp add: block_ok_def block_default_def)
  have st: "bk_stage block_default = TypeCount" by (simp add: block_default_def)
  have "stream s = var_len_bits 0 @ [False, False, False, False, False, False, False]"
    unfolding s_def stream_new by (simp add: input_new_def Let_def bit_eval var_len_bits_def)
  from uint8_decodes [OF rk _ this] obtain s1 where s1: "uint8 s = (Inr (Some 0), s1)" by auto
  have "block_header Some (block_default, builder_default, s, memory_default) =
      (Inr True, block_default\<lparr>bk_count := 1, bk_stage := Ready\<rparr>, builder_default, s1, memory_default)"
    using s1 st by (simp add: block_header_def header_type_count_def)
  with block_invariant [OF ok rk, THEN conjunct1] st show ?thesis unfolding s_def by auto
qed

text \<open>
  C33 (equivalence). The switch of the decoder's inner loop is the byte-exact one: with at least 54
  buffered bits and an exhausted block, \<open>prepare\<close> reports success and leaves exactly the category
  and the bits \<open>switch_fast\<close> leaves, without touching the input.
\<close>

theorem fast_switch_exact:
  assumes "54 \<le> bcount bs" "bk_remaining k = 0" "switch_ready k" "block_codes k"
  shows "prepare_block (k, bs, i) = (case switch_fast (k, bs) of (k', bs') \<Rightarrow> (Inr True, k', bs', i))"
  using assms by (intro switch_fast_prepare) (simp_all add: switch_ready_def)

theorem fast_switch_exact_witness:
  "fst (prepare_block (block_default\<lparr>bk_count := 4, bk_remaining := 0, bk_stage := Ready, bk_types := sample_group, bk_lengths := sample_group\<rparr>,
     bits_default\<lparr>bcount := 56\<rparr>, input_new [] 0 None)) = Inr True"
proof -
  let ?k = "block_default\<lparr>bk_count := 4, bk_remaining := 0, bk_stage := Ready, bk_types := sample_group, bk_lengths := sample_group\<rparr>"
  have "holds_code 6 sample_group" "holds_code 26 sample_group"
    using sample_group_ok(1) unfolding holds_code_def by (auto intro!: exI [of _ "{([], 5)}"])
  then have "block_codes ?k" by (simp add: block_codes_def)
  moreover have "switch_ready ?k" by (simp add: switch_ready_def)
  ultimately show ?thesis
    using fast_switch_exact [of "bits_default\<lparr>bcount := 56\<rparr>" ?k "input_new [] 0 None"] by (simp add: split_beta)
qed

text \<open>
  C5 (roundtrip). Block splits survive the trip. For a split of one category the encoder writes a
  header and, before each later block, a switch; unless the output buffer overflows or the decoder
  runs out of memory, the decoder's header accepts what was written, and taking a switch each time
  a block has run out gives back the types and lengths of all blocks, and leaves the bits that
  follow. A single block has no codes and never ends.
\<close>

theorem block_split_roundtrip:
  assumes ok: "split_ok split" and w: "writer_ok w"
  shows "\<exists>tree' code' w'. build_and_store_block_split_code split tree split_code_new w = Some (tree', code', w') \<and>
    (let w'' = snd (store_switches (zip (tl (split_types split)) (tl (split_lengths split))) (code', w')) in
     \<not> overflowed w'' \<longrightarrow> writer_ok w'' \<and> (\<exists>bs. Bit_Writer.written w'' = Bit_Writer.written w @ bs \<and> split_decodes split bs))"
proof (cases "num_types split = 1")
  case True
  let ?f = "store_var_len_uint8 0"
  have run: "build_and_store_block_split_code split tree split_code_new w = Some (tree, split_code_new, ?f w)"
    using True by (simp add: build_and_store_block_split_code_def split_beta Let_def)
  have "writer_ok (?f w) \<and> Bit_Writer.written (?f w) = Bit_Writer.written w @ var_len_bits 0" if "\<not> overflowed (?f w)"
    using wr.emitsD [OF emits_var_len [of 0] w that] by simp
  with run single_split_decodes [OF ok True] show ?thesis by auto
next
  case False
  then have T: "2 \<le> num_types split" using ok by (simp add: split_ok_def)
  let ?bl = "zip (tl (split_types split)) (tl (split_lengths split))"
  obtain tree' x' f bs Ct Cl where st: "\<And>w. build_and_store_block_split_code split tree split_code_new w = Some (tree', x', f w)" "wr.emits f bs"
    "header_reads bs (\<lambda>k. bk_count k = num_types split \<and> bk_current k = 0 \<and> bk_previous k = 1 \<and> bk_remaining k = split_lengths split ! 0 \<and>
       bk_stage k = Ready \<and> group_ok (bk_types k) [0 \<mapsto> Ct] \<and> group_ok (bk_lengths k) [0 \<mapsto> Cl])"
    "calculator x' = start_calculator" "switch_words x' Ct Cl (tl (split_types split)) (tl (split_lengths split))"
    by (rule split_stored [OF ok T, of tree]) (rule that)
  have "map fst ?bl = tl (split_types split)" "map snd ?bl = tl (split_lengths split)" using ok by (simp_all add: split_ok_def)
  then have "wr.emits (\<lambda>w. snd (store_switches ?bl (x', w))) (switches_wire x' ?bl)"
    using st(5) by (intro store_switches_emits [of x' Ct Cl]) simp
  from wr.emitsD [OF wr.emits_comp [OF st(2) this] w] several_split_decodes [OF ok T st(3-5)] st(1) show ?thesis
    by (auto simp: Let_def)
qed

theorem block_split_roundtrip_witness:
  "\<exists>tree' code' w'. build_and_store_block_split_code \<lparr>num_types = 2, num_blocks = 2, split_types = [0, 1], split_lengths = [3, 5]\<rparr>
     [] split_code_new (writer_new (replicate 32 0) 0) = Some (tree', code', w')"
proof -
  have "split_ok \<lparr>num_types = 2, num_blocks = 2, split_types = [0, 1], split_lengths = [3, 5]\<rparr>"
    by (simp add: split_ok_def lengths_in_range_def)
  moreover have "writer_ok (writer_new (replicate 32 0) 0)" by (rule writer_new_zero) simp
  ultimately show ?thesis using block_split_roundtrip by blast
qed

end
