(* ===== verification/Context_Map.thy ===== *)
theory Context_Map
  imports Block_Roundtrip
begin

unbundle bit_operations_syntax

text \<open>
  Context maps: the decoder's resumable reader (\<open>decompressor/core/context_map.rs\<close>) and the
  encoder's writers (\<open>index_of\<close> to \<open>store_trivial_context_map\<close> of \<open>shared/bitstream.rs\<close>). The
  reader is written as its stages, each of which ends in the next one; \<open>map_entries\<close> is the loop
  of the stages \<open>Entries\<close> and \<open>Repeat\<close>. The code leaves that loop when the index is the size;
  the index never passes the size (\<open>map_ok\<close>), so the loop is left when it is not below it.
  The values are bytes, the encoder's map and its run-length form \<open>u32\<close> numbers.
\<close>

section \<open>The decoder's side\<close>

datatype map_stage = TreeCount | RunPrefix | MapTree | Entries | MapRepeat nat | Transform | MapComplete

record context_map =
  cm_values :: "nat vec"
  cm_trees :: nat
  cm_stage :: map_stage
  cm_run :: nat
  cm_index :: nat
  cm_tree :: group
  cm_trivial :: "nat list"

definition context_map_default :: context_map where
  "context_map_default = \<lparr>cm_values = vec_new, cm_trees = 0, cm_stage = TreeCount, cm_run = 0, cm_index = 0,
     cm_tree = group_default, cm_trivial = replicate 4 0\<rparr>"

definition context_map_reset :: "context_map \<Rightarrow> context_map" where
  "context_map_reset c = c\<lparr>cm_stage := TreeCount, cm_values := (cm_values c)\<lparr>items := []\<rparr>, cm_trivial := replicate 4 0\<rparr>"

text \<open>\<open>as_chunks::<64>().0\<close>\<close>

function chunks_of_64 :: "nat list \<Rightarrow> nat list list" where
  "chunks_of_64 xs = (if length xs < 64 then [] else take 64 xs # chunks_of_64 (drop 64 xs))"
  by pat_completeness auto
termination by (relation "measure length") auto

declare chunks_of_64.simps [simp del]

definition mark_trivial :: "nat \<times> nat list \<Rightarrow> nat list \<Rightarrow> nat list" where
  "mark_trivial = (\<lambda>(block, contexts) trivial.
     let sample = contexts ! 0; error = fold (\<lambda>v error. error OR (v XOR sample)) contexts 0
     in if error = 0 \<and> block < 256
        then trivial[shr block 6 := trivial ! shr block 6 OR shl 64 1 (block AND 63)] else trivial)"

definition detect_trivial :: "context_map \<Rightarrow> context_map" where
  "detect_trivial c = c\<lparr>cm_trivial := fold mark_trivial (List.enumerate 0 (chunks_of_64 (items (cm_values c)))) (replicate 4 0)\<rparr>"

definition trivial :: "context_map \<Rightarrow> nat \<Rightarrow> bool" where
  "trivial c block \<longleftrightarrow> shr (cm_trivial c ! (shr block 6 AND 3)) (block AND 63) AND 1 \<noteq> 0"

text \<open>\<open>v[..=index].rotate_right(1)\<close>\<close>

definition rotate_front :: "nat \<Rightarrow> 'a list \<Rightarrow> 'a list" where
  "rotate_front index v = (let p = take (index + 1) v in last p # butlast p @ drop (index + 1) v)"

fun inverse_mtf :: "nat list \<Rightarrow> nat list \<Rightarrow> nat list" where
  "inverse_mtf symbols [] = []"
| "inverse_mtf symbols (index # vs) = symbols ! index # inverse_mtf (rotate_front index symbols) vs"

text \<open>The byte table both sides start from.\<close>

definition identity_symbols :: "nat list" where
  "identity_symbols = [0..<256]"

type_synonym map_result = "(decode_error + bool) \<times> context_map \<times> reader"

definition map_transform :: "context_map \<times> reader \<Rightarrow> map_result" where
  "map_transform = (\<lambda>(c, s).
     case read 1 s of
       (Inl e, s') \<Rightarrow> (Inl e, c, s')
     | (Inr None, s') \<Rightarrow> (Inr False, c, s')
     | (Inr (Some mtf), s') \<Rightarrow>
         (Inr True, (if mtf \<noteq> 0 then c\<lparr>cm_values := (cm_values c)\<lparr>items := inverse_mtf identity_symbols (items (cm_values c))\<rparr>\<rparr> else c)
            \<lparr>cm_stage := MapComplete\<rparr>, s'))"

definition map_push :: "nat \<Rightarrow> context_map \<Rightarrow> context_map" where
  "map_push v c = c\<lparr>cm_values := (cm_values c)\<lparr>items := items (cm_values c) @ [v mod 256]\<rparr>, cm_index := cm_index c + 1\<rparr>"

definition map_fill :: "nat \<Rightarrow> nat \<Rightarrow> nat \<Rightarrow> context_map \<Rightarrow> decode_error + context_map" where
  "map_fill sz width extra c =
     (let fin = cm_index c + 2 ^ width + extra in
      if fin > sz then Inl (InvalidData ContextMap)
      else Inr (c\<lparr>cm_values := (cm_values c)\<lparr>items := pad_to fin 0 (items (cm_values c))\<rparr>, cm_index := fin, cm_stage := Entries\<rparr>))"

function map_entries :: "nat \<Rightarrow> context_map \<times> reader \<Rightarrow> map_result" where
  "map_entries sz (c, s) =
     (if \<not> cm_index c < sz then map_transform (c\<lparr>cm_stage := Transform\<rparr>, s)
      else
        (case decode_refilling (group_table (cm_tree c) 0) s of
           (Inl e, s') \<Rightarrow> (Inl e, c, s')
         | (Inr None, s') \<Rightarrow> (Inr False, c, s')
         | (Inr (Some symbol), s') \<Rightarrow>
             if symbol \<noteq> 0 \<and> symbol \<le> cm_run c then
               (let c' = c\<lparr>cm_stage := MapRepeat symbol\<rparr> in
                case read symbol s' of
                  (Inl e, s2) \<Rightarrow> (Inl e, c', s2)
                | (Inr None, s2) \<Rightarrow> (Inr False, c', s2)
                | (Inr (Some extra), s2) \<Rightarrow>
                    (case map_fill sz symbol extra c' of
                       Inl e \<Rightarrow> (Inl e, c', s2)
                     | Inr c2 \<Rightarrow> map_entries sz (c2, s2)))
             else
               (let value = (if symbol = 0 then 0 else symbol - cm_run c) in
                if value \<ge> cm_trees c then (Inl (InvalidData ContextMap), c, s')
                else map_entries sz (map_push value c, s'))))"
  by pat_completeness auto
termination
proof (relation "measure (\<lambda>(sz, c, s). sz - cm_index c)", goal_cases)
  case (2 sz c s r s' v symbol c' q s2 w extra c2)
  have "cm_index c < cm_index c2" using 2 by (auto simp: map_fill_def Let_def split: if_splits)
  then show ?case using 2 by simp
qed (auto simp: map_push_def)

declare map_entries.simps [simp del]

text \<open>Entering the loop: a pending repeat is finished first.\<close>

definition resume_entries :: "nat \<Rightarrow> context_map \<times> reader \<Rightarrow> map_result" where
  "resume_entries sz = (\<lambda>(c, s).
     case cm_stage c of
       MapRepeat width \<Rightarrow>
         (case read width s of
            (Inl e, s') \<Rightarrow> (Inl e, c, s')
          | (Inr None, s') \<Rightarrow> (Inr False, c, s')
          | (Inr (Some extra), s') \<Rightarrow>
              (case map_fill sz width extra c of
                 Inl e \<Rightarrow> (Inl e, c, s')
               | Inr c' \<Rightarrow> map_entries sz (c', s')))
     | _ \<Rightarrow> map_entries sz (c, s))"

type_synonym map_state = "context_map \<times> builder \<times> reader \<times> memory"

definition map_rest :: "(context_map \<times> reader \<Rightarrow> map_result) \<Rightarrow> map_state \<Rightarrow> (decode_error + bool) \<times> map_state" where
  "map_rest f = (\<lambda>(c, b, s, m). case f (c, s) of (r, c', s') \<Rightarrow> (r, c', b, s', m))"

definition map_tree :: "(nat \<Rightarrow> nat option) \<Rightarrow> nat \<Rightarrow> map_state \<Rightarrow> (decode_error + bool) \<times> map_state" where
  "map_tree alloc sz = (\<lambda>(c, b, s, m).
     case read_table alloc (cm_trees c + cm_run c) (cm_tree c) (b, s, m) of
       (Inl e, g, b', s', m') \<Rightarrow> (Inl e, c\<lparr>cm_tree := g\<rparr>, b', s', m')
     | (Inr ready, g, b', s', m') \<Rightarrow>
         if \<not> ready then (Inr False, c\<lparr>cm_tree := g\<rparr>, b', s', m')
         else map_rest (map_entries sz) (c\<lparr>cm_tree := g, cm_stage := Entries\<rparr>, b', s', m'))"

definition map_run_prefix :: "(nat \<Rightarrow> nat option) \<Rightarrow> nat \<Rightarrow> map_state \<Rightarrow> (decode_error + bool) \<times> map_state" where
  "map_run_prefix alloc sz = (\<lambda>(c, b, s, m).
     case peek 1 s of
       (Inl e, s') \<Rightarrow> (Inl e, c, b, s', m)
     | (Inr None, s') \<Rightarrow> (Inr False, c, b, s', m)
     | (Inr (Some flag), s') \<Rightarrow>
         if flag = 0 then map_tree alloc sz (c\<lparr>cm_run := 0, cm_stage := MapTree\<rparr>, b, discard 1 s', m)
         else (case read 5 s' of
             (Inl e, s2) \<Rightarrow> (Inl e, c, b, s2, m)
           | (Inr None, s2) \<Rightarrow> (Inr False, c, b, s2, m)
           | (Inr (Some n), s2) \<Rightarrow> map_tree alloc sz (c\<lparr>cm_run := shr n 1 + 1, cm_stage := MapTree\<rparr>, b, s2, m)))"

definition map_tree_count :: "(nat \<Rightarrow> nat option) \<Rightarrow> nat \<Rightarrow> map_state \<Rightarrow> (decode_error + bool) \<times> map_state" where
  "map_tree_count alloc sz = (\<lambda>(c, b, s, m).
     case uint8 s of
       (Inl e, s') \<Rightarrow> (Inl e, c, b, s', m)
     | (Inr None, s') \<Rightarrow> (Inr False, c, b, s', m)
     | (Inr (Some n), s') \<Rightarrow>
         let c1 = c\<lparr>cm_trees := n + 1, cm_index := 0, cm_values := (cm_values c)\<lparr>items := []\<rparr>\<rparr> in
         if n = 0 then
           (case resize alloc 1 0 (cm_values c1) sz m of
              (Inl e, v, m') \<Rightarrow> (Inl e, c1\<lparr>cm_values := v\<rparr>, b, s', m')
            | (Inr _, v, m') \<Rightarrow> (Inr True, c1\<lparr>cm_values := v, cm_stage := MapComplete\<rparr>, b, s', m'))
         else
           (case reserve alloc 1 (cm_values c1) sz m of
              (Inl e, v, m') \<Rightarrow> (Inl e, c1\<lparr>cm_values := v\<rparr>, b, s', m')
            | (Inr _, v, m') \<Rightarrow> map_run_prefix alloc sz (c1\<lparr>cm_values := v, cm_stage := RunPrefix\<rparr>, b, s', m')))"

definition context_map_read :: "(nat \<Rightarrow> nat option) \<Rightarrow> nat \<Rightarrow> map_state \<Rightarrow> (decode_error + bool) \<times> map_state" where
  "context_map_read alloc sz st =
     (case cm_stage (fst st) of
        TreeCount \<Rightarrow> map_tree_count alloc sz st
      | RunPrefix \<Rightarrow> map_run_prefix alloc sz st
      | MapTree \<Rightarrow> map_tree alloc sz st
      | Entries \<Rightarrow> map_rest (resume_entries sz) st
      | MapRepeat _ \<Rightarrow> map_rest (resume_entries sz) st
      | Transform \<Rightarrow> map_rest map_transform st
      | MapComplete \<Rightarrow> (Inr True, st))"

section \<open>The encoder's side\<close>

definition MAX_CONTEXT_MAP_SYMBOLS :: nat where "MAX_CONTEXT_MAP_SYMBOLS = MAX_NUMBER_OF_BLOCK_TYPES + 16"
definition CONTEXT_MAP_SYMBOL_BITS :: nat where "CONTEXT_MAP_SYMBOL_BITS = 9"
definition LITERAL_CONTEXT_BITS :: nat where "LITERAL_CONTEXT_BITS = 6"
definition DISTANCE_CONTEXT_BITS :: nat where "DISTANCE_CONTEXT_BITS = 2"

fun index_of :: "nat list \<Rightarrow> nat \<Rightarrow> nat" where
  "index_of [] value = 0"
| "index_of (x # xs) value = (if x = value then 0 else index_of xs value + 1)"

definition move_to_front :: "nat list \<Rightarrow> nat \<Rightarrow> nat list" where
  "move_to_front v index = (if index < length v then rotate_front index v else v)"

fun mtf_loop :: "nat list \<Rightarrow> nat list \<Rightarrow> nat list" where
  "mtf_loop mtf [] = []"
| "mtf_loop mtf (value # vs) = (let index = index_of mtf (value mod 256) in index # mtf_loop (move_to_front mtf index) vs)"

definition move_to_front_transform :: "nat list \<Rightarrow> nat list" where
  "move_to_front_transform input = (if input = [] then [] else mtf_loop (take (fold max input 0 + 1) identity_symbols) input)"

text \<open>\<open>run_length_code_zeros\<close>: the longest run of zeros, then the rewriting in place.\<close>

function longest_zeros :: "nat list \<Rightarrow> nat \<Rightarrow> nat" where
  "longest_zeros v max_reps =
     (if v = [] then max_reps
      else let v1 = dropWhile (\<lambda>x. x \<noteq> 0) v; reps = length (takeWhile (\<lambda>x. x = 0) v1)
        in longest_zeros (dropWhile (\<lambda>x. x = 0) v1) (max max_reps reps))"
  by pat_completeness auto
termination
proof (relation "measure (\<lambda>(v, m). length v)", goal_cases)
  case (2 v m v1 reps)
  have "length (dropWhile P xs) \<le> length xs" for P and xs :: "nat list" by (induction xs) auto
  then have "length (dropWhile Q (dropWhile P xs)) \<le> length xs" for P Q and xs :: "nat list" by (meson le_trans)
  then have le: "length (dropWhile Q (dropWhile P xs)) < Suc (length xs)" for P Q and xs :: "nat list" by (simp add: le_imp_less_Suc)
  have le1: "length (dropWhile P xs) < Suc (length xs)" for P and xs :: "nat list" using le [of P "\<lambda>_. False" xs] by simp
  obtain x xs where v: "v = x # xs" using 2 by (cases v) auto
  show ?case using 2 le le1 unfolding v by auto
qed simp

declare longest_zeros.simps [simp del]

function write_zero_run :: "nat \<Rightarrow> nat \<Rightarrow> nat list \<times> nat \<Rightarrow> nat list \<times> nat" where
  "write_zero_run max_prefix reps (v, out) =
     (if reps = 0 then (v, out)
      else if reps < 2 * 2 ^ max_prefix then
        (let run_length_prefix = log2_floor_non_zero reps; extra_bits = reps - 2 ^ run_length_prefix
         in (v[out := run_length_prefix + push_bit CONTEXT_MAP_SYMBOL_BITS extra_bits], out + 1))
      else
        (let extra_bits = 2 ^ max_prefix - 1
         in write_zero_run max_prefix (reps - (2 * 2 ^ max_prefix - 1))
              (v[out := max_prefix + push_bit CONTEXT_MAP_SYMBOL_BITS extra_bits], out + 1)))"
  by pat_completeness auto
termination
proof (relation "measure (\<lambda>(p, reps, v). reps)", goal_cases)
  case (2 p reps v out e)
  have "2 \<le> 2 * (2::nat) ^ p" by simp
  then have "reps - (2 * 2 ^ p - 1) < reps" using 2 by arith
  then show ?case by simp
qed simp

declare write_zero_run.simps [simp del]

lemma length_write_zero_run [simp]: "length (fst (write_zero_run p reps (v, out))) = length v"
proof (induction p reps "(v, out)" arbitrary: v out rule: write_zero_run.induct)
  case (1 p reps v out)
  then show ?case by (subst write_zero_run.simps) (simp add: Let_def)
qed

function code_zeros :: "nat \<Rightarrow> nat list \<Rightarrow> nat \<Rightarrow> nat \<Rightarrow> nat list \<times> nat" where
  "code_zeros max_prefix v out index =
     (if index < length v then
        (if v ! index \<noteq> 0 then code_zeros max_prefix (v[out := v ! index + max_prefix]) (out + 1) (index + 1)
         else let reps = length (takeWhile (\<lambda>x. x = 0) (drop index v)); (v', out') = write_zero_run max_prefix reps (v, out)
           in code_zeros max_prefix v' out' (index + reps))
      else (v, out))"
  by pat_completeness auto
termination
proof (relation "measure (\<lambda>(p, v, out, index). length v - index)", goal_cases)
  case (3 p v out index reps r v' out')
  have "length v' = length v" using 3 length_write_zero_run [of p reps v out] by (metis fst_conv)
  moreover have "drop index v = v ! index # drop (Suc index) v" using 3 by (metis Cons_nth_drop_Suc)
  then have "0 < reps" using 3 by simp
  ultimately have "length v' - (index + reps) < length v - index" using 3(1) by arith
  then show ?case by simp
qed auto

declare code_zeros.simps [simp del]

definition run_length_code_zeros :: "nat list \<Rightarrow> nat \<Rightarrow> nat list \<times> nat \<times> nat" where
  "run_length_code_zeros v max_run_length_prefix =
     (let max_reps = longest_zeros v 0;
          max_prefix = min (if max_reps > 0 then log2_floor_non_zero max_reps else 0) max_run_length_prefix;
          (v', out_size) = code_zeros max_prefix v 0 0
      in (take out_size v', out_size, max_prefix))"

record map_arena =
  ma_histogram :: "nat list"
  ma_depths :: "nat list"
  ma_bits :: "nat list"
  ma_rle_symbols :: "nat list"

definition map_arena_new :: map_arena where
  "map_arena_new = \<lparr>ma_histogram = replicate MAX_CONTEXT_MAP_SYMBOLS 0, ma_depths = replicate MAX_CONTEXT_MAP_SYMBOLS 0,
     ma_bits = replicate MAX_CONTEXT_MAP_SYMBOLS 0, ma_rle_symbols = []\<rparr>"

definition symbol_mask :: nat where "symbol_mask = 2 ^ CONTEXT_MAP_SYMBOL_BITS - 1"

definition store_map_symbol :: "nat list \<Rightarrow> nat list \<Rightarrow> nat \<Rightarrow> nat \<Rightarrow> bit_writer \<Rightarrow> bit_writer" where
  "store_map_symbol depths bits max_prefix rle w =
     (let symbol = rle AND symbol_mask; extra = shr rle CONTEXT_MAP_SYMBOL_BITS;
          w1 = write_bits (depths ! symbol) (bits ! symbol) w
      in if symbol > 0 \<and> symbol \<le> max_prefix then write_bits symbol extra w1 else w1)"

definition encode_context_map ::
    "map_arena \<Rightarrow> nat list \<Rightarrow> nat \<Rightarrow> node list \<Rightarrow> bit_writer \<Rightarrow> (map_arena \<times> node list \<times> bit_writer) option" where
  "encode_context_map arena context_map num_clusters tree w =
     (let w1 = store_var_len_uint8 (num_clusters - 1) w in
      if num_clusters = 1 then Some (arena, tree, w1)
      else
        (let (rle_symbols, num_rle_symbols, max_prefix) = run_length_code_zeros (move_to_front_transform context_map) 6;
             histogram = fold (\<lambda>v h. h[v AND symbol_mask := h ! (v AND symbol_mask) + 1]) rle_symbols (replicate (length (ma_histogram arena)) 0);
             use_rle = max_prefix > 0;
             w2 = write_bits 1 (of_bool use_rle) w1;
             w3 = (if use_rle then write_bits 4 (max_prefix - 1) w2 else w2);
             alph = num_clusters + max_prefix
         in case build_and_store_huffman_tree histogram alph alph tree (ma_depths arena) (ma_bits arena) w3 of
              None \<Rightarrow> None
            | Some (tree', depths, bits, w4) \<Rightarrow>
                Some (\<lparr>ma_histogram = histogram, ma_depths = depths, ma_bits = bits, ma_rle_symbols = rle_symbols\<rparr>, tree',
                  write_bits 1 1 (fold (\<lambda>i. store_map_symbol depths bits max_prefix (rle_symbols ! i)) [0..<num_rle_symbols] w4))))"

definition trivial_histogram :: "nat \<Rightarrow> nat \<Rightarrow> nat list \<Rightarrow> nat list" where
  "trivial_histogram types context_bits histogram =
     (let repeat_code = context_bits - 1; alphabet_size = types + repeat_code;
          h1 = replicate alphabet_size 0 @ drop alphabet_size histogram;
          h2 = (h1[repeat_code := types])[0 := 1]
      in fold (\<lambda>i h. h[i := 1]) [context_bits..<alphabet_size] h2)"

definition store_trivial_type :: "nat list \<Rightarrow> nat list \<Rightarrow> nat \<Rightarrow> nat \<Rightarrow> bit_writer \<Rightarrow> bit_writer" where
  "store_trivial_type depths bits context_bits index w =
     (let repeat_code = context_bits - 1; repeat_bits = 2 ^ repeat_code - 1;
          code = (if index = 0 then 0 else index + context_bits - 1)
      in write_bits repeat_code repeat_bits (write_bits (depths ! repeat_code) (bits ! repeat_code) (write_bits (depths ! code) (bits ! code) w)))"

definition store_trivial_context_map ::
    "map_arena \<Rightarrow> nat \<Rightarrow> nat \<Rightarrow> node list \<Rightarrow> bit_writer \<Rightarrow> (map_arena \<times> node list \<times> bit_writer) option" where
  "store_trivial_context_map arena types context_bits tree w =
     (let w1 = store_var_len_uint8 (types - 1) w in
      if types \<le> 1 then Some (arena, tree, w1)
      else
        (let repeat_code = context_bits - 1; alphabet_size = types + repeat_code;
             w2 = write_bits 4 (repeat_code - 1) (write_bits 1 1 w1);
             histogram = trivial_histogram types context_bits (ma_histogram arena)
         in case build_and_store_huffman_tree histogram alphabet_size alphabet_size tree (ma_depths arena) (ma_bits arena) w2 of
              None \<Rightarrow> None
            | Some (tree', depths, bits, w3) \<Rightarrow>
                Some (arena\<lparr>ma_histogram := histogram, ma_depths := depths, ma_bits := bits\<rparr>, tree',
                  write_bits 1 1 (fold (store_trivial_type depths bits context_bits) [0..<types] w3))))"

end
