(* ===== verification/Map_Coding.thy ===== *)
theory Map_Coding
  imports Context_Map
begin

unbundle bit_operations_syntax

text \<open>
  The two recodings of a context map are invertible: the decoder's inverse move-to-front undoes the
  encoder's, and the run-length form, which the encoder writes over its own input, expands to the
  list it was made of. A \<open>token\<close> is a symbol with its extra bits.
\<close>

section \<open>Move to front\<close>

lemma rotate_front_eq:
  assumes "index < length v"
  shows "rotate_front index v = v ! index # take index v @ drop (Suc index) v"
proof -
  have "take (index + 1) v = take index v @ [v ! index]" using assms by (simp add: take_Suc_conv_app_nth)
  then show ?thesis by (simp add: rotate_front_def)
qed

lemma length_rotate_front [simp]: "index < length v \<Longrightarrow> length (rotate_front index v) = length v"
  by (simp add: rotate_front_eq)

lemma set_rotate_front: "index < length v \<Longrightarrow> set (rotate_front index v) = set v"
proof -
  assume "index < length v"
  then have "set v = set (take index v @ v ! index # drop (Suc index) v)" by (simp only: id_take_nth_drop [symmetric])
  with \<open>index < length v\<close> show ?thesis by (auto simp: rotate_front_eq)
qed

lemma distinct_rotate_front:
  assumes "index < length v" "distinct v"
  shows "distinct (rotate_front index v)"
proof -
  have "distinct (take index v @ v ! index # drop (Suc index) v)" using assms by (simp only: id_take_nth_drop [symmetric])
  then show ?thesis using assms(1) by (auto simp: rotate_front_eq)
qed

lemma rotate_front_append:
  "index < length v \<Longrightarrow> rotate_front index (v @ w) = rotate_front index v @ w"
  by (simp add: rotate_front_eq nth_append)

lemma index_of_nth:
  assumes "x \<in> set xs"
  shows "index_of xs x < length xs" "xs ! index_of xs x = x"
  using assms by (induction xs) auto

lemma mtf_loop_inverse:
  assumes "set vs \<subseteq> set mtf" "\<forall>v\<in>set mtf. v < 256"
  shows "inverse_mtf (mtf @ w) (mtf_loop mtf vs) = vs \<and> (\<forall>i\<in>set (mtf_loop mtf vs). i < length mtf) \<and> length (mtf_loop mtf vs) = length vs"
  using assms
proof (induction vs arbitrary: mtf)
  case (Cons v vs)
  define i where "i = index_of mtf v"
  have v: "v \<in> set mtf" "v mod 256 = v" using Cons.prems by auto
  have i: "i < length mtf" "mtf ! i = v" using index_of_nth [OF v(1)] by (simp_all add: i_def)
  have "set (rotate_front i mtf) = set mtf" by (rule set_rotate_front [OF i(1)])
  then have ih: "inverse_mtf (rotate_front i mtf @ w) (mtf_loop (rotate_front i mtf) vs) = vs \<and>
      (\<forall>i'\<in>set (mtf_loop (rotate_front i mtf) vs). i' < length (rotate_front i mtf)) \<and> length (mtf_loop (rotate_front i mtf) vs) = length vs"
    using Cons.prems by (intro Cons.IH) auto
  have "mtf_loop mtf (v # vs) = i # mtf_loop (rotate_front i mtf) vs"
    using v(2) i(1) by (simp add: i_def move_to_front_def Let_def)
  then show ?case using ih i by (simp add: nth_append rotate_front_append)
qed simp

lemma fold_max_ge: "x \<in> set (m # xs) \<Longrightarrow> x \<le> fold max xs (m::nat)"
  by (metis List.finite_set Max.set_eq_fold Max_ge)

lemma fold_max_less: "\<forall>x\<in>set xs. x < n \<Longrightarrow> m < n \<Longrightarrow> fold max xs (m::nat) < n"
  by (induction xs arbitrary: m) auto

lemma move_to_front_inverse:
  assumes "\<forall>v\<in>set input. v < n" "n \<le> 256"
  shows "inverse_mtf identity_symbols (move_to_front_transform input) = input"
    and "\<forall>i\<in>set (move_to_front_transform input). i < n" and "length (move_to_front_transform input) = length input"
proof -
  have "inverse_mtf identity_symbols (move_to_front_transform input) = input \<and> (\<forall>i\<in>set (move_to_front_transform input). i < n) \<and>
      length (move_to_front_transform input) = length input"
  proof (cases "input = []")
    case True
    then show ?thesis by (simp add: move_to_front_transform_def)
  next
    case False
    define k where "k = fold max input 0 + 1"
    have "0 < n" using False assms(1) by (cases input) auto
    then have "fold max input 0 < n" using fold_max_less [OF assms(1)] by simp
    then have k: "k \<le> n" by (simp add: k_def)
    have table: "identity_symbols = [0..<k] @ [k..<256]" unfolding identity_symbols_def using k assms(2) by (metis bot_nat_0.extremum le_add_diff_inverse le_trans upt_add_eq_append)
    have "take k identity_symbols = [0..<k]" unfolding table by simp
    moreover note table
    moreover have "x < k" if "x \<in> set input" for x using fold_max_ge [of x 0 input] that by (simp add: k_def)
    then have "set input \<subseteq> set [0..<k]" by auto
    ultimately show ?thesis
      using mtf_loop_inverse [of input "[0..<k]" "[k..<256]"] k assms(2) False
      by (auto simp: move_to_front_transform_def k_def)
  qed
  then show "inverse_mtf identity_symbols (move_to_front_transform input) = input" "\<forall>i\<in>set (move_to_front_transform input). i < n"
    "length (move_to_front_transform input) = length input" by simp_all
qed

section \<open>Runs of zeros\<close>

type_synonym token = "nat \<times> nat"

definition pack :: "token \<Rightarrow> nat" where
  "pack t = fst t + push_bit CONTEXT_MAP_SYMBOL_BITS (snd t)"

fun token_values :: "nat \<Rightarrow> token \<Rightarrow> nat list" where
  "token_values p (symbol, extra) = (if symbol = 0 then [0] else if symbol \<le> p then replicate (2 ^ symbol + extra) 0 else [symbol - p])"

function zero_tokens :: "nat \<Rightarrow> nat \<Rightarrow> token list" where
  "zero_tokens p reps =
     (if reps = 0 then []
      else if reps < 2 * 2 ^ p then [(log2_floor_non_zero reps, reps - 2 ^ log2_floor_non_zero reps)]
      else (p, 2 ^ p - 1) # zero_tokens p (reps - (2 * 2 ^ p - 1)))"
  by pat_completeness auto
termination
proof (relation "measure (\<lambda>(p, reps). reps)", goal_cases)
  case (2 p reps)
  have "2 \<le> 2 * (2::nat) ^ p" by simp
  then have "reps - (2 * 2 ^ p - 1) < reps" using 2 by arith
  then show ?case by simp
qed simp

declare zero_tokens.simps [simp del]

function run_tokens :: "nat \<Rightarrow> nat list \<Rightarrow> token list" where
  "run_tokens p xs =
     (if xs = [] then []
      else if hd xs \<noteq> 0 then (hd xs + p, 0) # run_tokens p (tl xs)
      else zero_tokens p (length (takeWhile (\<lambda>x. x = 0) xs)) @ run_tokens p (dropWhile (\<lambda>x. x = 0) xs))"
  by pat_completeness auto
termination
proof (relation "measure (\<lambda>(p, xs). length xs)", goal_cases)
  case (3 p xs)
  then obtain ys where xs: "xs = 0 # ys" by (cases xs) auto
  have "length (dropWhile P zs) \<le> length zs" for P and zs :: "nat list" by (induction zs) auto
  then show ?case by (simp add: xs le_imp_less_Suc)
qed auto

declare run_tokens.simps [simp del]

lemma log2_bounds:
  assumes "0 < n" "n < 2 * 2 ^ p"
  shows "log2_floor_non_zero n \<le> p" "2 ^ log2_floor_non_zero n \<le> n" "n - 2 ^ log2_floor_non_zero n < 2 ^ log2_floor_non_zero n"
proof -
  show l: "2 ^ log2_floor_non_zero n \<le> n" using log2_floor_le [of n] assms(1) by simp
  show "n - 2 ^ log2_floor_non_zero n < 2 ^ log2_floor_non_zero n" using log2_floor_less [of n] assms(1) by simp
  have "2 ^ log2_floor_non_zero n < (2::nat) ^ Suc p" using l assms(2) by simp
  then have "log2_floor_non_zero n < Suc p" by (rule power_less_imp_less_exp [rotated]) simp
  then show "log2_floor_non_zero n \<le> p" by simp
qed

definition token_ok :: "nat \<Rightarrow> token \<Rightarrow> bool" where
  "token_ok p t \<longleftrightarrow> (if fst t \<le> p then snd t < 2 ^ fst t else snd t = 0)"

lemma zero_tokens_spec:
  "concat (map (token_values p) (zero_tokens p reps)) = replicate reps 0 \<and> length (zero_tokens p reps) \<le> reps \<and>
   (\<forall>t\<in>set (zero_tokens p reps). fst t \<le> p \<and> token_ok p t)"
proof (induction p reps rule: zero_tokens.induct)
  case (1 p reps)
  show ?case
  proof (cases "reps < 2 * 2 ^ p")
    case True
    show ?thesis
    proof (cases "reps = 0")
      case False
      then have z: "zero_tokens p reps = [(log2_floor_non_zero reps, reps - 2 ^ log2_floor_non_zero reps)]"
        using True by (subst zero_tokens.simps) simp
      note l = log2_bounds [of reps p]
      have "reps = 1" if "log2_floor_non_zero reps = 0" using l(2,3) that True False by simp
      then show ?thesis unfolding z using l True False by (auto simp: token_ok_def)
    qed (subst zero_tokens.simps, simp)+
  next
    case False
    have pos: "1 \<le> (2::nat) ^ p" by simp
    then have nz: "reps \<noteq> 0" using False by arith
    have z: "zero_tokens p reps = (p, 2 ^ p - 1) # zero_tokens p (reps - (2 * 2 ^ p - 1))"
      using False nz by (subst zero_tokens.simps) simp
    have v: "token_values p (p, 2 ^ p - 1) = replicate (2 * 2 ^ p - 1) 0"
      using pos by (cases p) (simp_all add: mult_2)
    have sum: "2 * 2 ^ p - 1 + (reps - (2 * 2 ^ p - 1)) = reps" using False by arith
    have one: "1 \<le> 2 * 2 ^ p - (1::nat)" using pos by arith
    note ih = "1.IH" [OF nz False]
    have "concat (map (token_values p) (zero_tokens p reps)) = replicate (2 * 2 ^ p - 1) 0 @ replicate (reps - (2 * 2 ^ p - 1)) 0"
      using ih v by (simp add: z)
    also have "\<dots> = replicate reps 0" unfolding replicate_add [symmetric] sum ..
    finally show ?thesis using ih one sum pos by (auto simp: z token_ok_def)
  qed
qed

lemma run_tokens_spec:
  "concat (map (token_values p) (run_tokens p xs)) = xs \<and> length (run_tokens p xs) \<le> length xs \<and>
   (\<forall>t\<in>set (run_tokens p xs). token_ok p t \<and> (fst t \<le> p \<or> (\<exists>x\<in>set xs. fst t = x + p)))"
proof (induction p xs rule: run_tokens.induct)
  case (1 p xs)
  consider "xs = []" | "xs \<noteq> []" "hd xs \<noteq> 0" | "xs \<noteq> []" "hd xs = 0" by blast
  then show ?case
  proof cases
    case 1
    then show ?thesis by (subst run_tokens.simps, simp)+
  next
    case 2
    then obtain x ys where xs: "xs = x # ys" "x \<noteq> 0" by (cases xs) auto
    have r: "run_tokens p xs = (x + p, 0) # run_tokens p ys" using xs by (subst run_tokens.simps) simp
    show ?thesis using "1.IH"(1) 2 xs unfolding r by (auto simp: token_ok_def)
  next
    case 3
    let ?k = "length (takeWhile (\<lambda>x. x = 0) xs)" and ?ys = "dropWhile (\<lambda>x. x = 0) xs"
    have r: "run_tokens p xs = zero_tokens p ?k @ run_tokens p ?ys" using 3 by (subst run_tokens.simps) simp
    have zs: "replicate ?k 0 = takeWhile (\<lambda>x. x = 0) xs" by (rule replicate_length_same) (auto dest: set_takeWhileD)
    note ih = "1.IH"(2) and z = zero_tokens_spec [of p ?k]
    have "concat (map (token_values p) (run_tokens p xs)) = takeWhile (\<lambda>x. x = 0) xs @ ?ys"
      using ih 3 z by (simp add: r zs)
    moreover have "length (run_tokens p xs) \<le> ?k + length ?ys" using ih 3 z by (simp add: r)
    moreover have "?k + length ?ys = length xs" by (metis length_append takeWhile_dropWhile_id)
    moreover have "\<forall>t\<in>set (run_tokens p xs). token_ok p t \<and> (fst t \<le> p \<or> (\<exists>x\<in>set xs. fst t = x + p))"
      using ih 3 z by (auto simp: r dest: set_dropWhileD)
    ultimately show ?thesis by simp
  qed
qed

section \<open>The rewriting in place\<close>

lemma write_zero_run_spec:
  assumes "out + length (zero_tokens p reps) \<le> length v" "write_zero_run p reps (v, out) = (v', out')"
  shows "out' = out + length (zero_tokens p reps) \<and> length v' = length v \<and>
    take out' v' = take out v @ map pack (zero_tokens p reps) \<and> drop out' v' = drop out' v"
  using assms
proof (induction p reps arbitrary: v out rule: zero_tokens.induct)
  case (1 p reps)
  have up: "take (Suc out) (v[out := x]) = take out v @ [x]" "drop (Suc out + k) (v[out := x]) = drop (Suc out + k) v"
    if "out < length v" for x k using that by (simp_all add: take_Suc_conv_app_nth)
  consider "reps = 0" | "reps \<noteq> 0" "reps < 2 * 2 ^ p" | "reps \<noteq> 0" "\<not> reps < 2 * 2 ^ p" by blast
  then show ?case
  proof cases
    case 1
    then have "zero_tokens p reps = []" "(v', out') = (v, out)"
      using "1.prems"(2) by (simp_all add: zero_tokens.simps write_zero_run.simps)
    then show ?thesis by simp
  next
    case 2
    let ?t = "(log2_floor_non_zero reps, reps - 2 ^ log2_floor_non_zero reps)"
    have z: "zero_tokens p reps = [?t]" using 2 by (subst zero_tokens.simps) simp
    have w: "v' = v[out := pack ?t]" "out' = Suc out" using 2 "1.prems"(2) by (simp_all add: write_zero_run.simps [of p reps] Let_def pack_def)
    have "out < length v" using "1.prems"(1) by (simp add: z)
    then show ?thesis using up(1) [of "pack ?t"] up(2) [of 0 "pack ?t"] by (simp add: z w)
  next
    case 3
    let ?t = "(p, 2 ^ p - 1)" and ?r = "reps - (2 * 2 ^ p - 1)"
    have z: "zero_tokens p reps = ?t # zero_tokens p ?r" using 3 by (subst zero_tokens.simps) simp
    have w: "write_zero_run p ?r (v[out := pack ?t], out + 1) = (v', out')" using 3 "1.prems"(2) by (simp add: write_zero_run.simps [of p reps] Let_def pack_def)
    have o: "out < length v" "out + 1 + length (zero_tokens p ?r) \<le> length (v[out := pack ?t])" using "1.prems"(1) by (simp_all add: z)
    note ih = "1.IH" [OF 3 o(2) w]
    have "out < out'" using conjunct1 [OF ih] by linarith
    then have "drop out' (v[out := pack ?t]) = drop out' v" by simp
    then have "drop out' v' = drop out' v" using ih by argo
    then show ?thesis using ih up(1) [OF o(1), of "pack ?t"] unfolding z by auto
  qed
qed

lemma code_zeros_spec:
  assumes "out \<le> index" "index \<le> length v" "code_zeros p v out index = (v', out')"
  shows "out' \<le> length v \<and> length v' = length v \<and> take out' v' = take out v @ map pack (run_tokens p (drop index v))"
  using assms
proof (induction p v out index rule: code_zeros.induct)
  case (1 p v out index)
  have pk: "pack (x, 0) = x" for x by (simp add: pack_def)
  consider "\<not> index < length v" | "index < length v" "v ! index \<noteq> 0" | "index < length v" "v ! index = 0" by blast
  then show ?case
  proof cases
    case 1
    then have "(v', out') = (v, out)" "drop index v = []" using "1.prems" by (simp_all add: code_zeros.simps)
    moreover have "run_tokens p [] = []" by (subst run_tokens.simps) simp
    ultimately show ?thesis using "1.prems" by simp
  next
    case 2
    let ?v = "v[out := v ! index + p]"
    have c: "code_zeros p ?v (out + 1) (index + 1) = (v', out')" using 2 "1.prems"(3) by (simp add: code_zeros.simps [of p v])
    have d: "drop index v = v ! index # drop (Suc index) v" using 2 by (simp add: Cons_nth_drop_Suc)
    have r: "run_tokens p (drop index v) = (v ! index + p, 0) # run_tokens p (drop (Suc index) v)"
      using 2 by (subst run_tokens.simps) (simp add: d)
    have o: "out < length v" "out + 1 \<le> index + 1" "index + 1 \<le> length ?v" using 2 "1.prems" by simp_all
    have "drop (Suc index) ?v = drop (Suc index) v" using "1.prems"(1) by simp
    moreover have "take (Suc out) ?v = take out v @ [v ! index + p]" using o(1) by (simp add: take_Suc_conv_app_nth)
    ultimately show ?thesis using "1.IH"(1) [OF 2 o(2,3) c] by (simp add: r pk)
  next
    case 3
    let ?k = "length (takeWhile (\<lambda>x. x = 0) (drop index v))"
    obtain w out1 where w: "write_zero_run p ?k (v, out) = (w, out1)" by fastforce
    have kle: "?k \<le> length v - index" by (metis length_drop length_takeWhile_le)
    note z = zero_tokens_spec [of p ?k]
    have zl: "length (zero_tokens p ?k) \<le> ?k" using z by blast
    then have fit: "out + length (zero_tokens p ?k) \<le> length v" using kle "1.prems"(1) 3 by linarith
    note ws = write_zero_run_spec [OF fit w]
    have c: "code_zeros p w out1 (index + ?k) = (v', out')" using 3 w "1.prems"(3) by (simp add: code_zeros.simps [of p v])
    have o: "out1 \<le> index + ?k" "index + ?k \<le> length w" using ws zl kle "1.prems"(1) 3 by linarith+
    have nz: "\<not> v ! index \<noteq> 0" using 3(2) by simp
    note ih = "1.IH"(2) [OF 3(1) nz refl w [symmetric] refl o c]
    have "drop (index + ?k) w = drop (index + ?k) v"
    proof -
      obtain d where d: "index + ?k = out1 + d" using o(1) le_Suc_ex by blast
      have "drop out1 w = drop out1 v" using ws by blast
      then have "drop d (drop out1 w) = drop d (drop out1 v)" by simp
      then show ?thesis by (simp add: d add.commute)
    qed
    also have "\<dots> = dropWhile (\<lambda>x. x = 0) (drop index v)" by (simp add: dropWhile_eq_drop add.commute)
    finally have dw: "drop (index + ?k) w = dropWhile (\<lambda>x. x = 0) (drop index v)" .
    have ne: "drop index v \<noteq> []" "hd (drop index v) = 0" using 3 by (simp_all add: hd_drop_conv_nth)
    have r: "run_tokens p (drop index v) = zero_tokens p ?k @ run_tokens p (dropWhile (\<lambda>x. x = 0) (drop index v))"
      using ne by (subst run_tokens.simps) simp
    have "take out1 w = take out v @ map pack (zero_tokens p ?k)" "length w = length v" using ws by blast+
    then show ?thesis using ih by (simp add: r dw)
  qed
qed

lemma run_length_code_zeros_spec:
  assumes "run_length_code_zeros v k = (toks, n, p)"
  shows "toks = map pack (run_tokens p v)" "n = length toks" "p \<le> k"
proof -
  define q where "q = min (if longest_zeros v 0 > 0 then log2_floor_non_zero (longest_zeros v 0) else 0) k"
  obtain v' out' where c: "code_zeros q v 0 0 = (v', out')" by fastforce
  have r: "toks = take out' v' \<and> n = out' \<and> p = q"
    using assms c by (auto simp: run_length_code_zeros_def Let_def simp flip: q_def)
  note cs = code_zeros_spec [OF _ _ c, simplified]
  have a: "out' \<le> length v" "length v' = length v" "take out' v' = map pack (run_tokens q v)" using cs by blast+
  then have "toks = map pack (run_tokens q v)" "length toks = out'" using r by (simp, metis length_take min.absorb2)
  moreover have "q \<le> k" by (simp add: q_def)
  ultimately show "toks = map pack (run_tokens p v)" "n = length toks" "p \<le> k" using r by simp_all
qed

lemma unpack:
  assumes "fst t < 512"
  shows "pack t AND symbol_mask = fst t" "shr (pack t) CONTEXT_MAP_SYMBOL_BITS = snd t"
proof -
  have "pack t = fst t + 2 ^ 9 * snd t" by (simp add: pack_def CONTEXT_MAP_SYMBOL_BITS_def push_bit_eq_mult mult.commute)
  moreover have "pack t AND symbol_mask = pack t mod 2 ^ 9"
    unfolding symbol_mask_def CONTEXT_MAP_SYMBOL_BITS_def by (rule AND_mask_nat)
  ultimately show "pack t AND symbol_mask = fst t" "shr (pack t) CONTEXT_MAP_SYMBOL_BITS = snd t"
    using assms by (simp_all add: shr_div CONTEXT_MAP_SYMBOL_BITS_def)
qed

end
