(* ===== verification/Map_Roundtrip.thy ===== *)
theory Map_Roundtrip
  imports Map_Coding
begin

unbundle bit_operations_syntax

text \<open>
  The properties of context maps: a map survives the trip through either writer, no input makes the
  reader accept a map that names a tree that does not exist, and the marks of trivial block types
  are right.
\<close>

section \<open>Reading the entries\<close>

definition token_wire :: "(nat \<Rightarrow> bool list) \<Rightarrow> nat \<Rightarrow> token \<Rightarrow> bool list" where
  "token_wire V p t = V (fst t) @ (if 0 < fst t \<and> fst t \<le> p then bits_of_nat (fst t) (snd t) else [])"

lemma length_token_values: "0 < length (token_values p t)"
  by (cases t) simp

lemma map_entries_read:
  assumes "group_ok (cm_tree c) [0 \<mapsto> C]" "\<forall>t\<in>set ts. (V (fst t), fst t) \<in> C \<and> token_ok (cm_run c) t"
    and "cm_run c \<le> 16" "\<forall>t\<in>set ts. \<forall>v\<in>set (token_values (cm_run c) t). v < cm_trees c" "cm_trees c \<le> 256"
    and "cm_index c + length (concat (map (token_values (cm_run c)) ts)) = sz" "length (items (cm_values c)) = cm_index c"
    and "cm_stage c = Entries" "reader_ok s" "stream s = concat (map (token_wire V (cm_run c)) ts) @ rest"
  shows "\<exists>s'. map_entries sz (c, s) = map_transform (c\<lparr>cm_values := (cm_values c)\<lparr>items := items (cm_values c) @ concat (map (token_values (cm_run c)) ts)\<rparr>,
      cm_index := sz, cm_stage := Transform\<rparr>, s') \<and> reader_ok s' \<and> stream s' = rest \<and> same_call s s'"
  using assms
proof (induction ts arbitrary: c s)
  case Nil
  then have sz: "sz = cm_index c" by simp
  have "map_entries sz (c, s) = map_transform (c\<lparr>cm_stage := Transform\<rparr>, s)" by (simp add: map_entries.simps sz)
  then show ?case using Nil unfolding sz by (intro exI [of _ s]) simp
next
  case (Cons t ts)
  obtain symbol extra where t: "t = (symbol, extra)" by (cases t)
  let ?p = "cm_run c" and ?vs = "token_values (cm_run c) t" and ?rest = "concat (map (token_wire V (cm_run c)) ts) @ rest"
  have "length (concat (map (token_values ?p) (t # ts))) = length ?vs + length (concat (map (token_values ?p) ts))" by simp
  then have lt: "cm_index c < sz" using Cons.prems(6) length_token_values [of ?p t] by linarith
  have str: "stream s = V symbol @ (if 0 < symbol \<and> symbol \<le> ?p then bits_of_nat symbol extra else []) @ ?rest"
  proof -
    have "token_wire V ?p (symbol, extra) = V symbol @ (if 0 < symbol \<and> symbol \<le> ?p then bits_of_nat symbol extra else [])" by (simp add: token_wire_def)
    then show ?thesis using Cons.prems(10) by (simp add: t)
  qed
  have w: "(V symbol, symbol) \<in> C" "token_ok ?p (symbol, extra)" using Cons.prems(2) by (simp_all add: t)
  obtain s1 where s1: "decode_refilling (group_table (cm_tree c) 0) s = (Inr (Some symbol), s1)" "reader_ok s1"
    "stream s1 = (if 0 < symbol \<and> symbol \<le> ?p then bits_of_nat symbol extra else []) @ ?rest" "same_call s s1"
    by (rule decode_symbol [OF Cons.prems(1,9) w(1) str])
  define c' where "c' = c\<lparr>cm_values := (cm_values c)\<lparr>items := items (cm_values c) @ ?vs\<rparr>, cm_index := cm_index c + length ?vs\<rparr>"
  have step: "\<exists>s2. map_entries sz (c, s) = map_entries sz (c', s2) \<and> reader_ok s2 \<and> stream s2 = ?rest \<and> same_call s s2"
  proof (cases "0 < symbol \<and> symbol \<le> ?p")
    case True
    have e: "extra < 2 ^ symbol" "symbol \<le> 56" using w(2) True Cons.prems(3) by (simp_all add: token_ok_def)
    obtain s2 where s2: "read symbol s1 = (Inr (Some extra), s2)" "reader_ok s2" "stream s2 = ?rest" "same_call s1 s2"
      by (rule field_read [OF s1(2) _ e]) (use s1(3) True in simp_all)
    have vs: "?vs = replicate (2 ^ symbol + extra) 0" using True by (simp add: t)
    have fit: "cm_index c + 2 ^ symbol + extra \<le> sz" using Cons.prems(6) by (simp add: vs)
    have pad: "pad_to (cm_index c + 2 ^ symbol + extra) 0 (items (cm_values c)) = items (cm_values c) @ ?vs"
      using Cons.prems(7) by (simp add: pad_to_def vs add.assoc)
    have "map_fill sz symbol extra (c\<lparr>cm_stage := MapRepeat symbol\<rparr>) = Inr c'"
      using fit pad Cons.prems(8) by (simp add: map_fill_def Let_def c'_def vs add.assoc)
    then have "map_entries sz (c, s) = map_entries sz (c', s2)"
      using lt s1(1) s2(1) True by (subst map_entries.simps) simp
    then show ?thesis using s2 s1(4) same_call_trans by blast
  next
    case False
    define v where "v = (if symbol = 0 then 0 else symbol - ?p)"
    have vs: "?vs = [v]" using False by (auto simp: t v_def)
    have "v < cm_trees c" using Cons.prems(4) vs by simp
    moreover from this have "map_push v c = c'" using Cons.prems(5) by (simp add: map_push_def c'_def vs)
    ultimately have "map_entries sz (c, s) = map_entries sz (c', s1)"
      using lt s1(1) False by (subst map_entries.simps) (auto simp: v_def)
    then show ?thesis using s1 False by (intro exI [of _ s1]) auto
  qed
  then obtain s2 where s2: "map_entries sz (c, s) = map_entries sz (c', s2)" "reader_ok s2" "stream s2 = ?rest" "same_call s s2" by blast
  have c': "cm_run c' = ?p" "cm_tree c' = cm_tree c" "cm_trees c' = cm_trees c" "cm_stage c' = Entries"
    "cm_index c' = cm_index c + length ?vs" "items (cm_values c') = items (cm_values c) @ ?vs"
    using Cons.prems(8) by (simp_all add: c'_def)
  have "\<exists>s'. map_entries sz (c', s2) = map_transform (c'\<lparr>cm_values := (cm_values c')\<lparr>items := items (cm_values c') @ concat (map (token_values (cm_run c')) ts)\<rparr>,
      cm_index := sz, cm_stage := Transform\<rparr>, s') \<and> reader_ok s' \<and> stream s' = rest \<and> same_call s2 s'"
    using Cons.prems s2 c' by (intro Cons.IH) simp_all
  then obtain s3 where s3: "map_entries sz (c', s2) = map_transform (c'\<lparr>cm_values := (cm_values c')\<lparr>items := items (cm_values c') @ concat (map (token_values (cm_run c')) ts)\<rparr>,
      cm_index := sz, cm_stage := Transform\<rparr>, s3)" "reader_ok s3" "stream s3 = rest" "same_call s2 s3" by blast
  have "same_call s s3" using s2(4) s3(4) same_call_trans by blast
  with s3 s2(1) show ?case unfolding c' by (intro exI [of _ s3]) (simp add: c'_def)
qed

section \<open>What is written is read\<close>

text \<open>\<open>map_reads sz bs vs n\<close>: from a reset map and an idle builder, the reader takes \<open>bs\<close> off the stream
  and holds the values \<open>vs\<close> and \<open>n\<close> trees, unless the workspace runs out of memory.\<close>

definition map_reads :: "nat \<Rightarrow> bool list \<Rightarrow> nat list \<Rightarrow> nat \<Rightarrow> bool" where
  "map_reads sz bs vs n \<longleftrightarrow> (\<forall>alloc c b s m rest r c' b' s' m'. idle b \<longrightarrow> reader_ok s \<longrightarrow> stream s = bs @ rest \<longrightarrow>
     context_map_read alloc sz (context_map_reset c, b, s, m) = (r, c', b', s', m') \<longrightarrow>
     reader_ok s' \<and> same_call s s' \<and> (case r of Inl e \<Rightarrow> memory_failure e
       | Inr ready \<Rightarrow> ready \<and> idle b' \<and> stream s' = rest \<and> items (cm_values c') = vs \<and> cm_trees c' = n \<and> cm_stage c' = MapComplete))"

lemma reserve_keeps:
  assumes "reserve alloc elem v n m = (r, v', m')"
  shows "items v' = items v" "r = Inl e \<Longrightarrow> memory_failure e"
  using assms reserve_failure [of alloc elem v n m e v' m'] by (cases rule: reserve_cases [of n v alloc elem m]; auto)+

lemma single_map_read: "map_reads sz (var_len_bits 0) (replicate sz 0) 1"
  unfolding map_reads_def
proof (intro allI impI)
  fix alloc c b s m rest r c' b' s' m'
  assume h: "idle b" "reader_ok s" "stream s = var_len_bits 0 @ rest" "context_map_read alloc sz (context_map_reset c, b, s, m) = (r, c', b', s', m')"
  obtain s1 where s1: "uint8 s = (Inr (Some 0), s1)" "reader_ok s1" "stream s1 = rest" "same_call s s1"
    by (rule uint8_read [OF h(2) _ h(3)]) simp_all
  define c1 where "c1 = (context_map_reset c)\<lparr>cm_trees := 1, cm_index := 0\<rparr>"
  obtain q v m1 where rs: "resize alloc 1 0 (cm_values c1) sz m = (q, v, m1)" by (cases "resize alloc 1 0 (cm_values c1) sz m")
  have run: "(r, c', b', s', m') = (case q of Inl e \<Rightarrow> (Inl e, c1\<lparr>cm_values := v\<rparr>, b, s1, m1)
      | Inr _ \<Rightarrow> (Inr True, c1\<lparr>cm_values := v, cm_stage := MapComplete\<rparr>, b, s1, m1))"
    using h(4) s1(1) rs by (cases q) (auto simp: context_map_read_def map_tree_count_def context_map_reset_def c1_def)
  have "items (cm_values c1) = []" by (simp add: c1_def context_map_reset_def)
  then have "items v = replicate sz 0" if "q = Inr u" for u using resize_ok [of alloc 1 0 "cm_values c1" sz m u v m1] rs that by (simp add: pad_to_def)
  moreover have "memory_failure e" if "q = Inl e" for e using resize_failure [of alloc 1 0 "cm_values c1" sz m e v m1] rs that by simp
  ultimately show "reader_ok s' \<and> same_call s s' \<and> (case r of Inl e \<Rightarrow> memory_failure e
       | Inr ready \<Rightarrow> ready \<and> idle b' \<and> stream s' = rest \<and> items (cm_values c') = replicate sz 0 \<and> cm_trees c' = 1 \<and> cm_stage c' = MapComplete)"
    using run s1 h(1) by (cases q) (auto simp: c1_def)
qed

text \<open>The wire form of a map of \<open>n\<close> trees, after its prefix code.\<close>

definition prefix_wire :: "nat \<Rightarrow> bool list" where
  "prefix_wire p = (if p = 0 then [False] else True # bits_of_nat 4 (p - 1))"

lemma tree_and_entries_read:
  assumes "describes_code (n + p) bs C" "n + p \<le> MAX_ALPHABET" "p \<le> 16" "n \<le> 256"
    and "\<forall>t\<in>set ts. (V (fst t), fst t) \<in> C \<and> token_ok p t" "\<forall>t\<in>set ts. \<forall>v\<in>set (token_values p t). v < n"
    and len: "length (concat (map (token_values p) ts)) = sz"
    and c: "cm_trees c = n" "cm_run c = p" "items (cm_values c) = []" "cm_index c = 0"
    and "idle b" "reader_ok s" "stream s = bs @ concat (map (token_wire V p) ts) @ [True] @ rest"
    and r: "map_tree alloc sz (c, b, s, m) = (r, c', b', s', m')"
  shows "reader_ok s' \<and> same_call s s' \<and> (case r of Inl e \<Rightarrow> memory_failure e
       | Inr ready \<Rightarrow> ready \<and> idle b' \<and> stream s' = rest \<and> items (cm_values c') = inverse_mtf identity_symbols (concat (map (token_values p) ts)) \<and>
           cm_trees c' = n \<and> cm_stage c' = MapComplete)"
proof -
  obtain q g b1 s1 m1 where rt: "read_table alloc (cm_trees c + cm_run c) (cm_tree c) (b, s, m) = (q, g, b1, s1, m1)"
    by (cases "read_table alloc (cm_trees c + cm_run c) (cm_tree c) (b, s, m)")
  have ar: "arrays_ok b" "b_stage b = Start" using assms(12) by (simp_all add: idle_def)
  note t = read_table_described [OF assms(1,2) ar assms(13,14) rt [unfolded c]]
  show ?thesis
  proof (cases q)
    case (Inl e)
    then have "r = Inl e" "s' = s1" using r rt by (simp_all add: map_tree_def)
    then show ?thesis using t Inl by simp
  next
    case (Inr ready)
    then have t1: "ready" "idle b1" "reader_ok s1" "stream s1 = concat (map (token_wire V p) ts) @ [True] @ rest" "same_call s s1" "group_ok g [0 \<mapsto> C]"
      using t by (auto simp: idle_def)
    define c1 where "c1 = c\<lparr>cm_tree := g, cm_stage := Entries\<rparr>"
    have c1: "cm_tree c1 = g" "cm_run c1 = p" "cm_trees c1 = n" "cm_index c1 = 0" "items (cm_values c1) = []" "cm_stage c1 = Entries"
      using c by (simp_all add: c1_def)
    have run: "(r, c', b', s', m') = map_rest (map_entries sz) (c1, b1, s1, m1)"
      using r rt Inr t1(1) by (simp add: map_tree_def c1_def)
    define c2 where "c2 = c1\<lparr>cm_values := (cm_values c1)\<lparr>items := concat (map (token_values p) ts)\<rparr>, cm_index := sz, cm_stage := Transform\<rparr>"
    have pre: "group_ok (cm_tree c1) [0 \<mapsto> C]" "\<forall>t\<in>set ts. (V (fst t), fst t) \<in> C \<and> token_ok (cm_run c1) t" "cm_run c1 \<le> 16"
      "\<forall>t\<in>set ts. \<forall>v\<in>set (token_values (cm_run c1) t). v < cm_trees c1" "cm_trees c1 \<le> 256"
      "cm_index c1 + length (concat (map (token_values (cm_run c1)) ts)) = sz" "length (items (cm_values c1)) = cm_index c1"
      "stream s1 = concat (map (token_wire V (cm_run c1)) ts) @ [True] @ rest"
      unfolding c1 using t1(4,6) assms(3-6) len by (blast, blast, blast, blast, blast, simp, simp, blast)
    obtain s2 where me: "map_entries sz (c1, s1) = map_transform (c1\<lparr>cm_values := (cm_values c1)\<lparr>items := items (cm_values c1) @ concat (map (token_values (cm_run c1)) ts)\<rparr>,
        cm_index := sz, cm_stage := Transform\<rparr>, s2)" and s2': "reader_ok s2" "stream s2 = [True] @ rest" "same_call s1 s2"
      using map_entries_read [OF pre(1-7) c1(6) t1(3) pre(8)] by blast
    have "map_entries sz (c1, s1) = map_transform (c2, s2)" using me unfolding c1(2,5) c2_def append_Nil .
    note s2 = this s2'
    have "bits_of_nat 1 1 = [True]" by (simp add: bit_eval bits_of_nat_Suc)
    then have str: "stream s2 = bits_of_nat 1 1 @ rest" using s2(3) by simp
    obtain s3 where s3: "read 1 s2 = (Inr (Some 1), s3)" "reader_ok s3" "stream s3 = rest" "same_call s2 s3"
      by (rule field_read [OF s2(2) str]) simp_all
    have "map_transform (c2, s2) = (Inr True, c2\<lparr>cm_values := (cm_values c2)\<lparr>items := inverse_mtf identity_symbols (items (cm_values c2))\<rparr>, cm_stage := MapComplete\<rparr>, s3)"
      using s3(1) by (simp add: map_transform_def)
    then have res: "r = Inr True" "b' = b1" "s' = s3" "cm_trees c' = n" "cm_stage c' = MapComplete"
      "items (cm_values c') = inverse_mtf identity_symbols (concat (map (token_values p) ts))"
      using run s2(1) c1(3) by (simp_all add: map_rest_def c2_def)
    have "same_call s s3" using t1(5) s2(4) s3(4) same_call_trans by blast
    then show ?thesis using s3(2,3) t1(2) unfolding res by simp
  qed
qed

lemma prefix_read:
  assumes "p \<le> 16" "reader_ok s" "stream s = prefix_wire p @ rest"
  obtains s' where "\<And>c b m. map_run_prefix alloc sz (c, b, s, m) = map_tree alloc sz (c\<lparr>cm_run := p, cm_stage := MapTree\<rparr>, b, s', m)"
    "reader_ok s'" "stream s' = rest" "same_call s s'"
proof -
  have one: "(1::nat) \<le> MAX_PEEK" by (simp add: MAX_PEEK_def)
  note p1 = peek_eq [OF assms(2) one]
  show thesis
  proof (cases "p = 0")
    case True
    then have str: "stream s = False # rest" using assms(3) by (simp add: prefix_wire_def)
    then have "peek 1 s = (Inr (Some 0), loaded 1 s)" using p1(1) by simp
    then have "map_run_prefix alloc sz (c, b, s, m) = map_tree alloc sz (c\<lparr>cm_run := p, cm_stage := MapTree\<rparr>, b, discard 1 (loaded 1 s), m)" for c b m
      using True by (simp add: map_run_prefix_def)
    moreover have "reader_ok (discard 1 (loaded 1 s)) \<and> stream (discard 1 (loaded 1 s)) = rest"
      using discard_loaded [OF assms(2), of 1 1] str by simp
    moreover have "same_call s (discard 1 (loaded 1 s))" using p1(4) same_call_trans discard_same_call by blast
    ultimately show thesis using that by blast
  next
    case False
    have v: "1 + 2 * (p - 1) < 2 ^ 5" using assms(1) by simp
    have "bits_of_nat 5 (1 + 2 * (p - 1)) = True # bits_of_nat 4 (p - 1)"
      using bits_of_nat_Suc [of 4 "1 + 2 * (p - 1)"] by simp
    then have str: "stream s = bits_of_nat 5 (1 + 2 * (p - 1)) @ rest" using assms(3) False by (simp add: prefix_wire_def)
    have "peek 1 s = (Inr (Some 1), loaded 1 s)" using p1(1) assms(3) False by (simp add: prefix_wire_def)
    moreover obtain s2 where s2: "read 5 (loaded 1 s) = (Inr (Some (1 + 2 * (p - 1))), s2)" "reader_ok s2" "stream s2 = rest" "same_call (loaded 1 s) s2"
      by (rule field_read [OF p1(2) _ v]) (use p1(3) str in simp_all)
    moreover have "shr (1 + 2 * (p - 1)) 1 + 1 = p" using False by (simp add: shr_div)
    ultimately have "map_run_prefix alloc sz (c, b, s, m) = map_tree alloc sz (c\<lparr>cm_run := p, cm_stage := MapTree\<rparr>, b, s2, m)" for c b m
      by (simp add: map_run_prefix_def)
    then show thesis using that s2(2,3) s2(4) p1(4) same_call_trans by blast
  qed
qed

lemma several_map_read:
  assumes n: "2 \<le> n" "n \<le> 256" "p \<le> 16" and d: "describes_code (n + p) bs C"
    and t: "\<forall>t\<in>set ts. (V (fst t), fst t) \<in> C \<and> token_ok p t" "\<forall>t\<in>set ts. \<forall>v\<in>set (token_values p t). v < n"
    "length (concat (map (token_values p) ts)) = sz"
  shows "map_reads sz (var_len_bits (n - 1) @ prefix_wire p @ bs @ concat (map (token_wire V p) ts) @ [True])
    (inverse_mtf identity_symbols (concat (map (token_values p) ts))) n"
  unfolding map_reads_def
proof (intro allI impI)
  fix alloc c b s m rest r c' b' s' m'
  assume h: "idle b" "reader_ok s" "stream s = (var_len_bits (n - 1) @ prefix_wire p @ bs @ concat (map (token_wire V p) ts) @ [True]) @ rest"
    "context_map_read alloc sz (context_map_reset c, b, s, m) = (r, c', b', s', m')"
  let ?goal = "reader_ok s' \<and> same_call s s' \<and> (case r of Inl e \<Rightarrow> memory_failure e
       | Inr ready \<Rightarrow> ready \<and> idle b' \<and> stream s' = rest \<and> items (cm_values c') = inverse_mtf identity_symbols (concat (map (token_values p) ts)) \<and>
           cm_trees c' = n \<and> cm_stage c' = MapComplete)"
  have str: "stream s = var_len_bits (n - 1) @ prefix_wire p @ bs @ concat (map (token_wire V p) ts) @ [True] @ rest" using h(3) by simp
  obtain s1 where s1: "uint8 s = (Inr (Some (n - 1)), s1)" "reader_ok s1"
    "stream s1 = prefix_wire p @ bs @ concat (map (token_wire V p) ts) @ [True] @ rest" "same_call s s1"
    by (rule uint8_read [OF h(2) _ str]) (use n in simp_all)
  define c1 where "c1 = (context_map_reset c)\<lparr>cm_trees := n, cm_index := 0\<rparr>"
  obtain q v m1 where rs: "reserve alloc 1 (cm_values c1) sz m = (q, v, m1)" by (cases "reserve alloc 1 (cm_values c1) sz m")
  have run: "(r, c', b', s', m') = (case q of Inl e \<Rightarrow> (Inl e, c1\<lparr>cm_values := v\<rparr>, b, s1, m1)
      | Inr _ \<Rightarrow> map_run_prefix alloc sz (c1\<lparr>cm_values := v, cm_stage := RunPrefix\<rparr>, b, s1, m1))"
    using h(4) s1(1) rs n(1) by (cases q) (auto simp: context_map_read_def map_tree_count_def context_map_reset_def c1_def)
  have iv: "items v = []" using reserve_keeps(1) [OF rs] by (simp add: c1_def context_map_reset_def)
  show ?goal
  proof (cases q)
    case (Inl e)
    then have "r = Inl e" "s' = s1" using run by simp_all
    moreover have "memory_failure e" using reserve_failure rs Inl by blast
    ultimately show ?thesis using s1 by simp
  next
    case (Inr u)
    obtain s2 where s2: "\<And>c b m. map_run_prefix alloc sz (c, b, s1, m) = map_tree alloc sz (c\<lparr>cm_run := p, cm_stage := MapTree\<rparr>, b, s2, m)"
      "reader_ok s2" "stream s2 = bs @ concat (map (token_wire V p) ts) @ [True] @ rest" "same_call s1 s2"
        by (rule prefix_read [OF n(3) s1(2,3), of alloc sz]) (rule that)
    define c2 where "c2 = c1\<lparr>cm_values := v, cm_run := p, cm_stage := MapTree\<rparr>"
    have c2: "cm_trees c2 = n" "cm_run c2 = p" "items (cm_values c2) = []" "cm_index c2 = 0" using iv by (simp_all add: c2_def c1_def)
    have mt: "map_tree alloc sz (c2, b, s2, m1) = (r, c', b', s', m')" using run Inr s2(1) by (simp add: c2_def)
    have "n + p \<le> MAX_ALPHABET" using n by (simp add: MAX_ALPHABET_def)
    note te = tree_and_entries_read [OF d this n(3,2) t c2 h(1) s2(2,3) mt]
    have "same_call s s'" using te s1(4) s2(4) same_call_trans by blast
    with te show ?thesis by simp
  qed
qed

section \<open>Writing a map\<close>

lemma emits_token:
  assumes "words_in depths bits C cs" "fst t \<in> cs" "fst t < 512" "token_ok p t" "p \<le> 16"
  shows "wr.emits (store_map_symbol depths bits p (pack t)) (token_wire (code_word depths bits) p t)"
proof -
  note u = unpack [OF assms(3)]
  have em: "wr.emits (write_bits (depths ! fst t) (bits ! fst t)) (code_word depths bits (fst t))" by (rule emits_word [OF assms(1,2)])
  show ?thesis
  proof (cases "0 < fst t \<and> fst t \<le> p")
    case True
    then have "snd t < 2 ^ fst t" "fst t \<le> MAX_BITS_PER_WRITE" using assms(4,5) by (simp_all add: token_ok_def MAX_BITS_PER_WRITE_def)
    from wr.emits_then_put [OF em this(2,1)] show ?thesis
      using True by (simp add: store_map_symbol_def [abs_def] u Let_def token_wire_def)
  next
    case False
    then have "store_map_symbol depths bits p (pack t) = write_bits (depths ! fst t) (bits ! fst t)"
      by (rule_tac ext) (auto simp: store_map_symbol_def u Let_def)
    moreover have "token_wire (code_word depths bits) p t = code_word depths bits (fst t)" using False by (auto simp: token_wire_def)
    ultimately show ?thesis using em by simp
  qed
qed

lemma fold_nth: "fold (\<lambda>i. f (xs ! i)) [0..<length xs] st = fold f xs st"
proof -
  have "fold (\<lambda>i. f (xs ! i)) [0..<length xs] st = fold f (map ((!) xs) [0..<length xs]) st" by (simp add: fold_map comp_def)
  then show ?thesis by (simp only: map_nth)
qed

lemma tally_packed:
  assumes "\<forall>t\<in>set ts. fst t < 512"
  shows "fold (\<lambda>v h. h[v AND symbol_mask := h ! (v AND symbol_mask) + 1]) (map pack ts) h = fold tally (map fst ts) h"
  using assms by (induction ts arbitrary: h) (simp_all add: unpack tally_def)

definition arena_ok :: "map_arena \<Rightarrow> bool" where
  "arena_ok a \<longleftrightarrow> length (ma_histogram a) = MAX_CONTEXT_MAP_SYMBOLS \<and> length (ma_depths a) = MAX_CONTEXT_MAP_SYMBOLS \<and> length (ma_bits a) = MAX_CONTEXT_MAP_SYMBOLS"

lemma emits_prefix:
  assumes "p \<le> 16" "wr.emits f bs"
  shows "wr.emits (\<lambda>w. let w2 = write_bits 1 (of_bool (p > 0)) (f w) in if p > 0 then write_bits 4 (p - 1) w2 else w2) (bs @ prefix_wire p)"
proof (cases "p = 0")
  case True
  have "bits_of_nat 1 0 = [False]" by (simp add: bit_eval bits_of_nat_Suc)
  then show ?thesis using wr.emits_then_put [OF assms(2), of 1 0] True by (simp add: prefix_wire_def MAX_BITS_PER_WRITE_def)
next
  case False
  have "bits_of_nat 1 1 = [True]" by (simp add: bit_eval bits_of_nat_Suc)
  moreover have "wr.emits (\<lambda>w. write_bits 4 (p - 1) (write_bits 1 1 (f w))) ((bs @ bits_of_nat 1 1) @ bits_of_nat 4 (p - 1))"
    using assms by (intro wr.emits_then_put) (simp_all add: MAX_BITS_PER_WRITE_def)
  ultimately show ?thesis using False by (simp add: prefix_wire_def)
qed

lemma encode_context_map_read:
  assumes vs: "\<forall>v\<in>set vs. v < n" "2 \<le> n" "n \<le> 256" and a: "arena_ok arena" and small: "2 * length vs * 272 < 2 ^ 32 - 1"
  obtains arena' tree' f bs where "\<And>w. encode_context_map arena vs n tree w = Some (arena', tree', f w)" "wr.emits f bs"
    "map_reads (length vs) bs vs n" "arena_ok arena'"
proof -
  define us where "us = move_to_front_transform vs"
  have us: "inverse_mtf identity_symbols us = vs" "\<forall>u\<in>set us. u < n" "length us = length vs"
    using move_to_front_inverse [OF vs(1,3)] by (simp_all add: us_def)
  obtain toks k p where rl: "run_length_code_zeros us 6 = (toks, k, p)" by (cases "run_length_code_zeros us 6")
  define ts where "ts = run_tokens p us"
  have rs: "toks = map pack ts" "k = length toks" "p \<le> 6" using run_length_code_zeros_spec [OF rl] by (simp_all add: ts_def)
  have ts: "concat (map (token_values p) ts) = us" "length ts \<le> length us"
    "\<forall>t\<in>set ts. token_ok p t \<and> (fst t \<le> p \<or> (\<exists>x\<in>set us. fst t = x + p))"
    using run_tokens_spec [of p us] by (simp_all add: ts_def)
  have lt: "\<forall>t\<in>set ts. fst t < n + p" using ts(3) us(2) vs(2) by fastforce
  then have l512: "\<forall>t\<in>set ts. fst t < 512" using vs(3) rs(3) by fastforce
  have below: "\<forall>c\<in>set (map fst ts). c < n + p" using lt by simp
  have "2 * length (map fst ts) * (n + p) \<le> 2 * length vs * 272" using ts(2) us(3) vs(3) rs(3) by (intro mult_le_mono) simp_all
  then have bound: "2 * length (map fst ts) * (n + p) < 2 ^ 32 - 1" using small by linarith
  have pre: "0 < n + p" "n + p \<le> 272" "272 \<le> NUM_COMMAND_SYMBOLS" using vs(2,3) rs(3) by (simp_all add: NUM_COMMAND_SYMBOLS_def)
  have al: "length (ma_depths arena) = 272" "length (ma_bits arena) = 272" "length (ma_histogram arena) = 272"
    using a by (simp_all add: arena_ok_def MAX_CONTEXT_MAP_SYMBOLS_def MAX_NUMBER_OF_BLOCK_TYPES_def)
  obtain tree' depths bits g ds C where st:
    "\<And>w. build_and_store_huffman_tree (fold tally (map fst ts) (replicate 272 0)) (n + p) (n + p) tree (ma_depths arena) (ma_bits arena) w = Some (tree', depths, bits, g w)"
    "wr.emits g ds" "describes_code (n + p) ds C" "words_in depths bits C (set (map fst ts))" "length depths = 272" "length bits = 272"
    by (rule tally_code_stored [OF pre al(1,2) below bound, of tree]) (rule that)
  let ?V = "code_word depths bits"
  define arena' where "arena' = \<lparr>ma_histogram = fold tally (map fst ts) (replicate 272 0), ma_depths = depths, ma_bits = bits, ma_rle_symbols = toks\<rparr>"
  define pre_w where "pre_w w = (let w2 = write_bits 1 (of_bool (p > 0)) (store_var_len_uint8 (n - 1) w) in if p > 0 then write_bits 4 (p - 1) w2 else w2)" for w
  define f where "f w = write_bits 1 1 (fold (store_map_symbol depths bits p) toks (g (pre_w w)))" for w
  have run: "encode_context_map arena vs n tree w = Some (arena', tree', f w)" for w
    using vs(2) st(1) tally_packed [OF l512, folded rs(1)] unfolding encode_context_map_def us_def [symmetric] rl Let_def al
    by (simp add: rs(2) f_def pre_w_def arena'_def Let_def fold_nth)
  have "wr.emits pre_w (var_len_bits (n - 1) @ prefix_wire p)"
    unfolding pre_w_def [abs_def] using rs(3) vs(3) by (intro emits_prefix emits_var_len) simp_all
  then have e1: "wr.emits (\<lambda>w. g (pre_w w)) ((var_len_bits (n - 1) @ prefix_wire p) @ ds)" by (rule wr.emits_comp [OF _ st(2)])
  have "wr.emits (store_map_symbol depths bits p (pack t)) (token_wire ?V p t)" if "t \<in> set ts" for t
    using that l512 ts(3) rs(3) by (intro emits_token [OF st(4)]) auto
  then have "wr.emits (fold (\<lambda>t. store_map_symbol depths bits p (pack t)) ts) (concat (map (token_wire ?V p) ts))" by (rule wr.emits_fold)
  then have e2: "wr.emits (fold (store_map_symbol depths bits p) toks) (concat (map (token_wire ?V p) ts))" by (simp add: rs(1) fold_map comp_def)
  have "bits_of_nat 1 1 = [True]" by (simp add: bit_eval bits_of_nat_Suc)
  with wr.emits_then_put [OF wr.emits_comp [OF e1 e2], of 1 1]
  have em: "wr.emits f (var_len_bits (n - 1) @ prefix_wire p @ ds @ concat (map (token_wire ?V p) ts) @ [True])"
    unfolding f_def [abs_def] by (simp add: MAX_BITS_PER_WRITE_def)
  have words: "\<forall>t\<in>set ts. (?V (fst t), fst t) \<in> C \<and> token_ok p t" using st(4) ts(3) by (auto simp: words_in_def)
  have vals: "\<forall>t\<in>set ts. \<forall>v\<in>set (token_values p t). v < n"
  proof (intro ballI)
    fix t v assume "t \<in> set ts" "v \<in> set (token_values p t)"
    then have "v \<in> set us" unfolding ts(1) [symmetric] by auto
    then show "v < n" using us(2) by blast
  qed
  have "p \<le> 16" using rs(3) by simp
  from several_map_read [OF vs(2,3) this st(3) words vals refl]
  have "map_reads (length vs) (var_len_bits (n - 1) @ prefix_wire p @ ds @ concat (map (token_wire ?V p) ts) @ [True]) vs n"
    unfolding ts(1) us(1,3) .
  moreover have "arena_ok arena'" using st(5,6) by (simp add: arena_ok_def arena'_def MAX_CONTEXT_MAP_SYMBOLS_def MAX_NUMBER_OF_BLOCK_TYPES_def)
  ultimately show thesis using that [of arena' tree' f] run em by blast
qed

end
