(* ===== verification/Trivial_Map.thy ===== *)
theory Trivial_Map
  imports Map_Roundtrip
begin

unbundle bit_operations_syntax

text \<open>
  The trivial context map, which gives every block type its own tree: what
  \<open>store_trivial_context_map\<close> writes reads back as the map that is constant on each type. Its
  repeat code always stands for a whole row but one.
\<close>

section \<open>The values of the trivial map\<close>

lemma inverse_mtf_zeros:
  assumes "ss \<noteq> []"
  shows "inverse_mtf ss (replicate k 0 @ vs) = replicate k (ss ! 0) @ inverse_mtf ss vs"
proof -
  have "rotate_front 0 ss = ss" using assms by (cases ss) (simp_all add: rotate_front_def)
  then show ?thesis by (induction k) simp_all
qed

lemma inverse_mtf_rows:
  assumes "i \<le> T" "T \<le> 256"
  shows "inverse_mtf (rev [0..<i] @ [i..<256]) (concat (map (\<lambda>i. i # replicate m 0) [i..<T])) = concat (map (\<lambda>i. replicate (Suc m) i) [i..<T])"
  using assms(1)
proof (induction "T - i" arbitrary: i)
  case (Suc d)
  let ?s = "rev [0..<i] @ [i..<256]" and ?s' = "rev [0..<Suc i] @ [Suc i..<256]"
  have i: "i < T" "i < 256" using Suc.hyps(2) assms(2) by simp_all
  have len: "i < length ?s" using i by simp
  have up: "[i..<256] = i # [Suc i..<256]" "[i..<T] = i # [Suc i..<T]" using i by (simp_all add: upt_conv_Cons)
  have nth: "?s ! i = i" unfolding up(1) by (simp add: nth_append)
  have rot: "rotate_front i ?s = ?s'"
    using rotate_front_eq [OF len] nth unfolding up(1) by (simp add: nth_append)
  have "?s' \<noteq> []" "?s' ! 0 = i" by simp_all
  then have "inverse_mtf ?s' (replicate m 0 @ concat (map (\<lambda>i. i # replicate m 0) [Suc i..<T])) =
      replicate m i @ inverse_mtf ?s' (concat (map (\<lambda>i. i # replicate m 0) [Suc i..<T]))"
    using inverse_mtf_zeros [of ?s' m] by simp
  also have "\<dots> = replicate m i @ concat (map (\<lambda>i. replicate (Suc m) i) [Suc i..<T])"
  proof -
    have "d = T - Suc i" "Suc i \<le> T" using Suc.hyps(2) by simp_all
    from Suc.hyps(1) [OF this] show ?thesis by (rule arg_cong)
  qed
  finally have "inverse_mtf ?s' (replicate m 0 @ concat (map (\<lambda>i. i # replicate m 0) [Suc i..<T])) =
      replicate m i @ concat (map (\<lambda>i. replicate (Suc m) i) [Suc i..<T])" .
  moreover have "replicate (Suc m) i = i # replicate m i" by simp
  ultimately show ?case unfolding up(2) using nth rot by (simp del: replicate_Suc)
qed simp

definition trivial_map :: "nat \<Rightarrow> nat \<Rightarrow> nat list" where
  "trivial_map context_bits types = concat (map (\<lambda>i. replicate (2 ^ context_bits) i) [0..<types])"

definition row_tokens :: "nat \<Rightarrow> nat \<Rightarrow> token list" where
  "row_tokens p i = [(if i = 0 then 0 else i + p, 0), (p, 2 ^ p - 1)]"

lemma row_values:
  assumes "1 \<le> p"
  shows "concat (map (token_values p) (row_tokens p i)) = i # replicate (2 ^ Suc p - 1) 0"
proof -
  have "2 ^ p + (2 ^ p - 1) = 2 ^ Suc p - (1::nat)" by simp
  then show ?thesis using assms by (simp add: row_tokens_def)
qed

lemma rows_values:
  assumes "1 \<le> p" "T \<le> 256"
  shows "inverse_mtf identity_symbols (concat (map (token_values p) (concat (map (row_tokens p) [0..<T])))) = trivial_map (Suc p) T"
    "length (concat (map (token_values p) (concat (map (row_tokens p) [0..<T])))) = length (trivial_map (Suc p) T)"
    "\<forall>t\<in>set (concat (map (row_tokens p) [0..<T])). \<forall>v\<in>set (token_values p t). v < T"
proof -
  let ?m = "2 ^ Suc p - 1"
  have v: "concat (map (token_values p) (concat (map (row_tokens p) is))) = concat (map (\<lambda>i. i # replicate ?m 0) is)" for "is"
    by (induction "is") (simp_all add: row_values [OF assms(1)])
  have m: "Suc ?m = 2 ^ Suc p" by simp
  show "inverse_mtf identity_symbols (concat (map (token_values p) (concat (map (row_tokens p) [0..<T])))) = trivial_map (Suc p) T"
    using inverse_mtf_rows [of 0 T ?m] assms(2) unfolding v m identity_symbols_def trivial_map_def by simp
  have "length (concat (map (\<lambda>i. i # replicate k 0) is)) = length (concat (map (\<lambda>i. replicate (Suc k) i) is))" for k and "is" :: "nat list"
    by (induction "is") simp_all
  from this [of ?m] show "length (concat (map (token_values p) (concat (map (row_tokens p) [0..<T])))) = length (trivial_map (Suc p) T)"
    unfolding v m trivial_map_def .
  show "\<forall>t\<in>set (concat (map (row_tokens p) [0..<T])). \<forall>v\<in>set (token_values p t). v < T"
    using assms(1) by (auto simp: row_tokens_def split: if_splits)
qed

section \<open>Writing it\<close>

lemma nth_fold_set:
  "j < length h \<Longrightarrow> fold (\<lambda>i h. h[i := x]) is h ! j = (if j \<in> set is then x else h ! j)"
  by (induction "is" arbitrary: h) (auto simp: nth_list_update)

lemma length_fold_set [simp]: "length (fold (\<lambda>i h. h[i := x]) is h) = length h"
  by (induction "is" arbitrary: h) simp_all

lemma trivial_histogram_nth:
  assumes "2 \<le> cb" "1 \<le> T" "T + cb - 1 \<le> length h" "i < T + cb - 1"
  shows "trivial_histogram T cb h ! i = (if i = 0 then 1 else if i = cb - 1 then T else if cb \<le> i then 1 else 0)"
proof -
  have "T + (cb - 1) = T + cb - 1" "0 < T + cb - 1" "0 < length h" using assms by arith+
  then show ?thesis
    using assms by (auto simp: trivial_histogram_def Let_def nth_fold_set nth_append)
qed

lemma length_trivial_histogram: "2 \<le> cb \<Longrightarrow> T + cb - 1 \<le> length h \<Longrightarrow> length (trivial_histogram T cb h) = length h"
  by (simp add: trivial_histogram_def Let_def)

lemma emits_row:
  assumes "words_in depths bits C cs" "(if i = 0 then 0 else i + p) \<in> cs" "p \<in> cs" "1 \<le> p" "p \<le> 16"
  shows "wr.emits (store_trivial_type depths bits (Suc p) i) (concat (map (token_wire (code_word depths bits) p) (row_tokens p i)))"
proof -
  let ?c = "if i = 0 then 0 else i + p"
  have "wr.emits (\<lambda>w. write_bits (depths ! p) (bits ! p) (write_bits (depths ! ?c) (bits ! ?c) w)) (code_word depths bits ?c @ code_word depths bits p)"
    by (rule wr.emits_comp [OF emits_word [OF assms(1,2)] emits_word [OF assms(1,3)]])
  from wr.emits_then_put [OF this, of p "2 ^ p - 1"]
  have "wr.emits (\<lambda>w. write_bits p (2 ^ p - 1) (write_bits (depths ! p) (bits ! p) (write_bits (depths ! ?c) (bits ! ?c) w)))
      (code_word depths bits ?c @ code_word depths bits p @ bits_of_nat p (2 ^ p - 1))"
    using assms(5) by (simp add: MAX_BITS_PER_WRITE_def)
  moreover have "concat (map (token_wire (code_word depths bits) p) (row_tokens p i)) =
      code_word depths bits ?c @ code_word depths bits p @ bits_of_nat p (2 ^ p - 1)"
    using assms(4) by (simp add: row_tokens_def token_wire_def)
  moreover have "store_trivial_type depths bits (Suc p) i =
      (\<lambda>w. write_bits p (2 ^ p - 1) (write_bits (depths ! p) (bits ! p) (write_bits (depths ! ?c) (bits ! ?c) w)))"
    by (rule ext) (simp add: store_trivial_type_def Let_def)
  ultimately show ?thesis by simp
qed

lemma single_trivial_map: "trivial_map cb 1 = replicate (2 ^ cb) 0"
  by (simp add: trivial_map_def)

lemma trivial_map_read:
  assumes cb: "2 \<le> cb" "cb \<le> 16" and T: "2 \<le> T" "T \<le> 256" and a: "arena_ok arena"
  obtains arena' tree' f bs where "\<And>w. store_trivial_context_map arena T cb tree w = Some (arena', tree', f w)" "wr.emits f bs"
    "map_reads (length (trivial_map cb T)) bs (trivial_map cb T) T" "arena_ok arena'"
proof -
  define p where "p = cb - 1"
  have p: "1 \<le> p" "p \<le> 16" "Suc p = cb" "T + (cb - 1) = T + p" "T + cb - 1 = T + p" using cb by (simp_all add: p_def)
  let ?h = "trivial_histogram T cb (ma_histogram arena)" and ?n = "T + p"
  have al: "length (ma_depths arena) = 272" "length (ma_bits arena) = 272" "length (ma_histogram arena) = 272"
    using a by (simp_all add: arena_ok_def MAX_CONTEXT_MAP_SYMBOLS_def MAX_NUMBER_OF_BLOCK_TYPES_def)
  have n: "?n \<le> 272" using T p by simp
  have hl: "length ?h = 272" using length_trivial_histogram [OF cb(1), of T "ma_histogram arena"] al(3) n p(5) by simp
  have hn: "?h ! i = (if i = 0 then 1 else if i = p then T else if cb \<le> i then 1 else 0)" if "i < ?n" for i
    using trivial_histogram_nth [OF cb(1), of T "ma_histogram arena" i] T al(3) n that p by (simp add: p_def)
  have "0 < ?n" "?n \<le> length ?h" "?n \<le> NUM_COMMAND_SYMBOLS" "?n \<le> length (ma_depths arena)" "?n \<le> length (ma_bits arena)" "?n \<le> ?n"
    "?n \<le> MAX_ALPHABET" "\<forall>i<?n. ?h ! i \<le> 256" "2 * 256 * ?n < 2 ^ 32 - 1"
    using n p T hl al hn by (simp_all add: NUM_COMMAND_SYMBOLS_def MAX_ALPHABET_def)
  then obtain tree' depths bits g ds where st:
    "\<And>w. build_and_store_huffman_tree ?h ?n ?n tree (ma_depths arena) (ma_bits arena) w = Some (tree', depths, bits, g w)"
    "wr.emits g ds" "length depths = length (ma_depths arena)" "length bits = length (ma_bits arena)" "code_stored ?h ?n ?n depths bits ds"
    by (rule build_and_store_code [of ?n ?h "ma_depths arena" "ma_bits arena" ?n 256 tree]) (rule that)
  obtain C where C: "describes_code ?n ds C" "\<forall>i<?n. ?h ! i \<noteq> 0 \<longrightarrow> depths ! i \<le> MAX_LENGTH \<and> bits ! i < 2 ^ (depths ! i) \<and>
        (bits_of_nat (depths ! i) (bits ! i), i) \<in> C" using st(5) unfolding code_stored_def by blast
  let ?cs = "insert 0 (insert p {cb..<?n})"
  have words: "words_in depths bits C ?cs"
    unfolding words_in_def code_word_def
  proof
    fix c assume "c \<in> ?cs"
    then have "c < ?n" "?h ! c \<noteq> 0" using hn [of c] T p by auto
    with C(2) show "depths ! c \<le> MAX_LENGTH \<and> bits ! c < 2 ^ (depths ! c) \<and> (bits_of_nat (depths ! c) (bits ! c), c) \<in> C" by blast
  qed
  have code: "(if i = 0 then 0 else i + p) \<in> ?cs" if "i < T" for i using that p by auto
  let ?V = "code_word depths bits" and ?ts = "concat (map (row_tokens p) [0..<T])"
  define arena' where "arena' = arena\<lparr>ma_histogram := ?h, ma_depths := depths, ma_bits := bits\<rparr>"
  define pre_w where "pre_w w = (let w2 = write_bits 1 (of_bool (p > 0)) (store_var_len_uint8 (T - 1) w) in if p > 0 then write_bits 4 (p - 1) w2 else w2)" for w
  define f where "f w = write_bits 1 1 (fold (store_trivial_type depths bits cb) [0..<T] (g (pre_w w)))" for w
  have pw: "pre_w w = write_bits 4 (p - 1) (write_bits 1 1 (store_var_len_uint8 (T - 1) w))" for w using p(1) by (simp add: pre_w_def)
  have run: "store_trivial_context_map arena T cb tree w = Some (arena', tree', f w)" for w
    using T(1) st(1) unfolding store_trivial_context_map_def Let_def p(4) by (simp add: f_def pw arena'_def p_def)
  have "wr.emits pre_w (var_len_bits (T - 1) @ prefix_wire p)"
    unfolding pre_w_def [abs_def] using p T by (intro emits_prefix emits_var_len) simp_all
  then have e1: "wr.emits (\<lambda>w. g (pre_w w)) ((var_len_bits (T - 1) @ prefix_wire p) @ ds)" by (rule wr.emits_comp [OF _ st(2)])
  have "wr.emits (store_trivial_type depths bits cb i) (concat (map (token_wire ?V p) (row_tokens p i)))" if "i \<in> set [0..<T]" for i
    unfolding p(3) [symmetric] using that p code [of i] by (intro emits_row [OF words]) auto
  then have e2: "wr.emits (fold (store_trivial_type depths bits cb) [0..<T]) (concat (map (\<lambda>i. concat (map (token_wire ?V p) (row_tokens p i))) [0..<T]))"
    by (rule wr.emits_fold)
  have rows: "concat (map (\<lambda>i. concat (map (token_wire ?V p) (row_tokens p i))) is) = concat (map (token_wire ?V p) (concat (map (row_tokens p) is)))" for "is"
    by (induction "is") simp_all
  have "bits_of_nat 1 1 = [True]" by (simp add: bit_eval bits_of_nat_Suc)
  with wr.emits_then_put [OF wr.emits_comp [OF e1 e2], of 1 1]
  have em: "wr.emits f (var_len_bits (T - 1) @ prefix_wire p @ ds @ concat (map (token_wire ?V p) ?ts) @ [True])"
    unfolding f_def [abs_def] rows by (simp add: MAX_BITS_PER_WRITE_def)
  have tw: "\<forall>t\<in>set ?ts. (?V (fst t), fst t) \<in> C \<and> token_ok p t"
  proof
    fix t assume "t \<in> set ?ts"
    then obtain i where i: "i < T" "t = (if i = 0 then 0 else i + p, 0) \<or> t = (p, 2 ^ p - 1)" by (auto simp: row_tokens_def)
    then have "fst t \<in> ?cs" using code [of i] by (cases "i = 0") auto
    then show "(?V (fst t), fst t) \<in> C \<and> token_ok p t" using words i(2) by (auto simp: words_in_def token_ok_def)
  qed
  note rv = rows_values [OF p(1) T(2)]
  have "map_reads (length (trivial_map cb T)) (var_len_bits (T - 1) @ prefix_wire p @ ds @ concat (map (token_wire ?V p) ?ts) @ [True]) (trivial_map cb T) T"
    using several_map_read [OF T p(2) C(1) tw rv(3) rv(2)] unfolding rv(1) p(3) .
  moreover have "arena_ok arena'" using st(3,4) a hl by (simp add: arena_ok_def arena'_def MAX_CONTEXT_MAP_SYMBOLS_def MAX_NUMBER_OF_BLOCK_TYPES_def)
  ultimately show thesis using that [of arena' tree' f] run em by blast
qed

end
