(* ===== verification/Map_Safety.thy ===== *)
theory Map_Safety
  imports Trivial_Map
begin

unbundle bit_operations_syntax

text \<open>
  Context maps on any input: the invariant of the resumable reader, what an accepted map holds, and
  the marks of trivial block types; then the properties of the component.
\<close>

section \<open>The invariant of the reader\<close>

definition map_values_ok :: "context_map \<Rightarrow> bool" where
  "map_values_ok c \<longleftrightarrow> cm_trees c \<le> 256 \<and> (\<forall>v\<in>set (items (cm_values c)). v < cm_trees c)"

definition map_filling :: "nat \<Rightarrow> context_map \<Rightarrow> bool" where
  "map_filling sz c \<longleftrightarrow> map_values_ok c \<and> 0 < cm_trees c \<and> cm_run c \<le> 16 \<and> holds_code (cm_trees c + cm_run c) (cm_tree c) \<and> cm_index c \<le> sz \<and>
     length (items (cm_values c)) = cm_index c"

definition map_ok :: "nat \<Rightarrow> builder \<Rightarrow> context_map \<Rightarrow> bool" where
  "map_ok sz b c \<longleftrightarrow> (case cm_stage c of
      TreeCount \<Rightarrow> idle b
    | RunPrefix \<Rightarrow> idle b \<and> 0 < cm_trees c \<and> cm_trees c \<le> 256 \<and> items (cm_values c) = [] \<and> cm_index c = 0
    | MapTree \<Rightarrow> builder_ok (cm_trees c + cm_run c) b \<and> cm_run c \<le> 16 \<and> 0 < cm_trees c \<and> cm_trees c \<le> 256 \<and>
        items (cm_values c) = [] \<and> cm_index c = 0
    | Entries \<Rightarrow> idle b \<and> map_filling sz c
    | MapRepeat width \<Rightarrow> idle b \<and> map_filling sz c \<and> width \<le> cm_run c
    | Transform \<Rightarrow> idle b \<and> map_values_ok c \<and> length (items (cm_values c)) = sz
    | MapComplete \<Rightarrow> idle b \<and> map_values_ok c \<and> length (items (cm_values c)) = sz)"

definition map_outcome :: "nat \<Rightarrow> builder \<Rightarrow> reader \<Rightarrow> map_result \<Rightarrow> bool" where
  "map_outcome sz b s out \<longleftrightarrow> (case out of (r, c', s') \<Rightarrow> reader_ok s' \<and> same_call s s' \<and> (case r of
      Inl e \<Rightarrow> Some e = starved s \<or> e = InvalidData ContextMap
    | Inr ready \<Rightarrow> map_ok sz b c' \<and> (ready \<longrightarrow> cm_stage c' = MapComplete)))"

lemma map_outcome_trans:
  assumes "same_call s s'" "map_outcome sz b s' out"
  shows "map_outcome sz b s out"
  using assms same_call_starved [OF assms(1)] unfolding map_outcome_def by (auto dest: same_call_trans split: sum.splits prod.splits)

lemma inverse_mtf_values:
  assumes "\<forall>v\<in>set vs. v < length xs"
  shows "set (inverse_mtf (xs @ w) vs) \<subseteq> set xs \<and> length (inverse_mtf (xs @ w) vs) = length vs"
  using assms
proof (induction vs arbitrary: xs)
  case (Cons v vs)
  then have v: "v < length xs" by simp
  have "set (inverse_mtf (rotate_front v xs @ w) vs) \<subseteq> set (rotate_front v xs) \<and> length (inverse_mtf (rotate_front v xs @ w) vs) = length vs"
    using Cons.prems v by (intro Cons.IH) simp
  then show ?case using v set_rotate_front [OF v] by (simp add: rotate_front_append nth_append)
qed simp

lemma identity_split: "n \<le> 256 \<Longrightarrow> identity_symbols = [0..<n] @ [n..<256]"
  unfolding identity_symbols_def by (metis bot_nat_0.extremum le_add_diff_inverse le_trans upt_add_eq_append)

lemma map_transform_outcome:
  assumes "reader_ok s" "idle b" "map_values_ok c" "length (items (cm_values c)) = sz" "cm_stage c = Transform"
  shows "map_outcome sz b s (map_transform (c, s))"
proof -
  obtain r s' where rd: "read 1 s = (r, s')" by (cases "read 1 s")
  have "(1::nat) \<le> 56" by simp
  note fo = field_outcome [OF assms(1) this rd]
  have n: "cm_trees c \<le> 256" "\<forall>v\<in>set (items (cm_values c)). v < length [0..<cm_trees c]" using assms(3) by (simp_all add: map_values_ok_def)
  have inv: "set (inverse_mtf identity_symbols (items (cm_values c))) \<subseteq> {..<cm_trees c}"
    "length (inverse_mtf identity_symbols (items (cm_values c))) = sz"
    using inverse_mtf_values [OF n(2), of "[cm_trees c..<256]"] assms(4) unfolding identity_split [OF n(1)] by auto
  show ?thesis
  proof (cases r)
    case (Inl e)
    then show ?thesis using fo rd by (simp add: map_outcome_def map_transform_def)
  next
    case (Inr v)
    show ?thesis
    proof (cases v)
      case None
      then show ?thesis using fo rd Inr assms by (simp add: map_outcome_def map_transform_def map_ok_def)
    next
      case (Some mtf)
      then show ?thesis using fo rd Inr assms inv n(1)
        by (auto simp: map_outcome_def map_transform_def map_ok_def map_values_ok_def)
    qed
  qed
qed

lemma map_fill_filling:
  assumes "map_filling sz c" "map_fill sz width extra c = Inr c'"
  shows "map_filling sz c' \<and> cm_stage c' = Entries \<and> cm_run c' = cm_run c"
proof -
  let ?fin = "cm_index c + 2 ^ width + extra"
  have "?fin \<le> sz" and c': "c' = c\<lparr>cm_values := (cm_values c)\<lparr>items := pad_to ?fin 0 (items (cm_values c))\<rparr>, cm_index := ?fin, cm_stage := Entries\<rparr>"
    using assms(2) by (auto simp: map_fill_def Let_def split: if_splits)
  moreover have "set (pad_to ?fin 0 (items (cm_values c))) \<subseteq> insert 0 (set (items (cm_values c)))" by (auto simp: pad_to_def dest: in_set_takeD)
  ultimately show ?thesis using assms(1) by (auto simp: map_filling_def map_values_ok_def)
qed

lemma map_entries_outcome:
  assumes "reader_ok s" "idle b" "map_filling sz c" "cm_stage c = Entries"
  shows "map_outcome sz b s (map_entries sz (c, s))"
  using assms
proof (induction sz "(c, s)" arbitrary: c s rule: map_entries.induct)
  case (1 sz c s)
  note rk = "1.prems"(1) and id = "1.prems"(2) and mf = "1.prems"(3) and st = "1.prems"(4)
  show ?case
  proof (cases "cm_index c < sz")
    case False
    then have "length (items (cm_values c)) = sz" using mf by (simp add: map_filling_def)
    then have "map_outcome sz b s (map_transform (c\<lparr>cm_stage := Transform\<rparr>, s))"
      using rk id mf by (intro map_transform_outcome) (simp_all add: map_filling_def map_values_ok_def)
    then show ?thesis using False by (subst map_entries.simps) simp
  next
    case lt: True
    obtain r s1 where d: "decode_refilling (group_table (cm_tree c) 0) s = (r, s1)" by (cases "decode_refilling (group_table (cm_tree c) 0) s")
    have "holds_code (cm_trees c + cm_run c) (cm_tree c)" using mf by (simp add: map_filling_def)
    note hc = holds_code_read [OF this rk d]
    have rk1: "reader_ok s1" "same_call s s1" using hc by simp_all
    have wait: "map_ok sz b c" using id mf st by (simp add: map_ok_def)
    consider (err) e where "r = Inl e" | (stalled) "r = Inr None" | (sym) symbol where "r = Inr (Some symbol)" by (cases r) auto
    then show ?thesis
    proof cases
      case err
      then show ?thesis using lt d hc by (subst map_entries.simps) (simp add: map_outcome_def)
    next
      case stalled
      then show ?thesis using lt d hc wait by (subst map_entries.simps) (simp add: map_outcome_def)
    next
      case (sym symbol)
      then have sy: "symbol < cm_trees c + cm_run c" using hc by simp
      show ?thesis
      proof (cases "symbol \<noteq> 0 \<and> symbol \<le> cm_run c")
        case True
        let ?c = "c\<lparr>cm_stage := MapRepeat symbol\<rparr>"
        obtain q s2 where rd: "read symbol s1 = (q, s2)" by (cases "read symbol s1")
        have "symbol \<le> 56" using True mf by (simp add: map_filling_def)
        note fo = field_outcome [OF rk1(1) this rd]
        have rk2: "reader_ok s2" "same_call s s2" using fo rk1 same_call_trans by blast+
        have mf': "map_filling sz ?c" using mf by (simp add: map_filling_def map_values_ok_def)
        consider (err) e where "q = Inl e" | (stalled) "q = Inr None" | (extra) extra where "q = Inr (Some extra)" by (cases q) auto
        then show ?thesis
        proof cases
          case err
          then have "map_entries sz (c, s) = (Inl e, ?c, s2)" using lt d sym True rd by (subst map_entries.simps) simp
          then show ?thesis using err fo rk2 same_call_starved [OF rk1(2)] by (simp add: map_outcome_def)
        next
          case stalled
          then have "map_entries sz (c, s) = (Inr False, ?c, s2)" using lt d sym True rd by (subst map_entries.simps) simp
          then show ?thesis using rk2 id mf' True by (simp add: map_outcome_def map_ok_def)
        next
          case (extra extra)
          show ?thesis
          proof (cases "map_fill sz symbol extra ?c")
            case (Inl e)
            then have "map_entries sz (c, s) = (Inl e, ?c, s2)" using lt d sym True rd extra by (subst map_entries.simps) simp
            moreover have "e = InvalidData ContextMap" using Inl by (auto simp: map_fill_def Let_def split: if_splits)
            ultimately show ?thesis using rk2 by (simp add: map_outcome_def)
          next
            case (Inr c2)
            note fl = map_fill_filling [OF mf' Inr]
            have run: "map_entries sz (c, s) = map_entries sz (c2, s2)" using lt d sym True rd extra Inr by (subst map_entries.simps) simp
            have "\<not> \<not> cm_index c < sz" using lt by simp
            then have "map_outcome sz b s2 (map_entries sz (c2, s2))"
              using d sym True rd extra Inr fl rk2 id by (intro "1.hyps"(1)) (auto intro: refl)
            then show ?thesis unfolding run using map_outcome_trans rk2(2) by blast
          qed
        qed
      next
        case False
        define v where "v = (if symbol = 0 then 0 else symbol - cm_run c)"
        show ?thesis
        proof (cases "v < cm_trees c")
          case False
          then have "map_entries sz (c, s) = (Inl (InvalidData ContextMap), c, s1)"
            using lt d sym \<open>\<not> (symbol \<noteq> 0 \<and> symbol \<le> cm_run c)\<close> by (subst map_entries.simps) (auto simp: v_def)
          then show ?thesis using rk1 by (simp add: map_outcome_def)
        next
          case True
          then have run: "map_entries sz (c, s) = map_entries sz (map_push v c, s1)"
            using lt d sym False by (subst map_entries.simps) (auto simp: v_def)
          have "map_filling sz (map_push v c)" "cm_stage (map_push v c) = Entries"
            using mf True lt st by (auto simp: map_filling_def map_values_ok_def map_push_def)
          then have "map_outcome sz b s1 (map_entries sz (map_push v c, s1))"
            using lt d sym False True rk1 id by (intro "1.hyps"(2)) (auto simp: v_def)
          then show ?thesis unfolding run using map_outcome_trans rk1(2) by blast
        qed
      qed
    qed
  qed
qed

lemma resume_entries_outcome:
  assumes "reader_ok s" "map_ok sz b c" "cm_stage c = Entries \<or> (\<exists>w. cm_stage c = MapRepeat w)"
  shows "map_outcome sz b s (resume_entries sz (c, s))"
proof (cases "cm_stage c = Entries")
  case True
  then show ?thesis using map_entries_outcome [OF assms(1), of b sz c] assms(2) by (simp add: resume_entries_def map_ok_def)
next
  case False
  then obtain w where w: "cm_stage c = MapRepeat w" using assms(3) by blast
  have mf: "idle b" "map_filling sz c" "w \<le> cm_run c" using assms(2) w by (simp_all add: map_ok_def)
  then have "w \<le> 56" by (simp add: map_filling_def)
  obtain q s1 where rd: "read w s = (q, s1)" by (cases "read w s")
  note fo = field_outcome [OF assms(1) \<open>w \<le> 56\<close> rd]
  consider (err) e where "q = Inl e" | (stalled) "q = Inr None" | (extra) extra where "q = Inr (Some extra)" by (cases q) auto
  then show ?thesis
  proof cases
    case err
    then show ?thesis using fo rd w by (simp add: resume_entries_def map_outcome_def)
  next
    case stalled
    then show ?thesis using fo rd w assms(2) by (simp add: resume_entries_def map_outcome_def)
  next
    case (extra extra)
    show ?thesis
    proof (cases "map_fill sz w extra c")
      case (Inl e)
      then have "e = InvalidData ContextMap" by (auto simp: map_fill_def Let_def split: if_splits)
      then show ?thesis using fo rd w extra Inl by (simp add: resume_entries_def map_outcome_def)
    next
      case (Inr c2)
      note fl = map_fill_filling [OF mf(2) Inr]
      have "map_outcome sz b s1 (map_entries sz (c2, s1))" using fo fl mf(1) by (intro map_entries_outcome) simp_all
      then have "map_outcome sz b s (map_entries sz (c2, s1))" using fo map_outcome_trans by blast
      then show ?thesis using rd w extra Inr by (simp add: resume_entries_def)
    qed
  qed
qed

text \<open>The whole reader; errors of the prefix code and of the workspace are not classified.\<close>

definition read_map_outcome :: "nat \<Rightarrow> reader \<Rightarrow> (decode_error + bool) \<times> map_state \<Rightarrow> bool" where
  "read_map_outcome sz s out \<longleftrightarrow> (case out of (r, c', b', s', m') \<Rightarrow> reader_ok s' \<and> same_call s s' \<and> (case r of
      Inl e \<Rightarrow> True
    | Inr ready \<Rightarrow> map_ok sz b' c' \<and> (ready \<longrightarrow> cm_stage c' = MapComplete)))"

lemma read_map_outcome_trans: "same_call s s' \<Longrightarrow> read_map_outcome sz s' out \<Longrightarrow> read_map_outcome sz s out"
  unfolding read_map_outcome_def by (auto dest: same_call_trans split: sum.splits prod.splits)

lemma map_rest_outcome:
  assumes "map_outcome sz b s (f (c, s))"
  shows "read_map_outcome sz s (map_rest f (c, b, s, m))"
  using assms unfolding read_map_outcome_def map_rest_def map_outcome_def by (auto split: sum.splits prod.splits)

lemma map_tree_outcome:
  assumes "reader_ok s" "map_ok sz b c" "cm_stage c = MapTree"
  shows "read_map_outcome sz s (map_tree alloc sz (c, b, s, m))"
proof -
  obtain r g b' s' m' where rt: "read_table alloc (cm_trees c + cm_run c) (cm_tree c) (b, s, m) = (r, g, b', s', m')"
    by (cases "read_table alloc (cm_trees c + cm_run c) (cm_tree c) (b, s, m)")
  have mk: "builder_ok (cm_trees c + cm_run c) b" "cm_run c \<le> 16" "0 < cm_trees c" "cm_trees c \<le> 256" "items (cm_values c) = []" "cm_index c = 0"
    using assms(2,3) by (simp_all add: map_ok_def)
  note rs = read_table_safe [OF mk(1) assms(1) rt]
  consider (err) e where "r = Inl e" | (stalled) "r = Inr False" | (built) "r = Inr True" by (cases r) auto
  then show ?thesis
  proof cases
    case err
    then show ?thesis using rs rt by (simp add: map_tree_def read_map_outcome_def)
  next
    case stalled
    then show ?thesis using rs rt mk assms(3) by (simp add: map_tree_def read_map_outcome_def map_ok_def)
  next
    case built
    let ?c = "c\<lparr>cm_tree := g, cm_stage := Entries\<rparr>"
    have "map_filling sz ?c" using rs built mk by (simp add: map_filling_def map_values_ok_def)
    moreover have "idle b'" using rs built by (simp add: idle_def)
    ultimately have "read_map_outcome sz s' (map_rest (map_entries sz) (?c, b', s', m'))"
      using rs by (intro map_rest_outcome map_entries_outcome) simp_all
    then have "read_map_outcome sz s (map_rest (map_entries sz) (?c, b', s', m'))" using rs read_map_outcome_trans by blast
    then show ?thesis using rt built by (simp add: map_tree_def)
  qed
qed

lemma map_run_prefix_outcome:
  assumes "reader_ok s" "map_ok sz b c" "cm_stage c = RunPrefix"
  shows "read_map_outcome sz s (map_run_prefix alloc sz (c, b, s, m))"
proof -
  have mk: "idle b" "0 < cm_trees c" "cm_trees c \<le> 256" "items (cm_values c) = []" "cm_index c = 0"
    using assms(2,3) by (simp_all add: map_ok_def)
  have one: "(1::nat) \<le> MAX_PEEK" by (simp add: MAX_PEEK_def)
  note p = peek_eq [OF assms(1) one]
  have go: "read_map_outcome sz s' (map_tree alloc sz (c\<lparr>cm_run := k, cm_stage := MapTree\<rparr>, b, s', m))" if "reader_ok s'" "k \<le> 16" for s' k
    using that mk idle_ok by (intro map_tree_outcome) (simp_all add: map_ok_def)
  show ?thesis
  proof (cases "1 \<le> length (stream s)")
    case False
    then show ?thesis using p assms mk by (cases "starved s") (simp_all add: map_run_prefix_def read_map_outcome_def map_ok_def)
  next
    case True
    define flag where "flag = nat_of_bits (take 1 (stream s))"
    have pk: "peek 1 s = (Inr (Some flag), loaded 1 s)" using p(1) True by (simp add: flag_def)
    show ?thesis
    proof (cases "flag = 0")
      case z: True
      have "reader_ok (discard 1 (loaded 1 s))" "same_call s (discard 1 (loaded 1 s))"
        using discard_loaded [OF assms(1), of 1 1] True p(4) same_call_trans discard_same_call by (simp, blast)
      then show ?thesis using go [of "discard 1 (loaded 1 s)" 0] read_map_outcome_trans pk z by (simp add: map_run_prefix_def)
    next
      case nz: False
      obtain q s2 where rd: "read 5 (loaded 1 s) = (q, s2)" by (cases "read 5 (loaded 1 s)")
      have "(5::nat) \<le> 56" by simp
      note fo = field_outcome [OF p(2) this rd]
      have sc: "same_call s s2" using fo p(4) same_call_trans by blast
      consider (err) e where "q = Inl e" | (stalled) "q = Inr None" | (num) n where "q = Inr (Some n)" by (cases q) auto
      then show ?thesis
      proof cases
        case err
        then show ?thesis using pk nz rd fo sc by (simp add: map_run_prefix_def read_map_outcome_def)
      next
        case stalled
        then show ?thesis using pk nz rd fo sc assms mk by (simp add: map_run_prefix_def read_map_outcome_def)
      next
        case (num n)
        then have "n < 2 ^ 5" using fo by simp
        then have "shr n 1 + 1 \<le> 16" by (simp add: shr_div)
        then show ?thesis using go [of s2 "shr n 1 + 1"] fo sc read_map_outcome_trans pk nz rd num by (simp add: map_run_prefix_def)
      qed
    qed
  qed
qed

lemma map_tree_count_outcome:
  assumes "reader_ok s" "map_ok sz b c" "cm_stage c = TreeCount"
  shows "read_map_outcome sz s (map_tree_count alloc sz (c, b, s, m))"
proof -
  obtain r s' where u: "uint8 s = (r, s')" by (cases "uint8 s")
  have uk: "reader_ok s'" "same_call s s'" using uint8_keeps [OF assms(1)] u by simp_all
  have id: "idle b" using assms(2,3) by (simp add: map_ok_def)
  consider (err) e where "r = Inl e" | (stalled) "r = Inr None" | (num) n where "r = Inr (Some n)" by (cases r) auto
  then show ?thesis
  proof cases
    case err
    then show ?thesis using u uk by (simp add: map_tree_count_def read_map_outcome_def)
  next
    case stalled
    then show ?thesis using u uk assms by (simp add: map_tree_count_def read_map_outcome_def)
  next
    case (num n)
    have n: "n < 256" using uint8_sound [OF assms(1)] u num by blast
    define c1 where "c1 = c\<lparr>cm_trees := n + 1, cm_index := 0, cm_values := (cm_values c)\<lparr>items := []\<rparr>\<rparr>"
    show ?thesis
    proof (cases "n = 0")
      case True
      obtain q v m1 where rs: "resize alloc 1 0 (cm_values c1) sz m = (q, v, m1)" by (cases "resize alloc 1 0 (cm_values c1) sz m")
      have "items v = replicate sz 0" if "q = Inr x" for x
        using resize_ok [of alloc 1 0 "cm_values c1" sz m x v m1] rs that by (simp add: pad_to_def c1_def)
      then show ?thesis using u num True uk id rs
        by (cases q) (auto simp: map_tree_count_def c1_def read_map_outcome_def map_ok_def map_values_ok_def)
    next
      case False
      obtain q v m1 where rs: "reserve alloc 1 (cm_values c1) sz m = (q, v, m1)" by (cases "reserve alloc 1 (cm_values c1) sz m")
      have iv: "items v = []" using reserve_keeps(1) [OF rs] by (simp add: c1_def)
      show ?thesis
      proof (cases q)
        case (Inl e)
        then show ?thesis using u num False uk rs by (simp add: map_tree_count_def c1_def read_map_outcome_def)
      next
        case (Inr x)
        let ?c = "c1\<lparr>cm_values := v, cm_stage := RunPrefix\<rparr>"
        have "map_ok sz b ?c" using id n iv by (simp add: map_ok_def c1_def)
        then have "read_map_outcome sz s' (map_run_prefix alloc sz (?c, b, s', m1))" using uk by (intro map_run_prefix_outcome) simp_all
        then have "read_map_outcome sz s (map_run_prefix alloc sz (?c, b, s', m1))" using uk read_map_outcome_trans by blast
        then show ?thesis using u num False rs Inr by (simp add: map_tree_count_def c1_def)
      qed
    qed
  qed
qed

lemma context_map_read_outcome:
  assumes "reader_ok s" "map_ok sz b c"
  shows "read_map_outcome sz s (context_map_read alloc sz (c, b, s, m))"
proof (cases "cm_stage c")
  case Transform
  then have "map_outcome sz b s (map_transform (c, s))" using assms by (intro map_transform_outcome) (simp_all add: map_ok_def)
  then show ?thesis using Transform map_rest_outcome by (simp add: context_map_read_def)
next
  case MapComplete
  then show ?thesis using assms by (simp add: context_map_read_def read_map_outcome_def)
next
  case Entries
  then have "map_outcome sz b s (resume_entries sz (c, s))" using assms resume_entries_outcome by blast
  then show ?thesis using Entries map_rest_outcome by (simp add: context_map_read_def)
next
  case (MapRepeat w)
  then have "map_outcome sz b s (resume_entries sz (c, s))" using assms resume_entries_outcome by blast
  then show ?thesis using MapRepeat map_rest_outcome by (simp add: context_map_read_def)
qed (use assms map_tree_count_outcome map_run_prefix_outcome map_tree_outcome in \<open>simp_all add: context_map_read_def\<close>)


section \<open>Trivial block types\<close>

lemma shr_mod_64: "shr n 6 = n div 64" "n AND 63 = n mod 64"
  using take_bit_eq_mask [of 6 n] by (simp_all add: shr_div mask_eq_exp_minus_1 take_bit_eq_mod)

lemma bit_shl_one: "bit (shl 64 1 k) j \<longleftrightarrow> j = k \<and> k < 64"
  by (auto simp: shl_def bit_take_bit_iff bit_exp_iff)

lemma xor_fold_0: "fold (\<lambda>v error. error OR (v XOR sample)) vs e = (0::nat) \<longleftrightarrow> e = 0 \<and> (\<forall>v\<in>set vs. v = sample)"
proof (induction vs arbitrary: e)
  case (Cons v vs)
  have "(e OR (v XOR sample) = 0) = (e = 0 \<and> v = sample)"
    by (metis or_eq_0_iff xor_self_eq xor.assoc xor.right_neutral xor.left_neutral)
  with Cons show ?case by auto
qed simp

definition trivial_chunk :: "nat list \<Rightarrow> bool" where
  "trivial_chunk contexts \<longleftrightarrow> (\<forall>v\<in>set contexts. v = contexts ! 0)"

definition marked :: "nat list \<Rightarrow> nat \<Rightarrow> bool" where
  "marked t n \<longleftrightarrow> bit (t ! (n div 64)) (n mod 64)"

lemma mark_trivial_marked:
  assumes "length t = 4" "n < 256"
  shows "length (mark_trivial (block, cs) t) = 4 \<and> marked (mark_trivial (block, cs) t) n = (marked t n \<or> (n = block \<and> trivial_chunk cs))"
proof -
  have e: "(n div 64 = block div 64 \<and> n mod 64 = block mod 64) = (n = block)" by (metis div_mult_mod_eq)
  have "n div 64 < 4" using assms(2) by simp
  then show ?thesis using assms e
    by (auto simp: mark_trivial_def Let_def xor_fold_0 trivial_chunk_def marked_def shr_mod_64 nth_list_update bit_or_iff bit_shl_one [unfolded One_nat_def] split: if_splits)
qed

lemma mark_all_marked:
  assumes "length t = 4" "n < 256"
  shows "marked (fold mark_trivial (List.enumerate k cs) t) n = (marked t n \<or> (k \<le> n \<and> n < k + length cs \<and> trivial_chunk (cs ! (n - k))))"
  using assms(1)
proof (induction cs arbitrary: k t)
  case (Cons c cs)
  have "length (mark_trivial (k, c) t) = 4" using mark_trivial_marked [OF Cons.prems assms(2)] by simp
  from Cons.IH [OF this, of "Suc k"] mark_trivial_marked [OF Cons.prems assms(2), of k c]
  show ?case by (cases "n = k") (auto simp: nth_Cons')
qed auto

lemma chunks_nth:
  "length (chunks_of_64 xs) = length xs div 64 \<and> (n < length xs div 64 \<longrightarrow> chunks_of_64 xs ! n = take 64 (drop (64 * n) xs))"
proof (induction xs arbitrary: n rule: chunks_of_64.induct)
  case (1 xs)
  show ?case
  proof (cases "length xs < 64")
    case False
    then have l: "length xs div 64 = Suc ((length xs - 64) div 64)" by (simp add: le_div_geq)
    have IH: "length (chunks_of_64 (drop 64 xs)) = (length xs - 64) div 64"
      "\<And>n. n < (length xs - 64) div 64 \<Longrightarrow> chunks_of_64 (drop 64 xs) ! n = take 64 (drop (64 * n) (drop 64 xs))"
      using "1.IH" [OF False] by simp_all
    show ?thesis
    proof (cases n)
      case (Suc n')
      with False show ?thesis using IH(1) IH(2) [of n'] unfolding l by (subst (1 2) chunks_of_64.simps) (simp add: add.commute)
    qed (use False IH(1) l in \<open>subst (1 2) chunks_of_64.simps, simp\<close>)
  qed (subst (1 2) chunks_of_64.simps, simp)
qed

section \<open>Properties\<close>

text \<open>
  C6 (roundtrip). Context maps survive the trip. For a map of values below the number of clusters,
  between 1 and 256, the encoder writes its size, the move-to-front and zero-run form of the values
  and the prefix code for it; unless the output buffer overflows or the decoder runs out of memory,
  the decoder, from a reset map, reads back exactly the values and the number of trees and leaves
  the bits that follow.
\<close>

theorem context_map_roundtrip:
  assumes "\<forall>v\<in>set vs. v < n" "1 \<le> n" "n \<le> 256" "2 * length vs * 272 < 2 ^ 32 - 1" "arena_ok arena" "writer_ok w"
  shows "\<exists>arena' tree' w'. encode_context_map arena vs n tree w = Some (arena', tree', w') \<and> arena_ok arena' \<and>
    (\<not> overflowed w' \<longrightarrow> writer_ok w' \<and> (\<exists>bs. Bit_Writer.written w' = Bit_Writer.written w @ bs \<and> map_reads (length vs) bs vs n))"
proof (cases "n = 1")
  case True
  let ?f = "store_var_len_uint8 0"
  have run: "encode_context_map arena vs n tree w = Some (arena, tree, ?f w)" using True by (simp add: encode_context_map_def Let_def)
  have "writer_ok (?f w) \<and> Bit_Writer.written (?f w) = Bit_Writer.written w @ var_len_bits 0" if "\<not> overflowed (?f w)"
    using wr.emitsD [OF emits_var_len [of 0] assms(6) that] by simp
  moreover have "vs = replicate (length vs) 0" using assms(1) True by (simp add: list_eq_iff_nth_eq)
  ultimately show ?thesis using run single_map_read [of "length vs"] assms(5) True by auto
next
  case False
  then have "2 \<le> n" using assms(2) by simp
  then obtain arena' tree' f bs where st: "\<And>w. encode_context_map arena vs n tree w = Some (arena', tree', f w)" "wr.emits f bs"
    "map_reads (length vs) bs vs n" "arena_ok arena'"
    by (rule encode_context_map_read [OF assms(1) _ assms(3,5,4)]) (rule that)
  from wr.emitsD [OF st(2) assms(6)] st(1,3,4) show ?thesis by auto
qed

lemma arena_ok_new: "arena_ok map_arena_new"
  by (simp add: arena_ok_def map_arena_new_def)

theorem context_map_roundtrip_witness:
  "\<exists>arena' tree' w'. encode_context_map map_arena_new [0, 1, 1, 0] 2 [] (writer_new (replicate 32 0) 0) = Some (arena', tree', w') \<and> arena_ok arena'"
proof -
  have "writer_ok (writer_new (replicate 32 0) 0)" by (rule writer_new_zero) simp
  with context_map_roundtrip [of "[0, 1, 1, 0]" 2 map_arena_new] arena_ok_new show ?thesis by fastforce
qed

text \<open>
  C35 (equivalence). The shortcut for maps in which every block type has its own tree is the general
  format: unless the output buffer overflows or memory runs out, what
  \<open>store_trivial_context_map\<close> writes is read by the decoder as the map with \<open>2 ^ context_bits\<close> entries
  \<open>i\<close> for each type \<open>i\<close>.
\<close>

theorem trivial_map_exact:
  assumes "2 \<le> context_bits" "context_bits \<le> 16" "1 \<le> types" "types \<le> 256" "arena_ok arena" "writer_ok w"
  shows "\<exists>arena' tree' w'. store_trivial_context_map arena types context_bits tree w = Some (arena', tree', w') \<and> arena_ok arena' \<and>
    (\<not> overflowed w' \<longrightarrow> writer_ok w' \<and> (\<exists>bs. Bit_Writer.written w' = Bit_Writer.written w @ bs \<and>
       map_reads (types * 2 ^ context_bits) bs (concat (map (\<lambda>i. replicate (2 ^ context_bits) i) [0..<types])) types))"
proof (cases "types = 1")
  case True
  let ?f = "store_var_len_uint8 0"
  have run: "store_trivial_context_map arena types context_bits tree w = Some (arena, tree, ?f w)"
    using True by (simp add: store_trivial_context_map_def Let_def)
  have "writer_ok (?f w) \<and> Bit_Writer.written (?f w) = Bit_Writer.written w @ var_len_bits 0" if "\<not> overflowed (?f w)"
    using wr.emitsD [OF emits_var_len [of 0] assms(6) that] by simp
  then show ?thesis using run single_map_read [of "2 ^ context_bits"] assms(5) True by auto
next
  case False
  then have "2 \<le> types" using assms(3) by simp
  then obtain arena' tree' f bs where st: "\<And>w. store_trivial_context_map arena types context_bits tree w = Some (arena', tree', f w)" "wr.emits f bs"
    "map_reads (length (trivial_map context_bits types)) bs (trivial_map context_bits types) types" "arena_ok arena'"
    by (rule trivial_map_read [OF assms(1,2) _ assms(4,5)]) (rule that)
  have "length (trivial_map context_bits T) = T * 2 ^ context_bits" for T by (induction T) (simp_all add: trivial_map_def)
  with wr.emitsD [OF st(2) assms(6)] st(1,3,4) show ?thesis by (auto simp: trivial_map_def)
qed

theorem trivial_map_exact_witness:
  "\<exists>arena' tree' w'. store_trivial_context_map map_arena_new 3 2 [] (writer_new (replicate 64 0) 0) = Some (arena', tree', w') \<and> arena_ok arena'"
proof -
  have "writer_ok (writer_new (replicate 64 0) 0)" by (rule writer_new_zero) simp
  with trivial_map_exact [of 2 3 map_arena_new] arena_ok_new show ?thesis by fastforce
qed

text \<open>
  C34 (safety). No input makes the reader of a context map hand on a map that would be indexed out
  of range: from any state its invariant allows it stops with an error, waits with the invariant
  kept, or ends with exactly \<open>sz\<close> values, each below the number of trees, of which there are at most
  256.
\<close>

theorem accepted_map_safe:
  assumes "map_ok sz b c" "reader_ok s" "context_map_read alloc sz (c, b, s, m) = (Inr ready, c', b', s', m')"
  shows "reader_ok s' \<and> map_ok sz b' c' \<and> (ready \<longrightarrow> idle b' \<and> length (items (cm_values c')) = sz \<and> cm_trees c' \<le> 256 \<and>
    (\<forall>v\<in>set (items (cm_values c')). v < cm_trees c'))"
  using context_map_read_outcome [OF assms(2,1), of alloc m] assms(3)
  by (auto simp: read_map_outcome_def map_ok_def map_values_ok_def)

theorem accepted_map_safe_witness:
  "\<exists>c' b' s' m'. context_map_read Some 4 (context_map_default, builder_default, (bits_default, input_new [0] 0 None), memory_default) = (Inr True, c', b', s', m') \<and>
     length (items (cm_values c')) = 4"
proof -
  define s :: reader where "s = (bits_default, input_new [0] 0 None)"
  have rk: "reader_ok s" unfolding s_def by (rule reader_ok_new) simp
  have ok: "map_ok 4 builder_default context_map_default" using idle_default by (simp add: map_ok_def context_map_default_def)
  have "stream s = var_len_bits 0 @ [False, False, False, False, False, False, False]"
    unfolding s_def stream_new by (simp add: input_new_def Let_def bit_eval var_len_bits_def)
  from uint8_decodes [OF rk _ this] obtain s1 where s1: "uint8 s = (Inr (Some 0), s1)" by auto
  obtain v m1 where rs: "resize Some 1 0 vec_new 4 memory_default = (Inr (), v :: nat vec, m1)"
    by (simp add: resize_def reserve_def grow_target_def checked_add_def vec_new_def memory_default_def)
  obtain c' b' s' m' where run: "context_map_read Some 4 (context_map_default, builder_default, s, memory_default) = (Inr True, c', b', s', m')"
    using s1 rs by (simp add: context_map_read_def map_tree_count_def context_map_default_def vec_new_def)
  with accepted_map_safe [OF ok rk run] show ?thesis unfolding s_def by blast
qed

text \<open>
  C36 (functional). \<open>detect_trivial\<close> marks exactly the literal block types whose 64 contexts all
  select one tree, so that skipping the context computation for them changes nothing.
\<close>

theorem detect_trivial_exact:
  assumes "block < 256"
  shows "trivial (detect_trivial c) block \<longleftrightarrow> 64 * block + 64 \<le> length (items (cm_values c)) \<and>
    (\<forall>context<64. items (cm_values c) ! (64 * block + context) = items (cm_values c) ! (64 * block))"
proof -
  let ?v = "items (cm_values c)"
  have "shr block 6 AND 3 = block div 64" using assms take_bit_eq_mask [of 2 "block div 64"] by (simp add: shr_div mask_eq_exp_minus_1 take_bit_nat_eq_self)
  then have "trivial (detect_trivial c) block = marked (cm_trivial (detect_trivial c)) block"
    by (simp add: trivial_def marked_def shr_mod_64 shr_def bit_iff_odd_drop_bit and_one_eq odd_iff_mod_2_eq_one)
  also have "\<dots> = (marked (replicate 4 0) block \<or> (block < length (chunks_of_64 ?v) \<and> trivial_chunk (chunks_of_64 ?v ! block)))"
    using mark_all_marked [of "replicate 4 0" block 0 "chunks_of_64 ?v"] assms by (simp add: detect_trivial_def)
  also have "\<dots> = (block < length ?v div 64 \<and> trivial_chunk (take 64 (drop (64 * block) ?v)))"
    using chunks_nth [of ?v block] assms by (auto simp: marked_def)
  also have "\<dots> = (64 * block + 64 \<le> length ?v \<and> (\<forall>context<64. ?v ! (64 * block + context) = ?v ! (64 * block)))"
    by (auto simp: trivial_chunk_def all_set_conv_all_nth)
  finally show ?thesis .
qed

theorem detect_trivial_exact_witness:
  "trivial (detect_trivial (context_map_default\<lparr>cm_values := \<lparr>items = replicate 128 7, capacity = 128\<rparr>\<rparr>)) 1"
  using detect_trivial_exact [of 1 "context_map_default\<lparr>cm_values := \<lparr>items = replicate 128 7, capacity = 128\<rparr>\<rparr>"] by simp

end
