(* ===== verification/History_Ring.thy ===== *)
theory History_Ring
  imports Memory Bit_Writer
begin

unbundle bit_operations_syntax

text \<open>
  The decoder's history (\<open>decompressor/core/stream.rs\<close>): the sliding-window ring, its growth, the
  copies within it and the delivery of finished bytes to the caller. With \<open>linear\<close> the history is
  the caller's own segment, which never wraps. A position counts the bytes of the member; the mask
  turns it into an index. Loops that the code leaves only when a length has run out are partial
  functions, so that not returning is \<open>None\<close>; \<open>usize\<close> has 64 bits. \<open>u8x16\<close> of the vector crate
  loads and stores sixteen bytes: the load of the source is complete before the store.
\<close>

section \<open>The caller's output\<close>

datatype output_size = Unknown | Exact nat

record caller_output =
  out_bytes :: "u8 list"
  out_collect :: "nat option"
  out_linear :: bool
  out_produced :: nat
  out_total_before :: nat
  out_limit :: "nat option"
  out_exact :: output_size

definition delivers :: "bool \<Rightarrow> caller_output \<Rightarrow> bool" where
  "delivers linear out \<longleftrightarrow> out_collect out = None \<and> \<not> linear"

definition history_end :: "nat \<Rightarrow> nat \<Rightarrow> nat \<Rightarrow> nat" where
  "history_end pos remaining out_end = min (min (pos + remaining) (2 ^ 64 - 1)) out_end"

text \<open>\<open>self.collect.unwrap_or(self.bytes.len())\<close>\<close>

definition out_capacity :: "caller_output \<Rightarrow> nat" where
  "out_capacity out = (case out_collect out of Some n \<Rightarrow> n | None \<Rightarrow> length (out_bytes out))"

definition check_limit :: "nat option \<Rightarrow> nat \<Rightarrow> decode_error + unit" where
  "check_limit limit nxt = (case limit of Some l \<Rightarrow> if nxt > l then Inl (OutputLimitExceeded l) else Inr () | None \<Rightarrow> Inr ())"

definition check_exact :: "output_size \<Rightarrow> nat \<Rightarrow> decode_error + unit" where
  "check_exact sz nxt = (case sz of Exact expected \<Rightarrow> if nxt > expected then Inl (OutputSizeMismatch expected nxt) else Inr () | Unknown \<Rightarrow> Inr ())"

definition out_ready :: "caller_output \<Rightarrow> decode_error + bool" where
  "out_ready out =
     (case Option.bind (checked_add 64 (out_total_before out) (out_produced out)) (\<lambda>v. checked_add 64 v 1) of
        None \<Rightarrow> Inl SizeOverflow
      | Some nxt \<Rightarrow>
          (case check_limit (out_limit out) nxt of
             Inl e \<Rightarrow> Inl e
           | Inr _ \<Rightarrow>
               (case check_exact (out_exact out) nxt of
                  Inl e \<Rightarrow> Inl e
                | Inr _ \<Rightarrow> Inr (out_produced out < out_capacity out))))"

definition out_fast_end :: "caller_output \<Rightarrow> nat" where
  "out_fast_end out =
     (let budget = 2 ^ 64 - 1 - out_total_before out;
          budget1 = (case out_limit out of Some l \<Rightarrow> min budget (l - out_total_before out) | None \<Rightarrow> budget);
          budget2 = (case out_exact out of Exact n \<Rightarrow> min budget1 (n - out_total_before out) | Unknown \<Rightarrow> budget1)
      in min budget2 (out_capacity out))"

section \<open>Positions and delivery\<close>

definition is_power_of_two :: "nat \<Rightarrow> bool" where
  "is_power_of_two n \<longleftrightarrow> n \<noteq> 0 \<and> n AND (n - 1) = 0"

definition history_mask :: "nat \<Rightarrow> nat" where
  "history_mask len = (if is_power_of_two len then len - 1 else 2 ^ 64 - 1)"

definition flush_ring :: "bool \<Rightarrow> u8 list \<Rightarrow> nat \<Rightarrow> nat \<times> caller_output \<Rightarrow> nat \<times> caller_output" where
  "flush_ring linear ring pos = (\<lambda>(flushed, out).
     let pending = pos - flushed in
     if pending \<noteq> 0 then
       (let start = flushed AND history_mask (length ring);
            out1 = (if delivers linear out
                    then out\<lparr>out_bytes := store_at (out_bytes out) (out_produced out) (take pending (drop start ring))\<rparr> else out)
        in (pos, out1\<lparr>out_produced := out_produced out1 + pending\<rparr>))
     else (flushed, out))"

definition previous_bytes :: "u8 list \<Rightarrow> nat \<Rightarrow> u8 \<times> u8" where
  "previous_bytes ring pos =
     (if pos \<ge> 2 then
        (let mask = history_mask (length ring) in (ring ! ((pos - 1) AND mask), ring ! ((pos - 2) AND mask)))
      else if pos = 0 then (0, 0) else (ring ! 0, 0))"

section \<open>Copies\<close>

text \<open>\<open>ring.copy_within(src..src + n, dst)\<close>\<close>

definition copy_within :: "u8 list \<Rightarrow> nat \<Rightarrow> nat \<Rightarrow> nat \<Rightarrow> u8 list" where
  "copy_within ring src n dst = store_at ring dst (take n (drop src ring))"

definition byte_copy :: "u8 list \<Rightarrow> nat \<Rightarrow> nat \<Rightarrow> nat \<Rightarrow> u8 list" where
  "byte_copy ring dst src len = fold (\<lambda>i ring. ring[dst + i := ring ! (src + i)]) [0..<len] ring"

partial_function (option) double_copy :: "nat \<Rightarrow> nat \<Rightarrow> nat \<Rightarrow> nat \<Rightarrow> nat \<Rightarrow> u8 list \<Rightarrow> u8 list option" where
  "double_copy dst src len copied chunk ring =
     (if copied < len then
        (let n = min chunk (len - copied)
         in double_copy dst src len (copied + n) (shl 64 chunk 1) (copy_within ring src n (dst + copied)))
      else Some ring)"

definition copy_overlapping :: "u8 list \<Rightarrow> nat \<Rightarrow> nat \<Rightarrow> nat \<Rightarrow> nat \<Rightarrow> u8 list option" where
  "copy_overlapping ring dst src len distance =
     (if distance = 1 then Some (store_at ring dst (replicate len (ring ! src)))
      else if len \<le> 16 then Some (byte_copy ring dst src len)
      else double_copy dst src len 0 distance ring)"

text \<open>\<open>copy16\<close> and \<open>copy32\<close>: nothing is written unless both windows lie inside the ring.\<close>

definition copy_chunk :: "nat \<Rightarrow> u8 list \<Rightarrow> nat \<Rightarrow> nat \<Rightarrow> u8 list option" where
  "copy_chunk width ring src dst =
     (if src + width \<le> length ring \<and> dst + width \<le> length ring then Some (store_at ring dst (take width (drop src ring))) else None)"

definition copy16 :: "u8 list \<Rightarrow> nat \<Rightarrow> nat \<Rightarrow> u8 list option" where
  "copy16 = copy_chunk 16"

definition copy_piece :: "u8 list \<Rightarrow> nat \<Rightarrow> nat \<Rightarrow> nat \<Rightarrow> nat \<Rightarrow> u8 list option" where
  "copy_piece ring dst src piece distance =
     (if src < dst \<and> distance < piece then copy_overlapping ring dst src piece distance
      else (case (if piece \<le> 16 then copy16 ring src dst else None) of
              Some ring' \<Rightarrow> Some ring'
            | None \<Rightarrow> Some (copy_within ring src piece dst)))"

type_synonym delivery = "u8 list \<times> nat \<times> nat \<times> caller_output"

partial_function (option) copy_ring :: "bool \<Rightarrow> nat \<Rightarrow> nat \<Rightarrow> delivery \<Rightarrow> delivery option" where
  "copy_ring linear distance len st =
     (case st of (ring, pos, flushed, out) \<Rightarrow>
      if len \<noteq> 0 then
        (let sz = length ring; mask = history_mask sz;
             dst = pos AND mask; src = (pos - distance) AND mask;
             piece = min (min len (sz - dst)) (sz - src)
         in Option.bind (copy_piece ring dst src piece distance) (\<lambda>ring'.
            let pos' = pos + piece;
                (flushed', out') = (if dst + piece = sz then flush_ring linear ring' pos' (flushed, out) else (flushed, out))
            in copy_ring linear distance (len - piece) (ring', pos', flushed', out')))
      else Some st)"

text \<open>\<open>write_ring\<close> flushes only when the caller lends it the output.\<close>

partial_function (option) write_loop ::
    "bool \<Rightarrow> u8 list \<Rightarrow> u8 list \<times> nat \<times> (nat \<times> caller_output) option \<Rightarrow> (u8 list \<times> nat \<times> (nat \<times> caller_output) option) option" where
  "write_loop linear bytes st =
     (case st of (ring, pos, lent) \<Rightarrow>
      if bytes \<noteq> [] then
        (let sz = length ring; mask = history_mask sz;
             dst = pos AND mask; piece = min (length bytes) (sz - dst);
             ring' = store_at ring dst (take piece bytes); pos' = pos + piece
         in write_loop linear (drop piece bytes) (ring', pos', if dst + piece = sz then map_option (flush_ring linear ring' pos') lent else lent))
      else Some st)"

definition write_ring ::
    "bool \<Rightarrow> u8 list \<Rightarrow> u8 list \<times> nat \<times> (nat \<times> caller_output) option \<Rightarrow> (u8 list \<times> nat \<times> (nat \<times> caller_output) option) option" where
  "write_ring linear bytes st = (if bytes = [] then Some st else write_loop linear bytes st)"

section \<open>Growth\<close>

definition MIN_RING :: nat where "MIN_RING = 64"

definition checked_next_power_of_two :: "nat \<Rightarrow> nat option" where
  "checked_next_power_of_two n =
     (let p = (if n \<le> 1 then 1 else 2 ^ (log2_floor_non_zero (n - 1) + 1)) in if p < 2 ^ 64 then Some p else None)"

definition saturating_double :: "nat \<Rightarrow> nat" where
  "saturating_double n = min (n * 2) (2 ^ 64 - 1)"

definition ring_size :: "nat \<Rightarrow> nat \<Rightarrow> nat \<Rightarrow> nat" where
  "ring_size len window_size end' =
     min (max (max (case checked_next_power_of_two end' of Some p \<Rightarrow> p | None \<Rightarrow> 2 ^ 64 - 1) (saturating_double len)) MIN_RING) window_size"

definition grow_ring :: "(nat \<Rightarrow> nat option) \<Rightarrow> nat \<Rightarrow> nat \<Rightarrow> u8 vec \<times> memory \<Rightarrow> (decode_error + unit) \<times> u8 vec \<times> memory" where
  "grow_ring alloc window_size end' = (\<lambda>(ring, m).
     let len = length (items ring) in
     if end' \<le> len \<or> len \<ge> window_size then (Inr (), ring, m)
     else resize alloc 1 0 ring (ring_size len window_size end') m)"

definition ensure_ring :: "(nat \<Rightarrow> nat option) \<Rightarrow> nat \<Rightarrow> nat \<Rightarrow> u8 vec \<times> memory \<Rightarrow> (decode_error + unit) \<times> u8 vec \<times> memory" where
  "ensure_ring alloc window_size end' = (\<lambda>(ring, m).
     if end' \<le> length (items ring) then (Inr (), ring, m) else grow_ring alloc window_size end' (ring, m))"

definition repeat_grow :: "(nat \<Rightarrow> nat option) \<Rightarrow> nat \<Rightarrow> nat \<Rightarrow> u8 \<Rightarrow> nat \<Rightarrow> u8 vec \<times> memory \<Rightarrow> (decode_error + nat) \<times> u8 vec \<times> memory" where
  "repeat_grow alloc window_size pos byte end' = (\<lambda>(ring, m).
     let old_len = length (items ring); desired = ring_size old_len window_size end' in
     case reserve alloc 1 ring desired m of
       (Inl e, ring', m') \<Rightarrow> (Inl e, ring', m')
     | (Inr _, ring', m') \<Rightarrow>
         let filled = take pos (items ring') @ replicate (old_len - pos) byte
         in (Inr desired, ring'\<lparr>items := pad_to desired byte filled\<rparr>, m'))"

section \<open>The history a ring stands for\<close>

text \<open>The copy the format prescribes, on the whole history of the member.\<close>

fun lz_copy :: "u8 list \<Rightarrow> nat \<Rightarrow> nat \<Rightarrow> u8 list" where
  "lz_copy h d 0 = h"
| "lz_copy h d (Suc n) = lz_copy (h @ [h ! (length h - d)]) d n"

lemma length_lz_copy [simp]: "length (lz_copy h d n) = length h + n"
  by (induction n arbitrary: h) simp_all

lemma take_lz_copy: "take (length h) (lz_copy h d n) = h"
proof (induction n arbitrary: h)
  case (Suc n)
  have "take (length h) (take (length h + 1) (lz_copy (h @ [h ! (length h - d)]) d n)) = h" using Suc [of "h @ [h ! (length h - d)]"] by simp
  then show ?case by (simp add: min_def)
qed simp

lemma nth_lz_copy_old: "p < length h \<Longrightarrow> lz_copy h d n ! p = h ! p"
  by (metis nth_take take_lz_copy)

lemma nth_lz_copy_new:
  assumes "0 < d" "d \<le> length h" "length h \<le> p" "p < length h + n"
  shows "lz_copy h d n ! p = lz_copy h d n ! (p - d)"
  using assms
proof (induction n arbitrary: h)
  case (Suc n)
  let ?h = "h @ [h ! (length h - d)]"
  show ?case
  proof (cases "p = length h")
    case True
    have "lz_copy ?h d n ! p = ?h ! p" "lz_copy ?h d n ! (p - d) = ?h ! (p - d)" using True Suc.prems by (intro nth_lz_copy_old; simp)+
    then show ?thesis using True Suc.prems by (simp add: nth_append)
  next
    case False
    then show ?thesis using Suc.IH [of ?h] Suc.prems by simp
  qed
qed simp

lemma lz_copy_add: "lz_copy h d (m + n) = lz_copy (lz_copy h d m) d n"
  by (induction m arbitrary: h) simp_all

section \<open>Stores, windows and overlapping copies\<close>

lemma nth_store_at:
  assumes "a + length xs \<le> length st" "i < length st"
  shows "store_at st a xs ! i = (if a \<le> i \<and> i < a + length xs then xs ! (i - a) else st ! i)"
  using assms by (auto simp: store_at_def nth_append min_def)

lemma store_at_store_at:
  assumes "a + length xs + length ys \<le> length st"
  shows "store_at (store_at st a xs) (a + length xs) ys = store_at st a (xs @ ys)"
  using assms by (intro nth_equalityI) (auto simp: nth_store_at nth_append)

definition repeats :: "u8 list \<Rightarrow> nat \<Rightarrow> nat \<Rightarrow> nat \<Rightarrow> u8 list \<Rightarrow> bool" where
  "repeats ring dst src len ring' \<longleftrightarrow> length ring' = length ring \<and>
     (\<forall>i<length ring. i < dst \<or> dst + len \<le> i \<longrightarrow> ring' ! i = ring ! i) \<and> (\<forall>j<len. ring' ! (dst + j) = ring' ! (src + j))"

lemma repeats_unique:
  assumes "repeats ring dst src len r1" "repeats ring dst src len r2" "src < dst" "dst + len \<le> length ring"
  shows "r1 = r2"
proof (rule nth_equalityI)
  show "length r1 = length r2" using assms(1,2) by (simp add: repeats_def)
  fix i assume "i < length r1"
  then have "i < length ring" using assms(1) by (simp add: repeats_def)
  then show "r1 ! i = r2 ! i"
  proof (induction i rule: less_induct)
    case (less i)
    show ?case
    proof (cases "i < dst \<or> dst + len \<le> i")
      case True
      then show ?thesis using assms(1,2) less.prems by (auto simp: repeats_def)
    next
      case False
      then obtain j where j: "i = dst + j" "j < len" using le_Suc_ex by (metis add_less_cancel_left not_le)
      have "r1 ! (src + j) = r2 ! (src + j)" using less j assms(3,4) by simp
      then show ?thesis using assms(1,2) j by (simp add: repeats_def)
    qed
  qed
qed

lemma byte_copy_Suc: "byte_copy ring dst src (Suc n) = (byte_copy ring dst src n)[dst + n := byte_copy ring dst src n ! (src + n)]"
  by (simp add: byte_copy_def)

lemma byte_copy_repeats:
  assumes "src < dst" "dst + len \<le> length ring"
  shows "repeats ring dst src len (byte_copy ring dst src len)"
  using assms(2)
proof (induction len)
  case 0
  then show ?case by (simp add: repeats_def byte_copy_def)
next
  case (Suc n)
  then have IH: "repeats ring dst src n (byte_copy ring dst src n)" by simp
  then show ?case using Suc.prems assms(1) unfolding byte_copy_Suc repeats_def by (auto simp: nth_list_update less_Suc_eq)
qed

definition periodic :: "u8 list \<Rightarrow> nat \<Rightarrow> nat \<Rightarrow> nat \<Rightarrow> bool" where
  "periodic ring src d n \<longleftrightarrow> (\<forall>k<n. ring ! (src + k) = ring ! (src + k mod d))"

lemma periodic_repeats:
  assumes "0 < d" "src + d = dst" "periodic ring' src d (len + d)" "length ring' = length ring"
    and "\<forall>i<length ring. i < dst \<or> dst + len \<le> i \<longrightarrow> ring' ! i = ring ! i"
  shows "repeats ring dst src len ring'"
  unfolding repeats_def
proof (intro conjI allI impI)
  fix j assume "j < len"
  then have "ring' ! (src + (j + d)) = ring' ! (src + (j + d) mod d)" "ring' ! (src + j) = ring' ! (src + j mod d)"
    using assms(3) unfolding periodic_def by (metis add_less_cancel_right, metis add_less_cancel_right less_trans less_add_same_cancel1 assms(1))
  moreover have "dst + j = src + (j + d)" using assms(2) by simp
  ultimately show "ring' ! (dst + j) = ring' ! (src + j)" by (simp only: mod_add_self2)
qed (use assms(4,5) in auto)

lemma copy_within_periodic:
  assumes d: "0 < d" "src + d = dst" "d dvd copied" and p: "periodic ring src d (copied + d)" and n: "n \<le> copied + d"
    and room: "dst + copied + n \<le> length ring"
  shows "periodic (copy_within ring src n (dst + copied)) src d (copied + n + d)"
    "length (copy_within ring src n (dst + copied)) = length ring"
    "\<And>i. i < length ring \<Longrightarrow> i < dst + copied \<or> dst + copied + n \<le> i \<Longrightarrow> copy_within ring src n (dst + copied) ! i = ring ! i"
proof -
  let ?r = "copy_within ring src n (dst + copied)"
  have tk: "length (take n (drop src ring)) = n" using n room d(2) by simp
  have nth: "?r ! i = (if dst + copied \<le> i \<and> i < dst + copied + n then ring ! (src + (i - (dst + copied))) else ring ! i)" if "i < length ring" for i
  proof -
    have "?r ! i = (if dst + copied \<le> i \<and> i < dst + copied + n then take n (drop src ring) ! (i - (dst + copied)) else ring ! i)"
      using nth_store_at [of "dst + copied" "take n (drop src ring)" ring i] that tk room by (simp add: copy_within_def)
    then show ?thesis using d(2) room n by auto
  qed
  show "length ?r = length ring" using room tk by (simp add: copy_within_def)
  show "?r ! i = ring ! i" if "i < length ring" "i < dst + copied \<or> dst + copied + n \<le> i" for i using nth [OF that(1)] that(2) by auto
  show "periodic ?r src d (copied + n + d)"
    unfolding periodic_def
  proof (intro allI impI)
    fix k assume k: "k < copied + n + d"
    have "k mod d < d" using d(1) by simp
    then have base: "?r ! (src + k mod d) = ring ! (src + k mod d)" using nth [of "src + k mod d"] d(2) room by auto
    show "?r ! (src + k) = ?r ! (src + k mod d)"
    proof (cases "k < copied + d")
      case True
      then show ?thesis using nth [of "src + k"] p d(2) room base k by (auto simp: periodic_def)
    next
      case False
      define q where "q = k - d - copied"
      have q: "q < n" "k = q + (d + copied)" using False k by (simp_all add: q_def)
      have "(d + copied) mod d = 0" using d(3) by (simp add: dvd_eq_mod_eq_0)
      then have "k mod d = q mod d" unfolding q(2) by (metis add.right_neutral mod_add_right_eq)
      moreover have "?r ! (src + k) = ring ! (src + q)" using nth [of "src + k"] q d(2) room by auto
      moreover have "ring ! (src + q) = ring ! (src + q mod d)" using p q(1) n by (simp add: periodic_def)
      ultimately show ?thesis using base by simp
    qed
  qed
qed

lemma double_copy_repeats:
  assumes d: "0 < d" "src + d = dst" and room: "dst + len \<le> length ring0" "length ring0 < 2 ^ 63"
    and "copied \<le> len" "copied < len \<longrightarrow> d dvd copied \<and> chunk = copied + d" "periodic ring src d (copied + d)" "length ring = length ring0"
    and "\<forall>i<length ring0. i < dst \<or> dst + len \<le> i \<longrightarrow> ring ! i = ring0 ! i"
  shows "\<exists>r. double_copy dst src len copied chunk ring = Some r \<and> repeats ring0 dst src len r"
  using assms(5-)
proof (induction "len - copied" arbitrary: copied chunk ring rule: less_induct)
  case less
  show ?case
  proof (cases "copied < len")
    case False
    then have "copied = len" using less.prems(1) by simp
    then have "repeats ring0 dst src len ring" using less.prems by (intro periodic_repeats [OF d]) simp_all
    then show ?thesis using False by (subst double_copy.simps) simp
  next
    case True
    define n where "n = min chunk (len - copied)"
    have ch: "d dvd copied" "chunk = copied + d" using less.prems(2) True by simp_all
    have n: "0 < n" "n \<le> len - copied" "n \<le> copied + d" using True d(1) ch(2) by (auto simp: n_def)
    have "chunk * 2 ^ 1 < 2 ^ 64" using ch(2) d room True by simp
    then have sh: "shl 64 chunk 1 = 2 * chunk" using shl_exact [of chunk 1 64] by simp
    have "dst + copied + n \<le> length ring" using n room less.prems(4) True by simp
    note cw = copy_within_periodic [OF d ch(1) less.prems(3) n(3) this]
    have "\<exists>r. double_copy dst src len (copied + n) (2 * chunk) (copy_within ring src n (dst + copied)) = Some r \<and> repeats ring0 dst src len r"
    proof (rule less.hyps)
      show "len - (copied + n) < len - copied" "copied + n \<le> len" using n True by simp_all
      show "copied + n < len \<longrightarrow> d dvd copied + n \<and> 2 * chunk = copied + n + d"
      proof
        assume "copied + n < len"
        then have "n = chunk" by (auto simp: n_def)
        then show "d dvd copied + n \<and> 2 * chunk = copied + n + d" using ch by simp
      qed
      show "\<forall>i<length ring0. i < dst \<or> dst + len \<le> i \<longrightarrow> copy_within ring src n (dst + copied) ! i = ring0 ! i"
      proof (intro allI impI)
        fix i assume i: "i < length ring0" "i < dst \<or> dst + len \<le> i"
        then have "i < dst + copied \<or> dst + copied + n \<le> i" using n True by auto
        then show "copy_within ring src n (dst + copied) ! i = ring0 ! i" using cw(3) [of i] i less.prems(4,5) by simp
      qed
    qed (use cw less.prems in simp_all)
    then show ?thesis using True sh by (subst double_copy.simps) (simp add: n_def Let_def)
  qed
qed

lemma copy_overlapping_repeats:
  assumes d: "0 < d" "src + d = dst" and room: "dst + len \<le> length ring" "length ring < 2 ^ 63"
  obtains r where "copy_overlapping ring dst src len d = Some r" "repeats ring dst src len r"
proof -
  consider (one) "d = 1" | (short) "d \<noteq> 1" "len \<le> 16" | (long) "d \<noteq> 1" "\<not> len \<le> 16" by blast
  then show thesis
  proof cases
    case one
    let ?r = "store_at ring dst (replicate len (ring ! src))"
    have nth: "?r ! i = (if dst \<le> i \<and> i < dst + len then ring ! src else ring ! i)" if "i < length ring" for i
      using nth_store_at [of dst "replicate len (ring ! src)" ring i] that room by auto
    have "repeats ring dst src len ?r" unfolding repeats_def
    proof (intro conjI allI impI)
      fix j assume "j < len"
      then show "?r ! (dst + j) = ?r ! (src + j)" using nth [of "dst + j"] nth [of "src + j"] room d one by (cases "j = 0") auto
    qed (use nth room in auto)
    then show thesis using that one by (simp add: copy_overlapping_def)
  next
    case short
    have "src < dst" using d by simp
    then show thesis using that byte_copy_repeats [OF _ room(1)] short by (simp add: copy_overlapping_def)
  next
    case long
    have "periodic ring src d (0 + d)" by (simp add: periodic_def)
    then show thesis using that double_copy_repeats [OF d room, of 0 d ring] long by (auto simp: copy_overlapping_def)
  qed
qed

section \<open>The ring invariant\<close>

text \<open>\<open>holds reach ring h\<close>: of the history \<open>h\<close>, the last \<open>reach\<close> bytes are in their slots.
  \<open>intact flushed ring h\<close>: so are all bytes from \<open>flushed\<close> on, and they do not cross the ring end.
  \<open>room_for reach ring end\<close>: the indices of positions before \<open>end\<close> are their residues, and up to
  \<open>end\<close> either no slot is reused or a reused slot is at least sixteen further back than the reach.\<close>

definition holds :: "nat \<Rightarrow> u8 list \<Rightarrow> u8 list \<Rightarrow> bool" where
  "holds reach ring h \<longleftrightarrow> (\<forall>p<length h. length h \<le> p + reach \<longrightarrow> ring ! (p mod length ring) = h ! p)"

definition intact :: "nat \<Rightarrow> u8 list \<Rightarrow> u8 list \<Rightarrow> bool" where
  "intact flushed ring h \<longleftrightarrow> flushed \<le> length h \<and>
     (flushed < length h \<longrightarrow> flushed mod length ring + (length h - flushed) < length ring) \<and>
     (\<forall>p<length h. flushed \<le> p \<longrightarrow> ring ! (p mod length ring) = h ! p)"

definition room_for :: "nat \<Rightarrow> u8 list \<Rightarrow> nat \<Rightarrow> bool" where
  "room_for reach ring fin \<longleftrightarrow> 0 < length ring \<and> length ring < 2 ^ 63 \<and> fin < 2 ^ 64 \<and>
     (fin \<le> length ring \<or> is_power_of_two (length ring) \<and> reach + 16 \<le> length ring)"

lemma mod_add_less: "a mod s + j < s \<Longrightarrow> (a + j) mod s = a mod s + (j::nat)"
  using mod_add_left_eq [of a s j] by simp

lemma is_power_of_two_iff: "is_power_of_two n \<longleftrightarrow> (\<exists>k. n = 2 ^ k)"
proof
  assume n: "is_power_of_two n"
  obtain k where k: "2 ^ k \<le> n" "n < 2 ^ Suc k"
    using n ex_power_ivl1 [of 2 n] by (auto simp: is_power_of_two_def)
  have "\<not> 2 ^ k < n"
  proof
    assume "2 ^ k < n"
    then have "n div 2 ^ k = 1" "(n - 1) div 2 ^ k = 1" using k by (simp_all add: div_nat_eqI)
    then have "bit n k" "bit (n - 1) k" by (simp_all only: bit_iff_odd odd_one not_False_eq_True)
    then have "bit (n AND (n - 1)) k" by (simp add: bit_and_iff)
    then show False using n by (simp add: is_power_of_two_def)
  qed
  then show "\<exists>k. n = 2 ^ k" using k(1) by (metis le_neq_implies_less)
next
  assume "\<exists>k. n = 2 ^ k"
  then obtain k where k: "n = 2 ^ k" by blast
  then have "n AND (n - 1) = 0" by (simp only: AND_mask_nat mod_self)
  then show "is_power_of_two n" using k by (simp add: is_power_of_two_def)
qed

lemma history_index:
  assumes "room_for reach ring fin" "p < fin"
  shows "p AND history_mask (length ring) = p mod length ring"
proof (cases "is_power_of_two (length ring)")
  case True
  then obtain k where k: "length ring = 2 ^ k" by (auto simp: is_power_of_two_iff)
  have "history_mask (length ring) = length ring - 1" using True by (simp add: history_mask_def)
  then show ?thesis by (simp only: k AND_mask_nat)
next
  case False
  then have "p < length ring" "p < 2 ^ 64" using assms by (auto simp: room_for_def)
  moreover have "history_mask (length ring) = 2 ^ 64 - 1" using False by (simp add: history_mask_def)
  ultimately show ?thesis by (simp only: AND_mask_nat mod_less)
qed

lemma write_step:
  assumes room: "room_for reach ring (length h + n)" and hd: "holds reach ring h" and it: "intact flushed ring h"
    and n: "0 < n" "length h mod length ring + n \<le> length ring"
    and h': "take (length h) h' = h" "length h' = length h + n"
    and r: "length ring' = length ring" "\<forall>j<n. ring' ! (length h mod length ring + j) = h' ! (length h + j)"
    and other: "\<forall>i<length ring. i < length h mod length ring \<or> length h mod length ring + max 16 n \<le> i \<longrightarrow> ring' ! i = ring ! i"
  shows "holds reach ring' h'" "\<And>p. flushed \<le> p \<Longrightarrow> p < length h' \<Longrightarrow> ring' ! (p mod length ring) = h' ! p"
    "flushed mod length ring + (length h' - flushed) = length h mod length ring + n \<or> flushed = length h"
    "flushed < length h' \<and> flushed mod length ring + (length h' - flushed) \<le> length ring"
proof -
  let ?sz = "length ring" and ?pos = "length h"
  let ?dst = "?pos mod ?sz"
  have sz: "0 < ?sz" using room by (simp add: room_for_def)
  have nw: "(?pos + j) mod ?sz = ?dst + j" if "j < n" for j
  proof -
    have "?dst + j < ?sz" using that n by simp
    then show ?thesis by (rule mod_add_less)
  qed
  have new: "ring' ! (p mod ?sz) = h' ! p" if lo: "?pos \<le> p" and hi: "p < length h'" for p
  proof -
    obtain j where j: "p = ?pos + j" using le_Suc_ex [OF lo] by blast
    then have jn: "j < n" using hi h'(2) by linarith
    show ?thesis unfolding j nw [OF jn] using r(2) jn by blast
  qed
  have old: "h' ! p = h ! p" if "p < ?pos" for p using h'(1) that by (metis nth_take)
  show "holds reach ring' h'"
    unfolding holds_def
  proof (intro allI impI)
    fix p assume p: "p < length h'" "length h' \<le> p + reach"
    show "ring' ! (p mod length ring') = h' ! p"
    proof (cases "?pos \<le> p")
      case False
      have "p mod ?sz < ?dst \<or> ?dst + max 16 n \<le> p mod ?sz"
      proof (cases "?pos + n \<le> ?sz")
        case True
        then show ?thesis using False n(1) by simp
      next
        case F2: False
        then have rs: "reach + 16 \<le> ?sz" using room by (simp add: room_for_def)
        show ?thesis
        proof (rule ccontr)
          assume "\<not> ?thesis"
          then obtain i where i: "p mod ?sz = ?dst + i" "i < max 16 n" by (metis le_Suc_ex not_le add_less_cancel_left)
          have lt: "?dst + i < ?sz" using i(1) sz by (metis mod_less_divisor)
          then have "(?pos + i) mod ?sz = p mod ?sz" using i(1) mod_add_less by simp
          moreover have "p < ?pos + i" using False by simp
          ultimately have "?sz dvd ?pos + i - p" by (metis less_imp_le mod_eq_dvd_iff_nat)
          then have "?sz \<le> ?pos + i - p" using \<open>p < ?pos + i\<close> by (intro dvd_imp_le) simp_all
          moreover have "i < 16 \<or> i < n" using i(2) by (auto simp: max_def split: if_splits)
          ultimately show False using p(2) h'(2) rs n(1) by linarith
        qed
      qed
      moreover have "p mod ?sz < ?sz" using sz by simp
      ultimately have "ring' ! (p mod ?sz) = ring ! (p mod ?sz)" using other by blast
      moreover have "ring ! (p mod ?sz) = h ! p" using hd False p h'(2) by (simp add: holds_def)
      ultimately show ?thesis using old False r(1) by simp
    qed (use new p r(1) in simp)
  qed
  have cross: "flushed mod ?sz + (?pos - flushed) = ?dst" if "flushed < ?pos"
  proof -
    have "flushed mod ?sz + (?pos - flushed) < ?sz" "flushed \<le> ?pos" using it that by (simp_all add: intact_def)
    then show ?thesis using mod_add_less [of flushed ?sz "?pos - flushed"] by simp
  qed
  have fl: "flushed \<le> ?pos" using it by (simp add: intact_def)
  show "flushed mod ?sz + (length h' - flushed) = ?dst + n \<or> flushed = ?pos" using cross h'(2) fl by (cases "flushed = ?pos") auto
  show "flushed < length h' \<and> flushed mod ?sz + (length h' - flushed) \<le> ?sz" using cross h'(2) fl n by (cases "flushed = ?pos") auto
  show "ring' ! (p mod ?sz) = h' ! p" if p: "flushed \<le> p" "p < length h'" for p
  proof (cases "?pos \<le> p")
    case False
    then have "flushed < ?pos" using p by simp
    note c = cross [OF this]
    have "flushed mod ?sz + (p - flushed) < ?dst" using c False p(1) by simp
    moreover have "flushed mod ?sz + (p - flushed) < ?sz" using calculation sz by (meson less_trans mod_less_divisor)
    then have "p mod ?sz = flushed mod ?sz + (p - flushed)" using p(1) mod_add_less [of flushed ?sz "p - flushed"] by simp
    ultimately have "p mod ?sz < ?dst" by simp
    moreover have "p mod ?sz < ?sz" using sz by simp
    ultimately have "ring' ! (p mod ?sz) = ring ! (p mod ?sz)" using other by blast
    moreover have "ring ! (p mod ?sz) = h ! p" using it False p by (simp add: intact_def)
    ultimately show ?thesis using old False by simp
  qed (use new p in simp)
qed

text \<open>What delivering some more bytes of the history does to the caller's output.\<close>

definition deliver :: "bool \<Rightarrow> u8 list \<Rightarrow> caller_output \<Rightarrow> caller_output" where
  "deliver linear xs out = (if delivers linear out then out\<lparr>out_bytes := store_at (out_bytes out) (out_produced out) xs\<rparr> else out)
     \<lparr>out_produced := out_produced out + length xs\<rparr>"

definition fits_out :: "bool \<Rightarrow> nat \<Rightarrow> caller_output \<Rightarrow> bool" where
  "fits_out linear n out \<longleftrightarrow> (delivers linear out \<longrightarrow> out_produced out + n \<le> length (out_bytes out))"

definition segment :: "u8 list \<Rightarrow> nat \<Rightarrow> nat \<Rightarrow> u8 list" where
  "segment h a b = take (b - a) (drop a h)"

lemma deliver_Nil [simp]: "delivers linear out \<longrightarrow> out_produced out \<le> length (out_bytes out) \<Longrightarrow> deliver linear [] out = out"
  by (auto simp: deliver_def store_at_def)

lemma deliver_none: "fits_out linear n out \<Longrightarrow> deliver linear [] out = out"
  by (rule deliver_Nil) (auto simp: fits_out_def)

lemma segment_none [simp]: "segment h a a = []"
  by (simp add: segment_def)

lemma deliver_deliver:
  assumes "fits_out linear (length xs + length ys) out"
  shows "deliver linear ys (deliver linear xs out) = deliver linear (xs @ ys) out"
  using assms store_at_store_at [of "out_produced out" xs ys "out_bytes out"] by (auto simp: deliver_def fits_out_def delivers_def)

lemma fits_deliver: "fits_out linear (length xs + n) out \<Longrightarrow> fits_out linear n (deliver linear xs out)"
  by (auto simp: fits_out_def deliver_def delivers_def)

lemma length_segment: "a \<le> b \<Longrightarrow> b \<le> length h \<Longrightarrow> length (segment h a b) = b - a"
  by (simp add: segment_def)

lemma segment_segment: "a \<le> b \<Longrightarrow> b \<le> c \<Longrightarrow> segment h a b @ segment h b c = segment h a c"
  using take_add [of "b - a" "c - b" "drop a h"] by (simp add: segment_def add.commute)

lemma segment_prefix: "take (length h) h' = h \<Longrightarrow> b \<le> length h \<Longrightarrow> segment h a b = segment h' a b"
  unfolding segment_def by (metis drop_take min.absorb2 diff_le_mono take_take min.commute)

lemma flush_delivers:
  assumes room: "0 < length ring" and "flushed \<le> length h" "fits_out linear (length h - flushed) out"
    and idx: "flushed AND history_mask (length ring) = flushed mod length ring" and "flushed mod length ring + (length h - flushed) \<le> length ring"
    and slots: "\<And>p. flushed \<le> p \<Longrightarrow> p < length h \<Longrightarrow> ring ! (p mod length ring) = h ! p"
  shows "flush_ring linear ring (length h) (flushed, out) = (length h, deliver linear (segment h flushed (length h)) out)"
proof (cases "flushed = length h")
  case True
  then show ?thesis using assms(3) by (simp add: flush_ring_def segment_def fits_out_def)
next
  case False
  let ?n = "length h - flushed" and ?s = "flushed mod length ring"
  have "take ?n (drop ?s ring) = segment h flushed (length h)"
  proof (rule nth_equalityI)
    show "length (take ?n (drop ?s ring)) = length (segment h flushed (length h))" using assms(2,5) by (simp add: segment_def)
    fix i assume "i < length (take ?n (drop ?s ring))"
    then have i: "i < ?n" by simp
    then have "?s + i < length ring" using assms(5) by simp
    from mod_add_less [OF this] slots [of "flushed + i"] i have "ring ! (?s + i) = h ! (flushed + i)" by simp
    then show "take ?n (drop ?s ring) ! i = segment h flushed (length h) ! i" using i \<open>?s + i < length ring\<close> by (simp add: segment_def)
  qed
  then show ?thesis using False assms(2) idx by (simp add: flush_ring_def Let_def deliver_def length_segment delivers_def)
qed

section \<open>One piece of a copy\<close>

lemma source_bytes:
  assumes hd: "holds reach ring h" and d: "0 < d" "d \<le> length h" "d \<le> reach"
    and j: "(length h - d) mod length ring + j < length ring" "j < d" "j < n"
  shows "ring ! ((length h - d) mod length ring + j) = lz_copy h d n ! (length h + j)"
proof -
  have p: "length h - d + j < length h" "length h \<le> length h - d + j + reach" using d j(2) by simp_all
  have "ring ! ((length h - d) mod length ring + j) = h ! (length h - d + j)"
    using hd p mod_add_less [OF j(1)] unfolding holds_def by metis
  also have "\<dots> = lz_copy h d n ! (length h - d + j)" using p(1) by (simp add: nth_lz_copy_old)
  also have "\<dots> = lz_copy h d n ! (length h + j)" using nth_lz_copy_new [OF d(1,2), of "length h + j" n] j(3) d(2) by simp
  finally show ?thesis .
qed

lemma copy_piece_done:
  assumes hd: "holds reach ring h" and d: "0 < d" "d \<le> length h" "d \<le> reach" and sz: "0 < length ring" "length ring < 2 ^ 63"
    and dst: "dst = length h mod length ring" and src: "src = (length h - d) mod length ring"
    and n: "0 < n" "n \<le> length ring - dst" "n \<le> length ring - src"
  shows "\<exists>r. copy_piece ring dst src n d = Some r \<and> length r = length ring \<and> (\<forall>j<n. r ! (dst + j) = lz_copy h d n ! (length h + j)) \<and>
    (\<forall>i<length ring. i < dst \<or> dst + max 16 n \<le> i \<longrightarrow> r ! i = ring ! i)"
proof -
  have lt: "dst < length ring" "src < length ring" using sz(1) dst src by simp_all
  have apart: "dst = (src + d) mod length ring" using dst src d(2) by (simp add: mod_add_left_eq)
  have bytes: "ring ! (src + j) = lz_copy h d n ! (length h + j)" if "j < d" "j < n" for j
    using source_bytes [OF hd d, of j n] that n(3) src by simp
  show ?thesis
  proof (cases "src < dst \<and> d < n")
    case True
    then have "src + d < length ring" using n(3) by linarith
    then have sd: "src + d = dst" using apart by simp
    have "dst + n \<le> length ring" using n(2) lt by simp
    then obtain r where r: "copy_overlapping ring dst src n d = Some r" "repeats ring dst src n r"
      by (rule copy_overlapping_repeats [OF d(1) sd _ sz(2)]) (rule that)
    have "r ! (dst + j) = lz_copy h d n ! (length h + j)" if "j < n" for j
      using that
    proof (induction j rule: less_induct)
      case (less j)
      have rep: "r ! (dst + j) = r ! (src + j)" using r(2) less.prems by (simp add: repeats_def)
      show ?case
      proof (cases "j < d")
        case True
        then have "r ! (src + j) = ring ! (src + j)" using r(2) sd lt by (simp add: repeats_def)
        then show ?thesis using rep bytes True less.prems by simp
      next
        case False
        then have "src + j = dst + (j - d)" "j - d < j" "j - d < n" using sd d(1) less.prems by simp_all
        then have "r ! (src + j) = lz_copy h d n ! (length h + (j - d))" using less.IH by simp
        moreover have "length h + (j - d) = length h + j - d" using False by simp
        ultimately show ?thesis using rep nth_lz_copy_new [OF d(1,2), of "length h + j" n] less.prems by simp
      qed
    qed
    then show ?thesis using True r by (auto simp: copy_piece_def repeats_def)
  next
    case False
    have nd: "n \<le> d"
    proof (cases "src < dst")
      case F2: False
      have "length ring \<le> src + d"
      proof (rule ccontr)
        assume "\<not> ?thesis"
        then show False using apart F2 d(1) by simp
      qed
      then show ?thesis using n(3) by simp
    qed (use False in simp)
    have snap: "length (store_at ring dst (take m (drop src ring))) = length ring \<and>
        (\<forall>j<n. store_at ring dst (take m (drop src ring)) ! (dst + j) = lz_copy h d n ! (length h + j)) \<and>
        (\<forall>i<length ring. i < dst \<or> dst + max 16 n \<le> i \<longrightarrow> store_at ring dst (take m (drop src ring)) ! i = ring ! i)"
      if m: "n \<le> m" "m \<le> max 16 n" "dst + m \<le> length ring" "src + m \<le> length ring" for m
    proof (intro conjI allI impI)
      have l: "length (take m (drop src ring)) = m" using m(4) by simp
      have nth: "store_at ring dst (take m (drop src ring)) ! i =
          (if dst \<le> i \<and> i < dst + m then take m (drop src ring) ! (i - dst) else ring ! i)" if "i < length ring" for i
        using nth_store_at [of dst "take m (drop src ring)" ring i] that l m(3) by simp
      show "length (store_at ring dst (take m (drop src ring))) = length ring" using l m(3) by simp
      show "store_at ring dst (take m (drop src ring)) ! (dst + j) = lz_copy h d n ! (length h + j)" if "j < n" for j
        using nth [of "dst + j"] that m bytes [of j] nd by simp
      show "store_at ring dst (take m (drop src ring)) ! i = ring ! i" if "i < length ring" "i < dst \<or> dst + max 16 n \<le> i" for i
        using nth [OF that(1)] that(2) m(2) by auto
    qed
    show ?thesis
    proof (cases "n \<le> 16 \<and> src + 16 \<le> length ring \<and> dst + 16 \<le> length ring")
      case True
      then have "copy_piece ring dst src n d = Some (store_at ring dst (take 16 (drop src ring)))"
        using False by (auto simp: copy_piece_def copy16_def copy_chunk_def)
      then show ?thesis using snap [of 16] True by simp
    next
      case F2: False
      then have "copy_piece ring dst src n d = Some (store_at ring dst (take n (drop src ring)))"
        using False by (auto simp: copy_piece_def copy16_def copy_chunk_def copy_within_def)
      then show ?thesis using snap [of n] n lt by simp
    qed
  qed
qed

section \<open>The loops\<close>

text \<open>A piece is written and, when it reaches the ring end, flushed.\<close>

lemma piece_step:
  assumes room: "room_for reach ring (length h + n)" and hd: "holds reach ring h" and it: "intact flushed ring h"
    and k: "0 < k" "k \<le> n" "length h mod length ring + k \<le> length ring"
    and h': "take (length h) h' = h" "length h' = length h + k"
    and r: "length r = length ring" "\<forall>j<k. r ! (length h mod length ring + j) = h' ! (length h + j)"
      "\<forall>i<length ring. i < length h mod length ring \<or> length h mod length ring + max 16 k \<le> i \<longrightarrow> r ! i = ring ! i"
    and fit: "fits_out linear (length h + n - flushed) out"
  obtains f1 where "(if length h mod length ring + k = length ring then flush_ring linear r (length h') (flushed, out) else (flushed, out)) =
      (f1, deliver linear (segment h' flushed f1) out)"
    "intact f1 r h'" "flushed \<le> f1" "f1 \<le> length h'" "holds reach r h'" "room_for reach r (length h' + (n - k))"
    "fits_out linear (length h' + (n - k) - f1) (deliver linear (segment h' flushed f1) out)"
proof -
  let ?sz = "length ring"
  have fl: "flushed \<le> length h" using it by (simp add: intact_def)
  have sz: "0 < ?sz" using room by (simp add: room_for_def)
  have room1: "room_for reach ring (length h + k)" using room k(2) by (auto simp: room_for_def)
  note ws = write_step [OF room1 hd it k(1,3) h' r]
  have cross: "flushed mod ?sz + (length h' - flushed) = length h mod ?sz + k" using ws(3) h'(2) by auto
  have room2: "room_for reach r (length h' + (n - k))" using room k(2) r(1) h'(2) by (simp add: room_for_def)
  show thesis
  proof (cases "length h mod ?sz + k = ?sz")
    case True
    have "flushed AND history_mask ?sz = flushed mod ?sz" using history_index [OF room, of flushed] fl k by simp
    then have fr: "flush_ring linear r (length h') (flushed, out) = (length h', deliver linear (segment h' flushed (length h')) out)"
      using ws(2,4) r(1) sz fit k(2) h'(2) by (intro flush_delivers) (auto simp: fits_out_def)
    have "fits_out linear (length (segment h' flushed (length h')) + (length h' + (n - k) - length h')) out"
      using fit k(2) fl h'(2) by (simp add: length_segment fits_out_def)
    note ft = fits_deliver [OF this]
    show thesis by (rule that [of "length h'"]) (use True fr fl h'(2) ws(1) room2 ft in \<open>simp_all add: intact_def\<close>)
  next
    case False
    have "intact flushed r h'" using ws(2) cross False k(3) r(1) fl h'(2) unfolding intact_def by auto
    moreover have "fits_out linear (length h' + (n - k) - flushed) out" using fit k(2) h'(2) by simp
    ultimately show thesis using that [of flushed] fl False h'(2) ws(1) room2 deliver_none [OF fit] by simp
  qed
qed

lemma deliver_segments:
  assumes "fits_out linear (length h - f0) out" "f0 \<le> f1" "f1 \<le> f2" "f2 \<le> length h"
  shows "deliver linear (segment h f1 f2) (deliver linear (segment h f0 f1) out) = deliver linear (segment h f0 f2) out"
proof -
  have "fits_out linear (length (segment h f0 f1) + length (segment h f1 f2)) out"
    using assms by (auto simp: length_segment fits_out_def)
  from deliver_deliver [OF this] show ?thesis by (simp add: segment_segment [OF assms(2,3)])
qed

lemma copy_ring_spec:
  assumes "room_for reach ring (length h + n)" "holds reach ring h" "intact flushed ring h" "0 < d" "d \<le> length h" "d \<le> reach"
    and "fits_out linear (length h + n - flushed) out"
  shows "\<exists>ring' flushed'. copy_ring linear d n (ring, length h, flushed, out) =
      Some (ring', length h + n, flushed', deliver linear (segment (lz_copy h d n) flushed flushed') out) \<and>
    length ring' = length ring \<and> holds reach ring' (lz_copy h d n) \<and> intact flushed' ring' (lz_copy h d n) \<and> flushed \<le> flushed'"
  using assms
proof (induction n arbitrary: ring h flushed out rule: less_induct)
  case (less n)
  note room = less.prems(1) and hd = less.prems(2) and it = less.prems(3) and d = less.prems(4-6) and fit = less.prems(7)
  show ?case
  proof (cases "n = 0")
    case True
    then show ?thesis using hd it deliver_none [OF fit] by (subst copy_ring.simps) simp
  next
    case False
    let ?sz = "length ring"
    define dst where "dst = length h mod ?sz"
    define src where "src = (length h - d) mod ?sz"
    define k where "k = min (min n (?sz - dst)) (?sz - src)"
    have sz: "0 < ?sz" "?sz < 2 ^ 63" using room by (simp_all add: room_for_def)
    have lt: "dst < ?sz" "src < ?sz" using sz(1) by (simp_all add: dst_def src_def)
    have k: "0 < k" "k \<le> n" "k \<le> ?sz - dst" "k \<le> ?sz - src" using False lt by (simp_all add: k_def)
    have idx: "length h AND history_mask ?sz = dst" "(length h - d) AND history_mask ?sz = src"
      using history_index [OF room] False d(1,2) by (simp_all add: dst_def src_def)
    let ?h = "lz_copy h d k"
    have lh: "take (length h) ?h = h" "length ?h = length h + k" by (simp_all add: take_lz_copy)
    obtain r where r: "copy_piece ring dst src k d = Some r" "length r = ?sz" "\<forall>j<k. r ! (dst + j) = ?h ! (length h + j)"
      "\<forall>i<?sz. i < dst \<or> dst + max 16 k \<le> i \<longrightarrow> r ! i = ring ! i"
      using copy_piece_done [OF hd d sz dst_def src_def k(1,3,4)] by blast
    have dk: "dst + k \<le> ?sz" using k(3) lt by simp
    obtain f1 where f1: "(if dst + k = ?sz then flush_ring linear r (length ?h) (flushed, out) else (flushed, out)) =
        (f1, deliver linear (segment ?h flushed f1) out)"
      "intact f1 r ?h" "flushed \<le> f1" "f1 \<le> length ?h" "holds reach r ?h" "room_for reach r (length ?h + (n - k))"
      "fits_out linear (length ?h + (n - k) - f1) (deliver linear (segment ?h flushed f1) out)"
      using piece_step [OF room hd it k(1,2) dk [unfolded dst_def] lh r(2) r(3,4) [unfolded dst_def] fit, folded dst_def] by metis
    have whole: "lz_copy ?h d (n - k) = lz_copy h d n" using k(2) lz_copy_add [of h d k "n - k"] by simp
    have ends: "length ?h + (n - k) = length h + n" "n - k < n" "d \<le> length ?h" using k d(2) by simp_all
    obtain ring' flushed' where g: "copy_ring linear d (n - k) (r, length ?h, f1, deliver linear (segment ?h flushed f1) out) =
        Some (ring', length h + n, flushed', deliver linear (segment (lz_copy h d n) f1 flushed') (deliver linear (segment ?h flushed f1) out))"
      "length ring' = length r" "holds reach ring' (lz_copy h d n)" "intact flushed' ring' (lz_copy h d n)" "f1 \<le> flushed'"
      using less.IH [OF ends(2) f1(6,5,2) d(1) ends(3) d(3) f1(7)] unfolding whole ends(1) by blast
    have pre: "segment ?h flushed f1 = segment (lz_copy h d n) flushed f1"
      unfolding whole [symmetric] by (rule segment_prefix [OF take_lz_copy f1(4)])
    have fle: "flushed' \<le> length (lz_copy h d n)" using g(4) by (simp add: intact_def)
    have fit': "fits_out linear (length (lz_copy h d n) - flushed) out" using fit by simp
    have "copy_ring linear d n (ring, length h, flushed, out) = copy_ring linear d (n - k) (r, length ?h, f1, deliver linear (segment ?h flushed f1) out)"
      using f1(1) r(1) False idx by (cases "dst + k = ?sz"; subst copy_ring.simps; simp add: Let_def k_def [symmetric])
    then show ?thesis using g f1(3) r(2) deliver_segments [OF fit' f1(3) g(5) fle] unfolding pre by auto
  qed
qed

lemma write_loop_spec:
  assumes "room_for reach ring (length h + length bs)" "holds reach ring h" "intact flushed ring h"
    and "fits_out linear (length h + length bs - flushed) out"
  shows "\<exists>ring' flushed'. write_loop linear bs (ring, length h, Some (flushed, out)) =
      Some (ring', length h + length bs, Some (flushed', deliver linear (segment (h @ bs) flushed flushed') out)) \<and>
    length ring' = length ring \<and> holds reach ring' (h @ bs) \<and> intact flushed' ring' (h @ bs) \<and> flushed \<le> flushed'"
  using assms
proof (induction "length bs" arbitrary: bs ring h flushed out rule: less_induct)
  case less
  note room = less.prems(1) and hd = less.prems(2) and it = less.prems(3) and fit = less.prems(4)
  show ?case
  proof (cases "bs = []")
    case True
    then show ?thesis using hd it deliver_none [OF fit] by (subst write_loop.simps) simp
  next
    case False
    let ?sz = "length ring"
    define dst where "dst = length h mod ?sz"
    define k where "k = min (length bs) (?sz - dst)"
    have sz: "0 < ?sz" using room by (simp_all add: room_for_def)
    have lt: "dst < ?sz" using sz by (simp_all add: dst_def)
    have k: "0 < k" "k \<le> length bs" "dst + k \<le> ?sz" using False lt by (simp_all add: k_def)
    have idx: "length h AND history_mask ?sz = dst" using history_index [OF room, of "length h"] False by (simp add: dst_def)
    let ?h = "h @ take k bs" and ?r = "store_at ring dst (take k bs)"
    have lh: "take (length h) ?h = h" "length ?h = length h + k" using k(2) by simp_all
    have l: "length (take k bs) = k" using k(2) by simp
    have r: "length ?r = ?sz" "\<forall>j<k. ?r ! (dst + j) = ?h ! (length h + j)" "\<forall>i<?sz. i < dst \<or> dst + max 16 k \<le> i \<longrightarrow> ?r ! i = ring ! i"
      using k(3) l nth_store_at [of dst "take k bs" ring] by (simp, simp add: nth_append, auto)
    obtain f1 where f1: "(if dst + k = ?sz then flush_ring linear ?r (length ?h) (flushed, out) else (flushed, out)) =
        (f1, deliver linear (segment ?h flushed f1) out)"
      "intact f1 ?r ?h" "flushed \<le> f1" "f1 \<le> length ?h" "holds reach ?r ?h" "room_for reach ?r (length ?h + (length bs - k))"
      "fits_out linear (length ?h + (length bs - k) - f1) (deliver linear (segment ?h flushed f1) out)"
      using piece_step [OF room hd it k(1,2) k(3) [unfolded dst_def] lh r(1) [unfolded dst_def] r(2,3) [unfolded dst_def] fit, folded dst_def] by metis
    have whole: "?h @ drop k bs = h @ bs" by simp
    have ends: "length ?h + length (drop k bs) = length h + length bs" "length (drop k bs) < length bs" "length bs - k = length (drop k bs)" using k by simp_all
    obtain ring' flushed' where g: "write_loop linear (drop k bs) (?r, length ?h, Some (f1, deliver linear (segment ?h flushed f1) out)) =
        Some (ring', length h + length bs, Some (flushed', deliver linear (segment (h @ bs) f1 flushed') (deliver linear (segment ?h flushed f1) out)))"
      "length ring' = length ?r" "holds reach ring' (h @ bs)" "intact flushed' ring' (h @ bs)" "f1 \<le> flushed'"
      using less.hyps [OF ends(2) f1(6) [unfolded ends(3)] f1(5,2) f1(7) [unfolded ends(3)]] unfolding whole ends(1) by blast
    have pre: "segment ?h flushed f1 = segment (h @ bs) flushed f1" by (rule segment_prefix [OF _ f1(4)]) (use k in simp)
    have fle: "flushed' \<le> length (h @ bs)" using g(4) by (simp add: intact_def)
    have fit': "fits_out linear (length (h @ bs) - flushed) out" using fit by simp
    have "write_loop linear bs (ring, length h, Some (flushed, out)) = write_loop linear (drop k bs) (?r, length ?h, Some (f1, deliver linear (segment ?h flushed f1) out))"
      using f1(1) False idx l lh(2) by (cases "dst + k = ?sz"; subst write_loop.simps; simp add: Let_def k_def [symmetric])
    then show ?thesis using g f1(3) r(1) deliver_segments [OF fit' f1(3) g(5) fle] unfolding pre by auto
  qed
qed

text \<open>Without a lent output the same bytes are written.\<close>

lemma write_loop_unlent:
  assumes "room_for reach ring (pos + length bs)"
  shows "write_loop linear bs (ring, pos, None) = map_option (\<lambda>(ring', pos', _). (ring', pos', None)) (write_loop linear bs (ring, pos, Some fo))"
  using assms
proof (induction "length bs" arbitrary: bs ring pos fo rule: less_induct)
  case less
  show ?case
  proof (cases "bs = []")
    case True
    then show ?thesis by (subst (1 2) write_loop.simps) simp
  next
    case False
    define dst where "dst = pos AND history_mask (length ring)"
    define k where "k = min (length bs) (length ring - dst)"
    define r where "r = store_at ring dst (take k bs)"
    have "dst = pos mod length ring" using history_index [OF less.prems, of pos] False by (simp add: dst_def)
    then have "dst < length ring" using less.prems by (simp add: room_for_def)
    then have k: "0 < k" "k \<le> length bs" "dst + k \<le> length ring" using False by (auto simp: k_def)
    have "length r = length ring" using k by (simp add: r_def)
    then have room: "room_for reach r (pos + k + length (drop k bs))" using less.prems k(2) by (simp add: room_for_def)
    have smaller: "length (drop k bs) < length bs" using k by simp
    have step: "write_loop linear bs (ring, pos, lent) =
        write_loop linear (drop k bs) (r, pos + k, if dst + k = length ring then map_option (flush_ring linear r (pos + k)) lent else lent)" for lent
      using False by (subst write_loop.simps) (simp add: Let_def dst_def k_def r_def)
    show ?thesis
      using less.hyps [OF smaller room] unfolding step [of None] step [of "Some fo"] by (cases "dst + k = length ring") simp_all
  qed
qed

end
