(* ===== verification/History_Growth.thy ===== *)
theory History_Growth
  imports History_Ring Table_Space
begin

unbundle bit_operations_syntax

text \<open>
  The history while the ring is still growing, and the steps of the decoder that extend it: single
  bytes (\<open>emit\<close>), stored bytes (\<open>write_raw\<close>) and copies (the stage \<open>Copy\<close>), with the two forms of
  growth that avoid clearing space that is about to be written. A window is a power of two of at
  least 64 bytes whose last sixteen bytes no distance reaches.
\<close>

section \<open>Steps\<close>

definition dl_emit :: "(nat \<Rightarrow> nat option) \<Rightarrow> nat \<Rightarrow> bool \<Rightarrow> u8 \<Rightarrow> u8 vec \<times> nat \<times> nat \<times> caller_output \<times> memory \<Rightarrow>
    (decode_error + unit) \<times> u8 vec \<times> nat \<times> nat \<times> caller_output \<times> memory" where
  "dl_emit alloc window_size linear byte = (\<lambda>(ring, pos, remaining, out, m).
     case checked_add 64 pos 1 of
       None \<Rightarrow> (Inl SizeOverflow, ring, pos, remaining, out, m)
     | Some nxt \<Rightarrow>
         (case (if linear then (Inr (), ring, m) else ensure_ring alloc window_size nxt (ring, m)) of
            (Inl e, ring1, m1) \<Rightarrow> (Inl e, ring1, pos, remaining, out, m1)
          | (Inr _, ring1, m1) \<Rightarrow>
              let ring2 = (if linear then ring1 else ring1\<lparr>items := (items ring1)[pos AND (length (items ring1) - 1) := byte]\<rparr>);
                  out1 = (if out_collect out = None then out\<lparr>out_bytes := (out_bytes out)[out_produced out := byte]\<rparr> else out)
              in (Inr (), ring2, nxt, remaining - 1, out1\<lparr>out_produced := out_produced out + 1\<rparr>, m1)))"

definition write_raw :: "(nat \<Rightarrow> nat option) \<Rightarrow> nat \<Rightarrow> u8 list \<Rightarrow> u8 vec \<times> nat \<times> memory \<Rightarrow>
    ((decode_error + unit) \<times> u8 vec \<times> nat \<times> memory) option" where
  "write_raw alloc window_size bytes = (\<lambda>(ring, pos, m).
     let fin = pos + length bytes; old_len = length (items ring) in
     if fin > old_len \<and> fin \<le> window_size then
       (let desired = ring_size old_len window_size fin in
        Some (case reserve alloc 1 ring desired m of
          (Inl e, ring1, m1) \<Rightarrow> (Inl e, ring1, pos, m1)
        | (Inr _, ring1, m1) \<Rightarrow>
            let existing = old_len - pos
            in (Inr (), ring1\<lparr>items := pad_to desired 0 (store_at (items ring1) pos (take existing bytes) @ drop existing bytes)\<rparr>, fin, m1)))
     else
       (case ensure_ring alloc window_size fin (ring, m) of
          (Inl e, ring1, m1) \<Rightarrow> Some (Inl e, ring1, pos, m1)
        | (Inr _, ring1, m1) \<Rightarrow>
            map_option (\<lambda>(items', pos', _). (Inr (), ring1\<lparr>items := items'\<rparr>, pos', m1)) (write_ring False bytes (items ring1, pos, None))))"

definition repeat_growing :: "(nat \<Rightarrow> nat option) \<Rightarrow> nat \<Rightarrow> nat \<Rightarrow> nat \<Rightarrow> u8 vec \<times> nat \<times> memory \<Rightarrow>
    (decode_error + bool) \<times> u8 vec \<times> nat \<times> memory" where
  "repeat_growing alloc window_size distance fin = (\<lambda>(ring, pos, m).
     if distance \<noteq> 1 \<or> fin \<le> length (items ring) \<or> fin > window_size then (Inr False, ring, pos, m)
     else
       (case repeat_grow alloc window_size pos (items ring ! (pos - 1)) fin (ring, m) of
          (Inl e, ring1, m1) \<Rightarrow> (Inl e, ring1, pos, m1)
        | (Inr _, ring1, m1) \<Rightarrow> (Inr True, ring1, fin, m1)))"

text \<open>The copy of the stage \<open>Copy\<close>: \<open>n\<close> bytes from \<open>distance\<close> back, delivered. In the linear
  history the slice up to \<open>hist_end\<close> is lent to the copy and put back.\<close>

definition copy_body :: "(nat \<Rightarrow> nat option) \<Rightarrow> nat \<Rightarrow> bool \<Rightarrow> nat \<Rightarrow> nat \<Rightarrow> nat \<Rightarrow> u8 vec \<times> nat \<times> caller_output \<times> memory \<Rightarrow>
    ((decode_error + unit) \<times> u8 vec \<times> nat \<times> caller_output \<times> memory) option" where
  "copy_body alloc window_size linear distance n hist_end = (\<lambda>(ring, pos, out, m).
     case checked_add 64 pos n of
       None \<Rightarrow> Some (Inl SizeOverflow, ring, pos, out, m)
     | Some fin \<Rightarrow>
         let finish = (\<lambda>ring1 pos1 flushed out1 m1. Some (Inr (), ring1, pos1, snd (flush_ring linear (items ring1) pos1 (flushed, out1)), m1)) in
         if linear then
           Option.bind (copy_ring True distance n (take hist_end (out_bytes out), pos, pos, out\<lparr>out_bytes := []\<rparr>)) (\<lambda>(hist, pos1, flushed, out1).
             finish ring pos1 flushed (out1\<lparr>out_bytes := hist @ drop hist_end (out_bytes out)\<rparr>) m)
         else
           (case repeat_growing alloc window_size distance fin (ring, pos, m) of
              (Inl e, ring1, pos1, m1) \<Rightarrow> Some (Inl e, ring1, pos1, out, m1)
            | (Inr True, ring1, pos1, m1) \<Rightarrow> finish ring1 pos1 pos out m1
            | (Inr False, ring1, pos1, m1) \<Rightarrow>
                (case ensure_ring alloc window_size fin (ring1, m1) of
                   (Inl e, ring2, m2) \<Rightarrow> Some (Inl e, ring2, pos1, out, m2)
                 | (Inr _, ring2, m2) \<Rightarrow>
                     Option.bind (copy_ring False distance n (items ring2, pos1, pos, out)) (\<lambda>(items', pos2, flushed, out1).
                       finish (ring2\<lparr>items := items'\<rparr>) pos2 flushed out1 m2))))"

section \<open>The size of the ring\<close>

lemma next_power:
  assumes "checked_next_power_of_two n = Some p"
  shows "\<exists>k. p = 2 ^ k" "n \<le> p" "p < 2 ^ 64"
proof -
  have p: "p = (if n \<le> 1 then 1 else 2 ^ (log2_floor_non_zero (n - 1) + 1))" "p < 2 ^ 64"
    using assms by (auto simp: checked_next_power_of_two_def Let_def split: if_splits)
  show "\<exists>k. p = 2 ^ k" using p(1) by (metis power_0)
  show "n \<le> p" using p(1) log2_floor_less [of "n - 1"] by (cases "n \<le> 1") auto
qed (use assms in \<open>auto simp: checked_next_power_of_two_def Let_def split: if_splits\<close>)

lemma no_next_power: "checked_next_power_of_two n = None \<Longrightarrow> 2 ^ 63 < n"
proof -
  assume "checked_next_power_of_two n = None"
  then have n: "\<not> n \<le> 1" "2 ^ 64 \<le> (2::nat) ^ (log2_floor_non_zero (n - 1) + 1)"
    by (auto simp: checked_next_power_of_two_def Let_def split: if_splits)
  then have "63 \<le> log2_floor_non_zero (n - 1)" using power_le_imp_le_exp [of 2 64] by fastforce
  then have "2 ^ 63 \<le> n - 1" using log2_floor_le [of "n - 1"] n(1) power_increasing [of 63 "log2_floor_non_zero (n - 1)" "2::nat"] by linarith
  then show ?thesis using n(1) by linarith
qed

definition window_size_ok :: "nat \<Rightarrow> bool" where
  "window_size_ok w \<longleftrightarrow> (\<exists>k. w = 2 ^ k \<and> 6 \<le> k \<and> k \<le> 62)"

lemma max_powers: "\<exists>k. max (2 ^ a) (2 ^ b) = (2::nat) ^ k" "\<exists>k. min (2 ^ a) (2 ^ b) = (2::nat) ^ k"
  by (auto simp: max_def min_def)

lemma ring_size_ok:
  assumes w: "window_size_ok w" and len: "len = 0 \<or> (\<exists>k. len = 2 ^ k)" "len < w" and fin: "len < fin"
  shows "\<exists>k. ring_size len w fin = 2 ^ k" "ring_size len w fin \<le> w" "len \<le> ring_size len w fin"
    "fin \<le> ring_size len w fin \<or> ring_size len w fin = w"
proof -
  obtain kw where kw: "w = 2 ^ kw" "6 \<le> kw" "kw \<le> 62" using w by (auto simp: window_size_ok_def)
  have "w \<le> 2 ^ 62" using kw power_increasing [of kw 62 "2::nat"] by simp
  have dl: "saturating_double len = 2 * len" using len(2) \<open>w \<le> 2 ^ 62\<close> by (simp add: saturating_double_def)
  have "64 = (2::nat) ^ 6" by simp
  show "\<exists>k. ring_size len w fin = 2 ^ k"
  proof (cases "checked_next_power_of_two fin")
    case None
    have "w \<le> 2 ^ 64 - 1" using \<open>w \<le> 2 ^ 62\<close> by simp
    then have "ring_size len w fin = w" using None by (simp add: ring_size_def)
    then show ?thesis using kw(1) by blast
  next
    case (Some p)
    obtain kp where kp: "p = 2 ^ kp" using next_power(1) [OF Some] by blast
    have "\<exists>k. max p (2 * len) = 2 ^ k" using len(1) kp max_powers(1) [of kp "Suc _"] by auto
    then obtain k1 where "max p (2 * len) = 2 ^ k1" by blast
    moreover obtain k2 where "max (2 ^ k1) (2 ^ 6) = (2::nat) ^ k2" using max_powers(1) by blast
    moreover obtain k3 where "min (2 ^ k2) (2 ^ kw) = (2::nat) ^ k3" using max_powers(2) by blast
    ultimately have "ring_size len w fin = 2 ^ k3" unfolding ring_size_def Some dl MIN_RING_def \<open>64 = (2::nat) ^ 6\<close> kw(1) by simp
    then show ?thesis by blast
  qed
  show "ring_size len w fin \<le> w" by (simp add: ring_size_def)
  show "len \<le> ring_size len w fin" using len(2) dl by (auto simp: ring_size_def)
  show "fin \<le> ring_size len w fin \<or> ring_size len w fin = w"
    using no_next_power [of fin] next_power(2) [of fin] \<open>w \<le> 2 ^ 62\<close> by (auto simp: ring_size_def split: option.splits)
qed

section \<open>The ring of a window\<close>

definition window_ring :: "nat \<Rightarrow> u8 list \<Rightarrow> u8 list \<Rightarrow> bool" where
  "window_ring w ring h \<longleftrightarrow> window_size_ok w \<and> (length ring = 0 \<or> (\<exists>k. length ring = 2 ^ k)) \<and> length ring \<le> w \<and>
     (length h \<le> length ring \<or> length ring = w) \<and> holds (w - 16) ring h"

lemma window_ring_room:
  assumes "window_ring w ring h" "fin \<le> length ring \<or> length ring = w" "0 < length ring" "fin < 2 ^ 64"
  shows "room_for (w - 16) ring fin"
proof -
  obtain k where k: "w = 2 ^ k" "6 \<le> k" "k \<le> 62" using assms(1) by (auto simp: window_ring_def window_size_ok_def)
  have "w \<le> 2 ^ 62" "2 ^ 6 \<le> w" using k power_increasing [of k 62 "2::nat"] power_increasing [of 6 k "2::nat"] by simp_all
  moreover have "is_power_of_two (length ring)" using assms(1,3) by (auto simp: window_ring_def is_power_of_two_iff)
  ultimately show ?thesis using assms by (auto simp: room_for_def window_ring_def)
qed

lemma window_ring_grows:
  assumes w: "window_ring w ring h" and len: "length ring' = 2 ^ k" "length ring \<le> length ring'" "length ring' \<le> w"
    and grown: "length ring < w \<or> length ring = length ring'" and same: "\<And>p. p < length h \<Longrightarrow> p < length ring \<Longrightarrow> ring' ! p = ring ! p"
    and full: "length ring = length ring' \<Longrightarrow> ring' = ring"
  shows "window_ring w ring' h"
proof (cases "length ring = length ring'")
  case True
  then show ?thesis using w full by simp
next
  case False
  then have "length h \<le> length ring" using w grown by (auto simp: window_ring_def)
  then have "holds (w - 16) ring' h"
    using w same len(2) unfolding window_ring_def holds_def by (metis less_le_trans mod_less)
  then show ?thesis using w len False \<open>length h \<le> length ring\<close> by (auto simp: window_ring_def)
qed

text \<open>What a growth leaves: on failure the history as it was, on success room up to \<open>fin\<close>.\<close>

definition grown_for :: "nat \<Rightarrow> nat \<Rightarrow> u8 list \<Rightarrow> u8 vec \<Rightarrow> (decode_error + 'a) \<times> u8 vec \<Rightarrow> bool" where
  "grown_for w fin h ring out \<longleftrightarrow> (case out of (r, ring') \<Rightarrow> window_ring w (items ring') h \<and> (case r of
      Inl e \<Rightarrow> memory_failure e \<and> items ring' = items ring
    | Inr _ \<Rightarrow> fin \<le> length (items ring') \<or> length (items ring') = w))"

lemma ensure_ring_grows:
  assumes w: "window_ring w (items ring) h" and run: "ensure_ring alloc w fin (ring, m) = (r, ring', m')"
  shows "grown_for w fin h ring (r, ring')"
proof (cases "fin \<le> length (items ring) \<or> length (items ring) \<ge> w")
  case True
  then have "(r, ring', m') = (Inr (), ring, m)" using run by (auto simp: ensure_ring_def grow_ring_def split: if_splits)
  moreover have "length (items ring) \<le> w" using w by (simp add: window_ring_def)
  ultimately show ?thesis using True w by (auto simp: grown_for_def)
next
  case False
  let ?n = "ring_size (length (items ring)) w fin"
  have len: "length (items ring) = 0 \<or> (\<exists>k. length (items ring) = 2 ^ k)" "window_size_ok w" using w by (auto simp: window_ring_def)
  have rs: "resize alloc 1 0 ring ?n m = (r, ring', m')" using run False by (simp add: ensure_ring_def grow_ring_def)
  have n: "\<exists>k. ?n = 2 ^ k" "?n \<le> w" "length (items ring) \<le> ?n" "fin \<le> ?n \<or> ?n = w"
    using ring_size_ok [OF len(2,1)] False by simp_all
  show ?thesis
  proof (cases r)
    case (Inl e)
    have "memory_failure e" by (rule resize_failure [OF rs [unfolded Inl]])
    moreover have "items ring' = items ring" by (rule resize_items(1) [OF rs [unfolded Inl]])
    ultimately show ?thesis using w Inl by (simp add: grown_for_def)
  next
    case (Inr u)
    have it: "items ring' = pad_to ?n 0 (items ring)" by (rule resize_ok [OF rs [unfolded Inr]])
    obtain k where k: "?n = 2 ^ k" using n(1) by blast
    have "window_ring w (items ring') h"
      unfolding it by (rule window_ring_grows [OF w, of _ k]) (use n k False in \<open>auto simp: pad_to_def nth_append\<close>)
    then show ?thesis using Inr it n(4) by (auto simp: grown_for_def)
  qed
qed

section \<open>Copies\<close>

lemma index_in_ring:
  assumes "window_ring w ring h" "length h < fin" "fin \<le> length ring \<or> length ring = w" "fin < 2 ^ 64"
  shows "0 < length ring" "room_for (w - 16) ring fin"
proof -
  have "0 < w" using assms(1) by (auto simp: window_ring_def window_size_ok_def)
  then show "0 < length ring" using assms(2,3) by auto
  then show "room_for (w - 16) ring fin" using window_ring_room [OF assms(1,3) _ assms(4)] by blast
qed

lemma intact_start: "intact (length h) ring h"
  by (simp add: intact_def)

lemma window_copy:
  assumes w: "window_ring w ring h" and d: "0 < d" "d \<le> length h" "d \<le> w - 16" and n: "0 < n" "length h + n < 2 ^ 64"
    and room: "length h + n \<le> length ring \<or> length ring = w" and fit: "fits_out False n out"
  shows "\<exists>ring' flushed out'. copy_ring False d n (ring, length h, length h, out) = Some (ring', length h + n, flushed, out') \<and>
    window_ring w ring' (lz_copy h d n) \<and>
    flush_ring False ring' (length h + n) (flushed, out') = (length h + n, deliver False (drop (length h) (lz_copy h d n)) out)"
proof -
  have hn: "length h < length h + n" using n(1) by simp
  have rm: "room_for (w - 16) ring (length h + n)" by (rule index_in_ring(2) [OF w hn room n(2)])
  have hd: "holds (w - 16) ring h" using w by (simp add: window_ring_def)
  have fit': "fits_out False (length h + n - length h) out" using fit by simp
  let ?h = "lz_copy h d n"
  obtain ring' flushed where c: "copy_ring False d n (ring, length h, length h, out) =
      Some (ring', length h + n, flushed, deliver False (segment ?h (length h) flushed) out)"
    "length ring' = length ring" "holds (w - 16) ring' ?h" "intact flushed ring' ?h" "length h \<le> flushed"
    using copy_ring_spec [OF rm hd intact_start d fit'] by blast
  have wr: "window_ring w ring' ?h" using w c(2,3) room by (auto simp: window_ring_def)
  let ?out = "deliver False (segment ?h (length h) flushed) out"
  have fl: "flushed \<le> length ?h" using c(4) by (simp add: intact_def)
  have fits: "fits_out False (length ?h - flushed) ?out"
    using fit c(5) fl by (intro fits_deliver) (simp add: length_segment fits_out_def)
  have "flush_ring False ring' (length ?h) (flushed, ?out) = (length ?h, deliver False (segment ?h flushed (length ?h)) ?out)"
  proof (cases "flushed = length ?h")
    case True
    then show ?thesis using deliver_none [OF fits] by (simp add: flush_ring_def)
  next
    case False
    then have f: "flushed < length ?h" using fl by simp
    have "room_for (w - 16) ring' (length h + n)" using rm c(2) by (simp add: room_for_def)
    from history_index [OF this, of flushed] have "flushed AND history_mask (length ring') = flushed mod length ring'" using f by simp
    moreover have "0 < length ring'" using rm c(2) by (simp add: room_for_def)
    ultimately show ?thesis using c(4) fl fits f by (intro flush_delivers) (auto simp: intact_def)
  qed
  moreover have "deliver False (segment ?h flushed (length ?h)) ?out = deliver False (drop (length h) ?h) out"
    using deliver_segments [of False ?h "length h" out flushed "length ?h"] fit' c(5) fl by (simp add: segment_def)
  ultimately show ?thesis using c(1) wr by auto
qed

lemma lz_copy_one: "h \<noteq> [] \<Longrightarrow> lz_copy h 1 n = h @ replicate n (last h)"
proof (induction n arbitrary: h)
  case (Suc n)
  have "h ! (length h - 1) = last h" using Suc.prems by (simp add: last_conv_nth)
  then show ?case using Suc.IH [of "h @ [last h]"] by (simp add: replicate_append_same)
qed simp

lemma pad_to_nth: "i < n \<Longrightarrow> pad_to n z xs ! i = (if i < length xs then xs ! i else z)"
  by (simp add: pad_to_def nth_append)

text \<open>Growing by a run of one byte is growing and copying from distance one.\<close>

lemma repeat_growing_copies:
  assumes w: "window_ring w (items ring) h" and d: "0 < d" "d \<le> length h" and n: "0 < n"
    and fit: "fits_out False n out"
    and run: "repeat_growing alloc w d (length h + n) (ring, length h, m) = (r, ring', pos', m')"
  shows "case r of
      Inl e \<Rightarrow> memory_failure e \<and> items ring' = items ring \<and> pos' = length h
    | Inr True \<Rightarrow> pos' = length h + n \<and> window_ring w (items ring') (lz_copy h d n) \<and>
        flush_ring False (items ring') pos' (length h, out) = (pos', deliver False (drop (length h) (lz_copy h d n)) out)
    | Inr False \<Rightarrow> ring' = ring \<and> pos' = length h \<and> m' = m"
proof (cases "d \<noteq> 1 \<or> length h + n \<le> length (items ring) \<or> length h + n > w")
  case True
  then show ?thesis using run by (auto simp: repeat_growing_def split: if_splits)
next
  case False
  then have c: "d = 1" "length (items ring) < length h + n" "length h + n \<le> w" by simp_all
  let ?len = "length (items ring)"
  let ?byte = "items ring ! (length h - 1)" and ?n = "ring_size ?len w (length h + n)"
  have h: "h \<noteq> []" "0 < length h" using d by auto
  have lw: "?len < w" using c by simp
  have wk: "window_size_ok w" "?len = 0 \<or> (\<exists>k. ?len = 2 ^ k)" "length h \<le> ?len" "holds (w - 16) (items ring) h"
    using w lw by (auto simp: window_ring_def)
  have w16: "16 < w" using wk(1) power_increasing [of 6 _ "2::nat"] by (fastforce simp: window_size_ok_def)
  have reach: "?len \<le> w - 16"
  proof -
    obtain kw where kw: "w = 2 ^ kw" "6 \<le> kw" using wk(1) by (auto simp: window_size_ok_def)
    have w64: "64 \<le> w" using kw power_increasing [of 6 kw "2::nat"] by simp
    show ?thesis
    proof (cases "?len = 0")
      case False
      then obtain k where k: "?len = 2 ^ k" using wk(2) by blast
      then have "k < kw" using lw kw(1) by simp
      then have "2 * ?len \<le> w" unfolding k kw(1) using power_increasing [of "Suc k" kw "2::nat"] by simp
      then show ?thesis using w64 by linarith
    qed simp
  qed
  have byte: "?byte = last h"
  proof -
    have "items ring ! ((length h - 1) mod ?len) = h ! (length h - 1)" using wk(4) h(2) w16 by (simp add: holds_def)
    moreover have "length h - 1 < ?len" using h(2) wk(3) by linarith
    then have "(length h - 1) mod ?len = length h - 1" by (rule mod_less)
    ultimately show ?thesis using h by (simp add: last_conv_nth)
  qed
  have sz: "\<exists>k. ?n = 2 ^ k" "?n \<le> w" "?len \<le> ?n" "length h + n \<le> ?n"
    using ring_size_ok [OF wk(1,2) lw c(2)] c(3) by auto
  obtain q ring1 m1 where rv: "reserve alloc 1 ring ?n m = (q, ring1, m1)" by (cases "reserve alloc 1 ring ?n m")
  have same: "items ring1 = items ring" using rv by (cases rule: reserve_cases [of ?n ring alloc 1 m]) auto
  show ?thesis
  proof (cases q)
    case (Inl e)
    then have "(r, ring', pos', m') = (Inl e, ring1, length h, m1)" using run rv c by (simp add: repeat_growing_def repeat_grow_def Let_def)
    then show ?thesis using same reserve_failure rv Inl by auto
  next
    case (Inr u)
    let ?items = "pad_to ?n ?byte (take (length h) (items ring) @ replicate (?len - length h) ?byte)"
    have res: "r = Inr True" "items ring' = ?items" "pos' = length h + n"
      using run rv c Inr same by (auto simp: repeat_growing_def repeat_grow_def Let_def)
    have nth: "?items ! p = (if p < length h then h ! p else last h)" if "p < ?n" for p
    proof -
      have "items ring ! p = h ! p" if p: "p < length h"
      proof -
        have "p < ?len" "length h \<le> p + (w - 16)" using p wk(3) reach by linarith+
        then have "items ring ! (p mod ?len) = h ! p" using wk(4) p unfolding holds_def by blast
        then show ?thesis using \<open>p < ?len\<close> by simp
      qed
      then show ?thesis using that wk(3) byte by (auto simp: pad_to_nth nth_append)
    qed
    have lz: "lz_copy h d n = h @ replicate n (last h)" unfolding c(1) by (rule lz_copy_one [OF h(1)])
    have li: "length ?items = ?n" by simp
    have "holds (w - 16) ?items (lz_copy h d n)"
      unfolding holds_def li lz using nth sz(4) by (auto simp: nth_append)
    then have "window_ring w ?items (lz_copy h d n)" using wk(1) sz li by (auto simp: window_ring_def)
    moreover have "flush_ring False ?items (length (lz_copy h d n)) (length h, out) =
        (length (lz_copy h d n), deliver False (segment (lz_copy h d n) (length h) (length (lz_copy h d n))) out)"
    proof (rule flush_delivers)
      have "is_power_of_two ?n" using sz(1) by (simp add: is_power_of_two_iff)
      then obtain k where "?n = 2 ^ k" "history_mask ?n = ?n - 1" by (auto simp: is_power_of_two_iff history_mask_def)
      then show "length h AND history_mask (length ?items) = length h mod length ?items" unfolding li by (metis AND_mask_nat)
      show "length h mod length ?items + (length (lz_copy h d n) - length h) \<le> length ?items" unfolding li using sz(4) n by simp
    qed (use fit n nth sz(4) lz in \<open>auto simp: nth_append\<close>)
    ultimately show ?thesis using res by (simp add: segment_def)
  qed
qed

section \<open>Bytes written\<close>

lemma window_ring_reach:
  assumes "window_ring w ring h" "length ring < w" "p < length h"
  shows "length h \<le> p + (w - 16)"
proof -
  have h: "length h \<le> length ring" using assms by (auto simp: window_ring_def)
  obtain kw where kw: "w = 2 ^ kw" "6 \<le> kw" using assms(1) by (auto simp: window_ring_def window_size_ok_def)
  have w64: "64 \<le> w" using kw power_increasing [of 6 kw "2::nat"] by simp
  have "length ring \<noteq> 0" using h assms(3) by auto
  then obtain k where k: "length ring = 2 ^ k" using assms(1) by (auto simp: window_ring_def)
  then have "k < kw" using assms(2) kw(1) by simp
  then have "2 * length ring \<le> w" unfolding k kw(1) using power_increasing [of "Suc k" kw "2::nat"] by simp
  then show ?thesis using w64 h by linarith
qed

lemma window_ring_nth:
  assumes "window_ring w ring h" "length ring < w" "p < length h"
  shows "ring ! p = h ! p" "p < length ring"
proof -
  have "p < length ring" using assms by (auto simp: window_ring_def)
  then show "p < length ring" .
  have "ring ! (p mod length ring) = h ! p" using assms window_ring_reach [OF assms] unfolding window_ring_def holds_def by blast
  then show "ring ! p = h ! p" using \<open>p < length ring\<close> by simp
qed

text \<open>An output that takes nothing stands in for the one \<open>write_ring\<close> is not lent.\<close>

definition no_output :: caller_output where
  "no_output = \<lparr>out_bytes = [], out_collect = Some 0, out_linear = False, out_produced = 0, out_total_before = 0, out_limit = None, out_exact = Unknown\<rparr>"

lemma window_write:
  assumes w: "window_ring w ring h" and n: "length h + length bs < 2 ^ 64" and room: "length h + length bs \<le> length ring \<or> length ring = w"
  shows "\<exists>ring'. write_ring False bs (ring, length h, None) = Some (ring', length h + length bs, None) \<and> window_ring w ring' (h @ bs)"
proof (cases "bs = []")
  case True
  then show ?thesis using w by (simp add: write_ring_def)
next
  case False
  then have hn: "length h < length h + length bs" by simp
  have rm: "room_for (w - 16) ring (length h + length bs)" by (rule index_in_ring(2) [OF w hn room n])
  have hd: "holds (w - 16) ring h" using w by (simp add: window_ring_def)
  have fit: "fits_out False (length h + length bs - length h) no_output" by (simp add: fits_out_def delivers_def no_output_def)
  obtain ring' flushed where c: "write_loop False bs (ring, length h, Some (length h, no_output)) =
      Some (ring', length h + length bs, Some (flushed, deliver False (segment (h @ bs) (length h) flushed) no_output))"
    "length ring' = length ring" "holds (w - 16) ring' (h @ bs)"
    using write_loop_spec [OF rm hd intact_start fit] by blast
  have "window_ring w ring' (h @ bs)" using w c(2,3) room by (auto simp: window_ring_def)
  then show ?thesis using False c(1) write_loop_unlent [OF rm, of False "(length h, no_output)"] by (simp add: write_ring_def)
qed

lemma write_raw_appends:
  assumes w: "window_ring w (items ring) h" and n: "length h + length bs < 2 ^ 64"
  shows "\<exists>r ring' pos' m'. write_raw alloc w bs (ring, length h, m) = Some (r, ring', pos', m') \<and> (case r of
      Inl e \<Rightarrow> memory_failure e \<and> window_ring w (items ring') h \<and> pos' = length h
    | Inr _ \<Rightarrow> window_ring w (items ring') (h @ bs) \<and> pos' = length h + length bs)"
proof (cases "length h + length bs > length (items ring) \<and> length h + length bs \<le> w")
  case True
  let ?len = "length (items ring)"
  let ?n = "ring_size ?len w (length h + length bs)"
  obtain q ring1 m1 where rv: "reserve alloc 1 ring ?n m = (q, ring1, m1)" by (cases "reserve alloc 1 ring ?n m")
  have same: "items ring1 = items ring" using rv by (cases rule: reserve_cases [of ?n ring alloc 1 m]) auto
  have lw: "?len < w" using True by linarith
  have wk: "window_size_ok w" "?len = 0 \<or> (\<exists>k. ?len = 2 ^ k)" "length h \<le> ?len" using w lw by (auto simp: window_ring_def)
  have sz: "\<exists>k. ?n = 2 ^ k" "?n \<le> w" "?len \<le> ?n" "length h + length bs \<le> ?n"
    using ring_size_ok [OF wk(1,2) lw, of "length h + length bs"] True by auto
  show ?thesis
  proof (cases q)
    case (Inl e)
    have "memory_failure e" by (rule reserve_failure [OF rv [unfolded Inl]])
    then show ?thesis using rv Inl same w True by (simp add: write_raw_def Let_def)
  next
    case (Inr u)
    let ?k = "?len - length h"
    let ?items = "pad_to ?n 0 (store_at (items ring) (length h) (take ?k bs) @ drop ?k bs)"
    have k: "length (take ?k bs) = ?k" using True wk(3) by (simp only: length_take) linarith
    have joined: "store_at (items ring) (length h) (take ?k bs) @ drop ?k bs = take (length h) (items ring) @ bs"
      using k wk(3) by (simp add: store_at_def)
    have tk: "take (length h) (items ring) = h"
      using window_ring_nth [OF w lw] wk(3) by (intro nth_equalityI) auto
    have nth: "?items ! p = (h @ bs) ! p" if "p < length (h @ bs)" for p
      using that sz(4) unfolding joined tk by (simp add: pad_to_nth)
    have "holds (w - 16) ?items (h @ bs)" unfolding holds_def using nth sz(4) by simp
    then have "window_ring w ?items (h @ bs)" using wk(1) sz by (auto simp: window_ring_def)
    then show ?thesis using rv Inr same True by (simp add: write_raw_def Let_def)
  qed
next
  case False
  obtain r ring1 m1 where e: "ensure_ring alloc w (length h + length bs) (ring, m) = (r, ring1, m1)" by (cases "ensure_ring alloc w (length h + length bs) (ring, m)")
  note g = ensure_ring_grows [OF w e]
  have start: "write_raw alloc w bs (ring, length h, m) = (case r of Inl e \<Rightarrow> Some (Inl e, ring1, length h, m1)
      | Inr _ \<Rightarrow> map_option (\<lambda>(items', pos', _). (Inr (), ring1\<lparr>items := items'\<rparr>, pos', m1)) (write_ring False bs (items ring1, length h, None)))"
    using False e by (auto simp: write_raw_def Let_def split: sum.splits)
  show ?thesis
  proof (cases r)
    case (Inl x)
    then show ?thesis using start g by (auto simp: grown_for_def)
  next
    case (Inr u)
    then have g': "window_ring w (items ring1) h" "length h + length bs \<le> length (items ring1) \<or> length (items ring1) = w"
      using g by (auto simp: grown_for_def)
    from window_write [OF g'(1) n g'(2)] show ?thesis using start Inr by auto
  qed
qed

lemma emit_appends:
  assumes w: "window_ring w (items ring) h" and n: "length h + 1 < 2 ^ 64"
    and run: "dl_emit alloc w False byte (ring, length h, remaining, out, m) = (r, ring', pos', remaining', out', m')"
  shows "case r of
      Inl e \<Rightarrow> memory_failure e \<and> window_ring w (items ring') h \<and> pos' = length h \<and> remaining' = remaining \<and> out' = out
    | Inr _ \<Rightarrow> window_ring w (items ring') (h @ [byte]) \<and> pos' = length h + 1 \<and> remaining' = remaining - 1 \<and>
        (out_collect out = None \<longrightarrow> out_produced out < length (out_bytes out) \<longrightarrow> out' = deliver False [byte] out)"
proof -
  obtain q ring1 m1 where e: "ensure_ring alloc w (length h + 1) (ring, m) = (q, ring1, m1)" by (cases "ensure_ring alloc w (length h + 1) (ring, m)")
  note g = ensure_ring_grows [OF w e]
  have ca: "checked_add 64 (length h) 1 = Some (length h + 1)" using n by (simp add: checked_add_def)
  show ?thesis
  proof (cases q)
    case (Inl x)
    then show ?thesis using run e ca g by (auto simp: dl_emit_def grown_for_def)
  next
    case (Inr u)
    then have g': "window_ring w (items ring1) h" "length h + 1 \<le> length (items ring1) \<or> length (items ring1) = w"
      using g by (auto simp: grown_for_def)
    have hn: "length h < length h + 1" by simp
    note ir = index_in_ring [OF g'(1) hn g'(2) n]
    let ?ring = "(items ring1)[length h AND (length (items ring1) - 1) := byte]"
    obtain k where k: "length (items ring1) = 2 ^ k" using ir(1) g'(1) by (auto simp: window_ring_def)
    have idx: "length h AND (length (items ring1) - 1) = length h mod length (items ring1)" unfolding k by (rule AND_mask_nat)
    have lt: "length h mod length (items ring1) < length (items ring1)" using ir(1) by simp
    have "holds (w - 16) ?ring (h @ [byte])"
    proof (rule write_step(1) [where n = 1 and flushed = "length h"])
      show "room_for (w - 16) (items ring1) (length h + 1)" by (rule ir(2))
      show "holds (w - 16) (items ring1) h" using g'(1) by (simp add: window_ring_def)
      show "intact (length h) (items ring1) h" by (rule intact_start)
      show "\<forall>j<1. ?ring ! (length h mod length (items ring1) + j) = (h @ [byte]) ! (length h + j)" using lt by (simp add: idx [unfolded One_nat_def])
    qed (use lt in \<open>simp_all add: idx [unfolded One_nat_def]\<close>)
    then have "window_ring w ?ring (h @ [byte])" using g' by (auto simp: window_ring_def)
    moreover have "store_at (out_bytes out) (out_produced out) [byte] = (out_bytes out)[out_produced out := byte]" if "out_produced out < length (out_bytes out)"
      using that by (simp add: store_at_def upd_conv_take_nth_drop)
    ultimately show ?thesis using run e ca Inr by (auto simp: dl_emit_def Let_def deliver_def delivers_def)
  qed
qed

lemma previous_bytes_history:
  assumes "window_ring w ring h"
  shows "previous_bytes ring (length h) = (if h = [] then 0 else last h, if length h < 2 then 0 else h ! (length h - 2))"
proof (cases "length h = 0")
  case True
  then show ?thesis by (simp add: previous_bytes_def)
next
  case h: False
  obtain kw where kw: "w = 2 ^ kw" "6 \<le> kw" "kw \<le> 62" using assms by (auto simp: window_ring_def window_size_ok_def)
  have w64: "64 \<le> w" using kw power_increasing [of 6 kw "2::nat"] by simp
  have "length ring \<noteq> 0" using assms h w64 by (auto simp: window_ring_def)
  then obtain k where k: "length ring = 2 ^ k" using assms by (auto simp: window_ring_def)
  then have "history_mask (length ring) = length ring - 1" by (auto simp: history_mask_def is_power_of_two_iff)
  then have idx: "p AND history_mask (length ring) = p mod length ring" for p by (simp only: k AND_mask_nat)
  have at: "ring ! (p mod length ring) = h ! p" if "p < length h" "length h \<le> p + 2" for p
  proof -
    have "length h \<le> p + (w - 16)" using that(2) w64 by linarith
    then show ?thesis using assms that(1) unfolding window_ring_def holds_def by blast
  qed
  show ?thesis
  proof (cases "length h < 2")
    case True
    then have "ring ! 0 = h ! 0" using at [of 0] h by simp
    then show ?thesis using True h by (cases h) (simp_all add: previous_bytes_def)
  next
    case False
    then show ?thesis using h at [of "length h - 1"] at [of "length h - 2"] by (simp add: previous_bytes_def idx Let_def last_conv_nth)
  qed
qed

section \<open>The copy of the decoder\<close>

lemma copy_body_window:
  assumes w: "window_ring w (items ring) h" and d: "0 < d" "d \<le> length h" "d \<le> w - 16" and n: "0 < n" "length h + n < 2 ^ 64"
    and fit: "fits_out False n out"
  shows "\<exists>r ring' pos' out' m'. copy_body alloc w False d n hist_end (ring, length h, out, m) = Some (r, ring', pos', out', m') \<and> (case r of
      Inl e \<Rightarrow> memory_failure e \<and> window_ring w (items ring') h \<and> pos' = length h \<and> out' = out
    | Inr _ \<Rightarrow> window_ring w (items ring') (lz_copy h d n) \<and> pos' = length h + n \<and> out' = deliver False (drop (length h) (lz_copy h d n)) out)"
proof -
  have ca: "checked_add 64 (length h) n = Some (length h + n)" using n by (simp add: checked_add_def)
  obtain q ring1 pos1 m1 where rg: "repeat_growing alloc w d (length h + n) (ring, length h, m) = (q, ring1, pos1, m1)"
    by (cases "repeat_growing alloc w d (length h + n) (ring, length h, m)")
  note rc = repeat_growing_copies [OF w d(1,2) n(1) fit rg]
  consider (err) e where "q = Inl e" | (grown) "q = Inr True" | (plain) "q = Inr False" by (cases q) auto
  then show ?thesis
  proof cases
    case err
    then show ?thesis using rc rg ca w by (simp add: copy_body_def Let_def)
  next
    case grown
    then show ?thesis using rc rg ca by (auto simp: copy_body_def Let_def)
  next
    case plain
    then have p: "ring1 = ring" "pos1 = length h" "m1 = m" using rc by simp_all
    obtain q2 ring2 m2 where e: "ensure_ring alloc w (length h + n) (ring, m) = (q2, ring2, m2)" by (cases "ensure_ring alloc w (length h + n) (ring, m)")
    note g = ensure_ring_grows [OF w e]
    show ?thesis
    proof (cases q2)
      case (Inl x)
      then show ?thesis using plain p rg ca e g w by (auto simp: copy_body_def Let_def grown_for_def)
    next
      case (Inr u)
      then have g': "window_ring w (items ring2) h" "length h + n \<le> length (items ring2) \<or> length (items ring2) = w"
        using g by (auto simp: grown_for_def)
      from window_copy [OF g'(1) d n g'(2) fit] show ?thesis
        using plain p rg ca e Inr by (auto simp: copy_body_def Let_def)
    qed
  qed
qed

lemma copy_body_linear:
  assumes h: "take (length h) (out_bytes out) = h" and d: "0 < d" "d \<le> length h" and n: "0 < n" "length h + n \<le> hist_end"
    and len: "hist_end \<le> length (out_bytes out)" "length (out_bytes out) < 2 ^ 63"
  shows "\<exists>out'. copy_body alloc w True d n hist_end (ring, length h, out, m) = Some (Inr (), ring, length h + n, out', m) \<and>
    take (length h + n) (out_bytes out') = lz_copy h d n \<and> length (out_bytes out') = length (out_bytes out) \<and>
    drop hist_end (out_bytes out') = drop hist_end (out_bytes out) \<and> out_produced out' = out_produced out + n"
proof -
  let ?hist = "take hist_end (out_bytes out)" and ?out = "out\<lparr>out_bytes := []\<rparr>" and ?h = "lz_copy h d n"
  have ca: "checked_add 64 (length h) n = Some (length h + n)" using n len by (simp add: checked_add_def)
  have lh: "length ?hist = hist_end" using len(1) by simp
  have rm: "room_for hist_end ?hist (length h + n)" using n len by (simp add: room_for_def)
  have "?hist ! p = h ! p" if "p < length h" for p
    using that n(2) h by (metis add_leD1 less_le_trans nth_take)
  then have hd: "holds hist_end ?hist h" using n lh by (simp add: holds_def)
  have fit: "fits_out True (length h + n - length h) ?out" by (simp add: fits_out_def delivers_def)
  have dr: "d \<le> hist_end" using d n by simp
  obtain hist' flushed where c: "copy_ring True d n (?hist, length h, length h, ?out) =
      Some (hist', length h + n, flushed, deliver True (segment ?h (length h) flushed) ?out)"
    "length hist' = length ?hist" "holds hist_end hist' ?h" "intact flushed hist' ?h" "length h \<le> flushed"
    using copy_ring_spec [OF rm hd intact_start d dr fit] by blast
  have fl: "flushed \<le> length h + n" using c(4) by (simp add: intact_def)
  have lh': "length hist' = hist_end" using c(2) lh by simp
  have "take (length h + n) hist' = ?h"
  proof (rule nth_equalityI)
    show "length (take (length h + n) hist') = length ?h" using n lh' by simp
    fix p assume "p < length (take (length h + n) hist')"
    then have p: "p < length ?h" "p < hist_end" "length ?h \<le> p + hist_end" using n lh' by simp_all
    then have "hist' ! (p mod length hist') = ?h ! p" using c(3) unfolding holds_def by blast
    then show "take (length h + n) hist' ! p = ?h ! p" using p lh' by simp
  qed
  moreover have "copy_body alloc w True d n hist_end (ring, length h, out, m) =
      Some (Inr (), ring, length h + n, out\<lparr>out_bytes := hist' @ drop hist_end (out_bytes out), out_produced := out_produced out + n\<rparr>, m)"
    using ca c(1,5) fl by (auto simp: copy_body_def Let_def flush_ring_def deliver_def delivers_def length_segment)
  ultimately show ?thesis using lh' n len by simp
qed

section \<open>The budget of a call\<close>

lemma checked_next:
  "Option.bind (checked_add 64 a b) (\<lambda>v. checked_add 64 v 1) = (if a + b + 1 < 2 ^ 64 then Some (a + b + 1) else None)"
  by (simp add: checked_add_def)

section \<open>Properties\<close>

text \<open>
  C7 (refinement). A copy of the decoder implements the copy of the format. In a window ring that
  stands for the history \<open>h\<close>, with a distance the format allows and room in the caller's output, the
  copy of the stage \<open>Copy\<close> returns; unless the workspace runs out of memory, the ring then stands for
  the history extended byte by byte, the position has advanced by the length, and exactly the new
  bytes were delivered behind those already produced, wherever the copy wraps or the ring grows and
  although short copies write up to fifteen bytes past their end.
\<close>

theorem copy_refines_history:
  assumes "window_ring w (items ring) h" "0 < d" "d \<le> length h" "d \<le> w - 16" "0 < n" "length h + n < 2 ^ 64"
    and "delivers False out \<longrightarrow> out_produced out + n \<le> length (out_bytes out)"
  shows "\<exists>r ring' pos' out' m'. copy_body alloc w False d n hist_end (ring, length h, out, m) = Some (r, ring', pos', out', m') \<and> (case r of
      Inl e \<Rightarrow> memory_failure e \<and> window_ring w (items ring') h \<and> pos' = length h \<and> out' = out
    | Inr _ \<Rightarrow> window_ring w (items ring') (lz_copy h d n) \<and> pos' = length h + n \<and> out' = deliver False (drop (length h) (lz_copy h d n)) out)"
  using copy_body_window [OF assms(1-6)] assms(7) by (simp add: fits_out_def)

lemma window_ring_sample: "window_ring 64 (replicate 64 7) [7]"
  unfolding window_ring_def window_size_ok_def holds_def by (auto intro: exI [of _ 6])

theorem copy_refines_history_witness:
  "\<exists>r ring' pos' out' m'. copy_body Some 64 False 1 3 0 (\<lparr>items = replicate 64 7, capacity = 64\<rparr>, 1,
     no_output, memory_default) = Some (r, ring', pos', out', m')"
  using copy_refines_history [of 64 "\<lparr>items = replicate 64 7, capacity = 64\<rparr>" "[7]" 1 3 no_output Some 0 memory_default] window_ring_sample
  by (auto simp: delivers_def no_output_def)

text \<open>
  C37 (safety). Decoding straight into the caller's slice stays inside what this meta-block may
  write. If the slice starts with the history and the copy ends before \<open>hist_end\<close>, the slice then
  starts with the extended history, and nothing from \<open>hist_end\<close> on has changed.
\<close>

theorem linear_copy_safe:
  assumes "take (length h) (out_bytes out) = h" "0 < d" "d \<le> length h" "0 < n" "length h + n \<le> hist_end"
    and "hist_end \<le> length (out_bytes out)" "length (out_bytes out) < 2 ^ 63"
  shows "\<exists>out'. copy_body alloc w True d n hist_end (ring, length h, out, m) = Some (Inr (), ring, length h + n, out', m) \<and>
    take (length h + n) (out_bytes out') = lz_copy h d n \<and> length (out_bytes out') = length (out_bytes out) \<and>
    drop hist_end (out_bytes out') = drop hist_end (out_bytes out) \<and> out_produced out' = out_produced out + n"
  by (rule copy_body_linear [OF assms])

lemma drop3: "drop 3 [7::u8, 0, 0, 5] = [5]"
  by (simp add: numeral_eq_Suc)

theorem linear_copy_safe_witness:
  "\<exists>out'. copy_body Some 64 True 1 2 3 (vec_new, 1, no_output\<lparr>out_bytes := [7, 0, 0, 5]\<rparr>, memory_default) = Some (Inr (), vec_new, 3, out', memory_default) \<and>
     take 3 (out_bytes out') = [7, 7, 7] \<and> drop 3 (out_bytes out') = [5]"
proof -
  let ?out = "no_output\<lparr>out_bytes := [7, 0, 0, 5]\<rparr>"
  have bytes: "out_bytes ?out = [7, 0, 0, 5]" by simp
  have lz: "lz_copy [7] 1 2 = [7, 7, 7]" by (simp add: numeral_2_eq_2)
  have "\<exists>out'. copy_body Some 64 True 1 2 3 (vec_new, length [7::u8], ?out, memory_default) = Some (Inr (), vec_new, length [7::u8] + 2, out', memory_default) \<and>
    take (length [7::u8] + 2) (out_bytes out') = lz_copy [7] 1 2 \<and> length (out_bytes out') = length (out_bytes ?out) \<and>
    drop 3 (out_bytes out') = drop 3 (out_bytes ?out) \<and> out_produced out' = out_produced ?out + 2"
    by (rule linear_copy_safe) (simp_all add: bytes)
  moreover have "length [7::u8] = 1" "length [7::u8] + 2 = 3" by simp_all
  ultimately show ?thesis unfolding bytes lz by (metis drop3)
qed

text \<open>
  C38 (error). The budget of a call is exact. \<open>ready\<close> allows a byte precisely while \<open>produced\<close> is below
  \<open>fast_end\<close>; when the slice is full it waits, and otherwise it names the limit the next byte would
  break: the range of positions, then the output limit, then the declared size.
\<close>

theorem output_budget_exact:
  assumes "out_total_before out < 2 ^ 64" "next_total = out_total_before out + out_produced out + 1"
  shows "(out_ready out = Inr True \<longleftrightarrow> out_produced out < out_fast_end out) \<and>
    (out_ready out = Inr False \<longleftrightarrow> next_total < 2 ^ 64 \<and> (\<forall>l. out_limit out = Some l \<longrightarrow> next_total \<le> l) \<and>
       (\<forall>n. out_exact out = Exact n \<longrightarrow> next_total \<le> n) \<and> out_capacity out \<le> out_produced out) \<and>
    (\<forall>e. out_ready out = Inl e \<longleftrightarrow>
       (if 2 ^ 64 \<le> next_total then e = SizeOverflow
        else if \<exists>l. out_limit out = Some l \<and> l < next_total then out_limit out \<noteq> None \<and> e = OutputLimitExceeded (the (out_limit out))
        else \<exists>n. out_exact out = Exact n \<and> n < next_total \<and> e = OutputSizeMismatch n next_total))"
proof (intro conjI)
  have ready: "out_ready out = (if next_total < 2 ^ 64 then (case check_limit (out_limit out) next_total of Inl e \<Rightarrow> Inl e
      | Inr _ \<Rightarrow> (case check_exact (out_exact out) next_total of Inl e \<Rightarrow> Inl e | Inr _ \<Rightarrow> Inr (out_produced out < out_capacity out))) else Inl SizeOverflow)"
    unfolding out_ready_def checked_next assms(2)
    by (cases "out_total_before out + out_produced out + 1 < 2 ^ 64") (simp_all only: if_True if_False option.case)
  show "out_ready out = Inr True \<longleftrightarrow> out_produced out < out_fast_end out"
    unfolding ready out_fast_end_def using assms
    by (cases "out_limit out"; cases "out_exact out") (auto simp: check_limit_def check_exact_def Let_def)
  show "out_ready out = Inr False \<longleftrightarrow> next_total < 2 ^ 64 \<and> (\<forall>l. out_limit out = Some l \<longrightarrow> next_total \<le> l) \<and>
       (\<forall>n. out_exact out = Exact n \<longrightarrow> next_total \<le> n) \<and> out_capacity out \<le> out_produced out"
    unfolding ready by (cases "out_limit out"; cases "out_exact out") (auto simp: check_limit_def check_exact_def)
  show "\<forall>e. out_ready out = Inl e \<longleftrightarrow>
       (if 2 ^ 64 \<le> next_total then e = SizeOverflow
        else if \<exists>l. out_limit out = Some l \<and> l < next_total then out_limit out \<noteq> None \<and> e = OutputLimitExceeded (the (out_limit out))
        else \<exists>n. out_exact out = Exact n \<and> n < next_total \<and> e = OutputSizeMismatch n next_total)"
    unfolding ready by (cases "out_limit out"; cases "out_exact out") (auto simp: check_limit_def check_exact_def)
qed

theorem output_budget_exact_witness:
  "out_ready (no_output\<lparr>out_collect := None, out_limit := Some 0\<rparr>) = Inl (OutputLimitExceeded 0)"
  using output_budget_exact [of "no_output\<lparr>out_collect := None, out_limit := Some 0\<rparr>" 1] by (simp add: no_output_def)

end
