(* ===== verification/Varint.thy ===== *)
theory Varint
  imports Prelude
begin

unbundle bit_operations_syntax

text \<open>
  The base-128 integers of the container formats (\<open>compressor/core/rfc9841/varint.rs\<close>): seven value
  bits per byte, the high bit says that another byte follows; at most nine bytes.
\<close>

definition MAX_VARINT_BYTES :: nat where "MAX_VARINT_BYTES = 9"
definition MAX_VARINT :: nat where "MAX_VARINT = 2 ^ 63 - 1"

datatype varint_error = Truncated nat | Overlong | OutOfRange nat

function encoded_len_loop :: "nat \<Rightarrow> nat \<Rightarrow> nat" where
  "encoded_len_loop rest len = (if rest \<noteq> 0 then encoded_len_loop (shr rest 7) (len + 1) else len)"
  by pat_completeness auto
termination by (relation "measure fst") (auto simp: shr_div)

declare encoded_len_loop.simps [simp del]

definition encoded_len :: "nat \<Rightarrow> nat" where
  "encoded_len value = encoded_len_loop (shr value 7) 1"

text \<open>The loop over the first nine bytes; \<open>available\<close> is the length of the whole slice.\<close>

fun read_varint_loop :: "nat \<Rightarrow> u8 list \<Rightarrow> nat \<Rightarrow> nat \<Rightarrow> varint_error + nat \<times> nat" where
  "read_varint_loop available [] index value = Inl (Truncated available)"
| "read_varint_loop available (byte # bytes) index value =
     (let value' = value OR shl 64 (unat (byte AND 0x7F)) (7 * index) in
      if byte AND 0x80 = 0 then Inr (value', index + 1)
      else if index + 1 = MAX_VARINT_BYTES then Inl Overlong
      else read_varint_loop available bytes (index + 1) value')"

definition read_varint :: "u8 list \<Rightarrow> varint_error + nat \<times> nat" where
  "read_varint bytes = read_varint_loop (length bytes) (take MAX_VARINT_BYTES bytes) 0 0"

function write_varint_loop :: "nat \<Rightarrow> u8 list \<Rightarrow> u8 list" where
  "write_varint_loop rest out =
     (let byte = word_of_nat (rest AND 0x7F); rest' = shr rest 7 in
      if rest' = 0 then out @ [byte] else write_varint_loop rest' (out @ [byte OR 0x80]))"
  by pat_completeness auto
termination by (relation "measure fst") (auto simp: shr_div)

declare write_varint_loop.simps [simp del]

definition write_varint :: "nat \<Rightarrow> u8 list \<Rightarrow> (varint_error + unit) \<times> u8 list" where
  "write_varint value out =
     (if value > MAX_VARINT then (Inl (OutOfRange value), out) else (Inr (), write_varint_loop value out))"

section \<open>Bytes and groups of seven bits\<close>

lemma low_bits: "(n::nat) AND 0x7F = n mod 128"
  using AND_mask_nat [of n 7] by simp

lemma unat_low: "unat ((b::u8) AND 0x7F) = unat b mod 128"
  using AND_mask_nat [of "unat b" 7] by (simp add: unsigned_and_eq)

lemma bit_0x80: "bit (0x80::u8) n = (n = 7)"
proof -
  have "(0x80::u8) = 2 ^ 7" by simp
  then show ?thesis by (simp only: bit_exp_iff) auto
qed

lemma high_bit: "((b::u8) AND 0x80 = 0) = (unat b < 128)" "unat (b OR 0x80) mod 128 = unat b mod 128" "\<not> unat (b OR 0x80) < 128"
proof -
  have top: "bit c 7 = (\<not> unat c < 128)" for c :: u8
  proof -
    have "bit c 7 = bit (unat c) 7" by (simp add: bit_unsigned_iff)
    also have "\<dots> = odd (unat c div 2 ^ 7)" by (rule bit_iff_odd)
    also have "\<dots> = (\<not> unat c < 128)" proof (cases "unat c < 128")
      case False
      then have "unat c div 128 = 1" using unat_less_exp [of c] by (intro div_nat_eqI) simp_all
      then show ?thesis using False by simp
    qed simp
    finally show ?thesis .
  qed
  have at: "bit (b AND 0x80) n = (bit b n \<and> n = 7)" for n
    using bit_0x80 [of n] by (simp only: bit_and_iff)
  have "(b AND 0x80 = 0) = (\<not> bit b 7)"
  proof
    assume "b AND 0x80 = 0"
    then show "\<not> bit b 7" using at [of 7] by simp
  next
    assume n: "\<not> bit b 7"
    show "b AND 0x80 = 0"
    proof (rule bit_eqI)
      fix n show "bit (b AND 0x80) n = bit 0 n" using at [of n] n by (cases "n = 7") (simp_all only: simp_thms bit_0_eq bot_apply bot_bool_def)
    qed
  qed
  then show "(b AND 0x80 = 0) = (unat b < 128)" by (simp add: top)
  have "bit (b OR 0x80) 7" by (simp add: bit_or_iff bit_0x80)
  then show "\<not> unat (b OR 0x80) < 128" by (simp add: top)
  have "(b OR 0x80) AND 0x7F = b AND 0x7F" by (simp add: bit.conj_disj_distrib2)
  then show "unat (b OR 0x80) mod 128 = unat b mod 128" unfolding unat_low [symmetric] by simp
qed

section \<open>The value a byte sequence stands for\<close>

fun varint_value :: "u8 list \<Rightarrow> nat" where
  "varint_value [] = 0"
| "varint_value (b # bs) = unat b mod 128 + 128 * varint_value bs"

text \<open>A terminated sequence: every byte but the last has its high bit set.\<close>

definition varint_bytes :: "u8 list \<Rightarrow> bool" where
  "varint_bytes bs \<longleftrightarrow> bs \<noteq> [] \<and> unat (last bs) < 128 \<and> (\<forall>b\<in>set (butlast bs). 128 \<le> unat b)"

lemma varint_bytes_Cons: "varint_bytes (b # bs) = (if bs = [] then unat b < 128 else 128 \<le> unat b \<and> varint_bytes bs)"
  by (auto simp: varint_bytes_def)

lemma or_shl:
  assumes "value < 2 ^ (7 * index)" "v < 128" "index < 9"
  shows "value OR shl 64 v (7 * index) = value + 128 ^ index * v" "value + 128 ^ index * v < 2 ^ (7 * (index + 1))"
proof -
  have p: "(2::nat) ^ (7 * index) = 128 ^ index" by (simp add: power_mult)
  have "v * 2 ^ (7 * index) + 2 ^ (7 * index) = (v + 1) * 2 ^ (7 * index)" by simp
  also have "\<dots> \<le> 128 * 2 ^ (7 * index)" using assms(2) by (intro mult_le_mono) simp_all
  finally have lt: "v * 2 ^ (7 * index) + value < 128 * 2 ^ (7 * index)" using assms(1) by linarith
  have "(2::nat) ^ (7 * (index + 1)) = 128 * 128 ^ index" using power_mult [of "2::nat" 7 "index + 1"] by simp
  then show "value + 128 ^ index * v < 2 ^ (7 * (index + 1))" using lt unfolding p by (simp only: mult.commute add.commute)
  have "(2::nat) ^ (7 * index) \<le> 2 ^ 56" using assms(3) by (intro power_increasing) simp_all
  then have "v * 2 ^ (7 * index) < 2 ^ 64" using lt by simp
  from shl_or_low [OF assms(1) this] show "value OR shl 64 v (7 * index) = value + 128 ^ index * v"
    unfolding p by (metis or.commute add.commute mult.commute)
qed

definition open_bytes :: "u8 list \<Rightarrow> nat" where
  "open_bytes bs = length (takeWhile (\<lambda>b. 128 \<le> unat b) bs)"

lemma open_bytes_simps [simp]: "open_bytes [] = 0" "open_bytes (b # bs) = (if 128 \<le> unat b then Suc (open_bytes bs) else 0)"
  by (simp_all add: open_bytes_def)

lemma read_varint_loop_spec:
  assumes "length bs + index \<le> 9" "value < 2 ^ (7 * index)"
  shows "read_varint_loop available bs index value =
     (if open_bytes bs < length bs then Inr (value + 128 ^ index * varint_value (take (open_bytes bs + 1) bs), index + open_bytes bs + 1)
      else if bs \<noteq> [] \<and> length bs + index = 9 then Inl Overlong else Inl (Truncated available))"
  using assms
proof (induction available bs index "value" rule: read_varint_loop.induct)
  case (2 available b bs index "value")
  have i: "index < 9" "unat b mod 128 < 128" using 2(2) by simp_all
  note o = or_shl [OF 2(3) i(2,1)]
  show ?case
  proof (cases "unat b < 128")
    case True
    then show ?thesis using o by (simp add: high_bit(1) unat_low)
  next
    case False
    have IH: "bs \<noteq> [] \<Longrightarrow> read_varint_loop available bs (index + 1) (value + 128 ^ index * (unat b mod 128)) =
       (if open_bytes bs < length bs then Inr (value + 128 ^ index * (unat b mod 128) + 128 ^ (index + 1) * varint_value (take (open_bytes bs + 1) bs), index + 1 + open_bytes bs + 1)
        else if length bs + (index + 1) = 9 then Inl Overlong else Inl (Truncated available))"
      using 2(1) [OF refl] 2(2) o False by (cases "index + 1 = 9") (simp_all add: high_bit(1) unat_low MAX_VARINT_BYTES_def)
    show ?thesis
    proof (cases "bs = []")
      case True
      then show ?thesis using False i by (auto simp: high_bit(1) MAX_VARINT_BYTES_def)
    next
      case F2: False
      then have "index + 1 \<noteq> 9" using 2(2) by (cases bs) auto
      then show ?thesis using False IH [OF F2] o F2 by (simp add: high_bit(1) unat_low MAX_VARINT_BYTES_def algebra_simps)
    qed
  qed
qed simp

lemma varint_bytes_open: "varint_bytes bs \<longleftrightarrow> bs \<noteq> [] \<and> open_bytes bs + 1 = length bs"
  by (induction bs) (auto simp: varint_bytes_Cons varint_bytes_def)

lemma open_bytes_append: "varint_bytes bs \<Longrightarrow> open_bytes (bs @ rest) + 1 = length bs"
  by (induction bs) (auto simp: varint_bytes_Cons varint_bytes_def split: if_splits)

lemma write_varint_loop_spec:
  "\<exists>bs. write_varint_loop value out = out @ bs \<and> varint_bytes bs \<and> varint_value bs = value \<and> length bs = encoded_len value \<and>
     (\<forall>k. value < 128 ^ Suc k \<longrightarrow> length bs \<le> Suc k)"
proof (induction "value" out rule: write_varint_loop.induct)
  case (1 rest out)
  let ?b = "word_of_nat (rest AND 0x7F) :: u8" and ?r = "shr rest 7"
  have b: "unat ?b = rest mod 128" by (simp add: low_bits unsigned_of_nat take_bit_nat_eq_self)
  have step: "encoded_len_loop r (Suc n) = Suc (encoded_len_loop r n)" for r n
    by (induction r n rule: encoded_len_loop.induct) (subst (1 2) encoded_len_loop.simps, simp)
  show ?case
  proof (cases "?r = 0")
    case True
    then have "rest < 128" by (simp add: shr_div)
    then show ?thesis using True b
      by (subst write_varint_loop.simps) (auto simp: Let_def encoded_len_def encoded_len_loop.simps [of 0] intro!: exI [of _ "[?b]"] simp: varint_bytes_def)
  next
    case False
    obtain bs where bs: "write_varint_loop ?r (out @ [?b OR 0x80]) = (out @ [?b OR 0x80]) @ bs" "varint_bytes bs" "varint_value bs = ?r"
      "length bs = encoded_len ?r" "\<forall>k. ?r < 128 ^ Suc k \<longrightarrow> length bs \<le> Suc k"
      using "1.IH" [OF refl refl False] by blast
    have ne: "bs \<noteq> []" using bs(2) by (simp add: varint_bytes_def)
    have len: "encoded_len rest = Suc (encoded_len ?r)"
      using False step by (simp add: encoded_len_def encoded_len_loop.simps [of ?r])
    have "rest = rest mod 128 + 128 * ?r" by (simp add: shr_div)
    then have val: "varint_value ((?b OR 0x80) # bs) = rest" using bs(3) b by (simp add: high_bit(2))
    have "length bs \<le> k" if "rest < 128 ^ Suc k" for k
    proof (cases k)
      case 0
      then show ?thesis using that False by (simp add: shr_div)
    next
      case (Suc j)
      then have "?r < 128 ^ Suc j" using that by (simp add: shr_div less_mult_imp_div_less mult.commute)
      then show ?thesis using bs(5) Suc by blast
    qed
    then show ?thesis using False bs(1,2,4) val len ne high_bit(3) [of ?b]
      by (subst write_varint_loop.simps) (auto simp: Let_def varint_bytes_Cons intro!: exI [of _ "(?b OR 0x80) # bs"])
  qed
qed

section \<open>Properties\<close>

text \<open>
  C39 (roundtrip). Every value of at most 63 bits is written as a sequence of at most nine bytes, as
  many as \<open>encoded_len\<close> announces, and read back from the front of whatever follows it; a larger
  value is refused and nothing is written.
\<close>

theorem varint_roundtrip:
  "if value \<le> MAX_VARINT then
     (\<exists>bs. write_varint value out = (Inr (), out @ bs) \<and> length bs = encoded_len value \<and> length bs \<le> MAX_VARINT_BYTES \<and>
       (\<forall>rest. read_varint (bs @ rest) = Inr (value, length bs)))
   else write_varint value out = (Inl (OutOfRange value), out)"
proof (cases "value \<le> MAX_VARINT")
  case True
  obtain bs where bs: "write_varint_loop value out = out @ bs" "varint_bytes bs" "varint_value bs = value" "length bs = encoded_len value"
    "\<forall>k. value < 128 ^ Suc k \<longrightarrow> length bs \<le> Suc k"
    using write_varint_loop_spec [of "value" out] by blast
  have "value < 128 ^ Suc 8" using True by (simp add: MAX_VARINT_def)
  then have len: "length bs \<le> 9" using bs(5) by fastforce
  have "read_varint (bs @ rest) = Inr (value, length bs)" for rest
  proof -
    let ?t = "bs @ take (9 - length bs) rest"
    have t: "take MAX_VARINT_BYTES (bs @ rest) = ?t" using len by (simp add: MAX_VARINT_BYTES_def)
    have o: "open_bytes ?t + 1 = length bs" by (rule open_bytes_append [OF bs(2)])
    then have "take (open_bytes ?t + 1) ?t = bs" "open_bytes ?t < length ?t" by simp_all
    with read_varint_loop_spec [of ?t 0 0 "length (bs @ rest)"] o len bs(3) show ?thesis unfolding read_varint_def t by simp
  qed
  then show ?thesis using True bs(1,4) len by (auto simp: write_varint_def MAX_VARINT_BYTES_def)
qed (simp add: write_varint_def)

text \<open>
  C40 (error). Reading fails in exactly two ways. Nine bytes that all announce another one are
  overlong; fewer bytes of which none ends the sequence are truncated, and the error counts them;
  otherwise the first byte below 128 ends the sequence within nine bytes, and its groups of seven
  bits are the value.
\<close>

theorem varint_read_exact:
  "read_varint bytes =
     (let ends = takeWhile (\<lambda>b. 128 \<le> unat b) bytes in
      if 9 \<le> length ends then Inl Overlong
      else if length ends = length bytes then Inl (Truncated (length bytes))
      else Inr (varint_value (take (length ends + 1) bytes), length ends + 1))"
proof -
  have tw: "takeWhile P (take n xs) = take n (takeWhile P xs)" for P n and xs :: "u8 list"
    by (induction xs arbitrary: n) (auto simp: take_Cons split: nat.splits)
  have ob: "open_bytes (take 9 bytes) = min 9 (length (takeWhile (\<lambda>b. 128 \<le> unat b) bytes))"
    by (simp add: open_bytes_def tw min.commute)
  have oe: "open_bytes bytes = length (takeWhile (\<lambda>b. 128 \<le> unat b) bytes)" by (simp add: open_bytes_def)
  have le: "length (takeWhile (\<lambda>b. 128 \<le> unat b) bytes) \<le> length bytes" by (rule length_takeWhile_le)
  show ?thesis
    using read_varint_loop_spec [of "take 9 bytes" 0 0 "length bytes"] le
    by (auto simp: read_varint_def MAX_VARINT_BYTES_def ob oe Let_def min_def)
qed

end
