(* ===== verification/Word_Dictionary.thy ===== *)
theory Word_Dictionary
  imports Memory Bit_Writer "HOL-Library.Sublist"
begin

unbundle bit_operations_syntax

text \<open>
  What a distance past the window refers to: the bytes of an attached prefix
  (\<open>shared/decode_dictionary.rs\<close>, \<open>dictionary/mod.rs\<close>) or a word of the built-in dictionary under a
  transform (\<open>decompressor/core/dictionary.rs\<close>, \<open>shared/dictionary/transform.rs\<close>), as built without
  the feature \<open>experimental\<close>. The binary files the build includes, the words, the transform triples
  and their strings, are the argument \<open>word_data\<close>. A dictionary is one built for decoding only.
\<close>

section \<open>Transforms\<close>

definition SCRATCH_BYTES :: nat where "SCRATCH_BYTES = 2 * 255 + 31"

record word_data =
  wd_words :: "u8 list"
  wd_triples :: "u8 list"
  wd_strings :: "u8 list"

record transform =
  tr_prefix :: "u8 list"
  tr_operation :: nat
  tr_suffix :: "u8 list"

function stringlet_offsets_from :: "u8 list \<Rightarrow> nat \<Rightarrow> nat \<Rightarrow> nat list \<Rightarrow> nat list" where
  "stringlet_offsets_from strings idx start offsets =
     (if idx < length offsets \<and> start < length strings then
        stringlet_offsets_from strings (idx + 1) (start + unat (strings ! start) + 1) (offsets[idx := take_bit 16 start])
      else offsets)"
  by pat_completeness auto
termination by (relation "measure (\<lambda>(strings, idx, start, offsets). length offsets - idx)") auto

declare stringlet_offsets_from.simps [simp del]

definition stringlet_offsets :: "u8 list \<Rightarrow> nat list" where
  "stringlet_offsets strings = stringlet_offsets_from strings 0 0 (replicate 64 0)"

definition stringlet :: "u8 list \<Rightarrow> u8 \<Rightarrow> u8 list" where
  "stringlet strings ident =
     (let start = stringlet_offsets strings ! unat ident in take (unat (strings ! start)) (drop (start + 1) strings))"

definition transform_builtin :: "word_data \<Rightarrow> nat \<Rightarrow> transform option" where
  "transform_builtin wd idx =
     (if idx * 3 < 2 ^ 64 \<and> idx * 3 + 3 \<le> length (wd_triples wd) then
        (let triple = take 3 (drop (idx * 3) (wd_triples wd)) in
         Some \<lparr>tr_prefix = stringlet (wd_strings wd) (triple ! 0), tr_operation = unat (triple ! 1),
               tr_suffix = stringlet (wd_strings wd) (triple ! 2)\<rparr>)
      else None)"

definition is_ascii_lowercase :: "u8 \<Rightarrow> bool" where
  "is_ascii_lowercase b \<longleftrightarrow> 97 \<le> unat b \<and> unat b \<le> 122"

definition ferment_step :: "u8 \<Rightarrow> nat" where
  "ferment_step byte = (if unat byte < 0xc0 then 1 else if unat byte < 0xe0 then 2 else 3)"

definition ferment_byte :: "nat \<Rightarrow> u8 list \<Rightarrow> u8 list" where
  "ferment_byte pos bytes =
     (let byte = bytes ! pos in
      if unat byte < 0xc0 then (if is_ascii_lowercase byte then bytes[pos := byte XOR 32] else bytes)
      else if unat byte < 0xe0 then bytes[pos + 1 := bytes ! (pos + 1) XOR 32]
      else bytes[pos + 2 := bytes ! (pos + 2) XOR 5])"

function ferment :: "bool \<Rightarrow> nat \<Rightarrow> nat \<Rightarrow> u8 list \<Rightarrow> u8 list" where
  "ferment all_letters len pos bytes =
     (if pos < len then
        (let bytes' = ferment_byte pos bytes in
         if all_letters then ferment all_letters len (pos + ferment_step (bytes ! pos)) bytes' else bytes')
      else bytes)"
  by pat_completeness auto
termination by (relation "measure (\<lambda>(all_letters, len, pos, bytes). len - pos)") (auto simp: ferment_step_def)

declare ferment.simps [simp del]

definition transform_body :: "nat \<Rightarrow> u8 list \<Rightarrow> u8 list" where
  "transform_body operation word =
     (if operation \<le> 9 then take (length word - operation) word
      else if 12 \<le> operation \<and> operation \<le> 20 then drop (min (operation - 11) (length word)) word
      else word)"

definition transform_apply :: "transform \<Rightarrow> u8 list \<Rightarrow> u8 list \<Rightarrow> nat \<times> u8 list" where
  "transform_apply t word scratch =
     (let body = transform_body (tr_operation t) word;
          start = length (tr_prefix t);
          fin = start + length body;
          scratch1 = store_at (store_at scratch 0 (tr_prefix t)) start body;
          scratch2 = (if tr_operation t = 10 \<or> tr_operation t = 11
            then take start scratch1 @ ferment (tr_operation t = 11) (length body) 0 (drop start scratch1) else scratch1)
      in (fin + length (tr_suffix t), store_at scratch2 fin (tr_suffix t)))"

section \<open>Words\<close>

definition BUILTIN_OFFSETS_BY_LENGTH :: "nat list" where
  "BUILTIN_OFFSETS_BY_LENGTH =
     [0, 0, 0, 0, 0, 4096, 9216, 21504, 35840, 44032, 53248, 63488, 74752, 87040, 93696, 100864,
      104704, 106752, 108928, 113536, 115968, 118528, 119872, 121280, 122016, 122784,
      122784, 122784, 122784, 122784, 122784, 122784]"

definition BUILTIN_SIZE_BITS_BY_LENGTH :: "nat list" where
  "BUILTIN_SIZE_BITS_BY_LENGTH =
     [0, 0, 0, 0, 10, 10, 11, 11, 10, 10, 10, 10, 10, 9, 9, 8, 7, 7, 8, 7, 7, 6, 6, 5, 5, 0, 0, 0, 0, 0, 0, 0]"

definition dictionary_resolve :: "word_data \<Rightarrow> nat \<Rightarrow> nat \<Rightarrow> u8 list \<Rightarrow> (decode_error + nat) \<times> u8 list" where
  "dictionary_resolve wd address len scratch =
     (if \<not> (4 \<le> len \<and> len \<le> 24) then (Inl (InvalidData DictionaryReference), scratch)
      else
        (let width = BUILTIN_SIZE_BITS_BY_LENGTH ! len in
         case transform_builtin wd (shr address width) of
           None \<Rightarrow> (Inl (InvalidData DictionaryReference), scratch)
         | Some t \<Rightarrow>
             (let idx = address AND (shl 64 1 width - 1);
                  offset = BUILTIN_OFFSETS_BY_LENGTH ! len + idx * len;
                  (n, scratch') = transform_apply t (take len (drop offset (wd_words wd))) scratch
              in (Inr n, scratch'))))"

section \<open>Prefixes\<close>

datatype dictionary_error =
    TooManyAttachments
  | SourceLimitExceeded nat
  | DictionaryMemoryLimitExceeded nat
  | DictionaryAllocationFailed
  | DictionarySizeOverflow

record dictionary_limits =
  max_source_bytes :: "nat option"
  max_owned_bytes :: "nat option"

record prefixes =
  pf_segments :: "u8 vec list"
  pf_count :: nat
  pf_total :: nat
  pf_retained :: nat

definition prefixes_default :: prefixes where
  "prefixes_default = \<lparr>pf_segments = replicate 15 vec_new, pf_count = 0, pf_total = 0, pf_retained = 0\<rparr>"

definition prefix_attach :: "(nat \<Rightarrow> nat option) \<Rightarrow> dictionary_limits \<Rightarrow> u8 list \<Rightarrow> prefixes \<Rightarrow> dictionary_error + prefixes" where
  "prefix_attach alloc limits source p =
     (if pf_count p = length (pf_segments p) then Inl TooManyAttachments
      else case checked_add 64 (pf_retained p) (length source) of
        None \<Rightarrow> Inl DictionarySizeOverflow
      | Some nxt \<Rightarrow>
          (let attach = (case checked_add 64 (pf_total p) (length source) of
             None \<Rightarrow> Inl DictionarySizeOverflow
           | Some grand \<Rightarrow>
               (case (if source = [] then Some 0 else alloc (length source)) of
                  None \<Rightarrow> Inl DictionaryAllocationFailed
                | Some cap \<Rightarrow> Inr (p\<lparr>pf_segments := (pf_segments p)[pf_count p := \<lparr>items = source, capacity = cap\<rparr>],
                    pf_count := pf_count p + 1, pf_total := grand, pf_retained := pf_retained p + cap\<rparr>)))
           in case max_owned_bytes limits of
                Some l \<Rightarrow> if nxt > l then Inl (DictionaryMemoryLimitExceeded l) else attach
              | None \<Rightarrow> attach))"

fun prefixes_attach_all :: "(nat \<Rightarrow> nat option) \<Rightarrow> dictionary_limits \<Rightarrow> u8 list list \<Rightarrow> nat \<Rightarrow> prefixes \<Rightarrow> dictionary_error + prefixes" where
  "prefixes_attach_all alloc limits [] grand p = Inr p"
| "prefixes_attach_all alloc limits (source # rest) grand p =
     (case checked_add 64 grand (length source) of
        None \<Rightarrow> Inl DictionarySizeOverflow
      | Some grand' \<Rightarrow>
          (let attach = (case prefix_attach alloc limits source p of
             Inl e \<Rightarrow> Inl e | Inr p' \<Rightarrow> prefixes_attach_all alloc limits rest grand' p')
           in case max_source_bytes limits of
                Some l \<Rightarrow> if grand' > l then Inl (SourceLimitExceeded l) else attach
              | None \<Rightarrow> attach))"

definition prefixes_build :: "(nat \<Rightarrow> nat option) \<Rightarrow> dictionary_limits \<Rightarrow> u8 list list \<Rightarrow> dictionary_error + prefixes" where
  "prefixes_build alloc limits attachments = prefixes_attach_all alloc limits attachments 0 prefixes_default"

fun segment_run :: "u8 vec list \<Rightarrow> nat \<Rightarrow> u8 list" where
  "segment_run [] offset = []"
| "segment_run (segment # segments) offset =
     (if offset < length (items segment) then drop offset (items segment)
      else segment_run segments (offset - length (items segment)))"

definition prefix_run :: "prefixes \<Rightarrow> nat \<Rightarrow> u8 list" where
  "prefix_run p = segment_run (take (pf_count p) (pf_segments p))"

section \<open>The bytes of a prefix\<close>

lemma segment_run_prefix: "prefix (segment_run segments offset) (drop offset (concat (map items segments)))"
  by (induction segments arbitrary: offset) simp_all

lemma segment_run_empty: "segment_run segments offset = [] \<longleftrightarrow> length (concat (map items segments)) \<le> offset"
proof (induction segments arbitrary: offset)
  case (Cons s segments)
  show ?case by (cases "offset < length (items s)") (auto simp: Cons)
qed simp

definition prefixes_hold :: "u8 list list \<Rightarrow> prefixes \<Rightarrow> bool" where
  "prefixes_hold sources p \<longleftrightarrow> length (pf_segments p) = 15 \<and> pf_count p = length sources \<and> length sources \<le> 15 \<and>
     map items (take (pf_count p) (pf_segments p)) = sources \<and> pf_total p = length (concat sources)"

lemma prefix_attach_holds:
  assumes "prefixes_hold sources p" "prefix_attach alloc limits source p = Inr p'"
  shows "prefixes_hold (sources @ [source]) p'"
proof -
  have c: "pf_count p \<noteq> length (pf_segments p)" using assms(2) by (auto simp: prefix_attach_def)
  then have n: "pf_count p < 15" "length (pf_segments p) = 15" using assms(1) by (auto simp: prefixes_hold_def)
  define cap where "cap = the (if source = [] then Some 0 else alloc (length source))"
  have p': "p' = p\<lparr>pf_segments := (pf_segments p)[pf_count p := \<lparr>items = source, capacity = cap\<rparr>],
      pf_count := pf_count p + 1, pf_total := pf_total p + length source, pf_retained := pf_retained p + cap\<rparr>"
    using assms(2) c by (auto simp: prefix_attach_def Let_def checked_add_def cap_def split: option.splits if_splits)
  have "take (Suc (pf_count p)) ((pf_segments p)[pf_count p := v]) = take (pf_count p) (pf_segments p) @ [v]" for v
    using n by (simp add: take_Suc_conv_app_nth)
  moreover have "map items (take (pf_count p) (pf_segments p)) = sources" "pf_count p = length sources" "pf_total p = length (concat sources)"
    using assms(1) unfolding prefixes_hold_def by blast+
  ultimately show ?thesis using n unfolding prefixes_hold_def p' by (auto simp: Suc_leI)
qed

lemma prefixes_attach_all_hold:
  assumes "prefixes_hold before p" "prefixes_attach_all alloc limits sources grand p = Inr p'"
  shows "prefixes_hold (before @ sources) p'"
  using assms
proof (induction sources arbitrary: before grand p)
  case (Cons source rest)
  then obtain p1 grand1 where p1: "prefix_attach alloc limits source p = Inr p1" "prefixes_attach_all alloc limits rest grand1 p1 = Inr p'"
    by (auto simp: Let_def split: option.splits if_splits sum.splits)
  from Cons.IH [OF prefix_attach_holds [OF Cons.prems(1) p1(1)] p1(2)] show ?case by simp
qed simp

lemma prefixes_build_holds: "prefixes_build alloc limits sources = Inr p \<Longrightarrow> prefixes_hold sources p"
proof -
  have "prefixes_hold [] prefixes_default" by (simp add: prefixes_hold_def prefixes_default_def)
  from prefixes_attach_all_hold [OF this] show "prefixes_build alloc limits sources = Inr p \<Longrightarrow> prefixes_hold sources p"
    by (simp add: prefixes_build_def)
qed

lemma prefixes_attach_all_budget:
  "prefixes_attach_all alloc limits sources grand p = Inr p' \<Longrightarrow> max_source_bytes limits = Some l \<Longrightarrow>
   grand \<le> l \<Longrightarrow> grand + length (concat sources) \<le> l"
proof (induction sources arbitrary: grand p)
  case (Cons source rest)
  then obtain p1 where p1: "prefixes_attach_all alloc limits rest (grand + length source) p1 = Inr p'" "grand + length source \<le> l"
    by (auto simp: Let_def checked_add_def split: option.splits if_splits sum.splits)
  from Cons.IH [OF p1(1) Cons.prems(2) p1(2)] show ?case by simp
qed simp

text \<open>
  C11 (functional). A prefix dictionary is the concatenation of its attachments: at most fifteen,
  within the source budget, their total as its length, and the run at an offset is a stretch of
  that concatenation from the offset on, empty exactly from the end on. So a copy that goes from
  run to run reads the concatenation, whatever the segments.
\<close>

theorem prefix_dictionary_exact:
  assumes "prefixes_build alloc limits sources = Inr p"
  shows "length sources \<le> 15 \<and> pf_total p = length (concat sources) \<and> (\<forall>l. max_source_bytes limits = Some l \<longrightarrow> pf_total p \<le> l) \<and>
    prefix (prefix_run p offset) (drop offset (concat sources)) \<and> (prefix_run p offset = [] \<longleftrightarrow> pf_total p \<le> offset)"
proof -
  let ?held = "take (pf_count p) (pf_segments p)"
  have h: "length sources \<le> 15" "map items ?held = sources" "pf_total p = length (concat sources)"
    using prefixes_build_holds [OF assms] unfolding prefixes_hold_def by blast+
  have b: "length (concat sources) \<le> l" if "max_source_bytes limits = Some l" for l
    using prefixes_attach_all_budget [OF assms [unfolded prefixes_build_def] that] by simp
  show ?thesis using h(1,3) b segment_run_prefix [of ?held offset] segment_run_empty [of ?held offset] unfolding prefix_run_def h(2) by simp
qed

theorem prefix_dictionary_exact_witness:
  "\<exists>p. prefixes_build Some \<lparr>max_source_bytes = Some 4, max_owned_bytes = None\<rparr> [[1, 2], [], [3]] = Inr p \<and>
     length [[1, 2 :: u8], [], [3]] \<le> 15 \<and> pf_total p = length (concat [[1, 2 :: u8], [], [3]]) \<and>
     (\<forall>l. max_source_bytes \<lparr>max_source_bytes = Some 4, max_owned_bytes = None\<rparr> = Some l \<longrightarrow> pf_total p \<le> l) \<and>
     prefix (prefix_run p 1) (drop 1 (concat [[1, 2], [], [3]])) \<and> (prefix_run p 1 = [] \<longleftrightarrow> pf_total p \<le> 1)"
proof -
  obtain p where p: "prefixes_build Some \<lparr>max_source_bytes = Some 4, max_owned_bytes = None\<rparr> [[1, 2], [], [3]] = Inr p"
    by (simp add: prefixes_build_def prefix_attach_def prefixes_default_def checked_add_def)
  with prefix_dictionary_exact [OF p, of 1] show ?thesis by blast
qed

end
