(* ===== verification/Stream_State.thy ===== *)
theory Stream_State
  imports Word_Dictionary Map_Safety History_Growth Distance Command
begin

unbundle bit_operations_syntax

text \<open>
  The state of the decoder (\<open>Stream\<close> and \<open>Tables\<close> of \<open>decompressor/core/stream.rs\<close>) and the operations on
  it that the stages share. What the stages take from outside is the \<open>environment\<close>: the allocator,
  the number of bytes the compiler gives a \<open>Tables\<close>, the window limit of the configuration, the
  dictionary of the call and the built-in words. The machine of one call is the state with the
  call's input and output. A step is an option, so that an inner loop that does not return is \<open>None\<close>.
\<close>

section \<open>State\<close>

datatype stage =
    SWindow
  | SMeta
  | SMetadata
  | SRaw
  | SBlocks nat
  | SDistanceParams
  | SModes nat
  | SMaps nat
  | STrees nat nat
  | SCommand
  | SInsertExtra nat nat
  | SCopyExtra nat
  | SLiterals
  | SDistance
  | SDistanceExtra nat
  | SDistanceExtraHigh nat nat
  | SResolve
  | SCopy
  | SDictionary
  | SPrefix nat nat
  | SPrefixHistory nat nat
  | SEndBlock
  | SEnd

datatype stop = Stop_Input | Stop_Output | Stop_Member

record dtables =
  dt_builder :: builder
  dt_blocks :: "block list"
  dt_modes :: "nat list"
  dt_maps :: "context_map list"
  dt_trees :: "group list"
  dt_distances :: distance_layout
  dt_distance_table :: "partial_distance vec"
  dt_table_layout :: "distance_layout option"
  dt_scratch :: "u8 list"
  dt_scratch_pos :: nat
  dt_scratch_len :: nat

definition layout_default :: distance_layout where
  "layout_default = \<lparr>postfix = 0, direct = 0, large = False\<rparr>"

definition dtables_default :: dtables where
  "dtables_default = \<lparr>dt_builder = builder_default, dt_blocks = replicate 3 block_default, dt_modes = replicate 256 0,
     dt_maps = replicate 2 context_map_default, dt_trees = replicate 3 group_default, dt_distances = layout_default,
     dt_distance_table = vec_new, dt_table_layout = None, dt_scratch = replicate SCRATCH_BYTES 0,
     dt_scratch_pos = 0, dt_scratch_len = 0\<rparr>"

record dstream =
  ds_bits :: bits
  ds_stage :: stage
  ds_memory :: memory
  ds_ring :: "u8 vec"
  ds_prefix_history :: "u8 vec"
  ds_position :: nat
  ds_window_size :: nat
  ds_max_backward :: nat
  ds_window :: "window option"
  ds_large :: bool
  ds_last :: bool
  ds_remaining :: nat
  ds_tables :: "dtables vec"
  ds_literals :: nat
  ds_copy :: nat
  ds_implicit :: bool
  ds_distance :: nat
  ds_distance_code :: nat
  ds_cache :: cache

definition dstream_default :: dstream where
  "dstream_default = \<lparr>ds_bits = bits_default, ds_stage = SWindow, ds_memory = memory_default, ds_ring = vec_new,
     ds_prefix_history = vec_new, ds_position = 0, ds_window_size = 0, ds_max_backward = 0, ds_window = None,
     ds_large = False, ds_last = False, ds_remaining = 0, ds_tables = vec_new, ds_literals = 0, ds_copy = 0,
     ds_implicit = False, ds_distance = 0, ds_distance_code = 0, ds_cache = cache_default\<rparr>"

record environment =
  en_alloc :: "nat \<Rightarrow> nat option"
  en_tables_size :: nat
  en_window_limit :: window_limit
  en_dictionary :: "prefixes option"
  en_words :: word_data

type_synonym machine = "dstream \<times> input \<times> caller_output"

section \<open>Operations on the state\<close>

definition dl_retained_bytes :: "dstream \<Rightarrow> nat" where
  "dl_retained_bytes d = live (ds_memory d)"

definition take_collected :: "dstream \<Rightarrow> u8 list \<times> dstream" where
  "take_collected d =
     (take (ds_position d) (items (ds_ring d)),
      d\<lparr>ds_ring := vec_new, ds_memory := (ds_memory d)\<lparr>live := live (ds_memory d) - capacity (ds_ring d)\<rparr>\<rparr>)"

definition collected :: "dstream \<Rightarrow> u8 list" where
  "collected d = take (ds_position d) (items (ds_ring d))"

definition declared_remaining :: "dstream \<Rightarrow> nat" where
  "declared_remaining d =
     (case ds_stage d of
        SWindow \<Rightarrow> 0 | SMeta \<Rightarrow> 0 | SMetadata \<Rightarrow> 0 | SEndBlock \<Rightarrow> 0 | SEnd \<Rightarrow> 0
      | _ \<Rightarrow> ds_remaining d)"

text \<open>\<open>tables.first_mut()\<close>, and storing what was changed through it.\<close>

definition first_tables :: "dstream \<Rightarrow> dtables option" where
  "first_tables d = (case items (ds_tables d) of [] \<Rightarrow> None | t # _ \<Rightarrow> Some t)"

definition put_tables :: "dtables \<Rightarrow> dstream \<Rightarrow> dstream" where
  "put_tables t d = d\<lparr>ds_tables := (ds_tables d)\<lparr>items := (items (ds_tables d))[0 := t]\<rparr>\<rparr>"

text \<open>\<open>reset\<close> takes the workspace limit of the configuration.\<close>

definition dstream_reset :: "nat option \<Rightarrow> dstream \<Rightarrow> dstream" where
  "dstream_reset limit d0 =
     (let d = d0\<lparr>ds_bits := bits_default, ds_stage := SWindow\<rparr>;
          d1 = (case first_tables d of
            Some t \<Rightarrow> put_tables (t\<lparr>dt_builder := builder_reset (dt_builder t)\<rparr>) d | None \<Rightarrow> d)
      in d1\<lparr>ds_prefix_history := (ds_prefix_history d1)\<lparr>items := []\<rparr>, ds_position := 0, ds_window := None,
            ds_cache := cache_default, ds_memory := (ds_memory d1)\<lparr>mlimit := limit\<rparr>\<rparr>)"

definition ensure_tables :: "environment \<Rightarrow> dstream \<Rightarrow> (decode_error + unit) \<times> dstream" where
  "ensure_tables env d =
     (if items (ds_tables d) = [] then
        (case reserve (en_alloc env) (en_tables_size env) (ds_tables d) 1 (ds_memory d) of
           (Inl e, v, m) \<Rightarrow> (Inl e, d\<lparr>ds_tables := v, ds_memory := m\<rparr>)
         | (Inr _, v, m) \<Rightarrow> (Inr (), d\<lparr>ds_tables := v\<lparr>items := items v @ [dtables_default]\<rparr>, ds_memory := m\<rparr>))
      else (Inr (), d))"

text \<open>The bytes history positions index in this call.\<close>

definition dl_history :: "bool \<Rightarrow> dstream \<Rightarrow> caller_output \<Rightarrow> u8 list" where
  "dl_history linear d out = (if linear then out_bytes out else items (ds_ring d))"

definition dl_context :: "dtables \<Rightarrow> u8 list \<Rightarrow> nat \<Rightarrow> nat" where
  "dl_context t hist pos =
     (let (p1, p2) = previous_bytes hist pos
      in literal_context (dt_modes t ! bk_current (dt_blocks t ! 0)) p1 p2)"

definition prefix_len :: "environment \<Rightarrow> nat" where
  "prefix_len env = (case en_dictionary env of None \<Rightarrow> 0 | Some p \<Rightarrow> pf_total p)"

definition prefix_bytes :: "environment \<Rightarrow> nat \<Rightarrow> u8 list" where
  "prefix_bytes env offset = (case en_dictionary env of None \<Rightarrow> [] | Some p \<Rightarrow> prefix_run p offset)"

text \<open>\<open>fill_table\<close> with its allocation.\<close>

definition refill_distance_table :: "(nat \<Rightarrow> nat option) \<Rightarrow> distance_layout \<Rightarrow> partial_distance vec \<Rightarrow> memory \<Rightarrow>
    (decode_error + unit) \<times> partial_distance vec \<times> memory" where
  "refill_distance_table alloc l v m =
     (case reserve alloc 16 (v\<lparr>items := []\<rparr>) (alphabet l) m of
        (Inl e, v', m') \<Rightarrow> (Inl e, v', m')
      | (Inr _, v', m') \<Rightarrow> (Inr (), v'\<lparr>items := items v' @ fill_table l\<rparr>, m'))"

text \<open>\<open>emit\<close> on the fields of the state.\<close>

definition emit_byte :: "environment \<Rightarrow> bool \<Rightarrow> u8 \<Rightarrow> dstream \<times> caller_output \<Rightarrow> (decode_error + unit) \<times> dstream \<times> caller_output" where
  "emit_byte env linear byte = (\<lambda>(d, out).
     case dl_emit (en_alloc env) (ds_window_size d) linear byte (ds_ring d, ds_position d, ds_remaining d, out, ds_memory d) of
       (r, ring, pos, remaining, out', m) \<Rightarrow>
         (r, d\<lparr>ds_ring := ring, ds_position := pos, ds_remaining := remaining, ds_memory := m\<rparr>, out'))"

section \<open>Steps\<close>

datatype outcome = Continue | Stopped stop | Failed decode_error

type_synonym step = "(outcome \<times> machine) option"

text \<open>A read that stops the call when the input is short, as \<open>read!\<close> and the parsers' \<open>let else\<close>.\<close>

fun await :: "(decode_error + 'a option) \<times> reader \<Rightarrow> dstream \<Rightarrow> caller_output \<Rightarrow> ('a \<Rightarrow> machine \<Rightarrow> step) \<Rightarrow> step" where
  "await (Inl e, b, i) d out k = Some (Failed e, d\<lparr>ds_bits := b\<rparr>, i, out)"
| "await (Inr None, b, i) d out k = Some (Stopped Stop_Input, d\<lparr>ds_bits := b\<rparr>, i, out)"
| "await (Inr (Some v), b, i) d out k = k v (d\<lparr>ds_bits := b\<rparr>, i, out)"

text \<open>The guard of every stage that writes output.\<close>

definition when_ready :: "machine \<Rightarrow> step \<Rightarrow> step" where
  "when_ready mc k =
     (case out_ready (snd (snd mc)) of
        Inl e \<Rightarrow> Some (Failed e, mc)
      | Inr True \<Rightarrow> k
      | Inr False \<Rightarrow> Some (Stopped Stop_Output, mc))"

definition with_tables :: "machine \<Rightarrow> (dtables \<Rightarrow> step) \<Rightarrow> step" where
  "with_tables mc k =
     (case first_tables (fst mc) of
        None \<Rightarrow> Some (Failed InternalInvariant, mc)
      | Some t \<Rightarrow> k t)"

definition goto :: "stage \<Rightarrow> machine \<Rightarrow> step" where
  "goto stg = (\<lambda>(d, i, out). Some (Continue, d\<lparr>ds_stage := stg\<rparr>, i, out))"

end
