(* ===== verification/Fast_Path.thy ===== *)
theory Fast_Path
  imports Stream_State
begin

unbundle bit_operations_syntax

text \<open>
  The bulk loop over commands (\<open>Stream::fast\<close> of \<open>decompressor/core/stream.rs\<close>). Its locals that are
  written back on leaving are the fields of the state they are written back to, since every way out
  writes them all back; the input cursor is the call's own. What it caches per block type (the
  command table, the contexts, the distance trees) depends only on the block types and on tables
  that do not change meanwhile, and is written where it is used. In a linear call the history is the
  visible part of the caller's slice, taken out of the output until the loop leaves.
\<close>

section \<open>State\<close>

record fast =
  fa_stream :: dstream
  fa_input :: input
  fa_output :: caller_output
  fa_tables :: dtables
  fa_flushed :: nat
  fa_space :: nat
  fa_linear :: "u8 list"
  fa_hidden :: "u8 list"

datatype fast_exit = Pause stage | Raise decode_error

datatype pause = P_Done | P_Input | P_Output

definition fa_ring :: "bool \<Rightarrow> fast \<Rightarrow> u8 list" where
  "fa_ring linear f = (if linear then fa_linear f else items (ds_ring (fa_stream f)))"

definition set_ring :: "bool \<Rightarrow> u8 list \<Rightarrow> fast \<Rightarrow> fast" where
  "set_ring linear ring f =
     (if linear then f\<lparr>fa_linear := ring\<rparr>
      else f\<lparr>fa_stream := (fa_stream f)\<lparr>ds_ring := (ds_ring (fa_stream f))\<lparr>items := ring\<rparr>\<rparr>\<rparr>)"

definition fa_mask :: "bool \<Rightarrow> fast \<Rightarrow> nat" where
  "fa_mask linear f = (if linear then 2 ^ 64 - 1 else history_mask (length (fa_ring linear f)))"

definition ring_limit :: "bool \<Rightarrow> fast \<Rightarrow> nat" where
  "ring_limit linear f =
     (let len = length (fa_ring linear f)
      in if linear \<or> len \<ge> ds_window_size (fa_stream f) then 2 ^ 64 - 1 else len)"

definition fa_reader :: "fast \<Rightarrow> reader" where
  "fa_reader f = (ds_bits (fa_stream f), fa_input f)"

definition set_reader :: "reader \<Rightarrow> fast \<Rightarrow> fast" where
  "set_reader s f = f\<lparr>fa_stream := (fa_stream f)\<lparr>ds_bits := fst s\<rparr>, fa_input := snd s\<rparr>"

definition set_bits :: "bits \<Rightarrow> fast \<Rightarrow> fast" where
  "set_bits b f = f\<lparr>fa_stream := (fa_stream f)\<lparr>ds_bits := b\<rparr>\<rparr>"

definition fa_block :: "nat \<Rightarrow> fast \<Rightarrow> block" where
  "fa_block k f = dt_blocks (fa_tables f) ! k"

definition set_block :: "nat \<Rightarrow> block \<Rightarrow> fast \<Rightarrow> fast" where
  "set_block k b f = f\<lparr>fa_tables := (fa_tables f)\<lparr>dt_blocks := (dt_blocks (fa_tables f))[k := b]\<rparr>\<rparr>"

definition fa_table :: "nat \<Rightarrow> nat \<Rightarrow> fast \<Rightarrow> table" where
  "fa_table kind tree f = group_table (dt_trees (fa_tables f) ! kind) tree"

text \<open>\<open>bits.refill_rest(&mut rest)\<close> unless \<open>bits.count()\<close> already suffices.\<close>

definition refill_unless :: "nat \<Rightarrow> reader \<Rightarrow> bool \<times> reader" where
  "refill_unless n s = (if bcount (fst s) < n then refill s else (True, s))"

definition fast_flush :: "bool \<Rightarrow> fast \<Rightarrow> fast" where
  "fast_flush linear f =
     (case flush_ring linear (fa_ring linear f) (ds_position (fa_stream f)) (fa_flushed f, fa_output f) of
        (flushed, out) \<Rightarrow> f\<lparr>fa_flushed := flushed, fa_output := out\<rparr>)"

text \<open>\<open>leave!\<close>\<close>

definition fast_leave :: "bool \<Rightarrow> fast \<Rightarrow> machine" where
  "fast_leave linear f =
     (let g = fast_flush linear f
      in (put_tables (fa_tables g) (fa_stream g), fa_input g,
          (if linear then (fa_output g)\<lparr>out_bytes := fa_linear g @ fa_hidden g\<rparr> else fa_output g)))"

text \<open>\<open>reach!\<close>\<close>

definition fast_reach :: "environment \<Rightarrow> bool \<Rightarrow> nat \<Rightarrow> fast \<Rightarrow> (decode_error + unit) \<times> fast" where
  "fast_reach env linear fin f =
     (if \<not> linear \<and> fin > ring_limit linear f then
        (let d = fa_stream f;
             bound = min (ds_position d + min (ds_remaining d) (fa_space f)) (2 ^ 64 - 1)
         in case grow_ring (en_alloc env) (ds_window_size d) bound (ds_ring d, ds_memory d) of
              (r, ring, m) \<Rightarrow> (r, f\<lparr>fa_stream := d\<lparr>ds_ring := ring, ds_memory := m\<rparr>\<rparr>))
      else (Inr (), f))"

section \<open>Literals\<close>

text \<open>The batches of three literals of one tree; the rest is left to the scalar loop.\<close>

fun trivial_batches :: "table \<Rightarrow> nat \<Rightarrow> nat \<Rightarrow> nat \<Rightarrow> u8 list \<times> reader \<Rightarrow> nat \<times> u8 list \<times> reader" where
  "trivial_batches t 0 at filled (ring, s) = (filled, ring, s)"
| "trivial_batches t (Suc batches) at filled (ring, s) =
     (case refill_unless 45 s of
        (False, s1) \<Rightarrow> (filled, ring, s1)
      | (True, (b1, i1)) \<Rightarrow>
          (let (v1, b2) = decode_fast t b1; (v2, b3) = decode_fast t b2; (v3, b4) = decode_fast t b3;
               ring1 = ring[at := word_of_nat v1, at + 1 := word_of_nat v2, at + 2 := word_of_nat v3]
           in trivial_batches t batches (at + 3) (filled + 3) (ring1, b4, i1)))"

fun trivial_scalars :: "table \<Rightarrow> nat \<Rightarrow> nat \<Rightarrow> nat \<Rightarrow> u8 list \<times> reader \<Rightarrow> nat \<times> u8 list \<times> reader" where
  "trivial_scalars t 0 at filled (ring, s) = (filled, ring, s)"
| "trivial_scalars t (Suc room) at filled (ring, s) =
     (case refill_unless 15 s of
        (False, s1) \<Rightarrow> (filled, ring, s1)
      | (True, (b1, i1)) \<Rightarrow>
          (case decode_fast t b1 of
             (v, b2) \<Rightarrow> trivial_scalars t room (at + 1) (filled + 1) (ring[at := word_of_nat v], b2, i1)))"

fun context_scalars :: "(nat \<Rightarrow> table) \<Rightarrow> nat \<Rightarrow> nat list \<Rightarrow> nat \<Rightarrow> nat \<Rightarrow> nat \<Rightarrow> u8 \<times> u8 \<Rightarrow> u8 list \<times> reader \<Rightarrow> nat \<times> u8 list \<times> reader" where
  "context_scalars tables mode contexts 0 at filled ps (ring, s) = (filled, ring, s)"
| "context_scalars tables mode contexts (Suc room) at filled (p1, p2) (ring, s) =
     (case refill_unless 15 s of
        (False, s1) \<Rightarrow> (filled, ring, s1)
      | (True, (b1, i1)) \<Rightarrow>
          (let tree = contexts ! (literal_context mode p1 p2 AND 63) in
           case decode_fast (tables tree) b1 of
             (v, b2) \<Rightarrow>
               (let byte = word_of_nat v
                in context_scalars tables mode contexts room (at + 1) (filled + 1) (byte, p1) (ring[at := byte], b2, i1))))"

text \<open>\<open>first_chunk\<close> of a row of a context map, or zeros when it is short.\<close>

definition map_row :: "nat \<Rightarrow> nat \<Rightarrow> context_map \<Rightarrow> nat list" where
  "map_row width row c =
     (let rest = drop (row * width) (items (cm_values c)) in if width \<le> length rest then take width rest else replicate width 0)"

text \<open>One bounded run of literals: how many were decoded, with the ring and the reader.\<close>

definition literal_run :: "bool \<Rightarrow> nat \<Rightarrow> nat \<Rightarrow> fast \<Rightarrow> nat \<times> u8 list \<times> reader" where
  "literal_run linear at run f =
     (let t = fa_tables f; bt = bk_current (fa_block 0 f);
          contexts = map_row 64 bt (dt_maps t ! 0); ring = fa_ring linear f
      in if trivial (dt_maps t ! 0) bt then
           (let table = fa_table 0 (contexts ! 0) f;
                (n, ring1, s1) = trivial_batches table (run div 3) at 0 (ring, fa_reader f)
            in trivial_scalars table (run - n) (at + n) n (ring1, s1))
         else
           context_scalars (\<lambda>tree. fa_table 0 tree f) (dt_modes t ! bt) contexts run at 0
             (previous_bytes ring (ds_position (fa_stream f))) (ring, fa_reader f))"

text \<open>The counters after a run.\<close>

definition literals_decoded :: "nat \<Rightarrow> fast \<Rightarrow> fast" where
  "literals_decoded n f =
     (let d = fa_stream f; k = fa_block 0 f
      in set_block 0 (k\<lparr>bk_remaining := bk_remaining k - n\<rparr>)
           (f\<lparr>fa_stream := d\<lparr>ds_position := ds_position d + n, ds_literals := ds_literals d - n, ds_remaining := ds_remaining d - n\<rparr>,
              fa_space := fa_space f - n\<rparr>))"

text \<open>One turn of the literal loop: why it stops, or none to go on.\<close>

definition literals_round :: "bool \<Rightarrow> fast \<Rightarrow> pause option \<times> fast" where
  "literals_round linear f =
     (if ds_literals (fa_stream f) = 0 then (Some P_Done, f)
      else if bk_remaining (fa_block 0 f) = 0 then
        (if \<not> switch_ready (fa_block 0 f) then (Some P_Input, f)
         else
           (case refill_unless 54 (fa_reader f) of
              (False, s1) \<Rightarrow> (Some P_Input, set_reader s1 f)
            | (True, (b1, i1)) \<Rightarrow>
                (case switch_fast (fa_block 0 f, b1) of
                   (k, b2) \<Rightarrow> (None, set_block 0 k (set_reader (b2, i1) f)))))
      else
        (let at = ds_position (fa_stream f) AND fa_mask linear f;
             len = length (fa_ring linear f);
             run = min (min (min (ds_literals (fa_stream f)) (bk_remaining (fa_block 0 f))) (fa_space f)) (len - at)
         in if run = 0 then (Some P_Output, f)
            else
              (case literal_run linear at run f of
                 (n, ring1, s1) \<Rightarrow>
                   (let f1 = literals_decoded n (set_ring linear ring1 (set_reader s1 f));
                        f2 = (if \<not> linear \<and> at + n = len then fast_flush linear f1 else f1)
                    in (if n < run then Some P_Input else None, f2)))))"

partial_function (option) fast_literals :: "bool \<Rightarrow> fast \<Rightarrow> (pause \<times> fast) option" where
  "fast_literals linear f =
     (case literals_round linear f of
        (Some p, f') \<Rightarrow> Some (p, f')
      | (None, f') \<Rightarrow> fast_literals linear f')"

text \<open>The insert of a command.\<close>

definition fast_insert :: "environment \<Rightarrow> bool \<Rightarrow> nat \<Rightarrow> fast \<Rightarrow> ((fast_exit + unit) \<times> fast) option" where
  "fast_insert env linear ins f =
     (if ins = 0 then Some (Inr (), f)
      else
        (case fast_reach env linear (ds_position (fa_stream f) + ins) f of
           (Inl e, f1) \<Rightarrow> Some (Inl (Raise e), f1)
         | (Inr _, f1) \<Rightarrow>
             map_option (\<lambda>(p, f2). (if p \<noteq> P_Done then Inl (Pause SLiterals) else Inr (), f2)) (fast_literals linear f1)))"

section \<open>Commands\<close>

text \<open>The insert length of the next command; the distance context comes with it.\<close>

definition fast_command_symbol :: "fast \<Rightarrow> (fast_exit + nat \<times> nat) \<times> fast" where
  "fast_command_symbol f =
     (case decode_fast (fa_table 1 (bk_current (fa_block 1 f)) f) (ds_bits (fa_stream f)) of
        (symbol, b1) \<Rightarrow>
          (let k = fa_block 1 f;
               row = COMMANDS ! (symbol AND (COMMAND_SLOTS - 1));
               (extra, b2) = take_bits (insert_extra row) b1;
               ins = insert_base row + extra;
               f1 = set_block 1 (k\<lparr>bk_remaining := bk_remaining k - 1\<rparr>) (set_bits b2 f)
           in if ins > ds_remaining (fa_stream f) then (Inl (Raise (InvalidData MetaBlock)), f1)
              else
                (let f2 = f1\<lparr>fa_stream := (fa_stream f1)\<lparr>ds_implicit := implicit row, ds_literals := ins\<rparr>\<rparr>
                 in case refill_unless 24 (fa_reader f2) of
                      (False, s3) \<Rightarrow> (Inl (Pause (SCopyExtra (copy_code row))), set_reader s3 f2)
                    | (True, (b3, i3)) \<Rightarrow>
                        (let (extra', b4) = take_bits (copy_extra row) b3;
                             f3 = set_reader (b4, i3) f2
                         in (Inr (ins, distance_context row),
                             f3\<lparr>fa_stream := (fa_stream f3)\<lparr>ds_copy := copy_base row + extra'\<rparr>\<rparr>)))))"

definition fast_command :: "fast \<Rightarrow> (fast_exit + nat \<times> nat) \<times> fast" where
  "fast_command f =
     (if ds_remaining (fa_stream f) = 0 then (Inl (Pause SCommand), f)
      else
        (case refill (fa_reader f) of
           (False, s1) \<Rightarrow> (Inl (Pause SCommand), set_reader s1 f)
         | (True, s1) \<Rightarrow>
             (let f1 = set_reader s1 f in
              if bk_remaining (fa_block 1 f1) = 0 then
                (if \<not> switch_ready (fa_block 1 f1) then (Inl (Pause SCommand), f1)
                 else
                   (case switch_fast (fa_block 1 f1, fst s1) of
                      (k, b2) \<Rightarrow>
                        (let f2 = set_block 1 k (set_bits b2 f1) in
                         case refill (fa_reader f2) of
                           (False, s3) \<Rightarrow> (Inl (Pause SCommand), set_reader s3 f2)
                         | (True, s3) \<Rightarrow> fast_command_symbol (set_reader s3 f2))))
              else fast_command_symbol f1)))"

section \<open>Distances\<close>

definition set_distance :: "nat \<Rightarrow> cache \<Rightarrow> fast \<Rightarrow> fast" where
  "set_distance dist c f = f\<lparr>fa_stream := (fa_stream f)\<lparr>ds_distance := dist, ds_cache := c\<rparr>\<rparr>"

definition set_distance_code :: "nat \<Rightarrow> fast \<Rightarrow> fast" where
  "set_distance_code code f = f\<lparr>fa_stream := (fa_stream f)\<lparr>ds_distance_code := code\<rparr>\<rparr>"

text \<open>The extra field and the value of a long distance symbol.\<close>

definition fast_long_distance :: "nat \<Rightarrow> fast \<Rightarrow> (fast_exit + unit) \<times> fast" where
  "fast_long_distance symbol f =
     (let t = fa_tables f; d = fa_stream f;
          entry = distance_table (dt_distances t) (items (dt_distance_table t)) ! symbol;
          value = (\<lambda>extra. pbase entry + shl 64 extra (postfix (dt_distances t)))
      in if pwidth entry > 32 then
           (if length (acceptable (fa_input f)) < 16 then (Inl (Pause (SDistanceExtra symbol)), f)
            else
              (case refill (fa_reader f) of
                 (False, s1) \<Rightarrow> (Inl (Pause (SDistanceExtra symbol)), set_reader s1 f)
               | (True, (b1, i1)) \<Rightarrow>
                   (case take_bits 32 b1 of
                      (low, b2) \<Rightarrow>
                        (case refill (b2, i1) of
                           (False, s3) \<Rightarrow> (Inl (Raise InternalInvariant), set_reader s3 f)
                         | (True, (b3, i3)) \<Rightarrow>
                             (case take_bits (pwidth entry - 32) b3 of
                                (high, b4) \<Rightarrow>
                                  (Inr (), set_distance (value (low OR shl 64 high 32)) (ds_cache d) (set_reader (b4, i3) f)))))))
         else
           (case take_bits (pwidth entry) (ds_bits d) of
              (extra, b1) \<Rightarrow> (Inr (), set_distance (value extra) (ds_cache d) (set_bits b1 f))))"

definition fast_distance_symbol :: "nat \<Rightarrow> fast \<Rightarrow> (fast_exit + unit) \<times> fast" where
  "fast_distance_symbol ctx f =
     (let k = fa_block 2 f;
          tree = map_row 4 (bk_current k) (dt_maps (fa_tables f) ! 1) ! (ctx AND 3)
      in case decode_fast (fa_table 2 tree f) (ds_bits (fa_stream f)) of
           (symbol, b1) \<Rightarrow>
             (let f1 = set_distance_code symbol (set_block 2 (k\<lparr>bk_remaining := bk_remaining k - 1\<rparr>) (set_bits b1 f)) in
              if symbol = 0 then (case cache_pop (ds_cache (fa_stream f1)) of (dist, c) \<Rightarrow> (Inr (), set_distance dist c f1))
              else if symbol < 16 then
                (case short_distance symbol (ds_cache (fa_stream f1)) of
                   Inl e \<Rightarrow> (Inl (Raise e), f1)
                 | Inr dist \<Rightarrow> (Inr (), set_distance dist (ds_cache (fa_stream f1)) f1))
              else fast_long_distance symbol f1))"

definition fast_distance :: "nat \<Rightarrow> fast \<Rightarrow> (fast_exit + unit) \<times> fast" where
  "fast_distance ctx f =
     (if ds_implicit (fa_stream f) then
        (case cache_pop (ds_cache (fa_stream f)) of (dist, c) \<Rightarrow> (Inr (), set_distance dist c (set_distance_code 0 f)))
      else
        (case refill_unless (if large (dt_distances (fa_tables f)) then 47 else 40) (fa_reader f) of
           (False, s1) \<Rightarrow> (Inl (Pause SDistance), set_reader s1 f)
         | (True, s1) \<Rightarrow>
             (let f1 = set_reader s1 f in
              if bk_remaining (fa_block 2 f1) = 0 then
                (if \<not> switch_ready (fa_block 2 f1) then (Inl (Pause SDistance), f1)
                 else
                   (case switch_fast (fa_block 2 f1, fst s1) of
                      (k, b2) \<Rightarrow>
                        (let f2 = set_block 2 k (set_bits b2 f1) in
                         case refill (fa_reader f2) of
                           (False, s3) \<Rightarrow> (Inl (Pause SDistance), set_reader s3 f2)
                         | (True, s3) \<Rightarrow> fast_distance_symbol ctx (set_reader s3 f2))))
              else fast_distance_symbol ctx f1)))"

section \<open>Copies\<close>

text \<open>A reference to the built-in words.\<close>

definition fast_word :: "environment \<Rightarrow> bool \<Rightarrow> nat \<Rightarrow> fast \<Rightarrow> ((fast_exit + unit) \<times> fast) option" where
  "fast_word env linear available f =
     (let d = fa_stream f; t = fa_tables f in
      case dictionary_resolve (en_words env) (ds_distance d - available - prefix_len env - 1) (ds_copy d) (dt_scratch t) of
        (r, scratch) \<Rightarrow>
          (let f1 = f\<lparr>fa_tables := t\<lparr>dt_scratch := scratch\<rparr>\<rparr> in
           case r of
             Inl e \<Rightarrow> Some (Inl (Raise e), f1)
           | Inr len \<Rightarrow>
               if len > ds_remaining d then Some (Inl (Raise (InvalidData MetaBlock)), f1)
               else if len = 0 \<and> ds_distance d \<le> 120 then Some (Inl (Raise (InvalidData DictionaryReference)), f1)
               else
                 (let f2 = f1\<lparr>fa_tables := (fa_tables f1)\<lparr>dt_scratch_len := len, dt_scratch_pos := 0\<rparr>\<rparr> in
                  if len > fa_space f2 then Some (Inl (Pause SDictionary), f2)
                  else
                    (case fast_reach env linear (ds_position d + len) f2 of
                       (Inl e, f3) \<Rightarrow> Some (Inl (Raise e), f3)
                     | (Inr _, f3) \<Rightarrow>
                         map_option (\<lambda>(ring, pos, lent).
                           (let (flushed, out) = the lent;
                                f4 = set_ring linear ring f3;
                                d4 = fa_stream f4
                            in (Inr (), f4\<lparr>fa_stream := d4\<lparr>ds_position := pos, ds_remaining := ds_remaining d4 - len\<rparr>,
                                 fa_flushed := flushed, fa_output := out, fa_space := fa_space f4 - len\<rparr>)))
                           (write_ring linear (take len scratch)
                              (fa_ring linear f3, ds_position (fa_stream f3), Some (fa_flushed f3, fa_output f3)))))))"

definition push_distance :: "fast \<Rightarrow> fast" where
  "push_distance f = f\<lparr>fa_stream := (fa_stream f)\<lparr>ds_cache := cache_push (ds_distance (fa_stream f)) (ds_cache (fa_stream f))\<rparr>\<rparr>"

text \<open>The counters after a copy.\<close>

definition copied :: "nat \<Rightarrow> nat \<Rightarrow> fast \<Rightarrow> fast" where
  "copied pos n f =
     (let d = fa_stream f
      in f\<lparr>fa_stream := d\<lparr>ds_position := pos, ds_remaining := ds_remaining d - n\<rparr>, fa_space := fa_space f - n\<rparr>)"

text \<open>A run of one byte that grows the ring.\<close>

definition fast_repeat :: "environment \<Rightarrow> bool \<Rightarrow> fast \<Rightarrow> (fast_exit + unit) \<times> fast" where
  "fast_repeat env linear f =
     (let d = fa_stream f; fin = ds_position d + ds_copy d;
          byte = fa_ring linear f ! ((ds_position d - 1) AND fa_mask linear f)
      in case repeat_grow (en_alloc env) (ds_window_size d) (ds_position d) byte fin (ds_ring d, ds_memory d) of
           (r, ring, m) \<Rightarrow>
             (let f1 = f\<lparr>fa_stream := d\<lparr>ds_ring := ring, ds_memory := m\<rparr>\<rparr> in
              case r of
                Inl e \<Rightarrow> (Inl (Raise e), f1)
              | Inr _ \<Rightarrow>
                  (let f2 = copied fin (ds_copy d) f1
                   in (Inr (), if fin = length (fa_ring linear f2) then fast_flush linear f2 else f2))))"

text \<open>The ring after a copy that neither side of wraps, or none if one does.\<close>

definition straight_copy :: "u8 list \<Rightarrow> nat \<Rightarrow> nat \<Rightarrow> nat \<Rightarrow> nat \<Rightarrow> u8 list option option" where
  "straight_copy ring dst src len distance =
     (case (if distance \<ge> len then
              (if len \<le> 16 then copy16 ring src dst else if len \<le> 32 then copy_chunk 32 ring src dst else None)
            else None) of
        Some ring' \<Rightarrow> Some (Some ring')
      | None \<Rightarrow>
          if max dst src + len \<le> length ring then
            (if distance \<ge> len then Some (Some (copy_within ring src len dst))
             else map_option Some (copy_overlapping ring dst src len distance))
          else Some None)"

definition fast_ring_copy :: "bool \<Rightarrow> fast \<Rightarrow> ((fast_exit + unit) \<times> fast) option" where
  "fast_ring_copy linear f =
     (let d = fa_stream f; len = ds_copy d; ring = fa_ring linear f;
          dst = ds_position d AND fa_mask linear f;
          src = (ds_position d - ds_distance d) AND fa_mask linear f
      in Option.bind (straight_copy ring dst src len (ds_distance d)) (\<lambda>r.
           case r of
             Some ring' \<Rightarrow>
               (let f1 = (set_ring linear ring' f);
                    f2 = f1\<lparr>fa_stream := (fa_stream f1)\<lparr>ds_position := ds_position d + len\<rparr>\<rparr>;
                    f3 = (if \<not> linear \<and> dst + len = length ring' then fast_flush linear f2 else f2)
                in Some (Inr (), copied (ds_position d + len) len f3))
           | None \<Rightarrow>
               if linear then Some (Inl (Raise InternalInvariant), f)
               else
                 map_option (\<lambda>(ring', pos, flushed, out).
                   (Inr (), copied pos len ((set_ring linear ring' f)\<lparr>fa_flushed := flushed, fa_output := out\<rparr>)))
                   (copy_ring linear (ds_distance d) len (ring, ds_position d, fa_flushed f, fa_output f))))"

definition fast_copy :: "environment \<Rightarrow> bool \<Rightarrow> fast \<Rightarrow> ((fast_exit + unit) \<times> fast) option" where
  "fast_copy env linear f =
     (let d = fa_stream f in
      if ds_copy d > min (ds_remaining d) (fa_space f) then
        (if ds_copy d > ds_remaining d then Some (Inl (Raise (InvalidData MetaBlock)), f)
         else Some (Inl (Pause SCopy), push_distance f))
      else
        (let f1 = push_distance f; fin = ds_position d + ds_copy d in
         if \<not> linear \<and> ds_distance d = 1 \<and> fin > ring_limit linear f1 \<and> fin \<le> ds_window_size d
         then Some (fast_repeat env linear f1)
         else
           (case fast_reach env linear fin f1 of
              (Inl e, f2) \<Rightarrow> Some (Inl (Raise e), f2)
            | (Inr _, f2) \<Rightarrow> fast_ring_copy linear f2)))"

definition fast_reference :: "environment \<Rightarrow> bool \<Rightarrow> fast \<Rightarrow> ((fast_exit + unit) \<times> fast) option" where
  "fast_reference env linear f =
     (let d = fa_stream f; available = min (ds_position d) (ds_max_backward d) in
      if ds_distance d > available then
        (let f1 = (if ds_distance_code d = 0 then push_distance f else f)
         in if ds_distance d - available \<le> prefix_len env then Some (Inl (Pause SResolve), f1)
            else fast_word env linear available f1)
      else fast_copy env linear f)"

section \<open>The loop\<close>

text \<open>One command; \<open>resume\<close> enters at its pending insert, whose fields the stages saved.\<close>

definition fast_round :: "environment \<Rightarrow> bool \<Rightarrow> (nat \<times> nat) option \<Rightarrow> fast \<Rightarrow> ((fast_exit + unit) \<times> fast) option" where
  "fast_round env linear resume f =
     (case (case resume of Some r \<Rightarrow> (Inr r, f) | None \<Rightarrow> fast_command f) of
        (Inl x, f1) \<Rightarrow> Some (Inl x, f1)
      | (Inr (ins, ctx), f1) \<Rightarrow>
          Option.bind (fast_insert env linear ins f1) (\<lambda>(r, f2).
            case r of
              Inl x \<Rightarrow> Some (Inl x, f2)
            | Inr _ \<Rightarrow>
                if ds_remaining (fa_stream f2) = 0 then Some (Inl (Pause SCommand), f2)
                else
                  (case fast_distance ctx f2 of
                     (Inl x, f3) \<Rightarrow> Some (Inl x, f3)
                   | (Inr _, f3) \<Rightarrow> fast_reference env linear f3)))"

partial_function (option) fast_loop :: "environment \<Rightarrow> bool \<Rightarrow> (nat \<times> nat) option \<Rightarrow> fast \<Rightarrow> (fast_exit \<times> fast) option" where
  "fast_loop env linear resume f =
     Option.bind (fast_round env linear resume f) (\<lambda>(r, f').
       case r of
         Inl x \<Rightarrow> Some (x, f')
       | Inr _ \<Rightarrow> fast_loop env linear None f')"

text \<open>Entering: the command fields start at zero unless an insert is resumed.\<close>

definition fast_enter :: "bool \<Rightarrow> nat \<Rightarrow> dtables \<Rightarrow> machine \<Rightarrow> fast" where
  "fast_enter linear out_end t = (\<lambda>(d, i, out).
     let resume = (ds_stage d = SLiterals);
         hist_end = history_end (ds_position d) (ds_remaining d) out_end
     in \<lparr>fa_stream = d\<lparr>ds_literals := if resume then ds_literals d else 0, ds_copy := if resume then ds_copy d else 0,
            ds_implicit := resume \<and> ds_implicit d, ds_distance := 0, ds_distance_code := 0\<rparr>,
         fa_input = i, fa_output = (if linear then out\<lparr>out_bytes := []\<rparr> else out), fa_tables = t,
         fa_flushed = ds_position d, fa_space = out_end - out_produced out,
         fa_linear = (if linear then take hist_end (out_bytes out) else []),
         fa_hidden = (if linear then drop hist_end (out_bytes out) else [])\<rparr>)"

definition fast_resume :: "dstream \<Rightarrow> (nat \<times> nat) option" where
  "fast_resume d = (if ds_stage d = SLiterals then Some (ds_literals d, min (ds_copy d - 2) 3) else None)"

definition fast :: "environment \<Rightarrow> bool \<Rightarrow> nat \<Rightarrow> machine \<Rightarrow> ((decode_error + unit) \<times> machine) option" where
  "fast env linear out_end mc =
     (case first_tables (fst mc) of
        None \<Rightarrow> Some (Inl InternalInvariant, mc)
      | Some t \<Rightarrow>
          map_option (\<lambda>(x, f).
            (case fast_leave linear f of
               (d, i, out) \<Rightarrow>
                 (case x of
                    Pause stg \<Rightarrow> (Inr (), d\<lparr>ds_stage := stg\<rparr>, i, out)
                  | Raise e \<Rightarrow> (Inl e, d, i, out))))
            (fast_loop env linear (fast_resume (fst mc)) (fast_enter linear out_end t mc)))"

end
