(* ===== verification/Stages.thy ===== *)
theory Stages
  imports Fast_Path
begin

unbundle bit_operations_syntax

text \<open>
  The resumable stage machine (\<open>Stream::run\<close> and \<open>run_stages\<close> of \<open>decompressor/core/stream.rs\<close>): one
  definition per stage, each one turn of the code's loop, and the loop over them, which is left when
  a stage stops or fails. The loop is a partial function: a call that does not return is \<open>None\<close>.
\<close>

section \<open>Steps shared by the stages\<close>

fun proceed :: "decode_error + bool \<Rightarrow> machine \<Rightarrow> (machine \<Rightarrow> step) \<Rightarrow> step" where
  "proceed (Inl e) mc k = Some (Failed e, mc)"
| "proceed (Inr False) mc k = Some (Stopped Stop_Input, mc)"
| "proceed (Inr True) mc k = k mc"

definition emitting :: "environment \<Rightarrow> bool \<Rightarrow> u8 \<Rightarrow> machine \<Rightarrow> (machine \<Rightarrow> step) \<Rightarrow> step" where
  "emitting env linear byte = (\<lambda>(d, i, out) k.
     case emit_byte env linear byte (d, out) of
       (Inl e, d', out') \<Rightarrow> Some (Failed e, d', i, out')
     | (Inr _, d', out') \<Rightarrow> k (d', i, out'))"

text \<open>\<open>blocks[k].prepare\<close>\<close>

definition preparing :: "nat \<Rightarrow> machine \<Rightarrow> (dtables \<Rightarrow> machine \<Rightarrow> step) \<Rightarrow> step" where
  "preparing k = (\<lambda>(d, i, out) cont.
     with_tables (d, i, out) (\<lambda>t.
       case prepare_block (dt_blocks t ! k, ds_bits d, i) of
         (r, blk, b', i') \<Rightarrow>
           (let t' = t\<lparr>dt_blocks := (dt_blocks t)[k := blk]\<rparr>
            in proceed r (put_tables t' (d\<lparr>ds_bits := b'\<rparr>), i', out) (cont t'))))"

text \<open>A symbol of the tree \<open>tree\<close> of kind \<open>k\<close>, counted in the block of that kind.\<close>

definition decoding :: "nat \<Rightarrow> nat \<Rightarrow> dtables \<Rightarrow> machine \<Rightarrow> (nat \<Rightarrow> machine \<Rightarrow> step) \<Rightarrow> step" where
  "decoding k tree t = (\<lambda>(d, i, out) cont.
     await (decode (group_table (dt_trees t ! k) tree) (ds_bits d, i)) d out (\<lambda>symbol (d', i', out').
       cont symbol (put_tables (t\<lparr>dt_blocks := (dt_blocks t)[k := advance (dt_blocks t ! k)]\<rparr>) d', i', out')))"

section \<open>Headers\<close>

definition stage_window :: "environment \<Rightarrow> machine \<Rightarrow> step" where
  "stage_window env = (\<lambda>(d, i, out).
     await (header_window (en_window_limit env) (ds_bits d, i)) d out (\<lambda>w (d', i', out').
       Some (Continue, d'\<lparr>ds_large := (wencoding w = Large), ds_window_size := 2 ^ wbits w,
         ds_max_backward := 2 ^ wbits w - 16, ds_window := Some w, ds_stage := SMeta\<rparr>, i', out')))"

definition enter_compressed :: "environment \<Rightarrow> machine \<Rightarrow> step" where
  "enter_compressed env = (\<lambda>(d, i, out).
     case ensure_tables env d of
       (Inl e, d') \<Rightarrow> Some (Failed e, d', i, out)
     | (Inr _, d') \<Rightarrow> with_tables (d', i, out) (\<lambda>t.
         goto (SBlocks 0)
           (put_tables (t\<lparr>dt_blocks := map block_reset (dt_blocks t), dt_maps := map context_map_reset (dt_maps t)\<rparr>) d', i, out)))"

definition header_data :: "meta_block \<Rightarrow> nat option" where
  "header_data h = (case h of Uncompressed n \<Rightarrow> Some n | Compressed n _ \<Rightarrow> Some n | _ \<Rightarrow> None)"

definition stage_meta :: "environment \<Rightarrow> machine \<Rightarrow> step" where
  "stage_meta env = (\<lambda>(d, i, out).
     await (header_metablock (ds_bits d, i)) d out (\<lambda>h (d', i', out').
       if (case header_data h of Some n \<Rightarrow> checked_add 64 (ds_position d') n = None | None \<Rightarrow> False)
       then Some (Failed SizeOverflow, d', i', out')
       else
         (case h of
            End \<Rightarrow> goto SEnd (d', i', out')
          | Uncompressed n \<Rightarrow> goto SRaw (d'\<lparr>ds_remaining := n, ds_last := False\<rparr>, i', out')
          | Metadata n final \<Rightarrow> goto SMetadata (d'\<lparr>ds_remaining := n, ds_last := final\<rparr>, i', out')
          | Compressed n final \<Rightarrow> enter_compressed env (d'\<lparr>ds_remaining := n, ds_last := final\<rparr>, i', out'))))"

definition stage_metadata :: "machine \<Rightarrow> step" where
  "stage_metadata = (\<lambda>(d, i, out).
     if ds_remaining d = 0 then goto SEndBlock (d, i, out)
     else if bcount (ds_bits d) \<ge> 8 then
       Some (Continue, d\<lparr>ds_bits := snd (take_bits 8 (ds_bits d)), ds_remaining := ds_remaining d - 1\<rparr>, i, out)
     else
       (let skip = min (ds_remaining d) (fast_end i - consumed i) in
        if skip = 0 then
          await (read 8 (ds_bits d, i)) d out (\<lambda>_ (d', i', out').
            Some (Continue, d'\<lparr>ds_remaining := ds_remaining d' - 1\<rparr>, i', out'))
        else
          Some (Continue, d\<lparr>ds_bits := settle (ds_bits d), ds_remaining := ds_remaining d - skip\<rparr>,
            i\<lparr>consumed := consumed i + skip\<rparr>, out)))"

section \<open>Stored bytes\<close>

text \<open>The bytes of the input that bypass the reservoir.\<close>

definition raw_bytes :: "environment \<Rightarrow> bool \<Rightarrow> nat \<Rightarrow> machine \<Rightarrow> step" where
  "raw_bytes env linear count' = (\<lambda>(d, i, out).
     let d1 = d\<lparr>ds_bits := settle (ds_bits d)\<rparr>;
         bytes = take count' (drop (consumed i) (in_bytes i));
         finish = (\<lambda>d'. Some (Continue, d'\<lparr>ds_remaining := ds_remaining d' - count'\<rparr>, i\<lparr>consumed := consumed i + count'\<rparr>,
           (if out_collect out = None then out\<lparr>out_bytes := store_at (out_bytes out) (out_produced out) bytes\<rparr> else out)
             \<lparr>out_produced := out_produced out + count'\<rparr>))
     in if linear then finish (d1\<lparr>ds_position := ds_position d1 + count'\<rparr>)
        else
          Option.bind (write_raw (en_alloc env) (ds_window_size d1) bytes (ds_ring d1, ds_position d1, ds_memory d1)) (\<lambda>(r, ring, pos, m).
            let d2 = d1\<lparr>ds_ring := ring, ds_position := pos, ds_memory := m\<rparr> in
            case r of
              Inl e \<Rightarrow> Some (Failed e, d2, i, out)
            | Inr _ \<Rightarrow> finish d2))"

definition continue_with :: "machine \<Rightarrow> step" where
  "continue_with mc = Some (Continue, mc)"

definition stage_raw :: "environment \<Rightarrow> bool \<Rightarrow> nat \<Rightarrow> machine \<Rightarrow> step" where
  "stage_raw env linear out_end = (\<lambda>(d, i, out).
     if ds_remaining d = 0 then goto SEndBlock (d, i, out)
     else when_ready (d, i, out)
       (if bcount (ds_bits d) \<ge> 8 then
          (case take_bits 8 (ds_bits d) of
             (v, b') \<Rightarrow> emitting env linear (word_of_nat v) (d\<lparr>ds_bits := b'\<rparr>, i, out) continue_with)
        else
          (let n = min (min (ds_remaining d) (fast_end i - consumed i)) (out_end - out_produced out) in
           if n = 0 then
             await (read 8 (ds_bits d, i)) d out (\<lambda>v mc. emitting env linear (word_of_nat v) mc continue_with)
           else raw_bytes env linear n (d, i, out))))"

section \<open>The tables of a compressed meta-block\<close>

definition stage_blocks :: "environment \<Rightarrow> nat \<Rightarrow> machine \<Rightarrow> step" where
  "stage_blocks env k = (\<lambda>(d, i, out).
     with_tables (d, i, out) (\<lambda>t.
       case block_header (en_alloc env) (dt_blocks t ! k, dt_builder t, (ds_bits d, i), ds_memory d) of
         (r, blk, bld, (b', i'), m') \<Rightarrow>
           proceed r
             (put_tables (t\<lparr>dt_blocks := (dt_blocks t)[k := blk], dt_builder := bld\<rparr>) (d\<lparr>ds_bits := b', ds_memory := m'\<rparr>), i', out)
             (goto (if k = 2 then SDistanceParams else SBlocks (k + 1)))))"

definition stage_distance_params :: "environment \<Rightarrow> machine \<Rightarrow> step" where
  "stage_distance_params env = (\<lambda>(d, i, out).
     await (read 6 (ds_bits d, i)) d out (\<lambda>params (d', i', out').
       with_tables (d', i', out') (\<lambda>t.
         let layout = layout_from_header params (ds_large d');
             t1 = t\<lparr>dt_distances := layout\<rparr>
         in if dt_table_layout t1 \<noteq> Some layout \<and> \<not> is_standard layout then
              (case refill_distance_table (en_alloc env) layout (dt_distance_table t1) (ds_memory d') of
                 (r, v, m) \<Rightarrow>
                   (let t2 = t1\<lparr>dt_distance_table := v, dt_table_layout := None\<rparr>; d2 = d'\<lparr>ds_memory := m\<rparr> in
                    case r of
                      Inl e \<Rightarrow> Some (Failed e, put_tables t2 d2, i', out')
                    | Inr _ \<Rightarrow> goto (SModes 0) (put_tables (t2\<lparr>dt_table_layout := Some layout\<rparr>) d2, i', out')))
            else goto (SModes 0) (put_tables t1 d', i', out'))))"

definition stage_modes :: "nat \<Rightarrow> machine \<Rightarrow> step" where
  "stage_modes k = (\<lambda>(d, i, out).
     await (read 2 (ds_bits d, i)) d out (\<lambda>v (d', i', out').
       with_tables (d', i', out') (\<lambda>t.
         goto (if k + 1 = bk_count (dt_blocks t ! 0) then SMaps 0 else SModes (k + 1))
           (put_tables (t\<lparr>dt_modes := (dt_modes t)[k := v]\<rparr>) d', i', out'))))"

fun prepare_groups :: "(nat \<Rightarrow> nat option) \<Rightarrow> (nat \<times> nat) list \<Rightarrow> group list \<Rightarrow> memory \<Rightarrow> (decode_error + unit) \<times> group list \<times> memory" where
  "prepare_groups alloc ((n, alph) # sizes) (g # gs) m =
     (case prepare alloc n alph g m of
        (Inl e, g', m') \<Rightarrow> (Inl e, g' # gs, m')
      | (Inr _, g', m') \<Rightarrow>
          (case prepare_groups alloc sizes gs m' of (r, gs', m2) \<Rightarrow> (r, g' # gs', m2)))"
| "prepare_groups alloc sizes gs m = (Inr (), gs, m)"

definition maps_read :: "environment \<Rightarrow> machine \<Rightarrow> step" where
  "maps_read env = (\<lambda>(d, i, out).
     with_tables (d, i, out) (\<lambda>t.
       case prepare_groups (en_alloc env)
           [(cm_trees (dt_maps t ! 0), 256), (bk_count (dt_blocks t ! 1), 704), (cm_trees (dt_maps t ! 1), alphabet (dt_distances t))]
           (dt_trees t) (ds_memory d) of
         (r, gs, m) \<Rightarrow>
           (let d1 = put_tables (t\<lparr>dt_trees := gs\<rparr>) (d\<lparr>ds_memory := m\<rparr>) in
            case r of
              Inl e \<Rightarrow> Some (Failed e, d1, i, out)
            | Inr _ \<Rightarrow> goto (STrees 0 0) (d1, i, out))))"

definition stage_maps :: "environment \<Rightarrow> nat \<Rightarrow> machine \<Rightarrow> step" where
  "stage_maps env k = (\<lambda>(d, i, out).
     with_tables (d, i, out) (\<lambda>t.
       let sz = shl 64 (bk_count (dt_blocks t ! (if k = 0 then 0 else 2))) (if k = 0 then 6 else 2) in
       case context_map_read (en_alloc env) sz (dt_maps t ! k, dt_builder t, (ds_bits d, i), ds_memory d) of
         (r, c, bld, (b', i'), m') \<Rightarrow>
           (let t1 = t\<lparr>dt_maps := (dt_maps t)[k := c], dt_builder := bld\<rparr>; d1 = d\<lparr>ds_bits := b', ds_memory := m'\<rparr> in
            proceed r (put_tables t1 d1, i', out) (\<lambda>mc.
              if k = 0 then
                goto (SMaps 1) (put_tables (t1\<lparr>dt_maps := (dt_maps t1)[0 := detect_trivial (dt_maps t1 ! 0)]\<rparr>) d1, i', out)
              else maps_read env mc))))"

definition tree_alphabet :: "nat \<Rightarrow> dtables \<Rightarrow> nat" where
  "tree_alphabet k t = (if k = 0 then 256 else if k = 1 then 704 else alphabet (dt_distances t))"

definition stage_trees :: "environment \<Rightarrow> nat \<Rightarrow> nat \<Rightarrow> machine \<Rightarrow> step" where
  "stage_trees env k idx = (\<lambda>(d, i, out).
     with_tables (d, i, out) (\<lambda>t.
       let alph = tree_alphabet k t in
       case builder_read alph (dt_builder t, (ds_bits d, i)) of
         (r, bld, (b', i')) \<Rightarrow>
           (let t1 = t\<lparr>dt_builder := bld\<rparr>; d1 = d\<lparr>ds_bits := b'\<rparr> in
            proceed r (put_tables t1 d1, i', out) (\<lambda>_.
              case build_slot (en_alloc env) alph idx bld (dt_trees t1 ! k) (ds_memory d1) of
                (q, g, m) \<Rightarrow>
                  (let t2 = t1\<lparr>dt_trees := (dt_trees t1)[k := g]\<rparr>; d2 = put_tables t2 (d1\<lparr>ds_memory := m\<rparr>) in
                   case (case q of
                           Inl e \<Rightarrow> Inl e
                         | Inr max_symbol \<Rightarrow> if k = 2 then validate_symbol (dt_distances t2) max_symbol else Inr ()) of
                     Inl e \<Rightarrow> Some (Failed e, d2, i', out)
                   | Inr _ \<Rightarrow>
                       goto (if idx + 1 < g_count g then STrees k (idx + 1) else if k < 2 then STrees (k + 1) 0 else SCommand)
                         (d2, i', out))))))"

section \<open>Commands\<close>

text \<open>The stage \<open>Command\<close> where the bulk loop does not get past it.\<close>

definition command_exact :: "machine \<Rightarrow> step" where
  "command_exact mc =
     preparing 1 mc (\<lambda>t mc'.
       decoding 1 (bk_current (dt_blocks t ! 1)) t mc' (\<lambda>symbol (d, i, out).
         case command_stage_codes symbol of
           (ins, cpy, impl) \<Rightarrow> goto (SInsertExtra ins cpy) (d\<lparr>ds_implicit := impl\<rparr>, i, out)))"

definition stage_command :: "environment \<Rightarrow> bool \<Rightarrow> nat \<Rightarrow> machine \<Rightarrow> step" where
  "stage_command env linear out_end mc =
     (if ds_remaining (fst mc) = 0 then goto SEndBlock mc
      else
        Option.bind (fast env linear out_end mc) (\<lambda>(r, mc').
          case r of
            Inl e \<Rightarrow> Some (Failed e, mc')
          | Inr _ \<Rightarrow>
              if ds_stage (fst mc') \<noteq> SCommand then Some (Continue, mc')
              else if ds_remaining (fst mc') = 0 then goto SEndBlock mc'
              else command_exact mc'))"

definition stage_insert_extra :: "nat \<Rightarrow> nat \<Rightarrow> machine \<Rightarrow> step" where
  "stage_insert_extra ins cpy = (\<lambda>(d, i, out).
     await (read (INS_EXTRA ! ins) (ds_bits d, i)) d out (\<lambda>v (d', i', out').
       let d1 = d'\<lparr>ds_literals := INS_BASE ! ins + v\<rparr> in
       if ds_literals d1 > ds_remaining d1 then Some (Failed (InvalidData MetaBlock), d1, i', out')
       else goto (SCopyExtra cpy) (d1, i', out')))"

definition stage_copy_extra :: "nat \<Rightarrow> machine \<Rightarrow> step" where
  "stage_copy_extra cpy = (\<lambda>(d, i, out).
     await (read (COPY_EXTRA ! cpy) (ds_bits d, i)) d out (\<lambda>v (d', i', out').
       goto SLiterals (d'\<lparr>ds_copy := COPY_BASE ! cpy + v\<rparr>, i', out')))"

section \<open>Literals\<close>

definition literal_exact :: "environment \<Rightarrow> bool \<Rightarrow> dtables \<Rightarrow> machine \<Rightarrow> step" where
  "literal_exact env linear t = (\<lambda>(d, i, out).
     let ctx = dl_context t (dl_history linear d out) (ds_position d);
         tree = items (cm_values (dt_maps t ! 0)) ! (bk_current (dt_blocks t ! 0) * 64 + ctx)
     in decoding 0 tree t (d, i, out) (\<lambda>byte mc.
          emitting env linear (word_of_nat byte) mc (\<lambda>(d', i', out').
            Some (Continue, d'\<lparr>ds_literals := ds_literals d' - 1\<rparr>, i', out'))))"

text \<open>One literal of the input tail.\<close>

definition tail_literal :: "environment \<Rightarrow> bool \<Rightarrow> nat \<Rightarrow> nat list \<Rightarrow> group \<Rightarrow> machine \<Rightarrow> (decode_error + bool) \<times> machine" where
  "tail_literal env linear mode row g = (\<lambda>(d, i, out).
     let (p1, p2) = previous_bytes (dl_history linear d out) (ds_position d) in
     case decode (group_table g (row ! literal_context mode p1 p2)) (ds_bits d, i) of
       (Inl e, b', i') \<Rightarrow> (Inl e, d\<lparr>ds_bits := b'\<rparr>, i', out)
     | (Inr None, b', i') \<Rightarrow> (Inr False, d\<lparr>ds_bits := b'\<rparr>, i', out)
     | (Inr (Some v), b', i') \<Rightarrow>
         (let d1 = d\<lparr>ds_bits := b'\<rparr>; byte = word_of_nat v in
          case checked_add 64 (ds_position d1) 1 of
            None \<Rightarrow> (Inl SizeOverflow, d1, i', out)
          | Some nxt \<Rightarrow>
              (case (if linear then (Inr (), ds_ring d1, ds_memory d1)
                     else ensure_ring (en_alloc env) (ds_window_size d1) nxt (ds_ring d1, ds_memory d1)) of
                 (Inl e, ring, m) \<Rightarrow> (Inl e, d1\<lparr>ds_ring := ring, ds_memory := m\<rparr>, i', out)
               | (Inr _, ring, m) \<Rightarrow>
                   (let ring1 = (if linear then ring
                          else ring\<lparr>items := (items ring)[ds_position d1 AND (length (items ring) - 1) := byte]\<rparr>);
                        out1 = (if out_collect out = None then out\<lparr>out_bytes := (out_bytes out)[out_produced out := byte]\<rparr> else out)
                    in (Inr True, d1\<lparr>ds_ring := ring1, ds_memory := m, ds_position := nxt\<rparr>, i',
                        out1\<lparr>out_produced := out_produced out + 1\<rparr>)))))"

fun tail_literals :: "environment \<Rightarrow> bool \<Rightarrow> nat \<Rightarrow> nat list \<Rightarrow> group \<Rightarrow> nat \<Rightarrow> nat \<Rightarrow> machine \<Rightarrow> (decode_error + bool) \<times> nat \<times> machine" where
  "tail_literals env linear mode row g 0 emitted mc = (Inr True, emitted, mc)"
| "tail_literals env linear mode row g (Suc n) emitted mc =
     (case tail_literal env linear mode row g mc of
        (Inr True, mc') \<Rightarrow> tail_literals env linear mode row g n (emitted + 1) mc'
      | (r, mc') \<Rightarrow> (r, emitted, mc'))"

definition literal_tail :: "environment \<Rightarrow> bool \<Rightarrow> nat \<Rightarrow> dtables \<Rightarrow> machine \<Rightarrow> step" where
  "literal_tail env linear out_end t = (\<lambda>(d, i, out).
     let k = dt_blocks t ! 0;
         run = min (min (ds_literals d) (bk_remaining k)) (max (out_end - out_produced out) 1);
         row = bk_current k * 64;
         vals = items (cm_values (dt_maps t ! 0))
     in if \<not> row + 64 \<le> length vals then Some (Failed InternalInvariant, d, i, out)
        else
          (case tail_literals env linear (dt_modes t ! bk_current k) (take 64 (drop row vals)) (dt_trees t ! 0) run 0 (d, i, out) of
             (r, n, (d', i', out')) \<Rightarrow>
               proceed r
                 (put_tables (t\<lparr>dt_blocks := (dt_blocks t)[0 := k\<lparr>bk_remaining := bk_remaining k - n\<rparr>]\<rparr>)
                    (d'\<lparr>ds_remaining := ds_remaining d' - n, ds_literals := ds_literals d' - n\<rparr>), i', out')
                 continue_with))"

text \<open>After the bulk loop: byte by byte, or the rest of the run at the end of the input.\<close>

definition literals_exact :: "environment \<Rightarrow> bool \<Rightarrow> nat \<Rightarrow> machine \<Rightarrow> step" where
  "literals_exact env linear out_end mc =
     when_ready mc
       (preparing 0 mc (\<lambda>t mc'.
          if consumed (fst (snd mc')) + 8 \<le> fast_end (fst (snd mc')) then literal_exact env linear t mc'
          else literal_tail env linear out_end t mc'))"

definition stage_literals :: "environment \<Rightarrow> bool \<Rightarrow> nat \<Rightarrow> machine \<Rightarrow> step" where
  "stage_literals env linear out_end mc =
     (if ds_literals (fst mc) = 0 then goto (if ds_remaining (fst mc) = 0 then SEndBlock else SDistance) mc
      else when_ready mc
        (if consumed (fst (snd mc)) + 8 \<le> fast_end (fst (snd mc)) then
           Option.bind (fast env linear out_end mc) (\<lambda>(r, mc').
             case r of
               Inl e \<Rightarrow> Some (Failed e, mc')
             | Inr _ \<Rightarrow>
                 if ds_stage (fst mc') \<noteq> SLiterals \<or> ds_literals (fst mc') = 0 then Some (Continue, mc')
                 else literals_exact env linear out_end mc')
         else literals_exact env linear out_end mc))"

section \<open>Distances\<close>

definition stage_distance :: "machine \<Rightarrow> step" where
  "stage_distance = (\<lambda>(d, i, out).
     if ds_implicit d then
       goto SResolve (d\<lparr>ds_distance_code := 0, ds_distance := recent_distance (ds_cache d) 0\<rparr>, i, out)
     else
       preparing 2 (d, i, out) (\<lambda>t mc.
         let ctx = min (ds_copy (fst mc) - 2) 3;
             tree = items (cm_values (dt_maps t ! 1)) ! (bk_current (dt_blocks t ! 2) * 4 + ctx)
         in decoding 2 tree t mc (\<lambda>symbol (d', i', out').
              goto (SDistanceExtra symbol) (d'\<lparr>ds_distance_code := symbol\<rparr>, i', out'))))"

definition resolved :: "dtables \<Rightarrow> nat \<Rightarrow> nat \<Rightarrow> machine \<Rightarrow> step" where
  "resolved t symbol extra = (\<lambda>(d, i, out).
     case resolve_distance (dt_distances t) symbol extra (ds_cache d) of
       Inl e \<Rightarrow> Some (Failed e, d, i, out)
     | Inr dist \<Rightarrow> goto SResolve (d\<lparr>ds_distance := dist\<rparr>, i, out))"

definition stage_distance_extra :: "nat \<Rightarrow> machine \<Rightarrow> step" where
  "stage_distance_extra symbol = (\<lambda>(d, i, out).
     with_tables (d, i, out) (\<lambda>t.
       let width = extra_bits (dt_distances t) symbol in
       if width > 32 then
         await (read 32 (ds_bits d, i)) d out (\<lambda>low mc. goto (SDistanceExtraHigh symbol low) mc)
       else await (read width (ds_bits d, i)) d out (resolved t symbol)))"

definition stage_distance_extra_high :: "nat \<Rightarrow> nat \<Rightarrow> machine \<Rightarrow> step" where
  "stage_distance_extra_high symbol low = (\<lambda>(d, i, out).
     with_tables (d, i, out) (\<lambda>t.
       await (read (extra_bits (dt_distances t) symbol - 32) (ds_bits d, i)) d out (\<lambda>high.
         resolved t symbol (low OR shl 64 high 32))))"

text \<open>The history a copy that leaves the prefix would otherwise overwrite before reading it.\<close>

definition saved_history :: "environment \<Rightarrow> bool \<Rightarrow> nat \<Rightarrow> nat \<Rightarrow> dstream \<Rightarrow> caller_output \<Rightarrow> (decode_error + unit) \<times> dstream" where
  "saved_history env linear available n d out =
     (case reserve (en_alloc env) 1 ((ds_prefix_history d)\<lparr>items := []\<rparr>) n (ds_memory d) of
        (Inl e, v, m) \<Rightarrow> (Inl e, d\<lparr>ds_prefix_history := v, ds_memory := m\<rparr>)
      | (Inr _, v, m) \<Rightarrow>
          (let hist = dl_history linear d out; mask = history_mask (length hist); start = ds_position d - available
           in (Inr (), d\<lparr>ds_prefix_history := v\<lparr>items := map (\<lambda>p. hist ! (p AND mask)) [start..<start + n]\<rparr>, ds_memory := m\<rparr>)))"

definition push_coded :: "dstream \<Rightarrow> dstream" where
  "push_coded d = (if ds_distance_code d \<noteq> 0 then d\<lparr>ds_cache := cache_push (ds_distance d) (ds_cache d)\<rparr> else d)"

definition resolve_prefix :: "environment \<Rightarrow> bool \<Rightarrow> nat \<Rightarrow> machine \<Rightarrow> step" where
  "resolve_prefix env linear available = (\<lambda>(d, i, out).
     let plen = prefix_len env; offset = plen - (ds_distance d - available) in
     if ds_copy d > ds_remaining d then Some (Failed (InvalidData DictionaryReference), d, i, out)
     else
       (case (if ds_distance d > ds_max_backward d
              then saved_history env linear available (min (ds_copy d - (plen - offset)) available) d out else (Inr (), d)) of
          (Inl e, d') \<Rightarrow> Some (Failed e, d', i, out)
        | (Inr _, d') \<Rightarrow> goto (SPrefix offset offset) (push_coded d', i, out)))"

definition resolve_word :: "environment \<Rightarrow> nat \<Rightarrow> machine \<Rightarrow> step" where
  "resolve_word env available = (\<lambda>(d, i, out).
     with_tables (d, i, out) (\<lambda>t.
       case dictionary_resolve (en_words env) (ds_distance d - available - prefix_len env - 1) (ds_copy d) (dt_scratch t) of
         (r, scratch) \<Rightarrow>
           (let t1 = t\<lparr>dt_scratch := scratch\<rparr> in
            case r of
              Inl e \<Rightarrow> Some (Failed e, put_tables t1 d, i, out)
            | Inr n \<Rightarrow>
                (let t2 = t1\<lparr>dt_scratch_len := n\<rparr> in
                 if n > ds_remaining d then Some (Failed (InvalidData MetaBlock), put_tables t2 d, i, out)
                 else if n = 0 \<and> ds_distance d \<le> 120 then Some (Failed (InvalidData DictionaryReference), put_tables t2 d, i, out)
                 else goto SDictionary (put_tables (t2\<lparr>dt_scratch_pos := 0\<rparr>) d, i, out)))))"

definition stage_resolve :: "environment \<Rightarrow> bool \<Rightarrow> machine \<Rightarrow> step" where
  "stage_resolve env linear = (\<lambda>(d, i, out).
     let available = min (ds_position d) (ds_max_backward d) in
     if ds_distance d > available \<and> ds_distance d - available \<le> prefix_len env then resolve_prefix env linear available (d, i, out)
     else if ds_distance d > available then resolve_word env available (d, i, out)
     else if ds_copy d > ds_remaining d then Some (Failed (InvalidData MetaBlock), d, i, out)
     else goto SCopy (push_coded d, i, out))"

section \<open>Copies\<close>

definition stage_copy :: "environment \<Rightarrow> bool \<Rightarrow> nat \<Rightarrow> machine \<Rightarrow> step" where
  "stage_copy env linear out_end = (\<lambda>(d, i, out).
     if ds_copy d = 0 then goto SCommand (d, i, out)
     else when_ready (d, i, out)
       (let n = min (ds_copy d) (out_end - out_produced out) in
        Option.bind (copy_body (en_alloc env) (ds_window_size d) linear (ds_distance d) n
            (history_end (ds_position d) (ds_remaining d) out_end) (ds_ring d, ds_position d, out, ds_memory d)) (\<lambda>(r, ring, pos, out', m).
          let d1 = d\<lparr>ds_ring := ring, ds_position := pos, ds_memory := m\<rparr> in
          case r of
            Inl e \<Rightarrow> Some (Failed e, d1, i, out')
          | Inr _ \<Rightarrow>
              (let d2 = d1\<lparr>ds_copy := ds_copy d1 - n, ds_remaining := ds_remaining d1 - n\<rparr> in
               if ds_copy d2 \<noteq> 0 then
                 (case out_ready out' of
                    Inl e \<Rightarrow> Some (Failed e, d2, i, out')
                  | Inr _ \<Rightarrow> Some (Stopped Stop_Output, d2, i, out'))
               else goto SCommand (d2, i, out')))))"

text \<open>A run of prefix bytes.\<close>

definition prefix_copy :: "environment \<Rightarrow> bool \<Rightarrow> nat \<Rightarrow> nat \<Rightarrow> nat \<Rightarrow> u8 list \<Rightarrow> machine \<Rightarrow> step" where
  "prefix_copy env linear out_end offset start run = (\<lambda>(d, i, out).
     let n = min (min (length run) (ds_copy d)) (out_end - out_produced out) in
     case checked_add 64 (ds_position d) n of
       None \<Rightarrow> Some (Failed SizeOverflow, d, i, out)
     | Some fin \<Rightarrow>
         (let finish = (\<lambda>d1 flushed out1.
                let out2 = snd (flush_ring linear (items (ds_ring d1)) (ds_position d1) (flushed, out1))
                in goto (SPrefix (offset + n) start)
                     (d1\<lparr>ds_copy := ds_copy d1 - n, ds_remaining := ds_remaining d1 - n\<rparr>, i, out2))
          in if linear then
               finish (d\<lparr>ds_position := fin\<rparr>) (ds_position d)
                 (out\<lparr>out_bytes := store_at (out_bytes out) (out_produced out) (take n run)\<rparr>)
             else
               (case ensure_ring (en_alloc env) (ds_window_size d) fin (ds_ring d, ds_memory d) of
                  (Inl e, ring, m) \<Rightarrow> Some (Failed e, d\<lparr>ds_ring := ring, ds_memory := m\<rparr>, i, out)
                | (Inr _, ring, m) \<Rightarrow>
                    Option.bind (write_ring linear (take n run) (items ring, ds_position d, Some (ds_position d, out))) (\<lambda>(bytes, pos, lent).
                      case the lent of
                        (flushed, out1) \<Rightarrow>
                          finish (d\<lparr>ds_ring := ring\<lparr>items := bytes\<rparr>, ds_memory := m, ds_position := pos\<rparr>) flushed out1))))"

definition stage_prefix :: "environment \<Rightarrow> bool \<Rightarrow> nat \<Rightarrow> nat \<Rightarrow> nat \<Rightarrow> machine \<Rightarrow> step" where
  "stage_prefix env linear out_end offset start = (\<lambda>(d, i, out).
     if ds_copy d = 0 then goto SCommand (d, i, out)
     else if offset = prefix_len env then
       goto (if ds_distance d \<le> ds_max_backward d then SCopy else SPrefixHistory 0 start) (d, i, out)
     else when_ready (d, i, out)
       (let run = prefix_bytes env offset in
        if run = [] then Some (Failed (InvalidData DictionaryReference), d, i, out)
        else prefix_copy env linear out_end offset start run (d, i, out)))"

definition stage_prefix_history :: "environment \<Rightarrow> bool \<Rightarrow> nat \<Rightarrow> nat \<Rightarrow> machine \<Rightarrow> step" where
  "stage_prefix_history env linear offset start = (\<lambda>(d, i, out).
     if ds_copy d = 0 then goto SCommand (d, i, out)
     else if offset = length (items (ds_prefix_history d)) then goto (SPrefix start start) (d, i, out)
     else when_ready (d, i, out)
       (emitting env linear (items (ds_prefix_history d) ! offset) (d, i, out) (\<lambda>(d', i', out').
          goto (SPrefixHistory (offset + 1) start) (d'\<lparr>ds_copy := ds_copy d' - 1\<rparr>, i', out'))))"

definition stage_dictionary :: "environment \<Rightarrow> bool \<Rightarrow> machine \<Rightarrow> step" where
  "stage_dictionary env linear = (\<lambda>(d, i, out).
     with_tables (d, i, out) (\<lambda>t.
       if dt_scratch_pos t = dt_scratch_len t then goto SCommand (d, i, out)
       else when_ready (d, i, out)
         (emitting env linear (dt_scratch t ! dt_scratch_pos t)
            (put_tables (t\<lparr>dt_scratch_pos := dt_scratch_pos t + 1\<rparr>) d, i, out) continue_with)))"

section \<open>The machine\<close>

definition stage_end_block :: "machine \<Rightarrow> step" where
  "stage_end_block mc = goto (if ds_last (fst mc) then SEnd else SMeta) mc"

definition stage_end :: "machine \<Rightarrow> step" where
  "stage_end = (\<lambda>(d, i, out).
     case align (ds_bits d) of
       (Inl e, b') \<Rightarrow> Some (Failed e, d\<lparr>ds_bits := b'\<rparr>, i, out)
     | (Inr _, b') \<Rightarrow> Some (Stopped Stop_Member, d\<lparr>ds_bits := b'\<rparr>, i, out))"

definition stage_step :: "environment \<Rightarrow> bool \<Rightarrow> nat \<Rightarrow> machine \<Rightarrow> step" where
  "stage_step env linear out_end mc =
     (case ds_stage (fst mc) of
        SWindow \<Rightarrow> stage_window env mc
      | SMeta \<Rightarrow> stage_meta env mc
      | SMetadata \<Rightarrow> stage_metadata mc
      | SRaw \<Rightarrow> stage_raw env linear out_end mc
      | SBlocks k \<Rightarrow> stage_blocks env k mc
      | SDistanceParams \<Rightarrow> stage_distance_params env mc
      | SModes k \<Rightarrow> stage_modes k mc
      | SMaps k \<Rightarrow> stage_maps env k mc
      | STrees k idx \<Rightarrow> stage_trees env k idx mc
      | SCommand \<Rightarrow> stage_command env linear out_end mc
      | SInsertExtra ins cpy \<Rightarrow> stage_insert_extra ins cpy mc
      | SCopyExtra cpy \<Rightarrow> stage_copy_extra cpy mc
      | SLiterals \<Rightarrow> stage_literals env linear out_end mc
      | SDistance \<Rightarrow> stage_distance mc
      | SDistanceExtra symbol \<Rightarrow> stage_distance_extra symbol mc
      | SDistanceExtraHigh symbol low \<Rightarrow> stage_distance_extra_high symbol low mc
      | SResolve \<Rightarrow> stage_resolve env linear mc
      | SCopy \<Rightarrow> stage_copy env linear out_end mc
      | SDictionary \<Rightarrow> stage_dictionary env linear mc
      | SPrefix offset start \<Rightarrow> stage_prefix env linear out_end offset start mc
      | SPrefixHistory offset start \<Rightarrow> stage_prefix_history env linear offset start mc
      | SEndBlock \<Rightarrow> stage_end_block mc
      | SEnd \<Rightarrow> stage_end mc)"

partial_function (option) stage_loop :: "environment \<Rightarrow> bool \<Rightarrow> nat \<Rightarrow> machine \<Rightarrow> step" where
  "stage_loop env linear out_end mc =
     Option.bind (stage_step env linear out_end mc) (\<lambda>(o', mc').
       if o' = Continue then stage_loop env linear out_end mc' else Some (o', mc'))"

definition run_stages :: "environment \<Rightarrow> bool \<Rightarrow> machine \<Rightarrow> step" where
  "run_stages env linear mc = stage_loop env linear (out_fast_end (snd (snd mc))) mc"

text \<open>\<open>run\<close>: a call that ends a member or fills the output gives read-ahead bytes back.\<close>

definition give_back :: "outcome \<Rightarrow> machine \<Rightarrow> machine" where
  "give_back o' = (\<lambda>(d, i, out).
     if o' = Stopped Stop_Member \<or> o' = Stopped Stop_Output then
       (case unread (ds_bits d, i) of (b', i') \<Rightarrow> (d\<lparr>ds_bits := b'\<rparr>, i', out))
     else (d\<lparr>ds_bits := settle (ds_bits d)\<rparr>, i, out))"

definition stream_run :: "environment \<Rightarrow> bool \<Rightarrow> machine \<Rightarrow> step" where
  "stream_run env sink_linear mc =
     map_option (\<lambda>(o', mc'). (o', give_back o' mc'))
       (run_stages env (sink_linear \<and> out_linear (snd (snd mc))) mc)"

end
