(* ===== verification/Stored.thy ===== *)
theory Stored
  imports Header
begin

unbundle bit_operations_syntax

text \<open>
  The shortcut for a member that is one stored meta-block (\<open>decompressor/core/stored.rs\<close>): its payload is
  borrowed from the source. A test of the first three bytes comes first, the general header parsers
  otherwise; every other shape, and every error, is none.
\<close>

definition ok_option :: "(decode_error + 'a option) \<times> reader \<Rightarrow> ('a \<times> reader) option" where
  "ok_option r = (case r of (Inr (Some v), s) \<Rightarrow> Some (v, s) | _ \<Rightarrow> None)"

definition three_byte_header :: "u8 list \<Rightarrow> nat" where
  "three_byte_header src = from_le_bytes (take 3 src @ [0])"

text \<open>The whole shape that the three bytes check, with the result they then decide.\<close>

definition short_shape :: "u8 list \<Rightarrow> bool" where
  "short_shape src \<longleftrightarrow> length src \<ge> 3 \<and>
     (let header = three_byte_header src in header AND 0x800071 = 0x800001 \<and> header AND 0x0e \<noteq> 0)"

definition short_payload :: "u8 list \<Rightarrow> window_limit \<Rightarrow> u8 list option" where
  "short_payload src limit =
     (let w = 17 + (shr (unat (src ! 0)) 1 AND 7);
          len = (shr (three_byte_header src) 7 AND 0xffff) + 1
      in if w \<le> max_bits limit \<and> length src = len + 4 \<and> List.last src = 3 then Some (take len (drop 3 src)) else None)"

text \<open>The last step of both shapes: alignment, and nothing behind the member.\<close>

definition whole_member :: "u8 list \<Rightarrow> u8 list \<times> reader \<Rightarrow> u8 list option" where
  "whole_member src = (\<lambda>(bytes, s).
     case align_reader s of
       (Inl _, _) \<Rightarrow> None
     | (Inr _, s') \<Rightarrow> if consumed (snd s') = length src then Some bytes else None)"

definition general_payload :: "u8 list \<Rightarrow> window_limit \<Rightarrow> u8 list option" where
  "general_payload src limit =
     Option.bind (ok_option (header_window limit (bits_default, input_new src 0 None))) (\<lambda>(_, s1).
     Option.bind (ok_option (header_metablock s1)) (\<lambda>(block, s2).
       case block of
         End \<Rightarrow> whole_member src ([], s2)
       | Uncompressed len \<Rightarrow>
           Option.bind (checked_add 64 (consumed (snd s2)) len) (\<lambda>fin.
             if fin \<le> length src then
               Option.bind (ok_option (header_metablock (fst s2, (snd s2)\<lparr>consumed := fin\<rparr>))) (\<lambda>(block', s3).
                 if block' = End then whole_member src (take len (drop (consumed (snd s2)) src), s3) else None)
             else None)
       | _ \<Rightarrow> None))"

definition payload :: "u8 list \<Rightarrow> window_limit \<Rightarrow> u8 list option" where
  "payload src limit = (if short_shape src then short_payload src limit else general_payload src limit)"

end
