(* ===== verification/Session.thy ===== *)
theory Session
  imports Stages Stored
begin

unbundle bit_operations_syntax

text \<open>
  Operations over a decoder: the lifecycle of an operation (\<open>decompressor/core/session.rs\<close>), the reusable
  decoder with its one-shot entry points (\<open>decompressor/decoder.rs\<close>) and the configuration they read
  (\<open>decompressor/config.rs\<close>, \<open>retention.rs\<close>). The backend only selects vector instructions. A session that
  borrows its decoder and one that owns it run the same operation; the end of either is \<open>release\<close>.
  \<open>sink_linear\<close> is \<open>O::LINEAR\<close>: true for an initialized slice, false for an uninitialized one.
\<close>

section \<open>Configuration\<close>

datatype member_mode = Single | Concatenated

record decode_limits =
  lim_input :: "nat option"
  lim_output :: "nat option"
  lim_workspace :: "nat option"

definition decode_limits_default :: decode_limits where
  "decode_limits_default = \<lparr>lim_input = None, lim_output = None, lim_workspace = None\<rparr>"

record decoder_config =
  cf_window :: window_limit
  cf_members :: member_mode
  cf_limits :: decode_limits

definition decoder_config_new :: decoder_config where
  "decoder_config_new = \<lparr>cf_window = \<lparr>max_bits = 62, allows_large = True\<rparr>, cf_members = Single, cf_limits = decode_limits_default\<rparr>"

datatype retention_policy = Aggressive | CurrentConfig | Bounded nat | ReleaseAll

section \<open>The decoder\<close>

record decompressor =
  dc_config :: decoder_config
  dc_retention :: retention_policy
  dc_workspace :: dstream
  dc_active :: bool

definition decompressor_build :: "decoder_config \<Rightarrow> retention_policy \<Rightarrow> decompressor" where
  "decompressor_build config retention =
     \<lparr>dc_config = config, dc_retention = retention, dc_workspace = dstream_default, dc_active = False\<rparr>"

definition decompressor_retained :: "decompressor \<Rightarrow> nat" where
  "decompressor_retained dec = dl_retained_bytes (dc_workspace dec)"

definition recover :: "decompressor \<Rightarrow> decompressor" where
  "recover dec = dec\<lparr>dc_workspace := dstream_default, dc_active := False\<rparr>"

definition trim_decoder :: "retention_policy \<Rightarrow> decompressor \<Rightarrow> decompressor" where
  "trim_decoder policy dec =
     (if policy = ReleaseAll \<or> (case policy of Bounded n \<Rightarrow> decompressor_retained dec > n | _ \<Rightarrow> False)
      then dec\<lparr>dc_workspace := dstream_default\<rparr> else dec)"

definition reset_workspace :: "decoder_config \<Rightarrow> decompressor \<Rightarrow> decompressor" where
  "reset_workspace config dec = dec\<lparr>dc_workspace := dstream_reset (lim_workspace (cf_limits config)) (dc_workspace dec)\<rparr>"

definition reconfigure :: "decoder_config \<Rightarrow> decompressor \<Rightarrow> decompressor" where
  "reconfigure config dec =
     (let dec1 = (if dc_active dec \<or> dc_retention dec = ReleaseAll \<or> config \<noteq> dc_config dec \<and> dc_retention dec = CurrentConfig
                  then recover dec else dec)
      in (reset_workspace config (dec1\<lparr>dc_config := config\<rparr>))\<lparr>dc_active := False\<rparr>)"

definition fork_empty :: "decompressor \<Rightarrow> decompressor" where
  "fork_empty dec = dec\<lparr>dc_workspace := dstream_default, dc_active := False\<rparr>"

section \<open>An operation\<close>

datatype decode_operation = Process | Finish

datatype decoder_status = NeedsInput | NeedsOutput | Finished

datatype delivery_mode = Slice | Collect nat | Linear

record operation_state =
  op_size :: output_size
  op_total_in :: nat
  op_total_out :: nat
  op_members :: nat
  op_window :: "window option"
  op_final_end :: nat
  op_finishing :: bool
  op_boundary :: bool
  op_finished :: bool
  op_failed :: bool

record decode_progress =
  pr_consumed :: nat
  pr_produced :: nat
  pr_status :: decoder_status

record decode_failure =
  fl_error :: decode_error
  fl_consumed :: nat
  fl_produced :: nat

definition operation_start :: "output_size \<Rightarrow> decompressor \<Rightarrow> (decode_error + operation_state) \<times> decompressor" where
  "operation_start sz dec =
     (let limits = cf_limits (dc_config dec) in
      if dc_active dec then (Inl AbandonedSession, dec)
      else case (case (sz, lim_output limits) of (Exact expected, Some l) \<Rightarrow> if expected > l then Some l else None | _ \<Rightarrow> None) of
        Some l \<Rightarrow> (Inl (OutputLimitExceeded l), dec)
      | None \<Rightarrow>
          (let dec1 = (if (case lim_workspace limits of Some l \<Rightarrow> decompressor_retained dec > l | None \<Rightarrow> False)
                       then recover dec else dec)
           in (Inr \<lparr>op_size = sz, op_total_in = 0, op_total_out = 0, op_members = 0, op_window = None, op_final_end = 0,
                    op_finishing = False, op_boundary = False, op_finished = False, op_failed = False\<rparr>,
               (reset_workspace (dc_config dec1) dec1)\<lparr>dc_active := True\<rparr>)))"

type_synonym call = "operation_state \<times> decompressor \<times> input \<times> caller_output"

text \<open>At a member boundary: the operation's end, a wait for another member, or going on with one.\<close>

definition session_boundary :: "call \<Rightarrow> ((decode_error + decoder_status) option \<times> call)" where
  "session_boundary = (\<lambda>(op, dec, i, out).
     let at_end = (consumed i = length (in_bytes i)) in
     if \<not> op_boundary op then (None, op, dec, i, out)
     else if cf_members (dc_config dec) = Single \<or> op_finishing op \<and> at_end then
       (let actual = op_total_out op + out_produced out in
        case op_size op of
          Exact expected \<Rightarrow>
            if actual \<noteq> expected then (Some (Inl (OutputSizeMismatch expected actual)), op, dec, i, out)
            else (Some (Inr Finished), op\<lparr>op_finished := True\<rparr>, dec, i, out)
        | Unknown \<Rightarrow> (Some (Inr Finished), op\<lparr>op_finished := True\<rparr>, dec, i, out))
     else if at_end then (Some (Inr NeedsInput), op, dec, i, out)
     else (None, op\<lparr>op_boundary := False\<rparr>, reset_workspace (dc_config dec) dec, i, out))"

text \<open>What a stop of the stream means to the operation.\<close>

definition session_outcome :: "outcome \<Rightarrow> operation_state \<Rightarrow> caller_output \<Rightarrow>
    (decode_error + decoder_status) option \<times> operation_state \<times> caller_output" where
  "session_outcome o' op out =
     (case o' of
        Failed e \<Rightarrow> (Some (Inl e), op, out)
      | Stopped Stop_Input \<Rightarrow> (Some (if op_finishing op then Inl UnexpectedEndOfInput else Inr NeedsInput), op, out)
      | Stopped Stop_Output \<Rightarrow> (Some (Inr NeedsOutput), op, out)
      | Stopped Stop_Member \<Rightarrow>
          (let out1 = out\<lparr>out_linear := False\<rparr> in
           case checked_add 64 (op_members op) 1 of
             None \<Rightarrow> (Some (Inl SizeOverflow), op, out1)
           | Some n \<Rightarrow> (None, op\<lparr>op_members := n, op_boundary := True\<rparr>, out1))
      | Continue \<Rightarrow> (None, op, out))"

definition session_round :: "environment \<Rightarrow> bool \<Rightarrow> call \<Rightarrow> ((decode_error + decoder_status) option \<times> call) option" where
  "session_round env sink_linear c =
     (case session_boundary c of
        (Some r, c') \<Rightarrow> Some (Some r, c')
      | (None, (op, dec, i, out)) \<Rightarrow>
          map_option (\<lambda>(o', (d, i', out')).
            (let op1 = (if ds_window d \<noteq> None then op\<lparr>op_window := ds_window d\<rparr> else op) in
             case session_outcome o' op1 out' of
               (r, op2, out2) \<Rightarrow> (r, op2, dec\<lparr>dc_workspace := d\<rparr>, i', out2)))
            (stream_run (env\<lparr>en_window_limit := cf_window (dc_config dec)\<rparr>) sink_linear (dc_workspace dec, i, out)))"

partial_function (option) session_loop ::
    "environment \<Rightarrow> bool \<Rightarrow> call \<Rightarrow> ((decode_error + decoder_status) \<times> call) option" where
  "session_loop env sink_linear c =
     Option.bind (session_round env sink_linear c) (\<lambda>(r, c').
       case r of Some v \<Rightarrow> Some (v, c') | None \<Rightarrow> session_loop env sink_linear c')"

definition no_progress :: "decode_error \<Rightarrow> decode_failure" where
  "no_progress e = \<lparr>fl_error = e, fl_consumed = 0, fl_produced = 0\<rparr>"

text \<open>The checks before a call touches the decoder: the operation it goes on with, or the answer.\<close>

definition admit :: "decode_operation \<Rightarrow> nat \<Rightarrow> operation_state \<Rightarrow>
    ((decode_failure + decode_progress) option) \<times> operation_state" where
  "admit operation len op =
     (if op_failed op then (Some (Inl (no_progress InvalidState)), op)
      else if op_finished op then (Some (Inr \<lparr>pr_consumed = 0, pr_produced = 0, pr_status = Finished\<rparr>), op)
      else case checked_add 64 (op_total_in op) len of
        None \<Rightarrow> (Some (Inl (no_progress SizeOverflow)), op\<lparr>op_failed := True\<rparr>)
      | Some fin \<Rightarrow>
          if op_finishing op then
            (if operation \<noteq> Finish \<or> fin \<noteq> op_final_end op then (Some (Inl (no_progress InvalidState)), op\<lparr>op_failed := True\<rparr>)
             else (None, op))
          else if operation = Finish then (None, op\<lparr>op_final_end := fin, op_finishing := True\<rparr>)
          else (None, op))"

definition call_output :: "decompressor \<Rightarrow> operation_state \<Rightarrow> u8 list \<Rightarrow> delivery_mode \<Rightarrow> caller_output" where
  "call_output dec op out mode =
     \<lparr>out_bytes = out, out_collect = (case mode of Collect n \<Rightarrow> Some n | _ \<Rightarrow> None),
      out_linear = (mode = Linear \<and> op_total_in op = 0 \<and> op_total_out op = 0), out_produced = 0,
      out_total_before = op_total_out op, out_limit = lim_output (cf_limits (dc_config dec)), out_exact = op_size op\<rparr>"

text \<open>The totals after a call, whatever its result.\<close>

definition settle_call :: "(decode_error + decoder_status) \<times> call \<Rightarrow>
    (decode_failure + decode_progress) \<times> operation_state \<times> decompressor \<times> u8 list" where
  "settle_call = (\<lambda>(r, op, dec, i, out).
     let op1 = op\<lparr>op_total_in := op_total_in op + consumed i, op_total_out := op_total_out op + out_produced out\<rparr> in
     case r of
       Inr status \<Rightarrow> (Inr \<lparr>pr_consumed = consumed i, pr_produced = out_produced out, pr_status = status\<rparr>, op1, dec, out_bytes out)
     | Inl e \<Rightarrow> (Inl \<lparr>fl_error = e, fl_consumed = consumed i, fl_produced = out_produced out\<rparr>, op1\<lparr>op_failed := True\<rparr>, dec, out_bytes out))"

definition operation_run :: "environment \<Rightarrow> bool \<Rightarrow> decode_operation \<Rightarrow> delivery_mode \<Rightarrow> u8 list \<Rightarrow> u8 list \<Rightarrow>
    operation_state \<times> decompressor \<Rightarrow> ((decode_failure + decode_progress) \<times> operation_state \<times> decompressor \<times> u8 list) option" where
  "operation_run env sink_linear operation mode src dst = (\<lambda>(op, dec).
     case admit operation (length src) op of
       (Some r, op') \<Rightarrow> Some (r, op', dec, dst)
     | (None, op') \<Rightarrow>
         map_option settle_call
           (session_loop env sink_linear
              (op', dec, input_new src (op_total_in op') (lim_input (cf_limits (dc_config dec))), call_output dec op' dst mode)))"

definition operation_process :: "environment \<Rightarrow> decode_operation \<Rightarrow> delivery_mode \<Rightarrow> u8 list \<Rightarrow> u8 list \<Rightarrow>
    operation_state \<times> decompressor \<Rightarrow> ((decode_failure + decode_progress) \<times> operation_state \<times> decompressor \<times> u8 list) option" where
  "operation_process env operation mode src dst = operation_run env True operation mode src dst"

definition operation_process_uninit :: "environment \<Rightarrow> decode_operation \<Rightarrow> u8 list \<Rightarrow> u8 list \<Rightarrow>
    operation_state \<times> decompressor \<Rightarrow> ((decode_failure + decode_progress) \<times> operation_state \<times> decompressor \<times> u8 list) option" where
  "operation_process_uninit env operation src dst = operation_run env False operation Slice src dst"

definition poison :: "operation_state \<Rightarrow> operation_state" where
  "poison op = op\<lparr>op_failed := True\<rparr>"

definition release_operation :: "decompressor \<Rightarrow> decompressor" where
  "release_operation dec = trim_decoder (dc_retention dec) (reset_workspace (dc_config dec) (dec\<lparr>dc_active := False\<rparr>))"

section \<open>One-shot decoding\<close>

definition stored_one_shot :: "decompressor \<Rightarrow> u8 list \<Rightarrow> u8 list option" where
  "stored_one_shot dec src =
     (if dc_active dec \<or> cf_members (dc_config dec) \<noteq> Single \<or> cf_limits (dc_config dec) \<noteq> decode_limits_default then None
      else payload src (cf_window (dc_config dec)))"

definition one_shot_outcome :: "decode_progress \<Rightarrow> nat \<Rightarrow> decode_error + nat" where
  "one_shot_outcome p len =
     (if pr_status p = NeedsOutput then Inl (OutputTooSmall (pr_produced p))
      else if pr_consumed p \<noteq> len then Inl (TrailingData (pr_consumed p))
      else Inr (pr_produced p))"

text \<open>One \<open>Finish\<close> call over the whole source, and the end of its session.\<close>

definition one_call :: "environment \<Rightarrow> bool \<Rightarrow> delivery_mode \<Rightarrow> u8 list \<Rightarrow> u8 list \<Rightarrow> decompressor \<Rightarrow>
    ((decode_error + nat) \<times> decompressor \<times> u8 list) option" where
  "one_call env sink_linear mode src dst dec =
     (case operation_start Unknown dec of
        (Inl e, dec1) \<Rightarrow> Some (Inl e, dec1, dst)
      | (Inr op, dec1) \<Rightarrow>
          map_option (\<lambda>(r, op', dec2, dst').
            ((case r of Inl f \<Rightarrow> Inl (fl_error f) | Inr p \<Rightarrow> one_shot_outcome p (length src)), release_operation dec2, dst'))
            (operation_run env sink_linear Finish mode src dst (op, dec1)))"

definition decode_to_slice :: "environment \<Rightarrow> u8 list \<Rightarrow> u8 list \<Rightarrow> decompressor \<Rightarrow> ((decode_error + nat) \<times> decompressor \<times> u8 list) option" where
  "decode_to_slice env = one_call env True Linear"

definition decompress_to_uninit :: "environment \<Rightarrow> u8 list \<Rightarrow> u8 list \<Rightarrow> decompressor \<Rightarrow> ((decode_error + nat) \<times> decompressor \<times> u8 list) option" where
  "decompress_to_uninit env src dst dec =
     (case stored_one_shot dec src of
        Some bytes \<Rightarrow>
          if length bytes \<le> length dst then Some (Inr (length bytes), trim_decoder (dc_retention dec) dec, store_at dst 0 bytes)
          else one_call env False Slice src dst dec
      | None \<Rightarrow> one_call env False Slice src dst dec)"

end
