(* ===== verification/Stored_Member.thy ===== *)
theory Stored_Member
  imports Stored
begin

unbundle bit_operations_syntax

text \<open>
  The header parsers are demand-driven: where they succeed, less than a byte is left in the
  reservoir and nothing above it (\<open>tidy\<close>), so the reader's position is determined by the bits still
  to be read. That is what lets \<open>payload\<close> take the raw bytes from the input's cursor, and what makes
  its test of three bytes agree with the parsers.
\<close>

section \<open>Readers without read-ahead\<close>

definition tidy :: "nat \<Rightarrow> reader \<Rightarrow> bool" where
  "tidy n s \<longleftrightarrow> bvalue (fst s) < 2 ^ bcount (fst s) \<and> bcount (fst s) < n + 8"

lemma or_byte_less: "v < 2 ^ c \<Longrightarrow> v OR shl 64 (unat (byte :: u8)) c < 2 ^ (c + 8)"
proof (rule nat_less_of_bits)
  fix j assume v: "v < 2 ^ c" and j: "c + 8 \<le> j"
  have "\<not> bit v j" by (rule not_bit_nat_of_less [of _ c]) (use v j in auto)
  moreover have "\<not> bit (unat byte) (j - c)" by (rule not_bit_nat_of_less [of _ 8]) (use j unat_less_exp [of byte] in auto)
  ultimately show "\<not> bit (v OR shl 64 (unat byte) c) j" by (simp add: bit_or_iff bit_shl)
qed

lemma peek_tidy:
  assumes "peek n (b, i) = (Inr (Some v), s')" "tidy n (b, i)"
  shows "tidy n s' \<and> n \<le> bcount (fst s') \<and> same_call (b, i) s'"
  using assms
proof (induction n "(b, i)" arbitrary: b i rule: peek.induct)
  case (1 n b i)
  show ?case
  proof (cases "bcount b < n")
    case False
    then have "s' = (b, i)" using 1(2) by (simp add: peek.simps)
    then show ?thesis using False 1(3) by simp
  next
    case True
    obtain r t where l: "load_byte (b, i) = (r, t)" by (cases "load_byte (b, i)")
    have r: "r = Inr True" using 1(2) True l by (subst (asm) peek.simps) (auto split: sum.splits bool.splits)
    obtain b1 i1 where t: "t = (b1, i1)" by (cases t)
    have b1: "bvalue b1 = bvalue b OR shl 64 (unat (in_bytes i ! consumed i)) (bcount b)" "bcount b1 = bcount b + 8"
      "i1 = i\<lparr>consumed := consumed i + 1\<rparr>"
      using l r t by (auto simp: load_byte_def Let_def split: if_splits option.splits)
    have td: "tidy n (b1, i1)" using 1(3) True b1 or_byte_less [of "bvalue b" "bcount b"] by (simp add: tidy_def)
    have "peek n (b1, i1) = (Inr (Some v), s')" using 1(2) True l r t by (subst (asm) peek.simps) simp
    then have "tidy n s' \<and> n \<le> bcount (fst s') \<and> same_call (b1, i1) s'"
      using 1(1) [OF True] l r t td by auto
    then show ?thesis using b1(3) by (auto simp: same_call_def)
  qed
qed

lemma discard_tidy: "tidy n s \<Longrightarrow> n \<le> bcount (fst s) \<Longrightarrow> tidy 0 (discard n s)"
proof -
  assume a: "tidy n s" "n \<le> bcount (fst s)"
  then obtain k where k: "bcount (fst s) = k + n" by (metis add.commute le_Suc_ex)
  with a(1) have "bvalue (fst s) < 2 ^ k * 2 ^ n" by (simp add: tidy_def power_add)
  then have "bvalue (fst s) div 2 ^ n < 2 ^ k" by (simp add: less_mult_imp_div_less)
  then show ?thesis using a k by (simp add: tidy_def discard_def drop_bits_def shr_div)
qed

lemma align_tidy:
  assumes "align_reader s = (Inr u, s')" "tidy 0 s"
  shows "tidy 0 s' \<and> bcount (fst s') = 0 \<and> snd s' = snd s"
proof -
  have s': "s' = discard (padding s) s" using assms(1) by (simp add: align_reader_eq split: if_splits)
  have p: "padding s = bcount (fst s)" using padding_buffered(1) [of s] assms(2) by (simp add: tidy_def)
  have "tidy (padding s) s" using assms(2) by (simp add: tidy_def)
  from discard_tidy [OF this] show ?thesis using p by (simp add: s' discard_def drop_bits_def)
qed

text \<open>\<open>lean n f\<close>: with at least \<open>n\<close> bits and less than a byte more, where \<open>f\<close> succeeds it leaves less than a byte.\<close>

definition lean :: "nat \<Rightarrow> (reader \<Rightarrow> (decode_error + 'a option) \<times> reader) \<Rightarrow> bool" where
  "lean n f \<longleftrightarrow> (\<forall>s v s'. tidy n s \<longrightarrow> n \<le> bcount (fst s) \<longrightarrow> f s = (Inr (Some v), s') \<longrightarrow> tidy 0 s' \<and> same_call s s')"

named_theorems lean_intros

lemma lean_need [lean_intros]:
  assumes "m \<le> n" "\<And>u. lean n (k u)"
  shows "lean m (\<lambda>s. need (peek n s) k)"
  unfolding lean_def
proof (intro allI impI)
  fix s v s' assume t: "tidy m s" and r: "need (peek n s) k = (Inr (Some v), s')"
  obtain b i where s: "s = (b, i)" by (cases s)
  obtain u t where p: "peek n (b, i) = (Inr (Some u), t)" "k u t = (Inr (Some v), s')"
    using r unfolding s by (cases "(peek n (b, i), k)" rule: need.cases) auto
  have "tidy n (b, i)" using assms(1) t by (simp add: tidy_def s)
  from peek_tidy [OF p(1) this] assms(2) [of u] p(2) show "tidy 0 s' \<and> same_call s s'"
    unfolding lean_def s by (meson same_call_trans)
qed

lemma lean_if [lean_intros]: "(c \<Longrightarrow> lean m f) \<Longrightarrow> (\<not> c \<Longrightarrow> lean m g) \<Longrightarrow> lean m (\<lambda>s. if c then f s else g s)"
  by (cases c) simp_all

lemma lean_error [lean_intros]: "lean m (\<lambda>s. (Inl e, s))"
  by (simp add: lean_def)

lemma lean_discard [lean_intros]: "lean n (\<lambda>s. (Inr (Some v), discard n s))"
  unfolding lean_def by (metis Pair_inject discard_same_call discard_tidy)

lemma lean_accept [lean_intros]: "lean n (accept_window limit declared n large)"
  unfolding lean_def accept_window_iff by (metis discard_same_call discard_tidy)

lemma lean_align [lean_intros]: "lean n (\<lambda>s. attempt (align_reader (discard n s)) (\<lambda>_ t. (Inr (Some v), t)))"
  unfolding lean_def
proof (intro allI impI)
  fix s w s' assume s: "tidy n s" "n \<le> bcount (fst s)"
    and r: "attempt (align_reader (discard n s)) (\<lambda>_ t. (Inr (Some v), t)) = (Inr (Some w), s')"
  obtain q t where q: "align_reader (discard n s) = (q, t)" by (cases "align_reader (discard n s)")
  then obtain u where u: "q = Inr u" "s' = t" using r by (cases q) auto
  have "snd (discard n s) = snd s" by (simp add: discard_def)
  then show "tidy 0 s' \<and> same_call s s'"
    using align_tidy [OF q [unfolded u(1)] discard_tidy [OF s]] u(2) by (simp add: same_call_def)
qed

lemma lean_header_window: "lean 0 (header_window limit)"
  unfolding header_window_def Let_def by (intro lean_intros) simp_all

lemma lean_header_metadata: "m \<le> prefix + 3 \<Longrightarrow> lean m (header_metadata prefix final)"
  unfolding header_metadata_def Let_def by (intro lean_intros) simp_all

lemma lean_metablock_body: "m \<le> prefix + 2 \<Longrightarrow> lean m (metablock_body final prefix)"
  unfolding metablock_body_def Let_def by (intro lean_intros lean_header_metadata) simp_all

lemma lean_header_metablock: "lean 0 header_metablock"
  unfolding header_metablock_def by (intro lean_intros lean_metablock_body) simp_all

lemma leanD:
  assumes "lean 0 f" "tidy 0 s" "f s = (Inr (Some v), s')"
  shows "tidy 0 s'" "same_call s s'"
  using assms unfolding lean_def by blast+

section \<open>Positions\<close>

text \<open>All of a source, not limited.\<close>

definition unlimited :: "reader \<Rightarrow> bool" where
  "unlimited s \<longleftrightarrow> reader_ok s \<and> fast_end (snd s) = length (in_bytes (snd s))"

lemma unlimited_new: "length src < 2 ^ 64 \<Longrightarrow> unlimited (bits_default, input_new src 0 None) \<and> tidy 0 (bits_default, input_new src 0 None)
    \<and> stream (bits_default, input_new src 0 None) = bytes_bits src"
  using reader_ok_new [of 0 src None] stream_new [of src 0 None]
  by (simp add: unlimited_def input_new_def Let_def tidy_def bits_default_def min_def)

lemma stream_length: "unlimited s \<Longrightarrow> length (stream s) = bcount (fst s) + 8 * (length (in_bytes (snd s)) - consumed (snd s))"
  by (simp add: unlimited_def stream_def acceptable_def)

lemma tidy_position:
  assumes "unlimited s" "tidy 0 s"
  shows "bcount (fst s) = length (stream s) mod 8"
    "consumed (snd s) = length (in_bytes (snd s)) - length (stream s) div 8"
    "bvalue (fst s) = nat_of_bits (take (bcount (fst s)) (stream s))"
proof -
  have l: "length (stream s) = bcount (fst s) + 8 * (length (in_bytes (snd s)) - consumed (snd s))" "bcount (fst s) < 8"
    using stream_length [OF assms(1)] assms(2) by (simp_all add: tidy_def)
  then show "bcount (fst s) = length (stream s) mod 8" by simp
  have "consumed (snd s) \<le> length (in_bytes (snd s))" using assms(1) by (simp add: unlimited_def reader_ok_def input_ok_def)
  then show "consumed (snd s) = length (in_bytes (snd s)) - length (stream s) div 8" using l by simp
  show "bvalue (fst s) = nat_of_bits (take (bcount (fst s)) (stream s))"
    using assms(2) by (simp add: stream_def tidy_def)
qed

lemma tidy_aligned:
  assumes "unlimited s" "tidy 0 s" "8 dvd length (stream s)"
  shows "bcount (fst s) = 0" "bvalue (fst s) = 0" "length (stream s) = 8 * (length (in_bytes (snd s)) - consumed (snd s))"
proof -
  show z: "bcount (fst s) = 0" using tidy_position(1) [OF assms(1,2)] assms(3) by (simp only: dvd_eq_mod_eq_0)
  show "bvalue (fst s) = 0" using assms(2) z by (simp add: tidy_def)
  show "length (stream s) = 8 * (length (in_bytes (snd s)) - consumed (snd s))" using stream_length [OF assms(1)] z by simp
qed

lemma step_unlimited:
  assumes "unlimited s" "same_call s s'" "reader_ok s'"
  shows "unlimited s'"
  using assms unfolding unlimited_def same_call_def by metis

section \<open>The test of three bytes\<close>

lemma byte_bits_list: "byte_bits b = [bit b 0, bit b 1, bit b 2, bit b 3, bit b 4, bit b 5, bit b 6, bit b 7]"
  by (simp add: byte_bits_def upt_rec eval_nat_numeral)

lemma three_bytes: "three_byte_header (a # b # c # rest) = nat_of_bits (byte_bits a @ byte_bits b @ byte_bits c)"
proof -
  have "byte_bits 0 = replicate 8 False" by (simp add: byte_bits_list numeral_eq_Suc)
  then show ?thesis using zero_bits [of "replicate 8 False"]
    by (simp add: three_byte_header_def from_le_bytes_bits del: from_le_bytes.simps)
qed

lemma masked_bits:
  assumes "(H :: nat) AND m = r"
  shows "bit m j \<Longrightarrow> bit H j = bit r j"
  using assms by (auto simp: bit_and_iff)

lemma short_shape_bits:
  assumes "short_shape (a # b # c # rest)"
  shows "bit a 0" "\<not> bit a 4" "\<not> bit a 5" "\<not> bit a 6" "bit c 7" "bit a 1 \<or> bit a 2 \<or> bit a 3"
proof -
  let ?X = "byte_bits a @ byte_bits b @ byte_bits c"
  have h: "nat_of_bits ?X AND 0x800071 = 0x800001" "nat_of_bits ?X AND 0x0e \<noteq> 0"
    using assms unfolding short_shape_def three_bytes Let_def by simp_all
  have x: "bit (nat_of_bits ?X) 0 = bit a 0" "bit (nat_of_bits ?X) 4 = bit a 4" "bit (nat_of_bits ?X) 5 = bit a 5"
    "bit (nat_of_bits ?X) 6 = bit a 6" "bit (nat_of_bits ?X) 23 = bit c 7"
    "bit (nat_of_bits ?X) 1 = bit a 1" "bit (nat_of_bits ?X) 2 = bit a 2" "bit (nat_of_bits ?X) 3 = bit a 3"
    unfolding bit_nat_of_bits by (simp_all add: nth_append)
  note m = masked_bits [OF h(1)]
  show "bit a 0" "\<not> bit a 4" "\<not> bit a 5" "\<not> bit a 6" "bit c 7"
    using m [of 0] m [of 4] m [of 5] m [of 6] m [of 23] unfolding x by (simp_all add: bit_Suc_0_iff)
  show "bit a 1 \<or> bit a 2 \<or> bit a 3"
  proof (rule ccontr)
    assume n: "\<not> ?thesis"
    have "j = 1 \<or> j = 2 \<or> j = 3" if "bit (0x0e :: nat) j" for j
    proof -
      have "j \<noteq> 0" using that by (cases j) simp_all
      moreover have "j < 4"
      proof (rule ccontr)
        assume "\<not> j < 4"
        then have "4 \<le> j" by simp
        moreover have "(0x0e :: nat) < 2 ^ 4" by simp
        ultimately show False using not_bit_nat_of_less that by blast
      qed
      ultimately show ?thesis by linarith
    qed
    then have "nat_of_bits ?X AND 0x0e = 0" using n x by (intro bit_eqI) (auto simp only: bit_and_iff bit_0_eq bot_apply bot_bool_def)
    with h(2) show False by simp
  qed
qed

text \<open>What the shape says of the bits: a standard window and a stored meta-block.\<close>

lemma short_shape_headers:
  assumes "short_shape src"
  obtains w len where "wencoding w = Standard" "wbits w = 17 + (shr (unat (src ! 0)) 1 AND 7)" "18 \<le> wbits w" "wbits w \<le> 24"
    "len = (shr (three_byte_header src) 7 AND 0xffff) + 1" "1 \<le> len" "len \<le> 2 ^ 16"
    "bytes_bits src = header_bits w @ meta_block_bits (Uncompressed len) @ bytes_bits (drop 3 src)" "window_ok w"
proof -
  obtain a b c rest where src: "src = a # b # c # rest"
    using assms by (cases src; cases "tl src"; cases "tl (tl src)") (auto simp: short_shape_def)
  note bits = short_shape_bits [OF assms [unfolded src]]
  define V where "V = [bit a 1, bit a 2, bit a 3]"
  define F where "F = bit a 7 # byte_bits b @ take 7 (byte_bits c)"
  define w where "w = \<lparr>wbits = 17 + nat_of_bits V, wencoding = Standard\<rparr>"
  define len where "len = nat_of_bits F + 1"
  have V: "1 \<le> nat_of_bits V" "nat_of_bits V < 2 ^ 3" using bits(6) nat_of_bits_less [of V] by (auto simp: V_def)
  have F: "length F = 16" "nat_of_bits F < 2 ^ 16" using nat_of_bits_less [of F] by (simp_all add: F_def)
  have wv: "shr (unat (src ! 0)) 1 AND 7 = nat_of_bits V"
  proof -
    have u: "unat a = nat_of_bits (byte_bits a)" by (simp add: byte_bits_nat)
    have "shr (nat_of_bits (byte_bits a)) 1 AND (2 ^ 3 - 1) = nat_of_bits (take 3 (drop 1 (byte_bits a)))"
      by (simp only: shr_nat_of_bits mask_nat_of_bits)
    then show ?thesis by (simp add: src u V_def byte_bits_list)
  qed
  have lv: "shr (three_byte_header src) 7 AND 0xffff = nat_of_bits F"
  proof -
    have "shr (nat_of_bits (byte_bits a @ byte_bits b @ byte_bits c)) 7 AND (2 ^ 16 - 1) =
        nat_of_bits (take 16 (drop 7 (byte_bits a @ byte_bits b @ byte_bits c)))" by (simp only: shr_nat_of_bits mask_nat_of_bits)
    moreover have "take 16 (drop 7 (byte_bits a @ byte_bits b @ byte_bits c)) = F" by (simp add: F_def byte_bits_list)
    ultimately show ?thesis by (simp only: src three_bytes) simp
  qed
  have wo: "window_ok w" using V by (simp add: window_ok_def w_def MAX_STANDARD_BITS_def)
  have hb: "header_bits w = True # V"
  proof -
    have "header_bits w = bits_of_nat 4 (nat_of_bits (True # V))"
      unfolding header_bits_def header_cases [OF wo] using V(1) by (simp add: w_def mult.commute)
    moreover have "length (True # V) = 4" by (simp add: V_def)
    ultimately show ?thesis by (metis bits_of_nat_of_bits)
  qed
  have mb: "meta_block_bits (Uncompressed len) = False # False # False # F @ [True]"
  proof -
    have k: "mlen_nibbles len = 4" using F(2) by (simp add: mlen_nibbles_def len_def)
    have "bits_of_nat 16 (nat_of_bits F) = F" using bits_of_nat_of_bits [of F] F(1) by simp
    moreover have "bits_of_nat 2 0 = [False, False]" "len - 1 = nat_of_bits F" by (simp_all add: bits_of_nat_def upt_rec len_def)
    ultimately show ?thesis by (simp add: mlen_bits_def k flag_bits_def)
  qed
  have "bytes_bits src = header_bits w @ meta_block_bits (Uncompressed len) @ bytes_bits (drop 3 src)"
    unfolding hb mb using bits by (simp add: src F_def V_def byte_bits_list)
  then show thesis using that [of w len] V F wv lv wo by (simp add: w_def len_def)
qed

section \<open>The parsers on a stored member\<close>

text \<open>The reader of a source with nothing buffered, at byte \<open>k\<close>.\<close>

definition at_byte :: "u8 list \<Rightarrow> nat \<Rightarrow> reader" where
  "at_byte src k = (bits_default, (input_new src 0 None)\<lparr>consumed := k\<rparr>)"

lemma at_byte_ok:
  assumes "k \<le> length src" "length src < 2 ^ 64"
  shows "unlimited (at_byte src k)" "tidy 0 (at_byte src k)" "stream (at_byte src k) = bytes_bits (drop k src)"
    "in_bytes (snd (at_byte src k)) = src"
proof -
  let ?s = "at_byte src k"
  have f: "fast_end (input_new src 0 None) = length src" using assms(2) by (simp add: input_new_def Let_def)
  have acc: "acceptable (snd ?s) = drop k src" "in_bytes (snd ?s) = src"
    by (simp_all add: at_byte_def acceptable_def f) (simp_all add: input_new_def Let_def)
  then show "stream ?s = bytes_bits (drop k src)" "in_bytes (snd ?s) = src"
    by (simp_all add: stream_def at_byte_def bits_default_def)
  have "input_ok (snd ?s)" using assms f by (simp add: input_ok_def at_byte_def) (simp add: input_new_def Let_def)
  then show "unlimited ?s" using f acc(2) by (simp add: unlimited_def reader_ok_def at_byte_def bits_default_def)
  show "tidy 0 ?s" by (simp add: tidy_def at_byte_def bits_default_def)
qed

lemma same_call_at_byte: "same_call (at_byte src k) (at_byte src j)"
  by (simp add: same_call_def at_byte_def)

lemma at_byte_parts [simp]: "consumed (snd (at_byte src k)) = k"
  "(fst (at_byte src k), (snd (at_byte src k))\<lparr>consumed := j\<rparr>) = at_byte src j"
  by (simp_all add: at_byte_def)

lemma at_byte_start: "(bits_default, input_new src 0 None) = at_byte src 0"
  by (simp add: at_byte_def input_new_def Let_def)

text \<open>A tidy reader with whole bytes left is at one of them.\<close>

lemma tidy_at_byte:
  assumes s: "unlimited s" "tidy 0 s" "same_call (at_byte src j) s" and l: "length (stream s) = 8 * n"
  shows "s = at_byte src (length src - n) \<and> n \<le> length src"
proof -
  have d: "8 dvd length (stream s)" using l by simp
  note z = tidy_aligned [OF s(1,2) d]
  have eq: "in_bytes (snd s) = src" "total_before (snd s) = 0" "in_limit (snd s) = None" "fast_end (snd s) = fast_end (input_new src 0 None)"
    using s(3) by (simp_all add: same_call_def at_byte_def) (simp_all add: input_new_def Let_def)
  have "fst s = bits_default" using z(1,2) by (simp add: bits_default_def)
  moreover have c: "n = length src - consumed (snd s)" using z(3) l eq(1) by simp
  moreover have "consumed (snd s) \<le> length src" using s(1) eq(1) by (simp add: unlimited_def reader_ok_def input_ok_def)
  ultimately have n: "n \<le> length src" "consumed (snd s) = length src - n" "fst s = bits_default" by simp_all
  moreover have "snd s = (input_new src 0 None)\<lparr>consumed := length src - n\<rparr>"
    using eq n(2) by (cases "snd s") (simp add: input_new_def Let_def)
  ultimately show ?thesis by (cases s) (simp add: at_byte_def)
qed

text \<open>The end of a member at byte \<open>k\<close>: exactly one byte, with the last empty meta-block and zero padding.\<close>

lemma byte_three: "byte_bits (3 :: u8) = [True, True] @ replicate 6 False"
proof -
  have "byte_bits (3 :: u8) = [True, True, False, False, False, False, False, False]" by (simp add: bit_eval)
  moreover have "replicate 6 False = [False, False, False, False, False, False]" by (simp add: eval_nat_numeral)
  ultimately show ?thesis by simp
qed

lemma byte_bits_inj: "byte_bits a = byte_bits b \<Longrightarrow> a = b"
proof (rule bit_word_eqI)
  fix n assume e: "byte_bits a = byte_bits b" and "n < LENGTH(8)"
  then have "n < 8" by simp
  then show "bit a n \<longleftrightarrow> bit b n" using e by (metis nth_byte_bits)
qed

lemma bytes_bits_inj: "bytes_bits xs = bytes_bits ys \<Longrightarrow> xs = ys"
proof (induction xs arbitrary: ys)
  case Nil
  then have "length (bytes_bits ys) = 0" by (metis bytes_bits.simps(1) list.size(3))
  then show ?case by simp
next
  case (Cons x xs)
  then have "length (bytes_bits ys) \<noteq> 0" by (metis length_bytes_bits list.size(3) mult_is_0 length_0_conv list.distinct(1) zero_neq_numeral)
  then obtain y zs where ys: "ys = y # zs" by (cases ys) auto
  then have "byte_bits x = byte_bits y" "bytes_bits xs = bytes_bits zs" using Cons.prems by (simp_all add: append_eq_append_conv)
  then show ?case using Cons.IH byte_bits_inj ys by blast
qed

lemma end_of_member:
  assumes k: "k \<le> length src" "length src < 2 ^ 64" and h: "header_metablock (at_byte src k) = (Inr (Some End), s3)"
  shows "whole_member src (bytes, s3) = (if drop k src = [3] then Some bytes else None)"
proof -
  note a = at_byte_ok [OF k]
  have sd: "headed End (stream (at_byte src k)) (stream s3)" "reader_ok s3"
    using header_metablock_sound [OF _ h] a(1) by (simp_all add: unlimited_def)
  have td: "tidy 0 s3" "same_call (at_byte src k) s3" using leanD [OF lean_header_metablock a(2) h] by blast+
  have u: "unlimited s3" by (rule step_unlimited [OF a(1) td(2) sd(2)])
  have st: "bytes_bits (drop k src) = True # True # stream s3" using sd(1) a(3) by (simp add: headed_def gap_def)
  then have len: "8 * (length src - k) = 2 + length (stream s3)" by (metis add_2_eq_Suc length_Cons length_bytes_bits length_drop)
  have src: "in_bytes (snd s3) = src" using td(2) a(4) by (simp add: same_call_def)
  note p = tidy_position [OF u td(1), unfolded src]
  show ?thesis
  proof (cases "length src - k = 1")
    case True
    then obtain c where c: "drop k src = [c]" by (metis length_0_conv length_Suc_conv length_drop One_nat_def)
    have l6: "length (stream s3) = 6" using len True by simp
    have pad: "padding s3 = 6" using padding_buffered(1) [of s3] p(1) l6 by simp
    have con: "consumed (snd s3) = length src" using p(2) l6 by simp
    have bits: "byte_bits c = True # True # stream s3" using st c by simp
    have "take 6 (stream s3) = replicate 6 False \<longleftrightarrow> c = 3"
    proof
      assume "take 6 (stream s3) = replicate 6 False"
      then have "byte_bits c = byte_bits 3" using bits l6 byte_three by simp
      then show "c = 3" by (rule byte_bits_inj)
    next
      assume "c = 3"
      then show "take 6 (stream s3) = replicate 6 False" using bits byte_three l6 by simp
    qed
    then show ?thesis using c con by (auto simp: whole_member_def align_reader_eq pad discard_def)
  next
    case False
    have "length src - k \<noteq> 0" using len by (intro notI) simp
    then have "8 \<le> length (stream s3)" using False len by linarith
    then have "consumed (snd s3) < length src" using p(2) len by (simp add: div_greater_zero_iff)
    moreover have "length (drop k src) \<noteq> length [3 :: u8]" using False by simp
    then have "drop k src \<noteq> [3]" by metis
    ultimately show ?thesis by (auto simp: whole_member_def align_reader_eq discard_def)
  qed
qed

lemma end_of_member_parses:
  assumes "drop k src = [3]" "length src < 2 ^ 64"
  shows "\<exists>s3. header_metablock (at_byte src k) = (Inr (Some End), s3)"
proof -
  have "k \<le> length src" using assms(1) by (metis drop_all list.distinct(1) nat_le_linear)
  note a = at_byte_ok [OF this assms(2)]
  have "headed End (stream (at_byte src k)) (replicate 6 False)"
    using a(3) assms(1) byte_three by (simp add: headed_def gap_def)
  from header_metablock_decodes [OF _ this] a(1) show ?thesis by (auto simp: unlimited_def)
qed

text \<open>The general parse of a source that starts with the headers of a stored member.\<close>

lemma window_header_read:
  assumes "length src < 2 ^ 64" "window_ok w" "permitted limit w" "bytes_bits src = header_bits w @ xs"
  obtains s1 where "header_window limit (at_byte src 0) = (Inr (Some w), s1)" "unlimited s1" "tidy 0 s1" "stream s1 = xs"
    "same_call (at_byte src 0) s1"
proof -
  note a = at_byte_ok [OF _ assms(1), of 0, simplified]
  have "stream (at_byte src 0) = header_bits w @ xs" using a(3) assms(4) by simp
  from header_window_decodes [OF _ assms(2,3) this] a(1)
  obtain s1 where s1: "header_window limit (at_byte src 0) = (Inr (Some w), s1)" "reader_ok s1" "stream s1 = xs" by (auto simp: unlimited_def)
  from leanD [OF lean_header_window a(2) s1(1)] have "tidy 0 s1" "same_call (at_byte src 0) s1" by blast+
  then show thesis using that s1 step_unlimited [OF a(1)] by blast
qed

lemma stored_header_read:
  assumes s1: "unlimited s1" "tidy 0 s1" "same_call (at_byte src 0) s1" and h: "headed (Uncompressed len) (stream s1) (bytes_bits rest)"
  shows "header_metablock s1 = (Inr (Some (Uncompressed len)), at_byte src (length src - length rest))" "length rest \<le> length src"
proof -
  obtain s2 where s2: "header_metablock s1 = (Inr (Some (Uncompressed len)), s2)" "reader_ok s2" "stream s2 = bytes_bits rest"
    using header_metablock_decodes [OF _ h] s1(1) by (auto simp: unlimited_def)
  from leanD [OF lean_header_metablock s1(2) s2(1)] have t: "tidy 0 s2" "same_call s1 s2" by blast+
  have u: "unlimited s2" by (rule step_unlimited [OF s1(1) t(2) s2(2)])
  from tidy_at_byte [OF u t(1) same_call_trans [OF s1(3) t(2)], of "length rest"] s2(1,3)
  show "header_metablock s1 = (Inr (Some (Uncompressed len)), at_byte src (length src - length rest))" "length rest \<le> length src"
    by simp_all
qed

lemma general_stored:
  assumes n: "length src < 2 ^ 64" and w: "window_ok w" "permitted limit w" and str: "bytes_bits src = header_bits w @ xs"
    and h: "headed (Uncompressed len) xs (bytes_bits rest)"
  shows "general_payload src limit = (if drop len rest = [3] then Some (take len rest) else None)"
    "drop (length src - length rest) src = rest"
proof -
  obtain s1 where s1: "header_window limit (at_byte src 0) = (Inr (Some w), s1)" "unlimited s1" "tidy 0 s1" "stream s1 = xs"
    "same_call (at_byte src 0) s1" using window_header_read [OF n w str] by blast
  have h1: "headed (Uncompressed len) (stream s1) (bytes_bits rest)" using h s1(4) by simp
  note sh = stored_header_read [OF s1(2,3,5) h1]
  let ?k = "length src - length rest"
  have rest: "drop ?k src = rest"
  proof -
    have s2: "reader_ok (at_byte src ?k)" "stream (at_byte src ?k) = bytes_bits (drop ?k src)"
      using at_byte_ok [OF _ n, of ?k] by (simp_all add: unlimited_def)
    have "headed (Uncompressed len) (stream s1) (stream (at_byte src ?k))"
      using header_metablock_sound [OF _ sh(1)] s1(2) by (simp add: unlimited_def)
    then have "bytes_bits (drop ?k src) = bytes_bits rest" using h1 s2(2) unfolding headed_def by (metis same_append_eq)
    then show ?thesis by (rule bytes_bits_inj)
  qed
  then show "drop ?k src = rest" .
  have start: "general_payload src limit =
      (if ?k + len \<le> length src then
         Option.bind (ok_option (header_metablock (at_byte src (?k + len)))) (\<lambda>(block', s3).
           if block' = End then whole_member src (take len rest, s3) else None)
       else None)"
    if "?k + len < 2 ^ 64"
    unfolding general_payload_def at_byte_start s1(1) using that rest
    by (simp add: ok_option_def sh(1) checked_add_def cong: if_cong)
  have over: "general_payload src limit = None" if "\<not> ?k + len < 2 ^ 64"
    unfolding general_payload_def at_byte_start s1(1) using that
    by (simp add: ok_option_def sh(1) checked_add_def)
  have dl: "drop (?k + len) src = drop len rest" using rest by (metis add.commute drop_drop)
  show "general_payload src limit = (if drop len rest = [3] then Some (take len rest) else None)"
  proof (cases "?k + len \<le> length src")
    case False
    then have "drop len rest = []" using sh(2) by simp
    then show ?thesis using start over False by (cases "?k + len < 2 ^ 64") simp_all
  next
    case True
    then have lt: "?k + len < 2 ^ 64" using n by simp
    obtain r s3 where r: "header_metablock (at_byte src (?k + len)) = (r, s3)" by (cases "header_metablock (at_byte src (?k + len))")
    show ?thesis
    proof (cases "r = Inr (Some End)")
      case e: True
      have "whole_member src (take len rest, s3) = (if drop len rest = [3] then Some (take len rest) else None)"
        using end_of_member [OF True n] r e dl by simp
      then show ?thesis using start [OF lt] True r e by (simp add: ok_option_def)
    next
      case False
      then have "drop len rest \<noteq> [3]" using end_of_member_parses [OF _ n, of "?k + len"] r dl by auto
      moreover have "general_payload src limit = None" using start [OF lt] True r False
        by (auto simp: ok_option_def split: sum.splits option.splits)
      ultimately show ?thesis by simp
    qed
  qed
qed

section \<open>The shortcut\<close>

lemma window_header_unique:
  assumes n: "length src < 2 ^ 64" and w: "window_ok w" "bytes_bits src = header_bits w @ xs"
    and r: "header_window limit (at_byte src 0) = (Inr (Some w'), s')"
  shows "w' = w" "permitted limit w'"
proof -
  define wide where "wide = \<lparr>max_bits = 62, allows_large = True\<rparr>"
  note a = at_byte_ok [OF _ n, of 0, simplified]
  have ok: "reader_ok (at_byte src 0)" using a(1) by (simp add: unlimited_def)
  note sd = header_window_sound [OF ok r]
  have p: "permitted wide v" if "window_ok v" for v
    using that by (auto simp: permitted_def window_ok_def wide_def MAX_STANDARD_BITS_def MAX_LARGE_BITS_def split: window_encoding.splits)
  have "\<exists>t. header_window wide (at_byte src 0) = (Inr (Some w), t)"
    using header_window_decodes [OF ok w(1) p [OF w(1)]] a(3) w(2) by auto
  moreover have "\<exists>t. header_window wide (at_byte src 0) = (Inr (Some w'), t)"
    using header_window_decodes [OF ok _ p] sd by blast
  ultimately show "w' = w" by auto
  show "permitted limit w'" using sd by simp
qed

lemma general_not_permitted:
  assumes n: "length src < 2 ^ 64" and w: "window_ok w" "bytes_bits src = header_bits w @ xs" "\<not> permitted limit w"
  shows "general_payload src limit = None"
proof -
  obtain r s1 where r: "header_window limit (at_byte src 0) = (r, s1)" by (cases "header_window limit (at_byte src 0)")
  have "r \<noteq> Inr (Some w')" for w'
    using window_header_unique [OF n w(1,2), of limit w' s1] r w(3) by (intro notI) simp
  then have "ok_option (r, s1) = None" by (simp add: ok_option_def split: sum.splits option.splits)
  then show ?thesis unfolding general_payload_def at_byte_start r by simp
qed

lemma last_three: "drop (3 + n) src = [c] \<longleftrightarrow> length src = n + 4 \<and> List.last src = c"
proof
  assume d: "drop (3 + n) src = [c]"
  then have "length (drop (3 + n) src) = 1" by simp
  then have "length src = n + 4" by simp
  moreover have "List.last src = List.last (drop (3 + n) src)" using d by (intro last_drop [symmetric]) (metis drop_all list.distinct(1) not_le)
  ultimately show "length src = n + 4 \<and> List.last src = c" using d by simp
next
  assume a: "length src = n + 4 \<and> List.last src = c"
  then have "length (drop (3 + n) src) = 1" by simp
  then obtain x where x: "drop (3 + n) src = [x]" by (metis One_nat_def length_0_conv length_Suc_conv)
  moreover have "List.last src = List.last (drop (3 + n) src)" using a by (intro last_drop [symmetric]) simp
  ultimately show "drop (3 + n) src = [c]" using a by simp
qed

lemma short_general:
  assumes n: "length src < 2 ^ 64" and sh: "short_shape src"
  shows "short_payload src limit = general_payload src limit"
proof -
  obtain w len where w: "wencoding w = Standard" "wbits w = 17 + (shr (unat (src ! 0)) 1 AND 7)"
    "len = (shr (three_byte_header src) 7 AND 0xffff) + 1" "1 \<le> len" "len \<le> 2 ^ 16"
    "bytes_bits src = header_bits w @ meta_block_bits (Uncompressed len) @ bytes_bits (drop 3 src)" "window_ok w"
    using short_shape_headers [OF sh] by metis
  have pm: "permitted limit w \<longleftrightarrow> 17 + (shr (unat (src ! 0)) 1 AND 7) \<le> max_bits limit" using w(1,2) by (simp add: permitted_def)
  show ?thesis
  proof (cases "permitted limit w")
    case False
    then show ?thesis using general_not_permitted [OF n w(7,6)] pm by (simp add: short_payload_def Let_def)
  next
    case True
    let ?ys = "bytes_bits (drop 3 src)"
    have "meta_block_ok (Uncompressed len)" "byte_aligned (Uncompressed len)" using w(4,5) by simp_all
    from headed_aligned [OF this(2,1) refl refl, of ?ys ?ys] have "headed (Uncompressed len) (meta_block_bits (Uncompressed len) @ ?ys) ?ys"
      by simp
    from general_stored(1) [OF n w(7) True w(6) this] show ?thesis
      using True pm w(3) last_three [of len src 3] by (simp add: short_payload_def Let_def add.commute)
  qed
qed

text \<open>
  C9 (equivalence). The test of three bytes in front of the stored-member shortcut changes no answer: on
  every source and under every window limit, \<open>payload\<close> is what the general header parsers give,
  the refusals (a window over the limit, a wrong length, a tail or padding that is not zero)
  included.
\<close>

theorem payload_shortcut_exact:
  assumes "length src < 2 ^ 64"
  shows "payload src limit = general_payload src limit"
  using short_general [OF assms] by (simp add: payload_def)

theorem payload_shortcut_exact_witness:
  "payload [0x0b, 0x00, 0x80, 0x68, 0x03] \<lparr>max_bits = 24, allows_large = False\<rparr> =
   general_payload [0x0b, 0x00, 0x80, 0x68, 0x03] \<lparr>max_bits = 24, allows_large = False\<rparr>"
  by (rule payload_shortcut_exact) simp

end
