(* ===== verification/Plain_Member.thy ===== *)
theory Plain_Member
  imports Session Stored_Member
begin

unbundle bit_operations_syntax

text \<open>
  The stage machine on members without compressed meta-blocks: any sequence of stored and metadata
  blocks. Decoded into a slice in one call, linearly, such a member needs no memory at all, so the
  result is determined for every allocator: the stored data, or the part of it that fits.
\<close>

section \<open>Plain members\<close>

datatype plain_block = Data "u8 list" | Skip "u8 list"

fun plain_header :: "plain_block \<Rightarrow> meta_block" where
  "plain_header (Data c) = Uncompressed (length c)"
| "plain_header (Skip c) = Metadata (length c) False"

fun plain_bytes :: "plain_block \<Rightarrow> u8 list" where
  "plain_bytes (Data c) = c"
| "plain_bytes (Skip c) = c"

fun block_data :: "plain_block \<Rightarrow> u8 list" where
  "block_data (Data c) = c"
| "block_data (Skip c) = []"

definition plain_data :: "plain_block list \<Rightarrow> u8 list" where
  "plain_data bs = concat (map block_data bs)"

text \<open>The bits behind the window header.\<close>

fun plain_member :: "plain_block list \<Rightarrow> bool list \<Rightarrow> bool" where
  "plain_member [] xs \<longleftrightarrow> (\<exists>n<8. xs = [True, True] @ replicate n False)"
| "plain_member (b # bs) xs \<longleftrightarrow>
     (\<exists>rest. headed (plain_header b) xs (bytes_bits (plain_bytes b @ rest)) \<and> plain_member bs (bytes_bits rest))"

lemma plain_header_aligned [simp]: "byte_aligned (plain_header b)"
  by (cases b) simp_all

section \<open>Headers of byte-aligned blocks\<close>

lemma aligned_header_read:
  assumes s1: "unlimited s1" "tidy 0 s1" "same_call (at_byte src j) s1" and h: "headed m (stream s1) (bytes_bits rest)"
    and n: "length src < 2 ^ 64"
  shows "header_metablock s1 = (Inr (Some m), at_byte src (length src - length rest))" "length rest \<le> length src"
    "drop (length src - length rest) src = rest"
proof -
  obtain s2 where s2: "header_metablock s1 = (Inr (Some m), s2)" "reader_ok s2" "stream s2 = bytes_bits rest"
    using header_metablock_decodes [OF _ h] s1(1) by (auto simp: unlimited_def)
  from leanD [OF lean_header_metablock s1(2) s2(1)] have t: "tidy 0 s2" "same_call s1 s2" by blast+
  have u: "unlimited s2" by (rule step_unlimited [OF s1(1) t(2) s2(2)])
  from tidy_at_byte [OF u t(1) same_call_trans [OF s1(3) t(2)], of "length rest"] s2(3)
  have at: "s2 = at_byte src (length src - length rest)" "length rest \<le> length src" by simp_all
  then show "header_metablock s1 = (Inr (Some m), at_byte src (length src - length rest))" "length rest \<le> length src"
    using s2(1) by simp_all
  have "bytes_bits (drop (length src - length rest) src) = bytes_bits rest"
    using at_byte_ok(3) [OF _ n, of "length src - length rest"] s2(3) at(1) by simp
  then show "drop (length src - length rest) src = rest" by (rule bytes_bits_inj)
qed

section \<open>The machine in a linear call\<close>

definition free_output :: "u8 list \<Rightarrow> nat \<Rightarrow> caller_output" where
  "free_output bytes n = \<lparr>out_bytes = bytes, out_collect = None, out_linear = True, out_produced = n, out_total_before = 0,
     out_limit = None, out_exact = Unknown\<rparr>"

lemma free_output_simps [simp]:
  "out_produced (free_output bytes n) = n" "out_bytes (free_output bytes n) = bytes" "out_collect (free_output bytes n) = None"
  "out_linear (free_output bytes n) = True"
  "free_output bytes n\<lparr>out_bytes := bytes'\<rparr>\<lparr>out_produced := n'\<rparr> = free_output bytes' n'"
  by (simp_all add: free_output_def)

lemma free_output_ready: "length bytes < 2 ^ 63 \<Longrightarrow> n \<le> length bytes \<Longrightarrow> out_ready (free_output bytes n) = Inr (n < length bytes)"
  by (simp add: out_ready_def free_output_def checked_add_def check_limit_def check_exact_def out_capacity_def)

lemma free_output_end: "length bytes < 2 ^ 63 \<Longrightarrow> out_fast_end (free_output bytes n) = length bytes"
  by (simp add: out_fast_end_def free_output_def out_capacity_def)

lemma loop_continue: "stage_step env l e mc = Some (Continue, mc') \<Longrightarrow> stage_loop env l e mc = stage_loop env l e mc'"
  by (subst stage_loop.simps) simp

lemma loop_stop: "stage_step env l e mc = Some (o', mc') \<Longrightarrow> o' \<noteq> Continue \<Longrightarrow> stage_loop env l e mc = Some (o', mc')"
  by (subst stage_loop.simps) simp

lemma settle_default [simp]: "settle bits_default = bits_default"
  by (simp add: settle_def bits_default_def)

text \<open>A stored run of \<open>c\<close> before byte \<open>k\<close>, and what follows it in the same block.\<close>

definition raw_state :: "u8 list \<Rightarrow> nat \<Rightarrow> nat \<Rightarrow> u8 list \<Rightarrow> nat \<Rightarrow> dstream \<Rightarrow> input \<Rightarrow> bool" where
  "raw_state src k n c p d i \<longleftrightarrow> ds_stage d = SRaw \<and> ds_last d = False \<and> ds_remaining d = n \<and> (ds_bits d, i) = at_byte src k \<and>
     k \<le> length src \<and> take n (drop k src) = c \<and> length c = n \<and> ds_position d = p"

lemma stored_twice: "a + length xs \<le> length st \<Longrightarrow> store_at (store_at st a xs) (a + length xs) ys = store_at st a (xs @ ys)"
  by (simp add: store_at_def ac_simps)

lemma raw_round:
  assumes d: "raw_state src k n c p d i" and p: "p < length bytes" "length bytes < 2 ^ 63" "length src < 2 ^ 63" and n: "n \<noteq> 0"
    and m: "m = min n (length bytes - p)"
  shows "\<exists>d' i'. stage_step env True (length bytes) (d, i, free_output bytes p) =
      Some (Continue, d', i', free_output (store_at bytes p (take m c)) (p + m)) \<and> raw_state src (k + m) (n - m) (drop m c) (p + m) d' i'"
proof -
  note r = d [unfolded raw_state_def]
  have bi: "ds_bits d = bits_default" "i = (input_new src 0 None)\<lparr>consumed := k\<rparr>" using r by (simp_all add: at_byte_def)
  have ii: "in_bytes i = src" "consumed i = k" "fast_end i = length src" using p(3) by (simp_all add: bi input_new_def Let_def)
  have kn: "k + n \<le> length src" using r by auto
  have take: "take m (drop k src) = take m c" using r m by (metis min.absorb1 min.cobounded1 take_take)
  have m': "min (min n (length src - k)) (length bytes - p) = m" using kn m by simp
  have m0: "m \<noteq> 0" using n m p(1) by simp
  have rest: "bcount (ds_bits d) = 0" by (simp add: bi bits_default_def)
  let ?d = "d\<lparr>ds_bits := settle (ds_bits d), ds_position := ds_position d + m, ds_remaining := ds_remaining d - m\<rparr>"
  have "stage_step env True (length bytes) (d, i, free_output bytes p) =
      Some (Continue, ?d, i\<lparr>consumed := consumed i + m\<rparr>, free_output (store_at bytes p (take m c)) (p + m))"
    using r n m0 ii take free_output_ready [of bytes p] p
    unfolding stage_step_def stage_raw_def raw_bytes_def
    by (simp add: when_ready_def rest m' Let_def cong: if_cong)
  moreover have "raw_state src (k + m) (n - m) (drop m c) (p + m) ?d (i\<lparr>consumed := consumed i + m\<rparr>)"
  proof -
    have "take (n - m) (drop (k + m) src) = drop m c" using r m by (metis drop_drop drop_take add.commute)
    then show ?thesis using r kn m by (auto simp: raw_state_def bi at_byte_def)
  qed
  ultimately show ?thesis by blast
qed

lemma raw_done:
  assumes d: "raw_state src k 0 c p d i"
  shows "\<exists>d'. stage_loop env True e (d, i, out) = stage_loop env True e (d', i, out) \<and> ds_stage d' = SMeta \<and> (ds_bits d', i) = at_byte src k \<and>
    ds_position d' = p"
proof -
  note r = d [unfolded raw_state_def]
  have 1: "stage_step env True e (d, i, out) = Some (Continue, d\<lparr>ds_stage := SEndBlock\<rparr>, i, out)"
    using r by (simp add: stage_step_def stage_raw_def goto_def)
  have 2: "stage_step env True e (d\<lparr>ds_stage := SEndBlock\<rparr>, i, out) = Some (Continue, d\<lparr>ds_stage := SMeta\<rparr>, i, out)"
    using r by (simp add: stage_step_def stage_end_block_def goto_def)
  show ?thesis using r by (intro exI [of _ "d\<lparr>ds_stage := SMeta\<rparr>"]) (simp add: loop_continue [OF 1] loop_continue [OF 2])
qed

lemma raw_full:
  assumes d: "raw_state src k n c (length bytes) d i" and p: "length bytes < 2 ^ 63" and n: "n \<noteq> 0"
  shows "stage_loop env True e (d, i, free_output bytes (length bytes)) = Some (Stopped Stop_Output, d, i, free_output bytes (length bytes))"
proof (rule loop_stop)
  show "stage_step env True e (d, i, free_output bytes (length bytes)) = Some (Stopped Stop_Output, d, i, free_output bytes (length bytes))"
    using d n free_output_ready [OF p, of "length bytes"]
    by (simp add: raw_state_def stage_step_def stage_raw_def when_ready_def)
qed simp

text \<open>A stored block that fits, and one that does not.\<close>

lemma raw_block:
  assumes d: "raw_state src k n c p d i" and p: "p \<le> length bytes" "length bytes < 2 ^ 63" "length src < 2 ^ 63"
  shows "if p + n \<le> length bytes
    then \<exists>d' i'. stage_loop env True (length bytes) (d, i, free_output bytes p) =
        stage_loop env True (length bytes) (d', i', free_output (store_at bytes p c) (p + n)) \<and> ds_stage d' = SMeta \<and>
        (ds_bits d', i') = at_byte src (k + n) \<and> ds_position d' = p + n
    else \<exists>d' i'. stage_loop env True (length bytes) (d, i, free_output bytes p) =
        Some (Stopped Stop_Output, d', i', free_output (store_at bytes p (take (length bytes - p) c)) (length bytes))"
proof (cases "n = 0")
  case True
  have c: "c = []" using d True by (simp add: raw_state_def)
  then have "store_at bytes p c = bytes" using p(1) by (simp add: store_at_def)
  then show ?thesis using raw_done [OF d [unfolded True], of env "length bytes" "free_output bytes p"] True p(1) by auto
next
  case n: False
  show ?thesis
  proof (cases "p = length bytes")
    case True
    then show ?thesis using raw_full [OF d [unfolded True] p(2) n, of env "length bytes"] n by (auto simp: store_at_def)
  next
    case False
    then have lt: "p < length bytes" using p(1) by simp
    define m where "m = min n (length bytes - p)"
    define st where "st = store_at bytes p (take m c)"
    have lc: "length c = n" using d by (simp add: raw_state_def)
    have len: "length st = length bytes" using lt m_def lc by (simp add: st_def)
    from raw_round [OF d lt p(2,3) n m_def, of env]
    obtain d' i' where d': "stage_loop env True (length bytes) (d, i, free_output bytes p) = stage_loop env True (length bytes) (d', i', free_output st (p + m))"
      "raw_state src (k + m) (n - m) (drop m c) (p + m) d' i'" using loop_continue unfolding st_def by blast
    show ?thesis
    proof (cases "p + n \<le> length bytes")
      case fits: True
      then have "m = n" "st = store_at bytes p c" using m_def lc by (simp_all add: st_def)
      with raw_done [of src "k + n" "drop n c" "p + n" d' i' env "length bytes" "free_output st (p + n)"] d' fits show ?thesis by auto
    next
      case over: False
      then have m: "m = length bytes - p" "p + m = length st" "n - m \<noteq> 0" using m_def lt len by simp_all
      have "raw_state src (k + m) (n - m) (drop m c) (length st) d' i'" using d'(2) m(2) by simp
      from raw_full [OF this _ m(3), of env "length bytes"] p(2)
      have "stage_loop env True (length bytes) (d', i', free_output st (length st)) = Some (Stopped Stop_Output, d', i', free_output st (length st))"
        by (simp add: len)
      then have "stage_loop env True (length bytes) (d, i, free_output bytes p) =
          Some (Stopped Stop_Output, d', i', free_output (store_at bytes p (take (length bytes - p) c)) (length bytes))"
        unfolding d'(1) m(2) unfolding st_def m(1) using len [unfolded st_def m(1)] by simp
      then show ?thesis using over by auto
    qed
  qed
qed

text \<open>Between two blocks, with the bits still to be read.\<close>

definition meta_at :: "u8 list \<Rightarrow> bool list \<Rightarrow> nat \<Rightarrow> dstream \<Rightarrow> input \<Rightarrow> bool" where
  "meta_at src xs p d i \<longleftrightarrow> ds_stage d = SMeta \<and> unlimited (ds_bits d, i) \<and> tidy 0 (ds_bits d, i) \<and>
     same_call (at_byte src 0) (ds_bits d, i) \<and> stream (ds_bits d, i) = xs \<and> ds_position d = p"

lemma meta_at_byte:
  assumes "ds_stage d = SMeta" "(ds_bits d, i) = at_byte src k" "ds_position d = p" "k \<le> length src" "length src < 2 ^ 63"
  shows "meta_at src (bytes_bits (drop k src)) p d i"
  using assms at_byte_ok [of k src] by (simp add: meta_at_def same_call_at_byte)

lemma skip_block:
  assumes d: "ds_stage d = SMetadata" "ds_last d = False" "ds_remaining d = n" "(ds_bits d, i) = at_byte src k" "ds_position d = p"
    and k: "k + n \<le> length src" "length src < 2 ^ 63"
  shows "\<exists>d' i'. stage_loop env True e (d, i, out) = stage_loop env True e (d', i', out) \<and> ds_stage d' = SMeta \<and>
    (ds_bits d', i') = at_byte src (k + n) \<and> ds_position d' = p"
proof -
  have bi: "ds_bits d = bits_default" "i = (input_new src 0 None)\<lparr>consumed := k\<rparr>" using d(4) by (simp_all add: at_byte_def)
  have ii: "in_bytes i = src" "consumed i = k" "fast_end i = length src" using k(2) by (simp_all add: bi input_new_def Let_def)
  have rest: "bcount (ds_bits d) = 0" by (simp add: bi bits_default_def)
  have fin: "\<exists>d'. stage_loop env True e (d, i, out) = stage_loop env True e (d', i, out) \<and> ds_stage d' = SMeta \<and> ds_bits d' = ds_bits d \<and>
      ds_position d' = ds_position d" if "ds_stage d = SMetadata" "ds_last d = False" "ds_remaining d = 0" for d i
  proof -
    have 1: "stage_step env True e (d, i, out) = Some (Continue, d\<lparr>ds_stage := SEndBlock\<rparr>, i, out)"
      using that by (simp add: stage_step_def stage_metadata_def goto_def)
    have 2: "stage_step env True e (d\<lparr>ds_stage := SEndBlock\<rparr>, i, out) = Some (Continue, d\<lparr>ds_stage := SMeta\<rparr>, i, out)"
      using that by (simp add: stage_step_def stage_end_block_def goto_def)
    show ?thesis by (intro exI [of _ "d\<lparr>ds_stage := SMeta\<rparr>"]) (simp add: loop_continue [OF 1] loop_continue [OF 2])
  qed
  show ?thesis
  proof (cases "n = 0")
    case True
    then have "ds_remaining d = 0" using d(3) by simp
    from fin [OF d(1,2) this, of i] obtain d' where "stage_loop env True e (d, i, out) = stage_loop env True e (d', i, out)"
      "ds_stage d' = SMeta" "ds_bits d' = ds_bits d" "ds_position d' = p" using d(5) by auto
    then show ?thesis using True d(4) by (intro exI [of _ d'] exI [of _ i]) simp
  next
    case False
    let ?d = "d\<lparr>ds_bits := settle (ds_bits d), ds_remaining := 0\<rparr>" and ?i = "i\<lparr>consumed := k + n\<rparr>"
    have "min n (length src - k) = n" using k(1) by simp
    then have "stage_step env True e (d, i, out) = Some (Continue, ?d, ?i, out)"
      using d(1-3) False by (simp add: stage_step_def stage_metadata_def rest ii Let_def)
    moreover obtain d' where "stage_loop env True e (?d, ?i, out) = stage_loop env True e (d', ?i, out)" "ds_stage d' = SMeta"
      "ds_bits d' = ds_bits ?d" "ds_position d' = p" using fin [of ?d ?i] d by auto
    moreover have "(ds_bits ?d, ?i) = at_byte src (k + n)" by (simp add: bi at_byte_def)
    ultimately show ?thesis using loop_continue by (intro exI [of _ d'] exI [of _ ?i]) simp
  qed
qed

text \<open>The header of a plain block.\<close>

lemma plain_header_step:
  assumes m: "meta_at src xs p d i" and h: "headed (plain_header b) xs (bytes_bits (plain_bytes b @ rest))"
    and n: "length src < 2 ^ 63" "p < 2 ^ 63"
  obtains d' i' k where "stage_loop env True e (d, i, out) = stage_loop env True e (d', i', out)" "k \<le> length src"
    "drop k src = plain_bytes b @ rest" "(ds_bits d', i') = at_byte src k" "ds_position d' = p" "ds_last d' = False"
    "ds_remaining d' = length (plain_bytes b)" "ds_stage d' = (case b of Data c \<Rightarrow> SRaw | Skip c \<Rightarrow> SMetadata)"
proof -
  note r = m [unfolded meta_at_def]
  let ?k = "length src - length (plain_bytes b @ rest)"
  have "headed (plain_header b) (stream (ds_bits d, i)) (bytes_bits (plain_bytes b @ rest))" using h r by simp
  from aligned_header_read [OF _ _ _ this, of src 0] r n(1)
  have hd: "header_metablock (ds_bits d, i) = (Inr (Some (plain_header b)), at_byte src ?k)" "drop ?k src = plain_bytes b @ rest" by simp_all
  obtain b' i' where s: "at_byte src ?k = (b', i')" by (cases "at_byte src ?k")
  have ok: "meta_block_ok (plain_header b)" using h by (simp add: headed_def)
  have fits: "checked_add 64 p (length (plain_bytes b)) \<noteq> None"
    using ok n(2) by (cases b) (auto simp: checked_add_def)
  let ?d = "d\<lparr>ds_bits := b', ds_remaining := length (plain_bytes b), ds_last := False, ds_stage := (case b of Data c \<Rightarrow> SRaw | Skip c \<Rightarrow> SMetadata)\<rparr>"
  have "stage_step env True e (d, i, out) = Some (Continue, ?d, i', out)"
    using r hd(1) fits unfolding stage_step_def stage_meta_def s
    by (cases b) (simp_all add: header_data_def goto_def)
  from loop_continue [OF this] that [of ?d i' ?k] show thesis using hd(2) s r by simp
qed

text \<open>The end of the member.\<close>

lemma plain_end:
  assumes m: "meta_at src ([True, True] @ replicate n False) p d i" and n: "n < 8" "length src < 2 ^ 63"
  shows "\<exists>d' i'. stage_loop env True e (d, i, out) = Some (Stopped Stop_Member, d', i', out) \<and> bcount (ds_bits d') = 0 \<and>
    bvalue (ds_bits d') = 0 \<and> consumed i' = length src"
proof -
  note r = m [unfolded meta_at_def]
  have "headed End (stream (ds_bits d, i)) (replicate n False)" using r by (simp add: headed_def gap_def)
  then obtain b' i' where s: "header_metablock (ds_bits d, i) = (Inr (Some End), b', i')" "reader_ok (b', i')" "stream (b', i') = replicate n False"
    using header_metablock_decodes [of "(ds_bits d, i)" End "replicate n False"] r by (auto simp: unlimited_def)
  from leanD [OF lean_header_metablock _ s(1)] r have t: "tidy 0 (b', i')" "same_call (ds_bits d, i) (b', i')" by blast+
  have u: "unlimited (b', i')" by (rule step_unlimited [OF _ t(2) s(2)]) (use r in blast)
  have src: "in_bytes i' = src" using r t(2) by (simp add: same_call_def at_byte_def) (simp add: input_new_def Let_def)
  note pos = tidy_position [OF u t(1), unfolded s(3)]
  have b': "bcount b' = n" "bvalue b' = 0" "consumed i' = length src"
    using pos n(1) src zero_bits [of "replicate n False"] by simp_all
  let ?d1 = "d\<lparr>ds_bits := b', ds_stage := SEnd\<rparr>"
  have 1: "stage_step env True e (d, i, out) = Some (Continue, ?d1, i', out)"
    using r s(1) unfolding stage_step_def stage_meta_def by (simp add: header_data_def goto_def)
  let ?d2 = "?d1\<lparr>ds_bits := drop_bits n b'\<rparr>"
  have 2: "stage_step env True e (?d1, i', out) = Some (Stopped Stop_Member, ?d2, i', out)"
    using b' n(1) by (simp add: stage_step_def stage_end_def align_def Let_def)
  have "stage_loop env True e (d, i, out) = Some (Stopped Stop_Member, ?d2, i', out)"
    using loop_continue [OF 1] loop_stop [OF 2] by simp
  then show ?thesis using b' by (intro exI [of _ ?d2] exI [of _ i']) (simp add: drop_bits_def shr_div)
qed

section \<open>Whole members\<close>

lemma plain_run:
  assumes "plain_member bs xs" "meta_at src xs p d i" "p \<le> length bytes" "length bytes < 2 ^ 63" "length src < 2 ^ 63"
  shows "if p + length (plain_data bs) \<le> length bytes
    then \<exists>d' i'. stage_loop env True (length bytes) (d, i, free_output bytes p) =
        Some (Stopped Stop_Member, d', i', free_output (store_at bytes p (plain_data bs)) (p + length (plain_data bs))) \<and>
        bcount (ds_bits d') = 0 \<and> bvalue (ds_bits d') = 0 \<and> consumed i' = length src
    else \<exists>d' i'. stage_loop env True (length bytes) (d, i, free_output bytes p) =
        Some (Stopped Stop_Output, d', i', free_output (store_at bytes p (take (length bytes - p) (plain_data bs))) (length bytes))"
  using assms
proof (induction bs arbitrary: xs d i p bytes)
  case Nil
  then obtain n where "n < 8" "xs = [True, True] @ replicate n False" by auto
  moreover have "store_at bytes p [] = bytes" using Nil.prems(3) by (simp add: store_at_def)
  ultimately show ?case using plain_end [of src n p d i env "length bytes" "free_output bytes p"] Nil.prems by (simp add: plain_data_def)
next
  case (Cons b bs)
  from Cons.prems(1) obtain rest where h: "headed (plain_header b) xs (bytes_bits (plain_bytes b @ rest))" "plain_member bs (bytes_bits rest)" by auto
  have p: "p < 2 ^ 63" using Cons.prems(3,4) by simp
  obtain d1 i1 k where d1: "stage_loop env True (length bytes) (d, i, free_output bytes p) = stage_loop env True (length bytes) (d1, i1, free_output bytes p)"
    "k \<le> length src" "drop k src = plain_bytes b @ rest" "(ds_bits d1, i1) = at_byte src k" "ds_position d1 = p" "ds_last d1 = False"
    "ds_remaining d1 = length (plain_bytes b)" "ds_stage d1 = (case b of Data c \<Rightarrow> SRaw | Skip c \<Rightarrow> SMetadata)"
    by (rule plain_header_step [OF Cons.prems(2) h(1) Cons.prems(5) p])
  have kn: "k + length (plain_bytes b) \<le> length src" using d1(2,3) by (metis length_append length_drop le_add1 le_diff_conv2 add.commute)
  have rest: "drop (k + length (plain_bytes b)) src = rest" using d1(3) by (metis append_eq_conv_conj drop_drop add.commute)
  show ?case
  proof (cases b)
    case (Skip c)
    have "ds_stage d1 = SMetadata" "ds_remaining d1 = length c" using d1(7,8) Skip by simp_all
    from skip_block [OF this(1) d1(6) this(2) d1(4,5) _ Cons.prems(5), of env "length bytes" "free_output bytes p"] kn Skip
    obtain d2 i2 where d2: "stage_loop env True (length bytes) (d1, i1, free_output bytes p) = stage_loop env True (length bytes) (d2, i2, free_output bytes p)"
      "ds_stage d2 = SMeta" "(ds_bits d2, i2) = at_byte src (k + length c)" "ds_position d2 = p" by auto
    have "meta_at src (bytes_bits rest) p d2 i2" using meta_at_byte [OF d2(2-4) _ Cons.prems(5)] kn rest Skip by simp
    moreover have pd: "plain_data (b # bs) = plain_data bs" using Skip by (simp add: plain_data_def)
    ultimately show ?thesis using Cons.IH [OF h(2) _ Cons.prems(3-5)] unfolding d1(1) d2(1) pd by blast
  next
    case (Data c)
    have raw: "raw_state src k (length c) c p d1 i1"
      using d1 kn Data unfolding raw_state_def by simp
    have pd: "plain_data (b # bs) = c @ plain_data bs" using Data by (simp add: plain_data_def)
    note rb = raw_block [OF raw Cons.prems(3-5), of env]
    show ?thesis
    proof (cases "p + length c \<le> length bytes")
      case False
      then have "store_at bytes p (take (length bytes - p) c) = store_at bytes p (take (length bytes - p) (plain_data (b # bs)))"
        unfolding pd by simp
      then show ?thesis using rb False d1(1) pd by auto
    next
      case fits: True
      let ?st = "store_at bytes p c"
      have len: "length ?st = length bytes" using fits by simp
      from rb fits obtain d2 i2 where d2: "stage_loop env True (length bytes) (d1, i1, free_output bytes p) =
          stage_loop env True (length bytes) (d2, i2, free_output ?st (p + length c))" "ds_stage d2 = SMeta"
        "(ds_bits d2, i2) = at_byte src (k + length c)" "ds_position d2 = p + length c" by auto
      have "meta_at src (bytes_bits rest) (p + length c) d2 i2" using meta_at_byte [OF d2(2-4) _ Cons.prems(5)] kn rest Data by simp
      note ih = Cons.IH [OF h(2) this, of ?st, unfolded len stored_twice [OF fits], OF fits Cons.prems(4,5)]
      have e: "p + length c + length (plain_data bs) = p + length (plain_data (b # bs))"
        "c @ take (length bytes - (p + length c)) (plain_data bs) = take (length bytes - p) (plain_data (b # bs))"
        using fits by (simp_all add: pd)
      from ih show ?thesis unfolding d1(1) d2(1) e pd [symmetric] .
    qed
  qed
qed

text \<open>A call that starts with the window header.\<close>

lemma plain_stages:
  assumes d: "ds_stage d = SWindow" "ds_bits d = bits_default" "ds_position d = 0"
    and w: "window_ok w" "permitted (en_window_limit env) w" "bytes_bits src = header_bits w @ xs" and m: "plain_member bs xs"
    and n: "length dst < 2 ^ 63" "length src < 2 ^ 63"
  shows "if length (plain_data bs) \<le> length dst
    then \<exists>d' i'. stream_run env True (d, input_new src 0 None, free_output dst 0) =
        Some (Stopped Stop_Member, d', i', free_output (store_at dst 0 (plain_data bs)) (length (plain_data bs))) \<and> consumed i' = length src
    else \<exists>d' i'. stream_run env True (d, input_new src 0 None, free_output dst 0) =
        Some (Stopped Stop_Output, d', i', free_output (store_at dst 0 (take (length dst) (plain_data bs))) (length dst))"
proof -
  let ?i = "input_new src 0 None"
  have n': "length src < 2 ^ 64" using n(2) by simp
  obtain s1 where s1: "header_window (en_window_limit env) (at_byte src 0) = (Inr (Some w), s1)" "unlimited s1" "tidy 0 s1" "stream s1 = xs"
    "same_call (at_byte src 0) s1" by (rule window_header_read [OF n' w])
  obtain b1 i1 where b: "s1 = (b1, i1)" by (cases s1)
  let ?d = "d\<lparr>ds_bits := b1, ds_large := (wencoding w = Large), ds_window_size := 2 ^ wbits w, ds_max_backward := 2 ^ wbits w - 16,
    ds_window := Some w, ds_stage := SMeta\<rparr>"
  have "stage_step env True (length dst) (d, ?i, free_output dst 0) = Some (Continue, ?d, i1, free_output dst 0)"
    using d s1(1) unfolding stage_step_def stage_window_def b at_byte_start [symmetric] by simp
  from loop_continue [OF this] have run: "run_stages env True (d, ?i, free_output dst 0) = stage_loop env True (length dst) (?d, i1, free_output dst 0)"
    using n(1) by (simp add: run_stages_def free_output_end)
  have "meta_at src xs 0 ?d i1" using s1 d(3) b by (simp add: meta_at_def)
  note pr = plain_run [OF m this _ n, of env, simplified add_0 diff_zero, OF le0, folded run]
  have keep: "give_back (Stopped Stop_Member) (d', i', out) = (d'\<lparr>ds_bits := ds_bits d'\<rparr>, i', out)"
    if "bcount (ds_bits d') = 0" "bvalue (ds_bits d') = 0" for d' i' out
    using that by (cases "ds_bits d'") (simp add: give_back_def unread_def)
  have out: "\<exists>d2 i2. give_back o' (d', i', out) = (d2, i2, out)" for o' d' i' out
    by (simp add: give_back_def split: prod.splits)
  show ?thesis
  proof (cases "length (plain_data bs) \<le> length dst")
    case True
    with pr obtain d' i' where r: "run_stages env True (d, ?i, free_output dst 0) =
        Some (Stopped Stop_Member, d', i', free_output (store_at dst 0 (plain_data bs)) (length (plain_data bs)))"
      "bcount (ds_bits d') = 0" "bvalue (ds_bits d') = 0" "consumed i' = length src" by auto
    then show ?thesis using True keep [OF r(2,3)] by (simp add: stream_run_def)
  next
    case False
    with pr obtain d' i' where r: "run_stages env True (d, ?i, free_output dst 0) =
        Some (Stopped Stop_Output, d', i', free_output (store_at dst 0 (take (length dst) (plain_data bs))) (length dst))" by auto
    then show ?thesis using False out [of "Stopped Stop_Output" d' i'] by (auto simp: stream_run_def)
  qed
qed

text \<open>The operation over it, and the one-shot call.\<close>

lemma plain_operation:
  assumes d: "ds_stage (dc_workspace dec) = SWindow" "ds_bits (dc_workspace dec) = bits_default" "ds_position (dc_workspace dec) = 0"
    and cf: "cf_members (dc_config dec) = Single" "cf_limits (dc_config dec) = decode_limits_default"
    and op: "op_size op = Unknown" "op_total_in op = 0" "op_total_out op = 0" "op_members op = 0" "\<not> op_finishing op" "\<not> op_boundary op"
      "\<not> op_finished op" "\<not> op_failed op"
    and w: "window_ok w" "permitted (cf_window (dc_config dec)) w" "bytes_bits src = header_bits w @ xs" and m: "plain_member bs xs"
    and n: "length dst < 2 ^ 63" "length src < 2 ^ 63"
  shows "\<exists>op' dec' p. operation_run env True Finish Linear src dst (op, dec) =
      Some (Inr p, op', dec', store_at dst 0 (take (length dst) (plain_data bs))) \<and>
    one_shot_outcome p (length src) =
      (if length (plain_data bs) \<le> length dst then Inr (length (plain_data bs)) else Inl (OutputTooSmall (length dst)))"
proof -
  let ?op = "op\<lparr>op_final_end := length src, op_finishing := True\<rparr>" and ?i = "input_new src 0 None" and ?o = "free_output dst 0"
  let ?env = "env\<lparr>en_window_limit := cf_window (dc_config dec)\<rparr>"
  have adm: "admit Finish (length src) op = (None, ?op)" using op n(2) by (simp add: admit_def checked_add_def)
  have co: "call_output dec ?op dst Linear = ?o" using cf op by (simp add: call_output_def free_output_def decode_limits_default_def)
  have il: "lim_input (cf_limits (dc_config dec)) = None" using cf by (simp add: decode_limits_default_def)
  have run: "operation_run env True Finish Linear src dst (op, dec) = map_option settle_call (session_loop env True (?op, dec, ?i, ?o))"
    using op by (simp add: operation_run_def adm co il)
  have bd: "session_boundary (?op, dec, ?i, ?o) = (None, ?op, dec, ?i, ?o)" using op by (simp add: session_boundary_def)
  have pw: "permitted (en_window_limit ?env) w" using w(2) by simp
  note ps = plain_stages [OF d w(1) pw w(3) m n]
  show ?thesis
  proof (cases "length (plain_data bs) \<le> length dst")
    case True
    with ps obtain d' i' where r: "stream_run ?env True (dc_workspace dec, ?i, ?o) =
        Some (Stopped Stop_Member, d', i', free_output (store_at dst 0 (plain_data bs)) (length (plain_data bs)))" "consumed i' = length src"
      by auto
    let ?op1 = "if ds_window d' \<noteq> None then ?op\<lparr>op_window := ds_window d'\<rparr> else ?op"
    let ?op2 = "?op1\<lparr>op_members := 1, op_boundary := True\<rparr>" and ?dec = "dec\<lparr>dc_workspace := d'\<rparr>"
    let ?o2 = "free_output (store_at dst 0 (plain_data bs)) (length (plain_data bs))\<lparr>out_linear := False\<rparr>"
    have o1: "op_members ?op1 = 0" "op_size ?op1 = Unknown" using op by simp_all
    have 1: "session_round env True (?op, dec, ?i, ?o) = Some (None, ?op2, ?dec, i', ?o2)"
      using o1 by (simp add: session_round_def bd r(1) session_outcome_def checked_add_def Let_def)
    have 2: "session_round env True (?op2, ?dec, i', ?o2) = Some (Some (Inr Finished), ?op2\<lparr>op_finished := True\<rparr>, ?dec, i', ?o2)"
      using o1 cf by (simp add: session_round_def session_boundary_def Let_def)
    have "session_loop env True (?op, dec, ?i, ?o) = Some (Inr Finished, ?op2\<lparr>op_finished := True\<rparr>, ?dec, i', ?o2)"
      by (subst session_loop.simps, simp only: 1 Option.bind_lunit prod.case option.case) (subst session_loop.simps, simp only: 2, simp)
    then show ?thesis using True r(2) op
      by (simp add: run settle_call_def one_shot_outcome_def Let_def)
  next
    case False
    with ps obtain d' i' where r: "stream_run ?env True (dc_workspace dec, ?i, ?o) =
        Some (Stopped Stop_Output, d', i', free_output (store_at dst 0 (take (length dst) (plain_data bs))) (length dst))"
      by auto
    let ?op1 = "if ds_window d' \<noteq> None then ?op\<lparr>op_window := ds_window d'\<rparr> else ?op"
    let ?o2 = "free_output (store_at dst 0 (take (length dst) (plain_data bs))) (length dst)"
    have 1: "session_round env True (?op, dec, ?i, ?o) = Some (Some (Inr NeedsOutput), ?op1, dec\<lparr>dc_workspace := d'\<rparr>, i', ?o2)"
      by (simp add: session_round_def bd r(1) session_outcome_def Let_def)
    have "session_loop env True (?op, dec, ?i, ?o) = Some (Inr NeedsOutput, ?op1, dec\<lparr>dc_workspace := d'\<rparr>, i', ?o2)"
      by (subst session_loop.simps, simp only: 1, simp)
    then show ?thesis using False
      by (simp add: run settle_call_def one_shot_outcome_def Let_def)
  qed
qed

lemma dstream_reset_simps [simp]:
  "ds_stage (dstream_reset limit d) = SWindow" "ds_bits (dstream_reset limit d) = bits_default" "ds_position (dstream_reset limit d) = 0"
  by (simp_all add: dstream_reset_def Let_def put_tables_def split: option.splits)

section \<open>What the shortcut accepts\<close>

lemma plain_stored:
  assumes "headed (Uncompressed (length c)) xs (bytes_bits (c @ [3]))"
  shows "plain_member [Data c] xs"
proof -
  have "plain_member [] (bytes_bits [3])" using byte_three by (auto intro!: exI [of _ 6])
  then have "headed (plain_header (Data c)) xs (bytes_bits (plain_bytes (Data c) @ [3])) \<and> plain_member [] (bytes_bits [3])"
    using assms by simp
  then show ?thesis unfolding plain_member.simps(2) by blast
qed


lemma whole_member_end:
  assumes s: "unlimited s" "tidy 0 s" "in_bytes (snd s) = src" and w: "whole_member src (bytes, s) = Some p"
  shows "p = bytes \<and> (\<exists>n<8. stream s = replicate n False)"
proof -
  have u: "\<exists>u t. align_reader s = (Inr u, t) \<and> consumed (snd t) = length src \<and> p = bytes"
    using w by (auto simp: whole_member_def split: prod.splits sum.splits if_splits)
  then obtain u t where t: "align_reader s = (Inr u, t)" "consumed (snd t) = length src" "p = bytes" by blast
  have "consumed (snd s) = length src" using align_tidy [OF t(1) s(2)] t(2) by simp
  then have l: "length (stream s) = bcount (fst s)" "bcount (fst s) < 8" using stream_length [OF s(1)] s(2,3) by (simp_all add: tidy_def)
  then have "padding s = length (stream s)" using padding_buffered(1) [of s] by simp
  then have "stream s = replicate (length (stream s)) False" using t(1) by (simp add: align_reader_eq split: if_splits)
  then show ?thesis using t(3) l by metis
qed

lemma headed_whole:
  assumes "headed m xs rest" "byte_aligned m"
  shows "8 dvd length rest"
proof -
  define g where "g = gap m xs"
  have l: "length xs = length (meta_block_bits m) + (g + length rest)" using assms(1) unfolding headed_def g_def by (metis length_append length_replicate)
  have "g = (length xs - length (meta_block_bits m)) mod 8" using assms(2) by (simp add: g_def gap_def)
  then have "g = (g + length rest) mod 8" unfolding l by (simp only: add_diff_cancel_left')
  then have "length rest mod 8 = 0" by presburger
  then show ?thesis by (simp add: dvd_eq_mod_eq_0)
qed

lemma payload_plain:
  assumes n: "length src < 2 ^ 64" and p: "payload src limit = Some p"
  shows "\<exists>w xs bs. window_ok w \<and> permitted limit w \<and> bytes_bits src = header_bits w @ xs \<and> plain_member bs xs \<and> plain_data bs = p"
proof -
  have g: "general_payload src limit = Some p" using p short_general [OF n] by (simp add: payload_def split: if_splits)
  note a0 = at_byte_ok [OF _ n, of 0, simplified]
  obtain w s1 where s1: "header_window limit (at_byte src 0) = (Inr (Some w), s1)"
    using g unfolding general_payload_def at_byte_start by (auto simp: ok_option_def split: sum.splits option.splits prod.splits)
  obtain m s2 where s2: "header_metablock s1 = (Inr (Some m), s2)"
    using g unfolding general_payload_def at_byte_start s1 by (auto simp: ok_option_def split: sum.splits option.splits prod.splits)
  have ws: "window_ok w" "permitted limit w" "bytes_bits src = header_bits w @ stream s1" "reader_ok s1"
    using header_window_sound [OF _ s1] a0 by (simp_all add: unlimited_def)
  have t1: "tidy 0 s1" "same_call (at_byte src 0) s1" using leanD [OF lean_header_window a0(2) s1] by blast+
  have u1: "unlimited s1" by (rule step_unlimited [OF a0(1) t1(2) ws(4)])
  have ms: "headed m (stream s1) (stream s2)" "reader_ok s2" using header_metablock_sound [OF ws(4) s2] by blast+
  have t2: "tidy 0 s2" "same_call s1 s2" using leanD [OF lean_header_metablock t1(1) s2] by blast+
  have u2: "unlimited s2" by (rule step_unlimited [OF u1 t2(2) ms(2)])
  have src: "in_bytes (snd s2) = src" using t1(2) t2(2) a0(4) by (simp add: same_call_def)
  have "\<exists>bs. plain_member bs (stream s1) \<and> plain_data bs = p"
  proof (cases m)
    case End
    then have "whole_member src ([], s2) = Some p" using g unfolding general_payload_def at_byte_start s1 by (simp add: ok_option_def s2)
    from whole_member_end [OF u2 t2(1) src this] obtain k where "p = []" "k < 8" "stream s2 = replicate k False" by blast
    then have "plain_member [] (stream s1) \<and> plain_data [] = p" using ms(1) End by (auto simp: headed_def gap_def plain_data_def)
    then show ?thesis by blast
  next
    case (Uncompressed len)
    have "8 dvd length (stream s2)" by (rule headed_whole [OF ms(1)]) (simp add: Uncompressed)
    then obtain k where k: "length (stream s2) = 8 * k" by auto
    from tidy_at_byte [OF u2 t2(1) same_call_trans [OF t1(2) t2(2)] k] have at: "s2 = at_byte src (length src - k)" "k \<le> length src" by simp_all
    define rest where "rest = drop (length src - k) src"
    have "stream s2 = bytes_bits rest" using at_byte_ok(3) [OF _ n, of "length src - k"] at by (simp add: rest_def)
    then have h: "headed (Uncompressed len) (stream s1) (bytes_bits rest)" using ms(1) Uncompressed by simp
    have r: "drop len rest = [3]" "p = take len rest"
      using general_stored(1) [OF n ws(1,2,3) h] g by (simp_all split: if_splits)
    then have "rest = p @ [3]" by (metis append_take_drop_id)
    moreover have "length p = len" using r by (metis length_take min.absorb2 drop_all list.distinct(1) nat_le_linear)
    ultimately have "headed (Uncompressed (length p)) (stream s1) (bytes_bits (p @ [3]))" using h by simp
    from plain_stored [OF this] show ?thesis by (intro exI [of _ "[Data p]"]) (simp add: plain_data_def)
  next
    case (Compressed len final)
    then show ?thesis using g unfolding general_payload_def at_byte_start s1 by (simp add: ok_option_def s2)
  next
    case (Metadata len final)
    then show ?thesis using g unfolding general_payload_def at_byte_start s1 by (simp add: ok_option_def s2)
  qed
  then show ?thesis using ws by blast
qed

lemma plain_run_slice:
  assumes "\<not> dc_active dec" "cf_members (dc_config dec) = Single" "cf_limits (dc_config dec) = decode_limits_default"
    and "window_ok w" "permitted (cf_window (dc_config dec)) w" "bytes_bits src = header_bits w @ xs" "plain_member bs xs"
    and "length dst < 2 ^ 63" "length src < 2 ^ 63"
  shows "\<exists>dec'. decode_to_slice env src dst dec =
    Some (if length (plain_data bs) \<le> length dst then Inr (length (plain_data bs)) else Inl (OutputTooSmall (length dst)),
      dec', store_at dst 0 (take (length dst) (plain_data bs)))"
proof -
  define op where "op = \<lparr>op_size = Unknown, op_total_in = 0, op_total_out = 0, op_members = 0, op_window = None, op_final_end = 0,
    op_finishing = False, op_boundary = False, op_finished = False, op_failed = False\<rparr>"
  define dec1 where "dec1 = (reset_workspace (dc_config dec) dec)\<lparr>dc_active := True\<rparr>"
  have cf: "dc_config dec1 = dc_config dec" by (simp add: dec1_def reset_workspace_def)
  have st: "operation_start Unknown dec = (Inr op, dec1)"
    using assms(1,3) by (simp add: operation_start_def op_def dec1_def decode_limits_default_def)
  have ws: "ds_stage (dc_workspace dec1) = SWindow" "ds_bits (dc_workspace dec1) = bits_default" "ds_position (dc_workspace dec1) = 0"
    by (simp_all add: dec1_def reset_workspace_def)
  have "op_size op = Unknown" "op_total_in op = 0" "op_total_out op = 0" "op_members op = 0" "\<not> op_finishing op" "\<not> op_boundary op"
    "\<not> op_finished op" "\<not> op_failed op" by (simp_all add: op_def)
  from plain_operation [OF ws assms(2,3) [folded cf] this assms(4) assms(5) [folded cf] assms(6-9), of env]
  obtain op' dec' p where "operation_run env True Finish Linear src dst (op, dec1) =
      Some (Inr p, op', dec', store_at dst 0 (take (length dst) (plain_data bs)))"
    "one_shot_outcome p (length src) =
      (if length (plain_data bs) \<le> length dst then Inr (length (plain_data bs)) else Inl (OutputTooSmall (length dst)))" by blast
  then show ?thesis by (simp add: decode_to_slice_def one_call_def st)
qed


section \<open>The properties\<close>



text \<open>
  C10 (equivalence). The shortcut for a stored member and the stage machine agree: where the shortcut
  recognises the member, \<open>decompress_to_uninit\<close>, which takes it, and \<open>decode_to_slice\<close>, which runs the
  machine, return the same length and leave the same bytes.
\<close>

theorem one_shot_paths_agree:
  assumes "stored_one_shot dec src = Some p" "length p \<le> length dst" "length dst < 2 ^ 63" "length src < 2 ^ 63"
  shows "\<exists>dec1 dec2. decode_to_slice env src dst dec = Some (Inr (length p), dec1, store_at dst 0 p) \<and>
    decompress_to_uninit env src dst dec = Some (Inr (length p), dec2, store_at dst 0 p)"
proof -
  have c: "\<not> dc_active dec" "cf_members (dc_config dec) = Single" "cf_limits (dc_config dec) = decode_limits_default"
    "payload src (cf_window (dc_config dec)) = Some p"
    using assms(1) by (simp_all add: stored_one_shot_def split: if_splits)
  have "length src < 2 ^ 64" using assms(4) by simp
  from payload_plain [OF this c(4)] obtain w xs bs where w: "window_ok w" "permitted (cf_window (dc_config dec)) w"
    "bytes_bits src = header_bits w @ xs" "plain_member bs xs" "plain_data bs = p" by blast
  from plain_run_slice [OF c(1-3) w(1-4) assms(3,4), of env] show ?thesis
    using assms(1,2) by (auto simp: w(5) decompress_to_uninit_def)
qed

lemma one_shot_paths_agree_witness:
  "\<forall>env. \<exists>dec1 dec2. decode_to_slice env [0x0b, 0x00, 0x80, 0x68, 0x03] [0, 0] (decompressor_build decoder_config_new Aggressive) =
      Some (Inr (length [0x68 :: u8]), dec1, store_at [0, 0] 0 [0x68]) \<and>
    decompress_to_uninit env [0x0b, 0x00, 0x80, 0x68, 0x03] [0, 0] (decompressor_build decoder_config_new Aggressive) =
      Some (Inr (length [0x68 :: u8]), dec2, store_at [0, 0] 0 [0x68])"
proof (intro allI one_shot_paths_agree)
  show "stored_one_shot (decompressor_build decoder_config_new Aggressive) [0x0b, 0x00, 0x80, 0x68, 0x03] = Some [0x68]"
    by (simp add: stored_one_shot_def decompressor_build_def decoder_config_new_def payload_def short_shape_def short_payload_def
        three_byte_header_def shr_div)
qed simp_all

end
