(* ===== verification/Stored_Writer.thy ===== *)
theory Stored_Writer
  imports Plain_Member
begin

unbundle bit_operations_syntax

text \<open>
  The encoder's stored meta-blocks (\<open>store_uncompressed_meta_block\<close> of \<open>shared/bitstream.rs\<close>): the
  header, the bytes out of the input ring, which may wrap once, and after the last block the empty
  final one. What it writes is a plain member, so the stage machine of the decoder gives the bytes
  back: a round trip from the ring of the encoder to the slice of the caller.
\<close>

definition write_slice :: "u8 list \<Rightarrow> nat \<Rightarrow> nat \<Rightarrow> bit_writer \<Rightarrow> bit_writer" where
  "write_slice input a b w = (case storage_window input a b of Some s \<Rightarrow> write_bytes s w | None \<Rightarrow> w)"

definition store_uncompressed_meta_block :: "bool \<Rightarrow> u8 list \<Rightarrow> nat \<Rightarrow> nat \<Rightarrow> nat \<Rightarrow> bit_writer \<Rightarrow> bit_writer" where
  "store_uncompressed_meta_block is_final_block input pos msk len w =
     (let masked_pos = pos AND msk;
          w1 = jump_to_byte_boundary (store_uncompressed_meta_block_header len w);
          (masked_pos', len', w2) =
            (case checked_add 64 msk 1 of
               Some window_size \<Rightarrow>
                 if masked_pos + len > window_size then
                   (let head = window_size - masked_pos in (0, len - head, write_slice input masked_pos (masked_pos + head) w1))
                 else (masked_pos, len, w1)
             | None \<Rightarrow> (masked_pos, len, w1));
          w3 = prepare_storage (write_slice input masked_pos' (masked_pos' + len') w2)
      in if is_final_block then jump_to_byte_boundary (write_bits 1 1 (write_bits 1 1 w3)) else w3)"

text \<open>The bytes a block stands for: a stretch of a ring of \<open>2 ^ k\<close> bytes, or of a flat buffer.\<close>

definition ring_bytes :: "u8 list \<Rightarrow> nat \<Rightarrow> nat \<Rightarrow> nat \<Rightarrow> u8 list" where
  "ring_bytes input pos msk len = map (\<lambda>j. input ! ((pos + j) AND msk)) [0..<len]"

definition source_ok :: "u8 list \<Rightarrow> nat \<Rightarrow> nat \<Rightarrow> nat \<Rightarrow> bool" where
  "source_ok input pos msk len \<longleftrightarrow> 1 \<le> len \<and> len \<le> 2 ^ 24 \<and>
     (\<exists>k<64. msk = 2 ^ k - 1 \<and> 2 ^ k \<le> length input \<and> len \<le> 2 ^ k \<or>
       msk = 2 ^ 64 - 1 \<and> pos + len \<le> length input \<and> length input < 2 ^ 64)"

section \<open>Writing a run\<close>

lemma aligned_write_bytes:
  assumes "writer_ok w" "8 dvd position w" "\<not> overflowed (write_bytes c w)"
  shows "writer_ok (write_bytes c w)" "8 dvd position (write_bytes c w)" "Bit_Writer.written (write_bytes c w) = Bit_Writer.written w @ bytes_bits c"
    "\<not> overflowed w"
  using write_bytes_written [OF assms(2,1,3)] assms(2) by simp_all

lemma write_bytes_overflowed: "overflowed w \<Longrightarrow> overflowed (write_bytes c w)"
  by (simp add: write_bytes_def prepare_storage_def Let_def split: option.splits)

lemma prepare_overflowed: "overflowed w \<Longrightarrow> overflowed (prepare_storage w)"
  by (simp add: prepare_storage_def split: option.splits)

lemma jump_overflowed: "overflowed w \<Longrightarrow> overflowed (jump_to_byte_boundary w)"
  using prepare_overflowed [of "align_writer w"] by (simp add: jump_to_byte_boundary_def align_writer_def)

lemma prepare_written:
  assumes "writer_ok w" "8 dvd position w" "\<not> overflowed (prepare_storage w)"
  shows "writer_ok (prepare_storage w)" "8 dvd position (prepare_storage w)" "Bit_Writer.written (prepare_storage w) = Bit_Writer.written w" "\<not> overflowed w"
proof -
  have "(position w + 7) div 8 * 8 = position w" using assms(2) by auto
  then have e: "prepare_storage w = jump_to_byte_boundary w" by (simp add: jump_to_byte_boundary_def align_writer_def)
  have "(8 - position w mod 8) mod 8 = 0" using assms(2) by simp
  with jump_written [OF assms(1), folded e] assms(3)
  show "writer_ok (prepare_storage w)" "8 dvd position (prepare_storage w)" "Bit_Writer.written (prepare_storage w) = Bit_Writer.written w" "\<not> overflowed w"
    by simp_all
qed

text \<open>Both parts of a stretch that wraps, and a stretch that does not.\<close>

lemma slice_map: "a + n \<le> length xs \<Longrightarrow> take n (drop a xs) = map (\<lambda>j. xs ! (a + j)) [0..<n]"
  by (intro nth_equalityI) simp_all

lemma ring_bytes_flat:
  assumes "\<And>j. j < len \<Longrightarrow> (pos + j) AND msk = p + j" "p + len \<le> length input"
  shows "ring_bytes input pos msk len = take len (drop p input)"
  unfolding ring_bytes_def slice_map [OF assms(2)] using assms(1) by simp

lemma ring_bytes_split:
  assumes "msk = 2 ^ k - 1" "p = pos AND msk" "2 ^ k < p + len" "len \<le> 2 ^ k" "2 ^ k \<le> length input"
  shows "ring_bytes input pos msk len = take (2 ^ k - p) (drop p input) @ take (p + len - 2 ^ k) input"
proof -
  have m: "(pos + j) AND msk = (p + j) mod 2 ^ k" for j
    unfolding assms(1,2) AND_mask_nat take_bit_eq_mod by (simp add: mod_add_left_eq)
  have p: "p < 2 ^ k" unfolding assms(1,2) AND_mask_nat take_bit_eq_mod by simp
  show ?thesis
  proof (rule nth_equalityI)
    show "length (ring_bytes input pos msk len) = length (take (2 ^ k - p) (drop p input) @ take (p + len - 2 ^ k) input)"
      using assms p by (simp add: ring_bytes_def)
    fix j assume "j < length (ring_bytes input pos msk len)"
    then have j: "j < len" by (simp add: ring_bytes_def)
    have "(p + j) mod 2 ^ k = (if p + j < 2 ^ k then p + j else p + j - 2 ^ k)"
      using j p assms(4) by (auto simp: mod_if)
    then have "ring_bytes input pos msk len ! j = input ! (if p + j < 2 ^ k then p + j else p + j - 2 ^ k)"
      using j by (simp add: ring_bytes_def m)
    moreover have "p + j - 2 ^ k = j - (2 ^ k - p)" if "\<not> p + j < 2 ^ k" using that p by simp
    ultimately show "ring_bytes input pos msk len ! j = (take (2 ^ k - p) (drop p input) @ take (p + len - 2 ^ k) input) ! j"
      using j p assms(5) by (auto simp: nth_append)
  qed
qed

lemma write_slice_some: "a \<le> b \<Longrightarrow> b \<le> length input \<Longrightarrow> write_slice input a b w = write_bytes (take (b - a) (drop a input)) w"
  by (simp add: write_slice_def storage_window_def)

text \<open>The bytes that one block writes, in at most two runs.\<close>

definition source_runs :: "u8 list \<Rightarrow> nat \<Rightarrow> nat \<Rightarrow> nat \<Rightarrow> u8 list list" where
  "source_runs input pos msk len =
     (let p = pos AND msk in
      if msk + 1 < 2 ^ 64 \<and> msk + 1 < p + len
      then [take (msk + 1 - p) (drop p input), take (p + len - (msk + 1)) input] else [take len (drop p input)])"

lemma source_runs_bytes:
  assumes "source_ok input pos msk len"
  shows "concat (source_runs input pos msk len) = ring_bytes input pos msk len" "length (ring_bytes input pos msk len) = len"
proof -
  show "length (ring_bytes input pos msk len) = len" by (simp add: ring_bytes_def)
  from assms consider (ring) k where "k < 64" "msk = 2 ^ k - 1" "2 ^ k \<le> length input" "len \<le> 2 ^ k"
    | (flat) "msk = 2 ^ 64 - 1" "pos + len \<le> length input" "length input < 2 ^ 64" unfolding source_ok_def by blast
  then show "concat (source_runs input pos msk len) = ring_bytes input pos msk len"
  proof cases
    case (ring k)
    let ?p = "pos AND msk"
    have sk: "msk + 1 = 2 ^ k" "Suc msk = 2 ^ k" using ring(2) by simp_all
    have lt: "(2::nat) ^ k < 2 ^ 64" using ring(1) by (rule power_strict_increasing) simp
    show ?thesis
    proof (cases "2 ^ k < ?p + len")
      case True
      then show ?thesis using ring_bytes_split [OF ring(2) refl True ring(4,3)] lt by (simp add: source_runs_def Let_def sk del: One_nat_def)
    next
      case False
      have "(pos + j) AND msk = ?p + j" if "j < len" for j
      proof -
        have "(pos + j) AND msk = (?p + j) mod 2 ^ k" unfolding ring(2) AND_mask_nat take_bit_eq_mod by (simp add: mod_add_left_eq)
        then show ?thesis using that False by simp
      qed
      then have "ring_bytes input pos msk len = take len (drop ?p input)" by (rule ring_bytes_flat) (use False ring(3) in linarith)+
      then show ?thesis using False by (simp add: source_runs_def Let_def sk)
    qed
  next
    case flat
    have "x AND msk = x" if "x < 2 ^ 64" for x unfolding flat(1) AND_mask_nat using that by (simp add: take_bit_nat_eq_self)
    then have "ring_bytes input pos msk len = take len (drop (pos AND msk) input)"
      using flat(2,3) by (intro ring_bytes_flat) auto
    then show ?thesis using flat(1) by (simp add: source_runs_def Let_def)
  qed
qed

text \<open>The body of a block, with its runs made explicit.\<close>

lemma store_uncompressed_runs:
  assumes "source_ok input pos msk len"
  shows "store_uncompressed_meta_block final input pos msk len w =
    (let w3 = prepare_storage (fold write_bytes (source_runs input pos msk len)
        (jump_to_byte_boundary (store_uncompressed_meta_block_header len w)))
     in if final then jump_to_byte_boundary (write_bits 1 1 (write_bits 1 1 w3)) else w3)"
proof -
  define p where "p = pos AND msk"
  from assms consider (ring) k where "k < 64" "msk = 2 ^ k - 1" "2 ^ k \<le> length input" "len \<le> 2 ^ k"
    | (flat) "msk = 2 ^ 64 - 1" "pos + len \<le> length input" "length input < 2 ^ 64" unfolding source_ok_def by blast
  then show ?thesis
  proof cases
    case (ring k)
    have sk: "msk + 1 = 2 ^ k" using ring(2) by simp
    have lt: "(2::nat) ^ k < 2 ^ 64" using ring(1) by (rule power_strict_increasing) simp
    have p: "p < 2 ^ k" unfolding p_def ring(2) AND_mask_nat take_bit_eq_mod by simp
    have ca: "checked_add 64 msk 1 = Some (2 ^ k)" unfolding checked_add_def sk using lt by simp
    show ?thesis
    proof (cases "2 ^ k < p + len")
      case True
      have h: "write_slice input p (p + (2 ^ k - p)) v = write_bytes (take (2 ^ k - p) (drop p input)) v" for v
        using p ring(3) by (subst write_slice_some) simp_all
      have t: "write_slice input 0 (0 + (len - (2 ^ k - p))) v = write_bytes (take (p + len - 2 ^ k) input) v" for v
      proof -
        have "len - (2 ^ k - p) = p + len - 2 ^ k" using p by simp
        moreover have "p + len - 2 ^ k \<le> length input" using p ring(3,4) by simp
        ultimately show ?thesis by (subst write_slice_some) simp_all
      qed
      have r: "source_runs input pos msk len = [take (2 ^ k - p) (drop p input), take (p + len - 2 ^ k) input]"
        unfolding source_runs_def Let_def sk p_def [symmetric] using True lt by simp
      show ?thesis unfolding store_uncompressed_meta_block_def ca r using True h t
        by (simp add: Let_def p_def [symmetric] del: add_0)
    next
      case False
      have h: "write_slice input p (p + len) v = write_bytes (take len (drop p input)) v" for v
        using False ring(3) by (subst write_slice_some) simp_all
      have r: "source_runs input pos msk len = [take len (drop p input)]"
        unfolding source_runs_def Let_def sk p_def [symmetric] using False by simp
      show ?thesis unfolding store_uncompressed_meta_block_def ca r using False h by (simp add: Let_def p_def [symmetric])
    qed
  next
    case flat
    have "p = pos" unfolding p_def flat(1) AND_mask_nat using flat(2,3) by (simp add: take_bit_nat_eq_self)
    then have h: "write_slice input p (p + len) v = write_bytes (take len (drop p input)) v" for v
      using flat(2) by (subst write_slice_some) simp_all
    have ca: "checked_add 64 msk 1 = None" unfolding checked_add_def flat(1) by simp
    have r: "source_runs input pos msk len = [take len (drop p input)]"
      unfolding source_runs_def Let_def p_def [symmetric] using flat(1) by simp
    show ?thesis unfolding store_uncompressed_meta_block_def ca r using h by (simp add: Let_def p_def [symmetric])
  qed
qed

lemma fold_write_overflowed: "overflowed w \<Longrightarrow> overflowed (fold write_bytes runs w)"
  by (induction runs arbitrary: w) (simp_all add: write_bytes_overflowed)

lemma write_runs:
  assumes "writer_ok w" "8 dvd position w" "\<not> overflowed (fold write_bytes runs w)"
  shows "writer_ok (fold write_bytes runs w) \<and> 8 dvd position (fold write_bytes runs w) \<and>
    Bit_Writer.written (fold write_bytes runs w) = Bit_Writer.written w @ bytes_bits (concat runs) \<and> \<not> overflowed w"
  using assms
proof (induction runs arbitrary: w)
  case (Cons c runs)
  have "\<not> overflowed (write_bytes c w)" using Cons.prems(3) fold_write_overflowed [of "write_bytes c w" runs] by auto
  note a = aligned_write_bytes [OF Cons.prems(1,2) this]
  have "\<not> overflowed (fold write_bytes runs (write_bytes c w))" using Cons.prems(3) by simp
  from Cons.IH [OF a(1,2) this] a(3,4) show ?case by simp
qed simp

definition stored_bits :: "bool \<Rightarrow> u8 list \<Rightarrow> nat \<Rightarrow> bool list" where
  "stored_bits final bytes at =
     (let hd = meta_block_bits (Uncompressed (length bytes)) in
      hd @ replicate ((8 - (at + length hd) mod 8) mod 8) False @ bytes_bits bytes @ (if final then [True, True] @ replicate 6 False else []))"

lemma stored_block_written:
  assumes so: "source_ok input pos msk len" and ok: "writer_ok w"
    and fits: "\<not> overflowed (store_uncompressed_meta_block final input pos msk len w)"
  defines "r \<equiv> store_uncompressed_meta_block final input pos msk len w"
  shows "writer_ok r" "8 dvd position r"
    "Bit_Writer.written r = Bit_Writer.written w @ stored_bits final (ring_bytes input pos msk len) (position w)" "\<not> overflowed w"
proof -
  define w1 where "w1 = store_uncompressed_meta_block_header len w"
  define w2 where "w2 = jump_to_byte_boundary w1"
  define w3 where "w3 = fold write_bytes (source_runs input pos msk len) w2"
  define w4 where "w4 = prepare_storage w3"
  have r: "r = (if final then jump_to_byte_boundary (write_bits 1 1 (write_bits 1 1 w4)) else w4)"
    unfolding r_def store_uncompressed_runs [OF so] w4_def w3_def w2_def w1_def by (simp add: Let_def)
  have tail: "wr.emits (\<lambda>w. write_bits 1 1 (write_bits 1 1 w)) [True, True]"
    using emits_flag [OF emits_flag [OF wr.emits_id, of True], of True] by simp
  have of4: "\<not> overflowed w4"
  proof (cases final)
    case True
    then have "\<not> overflowed (write_bits 1 1 (write_bits 1 1 w4))"
      using fits r True jump_overflowed [of "write_bits 1 1 (write_bits 1 1 w4)"] unfolding r_def [symmetric] by auto
    then show ?thesis using wr.emits_failed [OF tail] by blast
  qed (use fits r r_def in simp)
  have of3: "\<not> overflowed w3" using of4 prepare_overflowed unfolding w4_def by blast
  have of2: "\<not> overflowed w2" using of3 fold_write_overflowed unfolding w3_def by blast
  have len: "1 \<le> len" "len \<le> 2 ^ 24" using so by (simp_all add: source_ok_def)
  have of1: "\<not> overflowed w1" using of2 jump_overflowed unfolding w2_def by blast
  note e1 = wr.emitsD [OF emits_uncompressed [OF len] ok, folded w1_def, OF of1]
  show "\<not> overflowed w" by (rule e1(1))
  note j2 = jump_written [OF e1(2), folded w2_def, OF of2]
  note e3 = write_runs [OF j2(1,3), of "source_runs input pos msk len", folded w3_def, OF of3]
  note e4 = prepare_written [of w3, folded w4_def] e3 of4
  have lb: "length (ring_bytes input pos msk len) = len" "concat (source_runs input pos msk len) = ring_bytes input pos msk len"
    using source_runs_bytes [OF so] by simp_all
  have p1: "position w1 = position w + length (meta_block_bits (Uncompressed len))"
    using e1(3) length_written [OF ok] length_written [OF e1(2)] by (metis length_append)
  have w4: "writer_ok w4" "8 dvd position w4"
    "Bit_Writer.written w4 = Bit_Writer.written w @ stored_bits False (ring_bytes input pos msk len) (position w)"
    using e4 j2(2) e1(3) by (simp_all add: lb stored_bits_def p1 Let_def)
  have fin: "writer_ok (jump_to_byte_boundary v) \<and> 8 dvd position (jump_to_byte_boundary v) \<and>
      Bit_Writer.written (jump_to_byte_boundary v) = Bit_Writer.written w4 @ [True, True] @ replicate 6 False"
    if v: "v = write_bits 1 1 (write_bits 1 1 w4)" "\<not> overflowed (jump_to_byte_boundary v)" for v
  proof -
    have "\<not> overflowed v" using v(2) jump_overflowed by blast
    with wr.emitsD [OF tail w4(1)] v(1) have t: "writer_ok v" "Bit_Writer.written v = Bit_Writer.written w4 @ [True, True]" by simp_all
    have "position v = position w4 + 2" using v(1) by simp
    then have "position v mod 8 = 2" using w4(2) by presburger
    then have "(8 - position v mod 8) mod 8 = 6" by simp
    with jump_written [OF t(1) v(2)] t(2) show ?thesis by simp
  qed
  show "writer_ok r" "8 dvd position r"
    "Bit_Writer.written r = Bit_Writer.written w @ stored_bits final (ring_bytes input pos msk len) (position w)"
    using w4 fin fits r unfolding r_def [symmetric] by (cases final; simp add: stored_bits_def Let_def)+
qed

section \<open>A member of stored blocks\<close>

text \<open>The blocks of a stream in order, the last of them final.\<close>

type_synonym stored_source = "u8 list \<times> nat \<times> nat \<times> nat"

fun store_blocks :: "stored_source list \<Rightarrow> bit_writer \<Rightarrow> bit_writer" where
  "store_blocks [] w = w"
| "store_blocks ((input, pos, msk, len) # bs) w = store_blocks bs (store_uncompressed_meta_block (bs = []) input pos msk len w)"

fun source_bytes :: "stored_source \<Rightarrow> u8 list" where
  "source_bytes (input, pos, msk, len) = ring_bytes input pos msk len"

fun source_fits :: "stored_source \<Rightarrow> bool" where
  "source_fits (input, pos, msk, len) = source_ok input pos msk len"

fun blocks_bits :: "u8 list list \<Rightarrow> nat \<Rightarrow> bool list" where
  "blocks_bits [] at = []"
| "blocks_bits (c # cs) at = (let b = stored_bits (cs = []) c at in b @ blocks_bits cs (at + length b))"

lemma store_blocks_written:
  assumes "writer_ok w" "\<forall>b\<in>set bs. source_fits b" "\<not> overflowed (store_blocks bs w)"
  shows "writer_ok (store_blocks bs w) \<and> (bs \<noteq> [] \<longrightarrow> 8 dvd position (store_blocks bs w)) \<and> \<not> overflowed w \<and>
    Bit_Writer.written (store_blocks bs w) = Bit_Writer.written w @ blocks_bits (map source_bytes bs) (position w)"
  using assms
proof (induction bs arbitrary: w)
  case (Cons b bs)
  obtain input pos msk len where b: "b = (input, pos, msk, len)" by (cases b)
  define w1 where "w1 = store_uncompressed_meta_block (bs = []) input pos msk len w"
  have rest: "\<not> overflowed (store_blocks bs w1)" using Cons.prems(3) by (simp add: b w1_def)
  have so: "source_ok input pos msk len" using Cons.prems(2) by (simp add: b)
  have keep: "overflowed v \<Longrightarrow> overflowed (store_blocks cs v)" if "\<forall>c\<in>set cs. source_fits c" for cs v
    using that
  proof (induction cs arbitrary: v)
    case (Cons c cs)
    obtain i' p' m' l' where c: "c = (i', p', m', l')" by (cases c)
    have so': "source_ok i' p' m' l'" using Cons.prems(2) by (simp add: c)
    have l': "1 \<le> l'" "l' \<le> 2 ^ 24" using so' by (simp_all add: source_ok_def)
    have "overflowed (store_uncompressed_meta_block f i' p' m' l' v)" for f
      unfolding store_uncompressed_runs [OF so'] Let_def
      using wr.emits_failed [OF emits_uncompressed [OF l'] Cons.prems(1)]
      by (auto intro!: jump_overflowed write_overflowed prepare_overflowed fold_write_overflowed)
    then show ?case using Cons.IH Cons.prems(2) by (simp add: c)
  qed simp
  have w1: "\<not> overflowed w1" using rest keep [of bs w1] Cons.prems(2) by auto
  note sb = stored_block_written [OF so Cons.prems(1) w1 [unfolded w1_def], folded w1_def]
  have bits: "Bit_Writer.written w1 = Bit_Writer.written w @ stored_bits (bs = []) (source_bytes b) (position w)" using sb(3) by (simp add: b)
  have at: "position w1 = position w + length (stored_bits (bs = []) (source_bytes b) (position w))"
    using bits length_written [OF sb(1)] length_written [OF Cons.prems(1)] by (metis length_append)
  have st: "store_blocks (b # bs) w = store_blocks bs w1" by (simp add: b w1_def)
  have ih: "writer_ok (store_blocks bs w1)" "bs \<noteq> [] \<Longrightarrow> 8 dvd position (store_blocks bs w1)"
    "Bit_Writer.written (store_blocks bs w1) = Bit_Writer.written w1 @ blocks_bits (map source_bytes bs) (position w1)"
    using Cons.IH [OF sb(1) _ rest] Cons.prems(2) by simp_all
  have "8 dvd position (store_blocks bs w1)" using ih(2) sb(2) by (cases "bs = []") simp_all
  then show ?case unfolding st using ih(1,3) sb(4) bits by (simp add: Let_def at)
qed simp

text \<open>What the writer leaves is a plain member.\<close>

lemma blocks_plain:
  assumes "cs \<noteq> []" "\<forall>c\<in>set cs. 1 \<le> length c \<and> length c \<le> 2 ^ 24" "bytes_bits src = pre @ blocks_bits cs (length pre)"
  shows "plain_member (map Data cs) (blocks_bits cs (length pre))"
  using assms
proof (induction cs arbitrary: pre)
  case (Cons c cs)
  define hd' where "hd' = meta_block_bits (Uncompressed (length c))"
  define pad where "pad = (8 - (length pre + length hd') mod 8) mod 8"
  define pre' where "pre' = pre @ hd' @ replicate pad False"
  define tail where "tail = (if cs = [] then [True, True] @ replicate 6 False else blocks_bits cs (length (pre' @ bytes_bits c)))"
  have "8 dvd (length pre + length hd') + pad"
    unfolding pad_def byte_round_up [symmetric] by simp
  then obtain k where k: "length pre' = 8 * k" by (auto simp: pre'_def add.assoc elim: dvdE)
  have xs: "blocks_bits (c # cs) (length pre) = hd' @ replicate pad False @ bytes_bits c @ tail"
    by (simp add: stored_bits_def Let_def hd'_def pad_def tail_def pre'_def add.assoc)
  have src: "bytes_bits src = pre' @ bytes_bits c @ tail" using Cons.prems(3) unfolding xs by (simp add: pre'_def)
  define rest where "rest = drop (k + length c) src"
  have "bytes_bits rest = drop (8 * (k + length c)) (bytes_bits src)" unfolding rest_def drop_bytes_bits ..
  also have "\<dots> = tail" unfolding src using k by simp
  finally have tl: "bytes_bits rest = tail" .
  have "length (hd' @ replicate pad False @ bytes_bits c @ tail) - length hd' = pad + 8 * (length c + length rest)"
    unfolding tl [symmetric] by simp
  moreover have "pad < 8" by (simp add: pad_def)
  ultimately have gp: "(length (hd' @ replicate pad False @ bytes_bits c @ tail) - length hd') mod 8 = pad"
    by (simp only: mod_mult_self2 mod_less)
  then have "headed (Uncompressed (length c)) (blocks_bits (c # cs) (length pre)) (bytes_bits (c @ rest))"
    unfolding headed_def xs gap_def hd'_def [symmetric] using Cons.prems(2) by (simp add: gp tl del: length_append)
  moreover have "plain_member (map Data cs) (bytes_bits rest)"
  proof (cases "cs = []")
    case True
    then show ?thesis by (auto simp: tl tail_def intro!: exI [of _ 6])
  next
    case False
    have "bytes_bits src = (pre' @ bytes_bits c) @ blocks_bits cs (length (pre' @ bytes_bits c))" using src False by (simp add: tail_def)
    from Cons.IH [OF False _ this] Cons.prems(2) show ?thesis using False by (simp add: tl tail_def)
  qed
  ultimately have "headed (plain_header (Data c)) (blocks_bits (c # cs) (length pre)) (bytes_bits (plain_bytes (Data c) @ rest)) \<and>
      plain_member (map Data cs) (bytes_bits rest)" by simp
  then show ?case unfolding list.map plain_member.simps(2) by blast
qed simp

lemma plain_data_Data: "plain_data (map Data cs) = concat cs"
  by (induction cs) (simp_all add: plain_data_def)

text \<open>Where a writer stands and whether it overflowed depend on positions only.\<close>

lemma prepare_sizes:
  "position (prepare_storage w) = position w" "length (storage (prepare_storage w)) = length (storage w)"
  "overflowed (prepare_storage w) \<longleftrightarrow> overflowed w \<or> length (storage w) \<le> position w div 8"
  by (auto simp: prepare_storage_def storage_window_def)

lemma jump_sizes:
  "position (jump_to_byte_boundary w) = (position w + 7) div 8 * 8" "length (storage (jump_to_byte_boundary w)) = length (storage w)"
  "overflowed (jump_to_byte_boundary w) \<longleftrightarrow> overflowed w \<or> length (storage w) \<le> (position w + 7) div 8"
  by (simp_all add: jump_to_byte_boundary_def prepare_sizes align_writer_def)

lemma write_bytes_sizes:
  "position (write_bytes c w) = position w + length c * 8" "length (storage (write_bytes c w)) = length (storage w)"
  "overflowed (write_bytes c w) \<longleftrightarrow> overflowed w \<or> length (storage w) \<le> position w div 8 + length c"
  by (auto simp: write_bytes_def Let_def storage_window_def prepare_sizes)

lemma header_sizes:
  assumes "1 \<le> len" "len \<le> 2 ^ 16"
  shows "position (store_uncompressed_meta_block_header len w) = position w + 20"
    "length (storage (store_uncompressed_meta_block_header len w)) = length (storage w)"
    "overflowed (store_uncompressed_meta_block_header len w) \<longleftrightarrow> overflowed w \<or> length (storage w) < (position w + 19) div 8 + 8"
proof -
  have "mlen_nibbles len = 4" "len \<le> 2 ^ 24" using assms by (simp_all add: mlen_nibbles_def)
  then have h: "store_uncompressed_meta_block_header len w = write_bits 1 1 (write_bits 16 (len - 1) (write_bits 2 0 (write_bits 1 0 w)))"
    using encode_mlen_eq [OF assms(1)] by (simp add: store_uncompressed_meta_block_header_def)
  show "position (store_uncompressed_meta_block_header len w) = position w + 20"
    "length (storage (store_uncompressed_meta_block_header len w)) = length (storage w)" by (simp_all add: h)
  have "position w div 8 \<le> (position w + 19) div 8" "(position w + 1) div 8 \<le> (position w + 19) div 8"
    "(position w + 3) div 8 \<le> (position w + 19) div 8" by (simp_all add: div_le_mono)
  then show "overflowed (store_uncompressed_meta_block_header len w) \<longleftrightarrow> overflowed w \<or> length (storage w) < (position w + 19) div 8 + 8"
    by (auto simp: h overflowed_write WRITE_SLACK_def)
qed

text \<open>
  C2 (roundtrip). Stored data through the whole system. The encoder writes any number of stored
  blocks behind a window header, each out of a ring that may wrap or out of a flat buffer; if the
  writer does not overflow, the one-shot decoder, which runs its stage machine, returns exactly those
  bytes, for every allocator and whatever earlier operations left in its workspace.
\<close>

theorem stored_blocks_roundtrip:
  assumes "writer_ok w0" "Bit_Writer.written w0 = header_bits win" "window_ok win" "permitted (cf_window (dc_config dec)) win"
    and "bs \<noteq> []" "\<forall>b\<in>set bs. source_fits b" "\<not> overflowed (store_blocks bs w0)"
    and "\<not> dc_active dec" "cf_members (dc_config dec) = Single" "cf_limits (dc_config dec) = decode_limits_default"
    and "length (storage (store_blocks bs w0)) < 2 ^ 63" "length dst < 2 ^ 63" "length (concat (map source_bytes bs)) \<le> length dst"
  defines "src \<equiv> take (position (store_blocks bs w0) div 8) (storage (store_blocks bs w0))"
  shows "\<exists>dec'. decode_to_slice env src dst dec =
    Some (Inr (length (concat (map source_bytes bs))), dec', store_at dst 0 (concat (map source_bytes bs)))"
proof -
  let ?w = "store_blocks bs w0" and ?cs = "map source_bytes bs"
  note sw = store_blocks_written [OF assms(1,6,7)]
  have al: "8 dvd position ?w" and ok: "writer_ok ?w" using sw assms(5) by blast+
  have bits: "Bit_Writer.written ?w = header_bits win @ blocks_bits ?cs (length (header_bits win))"
    using sw assms(2) length_written [OF assms(1)] by (metis (no_types))
  have "8 * (position ?w div 8) = position ?w" using al by simp
  then have src: "bytes_bits src = header_bits win @ blocks_bits ?cs (length (header_bits win))"
    unfolding src_def take_bytes_bits [symmetric] bits [symmetric] Bit_Writer.written_def by simp
  have one: "1 \<le> length c \<and> length c \<le> 2 ^ 24" if "c \<in> set ?cs" for c
  proof -
    from that obtain b where b: "b \<in> set bs" "c = source_bytes b" by auto
    obtain input pos msk len where "b = (input, pos, msk, len)" by (cases b)
    then show ?thesis using assms(6) b source_runs_bytes(2) [of input pos msk len] by (auto simp: source_ok_def)
  qed
  have "plain_member (map Data ?cs) (blocks_bits ?cs (length (header_bits win)))"
    by (rule blocks_plain [OF _ _ src]) (use assms(5) one in auto)
  moreover have "length src < 2 ^ 63" using assms(11) by (simp add: src_def)
  ultimately show ?thesis
    using plain_run_slice [OF assms(8-10,3,4) src _ assms(12), of "map Data ?cs" env] assms(13) by (simp add: plain_data_Data del: map_map)
qed

lemma stored_blocks_roundtrip_witness:
  "\<forall>env. \<exists>dec' w. w = store_blocks [([7, 8, 9, 10], 2, 3, 4)] (write_bits 4 11 (writer_new (replicate 32 0) 0)) \<and>
     decode_to_slice env (take (position w div 8) (storage w)) (replicate 5 0) (decompressor_build decoder_config_new Aggressive) =
       Some (Inr 4, dec', [9, 10, 7, 8, 0])"
proof
  fix env :: environment
  let ?w0 = "write_bits 4 11 (writer_new (replicate 32 0) 0)" and ?win = "\<lparr>wbits = 22, wencoding = Standard\<rparr>"
  let ?bs = "[([7, 8, 9, 10], 2, 3, 4)] :: stored_source list" and ?dec = "decompressor_build decoder_config_new Aggressive"
  have w: "window_ok ?win" by (simp add: window_ok_def MAX_STANDARD_BITS_def)
  have so: "source_ok [7, 8, 9, 10] 2 3 4" unfolding source_ok_def by (intro conjI exI [of _ 2]) simp_all
  have fits: "\<not> overflowed (store_blocks ?bs ?w0)" "length (storage (store_blocks ?bs ?w0)) < 2 ^ 63"
    unfolding store_blocks.simps store_uncompressed_runs [OF so]
    by (simp_all add: Let_def source_runs_def jump_sizes prepare_sizes write_bytes_sizes header_sizes overflowed_write writer_new_zero WRITE_SLACK_def)
  have hb: "bits_of_nat 4 11 = header_bits ?win" unfolding header_bits_def header_cases [OF w] by simp
  have w0: "writer_ok ?w0" "Bit_Writer.written ?w0 = header_bits ?win"
    using write_written [of "writer_new (replicate 32 0) 0" 4 11] hb
    by (simp_all add: writer_new_zero MAX_BITS_PER_WRITE_def overflowed_write)
  have dec: "permitted (cf_window (dc_config ?dec)) ?win" "\<not> dc_active ?dec" "cf_members (dc_config ?dec) = Single"
    "cf_limits (dc_config ?dec) = decode_limits_default"
    by (simp_all add: permitted_def decompressor_build_def decoder_config_new_def)
  have cat: "concat (map source_bytes ?bs) = [9, 10, 7, 8]" by code_simp
  have sf: "?bs \<noteq> []" "\<forall>b\<in>set ?bs. source_fits b" using so by simp_all
  have dst: "length (replicate 5 (0 :: u8)) < 2 ^ 63" "length (concat (map source_bytes ?bs)) \<le> length (replicate 5 (0 :: u8))"
    unfolding cat by simp_all
  have out: "store_at (replicate 5 0) 0 [9, 10, 7, 8] = [9, 10, 7, 8, 0 :: u8]" "length [9, 10, 7, 8 :: u8] = 4"
    by (simp_all add: store_at_def eval_nat_numeral)
  from stored_blocks_roundtrip [OF w0 w dec(1) sf fits(1) dec(2-4) fits(2) dst, of env, unfolded cat out] show
    "\<exists>dec' w. w = store_blocks ?bs ?w0 \<and>
       decode_to_slice env (take (position w div 8) (storage w)) (replicate 5 0) ?dec = Some (Inr 4, dec', [9, 10, 7, 8, 0])" by blast
qed

end
