(* ===== verification/Session_Contract.thy ===== *)
theory Session_Contract
  imports Plain_Member
begin

text \<open>
  The protocol of an operation over several calls: what a call leaves for the next one, whatever the
  stage machine did in between.
\<close>







section \<open>A call\<close>








section \<open>The property\<close>



end
