(* ===== verification/Spec2Isabelle.thy ===== *)
theory Spec2Isabelle
  imports Header Distance Format Command Prefix_Groups Map_Safety History_Growth Varint Stored_Writer Session_Contract
begin

text \<open>
  A model of a Brotli codec (RFC 7932, with the large windows and the base-128 integers of
  RFC 9841), written in Rust under \<open>src/src/\<close>: the whole decoder, up to its sessions, and the wire
  layer of the encoder. The compressor turns bytes into commands
  (insert so many literals, copy so many bytes from so far back), splits the literals, commands and
  distances into blocks, and writes headers, prefix codes, context maps and symbols bit by bit. The
  decompressor is a resumable machine: every step takes what input there is, commits only complete
  fields, and reports that it needs more otherwise. The development models both sides of each part
  of the format and proves that they fit together: what one side writes the other reads, no input
  breaks the reader's invariants, and the fast paths are the plain ones.

  The theories, from the bits up, with the code they model:

  \<^item> \<open>Prelude\<close>, \<open>Decode_Error\<close>, \<open>Fast_Log\<close>: bit lists, early returns, machine arithmetic, the error
    values (\<open>decompressor/error.rs\<close>), the integer logarithm (\<open>shared/fast_log.rs\<close>).
  \<^item> \<open>Bit_Reader\<close> (\<open>decompressor/core/bits.rs\<close>): the reservoir \<open>Bits\<close> over an \<open>Input\<close>. A pair of both is a
    \<open>reader\<close>; \<open>stream\<close> is the list of bits still to be read, and every operation is specified by what
    it takes off it. The locale \<open>stream_source\<close> is the interface the parsers use. \<open>Bit_Writer\<close>
    (\<open>shared/bits.rs\<close>): the slice writer, with \<open>written\<close> as its list of bits and the locale \<open>bit_sink\<close>;
    \<open>wr.emits f bs\<close> says that \<open>f\<close> appends \<open>bs\<close> unless the slice overflows.
  \<^item> \<open>Window\<close>, \<open>Header\<close>: stream and meta-block headers (\<open>window.rs\<close>, \<open>decompressor/core/header.rs\<close>, the
    header writers of \<open>shared/bitstream.rs\<close>). \<open>Distance\<close>, \<open>Format\<close>, \<open>Command\<close>: distance codes and the
    ring of recent distances, the constant tables, insert-and-copy symbols
    (\<open>decompressor/core/distance.rs\<close>, \<open>shared/distance.rs\<close>, \<open>shared/format.rs\<close>, \<open>shared/command.rs\<close>).
  \<^item> \<open>Canonical\<close>: canonical prefix codes, the specification both sides share. Decoder
    (\<open>decompressor/core/huffman.rs\<close>): \<open>Symbol_Lists\<close> and \<open>Prefix_Reader\<close> (the \<open>Builder\<close> and its resumable
    reading of a description), \<open>Prefix_Table\<close>, \<open>Memory\<close>, \<open>Table_Build\<close>, \<open>Table_Fill\<close>, \<open>Table_Correct\<close>,
    \<open>Table_Space\<close>, \<open>Prefix_Groups\<close> (the two-level tables, their construction and lookup), \<open>Description\<close>,
    \<open>Simple_Codes\<close>, \<open>Accepted\<close>, \<open>Description_Safety\<close> (what an accepted description leaves). Encoder
    (\<open>shared/huffman.rs\<close>): \<open>Code_Tree\<close>, \<open>Code_Merge\<close>, \<open>Code_Balance\<close>, \<open>Code_Lengths\<close>, \<open>Code_Complete\<close> (the
    depth-limited Huffman construction), \<open>Code_Bits\<close>, \<open>Length_Runs\<close>, \<open>Description_Writer\<close>. Both:
    \<open>Description_Decoding\<close>, \<open>Description_Roundtrip\<close>, \<open>Simple_Roundtrip\<close>, \<open>Code_Roundtrip\<close>. The locale
    \<open>symbol_decoder\<close> is the interface of a table to its users.
  \<^item> \<open>Block_Switches\<close>, \<open>Block_Roundtrip\<close>: block types and lengths (\<open>decompressor/core/block.rs\<close>,
    \<open>shared/block_split.rs\<close>, \<open>shared/bitstream.rs\<close>). \<open>Context_Map\<close>, \<open>Map_Coding\<close>, \<open>Map_Roundtrip\<close>,
    \<open>Trivial_Map\<close>, \<open>Map_Safety\<close>: context maps (\<open>decompressor/core/context_map.rs\<close>, \<open>shared/bitstream.rs\<close>).
  \<^item> \<open>History_Ring\<close>, \<open>History_Growth\<close>: the sliding window of the decoder, its copies and the delivery of
    its bytes (\<open>decompressor/core/stream.rs\<close>). \<open>Varint\<close>: the integers of the container formats
    (\<open>compressor/core/rfc9841/varint.rs\<close>). \<open>Word_Dictionary\<close>: words with their transforms and attached
    prefixes (\<open>shared/dictionary/\<close>, \<open>dictionary/decode.rs\<close>, \<open>shared/decode_dictionary.rs\<close>).
  \<^item> \<open>Stream_State\<close>, \<open>Fast_Path\<close>, \<open>Stages\<close>: the machine of \<open>decompressor/core/stream.rs\<close>. A \<open>machine\<close> is
    the workspace \<open>dstream\<close>, the input and the output of the call; each \<open>Stage\<close> is a function
    \<open>stage_...\<close> from a machine to an outcome and a machine, \<open>stage_step\<close> dispatches over them,
    \<open>stage_loop\<close> is \<open>run_stages\<close>, and \<open>fast_loop\<close> is the bulk loop over commands (\<open>Stream::fast\<close>).
    \<open>stream_run\<close> is \<open>Stream::run\<close> with the read-ahead given back.
  \<^item> \<open>Stored\<close>, \<open>Session\<close>: the stored-member shortcut (\<open>decompressor/core/stored.rs\<close>), operations with their
    protocol, member boundaries and totals (\<open>decompressor/core/session.rs\<close>), the reusable decoder and
    its one-shot entry points (\<open>decompressor/decoder.rs\<close>). \<open>Stored_Member\<close>, \<open>Plain_Member\<close>: the shortcut
    against the parsers, and the whole machine on members of stored and metadata blocks.
    \<open>Session_Contract\<close>: what one call leaves for the next. \<open>Stored_Writer\<close>: the stored blocks of the
    encoder (\<open>store_uncompressed_meta_block\<close> of \<open>shared/bitstream.rs\<close>), through to the decoded bytes.

  State and errors. A struct is a record, an enum a datatype, \<open>Result<Option<T>, E>\<close> the sum
  \<open>E + T option\<close> with the state left behind, \<open>&mut\<close> parameters are returned updated. A byte is an
  \<open>8 word\<close>; the wider integers are natural numbers, with the truncation to their width written out
  (\<open>take_bit\<close>, \<open>shl\<close>, \<open>checked_add\<close>, \<open>mod\<close>) where the code can reach it; \<open>usize\<close> has 64 bits. The allocator
  is the parameter \<open>alloc\<close>: the capacity it grants for a request, or none. No property assumes that it
  grants anything: where memory can run out, the error is one of the outcomes.

  Loops. Loops over data are structural or have a measure. Loops that end for a reason of their own
  are \<open>partial_function (option)\<close>: the retries of the Huffman construction and its depth assignment
  (\<open>create_loop\<close>, \<open>set_depth_loop\<close>: they return for every histogram that can be coded, because doubling
  the least count ends in a balanced tree), and the loops of the ring (\<open>copy_ring\<close>, \<open>write_loop\<close>,
  \<open>double_copy\<close>: they return whenever the ring is not empty and the distance is not zero), and those
  of the machine (\<open>fast_literals\<close>, \<open>fast_loop\<close>, \<open>stage_loop\<close>, \<open>session_loop\<close>: for members of stored and
  metadata blocks the calls are shown to return). No fuel is used. Bounds in the properties are those of the code: alphabets up to 1128 symbols on the decoder's
  side and 704 on the encoder's, histogram totals for which the doubled counts stay below the
  sentinel \<open>2 ^ 32 - 1\<close>, windows of 2^6 to 2^62 bytes, slices shorter than \<open>2 ^ 63\<close>.

  What the lemmas show. Round trips: stored data from the ring of the encoder to the slice of the
  caller, prefix codes for any histogram whose counts do not overflow, block splits, context maps,
  headers, lengths, distances, command symbols, integers. Equivalences: the fast against the
  byte-exact paths, the stored-member shortcut against the machine, table construction against
  canonical codes, bulk against single list updates. Safety and invariants for arbitrary input:
  descriptions, block headers, context maps, the reservoir, the protocol of an operation. Refinement: the tables, the recent-distance ring and the history ring implement their
  abstract counterparts; the latter includes copies that wrap, overlap, or write up to fifteen bytes
  past their end. Errors: the output budget, reservations and the integers fail exactly as documented.

  Not modelled, and why. The encoder's choices (match finding, block splitting, clustering, optimal
  parsing) rest on floating-point cost estimates and change only which of the modelled inputs the
  writers see; with them the writers of whole compressed meta-blocks and the fast encoders are left
  out. The words of the static dictionary are a data blob of the build and an argument of the model.
  Serialized dictionaries, framing and parallel compression (experimental features), the one-shot
  entry points that grow a vector, adapters and C bindings are outside the model. The vector crate
  is used through the documented effect of its 16-byte loads and stores only. The steps of the
  machine on compressed meta-blocks are modelled in full; the theorems about it as a whole are for
  members without them, and the parts it is built of (codes, blocks, maps, distances, copies, the
  output budget) have theorems of their own.
\<close>

end
